(* ===== verification/Prelude.thy ===== *)
theory Prelude
  imports Main "HOL-Library.Word"
begin

text \<open>
  Shared vocabulary of the development: the machine integer types of the sources, the
  named collections that carry the component proofs, and generic lemmas on lists, words
  and function updates that several components need.
\<close>

unbundle bit_operations_syntax

subsection \<open>Machine types\<close>

type_synonym u8 = "8 word"
type_synonym u16 = "16 word"
type_synonym u32 = "32 word"
type_synonym u64 = "64 word"

text \<open>An address; \<open>NULL\<close> is address 0.\<close>

type_synonym addr = nat

abbreviation (input) NULL :: addr where
  "NULL \<equiv> 0"

subsection \<open>Collections\<close>

named_theorems list_ops \<open>definitions of the pointer operations of base/list.h\<close>
named_theorems hlist_ops \<open>definitions of the hlist operations of base/list.h\<close>
named_theorems tw_simps \<open>projections of the time wheel operations\<close>

subsection \<open>Lists\<close>

lemma remove1_split [simp]: "x \<notin> set xs \<Longrightarrow> remove1 x (xs @ x # ys) = xs @ ys"
  by (simp add: remove1_append)

lemma last_conv_snoc: "xs \<noteq> [] \<Longrightarrow> \<exists>ys. xs = ys @ [last xs]"
  by (metis append_butlast_last_id)

lemma filter_id_iff_all: "filter P xs = xs \<longleftrightarrow> (\<forall>x\<in>set xs. P x)"
  by (simp add: filter_id_conv)

lemma distinct_concat_map:
  assumes "distinct ps" and "\<And>i. i \<in> set ps \<Longrightarrow> distinct (g i)"
    and "\<And>i j. i \<in> set ps \<Longrightarrow> j \<in> set ps \<Longrightarrow> i \<noteq> j \<Longrightarrow> set (g i) \<inter> set (g j) = {}"
  shows "distinct (concat (map g ps))"
  using assms
proof (induction ps)
  case (Cons p ps)
  moreover have "set (g p) \<inter> set (concat (map g ps)) = {}"
    using Cons.prems(1,3) by fastforce
  ultimately show ?case by simp
qed simp

lemma length_concat_map_sum:
  "distinct ps \<Longrightarrow> length (concat (map g ps)) = (\<Sum>i\<in>set ps. length (g i))"
  by (induction ps) auto

subsection \<open>Words\<close>

lemma unat_and_mask:
  fixes w :: "'a::len word"
  shows "unat (w AND mask k) = unat w mod 2 ^ k"
proof -
  have "unat (take_bit k w) = take_bit k (unat w)" by (rule unsigned_take_bit_eq)
  then show ?thesis by (simp only: take_bit_eq_mask [symmetric]) (simp add: take_bit_eq_mod)
qed

lemma ucast_scast_32 [simp]: "(ucast (scast (w :: u32) :: u64) :: u32) = w"
  by (rule bit_word_eqI) (auto simp: bit_simps)

lemma sint_small:
  fixes a :: "'a::len word"
  assumes "uint a < 2 ^ (LENGTH('a) - 1)"
  shows "sint a = uint a"
proof -
  have "- (2 ^ (LENGTH('a) - 1)) \<le> uint a"
    using unsigned_greater_eq [of a] by (smt (verit) zero_le_power)
  with assms show ?thesis unfolding sint_uint by (intro signed_take_bit_int_eq_self) auto
qed

lemma unat_power_minus_1:
  fixes n :: "'a::len word"
  assumes "unat n = 2 ^ k"
  shows "n - 1 = mask k"
proof -
  have "n = of_nat (unat n)" by simp
  then have "n = 2 ^ k" by (simp add: assms)
  then show ?thesis by (simp add: mask_eq_exp_minus_1)
qed

lemma and_disjoint:
  fixes y p :: "'a::len word"
  assumes "unat y < 2 ^ k" "take_bit k p = 0"
  shows "y AND p = 0"
proof -
  have "take_bit k y = y" using assms(1)
    by (metis take_bit_nat_eq_self_iff unsigned_take_bit_eq word_unat_eq_iff)
  then have "y AND p = take_bit k y AND p" by simp
  also have "\<dots> = take_bit k y AND take_bit k p" by (simp add: take_bit_eq_mask and.assoc and.left_commute and.commute)
  finally show ?thesis using assms by simp
qed

lemma unat_or_disjoint:
  fixes y p :: "'a::len word"
  assumes "unat y < 2 ^ k" "take_bit k p = 0" "unat y + unat p < 2 ^ LENGTH('a)"
  shows "unat (y OR p) = unat y + unat p"
proof -
  have "y OR p = y + p" using and_disjoint [OF assms(1,2)] word_plus_and_or [of y p] by simp
  then show ?thesis using assms(3) by (simp add: unat_add_lem [THEN iffD1])
qed

lemma unat_u8_lt [simp]: "unat (b::u8) < 256"
  using unsigned_less [of b, where 'a = nat] by simp

lemma unat_ucast_u8 [simp]: "unat (ucast (b::u8) :: u32) = unat b"
  by (simp add: unsigned_ucast_eq take_bit_nat_eq_self_iff less_trans [OF unat_u8_lt])

lemma sint_u32: "unat (w::u32) < 2 ^ 31 \<Longrightarrow> sint w = int (unat w)"
proof -
  assume a: "unat w < 2 ^ 31"
  then have "int (unat w) < int (2 ^ 31)" by (simp only: of_nat_less_iff)
  then have "uint w < 2 ^ 31" by simp
  then show ?thesis by (subst sint_small) simp_all
qed

subsection \<open>Memory reads\<close>

text \<open>
  A read of a buffer at an offset. \<open>None\<close> is a read outside the buffer, which C leaves
  undefined: a model that returns \<open>None\<close> has run into undefined behaviour.
\<close>

fun rd :: "'a list \<Rightarrow> nat \<Rightarrow> 'a option" where
  "rd [] i = None"
| "rd (x # xs) 0 = Some x"
| "rd (x # xs) (Suc i) = rd xs i"

lemma rd_eq: "rd xs i = (if i < length xs then Some (xs ! i) else None)"
  by (induction xs i rule: rd.induct) auto

definition wr :: "'a list \<Rightarrow> nat \<Rightarrow> 'a \<Rightarrow> 'a list option" where
  "wr xs i v = (if i < length xs then Some (xs[i := v]) else None)"

text \<open>\<open>memcpy(dst + off, src, n)\<close> of all of \<open>src\<close> into a different object.\<close>

definition memcpy :: "'a list \<Rightarrow> nat \<Rightarrow> 'a list \<Rightarrow> 'a list option" where
  "memcpy dst off src =
     (if off + length src \<le> length dst
      then Some (take off dst @ src @ drop (off + length src) dst) else None)"

subsection \<open>Arithmetic\<close>

lemma mod_above_base:
  assumes "(B::nat) \<le> x" "x - B < m" "B mod m = 0"
  shows "x mod m = x - B"
proof -
  have "x mod m = (B + (x - B)) mod m" using assms(1) by simp
  also have "\<dots> = (x - B) mod m" using assms(3) by (metis add_0 mod_add_left_eq)
  finally show ?thesis using assms(2) by simp
qed

end
