(* ===== verification/CList.thy ===== *)
theory CList
  imports Prelude
begin

text \<open>
  The intrusive circular lists of \<open>base/list.h\<close>. The heap is the pair of its two field
  maps, \<open>next\<close> and \<open>prev\<close>; every function of the header is a function on heaps with the
  assignments in the order the source has them. \<open>is_list h l xs\<close> says that the nodes
  linked behind the head \<open>l\<close> are exactly \<open>xs\<close>, in order, in both directions. The
  operations are shown to implement the operations on HOL lists, with the frame lemma
  that a list whose nodes an operation does not touch is unchanged.
\<close>

subsection \<open>The heap and the operations\<close>

record lheap =
  nxt :: "addr \<Rightarrow> addr"
  prv :: "addr \<Rightarrow> addr"

definition set_next :: "addr \<Rightarrow> addr \<Rightarrow> lheap \<Rightarrow> lheap" where
  "set_next a v h = h\<lparr>nxt := (nxt h)(a := v)\<rparr>"

definition set_prev :: "addr \<Rightarrow> addr \<Rightarrow> lheap \<Rightarrow> lheap" where
  "set_prev a v h = h\<lparr>prv := (prv h)(a := v)\<rparr>"

definition INIT_LIST_HEAD :: "addr \<Rightarrow> lheap \<Rightarrow> lheap" where
  "INIT_LIST_HEAD l h = set_prev l l (set_next l l h)"

text \<open>\<open>__list_add\<close>: the four assignments in source order.\<close>

definition list_add_between :: "addr \<Rightarrow> addr \<Rightarrow> addr \<Rightarrow> lheap \<Rightarrow> lheap" where
  "list_add_between new prev next h =
     (let h1 = set_prev next new h;
          h2 = set_next new next h1;
          h3 = set_prev new prev h2
      in set_next prev new h3)"

definition list_add :: "addr \<Rightarrow> addr \<Rightarrow> lheap \<Rightarrow> lheap" where
  "list_add new head h = list_add_between new head (nxt h head) h"

definition list_add_tail :: "addr \<Rightarrow> addr \<Rightarrow> lheap \<Rightarrow> lheap" where
  "list_add_tail new head h = list_add_between new (prv h head) head h"

text \<open>\<open>__list_del\<close>.\<close>

definition list_del_between :: "addr \<Rightarrow> addr \<Rightarrow> lheap \<Rightarrow> lheap" where
  "list_del_between prev next h = set_next prev next (set_prev next prev h)"

definition list_del :: "addr \<Rightarrow> lheap \<Rightarrow> lheap" where
  "list_del entry h =
     set_prev entry NULL (set_next entry NULL (list_del_between (prv h entry) (nxt h entry) h))"

definition list_replace :: "addr \<Rightarrow> addr \<Rightarrow> lheap \<Rightarrow> lheap" where
  "list_replace old new h =
     (let h1 = set_next new (nxt h old) h;
          h2 = set_prev (nxt h1 new) new h1;
          h3 = set_prev new (prv h2 old) h2
      in set_next (prv h3 new) new h3)"

definition list_replace_init :: "addr \<Rightarrow> addr \<Rightarrow> lheap \<Rightarrow> lheap" where
  "list_replace_init old new h = INIT_LIST_HEAD old (list_replace old new h)"

definition list_del_init :: "addr \<Rightarrow> lheap \<Rightarrow> lheap" where
  "list_del_init entry h =
     INIT_LIST_HEAD entry (list_del_between (prv h entry) (nxt h entry) h)"

definition list_move :: "addr \<Rightarrow> addr \<Rightarrow> lheap \<Rightarrow> lheap" where
  "list_move l head h = list_add l head (list_del_between (prv h l) (nxt h l) h)"

definition list_move_tail :: "addr \<Rightarrow> addr \<Rightarrow> lheap \<Rightarrow> lheap" where
  "list_move_tail l head h = list_add_tail l head (list_del_between (prv h l) (nxt h l) h)"

definition list_is_last :: "addr \<Rightarrow> addr \<Rightarrow> lheap \<Rightarrow> bool" where
  "list_is_last l head h \<longleftrightarrow> nxt h l = head"

definition list_empty :: "addr \<Rightarrow> lheap \<Rightarrow> bool" where
  "list_empty head h \<longleftrightarrow> nxt h head = head"

definition list_empty_careful :: "addr \<Rightarrow> lheap \<Rightarrow> bool" where
  "list_empty_careful head h \<longleftrightarrow>
     (let next = nxt h head in next = head \<and> next = prv h head)"

definition list_is_singular :: "addr \<Rightarrow> lheap \<Rightarrow> bool" where
  "list_is_singular head h \<longleftrightarrow> \<not> list_empty head h \<and> nxt h head = prv h head"

text \<open>\<open>__list_cut_position\<close> and its guarded caller.\<close>

definition list_cut_position_raw :: "addr \<Rightarrow> addr \<Rightarrow> addr \<Rightarrow> lheap \<Rightarrow> lheap" where
  "list_cut_position_raw l head entry h =
     (let new_first = nxt h entry;
          h1 = set_next l (nxt h head) h;
          h2 = set_prev (nxt h1 l) l h1;
          h3 = set_prev l entry h2;
          h4 = set_next entry l h3;
          h5 = set_next head new_first h4
      in set_prev new_first head h5)"

definition list_cut_position :: "addr \<Rightarrow> addr \<Rightarrow> addr \<Rightarrow> lheap \<Rightarrow> lheap" where
  "list_cut_position l head entry h =
     (if list_empty head h then h
      else if list_is_singular head h \<and> nxt h head \<noteq> entry \<and> head \<noteq> entry then h
      else if entry = head then INIT_LIST_HEAD l h
      else list_cut_position_raw l head entry h)"

text \<open>\<open>__list_splice\<close> and its four callers.\<close>

definition list_splice_between :: "addr \<Rightarrow> addr \<Rightarrow> addr \<Rightarrow> lheap \<Rightarrow> lheap" where
  "list_splice_between l prev next h =
     (let first = nxt h l; last = prv h l;
          h1 = set_prev first prev h;
          h2 = set_next prev first h1;
          h3 = set_next last next h2
      in set_prev next last h3)"

definition list_splice :: "addr \<Rightarrow> addr \<Rightarrow> lheap \<Rightarrow> lheap" where
  "list_splice l head h =
     (if \<not> list_empty l h then list_splice_between l head (nxt h head) h else h)"

definition list_splice_tail :: "addr \<Rightarrow> addr \<Rightarrow> lheap \<Rightarrow> lheap" where
  "list_splice_tail l head h =
     (if \<not> list_empty l h then list_splice_between l (prv h head) head h else h)"

definition list_splice_init :: "addr \<Rightarrow> addr \<Rightarrow> lheap \<Rightarrow> lheap" where
  "list_splice_init l head h =
     (if \<not> list_empty l h
      then INIT_LIST_HEAD l (list_splice_between l head (nxt h head) h) else h)"

definition list_splice_tail_init :: "addr \<Rightarrow> addr \<Rightarrow> lheap \<Rightarrow> lheap" where
  "list_splice_tail_init l head h =
     (if \<not> list_empty l h
      then INIT_LIST_HEAD l (list_splice_between l (prv h head) head h) else h)"

text \<open>The two pops return \<open>NULL\<close> on an empty list.\<close>

definition list_pop_head :: "addr \<Rightarrow> lheap \<Rightarrow> addr \<times> lheap" where
  "list_pop_head head h =
     (if list_empty head h then (NULL, h)
      else let n = nxt h head in (n, list_del_init n h))"

definition list_pop_tail :: "addr \<Rightarrow> lheap \<Rightarrow> addr \<times> lheap" where
  "list_pop_tail head h =
     (if list_empty head h then (NULL, h)
      else let n = prv h head in (n, list_del_init n h))"

text \<open>\<open>list_swap\<close> threads the two lists through the local variable \<open>mid\<close>, whose address
  is an argument here.\<close>

definition list_swap :: "addr \<Rightarrow> addr \<Rightarrow> addr \<Rightarrow> lheap \<Rightarrow> lheap" where
  "list_swap mid l r h =
     (let h1 = list_add mid l h;
          h2 = list_del_init l h1;
          h3 = list_add l r h2;
          h4 = list_del_init r h3;
          h5 = list_add r mid h4
      in list_del_init mid h5)"

text \<open>
  The nodes \<open>list_for_each\<close> visits: from \<open>pos\<close> along \<open>next\<close> until the head comes
  back; \<open>list_for_each_prev\<close> follows \<open>prev\<close>. \<open>None\<close> when the fuel does not reach the
  head.
\<close>

fun list_for_each_from :: "nat \<Rightarrow> (addr \<Rightarrow> addr) \<Rightarrow> addr \<Rightarrow> addr \<Rightarrow> addr list option" where
  "list_for_each_from 0 f pos head = None"
| "list_for_each_from (Suc n) f pos head =
     (if pos = head then Some []
      else map_option ((#) pos) (list_for_each_from n f (f pos) head))"

definition list_for_each :: "nat \<Rightarrow> addr \<Rightarrow> lheap \<Rightarrow> addr list option" where
  "list_for_each n head h = list_for_each_from n (nxt h) (nxt h head) head"

definition list_for_each_prev :: "nat \<Rightarrow> addr \<Rightarrow> lheap \<Rightarrow> addr list option" where
  "list_for_each_prev n head h = list_for_each_from n (prv h) (prv h head) head"

text \<open>
  The loop macros that tolerate removal of the current node,
  \<open>for (pos = head->next, n = pos->next; pos != head; pos = n, n = n->next)\<close> and its
  reverse: the successor is read before the body runs, its own successor after. The state
  of the loop is any type \<open>'s\<close> with a heap \<open>hp\<close> in it; \<open>None\<close> when the fuel runs out.
\<close>

fun for_each_safe_from ::
  "nat \<Rightarrow> (lheap \<Rightarrow> addr \<Rightarrow> addr) \<Rightarrow> ('s \<Rightarrow> lheap) \<Rightarrow> (addr \<Rightarrow> 's \<Rightarrow> 's) \<Rightarrow> addr \<Rightarrow> addr \<Rightarrow> addr \<Rightarrow> 's \<Rightarrow> 's option"
where
  "for_each_safe_from 0 lk hp body head p n s = None"
| "for_each_safe_from (Suc k) lk hp body head p n s =
     (if p = head then Some s
      else let s' = body p s in for_each_safe_from k lk hp body head n (lk (hp s') n) s')"

definition list_for_each_entry_safe ::
  "nat \<Rightarrow> ('s \<Rightarrow> lheap) \<Rightarrow> (addr \<Rightarrow> 's \<Rightarrow> 's) \<Rightarrow> addr \<Rightarrow> 's \<Rightarrow> 's option" where
  "list_for_each_entry_safe k hp body head s =
     (let p = nxt (hp s) head in for_each_safe_from k nxt hp body head p (nxt (hp s) p) s)"

definition list_for_each_entry_safe_reverse ::
  "nat \<Rightarrow> ('s \<Rightarrow> lheap) \<Rightarrow> (addr \<Rightarrow> 's \<Rightarrow> 's) \<Rightarrow> addr \<Rightarrow> 's \<Rightarrow> 's option" where
  "list_for_each_entry_safe_reverse k hp body head s =
     (let p = prv (hp s) head in for_each_safe_from k prv hp body head p (prv (hp s) p) s)"

lemmas [list_ops] =
  set_next_def set_prev_def INIT_LIST_HEAD_def list_add_between_def list_add_def
  list_add_tail_def list_del_between_def list_del_def list_replace_def list_replace_init_def
  list_del_init_def list_move_def list_move_tail_def list_is_last_def list_empty_def
  list_empty_careful_def list_is_singular_def list_cut_position_raw_def list_cut_position_def
  list_splice_between_def list_splice_def list_splice_tail_def list_splice_init_def
  list_splice_tail_init_def Let_def

subsection \<open>Lists in the heap\<close>

text \<open>\<open>seg h a xs b\<close>: from \<open>a\<close> through exactly the nodes \<open>xs\<close> to \<open>b\<close>, both ways.\<close>

fun seg :: "lheap \<Rightarrow> addr \<Rightarrow> addr list \<Rightarrow> addr \<Rightarrow> bool" where
  "seg h a [] b \<longleftrightarrow> nxt h a = b \<and> prv h b = a"
| "seg h a (x # xs) b \<longleftrightarrow> nxt h a = x \<and> prv h x = a \<and> seg h x xs b"

definition is_list :: "lheap \<Rightarrow> addr \<Rightarrow> addr list \<Rightarrow> bool" where
  "is_list h l xs \<longleftrightarrow> distinct (l # xs) \<and> seg h l xs l"

lemma seg_append:
  "seg h a (xs @ x # ys) b \<longleftrightarrow> seg h a xs x \<and> seg h x ys b"
  by (induction xs arbitrary: a) auto

lemma seg_first: "seg h a xs b \<Longrightarrow> nxt h a = hd (xs @ [b])"
  by (cases xs) auto

lemma seg_last: "seg h a xs b \<Longrightarrow> prv h b = last (a # xs)"
  by (induction xs arbitrary: a) auto

lemma seg_last_next: "seg h a xs b \<Longrightarrow> nxt h (last (a # xs)) = b"
  by (induction xs arbitrary: a) auto

text \<open>Frame: a segment only reads \<open>next\<close> of its start and its nodes, and \<open>prev\<close> of its
  nodes and its end.\<close>

lemma seg_frame:
  assumes "seg h a xs b"
    and "\<And>y. y \<in> set (a # xs) \<Longrightarrow> nxt h' y = nxt h y"
    and "\<And>y. y \<in> set (xs @ [b]) \<Longrightarrow> prv h' y = prv h y"
  shows "seg h' a xs b"
  using assms by (induction xs arbitrary: a) auto

text \<open>A non-empty segment moved between other ends: only the links inside it are kept.\<close>

lemma seg_retarget:
  assumes "seg h a xs b" and "xs \<noteq> []" and "distinct xs"
    and "\<And>y. y \<in> set xs \<Longrightarrow> y \<noteq> last xs \<Longrightarrow> nxt h' y = nxt h y"
    and "\<And>y. y \<in> set xs \<Longrightarrow> y \<noteq> hd xs \<Longrightarrow> prv h' y = prv h y"
    and "nxt h' a' = hd xs" and "prv h' (hd xs) = a'"
    and "nxt h' (last xs) = b'" and "prv h' b' = last xs"
  shows "seg h' a' xs b'"
  using assms
proof (induction xs arbitrary: a a')
  case Nil
  then show ?case by simp
next
  case (Cons x xs)
  show ?case
  proof (cases "xs = []")
    case True
    with Cons.prems show ?thesis by simp
  next
    case False
    have hx: "hd xs \<in> set xs" and lx: "last xs \<in> set xs" using False by auto
    have x: "x \<noteq> last xs" using Cons.prems(3) lx by auto
    have "nxt h x = hd xs" and "prv h (hd xs) = x"
      using Cons.prems(1) False by (cases xs; auto)+
    moreover have "nxt h' x = nxt h x" using Cons.prems(4) False x by simp
    moreover have "prv h' (hd xs) = prv h (hd xs)"
      using Cons.prems(3,5) hx by auto
    ultimately have "seg h' x xs b'"
      using Cons.prems False by (intro Cons.IH [of x x]) auto
    with Cons.prems show ?thesis by simp
  qed
qed

lemma is_list_frame:
  assumes "is_list h l xs"
    and "\<And>y. y \<in> set (l # xs) \<Longrightarrow> nxt h' y = nxt h y \<and> prv h' y = prv h y"
  shows "is_list h' l xs"
  using assms unfolding is_list_def by (auto intro: seg_frame)

lemma is_list_rotate: "is_list h l (xs @ x # ys) \<Longrightarrow> is_list h x (ys @ l # xs)"
  by (auto simp: is_list_def seg_append)

lemma is_list_Nil: "is_list h l [] \<longleftrightarrow> nxt h l = l \<and> prv h l = l"
  by (auto simp: is_list_def)

lemma is_list_unlinkedI [intro]: "nxt h l = l \<Longrightarrow> prv h l = l \<Longrightarrow> is_list h l []"
  by (simp add: is_list_Nil)

lemma is_list_next: "is_list h l xs \<Longrightarrow> nxt h l = hd (xs @ [l])"
  by (auto simp: is_list_def dest: seg_first)

lemma is_list_prev: "is_list h l xs \<Longrightarrow> prv h l = last (l # xs)"
  by (auto simp: is_list_def dest: seg_last)

lemma list_empty_iff: "is_list h l xs \<Longrightarrow> list_empty l h \<longleftrightarrow> xs = []"
  by (cases xs) (auto simp: list_empty_def is_list_def)

lemma list_empty_careful_iff: "is_list h l xs \<Longrightarrow> list_empty_careful l h \<longleftrightarrow> xs = []"
  by (cases xs) (auto simp: list_empty_careful_def is_list_def)

lemma list_is_singular_iff: "is_list h l xs \<Longrightarrow> list_is_singular l h \<longleftrightarrow> length xs = 1"
proof -
  assume *: "is_list h l xs"
  show ?thesis
  proof (cases xs)
    case (Cons x ys)
    with is_list_next [OF *] is_list_prev [OF *] * show ?thesis
      by (cases ys rule: rev_cases)
        (auto simp: list_is_singular_def list_empty_def is_list_def)
  qed (use * in \<open>auto simp: list_is_singular_def list_empty_def is_list_def\<close>)
qed

lemma list_is_last_iff:
  "is_list h l (xs @ x # ys) \<Longrightarrow> list_is_last x l h \<longleftrightarrow> ys = []"
  by (cases ys) (auto simp: list_is_last_def is_list_def seg_append)

subsection \<open>Insertion and removal\<close>

text \<open>Everything that inserts is \<open>list_add\<close> at some node of the ring seen as its head.\<close>

lemma list_add_is_list:
  assumes "is_list h l xs" and "n \<notin> set (l # xs)"
  shows "is_list (list_add n l h) l (n # xs)"
proof (cases xs)
  case Nil
  with assms show ?thesis by (auto simp: list_ops is_list_def)
next
  case (Cons x ys)
  have "seg (list_add n l h) x ys l"
    by (rule seg_frame [of h]) (use assms Cons in \<open>auto simp: list_ops is_list_def\<close>)
  with assms Cons show ?thesis by (auto simp: list_ops is_list_def)
qed

lemma list_add_frame:
  assumes "is_list h l xs" and "y \<notin> set (n # l # xs)"
  shows "nxt (list_add n l h) y = nxt h y" and "prv (list_add n l h) y = prv h y"
  using assms by (cases xs; auto simp: list_ops is_list_def)+

lemma is_list_unrotate:
  "is_list h l (front @ [p]) \<longleftrightarrow> is_list h p (l # front)"
  using is_list_rotate [of h l front p "[]"] is_list_rotate [of h p "[]" l front] by auto

lemma list_add_tail_as_add:
  "is_list h l xs \<Longrightarrow> list_add_tail n l h = list_add n (prv h l) h"
  by (cases xs rule: rev_cases)
    (auto simp: list_add_tail_def list_add_def is_list_def seg_append)

lemma list_add_tail_is_list:
  assumes "is_list h l xs" and "n \<notin> set (l # xs)"
  shows "is_list (list_add_tail n l h) l (xs @ [n])"
proof (cases xs rule: rev_cases)
  case Nil
  then have "prv h l = l" using assms by (simp add: is_list_Nil)
  with Nil assms list_add_is_list [of h l "[]" n] show ?thesis
    by (simp add: list_add_tail_as_add [OF assms(1)])
next
  case (snoc front p)
  with assms(1) have p: "is_list h p (l # front)" by (simp add: is_list_unrotate)
  then have "prv h l = p" by (simp add: is_list_def)
  with p have "is_list (list_add_tail n l h) p (n # l # front)"
    using list_add_is_list [OF p] assms snoc by (auto simp: list_add_tail_as_add [OF assms(1)])
  then have "is_list (list_add_tail n l h) l (front @ p # [n])"
    using is_list_rotate [of _ p "[n]" l front] by simp
  with snoc show ?thesis by simp
qed

lemma list_add_tail_frame:
  assumes "is_list h l xs" and "y \<notin> set (n # l # xs)"
  shows "nxt (list_add_tail n l h) y = nxt h y" and "prv (list_add_tail n l h) y = prv h y"
proof -
  obtain p zs where "is_list h p zs" and "prv h l = p" and "set (p # zs) = set (l # xs)"
  proof (cases xs rule: rev_cases)
    case Nil
    with assms that [of l "[]"] show ?thesis by (auto simp: is_list_Nil)
  next
    case (snoc front p)
    then have p: "is_list h p (l # front)" using assms by (simp add: is_list_unrotate)
    then have "prv h l = p" by (simp add: is_list_def)
    with p that [of p "l # front"] snoc show ?thesis by auto
  qed
  with assms show "nxt (list_add_tail n l h) y = nxt h y"
    and "prv (list_add_tail n l h) y = prv h y"
    using list_add_frame [of h p zs y n] by (auto simp: list_add_tail_as_add)
qed

text \<open>Unlinking the node behind the head of a ring; every removal is of this form.\<close>

lemma del_between_is_list:
  assumes "is_list h l (xs @ x # ys)"
  shows "is_list (list_del_between (prv h x) (nxt h x) h) l (xs @ ys)"
proof -
  define h' where "h' = list_del_between (prv h x) (nxt h x) h"
  have s1: "seg h l xs x" and s2: "seg h x ys l" and d: "distinct (l # xs @ x # ys)"
    using assms by (auto simp: is_list_def seg_append)
  have p: "prv h x = last (l # xs)" and n: "nxt h x = hd (ys @ [l])"
    using s1 s2 by (auto dest: seg_first seg_last)
  have nxt': "nxt h' y = (if y = last (l # xs) then hd (ys @ [l]) else nxt h y)" for y
    by (simp add: h'_def list_del_between_def set_next_def set_prev_def p n)
  have prv': "prv h' y = (if y = hd (ys @ [l]) then last (l # xs) else prv h y)" for y
    by (simp add: h'_def list_del_between_def set_next_def set_prev_def p n)
  have nx: "hd (ys @ [l]) \<in> insert l (set ys)" by (cases ys) auto
  have px: "last (l # xs) \<in> insert l (set xs)" by auto
  have front: "seg h' l zs z" if "xs = zs @ [z]" for zs z
  proof (rule seg_frame)
    show "seg h l zs z" using s1 that by (simp add: seg_append)
  qed (use d nx that in \<open>auto simp: nxt' prv'\<close>)
  have rear: "seg h' y zs l" if "ys = y # zs" for y zs
  proof (rule seg_frame)
    show "seg h y zs l" using s2 that by simp
  qed (use d px that in \<open>auto simp: nxt' prv'\<close>)
  have "is_list h' l (xs @ ys)"
  proof (cases xs rule: rev_cases)
    case Nil
    with d rear show ?thesis by (cases ys) (auto simp: is_list_def nxt' prv')
  next
    case (snoc zs z)
    with d rear front [OF snoc] show ?thesis
      by (cases ys) (auto simp: is_list_def nxt' prv' seg_append)
  qed
  then show ?thesis by (simp add: h'_def)
qed

lemma del_between_frame:
  assumes "is_list h l (xs @ x # ys)" and "y \<notin> set (l # xs @ ys)"
  shows "nxt (list_del_between (prv h x) (nxt h x) h) y = nxt h y"
    and "prv (list_del_between (prv h x) (nxt h x) h) y = prv h y"
proof -
  have "is_list h x (ys @ l # xs)"
    using assms(1) by (rule is_list_rotate)
  then have "nxt h x \<in> set (l # xs @ ys)" and "prv h x \<in> set (l # xs @ ys)"
    using is_list_next [of h x "ys @ l # xs"] is_list_prev [of h x "ys @ l # xs"]
    by (cases ys; auto)+
  with assms(2) show "nxt (list_del_between (prv h x) (nxt h x) h) y = nxt h y"
    and "prv (list_del_between (prv h x) (nxt h x) h) y = prv h y"
    by (auto simp: list_ops)
qed

lemma INIT_LIST_HEAD_is_list: "is_list (INIT_LIST_HEAD l h) l []"
  by (simp add: list_ops is_list_def)

lemma INIT_LIST_HEAD_frame:
  "y \<noteq> l \<Longrightarrow> nxt (INIT_LIST_HEAD l h) y = nxt h y"
  "y \<noteq> l \<Longrightarrow> prv (INIT_LIST_HEAD l h) y = prv h y"
  by (simp_all add: list_ops)

lemma list_del_init_is_list:
  assumes "is_list h l (xs @ x # ys)"
  shows "is_list (list_del_init x h) l (xs @ ys)" and "is_list (list_del_init x h) x []"
proof -
  show "is_list (list_del_init x h) x []"
    by (simp add: list_del_init_def INIT_LIST_HEAD_is_list)
  show "is_list (list_del_init x h) l (xs @ ys)"
    unfolding list_del_init_def
    by (rule is_list_frame [OF del_between_is_list [OF assms]])
      (use assms in \<open>auto simp: is_list_def INIT_LIST_HEAD_def set_next_def set_prev_def\<close>)
qed

lemma list_del_init_frame:
  assumes "is_list h l (xs @ x # ys)" and "y \<notin> set (l # xs @ x # ys)"
  shows "nxt (list_del_init x h) y = nxt h y" and "prv (list_del_init x h) y = prv h y"
  using assms del_between_frame [OF assms(1), of y]
  by (auto simp: list_del_init_def INIT_LIST_HEAD_frame)

text \<open>A node that is in no list is linked to itself, and deleting it changes nothing.\<close>

lemma list_del_init_unlinked:
  assumes "is_list h x []"
  shows "list_del_init x h = h"
proof -
  have "nxt h x = x" "prv h x = x" using assms by (auto simp: is_list_Nil)
  then have "(nxt h)(x := x) = nxt h" "(prv h)(x := x) = prv h" by auto
  then show ?thesis
    using \<open>nxt h x = x\<close> \<open>prv h x = x\<close> by (simp add: list_ops)
qed

lemma list_del_is_list:
  assumes "is_list h l (xs @ x # ys)"
  shows "is_list (list_del x h) l (xs @ ys)"
    and "nxt (list_del x h) x = NULL" and "prv (list_del x h) x = NULL"
proof -
  show "nxt (list_del x h) x = NULL" "prv (list_del x h) x = NULL"
    by (simp_all add: list_del_def set_next_def set_prev_def)
  show "is_list (list_del x h) l (xs @ ys)"
    unfolding list_del_def
    by (rule is_list_frame [OF del_between_is_list [OF assms]])
      (use assms in \<open>auto simp: is_list_def set_next_def set_prev_def\<close>)
qed

subsection \<open>Replacing, moving, splicing and cutting\<close>

lemma list_replace_head:
  assumes "is_list h old zs" and "new \<notin> set (old # zs)"
  shows "is_list (list_replace old new h) new zs"
proof (cases "zs = []")
  case True
  with assms show ?thesis by (auto simp: list_ops is_list_def)
next
  case False
  define h' where "h' = list_replace old new h"
  have n: "nxt h old = hd zs" and p: "prv h old = last zs"
    using is_list_next [OF assms(1)] is_list_prev [OF assms(1)] False by simp_all
  have d: "distinct (old # zs)" and s: "seg h old zs old"
    using assms(1) by (simp_all add: is_list_def)
  have mem: "hd zs \<in> set zs" "last zs \<in> set zs" using False by auto
  have nxt': "nxt h' y = (if y = last zs then new else if y = new then hd zs else nxt h y)" for y
    using assms d n p mem by (auto simp: h'_def list_ops)
  have prv': "prv h' y = (if y = new then last zs else if y = hd zs then new else prv h y)" for y
    using assms d n p mem by (auto simp: h'_def list_ops)
  have "seg h' new zs new"
    by (rule seg_retarget [OF s False]) (use assms(2) d mem in \<open>auto simp: nxt' prv'\<close>)
  with assms(2) d show ?thesis by (auto simp: is_list_def h'_def)
qed

lemma list_replace_is_list:
  assumes "is_list h l (xs @ old # ys)" and "new \<notin> set (l # xs @ old # ys)"
  shows "is_list (list_replace old new h) l (xs @ new # ys)"
proof -
  have "is_list (list_replace old new h) new (ys @ l # xs)"
    by (rule list_replace_head [OF is_list_rotate [OF assms(1)]]) (use assms(2) in auto)
  then show ?thesis by (rule is_list_rotate)
qed

lemma list_replace_init_is_list:
  assumes "is_list h l (xs @ old # ys)" and "new \<notin> set (l # xs @ old # ys)"
  shows "is_list (list_replace_init old new h) l (xs @ new # ys)"
    and "is_list (list_replace_init old new h) old []"
proof -
  show "is_list (list_replace_init old new h) old []"
    by (simp add: list_replace_init_def INIT_LIST_HEAD_is_list)
  show "is_list (list_replace_init old new h) l (xs @ new # ys)"
    unfolding list_replace_init_def
    by (rule is_list_frame [OF list_replace_is_list [OF assms]])
      (use assms in \<open>auto simp: is_list_def INIT_LIST_HEAD_def set_next_def set_prev_def\<close>)
qed

lemma del_between_other:
  assumes "is_list h l (xs @ x # ys)" and "is_list h m zs"
    and "set (m # zs) \<inter> set (l # xs @ x # ys) = {}"
  shows "is_list (list_del_between (prv h x) (nxt h x) h) m zs"
proof (rule is_list_frame [OF assms(2)])
  fix y
  assume "y \<in> set (m # zs)"
  with assms(3) have "y \<notin> set (l # xs @ ys)" by auto
  then show "nxt (list_del_between (prv h x) (nxt h x) h) y = nxt h y \<and>
      prv (list_del_between (prv h x) (nxt h x) h) y = prv h y"
    using del_between_frame [OF assms(1)] by blast
qed

lemma list_move_is_list:
  assumes "is_list h l (xs @ x # ys)" and "is_list h m zs"
    and "set (m # zs) \<inter> set (l # xs @ x # ys) = {}"
  shows "is_list (list_move x m h) m (x # zs)" and "is_list (list_move x m h) l (xs @ ys)"
    and "is_list (list_move_tail x m h) m (zs @ [x])"
    and "is_list (list_move_tail x m h) l (xs @ ys)"
proof -
  let ?h = "list_del_between (prv h x) (nxt h x) h"
  have m: "is_list ?h m zs" using assms by (rule del_between_other)
  have l: "is_list ?h l (xs @ ys)" using assms(1) by (rule del_between_is_list)
  have d: "distinct (l # xs @ x # ys)" using assms(1) by (simp add: is_list_def)
  have x: "x \<notin> set (m # zs)" using assms(3) by auto
  show "is_list (list_move x m h) m (x # zs)"
    unfolding list_move_def by (rule list_add_is_list [OF m x])
  show "is_list (list_move_tail x m h) m (zs @ [x])"
    unfolding list_move_tail_def by (rule list_add_tail_is_list [OF m x])
  have fresh: "y \<notin> set (x # m # zs)" if "y \<in> set (l # xs @ ys)" for y
    using that assms(3) d by auto
  show "is_list (list_move x m h) l (xs @ ys)"
    unfolding list_move_def
    by (rule is_list_frame [OF l]) (use list_add_frame [OF m fresh] in auto)
  show "is_list (list_move_tail x m h) l (xs @ ys)"
    unfolding list_move_tail_def
    by (rule is_list_frame [OF l]) (use list_add_tail_frame [OF m fresh] in auto)
qed

text \<open>Splicing behind \<open>p\<close>, the ring seen from \<open>p\<close> as its head.\<close>

lemma splice_between_is_list:
  assumes l: "is_list h l xs" "xs \<noteq> []" and p: "is_list h p zs"
    and dj: "set (l # xs) \<inter> set (p # zs) = {}"
  shows "is_list (list_splice_between l p (nxt h p) h) p (xs @ zs)"
proof -
  define h' where "h' = list_splice_between l p (nxt h p) h"
  define e where "e = hd (zs @ [p])"
  have first: "nxt h l = hd xs" and last: "prv h l = last xs" and nx: "nxt h p = e"
    using is_list_next [OF l(1)] is_list_prev [OF l(1)] is_list_next [OF p] l(2)
    by (simp_all add: e_def)
  have d: "distinct (l # xs)" "distinct (p # zs)" and s: "seg h l xs l" "seg h p zs p"
    using l p by (auto simp: is_list_def)
  have nxt': "nxt h' y = (if y = last xs then e else if y = p then hd xs else nxt h y)" for y
    by (simp add: h'_def list_splice_between_def set_next_def set_prev_def Let_def first last nx)
  have prv': "prv h' y = (if y = e then last xs else if y = hd xs then p else prv h y)" for y
    by (simp add: h'_def list_splice_between_def set_next_def set_prev_def Let_def first last nx)
  have mem: "hd xs \<in> set xs" "last xs \<in> set xs" "e \<in> set (p # zs)"
    using l(2) by (auto simp: e_def) (cases zs; simp)
  have front: "seg h' p xs e"
    by (rule seg_retarget [OF s(1) l(2)]) (use dj d mem in \<open>auto simp: nxt' prv'\<close>)
  have "seg h' p (xs @ zs) p"
  proof (cases zs)
    case Nil
    with front show ?thesis by (simp add: e_def)
  next
    case (Cons z zs')
    have "seg h' z zs' p"
    proof (rule seg_frame)
      show "seg h z zs' p" using s(2) Cons by simp
    qed (use dj d mem Cons in \<open>auto simp: nxt' prv' e_def\<close>)
    with front Cons show ?thesis by (simp add: seg_append e_def)
  qed
  with dj d show ?thesis by (auto simp: is_list_def h'_def)
qed

lemma splice_between_frame:
  assumes "is_list h l xs" and "is_list h p zs" and "y \<notin> set (xs @ p # zs)" and "xs \<noteq> []"
  shows "nxt (list_splice_between l p (nxt h p) h) y = nxt h y"
    and "prv (list_splice_between l p (nxt h p) h) y = prv h y"
proof -
  have "nxt h l \<in> set xs" "prv h l \<in> set xs" "nxt h p \<in> set (p # zs)"
    using is_list_next [OF assms(1)] is_list_prev [OF assms(1)] is_list_next [OF assms(2)] assms(4)
    by (auto simp: neq_Nil_conv) (cases zs; simp)
  with assms(3) show "nxt (list_splice_between l p (nxt h p) h) y = nxt h y"
    and "prv (list_splice_between l p (nxt h p) h) y = prv h y"
    by (auto simp: list_splice_between_def set_next_def set_prev_def Let_def)
qed

lemma list_splice_is_list:
  assumes "is_list h l xs" and "is_list h m ys" and "set (l # xs) \<inter> set (m # ys) = {}"
  shows "is_list (list_splice l m h) m (xs @ ys)"
  using assms splice_between_is_list [OF assms(1) _ assms(2,3)]
  by (cases "xs = []") (auto simp: list_splice_def list_empty_iff)

text \<open>Splicing at the tail is splicing behind the last node.\<close>

lemma splice_tail_between_is_list:
  assumes "is_list h l xs" and "xs \<noteq> []" and "is_list h m ys"
    and "set (l # xs) \<inter> set (m # ys) = {}"
  shows "is_list (list_splice_between l (prv h m) m h) m (ys @ xs)"
proof (cases ys rule: rev_cases)
  case Nil
  with assms have "prv h m = m" "nxt h m = m" by (simp_all add: is_list_Nil)
  with splice_between_is_list [OF assms] Nil show ?thesis by simp
next
  case (snoc front p)
  with assms(3) have p: "is_list h p (m # front)" by (simp add: is_list_unrotate)
  then have "prv h m = p" "nxt h p = m" by (simp_all add: is_list_def)
  with splice_between_is_list [OF assms(1,2) p] snoc assms(4)
  have "is_list (list_splice_between l (prv h m) m h) p (xs @ m # front)" by auto
  then show ?thesis using is_list_rotate snoc by fastforce
qed

lemma list_splice_tail_is_list:
  assumes "is_list h l xs" and "is_list h m ys" and "set (l # xs) \<inter> set (m # ys) = {}"
  shows "is_list (list_splice_tail l m h) m (ys @ xs)"
  using assms splice_tail_between_is_list [OF assms(1) _ assms(2,3)]
  by (cases "xs = []") (auto simp: list_splice_tail_def list_empty_iff)

lemma is_list_after_INIT:
  "is_list h m zs \<Longrightarrow> l \<notin> set (m # zs) \<Longrightarrow> is_list (INIT_LIST_HEAD l h) m zs"
  by (rule is_list_frame) (auto simp: INIT_LIST_HEAD_def set_next_def set_prev_def)

lemma list_splice_init_is_list:
  assumes "is_list h l xs" and "is_list h m ys" and "set (l # xs) \<inter> set (m # ys) = {}"
  shows "is_list (list_splice_init l m h) m (xs @ ys) \<and> is_list (list_splice_init l m h) l []"
    and "is_list (list_splice_tail_init l m h) m (ys @ xs) \<and>
         is_list (list_splice_tail_init l m h) l []"
proof -
  have l: "l \<notin> set (m # xs @ ys)" using assms by (auto simp: is_list_def)
  show "is_list (list_splice_init l m h) m (xs @ ys) \<and> is_list (list_splice_init l m h) l []"
    using assms l splice_between_is_list [OF assms(1) _ assms(2,3)]
    by (cases "xs = []")
      (auto simp: list_splice_init_def list_empty_iff INIT_LIST_HEAD_is_list intro!: is_list_after_INIT)
  show "is_list (list_splice_tail_init l m h) m (ys @ xs) \<and>
        is_list (list_splice_tail_init l m h) l []"
    using assms l splice_tail_between_is_list [OF assms(1) _ assms(2,3)]
    by (cases "xs = []")
      (auto simp: list_splice_tail_init_def list_empty_iff INIT_LIST_HEAD_is_list
        intro!: is_list_after_INIT)
qed

lemma cut_raw_is_list:
  assumes "is_list h m (xs @ e # ys)" and "l \<notin> set (m # xs @ e # ys)"
  shows "is_list (list_cut_position_raw l m e h) l (xs @ [e])"
    and "is_list (list_cut_position_raw l m e h) m ys"
proof -
  define h' where "h' = list_cut_position_raw l m e h"
  define n where "n = hd (ys @ [m])"
  define f where "f = hd (xs @ [e])"
  have s: "seg h m (xs @ [e]) n" and d: "distinct (m # xs @ e # ys)"
    and s2: "seg h e ys m"
    using assms(1) by (cases ys; auto simp: is_list_def seg_append n_def)+
  have n: "nxt h e = n" using s2 by (auto simp: n_def dest: seg_first)
  have f: "nxt h m = f"
    using is_list_next [OF assms(1)] by (cases xs) (auto simp: f_def)
  have mem: "f \<in> set (xs @ [e])" "n \<in> set (m # ys)"
    by (cases xs; simp add: f_def) (cases ys; simp add: n_def)
  have nxt': "nxt h' y = (if y = m then n else if y = e then l else if y = l then f else nxt h y)" for y
    using d assms(2) by (auto simp: h'_def list_ops n f)
  have prv': "prv h' y = (if y = n then m else if y = l then e else if y = f then l else prv h y)" for y
    using d assms(2) mem by (auto simp: h'_def list_ops n f)
  have "f \<noteq> n" using mem d by auto
  then have "seg h' l (xs @ [e]) l"
    by (intro seg_retarget [OF s])
      (use d assms(2) mem in \<open>auto simp: nxt' prv' f_def [symmetric]\<close>)
  then show "is_list (list_cut_position_raw l m e h) l (xs @ [e])"
    using d assms(2) by (auto simp: is_list_def h'_def)
  have "seg h' m ys m"
  proof (cases "ys = []")
    case True
    with d assms(2) show ?thesis by (auto simp: nxt' prv' n_def)
  next
    case False
    show ?thesis
      by (rule seg_retarget [OF s2 False])
        (use False d assms(2) mem seg_last [OF s2] seg_last_next [OF s2]
          in \<open>auto simp: nxt' prv' n_def\<close>)
  qed
  then show "is_list (list_cut_position_raw l m e h) m ys"
    using d by (auto simp: is_list_def h'_def)
qed

lemma list_cut_position_is_list:
  assumes "is_list h m (xs @ e # ys)" and "l \<notin> set (m # xs @ e # ys)"
  shows "is_list (list_cut_position l m e h) l (xs @ [e])"
    and "is_list (list_cut_position l m e h) m ys"
proof -
  have "\<not> list_empty m h" and "e \<noteq> m"
    using list_empty_iff [OF assms(1)] assms(1) by (auto simp: is_list_def)
  moreover have "nxt h m = e" if "list_is_singular m h"
    using that assms(1) is_list_next [OF assms(1)]
    by (auto simp: list_is_singular_iff length_Suc_conv append_eq_Cons_conv)
  ultimately have "list_cut_position l m e h = list_cut_position_raw l m e h"
    by (auto simp: list_cut_position_def)
  with cut_raw_is_list [OF assms] show
    "is_list (list_cut_position l m e h) l (xs @ [e])" "is_list (list_cut_position l m e h) m ys"
    by simp_all
qed

text \<open>\<open>list_for_each\<close> visits the nodes in order, and one step of fuel per node and one for
  the head is enough.\<close>

lemma list_for_each_from_seg:
  "seg h a xs l \<Longrightarrow> distinct (l # xs) \<Longrightarrow> length xs < n \<Longrightarrow>
   list_for_each_from n (nxt h) (nxt h a) l = Some xs"
proof (induction xs arbitrary: a n)
  case Nil
  then show ?case by (cases n) auto
next
  case (Cons x xs)
  then show ?case by (cases n) auto
qed

lemma list_for_each_correct:
  "is_list h l xs \<Longrightarrow> length xs < n \<Longrightarrow> list_for_each n l h = Some xs"
  by (simp add: list_for_each_def is_list_def list_for_each_from_seg)

lemma list_for_each_prev_from_seg:
  "seg h l xs b \<Longrightarrow> distinct (l # xs) \<Longrightarrow> length xs < n \<Longrightarrow>
   list_for_each_from n (prv h) (prv h b) l = Some (rev xs)"
proof (induction xs arbitrary: b n rule: rev_induct)
  case Nil
  then show ?case by (cases n) auto
next
  case (snoc x xs)
  then show ?case by (cases n) (auto simp: seg_append)
qed

lemma list_for_each_prev_correct:
  "is_list h l xs \<Longrightarrow> length xs < n \<Longrightarrow> list_for_each_prev n l h = Some (rev xs)"
  by (simp add: list_for_each_prev_def is_list_def list_for_each_prev_from_seg)


subsection \<open>The removal-safe loops\<close>

text \<open>\<open>chain f xs l\<close>: along \<open>f\<close>, from the first of \<open>xs\<close> through \<open>xs\<close> to \<open>l\<close>.\<close>

fun chain :: "(addr \<Rightarrow> addr) \<Rightarrow> addr list \<Rightarrow> addr \<Rightarrow> bool" where
  "chain f [] l \<longleftrightarrow> True"
| "chain f (x # xs) l \<longleftrightarrow> x \<noteq> l \<and> f x = hd (xs @ [l]) \<and> chain f xs l"

lemma seg_chain: "seg h a xs l \<Longrightarrow> l \<notin> set xs \<Longrightarrow> chain (nxt h) xs l"
  by (induction xs arbitrary: a) (auto dest: seg_first)

lemma is_list_chain: "is_list h l (ys @ xs) \<Longrightarrow> chain (nxt h) xs l"
proof (cases xs)
  case (Cons x zs)
  assume "is_list h l (ys @ xs)"
  then have "seg h l ys x" "seg h x zs l" "l \<notin> set xs"
    using Cons by (auto simp: is_list_def seg_append)
  then show ?thesis using Cons seg_chain [of h x zs l] by (auto dest: seg_first)
qed simp

text \<open>The rule for the loops: an invariant \<open>I\<close> of the nodes still to visit, which keeps their
  chain intact, holds with no node left once the loop has run; the fuel needed is one per
  node and one for the head.\<close>

lemma for_each_safe_from_rule:
  assumes step: "\<And>x xs s. I (x # xs) s \<Longrightarrow> I xs (body x s)"
    and ch: "\<And>xs s. I xs s \<Longrightarrow> chain (lk (hp s)) xs l"
  shows "I xs s \<Longrightarrow> length xs < k \<Longrightarrow>
    (case xs of [] \<Rightarrow> True | x # ys \<Rightarrow> n = hd (ys @ [l])) \<Longrightarrow>
    \<exists>s'. for_each_safe_from k lk hp body l (hd (xs @ [l])) n s = Some s' \<and> I [] s'"
proof (induction xs arbitrary: k n s)
  case Nil
  then show ?case by (cases k) auto
next
  case (Cons x xs)
  then obtain k' where k: "k = Suc k'" by (cases k) auto
  have I': "I xs (body x s)" using Cons.prems(1) by (rule step)
  have xl: "x \<noteq> l" using ch [OF Cons.prems(1)] by simp
  have n: "n = hd (xs @ [l])" using Cons.prems(3) by simp
  have "case xs of [] \<Rightarrow> True | y # ys \<Rightarrow> lk (hp (body x s)) n = hd (ys @ [l])"
    using ch [OF I'] n by (cases xs) auto
  from Cons.IH [OF I' _ this, of k'] Cons.prems(2) k n xl show ?case by (simp add: Let_def)
qed

lemma list_for_each_entry_safe_rule:
  assumes "\<And>x xs s. I (x # xs) s \<Longrightarrow> I xs (body x s)"
    and "\<And>xs s. I xs s \<Longrightarrow> chain (nxt (hp s)) xs l"
    and "is_list (hp s) l xs" and "I xs s" and "length xs < k"
  shows "\<exists>s'. list_for_each_entry_safe k hp body l s = Some s' \<and> I [] s'"
proof -
  have p: "nxt (hp s) l = hd (xs @ [l])" using assms(3) by (rule is_list_next)
  moreover have "case xs of [] \<Rightarrow> True | x # ys \<Rightarrow> nxt (hp s) (hd (xs @ [l])) = hd (ys @ [l])"
    using assms(2) [OF assms(4)] by (cases xs) auto
  ultimately show ?thesis
    using for_each_safe_from_rule [of I body nxt hp l, OF assms(1,2,4,5)]
    by (simp add: list_for_each_entry_safe_def Let_def)
qed

text \<open>A node linked to itself under the cursor is never left.\<close>

lemma for_each_safe_from_stuck:
  assumes "p \<noteq> head" and "\<And>s. J s \<Longrightarrow> J (body p s)" and "\<And>s. J s \<Longrightarrow> lk (hp s) p = p"
  shows "J s \<Longrightarrow> for_each_safe_from k lk hp body head p p s = None"
proof (induction k arbitrary: s)
  case (Suc k)
  have "J (body p s)" using Suc.prems by (rule assms(2))
  with Suc.IH assms show ?case by (simp add: Let_def)
qed simp

text \<open>More fuel does not change a result.\<close>

lemma for_each_safe_from_mono:
  "for_each_safe_from k lk hp body head p n s = Some s' \<Longrightarrow> k \<le> k' \<Longrightarrow> for_each_safe_from k' lk hp body head p n s = Some s'"
proof (induction k arbitrary: k' p n s)
  case (Suc k)
  then show ?case by (cases k') (auto simp: Let_def split: if_splits)
qed simp

end
