(* ===== verification/ListStore.thy ===== *)
theory ListStore
  imports CList
begin

text \<open>
  What the clients of \<open>base/list.h\<close> rely on. A store gives the sequence of nodes behind
  each list head; \<open>list_rel H U h s\<close> says that the heap \<open>h\<close> represents the store \<open>s\<close> for
  the heads \<open>H\<close> over the nodes \<open>U\<close>: every node is in at most one list, at most once, and a
  node in no list is linked to itself. The locale \<open>link_store\<close> states the laws of the
  interface and derives the queue and stack disciplines from them; it is interpreted on
  the pointer operations of \<open>CList\<close>.
\<close>

type_synonym lstore = "addr \<Rightarrow> addr list"

definition linked :: "addr set \<Rightarrow> lstore \<Rightarrow> addr \<Rightarrow> bool" where
  "linked H s x \<longleftrightarrow> (\<exists>l\<in>H. x \<in> set (s l))"

definition st_add :: "addr \<Rightarrow> addr \<Rightarrow> lstore \<Rightarrow> lstore" where
  "st_add x l s = s(l := x # s l)"

definition st_add_tail :: "addr \<Rightarrow> addr \<Rightarrow> lstore \<Rightarrow> lstore" where
  "st_add_tail x l s = s(l := s l @ [x])"

definition st_del :: "addr \<Rightarrow> lstore \<Rightarrow> lstore" where
  "st_del x s = (\<lambda>l. remove1 x (s l))"

definition st_swap :: "addr \<Rightarrow> addr \<Rightarrow> lstore \<Rightarrow> lstore" where
  "st_swap l r s = s(l := s r, r := s l)"

definition list_rel :: "addr set \<Rightarrow> addr set \<Rightarrow> lheap \<Rightarrow> lstore \<Rightarrow> bool" where
  "list_rel H U h s \<longleftrightarrow>
     H \<inter> U = {} \<and>
     (\<forall>l\<in>H. is_list h l (s l) \<and> set (s l) \<subseteq> U) \<and>
     (\<forall>l\<in>H. \<forall>m\<in>H. l \<noteq> m \<longrightarrow> set (s l) \<inter> set (s m) = {}) \<and>
     (\<forall>x\<in>U. \<not> linked H s x \<longrightarrow> is_list h x [])"

subsection \<open>The interface\<close>

locale link_store =
  fixes rel :: "'h \<Rightarrow> lstore \<Rightarrow> bool"
    and heads nodes :: "addr set"
    and empty :: "addr \<Rightarrow> 'h \<Rightarrow> bool"
    and add add_tail :: "addr \<Rightarrow> addr \<Rightarrow> 'h \<Rightarrow> 'h"
    and del :: "addr \<Rightarrow> 'h \<Rightarrow> 'h"
    and pop_head pop_tail :: "addr \<Rightarrow> 'h \<Rightarrow> addr \<times> 'h"
  assumes rel_empty: "rel h s \<Longrightarrow> l \<in> heads \<Longrightarrow> empty l h \<longleftrightarrow> s l = []"
    and rel_unlinked: "rel h s \<Longrightarrow> x \<in> nodes \<Longrightarrow> empty x h \<longleftrightarrow> \<not> linked heads s x"
    and rel_once: "rel h s \<Longrightarrow> l \<in> heads \<Longrightarrow> distinct (s l)"
    and rel_apart: "rel h s \<Longrightarrow> l \<in> heads \<Longrightarrow> m \<in> heads \<Longrightarrow> l \<noteq> m \<Longrightarrow> set (s l) \<inter> set (s m) = {}"
    and rel_nodes: "rel h s \<Longrightarrow> l \<in> heads \<Longrightarrow> set (s l) \<subseteq> nodes"
    and rel_add: "rel h s \<Longrightarrow> l \<in> heads \<Longrightarrow> x \<in> nodes \<Longrightarrow> \<not> linked heads s x \<Longrightarrow>
      rel (add x l h) (st_add x l s)"
    and rel_add_tail: "rel h s \<Longrightarrow> l \<in> heads \<Longrightarrow> x \<in> nodes \<Longrightarrow> \<not> linked heads s x \<Longrightarrow>
      rel (add_tail x l h) (st_add_tail x l s)"
    and rel_del: "rel h s \<Longrightarrow> x \<in> nodes \<Longrightarrow> rel (del x h) (st_del x s)"
    and pop_head_eq: "rel h s \<Longrightarrow> l \<in> heads \<Longrightarrow>
      pop_head l h = (if s l = [] then (NULL, h) else (hd (s l), del (hd (s l)) h))"
    and pop_tail_eq: "rel h s \<Longrightarrow> l \<in> heads \<Longrightarrow>
      pop_tail l h = (if s l = [] then (NULL, h) else (last (s l), del (last (s l)) h))"
begin

lemma st_del_first:
  assumes "rel h s" and "l \<in> heads" and "s l = x # xs"
  shows "\<forall>m\<in>heads. st_del x s m = (s(l := xs)) m"
  using assms rel_apart [OF assms(1), of l] by (auto simp: st_del_def remove1_idem)

lemma not_linked_after_del:
  assumes "rel h s" shows "\<not> linked heads (st_del x s) x"
  using rel_once [OF assms] by (auto simp: linked_def st_del_def)

text \<open>Re-adding a node, wherever it was linked before: the move of a node between lists.\<close>

lemma rel_move_tail:
  assumes "rel h s" and "l \<in> heads" and "x \<in> nodes"
  shows "rel (add_tail x l (del x h)) (st_add_tail x l (st_del x s))"
  using assms by (intro rel_add_tail rel_del not_linked_after_del)

text \<open>A pushed node is the one popped next, and the pop restores the store.\<close>

lemma push_pop_tail:
  assumes "rel h s" and "l \<in> heads" and "x \<in> nodes" and "\<not> linked heads s x"
  shows "fst (pop_tail l (add_tail x l h)) = x"
    and "\<exists>s'. rel (snd (pop_tail l (add_tail x l h))) s' \<and> (\<forall>m\<in>heads. s' m = s m)"
proof -
  let ?s = "st_add_tail x l s"
  have r: "rel (add_tail x l h) ?s" using assms by (rule rel_add_tail)
  have p: "pop_tail l (add_tail x l h) = (x, del x (add_tail x l h))"
    using pop_tail_eq [OF r assms(2)] by (simp add: st_add_tail_def)
  show "fst (pop_tail l (add_tail x l h)) = x" by (simp add: p)
  have "rel (del x (add_tail x l h)) (st_del x ?s)" using r assms(3) by (rule rel_del)
  moreover have "\<forall>m\<in>heads. st_del x ?s m = s m"
    using assms(2,4) by (auto simp: st_del_def st_add_tail_def linked_def remove1_append remove1_idem)
  ultimately show "\<exists>s'. rel (snd (pop_tail l (add_tail x l h))) s' \<and> (\<forall>m\<in>heads. s' m = s m)"
    using p by auto
qed

lemma push_pop_head:
  assumes "rel h s" and "l \<in> heads" and "x \<in> nodes" and "\<not> linked heads s x"
  shows "fst (pop_head l (add x l h)) = x"
    and "\<exists>s'. rel (snd (pop_head l (add x l h))) s' \<and> (\<forall>m\<in>heads. s' m = s m)"
proof -
  let ?s = "st_add x l s"
  have r: "rel (add x l h) ?s" using assms by (rule rel_add)
  have p: "pop_head l (add x l h) = (x, del x (add x l h))"
    using pop_head_eq [OF r assms(2)] by (simp add: st_add_def)
  show "fst (pop_head l (add x l h)) = x" by (simp add: p)
  have "rel (del x (add x l h)) (st_del x ?s)" using r assms(3) by (rule rel_del)
  moreover have "\<forall>m\<in>heads. st_del x ?s m = s m"
    using assms(2,4) by (auto simp: st_del_def st_add_def linked_def remove1_idem)
  ultimately show "\<exists>s'. rel (snd (pop_head l (add x l h))) s' \<and> (\<forall>m\<in>heads. s' m = s m)"
    using p by auto
qed

end

subsection \<open>The pointer operations satisfy it\<close>

lemma list_relD:
  assumes "list_rel H U h s"
  shows "l \<in> H \<Longrightarrow> is_list h l (s l)" and "l \<in> H \<Longrightarrow> set (s l) \<subseteq> U" and "l \<in> H \<Longrightarrow> l \<notin> U"
    and "l \<in> H \<Longrightarrow> m \<in> H \<Longrightarrow> l \<noteq> m \<Longrightarrow> set (s l) \<inter> set (s m) = {}"
    and "x \<in> U \<Longrightarrow> \<not> linked H s x \<Longrightarrow> is_list h x []"
  using assms unfolding list_rel_def by (blast+)

lemma list_rel_disjoint:
  assumes "list_rel H U h s" and "l \<in> H" and "m \<in> H" and "l \<noteq> m"
  shows "set (l # s l) \<inter> set (m # s m) = {}"
  using assms list_relD [OF assms(1)] by (simp add: list_rel_def) blast

text \<open>An operation that only touches the ring of \<open>l\<close> and the node \<open>x\<close>.\<close>

lemma list_rel_local:
  assumes rel: "list_rel H U h s" and l: "l \<in> H" and x: "x \<in> U"
    and sl: "is_list h' l zs" and zs: "set zs \<subseteq> insert x (set (s l))"
    and keep: "set (s l) \<subseteq> insert x (set zs)"
    and ux: "x \<notin> set zs \<Longrightarrow> is_list h' x []" and nx: "x \<in> set zs \<Longrightarrow> x \<in> set (s l) \<or> \<not> linked H s x"
    and frame: "\<And>y. y \<notin> set (x # l # s l) \<Longrightarrow> nxt h' y = nxt h y \<and> prv h' y = prv h y"
    and other: "\<And>m. m \<in> H \<Longrightarrow> m \<noteq> l \<Longrightarrow> x \<notin> set (s m)"
  shows "list_rel H U h' (s(l := zs))"
proof -
  note D = list_relD [OF rel]
  have others: "is_list h' m (s m)" if "m \<in> H" "m \<noteq> l" for m
  proof (rule is_list_frame [OF D(1) [OF that(1)]])
    fix y assume y: "y \<in> set (m # s m)"
    have "y \<notin> set (l # s l)" using list_rel_disjoint [OF rel l that(1)] that y by blast
    moreover have "y \<noteq> x" using y other [OF that] D(3) [OF that(1)] x by auto
    ultimately show "nxt h' y = nxt h y \<and> prv h' y = prv h y" using frame by auto
  qed
  have free: "is_list h' y []" if "y \<in> U" "\<not> linked H (s(l := zs)) y" for y
  proof (cases "y = x")
    case True
    with that l ux show ?thesis by (auto simp: linked_def)
  next
    case False
    then have "\<not> linked H s y" using that keep l by (auto simp: linked_def split: if_splits)
    then have "is_list h y []" using that D(5) by blast
    moreover have "y \<notin> set (x # l # s l)"
      using False that \<open>\<not> linked H s y\<close> l D(3) by (auto simp: linked_def)
    ultimately show ?thesis using frame [of y] by (auto simp: is_list_Nil)
  qed
  have apart: "set (s m) \<inter> set zs = {}" if "m \<in> H" "m \<noteq> l" for m
    using D(4) [OF that(1) l that(2)] other [OF that] zs by auto
  have "set zs \<subseteq> U" using zs D(2) [OF l] x by auto
  then show ?thesis
    using sl others free D(2,4) apart rel unfolding list_rel_def by (auto simp: Int_commute)
qed

lemma list_rel_eq_on: "list_rel H U h s \<Longrightarrow> (\<And>l. l \<in> H \<Longrightarrow> s' l = s l) \<Longrightarrow> list_rel H U h s'"
  by (simp add: list_rel_def linked_def)

lemma list_add_rel:
  assumes "list_rel H U h s" and "l \<in> H" and "x \<in> U" and "\<not> linked H s x"
  shows "list_rel H U (list_add x l h) (st_add x l s)"
    and "list_rel H U (list_add_tail x l h) (st_add_tail x l s)"
proof -
  note D = list_relD [OF assms(1)]
  have l: "is_list h l (s l)" and x: "x \<notin> set (l # s l)"
    using D(1,3) assms by (auto simp: linked_def)
  show "list_rel H U (list_add x l h) (st_add x l s)"
    unfolding st_add_def using assms x
    by (intro list_rel_local [OF assms(1-3)] list_add_is_list [OF l])
      (use list_add_frame [OF l] in \<open>auto simp: linked_def\<close>)
  show "list_rel H U (list_add_tail x l h) (st_add_tail x l s)"
    unfolding st_add_tail_def using assms x
    by (intro list_rel_local [OF assms(1-3)] list_add_tail_is_list [OF l])
      (use list_add_tail_frame [OF l] in \<open>auto simp: linked_def\<close>)
qed

lemma list_del_init_rel:
  assumes "list_rel H U h s" and "x \<in> U"
  shows "list_rel H U (list_del_init x h) (st_del x s)"
proof (cases "linked H s x")
  case False
  then have "is_list h x []" by (rule list_relD(5) [OF assms])
  then have "list_del_init x h = h" by (rule list_del_init_unlinked)
  then show ?thesis
    using False by (auto intro!: list_rel_eq_on [OF assms(1)] simp: st_del_def linked_def remove1_idem)
next
  case True
  note D = list_relD [OF assms(1)]
  from True obtain l where l: "l \<in> H" "x \<in> set (s l)" by (auto simp: linked_def)
  have only: "x \<notin> set (s m)" if "m \<in> H" "m \<noteq> l" for m
    using D(4) [OF that(1) l(1) that(2)] l by auto
  obtain xs ys where sp: "s l = xs @ x # ys" using l by (meson split_list)
  have il: "is_list h l (xs @ x # ys)" using D(1) l sp by metis
  then have nd: "x \<notin> set (xs @ ys)" by (auto simp: is_list_def)
  have "list_rel H U (list_del_init x h) (s(l := xs @ ys))"
    by (rule list_rel_local [OF assms(1) l(1) assms(2)])
      (use list_del_init_is_list [OF il] list_del_init_frame [OF il] only nd
        in \<open>auto simp: sp\<close>)
  then show ?thesis
    by (rule list_rel_eq_on) (use only sp nd in \<open>auto simp: st_del_def remove1_idem\<close>)
qed

lemma list_empty_node:
  assumes "list_rel H U h s" and "x \<in> U"
  shows "list_empty x h \<longleftrightarrow> \<not> linked H s x"
proof (cases "linked H s x")
  case False
  then show ?thesis using list_relD(5) [OF assms] by (auto simp: is_list_Nil list_empty_def)
next
  case True
  then obtain l xs ys where l: "l \<in> H" "s l = xs @ x # ys" by (auto simp: linked_def dest: split_list)
  then have "is_list h x (ys @ l # xs)"
    using list_relD(1) [OF assms(1) l(1)] is_list_rotate by metis
  from list_empty_iff [OF this] True show ?thesis by simp
qed

lemma list_pop_eqs:
  assumes "list_rel H U h s" and "l \<in> H"
  shows "list_pop_head l h = (if s l = [] then (NULL, h) else (hd (s l), list_del_init (hd (s l)) h))"
    and "list_pop_tail l h = (if s l = [] then (NULL, h) else (last (s l), list_del_init (last (s l)) h))"
proof -
  have l: "is_list h l (s l)" using assms list_relD by blast
  show "list_pop_head l h = (if s l = [] then (NULL, h) else (hd (s l), list_del_init (hd (s l)) h))"
    using list_empty_iff [OF l] is_list_next [OF l] by (simp add: list_pop_head_def Let_def)
  show "list_pop_tail l h = (if s l = [] then (NULL, h) else (last (s l), list_del_init (last (s l)) h))"
    using list_empty_iff [OF l] is_list_prev [OF l] by (simp add: list_pop_tail_def Let_def)
qed

lemma list_h_link_store:
  "link_store (list_rel H U) H U list_empty list_add list_add_tail list_del_init
     list_pop_head list_pop_tail"
proof
  show "list_empty l h \<longleftrightarrow> s l = []" if "list_rel H U h s" "l \<in> H" for h s l
    using that by (metis list_empty_iff list_relD(1))
  show "distinct (s l)" if "list_rel H U h s" "l \<in> H" for h s l
    using list_relD(1) [OF that] by (simp add: is_list_def)
qed (simp_all add: list_empty_node list_relD list_add_rel list_del_init_rel list_pop_eqs)

interpretation list_h: link_store "list_rel H U" H U list_empty list_add list_add_tail
    list_del_init list_pop_head list_pop_tail for H U
  by (rule list_h_link_store)


subsection \<open>Swapping two lists\<close>

lemma is_list_other_add:
  assumes "is_list h l xs" and "is_list h m zs" and "set (m # zs) \<inter> set (n # l # xs) = {}"
  shows "is_list (list_add n l h) m zs"
  by (rule is_list_frame [OF assms(2)])
    (use assms(3) in \<open>auto intro!: list_add_frame [OF assms(1)]\<close>)

lemma is_list_other_del:
  assumes "is_list h l (xs @ x # ys)" and "is_list h m zs"
    and "set (m # zs) \<inter> set (l # xs @ x # ys) = {}"
  shows "is_list (list_del_init x h) m zs"
  by (rule is_list_frame [OF assms(2)])
    (use assms(3) in \<open>auto intro!: list_del_init_frame [OF assms(1)]\<close>)

text \<open>One half of the swap: \<open>n\<close> takes the place of the head \<open>l\<close>.\<close>

lemma list_take_over:
  assumes "is_list h l xs" and "n \<notin> set (l # xs)"
  shows "is_list (list_del_init l (list_add n l h)) n xs"
    and "is_list (list_del_init l (list_add n l h)) l []"
    and "\<And>m zs. is_list h m zs \<Longrightarrow> set (m # zs) \<inter> set (n # l # xs) = {} \<Longrightarrow>
           is_list (list_del_init l (list_add n l h)) m zs"
proof -
  have n: "is_list (list_add n l h) n (xs @ l # [])"
    using is_list_rotate [of "list_add n l h" l "[]" n xs] list_add_is_list [OF assms] by simp
  show "is_list (list_del_init l (list_add n l h)) n xs"
    and "is_list (list_del_init l (list_add n l h)) l []"
    using list_del_init_is_list [OF n] by simp_all
  show "is_list (list_del_init l (list_add n l h)) m zs"
    if "is_list h m zs" "set (m # zs) \<inter> set (n # l # xs) = {}" for m zs
    by (rule is_list_other_del [OF n is_list_other_add [OF assms(1) that(1)]])
      (use that(2) in auto)
qed

lemma list_swap_is_list:
  assumes "is_list h l xs" and "is_list h r ys" and "set (l # xs) \<inter> set (r # ys) = {}"
    and "mid \<notin> set (l # xs @ r # ys)"
  shows "is_list (list_swap mid l r h) l ys" and "is_list (list_swap mid l r h) r xs"
    and "\<And>m zs. is_list h m zs \<Longrightarrow> set (m # zs) \<inter> set (mid # l # xs @ r # ys) = {} \<Longrightarrow>
           is_list (list_swap mid l r h) m zs"
proof -
  define h2 where "h2 = list_del_init l (list_add mid l h)"
  define h4 where "h4 = list_del_init r (list_add l r h2)"
  define h6 where "h6 = list_del_init mid (list_add r mid h4)"
  have sw: "list_swap mid l r h = h6"
    by (simp add: list_swap_def h2_def h4_def h6_def Let_def)
  have s2: "is_list h2 mid xs" "is_list h2 r ys" "is_list h2 l []"
    using list_take_over [OF assms(1), of mid] assms(2-4) by (auto simp: h2_def Int_commute)
  have lx: "l \<notin> set xs" "r \<notin> set ys" using assms(1,2) by (simp_all add: is_list_def)
  have s4: "is_list h4 l ys" "is_list h4 r []" "is_list h4 mid xs"
    using list_take_over [OF s2(2), of l] assms(3,4) s2(1) lx
    by (auto simp: h4_def Int_commute)
  have s6: "is_list h6 r xs" "is_list h6 l ys"
    using list_take_over [OF s4(3), of r] assms(3,4) s4(1) lx
    by (auto simp: h6_def Int_commute)
  then show "is_list (list_swap mid l r h) l ys" "is_list (list_swap mid l r h) r xs"
    by (simp_all add: sw)
  show "is_list (list_swap mid l r h) m zs"
    if "is_list h m zs" "set (m # zs) \<inter> set (mid # l # xs @ r # ys) = {}" for m zs
  proof -
    have "is_list h2 m zs"
      unfolding h2_def by (rule list_take_over(3) [OF assms(1)]) (use that assms(4) in auto)
    then have "is_list h4 m zs"
      unfolding h4_def by (intro list_take_over(3) [OF s2(2)]) (use that assms(3,4) in auto)
    then have "is_list h6 m zs"
      unfolding h6_def by (intro list_take_over(3) [OF s4(3)]) (use that assms(3,4) in auto)
    then show ?thesis by (simp add: sw)
  qed
qed

lemma list_swap_rel:
  assumes rel: "list_rel H U h s" and lr: "l \<in> H" "r \<in> H" "l \<noteq> r" and mid: "mid \<notin> H \<union> U"
  shows "list_rel H U (list_swap mid l r h) (st_swap l r s)"
proof -
  note D = list_relD [OF rel]
  have m: "mid \<notin> set (l # s l @ r # s r)" using mid lr D(2) by auto
  note sw = list_swap_is_list [OF D(1) [OF lr(1)] D(1) [OF lr(2)] list_rel_disjoint [OF rel lr] m]
  have fr: "is_list (list_swap mid l r h) k (s k)" if "k \<in> H" "k \<noteq> l" "k \<noteq> r" for k
  proof (rule sw(3) [OF D(1) [OF that(1)]])
    show "set (k # s k) \<inter> set (mid # l # s l @ r # s r) = {}"
      using list_rel_disjoint [OF rel that(1) lr(1) that(2)]
        list_rel_disjoint [OF rel that(1) lr(2) that(3)] mid that(1) D(2) [OF that(1)] by auto
  qed
  have free: "is_list (list_swap mid l r h) x []" if "x \<in> U" "\<not> linked H s x" for x
  proof (rule sw(3) [OF D(5) [OF that]])
    show "set [x] \<inter> set (mid # l # s l @ r # s r) = {}"
      using that lr mid D(3) by (auto simp: linked_def)
  qed
  have lk: "linked H (st_swap l r s) x = linked H s x" for x
    unfolding linked_def st_swap_def using lr by (metis fun_upd_apply)
  show ?thesis
    unfolding list_rel_def lk using rel sw(1,2) fr free D(2,4) lr
    by (auto simp: st_swap_def list_rel_def)
qed

end
