(* ===== verification/Dispatch.thy ===== *)
theory Dispatch
  imports ListStore
begin

text \<open>
  The task dispatcher of \<open>core/dispatch.h\<close> and \<open>core/src/dispatch.cpp\<close>: a list of
  registered tasks that run in every pass and a list of delayed tasks that run once. A
  task is known by the address of its \<open>link_to\<close>; what \<open>proc(arg)\<close> does is the argument
  \<open>run\<close> of the pass, a function of the task and the state. The field \<open>called\<close> records the calls.
\<close>

subsection \<open>State and operations\<close>

record dispatch_env =
  heap :: lheap
  d_tasks :: addr
  d_delay_tasks :: addr
  task_num :: u32
  delay_task_num :: u32
  auto_del :: "addr \<Rightarrow> bool"
  deleted :: "addr list"
  sched_yields :: nat
  called :: "addr list"

definition upd_heap :: "(lheap \<Rightarrow> lheap) \<Rightarrow> 'a dispatch_env_scheme \<Rightarrow> 'a dispatch_env_scheme" where
  "upd_heap f s = s\<lparr>heap := f (heap s)\<rparr>"

definition dispatch_mgr_init :: "'a dispatch_env_scheme \<Rightarrow> 'a dispatch_env_scheme" where
  "dispatch_mgr_init s =
     (upd_heap (INIT_LIST_HEAD (d_delay_tasks s)) (upd_heap (INIT_LIST_HEAD (d_tasks s)) s))
       \<lparr>task_num := 0, delay_task_num := 0\<rparr>"

definition init_task :: "addr \<Rightarrow> 'a dispatch_env_scheme \<Rightarrow> 'a dispatch_env_scheme" where
  "init_task t s = upd_heap (INIT_LIST_HEAD t) (s\<lparr>auto_del := (auto_del s)(t := False)\<rparr>)"

definition registry :: "addr \<Rightarrow> 'a dispatch_env_scheme \<Rightarrow> 'a dispatch_env_scheme" where
  "registry t s =
     (let s1 = (if list_empty t (heap s) then upd_heap (list_add_tail t (d_tasks s)) s
                else upd_heap (list_move_tail t (d_tasks s)) s)
      in s1\<lparr>task_num := task_num s1 + 1\<rparr>)"

definition delay :: "addr \<Rightarrow> 'a dispatch_env_scheme \<Rightarrow> 'a dispatch_env_scheme" where
  "delay t s =
     (if list_empty t (heap s)
      then (upd_heap (list_add_tail t (d_delay_tasks s)) s)\<lparr>delay_task_num := delay_task_num s + 1\<rparr>
      else s)"

definition unregistry :: "addr \<Rightarrow> 'a dispatch_env_scheme \<Rightarrow> 'a dispatch_env_scheme" where
  "unregistry t s = (upd_heap (list_del_init t) s)\<lparr>task_num := task_num s - 1\<rparr>"

definition unregistry_delay :: "addr \<Rightarrow> 'a dispatch_env_scheme \<Rightarrow> 'a dispatch_env_scheme" where
  "unregistry_delay t s = (upd_heap (list_del_init t) s)\<lparr>delay_task_num := delay_task_num s - 1\<rparr>"

text \<open>\<open>registry_task(proc, arg)\<close> and \<open>registry_delay_task(proc, arg)\<close> allocate the task, at the
  address \<open>t\<close>, and mark it for deletion.\<close>

definition registry_task_new :: "addr \<Rightarrow> 'a dispatch_env_scheme \<Rightarrow> 'a dispatch_env_scheme" where
  "registry_task_new t s =
     (let s1 = init_task t s in registry t (s1\<lparr>auto_del := (auto_del s1)(t := True)\<rparr>))"

definition registry_delay_task_new :: "addr \<Rightarrow> 'a dispatch_env_scheme \<Rightarrow> 'a dispatch_env_scheme" where
  "registry_delay_task_new t s =
     (let s1 = init_task t s in delay t (s1\<lparr>auto_del := (auto_del s1)(t := True)\<rparr>))"

type_synonym 'a task_code = "addr \<Rightarrow> 'a dispatch_env_scheme \<Rightarrow> int \<times> 'a dispatch_env_scheme"

definition call_task :: "'a task_code \<Rightarrow> addr \<Rightarrow> int \<times> 'a dispatch_env_scheme \<Rightarrow> int \<times> 'a dispatch_env_scheme" where
  "call_task run t = (\<lambda>(num, s).
     case run t (s\<lparr>called := called s @ [t]\<rparr>) of (ret, s') \<Rightarrow> (if ret > 0 then num + 1 else num, s'))"

text \<open>The body of the loop over the delayed tasks: unlink, run, delete.\<close>

definition delay_body :: "'a task_code \<Rightarrow> addr \<Rightarrow> int \<times> 'a dispatch_env_scheme \<Rightarrow> int \<times> 'a dispatch_env_scheme" where
  "delay_body run t = (\<lambda>(num, s).
     let s1 = upd_heap (list_del_init t) s;
         ad = auto_del s1 t
     in case call_task run t (num, s1) of (num', s2) \<Rightarrow>
          (num', if ad then s2\<lparr>deleted := deleted s2 @ [t]\<rparr> else s2))"

text \<open>The delayed tasks are swapped out to the local head \<open>dl\<close> before any of them runs.\<close>

definition proc_delay_tasks ::
  "nat \<Rightarrow> 'a task_code \<Rightarrow> addr \<Rightarrow> addr \<Rightarrow> int \<times> 'a dispatch_env_scheme \<Rightarrow> (int \<times> 'a dispatch_env_scheme) option" where
  "proc_delay_tasks k run dl mid = (\<lambda>(num, s).
     let s1 = upd_heap (INIT_LIST_HEAD dl) s;
         s2 = (upd_heap (list_swap mid dl (d_delay_tasks s1)) s1)\<lparr>delay_task_num := 0\<rparr>
     in list_for_each_entry_safe k (heap \<circ> snd) (delay_body run) dl (num, s2))"

definition proc_tasks ::
  "nat \<Rightarrow> 'a task_code \<Rightarrow> addr \<Rightarrow> addr \<Rightarrow> 'a dispatch_env_scheme \<Rightarrow> (int \<times> 'a dispatch_env_scheme) option" where
  "proc_tasks k run dl mid s =
     (case (if task_num s > 0
            then list_for_each_entry_safe k (heap \<circ> snd) (call_task run) (d_tasks s) (0, s)
            else Some (0, s)) of
        None \<Rightarrow> None
      | Some (num, s1) \<Rightarrow>
          if delay_task_num s1 \<le> 0
          then Some (num, if num = 0 then s1\<lparr>sched_yields := sched_yields s1 + 1\<rparr> else s1)
          else proc_delay_tasks k run dl mid (num, s1))"

text \<open>The destructor unlinks what is left in both lists and deletes the tasks it owns.\<close>

definition drop_body :: "addr \<Rightarrow> 'a dispatch_env_scheme \<Rightarrow> 'a dispatch_env_scheme" where
  "drop_body t s =
     (let s1 = upd_heap (list_del_init t) s
      in if auto_del s1 t then s1\<lparr>deleted := deleted s1 @ [t]\<rparr> else s1)"

definition drop_list :: "nat \<Rightarrow> addr \<Rightarrow> addr \<Rightarrow> addr \<Rightarrow> 'a dispatch_env_scheme \<Rightarrow> 'a dispatch_env_scheme option" where
  "drop_list k dl mid q s =
     list_for_each_entry_safe k heap drop_body dl
       (upd_heap (list_swap mid dl q) (upd_heap (INIT_LIST_HEAD dl) s))"

definition dispatch_mgr_fini :: "nat \<Rightarrow> addr \<Rightarrow> addr \<Rightarrow> 'a dispatch_env_scheme \<Rightarrow> 'a dispatch_env_scheme option" where
  "dispatch_mgr_fini k dl mid s =
     (case drop_list k dl mid (d_tasks s) s of
        None \<Rightarrow> None
      | Some s1 \<Rightarrow> drop_list k dl mid (d_delay_tasks s1) s1)"

text \<open>\<open>delay_back\<close>: a task that resumes the caller is queued, then the caller yields.\<close>

definition delay_back_queue :: "addr \<Rightarrow> 'a dispatch_env_scheme \<Rightarrow> 'a dispatch_env_scheme" where
  "delay_back_queue t s = delay t (init_task t s)"

lemma upd_heap_simps [simp]:
  "heap (upd_heap f s) = f (heap s)" "d_tasks (upd_heap f s) = d_tasks s"
  "d_delay_tasks (upd_heap f s) = d_delay_tasks s" "task_num (upd_heap f s) = task_num s"
  "delay_task_num (upd_heap f s) = delay_task_num s" "auto_del (upd_heap f s) = auto_del s"
  "deleted (upd_heap f s) = deleted s" "called (upd_heap f s) = called s"
  "sched_yields (upd_heap f s) = sched_yields s"
  by (simp_all add: upd_heap_def)

subsection \<open>Queueing\<close>

text \<open>\<open>delay\<close> is idempotent: a queued task stays where it is and is counted once.\<close>

lemma delay_rel:
  assumes "list_rel H U (heap s) st" and "d_delay_tasks s \<in> H" and "t \<in> U"
  shows "list_rel H U (heap (delay t s))
           (if linked H st t then st else st_add_tail t (d_delay_tasks s) st)"
    and "delay_task_num (delay t s) = (if linked H st t then delay_task_num s else delay_task_num s + 1)"
  using assms list_empty_node [OF assms(1,3)] list_add_rel(2) [OF assms]
  by (auto simp: delay_def)

lemma registry_rel:
  assumes "list_rel H U (heap s) st" and "d_tasks s \<in> H" and "t \<in> U" and "\<not> linked H st t"
  shows "list_rel H U (heap (registry t s)) (st_add_tail t (d_tasks s) st)"
    and "task_num (registry t s) = task_num s + 1"
  using assms list_empty_node [OF assms(1,3)] list_add_rel(2) [OF assms]
  by (auto simp: registry_def)

lemma unregistry_rel:
  assumes "list_rel H U (heap s) st" and "t \<in> U"
  shows "list_rel H U (heap (unregistry t s)) (st_del t st)"
    and "list_rel H U (heap (unregistry_delay t s)) (st_del t st)"
  using list_del_init_rel [OF assms] by (simp_all add: unregistry_def unregistry_delay_def)

subsection \<open>A pass over the delayed tasks\<close>

text \<open>What a task may do to the lists while it runs: anything but touch the private head
  \<open>dl\<close> of the pass (it may queue, unqueue and delay other tasks), and it cannot rewrite the
  record of calls.\<close>

definition code_keeps :: "addr set \<Rightarrow> addr set \<Rightarrow> addr \<Rightarrow> 'a task_code \<Rightarrow> bool" where
  "code_keeps H U dl run \<longleftrightarrow>
     (\<forall>t s st. list_rel H U (heap s) st \<longrightarrow>
        (\<exists>st'. list_rel H U (heap (snd (run t s))) st' \<and> st' dl = st dl) \<and>
        called (snd (run t s)) = called s)"

lemma code_keepsD:
  assumes "code_keeps H U dl run" and "list_rel H U (heap s) st"
  shows "\<exists>st'. list_rel H U (heap (snd (run t s))) st' \<and> st' dl = st dl"
    and "called (snd (run t s)) = called s"
  using assms unfolding code_keeps_def by blast+

lemma call_task_simps:
  "snd (call_task run t (num, s)) = snd (run t (s\<lparr>called := called s @ [t]\<rparr>))"
  by (simp add: call_task_def split: prod.split)

lemma delay_body_simps:
  "heap (snd (delay_body run t (num, s))) =
     heap (snd (run t ((upd_heap (list_del_init t) s)\<lparr>called := called s @ [t]\<rparr>)))"
  "called (snd (delay_body run t (num, s))) =
     called (snd (run t ((upd_heap (list_del_init t) s)\<lparr>called := called s @ [t]\<rparr>)))"
  by (simp_all add: delay_body_def call_task_def Let_def split: prod.split)

lemma delay_loop:
  assumes keep: "code_keeps H U dl run" and dl: "dl \<in> H"
    and rel: "list_rel H U (heap s) st" and k: "length (st dl) < k"
  shows "\<exists>num' s' st'. list_for_each_entry_safe k (heap \<circ> snd) (delay_body run) dl (num, s) = Some (num', s') \<and>
           called s' = called s @ st dl \<and> list_rel H U (heap s') st' \<and> st' dl = []"
proof -
  define I where "I = (\<lambda>xs (p :: int \<times> 'a dispatch_env_scheme). \<exists>ys st'. st dl = ys @ xs \<and>
     called (snd p) = called s @ ys \<and> list_rel H U (heap (snd p)) st' \<and> st' dl = xs)"
  have step: "I xs (delay_body run x p)" if "I (x # xs) p" for x xs p
  proof -
    obtain num0 s0 where p: "p = (num0, s0)" by (cases p)
    from that p obtain ys st' where ys: "st dl = ys @ x # xs" "called s0 = called s @ ys"
      and r0: "list_rel H U (heap s0) st'" and st': "st' dl = x # xs" by (auto simp: I_def)
    have x: "x \<in> U" using list_relD(2) [OF r0 dl] st' by auto
    let ?s1 = "(upd_heap (list_del_init x) s0)\<lparr>called := called s0 @ [x]\<rparr>"
    have "list_rel H U (heap ?s1) (st_del x st')" using list_del_init_rel [OF r0 x] by simp
    then obtain st'' where "list_rel H U (heap (snd (run x ?s1))) st''" "st'' dl = st_del x st' dl"
      and "called (snd (run x ?s1)) = called ?s1" using code_keepsD [OF keep] by blast
    with ys st' show ?thesis
      by (auto simp: I_def p delay_body_simps st_del_def)
  qed
  have ch: "chain (nxt ((heap \<circ> snd) p)) xs dl" if "I xs p" for xs p
  proof -
    from that obtain st' where "list_rel H U (heap (snd p)) st'" "st' dl = xs" by (auto simp: I_def)
    then have "is_list (heap (snd p)) dl ([] @ xs)" using list_relD(1) dl by fastforce
    then show ?thesis using is_list_chain [of _ dl "[]" xs] by simp
  qed
  have "is_list ((heap \<circ> snd) (num, s)) dl (st dl)" using list_relD(1) [OF rel dl] by simp
  moreover have "I (st dl) (num, s)" using rel by (auto simp: I_def)
  ultimately obtain p where
    "list_for_each_entry_safe k (heap \<circ> snd) (delay_body run) dl (num, s) = Some p" "I [] p"
    using list_for_each_entry_safe_rule [of I "delay_body run" "heap \<circ> snd" dl, OF step ch] k by blast
  then show ?thesis by (cases p) (auto simp: I_def)
qed


lemma INIT_LIST_HEAD_rel:
  assumes "list_rel H U h st" and "dl \<notin> H" and "dl \<notin> U"
  shows "list_rel (insert dl H) U (INIT_LIST_HEAD dl h) (st(dl := []))"
proof -
  note D = list_relD [OF assms(1)]
  have keep: "is_list (INIT_LIST_HEAD dl h) l xs" if "is_list h l xs" "dl \<notin> set (l # xs)" for l xs
    using that by (rule is_list_after_INIT)
  have lk: "linked (insert dl H) (st(dl := [])) x = linked H st x" for x
    using assms(2) by (auto simp: linked_def)
  have "is_list (INIT_LIST_HEAD dl h) l (st l)" if "l \<in> H" for l
    by (rule keep) (use that D(1,2) assms in auto)
  moreover have "is_list (INIT_LIST_HEAD dl h) x []" if "x \<in> U" "\<not> linked H st x" for x
    by (rule keep) (use that D(5) assms(3) in auto)
  ultimately show ?thesis
    unfolding list_rel_def lk using assms D(2,4)
    by (auto simp: INIT_LIST_HEAD_is_list list_rel_def)
qed

lemma proc_delay_tasks_run:
  assumes keep: "code_keeps (insert dl H) U dl run"
    and rel: "list_rel H U (heap s) st" and q: "d_delay_tasks s \<in> H"
    and fresh: "dl \<notin> H" "dl \<notin> U" "mid \<notin> insert dl H \<union> U"
    and k: "length (st (d_delay_tasks s)) < k"
  shows "\<exists>num' s' st'. proc_delay_tasks k run dl mid (num, s) = Some (num', s') \<and>
           called s' = called s @ st (d_delay_tasks s) \<and>
           list_rel (insert dl H) U (heap s') st' \<and> st' dl = []"
proof -
  let ?s1 = "upd_heap (INIT_LIST_HEAD dl) s"
  let ?s2 = "(upd_heap (list_swap mid dl (d_delay_tasks ?s1)) ?s1)\<lparr>delay_task_num := 0\<rparr>"
  have r1: "list_rel (insert dl H) U (heap ?s1) (st(dl := []))"
    using INIT_LIST_HEAD_rel [OF rel fresh(1,2)] by simp
  have "dl \<noteq> d_delay_tasks s" using q fresh(1) by auto
  then have r2: "list_rel (insert dl H) U (heap ?s2) (st_swap dl (d_delay_tasks s) (st(dl := [])))"
    using list_swap_rel [OF r1 _ _ _ fresh(3), of dl "d_delay_tasks s"] q by simp
  have "st_swap dl (d_delay_tasks s) (st(dl := [])) dl = st (d_delay_tasks s)"
    using \<open>dl \<noteq> d_delay_tasks s\<close> by (simp add: st_swap_def)
  with delay_loop [OF keep _ r2, of k num] k show ?thesis
    by (auto simp: proc_delay_tasks_def Let_def)
qed

end
