(* ===== verification/Coroutine.thy ===== *)
theory Coroutine
  imports ListStore Dispatch
begin

text \<open>
  The coroutine scheduler of \<open>core/src/coroutine.cpp\<close> and \<open>core/src/coroutine_env.cpp\<close>. A coroutine is the
  address of its \<open>wait_to\<close> node, which links it into the run queue of its environment, into the queue it
  waits in, or into none. \<open>jump_fcontext\<close> transfers control: after it the coroutine \<open>curr_co\<close> runs and
  receives \<open>jump_val\<close>; what a coroutine does between two calls of the scheduler is its own code. The model
  of an operation is the state change up to its jump.
\<close>

subsection \<open>State\<close>

datatype co_state = CREATE | RUNNING | SUSPEND | STOP | EXCEPTION_EXIT

fun state_code :: "co_state \<Rightarrow> int" where
  "state_code CREATE = 0"
| "state_code RUNNING = 1"
| "state_code SUSPEND = 2"
| "state_code STOP = 3"
| "state_code EXCEPTION_EXIT = -1"

text \<open>The delayed tasks the scheduler registers with the dispatcher.\<close>

datatype co_task = ProcExitNotify addr int | DelayDelTask

record co_env =
  links :: lheap
  run_queue :: addr
  curr_co :: addr
  cstate :: "addr \<Rightarrow> co_state"
  ret_val :: "addr \<Rightarrow> int"
  is_end_delete :: "addr \<Rightarrow> bool"
  exit_notify_queue :: "addr \<Rightarrow> addr"
  jump_val :: int
  delayed :: "co_task list"
  delay_del_list :: "addr list"
  freed :: "addr list"

abbreviation upd_links :: "(lheap \<Rightarrow> lheap) \<Rightarrow> co_env \<Rightarrow> co_env" where
  "upd_links f s \<equiv> s\<lparr>links := f (links s)\<rparr>"

abbreviation set_state :: "addr \<Rightarrow> co_state \<Rightarrow> co_env \<Rightarrow> co_env" where
  "set_state co v s \<equiv> s\<lparr>cstate := (cstate s)(co := v)\<rparr>"

definition is_stop :: "addr \<Rightarrow> co_env \<Rightarrow> bool" where
  "is_stop co s \<longleftrightarrow> cstate s co = STOP"

definition init_coroutine :: "addr \<Rightarrow> co_env \<Rightarrow> co_env" where
  "init_coroutine self s =
     (let s = s\<lparr>ret_val := (ret_val s)(self := 0), is_end_delete := (is_end_delete s)(self := False)\<rparr>;
          s = upd_links (INIT_LIST_HEAD self) s;
          s = upd_links (INIT_LIST_HEAD (exit_notify_queue s self)) s
      in set_state self CREATE s)"

definition set_auto_delete :: "addr \<Rightarrow> co_env \<Rightarrow> co_env" where
  "set_auto_delete co s = s\<lparr>is_end_delete := (is_end_delete s)(co := True)\<rparr>"

text \<open>The constructor of the environment: the main coroutine runs and is in the run queue.\<close>

definition coroutine_env_init :: "addr \<Rightarrow> co_env \<Rightarrow> co_env" where
  "coroutine_env_init main s =
     (let s = set_state main RUNNING (init_coroutine main s);
          s = upd_links (INIT_LIST_HEAD main) s;
          s = s\<lparr>curr_co := main\<rparr>;
          s = upd_links (INIT_LIST_HEAD (run_queue s)) s
      in upd_links (list_add_tail main (run_queue s)) s)"

subsection \<open>Transfers of control\<close>

text \<open>\<open>resume\<close>; a coroutine that starts receives itself as the argument of \<open>co_main_helper2\<close>.\<close>

definition resume :: "addr \<Rightarrow> int \<Rightarrow> co_env \<Rightarrow> co_env" where
  "resume co val s =
     (let cur = curr_co s;
          s = s\<lparr>curr_co := co\<rparr>;
          val = (if cstate s co = CREATE then int co else val);
          s = set_state co RUNNING s;
          s = (if \<not> list_empty co (links s) then upd_links (list_del_init co) s else s);
          s = upd_links (list_del_init cur) s;
          s = upd_links (list_add_tail cur (run_queue s)) s
      in s\<lparr>jump_val := val\<rparr>)"

text \<open>\<open>yield\<close>; with an empty run queue the program aborts, \<open>None\<close>.\<close>

definition yield :: "addr option \<Rightarrow> int \<Rightarrow> co_env \<Rightarrow> co_env option" where
  "yield wait_to val s =
     (let cur = curr_co s in
      if list_empty (run_queue s) (links s) then None
      else
        let (last, h) = list_pop_tail (run_queue s) (links s);
            s = s\<lparr>links := h, curr_co := last\<rparr>;
            s = (case wait_to of
                   None \<Rightarrow> s
                 | Some w \<Rightarrow> upd_links (list_add_tail cur w) (upd_links (list_del_init cur) s));
            s = set_state cur SUSPEND s;
            s = set_state last RUNNING s
        in Some (s\<lparr>jump_val := val\<rparr>))"

text \<open>\<open>co_return_p\<close>: the end of a coroutine returns to the last one in the run queue; \<open>None\<close> when there is none.\<close>

definition co_return_p :: "co_env \<Rightarrow> co_env option" where
  "co_return_p s =
     (if list_empty (run_queue s) (links s) then None
      else
        let last = prv (links s) (run_queue s);
            s = upd_links (list_del_init last) s;
            s = s\<lparr>curr_co := last\<rparr>
        in Some ((set_state last RUNNING s)\<lparr>jump_val := 0\<rparr>))"

text \<open>
  \<open>co_main_helper2\<close> after the coroutine's function has returned \<open>ret\<close>; \<open>data\<close> is the address of the queue of
  the \<open>exit_notify_t\<close> it allocates. The dispatcher queues the task of the delayed deletions only once.
\<close>

definition co_main_helper2 :: "addr \<Rightarrow> int \<Rightarrow> co_env \<Rightarrow> co_env option" where
  "co_main_helper2 data ret s =
     (let co = curr_co s;
          s = s\<lparr>ret_val := (ret_val s)(co := ret)\<rparr>;
          s = set_state co STOP s;
          s = upd_links (list_del_init co) s;
          eq = exit_notify_queue s co;
          s = (if \<not> list_empty eq (links s) then
                 let s = upd_links (INIT_LIST_HEAD data) s;
                     s = upd_links (list_add data eq) s;
                     s = upd_links (list_del_init eq) s
                 in s\<lparr>delayed := delayed s @ [ProcExitNotify data (ret_val s co)]\<rparr>
               else s);
          s = (if is_end_delete s co then
                 s\<lparr>delay_del_list := delay_del_list s @ [co],
                   delayed := (if DelayDelTask \<in> set (delayed s) then delayed s else delayed s @ [DelayDelTask])\<rparr>
               else s)
      in co_return_p s)"

text \<open>\<open>wait\<close>: the result of a stopped coroutine, or a yield into its exit queue.\<close>

definition wait :: "addr \<Rightarrow> co_env \<Rightarrow> int + co_env option" where
  "wait co s =
     (if state_code (cstate s co) \<ge> state_code STOP then Inl (ret_val s co)
      else Inr (yield (Some (exit_notify_queue s co)) 0 s))"

definition wait_timeout_handle :: "addr \<Rightarrow> co_env \<Rightarrow> co_env" where
  "wait_timeout_handle co s = resume co (-1) (upd_links (list_del_init co) s)"

text \<open>
  \<open>proc_exit_notify\<close> resumes the coroutines of the queue; \<open>run co\<close> is what happens from the jump to \<open>co\<close> until
  control comes back. The loop saves the successor before the body; \<open>None\<close> when the fuel runs out.
\<close>

definition notify_body :: "(addr \<Rightarrow> co_env \<Rightarrow> co_env) \<Rightarrow> int \<Rightarrow> addr \<Rightarrow> co_env \<Rightarrow> co_env" where
  "notify_body run ret it s =
     (let s = upd_links (list_del_init it) s
      in if state_code (cstate s it) < state_code STOP then run it (resume it ret s) else s)"

definition proc_exit_notify :: "nat \<Rightarrow> (addr \<Rightarrow> co_env \<Rightarrow> co_env) \<Rightarrow> addr \<Rightarrow> int \<Rightarrow> co_env \<Rightarrow> co_env option" where
  "proc_exit_notify k run data ret s = list_for_each_entry_safe k links (notify_body run ret) data s"

text \<open>The delayed deletions: each coroutine of the list is freed.\<close>

definition do_delay_del_co_task :: "co_env \<Rightarrow> co_env" where
  "do_delay_del_co_task s = s\<lparr>delay_del_list := [], freed := freed s @ delay_del_list s\<rparr>"

subsection \<open>What the operations do to the queues\<close>

lemma del_if_linked:
  assumes "list_rel H U h st" "x \<in> U"
  shows "(if \<not> list_empty x h then list_del_init x h else h) = list_del_init x h"
  using list_empty_node [OF assms] list_relD(5) [OF assms] list_del_init_unlinked by metis

lemma resume_fields [simp]:
  "run_queue (resume co v s) = run_queue s" "curr_co (resume co v s) = co"
  "cstate (resume co v s) = (cstate s)(co := RUNNING)" "ret_val (resume co v s) = ret_val s"
  "exit_notify_queue (resume co v s) = exit_notify_queue s" "delayed (resume co v s) = delayed s"
  "delay_del_list (resume co v s) = delay_del_list s" "is_end_delete (resume co v s) = is_end_delete s"
  "jump_val (resume co v s) = (if cstate s co = CREATE then int co else v)"
  by (simp_all add: resume_def Let_def)

lemma resume_rel:
  assumes "list_rel H U (links s) st" "run_queue s \<in> H" "curr_co s \<in> U" "co \<in> U"
  shows "list_rel H U (links (resume co v s))
    (st_add_tail (curr_co s) (run_queue s) (st_del (curr_co s) (st_del co st)))"
proof -
  have r: "list_rel H U (list_del_init co (links s)) (st_del co st)"
    using list_del_init_rel [OF assms(1,4)] .
  have "links (resume co v s) =
      list_add_tail (curr_co s) (run_queue s) (list_del_init (curr_co s) (list_del_init co (links s)))"
    using del_if_linked [OF assms(1,4)] by (auto simp: resume_def Let_def)
  then show ?thesis using list_h.rel_move_tail [OF r assms(2,3)] by simp
qed

lemma yield_ok:
  assumes "list_rel H U (links s) st" "run_queue s \<in> H" "curr_co s \<in> U" "st (run_queue s) \<noteq> []"
    and "\<And>q. w = Some q \<Longrightarrow> q \<in> H"
  obtains s' where "yield w v s = Some s'" "curr_co s' = last (st (run_queue s))" "run_queue s' = run_queue s"
    "cstate s' = (cstate s)(curr_co s := SUSPEND, last (st (run_queue s)) := RUNNING)" "jump_val s' = v"
    "exit_notify_queue s' = exit_notify_queue s" "delayed s' = delayed s" "ret_val s' = ret_val s"
    "list_rel H U (links s') (case w of None \<Rightarrow> st_del (last (st (run_queue s))) st
       | Some q \<Rightarrow> st_add_tail (curr_co s) q (st_del (curr_co s) (st_del (last (st (run_queue s))) st)))"
proof -
  let ?l = "last (st (run_queue s))"
  have e: "\<not> list_empty (run_queue s) (links s)" using list_h.rel_empty [OF assms(1,2)] assms(4) by simp
  have p: "list_pop_tail (run_queue s) (links s) = (?l, list_del_init ?l (links s))"
    using list_pop_eqs(2) [OF assms(1,2)] assms(4) by simp
  have l: "?l \<in> U" using list_relD(2) [OF assms(1,2)] assms(4) by auto
  have r: "list_rel H U (list_del_init ?l (links s)) (st_del ?l st)" by (rule list_del_init_rel [OF assms(1) l])
  obtain s' where y: "yield w v s = Some s'" using e p by (cases w) (simp_all add: yield_def Let_def)
  show ?thesis
  proof (cases w)
    case None
    show ?thesis by (rule that [OF y]) (use y e p r None in \<open>auto simp: yield_def Let_def\<close>)
  next
    case (Some q)
    show ?thesis
      by (rule that [OF y])
        (use y e p r Some list_h.rel_move_tail [OF r assms(5) [OF Some] assms(3)] in \<open>auto simp: yield_def Let_def\<close>)
  qed
qed

lemma co_return_ok:
  assumes "list_rel H U (links s) st" "run_queue s \<in> H" "st (run_queue s) \<noteq> []"
  obtains s' where "co_return_p s = Some s'" "curr_co s' = last (st (run_queue s))" "run_queue s' = run_queue s"
    "cstate s' = (cstate s)(last (st (run_queue s)) := RUNNING)" "jump_val s' = 0"
    "exit_notify_queue s' = exit_notify_queue s" "delayed s' = delayed s" "ret_val s' = ret_val s"
    "list_rel H U (links s') (st_del (last (st (run_queue s))) st)"
proof -
  let ?l = "last (st (run_queue s))"
  have e: "\<not> list_empty (run_queue s) (links s)" using list_h.rel_empty [OF assms(1,2)] assms(3) by simp
  have p: "prv (links s) (run_queue s) = ?l"
    using is_list_prev [OF list_relD(1) [OF assms(1,2)]] assms(3) by simp
  have l: "?l \<in> U" using list_relD(2) [OF assms(1,2)] assms(3) by auto
  obtain s' where y: "co_return_p s = Some s'" using e by (simp add: co_return_p_def Let_def)
  show ?thesis
    by (rule that [OF y]) (use y e p list_del_init_rel [OF assms(1) l] in \<open>auto simp: co_return_p_def Let_def\<close>)
qed

text \<open>A queue taken over by an empty head.\<close>

lemma list_take_over_rel:
  assumes rel: "list_rel H U h st" and d: "d \<in> H" "st d = []" and q: "q \<in> H" "q \<noteq> d"
  shows "list_rel H U (list_del_init q (list_add d q (INIT_LIST_HEAD d h))) (st(d := st q, q := []))"
proof -
  note D = list_relD [OF rel]
  let ?h = "list_del_init q (list_add d q (INIT_LIST_HEAD d h))"
  have i: "is_list (INIT_LIST_HEAD d h) l xs" if "is_list h l xs" "d \<notin> set (l # xs)" for l xs
    using that by (rule is_list_after_INIT)
  have dq: "d \<notin> set (q # st q)" using D(2,3) d q by auto
  note t = list_take_over [OF i [OF D(1) [OF q(1)] dq] dq]
  have other: "is_list ?h l xs" if "is_list h l xs" "set (l # xs) \<inter> set (d # q # st q) = {}" for l xs
    using that by (intro t(3) i) auto
  have lk: "linked H (st(d := st q, q := [])) x = linked H st x" for x
    using d q unfolding linked_def by (metis (no_types, lifting) all_not_in_conv empty_set fun_upd_apply)
  have "is_list ?h l (st l)" if "l \<in> H" "l \<noteq> d" "l \<noteq> q" for l
    by (rule other [OF D(1) [OF that(1)]])
      (use list_rel_disjoint [OF rel that(1) q(1) that(3)] that d D(2) [OF that(1)] D(3) [OF d(1)] in auto)
  moreover have "is_list ?h x []" if "x \<in> U" "\<not> linked H st x" for x
    by (rule other [OF D(5) [OF that]]) (use that q d D(3) in \<open>auto simp: linked_def\<close>)
  ultimately show ?thesis
    unfolding list_rel_def lk using t(1,2) rel D(2,4) d q
    by (auto simp: list_rel_def)
qed

subsection \<open>The scheduler invariant\<close>

text \<open>
  The running coroutines are the current one and those in the run queue: each of these is inside a call of
  \<open>resume\<close>, and the queue is the stack of these calls. The coroutines in the other queues are suspended. Only
  before the first \<open>resume\<close> is the current coroutine itself in the run queue.
\<close>

definition sched_inv :: "addr set \<Rightarrow> addr set \<Rightarrow> co_env \<Rightarrow> lstore \<Rightarrow> bool" where
  "sched_inv H U s st \<longleftrightarrow>
     list_rel H U (links s) st \<and> run_queue s \<in> H \<and> curr_co s \<in> U \<and>
     (\<forall>c\<in>U. exit_notify_queue s c \<in> H - {run_queue s}) \<and>
     (curr_co s \<notin> set (st (run_queue s)) \<or> st (run_queue s) = [curr_co s]) \<and>
     (\<forall>c\<in>U. cstate s c = RUNNING \<longleftrightarrow> c = curr_co s \<or> c \<in> set (st (run_queue s))) \<and>
     (\<forall>l\<in>H - {run_queue s}. \<forall>c\<in>set (st l). cstate s c = SUSPEND)"

lemma sched_invD:
  assumes "sched_inv H U s st"
  shows "list_rel H U (links s) st" "run_queue s \<in> H" "curr_co s \<in> U"
    "c \<in> U \<Longrightarrow> exit_notify_queue s c \<in> H" "c \<in> U \<Longrightarrow> exit_notify_queue s c \<noteq> run_queue s"
    "curr_co s \<notin> set (st (run_queue s)) \<or> st (run_queue s) = [curr_co s]"
    "c \<in> U \<Longrightarrow> cstate s c = RUNNING \<longleftrightarrow> c = curr_co s \<or> c \<in> set (st (run_queue s))"
    "l \<in> H \<Longrightarrow> l \<noteq> run_queue s \<Longrightarrow> c \<in> set (st l) \<Longrightarrow> cstate s c = SUSPEND"
    "l \<in> H \<Longrightarrow> distinct (st l)" "l \<in> H \<Longrightarrow> set (st l) \<subseteq> U"
  using assms list_h.rel_once [of H U "links s" st] list_relD(2) [of H U "links s" st]
  by (auto simp: sched_inv_def)

lemma sched_invI:
  assumes "list_rel H U (links s) st" "run_queue s \<in> H" "curr_co s \<in> U"
    "\<And>c. c \<in> U \<Longrightarrow> exit_notify_queue s c \<in> H \<and> exit_notify_queue s c \<noteq> run_queue s"
    "curr_co s \<notin> set (st (run_queue s)) \<or> st (run_queue s) = [curr_co s]"
    "\<And>c. c \<in> U \<Longrightarrow> cstate s c = RUNNING \<longleftrightarrow> c = curr_co s \<or> c \<in> set (st (run_queue s))"
    "\<And>l c. l \<in> H \<Longrightarrow> l \<noteq> run_queue s \<Longrightarrow> c \<in> set (st l) \<Longrightarrow> cstate s c = SUSPEND"
  shows "sched_inv H U s st"
  using assms unfolding sched_inv_def by blast

lemma remove1_last: "distinct xs \<Longrightarrow> xs \<noteq> [] \<Longrightarrow> remove1 (last xs) xs = butlast xs"
  by (induction xs rule: rev_induct) (auto simp: remove1_append)

lemma is_list_unique: "is_list h l xs \<Longrightarrow> is_list h l ys \<Longrightarrow> xs = ys"
  using list_for_each_correct [of h l xs "Suc (length xs + length ys)"]
    list_for_each_correct [of h l ys "Suc (length xs + length ys)"] by simp

lemma set_last_butlast:
  assumes "distinct xs" "xs \<noteq> []"
  shows "set xs = insert (last xs) (set (butlast xs))" "last xs \<notin> set (butlast xs)"
  using assms by (induction xs rule: rev_induct) auto

text \<open>The current coroutine waits nowhere.\<close>

lemma sched_cur_free:
  assumes "sched_inv H U s st" "l \<in> H" "l \<noteq> run_queue s"
  shows "curr_co s \<notin> set (st l)"
  using sched_invD(8) [OF assms] sched_invD(3,7) [OF assms(1)] by fastforce

lemma resume_inv:
  assumes I: "sched_inv H U s st" and co: "co \<in> U" "cstate s co \<noteq> RUNNING"
  shows "\<exists>st'. sched_inv H U (resume co v s) st' \<and>
    st' (run_queue s) = removeAll (curr_co s) (st (run_queue s)) @ [curr_co s] \<and>
    (\<forall>l\<in>H. l \<noteq> run_queue s \<longrightarrow> st' l = remove1 co (st l))"
proof -
  note D = sched_invD [OF I]
  let ?c = "curr_co s" and ?q = "run_queue s"
  let ?st = "st_add_tail ?c ?q (st_del ?c (st_del co st))"
  have r: "list_rel H U (links (resume co v s)) ?st" by (rule resume_rel [OF D(1-3) co(1)])
  have n: "co \<noteq> ?c" "co \<notin> set (st ?q)" using D(7) [OF co(1)] co(2) by auto
  have q: "?st ?q = removeAll ?c (st ?q) @ [?c]"
    using n(2) D(9) [OF D(2)] by (simp add: st_add_tail_def st_del_def remove1_idem distinct_remove1_removeAll)
  have o: "?st l = remove1 co (st l)" if "l \<in> H" "l \<noteq> ?q" for l
  proof -
    have "?c \<notin> set (remove1 co (st l))" using sched_cur_free [OF I that] set_remove1_subset [of co "st l"] by blast
    then have "remove1 ?c (remove1 co (st l)) = remove1 co (st l)" by (rule remove1_idem)
    then show ?thesis using that(2) by (simp add: st_add_tail_def st_del_def)
  qed
  have "cstate s x = SUSPEND \<and> x \<noteq> co" if "l \<in> H" "l \<noteq> ?q" "x \<in> set (remove1 co (st l))" for l x
    using that D(8,9) by auto
  then have "sched_inv H U (resume co v s) ?st"
  proof (intro sched_invI)
    show "curr_co (resume co v s) \<notin> set (?st (run_queue (resume co v s))) \<or>
        ?st (run_queue (resume co v s)) = [curr_co (resume co v s)]"
      unfolding resume_fields q using n by auto
    show "cstate (resume co v s) x = RUNNING \<longleftrightarrow> x = curr_co (resume co v s) \<or> x \<in> set (?st (run_queue (resume co v s)))"
      if "x \<in> U" for x
      unfolding resume_fields q using D(7) [OF that] by auto
    show "cstate (resume co v s) x = SUSPEND"
      if "l \<in> H" "l \<noteq> run_queue (resume co v s)" "x \<in> set (?st l)"
        "\<And>l x. l \<in> H \<Longrightarrow> l \<noteq> ?q \<Longrightarrow> x \<in> set (remove1 co (st l)) \<Longrightarrow> cstate s x = SUSPEND \<and> x \<noteq> co" for l x
      using that o [of l] by simp
  qed (use r D(2,4,5) co in simp_all)
  then show ?thesis using q o by blast
qed

lemma yield_inv:
  assumes I: "sched_inv H U s st" and q: "st (run_queue s) \<noteq> []" "curr_co s \<notin> set (st (run_queue s))"
    and w: "\<And>q. w = Some q \<Longrightarrow> q \<in> H \<and> q \<noteq> run_queue s"
  obtains s' st' where "yield w v s = Some s'" "sched_inv H U s' st'" "curr_co s' = last (st (run_queue s))"
    "run_queue s' = run_queue s" "jump_val s' = v" "delayed s' = delayed s" "ret_val s' = ret_val s"
    "cstate s' = (cstate s)(curr_co s := SUSPEND)" "st' (run_queue s) = butlast (st (run_queue s))"
    "\<And>l. l \<in> H \<Longrightarrow> l \<noteq> run_queue s \<Longrightarrow> st' l = (if w = Some l then st l @ [curr_co s] else st l)"
proof -
  note D = sched_invD [OF I]
  let ?c = "curr_co s" and ?q = "run_queue s"
  let ?l = "last (st ?q)"
  let ?st = "case w of None \<Rightarrow> st_del ?l st | Some q \<Rightarrow> st_add_tail ?c q (st_del ?c (st_del ?l st))"
  obtain s' where y: "yield w v s = Some s'" "curr_co s' = ?l" "run_queue s' = ?q"
    "cstate s' = (cstate s)(?c := SUSPEND, ?l := RUNNING)" "jump_val s' = v"
    "exit_notify_queue s' = exit_notify_queue s" "delayed s' = delayed s" "ret_val s' = ret_val s"
    "list_rel H U (links s') ?st"
    using yield_ok [OF D(1-3) q(1), of w v] w by metis
  have l: "?l \<in> set (st ?q)" "?l \<in> U" using q(1) D(10) [OF D(2)] by auto
  have lc: "?l \<noteq> ?c" using l q(2) by auto
  have run: "cstate s ?l = RUNNING" using D(7) [OF l(2)] l(1) by simp
  have lo: "?l \<notin> set (st m)" if "m \<in> H" "m \<noteq> ?q" for m using D(8) [OF that, of ?l] run by auto
  note bl = remove1_last [OF D(9) [OF D(2)] q(1)] and set = set_last_butlast [OF D(9) [OF D(2)] q(1)]
  have rq: "?st ?q = butlast (st ?q)"
    using w bl remove1_idem [of ?c "butlast (st ?q)"] q(2) in_set_butlastD [of ?c "st ?q"]
    by (cases w) (auto simp: st_del_def st_add_tail_def)
  have o: "?st m = (if w = Some m then st m @ [?c] else st m)" if "m \<in> H" "m \<noteq> ?q" for m
    using that lo sched_cur_free [OF I that] by (cases w) (auto simp: st_del_def st_add_tail_def remove1_idem)
  have cs: "(cstate s)(?c := SUSPEND, ?l := RUNNING) = (cstate s)(?c := SUSPEND)" using run lc by auto
  have "cstate s x = SUSPEND \<or> x = ?c" if "m \<in> H" "m \<noteq> ?q" "x \<in> set (?st m)" for m x
    using that o [OF that(1,2)] D(8) [OF that(1,2)] by (auto split: if_splits)
  then have "sched_inv H U s' ?st"
  proof (intro sched_invI)
    show "curr_co s' \<notin> set (?st (run_queue s')) \<or> ?st (run_queue s') = [curr_co s']"
      unfolding y(2,3) rq using set by simp
    show "cstate s' x = RUNNING \<longleftrightarrow> x = curr_co s' \<or> x \<in> set (?st (run_queue s'))" if "x \<in> U" for x
      unfolding y(2,3,4) cs rq using D(7) [OF that] set q(2) by auto
    show "cstate s' x = SUSPEND"
      if "m \<in> H" "m \<noteq> run_queue s'" "x \<in> set (?st m)"
        "\<And>m x. m \<in> H \<Longrightarrow> m \<noteq> ?q \<Longrightarrow> x \<in> set (?st m) \<Longrightarrow> cstate s x = SUSPEND \<or> x = ?c" for m x
      using that(4) [OF that(1) _ that(3)] that(2) unfolding y(3,4) cs by auto
  qed (use y D(2,4,5) l(2) in simp_all)
  then show ?thesis using that [OF y(1)] y rq o cs by metis
qed

text \<open>The end of a coroutine: its waiters move to the queue of the notification, in order.\<close>

lemma exit_inv:
  assumes I: "sched_inv H U s st" and q: "st (run_queue s) \<noteq> []" "curr_co s \<notin> set (st (run_queue s))"
    and d: "data \<in> H" "data \<noteq> run_queue s" "st data = []" "data \<noteq> exit_notify_queue s (curr_co s)"
  obtains s' st' where "co_main_helper2 data ret s = Some s'" "sched_inv H U s' st'"
    "curr_co s' = last (st (run_queue s))" "run_queue s' = run_queue s" "cstate s' = (cstate s)(curr_co s := STOP)"
    "ret_val s' = (ret_val s)(curr_co s := ret)" "st' (run_queue s) = butlast (st (run_queue s))"
    "st' data = st (exit_notify_queue s (curr_co s))" "st' (exit_notify_queue s (curr_co s)) = []"
    "st (exit_notify_queue s (curr_co s)) \<noteq> [] \<longrightarrow> ProcExitNotify data ret \<in> set (delayed s')"
proof -
  note D = sched_invD [OF I]
  let ?c = "curr_co s" and ?q = "run_queue s" and ?e = "exit_notify_queue s (curr_co s)"
  define s1 where "s1 = upd_links (list_del_init ?c) (set_state ?c STOP (s\<lparr>ret_val := (ret_val s)(?c := ret)\<rparr>))"
  define s2 where "s2 = (if \<not> list_empty ?e (links s1) then
      (upd_links (\<lambda>h. list_del_init ?e (list_add data ?e (INIT_LIST_HEAD data h))) s1)
        \<lparr>delayed := delayed s @ [ProcExitNotify data ret]\<rparr> else s1)"
  define s3 where "s3 = (if is_end_delete s2 ?c then s2\<lparr>delay_del_list := delay_del_list s2 @ [?c],
      delayed := (if DelayDelTask \<in> set (delayed s2) then delayed s2 else delayed s2 @ [DelayDelTask])\<rparr> else s2)"
  have e3: "co_main_helper2 data ret s = co_return_p s3"
    unfolding co_main_helper2_def s3_def s2_def s1_def Let_def by (simp cong: if_cong)
  have free: "?c \<notin> set (st l)" if "l \<in> H" for l using sched_cur_free [OF I that] q(2) by (cases "l = ?q") auto
  have E: "?e \<in> H" "?e \<noteq> ?q" using D(3-5) by auto
  have r1: "list_rel H U (links s1) st"
  proof -
    have "list_rel H U (links s1) (st_del ?c st)" using list_del_init_rel [OF D(1,3)] by (simp add: s1_def)
    then show ?thesis by (rule list_rel_eq_on) (use free in \<open>simp add: st_del_def remove1_idem\<close>)
  qed
  let ?st2 = "st(data := st ?e, ?e := [])"
  have r2: "list_rel H U (links s2) ?st2"
  proof (cases "st ?e = []")
    case True
    then have "list_empty ?e (links s1)" using list_h.rel_empty [OF r1 E(1)] by simp
    then show ?thesis using True d(3) r1 by (auto simp: s2_def intro: list_rel_eq_on)
  next
    case False
    then have "\<not> list_empty ?e (links s1)" using list_h.rel_empty [OF r1 E(1)] by simp
    then show ?thesis using list_take_over_rel [OF r1 d(1,3) E(1)] d(4) by (simp add: s2_def)
  qed
  have r3: "list_rel H U (links s3) ?st2" using r2 by (simp add: s3_def)
  have q2: "?st2 ?q = st ?q" using d(2) E(2) by simp
  have f: "run_queue s3 = ?q" "cstate s3 = (cstate s)(?c := STOP)" "exit_notify_queue s3 = exit_notify_queue s"
    "ret_val s3 = (ret_val s)(?c := ret)" by (simp_all add: s3_def s2_def s1_def)
  let ?l = "last (st ?q)"
  obtain s' where y: "co_return_p s3 = Some s'" "curr_co s' = ?l" "run_queue s' = ?q"
    "cstate s' = (cstate s)(?c := STOP, ?l := RUNNING)" "exit_notify_queue s' = exit_notify_queue s"
    "delayed s' = delayed s3" "ret_val s' = (ret_val s)(?c := ret)" "list_rel H U (links s') (st_del ?l ?st2)"
    using co_return_ok [OF r3] f q(1) q2 D(2) by metis
  note set = set_last_butlast [OF D(9) [OF D(2)] q(1)]
  have lq: "?l \<in> set (st ?q)" using q(1) by simp
  then have l: "?l \<in> U" "?l \<noteq> ?c" using q(2) D(10) [OF D(2)] by auto
  then have "cstate s ?l = RUNNING" using D(7) lq by simp
  note l = l this
  have cs: "(cstate s)(?c := STOP, ?l := RUNNING) = (cstate s)(?c := STOP)" using l by auto
  have rq: "st_del ?l ?st2 ?q = butlast (st ?q)" using remove1_last [OF D(9) [OF D(2)] q(1)] d(2) E(2) by (simp add: st_del_def)
  have o: "st_del ?l ?st2 m = ?st2 m" if "m \<in> H" "m \<noteq> ?q" for m
    using D(8) [of _ ?l] that E l(3) by (auto simp: st_del_def intro!: remove1_idem)
  have "sched_inv H U s' (st_del ?l ?st2)"
  proof (rule sched_invI)
    show "curr_co s' \<notin> set (st_del ?l ?st2 (run_queue s')) \<or> st_del ?l ?st2 (run_queue s') = [curr_co s']"
      unfolding y(2,3) rq using set by simp
    show "cstate s' x = RUNNING \<longleftrightarrow> x = curr_co s' \<or> x \<in> set (st_del ?l ?st2 (run_queue s'))" if "x \<in> U" for x
      unfolding y(2,3,4) cs rq using D(7) [OF that] set q(2) by auto
    fix m x assume m: "m \<in> H" "m \<noteq> run_queue s'" "x \<in> set (st_del ?l ?st2 m)"
    then have "x \<in> set (?st2 m)" using o y(3) by simp
    then have "\<exists>m'. m' \<in> H \<and> m' \<noteq> ?q \<and> x \<in> set (st m')" using m(1,2) y(3) E by (auto split: if_splits)
    then show "cstate s' x = SUSPEND" using D(8) free unfolding y(4) cs by fastforce
  qed (use y D(2,4,5) l in simp_all)
  moreover have "ProcExitNotify data ret \<in> set (delayed s')" if "st ?e \<noteq> []"
    using that list_h.rel_empty [OF r1 E(1)] y(6) by (simp add: s3_def s2_def)
  ultimately show ?thesis using that [of s' "st_del ?l ?st2"] y e3 cs rq o d E by simp
qed

subsection \<open>Runs of the scheduler\<close>

datatype co_action = Resume addr int | Yield "addr option" int | Exit addr int

fun co_act :: "co_action \<Rightarrow> co_env \<Rightarrow> co_env option" where
  "co_act (Resume co v) s = Some (resume co v s)"
| "co_act (Yield w v) s = yield w v s"
| "co_act (Exit data ret) s = co_main_helper2 data ret s"

text \<open>
  What the callers respect: only a created or suspended coroutine is resumed, a coroutine yields or ends only
  after it was resumed (the main coroutine does not yield before its first \<open>resume\<close>, which would jump to a
  context never saved), and a notification queue is new. \<open>H\<close> are the list heads of the program, \<open>U\<close> its
  coroutines.
\<close>

fun co_legal :: "addr set \<Rightarrow> addr set \<Rightarrow> co_action \<Rightarrow> co_env \<Rightarrow> bool" where
  "co_legal H U (Resume co v) s \<longleftrightarrow> co \<in> U \<and> (cstate s co = CREATE \<or> cstate s co = SUSPEND)"
| "co_legal H U (Yield w v) s \<longleftrightarrow>
     \<not> list_empty (run_queue s) (links s) \<and> prv (links s) (run_queue s) \<noteq> curr_co s \<and>
     (case w of None \<Rightarrow> True | Some q \<Rightarrow> q \<in> H \<and> q \<noteq> run_queue s)"
| "co_legal H U (Exit data ret) s \<longleftrightarrow>
     \<not> list_empty (run_queue s) (links s) \<and> prv (links s) (run_queue s) \<noteq> curr_co s \<and>
     data \<in> H \<and> data \<noteq> run_queue s \<and> list_empty data (links s) \<and> data \<noteq> exit_notify_queue s (curr_co s)"

definition co_fresh :: "addr set \<Rightarrow> addr set \<Rightarrow> addr \<Rightarrow> co_env \<Rightarrow> bool" where
  "co_fresh H U main s \<longleftrightarrow>
     list_rel H U (links s) (\<lambda>_. []) \<and> run_queue s \<in> H \<and> main \<in> U \<and>
     (\<forall>c\<in>U. exit_notify_queue s c \<in> H \<and> exit_notify_queue s c \<noteq> run_queue s \<and> cstate s c \<noteq> RUNNING)"

inductive co_reach :: "addr set \<Rightarrow> addr set \<Rightarrow> addr \<Rightarrow> co_env \<Rightarrow> bool" for H U main where
  start: "co_fresh H U main s \<Longrightarrow> co_reach H U main (coroutine_env_init main s)"
| step: "co_reach H U main s \<Longrightarrow> co_legal H U a s \<Longrightarrow> co_act a s = Some s' \<Longrightarrow> co_reach H U main s'"

inductive_cases co_reachE: "co_reach H U main s"

lemma INIT_empty: "is_list h l [] \<Longrightarrow> INIT_LIST_HEAD l h = h"
  by (cases h) (auto simp: is_list_Nil INIT_LIST_HEAD_def set_next_def set_prev_def)

lemma start_inv:
  assumes "co_fresh H U main s"
  shows "sched_inv H U (coroutine_env_init main s) ((\<lambda>_. [])(run_queue s := [main]))"
proof -
  have r: "list_rel H U (links s) (\<lambda>_. [])" and m: "main \<in> U" "run_queue s \<in> H" "exit_notify_queue s main \<in> H"
    using assms by (auto simp: co_fresh_def)
  note D = list_relD [OF r]
  have i: "INIT_LIST_HEAD main (links s) = links s" "INIT_LIST_HEAD (exit_notify_queue s main) (links s) = links s"
    "INIT_LIST_HEAD (run_queue s) (links s) = links s"
    using D(1,5) m by (auto intro!: INIT_empty simp: linked_def)
  have l: "links (coroutine_env_init main s) = list_add_tail main (run_queue s) (links s)"
    by (simp add: coroutine_env_init_def init_coroutine_def Let_def i)
  have f: "run_queue (coroutine_env_init main s) = run_queue s" "curr_co (coroutine_env_init main s) = main"
    "cstate (coroutine_env_init main s) = (cstate s)(main := RUNNING)"
    "exit_notify_queue (coroutine_env_init main s) = exit_notify_queue s"
    by (simp_all add: coroutine_env_init_def init_coroutine_def Let_def)
  have "list_rel H U (list_add_tail main (run_queue s) (links s)) (st_add_tail main (run_queue s) (\<lambda>_. []))"
    by (rule list_add_rel(2) [OF r m(2,1)]) (simp add: linked_def)
  then show ?thesis
    by (intro sched_invI) (use assms m in \<open>auto simp: l f st_add_tail_def co_fresh_def\<close>)
qed

lemma legal_stack:
  assumes "sched_inv H U s st" "\<not> list_empty (run_queue s) (links s)" "prv (links s) (run_queue s) \<noteq> curr_co s"
  shows "st (run_queue s) \<noteq> []" "curr_co s \<notin> set (st (run_queue s))"
proof -
  note D = sched_invD [OF assms(1)]
  show "st (run_queue s) \<noteq> []" using assms(2) list_h.rel_empty [OF D(1,2)] by simp
  then have "last (st (run_queue s)) \<noteq> curr_co s" using assms(3) is_list_prev [OF list_relD(1) [OF D(1,2)]] by simp
  then show "curr_co s \<notin> set (st (run_queue s))" using D(6) by auto
qed

lemma step_inv:
  assumes I: "sched_inv H U s st" and a: "co_legal H U a s" "co_act a s = Some s'"
  shows "\<exists>st'. sched_inv H U s' st'"
proof (cases a)
  case (Resume co v)
  then show ?thesis using resume_inv [OF I, of co v] a by auto
next
  case (Yield w v)
  have l: "st (run_queue s) \<noteq> []" "curr_co s \<notin> set (st (run_queue s))" using legal_stack [OF I] a(1) Yield by auto
  show ?thesis by (rule yield_inv [OF I l, of w v]) (use a Yield in auto)
next
  case (Exit data ret)
  have l: "st (run_queue s) \<noteq> []" "curr_co s \<notin> set (st (run_queue s))" using legal_stack [OF I] a(1) Exit by auto
  have d: "data \<in> H" "data \<noteq> run_queue s" "data \<noteq> exit_notify_queue s (curr_co s)" "st data = []"
    using a(1) Exit list_h.rel_empty [OF sched_invD(1) [OF I]] by auto
  show ?thesis by (rule exit_inv [OF I l d(1,2,4,3), of ret]) (use a Exit in auto)
qed

lemma reach_inv: "co_reach H U main s \<Longrightarrow> \<exists>st. sched_inv H U s st"
proof (induction rule: co_reach.induct)
  case (step s a s')
  then show ?case using step_inv by blast
qed (use start_inv in blast)

text \<open>
  C1 (invariant): in every state the scheduler reaches, each coroutine is in at most one queue, at most once; the
  current coroutine and the ones in the run queue are exactly the running ones, and the coroutines in every
  other queue are suspended, so that a wakeup finds a coroutine that can be resumed.
\<close>

theorem scheduler_invariant:
  assumes "co_reach H U main s"
  shows "\<exists>st. (\<forall>l\<in>H. is_list (links s) l (st l)) \<and>
    (\<forall>l\<in>H. \<forall>m\<in>H. l \<noteq> m \<longrightarrow> set (st l) \<inter> set (st m) = {}) \<and>
    (\<forall>c\<in>U. cstate s c = RUNNING \<longleftrightarrow> c = curr_co s \<or> c \<in> set (st (run_queue s))) \<and>
    (\<forall>l\<in>H. l \<noteq> run_queue s \<longrightarrow> (\<forall>c\<in>set (st l). cstate s c = SUSPEND))"
proof -
  obtain st where I: "sched_inv H U s st" using reach_inv [OF assms] by blast
  show ?thesis
    by (rule exI [of _ st]) (use sched_invD(1,7,8) [OF I] list_relD(1,4) [OF sched_invD(1) [OF I]] in blast)
qed

definition ex_env :: co_env where
  "ex_env = \<lparr>links = \<lparr>nxt = (\<lambda>x. x), prv = (\<lambda>x. x)\<rparr>, run_queue = 1, curr_co = 0, cstate = (\<lambda>_. CREATE),
     ret_val = (\<lambda>_. 0), is_end_delete = (\<lambda>_. False), exit_notify_queue = (\<lambda>c. c + 1), jump_val = 0,
     delayed = [], delay_del_list = [], freed = []\<rparr>"

lemma ex_fresh: "co_fresh {1, 5, 11, 21} {10, 20} 10 ex_env"
  by (auto simp: co_fresh_def ex_env_def list_rel_def is_list_def linked_def)

lemma ex_reach: "co_reach {1, 5, 11, 21} {10, 20} 10 (resume 20 7 (coroutine_env_init 10 ex_env))"
proof (rule co_reach.step)
  show "co_reach {1, 5, 11, 21} {10, 20} 10 (coroutine_env_init 10 ex_env)" by (rule co_reach.start [OF ex_fresh])
  show "co_legal {1, 5, 11, 21} {10, 20} (Resume 20 7) (coroutine_env_init 10 ex_env)"
    by (simp add: coroutine_env_init_def init_coroutine_def Let_def ex_env_def)
qed simp

theorem scheduler_invariant_witness:
  "\<exists>st :: lstore. is_list (links (resume 20 7 (coroutine_env_init 10 ex_env))) 1 (st 1) \<and>
     (10 \<in> set (st 1) \<or> 10 = curr_co (resume 20 7 (coroutine_env_init 10 ex_env)))"
proof -
  have s: "run_queue (resume 20 7 (coroutine_env_init 10 ex_env)) = 1"
    "cstate (resume 20 7 (coroutine_env_init 10 ex_env)) 10 = RUNNING"
    by (simp_all add: coroutine_env_init_def init_coroutine_def Let_def ex_env_def)
  obtain st where "\<forall>l\<in>{1, 5, 11, 21}. is_list (links (resume 20 7 (coroutine_env_init 10 ex_env))) l (st l)"
    "\<forall>c\<in>{10, 20}. cstate (resume 20 7 (coroutine_env_init 10 ex_env)) c = RUNNING \<longleftrightarrow>
       c = curr_co (resume 20 7 (coroutine_env_init 10 ex_env)) \<or> c \<in> set (st 1)"
    using scheduler_invariant [OF ex_reach] unfolding s by blast
  then have "is_list (links (resume 20 7 (coroutine_env_init 10 ex_env))) 1 (st 1) \<and>
      (10 \<in> set (st 1) \<or> 10 = curr_co (resume 20 7 (coroutine_env_init 10 ex_env)))" using s(2) by simp
  then show ?thesis by blast
qed

text \<open>
  C2 (functional): \<open>resume\<close> and \<open>yield\<close> behave like call and return. After \<open>resume co\<close> the coroutine \<open>co\<close> runs, out of
  any queue, and its next \<open>yield\<close> returns to the coroutine that resumed it, with the run queue it had before and
  the value that was passed to \<open>yield\<close>, and leaves \<open>co\<close> suspended, at the end of the queue it chose to wait in.
\<close>

theorem resume_yield_returns:
  assumes "co_reach H U main s" and "co \<in> U" and "cstate s co = CREATE \<or> cstate s co = SUSPEND"
    and "q \<in> H" "q \<noteq> run_queue s" and "is_list (links s) (run_queue s) rq" and "is_list (links s) q qs"
  shows "curr_co (resume co v s) = co \<and>
    (\<exists>s'. yield (Some q) v' (resume co v s) = Some s' \<and> curr_co s' = curr_co s \<and> jump_val s' = v' \<and>
      cstate s' = (cstate s)(co := SUSPEND) \<and>
      is_list (links s') (run_queue s) (removeAll (curr_co s) rq) \<and>
      is_list (links s') q (remove1 co qs @ [co]))"
proof -
  obtain st where I: "sched_inv H U s st" using reach_inv [OF assms(1)] by blast
  note D = sched_invD [OF I]
  have st: "st (run_queue s) = rq" "st q = qs"
    using is_list_unique list_relD(1) [OF D(1)] D(2) assms(4,6,7) by blast+
  have nr: "cstate s co \<noteq> RUNNING" using assms(3) by auto
  obtain st1 where st1: "sched_inv H U (resume co v s) st1" "st1 (run_queue s) = removeAll (curr_co s) rq @ [curr_co s]"
    "st1 q = remove1 co qs"
    using resume_inv [OF I assms(2) nr, of v] assms(4,5) st by metis
  have "last (st1 (run_queue s)) = curr_co s" using st1(2) by simp
  moreover have "co \<noteq> curr_co s" using D(7) [OF assms(2)] assms(3) by auto
  ultimately have n: "curr_co (resume co v s) \<notin> set (st1 (run_queue (resume co v s)))"
    using sched_invD(6) [OF st1(1)] st1(2) by auto
  obtain s' st' where y: "yield (Some q) v' (resume co v s) = Some s'" "sched_inv H U s' st'"
    "curr_co s' = last (st1 (run_queue s))" "jump_val s' = v'" "run_queue s' = run_queue s"
    "cstate s' = (cstate (resume co v s))(co := SUSPEND)" "st' (run_queue s) = butlast (st1 (run_queue s))"
    "st' q = st1 q @ [co]"
    by (rule yield_inv [OF st1(1) _ n, of "Some q" v']) (use assms(4,5) st1(2) in auto)
  have "is_list (links s') (run_queue s) (st' (run_queue s))" "is_list (links s') q (st' q)"
    using list_relD(1) [OF sched_invD(1) [OF y(2)]] D(2) assms(4) by auto
  then show ?thesis using y st1 by auto
qed

theorem resume_yield_returns_witness:
  "\<exists>s'. yield (Some 5) 9 (resume 20 7 (coroutine_env_init 10 ex_env)) = Some s' \<and> curr_co s' = 10 \<and>
     jump_val s' = 9 \<and> cstate s' 20 = SUSPEND \<and> is_list (links s') 5 [20]"
proof -
  let ?s = "coroutine_env_init 10 ex_env"
  have r: "co_reach {1, 5, 11, 21} {10, 20} 10 ?s" by (rule co_reach.start [OF ex_fresh])
  have f: "run_queue ?s = 1" "curr_co ?s = 10" "cstate ?s 20 = CREATE"
    by (simp_all add: coroutine_env_init_def init_coroutine_def Let_def ex_env_def)
  have "sched_inv {1, 5, 11, 21} {10, 20} ?s ((\<lambda>_. [])(1 := [10]))"
    using start_inv [OF ex_fresh] by (simp add: ex_env_def)
  then have l: "is_list (links ?s) 1 [10]" "is_list (links ?s) 5 []"
    using list_relD(1) [OF sched_invD(1), of "{1, 5, 11, 21}" "{10, 20}" ?s "(\<lambda>_. [])(1 := [10])" 1]
      list_relD(1) [OF sched_invD(1), of "{1, 5, 11, 21}" "{10, 20}" ?s "(\<lambda>_. [])(1 := [10])" 5] by auto
  show ?thesis using resume_yield_returns [OF r, of 20 5 "[10]" "[]" 7 9] f l by auto
qed

subsection \<open>Waking the waiters of a coroutine that ended\<close>

text \<open>
  What a resumed coroutine may do until control comes back: anything that keeps the scheduler invariant and
  leaves the notification queue alone, whose members are suspended.
\<close>

definition run_keeps :: "addr set \<Rightarrow> addr set \<Rightarrow> addr \<Rightarrow> (addr \<Rightarrow> co_env \<Rightarrow> co_env) \<Rightarrow> bool" where
  "run_keeps H U data run \<longleftrightarrow>
     (\<forall>s st. sched_inv H U s st \<and> data \<noteq> run_queue s \<and> st (run_queue s) \<noteq> [] \<and> curr_co s \<notin> set (st (run_queue s)) \<longrightarrow>
        (\<exists>st'. sched_inv H U (run (curr_co s) s) st' \<and> st' data = st data) \<and>
        run_queue (run (curr_co s) s) = run_queue s)"

definition wake :: "(addr \<Rightarrow> co_env \<Rightarrow> co_env) \<Rightarrow> int \<Rightarrow> addr \<Rightarrow> co_env \<Rightarrow> co_env" where
  "wake run ret w s = run w (resume w ret (upd_links (list_del_init w) s))"

lemma del_inv:
  assumes I: "sched_inv H U s st" and x: "x \<in> U" "x \<notin> set (st (run_queue s))"
  shows "sched_inv H U (upd_links (list_del_init x) s) (st_del x st)"
proof -
  note D = sched_invD [OF I]
  have q: "st_del x st (run_queue s) = st (run_queue s)" using x(2) by (simp add: st_del_def remove1_idem)
  have "c \<in> set (st l)" if "c \<in> set (st_del x st l)" for c l
    using that set_remove1_subset [of x "st l"] by (auto simp: st_del_def)
  then show ?thesis
    using list_del_init_rel [OF D(1) x(1)] D(2-8) q by (intro sched_invI) simp_all
qed

lemma wake_inv:
  assumes I: "sched_inv H U s st" and keep: "run_keeps H U data run" and d: "data \<in> H" "data \<noteq> run_queue s"
    and x: "st data = x # xs"
  shows "notify_body run ret x s = wake run ret x s"
    and "\<exists>st'. sched_inv H U (wake run ret x s) st' \<and> st' data = xs \<and> run_queue (wake run ret x s) = run_queue s"
proof -
  note D = sched_invD [OF I]
  have S: "cstate s x = SUSPEND" and xU: "x \<in> U" using D(8) [OF d] D(10) [OF d(1)] x by auto
  then show "notify_body run ret x s = wake run ret x s" by (simp add: notify_body_def wake_def Let_def)
  have xq: "x \<notin> set (st (run_queue s))" using D(7) [OF xU] S by auto
  let ?s1 = "upd_links (list_del_init x) s"
  note I1 = del_inv [OF I xU xq]
  have "cstate ?s1 x \<noteq> RUNNING" using S by simp
  from resume_inv [OF I1 xU this, of ret] obtain st2 where st2: "sched_inv H U (resume x ret ?s1) st2"
    "st2 (run_queue s) = removeAll (curr_co s) (st_del x st (run_queue s)) @ [curr_co s]" "st2 data = remove1 x (st_del x st data)"
    using d by auto
  have xd: "x \<notin> set xs" using D(9) [OF d(1)] x by simp
  then have data: "st2 data = xs" using st2(3) x by (simp add: st_del_def remove1_idem)
  have "x \<noteq> curr_co s" using D(7) [OF xU] S by auto
  then have "st2 (run_queue s) \<noteq> []" "x \<notin> set (st2 (run_queue s))"
    using st2(2) xq set_remove1_subset [of x "st (run_queue s)"] by (auto simp: st_del_def)
  then have "(\<exists>st'. sched_inv H U (run (curr_co (resume x ret ?s1)) (resume x ret ?s1)) st' \<and> st' data = st2 data) \<and>
      run_queue (run (curr_co (resume x ret ?s1)) (resume x ret ?s1)) = run_queue (resume x ret ?s1)"
    using st2(1) d(2) by (intro keep [unfolded run_keeps_def, rule_format]) simp
  then show "\<exists>st'. sched_inv H U (wake run ret x s) st' \<and> st' data = xs \<and> run_queue (wake run ret x s) = run_queue s"
    using data by (auto simp: wake_def)
qed

lemma proc_exit_notify_wakes:
  assumes keep: "run_keeps H U data run" and I: "sched_inv H U s st" and d: "data \<in> H" "data \<noteq> run_queue s"
    and k: "length (st data) < k"
  shows "proc_exit_notify k run data ret s = Some (fold (wake run ret) (st data) s)"
proof -
  note D = sched_invD [OF I]
  let ?I = "\<lambda>xs s'. \<exists>ys st'. st data = ys @ xs \<and> s' = fold (wake run ret) ys s \<and>
     sched_inv H U s' st' \<and> st' data = xs \<and> run_queue s' = run_queue s"
  have "\<exists>s'. list_for_each_entry_safe k links (notify_body run ret) data s = Some s' \<and> ?I [] s'"
  proof (rule list_for_each_entry_safe_rule)
    show "is_list (links s) data (st data)" by (rule list_relD(1) [OF D(1) d(1)])
    show "?I (st data) s" using I by (intro exI [of _ "[]"] exI [of _ st]) auto
    show "chain (nxt (links s')) xs data" if "?I xs s'" for xs s'
      using that is_list_chain [of _ data "[]" xs] list_relD(1) [OF sched_invD(1) d(1)] by fastforce
    show "length (st data) < k" by (rule k)
    fix x xs s' assume "?I (x # xs) s'"
    then obtain ys st' where a: "st data = ys @ x # xs" "s' = fold (wake run ret) ys s" "sched_inv H U s' st'"
      "st' data = x # xs" "run_queue s' = run_queue s" by blast
    have d': "data \<noteq> run_queue s'" using d(2) a(5) by simp
    obtain st3 where "sched_inv H U (wake run ret x s') st3" "st3 data = xs" "run_queue (wake run ret x s') = run_queue s'"
      using wake_inv(2) [OF a(3) keep d(1) d' a(4)] by blast
    then show "?I xs (notify_body run ret x s')"
      unfolding wake_inv(1) [OF a(3) keep d(1) d' a(4)] using a(1,2,5)
      by (intro exI [of _ "ys @ [x]"] exI [of _ st3]) simp
  qed
  then show ?thesis by (auto simp: proc_exit_notify_def)
qed

text \<open>
  C3 (liveness): a coroutine that ends wakes its waiters. Its end hands the queue of its waiters to a delayed
  task and returns to the coroutine that had resumed it; that task then resumes every coroutine that was waiting,
  each exactly once, in the order in which they started to wait, with the return value of the coroutine that
  ended.
\<close>

theorem exit_wakes_waiters:
  assumes "co_reach H U main s" and "co_legal H U (Exit data ret) s"
    and "is_list (links s) (exit_notify_queue s (curr_co s)) ws" and "ws \<noteq> []"
    and "run_keeps H U data run" and "length ws < k"
  shows "\<exists>s'. co_main_helper2 data ret s = Some s' \<and> cstate s' (curr_co s) = STOP \<and> ret_val s' (curr_co s) = ret \<and>
    ProcExitNotify data ret \<in> set (delayed s') \<and>
    curr_co s' = prv (links s) (run_queue s) \<and>
    proc_exit_notify k run data ret s' = Some (fold (wake run ret) ws s')"
proof -
  obtain st where I: "sched_inv H U s st" using reach_inv [OF assms(1)] by blast
  note D = sched_invD [OF I]
  have l: "st (run_queue s) \<noteq> []" "curr_co s \<notin> set (st (run_queue s))" using legal_stack [OF I] assms(2) by auto
  have d: "data \<in> H" "data \<noteq> run_queue s" "data \<noteq> exit_notify_queue s (curr_co s)" "st data = []"
    using assms(2) list_h.rel_empty [OF D(1)] by auto
  have ws: "st (exit_notify_queue s (curr_co s)) = ws"
    using is_list_unique list_relD(1) [OF D(1)] D(4) [OF D(3)] assms(3) by blast
  have p: "prv (links s) (run_queue s) = last (st (run_queue s))"
    using is_list_prev [OF list_relD(1) [OF D(1,2)]] l(1) by simp
  obtain s' st' where e: "co_main_helper2 data ret s = Some s'" "sched_inv H U s' st'"
    "curr_co s' = last (st (run_queue s))" "run_queue s' = run_queue s" "cstate s' = (cstate s)(curr_co s := STOP)"
    "ret_val s' = (ret_val s)(curr_co s := ret)" "st' data = ws" "ProcExitNotify data ret \<in> set (delayed s')"
    by (rule exit_inv [OF I l d(1,2,4,3), of ret]) (use ws assms(4) in auto)
  have "proc_exit_notify k run data ret s' = Some (fold (wake run ret) ws s')"
    using proc_exit_notify_wakes [OF assms(5) e(2) d(1), of k ret] d(2) e(4,7) assms(6) by simp
  then show ?thesis using e p by auto
qed

definition ex_run :: "addr \<Rightarrow> co_env \<Rightarrow> co_env" where
  "ex_run c s = (case yield None 0 s of Some s' \<Rightarrow> s' | None \<Rightarrow> s)"

lemma ex_run_keeps:
  assumes d: "data \<in> H"
  shows "run_keeps H U data ex_run"
  unfolding run_keeps_def
proof (intro allI impI, elim conjE)
  fix s st assume I: "sched_inv H U s st" and n: "data \<noteq> run_queue s"
    and q: "st (run_queue s) \<noteq> []" "curr_co s \<notin> set (st (run_queue s))"
  show "(\<exists>st'. sched_inv H U (ex_run (curr_co s) s) st' \<and> st' data = st data) \<and>
        run_queue (ex_run (curr_co s) s) = run_queue s"
    by (rule yield_inv [OF I q, of None 0]) (use d n in \<open>auto simp: ex_run_def\<close>)
qed

text \<open>Coroutine 30 has yielded into the exit queue of coroutine 20, which runs.\<close>

definition ex_waiting :: co_env where
  "ex_waiting = resume 20 0 (the (yield (Some 21) 0 (resume 30 0 (coroutine_env_init 10 ex_env))))"

lemmas link_ops = list_pop_tail_def list_add_tail_def list_add_between_def list_del_init_def list_del_between_def
  INIT_LIST_HEAD_def set_next_def set_prev_def list_empty_def
lemmas env_ops = resume_def yield_def coroutine_env_init_def init_coroutine_def ex_env_def

lemma ex_fresh3: "co_fresh {1, 5, 11, 21, 31} {10, 20, 30} 10 ex_env"
  by (auto simp: co_fresh_def ex_env_def list_rel_def is_list_def linked_def)

lemma ex_waiting_reach: "co_reach {1, 5, 11, 21, 31} {10, 20, 30} 10 ex_waiting"
  unfolding ex_waiting_def
proof (rule co_reach.step [OF co_reach.step [OF co_reach.step [OF co_reach.start [OF ex_fresh3]]]])
  let ?s = "resume 30 0 (coroutine_env_init 10 ex_env)"
  show "co_legal {1, 5, 11, 21, 31} {10, 20, 30} (Resume 30 0) (coroutine_env_init 10 ex_env)"
    by (simp add: env_ops Let_def)
  show "co_legal {1, 5, 11, 21, 31} {10, 20, 30} (Yield (Some 21) 0) ?s"
    by (simp add: env_ops link_ops Let_def)
  show "co_act (Yield (Some 21) 0) ?s = Some (the (yield (Some 21) 0 ?s))"
    by (simp add: env_ops link_ops Let_def)
  show "co_legal {1, 5, 11, 21, 31} {10, 20, 30} (Resume 20 0) (the (yield (Some 21) 0 ?s))"
    by (simp add: env_ops link_ops Let_def)
qed simp_all

lemma ex_waiting_state:
  "curr_co ex_waiting = 20" "run_queue ex_waiting = 1" "exit_notify_queue ex_waiting 20 = 21"
  "is_list (links ex_waiting) 21 [30]" "co_legal {1, 5, 11, 21, 31} {10, 20, 30} (Exit 5 3) ex_waiting"
  by (simp_all add: ex_waiting_def env_ops link_ops is_list_def Let_def)

theorem exit_wakes_waiters_witness:
  "\<exists>s'. co_main_helper2 5 3 ex_waiting = Some s' \<and> cstate s' 20 = STOP \<and> ProcExitNotify 5 3 \<in> set (delayed s') \<and>
     proc_exit_notify 2 ex_run 5 3 s' = Some (ex_run 30 (resume 30 3 (upd_links (list_del_init 30) s')))"
  using exit_wakes_waiters [OF ex_waiting_reach ex_waiting_state(5), of "[30]" ex_run 2]
    ex_run_keeps [of 5 "{1, 5, 11, 21, 31}" "{10, 20, 30}"] ex_waiting_state(1,3,4)
  by (auto simp: wake_def)

end
