(* ===== verification/WaitQueue.thy ===== *)
theory WaitQueue
  imports Coroutine
begin

text \<open>
  The wait queues of \<open>core/wait_queue.h\<close> and \<open>core/src/wait_queue.cpp\<close>. A waiting coroutine has a \<open>WaitItem\<close> on
  its stack, the address of its link, in the list of the queue; the items are linked in their own heap, since an
  item is no coroutine. Timers are the set of items (and of condition queues) for which one is armed; the time
  wheel calls \<open>wait_queue_item_timeout\<close> after it has disarmed the timer. An operation that resumes a coroutine
  takes what happens until control comes back as the argument \<open>run\<close>.
\<close>

subsection \<open>State and operations\<close>

record wq_state =
  wlinks :: lheap
  wenv :: co_env
  queue :: addr
  wait_num :: "32 word"
  item_co :: "addr \<Rightarrow> addr"
  expired_flag :: "addr \<Rightarrow> bool"
  armed :: "addr set"

abbreviation upd_wlinks :: "(lheap \<Rightarrow> lheap) \<Rightarrow> wq_state \<Rightarrow> wq_state" where
  "upd_wlinks f s \<equiv> s\<lparr>wlinks := f (wlinks s)\<rparr>"

definition WaitQueue_init :: "wq_state \<Rightarrow> wq_state" where
  "WaitQueue_init s = upd_wlinks (INIT_LIST_HEAD (queue s)) (s\<lparr>wait_num := 0\<rparr>)"

text \<open>\<open>wait_on\<close> up to its yield, and what it does when the coroutine runs again, with the result.\<close>

definition wait_on :: "int \<Rightarrow> addr \<Rightarrow> wq_state \<Rightarrow> wq_state option" where
  "wait_on ms w s =
     (let co = curr_co (wenv s);
          s = s\<lparr>item_co := (item_co s)(w := co), expired_flag := (expired_flag s)(w := False)\<rparr>;
          s = upd_wlinks (INIT_LIST_HEAD w) s;
          s = (if ms \<ge> 0 then s\<lparr>armed := insert w (armed s)\<rparr> else s);
          s = upd_wlinks (list_add_tail w (queue s)) s;
          s = s\<lparr>wait_num := wait_num s + 1\<rparr>
      in map_option (\<lambda>e. s\<lparr>wenv := e\<rparr>) (yield None 0 (wenv s)))"

definition wait_on_return :: "int \<Rightarrow> addr \<Rightarrow> wq_state \<Rightarrow> int \<times> wq_state" where
  "wait_on_return ms w s =
     (let s = s\<lparr>wait_num := wait_num s - 1\<rparr>;
          s = (if ms \<ge> 0 then s\<lparr>armed := armed s - {w}\<rparr> else s)
      in (if expired_flag s w then -1 else 0, s))"

text \<open>Resuming the coroutine of an item.\<close>

definition resume_item :: "addr \<Rightarrow> wq_state \<Rightarrow> wq_state" where
  "resume_item w s = s\<lparr>wenv := resume (item_co s w) 0 (wenv s)\<rparr>"

definition wait_queue_item_timeout :: "addr \<Rightarrow> wq_state \<Rightarrow> wq_state" where
  "wait_queue_item_timeout w s =
     resume_item w (upd_wlinks (list_del_init w) (s\<lparr>expired_flag := (expired_flag s)(w := True)\<rparr>))"

definition wake_item :: "(addr \<Rightarrow> wq_state \<Rightarrow> wq_state) \<Rightarrow> addr \<Rightarrow> wq_state \<Rightarrow> wq_state" where
  "wake_item run it s = run it (resume_item it (upd_wlinks (list_del_init it) s))"

definition wakeup_all :: "nat \<Rightarrow> (addr \<Rightarrow> wq_state \<Rightarrow> wq_state) \<Rightarrow> wq_state \<Rightarrow> (int \<times> wq_state) option" where
  "wakeup_all k run s =
     list_for_each_entry_safe k (wlinks \<circ> snd) (\<lambda>it (n, s). (n + 1, wake_item run it s)) (queue s) (0, s)"

definition WaitQueue_fini :: "nat \<Rightarrow> (addr \<Rightarrow> wq_state \<Rightarrow> wq_state) \<Rightarrow> wq_state \<Rightarrow> wq_state option" where
  "WaitQueue_fini k run s = list_for_each_entry_safe k wlinks (wake_item run) (queue s) s"

text \<open>The loops that stop after \<open>num\<close> items, forwards along \<open>next\<close> and backwards along \<open>prev\<close>.\<close>

fun wakeup_n_from :: "nat \<Rightarrow> (lheap \<Rightarrow> addr \<Rightarrow> addr) \<Rightarrow> (addr \<Rightarrow> wq_state \<Rightarrow> wq_state) \<Rightarrow> int \<Rightarrow> int \<Rightarrow> addr \<Rightarrow> addr \<Rightarrow> addr \<Rightarrow>
    wq_state \<Rightarrow> (int \<times> wq_state) option" where
  "wakeup_n_from 0 lk run num n head it nx s = None"
| "wakeup_n_from (Suc k) lk run num n head it nx s =
     (if it = head then Some (n, s)
      else let s = wake_item run it s; n = n + 1
           in if n \<ge> num then Some (n, s) else wakeup_n_from k lk run num n head nx (lk (wlinks s) nx) s)"


definition wakeup_tail_n :: "nat \<Rightarrow> (addr \<Rightarrow> wq_state \<Rightarrow> wq_state) \<Rightarrow> int \<Rightarrow> wq_state \<Rightarrow> (int \<times> wq_state) option" where
  "wakeup_tail_n k run num s =
     (let it = prv (wlinks s) (queue s) in wakeup_n_from k prv run num 0 (queue s) it (prv (wlinks s) it) s)"

definition wakeup_head :: "(addr \<Rightarrow> wq_state \<Rightarrow> wq_state) \<Rightarrow> wq_state \<Rightarrow> int \<times> wq_state" where
  "wakeup_head run s =
     (if \<not> list_empty (queue s) (wlinks s) then (1, wake_item run (nxt (wlinks s) (queue s)) s) else (0, s))"

definition wakeup_tail :: "(addr \<Rightarrow> wq_state \<Rightarrow> wq_state) \<Rightarrow> wq_state \<Rightarrow> int \<times> wq_state" where
  "wakeup_tail run s =
     (if \<not> list_empty (queue s) (wlinks s) then (1, wake_item run (prv (wlinks s) (queue s)) s) else (0, s))"

text \<open>
  \<open>CondWaitQueue::wakeup_all\<close>: \<open>cond\<close> is the result of the check function, \<open>None\<close> if there is none; \<open>tm\<close> is the
  timer of the queue.
\<close>

definition cond_wakeup_all ::
  "nat \<Rightarrow> (addr \<Rightarrow> wq_state \<Rightarrow> wq_state) \<Rightarrow> int option \<Rightarrow> addr \<Rightarrow> wq_state \<Rightarrow> (int \<times> wq_state) option" where
  "cond_wakeup_all k run cond tm s =
     (case cond of
        None \<Rightarrow> wakeup_all k run s
      | Some ret \<Rightarrow>
          if ret > 0 then wakeup_all k run (s\<lparr>armed := armed s - {tm}\<rparr>)
          else Some (0, if tm \<notin> armed s then s\<lparr>armed := insert tm (armed s)\<rparr> else s))"

text \<open>The timer of a condition queue, after the wheel has disarmed it.\<close>

definition cond_timeout_proc :: "nat \<Rightarrow> (addr \<Rightarrow> wq_state \<Rightarrow> wq_state) \<Rightarrow> addr \<Rightarrow> wq_state \<Rightarrow> (int \<times> wq_state) option" where
  "cond_timeout_proc k run tm s = wakeup_all k run (s\<lparr>armed := armed s - {tm}\<rparr>)"

subsection \<open>Resuming and coming back\<close>

lemma resume_yield_back:
  assumes I: "sched_inv H U s st" and co: "co \<in> U" "cstate s co \<noteq> RUNNING"
  obtains s' st' where "yield None v' (resume co v s) = Some s'" "sched_inv H U s' st'" "curr_co s' = curr_co s"
    "cstate s' = (cstate s)(co := SUSPEND)" "run_queue s' = run_queue s"
proof -
  obtain st1 where st1: "sched_inv H U (resume co v s) st1"
    "st1 (run_queue s) = removeAll (curr_co s) (st (run_queue s)) @ [curr_co s]"
    using resume_inv [OF I co, of v] by blast
  have "co \<noteq> curr_co s" using sched_invD(7) [OF I co(1)] co(2) by auto
  then have n: "curr_co (resume co v s) \<notin> set (st1 (run_queue (resume co v s)))" "st1 (run_queue (resume co v s)) \<noteq> []"
    using sched_invD(6) [OF st1(1)] st1(2) by auto
  obtain s' st' where "yield None v' (resume co v s) = Some s'" "sched_inv H U s' st'"
    "curr_co s' = last (st1 (run_queue (resume co v s)))" "run_queue s' = run_queue (resume co v s)"
    "cstate s' = (cstate (resume co v s))(curr_co (resume co v s) := SUSPEND)"
    by (rule yield_inv [OF st1(1) n(2,1), of None v']) auto
  then show ?thesis using that st1(2) by simp
qed

text \<open>
  A coroutine that waits in a loop: when it is resumed it returns from \<open>wait_on\<close> and, its condition still false,
  waits again with the item of the same stack frame.
\<close>

definition wait_again :: "addr \<Rightarrow> wq_state \<Rightarrow> wq_state" where
  "wait_again w s = (case wait_on (-1) w (snd (wait_on_return (-1) w s)) of Some s' \<Rightarrow> s' | None \<Rightarrow> s)"

text \<open>Suspended waiters in the order of the queue.\<close>

definition wq_inv :: "addr set \<Rightarrow> addr set \<Rightarrow> wq_state \<Rightarrow> addr list \<Rightarrow> bool" where
  "wq_inv H U s ws \<longleftrightarrow>
     (\<exists>st. sched_inv H U (wenv s) st) \<and> is_list (wlinks s) (queue s) ws \<and>
     (\<forall>w\<in>set ws. item_co s w \<in> U \<and> cstate (wenv s) (item_co s w) = SUSPEND) \<and> inj_on (item_co s) (set ws)"

lemma wait_again_cycles:
  assumes I: "wq_inv H U s (a # ws)"
  shows "wq_inv H U (wake_item wait_again a s) (ws @ [a])" "queue (wake_item wait_again a s) = queue s"
proof -
  obtain st where st: "sched_inv H U (wenv s) st" and l: "is_list (wlinks s) (queue s) (a # ws)"
    and co: "\<And>w. w \<in> set (a # ws) \<Longrightarrow> item_co s w \<in> U \<and> cstate (wenv s) (item_co s w) = SUSPEND"
    and inj: "inj_on (item_co s) (set (a # ws))" using I unfolding wq_inv_def by blast
  let ?c = "item_co s a"
  obtain e st' where e: "yield None 0 (resume ?c 0 (wenv s)) = Some e" "sched_inv H U e st'"
    "curr_co e = curr_co (wenv s)" "cstate e = (cstate (wenv s))(?c := SUSPEND)"
    by (rule resume_yield_back [OF st, of ?c]) (use co in auto)
  let ?h = "list_del_init a (wlinks s)"
  have d: "a \<notin> set (queue s # ws)" using l by (auto simp: is_list_def)
  have "is_list ?h (queue s) ws" using list_del_init_is_list(1) [of "wlinks s" "queue s" "[]" a ws] l by simp
  then have l': "is_list (list_add_tail a (queue s) (INIT_LIST_HEAD a ?h)) (queue s) (ws @ [a])"
    using list_add_tail_is_list [OF is_list_after_INIT] d by blast
  define s' where "s' = wake_item wait_again a s"
  have f: "wenv s' = e" "wlinks s' = list_add_tail a (queue s) (INIT_LIST_HEAD a ?h)" "queue s' = queue s"
    "item_co s' = (item_co s)(a := ?c)"
    using e(1) by (simp_all add: s'_def wake_item_def wait_again_def wait_on_def wait_on_return_def resume_item_def Let_def)
  have "item_co s' = item_co s" using f(4) by simp
  then show "wq_inv H U (wake_item wait_again a s) (ws @ [a])" "queue (wake_item wait_again a s) = queue s"
    unfolding s'_def [symmetric] wq_inv_def using e l' f co inj by auto
qed

lemma wakeup_all_spins:
  assumes "wq_inv H U s (a # b # ws)"
  shows "for_each_safe_from k nxt (wlinks \<circ> snd) (\<lambda>it (n, s). (n + 1, wake_item wait_again it s)) (queue s) a b (n, s) = None"
  using assms
proof (induction k arbitrary: a b ws n s)
  case (Suc k)
  let ?s = "wake_item wait_again a s"
  note c = wait_again_cycles [OF Suc.prems]
  obtain x zs where x: "ws @ [a] = x # zs" by (cases "ws @ [a]") auto
  then have I: "wq_inv H U ?s (b # x # zs)" using c(1) by simp
  then have "is_list (wlinks ?s) (queue s) (b # x # zs)" using c(2) by (simp add: wq_inv_def)
  then have "nxt (wlinks ?s) b = x" by (simp add: is_list_def)
  moreover have "a \<noteq> queue s" using Suc.prems by (auto simp: wq_inv_def is_list_def)
  ultimately show ?case using Suc.IH [OF I] c(2) by simp
qed simp

text \<open>
  C17 (liveness): \<open>wakeup_all\<close> never returns when two or more coroutines wait in a loop. The loop over the queue
  saves the successor of an item, but each coroutine it resumes waits again and appends its item to the same
  queue before control comes back, so the loop never reaches the head.
\<close>

theorem wakeup_all_spins_forever:
  assumes "wq_inv H U s ws" and "2 \<le> length ws"
  shows "wakeup_all k wait_again s = None"
proof -
  obtain a b vs where ws: "ws = a # b # vs" using assms(2) by (cases ws; cases "tl ws") auto
  have "is_list (wlinks s) (queue s) (a # b # vs)" using assms(1) ws by (simp add: wq_inv_def)
  then have "nxt (wlinks s) (queue s) = a" "nxt (wlinks s) a = b" by (simp_all add: is_list_def)
  then show ?thesis
    using wakeup_all_spins [of H U s a b vs k 0] assms(1) ws by (simp add: wakeup_all_def list_for_each_entry_safe_def)
qed

subsection \<open>Waiters that wait once\<close>






subsection \<open>Two waiters\<close>



text \<open>Two coroutines that have yielded after they linked their items 70 and 80 into the queue at 60.\<close>

definition ex_env2 :: co_env where
  "ex_env2 = the (yield None 0 (resume 20 0 (the (yield None 0 (resume 30 0 (coroutine_env_init 10 ex_env))))))"

definition ex_wq :: wq_state where
  "ex_wq = \<lparr>wlinks = list_add_tail 80 60 (list_add_tail 70 60 \<lparr>nxt = (\<lambda>x. x), prv = (\<lambda>x. x)\<rparr>), wenv = ex_env2, queue = 60,
     wait_num = 2, item_co = (\<lambda>w. if w = 70 then 30 else 20), expired_flag = (\<lambda>_. False), armed = {}\<rparr>"

lemma ex_wq_inv: "wq_inv {1, 5, 11, 21, 31} {10, 20, 30} ex_wq [70, 80]"
proof -
  let ?H = "{1, 5, 11, 21, 31} :: addr set" and ?U = "{10, 20, 30} :: addr set" and ?s = "coroutine_env_init 10 ex_env"
  obtain st where st: "sched_inv ?H ?U ?s st" using start_inv [OF ex_fresh3] by blast
  have c: "cstate ?s 30 = CREATE" "cstate ?s 20 = CREATE"
    by (simp_all add: coroutine_env_init_def init_coroutine_def Let_def ex_env_def)
  obtain s1 st1 where s1: "yield None 0 (resume 30 0 ?s) = Some s1" "sched_inv ?H ?U s1 st1" "cstate s1 = (cstate ?s)(30 := SUSPEND)"
    by (rule resume_yield_back [OF st, of 30]) (use c in auto)
  obtain s2 st2 where s2: "yield None 0 (resume 20 0 s1) = Some s2" "sched_inv ?H ?U s2 st2" "cstate s2 = (cstate s1)(20 := SUSPEND)"
    by (rule resume_yield_back [OF s1(2), of 20]) (use c s1(3) in auto)
  have e: "ex_env2 = s2" using s1(1) s2(1) by (simp add: ex_env2_def)
  have "is_list (wlinks ex_wq) 60 [70, 80]"
    by (simp add: ex_wq_def is_list_def list_add_tail_def list_add_between_def set_next_def set_prev_def Let_def)
  then show ?thesis using s2(2,3) s1(3) by (auto simp: wq_inv_def ex_wq_def e)
qed

theorem wakeup_all_spins_forever_witness: "wakeup_all 1000 wait_again ex_wq = None"
  by (rule wakeup_all_spins_forever [OF ex_wq_inv]) simp


end
