(* ===== verification/Timewheel.thy ===== *)
theory Timewheel
  imports Dispatch
begin

text \<open>
  The time wheel of \<open>core/timewheel.h\<close> and \<open>core/src/timewheel.cpp\<close>, on top of the
  dispatcher: \<open>slot_num\<close> lists of timer handles, a handle with expiry \<open>t\<close> in slot
  \<open>t mod slot_num\<close>, and a list of handles due at once that a delayed task drains. A handle is
  known by its address, which is that of its first member \<open>link_to\<close>; slot \<open>i\<close> has its
  head at \<open>slots + i\<close>. Milliseconds are 64-bit words, timeouts and intervals 32-bit words read
  as signed, and so is the counter \<open>task_num\<close>; its overflow, undefined in C, wraps around here. \<open>get_cur_ms\<close> reads the field \<open>clock\<close>; the callbacks \<open>fn(arg)\<close> are the
  argument \<open>run\<close>, and \<open>fired\<close> records them.
\<close>

subsection \<open>State\<close>

record handle =
  h_timeout :: u64
  h_interval :: u32
  h_tw :: bool

record timewheel = dispatch_env +
  handles :: "addr \<Rightarrow> handle"
  tw_pos :: u64
  prev_ms :: u64
  now_ms :: u64
  tw_task_num :: u32
  slot_num :: u32
  slot_num_mask :: u32
  slots :: addr
  now_list :: addr
  delay_task :: addr
  clock :: u64
  fired :: "addr list"

definition time_diff :: "u64 \<Rightarrow> u64 \<Rightarrow> int" where
  "time_diff a b = sint (a - b)"

definition time_after_eq :: "u64 \<Rightarrow> u64 \<Rightarrow> bool" where
  "time_after_eq a b \<longleftrightarrow> sint (a - b) \<ge> 0"

definition upd_handle :: "addr \<Rightarrow> (handle \<Rightarrow> handle) \<Rightarrow> 'a timewheel_scheme \<Rightarrow> 'a timewheel_scheme" where
  "upd_handle x f s = s\<lparr>handles := (handles s)(x := f (handles s x))\<rparr>"

definition slot_addr :: "'a timewheel_scheme \<Rightarrow> u32 \<Rightarrow> addr" where
  "slot_addr s p = slots s + unat p"

subsection \<open>Operations\<close>

definition init_timeout_handle :: "addr \<Rightarrow> 'a timewheel_scheme \<Rightarrow> 'a timewheel_scheme" where
  "init_timeout_handle x s =
     upd_handle x (\<lambda>_. \<lparr>h_timeout = 0, h_interval = 0, h_tw = False\<rparr>)
       (upd_heap (INIT_LIST_HEAD x) s)"

text \<open>The number of bits of \<open>n\<close>, which is \<open>32 - __builtin_clz(n)\<close> for \<open>n > 0\<close>.\<close>

fun bit_len :: "nat \<Rightarrow> nat" where
  "bit_len n = (if n = 0 then 0 else Suc (bit_len (n div 2)))"

declare bit_len.simps [simp del]

definition builtin_clz :: "u32 \<Rightarrow> nat" where
  "builtin_clz n = 32 - bit_len (unat n)"

definition round_slot_num :: "u32 \<Rightarrow> u32" where
  "round_slot_num n = push_bit (32 - builtin_clz n + 1) 1"

fun init_slots :: "nat \<Rightarrow> addr \<Rightarrow> lheap \<Rightarrow> lheap" where
  "init_slots 0 base h = h"
| "init_slots (Suc n) base h = INIT_LIST_HEAD (base + n) (init_slots n base h)"

definition timewheel_init :: "u32 \<Rightarrow> 'a timewheel_scheme \<Rightarrow> 'a timewheel_scheme" where
  "timewheel_init n s =
     (let sn = round_slot_num n;
          s1 = (upd_heap (init_slots (unat sn) (slots s)) s)
                 \<lparr>slot_num := sn, slot_num_mask := sn - 1, tw_task_num := 0, now_ms := clock s,
                  tw_pos := clock s AND ucast (sn - 1), prev_ms := clock s\<rparr>;
          s2 = upd_heap (INIT_LIST_HEAD (now_list s1)) s1
      in delay (delay_task s2) (init_task (delay_task s2) s2))"

definition cancel_timeout :: "addr \<Rightarrow> 'a timewheel_scheme \<Rightarrow> 'a timewheel_scheme" where
  "cancel_timeout x s =
     (let s1 = (if \<not> list_empty x (heap s)
                then let s0 = upd_heap (list_del_init x) s
                     in if h_tw (handles s0 x) \<and> h_timeout (handles s0 x) > 0
                        then s0\<lparr>tw_task_num := tw_task_num s0 - 1\<rparr> else s0
                else s)
      in upd_handle x (\<lambda>hd. hd\<lparr>h_tw := False\<rparr>) s1)"

definition set_timeout_impl :: "addr \<Rightarrow> u32 \<Rightarrow> u32 \<Rightarrow> 'a timewheel_scheme \<Rightarrow> 'a timewheel_scheme" where
  "set_timeout_impl x timeout interval s =
     (let s1 = upd_handle x (\<lambda>hd. hd\<lparr>h_interval := interval, h_tw := True\<rparr>)
                 (upd_heap (list_del_init x) s)
      in if sint timeout \<le> 0 \<and> interval = 0
         then delay (delay_task s1) (upd_heap (list_add_tail x (now_list s1)) s1)
         else let t0 = clock s1 + scast timeout;
                  t = (if t0 < prev_ms s1 then prev_ms s1 else t0);
                  s2 = (upd_handle x (\<lambda>hd. hd\<lparr>h_timeout := t\<rparr>) s1)\<lparr>tw_task_num := tw_task_num s1 + 1\<rparr>;
                  p = ucast (t AND ucast (slot_num_mask s2))
              in upd_heap (list_add_tail x (slot_addr s2 p)) s2)"

definition set_timeout :: "addr \<Rightarrow> u32 \<Rightarrow> 'a timewheel_scheme \<Rightarrow> 'a timewheel_scheme" where
  "set_timeout x timeout s = set_timeout_impl x timeout 0 s"

definition set_interval :: "addr \<Rightarrow> u32 \<Rightarrow> 'a timewheel_scheme \<Rightarrow> 'a timewheel_scheme" where
  "set_interval x interval s = set_timeout_impl x interval interval s"

type_synonym 'a timer_code = "addr \<Rightarrow> 'a timewheel_scheme \<Rightarrow> 'a timewheel_scheme"

definition fire :: "'a timer_code \<Rightarrow> addr \<Rightarrow> 'a timewheel_scheme \<Rightarrow> 'a timewheel_scheme" where
  "fire run x s = run x (s\<lparr>fired := fired s @ [x]\<rparr>)"

text \<open>\<open>do_now_task\<close>: the handles due at once, from a local list.\<close>

definition now_body :: "'a timer_code \<Rightarrow> addr \<Rightarrow> 'a timewheel_scheme \<Rightarrow> 'a timewheel_scheme" where
  "now_body run x s =
     (let s1 = fire run x (upd_heap (list_del_init x) s);
          iv = h_interval (handles s1 x)
      in if iv \<noteq> 0 then set_timeout_impl x iv iv s1 else s1)"

definition do_now_task :: "nat \<Rightarrow> 'a timer_code \<Rightarrow> addr \<Rightarrow> addr \<Rightarrow> 'a timewheel_scheme \<Rightarrow> 'a timewheel_scheme option" where
  "do_now_task k run queue mid s =
     list_for_each_entry_safe k heap (now_body run) queue
       (upd_heap (list_swap mid queue (now_list s)) (upd_heap (INIT_LIST_HEAD queue) s))"

text \<open>\<open>check\<close>: the body of the slot loop, the loop over one slot, and the loop over the slots
  from \<open>p\<close> to \<open>e\<close>.\<close>

definition check_body :: "'a timer_code \<Rightarrow> u64 \<Rightarrow> addr \<Rightarrow> int \<times> 'a timewheel_scheme \<Rightarrow> int \<times> 'a timewheel_scheme" where
  "check_body run cur x = (\<lambda>(cnt, s).
     if time_after_eq cur (h_timeout (handles s x))
     then let s1 = cancel_timeout x s;
              iv = h_interval (handles s1 x);
              s2 = (if iv \<noteq> 0 then set_timeout_impl x iv iv s1 else s1)
          in (cnt + 1, fire run x s2)
     else (cnt, s))"

definition check_slot :: "nat \<Rightarrow> 'a timer_code \<Rightarrow> u64 \<Rightarrow> u32 \<Rightarrow> int \<times> 'a timewheel_scheme \<Rightarrow> (int \<times> 'a timewheel_scheme) option" where
  "check_slot k run cur p cs =
     list_for_each_entry_safe k (heap \<circ> snd) (check_body run cur) (slot_addr (snd cs) p) cs"

fun check_slots :: "nat \<Rightarrow> nat \<Rightarrow> 'a timer_code \<Rightarrow> u64 \<Rightarrow> u32 \<Rightarrow> u32 \<Rightarrow> u32 \<Rightarrow> int \<times> 'a timewheel_scheme \<Rightarrow> (int \<times> 'a timewheel_scheme) option" where
  "check_slots 0 k run cur m e p cs = None"
| "check_slots (Suc n) k run cur m e p cs =
     (case check_slot k run cur p cs of
        None \<Rightarrow> None
      | Some cs' \<Rightarrow> if p = e then Some cs' else check_slots n k run cur m e ((p + 1) AND m) cs')"

definition check :: "nat \<Rightarrow> nat \<Rightarrow> 'a timer_code \<Rightarrow> u64 \<Rightarrow> 'a timewheel_scheme \<Rightarrow> (int \<times> 'a timewheel_scheme) option" where
  "check n k run cur_ms s =
     (let cur = (if cur_ms = 0 then clock s else cur_ms) in
      if sint (tw_task_num s) \<le> 0
      then Some (0, s\<lparr>tw_pos := cur AND ucast (slot_num_mask s), prev_ms := cur\<rparr>)
      else let elapsed = time_diff cur (prev_ms s) in
        if elapsed \<le> 0 then Some (0, s)
        else let m = slot_num_mask s;
                 p = ucast (tw_pos s);
                 e = (if elapsed \<ge> sint (slot_num s) then (p + slot_num s - 1) AND m
                      else ucast (cur AND ucast m))
             in case check_slots n k run cur m e p (0, s) of
                  None \<Rightarrow> None
                | Some (cnt, s') \<Rightarrow> Some (cnt, s'\<lparr>tw_pos := cur AND ucast m, prev_ms := cur\<rparr>))"

text \<open>\<open>get_latest_ms\<close>: the first of ten probes that hits a non-empty slot; the probe position
  is advanced by the loop counter.\<close>

fun latest_probe :: "nat \<Rightarrow> u64 \<Rightarrow> u32 \<Rightarrow> 'a timewheel_scheme \<Rightarrow> u64" where
  "latest_probe 0 i p s = now_ms s + 10"
| "latest_probe (Suc n) i p s =
     (let p' = (p + ucast i) AND slot_num_mask s
      in if \<not> list_empty (slot_addr s p') (heap s) then now_ms s + i
         else latest_probe n (i + 1) p' s)"

definition get_latest_ms :: "'a timewheel_scheme \<Rightarrow> u64" where
  "get_latest_ms s = latest_probe 10 0 (ucast (tw_pos s)) s"

subsection \<open>Times and slots\<close>

lemma time_diff_eq:
  fixes a b :: u64
  assumes "uint a < 2 ^ 63" and "uint b < 2 ^ 63"
  shows "time_diff a b = uint a - uint b"
proof -
  have "sint a = uint a" "sint b = uint b"
    using assms sint_small [of a] sint_small [of b] by simp_all
  moreover have pos: "0 \<le> uint a" "0 \<le> uint b" by simp_all
  moreover have "signed_take_bit 63 (uint a - uint b) = uint a - uint b"
  proof (rule signed_take_bit_int_eq_self)
    show "- (2 ^ 63) \<le> uint a - uint b" "uint a - uint b < 2 ^ 63"
      using assms pos by linarith+
  qed
  ultimately show ?thesis by (simp add: time_diff_def sint_word_diff)
qed

lemma time_after_eq_iff:
  fixes a b :: u64
  assumes "uint a < 2 ^ 63" and "uint b < 2 ^ 63"
  shows "time_after_eq a b \<longleftrightarrow> b \<le> a"
  using time_diff_eq [OF assms] by (simp add: time_after_eq_def time_diff_def word_le_def)

text \<open>The wheel has \<open>2 ^ k\<close> slots and the mask selects the low \<open>k\<close> bits.\<close>

definition wheel_size :: "nat \<Rightarrow> 'a timewheel_scheme \<Rightarrow> bool" where
  "wheel_size k s \<longleftrightarrow> 0 < k \<and> k < 31 \<and> unat (slot_num s) = 2 ^ k \<and> slot_num_mask s = slot_num s - 1"

lemma wheel_size_mask: "wheel_size k s \<Longrightarrow> slot_num_mask s = mask k"
  by (simp add: wheel_size_def unat_power_minus_1)

lemma slot_of_time:
  assumes "wheel_size k s"
  shows "unat (t AND ucast (slot_num_mask s)) = unat t mod 2 ^ k"
    and "unat (ucast (t AND ucast (slot_num_mask s)) :: u32) = unat (t :: u64) mod 2 ^ k"
proof -
  have k: "k < 31" using assms by (simp add: wheel_size_def)
  have "ucast (slot_num_mask s) = (mask k :: u64)"
    using k by (simp add: wheel_size_mask [OF assms] ucast_mask_eq)
  then show *: "unat (t AND ucast (slot_num_mask s)) = unat t mod 2 ^ k"
    by (simp add: unat_and_mask)
  have "(2::nat) ^ k \<le> 2 ^ 32" using k by (intro power_increasing) auto
  moreover have "unat t mod 2 ^ k < 2 ^ k" by simp
  ultimately have "unat t mod 2 ^ k < 2 ^ 32" by linarith
  then show "unat (ucast (t AND ucast (slot_num_mask s)) :: u32) = unat t mod 2 ^ k"
    by (simp add: * unsigned_ucast_eq take_bit_nat_eq_self)
qed

subsection \<open>The invariant of the wheel\<close>

definition slot_list :: "lstore \<Rightarrow> 'a timewheel_scheme \<Rightarrow> nat \<Rightarrow> addr list" where
  "slot_list st s i = st (slots s + i)"

definition wheel_ok :: "nat \<Rightarrow> addr set \<Rightarrow> addr set \<Rightarrow> lstore \<Rightarrow> 'a timewheel_scheme \<Rightarrow> bool" where
  "wheel_ok k H U st s \<longleftrightarrow>
     wheel_size k s \<and> list_rel H U (heap s) st \<and>
     (\<forall>i<2 ^ k. slots s + i \<in> H) \<and>
     tw_pos s = prev_ms s AND ucast (slot_num_mask s) \<and> uint (prev_ms s) < 2 ^ 63 \<and>
     (\<forall>i<2 ^ k. \<forall>x\<in>set (slot_list st s i).
        unat (h_timeout (handles s x)) mod 2 ^ k = i \<and>
        prev_ms s \<le> h_timeout (handles s x) \<and> uint (h_timeout (handles s x)) < 2 ^ 63) \<and>
     (\<Sum>i<2 ^ k. int (length (slot_list st s i))) \<le> sint (tw_task_num s)"

definition armed :: "nat \<Rightarrow> lstore \<Rightarrow> 'a timewheel_scheme \<Rightarrow> addr set" where
  "armed k st s = (\<Union>i<2 ^ k. set (slot_list st s i))"

text \<open>Callbacks that leave the wheel, the lists and the clock alone; they may change anything
  else the environment holds.\<close>

definition quiet_at :: "'a timer_code \<Rightarrow> addr \<Rightarrow> bool" where
  "quiet_at run x \<longleftrightarrow> (\<forall>s. timewheel.truncate (run x s) = timewheel.truncate s)"

definition quiet :: "'a timer_code \<Rightarrow> bool" where
  "quiet run \<longleftrightarrow> (\<forall>x. quiet_at run x)"

lemma truncate_eq:
  assumes "timewheel.truncate s' = timewheel.truncate s"
  shows "heap s' = heap s" "handles s' = handles s"
  using assms by (simp_all add: timewheel.truncate_def)

lemma quiet_simps:
  assumes "quiet_at run x"
  shows "heap (run x s) = heap s" "handles (run x s) = handles s" "slots (run x s) = slots s"
    "slot_num (run x s) = slot_num s" "slot_num_mask (run x s) = slot_num_mask s"
    "prev_ms (run x s) = prev_ms s" "tw_pos (run x s) = tw_pos s"
    "tw_task_num (run x s) = tw_task_num s" "fired (run x s) = fired s"
    "clock (run x s) = clock s" "now_list (run x s) = now_list s"
    "d_delay_tasks (run x s) = d_delay_tasks s" "delay_task (run x s) = delay_task s"
proof -
  have "timewheel.truncate (run x s) = timewheel.truncate s" using assms by (simp add: quiet_at_def)
  then show "heap (run x s) = heap s" "handles (run x s) = handles s" "slots (run x s) = slots s"
    "slot_num (run x s) = slot_num s" "slot_num_mask (run x s) = slot_num_mask s"
    "prev_ms (run x s) = prev_ms s" "tw_pos (run x s) = tw_pos s"
    "tw_task_num (run x s) = tw_task_num s" "fired (run x s) = fired s"
    "clock (run x s) = clock s" "now_list (run x s) = now_list s"
    "d_delay_tasks (run x s) = d_delay_tasks s" "delay_task (run x s) = delay_task s"
    by (simp_all add: timewheel.truncate_def)
qed

subsection \<open>One slot\<close>

definition due :: "u64 \<Rightarrow> 'a timewheel_scheme \<Rightarrow> addr \<Rightarrow> bool" where
  "due cur s x \<longleftrightarrow> time_after_eq cur (h_timeout (handles s x))"

text \<open>What the scan of a slot leaves alone.\<close>

definition wheel_frame :: "'a timewheel_scheme \<Rightarrow> 'a timewheel_scheme \<Rightarrow> bool" where
  "wheel_frame s s' \<longleftrightarrow>
     slots s' = slots s \<and> slot_num s' = slot_num s \<and> slot_num_mask s' = slot_num_mask s \<and>
     prev_ms s' = prev_ms s \<and> tw_pos s' = tw_pos s \<and> clock s' = clock s \<and> now_list s' = now_list s \<and>
     (\<forall>x. h_timeout (handles s' x) = h_timeout (handles s x) \<and>
          h_interval (handles s' x) = h_interval (handles s x))"

lemma wheel_frame_refl [simp]: "wheel_frame s s"
  by (simp add: wheel_frame_def)

lemma wheel_frame_trans: "wheel_frame s s' \<Longrightarrow> wheel_frame s' s'' \<Longrightarrow> wheel_frame s s''"
  by (simp add: wheel_frame_def)

lemma wheel_frame_due: "wheel_frame s s' \<Longrightarrow> due cur s' x = due cur s x"
  by (simp add: wheel_frame_def due_def)

text \<open>The counter.\<close>

lemma sint_pred: "sint (n :: u32) - 1 \<le> sint (n - 1)"
proof (cases "sint n = - (2 ^ 31)")
  case True
  then show ?thesis using sint_ge [of "n - 1"] by (simp add: sint_word_diff)
next
  case False
  then have "signed_take_bit 31 (sint n - 1) = sint n - 1"
    using sint_ge [of n] sint_lt [of n] by (intro signed_take_bit_int_eq_self) auto
  then show ?thesis by (simp add: sint_word_diff)
qed

lemma sint_succ: "sint (n :: u32) < 2 ^ 31 - 1 \<Longrightarrow> sint (n + 1) = sint n + 1"
proof -
  assume "sint n < 2 ^ 31 - 1"
  then have "signed_take_bit 31 (sint n + 1) = sint n + 1"
    using sint_ge [of n] by (intro signed_take_bit_int_eq_self) auto
  then show ?thesis by (simp add: sint_word_add)
qed

lemma fire_cancel_simps:
  assumes "quiet_at run x"
  shows "heap (fire run x (cancel_timeout x s)) =
      (if list_empty x (heap s) then heap s else list_del_init x (heap s))"
    and "wheel_frame s (fire run x (cancel_timeout x s))"
    and "fired (fire run x (cancel_timeout x s)) = fired s @ [x]"
    and "sint (tw_task_num s) - 1 \<le> sint (tw_task_num (fire run x (cancel_timeout x s)))"
  by (auto simp: fire_def cancel_timeout_def quiet_simps [OF assms] upd_handle_def upd_heap_def
      wheel_frame_def sint_pred Let_def)

text \<open>The invariant of the scan of slot \<open>a\<close>: the nodes still to visit are \<open>xs\<close>; of the nodes
  \<open>ys\<close> already visited those due have fired and left the slot.\<close>

definition slot_inv ::
  "addr set \<Rightarrow> addr set \<Rightarrow> lstore \<Rightarrow> 'a timewheel_scheme \<Rightarrow> u64 \<Rightarrow> int \<Rightarrow> addr \<Rightarrow> addr list \<Rightarrow> int \<times> 'a timewheel_scheme \<Rightarrow> bool"
where
  "slot_inv H U st s cur cnt a xs q \<longleftrightarrow> (\<exists>ys st'. st a = ys @ xs \<and>
     list_rel H U (heap (snd q)) st' \<and> st' a = filter (\<lambda>x. \<not> due cur s x) ys @ xs \<and>
     (\<forall>l\<in>H. l \<noteq> a \<longrightarrow> st' l = st l) \<and> wheel_frame s (snd q) \<and>
     fired (snd q) = fired s @ filter (due cur s) ys \<and>
     fst q = cnt + int (length (filter (due cur s) ys)) \<and>
     sint (tw_task_num s) - int (length (filter (due cur s) ys)) \<le> sint (tw_task_num (snd q)))"

lemma slot_inv_step:
  assumes q: "quiet_at run x" and a: "a \<in> H"
    and one: "\<forall>x\<in>set (st a). h_interval (handles s x) = 0"
    and I: "slot_inv H U st s cur cnt a (x # xs) (c0, s0)"
  shows "slot_inv H U st s cur cnt a xs (check_body run cur x (c0, s0))"
proof -
  let ?D = "due cur s"
  from I obtain ys st0 where ys: "st a = ys @ x # xs" and r0: "list_rel H U (heap s0) st0"
    and st0: "st0 a = filter (\<lambda>x. \<not> ?D x) ys @ x # xs" and oth: "\<forall>l\<in>H. l \<noteq> a \<longrightarrow> st0 l = st l"
    and fr: "wheel_frame s s0" and fi: "fired s0 = fired s @ filter ?D ys"
    and c: "c0 = cnt + int (length (filter ?D ys))"
    and tn: "sint (tw_task_num s) - int (length (filter ?D ys)) \<le> sint (tw_task_num s0)"
    by (auto simp: slot_inv_def)
  show ?thesis
  proof (cases "?D x")
    case False
    then have "check_body run cur x (c0, s0) = (c0, s0)"
      using wheel_frame_due [OF fr] by (simp add: check_body_def due_def)
    with False ys r0 st0 oth fr fi c tn show ?thesis
      unfolding slot_inv_def by (intro exI [of _ "ys @ [x]"] exI [of _ st0]) auto
  next
    case True
    have xU: "x \<in> U" using list_relD(2) [OF r0 a] st0 by auto
    have lk: "linked H st0 x" unfolding linked_def by (rule bexI [OF _ a]) (simp add: st0)
    have iv: "h_interval (handles s0 x) = 0" using one ys fr by (auto simp: wheel_frame_def)
    let ?s1 = "fire run x (cancel_timeout x s0)"
    have b: "check_body run cur x (c0, s0) = (c0 + 1, ?s1)"
      using True wheel_frame_due [OF fr] iv
      by (auto simp: check_body_def due_def Let_def cancel_timeout_def upd_handle_def upd_heap_def)
    have r1: "list_rel H U (heap ?s1) (st_del x st0)"
      using list_del_init_rel [OF r0 xU] list_empty_node [OF r0 xU] lk
      by (simp add: fire_cancel_simps [OF q])
    have sa: "st_del x st0 a = filter (\<lambda>x. \<not> ?D x) ys @ xs"
      using st0 True by (simp add: st_del_def)
    have so: "\<forall>l\<in>H. l \<noteq> a \<longrightarrow> st_del x st0 l = st l"
      using oth list_relD(4) [OF r0 a] st0 by (auto simp: st_del_def remove1_idem)
    show ?thesis
      unfolding slot_inv_def b
      by (intro exI [of _ "ys @ [x]"] exI [of _ "st_del x st0"])
        (use ys r1 sa so fi c tn True fire_cancel_simps [OF q, where s = s0]
          wheel_frame_trans [OF fr fire_cancel_simps(2) [OF q, where s = s0]] in auto)
  qed
qed

lemma slot_inv_chain:
  assumes "slot_inv H U st s cur cnt a xs q" and "a \<in> H"
  shows "chain (nxt (heap (snd q))) xs a"
proof -
  from assms(1) obtain ys st0 where "list_rel H U (heap (snd q)) st0" "st0 a = ys @ xs"
    by (auto simp: slot_inv_def)
  then have "is_list (heap (snd q)) a (ys @ xs)" using list_relD(1) assms(2) by metis
  then show ?thesis by (rule is_list_chain)
qed

text \<open>Scanning a slot whose handles are one-shot fires exactly the due ones, in the order they
  were queued, and keeps the others; the other lists are untouched.\<close>

definition scanned :: "u64 \<Rightarrow> 'a timewheel_scheme \<Rightarrow> addr list \<Rightarrow> lstore \<Rightarrow> lstore" where
  "scanned cur s as st = (\<lambda>l. if l \<in> set as then filter (\<lambda>x. \<not> due cur s x) (st l) else st l)"

lemma check_slot_quiet:
  fixes cur :: u64
  assumes q: "\<forall>x\<in>set (st (slot_addr s p)). quiet_at run x" and rel: "list_rel H U (heap s) st" and a: "slot_addr s p \<in> H"
    and one: "\<forall>x\<in>set (st (slot_addr s p)). h_interval (handles s x) = 0"
    and k: "length (st (slot_addr s p)) < k"
  defines "fs \<equiv> filter (due cur s) (st (slot_addr s p))"
  shows "\<exists>s'. check_slot k run cur p (cnt, s) = Some (cnt + int (length fs), s') \<and>
      list_rel H U (heap s') (scanned cur s [slot_addr s p] st) \<and>
      wheel_frame s s' \<and> fired s' = fired s @ fs \<and> sint (tw_task_num s) - int (length fs) \<le> sint (tw_task_num s')"
proof -
  let ?a = "slot_addr s p"
  let ?I = "slot_inv H U st s cur cnt ?a"
  have "?I xs (check_body run cur x q')" if "?I (x # xs) q'" for x xs q'
  proof -
    have "x \<in> set (st ?a)" using that by (auto simp: slot_inv_def)
    then show ?thesis using slot_inv_step [where st = st and s = s and a = ?a, OF _ a one] q that by (cases q') blast
  qed
  moreover have "chain (nxt ((heap \<circ> snd) q')) xs ?a" if "?I xs q'" for xs q'
    using slot_inv_chain [OF that a] by simp
  moreover have "is_list ((heap \<circ> snd) (cnt, s)) ?a (st ?a)" using list_relD(1) [OF rel a] by simp
  moreover have "?I (st ?a) (cnt, s)" using rel by (auto simp: slot_inv_def)
  ultimately obtain c' s' where
    r: "list_for_each_entry_safe k (heap \<circ> snd) (check_body run cur) ?a (cnt, s) = Some (c', s')"
    and I: "?I [] (c', s')"
    using list_for_each_entry_safe_rule [of ?I "check_body run cur" "heap \<circ> snd" ?a "(cnt, s)" "st ?a" k] k
    by (metis surj_pair)
  from I obtain st' where st': "list_rel H U (heap s') st'" "st' ?a = filter (\<lambda>x. \<not> due cur s x) (st ?a)"
    "\<forall>l\<in>H. l \<noteq> ?a \<longrightarrow> st' l = st l" and *: "wheel_frame s s'" "fired s' = fired s @ fs"
    "c' = cnt + int (length fs)" "sint (tw_task_num s) - int (length fs) \<le> sint (tw_task_num s')"
    by (auto simp: slot_inv_def fs_def)
  have "list_rel H U (heap s') (scanned cur s [?a] st)"
    by (rule list_rel_eq_on [OF st'(1)]) (use st' in \<open>auto simp: scanned_def\<close>)
  with r * show ?thesis by (simp add: check_slot_def)
qed


subsection \<open>The turn of the wheel\<close>

text \<open>The positions visited from \<open>p\<close> in \<open>d + 1\<close> steps.\<close>

definition wheel_path :: "nat \<Rightarrow> nat \<Rightarrow> nat \<Rightarrow> nat list" where
  "wheel_path N p d = map (\<lambda>i. (p + i) mod N) [0..<Suc d]"

lemma wheel_path_Suc:
  "wheel_path N p (Suc d) = p mod N # wheel_path N ((p + 1) mod N) d"
proof -
  have "[0..<Suc (Suc d)] = 0 # map Suc [0..<Suc d]" by (simp add: map_Suc_upt upt_conv_Cons)
  then show ?thesis by (simp add: wheel_path_def mod_simps del: upt_Suc)
qed

lemma mod_shift_ne:
  fixes p d N :: nat
  assumes "p < N" and "0 < d" and "d < N"
  shows "(p + d) mod N \<noteq> p"
  using assms by (cases "p + d < N") (auto simp: le_mod_geq)

lemma wheel_path_not_start:
  assumes "p < N" and "Suc d < N"
  shows "p \<notin> set (wheel_path N ((p + 1) mod N) d)"
proof -
  have "(p + Suc i) mod N \<noteq> p" if "i < Suc d" for i
    using mod_shift_ne [of p N "Suc i"] that assms by simp
  then have "p \<noteq> (p + Suc i) mod N" if "i < Suc d" for i using that by metis
  then show ?thesis by (simp add: wheel_path_def mod_simps image_iff del: upt_Suc)
qed

lemma scanned_frame: "wheel_frame s s' \<Longrightarrow> scanned cur s' as st = scanned cur s as st"
  by (auto simp: scanned_def fun_eq_iff wheel_frame_due)

lemma scanned_Cons: "scanned cur s as (scanned cur s [a] st) = scanned cur s (a # as) st"
  by (auto simp: scanned_def fun_eq_iff)

lemma check_slots_quiet:
  fixes cur :: u64
  assumes quiet: "quiet run" and m: "m = mask k" "k < 31"
  shows "list_rel H U (heap s) st \<Longrightarrow> (\<forall>i<2 ^ k. slots s + i \<in> H) \<Longrightarrow>
    (\<forall>i<2 ^ k. \<forall>x\<in>set (st (slots s + i)). h_interval (handles s x) = 0) \<Longrightarrow>
    (\<forall>i<2 ^ k. length (st (slots s + i)) < f) \<Longrightarrow>
    unat p < 2 ^ k \<Longrightarrow> d < 2 ^ k \<Longrightarrow> d < n \<Longrightarrow> unat e = (unat p + d) mod 2 ^ k \<Longrightarrow>
    ps = wheel_path (2 ^ k) (unat p) d \<Longrightarrow>
    fs = concat (map (\<lambda>i. filter (due cur s) (st (slots s + i))) ps) \<Longrightarrow>
    \<exists>s'. check_slots n f run cur m e p (cnt, s) = Some (cnt + int (length fs), s') \<and>
      list_rel H U (heap s') (scanned cur s (map (\<lambda>i. slots s + i) ps) st) \<and>
      wheel_frame s s' \<and> fired s' = fired s @ fs \<and> sint (tw_task_num s) - int (length fs) \<le> sint (tw_task_num s')"
proof (induction d arbitrary: p n s st cnt ps fs)
  case 0
  have q: "\<forall>x\<in>A. quiet_at run x" for A using quiet by (simp add: quiet_def)
  have a: "slot_addr s p = slots s + unat p" by (simp add: slot_addr_def)
  obtain n' where n: "n = Suc n'" using 0 by (cases n) auto
  have "e = p" using 0 by (simp add: word_unat_eq_iff)
  moreover obtain s' where "check_slot f run cur p (cnt, s) =
      Some (cnt + int (length (filter (due cur s) (st (slot_addr s p)))), s')"
    "list_rel H U (heap s') (scanned cur s [slot_addr s p] st)" "wheel_frame s s'"
    "fired s' = fired s @ filter (due cur s) (st (slot_addr s p))"
    "sint (tw_task_num s) - int (length (filter (due cur s) (st (slot_addr s p)))) \<le> sint (tw_task_num s')"
    using check_slot_quiet [OF q 0(1), of p f cur cnt] 0 a by auto
  ultimately show ?case using 0 n by (auto simp: wheel_path_def a)
next
  case (Suc d)
  let ?N = "2 ^ k :: nat"
  let ?p = "(p + 1) AND m"
  have q: "\<forall>x\<in>A. quiet_at run x" for A using quiet by (simp add: quiet_def)
  let ?ps = "wheel_path ?N (unat ?p) d"
  have a: "slot_addr s p = slots s + unat p" by (simp add: slot_addr_def)
  obtain n' where n: "n = Suc n'" using Suc.prems by (cases n) auto
  have "?N \<le> 2 ^ 30" using m(2) by (intro power_increasing) auto
  then have "unat (p + 1) = unat p + 1" using Suc.prems(5) by (subst unat_add_lem [THEN iffD1]) auto
  then have p': "unat ?p = (unat p + 1) mod ?N" by (simp add: m unat_and_mask)
  have ne: "p \<noteq> e" using mod_shift_ne [of "unat p" ?N "Suc d"] Suc.prems by auto
  obtain s1 where s1: "check_slot f run cur p (cnt, s) =
      Some (cnt + int (length (filter (due cur s) (st (slot_addr s p)))), s1)"
    "list_rel H U (heap s1) (scanned cur s [slot_addr s p] st)" "wheel_frame s s1"
    "fired s1 = fired s @ filter (due cur s) (st (slot_addr s p))"
    "sint (tw_task_num s) - int (length (filter (due cur s) (st (slot_addr s p)))) \<le> sint (tw_task_num s1)"
    using check_slot_quiet [OF q Suc.prems(1), of p f cur cnt] Suc.prems a by auto
  let ?a = "slots s + unat p"
  let ?st = "scanned cur s [?a] st"
  let ?g = "filter (due cur s) (st ?a)"
  let ?fs = "concat (map (\<lambda>i. filter (due cur s) (st (slots s + i))) ?ps)"
  have fr: "slots s1 = slots s" "\<And>x. h_interval (handles s1 x) = h_interval (handles s x)"
    and dd: "due cur s1 = due cur s"
    using s1(3) wheel_frame_due [OF s1(3)] by (auto simp: wheel_frame_def)
  have notin: "unat p \<notin> set ?ps" unfolding p' using wheel_path_not_start Suc.prems by simp
  then have st_ps: "?st (slots s + i) = st (slots s + i)" if "i \<in> set ?ps" for i
    using that by (auto simp: scanned_def)
  have fs1: "?fs = concat (map (\<lambda>i. filter (due cur s1) (?st (slots s1 + i))) ?ps)"
    using st_ps by (auto simp: fr dd intro!: arg_cong [of _ _ concat])
  have sub: "set (?st l) \<subseteq> set (st l)" "length (?st l) \<le> length (st l)" for l
    by (auto simp: scanned_def)
  have "\<exists>s'. check_slots n' f run cur m e ?p (cnt + int (length ?g), s1) =
        Some (cnt + int (length ?g) + int (length ?fs), s') \<and>
      list_rel H U (heap s') (scanned cur s1 (map (\<lambda>i. slots s1 + i) ?ps) ?st) \<and>
      wheel_frame s1 s' \<and> fired s' = fired s1 @ ?fs \<and> sint (tw_task_num s1) - int (length ?fs) \<le> sint (tw_task_num s')"
  proof (rule Suc.IH [OF _ _ _ _ _ _ _ _ refl fs1])
    show "list_rel H U (heap s1) ?st" using s1(2) a by simp
    show "\<forall>i<2 ^ k. \<forall>x\<in>set (?st (slots s1 + i)). h_interval (handles s1 x) = 0"
      using Suc.prems(3) sub(1) by (auto simp: fr) 
    show "\<forall>i<2 ^ k. length (?st (slots s1 + i)) < f"
      using Suc.prems(4) sub(2) by (auto simp: fr intro: le_less_trans)
    show "unat e = (unat ?p + d) mod ?N"
      using Suc.prems(8) by (simp add: p' mod_simps)
  qed (use Suc.prems n p' fr in auto)
  then obtain s' where s': "check_slots n' f run cur m e ?p (cnt + int (length ?g), s1) =
        Some (cnt + int (length ?g) + int (length ?fs), s')"
      "list_rel H U (heap s') (scanned cur s (map (\<lambda>i. slots s + i) ?ps) ?st)"
      "wheel_frame s1 s'" "fired s' = fired s1 @ ?fs" "sint (tw_task_num s1) - int (length ?fs) \<le> sint (tw_task_num s')"
    by (auto simp: fr scanned_frame [OF s1(3)])
  have ps: "ps = unat p # ?ps" and fs: "fs = ?g @ ?fs"
    using Suc.prems wheel_path_Suc [of ?N "unat p" d] by (simp_all add: p')
  show ?case
    using s' s1 ne n wheel_frame_trans [OF s1(3) s'(3)]
    by (auto simp: ps fs a scanned_Cons)
qed

text \<open>A time between the last check and this one falls into a visited slot; a full turn
  visits every slot.\<close>

lemma mod_advance:
  fixes P T N :: nat
  assumes "P \<le> T"
  shows "(P mod N + (T - P)) mod N = T mod N"
  using mod_add_left_eq [of P N "T - P"] assms by simp

lemma wheel_path_covers:
  assumes "P \<le> T" and "T \<le> P + d"
  shows "T mod N \<in> set (wheel_path N (P mod N) d)"
proof -
  have "T mod N = (P mod N + (T - P)) mod N" using mod_advance [OF assms(1)] by simp
  moreover have "T - P < Suc d" using assms by linarith
  ultimately show ?thesis unfolding wheel_path_def by (auto simp del: upt_Suc)
qed

lemma wheel_path_full:
  assumes "p < N" and "i < N"
  shows "i \<in> set (wheel_path N p (N - 1))"
proof -
  let ?T = "if p \<le> i then i else i + N"
  have "?T mod N \<in> set (wheel_path N (p mod N) (N - 1))"
    by (rule wheel_path_covers) (use assms in auto)
  with assms show ?thesis by (auto split: if_splits)
qed

lemma wheel_path_distinct: "d < N \<Longrightarrow> p < N \<Longrightarrow> distinct (wheel_path N p d)"
proof (induction d arbitrary: p)
  case 0
  then show ?case by (simp add: wheel_path_def)
next
  case (Suc d)
  then have "(p + 1) mod N < N" by simp
  with Suc wheel_path_not_start [of p N d] show ?case by (simp add: wheel_path_Suc)
qed

lemma wheel_path_bound: "0 < N \<Longrightarrow> i \<in> set (wheel_path N p d) \<Longrightarrow> i < N"
  by (auto simp: wheel_path_def)

lemma wheel_okD:
  assumes "wheel_ok k H U st s"
  shows "wheel_size k s" "list_rel H U (heap s) st" "\<forall>i<2 ^ k. slots s + i \<in> H"
    "tw_pos s = prev_ms s AND ucast (slot_num_mask s)" "uint (prev_ms s) < 2 ^ 63"
    "(\<Sum>i<2 ^ k. int (length (slot_list st s i))) \<le> sint (tw_task_num s)"
  and "i < 2 ^ k \<Longrightarrow> x \<in> set (slot_list st s i) \<Longrightarrow>
    unat (h_timeout (handles s x)) mod 2 ^ k = i \<and>
    prev_ms s \<le> h_timeout (handles s x) \<and> uint (h_timeout (handles s x)) < 2 ^ 63"
  using assms unfolding wheel_ok_def by blast+

text \<open>Where the loop over the slots starts and ends, as a number of steps: exactly the slots
  that can hold a due handle are visited.\<close>

lemma check_range:
  fixes cur :: u64
  assumes ok: "wheel_ok k H U st s" and cur: "prev_ms s < cur" "uint cur < 2 ^ 63"
  defines "p \<equiv> (ucast (tw_pos s) :: u32)"
  defines "e \<equiv> (if time_diff cur (prev_ms s) \<ge> sint (slot_num s) then (p + slot_num s - 1) AND slot_num_mask s
                 else ucast (cur AND ucast (slot_num_mask s)))"
  defines "d \<equiv> min (unat cur - unat (prev_ms s)) (2 ^ k - 1)"
  shows "d < 2 ^ k \<and> unat p = unat (prev_ms s) mod 2 ^ k \<and> unat e = (unat p + d) mod 2 ^ k \<and>
    (\<forall>i<2 ^ k. \<forall>x\<in>set (slot_list st s i). h_timeout (handles s x) \<le> cur \<longrightarrow>
       i \<in> set (wheel_path (2 ^ k) (unat p) d))"
proof -
  note D = wheel_okD [OF ok]
  let ?N = "2 ^ k :: nat"
  have sz: "unat (slot_num s) = ?N" "k < 31" "slot_num_mask s = mask k"
    using D(1) wheel_size_mask [OF D(1)] by (simp_all add: wheel_size_def)
  have p: "unat p = unat (prev_ms s) mod ?N" unfolding p_def D(4) by (rule slot_of_time(2) [OF D(1)])
  then have pN: "unat p < ?N" by simp
  have Nb: "?N \<le> 2 ^ 30" using sz(2) by (intro power_increasing) auto
  have td: "time_diff cur (prev_ms s) = uint cur - uint (prev_ms s)"
    using cur(2) D(5) by (rule time_diff_eq)
  have "uint (slot_num s) = int ?N" by (metis sz(1) uint_nat)
  moreover have "int ?N \<le> int (2 ^ 30)" using Nb by (simp only: of_nat_le_iff)
  ultimately have ssn: "sint (slot_num s) = int ?N" using sint_small [of "slot_num s"] by simp
  have lt: "unat (prev_ms s) < unat cur" using cur(1) by (simp add: word_less_nat_alt)
  have ui: "uint cur - uint (prev_ms s) = int (unat cur - unat (prev_ms s))"
    by (simp only: uint_nat) (use lt in \<open>simp only: of_nat_diff less_imp_le\<close>)
  show ?thesis
  proof (cases "?N \<le> unat cur - unat (prev_ms s)")
    case True
    then have e: "e = (p + slot_num s - 1) AND mask k" by (simp add: e_def td ssn ui sz)
    have q: "unat (slot_num s - 1) = ?N - 1"
      using sz(1) by (metis unat_minus_one unat_0 power_not_zero zero_neq_numeral)
    have "unat p + unat (slot_num s - 1) < 2 ^ LENGTH(32)" using pN Nb by (simp add: q)
    from unat_add_lem [THEN iffD1, OF this] have "unat (p + (slot_num s - 1)) = unat p + (?N - 1)"
      by (simp only: q)
    moreover have "p + slot_num s - 1 = p + (slot_num s - 1)" by simp
    ultimately have "unat (p + slot_num s - 1) = unat p + (?N - 1)" by (simp only:)
    then have "unat e = (unat p + (?N - 1)) mod ?N" by (simp add: e unat_and_mask)
    moreover have "d = ?N - 1" using True by (simp add: d_def)
    ultimately show ?thesis using p wheel_path_full [OF pN] by auto
  next
    case False
    then have "e = ucast (cur AND ucast (slot_num_mask s))" by (auto simp: e_def td ssn ui)
    then have e: "unat e = unat cur mod ?N" using slot_of_time(2) [OF D(1)] by simp
    let ?d = "unat cur - unat (prev_ms s)"
    have "unat e = (unat p + ?d) mod ?N"
      unfolding e p by (rule mod_advance [symmetric]) (use lt in simp)
    moreover have "i \<in> set (wheel_path ?N (unat p) ?d)"
      if "i < ?N" "x \<in> set (slot_list st s i)" "h_timeout (handles s x) \<le> cur" for i x
      using wheel_path_covers [of "unat (prev_ms s)" "unat (h_timeout (handles s x))" ?d ?N]
        D(7) [OF that(1,2)] that(3) lt by (auto simp: p word_le_nat_alt)
    moreover have "d = ?d" using False by (simp add: d_def)
    ultimately show ?thesis using False p by auto
  qed
qed


lemma wheel_slots_apart:
  assumes "wheel_ok k H U st s" and "i < 2 ^ k" and "j < 2 ^ k" and "i \<noteq> j"
  shows "set (slot_list st s i) \<inter> set (slot_list st s j) = {}"
  using list_relD(4) [OF wheel_okD(2) [OF assms(1)]] wheel_okD(3) [OF assms(1)] assms(2-4)
  by (simp add: slot_list_def)

lemma armed_time:
  assumes "wheel_ok k H U st s" and "x \<in> armed k st s"
  shows "uint (h_timeout (handles s x)) < 2 ^ 63"
  using assms wheel_okD(7) [OF assms(1)] by (auto simp: armed_def)

text \<open>After the scan the invariant holds again with the expired handles gone.\<close>

lemma wheel_ok_scanned:
  fixes cur :: u64
  assumes ok: "wheel_ok k H U st s" and cur: "uint cur < 2 ^ 63"
    and fr: "wheel_frame s s'" and rel: "list_rel H U (heap s') st'"
    and st': "\<forall>i<2 ^ k. slot_list st' s i = filter (\<lambda>x. \<not> h_timeout (handles s x) \<le> cur) (slot_list st s i)"
    and tn: "sint (tw_task_num s) - (\<Sum>i<2 ^ k. int (length (filter (\<lambda>x. h_timeout (handles s x) \<le> cur) (slot_list st s i))))
             \<le> sint (tw_task_num s')"
  shows "wheel_ok k H U st' (s'\<lparr>tw_pos := cur AND ucast (slot_num_mask s), prev_ms := cur\<rparr>)"
proof -
  note D = wheel_okD [OF ok]
  let ?s = "s'\<lparr>tw_pos := cur AND ucast (slot_num_mask s), prev_ms := cur\<rparr>"
  have f: "slots s' = slots s" "slot_num s' = slot_num s" "slot_num_mask s' = slot_num_mask s"
    "\<And>x. h_timeout (handles s' x) = h_timeout (handles s x)"
    using fr by (auto simp: wheel_frame_def)
  have sl: "slot_list st' ?s i = slot_list st' s i" for i by (simp add: slot_list_def f)
  have "int (length (slot_list st' s i)) = int (length (slot_list st s i)) -
      int (length (filter (\<lambda>x. h_timeout (handles s x) \<le> cur) (slot_list st s i)))" if "i < 2 ^ k" for i
    using st' that sum_length_filter_compl [of "\<lambda>x. h_timeout (handles s x) \<le> cur" "slot_list st s i"]
    by simp
  then have "(\<Sum>i<2 ^ k. int (length (slot_list st' s i))) =
      (\<Sum>i<2 ^ k. int (length (slot_list st s i))) -
      (\<Sum>i<2 ^ k. int (length (filter (\<lambda>x. h_timeout (handles s x) \<le> cur) (slot_list st s i))))"
    by (simp add: sum_subtractf)
  with tn D(6) have "(\<Sum>i<2 ^ k. int (length (slot_list st' ?s i))) \<le> sint (tw_task_num ?s)"
    by (simp add: sl)
  moreover have "\<forall>i<2 ^ k. \<forall>x\<in>set (slot_list st' ?s i).
        unat (h_timeout (handles ?s x)) mod 2 ^ k = i \<and>
        prev_ms ?s \<le> h_timeout (handles ?s x) \<and> uint (h_timeout (handles ?s x)) < 2 ^ 63"
    using st' D(7) by (auto simp: sl f)
  ultimately show ?thesis
    using D(1,3) rel cur unfolding wheel_ok_def by (simp add: wheel_size_def f)
qed

lemma scan_result:
  fixes cur :: u64
  assumes ok: "wheel_ok k H U st s" and cur: "uint cur < 2 ^ 63"
    and ps: "ps = wheel_path (2 ^ k) p d" "d < 2 ^ k" "p < 2 ^ k"
    and cov: "\<forall>i<2 ^ k. \<forall>x\<in>set (slot_list st s i). h_timeout (handles s x) \<le> cur \<longrightarrow> i \<in> set ps"
    and fs: "fs = concat (map (\<lambda>i. filter (due cur s) (st (slots s + i))) ps)"
  shows "distinct fs" and "set fs = {x \<in> armed k st s. h_timeout (handles s x) \<le> cur}"
    and "int (length fs) =
      (\<Sum>i<2 ^ k. int (length (filter (\<lambda>x. h_timeout (handles s x) \<le> cur) (slot_list st s i))))"
    and "\<forall>i<2 ^ k. slot_list (scanned cur s (map (\<lambda>i. slots s + i) ps) st) s i =
           filter (\<lambda>x. \<not> h_timeout (handles s x) \<le> cur) (slot_list st s i)"
    and "fs = concat (map (\<lambda>i. filter (\<lambda>x. h_timeout (handles s x) \<le> cur) (slot_list st s i)) ps)"
proof -
  let ?N = "2 ^ k :: nat"
  let ?P = "\<lambda>x. h_timeout (handles s x) \<le> cur"
  have dps: "distinct ps" and bps: "\<And>i. i \<in> set ps \<Longrightarrow> i < ?N"
    using ps wheel_path_distinct wheel_path_bound [of ?N] by auto
  have due: "due cur s x = ?P x" if "i < ?N" "x \<in> set (slot_list st s i)" for i x
    using wheel_okD(7) [OF ok that] cur by (simp add: due_def time_after_eq_iff)
  have fd: "filter (due cur s) (st (slots s + i)) = filter ?P (slot_list st s i)" if "i < ?N" for i
    using due [OF that] by (auto simp: slot_list_def intro: filter_cong)
  have fs': "fs = concat (map (\<lambda>i. filter ?P (slot_list st s i)) ps)"
    unfolding fs by (rule arg_cong [of _ _ concat]) (use fd bps in auto)
  show "fs = concat (map (\<lambda>i. filter ?P (slot_list st s i)) ps)" by (rule fs')
  have dl: "distinct (slot_list st s i)" if "i < ?N" for i
    using list_relD(1) [OF wheel_okD(2) [OF ok]] wheel_okD(3) [OF ok] that
    by (auto simp: slot_list_def is_list_def)
  have ap: "set (filter ?P (slot_list st s i)) \<inter> set (filter ?P (slot_list st s j)) = {}"
    if "i \<in> set ps" "j \<in> set ps" "i \<noteq> j" for i j
    using wheel_slots_apart [OF ok bps [OF that(1)] bps [OF that(2)] that(3)] by auto
  show "distinct fs"
    unfolding fs' using ap dl bps by (intro distinct_concat_map [OF dps]) simp_all
  show "set fs = {x \<in> armed k st s. ?P x}"
    using cov bps by (auto simp: fs' armed_def)
  have "length (filter ?P (slot_list st s i)) = 0" if "i < ?N" "i \<notin> set ps" for i
    using cov that by (auto simp: filter_empty_conv)
  then have "(\<Sum>i<?N. length (filter ?P (slot_list st s i))) = (\<Sum>i\<in>set ps. length (filter ?P (slot_list st s i)))"
    using bps by (intro sum.mono_neutral_right) auto
  then have "length fs = (\<Sum>i<?N. length (filter ?P (slot_list st s i)))"
    unfolding fs' by (simp only: length_concat_map_sum [OF dps])
  then show "int (length fs) = (\<Sum>i<?N. int (length (filter ?P (slot_list st s i))))" by simp
  show "\<forall>i<?N. slot_list (scanned cur s (map (\<lambda>i. slots s + i) ps) st) s i =
      filter (\<lambda>x. \<not> ?P x) (slot_list st s i)"
  proof (intro allI impI)
    fix i assume i: "i < ?N"
    have "filter (\<lambda>x. \<not> due cur s x) (slot_list st s i) = filter (\<lambda>x. \<not> ?P x) (slot_list st s i)"
      using due [OF i] by (auto intro: filter_cong)
    moreover have "filter (\<lambda>x. \<not> ?P x) (slot_list st s i) = slot_list st s i" if "i \<notin> set ps"
      using cov i that by (auto simp: filter_id_conv)
    ultimately show "slot_list (scanned cur s (map (\<lambda>i. slots s + i) ps) st) s i =
        filter (\<lambda>x. \<not> ?P x) (slot_list st s i)"
      by (cases "i \<in> set ps") (auto simp: scanned_def slot_list_def)
  qed
qed

lemma armed_empty:
  assumes "wheel_ok k H U st s" and "sint (tw_task_num s) \<le> 0"
  shows "armed k st s = {}" and "\<forall>i<2 ^ k. slot_list st s i = []"
proof -
  have "(\<Sum>i<2 ^ k. int (length (slot_list st s i))) \<le> 0"
    using wheel_okD(6) [OF assms(1)] assms(2) by linarith
  then have "(\<Sum>i<2 ^ k. int (length (slot_list st s i))) = 0"
    by (intro antisym sum_nonneg) auto
  then have "\<forall>i<2 ^ k. int (length (slot_list st s i)) = 0"
    by (simp add: sum_nonneg_eq_0_iff)
  then show "\<forall>i<2 ^ k. slot_list st s i = []" by simp
  then show "armed k st s = {}" by (simp add: armed_def)
qed


lemma check_no_tasks:
  fixes cur :: u64
  assumes "wheel_ok k H U st s" and "sint (tw_task_num s) \<le> 0" and "uint cur < 2 ^ 63"
  shows "wheel_ok k H U st (s\<lparr>tw_pos := cur AND ucast (slot_num_mask s), prev_ms := cur\<rparr>)"
  using wheel_ok_scanned [of k H U st s cur s st] armed_empty [OF assms(1,2)] assms
  by (simp add: wheel_okD)

text \<open>
  The order of the firings: slot after slot from the one of the last check to the one of \<open>cur\<close>, once around at most, and in a slot the handles in
  the order in which they were armed.
\<close>

definition firing_order :: "nat \<Rightarrow> lstore \<Rightarrow> 'a timewheel_scheme \<Rightarrow> u64 \<Rightarrow> addr list" where
  "firing_order k st s cur = concat (map (\<lambda>i. filter (\<lambda>x. h_timeout (handles s x) \<le> cur) (slot_list st s i))
     (wheel_path (2 ^ k) (unat (prev_ms s)) (min (unat cur - unat (prev_ms s)) (2 ^ k - 1))))"

lemma wheel_path_mod: "wheel_path N (p mod N) d = wheel_path N p d"
  by (simp add: wheel_path_def mod_add_left_eq)

lemma firing_order_empty: "\<forall>i<2 ^ k. slot_list st s i = [] \<Longrightarrow> firing_order k st s cur = []"
  using wheel_path_bound [of "2 ^ k"] by (auto simp: firing_order_def)

lemma check_quiet:
  assumes ok: "wheel_ok k H U st s" and q: "quiet run"
    and one: "\<forall>x\<in>armed k st s. h_interval (handles s x) = 0"
    and cur: "prev_ms s < cur" "uint cur < 2 ^ 63"
    and fuel: "2 ^ k \<le> n" "\<forall>i<2 ^ k. length (slot_list st s i) < f"
  shows "\<exists>fs st' s'. check n f run cur s = Some (int (length fs), s') \<and>
    fired s' = fired s @ fs \<and> fs = firing_order k st s cur \<and> distinct fs \<and>
    set fs = {x \<in> armed k st s. h_timeout (handles s x) \<le> cur} \<and>
    wheel_ok k H U st' s' \<and> armed k st' s' = armed k st s - set fs \<and> prev_ms s' = cur"
proof -
  note D = wheel_okD [OF ok]
  have c0: "(if cur = 0 then clock s else cur) = cur" using cur(1) by auto
  show ?thesis
  proof (cases "sint (tw_task_num s) \<le> 0")
    case True
    then show ?thesis
      using check_no_tasks [OF ok True cur(2)] armed_empty [OF ok True] firing_order_empty [of k st s cur] unfolding check_def c0
      by (intro exI [of _ "[]"] exI [of _ st]) (simp add: armed_def slot_list_def)
  next
    case False
    define p where "p = (ucast (tw_pos s) :: u32)"
    define e where "e = (if time_diff cur (prev_ms s) \<ge> sint (slot_num s) then (p + slot_num s - 1) AND slot_num_mask s
                 else ucast (cur AND ucast (slot_num_mask s)))"
    define d where "d = min (unat cur - unat (prev_ms s)) (2 ^ k - 1)"
    have d: "d < 2 ^ k" "unat p < 2 ^ k" "unat e = (unat p + d) mod 2 ^ k" and pp: "unat p = unat (prev_ms s) mod 2 ^ k"
      and cov: "\<forall>i<2 ^ k. \<forall>x\<in>set (slot_list st s i). h_timeout (handles s x) \<le> cur \<longrightarrow>
         i \<in> set (wheel_path (2 ^ k) (unat p) d)"
      using check_range [OF ok cur] unfolding p_def e_def d_def by auto
    let ?ps = "wheel_path (2 ^ k) (unat p) d"
    define fs where "fs = concat (map (\<lambda>i. filter (due cur s) (st (slots s + i))) ?ps)"
    define st' where "st' = scanned cur s (map (\<lambda>i. slots s + i) ?ps) st"
    note S = scan_result [OF ok cur(2) refl d(1,2) cov fs_def]
    have pos: "time_diff cur (prev_ms s) > 0"
      using time_diff_eq [OF cur(2) D(5)] cur(1) by (simp add: word_less_def)
    have "\<exists>s'. check_slots n f run cur (slot_num_mask s) e p (0, s) = Some (0 + int (length fs), s') \<and>
        list_rel H U (heap s') st' \<and> wheel_frame s s' \<and> fired s' = fired s @ fs \<and>
        sint (tw_task_num s) - int (length fs) \<le> sint (tw_task_num s')"
      unfolding st'_def
    proof (rule check_slots_quiet [OF q wheel_size_mask [OF D(1)] _ D(2,3) _ _ d(2,1) _ d(3) refl fs_def])
      show "k < 31" using D(1) by (simp add: wheel_size_def)
      show "\<forall>i<2 ^ k. \<forall>x\<in>set (st (slots s + i)). h_interval (handles s x) = 0"
        using one by (auto simp: armed_def slot_list_def)
    qed (use fuel d(1) in \<open>auto simp: slot_list_def\<close>)
    then obtain s' where s': "check_slots n f run cur (slot_num_mask s) e p (0, s) = Some (int (length fs), s')"
      "list_rel H U (heap s') st'" "wheel_frame s s'" "fired s' = fired s @ fs"
      "sint (tw_task_num s) - int (length fs) \<le> sint (tw_task_num s')" by auto
    let ?s = "s'\<lparr>tw_pos := cur AND ucast (slot_num_mask s), prev_ms := cur\<rparr>"
    have okw: "wheel_ok k H U st' ?s"
      using S(3,4) s' by (intro wheel_ok_scanned [OF ok cur(2) s'(3,2)]) (auto simp: st'_def)
    have "slots s' = slots s" using s'(3) by (simp add: wheel_frame_def)
    then have "armed k st' ?s = armed k st s - set fs"
      using S(2,4) by (auto simp: armed_def slot_list_def st'_def)
    moreover have "check n f run cur s = Some (int (length fs), ?s)"
      using False pos s'(1) unfolding check_def c0 by (simp add: Let_def p_def [symmetric] e_def [symmetric])
    moreover have "fs = firing_order k st s cur" using S(5) unfolding firing_order_def pp wheel_path_mod d_def .
    ultimately show ?thesis
      using S(1,2) okw s'(4) by (intro exI [of _ fs] exI [of _ st'] exI [of _ ?s]) simp
  qed
qed

subsection \<open>Arming and cancelling\<close>

lemma slot_list_del: "slot_list (st_del x st) s i = remove1 x (slot_list st s i)"
  by (simp add: slot_list_def st_del_def)

lemma armed_count_del:
  assumes "wheel_ok k H U st s"
  shows "(\<Sum>i<2 ^ k. int (length (slot_list (st_del x st) s i))) =
    (\<Sum>i<2 ^ k. int (length (slot_list st s i))) - (if x \<in> armed k st s then 1 else 0)"
proof (cases "x \<in> armed k st s")
  case False
  then have "x \<notin> set (slot_list st s i)" if "i < 2 ^ k" for i using that by (auto simp: armed_def)
  with False show ?thesis by (simp add: slot_list_del remove1_idem)
next
  case True
  then obtain j where j: "j < 2 ^ k" "x \<in> set (slot_list st s j)" by (auto simp: armed_def)
  have "int (length (slot_list (st_del x st) s i)) = int (length (slot_list st s i)) - (if i = j then 1 else 0)"
    if "i < 2 ^ k" for i
  proof (cases "i = j")
    case True
    have "0 < length (slot_list st s j)" using j(2) by (cases "slot_list st s j") auto
    with True j show ?thesis by (simp add: slot_list_del length_remove1 of_nat_diff Suc_le_eq)
  next
    case False
    with wheel_slots_apart [OF assms that j(1) False] j(2) have "x \<notin> set (slot_list st s i)" by blast
    with False show ?thesis by (simp add: slot_list_del remove1_idem)
  qed
  then have "(\<Sum>i<2 ^ k. int (length (slot_list (st_del x st) s i))) =
      (\<Sum>i<2 ^ k. int (length (slot_list st s i)) - (if i = j then 1 else 0))" by simp
  also have "\<dots> = (\<Sum>i<2 ^ k. int (length (slot_list st s i))) - 1"
    using j(1) by (simp add: sum_subtractf)
  finally show ?thesis using True by simp
qed

lemma sum_list_update_length:
  fixes N j :: nat
  assumes "j < N"
  shows "(\<Sum>i<N. int (length (if i = j then g i @ [x] else g i))) = (\<Sum>i<N. int (length (g i))) + (1::int)"
proof -
  have "(\<Sum>i<N. int (length (if i = j then g i @ [x] else g i))) =
      (\<Sum>i<N. int (length (g i)) + (if i = j then 1 else 0))"
    by (intro sum.cong) auto
  then show ?thesis using assms by (simp add: sum.distrib)
qed

lemma set_timeout_wheel_eq:
  assumes "\<not> (sint timeout \<le> 0 \<and> iv = 0)"
  shows "heap (set_timeout_impl x timeout iv s) =
      list_add_tail x (slots s + unat (ucast (h_timeout (handles (set_timeout_impl x timeout iv s) x)
        AND ucast (slot_num_mask s)) :: u32)) (list_del_init x (heap s))"
    and "h_timeout (handles (set_timeout_impl x timeout iv s) x) =
      (if clock s + scast timeout < prev_ms s then prev_ms s else clock s + scast timeout)"
    and "y \<noteq> x \<Longrightarrow> handles (set_timeout_impl x timeout iv s) y = handles s y"
    and "h_interval (handles (set_timeout_impl x timeout iv s) x) = iv"
    and "tw_task_num (set_timeout_impl x timeout iv s) = tw_task_num s + 1"
    and "slots (set_timeout_impl x timeout iv s) = slots s"
    and "slot_num (set_timeout_impl x timeout iv s) = slot_num s"
    and "slot_num_mask (set_timeout_impl x timeout iv s) = slot_num_mask s"
    and "prev_ms (set_timeout_impl x timeout iv s) = prev_ms s"
    and "tw_pos (set_timeout_impl x timeout iv s) = tw_pos s"
  using assms by (auto simp: set_timeout_impl_def upd_handle_def upd_heap_def slot_addr_def Let_def)


text \<open>The expiry of a handle armed now: never before the last check.\<close>

definition expiry :: "u32 \<Rightarrow> 'a timewheel_scheme \<Rightarrow> u64" where
  "expiry timeout s = (if clock s + scast timeout < prev_ms s then prev_ms s else clock s + scast timeout)"

definition slot_index :: "nat \<Rightarrow> u64 \<Rightarrow> nat" where
  "slot_index k t = unat t mod 2 ^ k"

lemma set_timeout_wheel_ok:
  fixes timeout iv :: u32
  assumes ok: "wheel_ok k H U st s" and x: "x \<in> U"
    and tm: "\<not> (sint timeout \<le> 0 \<and> iv = 0)" and ex: "uint (expiry timeout s) < 2 ^ 63"
    and room: "sint (tw_task_num s) < 2 ^ 31 - 1"
  defines "a \<equiv> slots s + slot_index k (expiry timeout s)"
  shows "wheel_ok k H U (st_add_tail x a (st_del x st)) (set_timeout_impl x timeout iv s)"
proof -
  note D = wheel_okD [OF ok]
  note E = set_timeout_wheel_eq [OF tm, where x = x and s = s]
  let ?s = "set_timeout_impl x timeout iv s"
  let ?st = "st_add_tail x a (st_del x st)"
  let ?j = "slot_index k (expiry timeout s)"
  have t: "h_timeout (handles ?s x) = expiry timeout s" by (simp add: E(2) expiry_def)
  have j: "?j < 2 ^ k" by (simp add: slot_index_def)
  have a: "slots s + unat (ucast (h_timeout (handles ?s x) AND ucast (slot_num_mask s)) :: u32) = a"
    using slot_of_time(2) [OF D(1)] by (simp add: t a_def slot_index_def)
  have rel: "list_rel H U (heap ?s) ?st"
    unfolding E(1) a using D(3) j by (intro list_h.rel_move_tail [OF D(2) _ x]) (simp add: a_def)
  have sl: "slot_list ?st ?s i = (if i = ?j then remove1 x (slot_list st s i) @ [x] else remove1 x (slot_list st s i))"
    for i by (auto simp: slot_list_def st_add_tail_def st_del_def E(6) a_def)
  have "(\<Sum>i<2 ^ k. int (length (slot_list ?st ?s i))) =
      (\<Sum>i<2 ^ k. int (length (remove1 x (slot_list st s i)))) + 1"
    unfolding sl by (rule sum_list_update_length [OF j])
  then have cnt: "(\<Sum>i<2 ^ k. int (length (slot_list ?st ?s i))) \<le> sint (tw_task_num ?s)"
    using armed_count_del [OF ok, of x] D(6) by (simp add: slot_list_del E(5) sint_succ [OF room] split: if_splits)
  have prev: "prev_ms s \<le> expiry timeout s" by (simp add: expiry_def linorder_not_less)
  have nd: "x \<notin> set (remove1 x (slot_list st s i))" if "i < 2 ^ k" for i
    using list_relD(1) [OF D(2)] D(3) that by (auto simp: is_list_def slot_list_def)
  have "unat (h_timeout (handles ?s y)) mod 2 ^ k = i \<and> prev_ms ?s \<le> h_timeout (handles ?s y) \<and>
      uint (h_timeout (handles ?s y)) < 2 ^ 63" if i: "i < 2 ^ k" and y: "y \<in> set (slot_list ?st ?s i)" for i y
  proof (cases "y = x")
    case True
    with y nd [OF i] have "i = ?j" by (auto simp: sl split: if_splits)
    with True show ?thesis using prev ex by (simp add: t E(9) slot_index_def)
  next
    case False
    with y have "y \<in> set (slot_list st s i)" using set_remove1_subset [of x "slot_list st s i"] by (auto simp: sl split: if_splits)
    with D(7) [OF i] False show ?thesis by (simp add: E(3,9))
  qed
  with rel cnt D show ?thesis unfolding wheel_ok_def by (simp add: E wheel_size_def)
qed

lemma cancel_timeout_wheel_ok:
  assumes ok: "wheel_ok k H U st s" and x: "x \<in> U" and arm: "x \<in> armed k st s \<or> \<not> linked H st x"
  shows "wheel_ok k H U (st_del x st) (cancel_timeout x s)"
proof -
  note D = wheel_okD [OF ok]
  let ?s = "cancel_timeout x s"
  have lk: "list_empty x (heap s) \<longleftrightarrow> x \<notin> armed k st s"
    using list_empty_node [OF D(2) x] arm D(3) by (auto simp: armed_def linked_def slot_list_def)
  have f: "slots ?s = slots s" "slot_num ?s = slot_num s" "slot_num_mask ?s = slot_num_mask s"
    "prev_ms ?s = prev_ms s" "tw_pos ?s = tw_pos s" "\<And>y. h_timeout (handles ?s y) = h_timeout (handles s y)"
    by (auto simp: cancel_timeout_def upd_handle_def upd_heap_def Let_def)
  have rel: "list_rel H U (heap ?s) (st_del x st)"
  proof (cases "list_empty x (heap s)")
    case True
    then have "heap ?s = list_del_init x (heap s)"
      using list_relD(5) [OF D(2) x] list_empty_node [OF D(2) x] list_del_init_unlinked [of "heap s" x]
      by (simp add: cancel_timeout_def upd_handle_def)
    then show ?thesis using list_del_init_rel [OF D(2) x] by simp
  next
    case False
    then have "heap ?s = list_del_init x (heap s)"
      by (auto simp: cancel_timeout_def upd_handle_def upd_heap_def Let_def)
    then show ?thesis using list_del_init_rel [OF D(2) x] by simp
  qed
  have "sint (tw_task_num s) - (if x \<in> armed k st s then 1 else 0) \<le> sint (tw_task_num ?s)"
    using lk sint_pred [of "tw_task_num s"] by (auto simp: cancel_timeout_def upd_handle_def upd_heap_def Let_def)
  then have cnt: "(\<Sum>i<2 ^ k. int (length (slot_list (st_del x st) ?s i))) \<le> sint (tw_task_num ?s)"
    using armed_count_del [OF ok, of x] D(6) by (simp add: slot_list_def f)
  have "y \<in> set (slot_list st s i)" if "y \<in> set (slot_list (st_del x st) ?s i)" for i y
    using that set_remove1_subset [of x "slot_list st s i"] by (auto simp: slot_list_def st_del_def f)
  with rel cnt D show ?thesis unfolding wheel_ok_def by (simp add: f wheel_size_def)
qed


subsection \<open>Properties\<close>

text \<open>
  C4. Take a wheel of one-shot timers whose callbacks leave the wheel, its lists and the clock alone (they may change everything
  else). A check at time \<open>cur\<close> fires exactly the armed handles whose expiry is at most \<open>cur\<close>, each once, slot after slot and in a slot in the
  order of arming, returns their number, leaves the other handles armed,
  and re-establishes the invariant of the wheel with \<open>cur\<close> as the time of the last check.
  The loop over the slots ends: one unit of fuel per slot, and one more than the length of
  the longest slot for the loop inside it, are enough.
\<close>

theorem check_fires_due:
  assumes "wheel_ok k H U st s" and "quiet run"
    and "\<forall>x\<in>armed k st s. h_interval (handles s x) = 0"
    and "prev_ms s < cur" and "uint cur < 2 ^ 63"
    and "2 ^ k \<le> n" and "\<forall>i<2 ^ k. length (slot_list st s i) < f"
  shows "\<exists>fs st' s'. check n f run cur s = Some (int (length fs), s') \<and>
    fired s' = fired s @ fs \<and> fs = firing_order k st s cur \<and> distinct fs \<and>
    set fs = {x \<in> armed k st s. h_timeout (handles s x) \<le> cur} \<and>
    wheel_ok k H U st' s' \<and> armed k st' s' = armed k st s - set fs \<and> prev_ms s' = cur"
  using assms by (rule check_quiet)

text \<open>A wheel as the constructor makes it for the examples: four slots, at 100 to 103, no timer armed, the delayed task queued.\<close>

definition ex_raw :: timewheel where
  "ex_raw = \<lparr>heap = \<lparr>nxt = (\<lambda>a. a), prv = (\<lambda>a. a)\<rparr>, d_tasks = 106, d_delay_tasks = 105,
     task_num = 0, delay_task_num = 0, auto_del = (\<lambda>_. False), deleted = [], sched_yields = 0,
     called = [], handles = (\<lambda>_. \<lparr>h_timeout = 0, h_interval = 0, h_tw = False\<rparr>), tw_pos = 0,
     prev_ms = 0, now_ms = 0, tw_task_num = 0, slot_num = 0, slot_num_mask = 0, slots = 100,
     now_list = 104, delay_task = 200, clock = 1000, fired = []\<rparr>"

definition ex_wheel :: timewheel where
  "ex_wheel = timewheel_init 1 ex_raw"

abbreviation ex_heads :: "addr set" where "ex_heads \<equiv> {100, 101, 102, 103, 104, 105, 106}"
abbreviation ex_nodes :: "addr set" where "ex_nodes \<equiv> {7, 8, 200}"
abbreviation ex_lists :: lstore where "ex_lists \<equiv> (\<lambda>_. [])(105 := [200])"

lemma init_slots_id: "init_slots n base \<lparr>nxt = (\<lambda>a. a), prv = (\<lambda>a. a)\<rparr> = \<lparr>nxt = (\<lambda>a. a), prv = (\<lambda>a. a)\<rparr>"
  by (induction n) (simp_all add: list_ops fun_upd_idem)

lemma round_slot_num_1: "round_slot_num 1 = 4"
proof -
  have "bit_len (Suc 0) = Suc 0" by (simp add: bit_len.simps [of "Suc 0"] bit_len.simps [of 0])
  then show ?thesis by (simp add: round_slot_num_def builtin_clz_def)
qed

lemma ex_wheel_eval:
  "heap ex_wheel = \<lparr>nxt = (\<lambda>a. a)(200 := 105, 105 := 200), prv = (\<lambda>a. a)(200 := 105, 105 := 200)\<rparr>"
  "handles ex_wheel = (\<lambda>_. \<lparr>h_timeout = 0, h_interval = 0, h_tw = False\<rparr>)" "tw_pos ex_wheel = 0" "prev_ms ex_wheel = 1000"
  "tw_task_num ex_wheel = 0" "slot_num ex_wheel = 4" "slot_num_mask ex_wheel = 3" "slots ex_wheel = 100" "now_list ex_wheel = 104"
  "delay_task ex_wheel = 200" "d_delay_tasks ex_wheel = 105" "clock ex_wheel = 1000" "fired ex_wheel = []"
  by (simp_all add: ex_wheel_def timewheel_init_def round_slot_num_1 ex_raw_def init_task_def delay_def upd_heap_def init_slots_id
      list_ops fun_upd_idem fun_eq_iff)

lemma less_4: "i < 4 \<longleftrightarrow> i = 0 \<or> i = 1 \<or> i = 2 \<or> i = (3::nat)"
  by auto

lemma ex_wheel_ok: "wheel_ok 2 ex_heads ex_nodes ex_lists ex_wheel"
proof -
  have "list_rel ex_heads ex_nodes (heap ex_wheel) ex_lists"
    by (auto simp: ex_wheel_eval list_rel_def linked_def is_list_def)
  moreover have "slot_list ex_lists ex_wheel i = []" if "i < 4" for i using that by (simp add: slot_list_def ex_wheel_eval)
  ultimately show ?thesis by (simp add: wheel_ok_def wheel_size_def ex_wheel_eval) (auto simp: less_4)
qed

lemma ex_wheel_armed_ok:
  "wheel_ok 2 ex_heads ex_nodes (st_add_tail 7 101 (st_del 7 ex_lists)) (set_timeout 7 5 ex_wheel)"
proof -
  have "expiry 5 ex_wheel = 1005" by (simp add: expiry_def ex_wheel_eval)
  moreover have "slots ex_wheel = 100" "sint (tw_task_num ex_wheel) < 2 ^ 31 - 1" by (simp_all add: ex_wheel_eval)
  ultimately show ?thesis
    unfolding set_timeout_def using set_timeout_wheel_ok [OF ex_wheel_ok, of 7 5 0]
    by (simp add: slot_index_def)
qed

theorem check_fires_due_witness:
  "\<exists>fs st' s'. check 4 2 (\<lambda>x s. s) 1005 (set_timeout 7 5 ex_wheel) = Some (int (length fs), s') \<and>
     set fs = {7 :: addr} \<and> wheel_ok 2 ex_heads ex_nodes st' s'"
proof -
  let ?st = "st_add_tail 7 101 (st_del 7 ex_lists) :: lstore"
  let ?s = "set_timeout 7 5 ex_wheel"
  have sl: "slots ?s = 100" "prev_ms ?s = 1000" "h_interval (handles ?s 7) = 0"
    "h_timeout (handles ?s 7) = 1005"
    by (simp_all add: set_timeout_def set_timeout_impl_def ex_wheel_eval upd_handle_def upd_heap_def Let_def)
  have arm: "armed 2 ?st ?s = {7}"
    by (auto simp: armed_def slot_list_def sl st_add_tail_def st_del_def less_4)
  have len: "\<forall>i<2 ^ 2. length (slot_list ?st ?s i) < 2"
    by (auto simp: slot_list_def sl st_add_tail_def st_del_def)
  have "quiet (\<lambda>x s :: timewheel. s)" by (simp add: quiet_def quiet_at_def)
  from check_fires_due [OF ex_wheel_armed_ok this, of 1005 4 2] len
  obtain fs st' s' where "check 4 2 (\<lambda>x s. s) 1005 ?s = Some (int (length fs), s')"
    "set fs = {x \<in> armed 2 ?st ?s. h_timeout (handles ?s x) \<le> 1005}" "wheel_ok 2 ex_heads ex_nodes st' s'"
    by (auto simp: arm [simplified] sl)
  moreover have "{x \<in> armed 2 ?st ?s. h_timeout (handles ?s x) \<le> 1005} = {7}"
    using arm sl by auto
  ultimately show ?thesis by auto
qed

lemma slot_distinct:
  assumes "wheel_ok k H U st s" and "i < 2 ^ k"
  shows "distinct (slot_list st s i)"
  using list_relD(1) [OF wheel_okD(2) [OF assms(1)]] wheel_okD(3) [OF assms(1)] assms(2)
  by (auto simp: slot_list_def is_list_def)

lemma armed_del: "wheel_ok k H U st s \<Longrightarrow> armed k (st_del x st) s = armed k st s - {x}"
  by (auto simp: armed_def slot_list_del slot_distinct)

text \<open>
  C5. While the counter \<open>task_num\<close> is below \<open>INT_MAX\<close>, \<open>set_timeout(obj, ms)\<close> with \<open>ms > 0\<close> arms the handle, wherever it was linked
  before: it is in the wheel once, with expiry \<open>now + ms\<close> (or the time of the last check, if that is later),
  the other armed handles are unaffected, the invariant of the wheel is kept and the counter grows by one, also when the handle
  was armed already.
\<close>

theorem set_timeout_arms:
  assumes ok: "wheel_ok k H U st s" and x: "x \<in> U" and ms: "0 < sint ms" and ex: "uint (expiry ms s) < 2 ^ 63"
    and room: "sint (tw_task_num s) < 2 ^ 31 - 1"
  shows "\<exists>st'. wheel_ok k H U st' (set_timeout x ms s) \<and>
    armed k st' (set_timeout x ms s) = insert x (armed k st s) \<and>
    h_timeout (handles (set_timeout x ms s) x) = expiry ms s \<and>
    (\<forall>y. y \<noteq> x \<longrightarrow> handles (set_timeout x ms s) y = handles s y) \<and>
    sint (tw_task_num (set_timeout x ms s)) = sint (tw_task_num s) + 1"
proof -
  have tm: "\<not> (sint ms \<le> 0 \<and> (0::u32) = 0)" using ms by simp
  note E = set_timeout_wheel_eq [OF tm, where x = x and s = s]
  define st' where "st' = st_add_tail x (slots s + slot_index k (expiry ms s)) (st_del x st)"
  have "wheel_ok k H U st' (set_timeout x ms s)"
    unfolding st'_def set_timeout_def by (rule set_timeout_wheel_ok [OF ok x tm ex room])
  moreover have "slot_index k (expiry ms s) < 2 ^ k" by (simp add: slot_index_def)
  then have "armed k st' (set_timeout x ms s) = insert x (armed k (st_del x st) s)"
    by (auto simp: armed_def slot_list_def st'_def set_timeout_def E(6) st_add_tail_def split: if_splits)
  ultimately show ?thesis
    using E(2,3,5) sint_succ [OF room] by (intro exI [of _ st']) (auto simp: armed_del [OF ok] set_timeout_def expiry_def)
qed

theorem set_timeout_arms_witness:
  "\<exists>st'. wheel_ok 2 ex_heads ex_nodes st' (set_timeout 7 5 ex_wheel) \<and>
     armed 2 st' (set_timeout 7 5 ex_wheel) = insert 7 (armed 2 ex_lists ex_wheel)"
proof -
  have "expiry 5 ex_wheel = 1005" "tw_task_num ex_wheel = 0" by (simp_all add: expiry_def ex_wheel_eval)
  then show ?thesis using set_timeout_arms [OF ex_wheel_ok, of 7 5] by auto
qed

text \<open>
  Arming a handle that is armed already does not give its count back, so that the counter grows without bound while the number of
  timers does not. When it is at \<open>INT_MAX\<close> the next call overflows; with the usual wrap-around the counter is negative
  from then on and \<open>check\<close> fires no timer at all.
\<close>

lemma task_num_overflow:
  assumes "sint (tw_task_num s) = 2 ^ 31 - 1" and "0 < sint ms"
  shows "check n f run cur (set_timeout x ms s) =
    Some (0, (set_timeout x ms s)\<lparr>tw_pos := (if cur = 0 then clock s else cur) AND ucast (slot_num_mask s),
      prev_ms := (if cur = 0 then clock s else cur)\<rparr>)"
proof -
  have tm: "\<not> (sint ms \<le> 0 \<and> (0::u32) = 0)" using assms(2) by simp
  note E = set_timeout_wheel_eq [OF tm, where x = x and s = s, folded set_timeout_def]
  have "sint (tw_task_num s + 1) = - (2 ^ 31)" using assms(1) by (simp add: sint_word_add)
  moreover have "clock (set_timeout x ms s) = clock s"
    using assms(2) by (simp add: set_timeout_def set_timeout_impl_def upd_handle_def upd_heap_def Let_def)
  ultimately show ?thesis by (simp add: check_def E Let_def)
qed

text \<open>
  C6. \<open>cancel_timeout\<close> of an armed handle, or of one linked nowhere, takes exactly that handle
  out of the wheel, marks it as unowned and keeps the invariant: it cannot fire in a later
  check.
\<close>

theorem cancel_timeout_disarms:
  assumes "wheel_ok k H U st s" and "x \<in> U" and "x \<in> armed k st s \<or> \<not> linked H st x"
  shows "\<exists>st'. wheel_ok k H U st' (cancel_timeout x s) \<and>
    armed k st' (cancel_timeout x s) = armed k st s - {x} \<and> \<not> linked H st' x \<and>
    \<not> h_tw (handles (cancel_timeout x s) x)"
proof -
  have "slots (cancel_timeout x s) = slots s"
    by (auto simp: cancel_timeout_def upd_handle_def upd_heap_def Let_def)
  then have "armed k (st_del x st) (cancel_timeout x s) = armed k st s - {x}"
    using armed_del [OF assms(1)] by (simp add: armed_def slot_list_def)
  moreover have "\<not> linked H (st_del x st) x"
    using list_h.not_linked_after_del [OF wheel_okD(2) [OF assms(1)]] .
  moreover have "\<not> h_tw (handles (cancel_timeout x s) x)"
    by (auto simp: cancel_timeout_def upd_handle_def Let_def)
  ultimately show ?thesis using cancel_timeout_wheel_ok [OF assms] by blast
qed

theorem cancel_timeout_disarms_witness:
  "\<exists>st'. wheel_ok 2 ex_heads ex_nodes st' (cancel_timeout 7 (set_timeout 7 5 ex_wheel)) \<and>
     \<not> linked ex_heads st' 7"
proof -
  have "slots (set_timeout 7 5 ex_wheel) = 100"
    by (simp add: set_timeout_def set_timeout_impl_def ex_wheel_eval upd_handle_def upd_heap_def Let_def)
  then have "7 \<in> armed 2 (st_add_tail 7 101 (st_del 7 ex_lists)) (set_timeout 7 5 ex_wheel)"
    by (auto simp: armed_def slot_list_def st_add_tail_def less_4)
  with cancel_timeout_disarms [OF ex_wheel_armed_ok, of 7] show ?thesis by auto
qed

subsection \<open>A callback that cancels the next timer\<close>

lemma chain_second: "chain f (as @ x # y # bs) l \<Longrightarrow> f (hd (as @ [x])) = hd (tl (as @ [x, y]))"
proof (cases as)
  case (Cons a list)
  assume "chain f (as @ x # y # bs) l"
  then show ?thesis unfolding Cons by (cases list) auto
qed auto

lemma cancelled_next_stuck:
  assumes y: "y \<noteq> a" "quiet_at run y" and s: "nxt (heap s) y = y" "h_interval (handles s y) = 0"
  shows "for_each_safe_from f nxt (heap \<circ> snd) (check_body run cur) a y y (c, s) = None"
proof -
  define J where "J = (\<lambda>q :: int \<times> 'a timewheel_scheme. nxt (heap (snd q)) y = y \<and> h_interval (handles (snd q) y) = 0)"
  have "J (check_body run cur y q)" if "J q" for q
    using that quiet_simps(1,2) [OF y(2)]
    by (cases q) (auto simp: J_def check_body_def cancel_timeout_def list_empty_def fire_def upd_handle_def Let_def)
  then show ?thesis using y(1) s by (intro for_each_safe_from_stuck [where J = J]) (auto simp: J_def)
qed

lemma cancel_next_unlinks:
  assumes a: "a \<in> H" and one: "\<forall>z\<in>set (st a). h_interval (handles s z) = 0" and due: "due cur s x"
    and cb: "\<And>t. timewheel.truncate (run x t) = timewheel.truncate (cancel_timeout y t)"
    and I: "slot_inv H U st s cur cnt a (x # y # bs) (c0, s0)"
  shows "\<exists>s'. check_body run cur x (c0, s0) = (c0 + 1, s') \<and> nxt (heap s') y = y \<and> h_interval (handles s' y) = 0 \<and> y \<noteq> a \<and> x \<noteq> a"
proof -
  from I obtain ys st0 where ys: "st a = ys @ x # y # bs" and r0: "list_rel H U (heap s0) st0"
    and st0: "st0 a = filter (\<lambda>z. \<not> due cur s z) ys @ x # y # bs" and fr: "wheel_frame s s0"
    by (auto simp: slot_inv_def)
  have U: "x \<in> U" "y \<in> U" using list_relD(2) [OF r0 a] st0 by auto
  then have ne: "x \<noteq> a" "y \<noteq> a" using list_relD(3) [OF r0 a] by auto
  have d: "distinct (st0 a)" using list_relD(1) [OF r0 a] by (simp add: is_list_def)
  have lx: "linked H st0 x" unfolding linked_def by (rule bexI [OF _ a]) (simp add: st0)
  have r1: "list_rel H U (list_del_init x (heap s0)) (st_del x st0)" by (rule list_del_init_rel [OF r0 U(1)])
  have ly: "linked H (st_del x st0) y" unfolding linked_def using d by (intro bexI [OF _ a]) (auto simp: st0 st_del_def)
  have r2: "list_rel H U (list_del_init y (list_del_init x (heap s0))) (st_del y (st_del x st0))"
    by (rule list_del_init_rel [OF r1 U(2)])
  have "is_list (list_del_init y (list_del_init x (heap s0))) y []"
    by (rule list_relD(5) [OF r2 U(2)]) (rule list_h.not_linked_after_del [OF r1])
  then have ny: "nxt (list_del_init y (list_del_init x (heap s0))) y = y" by (simp add: is_list_def)
  let ?t = "(cancel_timeout x s0)\<lparr>fired := fired (cancel_timeout x s0) @ [x]\<rparr>"
  have e: "\<not> list_empty x (heap s0)" "\<not> list_empty y (list_del_init x (heap s0))"
    using list_empty_node [OF r0 U(1)] lx list_empty_node [OF r1 U(2)] ly by auto
  have iv: "h_interval (handles s0 x) = 0" "h_interval (handles s0 y) = 0" using one ys fr by (auto simp: wheel_frame_def)
  have b: "check_body run cur x (c0, s0) = (c0 + 1, run x ?t)"
    using due wheel_frame_due [OF fr] iv(1)
    by (auto simp: check_body_def due_def fire_def Let_def cancel_timeout_def upd_handle_def upd_heap_def)
  have "heap (run x ?t) = list_del_init y (list_del_init x (heap s0))" "h_interval (handles (run x ?t) y) = 0"
    unfolding truncate_eq [OF cb] using e iv(2) by (auto simp: cancel_timeout_def upd_handle_def upd_heap_def Let_def)
  then show ?thesis using b ny ne by auto
qed

lemma slot_scan_stuck:
  assumes a: "a \<in> H" and one: "\<forall>z\<in>set (st a). h_interval (handles s z) = 0" and due: "due cur s x"
    and cb: "\<And>t. timewheel.truncate (run x t) = timewheel.truncate (cancel_timeout y t)"
    and q: "\<forall>z. z \<noteq> x \<longrightarrow> quiet_at run z"
  shows "slot_inv H U st s cur cnt a (as @ x # y # bs) r \<Longrightarrow> x \<notin> set as \<Longrightarrow> x \<noteq> y \<Longrightarrow>
    n = hd (tl (as @ [x, y])) \<Longrightarrow> for_each_safe_from f nxt (heap \<circ> snd) (check_body run cur) a (hd (as @ [x])) n r = None"
proof (induction as arbitrary: r n f)
  case Nil
  obtain c0 s0 where r: "r = (c0, s0)" by (cases r)
  obtain s' where s': "check_body run cur x r = (c0 + 1, s')" "nxt (heap s') y = y" "h_interval (handles s' y) = 0" "y \<noteq> a" "x \<noteq> a"
    using cancel_next_unlinks [where st = st and s = s and a = a and run = run and x = x and y = y, OF a one due cb] Nil.prems(1) unfolding r by fastforce
  have "quiet_at run y" using q Nil.prems(3) by auto
  note stuck = cancelled_next_stuck [OF s'(4) this s'(2,3)]
  show ?case
  proof (cases f)
    case (Suc f')
    then show ?thesis using Nil.prems(4) s' stuck [unfolded comp_def] by (simp add: comp_def Let_def)
  qed simp
next
  case (Cons z as)
  have z: "quiet_at run z" using q Cons.prems(2) by auto
  obtain c0 s0 where r: "r = (c0, s0)" by (cases r)
  have I: "slot_inv H U st s cur cnt a (as @ x # y # bs) (check_body run cur z r)"
    unfolding r by (rule slot_inv_step [where st = st and s = s and a = a, OF z a one]) (use Cons.prems(1) r in simp)
  have zl: "z \<noteq> a" using slot_inv_chain [OF Cons.prems(1) a] by simp
  have "chain (nxt (heap (snd (check_body run cur z r)))) (as @ x # y # bs) a" by (rule slot_inv_chain [OF I a])
  then have nx: "nxt (heap (snd (check_body run cur z r))) (hd (as @ [x])) = hd (tl (as @ [x, y]))" by (rule chain_second)
  have n: "n = hd (as @ [x])" using Cons.prems(4) by (cases as) auto
  show ?case
  proof (cases f)
    case (Suc f')
    then show ?thesis using zl n nx Cons.IH [OF I _ Cons.prems(3) refl, of f'] Cons.prems(2) by (simp add: Let_def)
  qed simp
qed

lemma check_slot_stuck:
  assumes rel: "list_rel H U (heap s) st" and a: "slot_addr s p \<in> H"
    and one: "\<forall>z\<in>set (st (slot_addr s p)). h_interval (handles s z) = 0" and due: "due cur s x"
    and cb: "\<And>t. timewheel.truncate (run x t) = timewheel.truncate (cancel_timeout y t)"
    and q: "\<forall>z. z \<noteq> x \<longrightarrow> quiet_at run z" and sl: "st (slot_addr s p) = as @ x # y # bs"
  shows "check_slot f run cur p (cnt, s) = None"
proof -
  have l: "is_list (heap s) (slot_addr s p) (as @ x # y # bs)" using list_relD(1) [OF rel a] sl by simp
  then have d: "x \<notin> set as" "x \<noteq> y" by (auto simp: is_list_def)
  have h: "nxt (heap s) (slot_addr s p) = hd (as @ [x])" using is_list_next [OF l] by (cases as) auto
  have n: "nxt (heap s) (hd (as @ [x])) = hd (tl (as @ [x, y]))"
    using is_list_chain [of "heap s" "slot_addr s p" "[]" "as @ x # y # bs"] l by (intro chain_second) simp
  have "slot_inv H U st s cur cnt (slot_addr s p) (as @ x # y # bs) (cnt, s)" using rel sl by (auto simp: slot_inv_def)
  from slot_scan_stuck [where st = st and s = s and a = "slot_addr s p" and run = run and x = x and y = y, OF a one due cb q this d n] show ?thesis
    by (simp add: check_slot_def list_for_each_entry_safe_def h n Let_def)
qed

lemma check_slots_stuck:
  assumes m: "m = mask k" "k < 31"
    and cb: "\<And>t. timewheel.truncate (run x t) = timewheel.truncate (cancel_timeout y t)" and q: "\<forall>z. z \<noteq> x \<longrightarrow> quiet_at run z"
  shows "list_rel H U (heap s) st \<Longrightarrow> (\<forall>i<2 ^ k. slots s + i \<in> H) \<Longrightarrow>
    (\<forall>i<2 ^ k. \<forall>z\<in>set (st (slots s + i)). h_interval (handles s z) = 0) \<Longrightarrow> due cur s x \<Longrightarrow>
    unat p < 2 ^ k \<Longrightarrow> d < 2 ^ k \<Longrightarrow> unat e = (unat p + d) mod 2 ^ k \<Longrightarrow>
    i \<in> set (wheel_path (2 ^ k) (unat p) d) \<Longrightarrow> i < 2 ^ k \<Longrightarrow> st (slots s + i) = as @ x # y # bs \<Longrightarrow>
    check_slots n f run cur m e p (cnt, s) = None"
proof (induction n arbitrary: p d s st cnt)
  case (Suc n)
  let ?N = "2 ^ k :: nat" and ?a = "slot_addr s p"
  have a: "?a = slots s + unat p" by (simp add: slot_addr_def)
  have aH: "?a \<in> H" and one: "\<forall>z\<in>set (st ?a). h_interval (handles s z) = 0" using Suc.prems(2,3,5) a by auto
  show ?case
  proof (cases "i = unat p")
    case True
    then have "check_slot f run cur p (cnt, s) = None"
      using Suc.prems(10) by (intro check_slot_stuck [OF Suc.prems(1) aH one Suc.prems(4) cb q]) (simp add: a)
    then show ?thesis by simp
  next
    case False
    obtain d' where d: "d = Suc d'" using Suc.prems(5,8) False by (cases d) (auto simp: wheel_path_def)
    let ?p = "(p + 1) AND m"
    have "?N \<le> 2 ^ 30" using m(2) by (intro power_increasing) auto
    then have "unat (p + 1) = unat p + 1" using Suc.prems(5) by (subst unat_add_lem [THEN iffD1]) auto
    then have p': "unat ?p = (unat p + 1) mod ?N" by (simp add: m unat_and_mask)
    have ne: "p \<noteq> e" using mod_shift_ne [of "unat p" ?N d] Suc.prems(5-7) d by auto
    have ip: "i \<in> set (wheel_path ?N (unat ?p) d')"
      using Suc.prems(5,8) False unfolding d wheel_path_Suc p' by auto
    have "x \<notin> set (st ?a)" using list_relD(4) [OF Suc.prems(1), of ?a "slots s + i"] Suc.prems(2,9,10) aH False a by auto
    then have qa: "\<forall>z\<in>set (st ?a). quiet_at run z" using q by auto
    show ?thesis
    proof (cases "check_slot f run cur p (cnt, s)")
      case (Some r)
      have k: "length (st ?a) < max f (Suc (length (st ?a)))" by simp
      obtain s1 where s1: "check_slot (max f (Suc (length (st ?a)))) run cur p (cnt, s) = Some (cnt + int (length (filter (due cur s) (st ?a))), s1)"
        "list_rel H U (heap s1) (scanned cur s [?a] st)" "wheel_frame s s1"
        using check_slot_quiet [OF qa Suc.prems(1) aH one k, of cur cnt] by blast
      have "check_slot (max f (Suc (length (st ?a)))) run cur p (cnt, s) = Some r"
        using Some unfolding check_slot_def list_for_each_entry_safe_def Let_def by (rule for_each_safe_from_mono) simp
      then have r: "r = (cnt + int (length (filter (due cur s) (st ?a))), s1)" using s1(1) by simp
      have fr: "slots s1 = slots s" "\<And>z. h_interval (handles s1 z) = h_interval (handles s z)" and dd: "due cur s1 x"
        using s1(3) wheel_frame_due [OF s1(3), of cur x] Suc.prems(4) by (auto simp: wheel_frame_def)
      let ?st = "scanned cur s [?a] st"
      have sub: "set (?st l) \<subseteq> set (st l)" for l by (auto simp: scanned_def)
      have si: "?st (slots s1 + i) = as @ x # y # bs" using Suc.prems(10) False a by (simp add: scanned_def fr)
      have one1: "\<forall>i<2 ^ k. \<forall>z\<in>set (?st (slots s1 + i)). h_interval (handles s1 z) = 0"
        using Suc.prems(3) sub unfolding fr by blast
      have "check_slots n f run cur m e ?p (cnt + int (length (filter (due cur s) (st ?a))), s1) = None"
        by (rule Suc.IH [OF s1(2) _ one1 dd _ _ _ ip Suc.prems(9) si]) (use Suc.prems p' d in \<open>auto simp: fr mod_simps\<close>)
      then show ?thesis using Some ne r by simp
    qed simp
  qed
qed simp

text \<open>
  C7. Whenever the callback of a due timer cancels the timer queued right behind it in the same slot, and the other callbacks leave the
  wheel alone, a check of a wheel of one-shot timers runs forever: the saved successor has been unlinked from the list and
  points to itself, so the loop never meets the list head again. No fuel is enough for this
  call of \<open>check\<close>.
\<close>

theorem check_cancel_next_diverges:
  assumes ok: "wheel_ok k H U st s" and one: "\<forall>z\<in>armed k st s. h_interval (handles s z) = 0"
    and sl: "i < 2 ^ k" "slot_list st s i = as @ x # y # bs"
    and cur: "h_timeout (handles s x) \<le> cur" "prev_ms s < cur" "uint cur < 2 ^ 63"
    and cb: "\<And>t. timewheel.truncate (run x t) = timewheel.truncate (cancel_timeout y t)" "\<forall>z. z \<noteq> x \<longrightarrow> quiet_at run z"
  shows "check n f run cur s = None"
proof -
  note D = wheel_okD [OF ok]
  have "0 < int (length (slot_list st s i))" using sl(2) by simp
  also have "\<dots> \<le> (\<Sum>i<2 ^ k. int (length (slot_list st s i)))" using sl(1) by (intro member_le_sum) auto
  finally have tn: "\<not> sint (tw_task_num s) \<le> 0" using D(6) by linarith
  define p where "p = (ucast (tw_pos s) :: u32)"
  define e where "e = (if time_diff cur (prev_ms s) \<ge> sint (slot_num s) then (p + slot_num s - 1) AND slot_num_mask s
                 else ucast (cur AND ucast (slot_num_mask s)))"
  define d where "d = min (unat cur - unat (prev_ms s)) (2 ^ k - 1)"
  have x: "x \<in> set (slot_list st s i)" using sl(2) by simp
  have d: "d < 2 ^ k" "unat p < 2 ^ k" "unat e = (unat p + d) mod 2 ^ k" and ip: "i \<in> set (wheel_path (2 ^ k) (unat p) d)"
    using check_range [OF ok cur(2,3)] sl(1) x cur(1) unfolding p_def e_def d_def by auto
  have due: "due cur s x" using D(7) [OF sl(1) x] cur(1,3) by (simp add: due_def time_after_eq_iff)
  have k: "k < 31" using D(1) by (simp add: wheel_size_def)
  have sl': "st (slots s + i) = as @ x # y # bs" using sl(2) by (simp add: slot_list_def)
  have one': "\<forall>i<2 ^ k. \<forall>z\<in>set (st (slots s + i)). h_interval (handles s z) = 0" using one by (auto simp: armed_def slot_list_def)
  have "check_slots n f run cur (slot_num_mask s) e p (0, s) = None"
    by (rule check_slots_stuck [OF wheel_size_mask [OF D(1)] k cb D(2,3) one' due d(2,1,3) ip sl(1) sl'])
  moreover have "time_diff cur (prev_ms s) > 0"
    using time_diff_eq [OF cur(3) D(5)] cur(2) by (simp add: word_less_def)
  moreover have "(if cur = 0 then clock s else cur) = cur" using cur(2) by auto
  ultimately show ?thesis using tn by (simp add: check_def Let_def p_def [symmetric] e_def [symmetric])
qed

text \<open>Two handles in one slot, and a callback of the first that cancels the second.\<close>

definition ex_two :: timewheel where
  "ex_two = set_timeout 8 5 (set_timeout 7 5 ex_wheel)"

definition ex_cancel_next :: "addr \<Rightarrow> timewheel \<Rightarrow> timewheel" where
  "ex_cancel_next x s = (if x = 7 then cancel_timeout 8 s else s)"

theorem check_cancel_next_diverges_witness: "\<forall>n f. check n f ex_cancel_next 1005 ex_two = None"
proof -
  let ?s = "set_timeout 7 5 ex_wheel"
  let ?st = "st_add_tail 8 101 (st_del 8 (st_add_tail 7 101 (st_del 7 ex_lists))) :: lstore"
  have f: "slots ?s = 100" "clock ?s = 1000" "prev_ms ?s = 1000" "tw_task_num ?s = 1"
    by (simp_all add: set_timeout_def set_timeout_impl_def ex_wheel_eval upd_handle_def upd_heap_def Let_def)
  then have "expiry 5 ?s = 1005" "sint (tw_task_num ?s) < 2 ^ 31 - 1" by (simp_all add: expiry_def)
  then have ok: "wheel_ok 2 ex_heads ex_nodes ?st ex_two"
    unfolding ex_two_def set_timeout_def using set_timeout_wheel_ok [OF ex_wheel_armed_ok, of 8 5 0] f(1)
    by (simp add: slot_index_def set_timeout_def)
  have e: "slots ex_two = 100" "prev_ms ex_two = 1000" "h_interval (handles ex_two 7) = 0" "h_interval (handles ex_two 8) = 0"
    "h_timeout (handles ex_two 7) = 1005"
    by (simp_all add: ex_two_def set_timeout_def set_timeout_impl_def ex_wheel_eval upd_handle_def upd_heap_def Let_def)
  have sl: "slot_list ?st ex_two 1 = [] @ 7 # 8 # []" by (simp add: slot_list_def e st_add_tail_def st_del_def)
  have one: "\<forall>z\<in>armed 2 ?st ex_two. h_interval (handles ex_two z) = 0"
    by (auto simp: armed_def slot_list_def e st_add_tail_def st_del_def less_4 split: if_splits)
  have "check n f ex_cancel_next 1005 ex_two = None" for n f
    by (rule check_cancel_next_diverges [OF ok one _ sl]) (simp_all add: e ex_cancel_next_def quiet_at_def)
  then show ?thesis by blast
qed

text \<open>Handle 7 fired at 1005 and was re-armed with timeout 0, so it waits in the now list with its
  old expiry still in place; handle 8 is armed for 1010; then handle 7 is cancelled.\<close>

definition ex_stale :: timewheel where
  "ex_stale =
     (let s1 = (case check (Suc (Suc (Suc (Suc 0)))) (Suc (Suc 0)) (\<lambda>x s. s) 1005 (set_timeout 7 5 ex_wheel) of
                  Some (c, s) \<Rightarrow> s\<lparr>clock := 1005\<rparr> | None \<Rightarrow> ex_wheel)
      in cancel_timeout 7 (set_timeout 8 5 (set_timeout 7 0 s1)))"

lemmas tw_eval = set_timeout_def set_timeout_impl_def cancel_timeout_def upd_handle_def upd_heap_def
  slot_addr_def list_ops fire_def check_body_def

lemma ex_stale_eval:
  "tw_task_num ex_stale = 0" "h_timeout (handles ex_stale 8) = 1010"
  "list_empty 8 (heap ex_stale) = False" "slot_num_mask ex_stale = 3"
proof -
  let ?s = "set_timeout 7 5 ex_wheel"
  have s: "heap ?s = \<lparr>nxt = (\<lambda>a. a)(7 := 101, 101 := 7, 200 := 105, 105 := 200), prv = (\<lambda>a. a)(7 := 101, 101 := 7, 200 := 105, 105 := 200)\<rparr>"
    "handles ?s 7 = \<lparr>h_timeout = 1005, h_interval = 0, h_tw = True\<rparr>"
    "tw_task_num ?s = 1" "slots ?s = 100" "tw_pos ?s = 0" "prev_ms ?s = 1000" "slot_num ?s = 4" "slot_num_mask ?s = 3"
    by (simp_all add: ex_wheel_eval tw_eval fun_eq_iff)
  have empty: "check_slot (Suc (Suc 0)) (\<lambda>x s. s) 1005 p (c, t) = Some (c, t)" if "nxt (heap t) (slot_addr t p) = slot_addr t p" for p c and t :: timewheel
    using that by (simp add: check_slot_def list_for_each_entry_safe_def)
  define s1 where "s1 = fire (\<lambda>x s. s) 7 (cancel_timeout 7 ?s)"
  have e1: "heap s1 = \<lparr>nxt = (\<lambda>a. a)(200 := 105, 105 := 200), prv = (\<lambda>a. a)(200 := 105, 105 := 200)\<rparr>"
    "h_timeout (handles s1 7) = 1005" "tw_task_num s1 = 0" "slots s1 = 100" "now_list s1 = 104"
    "delay_task s1 = 200" "d_delay_tasks s1 = 105" "slot_num_mask s1 = 3"
    by (simp_all add: s1_def fire_def cancel_timeout_def upd_handle_def upd_heap_def list_ops s fun_eq_iff)
      (simp_all add: tw_eval ex_wheel_eval)
  have "h_interval (handles (cancel_timeout 7 ?s) 7) = 0"
    by (simp add: cancel_timeout_def upd_handle_def upd_heap_def Let_def s)
  then have b: "check_body (\<lambda>x s. s) 1005 7 (0, ?s) = (1, s1)"
    by (simp add: check_body_def s time_after_eq_def Let_def s1_def)
  have slot1: "check_slot (Suc (Suc 0)) (\<lambda>x s. s) 1005 1 (0, ?s) = Some (1, s1)"
    by (simp add: check_slot_def list_for_each_entry_safe_def slot_addr_def s b e1 Let_def)
  have cs: "check_slots (Suc (Suc (Suc (Suc 0)))) (Suc (Suc 0)) (\<lambda>x s. s) 1005 3 3 0 (0, ?s) = Some (1, s1)"
    using slot1 by (simp add: empty slot_addr_def s e1)
  have "check (Suc (Suc (Suc (Suc 0)))) (Suc (Suc 0)) (\<lambda>x s. s) 1005 ?s = Some (1, s1\<lparr>tw_pos := 1, prev_ms := 1005\<rparr>)"
    using cs by (simp add: check_def s time_diff_def del: check_slots.simps)
  moreover define s2 where "s2 = set_timeout 7 0 (s1\<lparr>tw_pos := 1, prev_ms := 1005, clock := 1005\<rparr>)"
  ultimately have st: "ex_stale = cancel_timeout 7 (set_timeout 8 5 s2)"
    by (simp add: ex_stale_def)
  have e2: "heap s2 = \<lparr>nxt = (\<lambda>a. a)(7 := 104, 104 := 7, 200 := 105, 105 := 200),
      prv = (\<lambda>a. a)(7 := 104, 104 := 7, 200 := 105, 105 := 200)\<rparr>"
    "h_timeout (handles s2 7) = 1005" "h_tw (handles s2 7)" "tw_task_num s2 = 0" "slots s2 = 100"
    "clock s2 = 1005" "prev_ms s2 = 1005" "slot_num_mask s2 = 3"
    by (simp_all add: s2_def set_timeout_def set_timeout_impl_def delay_def upd_handle_def upd_heap_def
        list_ops e1 fun_eq_iff)
  define s3 where "s3 = set_timeout 8 5 s2"
  have e3: "nxt (heap s3) 7 = 104" "prv (heap s3) 7 = 104" "nxt (heap s3) 8 = 102" "prv (heap s3) 8 = 102"
    "h_timeout (handles s3 7) = 1005" "h_timeout (handles s3 8) = 1010"
    "h_tw (handles s3 7)" "tw_task_num s3 = 1" "slot_num_mask s3 = 3"
    by (simp_all add: s3_def set_timeout_def set_timeout_impl_def slot_addr_def upd_handle_def upd_heap_def
        list_ops e2)
  show "tw_task_num ex_stale = 0" "h_timeout (handles ex_stale 8) = 1010"
    "list_empty 8 (heap ex_stale) = False" "slot_num_mask ex_stale = 3"
    by (simp_all add: st s3_def [symmetric] cancel_timeout_def upd_handle_def upd_heap_def list_ops e3)
qed

text \<open>
  \<open>cancel_timeout\<close> tells a handle in the wheel from one in the now list by its expiry field,
  which \<open>set_timeout(obj, 0)\<close> does not reset. After cancelling a handle that had fired once and
  was then re-armed with timeout 0, the wheel counts no task although handle 8 is linked in
  it, and the check at its expiry fires nothing.
\<close>

lemma stale_expiry_loses_timer:
  "check n f run 1010 ex_stale = Some (0, ex_stale\<lparr>tw_pos := 2, prev_ms := 1010\<rparr>) \<and>
   h_timeout (handles ex_stale 8) = 1010 \<and> \<not> list_empty 8 (heap ex_stale)"
  by (simp add: check_def ex_stale_eval)

end
