(* ===== verification/CoTimer.thy ===== *)
theory CoTimer
  imports Timewheel
begin

text \<open>
  The timers that run a function in a coroutine of their own, \<open>TimeoutMgr\<close> and
  \<open>TimeoutHandle\<close> of \<open>core/src/coroutine.cpp\<close>, on top of the time wheel. A
  \<open>TimeoutHandle\<close> is known by its address, which is that of its first member, the handle
  \<open>m_tm\<close> of the wheel. The table of the manager, the live objects and the state of the user's
  functions extend the state of the wheel; \<open>m_fn\<close> with \<open>m_arg\<close> is a number that the
  argument \<open>usr\<close> interprets. The coroutine \<open>m_co\<close> is resumed either before its first
  instruction or at its only \<open>yield\<close>: both are followed by the test of the loop in
  \<open>proc\<close>. The user's functions run to completion, and leave timers alone. An access to an
  object after its destruction is recorded in \<open>stale_uses\<close>.
\<close>

subsection \<open>State\<close>

record timeout_handle =
  m_code :: nat
  m_ms :: u64
  m_hid :: u64
  m_exit_flag :: bool
  m_inter :: int

record 'u timers =
  m_tm :: "u64 \<rightharpoonup> addr"
  m_id :: u64
  objects :: "addr \<rightharpoonup> timeout_handle"
  user :: 'u
  stale_uses :: "addr list"

type_synonym 'u timer_env = "'u timers timewheel_scheme"

datatype timer_error = Out_of_range

subsection \<open>The table of timers\<close>

definition TimeoutMgr_init :: "'u timers \<Rightarrow> 'u timers" where
  "TimeoutMgr_init e = e\<lparr>m_tm := Map.empty, m_id := 0\<rparr>"

text \<open>\<open>std::map::insert\<close> leaves an existing entry alone.\<close>

definition TimeoutMgr_add :: "addr \<Rightarrow> 'u timers \<Rightarrow> u64 \<times> 'u timers" where
  "TimeoutMgr_add x e =
     (let i = m_id e + 1
      in (i, e\<lparr>m_id := i, m_tm := (if m_tm e i = None then (m_tm e)(i \<mapsto> x) else m_tm e)\<rparr>))"

definition TimeoutMgr_free :: "u64 \<Rightarrow> 'u timers \<Rightarrow> 'u timers" where
  "TimeoutMgr_free i e = e\<lparr>m_tm := (m_tm e)(i := None)\<rparr>"

definition TimeoutMgr_get :: "u64 \<Rightarrow> 'u timers \<Rightarrow> timer_error + addr" where
  "TimeoutMgr_get i e = (case m_tm e i of None \<Rightarrow> Inl Out_of_range | Some x \<Rightarrow> Inr x)"

subsection \<open>The object and its coroutine\<close>

definition delete_TimeoutHandle :: "addr \<Rightarrow> timeout_handle \<Rightarrow> 'u timers \<Rightarrow> 'u timers" where
  "delete_TimeoutHandle x t e = (TimeoutMgr_free (m_hid t) e)\<lparr>objects := (objects e)(x := None)\<rparr>"

text \<open>\<open>proc\<close>, from the test of its loop to the \<open>yield\<close> or the end.\<close>

definition TimeoutHandle_proc :: "(nat \<Rightarrow> 'u \<Rightarrow> 'u) \<Rightarrow> addr \<Rightarrow> timeout_handle \<Rightarrow> 'u timers \<Rightarrow> 'u timers" where
  "TimeoutHandle_proc usr x t e =
     (if \<not> m_exit_flag t
      then let e1 = e\<lparr>user := usr (m_code t) (user e)\<rparr>
           in if m_inter t = 0 then delete_TimeoutHandle x t e1 else e1
      else delete_TimeoutHandle x t e)"

definition resume_timer :: "(nat \<Rightarrow> 'u \<Rightarrow> 'u) \<Rightarrow> addr \<Rightarrow> 'u timers \<Rightarrow> 'u timers" where
  "resume_timer usr x e =
     (case objects e x of
        None \<Rightarrow> e\<lparr>stale_uses := stale_uses e @ [x]\<rparr>
      | Some t \<Rightarrow> TimeoutHandle_proc usr x t e)"

definition upd_timers :: "('u timers \<Rightarrow> 'u timers) \<Rightarrow> 'u timer_env \<Rightarrow> 'u timer_env" where
  "upd_timers f s = timewheel.more_update f s"

definition timeout_cb :: "(nat \<Rightarrow> 'u \<Rightarrow> 'u) \<Rightarrow> 'u timers timer_code" where
  "timeout_cb usr x s = upd_timers (resume_timer usr x) s"

text \<open>The constructor stores 0 in \<open>m_inter\<close>, whatever its argument \<open>inter\<close> (here \<open>repeat\<close>) is.\<close>

definition TimeoutHandle_new ::
  "addr \<Rightarrow> nat \<Rightarrow> u64 \<Rightarrow> bool \<Rightarrow> 'u timer_env \<Rightarrow> u64 \<times> 'u timer_env" where
  "TimeoutHandle_new x code ms repeat s =
     (let s1 = init_timeout_handle x s;
          s2 = (if repeat then set_interval x (ucast ms) s1 else set_timeout x (ucast ms) s1);
          (i, e) = TimeoutMgr_add x (timewheel.more s2);
          t = \<lparr>m_code = code, m_ms = ms, m_hid = i, m_exit_flag = False, m_inter = 0\<rparr>
      in (i, upd_timers (\<lambda>_. e\<lparr>objects := (objects e)(x \<mapsto> t)\<rparr>) s2))"

definition co_set_timeout :: "addr \<Rightarrow> nat \<Rightarrow> u32 \<Rightarrow> 'u timer_env \<Rightarrow> u64 \<times> 'u timer_env" where
  "co_set_timeout x code ms s = TimeoutHandle_new x code (scast ms) False s"

definition co_set_interval :: "addr \<Rightarrow> nat \<Rightarrow> u32 \<Rightarrow> 'u timer_env \<Rightarrow> u64 \<times> 'u timer_env" where
  "co_set_interval x code ms s = TimeoutHandle_new x code (scast ms) True s"

definition set_exit_flag :: "addr \<Rightarrow> 'u timers \<Rightarrow> 'u timers" where
  "set_exit_flag x e = e\<lparr>objects := (objects e)(x := map_option (\<lambda>t. t\<lparr>m_exit_flag := True\<rparr>) (objects e x))\<rparr>"

definition co_cancel_timeout :: "(nat \<Rightarrow> 'u \<Rightarrow> 'u) \<Rightarrow> u64 \<Rightarrow> 'u timer_env \<Rightarrow> timer_error + 'u timer_env" where
  "co_cancel_timeout usr i s =
     (case TimeoutMgr_get i (timewheel.more s) of
        Inl err \<Rightarrow> Inl err
      | Inr x \<Rightarrow> Inr (if x \<noteq> 0 then upd_timers (resume_timer usr x \<circ> set_exit_flag x) s else s))"

definition co_cancel_interval :: "(nat \<Rightarrow> 'u \<Rightarrow> 'u) \<Rightarrow> u64 \<Rightarrow> 'u timer_env \<Rightarrow> timer_error + 'u timer_env" where
  "co_cancel_interval usr i s = co_cancel_timeout usr i s"

subsection \<open>Callbacks that act on an extension of the wheel\<close>

lemma upd_timers_more [simp]: "timewheel.more (upd_timers f s) = f (timewheel.more s)"
  by (cases s) (simp add: upd_timers_def)

lemma upd_timers_wheel [simp]:
  "timewheel.truncate (upd_timers f s) = timewheel.truncate s" "heap (upd_timers f s) = heap s"
  "handles (upd_timers f s) = handles s" "slots (upd_timers f s) = slots s" "prev_ms (upd_timers f s) = prev_ms s"
  "fired (upd_timers f s) = fired s" "tw_task_num (upd_timers f s) = tw_task_num s"
  "slot_num (upd_timers f s) = slot_num s" "slot_num_mask (upd_timers f s) = slot_num_mask s"
  "tw_pos (upd_timers f s) = tw_pos s" "clock (upd_timers f s) = clock s"
  by (cases s; simp add: upd_timers_def timewheel.truncate_def)+

lemma timeout_cb_quiet: "quiet (timeout_cb usr)"
  by (simp add: quiet_def quiet_at_def timeout_cb_def)

lemma timers_scheme_ok [simp]:
  "wheel_ok k H U st (upd_timers f s) = wheel_ok k H U st s"
  "armed k st (upd_timers f s) = armed k st s"
  by (simp_all add: wheel_ok_def wheel_size_def armed_def slot_list_def)

text \<open>What the callbacks did is what they do in the order of the firings.\<close>

definition logged :: "(addr \<Rightarrow> 'e \<Rightarrow> 'e) \<Rightarrow> 'e timewheel_scheme \<Rightarrow> 'e timewheel_scheme \<Rightarrow> bool" where
  "logged f s0 s \<longleftrightarrow> (\<exists>zs. fired s = fired s0 @ zs \<and> timewheel.more s = fold f zs (timewheel.more s0))"

lemma for_each_safe_from_keeps:
  assumes "\<And>x s. P s \<Longrightarrow> P (body x s)"
  shows "for_each_safe_from n lk hp body head p q s = Some s' \<Longrightarrow> P s \<Longrightarrow> P s'"
  by (induction n arbitrary: p q s) (auto simp: Let_def assms split: if_splits)

lemma set_timeout_impl_log:
  "fired (set_timeout_impl x t iv s) = fired s" "timewheel.more (set_timeout_impl x t iv s) = timewheel.more s"
  "fired (cancel_timeout x s) = fired s" "timewheel.more (cancel_timeout x s) = timewheel.more s"
  by (cases s; auto simp: set_timeout_impl_def cancel_timeout_def upd_handle_def upd_heap_def delay_def Let_def)+

lemma fire_logged:
  assumes run: "\<And>x s. fired (run x s) = fired s" "\<And>x s. timewheel.more (run x s) = f x (timewheel.more s)"
    and "logged f s0 s"
  shows "logged f s0 (fire run x s)"
proof -
  obtain zs where "fired s = fired s0 @ zs" "timewheel.more s = fold f zs (timewheel.more s0)"
    using assms(3) by (auto simp: logged_def)
  then show ?thesis
    by (cases s) (auto simp: logged_def fire_def run intro!: exI [of _ "zs @ [x]"])
qed

lemma check_body_logged:
  assumes run: "\<And>x s. fired (run x s) = fired s" "\<And>x s. timewheel.more (run x s) = f x (timewheel.more s)"
    and L: "logged f s0 (snd q)"
  shows "logged f s0 (snd (check_body run cur x q))"
proof -
  obtain c s where q: "q = (c, s)" by (cases q)
  have "logged f s0 s'" if "fired s' = fired s" "timewheel.more s' = timewheel.more s" for s'
    using L that by (simp add: logged_def q)
  then show ?thesis using L
    by (auto simp: check_body_def q Let_def set_timeout_impl_log intro!: fire_logged [OF run])
qed

lemma check_logged:
  assumes run: "\<And>x s. fired (run x s) = fired s" "\<And>x s. timewheel.more (run x s) = f x (timewheel.more s)"
    and res: "check n k run cur s = Some (c, s')"
  shows "logged f s s'"
proof -
  have slot: "check_slot k run cur p q = Some q' \<Longrightarrow> logged f s (snd q) \<Longrightarrow> logged f s (snd q')" for cur p q q'
    unfolding check_slot_def list_for_each_entry_safe_def Let_def
    by (erule for_each_safe_from_keeps [where P = "\<lambda>q. logged f s (snd q)", rotated], assumption)
       (rule check_body_logged [OF run])
  have slots: "check_slots n k run cur m e p q = Some q' \<Longrightarrow> logged f s (snd q) \<Longrightarrow> logged f s (snd q')" for cur m e p q q'
    by (induction n arbitrary: p q) (auto split: option.splits if_splits dest: slot)
  have fin: "logged f s (s'\<lparr>tw_pos := a, prev_ms := b\<rparr>) = logged f s s'" for s' a b
    by (cases s') (simp add: logged_def)
  have refl: "logged f s s" by (auto simp: logged_def intro: exI [of _ "[]"])
  show ?thesis using res refl
    by (auto simp: check_def Let_def fin split: if_splits option.splits prod.splits dest!: slots)
qed

subsection \<open>One-shot timers\<close>

definition one_shot :: "'u timers \<Rightarrow> addr \<Rightarrow> bool" where
  "one_shot e x \<longleftrightarrow> (\<exists>t. objects e x = Some t \<and> \<not> m_exit_flag t \<and> m_inter t = 0)"

text \<open>The table holds exactly the live objects, each under its own number.\<close>

definition ids_ok :: "'u timers \<Rightarrow> bool" where
  "ids_ok e \<longleftrightarrow> (\<forall>i x. m_tm e i = Some x \<longleftrightarrow> (\<exists>t. objects e x = Some t \<and> m_hid t = i))"

definition code_of :: "'u timers \<Rightarrow> addr \<Rightarrow> nat" where
  "code_of e x = m_code (the (objects e x))"

definition id_of :: "'u timers \<Rightarrow> addr \<Rightarrow> u64" where
  "id_of e x = m_hid (the (objects e x))"

definition run_timers :: "(nat \<Rightarrow> 'u \<Rightarrow> 'u) \<Rightarrow> addr list \<Rightarrow> 'u timers \<Rightarrow> 'u timers" where
  "run_timers usr fs e = e\<lparr>m_tm := m_tm e |` (- id_of e ` set fs), objects := objects e |` (- set fs),
     user := fold usr (map (code_of e) fs) (user e)\<rparr>"

lemma resume_one_shot:
  assumes "one_shot e x"
  shows "resume_timer usr x e = run_timers usr [x] e"
  using assms
  by (auto simp: one_shot_def resume_timer_def TimeoutHandle_proc_def delete_TimeoutHandle_def
      TimeoutMgr_free_def run_timers_def code_of_def id_of_def restrict_map_def fun_eq_iff Let_def)

lemma run_timers_other:
  assumes "y \<noteq> x"
  shows "objects (run_timers usr [x] e) y = objects e y"
  using assms by (simp add: run_timers_def restrict_map_def)

lemma run_timers_Cons:
  assumes "x \<notin> set fs"
  shows "run_timers usr fs (run_timers usr [x] e) = run_timers usr (x # fs) e"
proof -
  let ?e = "run_timers usr [x] e"
  have same: "code_of ?e y = code_of e y" "id_of ?e y = id_of e y" if "y \<in> set fs" for y
    using that assms run_timers_other [of y x usr e] unfolding code_of_def id_of_def by metis+
  have "map (code_of ?e) fs = map (code_of e) fs" "id_of ?e ` set fs = id_of e ` set fs"
    using same by (auto intro!: image_cong)
  then have "run_timers usr fs ?e = ?e\<lparr>m_tm := m_tm ?e |` (- id_of e ` set fs), objects := objects ?e |` (- set fs),
      user := fold usr (map (code_of e) fs) (user ?e)\<rparr>"
    by (simp only: run_timers_def [of usr fs ?e])
  then show ?thesis by (cases e) (auto simp: run_timers_def restrict_map_def fun_eq_iff)
qed

lemma fold_resume:
  "distinct fs \<Longrightarrow> \<forall>x\<in>set fs. one_shot e x \<Longrightarrow> fold (resume_timer usr) fs e = run_timers usr fs e"
proof (induction fs arbitrary: e)
  case Nil
  then show ?case by (cases e) (simp add: run_timers_def restrict_map_def)
next
  case (Cons x fs)
  have "one_shot (run_timers usr [x] e) y" if "y \<in> set fs" for y
    using Cons.prems that run_timers_other [of y x usr e] unfolding one_shot_def by (metis distinct.simps(2) list.set_intros(2))
  then have "fold (resume_timer usr) fs (run_timers usr [x] e) = run_timers usr fs (run_timers usr [x] e)"
    using Cons.prems by (intro Cons.IH) auto
  then show ?case using Cons.prems by (simp add: resume_one_shot run_timers_Cons)
qed

lemma run_timers_ids_ok:
  assumes "ids_ok e" and "\<forall>x\<in>set fs. one_shot e x"
  shows "ids_ok (run_timers usr fs e)"
proof -
  have "(m_tm e |` (- id_of e ` set fs)) i = Some x \<longleftrightarrow> (\<exists>t. (objects e |` (- set fs)) x = Some t \<and> m_hid t = i)" for i x
  proof -
    have "i \<in> id_of e ` set fs \<longleftrightarrow> x \<in> set fs" if "objects e x = Some t" "m_hid t = i" for t
    proof
      assume "i \<in> id_of e ` set fs"
      then obtain y u where y: "y \<in> set fs" "objects e y = Some u" "m_hid u = i"
        using assms(2) by (auto simp: one_shot_def id_of_def)
      with that assms(1) have "m_tm e i = Some x" "m_tm e i = Some y" by (auto simp: ids_ok_def)
      with y show "x \<in> set fs" by simp
    next
      assume "x \<in> set fs"
      then show "i \<in> id_of e ` set fs" using that by (auto simp: id_of_def intro!: rev_image_eqI [of x])
    qed
    then show ?thesis using assms(1) by (auto simp: ids_ok_def restrict_map_def)
  qed
  then show ?thesis by (simp add: ids_ok_def run_timers_def)
qed

lemma timeout_cb_log:
  "fired (timeout_cb usr x s) = fired s" "timewheel.more (timeout_cb usr x s) = resume_timer usr x (timewheel.more s)"
  by (simp_all add: timeout_cb_def)

lemma check_timers:
  assumes ok: "wheel_ok k H U st s"
    and one: "\<forall>x\<in>armed k st s. h_interval (handles s x) = 0"
    and cur: "prev_ms s < cur" "uint cur < 2 ^ 63"
    and fuel: "2 ^ k \<le> n" "\<forall>i<2 ^ k. length (slot_list st s i) < f"
  shows "\<exists>fs st' s'. check n f (timeout_cb usr) cur s = Some (int (length fs), s') \<and> distinct fs \<and>
    set fs = {x \<in> armed k st s. h_timeout (handles s x) \<le> cur} \<and>
    fired s' = fired s @ fs \<and> fs = firing_order k st s cur \<and>
    wheel_ok k H U st' s' \<and> armed k st' s' = armed k st s - set fs \<and>
    timewheel.more s' = fold (resume_timer usr) fs (timewheel.more s)"
proof -
  obtain fs st' s' where R: "check n f (timeout_cb usr) cur s = Some (int (length fs), s')" "fired s' = fired s @ fs"
    "distinct fs" "set fs = {x \<in> armed k st s. h_timeout (handles s x) \<le> cur}"
    "wheel_ok k H U st' s'" "armed k st' s' = armed k st s - set fs"
    "fs = firing_order k st s cur"
    using check_quiet [OF ok timeout_cb_quiet one cur fuel] by blast
  have "logged (resume_timer usr) s s'" using timeout_cb_log R(1) by (rule check_logged)
  then have "timewheel.more s' = fold (resume_timer usr) fs (timewheel.more s)" using R(2) by (auto simp: logged_def)
  with R show ?thesis by blast
qed

lemma resume_keeps_deleted:
  "objects e x = None \<Longrightarrow> objects (resume_timer usr y e) x = None"
  by (auto simp: resume_timer_def TimeoutHandle_proc_def delete_TimeoutHandle_def TimeoutMgr_free_def Let_def
      split: option.splits)

lemma resume_keeps_stale: "set (stale_uses e) \<subseteq> set (stale_uses (resume_timer usr y e))"
  by (auto simp: resume_timer_def TimeoutHandle_proc_def delete_TimeoutHandle_def TimeoutMgr_free_def Let_def
      split: option.splits)

lemma fold_resume_stale:
  "objects e x = None \<Longrightarrow> x \<in> set fs \<or> x \<in> set (stale_uses e) \<Longrightarrow>
   x \<in> set (stale_uses (fold (resume_timer usr) fs e))"
proof (induction fs arbitrary: e)
  case (Cons y fs)
  have "x \<in> set fs \<or> x \<in> set (stale_uses (resume_timer usr y e))"
    using Cons.prems resume_keeps_stale [of e usr y] by (auto simp: resume_timer_def)
  then show ?case using Cons.IH [OF resume_keeps_deleted [OF Cons.prems(1)]] by simp
qed simp

lemma cancel_deletes:
  assumes "m_tm (timewheel.more s) i = Some x" and "objects (timewheel.more s) x = Some t" and "x \<noteq> 0"
  shows "co_cancel_timeout usr i s = Inr (upd_timers (delete_TimeoutHandle x t) s)"
  using assms
  by (cases s) (auto simp: co_cancel_timeout_def TimeoutMgr_get_def upd_timers_def resume_timer_def set_exit_flag_def
      TimeoutHandle_proc_def delete_TimeoutHandle_def TimeoutMgr_free_def)

lemma init_handle_wheel_ok:
  assumes ok: "wheel_ok k H U st s" and x: "x \<in> U" and nl: "\<not> linked H st x"
  shows "wheel_ok k H U st (init_timeout_handle x s)" and "armed k st (init_timeout_handle x s) = armed k st s"
proof -
  note D = wheel_okD [OF ok]
  have "INIT_LIST_HEAD x (heap s) = heap s"
    using list_relD(5) [OF D(2) x nl] by (cases "heap s") (auto simp: INIT_LIST_HEAD_def set_prev_def set_next_def is_list_def fun_upd_idem)
  moreover have "x \<notin> set (slot_list st s i)" if "i < 2 ^ k" for i
    using nl D(3) that by (auto simp: linked_def slot_list_def)
  ultimately show "wheel_ok k H U st (init_timeout_handle x s)"
    using D ok by (auto simp: init_timeout_handle_def upd_handle_def upd_heap_def wheel_ok_def wheel_size_def slot_list_def)
  show "armed k st (init_timeout_handle x s) = armed k st s"
    by (simp add: init_timeout_handle_def upd_handle_def upd_heap_def armed_def slot_list_def)
qed

lemma set_impl_frame:
  "timewheel.more (init_timeout_handle x s) = timewheel.more s" "slots (init_timeout_handle x s) = slots s"
  "clock (init_timeout_handle x s) = clock s" "prev_ms (init_timeout_handle x s) = prev_ms s"
  "tw_task_num (init_timeout_handle x s) = tw_task_num s"
  "y \<noteq> x \<Longrightarrow> handles (init_timeout_handle x s) y = handles s y"
  by (cases s; simp add: init_timeout_handle_def upd_handle_def upd_heap_def)+

text \<open>A new timer, one-shot or not: armed, in the table under a new number, and the rest as before.\<close>

lemma TimeoutHandle_new_ok:
  fixes ms :: u32
  assumes ok: "wheel_ok k H U st s" and x: "x \<in> U" "\<not> linked H st x"
    and ms: "0 < sint ms" "uint (expiry ms s) < 2 ^ 63" "sint (tw_task_num s) < 2 ^ 31 - 1"
    and new: "TimeoutHandle_new x code (scast ms) repeat s = (i, s')"
    and tab: "ids_ok (timewheel.more s)" "objects (timewheel.more s) x = None" "m_tm (timewheel.more s) i = None"
  defines "st' \<equiv> st_add_tail x (slots s + slot_index k (expiry ms s)) (st_del x st)"
  shows "wheel_ok k H U st' s'" and "armed k st' s' = insert x (armed k st s)"
    and "h_timeout (handles s' x) = expiry ms s" and "h_interval (handles s' x) = (if repeat then ms else 0)"
    and "y \<noteq> x \<Longrightarrow> handles s' y = handles s y" and "prev_ms s' = prev_ms s" and "slots s' = slots s"
    and "sint (tw_task_num s') = sint (tw_task_num s) + 1"
    and "timewheel.more s' = (timewheel.more s)\<lparr>m_id := i, m_tm := (m_tm (timewheel.more s))(i \<mapsto> x),
      objects := (objects (timewheel.more s))(x \<mapsto>
        \<lparr>m_code = code, m_ms = scast ms, m_hid = i, m_exit_flag = False, m_inter = 0\<rparr>)\<rparr>"
    and "ids_ok (timewheel.more s')"
proof -
  define iv where "iv = (if repeat then ms else 0)"
  let ?s = "init_timeout_handle x s"
  let ?w = "set_timeout_impl x ms iv ?s"
  let ?e = "timewheel.more s"
  have tm: "\<not> (sint ms \<le> 0 \<and> iv = 0)" using ms by simp
  have i: "i = m_id ?e + 1" and s': "timewheel.truncate s' = timewheel.truncate ?w"
    and more: "timewheel.more s' = ?e\<lparr>m_id := i, m_tm := (m_tm ?e)(i \<mapsto> x), objects := (objects ?e)(x \<mapsto>
        \<lparr>m_code = code, m_ms = scast ms, m_hid = i, m_exit_flag = False, m_inter = 0\<rparr>)\<rparr>"
    using new tab(3) by (auto simp: TimeoutHandle_new_def TimeoutMgr_add_def set_interval_def set_timeout_def iv_def
        set_timeout_impl_log set_impl_frame Let_def split: if_splits)
  have f: "heap s' = heap ?w" "handles s' = handles ?w" "slots s' = slots ?w" "prev_ms s' = prev_ms ?w"
    "tw_task_num s' = tw_task_num ?w" "slot_num s' = slot_num ?w" "slot_num_mask s' = slot_num_mask ?w" "tw_pos s' = tw_pos ?w"
    using s' by (simp_all add: timewheel.truncate_def)
  have ex: "expiry ms ?s = expiry ms s" by (simp add: expiry_def set_impl_frame)
  note E = set_timeout_wheel_eq [OF tm, where x = x and s = ?s]
  have "wheel_ok k H U st' ?w"
    using set_timeout_wheel_ok [OF init_handle_wheel_ok(1) [OF ok x] x(1) tm, unfolded ex set_impl_frame(5), OF ms(2,3)]
    by (simp add: st'_def set_impl_frame)
  then show "wheel_ok k H U st' s'" by (simp add: wheel_ok_def wheel_size_def slot_list_def f)
  have "slot_index k (expiry ms s) < 2 ^ k" by (simp add: slot_index_def)
  then have "armed k st' s' = insert x (armed k (st_del x st) s)"
    by (auto simp: armed_def slot_list_def st'_def f E(6) set_impl_frame st_add_tail_def split: if_splits)
  then show "armed k st' s' = insert x (armed k st s)" using armed_del [OF ok] by auto
  show "h_timeout (handles s' x) = expiry ms s" by (simp add: f E(2) expiry_def set_impl_frame)
  show "h_interval (handles s' x) = (if repeat then ms else 0)" by (simp add: f E(4)) (simp add: iv_def)
  show "y \<noteq> x \<Longrightarrow> handles s' y = handles s y" by (simp add: f E(3) set_impl_frame)
  show "prev_ms s' = prev_ms s" "slots s' = slots s" by (simp_all add: f E set_impl_frame)
  show "sint (tw_task_num s') = sint (tw_task_num s) + 1" by (simp add: f E(5) set_impl_frame sint_succ [OF ms(3)])
  show "timewheel.more s' = ?e\<lparr>m_id := i, m_tm := (m_tm ?e)(i \<mapsto> x), objects := (objects ?e)(x \<mapsto>
        \<lparr>m_code = code, m_ms = scast ms, m_hid = i, m_exit_flag = False, m_inter = 0\<rparr>)\<rparr>" by (rule more)
  show "ids_ok (timewheel.more s')" using tab by (auto simp: more ids_ok_def) (metis option.distinct(1))
qed

lemma fire_timer [simp]:
  "timewheel.more (fire (timeout_cb usr) x s) = resume_timer usr x (timewheel.more s)"
  "wheel_ok k H U st (fire (timeout_cb usr) x s) = wheel_ok k H U st s"
  "armed k st (fire (timeout_cb usr) x s) = armed k st s"
  "handles (fire (timeout_cb usr) x s) = handles s"
  by (cases s; simp add: fire_def timeout_cb_def wheel_ok_def wheel_size_def armed_def slot_list_def)+

text \<open>An armed handle with an interval is armed again before its callback runs.\<close>

lemma cancel_task_num:
  assumes ok: "wheel_ok k H U st s" and x: "x \<in> armed k st s"
  shows "sint (tw_task_num (cancel_timeout x s)) \<le> sint (tw_task_num s)"
proof -
  obtain i where i: "i < 2 ^ k" "x \<in> set (slot_list st s i)" using x by (auto simp: armed_def)
  then have "0 < int (length (slot_list st s i))" by (cases "slot_list st s i") auto
  also have "\<dots> \<le> (\<Sum>i<2 ^ k. int (length (slot_list st s i)))" using i(1) by (intro member_le_sum) auto
  finally have "0 < sint (tw_task_num s)" using wheel_okD(6) [OF ok] by linarith
  then have "sint (tw_task_num s - 1) = sint (tw_task_num s) - 1"
    using sint_lt [of "tw_task_num s"] by (simp add: sint_word_diff signed_take_bit_int_eq_self)
  then show ?thesis by (auto simp: cancel_timeout_def upd_handle_def upd_heap_def Let_def)
qed

lemma check_body_rearms:
  assumes ok: "wheel_ok k H U st s" and x: "x \<in> U" "x \<in> armed k st s"
    and due: "h_timeout (handles s x) \<le> cur" "uint cur < 2 ^ 63"
    and iv: "h_interval (handles s x) = iv" "iv \<noteq> 0" "uint (expiry iv s) < 2 ^ 63"
    and room: "sint (tw_task_num s) < 2 ^ 31 - 1"
  shows "\<exists>st' s'. check_body (timeout_cb usr) cur x (c, s) = (c + 1, s') \<and> wheel_ok k H U st' s' \<and>
    x \<in> armed k st' s' \<and> timewheel.more s' = resume_timer usr x (timewheel.more s) \<and>
    h_timeout (handles s' x) = expiry iv s"
proof -
  let ?c = "cancel_timeout x s"
  let ?w = "set_timeout_impl x iv iv ?c"
  have tm: "\<not> (sint iv \<le> 0 \<and> iv = 0)" using iv by simp
  note E = set_timeout_wheel_eq [OF tm, where x = x and s = ?c]
  have c: "slots ?c = slots s" "clock ?c = clock s" "prev_ms ?c = prev_ms s" "h_interval (handles ?c x) = iv"
    using iv(1) by (auto simp: cancel_timeout_def upd_handle_def upd_heap_def Let_def)
  have ex: "expiry iv ?c = expiry iv s" by (simp add: expiry_def c)
  define st' where "st' = st_add_tail x (slots ?c + slot_index k (expiry iv ?c)) (st_del x (st_del x st))"
  have "wheel_ok k H U (st_del x st) ?c" using cancel_timeout_wheel_ok [OF ok x(1)] x(2) by simp
  then have w: "wheel_ok k H U st' ?w"
    unfolding st'_def using iv(3) room cancel_task_num [OF ok x(2)]
    by (intro set_timeout_wheel_ok [OF _ x(1) tm]) (simp_all add: ex)
  have "slot_index k (expiry iv ?c) < 2 ^ k" by (simp add: slot_index_def)
  then have a: "x \<in> armed k st' ?w"
    by (auto simp: armed_def slot_list_def st'_def E(6) st_add_tail_def)
  have "uint (h_timeout (handles s x)) < 2 ^ 63" using due by (simp add: word_le_def)
  then have "check_body (timeout_cb usr) cur x (c, s) = (c + 1, fire (timeout_cb usr) x ?w)"
    using due iv(2) by (simp add: check_body_def time_after_eq_iff c Let_def)
  then show ?thesis using w a
    by (intro exI [of _ st'] exI [of _ "fire (timeout_cb usr) x ?w"]) (simp add: set_timeout_impl_log E(2) c expiry_def)
qed

subsection \<open>Properties\<close>

text \<open>
  C8. When all timers come from \<open>set_timeout\<close> and their functions run to completion and leave timers alone (\<open>usr\<close> changes
  only the state of the user), a check of the wheel runs the function of every timer that is due,
  each exactly once and in the order of the firings, which is slot after slot from the last check on and in a slot the order
  of arming, and deletes the timer: afterwards it is neither in
  the wheel nor in the table of the manager, the other timers are as before, the table again
  holds exactly the live timers, and no deleted object was touched.
\<close>

theorem co_timers_run_once:
  assumes "wheel_ok k H U st s" and "\<forall>x\<in>armed k st s. h_interval (handles s x) = 0 \<and> one_shot (timewheel.more s) x"
    and "ids_ok (timewheel.more s)" and "prev_ms s < cur" and "uint cur < 2 ^ 63"
    and "2 ^ k \<le> n" and "\<forall>i<2 ^ k. length (slot_list st s i) < f"
  shows "\<exists>fs st' s'. check n f (timeout_cb usr) cur s = Some (int (length fs), s') \<and> distinct fs \<and>
    set fs = {x \<in> armed k st s. h_timeout (handles s x) \<le> cur} \<and>
    fired s' = fired s @ fs \<and> fs = firing_order k st s cur \<and>
    user (timewheel.more s') = fold usr (map (code_of (timewheel.more s)) fs) (user (timewheel.more s)) \<and>
    objects (timewheel.more s') = objects (timewheel.more s) |` (- set fs) \<and> ids_ok (timewheel.more s') \<and>
    stale_uses (timewheel.more s') = stale_uses (timewheel.more s) \<and>
    wheel_ok k H U st' s' \<and> armed k st' s' = armed k st s - set fs"
proof -
  have "\<forall>x\<in>armed k st s. h_interval (handles s x) = 0" using assms(2) by blast
  from check_timers [OF assms(1) this assms(4-7)] obtain fs st' s' where
    R: "check n f (timeout_cb usr) cur s = Some (int (length fs), s')" "distinct fs"
      "set fs = {x \<in> armed k st s. h_timeout (handles s x) \<le> cur}" "wheel_ok k H U st' s'"
      "armed k st' s' = armed k st s - set fs" "timewheel.more s' = fold (resume_timer usr) fs (timewheel.more s)"
      "fired s' = fired s @ fs" "fs = firing_order k st s cur" by blast
  have one: "\<forall>x\<in>set fs. one_shot (timewheel.more s) x" using R(3) assms(2) by auto
  have "timewheel.more s' = run_timers usr fs (timewheel.more s)" using fold_resume [OF R(2) one] R(6) by simp
  then show ?thesis
    using R run_timers_ids_ok [OF assms(3) one]
    by (intro exI [of _ fs] exI [of _ st'] exI [of _ s']) (simp add: run_timers_def)
qed

definition ex_timers :: "nat list timer_env" where
  "ex_timers = timewheel.extend ex_wheel
     \<lparr>m_tm = Map.empty, m_id = 0, objects = Map.empty, user = [], stale_uses = []\<rparr>"

definition ex_usr :: "nat \<Rightarrow> nat list \<Rightarrow> nat list" where
  "ex_usr c l = l @ [c]"

lemma ex_timers_simps:
  "timewheel.more ex_timers = \<lparr>m_tm = Map.empty, m_id = 0, objects = Map.empty, user = [], stale_uses = []\<rparr>"
  "clock ex_timers = 1000" "prev_ms ex_timers = 1000" "slots ex_timers = 100" "armed 2 ex_lists ex_timers = {}"
  "wheel_ok 2 ex_heads ex_nodes ex_lists ex_timers" "\<not> linked ex_heads ex_lists 7" "ids_ok (timewheel.more ex_timers)"
  "expiry 5 ex_timers = 1005" "tw_task_num ex_timers = 0"
proof -
  show "wheel_ok 2 ex_heads ex_nodes ex_lists ex_timers"
    using ex_wheel_ok by (simp add: wheel_ok_def wheel_size_def slot_list_def ex_timers_def timewheel.extend_def)
qed (simp_all add: ex_timers_def timewheel.extend_def ex_wheel_eval armed_def slot_list_def linked_def ids_ok_def expiry_def)

definition ex_new :: "bool \<Rightarrow> nat list timer_env" where
  "ex_new repeat = snd (TimeoutHandle_new 7 42 5 repeat ex_timers)"

lemma ex_new_eq: "TimeoutHandle_new 7 42 5 repeat ex_timers = (1, ex_new repeat)"
proof -
  have "fst (TimeoutHandle_new 7 42 5 repeat ex_timers) = 1"
    by (simp add: TimeoutHandle_new_def TimeoutMgr_add_def set_impl_frame set_interval_def set_timeout_def
        set_timeout_impl_log ex_timers_simps Let_def)
  then show ?thesis by (simp add: ex_new_def prod_eq_iff)
qed

abbreviation ex_st :: lstore where
  "ex_st \<equiv> st_add_tail 7 (100 + 1) (st_del 7 ex_lists)"

lemma ex_new_ok:
  "wheel_ok 2 ex_heads ex_nodes ex_st (ex_new repeat)" "armed 2 ex_st (ex_new repeat) = {7}"
  "h_timeout (handles (ex_new repeat) 7) = 1005" "h_interval (handles (ex_new repeat) 7) = (if repeat then 5 else 0)"
  "prev_ms (ex_new repeat) = 1000" "slots (ex_new repeat) = 100"
  "timewheel.more (ex_new repeat) = \<lparr>m_tm = [1 \<mapsto> 7], m_id = 1, objects =
     [7 \<mapsto> \<lparr>m_code = 42, m_ms = 5, m_hid = 1, m_exit_flag = False, m_inter = 0\<rparr>], user = [], stale_uses = []\<rparr>"
  "ids_ok (timewheel.more (ex_new repeat))" "\<forall>i<2 ^ 2. length (slot_list ex_st (ex_new repeat) i) < 2"
proof -
  have n: "TimeoutHandle_new 7 42 (scast (5 :: u32)) repeat ex_timers = (1, ex_new repeat)"
    using ex_new_eq by simp
  have N: "7 \<in> ex_nodes" "(0::int) < sint (5 :: u32)" "uint (expiry 5 ex_timers) < 2 ^ 63"
    "objects (timewheel.more ex_timers) 7 = None" "m_tm (timewheel.more ex_timers) 1 = None"
    by (simp_all add: ex_timers_simps)
  have room: "sint (tw_task_num ex_timers) < 2 ^ 31 - 1" by (simp add: ex_timers_simps)
  have a: "slots ex_timers + slot_index 2 (expiry 5 ex_timers) = 100 + 1"
    by (simp add: ex_timers_simps slot_index_def)
  note R = TimeoutHandle_new_ok [OF ex_timers_simps(6) N(1) ex_timers_simps(7) N(2,3) room n ex_timers_simps(8) N(4,5), unfolded a]
  show "wheel_ok 2 ex_heads ex_nodes ex_st (ex_new repeat)" by (rule R(1))
  show "armed 2 ex_st (ex_new repeat) = {7}" using R(2) by (simp only: ex_timers_simps(5))
  show "h_timeout (handles (ex_new repeat) 7) = 1005" using R(3) by (simp add: ex_timers_simps)
  show "h_interval (handles (ex_new repeat) 7) = (if repeat then 5 else 0)" by (rule R(4))
  show "prev_ms (ex_new repeat) = 1000" using R(6) by (simp add: ex_timers_simps)
  show sl: "slots (ex_new repeat) = 100" using R(7) by (simp add: ex_timers_simps)
  show "timewheel.more (ex_new repeat) = \<lparr>m_tm = [1 \<mapsto> 7], m_id = 1, objects =
     [7 \<mapsto> \<lparr>m_code = 42, m_ms = 5, m_hid = 1, m_exit_flag = False, m_inter = 0\<rparr>], user = [], stale_uses = []\<rparr>"
    using R(9) by (simp add: ex_timers_simps)
  show "ids_ok (timewheel.more (ex_new repeat))" by (rule R(10))
  show "\<forall>i<2 ^ 2. length (slot_list ex_st (ex_new repeat) i) < 2"
    by (auto simp: slot_list_def sl st_add_tail_def st_del_def)
qed

theorem co_timers_run_once_witness:
  "\<exists>c s'. check 4 2 (timeout_cb ex_usr) 1005 (ex_new False) = Some (c, s') \<and> user (timewheel.more s') = [42] \<and>
     objects (timewheel.more s') = Map.empty \<and> stale_uses (timewheel.more s') = []"
proof -
  let ?s = "ex_new False"
  have one: "\<forall>x\<in>armed 2 ex_st ?s. h_interval (handles ?s x) = 0 \<and> one_shot (timewheel.more ?s) x"
    unfolding ex_new_ok(2) by (simp add: ex_new_ok one_shot_def)
  have "\<exists>fs st' s'. check 4 2 (timeout_cb ex_usr) 1005 ?s = Some (int (length fs), s') \<and> distinct fs \<and>
    set fs = {x \<in> armed 2 ex_st ?s. h_timeout (handles ?s x) \<le> 1005} \<and>
    fired s' = fired ?s @ fs \<and> fs = firing_order 2 ex_st ?s 1005 \<and>
    user (timewheel.more s') = fold ex_usr (map (code_of (timewheel.more ?s)) fs) (user (timewheel.more ?s)) \<and>
    objects (timewheel.more s') = objects (timewheel.more ?s) |` (- set fs) \<and> ids_ok (timewheel.more s') \<and>
    stale_uses (timewheel.more s') = stale_uses (timewheel.more ?s) \<and>
    wheel_ok 2 ex_heads ex_nodes st' s' \<and> armed 2 st' s' = armed 2 ex_st ?s - set fs"
    by (rule co_timers_run_once [OF ex_new_ok(1) one ex_new_ok(8) _ _ _ ex_new_ok(9)]) (simp_all add: ex_new_ok(5))
  then obtain fs s' where R: "check 4 2 (timeout_cb ex_usr) 1005 ?s = Some (int (length fs), s')" "distinct fs"
    "set fs = {x \<in> armed 2 ex_st ?s. h_timeout (handles ?s x) \<le> 1005}"
    "user (timewheel.more s') = fold ex_usr (map (code_of (timewheel.more ?s)) fs) (user (timewheel.more ?s))"
    "objects (timewheel.more s') = objects (timewheel.more ?s) |` (- set fs)"
    "stale_uses (timewheel.more s') = stale_uses (timewheel.more ?s)" by blast
  have "h_timeout (handles ?s 7) \<le> 1005" by (simp add: ex_new_ok(3))
  then have "set fs = {7}" using R(3) unfolding ex_new_ok(2) by blast
  then obtain zs where fs: "fs = 7 # zs" "set zs \<subseteq> {7}" by (cases fs) auto
  then have "zs = []" using R(2) by (cases zs) auto
  with fs have "fs = [7]" by simp
  with R show ?thesis by (auto simp: ex_new_ok(7) code_of_def ex_usr_def restrict_map_def fun_eq_iff)
qed

text \<open>
  C9. \<open>cancel_timeout(id)\<close> of an armed timer keeps its function from running, but deletes the
  object while its handle is still in the wheel: the check at its expiry uses the deleted
  object. A second cancellation of the number, and one after the timer has run, throws
  \<open>out_of_range\<close>.
\<close>

theorem co_cancel_dangles:
  assumes ok: "wheel_ok k H U st s" and one: "\<forall>y\<in>armed k st s. h_interval (handles s y) = 0"
    and x: "x \<in> armed k st s" "x \<noteq> 0" "m_tm (timewheel.more s) i = Some x"
    and t: "objects (timewheel.more s) x = Some t" "m_hid t = i"
    and cur: "prev_ms s < cur" "uint cur < 2 ^ 63" "h_timeout (handles s x) \<le> cur"
    and fuel: "2 ^ k \<le> n" "\<forall>j<2 ^ k. length (slot_list st s j) < f"
  shows "\<exists>s1 c s2. co_cancel_timeout usr i s = Inr s1 \<and> user (timewheel.more s1) = user (timewheel.more s) \<and>
    objects (timewheel.more s1) x = None \<and> x \<in> armed k st s1 \<and>
    co_cancel_timeout usr i s1 = Inl Out_of_range \<and>
    check n f (timeout_cb usr) cur s1 = Some (c, s2) \<and> x \<in> set (stale_uses (timewheel.more s2))"
proof -
  let ?s = "upd_timers (delete_TimeoutHandle x t) s"
  have del: "objects (timewheel.more ?s) x = None" "m_tm (timewheel.more ?s) i = None"
    "user (timewheel.more ?s) = user (timewheel.more s)"
    using t(2) by (simp_all add: delete_TimeoutHandle_def TimeoutMgr_free_def)
  have "\<exists>fs st' s2. check n f (timeout_cb usr) cur ?s = Some (int (length fs), s2) \<and> distinct fs \<and>
      set fs = {y \<in> armed k st ?s. h_timeout (handles ?s y) \<le> cur} \<and>
      fired s2 = fired ?s @ fs \<and> fs = firing_order k st ?s cur \<and> wheel_ok k H U st' s2 \<and>
      armed k st' s2 = armed k st ?s - set fs \<and>
      timewheel.more s2 = fold (resume_timer usr) fs (timewheel.more ?s)"
    using ok one cur(1,2) fuel by (intro check_timers) (simp_all add: slot_list_def)
  then obtain fs s2 where c: "check n f (timeout_cb usr) cur ?s = Some (int (length fs), s2)"
    "set fs = {y \<in> armed k st s. h_timeout (handles s y) \<le> cur}"
    "timewheel.more s2 = fold (resume_timer usr) fs (timewheel.more ?s)" by auto
  have "x \<in> set (stale_uses (timewheel.more s2))"
    unfolding c(3) using x(1) cur(3) c(2) by (intro fold_resume_stale [OF del(1)]) simp
  moreover have "co_cancel_timeout usr i ?s = Inl Out_of_range"
    using del(2) by (simp add: co_cancel_timeout_def TimeoutMgr_get_def)
  ultimately show ?thesis
    using cancel_deletes [OF x(3) t(1) x(2)] del c(1) x(1) by (intro exI [of _ ?s] exI) auto
qed

theorem co_cancel_dangles_witness:
  "\<exists>s1 c s2. co_cancel_timeout ex_usr 1 (ex_new False) = Inr s1 \<and> user (timewheel.more s1) = [] \<and>
     check 4 2 (timeout_cb ex_usr) 1005 s1 = Some (c, s2) \<and> 7 \<in> set (stale_uses (timewheel.more s2))"
proof -
  let ?s = "ex_new False"
  let ?t = "\<lparr>m_code = 42, m_ms = 5, m_hid = 1, m_exit_flag = False, m_inter = 0\<rparr>"
  have one: "\<forall>y\<in>armed 2 ex_st ?s. h_interval (handles ?s y) = 0" unfolding ex_new_ok(2) by (simp add: ex_new_ok)
  have "\<exists>s1 c s2. co_cancel_timeout ex_usr 1 ?s = Inr s1 \<and> user (timewheel.more s1) = user (timewheel.more ?s) \<and>
    objects (timewheel.more s1) 7 = None \<and> 7 \<in> armed 2 ex_st s1 \<and>
    co_cancel_timeout ex_usr 1 s1 = Inl Out_of_range \<and>
    check 4 2 (timeout_cb ex_usr) 1005 s1 = Some (c, s2) \<and> 7 \<in> set (stale_uses (timewheel.more s2))"
    by (rule co_cancel_dangles [OF ex_new_ok(1) one _ _ _ _ _ _ _ _ _ ex_new_ok(9), where t = ?t])
       (simp_all add: ex_new_ok(2) [simplified] ex_new_ok(3,5,7))
  then show ?thesis by (auto simp: ex_new_ok(7))
qed

text \<open>
  C10. While the counter of the wheel is below \<open>INT_MAX - 1\<close>, \<open>set_interval\<close> runs its function once instead of repeatedly: the first expiry
  runs it and deletes the object, because the constructor stores 0 in \<open>m_inter\<close>, while the wheel
  has armed the handle again; the next expiry uses the deleted object.
\<close>

theorem co_interval_dangles:
  assumes ok: "wheel_ok k H U st s" and x: "x \<in> U" "\<not> linked H st x"
    and ms: "0 < sint ms" "uint (expiry ms s) < 2 ^ 63" "uint (expiry ms (s1\<lparr>clock := now\<rparr>)) < 2 ^ 63"
    and room: "sint (tw_task_num s) < 2 ^ 31 - 2"
    and new: "co_set_interval x code ms s = (i, s1)"
    and tab: "ids_ok (timewheel.more s)" "objects (timewheel.more s) x = None" "m_tm (timewheel.more s) i = None"
    and cur: "expiry ms s \<le> cur" "uint cur < 2 ^ 63" "expiry ms (s1\<lparr>clock := now\<rparr>) \<le> later" "uint later < 2 ^ 63"
  shows "\<exists>st2 s2. check_body (timeout_cb usr) cur x (c, s1\<lparr>clock := now\<rparr>) = (c + 1, s2) \<and>
    user (timewheel.more s2) = usr code (user (timewheel.more s)) \<and> objects (timewheel.more s2) x = None \<and>
    wheel_ok k H U st2 s2 \<and> x \<in> armed k st2 s2 \<and>
    x \<in> set (stale_uses (timewheel.more (snd (check_body (timeout_cb usr) later x (c', s2)))))"
proof -
  let ?s1 = "s1\<lparr>clock := now\<rparr>"
  have "sint (tw_task_num s) < 2 ^ 31 - 1" using room by simp
  note N = TimeoutHandle_new_ok [OF ok x ms(1,2) this new [unfolded co_set_interval_def] tab]
  define st1 where "st1 = st_add_tail x (slots s + slot_index k (expiry ms s)) (st_del x st)"
  have more: "timewheel.more ?s1 = timewheel.more s1" by (cases s1) simp
  have "wheel_ok k H U st1 ?s1" "x \<in> armed k st1 ?s1"
    using N(1,2) by (simp_all add: st1_def wheel_ok_def wheel_size_def armed_def slot_list_def)
  moreover have "ms \<noteq> 0" using ms(1) by auto
  ultimately obtain st2 s2 where s2: "check_body (timeout_cb usr) cur x (c, ?s1) = (c + 1, s2)" "wheel_ok k H U st2 s2"
    "x \<in> armed k st2 s2" "timewheel.more s2 = resume_timer usr x (timewheel.more s1)" 
    "h_timeout (handles s2 x) = expiry ms ?s1"
    using check_body_rearms [of k H U st1 ?s1 x cur ms usr c] x(1) N(3,4,8) room cur(1,2) ms(3) unfolding more by auto
  have gone: "objects (timewheel.more s2) x = None" "user (timewheel.more s2) = usr code (user (timewheel.more s))"
    using s2(4) N(9) by (simp_all add: resume_timer_def TimeoutHandle_proc_def delete_TimeoutHandle_def
        TimeoutMgr_free_def Let_def)
  have "time_after_eq later (h_timeout (handles s2 x))"
    using s2(5) cur(3,4) ms(3) by (simp add: time_after_eq_iff)
  then have "timewheel.more (snd (check_body (timeout_cb usr) later x (c', s2))) = resume_timer usr x (timewheel.more s2)"
    by (simp add: check_body_def Let_def set_timeout_impl_log)
  with s2 gone show ?thesis by (intro exI [of _ st2] exI [of _ s2]) (simp add: resume_timer_def)
qed

theorem co_interval_dangles_witness:
  "\<exists>s2. check_body (timeout_cb ex_usr) 1005 7 (0, (ex_new True)\<lparr>clock := 1005\<rparr>) = (1, s2) \<and>
     user (timewheel.more s2) = [42] \<and>
     7 \<in> set (stale_uses (timewheel.more (snd (check_body (timeout_cb ex_usr) 1010 7 (0, s2)))))"
proof -
  have new: "co_set_interval 7 42 5 ex_timers = (1, ex_new True)"
    using ex_new_eq by (simp add: co_set_interval_def)
  have ex: "expiry 5 ((ex_new True)\<lparr>clock := 1005\<rparr>) = 1010" by (simp add: expiry_def ex_new_ok(5))
  have "\<exists>st2 s2. check_body (timeout_cb ex_usr) 1005 7 (0, (ex_new True)\<lparr>clock := 1005\<rparr>) = (0 + 1, s2) \<and>
    user (timewheel.more s2) = ex_usr 42 (user (timewheel.more ex_timers)) \<and> objects (timewheel.more s2) 7 = None \<and>
    wheel_ok 2 ex_heads ex_nodes st2 s2 \<and> 7 \<in> armed 2 st2 s2 \<and>
    7 \<in> set (stale_uses (timewheel.more (snd (check_body (timeout_cb ex_usr) 1010 7 (0, s2)))))"
    by (rule co_interval_dangles [OF ex_timers_simps(6) _ ex_timers_simps(7) _ _ _ _ new ex_timers_simps(8)])
       (simp_all add: ex ex_timers_simps)
  then show ?thesis by (auto simp: ex_timers_simps ex_usr_def)
qed

end
