(* ===== verification/Mempool.thy ===== *)
theory Mempool
  imports CList
begin

text \<open>
  The pools of \<open>base\<close>: \<open>fixed_mempool_t\<close> (fixed_mempool.h, fixed_mempool.cpp), the stack of nodes
  \<open>lifo_t\<close> and \<open>Lifo\<close> (lifo.h), the object pool built on it (obj_pool.h) and the queue \<open>Fifo\<close> (fifo.h).
  A block or node that the system allocator returns is an argument of the operation that may need it.
\<close>

subsection \<open>Fixed-size memory pool\<close>

record fixed_mempool_t =
  mp_heap :: lheap
  alloc_size :: u64
  total_num :: u64
  used_num :: u64
  max_num :: u64
  align_size :: "32 word"
  free_list :: addr
  is_page_alloc :: bool
  released :: "addr list"

text \<open>How the pool obtains a block from the system, and gives it back.\<close>

datatype mem_source = Mmap u64 | Malloc u64 | Memalign "32 word" u64

definition alloc_mem_help :: "fixed_mempool_t \<Rightarrow> mem_source" where
  "alloc_mem_help p =
     (if is_page_alloc p then Mmap (alloc_size p)
      else if sint (align_size p) > 1 then Malloc (alloc_size p) else Memalign (align_size p) (alloc_size p))"

definition free_mem_help :: "addr \<Rightarrow> fixed_mempool_t \<Rightarrow> fixed_mempool_t" where
  "free_mem_help e p = p\<lparr>released := released p @ [e]\<rparr>"

text \<open>\<open>init\<close>; \<open>page\<close> is the page size, -1 when it is not known.\<close>

definition mempool_init :: "int \<Rightarrow> u64 \<Rightarrow> u64 \<Rightarrow> 32 word \<Rightarrow> fixed_mempool_t \<Rightarrow> fixed_mempool_t" where
  "mempool_init page asize mx align p =
     (if page > 0 \<and> asize \<ge> of_int page then
        p\<lparr>max_num := mx, alloc_size := (asize + of_int page - 1) div of_int page * of_int page,
          is_page_alloc := True, align_size := align\<rparr>
      else
        p\<lparr>max_num := mx, is_page_alloc := False, align_size := align,
          alloc_size := (if sint align > 0 then (asize + scast align - 1) div scast align * scast align else asize)\<rparr>)"

definition mempool_alloc :: "addr \<Rightarrow> fixed_mempool_t \<Rightarrow> addr \<times> fixed_mempool_t" where
  "mempool_alloc new p =
     (let (n, h) = list_pop_head (free_list p) (mp_heap p);
          p = p\<lparr>mp_heap := h\<rparr>;
          (n, p) = (if n = NULL then (new, p\<lparr>total_num := total_num p + 1\<rparr>) else (n, p))
      in (n, p\<lparr>used_num := used_num p + 1\<rparr>))"

definition mempool_free :: "addr \<Rightarrow> fixed_mempool_t \<Rightarrow> fixed_mempool_t" where
  "mempool_free obj p =
     (let p = p\<lparr>mp_heap := INIT_LIST_HEAD obj (mp_heap p)\<rparr>;
          p = (if total_num p \<ge> max_num p then free_mem_help obj (p\<lparr>total_num := total_num p - 1\<rparr>)
               else p\<lparr>mp_heap := list_add obj (free_list p) (mp_heap p)\<rparr>)
      in p\<lparr>used_num := used_num p - 1\<rparr>)"

definition mempool_fini :: "nat \<Rightarrow> fixed_mempool_t \<Rightarrow> fixed_mempool_t option" where
  "mempool_fini k p =
     list_for_each_entry_safe k mp_heap
       (\<lambda>e p. free_mem_help e (p\<lparr>mp_heap := list_del e (mp_heap p)\<rparr>)) (free_list p) p"

text \<open>
  The blocks in the free list \<open>fs\<close> and the blocks handed out \<open>us\<close> account for all blocks the pool owns.
\<close>

definition pool_ok :: "fixed_mempool_t \<Rightarrow> addr list \<Rightarrow> addr list \<Rightarrow> bool" where
  "pool_ok p fs us \<longleftrightarrow>
     is_list (mp_heap p) (free_list p) fs \<and> distinct (fs @ us) \<and> NULL \<notin> set (fs @ us) \<and>
     free_list p \<notin> set us \<and> length fs + length us < 2 ^ 64 - 1 \<and>
     used_num p = of_nat (length us) \<and> total_num p = of_nat (length fs + length us)"

lemma pool_alloc_ok:
  assumes "pool_ok p fs us" "new \<notin> set (free_list p # NULL # fs @ us)" "length fs + length us < 2 ^ 64 - 2"
    and "mempool_alloc new p = (b, p')"
  shows "pool_ok p' (tl fs) (b # us) \<and> b \<notin> set us \<and> (b = new \<longleftrightarrow> fs = []) \<and>
    (fs \<noteq> [] \<longrightarrow> b = hd fs)"
proof (cases fs)
  case Nil
  have "list_empty (free_list p) (mp_heap p)" using assms(1) Nil list_empty_iff by (auto simp: pool_ok_def)
  then show ?thesis
    using assms Nil by (auto simp: mempool_alloc_def list_pop_head_def pool_ok_def)
next
  case (Cons f gs)
  have l: "is_list (mp_heap p) (free_list p) ([] @ f # gs)" using assms(1) Cons by (simp add: pool_ok_def)
  have e: "\<not> list_empty (free_list p) (mp_heap p)" "nxt (mp_heap p) (free_list p) = f"
    using list_empty_iff [OF l] is_list_next [OF l] by auto
  then show ?thesis
    using assms Cons list_del_init_is_list(1) [OF l] l
    by (auto simp: mempool_alloc_def list_pop_head_def Let_def pool_ok_def is_list_def)
qed

lemma pool_free_ok:
  assumes "pool_ok p fs (b # us)"
  shows "if total_num p \<ge> max_num p
    then pool_ok (mempool_free b p) fs us \<and> released (mempool_free b p) = released p @ [b]
    else pool_ok (mempool_free b p) (b # fs) us \<and> released (mempool_free b p) = released p"
proof -
  have l: "is_list (INIT_LIST_HEAD b (mp_heap p)) (free_list p) fs"
    using assms by (intro is_list_after_INIT) (auto simp: pool_ok_def)
  have "is_list (list_add b (free_list p) (INIT_LIST_HEAD b (mp_heap p))) (free_list p) (b # fs)"
    using assms by (intro list_add_is_list [OF l]) (auto simp: pool_ok_def)
  then show ?thesis
    using assms l by (auto simp: mempool_free_def Let_def free_mem_help_def pool_ok_def)
qed

text \<open>A run of the pool: allocations with the block the system would return, and frees.\<close>

datatype pool_op = Alloc addr | Free addr

fun pool_run :: "pool_op list \<Rightarrow> fixed_mempool_t \<times> addr list \<Rightarrow> fixed_mempool_t \<times> addr list" where
  "pool_run [] s = s"
| "pool_run (Alloc new # ops) (p, us) =
     (let (b, p) = mempool_alloc new p in pool_run ops (p, b # us))"
| "pool_run (Free b # ops) (p, us) = pool_run ops (mempool_free b p, remove1 b us)"

text \<open>
  The clients and the system respect the pool: a new block is unused and a block is freed once.
\<close>

fun pool_legal :: "pool_op list \<Rightarrow> fixed_mempool_t \<times> addr list \<times> addr list \<Rightarrow> bool" where
  "pool_legal [] s \<longleftrightarrow> True"
| "pool_legal (Alloc new # ops) (p, fs, us) \<longleftrightarrow>
     new \<notin> set (free_list p # NULL # fs @ us) \<and>
     (let (b, p) = mempool_alloc new p in pool_legal ops (p, tl fs, b # us))"
| "pool_legal (Free b # ops) (p, fs, us) \<longleftrightarrow>
     b \<in> set us \<and>
     pool_legal ops (mempool_free b p, if total_num p \<ge> max_num p then fs else b # fs, remove1 b us)"

lemma pool_ok_perm:
  assumes "pool_ok p fs us" "set us = set us'" "length us = length us'" "distinct us'"
  shows "pool_ok p fs us'"
  using assms by (auto simp: pool_ok_def)

lemma pool_run_ok:
  assumes "pool_ok p fs us" "pool_legal ops (p, fs, us)" "length fs + length us + length ops < 2 ^ 64 - 1"
    and "pool_run ops (p, us) = (p', us')"
  shows "\<exists>fs'. pool_ok p' fs' us'"
  using assms
proof (induction ops arbitrary: p fs us)
  case (Cons op ops)
  show ?case
  proof (cases op)
    case (Alloc new)
    obtain b p1 where a: "mempool_alloc new p = (b, p1)" by (cases "mempool_alloc new p")
    have "pool_ok p1 (tl fs) (b # us)"
      using pool_alloc_ok [OF Cons.prems(1) _ _ a] Cons.prems(2,3) Alloc by simp
    moreover have "length (tl fs) \<le> length fs" by simp
    ultimately show ?thesis
      using Cons.IH [of p1 "tl fs" "b # us"] Cons.prems(2-4) Alloc a by (auto simp: pool_ok_def)
  next
    case (Free b)
    have b: "b \<in> set us" using Cons.prems(2) Free by simp
    have d: "distinct us" using Cons.prems(1) by (simp add: pool_ok_def)
    have "pool_ok p fs (b # remove1 b us)"
      by (rule pool_ok_perm [OF Cons.prems(1)]) (use b d length_pos_if_in_set [OF b] in \<open>auto simp: length_remove1\<close>)
    from pool_free_ok [OF this]
    have "pool_ok (mempool_free b p) (if total_num p \<ge> max_num p then fs else b # fs) (remove1 b us)" by (simp split: if_splits)
    moreover have "length (remove1 b us) < length us" using length_pos_if_in_set [OF b] b by (simp add: length_remove1)
    ultimately show ?thesis
      using Cons.IH [of "mempool_free b p" "if total_num p \<ge> max_num p then fs else b # fs" "remove1 b us"]
        Cons.prems(2-4) Free by (auto split: if_splits)
  qed
qed auto

text \<open>
  C32 (invariant): however a client allocates and frees, as long as every block is freed at most once, the
  free list and the blocks handed out stay disjoint, so no block is handed out twice, and the counters
  \<open>used_num\<close> and \<open>total_num\<close> count exactly the blocks handed out and the blocks owned.
\<close>

theorem mempool_accounts:
  assumes "pool_ok p fs us" "pool_legal ops (p, fs, us)" "length fs + length us + length ops < 2 ^ 64 - 1"
    and "pool_run ops (p, us) = (p', us')"
  shows "\<exists>fs'. is_list (mp_heap p') (free_list p') fs' \<and> distinct (fs' @ us') \<and>
    used_num p' = of_nat (length us') \<and> total_num p' = of_nat (length fs' + length us')"
  using pool_run_ok [OF assms] by (auto simp: pool_ok_def)

definition ex_pool :: fixed_mempool_t where
  "ex_pool = mempool_init 4096 100 1 64
     \<lparr>mp_heap = INIT_LIST_HEAD 1 \<lparr>nxt = (\<lambda>_. 0), prv = (\<lambda>_. 0)\<rparr>, alloc_size = 0, total_num = 0, used_num = 0,
      max_num = 0, align_size = 0, free_list = 1, is_page_alloc = False, released = []\<rparr>"

lemma ex_pool_ok: "pool_ok ex_pool [] []" "pool_legal [Alloc 5] (ex_pool, [], [])"
  "pool_run [Alloc 5] (ex_pool, []) = (snd (mempool_alloc 5 ex_pool), [5])"
  by (simp_all add: pool_ok_def ex_pool_def mempool_init_def INIT_LIST_HEAD_is_list mempool_alloc_def list_pop_head_def
      list_empty_def INIT_LIST_HEAD_def set_next_def set_prev_def is_list_def)

theorem mempool_accounts_witness: "used_num (snd (mempool_alloc 5 ex_pool)) = 1"
  using mempool_accounts [OF ex_pool_ok(1,2) _ ex_pool_ok(3)] by auto

subsection \<open>Stacks and queues of pointers\<close>

text \<open>
  The nodes of \<open>lifo_t\<close>: a \<open>next\<close> and a \<open>value\<close> field. \<open>new node_type()\<close> returns a node that is not in
  use; the state keeps the least address not yet allocated.
\<close>

record 'v Lifo =
  l_next :: "addr \<Rightarrow> addr"
  l_value :: "addr \<Rightarrow> 'v"
  l_used :: addr
  l_free :: addr
  l_brk :: addr

definition lifo_push :: "addr \<Rightarrow> (addr \<Rightarrow> addr) \<Rightarrow> addr \<Rightarrow> addr \<times> (addr \<Rightarrow> addr)" where
  "lifo_push n nx head = (n, nx(n := head))"

definition lifo_pop :: "(addr \<Rightarrow> addr) \<Rightarrow> addr \<Rightarrow> addr \<times> addr" where
  "lifo_pop nx head = (head, if head \<noteq> NULL then nx head else head)"

definition Lifo_push :: "'v \<Rightarrow> 'v Lifo \<Rightarrow> 'v Lifo" where
  "Lifo_push v s =
     (let (n, fr) = lifo_pop (l_next s) (l_free s);
          (n, brk) = (if n = NULL then (l_brk s, l_brk s + 1) else (n, l_brk s));
          (us, nx) = lifo_push n (l_next s) (l_used s)
      in s\<lparr>l_free := fr, l_brk := brk, l_value := (l_value s)(n := v), l_next := nx, l_used := us\<rparr>)"

definition Lifo_empty :: "'v Lifo \<Rightarrow> bool" where
  "Lifo_empty s \<longleftrightarrow> l_used s = NULL"

text \<open>\<open>pop\<close> returns a null pointer, \<open>None\<close>, on an empty stack.\<close>

definition Lifo_pop :: "'v Lifo \<Rightarrow> 'v option \<times> 'v Lifo" where
  "Lifo_pop s =
     (let (n, us) = lifo_pop (l_next s) (l_used s)
      in if n = NULL then (None, s)
         else let (fr, nx) = lifo_push n (l_next s) (l_free s)
              in (Some (l_value s n), s\<lparr>l_used := us, l_free := fr, l_next := nx\<rparr>))"

text \<open>\<open>clear\<close> hands every value to \<open>free_obj_func\<close> and deletes all nodes; the result lists the values.\<close>

fun lifo_clear :: "nat \<Rightarrow> (addr \<Rightarrow> addr) \<Rightarrow> addr \<Rightarrow> addr list option" where
  "lifo_clear 0 nx head = None"
| "lifo_clear (Suc k) nx head =
     (if head = NULL then Some [] else map_option ((#) head) (lifo_clear k nx (nx head)))"

definition Lifo_clear :: "nat \<Rightarrow> 'v Lifo \<Rightarrow> ('v list \<times> 'v Lifo) option" where
  "Lifo_clear k s =
     (case lifo_clear k (l_next s) (l_used s) of
        None \<Rightarrow> None
      | Some us \<Rightarrow>
          (case lifo_clear k (l_next s) (l_free s) of
             None \<Rightarrow> None
           | Some fs \<Rightarrow> Some (map (l_value s) us, s\<lparr>l_used := NULL, l_free := NULL\<rparr>)))"

definition obj_pool_alloc :: "'v option \<Rightarrow> 'v Lifo \<Rightarrow> 'v option \<times> 'v Lifo" where
  "obj_pool_alloc made s = (case Lifo_pop s of (None, s) \<Rightarrow> (made, s) | (Some obj, s) \<Rightarrow> (Some obj, s))"

definition obj_pool_release :: "'v \<Rightarrow> 'v Lifo \<Rightarrow> 'v Lifo" where
  "obj_pool_release obj s = Lifo_push obj s"

fun lchain :: "(addr \<Rightarrow> addr) \<Rightarrow> addr \<Rightarrow> addr list \<Rightarrow> bool" where
  "lchain nx a [] \<longleftrightarrow> a = NULL"
| "lchain nx a (n # ns) \<longleftrightarrow> a = n \<and> n \<noteq> NULL \<and> lchain nx (nx n) ns"

definition lifo_rel :: "'v Lifo \<Rightarrow> 'v list \<Rightarrow> bool" where
  "lifo_rel s vs \<longleftrightarrow> (\<exists>us fs. lchain (l_next s) (l_used s) us \<and> lchain (l_next s) (l_free s) fs \<and>
     distinct (us @ fs) \<and> (\<forall>n\<in>set (us @ fs). n < l_brk s) \<and> 0 < l_brk s \<and> vs = map (l_value s) us)"

lemma lchain_upd [simp]: "n \<notin> set ns \<Longrightarrow> lchain (nx(n := v)) a ns = lchain nx a ns"
  by (induction ns arbitrary: a) auto

lemma lchain_NULL [simp]: "lchain nx NULL ns \<longleftrightarrow> ns = []"
  by (cases ns) auto

lemma Lifo_push_rel: "lifo_rel s vs \<Longrightarrow> lifo_rel (Lifo_push v s) (v # vs)"
proof -
  assume "lifo_rel s vs"
  then obtain us fs where r: "lchain (l_next s) (l_used s) us" "lchain (l_next s) (l_free s) fs"
    "distinct (us @ fs)" "\<forall>n\<in>set (us @ fs). n < l_brk s" "0 < l_brk s" "vs = map (l_value s) us"
    by (auto simp: lifo_rel_def)
  show ?thesis
  proof (cases fs)
    case Nil
    then have f: "l_free s = NULL" using r(2) by simp
    have n: "l_brk s \<notin> set us" using r(4) by auto
    show ?thesis unfolding lifo_rel_def
      by (rule exI [of _ "l_brk s # us"], rule exI [of _ "[]"])
        (use r n f Nil in \<open>auto simp: Lifo_push_def lifo_pop_def lifo_push_def intro: less_SucI\<close>)
  next
    case (Cons f gs)
    then have f: "l_free s = f" "f \<noteq> NULL" using r(2) by auto
    show ?thesis unfolding lifo_rel_def
      by (rule exI [of _ "f # us"], rule exI [of _ gs])
        (use r f Cons in \<open>auto simp: Lifo_push_def lifo_pop_def lifo_push_def\<close>)
  qed
qed

lemma Lifo_pop_rel:
  assumes "lifo_rel s vs"
  shows "fst (Lifo_pop s) = (case vs of [] \<Rightarrow> None | v # _ \<Rightarrow> Some v)" "lifo_rel (snd (Lifo_pop s)) (tl vs)"
proof -
  obtain us fs where r: "lchain (l_next s) (l_used s) us" "lchain (l_next s) (l_free s) fs"
    "distinct (us @ fs)" "\<forall>n\<in>set (us @ fs). n < l_brk s" "0 < l_brk s" "vs = map (l_value s) us"
    using assms by (auto simp: lifo_rel_def)
  show "fst (Lifo_pop s) = (case vs of [] \<Rightarrow> None | v # _ \<Rightarrow> Some v)"
    using r(1,6) by (cases us) (auto simp: Lifo_pop_def lifo_pop_def lifo_push_def)
  show "lifo_rel (snd (Lifo_pop s)) (tl vs)"
  proof (cases us)
    case Nil
    then show ?thesis using assms r(1,6) by (simp add: Lifo_pop_def lifo_pop_def)
  next
    case (Cons u ws)
    then have u: "l_used s = u" "u \<noteq> NULL" using r(1) by auto
    show ?thesis unfolding lifo_rel_def
      by (rule exI [of _ ws], rule exI [of _ "u # fs"])
        (use r u Cons in \<open>auto simp: Lifo_pop_def lifo_pop_def lifo_push_def\<close>)
  qed
qed

text \<open>The queue: two circular lists of nodes, the second recycling the nodes that were popped.\<close>

record 'v Fifo =
  f_heap :: lheap
  f_value :: "addr \<Rightarrow> 'v"
  f_used :: addr
  f_free :: addr
  f_brk :: addr

definition Fifo_init :: "addr \<Rightarrow> addr \<Rightarrow> addr \<Rightarrow> lheap \<Rightarrow> (addr \<Rightarrow> 'v) \<Rightarrow> 'v Fifo" where
  "Fifo_init us fr brk h vals =
     \<lparr>f_heap = INIT_LIST_HEAD fr (INIT_LIST_HEAD us h), f_value = vals, f_used = us, f_free = fr, f_brk = brk\<rparr>"

definition Fifo_push :: "'v \<Rightarrow> 'v Fifo \<Rightarrow> 'v Fifo" where
  "Fifo_push v s =
     (if list_empty (f_free s) (f_heap s)
      then let n = f_brk s
           in s\<lparr>f_brk := n + 1, f_value := (f_value s)(n := v),
                f_heap := list_add_tail n (f_used s) (INIT_LIST_HEAD n (f_heap s))\<rparr>
      else let n = nxt (f_heap s) (f_free s)
           in s\<lparr>f_value := (f_value s)(n := v), f_heap := list_move_tail n (f_used s) (f_heap s)\<rparr>)"

definition Fifo_empty :: "'v Fifo \<Rightarrow> bool" where
  "Fifo_empty s \<longleftrightarrow> list_empty (f_used s) (f_heap s)"

definition Fifo_pop :: "'v Fifo \<Rightarrow> 'v option \<times> 'v Fifo" where
  "Fifo_pop s =
     (if list_empty (f_used s) (f_heap s) then (None, s)
      else let n = nxt (f_heap s) (f_used s)
           in (Some (f_value s n), s\<lparr>f_heap := list_move n (f_free s) (f_heap s)\<rparr>))"

definition fifo_rel :: "'v Fifo \<Rightarrow> 'v list \<Rightarrow> bool" where
  "fifo_rel s vs \<longleftrightarrow> (\<exists>us fs. is_list (f_heap s) (f_used s) us \<and> is_list (f_heap s) (f_free s) fs \<and>
     set (f_used s # us) \<inter> set (f_free s # fs) = {} \<and> (\<forall>n\<in>set (us @ fs). n < f_brk s) \<and>
     f_used s < f_brk s \<and> f_free s < f_brk s \<and> vs = map (f_value s) us)"

lemma Fifo_init_rel: "us < brk \<Longrightarrow> fr < brk \<Longrightarrow> us \<noteq> fr \<Longrightarrow> fifo_rel (Fifo_init us fr brk h vals) []"
  unfolding fifo_rel_def Fifo_init_def
  by (intro exI [of _ "[]"]) (auto intro: is_list_after_INIT INIT_LIST_HEAD_is_list)

lemma fifo_relI:
  assumes "is_list (f_heap s) (f_used s) us" "is_list (f_heap s) (f_free s) fs"
    "set (f_used s # us) \<inter> set (f_free s # fs) = {}" "\<forall>n\<in>set (us @ fs). n < f_brk s"
    "f_used s < f_brk s" "f_free s < f_brk s" "vs = map (f_value s) us"
  shows "fifo_rel s vs"
  using assms unfolding fifo_rel_def by blast

lemma Fifo_push_rel:
  assumes "fifo_rel s vs"
  shows "fifo_rel (Fifo_push v s) (vs @ [v])"
proof -
  obtain us fs where r: "is_list (f_heap s) (f_used s) us" "is_list (f_heap s) (f_free s) fs"
    "set (f_used s # us) \<inter> set (f_free s # fs) = {}" "\<forall>n\<in>set (us @ fs). n < f_brk s"
    "f_used s < f_brk s" "f_free s < f_brk s" "vs = map (f_value s) us"
    using assms by (auto simp: fifo_rel_def)
  show ?thesis
  proof (cases fs)
    case Nil
    let ?n = "f_brk s" and ?h = "INIT_LIST_HEAD (f_brk s) (f_heap s)"
    have e: "list_empty (f_free s) (f_heap s)" using r(2) Nil list_empty_iff by blast
    have n: "?n \<notin> set (f_used s # us)" "?n \<notin> set (f_free s # fs)" using r(4-6) Nil by auto
    have i: "is_list ?h (f_used s) us" "is_list ?h (f_free s) fs"
      using r(1,2) n by (auto intro: is_list_after_INIT)
    have free: "is_list (list_add_tail ?n (f_used s) ?h) (f_free s) fs"
    proof (rule is_list_frame [OF i(2)])
      fix y assume "y \<in> set (f_free s # fs)"
      then have "y \<notin> set (?n # f_used s # us)" using r(3) n by auto
      then show "nxt (list_add_tail ?n (f_used s) ?h) y = nxt ?h y \<and> prv (list_add_tail ?n (f_used s) ?h) y = prv ?h y"
        using list_add_tail_frame [OF i(1)] by blast
    qed
    have p: "Fifo_push v s = s\<lparr>f_brk := ?n + 1, f_value := (f_value s)(?n := v), f_heap := list_add_tail ?n (f_used s) ?h\<rparr>"
      by (simp add: Fifo_push_def e Let_def)
    show ?thesis unfolding p
    proof (rule fifo_relI [of _ "us @ [?n]" fs], goal_cases)
      case 1 then show ?case using list_add_tail_is_list [OF i(1)] n by simp
    next
      case 2 then show ?case using free by simp
    next
      case 7 then show ?case using r(7) n by simp
    qed (use r n in \<open>auto simp: less_Suc_eq\<close>)
  next
    case (Cons f gs)
    have e: "\<not> list_empty (f_free s) (f_heap s)" "nxt (f_heap s) (f_free s) = f"
      using list_empty_iff [OF r(2)] is_list_next [OF r(2)] Cons by auto
    have d: "f \<notin> set us" using r(3) Cons by auto
    note m = list_move_is_list [of "f_heap s" "f_free s" "[]" f gs "f_used s" us]
    have p: "Fifo_push v s = s\<lparr>f_value := (f_value s)(f := v), f_heap := list_move_tail f (f_used s) (f_heap s)\<rparr>"
      by (simp add: Fifo_push_def e Let_def)
    show ?thesis unfolding p
    proof (rule fifo_relI [of _ "us @ [f]" gs], goal_cases)
      case 1 then show ?case using m(3) r Cons by simp
    next
      case 2 then show ?case using m(4) r Cons by simp
    next
      case 3 then show ?case using r(2,3) Cons by (auto simp: is_list_def)
    next
      case 7 then show ?case using r(7) d by simp
    qed (use r Cons in auto)
  qed
qed

lemma Fifo_pop_rel:
  assumes "fifo_rel s vs"
  shows "fst (Fifo_pop s) = (case vs of [] \<Rightarrow> None | v # _ \<Rightarrow> Some v)" "fifo_rel (snd (Fifo_pop s)) (tl vs)"
proof -
  obtain us fs where r: "is_list (f_heap s) (f_used s) us" "is_list (f_heap s) (f_free s) fs"
    "set (f_used s # us) \<inter> set (f_free s # fs) = {}" "\<forall>n\<in>set (us @ fs). n < f_brk s"
    "f_used s < f_brk s" "f_free s < f_brk s" "vs = map (f_value s) us"
    using assms by (auto simp: fifo_rel_def)
  note e = list_empty_iff [OF r(1)] and nx = is_list_next [OF r(1)]
  show "fst (Fifo_pop s) = (case vs of [] \<Rightarrow> None | v # _ \<Rightarrow> Some v)"
    using e nx r(7) by (cases us) (simp_all add: Fifo_pop_def)
  show "fifo_rel (snd (Fifo_pop s)) (tl vs)"
  proof (cases us)
    case Nil
    then show ?thesis using assms e r(7) by (simp add: Fifo_pop_def)
  next
    case (Cons u ws)
    note m = list_move_is_list [of "f_heap s" "f_used s" "[]" u ws "f_free s" fs]
    have p: "snd (Fifo_pop s) = s\<lparr>f_heap := list_move u (f_free s) (f_heap s)\<rparr>"
      using e nx Cons by (simp add: Fifo_pop_def)
    show ?thesis unfolding p
    proof (rule fifo_relI [of _ ws "u # fs"], goal_cases)
      case 1 then show ?case using m(2) r Cons by (simp add: Int_commute)
    next
      case 2 then show ?case using m(1) r Cons by (simp add: Int_commute)
    next
      case 3 then show ?case using r(1,3) Cons by (auto simp: is_list_def)
    qed (use r Cons in auto)
  qed
qed

subsection \<open>The interface of both\<close>

text \<open>
  A store of pointers: \<open>push\<close> puts a value where \<open>ins\<close> says, \<open>pop\<close> returns and removes the first value, or
  nothing when the store is empty. Draining a store returns its values in order.
\<close>

fun pops :: "('s \<Rightarrow> 'v option \<times> 's) \<Rightarrow> nat \<Rightarrow> 's \<Rightarrow> 'v option list \<times> 's" where
  "pops pop 0 s = ([], s)"
| "pops pop (Suc n) s = (let (v, s) = pop s; (vs, s) = pops pop n s in (v # vs, s))"

locale pointer_store =
  fixes rel :: "'s \<Rightarrow> 'v list \<Rightarrow> bool" and push :: "'v \<Rightarrow> 's \<Rightarrow> 's" and pop :: "'s \<Rightarrow> 'v option \<times> 's"
    and ins :: "'v \<Rightarrow> 'v list \<Rightarrow> 'v list"
  assumes push_rel: "rel s vs \<Longrightarrow> rel (push v s) (ins v vs)"
    and pop_value: "rel s vs \<Longrightarrow> fst (pop s) = (case vs of [] \<Rightarrow> None | v # _ \<Rightarrow> Some v)"
    and pop_rel: "rel s vs \<Longrightarrow> rel (snd (pop s)) (tl vs)"
begin

lemma pushes_rel: "rel s vs \<Longrightarrow> rel (fold push ws s) (fold ins ws vs)"
  by (induction ws arbitrary: s vs) (auto intro: push_rel)

lemma pops_rel:
  "rel s vs \<Longrightarrow> fst (pops pop n s) = map Some (take n vs) @ replicate (n - length vs) None \<and>
     rel (snd (pops pop n s)) (drop n vs)"
proof (induction n arbitrary: s vs)
  case (Suc n)
  from Suc.IH [OF pop_rel [OF Suc.prems]] pop_value [OF Suc.prems] show ?case
    by (cases vs) (simp_all add: split_beta Let_def)
qed simp

end

interpretation lifo_store: pointer_store lifo_rel Lifo_push Lifo_pop "(#)"
  by unfold_locales (simp_all add: Lifo_push_rel Lifo_pop_rel)

interpretation fifo_store: pointer_store fifo_rel Fifo_push Fifo_pop "\<lambda>v vs. vs @ [v]"
  by unfold_locales (simp_all add: Fifo_push_rel Fifo_pop_rel)

lemma fold_snoc: "fold (\<lambda>v vs. vs @ [v]) ws vs = vs @ ws"
  by (induction ws arbitrary: vs) auto

lemma fold_Cons_rev: "fold (#) ws vs = rev ws @ vs"
  by (induction ws arbitrary: vs) auto

text \<open>
  \<open>Lifo\<close>, which the object pools use, is a stack and \<open>Fifo\<close> is a queue, whatever nodes they
  recycle: a value pushed on a \<open>Lifo\<close> is the next one popped, the values pushed on a \<open>Fifo\<close> are popped in
  the order of the pushes after those it held before, and popping an empty one returns null.
\<close>

lemma lifo_fifo_order:
  assumes "lifo_rel s vs" and "fifo_rel q us"
  shows "fst (pops Lifo_pop (length ws + length vs + 1) (fold Lifo_push ws s)) = map Some (rev ws @ vs) @ [None] \<and>
    fst (pops Fifo_pop (length ws + length us + 1) (fold Fifo_push ws q)) = map Some (us @ ws) @ [None]"
  using lifo_store.pops_rel [OF lifo_store.pushes_rel [OF assms(1), of ws], of "length ws + length vs + 1"]
    fifo_store.pops_rel [OF fifo_store.pushes_rel [OF assms(2), of ws], of "length ws + length us + 1"]
  by (simp add: fold_snoc fold_Cons_rev)

definition ex_lifo :: "nat Lifo" where
  "ex_lifo = \<lparr>l_next = (\<lambda>_. 0), l_value = (\<lambda>_. 0), l_used = 0, l_free = 0, l_brk = 1\<rparr>"

lemma lifo_fifo_order_witness:
  "fst (pops Lifo_pop 3 (Lifo_push 8 (Lifo_push 7 ex_lifo))) = [Some 8, Some 7, None] \<and>
   fst (pops Fifo_pop 3 (Fifo_push 8 (Fifo_push 7 (Fifo_init 1 2 3 \<lparr>nxt = (\<lambda>_. 0), prv = (\<lambda>_. 0)\<rparr> (\<lambda>_. 0 :: nat))))) =
     [Some 7, Some 8, None]"
proof -
  have l: "lifo_rel ex_lifo []" by (simp add: lifo_rel_def ex_lifo_def)
  have f: "fifo_rel (Fifo_init 1 2 3 \<lparr>nxt = (\<lambda>_. 0), prv = (\<lambda>_. 0)\<rparr> (\<lambda>_. 0 :: nat)) []"
    by (rule Fifo_init_rel) simp_all
  show ?thesis using lifo_fifo_order [OF l f, of "[7, 8]"] by (simp add: numeral_3_eq_3)
qed

end
