(* ===== verification/Gc.thy ===== *)
theory Gc
  imports CList
begin

text \<open>
  The per-coroutine memory of \<open>core/gc.h\<close> and \<open>core/src/gc.cpp\<close>: blocks linked into the list of their manager,
  freed together when the coroutine ends (\<open>gc_free_all\<close>), one by one (\<open>gc_free\<close>) or at the end of a scope
  (\<open>ScopeGC\<close>). A block is the address of its link; \<open>destroyed\<close> records the destructor calls, as block and index
  of the object in it, and \<open>freed\<close> the blocks returned to the allocator, both in order.
\<close>

subsection \<open>Blocks and managers\<close>

record gc_mem =
  gheap :: lheap
  destructor :: "addr \<Rightarrow> bool"
  bnum :: "addr \<Rightarrow> int"
  destroyed :: "(addr \<times> nat) list"
  freed :: "addr list"

text \<open>A manager is the address of its \<open>alloc_list\<close>.\<close>

definition init_gc_mgr :: "addr \<Rightarrow> gc_mem \<Rightarrow> gc_mem" where
  "init_gc_mgr mgr s = s\<lparr>gheap := INIT_LIST_HEAD mgr (gheap s)\<rparr>"

text \<open>\<open>destructor_proxy\<close>: the objects of the block, in order.\<close>

definition destructor_proxy :: "addr \<Rightarrow> int \<Rightarrow> gc_mem \<Rightarrow> gc_mem" where
  "destructor_proxy blk num s = s\<lparr>destroyed := destroyed s @ map (\<lambda>i. (blk, i)) [0..<nat num]\<rparr>"

text \<open>\<open>gc_alloc\<close> and \<open>gc_new\<close>, with the block \<open>p\<close> that \<open>malloc\<close> returned; \<open>NULL\<close> for a number that is not positive.\<close>

definition gc_link :: "addr \<Rightarrow> bool \<Rightarrow> int \<Rightarrow> addr \<Rightarrow> bool \<Rightarrow> gc_mem \<Rightarrow> addr \<times> gc_mem" where
  "gc_link p dtor num mgr add_to_tail s =
     (if num \<le> 0 then (NULL, s)
      else let s = s\<lparr>destructor := (destructor s)(p := dtor), bnum := (bnum s)(p := num)\<rparr>;
               h = INIT_LIST_HEAD p (gheap s)
           in (p, s\<lparr>gheap := (if add_to_tail then list_add_tail p mgr h else list_add p mgr h)\<rparr>))"

definition gc_alloc :: "addr \<Rightarrow> int \<Rightarrow> addr \<Rightarrow> bool \<Rightarrow> gc_mem \<Rightarrow> addr \<times> gc_mem" where
  "gc_alloc p num mgr add_to_tail s = gc_link p False num mgr add_to_tail s"

definition gc_new :: "addr \<Rightarrow> int \<Rightarrow> addr \<Rightarrow> bool \<Rightarrow> gc_mem \<Rightarrow> addr \<times> gc_mem" where
  "gc_new p num mgr add_to_tail s = gc_link p True num mgr add_to_tail s"

definition free_block :: "addr \<Rightarrow> gc_mem \<Rightarrow> gc_mem" where
  "free_block blk s =
     (let s = (if destructor s blk then destructor_proxy blk (bnum s blk) s else s);
          s = s\<lparr>gheap := list_del blk (gheap s)\<rparr>
      in s\<lparr>freed := freed s @ [blk]\<rparr>)"

text \<open>\<open>gc_free\<close>; the assertion on the pointer is the option.\<close>

definition gc_free :: "addr \<Rightarrow> gc_mem \<Rightarrow> gc_mem option" where
  "gc_free p s = (if p = NULL then None else Some (free_block p s))"

text \<open>The loop of \<open>gc_free_all\<close>; \<open>None\<close> when the fuel runs out.\<close>

definition gc_free_all :: "nat \<Rightarrow> addr \<Rightarrow> gc_mem \<Rightarrow> gc_mem option" where
  "gc_free_all k mgr s = list_for_each_entry_safe k gheap free_block mgr s"

text \<open>The constructor and the destructor of \<open>ScopeGC\<close>; \<open>local\<close> is the manager on the destructor's stack.\<close>

definition ScopeGC :: "addr \<Rightarrow> addr \<Rightarrow> gc_mem \<Rightarrow> gc_mem" where
  "ScopeGC m_block mgr s =
     (let s = s\<lparr>destructor := (destructor s)(m_block := False), bnum := (bnum s)(m_block := 1)\<rparr>;
          h = INIT_LIST_HEAD m_block (gheap s)
      in s\<lparr>gheap := list_add_tail m_block mgr h\<rparr>)"

definition ScopeGC_fini :: "nat \<Rightarrow> addr \<Rightarrow> addr \<Rightarrow> addr \<Rightarrow> gc_mem \<Rightarrow> gc_mem option" where
  "ScopeGC_fini k local m_block m_gc_mgr s =
     (let s = init_gc_mgr local s;
          s = s\<lparr>gheap := list_cut_position local m_gc_mgr m_block (gheap s)\<rparr>
      in gc_free_all k local s)"

subsection \<open>What they do\<close>

definition dtors :: "gc_mem \<Rightarrow> addr \<Rightarrow> (addr \<times> nat) list" where
  "dtors s b = (if destructor s b then map (\<lambda>i. (b, i)) [0..<nat (bnum s b)] else [])"

lemma free_block_fields [simp]:
  "gheap (free_block b s) = list_del b (gheap s)" "freed (free_block b s) = freed s @ [b]"
  "destroyed (free_block b s) = destroyed s @ dtors s b" "destructor (free_block b s) = destructor s"
  "bnum (free_block b s) = bnum s"
  by (simp_all add: free_block_def destructor_proxy_def dtors_def Let_def)

lemma dtors_free_block [simp]: "dtors (free_block b s) = dtors s"
  by (simp add: dtors_def fun_eq_iff)

definition keeps_others :: "addr set \<Rightarrow> lheap \<Rightarrow> lheap \<Rightarrow> bool" where
  "keeps_others A h h' \<longleftrightarrow> (\<forall>m zs. is_list h m zs \<longrightarrow> A \<inter> set (m # zs) = {} \<longrightarrow> is_list h' m zs)"

lemma list_del_others:
  assumes "is_list h l (xs @ x # ys)" "set (l # xs @ x # ys) \<subseteq> A"
  shows "keeps_others A h (list_del x h)"
  unfolding keeps_others_def
proof (intro allI impI)
  fix m zs assume m: "is_list h m zs" "A \<inter> set (m # zs) = {}"
  have "y \<notin> set (l # xs @ ys) \<and> y \<noteq> x" if "y \<in> set (m # zs)" for y using that m(2) assms(2) by auto
  then show "is_list (list_del x h) m zs"
    by (intro is_list_frame [OF m(1)]) (use del_between_frame [OF assms(1)] in \<open>simp_all add: list_del_def set_next_def set_prev_def\<close>)
qed

lemma gc_free_all_ok:
  assumes l: "is_list (gheap s) mgr bs" and k: "length bs < k"
  obtains s' where "gc_free_all k mgr s = Some s'" "freed s' = freed s @ bs"
    "destroyed s' = destroyed s @ concat (map (dtors s) bs)" "is_list (gheap s') mgr []"
    "keeps_others (set (mgr # bs)) (gheap s) (gheap s')" "destructor s' = destructor s" "bnum s' = bnum s"
proof -
  let ?I = "\<lambda>xs (s' :: gc_mem). \<exists>ys. bs = ys @ xs \<and> is_list (gheap s') mgr xs \<and> keeps_others (set (mgr # bs)) (gheap s) (gheap s') \<and>
    freed s' = freed s @ ys \<and> destroyed s' = destroyed s @ concat (map (dtors s) ys) \<and>
    destructor s' = destructor s \<and> bnum s' = bnum s"
  have "\<exists>s'. list_for_each_entry_safe k gheap free_block mgr s = Some s' \<and> ?I [] s'"
  proof (rule list_for_each_entry_safe_rule)
    show "is_list (gheap s) mgr bs" by (rule l)
    show "?I bs s" using l by (simp add: keeps_others_def)
    show "chain (nxt (gheap s')) xs mgr" if "?I xs s'" for xs s'
      using that is_list_chain [of "gheap s'" mgr "[]" xs] by auto
    fix x xs s' assume "?I (x # xs) s'"
    then obtain ys where ys: "bs = ys @ x # xs" "is_list (gheap s') mgr ([] @ x # xs)"
      "keeps_others (set (mgr # bs)) (gheap s) (gheap s')"
      "freed s' = freed s @ ys" "destroyed s' = destroyed s @ concat (map (dtors s) ys)"
      "destructor s' = destructor s" "bnum s' = bnum s" by auto
    have "dtors s' = dtors s" using ys(6,7) by (simp add: dtors_def fun_eq_iff)
    moreover have "keeps_others (set (mgr # bs)) (gheap s') (list_del x (gheap s'))"
      by (rule list_del_others [OF ys(2)]) (use ys(1) in auto)
    then have "keeps_others (set (mgr # bs)) (gheap s) (list_del x (gheap s'))"
      using ys(3) unfolding keeps_others_def by blast
    ultimately show "?I xs (free_block x s')"
      using list_del_is_list(1) [OF ys(2)] ys by (intro exI [of _ "ys @ [x]"]) simp
  qed (rule k)
  then show ?thesis using that by (auto simp: gc_free_all_def)
qed

text \<open>
  At the end of a coroutine \<open>gc_free_all\<close> returns, has destroyed every object of every block that
  has a destructor exactly once, in the order of the blocks, has returned every block to the allocator once, and
  leaves the manager's list empty.
\<close>

lemma gc_free_all_frees:
  assumes "is_list (gheap s) mgr bs" and "length bs < k"
  shows "\<exists>s'. gc_free_all k mgr s = Some s' \<and> freed s' = freed s @ bs \<and> is_list (gheap s') mgr [] \<and>
    destroyed s' = destroyed s @
      concat (map (\<lambda>b. if destructor s b then map (\<lambda>i. (b, i)) [0..<nat (bnum s b)] else []) bs)"
proof -
  have "dtors s = (\<lambda>b. if destructor s b then map (\<lambda>i. (b, i)) [0..<nat (bnum s b)] else [])"
    by (simp add: dtors_def fun_eq_iff)
  then show ?thesis by (metis gc_free_all_ok [OF assms])
qed

text \<open>A block that a scope or an allocation appends.\<close>

lemma gc_new_appends:
  assumes "is_list (gheap s) mgr bs" "p \<notin> set (mgr # bs)" "0 < num"
  shows "fst (gc_link p d num mgr True s) = p" "is_list (gheap (snd (gc_link p d num mgr True s))) mgr (bs @ [p])"
    "freed (snd (gc_link p d num mgr True s)) = freed s"
  using assms list_add_tail_is_list [OF is_list_after_INIT [OF assms(1,2)] assms(2)] by (auto simp: gc_link_def Let_def)

lemma ScopeGC_appends:
  assumes "is_list (gheap s) mgr bs" "p \<notin> set (mgr # bs)"
  shows "is_list (gheap (ScopeGC p mgr s)) mgr (bs @ [p])" "freed (ScopeGC p mgr s) = freed s"
  using assms list_add_tail_is_list [OF is_list_after_INIT [OF assms] assms(2)] by (auto simp: ScopeGC_def Let_def)

text \<open>The allocations of a scope, each of one object with a destructor, as \<open>GC_NEW\<close> makes them.\<close>

definition gc_news :: "addr list \<Rightarrow> addr \<Rightarrow> gc_mem \<Rightarrow> gc_mem" where
  "gc_news ps mgr s = fold (\<lambda>p s. snd (gc_new p 1 mgr True s)) ps s"

lemma gc_news_appends:
  assumes "is_list (gheap s) mgr bs" "distinct ps" "set ps \<inter> set (mgr # bs) = {}"
  shows "is_list (gheap (gc_news ps mgr s)) mgr (bs @ ps) \<and> freed (gc_news ps mgr s) = freed s"
  using assms
proof (induction ps arbitrary: s bs)
  case (Cons p ps)
  let ?s = "snd (gc_new p 1 mgr True s)"
  have "is_list (gheap ?s) mgr (bs @ [p])" "freed ?s = freed s"
    using gc_new_appends [of s mgr bs p 1 True] Cons.prems by (auto simp: gc_new_def)
  then show ?case using Cons.IH [of ?s "bs @ [p]"] Cons.prems by (simp add: gc_news_def)
qed (simp add: gc_news_def)

text \<open>
  The end of a scope frees the wrong blocks. \<open>ScopeGC\<close> appends its mark to the manager's list and its
  destructor cuts off the part of the list up to the mark: the blocks allocated before the scope began are freed,
  in the middle of the life of their owner, and the blocks allocated inside the scope stay.
\<close>

lemma gc_scope_frees_outer:
  assumes "is_list (gheap s) mgr bs" and "distinct (local # mark # ps @ mgr # bs)" and "length bs + 1 < k"
  shows "\<exists>s'. ScopeGC_fini k local mark mgr (gc_news ps mgr (ScopeGC mark mgr s)) = Some s' \<and>
    freed s' = freed s @ bs @ [mark] \<and> is_list (gheap s') mgr ps"
proof -
  let ?s1 = "ScopeGC mark mgr s"
  have l1: "is_list (gheap ?s1) mgr (bs @ [mark])" "freed ?s1 = freed s"
    using ScopeGC_appends [OF assms(1)] assms(2) by auto
  let ?s2 = "gc_news ps mgr ?s1"
  have l2: "is_list (gheap ?s2) mgr (bs @ mark # ps)" "freed ?s2 = freed s"
    using gc_news_appends [OF l1(1), of ps] l1(2) assms(2) by auto
  let ?h = "INIT_LIST_HEAD local (gheap ?s2)"
  have n: "local \<notin> set (mgr # bs @ mark # ps)" using assms(2) by auto
  have c: "is_list (list_cut_position local mgr mark ?h) local (bs @ [mark])"
    "is_list (list_cut_position local mgr mark ?h) mgr ps"
    using list_cut_position_is_list [OF is_list_after_INIT [OF l2(1) n] n] by simp_all
  define s3 where "s3 = (init_gc_mgr local ?s2)\<lparr>gheap := list_cut_position local mgr mark ?h\<rparr>"
  have f: "gheap s3 = list_cut_position local mgr mark ?h" "freed s3 = freed s"
    using l2(2) by (simp_all add: s3_def init_gc_mgr_def)
  have e: "ScopeGC_fini k local mark mgr ?s2 = gc_free_all k local s3"
    by (simp add: ScopeGC_fini_def s3_def init_gc_mgr_def Let_def)
  obtain s' where s': "gc_free_all k local s3 = Some s'" "freed s' = freed s3 @ bs @ [mark]"
    "keeps_others (set (local # bs @ [mark])) (gheap s3) (gheap s')"
    by (rule gc_free_all_ok [of s3 local "bs @ [mark]" k]) (use c(1) f(1) assms(3) in auto)
  have "is_list (gheap s') mgr ps" using s'(3) c(2) assms(2) unfolding keeps_others_def f(1) by auto
  then show ?thesis using e s' f(2) by auto
qed

text \<open>Two blocks of a manager at address 1.\<close>

definition ex_gc :: gc_mem where
  "ex_gc = \<lparr>gheap = \<lparr>nxt = (\<lambda>x. x), prv = (\<lambda>x. x)\<rparr>, destructor = (\<lambda>_. False), bnum = (\<lambda>_. 0), destroyed = [], freed = []\<rparr>"

lemma ex_gc_list: "is_list (gheap ex_gc) 1 []" "is_list (gheap (gc_news [10, 20] 1 ex_gc)) 1 [10, 20]"
proof -
  show e: "is_list (gheap ex_gc) 1 []" by (auto simp: ex_gc_def)
  show "is_list (gheap (gc_news [10, 20] 1 ex_gc)) 1 [10, 20]" using gc_news_appends [OF e, of "[10, 20]"] by simp
qed

lemma gc_free_all_frees_witness:
  "\<exists>s'. gc_free_all 3 1 (gc_news [10, 20] 1 ex_gc) = Some s' \<and> freed s' = [10, 20] \<and>
     destroyed s' = [(10, 0), (20, 0)]"
proof -
  have "freed (gc_news [10, 20] 1 ex_gc) = []" "destroyed (gc_news [10, 20] 1 ex_gc) = []"
    "destructor (gc_news [10, 20] 1 ex_gc) 10" "destructor (gc_news [10, 20] 1 ex_gc) 20"
    "bnum (gc_news [10, 20] 1 ex_gc) 10 = 1" "bnum (gc_news [10, 20] 1 ex_gc) 20 = 1"
    by (simp_all add: gc_news_def gc_new_def gc_link_def ex_gc_def Let_def)
  then show ?thesis using gc_free_all_frees [OF ex_gc_list(2), of 3] by auto
qed

lemma gc_scope_frees_outer_witness:
  "\<exists>s'. ScopeGC_fini 4 2 30 1 (gc_news [40, 50] 1 (ScopeGC 30 1 (gc_news [10, 20] 1 ex_gc))) = Some s' \<and>
     freed s' = [10, 20, 30] \<and> is_list (gheap s') 1 [40, 50]"
proof -
  have "freed (gc_news [10, 20] 1 ex_gc) = []" by (simp add: gc_news_def gc_new_def gc_link_def ex_gc_def Let_def)
  then show ?thesis using gc_scope_frees_outer [OF ex_gc_list(2), of 2 30 "[40, 50]" 4] by simp
qed

end
