(* ===== verification/CoStack.thy ===== *)
theory CoStack
  imports Mempool Gc
begin

text \<open>
  The memory of a coroutine, in \<open>core/src/coroutine.cpp\<close>: its structure and stack
  (\<open>alloc_coroutine\<close>, \<open>set_callback\<close>, \<open>free_coroutine\<close>) on top of the pools of
  \<open>Mempool\<close>, its manager of allocated blocks (\<open>get_gc_mgr\<close>) on top of \<open>Gc\<close>, and its tables of
  static and thread-specific variables. The addresses that \<open>mmap\<close>, \<open>memalign\<close> and \<open>malloc\<close>
  return are arguments; \<open>sys_log\<close> records the calls that obtain or return a stack outside the
  pool. An \<open>int\<close> is a 32-bit word read as signed.
\<close>

subsection \<open>State\<close>

datatype sys_call = Mapped addr u64 | Memaligned addr u64 | Unmapped addr u64 | Freed addr

type_synonym ptr_map = "u64 \<rightharpoonup> addr"

record co_data =
  co_stack :: addr
  co_stack_size :: u64
  co_is_page_stack :: bool
  co_pfn :: nat
  co_pfn_arg :: addr
  co_gc_mgr :: addr
  co_static_vars :: "ptr_map option"
  co_spec :: "ptr_map option"
  co_pthread_spec :: "ptr_map option"

record co_memory =
  default_stack_pool :: fixed_mempool_t
  co_struct_pool :: fixed_mempool_t
  FLAGS_stack_size :: u32
  g_page_size :: int
  sys_log :: "sys_call list"
  co_data_of :: "addr \<Rightarrow> co_data"
  current_co :: addr
  gc_mem_of :: gc_mem
  mgr_freed :: "addr list"

definition upd_co :: "addr \<Rightarrow> (co_data \<Rightarrow> co_data) \<Rightarrow> co_memory \<Rightarrow> co_memory" where
  "upd_co co f s = s\<lparr>co_data_of := (co_data_of s)(co := f (co_data_of s co))\<rparr>"

subsection \<open>Stacks\<close>

text \<open>The fields of \<open>init_coroutine\<close> that concern memory.\<close>

definition clear_co_data :: "addr \<Rightarrow> co_memory \<Rightarrow> co_memory" where
  "clear_co_data co s = upd_co co (\<lambda>d. d\<lparr>co_stack := NULL, co_stack_size := 0, co_gc_mgr := NULL,
     co_static_vars := None, co_spec := None, co_pthread_spec := None\<rparr>) s"

definition env_pools_init :: "u64 \<Rightarrow> u32 \<Rightarrow> co_memory \<Rightarrow> co_memory" where
  "env_pools_init co_bytes co_align s =
     s\<lparr>default_stack_pool := mempool_init (g_page_size s) (scast (FLAGS_stack_size s)) 100000 64 (default_stack_pool s),
       co_struct_pool := mempool_init (g_page_size s) co_bytes 1000 co_align (co_struct_pool s)\<rparr>"

text \<open>The size of a stack that does not come from the pool: a multiple of the cache line, then of the page.\<close>

definition own_stack_size :: "co_memory \<Rightarrow> u32 \<Rightarrow> bool \<times> u32" where
  "own_stack_size s n =
     (let n = word_of_int (and (sint n) (- 64))
      in if sint n \<ge> g_page_size s \<and> g_page_size s > 0
         then (True, word_of_int ((sint n + g_page_size s - 1) div g_page_size s * g_page_size s))
         else (False, n))"

definition set_callback :: "addr \<Rightarrow> nat \<Rightarrow> addr \<Rightarrow> u32 \<Rightarrow> addr \<Rightarrow> co_memory \<Rightarrow> co_memory" where
  "set_callback self fn arg n new s =
     (let (stack, n', page, s) =
        (if n = FLAGS_stack_size s
         then let (b, p) = mempool_alloc new (default_stack_pool s)
              in (b, ucast (alloc_size p), is_page_alloc p, s\<lparr>default_stack_pool := p\<rparr>)
         else let (page, m) = own_stack_size s n
              in (new, m, page, s\<lparr>sys_log := sys_log s @ [if page then Mapped new (scast m) else Memaligned new (scast m)]\<rparr>))
      in upd_co self (\<lambda>d. d\<lparr>co_stack := stack, co_is_page_stack := page, co_stack_size := scast (n' :: u32),
           co_pfn := fn, co_pfn_arg := arg\<rparr>) s)"

definition alloc_coroutine :: "nat \<Rightarrow> addr \<Rightarrow> u32 \<Rightarrow> addr \<Rightarrow> addr \<Rightarrow> co_memory \<Rightarrow> addr \<times> co_memory" where
  "alloc_coroutine fn arg n newco new s =
     (let (co, p) = mempool_alloc newco (co_struct_pool s);
          s = s\<lparr>co_struct_pool := p\<rparr>;
          n = (if n = 0 then FLAGS_stack_size s else n)
      in (co, set_callback co fn arg n new (clear_co_data co s)))"

text \<open>\<open>free_coroutine\<close>: the blocks of the manager and the manager, the stack, the structure. The tables
  are deleted and what they point to is not.\<close>

definition free_stack :: "addr \<Rightarrow> co_memory \<Rightarrow> co_memory" where
  "free_stack co s =
     (let d = co_data_of s co
      in if co_stack_size d = scast (FLAGS_stack_size s)
         then s\<lparr>default_stack_pool := mempool_free (co_stack d) (default_stack_pool s)\<rparr>
         else s\<lparr>sys_log := sys_log s @
                [if co_is_page_stack d then Unmapped (co_stack d) (co_stack_size d) else Freed (co_stack d)]\<rparr>)"

definition free_gc_mgr :: "nat \<Rightarrow> addr \<Rightarrow> co_memory \<Rightarrow> co_memory option" where
  "free_gc_mgr k co s =
     (let mgr = co_gc_mgr (co_data_of s co)
      in if mgr \<noteq> NULL
         then case gc_free_all k mgr (gc_mem_of s) of
                None \<Rightarrow> None
              | Some g \<Rightarrow> Some (upd_co co (\<lambda>d. d\<lparr>co_gc_mgr := NULL\<rparr>)
                            (s\<lparr>gc_mem_of := g, mgr_freed := mgr_freed s @ [mgr]\<rparr>))
         else Some s)"

definition free_coroutine :: "nat \<Rightarrow> addr \<Rightarrow> co_memory \<Rightarrow> co_memory option" where
  "free_coroutine k co s =
     (case free_gc_mgr k co s of
        None \<Rightarrow> None
      | Some s \<Rightarrow>
          let s = upd_co co (\<lambda>d. d\<lparr>co_stack := NULL\<rparr>) (free_stack co s)
          in Some (s\<lparr>co_struct_pool := mempool_free co (co_struct_pool s)\<rparr>))"

subsection \<open>The manager of blocks and the tables of variables\<close>

definition get_gc_mgr :: "addr \<Rightarrow> co_memory \<Rightarrow> addr \<times> co_memory" where
  "get_gc_mgr new s =
     (let cur = current_co s; mgr = co_gc_mgr (co_data_of s cur)
      in if mgr = NULL
         then (new, upd_co cur (\<lambda>d. d\<lparr>co_gc_mgr := new\<rparr>) (s\<lparr>gc_mem_of := init_gc_mgr new (gc_mem_of s)\<rparr>))
         else (mgr, s))"

text \<open>\<open>operator[]\<close> of \<open>std::map\<close> inserts a null pointer under a new key.\<close>

definition map_at :: "ptr_map \<Rightarrow> u64 \<Rightarrow> addr \<times> ptr_map" where
  "map_at m key = (case m key of Some v \<Rightarrow> (v, m) | None \<Rightarrow> (NULL, m(key \<mapsto> NULL)))"

definition tbl_get :: "u64 \<Rightarrow> ptr_map option \<Rightarrow> addr \<times> ptr_map option" where
  "tbl_get key t = (case t of None \<Rightarrow> (NULL, None) | Some m \<Rightarrow> let (v, m) = map_at m key in (v, Some m))"

definition tbl_set :: "u64 \<Rightarrow> addr \<Rightarrow> ptr_map option \<Rightarrow> addr \<times> ptr_map option" where
  "tbl_set key val t =
     (let m = (case t of None \<Rightarrow> Map.empty | Some m \<Rightarrow> m); (old, m) = map_at m key in (old, Some (m(key \<mapsto> val))))"

definition set_static_var :: "u64 \<Rightarrow> addr \<Rightarrow> co_memory \<Rightarrow> addr \<times> co_memory" where
  "set_static_var key val s =
     (let (old, t) = tbl_set key val (co_static_vars (co_data_of s (current_co s)))
      in (old, upd_co (current_co s) (\<lambda>d. d\<lparr>co_static_vars := t\<rparr>) s))"

definition get_static_var :: "u64 \<Rightarrow> co_memory \<Rightarrow> addr \<times> co_memory" where
  "get_static_var key s =
     (let (v, t) = tbl_get key (co_static_vars (co_data_of s (current_co s)))
      in (v, upd_co (current_co s) (\<lambda>d. d\<lparr>co_static_vars := t\<rparr>) s))"

definition get_spec :: "u64 \<Rightarrow> co_memory \<Rightarrow> addr \<times> co_memory" where
  "get_spec key s =
     (let (v, t) = tbl_get key (co_spec (co_data_of s (current_co s)))
      in (v, upd_co (current_co s) (\<lambda>d. d\<lparr>co_spec := t\<rparr>) s))"

definition set_spec :: "u64 \<Rightarrow> addr \<Rightarrow> co_memory \<Rightarrow> int \<times> co_memory" where
  "set_spec key val s =
     (0, upd_co (current_co s) (\<lambda>d. d\<lparr>co_spec := snd (tbl_set key val (co_spec d))\<rparr>) s)"

definition get_pthread_spec :: "u32 \<Rightarrow> co_memory \<Rightarrow> addr \<times> co_memory" where
  "get_pthread_spec key s =
     (let (v, t) = tbl_get (ucast key) (co_pthread_spec (co_data_of s (current_co s)))
      in (v, upd_co (current_co s) (\<lambda>d. d\<lparr>co_pthread_spec := t\<rparr>) s))"

definition set_pthread_spec :: "u32 \<Rightarrow> addr \<Rightarrow> co_memory \<Rightarrow> int \<times> co_memory" where
  "set_pthread_spec key val s =
     (0, upd_co (current_co s) (\<lambda>d. d\<lparr>co_pthread_spec := snd (tbl_set (ucast key) val (co_pthread_spec d))\<rparr>) s)"

subsection \<open>Where stacks come from and go to\<close>

lemma upd_co_simps [simp]:
  "co_data_of (upd_co co f s) = (co_data_of s)(co := f (co_data_of s co))"
  "default_stack_pool (upd_co co f s) = default_stack_pool s" "co_struct_pool (upd_co co f s) = co_struct_pool s"
  "FLAGS_stack_size (upd_co co f s) = FLAGS_stack_size s" "g_page_size (upd_co co f s) = g_page_size s"
  "sys_log (upd_co co f s) = sys_log s" "gc_mem_of (upd_co co f s) = gc_mem_of s" "mgr_freed (upd_co co f s) = mgr_freed s"
  "current_co (upd_co co f s) = current_co s"
  by (simp_all add: upd_co_def)

lemma clear_co_data_simps [simp]:
  "default_stack_pool (clear_co_data co s) = default_stack_pool s" "co_struct_pool (clear_co_data co s) = co_struct_pool s"
  "FLAGS_stack_size (clear_co_data co s) = FLAGS_stack_size s" "g_page_size (clear_co_data co s) = g_page_size s"
  "sys_log (clear_co_data co s) = sys_log s" "gc_mem_of (clear_co_data co s) = gc_mem_of s"
  "co_gc_mgr (co_data_of (clear_co_data co s) co) = NULL"
  by (simp_all add: clear_co_data_def)

lemma own_stack_size_cong:
  "g_page_size s' = g_page_size s \<Longrightarrow> own_stack_size s' n = own_stack_size s n"
  by (simp add: own_stack_size_def Let_def)

definition from_pool :: "co_memory \<Rightarrow> u32 \<Rightarrow> bool" where
  "from_pool s n \<longleftrightarrow> n = 0 \<or> n = FLAGS_stack_size s"

definition own_calls :: "co_memory \<Rightarrow> u32 \<Rightarrow> addr \<Rightarrow> sys_call \<times> sys_call" where
  "own_calls s n b = (case own_stack_size s n of
     (page, m) \<Rightarrow> if page then (Mapped b (scast m), Unmapped b (scast m)) else (Memaligned b (scast m), Freed b))"

lemma mempool_alloc_frame:
  assumes "mempool_alloc new p = (b, p')"
  shows "alloc_size p' = alloc_size p" "is_page_alloc p' = is_page_alloc p" "used_num p' = used_num p + 1"
    "max_num p' = max_num p"
  using assms by (auto simp: mempool_alloc_def Let_def split: prod.splits if_splits)


lemma scast_32_inj [simp]: "(scast (a :: u32) :: u64) = scast b \<longleftrightarrow> a = b"
  by (metis ucast_scast_32)

text \<open>A stack of the pool: taken from it, and what the structure records of it.\<close>

lemma alloc_from_pool:
  assumes "from_pool s n" and "alloc_coroutine fn arg n newco new s = (co, s1)"
    and "mempool_alloc newco (co_struct_pool s) = (co, q)" and "mempool_alloc new (default_stack_pool s) = (b, p)"
  shows "default_stack_pool s1 = p" "co_struct_pool s1 = q" "sys_log s1 = sys_log s" "FLAGS_stack_size s1 = FLAGS_stack_size s"
    "gc_mem_of s1 = gc_mem_of s" "co_gc_mgr (co_data_of s1 co) = NULL" "co_stack (co_data_of s1 co) = b"
    "co_stack_size (co_data_of s1 co) = scast (ucast (alloc_size (default_stack_pool s)) :: u32)"
    "co_is_page_stack (co_data_of s1 co) = is_page_alloc (default_stack_pool s)"
  using assms mempool_alloc_frame [OF assms(4)]
  by (auto simp: from_pool_def alloc_coroutine_def set_callback_def clear_co_data_def Let_def split: if_splits)

text \<open>A stack of its own.\<close>

lemma alloc_own:
  assumes "\<not> from_pool s n" and "alloc_coroutine fn arg n newco new s = (co, s1)"
    and "mempool_alloc newco (co_struct_pool s) = (co, q)" and "own_stack_size s n = (page, m)"
  shows "default_stack_pool s1 = default_stack_pool s" "co_struct_pool s1 = q"
    "sys_log s1 = sys_log s @ [if page then Mapped new (scast m) else Memaligned new (scast m)]"
    "FLAGS_stack_size s1 = FLAGS_stack_size s" "gc_mem_of s1 = gc_mem_of s"
    "co_gc_mgr (co_data_of s1 co) = NULL" "co_stack (co_data_of s1 co) = new"
    "co_stack_size (co_data_of s1 co) = scast m" "co_is_page_stack (co_data_of s1 co) = page"
proof -
  have "own_stack_size (clear_co_data co (s\<lparr>co_struct_pool := q\<rparr>)) n = (page, m)"
    using assms(4) own_stack_size_cong [of "clear_co_data co (s\<lparr>co_struct_pool := q\<rparr>)" s n] by simp
  with assms show "default_stack_pool s1 = default_stack_pool s" "co_struct_pool s1 = q"
    "sys_log s1 = sys_log s @ [if page then Mapped new (scast m) else Memaligned new (scast m)]"
    "FLAGS_stack_size s1 = FLAGS_stack_size s" "gc_mem_of s1 = gc_mem_of s"
    "co_gc_mgr (co_data_of s1 co) = NULL" "co_stack (co_data_of s1 co) = new"
    "co_stack_size (co_data_of s1 co) = scast m" "co_is_page_stack (co_data_of s1 co) = page"
    by (auto simp: from_pool_def alloc_coroutine_def set_callback_def Let_def split: if_splits)
qed

lemma free_coroutine_no_gc:
  assumes "co_gc_mgr (co_data_of s co) = NULL"
  shows "free_coroutine k co s =
    Some ((upd_co co (\<lambda>d. d\<lparr>co_stack := NULL\<rparr>) (free_stack co s))\<lparr>co_struct_pool := mempool_free co (co_struct_pool s)\<rparr>)"
  using assms by (simp add: free_coroutine_def free_gc_mgr_def free_stack_def Let_def)

text \<open>The pool made for the flag hands out stacks of exactly that size when it is a multiple of the page.\<close>

lemma round_up_word:
  fixes p f :: int
  assumes "0 < p" "p dvd f" "0 < f" "f < 2 ^ 31"
  shows "(word_of_int p :: u64) \<le> word_of_int f"
    and "((word_of_int f :: u64) + word_of_int p - 1) div word_of_int p * word_of_int p = word_of_int f"
proof -
  have le: "p \<le> f" using assms by (simp add: zdvd_imp_le)
  have u: "uint (word_of_int x :: u64) = x" if "0 \<le> x" "x < 2 ^ 32" for x
    using that by (simp add: uint_word_of_int)
  have up: "uint (word_of_int p :: u64) = p" and uf: "uint (word_of_int f :: u64) = f" using u assms le by auto
  then show "(word_of_int p :: u64) \<le> word_of_int f" using le by (simp add: word_le_def)
  have s: "(word_of_int f :: u64) + word_of_int p - 1 = word_of_int (f + p - 1)" by simp
  have us: "uint (word_of_int (f + p - 1) :: u64) = f + p - 1" using assms le by (intro u) simp_all
  have d: "(f + p - 1) div p * p = f"
  proof -
    obtain q where q: "f = p * q" using assms(2) by (elim dvdE)
    have "(p * q + (p - 1)) div p = q" using assms(1) by (simp add: div_pos_pos_trivial)
    then show ?thesis using q by (simp add: algebra_simps)
  qed
  have "uint ((word_of_int (f + p - 1) :: u64) div word_of_int p) = (f + p - 1) div p"
    by (simp only: uint_div us up)
  then have "(word_of_int (f + p - 1) :: u64) div word_of_int p = word_of_int ((f + p - 1) div p)"
    by (metis word_of_int_uint)
  then show "((word_of_int f :: u64) + word_of_int p - 1) div word_of_int p * word_of_int p = word_of_int f"
    unfolding s by (metis d wi_hom_mult)
qed

lemma env_pools_size:
  assumes "0 < g_page_size s" "g_page_size s dvd sint (FLAGS_stack_size s)" "0 < sint (FLAGS_stack_size s)"
  shows "alloc_size (default_stack_pool (env_pools_init a b s)) = scast (FLAGS_stack_size s)"
    and "is_page_alloc (default_stack_pool (env_pools_init a b s))"
proof -
  have "sint (FLAGS_stack_size s) < 2 ^ 31" using sint_lt [of "FLAGS_stack_size s"] by simp
  note R = round_up_word [OF assms this]
  have su: "scast (FLAGS_stack_size s) = (word_of_int (sint (FLAGS_stack_size s)) :: u64)" by (rule scast_eq)
  have "alloc_size (mempool_init p f mx al q) = f \<and> is_page_alloc (mempool_init p f mx al q)"
    if "0 < p" "word_of_int p \<le> f" "(f + word_of_int p - 1) div word_of_int p * word_of_int p = f" for p f mx al q
    using that by (simp add: mempool_init_def)
  from this [OF assms(1) R [folded su]]
  show "alloc_size (default_stack_pool (env_pools_init a b s)) = scast (FLAGS_stack_size s)"
    and "is_page_alloc (default_stack_pool (env_pools_init a b s))"
    by (simp_all add: env_pools_init_def)
qed

subsection \<open>Properties\<close>

text \<open>
  C11. A coroutine gives its memory back to where it came from, when the default stack size is a multiple
  of the page and the size asked for is 0, the default size, or one that is not rounded up to the
  default size (a size that is, is the subject of the next theorem): freeing a new coroutine returns a pooled stack to the pool
  and unmaps or frees any other stack with the size it was obtained with; both pools keep their accounts.
\<close>

theorem stack_returns_to_source:
  assumes pool: "pool_ok (default_stack_pool s) fs us" "new \<notin> set (free_list (default_stack_pool s) # NULL # fs @ us)"
      "length fs + length us < 2 ^ 64 - 2"
    and co: "pool_ok (co_struct_pool s) gs vs" "newco \<notin> set (free_list (co_struct_pool s) # NULL # gs @ vs)"
      "length gs + length vs < 2 ^ 64 - 2"
    and sz: "alloc_size (default_stack_pool s) = scast (FLAGS_stack_size s)"
    and n: "from_pool s n \<or> snd (own_stack_size s n) \<noteq> FLAGS_stack_size s"
    and new: "alloc_coroutine fn arg n newco new s = (c, s1)"
  shows "\<exists>s2 fs' gs'. free_coroutine k c s1 = Some s2 \<and> pool_ok (default_stack_pool s2) fs' us \<and>
    pool_ok (co_struct_pool s2) gs' vs \<and>
    (if from_pool s n then sys_log s2 = sys_log s
     else default_stack_pool s2 = default_stack_pool s \<and>
       sys_log s2 = sys_log s @ [fst (own_calls s n new), snd (own_calls s n new)])"
proof -
  obtain b p where p: "mempool_alloc new (default_stack_pool s) = (b, p)" by fastforce
  obtain q where q: "mempool_alloc newco (co_struct_pool s) = (c, q)"
    using new by (auto simp: alloc_coroutine_def Let_def split: prod.splits)
  obtain page m where m: "own_stack_size s n = (page, m)" by fastforce
  obtain gs' where gs': "pool_ok (mempool_free c q) gs' vs"
    using pool_free_ok [of q "tl gs" c vs] pool_alloc_ok [OF co q] by (meson)
  show ?thesis
  proof (cases "from_pool s n")
    case True
    note A = alloc_from_pool [OF True new q p]
    obtain fs' where fs': "pool_ok (mempool_free b p) fs' us"
      using pool_free_ok [of p "tl fs" b us] pool_alloc_ok [OF pool p] by (meson)
    show ?thesis using True fs' gs'
      by (auto simp: free_coroutine_no_gc A free_stack_def sz)
  next
    case False
    note A = alloc_own [OF False new q m]
    have "m \<noteq> FLAGS_stack_size s" using n False m by simp
    with False gs' pool(1) show ?thesis
      by (auto simp: free_coroutine_no_gc A free_stack_def own_calls_def m)
  qed
qed

text \<open>An environment with pages of 4096 bytes and the default flag; both pools are empty.\<close>

definition ex_co_memory :: co_memory where
  "ex_co_memory = env_pools_init 256 64
     \<lparr>default_stack_pool = ex_pool, co_struct_pool = ex_pool, FLAGS_stack_size = 16384, g_page_size = 4096, sys_log = [],
      co_data_of = (\<lambda>_. \<lparr>co_stack = 0, co_stack_size = 0, co_is_page_stack = False, co_pfn = 0, co_pfn_arg = 0, co_gc_mgr = 0,
        co_static_vars = None, co_spec = None, co_pthread_spec = None\<rparr>), current_co = 1,
      gc_mem_of = \<lparr>gheap = \<lparr>nxt = id, prv = id\<rparr>, destructor = (\<lambda>_. False), bnum = (\<lambda>_. 0), destroyed = [], freed = []\<rparr>,
      mgr_freed = []\<rparr>"

lemma mempool_init_ok: "pool_ok (mempool_init pg a mx al p) fs us = pool_ok p fs us"
  by (simp add: mempool_init_def pool_ok_def)

lemma ex_co_memory_ok:
  "pool_ok (default_stack_pool ex_co_memory) [] []" "pool_ok (co_struct_pool ex_co_memory) [] []"
  "free_list (default_stack_pool ex_co_memory) = free_list ex_pool" "free_list (co_struct_pool ex_co_memory) = free_list ex_pool"
  "alloc_size (default_stack_pool ex_co_memory) = scast (FLAGS_stack_size ex_co_memory)"
  "FLAGS_stack_size ex_co_memory = 16384" "g_page_size ex_co_memory = 4096" "sys_log ex_co_memory = []"
  "used_num (default_stack_pool ex_co_memory) = 0"
proof -
  show "alloc_size (default_stack_pool ex_co_memory) = scast (FLAGS_stack_size ex_co_memory)"
    unfolding ex_co_memory_def by (subst env_pools_size(1)) (simp_all add: env_pools_init_def)
qed (simp_all add: ex_co_memory_def env_pools_init_def mempool_init_ok ex_pool_ok(1), simp_all add: mempool_init_def ex_pool_def)

theorem stack_returns_to_source_witness:
  "\<exists>s2. free_coroutine 1 (fst (alloc_coroutine 3 4 5000 6 8 ex_co_memory)) (snd (alloc_coroutine 3 4 5000 6 8 ex_co_memory)) = Some s2 \<and>
     sys_log s2 = [Mapped 8 8192, Unmapped 8 8192]"
proof -
  let ?s = ex_co_memory
  have o: "own_stack_size ?s 5000 = (True, 8192)" by (simp add: own_stack_size_def ex_co_memory_ok)
  have f: "\<not> from_pool ?s 5000" by (simp add: from_pool_def ex_co_memory_ok)
  obtain c s1 where new: "alloc_coroutine 3 4 5000 6 8 ?s = (c, s1)" by fastforce
  have a: "8 \<notin> set (free_list (default_stack_pool ?s) # NULL # [] @ [])" "6 \<notin> set (free_list (co_struct_pool ?s) # NULL # [] @ [])"
    by (simp_all add: ex_co_memory_ok ex_pool_def mempool_init_def)
  have "\<exists>s2 fs' gs'. free_coroutine 1 c s1 = Some s2 \<and> pool_ok (default_stack_pool s2) fs' [] \<and>
    pool_ok (co_struct_pool s2) gs' [] \<and>
    (if from_pool ?s 5000 then sys_log s2 = sys_log ?s
     else default_stack_pool s2 = default_stack_pool ?s \<and>
       sys_log s2 = sys_log ?s @ [fst (own_calls ?s 5000 8), snd (own_calls ?s 5000 8)])"
    by (rule stack_returns_to_source [OF ex_co_memory_ok(1) a(1) _ ex_co_memory_ok(2) a(2) _ ex_co_memory_ok(5) _ new])
       (simp_all add: o ex_co_memory_ok)
  then show ?thesis using f new by (auto simp: own_calls_def o ex_co_memory_ok)
qed



text \<open>
  With a default size that is not a multiple of the page the pool hands out larger stacks, which are
  unmapped instead of returned: the pool counts them as in use for ever.
\<close>

lemma stack_pool_drains:
  assumes n: "from_pool s n" "(ucast (alloc_size (default_stack_pool s)) :: u32) \<noteq> FLAGS_stack_size s"
      "is_page_alloc (default_stack_pool s)"
    and new: "alloc_coroutine fn arg n newco new s = (c, s1)"
  shows "\<exists>s2 b. free_coroutine k c s1 = Some s2 \<and>
    sys_log s2 = sys_log s @ [Unmapped b (scast (ucast (alloc_size (default_stack_pool s)) :: u32))] \<and>
    used_num (default_stack_pool s2) = used_num (default_stack_pool s) + 1"
proof -
  obtain b p where p: "mempool_alloc new (default_stack_pool s) = (b, p)" by fastforce
  obtain q where q: "mempool_alloc newco (co_struct_pool s) = (c, q)"
    using new by (auto simp: alloc_coroutine_def Let_def split: prod.splits)
  note A = alloc_from_pool [OF n(1) new q p]
  show ?thesis
    using n(2,3) mempool_alloc_frame(3) [OF p] by (auto simp: free_coroutine_no_gc A free_stack_def)
qed

text \<open>The end of a coroutine frees every block of its manager once, and the manager.\<close>

lemma free_coroutine_frees_blocks:
  assumes "co_gc_mgr (co_data_of s co) = mgr" "mgr \<noteq> NULL" "is_list (gheap (gc_mem_of s)) mgr bs" "length bs < k"
  shows "\<exists>s'. free_coroutine k co s = Some s' \<and> freed (gc_mem_of s') = freed (gc_mem_of s) @ bs \<and>
    mgr_freed s' = mgr_freed s @ [mgr] \<and> co_gc_mgr (co_data_of s' co) = NULL"
proof -
  obtain g where "gc_free_all k mgr (gc_mem_of s) = Some g" "freed g = freed (gc_mem_of s) @ bs"
    using gc_free_all_frees [OF assms(3,4)] by blast
  then show ?thesis
    using assms(1,2) by (auto simp: free_coroutine_def free_gc_mgr_def free_stack_def Let_def)
qed

text \<open>The tables: what was stored is read back, and storing returns what was there.\<close>

lemma static_var_roundtrip:
  "set_static_var key val s = (old, s1) \<Longrightarrow> fst (get_static_var key s1) = val \<and> old = fst (get_static_var key s) \<and>
   (\<forall>k. k \<noteq> key \<longrightarrow> fst (get_static_var k s1) = fst (get_static_var k s))"
  by (auto simp: set_static_var_def get_static_var_def tbl_set_def tbl_get_def map_at_def Let_def
      split: option.splits prod.splits if_splits)

end
