(* ===== verification/LList.thy ===== *)
theory LList
  imports Prelude
begin

text \<open>
  The lock-free list of \<open>base/llist.h\<close>, through which the threads of a program hand their log requests to the
  logger and their wakeups to another coroutine environment. The memory is the pointer \<open>first\<close> of the head and
  the \<open>next\<close> fields of the nodes. The operations that threads run against each other are split at their memory
  accesses: \<open>llist_step\<close> is one access of one thread, and \<open>llist_run\<close> lets any thread take the next step.
\<close>

subsection \<open>Memory and the operations without interference\<close>

record llist_mem =
  first :: addr
  lnext :: "addr \<Rightarrow> addr"

definition init_llist_head :: "llist_mem \<Rightarrow> llist_mem" where
  "init_llist_head m = m\<lparr>first := NULL\<rparr>"

definition llist_empty :: "llist_mem \<Rightarrow> bool" where
  "llist_empty m \<longleftrightarrow> first m = NULL"

definition llist_next :: "llist_mem \<Rightarrow> addr \<Rightarrow> addr" where
  "llist_next m node = lnext m node"

definition set_lnext :: "addr \<Rightarrow> addr \<Rightarrow> llist_mem \<Rightarrow> llist_mem" where
  "set_lnext x v m = m\<lparr>lnext := (lnext m)(x := v)\<rparr>"

text \<open>\<open>llist_reverse_order\<close> on a chain it owns; \<open>None\<close> when the fuel runs out.\<close>

fun reverse_loop :: "nat \<Rightarrow> addr \<Rightarrow> addr \<Rightarrow> llist_mem \<Rightarrow> (addr \<times> llist_mem) option" where
  "reverse_loop 0 head new_head m = None"
| "reverse_loop (Suc k) head new_head m =
     (if head = NULL then Some (new_head, m)
      else let tmp = head; head = lnext m head; m = set_lnext tmp new_head m
           in reverse_loop k head tmp m)"

definition llist_reverse_order :: "nat \<Rightarrow> addr \<Rightarrow> llist_mem \<Rightarrow> (addr \<times> llist_mem) option" where
  "llist_reverse_order k head m = reverse_loop k head NULL m"

text \<open>\<open>llist_for_each\<close>: the nodes it visits, in order.\<close>

fun llist_for_each :: "nat \<Rightarrow> addr \<Rightarrow> llist_mem \<Rightarrow> addr list option" where
  "llist_for_each 0 pos m = None"
| "llist_for_each (Suc k) pos m =
     (if pos = NULL then Some [] else map_option (Cons pos) (llist_for_each k (lnext m pos) m))"

subsection \<open>The operations, one memory access at a time\<close>

text \<open>
  The program points of a thread with its local variables. \<open>AddLoad\<close>, \<open>AddStore\<close> and \<open>AddCas\<close> are the load of
  \<open>head->first\<close>, the store to \<open>new_last->next\<close> and the compare-and-swap of \<open>llist_add_batch\<close>; \<open>DelAll\<close> is the
  exchange of \<open>llist_del_all\<close>; \<open>FirstLoad\<close>, \<open>FirstNext\<close> and \<open>FirstCas\<close> are the load of \<open>head->first\<close>, the test
  with the load of \<open>entry->next\<close>, and the compare-and-swap of \<open>llist_del_first\<close>.
\<close>

datatype lresult = WasEmpty bool | Node addr

datatype lpc = Idle
  | AddLoad addr addr | AddStore addr addr addr | AddCas addr addr addr
  | DelAll
  | FirstLoad | FirstNext addr | FirstCas addr addr
  | Done lresult

text \<open>What an operation did to the list, at the access where it took effect.\<close>

datatype levent = Added bool | TookAll addr | TookFirst addr

definition llist_add_batch :: "addr \<Rightarrow> addr \<Rightarrow> lpc" where
  "llist_add_batch new_first new_last = AddLoad new_first new_last"

definition llist_add :: "addr \<Rightarrow> lpc" where
  "llist_add new = llist_add_batch new new"

definition llist_del_all :: lpc where
  "llist_del_all = DelAll"

definition llist_del_first :: lpc where
  "llist_del_first = FirstLoad"

fun llist_step :: "lpc \<Rightarrow> llist_mem \<Rightarrow> lpc \<times> llist_mem \<times> levent option" where
  "llist_step (AddLoad nf nl) m = (AddStore nf nl (first m), m, None)"
| "llist_step (AddStore nf nl f) m = (AddCas nf nl f, set_lnext nl f m, None)"
| "llist_step (AddCas nf nl f) m =
     (if first m = f then (Done (WasEmpty (f = NULL)), m\<lparr>first := nf\<rparr>, Some (Added (f = NULL)))
      else (AddLoad nf nl, m, None))"
| "llist_step DelAll m = (Done (Node (first m)), m\<lparr>first := NULL\<rparr>, Some (TookAll (first m)))"
| "llist_step FirstLoad m =
     (if first m = NULL then (Done (Node NULL), m, Some (TookFirst NULL)) else (FirstNext (first m), m, None))"
| "llist_step (FirstNext entry) m = (FirstCas entry (lnext m entry), m, None)"
| "llist_step (FirstCas old nx) m =
     (if first m = old then (Done (Node old), m\<lparr>first := nx\<rparr>, Some (TookFirst old))
      else if first m = NULL then (Done (Node NULL), m, Some (TookFirst NULL))
      else (FirstNext (first m), m, None))"
| "llist_step p m = (p, m, None)"

text \<open>A single thread that is not disturbed runs an operation to its end.\<close>

fun llist_solo :: "nat \<Rightarrow> lpc \<Rightarrow> llist_mem \<Rightarrow> (lresult \<times> llist_mem) option" where
  "llist_solo k (Done r) m = Some (r, m)"
| "llist_solo 0 p m = None"
| "llist_solo (Suc k) p m = (let (p', m', e) = llist_step p m in llist_solo k p' m')"

subsection \<open>Runs of many threads\<close>

text \<open>
  The state of a run: the memory, the program point of every thread, the batch a thread is adding, and the log
  of the operations in the order in which they took effect, each with the thread and the batch.
\<close>

record llist_state =
  mem :: llist_mem
  pc :: "nat \<Rightarrow> lpc"
  pend :: "nat \<Rightarrow> addr list"
  log :: "(nat \<times> levent \<times> addr list) list"

definition thread_step :: "nat \<Rightarrow> llist_state \<Rightarrow> llist_state" where
  "thread_step t s =
     (let (p, m, e) = llist_step (pc s t) (mem s)
      in s\<lparr>mem := m, pc := (pc s)(t := p),
           pend := (if e = None then pend s else (pend s)(t := [])),
           log := (case e of None \<Rightarrow> log s | Some ev \<Rightarrow> log s @ [(t, ev, pend s t)])\<rparr>)"

text \<open>The abstract list: what the operations of the log do to a stack; \<open>None\<close> if a result is not the stack's.\<close>

fun spec_step :: "levent \<Rightarrow> addr list \<Rightarrow> addr list \<Rightarrow> addr list option" where
  "spec_step (Added e) ns xs = (if e = (xs = []) then Some (ns @ xs) else None)"
| "spec_step (TookAll p) ns xs = (if p = (case xs of [] \<Rightarrow> NULL | x # _ \<Rightarrow> x) then Some [] else None)"
| "spec_step (TookFirst p) ns [] = (if p = NULL then Some [] else None)"
| "spec_step (TookFirst p) ns (x # xs) = (if p = x then Some xs else None)"

fun replay :: "(nat \<times> levent \<times> addr list) list \<Rightarrow> addr list \<Rightarrow> addr list option" where
  "replay [] xs = Some xs"
| "replay ((t, e, ns) # l) xs = (case spec_step e ns xs of None \<Rightarrow> None | Some ys \<Rightarrow> replay l ys)"

definition stack :: "llist_state \<Rightarrow> addr list" where
  "stack s = (case replay (log s) [] of Some xs \<Rightarrow> xs | None \<Rightarrow> [])"

text \<open>A chain of \<open>next\<close> pointers from \<open>p\<close> through \<open>xs\<close> to \<open>q\<close>.\<close>

fun lseg :: "(addr \<Rightarrow> addr) \<Rightarrow> addr \<Rightarrow> addr list \<Rightarrow> addr \<Rightarrow> bool" where
  "lseg nx p [] q \<longleftrightarrow> p = q"
| "lseg nx p (x # xs) q \<longleftrightarrow> p = x \<and> x \<noteq> NULL \<and> lseg nx (nx x) xs q"

definition batch_ok :: "(addr \<Rightarrow> addr) \<Rightarrow> addr list \<Rightarrow> bool" where
  "batch_ok nx ns \<longleftrightarrow> ns \<noteq> [] \<and> distinct ns \<and> NULL \<notin> set ns \<and> lseg nx (hd ns) (butlast ns) (last ns)"

text \<open>
  A run from an empty list. \<open>da\<close> are the threads that may call \<open>llist_del_all\<close>, \<open>df\<close> the ones that may call
  \<open>llist_del_first\<close>. An added batch is linked and its nodes are in no list and in no other batch; a node that is
  in neither may be written by its owner.
\<close>

inductive llist_run :: "(nat \<Rightarrow> bool) \<Rightarrow> (nat \<Rightarrow> bool) \<Rightarrow> llist_state \<Rightarrow> bool" for da df where
  start: "first (mem s) = NULL \<Longrightarrow> (\<And>t. pc s t = Idle) \<Longrightarrow> (\<And>t. pend s t = []) \<Longrightarrow> log s = [] \<Longrightarrow> llist_run da df s"
| step: "llist_run da df s \<Longrightarrow> llist_run da df (thread_step t s)"
| add: "llist_run da df s \<Longrightarrow> pc s t = Idle \<or> (\<exists>r. pc s t = Done r) \<Longrightarrow> batch_ok (lnext (mem s)) ns \<Longrightarrow>
    set ns \<inter> set (stack s) = {} \<Longrightarrow> (\<And>u. set ns \<inter> set (pend s u) = {}) \<Longrightarrow>
    llist_run da df (s\<lparr>pc := (pc s)(t := llist_add_batch (hd ns) (last ns)), pend := (pend s)(t := ns)\<rparr>)"
| del_all: "llist_run da df s \<Longrightarrow> pc s t = Idle \<or> (\<exists>r. pc s t = Done r) \<Longrightarrow> da t \<Longrightarrow>
    llist_run da df (s\<lparr>pc := (pc s)(t := llist_del_all)\<rparr>)"
| del_first: "llist_run da df s \<Longrightarrow> pc s t = Idle \<or> (\<exists>r. pc s t = Done r) \<Longrightarrow> df t \<Longrightarrow>
    llist_run da df (s\<lparr>pc := (pc s)(t := llist_del_first)\<rparr>)"
| own: "llist_run da df s \<Longrightarrow> x \<notin> set (stack s) \<Longrightarrow> (\<And>u. x \<notin> set (pend s u)) \<Longrightarrow>
    llist_run da df (s\<lparr>mem := set_lnext x v (mem s)\<rparr>)"

subsection \<open>Chains\<close>

lemma lseg_append: "lseg nx p (xs @ ys) q \<longleftrightarrow> (\<exists>r. lseg nx p xs r \<and> lseg nx r ys q)"
  by (induction xs arbitrary: p) auto

lemma lseg_cong: "(\<And>x. x \<in> set xs \<Longrightarrow> nx' x = nx x) \<Longrightarrow> lseg nx' p xs q = lseg nx p xs q"
  by (induction xs arbitrary: p) auto

lemma lseg_upd [simp]: "x \<notin> set xs \<Longrightarrow> lseg (nx(x := v)) p xs q = lseg nx p xs q"
  by (rule lseg_cong) auto

lemma lseg_NULL: "lseg nx p xs NULL \<Longrightarrow> p = (case xs of [] \<Rightarrow> NULL | x # _ \<Rightarrow> x)"
  by (cases xs) auto

lemma lseg_nonnull: "lseg nx p xs q \<Longrightarrow> NULL \<notin> set xs"
  by (induction xs arbitrary: p) auto

lemma batch_join: "batch_ok nx ns \<Longrightarrow> nx (last ns) = f \<Longrightarrow> lseg nx (hd ns) ns f"
proof -
  assume b: "batch_ok nx ns" "nx (last ns) = f"
  then have "last ns \<noteq> NULL" by (metis batch_ok_def last_in_set)
  with b have "lseg nx (hd ns) (butlast ns @ [last ns]) f"
    unfolding lseg_append batch_ok_def by (auto intro!: exI [of _ "last ns"])
  then show ?thesis using b(1) by (simp add: batch_ok_def)
qed

lemma batch_ok_cong: "(\<And>x. x \<in> set ns \<Longrightarrow> nx' x = nx x) \<Longrightarrow> batch_ok nx' ns = batch_ok nx ns"
  using lseg_cong [of "butlast ns" nx' nx "hd ns" "last ns"] unfolding batch_ok_def by (blast dest: in_set_butlastD)

lemma batch_ok_last: "batch_ok nx ns \<Longrightarrow> batch_ok (nx(last ns := v)) ns"
proof -
  assume b: "batch_ok nx ns"
  then have "last ns \<notin> set (butlast ns)"
    unfolding batch_ok_def by (metis append_butlast_last_id distinct_append disjoint_insert(1) list.set(2))
  then have "lseg (nx(last ns := v)) (hd ns) (butlast ns) (last ns) = lseg nx (hd ns) (butlast ns) (last ns)"
    by (intro lseg_cong) auto
  then show ?thesis using b by (simp add: batch_ok_def)
qed

lemma replay_snoc: "replay (l @ [(t, e, ns)]) xs = (case replay l xs of None \<Rightarrow> None | Some ys \<Rightarrow> spec_step e ns ys)"
  by (induction l arbitrary: xs) (auto split: option.splits)

subsection \<open>The invariant of a run\<close>

fun pc_ok :: "bool \<Rightarrow> bool \<Rightarrow> (addr \<Rightarrow> addr) \<Rightarrow> addr list \<Rightarrow> addr list \<Rightarrow> lpc \<Rightarrow> bool" where
  "pc_ok da df nx xs ns Idle \<longleftrightarrow> ns = []"
| "pc_ok da df nx xs ns (Done r) \<longleftrightarrow> ns = []"
| "pc_ok da df nx xs ns (AddLoad nf nl) \<longleftrightarrow> batch_ok nx ns \<and> nf = hd ns \<and> nl = last ns"
| "pc_ok da df nx xs ns (AddStore nf nl f) \<longleftrightarrow> batch_ok nx ns \<and> nf = hd ns \<and> nl = last ns"
| "pc_ok da df nx xs ns (AddCas nf nl f) \<longleftrightarrow> batch_ok nx ns \<and> nf = hd ns \<and> nl = last ns \<and> nx nl = f"
| "pc_ok da df nx xs ns DelAll \<longleftrightarrow> ns = [] \<and> da"
| "pc_ok da df nx xs ns FirstLoad \<longleftrightarrow> ns = [] \<and> df"
| "pc_ok da df nx xs ns (FirstNext e) \<longleftrightarrow> ns = [] \<and> df \<and> e \<in> set xs"
| "pc_ok da df nx xs ns (FirstCas old n) \<longleftrightarrow> ns = [] \<and> df \<and> old \<in> set xs \<and> nx old = n"

lemma pc_ok_frame:
  assumes "pc_ok da df nx xs ns p" "\<And>x. x \<in> set ns \<union> set xs \<Longrightarrow> nx' x = nx x" "set xs \<subseteq> set ys \<or> \<not> df"
  shows "pc_ok da df nx' ys ns p"
proof -
  have b: "batch_ok nx' ns = batch_ok nx ns" by (rule batch_ok_cong) (use assms(2) in simp)
  have "batch_ok nx ns \<Longrightarrow> last ns \<in> set ns" by (simp add: batch_ok_def)
  then show ?thesis using assms by (cases p) (auto simp: b)
qed

fun result :: "levent \<Rightarrow> lresult" where
  "result (Added b) = WasEmpty b"
| "result (TookAll p) = Node p"
| "result (TookFirst p) = Node p"

definition results :: "nat \<Rightarrow> (nat \<times> levent \<times> addr list) list \<Rightarrow> lresult list" where
  "results t l = map (\<lambda>(u, e, ns). result e) (filter (\<lambda>(u, e, ns). u = t) l)"

definition llist_inv :: "(nat \<Rightarrow> bool) \<Rightarrow> (nat \<Rightarrow> bool) \<Rightarrow> llist_state \<Rightarrow> addr list \<Rightarrow> bool" where
  "llist_inv da df s xs \<longleftrightarrow>
     replay (log s) [] = Some xs \<and> lseg (lnext (mem s)) (first (mem s)) xs NULL \<and> distinct xs \<and>
     (\<forall>t u. t \<noteq> u \<longrightarrow> set (pend s t) \<inter> set (pend s u) = {}) \<and> (\<forall>t. set (pend s t) \<inter> set xs = {}) \<and>
     (\<forall>t. pc_ok (da t) (df t) (lnext (mem s)) xs (pend s t) (pc s t)) \<and>
     (\<forall>t r. pc s t = Done r \<longrightarrow> results t (log s) \<noteq> [] \<and> last (results t (log s)) = r)"

lemma llist_invD:
  assumes "llist_inv da df s xs"
  shows "replay (log s) [] = Some xs" "lseg (lnext (mem s)) (first (mem s)) xs NULL" "distinct xs"
    "t \<noteq> u \<Longrightarrow> set (pend s t) \<inter> set (pend s u) = {}" "set (pend s t) \<inter> set xs = {}"
    "pc_ok (da t) (df t) (lnext (mem s)) xs (pend s t) (pc s t)"
    "pc s t = Done r \<Longrightarrow> results t (log s) \<noteq> [] \<and> last (results t (log s)) = r" "stack s = xs"
  using assms by (auto simp: llist_inv_def stack_def)

text \<open>At most one consumer, unless nobody uses \<open>llist_del_first\<close>.\<close>

definition consumers_ok :: "(nat \<Rightarrow> bool) \<Rightarrow> (nat \<Rightarrow> bool) \<Rightarrow> bool" where
  "consumers_ok da df \<longleftrightarrow> (\<forall>t u. df t \<and> t \<noteq> u \<longrightarrow> \<not> da u \<and> \<not> df u)"

text \<open>A step of one thread that leaves the log alone.\<close>

lemma inv_silent:
  assumes I: "llist_inv da df s xs" and e: "llist_step (pc s t) (mem s) = (p, m, None)"
    and m: "first m = first (mem s)" "\<And>x. x \<notin> set (pend s t) \<Longrightarrow> lnext m x = lnext (mem s) x"
    and p: "pc_ok (da t) (df t) (lnext m) xs (pend s t) p" "\<And>r. p = Done r \<Longrightarrow> pc s t = Done r"
  shows "llist_inv da df (thread_step t s) xs"
proof -
  note D = llist_invD [OF I]
  have f: "log (thread_step t s) = log s" "pend (thread_step t s) = pend s" "mem (thread_step t s) = m"
    "pc (thread_step t s) = (pc s)(t := p)" by (simp_all add: thread_step_def e)
  have x: "lnext m x = lnext (mem s) x" if "x \<in> set xs" for x using m(2) D(5) [of t] that by blast
  have "lseg (lnext m) (first m) xs NULL" using D(2) lseg_cong [of xs "lnext m", OF x] m(1) by simp
  moreover have "pc_ok (da u) (df u) (lnext m) xs (pend s u) (pc s u)" if "u \<noteq> t" for u
    by (rule pc_ok_frame [OF D(6)]) (use D(4) [OF that] m(2) x in auto)
  ultimately show ?thesis
    unfolding llist_inv_def f using D p by auto
qed

text \<open>A step that takes effect: the list becomes \<open>ys\<close>.\<close>

lemma inv_event:
  assumes I: "llist_inv da df s xs" and e: "llist_step (pc s t) (mem s) = (Done r, m, Some ev)"
    and m: "lnext m = lnext (mem s)" "lseg (lnext m) (first m) ys NULL" "distinct ys"
    and ys: "set ys \<subseteq> set xs \<union> set (pend s t)" "spec_step ev (pend s t) xs = Some ys" "result ev = r"
    and df: "\<And>u. u \<noteq> t \<Longrightarrow> df u \<Longrightarrow> set xs \<subseteq> set ys"
  shows "llist_inv da df (thread_step t s) ys"
proof -
  note D = llist_invD [OF I]
  have f: "log (thread_step t s) = log s @ [(t, ev, pend s t)]" "pend (thread_step t s) = (pend s)(t := [])"
    "mem (thread_step t s) = m" "pc (thread_step t s) = (pc s)(t := Done r)" by (simp_all add: thread_step_def e)
  have "replay (log s @ [(t, ev, pend s t)]) [] = Some ys" using D(1) ys(2) by (simp add: replay_snoc)
  moreover have "pc_ok (da u) (df u) (lnext m) ys (pend s u) (pc s u)" if "u \<noteq> t" for u
    by (rule pc_ok_frame [OF D(6)]) (use m(1) df [OF that] in auto)
  moreover have "set (pend s u) \<inter> set ys = {}" if "u \<noteq> t" for u
    using ys(1) D(4) [OF that] D(5) [of u] by blast
  moreover have "results u (log s @ [(t, ev, pend s t)]) = (if u = t then results t (log s) @ [r] else results u (log s))" for u
    using ys(3) by (simp add: results_def)
  ultimately show ?thesis
    unfolding llist_inv_def f using D m by (auto split: if_splits)
qed

lemma llist_step_inv:
  assumes I: "llist_inv da df s xs" and ok: "consumers_ok da df"
  shows "\<exists>ys. llist_inv da df (thread_step t s) ys"
proof -
  note D = llist_invD [OF I]
  note P = D(6) [of t]
  note hd = lseg_NULL [OF D(2)]
  show ?thesis
  proof (cases "pc s t")
    case (AddLoad nf nl)
    then show ?thesis using P by (intro exI [of _ xs] inv_silent [OF I, of t "AddStore nf nl (first (mem s))" "mem s"]) auto
  next
    case (AddStore nf nl f)
    have l: "nl \<in> set (pend s t)" using P AddStore by (simp add: batch_ok_def)
    show ?thesis
      by (intro exI [of _ xs] inv_silent [OF I, of t "AddCas nf nl f" "set_lnext nl f (mem s)"])
        (use P AddStore l batch_ok_last [of "lnext (mem s)" "pend s t" f] in \<open>auto simp: set_lnext_def\<close>)
  next
    case (AddCas nf nl f)
    show ?thesis
    proof (cases "first (mem s) = f")
      case True
      let ?m = "(mem s)\<lparr>first := nf\<rparr>" and ?ys = "pend s t @ xs"
      have "lseg (lnext ?m) (first ?m) ?ys NULL"
        unfolding lseg_append using P AddCas True D(2) batch_join [of "lnext (mem s)" "pend s t" f] by auto
      moreover have "(f = NULL) = (xs = [])" using hd True D(2) by (cases xs) auto
      ultimately show ?thesis using P AddCas True D(3) D(5) [of t]
        by (intro exI [of _ ?ys] inv_event [OF I, of t "WasEmpty (f = NULL)" ?m "Added (f = NULL)"])
          (auto simp: batch_ok_def)
    next
      case False
      then show ?thesis using P AddCas by (intro exI [of _ xs] inv_silent [OF I, of t "AddLoad nf nl" "mem s"]) auto
    qed
  next
    case DelAll
    have "\<not> df u" if "u \<noteq> t" for u using ok P DelAll that by (auto simp: consumers_ok_def)
    then show ?thesis using P DelAll hd
      by (intro exI [of _ "[]"] inv_event [OF I, of t "Node (first (mem s))" "(mem s)\<lparr>first := NULL\<rparr>" "TookAll (first (mem s))"]) auto
  next
    case FirstLoad
    show ?thesis
    proof (cases "first (mem s) = NULL")
      case True
      then have "xs = []" using hd D(2) by (cases xs) auto
      then show ?thesis using P FirstLoad True
        by (intro exI [of _ "[]"] inv_event [OF I, of t "Node NULL" "mem s" "TookFirst NULL"]) auto
    next
      case False
      then have "first (mem s) \<in> set xs" using hd by (cases xs) auto
      then show ?thesis using P FirstLoad False
        by (intro exI [of _ xs] inv_silent [OF I, of t "FirstNext (first (mem s))" "mem s"]) auto
    qed
  next
    case (FirstNext entry)
    then show ?thesis using P
      by (intro exI [of _ xs] inv_silent [OF I, of t "FirstCas entry (lnext (mem s) entry)" "mem s"]) auto
  next
    case (FirstCas old nx)
    have alone: "\<not> df u" if "u \<noteq> t" for u using ok P FirstCas that by (auto simp: consumers_ok_def)
    obtain x zs where xs: "xs = x # zs" using P FirstCas by (cases xs) auto
    show ?thesis
    proof (cases "first (mem s) = old")
      case True
      then show ?thesis using P FirstCas alone xs D(2,3)
        by (intro exI [of _ zs] inv_event [OF I, of t "Node old" "(mem s)\<lparr>first := nx\<rparr>" "TookFirst old"]) auto
    next
      case False
      then show ?thesis using P FirstCas xs D(2)
        by (intro exI [of _ xs] inv_silent [OF I, of t "FirstNext (first (mem s))" "mem s"]) auto
    qed
  next
    case Idle
    then show ?thesis using P by (intro exI [of _ xs] inv_silent [OF I, of t Idle "mem s"]) auto
  next
    case (Done r)
    then show ?thesis using P by (intro exI [of _ xs] inv_silent [OF I, of t "Done r" "mem s"]) auto
  qed
qed

text \<open>An operation that starts.\<close>

lemma inv_begin:
  assumes I: "llist_inv da df s xs" and p: "pc_ok (da t) (df t) (lnext (mem s)) xs ns p" "\<And>r. p \<noteq> Done r"
    and ns: "set ns \<inter> set xs = {}" "\<And>u. u \<noteq> t \<Longrightarrow> set ns \<inter> set (pend s u) = {}"
  shows "llist_inv da df (s\<lparr>pc := (pc s)(t := p), pend := (pend s)(t := ns)\<rparr>) xs"
  using llist_invD [OF I] p ns unfolding llist_inv_def by (auto simp: Int_commute)

lemma llist_run_inv:
  assumes "llist_run da df s" "consumers_ok da df"
  shows "\<exists>xs. llist_inv da df s xs"
  using assms(1)
proof induction
  case (start s)
  then have "llist_inv da df s []" by (simp add: llist_inv_def)
  then show ?case ..
next
  case (step s t)
  then show ?case using llist_step_inv [OF _ assms(2)] by blast
next
  case (add s t ns)
  then obtain xs where I: "llist_inv da df s xs" by blast
  have "set ns \<inter> set xs = {}" using add.hyps llist_invD(8) [OF I] by simp
  then show ?case using add.hyps by (intro exI [of _ xs] inv_begin [OF I]) (auto simp: llist_add_batch_def)
next
  case (del_all s t)
  then obtain xs where I: "llist_inv da df s xs" by blast
  have n: "pend s t = []" using llist_invD(6) [OF I, of t] del_all.hyps by auto
  have "llist_inv da df (s\<lparr>pc := (pc s)(t := DelAll), pend := (pend s)(t := [])\<rparr>) xs"
    using del_all.hyps by (intro inv_begin [OF I]) auto
  then show ?case using n by (auto simp: llist_del_all_def fun_upd_idem)
next
  case (del_first s t)
  then obtain xs where I: "llist_inv da df s xs" by blast
  have n: "pend s t = []" using llist_invD(6) [OF I, of t] del_first.hyps by auto
  have "llist_inv da df (s\<lparr>pc := (pc s)(t := FirstLoad), pend := (pend s)(t := [])\<rparr>) xs"
    using del_first.hyps by (intro inv_begin [OF I]) auto
  then show ?case using n by (auto simp: llist_del_first_def fun_upd_idem)
next
  case (own s x v)
  then obtain xs where I: "llist_inv da df s xs" by blast
  note D = llist_invD [OF I]
  have "x \<notin> set xs" using own.hyps D(8) by simp
  then have "lseg ((lnext (mem s))(x := v)) (first (mem s)) xs NULL =
      lseg (lnext (mem s)) (first (mem s)) xs NULL" by (intro lseg_cong) auto
  moreover have "pc_ok (da t) (df t) ((lnext (mem s))(x := v)) xs (pend s t) (pc s t)" for t
    by (rule pc_ok_frame [OF D(6)]) (use own.hyps \<open>x \<notin> set xs\<close> in auto)
  ultimately have "llist_inv da df (s\<lparr>mem := set_lnext x v (mem s)\<rparr>) xs"
    using D unfolding llist_inv_def by (auto simp: set_lnext_def)
  then show ?case ..
qed

text \<open>
  C13 (refinement): the lock-free list is linearizable. For every number of threads and every interleaving of their
  memory accesses, as long as \<open>llist_del_first\<close> is used by one thread only and that thread is then the only
  consumer, the operations behave like operations on a stack in the order in which they took effect: every
  operation that has returned gave the result the stack gives, and the pointers in memory are a chain through
  exactly the nodes of the stack.
\<close>

theorem llist_linearizable:
  assumes "llist_run da df s" and "consumers_ok da df"
  shows "\<exists>xs. replay (log s) [] = Some xs \<and> lseg (lnext (mem s)) (first (mem s)) xs NULL \<and> distinct xs \<and>
    (\<forall>t r. pc s t = Done r \<longrightarrow> results t (log s) \<noteq> [] \<and> last (results t (log s)) = r)"
proof -
  obtain xs where "llist_inv da df s xs" using llist_run_inv [OF assms] by blast
  then show ?thesis unfolding llist_inv_def by blast
qed

subsection \<open>Taking the whole list in the order of the additions\<close>

lemma for_each_seg: "lseg (lnext m) p xs NULL \<Longrightarrow> length xs < k \<Longrightarrow> llist_for_each k p m = Some xs"
proof (induction xs arbitrary: p k)
  case (Cons x xs)
  then show ?case by (cases k) auto
qed (auto simp: gr0_conv_Suc)

lemma reverse_loop_seg:
  assumes "lseg (lnext m) p xs NULL" "lseg (lnext m) q ys NULL" "distinct (xs @ ys)" "length xs < k"
  shows "\<exists>r m'. reverse_loop k p q m = Some (r, m') \<and> lseg (lnext m') r (rev xs @ ys) NULL"
  using assms
proof (induction xs arbitrary: p q ys m k)
  case (Cons x xs)
  obtain k' where k: "k = Suc k'" using Cons.prems(4) by (cases k) auto
  let ?m = "set_lnext x q m"
  have e: "lnext ?m = (lnext m)(x := q)" by (simp add: set_lnext_def)
  have "lseg (lnext ?m) (lnext m x) xs NULL" "lseg (lnext ?m) x (x # ys) NULL"
    using Cons.prems unfolding e by auto
  then obtain r m' where "reverse_loop k' (lnext m x) x ?m = Some (r, m')" "lseg (lnext m') r (rev xs @ x # ys) NULL"
    using Cons.IH [of ?m "lnext m x" x "x # ys" k'] Cons.prems k by auto
  then show ?case using Cons.prems(1) k by auto
qed (auto simp: gr0_conv_Suc)

text \<open>
  C14 (functional): a consumer that takes the whole list while other threads keep adding, reverses it and walks it,
  as the logger does, gets every node of the list exactly once, the oldest first, and leaves an empty list.
\<close>

theorem llist_take_in_order:
  assumes "llist_run da df s" and "consumers_ok da df" and "pc s t = DelAll" and "length (stack s) < k"
  shows "\<exists>p q m. pc (thread_step t s) t = Done (Node p) \<and> stack (thread_step t s) = [] \<and>
    llist_reverse_order k p (mem (thread_step t s)) = Some (q, m) \<and>
    llist_for_each k q m = Some (rev (stack s)) \<and> distinct (stack s)"
proof -
  obtain xs where I: "llist_inv da df s xs" using llist_run_inv [OF assms(1,2)] by blast
  note D = llist_invD [OF I]
  let ?s = "thread_step t s"
  have f: "pc ?s t = Done (Node (first (mem s)))" "lnext (mem ?s) = lnext (mem s)"
    "log ?s = log s @ [(t, TookAll (first (mem s)), pend s t)]" using assms(3) by (simp_all add: thread_step_def)
  have st: "stack ?s = []" using lseg_NULL [OF D(2)] D(1) by (simp add: stack_def f(3) replay_snoc)
  obtain q m where r: "reverse_loop k (first (mem s)) NULL (mem ?s) = Some (q, m)" "lseg (lnext m) q (rev xs @ []) NULL"
    using reverse_loop_seg [of "mem ?s" "first (mem s)" xs NULL "[]" k] D(2,3) assms(4) f(2) D(8) by auto
  have "llist_for_each k q m = Some (rev xs)" by (rule for_each_seg) (use r(2) assms(4) D(8) in auto)
  then show ?thesis using f(1) st r(1) D(3,8) by (auto simp: llist_reverse_order_def)
qed

subsection \<open>Schedules\<close>

text \<open>An explicit schedule, for concrete runs.\<close>

datatype lact = Go nat | Add nat "addr list" | All nat | First nat

fun lact_do :: "lact \<Rightarrow> llist_state \<Rightarrow> llist_state" where
  "lact_do (Go t) s = thread_step t s"
| "lact_do (Add t ns) s = s\<lparr>pc := (pc s)(t := llist_add_batch (hd ns) (last ns)), pend := (pend s)(t := ns)\<rparr>"
| "lact_do (All t) s = s\<lparr>pc := (pc s)(t := llist_del_all)\<rparr>"
| "lact_do (First t) s = s\<lparr>pc := (pc s)(t := llist_del_first)\<rparr>"

fun idle :: "lpc \<Rightarrow> bool" where
  "idle Idle = True"
| "idle (Done r) = True"
| "idle p = False"

fun lact_ok :: "(nat \<Rightarrow> bool) \<Rightarrow> (nat \<Rightarrow> bool) \<Rightarrow> lact \<Rightarrow> llist_state \<Rightarrow> bool" where
  "lact_ok da df (Go t) s \<longleftrightarrow> True"
| "lact_ok da df (Add t ns) s \<longleftrightarrow> idle (pc s t) \<and> batch_ok (lnext (mem s)) ns \<and> set ns \<inter> set (stack s) = {} \<and>
     (\<forall>u. set ns \<inter> set (pend s u) = {})"
| "lact_ok da df (All t) s \<longleftrightarrow> idle (pc s t) \<and> da t"
| "lact_ok da df (First t) s \<longleftrightarrow> idle (pc s t) \<and> df t"

fun lacts_ok :: "(nat \<Rightarrow> bool) \<Rightarrow> (nat \<Rightarrow> bool) \<Rightarrow> lact list \<Rightarrow> llist_state \<Rightarrow> bool" where
  "lacts_ok da df [] s \<longleftrightarrow> True"
| "lacts_ok da df (a # as) s \<longleftrightarrow> lact_ok da df a s \<and> lacts_ok da df as (lact_do a s)"

lemma idle_iff: "idle p \<longleftrightarrow> p = Idle \<or> (\<exists>r. p = Done r)"
  by (cases p) auto

lemma lact_run: "llist_run da df s \<Longrightarrow> lact_ok da df a s \<Longrightarrow> llist_run da df (lact_do a s)"
  by (cases a) (auto simp: idle_iff intro: llist_run.intros)

lemma lacts_run: "llist_run da df s \<Longrightarrow> lacts_ok da df as s \<Longrightarrow> llist_run da df (fold lact_do as s)"
  by (induction as arbitrary: s) (auto intro: lact_run)

definition ex_start :: llist_state where
  "ex_start = \<lparr>mem = \<lparr>first = NULL, lnext = (\<lambda>_. NULL)\<rparr>, pc = (\<lambda>_. Idle), pend = (\<lambda>_. []), log = []\<rparr>"

lemma ex_start_run: "llist_run da df ex_start"
  by (rule llist_run.start) (simp_all add: ex_start_def)

lemmas schedule_simps = ex_start_def thread_step_def set_lnext_def stack_def batch_ok_def
  llist_add_batch_def llist_del_all_def llist_del_first_def Let_def

text \<open>Two threads add at the same time; the compare-and-swap of the first fails and it retries.\<close>

definition ex_race :: llist_state where
  "ex_race = fold lact_do [Add 0 [1], Add 1 [2], Go 0, Go 1, Go 1, Go 1, Go 0, Go 0, Go 0, Go 0, Go 0] ex_start"

lemma ex_race_run: "llist_run (\<lambda>t. t = 2) (\<lambda>_. False) ex_race"
  unfolding ex_race_def by (rule lacts_run [OF ex_start_run]) (simp add: schedule_simps)

theorem llist_linearizable_witness:
  "replay (log ex_race) [] = Some [1, 2] \<and> lseg (lnext (mem ex_race)) (first (mem ex_race)) [1, 2] NULL"
proof -
  have r: "replay (log ex_race) [] = Some [1, 2]" by (simp add: ex_race_def schedule_simps)
  show ?thesis using llist_linearizable [OF ex_race_run] r by (auto simp: consumers_ok_def)
qed

definition ex_taking :: llist_state where
  "ex_taking = lact_do (All 2) ex_race"

theorem llist_take_in_order_witness:
  "\<exists>p q m. llist_reverse_order 3 p (mem (thread_step 2 ex_taking)) = Some (q, m) \<and> llist_for_each 3 q m = Some [2, 1]"
proof -
  have r: "llist_run (\<lambda>t. t = 2) (\<lambda>_. False) ex_taking" unfolding ex_taking_def
    by (rule lact_run [OF ex_race_run]) (simp add: ex_race_def schedule_simps)
  have s: "stack ex_taking = [1, 2]" "pc ex_taking 2 = DelAll" by (simp_all add: ex_taking_def ex_race_def schedule_simps)
  show ?thesis using llist_take_in_order [OF r, of 2 3] s by (auto simp: consumers_ok_def)
qed

text \<open>The stages of a run with two consumers.\<close>

definition aba_state :: "addr \<Rightarrow> addr \<Rightarrow> lpc \<Rightarrow> lpc \<Rightarrow> (nat \<times> levent \<times> addr list) list \<Rightarrow> llist_state" where
  "aba_state f n1 p0 p1 l =
     \<lparr>mem = \<lparr>first = f, lnext = (\<lambda>x. if x = 1 then n1 else NULL)\<rparr>,
      pc = (\<lambda>t. if t = 0 then p0 else if t = 1 then p1 else if t = 2 then Done (WasEmpty False) else Idle),
      pend = (\<lambda>_. []), log = l\<rparr>"

definition aba_log :: "(nat \<times> levent \<times> addr list) list" where
  "aba_log = [(2, Added True, [2]), (2, Added False, [1]), (1, TookFirst 1, []), (1, TookFirst 2, []), (1, Added True, [1]),
     (0, TookFirst 1, []), (0, TookFirst 2, [])]"

lemma aba_stages:
  "fold lact_do [Add 2 [2], Go 2, Go 2, Go 2, Add 2 [1], Go 2, Go 2, Go 2] ex_start = aba_state 1 2 Idle Idle (take 2 aba_log)"
  "fold lact_do [First 0, Go 0, Go 0] (aba_state 1 2 Idle Idle (take 2 aba_log)) = aba_state 1 2 (FirstCas 1 2) Idle (take 2 aba_log)"
  "fold lact_do [First 1, Go 1, Go 1, Go 1] (aba_state 1 2 (FirstCas 1 2) Idle (take 2 aba_log)) =
     aba_state 2 2 (FirstCas 1 2) (Done (Node 1)) (take 3 aba_log)"
  "fold lact_do [First 1, Go 1, Go 1, Go 1] (aba_state 2 2 (FirstCas 1 2) (Done (Node 1)) (take 3 aba_log)) =
     aba_state 0 2 (FirstCas 1 2) (Done (Node 2)) (take 4 aba_log)"
  "fold lact_do [Add 1 [1], Go 1, Go 1, Go 1] (aba_state 0 2 (FirstCas 1 2) (Done (Node 2)) (take 4 aba_log)) =
     aba_state 1 0 (FirstCas 1 2) (Done (WasEmpty True)) (take 5 aba_log)"
  "fold lact_do [Go 0, First 0, Go 0, Go 0, Go 0] (aba_state 1 0 (FirstCas 1 2) (Done (WasEmpty True)) (take 5 aba_log)) =
     aba_state 0 0 (Done (Node 2)) (Done (WasEmpty True)) aba_log"
  by (simp_all add: aba_state_def aba_log_def schedule_simps fun_eq_iff numeral_eq_Suc)

lemma aba_legal:
  "lacts_ok da (\<lambda>t. t < 2) [Add 2 [2], Go 2, Go 2, Go 2, Add 2 [1], Go 2, Go 2, Go 2] ex_start"
  "lacts_ok da (\<lambda>t. t < 2) [First 0, Go 0, Go 0] (aba_state 1 2 Idle Idle (take 2 aba_log))"
  "lacts_ok da (\<lambda>t. t < 2) [First 1, Go 1, Go 1, Go 1] (aba_state 1 2 (FirstCas 1 2) Idle (take 2 aba_log))"
  "lacts_ok da (\<lambda>t. t < 2) [First 1, Go 1, Go 1, Go 1] (aba_state 2 2 (FirstCas 1 2) (Done (Node 1)) (take 3 aba_log))"
  "lacts_ok da (\<lambda>t. t < 2) [Add 1 [1], Go 1, Go 1, Go 1] (aba_state 0 2 (FirstCas 1 2) (Done (Node 2)) (take 4 aba_log))"
  "lacts_ok da (\<lambda>t. t < 2) [Go 0, First 0, Go 0, Go 0, Go 0] (aba_state 1 0 (FirstCas 1 2) (Done (WasEmpty True)) (take 5 aba_log))"
  by (simp_all add: aba_state_def aba_log_def schedule_simps numeral_eq_Suc)

lemma aba_run: "llist_run da (\<lambda>t. t < 2) (aba_state 0 0 (Done (Node 2)) (Done (WasEmpty True)) aba_log)"
proof -
  note run = lacts_run [where da = da and df = "\<lambda>t. t < 2"]
  note 1 = run [OF ex_start_run aba_legal(1), unfolded aba_stages(1)]
  note 2 = run [OF 1 aba_legal(2), unfolded aba_stages(2)]
  note 3 = run [OF 2 aba_legal(3), unfolded aba_stages(3)]
  note 4 = run [OF 3 aba_legal(4), unfolded aba_stages(4)]
  note 5 = run [OF 4 aba_legal(5), unfolded aba_stages(5)]
  show ?thesis by (rule run [OF 5 aba_legal(6), unfolded aba_stages(6)])
qed

text \<open>
  C15 (error): the restriction to one consumer is needed. With two threads in \<open>llist_del_first\<close> there is a run in
  which the first loads the head and its successor, the second takes both nodes and adds the first one back, and
  the compare-and-swap of the first thread still succeeds: the second node, which was taken already and not added
  again, is delivered once more.
\<close>

theorem llist_del_first_aba:
  "\<exists>s. llist_run (\<lambda>_. False) (\<lambda>t. t < 2) s \<and> replay (log s) [] = None \<and>
     map (\<lambda>(t, e, ns). (t, e)) (log s) =
       [(2, Added True), (2, Added False), (1, TookFirst 1), (1, TookFirst 2), (1, Added True),
        (0, TookFirst 1), (0, TookFirst 2)]"
proof -
  have "llist_run (\<lambda>_. False) (\<lambda>t. t < 2) (aba_state 0 0 (Done (Node 2)) (Done (WasEmpty True)) aba_log)" by (rule aba_run)
  moreover have "replay aba_log [] = None" by (simp add: aba_log_def)
  ultimately show ?thesis by (intro exI conjI) (auto simp: aba_state_def aba_log_def)
qed

end
