(* ===== verification/PCond.thy ===== *)
theory PCond
  imports LList Dispatch
begin

text \<open>
  The condition variables of coroutines, \<open>core/src/pthread_hook.cpp\<close>. A coroutine that waits has a \<open>pcond_ctx_t\<close> on
  its stack, in the list of the condition variable and known here by its address; a signal moves the context to the
  lock-free schedule queue of the environment its coroutine belongs to, and notifies that environment, whose
  \<open>pcond_event_cb\<close> resumes the coroutine. Environments are numbers. The nodes \<open>link_to_schedule\<close> of an environment
  are linked in a memory of its own. The operations are modelled one after the other, each under the lock it takes;
  the lock-free queue between them is the subject of \<open>LList\<close>. The time wheel disarms a timer before it calls
  \<open>proc_pthread_cond_timeout\<close>. \<open>contexts\<close> are the contexts that exist and \<open>tm_ready\<close> those whose timer handle has been
  initialised: the delivery of any other piece of memory as a context is \<open>Undefined\<close>.
\<close>

subsection \<open>State\<close>

record pcond_env =
  plinks :: lheap
  cond_map :: "addr \<rightharpoonup> addr"
  pc_co :: "addr \<Rightarrow> addr"
  pc_mgr :: "addr \<Rightarrow> addr"
  pc_pmgr :: "addr \<Rightarrow> nat"
  ret_timeout :: "addr \<Rightarrow> bool"
  timers :: "addr \<rightharpoonup> int"
  sched :: "nat \<Rightarrow> llist_mem"
  notified :: "nat \<Rightarrow> u64"
  resumed :: "addr list"
  held :: "addr set"
  contexts :: "addr set"
  tm_ready :: "addr set"

text \<open>A hooked call goes to the C library, returns, or gives up the processor.\<close>

datatype hooked = Libc | Ret int pcond_env | Yields pcond_env

abbreviation upd_plinks :: "(lheap \<Rightarrow> lheap) \<Rightarrow> pcond_env \<Rightarrow> pcond_env" where
  "upd_plinks f s \<equiv> s\<lparr>plinks := f (plinks s)\<rparr>"

abbreviation upd_sched :: "nat \<Rightarrow> (llist_mem \<Rightarrow> llist_mem) \<Rightarrow> pcond_env \<Rightarrow> pcond_env" where
  "upd_sched v f s \<equiv> s\<lparr>sched := (sched s)(v := f (sched s v))\<rparr>"

definition EINVAL :: int where
  "EINVAL = 22"

definition ETIMEDOUT :: int where
  "ETIMEDOUT = 110"

subsection \<open>The map of condition variables\<close>

definition find_cond_map_can_null :: "addr \<Rightarrow> pcond_env \<Rightarrow> addr option" where
  "find_cond_map_can_null key s = cond_map s key"

text \<open>The second half of \<open>find_cond_map\<close>, under the write lock: \<open>mgr\<close> is the manager it has allocated meanwhile.\<close>

definition add_cond_mgr :: "addr \<Rightarrow> addr \<Rightarrow> pcond_env \<Rightarrow> addr \<times> pcond_env" where
  "add_cond_mgr mgr key s =
     (let s = upd_plinks (INIT_LIST_HEAD mgr) s in
      case cond_map s key of
        Some old_mgr \<Rightarrow> (old_mgr, s)
      | None \<Rightarrow> (mgr, s\<lparr>cond_map := (cond_map s)(key \<mapsto> mgr)\<rparr>))"

definition find_cond_map :: "addr \<Rightarrow> addr \<Rightarrow> pcond_env \<Rightarrow> addr \<times> pcond_env" where
  "find_cond_map mgr key s =
     (case cond_map s key of Some m \<Rightarrow> (m, s) | None \<Rightarrow> add_cond_mgr mgr key s)"

definition pthread_cond_destroy :: "addr \<Rightarrow> pcond_env \<Rightarrow> pcond_env" where
  "pthread_cond_destroy cond s =
     (case find_cond_map_can_null cond s of
        None \<Rightarrow> s
      | Some mgr \<Rightarrow> upd_plinks (list_del_init mgr) (s\<lparr>cond_map := (cond_map s)(cond := None)\<rparr>))"

subsection \<open>Waiting\<close>

definition unlock :: "addr \<Rightarrow> pcond_env \<Rightarrow> pcond_env" where
  "unlock mutex s = (if mutex \<noteq> NULL then s\<lparr>held := held s - {mutex}\<rparr> else s)"

definition relock :: "addr \<Rightarrow> pcond_env \<Rightarrow> pcond_env" where
  "relock mutex s = (if mutex \<noteq> NULL then s\<lparr>held := insert mutex (held s)\<rparr> else s)"

text \<open>The constructor of \<open>pcond_ctx_t\<close>.\<close>

definition pcond_ctx_init :: "addr \<Rightarrow> pcond_env \<Rightarrow> pcond_env" where
  "pcond_ctx_init ctx s =
     (upd_plinks (INIT_LIST_HEAD ctx) s)\<lparr>ret_timeout := (ret_timeout s)(ctx := False),
        pc_mgr := (pc_mgr s)(ctx := NULL), pc_co := (pc_co s)(ctx := NULL),
        contexts := insert ctx (contexts s), tm_ready := tm_ready s - {ctx}\<rparr>"

text \<open>What both waits do from the context on: enqueue it, release the mutex and yield.\<close>

definition enter_wait :: "nat \<Rightarrow> addr \<Rightarrow> addr \<Rightarrow> addr \<Rightarrow> addr \<Rightarrow> addr \<Rightarrow> pcond_env \<Rightarrow> pcond_env" where
  "enter_wait v co mgr ctx cond mutex s =
     (let s = s\<lparr>pc_co := (pc_co s)(ctx := co)\<rparr>;
          (m, s) = find_cond_map mgr cond s;
          s = s\<lparr>pc_mgr := (pc_mgr s)(ctx := m)\<rparr>;
          s = upd_plinks (list_add_tail ctx m) s;
          s = s\<lparr>pc_pmgr := (pc_pmgr s)(ctx := v)\<rparr>
      in unlock mutex s)"

definition pthread_cond_wait :: "bool \<Rightarrow> nat \<Rightarrow> addr \<Rightarrow> addr \<Rightarrow> addr \<Rightarrow> addr \<Rightarrow> addr \<Rightarrow> pcond_env \<Rightarrow> hooked" where
  "pthread_cond_wait hook v co mgr ctx cond mutex s =
     (if \<not> hook then Libc else Yields (enter_wait v co mgr ctx cond mutex (pcond_ctx_init ctx s)))"

text \<open>Signed division of C.\<close>

definition c_div :: "int \<Rightarrow> int \<Rightarrow> int" where
  "c_div a b = (if a \<ge> 0 then a div b else - ((- a) div b))"

text \<open>The delay that \<open>pthread_cond_timedwait\<close> computes, in 64 bits, and the \<open>int\<close> that \<open>set_timeout\<close> receives.\<close>

definition deadline_ms :: "u64 \<Rightarrow> u64 \<Rightarrow> u64" where
  "deadline_ms tv_sec tv_nsec = tv_sec * 1000 + word_of_int (c_div (sint tv_nsec) 1000000)"

definition timed_delay :: "u64 \<Rightarrow> u64 \<Rightarrow> u64" where
  "timed_delay timeout now = (let timeout = (if timeout < now then 0 else timeout) in timeout - now)"

definition timer_arg :: "u64 \<Rightarrow> int" where
  "timer_arg timeout = sint (ucast timeout :: u32)"

definition pthread_cond_timedwait ::
  "bool \<Rightarrow> u64 \<Rightarrow> nat \<Rightarrow> addr \<Rightarrow> addr \<Rightarrow> addr \<Rightarrow> addr \<Rightarrow> addr \<Rightarrow> (u64 \<times> u64) option \<Rightarrow> pcond_env \<Rightarrow> hooked" where
  "pthread_cond_timedwait hook now v co mgr ctx cond mutex abstime s =
     (if \<not> hook then Libc
      else let s0 = s; s = pcond_ctx_init ctx s in
      case abstime of
        None \<Rightarrow> Yields (enter_wait v co mgr ctx cond mutex (upd_plinks (INIT_LIST_HEAD ctx) s))
      | Some (sec, nsec) \<Rightarrow>
          if sint sec \<le> 0 then Ret EINVAL s0
          else if sint nsec \<ge> 1000000000 then Ret EINVAL s0
          else let s = s\<lparr>tm_ready := insert ctx (tm_ready s),
                        timers := (timers s)(ctx \<mapsto> timer_arg (timed_delay (deadline_ms sec nsec) now))\<rparr>
               in Yields (enter_wait v co mgr ctx cond mutex (upd_plinks (INIT_LIST_HEAD ctx) s)))"

text \<open>The rest of both waits, when the coroutine runs again: the mutex is taken, the context is gone, and the result.\<close>

definition pthread_cond_wait_return :: "addr \<Rightarrow> addr \<Rightarrow> pcond_env \<Rightarrow> hooked" where
  "pthread_cond_wait_return ctx mutex s = Ret 0 ((relock mutex s)\<lparr>contexts := contexts s - {ctx}\<rparr>)"

definition pthread_cond_timedwait_return :: "addr \<Rightarrow> addr \<Rightarrow> pcond_env \<Rightarrow> hooked" where
  "pthread_cond_timedwait_return ctx mutex s =
     (let s = relock mutex s; r = (if ret_timeout s ctx then ETIMEDOUT else 0) in Ret r (s\<lparr>contexts := contexts s - {ctx}\<rparr>))"

subsection \<open>Waking up\<close>

text \<open>\<open>llist_add\<close> without interference.\<close>

definition llist_push :: "addr \<Rightarrow> llist_mem \<Rightarrow> llist_mem" where
  "llist_push n m = (set_lnext n (first m) m)\<lparr>first := n\<rparr>"

definition add_to_pcond_schedule :: "addr \<Rightarrow> pcond_env \<Rightarrow> pcond_env" where
  "add_to_pcond_schedule ctx s =
     (let v = pc_pmgr s ctx;
          s = (if \<not> list_empty ctx (plinks s) then upd_plinks (list_del_init ctx) s else s);
          s = upd_sched v (llist_push ctx) s
      in s\<lparr>notified := (notified s)(v := notified s v + 1)\<rparr>)"

definition proc_pthread_cond_timeout :: "addr \<Rightarrow> pcond_env \<Rightarrow> pcond_env" where
  "proc_pthread_cond_timeout ctx s = add_to_pcond_schedule ctx (s\<lparr>ret_timeout := (ret_timeout s)(ctx := True)\<rparr>)"

definition schedule_body :: "addr \<Rightarrow> int \<times> pcond_env \<Rightarrow> int \<times> pcond_env" where
  "schedule_body ctx cs = (fst cs + 1, add_to_pcond_schedule ctx (snd cs))"

text \<open>\<open>nq\<close> is the local list head \<open>notify_queue\<close>; \<open>None\<close> when the fuel of the loop runs out.\<close>

definition pthread_cond_signal_help :: "nat \<Rightarrow> addr \<Rightarrow> addr \<Rightarrow> bool \<Rightarrow> pcond_env \<Rightarrow> (int \<times> pcond_env) option" where
  "pthread_cond_signal_help k nq cond only_one s =
     (case find_cond_map_can_null cond s of
        None \<Rightarrow> Some (0, s)
      | Some mgr \<Rightarrow>
          if list_empty mgr (plinks s) then Some (0, s)
          else
            let s = upd_plinks (INIT_LIST_HEAD nq) s;
                s = (if only_one then
                       let (x, h) = list_pop_head mgr (plinks s) in s\<lparr>plinks := list_add_tail x nq h\<rparr>
                     else upd_plinks (list_del_init mgr) (upd_plinks (list_add_tail mgr nq) s))
            in list_for_each_entry_safe k (plinks \<circ> snd) schedule_body nq (0, s))"

text \<open>Whether the call goes on to the C library's function, and the state.\<close>

definition pthread_cond_signal :: "nat \<Rightarrow> addr \<Rightarrow> addr \<Rightarrow> pcond_env \<Rightarrow> (bool \<times> pcond_env) option" where
  "pthread_cond_signal k nq cond s =
     map_option (\<lambda>(cnt, s). (cnt = 0, s)) (pthread_cond_signal_help k nq cond True s)"


text \<open>
  \<open>pcond_event_cb\<close> of environment \<open>v\<close>. \<open>run co\<close> is what happens from the resumption of \<open>co\<close> until control comes
  back. The loop is given \<open>&queue\<close>, the address \<open>q\<close> of the local variable, in place of its value: the variable
  itself is the first node of the walk, and its value the node's \<open>next\<close>. \<open>cancel_timeout\<close> and \<open>resume\<close> on a node that is not the
  \<open>link_to_schedule\<close> of a context, or \<open>cancel_timeout\<close> on a handle that was never initialised, read indeterminate memory.
\<close>

datatype walk = Ended pcond_env | Undefined | Out_of_fuel

fun event_loop :: "nat \<Rightarrow> (addr \<Rightarrow> pcond_env \<Rightarrow> pcond_env) \<Rightarrow> nat \<Rightarrow> addr \<Rightarrow> pcond_env \<Rightarrow> walk" where
  "event_loop 0 run v pos s = Out_of_fuel"
| "event_loop (Suc k) run v pos s =
     (if pos = NULL then Ended s
      else if pos \<notin> contexts s \<or> pos \<notin> tm_ready s then Undefined
      else let n = lnext (sched s v) pos;
               s = upd_sched v (set_lnext pos NULL) s;
               s = s\<lparr>timers := (timers s)(pos := None)\<rparr>;
               s = s\<lparr>resumed := resumed s @ [pc_co s pos]\<rparr>;
               s = run (pc_co s pos) s
           in event_loop k run v n s)"

definition pcond_event_cb ::
  "nat \<Rightarrow> (addr \<Rightarrow> pcond_env \<Rightarrow> pcond_env) \<Rightarrow> addr \<Rightarrow> nat \<Rightarrow> u64 \<Rightarrow> pcond_env \<Rightarrow> walk" where
  "pcond_event_cb k run q v num s =
     (if num > 0 \<and> \<not> llist_empty (sched s v) then
        let queue = first (sched s v);
            s = upd_sched v (\<lambda>m. m\<lparr>first := NULL\<rparr>) s
        in case llist_reverse_order k queue (sched s v) of
             None \<Rightarrow> Out_of_fuel
           | Some (queue, m) \<Rightarrow> event_loop k run v q (upd_sched v (\<lambda>_. set_lnext q queue m) s)
      else Ended s)"

subsection \<open>Chains\<close>

lemma llist_push_solo: "llist_solo (Suc (Suc (Suc k))) (llist_add n) m = Some (WasEmpty (first m = NULL), llist_push n m)"
  by (simp add: llist_add_def llist_add_batch_def llist_push_def set_lnext_def)

lemma llist_push_seg:
  "lseg (lnext m) (first m) xs NULL \<Longrightarrow> n \<noteq> NULL \<Longrightarrow> n \<notin> set xs \<Longrightarrow>
   lseg (lnext (llist_push n m)) (first (llist_push n m)) (n # xs) NULL"
  by (simp add: llist_push_def set_lnext_def)

subsection \<open>The event callback\<close>

text \<open>
  The loop started at the value of \<open>queue\<close> would do what it is meant to: it visits the chain in order, and with every context alive and
  with an initialised handle it resumes their coroutines and disarms their timers. \<open>run\<close> may end the context it resumes, but leaves the others alone.
\<close>

definition cb_keeps :: "(addr \<Rightarrow> pcond_env \<Rightarrow> pcond_env) \<Rightarrow> nat \<Rightarrow> addr set \<Rightarrow> bool" where
  "cb_keeps run v N \<longleftrightarrow> (\<forall>co s. (\<forall>n\<in>N. pc_co s n \<noteq> co \<longrightarrow> lnext (sched (run co s) v) n = lnext (sched s v) n \<and>
       pc_co (run co s) n = pc_co s n \<and> (n \<in> contexts s \<longrightarrow> n \<in> contexts (run co s)) \<and> (n \<in> tm_ready s \<longrightarrow> n \<in> tm_ready (run co s))) \<and>
     resumed (run co s) = resumed s)"

lemma event_loop_in_order:
  assumes "cb_keeps run v N" "lseg (lnext (sched s v)) p xs NULL" "distinct xs" "set xs \<subseteq> N" "length xs < k"
    and "set xs \<subseteq> contexts s" "set xs \<subseteq> tm_ready s" "inj_on (pc_co s) (set xs)"
  shows "\<exists>s'. event_loop k run v p s = Ended s' \<and> resumed s' = resumed s @ map (pc_co s) xs"
  using assms(2-)
proof (induction xs arbitrary: p s k)
  case Nil
  then show ?case by (cases k) auto
next
  case (Cons x xs)
  obtain k' where k: "k = Suc k'" using Cons.prems(4) by (cases k) auto
  have x: "p = x" "x \<noteq> NULL" "x \<notin> set xs" "x \<in> N" using Cons.prems by auto
  define s1 where "s1 = (upd_sched v (set_lnext x NULL) s)\<lparr>timers := (timers s)(x := None), resumed := resumed s @ [pc_co s x]\<rparr>"
  define s2 where "s2 = run (pc_co s x) s1"
  have co: "pc_co s1 n \<noteq> pc_co s x" if "n \<in> set xs" for n
    using that Cons.prems(7) x(3) by (auto simp: s1_def inj_on_def)
  have keep: "lnext (sched s2 v) n = lnext (sched s1 v) n" "pc_co s2 n = pc_co s1 n" "n \<in> contexts s2" "n \<in> tm_ready s2" if "n \<in> set xs" for n
  proof -
    have n: "n \<in> N" "n \<in> contexts s1" "n \<in> tm_ready s1" using Cons.prems(3,5,6) that by (auto simp: s1_def)
    from assms(1) n co [OF that] show "lnext (sched s2 v) n = lnext (sched s1 v) n" "pc_co s2 n = pc_co s1 n" "n \<in> contexts s2" "n \<in> tm_ready s2"
      unfolding cb_keeps_def s2_def by blast+
  qed
  have r2: "resumed s2 = resumed s @ [pc_co s x]" using assms(1) unfolding cb_keeps_def s2_def by (simp add: s1_def)
  have "lseg (lnext (sched s2 v)) (lnext (sched s v) x) xs NULL = lseg (lnext (sched s v)) (lnext (sched s v) x) xs NULL"
    using keep(1) x(3) by (intro lseg_cong) (auto simp: s1_def set_lnext_def)
  moreover have "inj_on (pc_co s2) (set xs)" using Cons.prems(7) keep(2) by (auto simp: inj_on_def s1_def)
  ultimately obtain s' where s': "event_loop k' run v (lnext (sched s v) x) s2 = Ended s'" "resumed s' = resumed s2 @ map (pc_co s2) xs"
    using Cons.IH [of s2 "lnext (sched s v) x" k'] Cons.prems keep(3,4) k x(1) by auto
  have "event_loop k run v p s = event_loop k' run v (lnext (sched s v) x) s2"
    using k x Cons.prems(5,6) by (simp add: s2_def s1_def Let_def)
  moreover have "map (pc_co s2) xs = map (pc_co s) xs" using keep(2) by (auto simp: s1_def)
  ultimately show ?case using s' r2 by auto
qed

text \<open>Started at the address of the variable, it takes the frame of the callback for a context.\<close>

lemma callback_undefined:
  assumes "lseg (lnext (sched s v)) (first (sched s v)) zs NULL" "distinct zs" "zs \<noteq> []"
    and "q \<notin> contexts s" "q \<noteq> NULL" "num > 0" "length zs < k"
  shows "pcond_event_cb k run q v num s = Undefined"
proof -
  let ?s = "upd_sched v (\<lambda>m. m\<lparr>first := NULL\<rparr>) s"
  have "lseg (lnext (sched ?s v)) (first (sched s v)) zs NULL" using assms(1) by simp
  then obtain r m where r: "llist_reverse_order k (first (sched s v)) (sched ?s v) = Some (r, m)"
    using reverse_loop_seg [of "sched ?s v" "first (sched s v)" zs NULL "[]" k] assms(2,7)
    unfolding llist_reverse_order_def by auto
  obtain k' where "k = Suc k'" using assms(7) by (cases k) auto
  moreover have "first (sched s v) \<noteq> NULL" using assms(1,3) by (cases zs) auto
  ultimately show ?thesis using r assms(4-6) by (simp add: pcond_event_cb_def llist_empty_def Let_def)
qed

subsection \<open>Signals\<close>

lemma signal_ok:
  assumes rel: "list_rel H U (plinks s) st" and mgr: "cond_map s cond = Some mgr" "mgr \<in> H" "st mgr = x # xs"
    and nq: "nq \<notin> H" "nq \<notin> U" and k: "2 \<le> k"
  shows "\<exists>s1 st'. pthread_cond_signal_help k nq cond True s = Some (1, s1) \<and>
    list_rel (insert nq H) U (plinks s1) st' \<and> (\<forall>l\<in>H. st' l = (st(mgr := xs)) l) \<and>
    s1 = s\<lparr>plinks := plinks s1, sched := (sched s)(pc_pmgr s x := llist_push x (sched s (pc_pmgr s x))),
      notified := (notified s)(pc_pmgr s x := notified s (pc_pmgr s x) + 1)\<rparr>"
proof -
  let ?H = "insert nq H"
  define h0 where "h0 = INIT_LIST_HEAD nq (plinks s)"
  have r0: "list_rel ?H U h0 (st(nq := []))" unfolding h0_def by (rule INIT_LIST_HEAD_rel [OF rel nq])
  have x: "x \<in> U" "x \<noteq> nq" using list_relD(2) [OF rel mgr(2)] mgr(3) nq by auto
  have mn: "mgr \<noteq> nq" using mgr(2) nq by auto
  have pop: "list_pop_head mgr h0 = (x, list_del_init x h0)"
    using list_pop_eqs(1) [OF r0, of mgr] mgr mn by simp
  define st1 where "st1 = st_add_tail x nq (st_del x (st(nq := [])))"
  define h1 where "h1 = list_add_tail x nq (list_del_init x h0)"
  have r1: "list_rel ?H U h1 st1" unfolding h1_def st1_def using list_h.rel_move_tail [OF r0] x(1) by simp
  have "st1 nq = [x]" by (simp add: st1_def st_add_tail_def st_del_def)
  then have l1: "is_list h1 nq [x]" using list_relD(1) [OF r1, of nq] by simp
  have nx: "nxt h1 nq = x" using is_list_next [OF l1] by simp
  have nx2: "nxt h1 x = nq" using is_list_next [OF is_list_rotate [of h1 nq "[]" x "[]"]] l1 by simp
  have ne: "\<not> list_empty x h1" using nx2 x(2) by (simp add: list_empty_def)
  define h2 where "h2 = list_del_init x h1"
  have r2: "list_rel ?H U h2 (st_del x st1)" unfolding h2_def by (rule list_del_init_rel [OF r1 x(1)])
  have e: "\<not> list_empty mgr (plinks s)" using list_h.rel_empty [OF rel mgr(2)] mgr(3) by simp
  obtain k' where k': "k = Suc (Suc k')" using k by (metis Suc_le_D numeral_2_eq_2 Suc_le_mono)
  have "pthread_cond_signal_help k nq cond True s = Some (1, add_to_pcond_schedule x (s\<lparr>plinks := h1\<rparr>))"
    using mgr e pop nx nx2 x(2)
    by (simp add: pthread_cond_signal_help_def find_cond_map_can_null_def list_for_each_entry_safe_def Let_def
        schedule_body_def k' h0_def [symmetric] h1_def [symmetric])
  moreover have "st_del x st1 l = (st(mgr := xs)) l" if "l \<in> H" for l
  proof -
    have "x \<notin> set (st l)" if "l \<noteq> mgr" using list_rel_disjoint [OF rel \<open>l \<in> H\<close> mgr(2) that] mgr(3) by auto
    then show ?thesis using that nq mgr(3) list_h.rel_once [OF rel mgr(2)] by (auto simp: st1_def st_del_def st_add_tail_def remove1_idem)
  qed
  ultimately show ?thesis
    using r2 ne by (intro exI [of _ "add_to_pcond_schedule x (s\<lparr>plinks := h1\<rparr>)"] exI [of _ "st_del x st1"])
      (auto simp: add_to_pcond_schedule_def Let_def h2_def)
qed

text \<open>
  C18: A signal takes the coroutine that has waited longest out of the queue of the condition variable, links its context in front of
  the schedule queue of its environment and notifies the environment; no waiter is lost and no other list changes. The
  delivery then fails: \<open>pcond_event_cb\<close> starts its loop at the address of its variable \<open>queue\<close>, which is no context, and whatever
  is scheduled its behaviour is undefined before it resumes any coroutine.
\<close>

theorem signal_schedules_oldest:
  assumes "list_rel H U (plinks s) st" "cond_map s cond = Some mgr" "mgr \<in> H" "st mgr = x # xs" "nq \<notin> H" "nq \<notin> U"
    and "v = pc_pmgr s x" "lseg (lnext (sched s v)) (first (sched s v)) ys NULL" "distinct (x # ys)" "x \<noteq> NULL"
    and "q \<notin> contexts s" "q \<noteq> NULL" "length ys + 1 < k"
  shows "\<exists>s1 st'. pthread_cond_signal k nq cond s = Some (False, s1) \<and>
    list_rel (insert nq H) U (plinks s1) st' \<and> (\<forall>l\<in>H. st' l = (st(mgr := xs)) l) \<and>
    lseg (lnext (sched s1 v)) (first (sched s1 v)) (x # ys) NULL \<and> (\<forall>w. w \<noteq> v \<longrightarrow> sched s1 w = sched s w) \<and>
    notified s1 v = notified s v + 1 \<and> resumed s1 = resumed s \<and>
    (\<forall>run num. num > 0 \<longrightarrow> pcond_event_cb k run q v num s1 = Undefined)"
proof -
  obtain s1 st' where s1: "pthread_cond_signal_help k nq cond True s = Some (1, s1)"
    "list_rel (insert nq H) U (plinks s1) st'" "\<forall>l\<in>H. st' l = (st(mgr := xs)) l"
    "s1 = s\<lparr>plinks := plinks s1, sched := (sched s)(pc_pmgr s x := llist_push x (sched s (pc_pmgr s x))),
      notified := (notified s)(pc_pmgr s x := notified s (pc_pmgr s x) + 1)\<rparr>"
    using signal_ok [OF assms(1-6), of k] assms(13) by auto
  have f: "sched s1 v = llist_push x (sched s v)" "notified s1 v = notified s v + 1" "contexts s1 = contexts s" "resumed s1 = resumed s"
    "\<forall>w. w \<noteq> v \<longrightarrow> sched s1 w = sched s w"
    by (subst s1(4), simp add: assms(7))+
  have c: "lseg (lnext (sched s1 v)) (first (sched s1 v)) (x # ys) NULL"
    unfolding f(1) using assms(8-10) by (intro llist_push_seg) auto
  have "pcond_event_cb k run q v num s1 = Undefined" if "num > 0" for run num
    using callback_undefined [OF c assms(9) _ _ assms(12) that, of k] assms(11,13) f(3) by simp
  then show ?thesis using s1(1-3) f c by (intro exI [of _ s1] exI [of _ st']) (auto simp: pthread_cond_signal_def)
qed


text \<open>
  When the timer of a context fires while the context is already scheduled (a signal came first, the callback has
  not run yet), the context is linked into the schedule queue twice: the queue becomes a cycle through \<open>x\<close> and the contexts
  scheduled after it, and the contexts scheduled before it, \<open>bs\<close>, are out of the queue without being resumed.
\<close>

lemma timeout_after_signal:
  assumes "lseg (lnext (sched s v)) (first (sched s v)) (as @ x # bs) NULL" "distinct (as @ x # bs)" "v = pc_pmgr s x"
  shows "lseg (lnext (sched (proc_pthread_cond_timeout x s) v)) (first (sched (proc_pthread_cond_timeout x s) v)) (x # as) x \<and>
    resumed (proc_pthread_cond_timeout x s) = resumed s"
proof -
  define s0 where "s0 = proc_pthread_cond_timeout x s"
  have f: "sched s0 v = llist_push x (sched s v)" "resumed s0 = resumed s"
    unfolding s0_def proc_pthread_cond_timeout_def add_to_pcond_schedule_def Let_def by (simp_all add: assms(3))
  have "x \<noteq> NULL" "x \<notin> set as" using assms(1,2) lseg_nonnull by fastforce+
  then have "lseg (lnext (sched s0 v)) (first (sched s0 v)) (x # as) x"
    using assms(1) unfolding f(1) by (auto simp: llist_push_def set_lnext_def lseg_append)
  then show ?thesis using f(2) by (simp add: s0_def)
qed

text \<open>The low half of a 64-bit number read as an \<open>int\<close>.\<close>

lemma sint_low:
  fixes w :: u64
  shows "sint (ucast w :: u32) = (uint w + 2 ^ 31) mod 2 ^ 32 - 2 ^ 31"
proof -
  have "sint (ucast w :: u32) = signed_take_bit 31 (uint w)"
    by transfer (simp)
  then show ?thesis by (simp add: signed_take_bit_eq_take_bit_shift take_bit_eq_mod)
qed

lemma uint_neg:
  fixes w :: u64
  assumes "w \<noteq> 0"
  shows "uint (- w) = 2 ^ 64 - uint w"
  using assms uint_lt2p [of w] by (simp add: uint_word_ariths zmod_zminus1_eq_if uint_0_iff)

lemma sint_low_neg:
  fixes now :: u64
  assumes "now \<noteq> 0"
  shows "sint (ucast (- now) :: u32) = (if unat now mod 2 ^ 32 \<le> 2 ^ 31 then - int (unat now mod 2 ^ 32)
    else 2 ^ 32 - int (unat now mod 2 ^ 32))"
proof -
  define r where "r = uint now mod 2 ^ 32"
  have r: "0 \<le> r" "r < 2 ^ 32" by (simp_all add: r_def)
  have i: "int (unat now mod 2 ^ 32) = r" by (simp add: r_def zmod_int)
  have "(2 ^ 64 - uint now + 2 ^ 31) mod 2 ^ 32 = (2 ^ 31 - uint now + 2 ^ 32 * 2 ^ 32) mod (2 ^ 32 :: int)" by simp
  also have "\<dots> = (2 ^ 31 - uint now) mod 2 ^ 32" by (rule mod_mult_self2)
  also have "\<dots> = (2 ^ 31 - r) mod 2 ^ 32" unfolding r_def by (simp only: mod_diff_right_eq)
  also have "\<dots> = (if r \<le> 2 ^ 31 then 2 ^ 31 - r else 2 ^ 31 - r + 2 ^ 32)"
  proof (cases "r \<le> 2 ^ 31")
    case False
    then have "(2 ^ 31 - r) mod 2 ^ 32 = (2 ^ 31 - r + 2 ^ 32) mod 2 ^ 32" by (simp only: mod_add_self2)
    also have "\<dots> = 2 ^ 31 - r + 2 ^ 32" by (rule mod_pos_pos_trivial) (use False r in simp_all)
    finally show ?thesis using False by simp
  qed (use r in simp)
  finally have "sint (ucast (- now) :: u32) = (if r \<le> 2 ^ 31 then - r else 2 ^ 32 - r)"
    unfolding sint_low uint_neg [OF assms] by simp
  moreover have "unat now mod 2 ^ 32 \<le> 2 ^ 31 \<longleftrightarrow> r \<le> 2 ^ 31"
    unfolding i [symmetric] using of_nat_le_iff [of "unat now mod 2 ^ 32" "2 ^ 31", where 'a = int]
    by (simp only: of_nat_power of_nat_numeral)
  ultimately show ?thesis unfolding i by simp
qed

text \<open>
  The delay armed by \<open>pthread_cond_timedwait\<close>. For a deadline in the future it is the time left, as long as that
  fits an \<open>int\<close>. For a deadline that has passed it is not 0 but the negated clock cut to 32 bits: when the low 32 bits
  of the clock exceed \<open>2^31\<close> the call waits, for up to 24 days, instead of timing out at once.
\<close>

lemma past_deadline_delay:
  "(now \<le> t \<and> unat (t - now) < 2 ^ 31 \<longrightarrow> timer_arg (timed_delay t now) = int (unat t) - int (unat now)) \<and>
   (t < now \<longrightarrow> timer_arg (timed_delay t now) =
      (if unat now mod 2 ^ 32 \<le> 2 ^ 31 then - int (unat now mod 2 ^ 32) else 2 ^ 32 - int (unat now mod 2 ^ 32)))"
proof (intro conjI impI)
  assume a: "now \<le> t \<and> unat (t - now) < 2 ^ 31"
  then have d: "unat (t - now) = unat t - unat now" by (simp add: unat_sub)
  have "unat (ucast (t - now) :: u32) = unat (t - now)"
    using a by (simp add: unsigned_ucast_eq take_bit_nat_eq_self_iff)
  then have "sint (ucast (t - now) :: u32) = int (unat (t - now))" using a by (intro trans [OF sint_u32]) simp_all
  moreover have "unat now \<le> unat t" using a by (simp add: word_le_nat_alt)
  ultimately show "timer_arg (timed_delay t now) = int (unat t) - int (unat now)"
    using a d leD [of now t] by (simp add: timer_arg_def timed_delay_def)
next
  assume "t < now"
  then have "now \<noteq> 0" by auto
  then show "timer_arg (timed_delay t now) =
      (if unat now mod 2 ^ 32 \<le> 2 ^ 31 then - int (unat now mod 2 ^ 32) else 2 ^ 32 - int (unat now mod 2 ^ 32))"
    using \<open>t < now\<close> sint_low_neg [of now] by (simp add: timer_arg_def timed_delay_def)
qed

lemma past_deadline_delay_witness: "timer_arg (timed_delay 1 4000000000) = 294967296"
  using past_deadline_delay [of 4000000000 1] by simp

subsection \<open>Examples\<close>

text \<open>Two coroutines wait for the condition variable 50 in environment 0; both contexts and the queue are fresh.\<close>

definition ex_pcond :: pcond_env where
  "ex_pcond = \<lparr>plinks = \<lparr>nxt = (\<lambda>x. x), prv = (\<lambda>x. x)\<rparr>, cond_map = Map.empty, pc_co = (\<lambda>_. 0), pc_mgr = (\<lambda>_. 0),
     pc_pmgr = (\<lambda>_. 0), ret_timeout = (\<lambda>_. False), timers = Map.empty, sched = (\<lambda>_. \<lparr>first = 0, lnext = (\<lambda>_. 0)\<rparr>),
     notified = (\<lambda>_. 0), resumed = [], held = {}, contexts = {10, 11}, tm_ready = {}\<rparr>"

definition ex_waits :: pcond_env where
  "ex_waits = enter_wait 0 101 1 11 50 0 (enter_wait 0 100 1 10 50 0 ex_pcond)"

lemma ex_pcond_rel: "list_rel {1} {10, 11} (plinks ex_pcond) (\<lambda>_. [])"
  by (auto simp: ex_pcond_def list_rel_def is_list_def linked_def)

lemma ex_waits_rel: "list_rel {1} {10, 11} (plinks ex_waits) ((\<lambda>_. [])(1 := [10, 11]))"
proof -
  have "plinks ex_waits = list_add_tail 11 1 (list_add_tail 10 1 (plinks ex_pcond))"
    by (simp add: ex_waits_def enter_wait_def find_cond_map_def add_cond_mgr_def unlock_def ex_pcond_def Let_def list_ops
        fun_upd_idem)
  moreover have "list_rel {1} {10, 11} (list_add_tail 10 1 (plinks ex_pcond)) (st_add_tail 10 1 (\<lambda>_. []))"
    by (rule list_add_rel(2) [OF ex_pcond_rel]) (auto simp: linked_def)
  then have "list_rel {1} {10, 11} (list_add_tail 11 1 (list_add_tail 10 1 (plinks ex_pcond)))
      (st_add_tail 11 1 (st_add_tail 10 1 (\<lambda>_. [])))"
    by (rule list_add_rel(2)) (auto simp: linked_def st_add_tail_def)
  ultimately show ?thesis by (simp add: st_add_tail_def)
qed

lemma ex_waits_fields:
  "cond_map ex_waits 50 = Some 1" "pc_pmgr ex_waits 10 = 0" "first (sched ex_waits 0) = 0" "pc_co ex_waits 10 = 100"
  "contexts ex_waits = {10, 11}" "resumed ex_waits = []"
  by (simp_all add: ex_waits_def enter_wait_def find_cond_map_def add_cond_mgr_def unlock_def ex_pcond_def Let_def)

theorem signal_schedules_oldest_witness:
  "\<exists>s1. pthread_cond_signal 5 2 50 ex_waits = Some (False, s1) \<and> first (sched s1 0) = 10 \<and>
     pcond_event_cb 5 (\<lambda>co s. s) 7 0 1 s1 = Undefined"
  using signal_schedules_oldest [OF ex_waits_rel, of 50 1 10 "[11]" 2 0 "[]" 7 5] ex_waits_fields by auto


lemma timeout_after_signal_witness:
  "lseg (lnext (sched (proc_pthread_cond_timeout 11 (ex_pcond\<lparr>sched := (\<lambda>_. \<lparr>first = 11, lnext = (\<lambda>_. 0)(11 := 10)\<rparr>)\<rparr>)) 0)) 11 [11] 11"
proof -
  let ?s = "ex_pcond\<lparr>sched := (\<lambda>_. \<lparr>first = 11, lnext = (\<lambda>_. 0)(11 := 10)\<rparr>)\<rparr>"
  have "lseg (lnext (sched ?s 0)) (first (sched ?s 0)) ([] @ 11 # [10]) NULL" by simp
  from timeout_after_signal [OF this] show ?thesis by (auto simp: ex_pcond_def)
qed

end
