(* ===== verification/FdCtx.thy ===== *)
theory FdCtx
  imports Prelude
begin

text \<open>
  The table of descriptor contexts of \<open>core/src/fd_ctx.cpp\<close> and \<open>core/fd_ctx.h\<close>, in which the hooks of the system calls
  keep the type, the flags and the timeouts of every descriptor. The array \<open>fds\<close> is the block the manager owns, so
  that its length is what was allocated and \<open>size\<close> what the manager believes. \<open>None\<close> is an access outside the
  array, a null manager, an overflow of \<open>int\<close>, or the abort of a negative descriptor.
\<close>

subsection \<open>State\<close>

record fd_ctx =
  fc_type :: int
  fc_fd :: int
  user_flag :: int
  fc_closed :: int
  rcv_timeout :: int
  snd_timeout :: int
  fc_domain :: int

record fd_ctx_mgr =
  fds :: "addr list"
  fsize :: int

text \<open>The environment: the global manager, the contexts on the heap and the kernel's status flags.\<close>

record fd_env =
  g_fd_ctx_mgr :: "fd_ctx_mgr option"
  ctxs :: "addr \<Rightarrow> fd_ctx"
  deleted :: "addr list"
  fl_flags :: "int \<Rightarrow> u32"

definition O_NONBLOCK :: u32 where
  "O_NONBLOCK = 0x800"

subsection \<open>Operations\<close>

text \<open>\<open>new fd_ctx_t*[size+1]\<close> throws for a negative length.\<close>

definition create_fd_ctx_mgr :: "int \<Rightarrow> fd_ctx_mgr option" where
  "create_fd_ctx_mgr sz =
     (if sz + 1 < 0 then None else Some \<lparr>fds = replicate (nat (sz + 1)) NULL, fsize = sz\<rparr>)"

text \<open>The flag \<open>fd_ctx_size\<close>, or the hard limit on descriptors, \<open>None\<close> when \<open>getrlimit\<close> fails, cut to an \<open>int\<close>.\<close>

definition get_default_fd_ctx_size :: "int \<Rightarrow> u64 option \<Rightarrow> int" where
  "get_default_fd_ctx_size flag rlim =
     (if flag > 0 then flag
      else case rlim of None \<Rightarrow> 100000 | Some m \<Rightarrow> sint (ucast m :: u32))"

function expand_size :: "int \<Rightarrow> int \<Rightarrow> int" where
  "expand_size sz need = (if sz \<le> need then expand_size (sz + 10000) need else sz)"
  by pat_completeness auto
termination by (relation "measure (\<lambda>(s, n). nat (n - s + 1))") auto

definition fd_ctx_expand :: "int \<Rightarrow> fd_ctx_mgr \<Rightarrow> fd_ctx_mgr option" where
  "fd_ctx_expand need_size mgr =
     (let sz = expand_size (fsize mgr) need_size in
      if sz \<ge> 2 ^ 31 then None
      else
        let fds' = replicate (nat sz) NULL in
        if fsize mgr > 0 then
          if nat (fsize mgr) \<le> length (fds mgr) then
            case memcpy fds' 0 (take (nat (fsize mgr)) (fds mgr)) of
              None \<Rightarrow> None
            | Some a \<Rightarrow> Some \<lparr>fds = a, fsize = sz\<rparr>
          else None
        else Some \<lparr>fds = fds', fsize = sz\<rparr>)"

definition get_fd_ctx_mgr :: "int \<Rightarrow> fd_env \<Rightarrow> (fd_ctx_mgr \<times> fd_env) option" where
  "get_fd_ctx_mgr default_size e =
     (case g_fd_ctx_mgr e of
        Some mgr \<Rightarrow> Some (mgr, e)
      | None \<Rightarrow> map_option (\<lambda>mgr. (mgr, e\<lparr>g_fd_ctx_mgr := Some mgr\<rparr>)) (create_fd_ctx_mgr default_size))"

text \<open>The check all lookups share: a descriptor beyond the size makes the array grow.\<close>

definition grow_for :: "int \<Rightarrow> fd_ctx_mgr \<Rightarrow> fd_ctx_mgr option" where
  "grow_for fd mgr = (if fd \<ge> fsize mgr then fd_ctx_expand (fd + 1) mgr else Some mgr)"

text \<open>\<open>get_fd_ctx\<close>: the context of a descriptor when it has the type asked for; type 0 asks for any.\<close>

definition get_fd_ctx :: "int \<Rightarrow> int \<Rightarrow> fd_env \<Rightarrow> (addr \<times> fd_env) option" where
  "get_fd_ctx fd type e =
     (if fd < 0 then Some (NULL, e)
      else case g_fd_ctx_mgr e of
        None \<Rightarrow> None
      | Some mgr \<Rightarrow>
          (case grow_for fd mgr of
             None \<Rightarrow> None
           | Some mgr \<Rightarrow>
               let e = e\<lparr>g_fd_ctx_mgr := Some mgr\<rparr> in
               case rd (fds mgr) (nat fd) of
                 None \<Rightarrow> None
               | Some ctx \<Rightarrow>
                   if ctx = NULL then Some (NULL, e)
                   else if type = 0 then Some (ctx, e)
                   else if fc_type (ctxs e ctx) = type then Some (ctx, e)
                   else Some (NULL, e)))"

text \<open>The fields that \<open>alloc_fd_ctx2\<close> sets.\<close>

definition fresh_ctx :: "int \<Rightarrow> int \<Rightarrow> fd_ctx" where
  "fresh_ctx fd type =
     \<lparr>fc_type = type, fc_fd = fd, user_flag = 0, fc_closed = 0, rcv_timeout = 1000, snd_timeout = 1000, fc_domain = 0\<rparr>"

text \<open>\<open>new\<close> is the address that \<open>operator new\<close> returns when the descriptor has no context yet.\<close>

definition alloc_fd_ctx2 :: "int \<Rightarrow> addr \<Rightarrow> int \<Rightarrow> int \<Rightarrow> bool \<Rightarrow> fd_env \<Rightarrow> (addr \<times> fd_env) option" where
  "alloc_fd_ctx2 default_size new fd type has_nonblocked e =
     (if fd < 0 then None
      else case get_fd_ctx_mgr default_size e of
        None \<Rightarrow> None
      | Some (mgr, e) \<Rightarrow>
          (case grow_for fd mgr of
             None \<Rightarrow> None
           | Some mgr \<Rightarrow>
               (case rd (fds mgr) (nat fd) of
                  None \<Rightarrow> None
                | Some d \<Rightarrow>
                    let mgr = (if d = NULL then mgr\<lparr>fds := (fds mgr)[nat fd := new]\<rparr> else mgr);
                        d = (if d = NULL then new else d);
                        e = e\<lparr>g_fd_ctx_mgr := Some mgr, ctxs := (ctxs e)(d := fresh_ctx fd type)\<rparr>;
                        e = (if \<not> has_nonblocked then e\<lparr>fl_flags := (fl_flags e)(fd := fl_flags e fd OR O_NONBLOCK)\<rparr> else e)
                    in Some (fds mgr ! nat fd, e))))"

definition alloc_fd_ctx :: "int \<Rightarrow> addr \<Rightarrow> int \<Rightarrow> int \<Rightarrow> fd_env \<Rightarrow> (addr \<times> fd_env) option" where
  "alloc_fd_ctx default_size new fd type e = alloc_fd_ctx2 default_size new fd type False e"

definition free_fd_ctx :: "int \<Rightarrow> int \<Rightarrow> fd_env \<Rightarrow> (int \<times> fd_env) option" where
  "free_fd_ctx default_size fd e =
     (if fd < 0 then Some (-1, e)
      else case get_fd_ctx_mgr default_size e of
        None \<Rightarrow> None
      | Some (mgr, e) \<Rightarrow>
          if fd > fsize mgr then Some (-2, e)
          else case rd (fds mgr) (nat fd) of
            None \<Rightarrow> None
          | Some d \<Rightarrow>
              if d = NULL then Some (-2, e)
              else Some (0, e\<lparr>g_fd_ctx_mgr := Some (mgr\<lparr>fds := (fds mgr)[nat fd := NULL]\<rparr>), deleted := d # deleted e\<rparr>))"

text \<open>\<open>free_fd_ctx_mgr\<close>: the loop over the array, up to and including the entry \<open>size\<close>.\<close>

fun delete_from :: "nat \<Rightarrow> nat \<Rightarrow> addr list \<Rightarrow> addr list option" where
  "delete_from 0 i a = Some []"
| "delete_from (Suc n) i a =
     (case rd a i of
        None \<Rightarrow> None
      | Some ctx \<Rightarrow> map_option (\<lambda>ds. if ctx = NULL then ds else ctx # ds) (delete_from n (Suc i) a))"

definition free_fd_ctx_mgr :: "fd_ctx_mgr \<Rightarrow> addr list option" where
  "free_fd_ctx_mgr mgr = delete_from (nat (fsize mgr + 1)) 0 (fds mgr)"

subsection \<open>Growth\<close>

declare expand_size.simps [simp del]

lemma expand_size_bounds:
  "need < expand_size sz need" "sz \<le> expand_size sz need" "expand_size sz need \<le> max sz (need + 10000)"
  by (induction sz need rule: expand_size.induct) (subst expand_size.simps, force)+

text \<open>
  The table as a map from descriptors. The array has \<open>size\<close> entries, or one more that is never used; every context
  has an address of its own, and the field \<open>fd\<close> of a context is its index.
\<close>

definition mgr_ok :: "fd_ctx_mgr \<Rightarrow> bool" where
  "mgr_ok mgr \<longleftrightarrow> - 1 \<le> fsize mgr \<and> fsize mgr < 2 ^ 31 \<and>
     (length (fds mgr) = nat (fsize mgr) \<or> length (fds mgr) = nat (fsize mgr + 1))"

definition entry :: "fd_ctx_mgr \<Rightarrow> int \<Rightarrow> addr" where
  "entry mgr fd = (if 0 \<le> fd \<and> fd < fsize mgr then fds mgr ! nat fd else NULL)"

definition fd_rel :: "fd_env \<Rightarrow> (int \<rightharpoonup> fd_ctx) \<Rightarrow> bool" where
  "fd_rel e m \<longleftrightarrow> (\<exists>mgr. g_fd_ctx_mgr e = Some mgr \<and> mgr_ok mgr \<and>
     (\<forall>fd. m fd = (if entry mgr fd = NULL then None else Some (ctxs e (entry mgr fd)))) \<and>
     (\<forall>fd fd'. entry mgr fd \<noteq> NULL \<longrightarrow> entry mgr fd = entry mgr fd' \<longrightarrow> fd = fd'))"

lemma create_ok: "- 1 \<le> sz \<Longrightarrow> sz < 2 ^ 31 \<Longrightarrow>
  \<exists>mgr. create_fd_ctx_mgr sz = Some mgr \<and> mgr_ok mgr \<and> (\<forall>fd. entry mgr fd = NULL)"
  by (auto simp: create_fd_ctx_mgr_def mgr_ok_def entry_def)

lemma expand_ok:
  assumes "mgr_ok mgr" "fsize mgr \<le> need" "need + 10000 < 2 ^ 31" "0 \<le> need"
  obtains mgr' where "fd_ctx_expand need mgr = Some mgr'" "mgr_ok mgr'" "need < fsize mgr'"
    "entry mgr' = entry mgr" "length (fds mgr') = nat (fsize mgr')"
proof -
  let ?s = "expand_size (fsize mgr) need"
  have s: "need < ?s" "fsize mgr \<le> ?s" "?s < 2 ^ 31"
    using expand_size_bounds [of need "fsize mgr"] expand_size_bounds(3) [of "fsize mgr" need] assms(2,3) by auto
  define a where "a = (if fsize mgr > 0 then take (nat (fsize mgr)) (fds mgr) @ replicate (nat ?s - nat (fsize mgr)) NULL
    else replicate (nat ?s) NULL)"
  have l: "nat (fsize mgr) \<le> length (fds mgr)" using assms(1) by (auto simp: mgr_ok_def)
  have x: "fd_ctx_expand need mgr = Some \<lparr>fds = a, fsize = ?s\<rparr>"
    using s l by (auto simp: fd_ctx_expand_def memcpy_def a_def Let_def nat_mono)
  have "entry \<lparr>fds = a, fsize = ?s\<rparr> = entry mgr"
    using s l by (auto simp: fun_eq_iff entry_def a_def nth_append nth_replicate)
  moreover have "length a = nat ?s" using s l by (auto simp: a_def)
  ultimately show ?thesis using that [OF x] s assms(1,4) by (auto simp: mgr_ok_def)
qed

lemma grow_ok:
  assumes "mgr_ok mgr" "0 \<le> fd" "fd + 10001 < 2 ^ 31"
  obtains mgr' where "grow_for fd mgr = Some mgr'" "mgr_ok mgr'" "fd < fsize mgr'" "entry mgr' = entry mgr"
proof (cases "fd \<ge> fsize mgr")
  case True
  have "fsize mgr \<le> fd + 1" "fd + 1 + 10000 < 2 ^ 31" "0 \<le> fd + 1" using True assms by auto
  from expand_ok [OF assms(1) this] obtain mgr' where "fd_ctx_expand (fd + 1) mgr = Some mgr'" "mgr_ok mgr'"
    "fd + 1 < fsize mgr'" "entry mgr' = entry mgr" .
  then show ?thesis using True by (intro that [of mgr']) (auto simp: grow_for_def)
next
  case False
  then show ?thesis using that assms by (auto simp: grow_for_def)
qed

lemma rd_entry:
  assumes "mgr_ok mgr" "0 \<le> fd" "fd < fsize mgr"
  shows "rd (fds mgr) (nat fd) = Some (entry mgr fd)"
  using assms by (auto simp: rd_eq entry_def mgr_ok_def)

lemma set_entry:
  assumes "mgr_ok mgr" "0 \<le> fd" "fd < fsize mgr"
  shows "mgr_ok (mgr\<lparr>fds := (fds mgr)[nat fd := v]\<rparr>)" "entry (mgr\<lparr>fds := (fds mgr)[nat fd := v]\<rparr>) = (entry mgr)(fd := v)"
  using assms by (auto simp: mgr_ok_def entry_def fun_eq_iff nth_list_update)

lemma fd_relI:
  assumes "g_fd_ctx_mgr e = Some mgr" "mgr_ok mgr"
    "\<And>fd. m fd = (if entry mgr fd = NULL then None else Some (ctxs e (entry mgr fd)))"
    "\<And>fd fd'. entry mgr fd \<noteq> NULL \<Longrightarrow> entry mgr fd = entry mgr fd' \<Longrightarrow> fd = fd'"
  shows "fd_rel e m"
  using assms unfolding fd_rel_def by blast

lemma get_fd_ctx_ok:
  assumes "fd_rel e m" "0 \<le> fd" "fd + 10001 < 2 ^ 31"
  shows "\<exists>ctx e'. get_fd_ctx fd type e = Some (ctx, e') \<and> fd_rel e' m \<and>
    (if ctx = NULL then \<forall>c. m fd = Some c \<longrightarrow> type \<noteq> 0 \<and> type \<noteq> fc_type c
     else m fd = Some (ctxs e' ctx) \<and> (type = 0 \<or> type = fc_type (ctxs e' ctx)))"
proof -
  obtain mgr where g: "g_fd_ctx_mgr e = Some mgr" and ok: "mgr_ok mgr"
    and m: "\<And>fd. m fd = (if entry mgr fd = NULL then None else Some (ctxs e (entry mgr fd)))"
    and i: "\<And>fd fd'. entry mgr fd \<noteq> NULL \<Longrightarrow> entry mgr fd = entry mgr fd' \<Longrightarrow> fd = fd'"
    using assms(1) unfolding fd_rel_def by blast
  obtain mgr' where w: "grow_for fd mgr = Some mgr'" "mgr_ok mgr'" "fd < fsize mgr'" "entry mgr' = entry mgr"
    using grow_ok [OF ok assms(2,3)] .
  have r: "fd_rel (e\<lparr>g_fd_ctx_mgr := Some mgr'\<rparr>) m"
    by (rule fd_relI [OF _ w(2)]) (auto simp: w(4) m intro: i)
  show ?thesis
    using assms(2) g w(1) rd_entry [OF w(2) assms(2) w(3)] r m [of fd] w(4)
    by (auto simp: get_fd_ctx_def Let_def split: if_splits)
qed

lemma alloc_fd_ctx2_ok:
  assumes "fd_rel e m" "0 \<le> fd" "fd + 10001 < 2 ^ 31" "new \<noteq> NULL" "\<And>mgr. g_fd_ctx_mgr e = Some mgr \<Longrightarrow> new \<notin> set (fds mgr)"
  shows "\<exists>ctx e'. alloc_fd_ctx2 k new fd type nb e = Some (ctx, e') \<and> ctx \<noteq> NULL \<and> ctxs e' ctx = fresh_ctx fd type \<and>
    fd_rel e' (m(fd \<mapsto> fresh_ctx fd type)) \<and>
    fl_flags e' = (if nb then fl_flags e else (fl_flags e)(fd := fl_flags e fd OR O_NONBLOCK))"
proof -
  obtain mgr where g: "g_fd_ctx_mgr e = Some mgr" and ok: "mgr_ok mgr"
    and m: "\<And>fd. m fd = (if entry mgr fd = NULL then None else Some (ctxs e (entry mgr fd)))"
    and i: "\<And>fd fd'. entry mgr fd \<noteq> NULL \<Longrightarrow> entry mgr fd = entry mgr fd' \<Longrightarrow> fd = fd'"
    using assms(1) unfolding fd_rel_def by blast
  obtain mgr' where w: "grow_for fd mgr = Some mgr'" "mgr_ok mgr'" "fd < fsize mgr'" "entry mgr' = entry mgr"
    using grow_ok [OF ok assms(2,3)] .
  have new: "entry mgr x \<noteq> new" for x
    using assms(4,5) g ok by (auto simp: entry_def mgr_ok_def)
  define d where "d = (if entry mgr fd = NULL then new else entry mgr fd)"
  define mg where "mg = (if entry mgr fd = NULL then mgr'\<lparr>fds := (fds mgr')[nat fd := new]\<rparr> else mgr')"
  have mg: "mgr_ok mg" "entry mg = (entry mgr)(fd := d)" "fd < fsize mg"
    using set_entry [OF w(2) assms(2) w(3), of new] w by (auto simp: mg_def d_def)
  have d: "d \<noteq> NULL" "\<And>x. entry mgr x = d \<Longrightarrow> x = fd"
    using i [of fd] new assms(4) by (auto simp: d_def split: if_splits) metis
  have at: "fds mg ! nat fd = d" using mg(2,3) assms(2) by (auto simp: fun_eq_iff entry_def dest: spec [of _ fd])
  define e1 where "e1 = e\<lparr>g_fd_ctx_mgr := Some mg, ctxs := (ctxs e)(d := fresh_ctx fd type)\<rparr>"
  define e2 where "e2 = (if \<not> nb then e1\<lparr>fl_flags := (fl_flags e1)(fd := fl_flags e1 fd OR O_NONBLOCK)\<rparr> else e1)"
  have "alloc_fd_ctx2 k new fd type nb e = Some (d, e2)"
    using assms(2) g w(1) rd_entry [OF w(2) assms(2) w(3)] w(4) at
    by (simp add: alloc_fd_ctx2_def get_fd_ctx_mgr_def e2_def e1_def mg_def d_def Let_def)
  moreover have "fd_rel e2 (m(fd \<mapsto> fresh_ctx fd type))"
    by (rule fd_relI [of _ mg])
      (use d i mg in \<open>auto simp: e2_def e1_def m split: if_splits\<close>)
  ultimately show ?thesis using d by (auto simp: e2_def e1_def)
qed

text \<open>
  \<open>free_fd_ctx\<close> tests for \<open>fd > size\<close>: it reads the entry \<open>size\<close>, which the first array has and a grown one has not.
\<close>

definition frees_past_end :: "int \<Rightarrow> fd_ctx_mgr \<Rightarrow> bool" where
  "frees_past_end fd mgr \<longleftrightarrow> fd = fsize mgr \<and> length (fds mgr) = nat (fsize mgr)"

lemma free_fd_ctx_ok:
  assumes "fd_rel e m" "0 \<le> fd" "g_fd_ctx_mgr e = Some mgr" "\<not> frees_past_end fd mgr" "fd = fsize mgr \<longrightarrow> fds mgr ! nat fd = NULL"
  shows "\<exists>r e'. free_fd_ctx k fd e = Some (r, e') \<and> fd_rel e' (m(fd := None)) \<and> r = (if m fd = None then -2 else 0)"
proof -
  have ok: "mgr_ok mgr" and m: "\<And>fd. m fd = (if entry mgr fd = NULL then None else Some (ctxs e (entry mgr fd)))"
    and i: "\<And>fd fd'. entry mgr fd \<noteq> NULL \<Longrightarrow> entry mgr fd = entry mgr fd' \<Longrightarrow> fd = fd'"
    using assms(1,3) unfolding fd_rel_def by auto
  show ?thesis
  proof (cases "fd < fsize mgr \<and> entry mgr fd \<noteq> NULL")
    case True
    let ?e = "e\<lparr>g_fd_ctx_mgr := Some (mgr\<lparr>fds := (fds mgr)[nat fd := NULL]\<rparr>), deleted := entry mgr fd # deleted e\<rparr>"
    have "fd_rel ?e (m(fd := None))"
      by (rule fd_relI) (use True set_entry [OF ok assms(2), of NULL] i in \<open>auto simp: m split: if_splits\<close>)
    then show ?thesis
      using True assms(2,3) rd_entry [OF ok assms(2)] by (auto simp: free_fd_ctx_def get_fd_ctx_mgr_def m)
  next
    case False
    then have "m(fd := None) = m" "m fd = None" using assms(2) by (auto simp: m entry_def fun_eq_iff)
    moreover have "free_fd_ctx k fd e = Some (-2, e)"
    proof (cases "fd = fsize mgr")
      case True
      then have "length (fds mgr) = nat (fd + 1)" using ok assms(4) by (auto simp: mgr_ok_def frees_past_end_def)
      then have "rd (fds mgr) (nat fd) = Some NULL" using assms(2,5) True by (simp add: rd_eq)
      then show ?thesis using assms(2,3) True by (simp add: free_fd_ctx_def get_fd_ctx_mgr_def)
    next
      case F: False
      then show ?thesis using False assms(2,3) rd_entry [OF ok assms(2)] by (auto simp: free_fd_ctx_def get_fd_ctx_mgr_def)
    qed
    ultimately show ?thesis using assms(1) by auto
  qed
qed

lemma free_fd_ctx_past_end:
  assumes "g_fd_ctx_mgr e = Some mgr" "0 \<le> fd" "frees_past_end fd mgr"
  shows "free_fd_ctx k fd e = None"
  using assms by (simp add: free_fd_ctx_def get_fd_ctx_mgr_def frees_past_end_def rd_eq)

subsection \<open>Properties\<close>

text \<open>
  C28: The table is a map from descriptors to contexts. For every descriptor from 0 up to \<open>2^31 - 10002\<close>, \<open>get_fd_ctx\<close> returns the
  context exactly when there is one of the type asked for, and \<open>alloc_fd_ctx2\<close> gives it a fresh context and makes it
  non-blocking; growing the array on the way keeps every other context. \<open>free_fd_ctx\<close> removes the context and reports whether there was
  one, except for the descriptor equal to the size of the table: there it reads the entry \<open>size\<close>, which is past the end of
  the array once the array has grown, and is the unused last entry of the first array (null unless something else wrote it).
\<close>

theorem fd_table_refines:
  assumes "fd_rel e m" "0 \<le> fd" "fd + 10001 < 2 ^ 31" "new \<noteq> NULL" "\<And>mgr. g_fd_ctx_mgr e = Some mgr \<Longrightarrow> new \<notin> set (fds mgr)"
    and "g_fd_ctx_mgr e = Some mgr" "length (fds mgr) = nat (fsize mgr + 1) \<longrightarrow> fds mgr ! nat (fsize mgr) = NULL"
  shows "(\<exists>ctx e'. get_fd_ctx fd type e = Some (ctx, e') \<and> fd_rel e' m \<and>
      (if ctx = NULL then \<forall>c. m fd = Some c \<longrightarrow> type \<noteq> 0 \<and> type \<noteq> fc_type c
       else m fd = Some (ctxs e' ctx) \<and> (type = 0 \<or> type = fc_type (ctxs e' ctx)))) \<and>
    (\<exists>ctx e'. alloc_fd_ctx2 k new fd type nb e = Some (ctx, e') \<and> ctx \<noteq> NULL \<and> ctxs e' ctx = fresh_ctx fd type \<and>
      fd_rel e' (m(fd \<mapsto> fresh_ctx fd type)) \<and>
      fl_flags e' = (if nb then fl_flags e else (fl_flags e)(fd := fl_flags e fd OR O_NONBLOCK))) \<and>
    (if fd = fsize mgr \<and> length (fds mgr) = nat (fsize mgr) then free_fd_ctx k fd e = None
     else \<exists>r e'. free_fd_ctx k fd e = Some (r, e') \<and> fd_rel e' (m(fd := None)) \<and> r = (if m fd = None then -2 else 0))"
proof -
  have ok: "mgr_ok mgr" using assms(1,6) by (auto simp: fd_rel_def)
  have "fd = fsize mgr \<longrightarrow> fds mgr ! nat fd = NULL" if "\<not> frees_past_end fd mgr"
    using that assms(7) ok by (auto simp: frees_past_end_def mgr_ok_def)
  then have "if frees_past_end fd mgr then free_fd_ctx k fd e = None
     else \<exists>r e'. free_fd_ctx k fd e = Some (r, e') \<and> fd_rel e' (m(fd := None)) \<and> r = (if m fd = None then -2 else 0)"
    using free_fd_ctx_past_end [OF assms(6,2)] free_fd_ctx_ok [OF assms(1,2,6)] by auto
  then show ?thesis using get_fd_ctx_ok [OF assms(1-3)] alloc_fd_ctx2_ok [OF assms(1-5)] unfolding frees_past_end_def by blast
qed

definition ex_fd_env :: fd_env where
  "ex_fd_env = \<lparr>g_fd_ctx_mgr = Some \<lparr>fds = [0, 0, 7, 0], fsize = 3\<rparr>, ctxs = (\<lambda>_. fresh_ctx 2 1), deleted = [],
     fl_flags = (\<lambda>_. 0)\<rparr>"

definition ex_fd_map :: "int \<rightharpoonup> fd_ctx" where
  "ex_fd_map = [2 \<mapsto> fresh_ctx 2 1]"

lemma ex_fd_rel: "fd_rel ex_fd_env ex_fd_map"
proof -
  have n: "[0, 0, 7, 0] ! nat x = (if x = 2 then 7 else 0 :: nat)" if "0 \<le> x" "x < 3" for x
  proof -
    have "x \<in> {0, 1, 2}" using that by auto
    then show ?thesis by auto
  qed
  show ?thesis
    by (rule fd_relI [of _ "\<lparr>fds = [0, 0, 7, 0], fsize = 3\<rparr>"])
      (auto simp: ex_fd_env_def ex_fd_map_def mgr_ok_def entry_def n split: if_splits)
qed

theorem fd_table_refines_witness:
  "fd_rel ex_fd_env ex_fd_map \<and> (\<exists>ctx e'. alloc_fd_ctx2 0 9 5 2 False ex_fd_env = Some (ctx, e') \<and>
     fd_rel e' (ex_fd_map(5 \<mapsto> fresh_ctx 5 2)))"
  using fd_table_refines [where fd = 5 and new = 9 and k = 0 and type = 2 and nb = False and
      mgr = "\<lparr>fds = [0, 0, 7, 0], fsize = 3\<rparr>", OF ex_fd_rel] ex_fd_rel
  by (force simp: ex_fd_env_def)

text \<open>
  Once the array has grown it has no entry \<open>size\<close>, but \<open>free_fd_ctx\<close> and \<open>free_fd_ctx_mgr\<close> still read it: freeing
  the descriptor \<open>size\<close>, or the whole table, reads past the end of the array.
\<close>

lemma fd_table_overrun:
  assumes "mgr_ok mgr" "fsize mgr \<le> fd" "0 \<le> fd" "fd + 10001 < 2 ^ 31" "grow_for fd mgr = Some mgr'" "g_fd_ctx_mgr e = Some mgr'"
  shows "free_fd_ctx k (fsize mgr') e = None \<and> free_fd_ctx_mgr mgr' = None"
proof -
  obtain mg where mg: "fd_ctx_expand (fd + 1) mgr = Some mg" "mgr_ok mg" "fd + 1 < fsize mg" "length (fds mg) = nat (fsize mg)"
    using expand_ok [OF assms(1), of "fd + 1"] assms(2-4) by (auto simp del: fun_eq_iff)
  have eq: "mg = mgr'" using assms(2,5) mg(1) by (simp add: grow_for_def)
  have out: "delete_from (Suc n) i a = None" if "i + n = length a" for n i and a :: "addr list"
    using that by (induction n arbitrary: i) (auto simp: rd_eq split: option.splits)
  have "nat (fsize mgr' + 1) = Suc (length (fds mgr'))" using mg(3,4) assms(3) eq by simp
  then have "free_fd_ctx_mgr mgr' = None" unfolding free_fd_ctx_mgr_def using out [of 0 "length (fds mgr')"] by simp
  then show ?thesis using assms(3,6) mg(3,4) eq by (auto simp: free_fd_ctx_def get_fd_ctx_mgr_def rd_eq)
qed

lemma fd_table_overrun_witness:
  "\<exists>mgr'. grow_for 5 \<lparr>fds = [0, 0, 7, 0], fsize = 3\<rparr> = Some mgr' \<and>
     free_fd_ctx 0 (fsize mgr') (ex_fd_env\<lparr>g_fd_ctx_mgr := Some mgr'\<rparr>) = None"
proof -
  have ok: "mgr_ok \<lparr>fds = [0, 0, 7, 0], fsize = 3\<rparr>" by (simp add: mgr_ok_def)
  obtain mgr' where w: "grow_for 5 \<lparr>fds = [0, 0, 7, 0], fsize = 3\<rparr> = Some mgr'"
    using grow_ok [OF ok, of 5] by auto
  show ?thesis
    using fd_table_overrun [OF ok _ _ _ w, where e = "ex_fd_env\<lparr>g_fd_ctx_mgr := Some mgr'\<rparr>" and k = 0] w by simp
qed

end
