(* ===== verification/HList.thy ===== *)
theory HList
  imports Prelude
begin

text \<open>
  The singly headed lists (\<open>hlist\<close>) of \<open>base/list.h\<close>. \<open>pprev\<close> of a node is the address of the
  pointer that points to it: the \<open>first\<close> field of a head or the \<open>next\<close> field of a node, a value of
  \<open>hloc\<close>; a null \<open>pprev\<close> is \<open>None\<close>. Heads and nodes have separate field maps.
\<close>

datatype hloc = First addr | Next addr

record hheap =
  hfirst :: "addr \<Rightarrow> addr"
  hnext :: "addr \<Rightarrow> addr"
  hpprev :: "addr \<Rightarrow> hloc option"

definition INIT_HLIST_HEAD :: "addr \<Rightarrow> hheap \<Rightarrow> hheap" where
  "INIT_HLIST_HEAD p h = h\<lparr>hfirst := (hfirst h)(p := NULL)\<rparr>"

definition set_hnext :: "addr \<Rightarrow> addr \<Rightarrow> hheap \<Rightarrow> hheap" where
  "set_hnext n v h = h\<lparr>hnext := (hnext h)(n := v)\<rparr>"

definition set_pprev :: "addr \<Rightarrow> hloc option \<Rightarrow> hheap \<Rightarrow> hheap" where
  "set_pprev n v h = h\<lparr>hpprev := (hpprev h)(n := v)\<rparr>"

text \<open>\<open>*loc\<close> and \<open>*loc = v\<close>.\<close>

fun deref :: "hheap \<Rightarrow> hloc \<Rightarrow> addr" where
  "deref h (First a) = hfirst h a"
| "deref h (Next n) = hnext h n"

fun assign :: "hloc \<Rightarrow> addr \<Rightarrow> hheap \<Rightarrow> hheap" where
  "assign (First a) v h = h\<lparr>hfirst := (hfirst h)(a := v)\<rparr>"
| "assign (Next n) v h = set_hnext n v h"

definition INIT_HLIST_NODE :: "addr \<Rightarrow> hheap \<Rightarrow> hheap" where
  "INIT_HLIST_NODE n h = set_pprev n None (set_hnext n NULL h)"

definition hlist_unhashed :: "addr \<Rightarrow> hheap \<Rightarrow> bool" where
  "hlist_unhashed n h \<longleftrightarrow> hpprev h n = None"

definition hlist_empty :: "addr \<Rightarrow> hheap \<Rightarrow> bool" where
  "hlist_empty p h \<longleftrightarrow> hfirst h p = NULL"

text \<open>\<open>__hlist_del\<close>; a null \<open>pprev\<close> would be dereferenced, \<open>None\<close>.\<close>

definition hlist_del_raw :: "addr \<Rightarrow> hheap \<Rightarrow> hheap option" where
  "hlist_del_raw n h =
     (let next = hnext h n in
      case hpprev h n of
        None \<Rightarrow> None
      | Some pprev \<Rightarrow>
          let h1 = assign pprev next h
          in Some (if next \<noteq> NULL then set_pprev next (Some pprev) h1 else h1))"

text \<open>\<open>LIST_POISON1\<close> and \<open>LIST_POISON2\<close> are null.\<close>

definition hlist_del :: "addr \<Rightarrow> hheap \<Rightarrow> hheap option" where
  "hlist_del n h = map_option (\<lambda>h1. set_pprev n None (set_hnext n NULL h1)) (hlist_del_raw n h)"

definition hlist_del_init :: "addr \<Rightarrow> hheap \<Rightarrow> hheap option" where
  "hlist_del_init n h =
     (if \<not> hlist_unhashed n h then map_option (INIT_HLIST_NODE n) (hlist_del_raw n h) else Some h)"

definition hlist_add_head :: "addr \<Rightarrow> addr \<Rightarrow> hheap \<Rightarrow> hheap" where
  "hlist_add_head n p h =
     (let first = hfirst h p;
          h1 = set_hnext n first h;
          h2 = (if first \<noteq> NULL then set_pprev first (Some (Next n)) h1 else h1);
          h3 = assign (First p) n h2
      in set_pprev n (Some (First p)) h3)"

definition hlist_add_before :: "addr \<Rightarrow> addr \<Rightarrow> hheap \<Rightarrow> hheap option" where
  "hlist_add_before n next h =
     (let h1 = set_pprev n (hpprev h next) h;
          h2 = set_hnext n next h1;
          h3 = set_pprev next (Some (Next n)) h2
      in case hpprev h3 n of None \<Rightarrow> None | Some loc \<Rightarrow> Some (assign loc n h3))"

definition hlist_add_after :: "addr \<Rightarrow> addr \<Rightarrow> hheap \<Rightarrow> hheap" where
  "hlist_add_after n next h =
     (let h1 = set_hnext next (hnext h n) h;
          h2 = set_hnext n next h1;
          h3 = set_pprev next (Some (Next n)) h2
      in if hnext h3 next \<noteq> NULL then set_pprev (hnext h3 next) (Some (Next next)) h3 else h3)"

definition hlist_move_list :: "addr \<Rightarrow> addr \<Rightarrow> hheap \<Rightarrow> hheap" where
  "hlist_move_list old new h =
     (let h1 = assign (First new) (hfirst h old) h;
          h2 = (if hfirst h1 new \<noteq> NULL then set_pprev (hfirst h1 new) (Some (First new)) h1 else h1)
      in assign (First old) NULL h2)"

text \<open>
  The search that \<open>hlist_for_each_entry\<close> with a returning body amounts to: the first node for which
  the test holds, \<open>NULL\<close> when the end is reached; \<open>None\<close> when the fuel runs out.
\<close>

fun hlist_search :: "nat \<Rightarrow> (addr \<Rightarrow> bool) \<Rightarrow> addr \<Rightarrow> hheap \<Rightarrow> addr option" where
  "hlist_search 0 P pos h = None"
| "hlist_search (Suc k) P pos h =
     (if pos = NULL then Some NULL else if P pos then Some pos else hlist_search k P (hnext h pos) h)"

lemmas [hlist_ops] = INIT_HLIST_HEAD_def set_hnext_def set_pprev_def INIT_HLIST_NODE_def
  hlist_add_head_def hlist_add_before_def hlist_add_after_def hlist_move_list_def Let_def

subsection \<open>Lists in the heap\<close>

fun hseg :: "hheap \<Rightarrow> hloc \<Rightarrow> addr list \<Rightarrow> bool" where
  "hseg h l [] \<longleftrightarrow> deref h l = NULL"
| "hseg h l (x # xs) \<longleftrightarrow> x \<noteq> NULL \<and> deref h l = x \<and> hpprev h x = Some l \<and> hseg h (Next x) xs"

definition is_hlist :: "hheap \<Rightarrow> addr \<Rightarrow> addr list \<Rightarrow> bool" where
  "is_hlist h p xs \<longleftrightarrow> distinct xs \<and> hseg h (First p) xs"

lemma hseg_cong:
  assumes "deref h' l = deref h l"
    and "\<And>x. x \<in> set xs \<Longrightarrow> hnext h' x = hnext h x \<and> hpprev h' x = hpprev h x"
  shows "hseg h' l xs = hseg h l xs"
  using assms by (induction xs arbitrary: l) auto

lemma is_hlist_frame:
  assumes "is_hlist h p xs" "hfirst h' p = hfirst h p"
    and "\<And>x. x \<in> set xs \<Longrightarrow> hnext h' x = hnext h x \<and> hpprev h' x = hpprev h x"
  shows "is_hlist h' p xs"
  using assms hseg_cong [of h' "First p" h xs] by (simp add: is_hlist_def)

lemma is_hlist_nonnull: "is_hlist h p xs \<Longrightarrow> NULL \<notin> set xs"
proof -
  have "hseg h l xs \<Longrightarrow> NULL \<notin> set xs" for l by (induction xs arbitrary: l) auto
  then show "is_hlist h p xs \<Longrightarrow> NULL \<notin> set xs" by (auto simp: is_hlist_def)
qed

lemma INIT_HLIST_HEAD_is_hlist: "is_hlist (INIT_HLIST_HEAD p h) p []"
  by (simp add: is_hlist_def INIT_HLIST_HEAD_def)

lemma hlist_empty_iff: "is_hlist h p xs \<Longrightarrow> hlist_empty p h \<longleftrightarrow> xs = []"
  by (cases xs) (auto simp: is_hlist_def hlist_empty_def)

lemma hlist_add_head_is_hlist:
  assumes "is_hlist h p xs" "n \<noteq> NULL" "n \<notin> set xs"
  shows "is_hlist (hlist_add_head n p h) p (n # xs)"
proof (cases xs)
  case (Cons x ys)
  have "hseg (hlist_add_head n p h) (Next x) ys = hseg h (Next x) ys"
    using assms Cons by (intro hseg_cong) (auto simp: hlist_ops is_hlist_def)
  then show ?thesis using assms Cons by (auto simp: is_hlist_def hlist_ops)
qed (use assms in \<open>auto simp: is_hlist_def hlist_ops\<close>)

lemma hlist_add_head_frame:
  assumes "is_hlist h p xs" "is_hlist h q ys" "p \<noteq> q" "set xs \<inter> set ys = {}" "n \<notin> set ys"
  shows "is_hlist (hlist_add_head n p h) q ys"
proof (rule is_hlist_frame [OF assms(2)])
  have "hfirst h p \<notin> set ys \<or> hfirst h p = NULL"
    using assms(1,4) by (cases xs) (auto simp: is_hlist_def)
  then show "hnext (hlist_add_head n p h) x = hnext h x \<and> hpprev (hlist_add_head n p h) x = hpprev h x"
    if "x \<in> set ys" for x
    using that assms(5) by (auto simp: hlist_ops)
qed (use assms(3) in \<open>simp add: hlist_ops\<close>)

text \<open>A list split at a location: the nodes before it, and the location after them.\<close>

fun hpart :: "hheap \<Rightarrow> hloc \<Rightarrow> addr list \<Rightarrow> bool" where
  "hpart h l [] \<longleftrightarrow> True"
| "hpart h l (x # xs) \<longleftrightarrow> x \<noteq> NULL \<and> deref h l = x \<and> hpprev h x = Some l \<and> hpart h (Next x) xs"

fun endloc :: "hloc \<Rightarrow> addr list \<Rightarrow> hloc" where
  "endloc l [] = l"
| "endloc l (x # xs) = endloc (Next x) xs"

lemma hseg_append: "hseg h l (xs @ ys) \<longleftrightarrow> hpart h l xs \<and> hseg h (endloc l xs) ys"
  by (induction xs arbitrary: l) auto

lemma endloc_in: "endloc l xs = l \<or> endloc l xs \<in> Next ` set xs"
  by (induction xs arbitrary: l) auto

lemma hpart_frame:
  assumes "\<And>x. x \<in> set xs \<Longrightarrow> hpprev h' x = hpprev h x"
    and "\<And>loc. loc \<noteq> endloc l xs \<Longrightarrow> deref h' loc = deref h loc"
    and "distinct xs" "l \<notin> Next ` set xs"
  shows "hpart h l xs \<Longrightarrow> hpart h' l xs"
  using assms
proof (induction xs arbitrary: l)
  case (Cons x xs)
  have "l \<noteq> endloc (Next x) xs" using endloc_in [of "Next x" xs] Cons.prems(5) by auto
  then have "deref h' l = deref h l" using Cons.prems(3) [of l] by simp
  moreover have "hpart h' (Next x) xs" using Cons.prems by (intro Cons.IH) auto
  ultimately show ?case using Cons.prems(1,2) by simp
qed simp

lemma deref_assign: "deref (assign loc v h) l = (if l = loc then v else deref h l)"
  by (cases loc; cases l) (auto simp: set_hnext_def)

lemma assign_pprev [simp]: "hpprev (assign loc v h) = hpprev h"
  by (cases loc) (simp_all add: set_hnext_def)

lemma deref_set_pprev [simp]: "deref (set_pprev n v h) l = deref h l"
  by (cases l) (simp_all add: set_pprev_def)

text \<open>The heap that the removal of a linked node leaves, described through the locations.\<close>

lemma hlist_del_raw_eq:
  assumes "hseg h l (xs @ x # ys)"
  shows "hlist_del_raw x h = Some
    (let h1 = assign (endloc l xs) (hd (ys @ [NULL])) h
     in if ys = [] then h1 else set_pprev (hd ys) (Some (endloc l xs)) h1)"
  using assms by (cases ys) (auto simp: hseg_append hlist_del_raw_def)

lemma hlist_del_raw_list:
  assumes "is_hlist h p (xs @ x # ys)" "hlist_del_raw x h = Some h'"
  shows "is_hlist h' p (xs @ ys)"
proof -
  let ?l = "endloc (First p) xs"
  have d: "distinct (xs @ x # ys)" and s: "hpart h (First p) xs" "hseg h ?l (x # ys)"
    using assms(1) by (auto simp: is_hlist_def hseg_append)
  have h': "h' = (let h1 = assign ?l (hd (ys @ [NULL])) h in if ys = [] then h1 else set_pprev (hd ys) (Some ?l) h1)"
    using hlist_del_raw_eq [of h "First p" xs x ys] assms by (simp add: is_hlist_def)
  have der: "deref h' loc = (if loc = ?l then hd (ys @ [NULL]) else deref h loc)" for loc
    by (simp add: h' Let_def deref_assign)
  have ppr: "hpprev h' y = (if ys \<noteq> [] \<and> y = hd ys then Some ?l else hpprev h y)" for y
    by (auto simp: h' Let_def set_pprev_def)
  have "hpart h' (First p) xs"
    using d by (intro hpart_frame [OF _ _ _ _ s(1)]) (auto simp: der ppr)
  moreover have "hseg h' ?l ys"
  proof (cases ys)
    case (Cons y zs)
    have n: "Next z \<noteq> ?l" if "z \<in> set ys" for z using endloc_in [of "First p" xs] d that by auto
    have "hseg h' (Next y) zs = hseg h (Next y) zs"
      using d Cons n der [of "Next _"] by (intro hseg_cong) (auto simp: der ppr)
    then show ?thesis using s(2) Cons by (simp add: der ppr)
  qed (simp add: der)
  ultimately show ?thesis using d by (simp add: is_hlist_def hseg_append)
qed

lemma hlist_del_raw_frame:
  assumes "is_hlist h p (xs @ x # ys)" "hlist_del_raw x h = Some h'"
    and "is_hlist h q zs" "p \<noteq> q" "set (xs @ x # ys) \<inter> set zs = {}"
  shows "is_hlist h' q zs"
proof (rule is_hlist_frame [OF assms(3)])
  let ?l = "endloc (First p) xs"
  have h': "h' = (let h1 = assign ?l (hd (ys @ [NULL])) h in if ys = [] then h1 else set_pprev (hd ys) (Some ?l) h1)"
    using hlist_del_raw_eq [of h "First p" xs x ys] assms by (simp add: is_hlist_def)
  have der: "deref h' loc = (if loc = ?l then hd (ys @ [NULL]) else deref h loc)" for loc
    by (simp add: h' Let_def deref_assign)
  show "hfirst h' q = hfirst h q"
    using der [of "First q"] endloc_in [of "First p" xs] assms(4) by auto
  fix z assume z: "z \<in> set zs"
  have "hnext h' z = hnext h z" using der [of "Next z"] endloc_in [of "First p" xs] z assms(5) by auto
  moreover have "hpprev h' z = hpprev h z" using z assms(5) by (cases ys) (auto simp: h' Let_def set_pprev_def)
  ultimately show "hnext h' z = hnext h z \<and> hpprev h' z = hpprev h z" ..
qed

lemma INIT_HLIST_NODE_frame:
  "is_hlist h q zs \<Longrightarrow> x \<notin> set zs \<Longrightarrow> is_hlist (INIT_HLIST_NODE x h) q zs"
  by (erule is_hlist_frame) (auto simp: hlist_ops)

lemma hlist_del_init_linked:
  assumes "is_hlist h p (xs @ x # ys)"
  obtains h' where "hlist_del_init x h = Some h'" "is_hlist h' p (xs @ ys)" "hpprev h' x = None"
    "\<And>q zs. is_hlist h q zs \<Longrightarrow> p \<noteq> q \<Longrightarrow> set (xs @ x # ys) \<inter> set zs = {} \<Longrightarrow> is_hlist h' q zs"
proof -
  obtain h1 where h1: "hlist_del_raw x h = Some h1"
    using hlist_del_raw_eq [of h "First p" xs x ys] assms by (simp add: is_hlist_def)
  have "\<not> hlist_unhashed x h" using assms by (simp add: is_hlist_def hseg_append hlist_unhashed_def)
  then have e: "hlist_del_init x h = Some (INIT_HLIST_NODE x h1)" by (simp add: hlist_del_init_def h1)
  show ?thesis
  proof (rule that [OF e])
    show "is_hlist (INIT_HLIST_NODE x h1) p (xs @ ys)"
      using hlist_del_raw_list [OF assms h1] assms by (intro INIT_HLIST_NODE_frame) (auto simp: is_hlist_def)
    show "hpprev (INIT_HLIST_NODE x h1) x = None" by (simp add: hlist_ops)
    show "is_hlist (INIT_HLIST_NODE x h1) q zs"
      if "is_hlist h q zs" "p \<noteq> q" "set (xs @ x # ys) \<inter> set zs = {}" for q zs
      using hlist_del_raw_frame [OF assms h1 that] that(3) by (intro INIT_HLIST_NODE_frame) auto
  qed
qed

text \<open>Insertion next to a node, and the move of a whole list.\<close>

lemma hlist_move_list_is_hlist:
  assumes "is_hlist h old xs" "old \<noteq> new"
  shows "is_hlist (hlist_move_list old new h) new xs" "is_hlist (hlist_move_list old new h) old []"
proof -
  show "is_hlist (hlist_move_list old new h) old []" using assms by (simp add: is_hlist_def hlist_ops)
  show "is_hlist (hlist_move_list old new h) new xs"
  proof (cases xs)
    case (Cons x ys)
    have "hseg (hlist_move_list old new h) (Next x) ys = hseg h (Next x) ys"
      using assms Cons by (intro hseg_cong) (auto simp: hlist_ops is_hlist_def)
    then show ?thesis using assms Cons by (auto simp: is_hlist_def hlist_ops)
  qed (use assms in \<open>auto simp: is_hlist_def hlist_ops\<close>)
qed

subsection \<open>The search\<close>

lemma hlist_search_hseg:
  "hseg h l xs \<Longrightarrow> length xs < k \<Longrightarrow>
   hlist_search k P (deref h l) h = Some (case List.find P xs of None \<Rightarrow> NULL | Some x \<Rightarrow> x)"
proof (induction xs arbitrary: l k)
  case Nil
  then show ?case by (cases k) auto
next
  case (Cons x xs)
  then obtain k' where "k = Suc k'" by (cases k) auto
  then show ?case using Cons.IH [of "Next x" k'] Cons.prems by auto
qed

lemma hlist_search_is_hlist:
  assumes "is_hlist h p xs" "length xs < k"
  shows "hlist_search k P (hfirst h p) h = Some (case List.find P xs of None \<Rightarrow> NULL | Some x \<Rightarrow> x)"
  using hlist_search_hseg [of h "First p" xs k P] assms by (simp add: is_hlist_def)

end
