(* ===== verification/Hash.thy ===== *)
theory Hash
  imports Prelude
begin

text \<open>
  The hash functions of \<open>base\<close>: \<open>bob_hash\<close> (bobhash.cpp), the MurmurHash family
  (murmurhash3.cpp) and \<open>IntMap::hash_code\<close> (int_map.h). They read their key from a
  little-endian memory, a function from addresses to bytes. \<open>bob_hash\<close> deliberately reads
  whole words that may reach past the end of the key; the theorems show that neither those bytes
  nor the alignment of the key influence the result.
\<close>

type_synonym memory = "nat \<Rightarrow> u8"

definition read16 :: "memory \<Rightarrow> nat \<Rightarrow> u32" where
  "read16 m a = ucast (m a) + push_bit 8 (ucast (m (a + 1)))"

definition read32 :: "memory \<Rightarrow> nat \<Rightarrow> u32" where
  "read32 m a = ucast (m a) + push_bit 8 (ucast (m (a + 1)))
     + push_bit 16 (ucast (m (a + 2))) + push_bit 24 (ucast (m (a + 3)))"

definition read64 :: "memory \<Rightarrow> nat \<Rightarrow> u64" where
  "read64 m a = ucast (read32 m a) + push_bit 32 (ucast (read32 m (a + 4)))"

subsection \<open>Bob Jenkins' hash\<close>

type_synonym abc = "u32 \<times> u32 \<times> u32"

definition rot :: "u32 \<Rightarrow> nat \<Rightarrow> u32" where
  "rot x k = push_bit k x OR drop_bit (32 - k) x"

definition mix :: "abc \<Rightarrow> abc" where
  "mix = (\<lambda>(a, b, c).
     let a = a - c; a = a XOR rot c 4; c = c + b;
         b = b - a; b = b XOR rot a 6; a = a + c;
         c = c - b; c = c XOR rot b 8; b = b + a;
         a = a - c; a = a XOR rot c 16; c = c + b;
         b = b - a; b = b XOR rot a 19; a = a + c;
         c = c - b; c = c XOR rot b 4; b = b + a
     in (a, b, c))"

definition final :: "abc \<Rightarrow> abc" where
  "final = (\<lambda>(a, b, c).
     let c = c XOR b; c = c - rot b 14;
         a = a XOR c; a = a - rot c 11;
         b = b XOR a; b = b - rot a 25;
         c = c XOR b; c = c - rot b 16;
         a = a XOR c; a = a - rot c 4;
         b = b XOR a; b = b - rot a 14;
         c = c XOR b; c = c - rot b 24
     in (a, b, c))"

text \<open>
  The loops over all but the last block, for each width of the reads; the result is the address
  of the last block, its length and the internal state.
\<close>

fun bob_loop32 :: "memory \<Rightarrow> nat \<Rightarrow> nat \<Rightarrow> abc \<Rightarrow> nat \<times> nat \<times> abc" where
  "bob_loop32 m k len (a, b, c) =
     (if len > 12
      then bob_loop32 m (k + 12) (len - 12)
             (mix (a + read32 m k, b + read32 m (k + 4), c + read32 m (k + 8)))
      else (k, len, (a, b, c)))"

fun bob_loop16 :: "memory \<Rightarrow> nat \<Rightarrow> nat \<Rightarrow> abc \<Rightarrow> nat \<times> nat \<times> abc" where
  "bob_loop16 m k len (a, b, c) =
     (if len > 12
      then bob_loop16 m (k + 12) (len - 12)
             (mix (a + (read16 m k + push_bit 16 (read16 m (k + 2))),
                   b + (read16 m (k + 4) + push_bit 16 (read16 m (k + 6))),
                   c + (read16 m (k + 8) + push_bit 16 (read16 m (k + 10)))))
      else (k, len, (a, b, c)))"

abbreviation byte_at :: "memory \<Rightarrow> nat \<Rightarrow> u32" where
  "byte_at m k \<equiv> ucast (m k)"

fun bob_loop8 :: "memory \<Rightarrow> nat \<Rightarrow> nat \<Rightarrow> abc \<Rightarrow> nat \<times> nat \<times> abc" where
  "bob_loop8 m k len (a, b, c) =
     (if len > 12
      then bob_loop8 m (k + 12) (len - 12)
             (mix (a + byte_at m k + push_bit 8 (byte_at m (k + 1)) + push_bit 16 (byte_at m (k + 2))
                     + push_bit 24 (byte_at m (k + 3)),
                   b + byte_at m (k + 4) + push_bit 8 (byte_at m (k + 5)) + push_bit 16 (byte_at m (k + 6))
                     + push_bit 24 (byte_at m (k + 7)),
                   c + byte_at m (k + 8) + push_bit 8 (byte_at m (k + 9)) + push_bit 16 (byte_at m (k + 10))
                     + push_bit 24 (byte_at m (k + 11))))
      else (k, len, (a, b, c)))"

declare bob_loop32.simps [simp del] bob_loop16.simps [simp del] bob_loop8.simps [simp del]

text \<open>The switches on the length of the last block, for lengths 1 to 12.\<close>

definition bob_tail32 :: "memory \<Rightarrow> nat \<Rightarrow> nat \<Rightarrow> abc \<Rightarrow> abc" where
  "bob_tail32 m k len = (\<lambda>(a, b, c).
     let k0 = read32 m k; k1 = read32 m (k + 4); k2 = read32 m (k + 8) in
     if len = 12 then (a + k0, b + k1, c + k2)
     else if len = 11 then (a + k0, b + k1, c + (k2 AND 0xffffff))
     else if len = 10 then (a + k0, b + k1, c + (k2 AND 0xffff))
     else if len = 9 then (a + k0, b + k1, c + (k2 AND 0xff))
     else if len = 8 then (a + k0, b + k1, c)
     else if len = 7 then (a + k0, b + (k1 AND 0xffffff), c)
     else if len = 6 then (a + k0, b + (k1 AND 0xffff), c)
     else if len = 5 then (a + k0, b + (k1 AND 0xff), c)
     else if len = 4 then (a + k0, b, c)
     else if len = 3 then (a + (k0 AND 0xffffff), b, c)
     else if len = 2 then (a + (k0 AND 0xffff), b, c)
     else if len = 1 then (a + (k0 AND 0xff), b, c)
     else (a, b, c))"

definition bob_tail16 :: "memory \<Rightarrow> nat \<Rightarrow> nat \<Rightarrow> abc \<Rightarrow> abc" where
  "bob_tail16 m k len = (\<lambda>(a, b, c).
     let w = (\<lambda>i. read16 m (k + 2 * i)); b8 = (\<lambda>i. byte_at m (k + i));
         w0 = w 0 + push_bit 16 (w 1); w2 = w 2 + push_bit 16 (w 3); w4 = w 4 + push_bit 16 (w 5)
     in if len = 12 then (a + w0, b + w2, c + w4)
     else if len = 11 then (a + w0, b + w2, c + push_bit 16 (b8 10) + w 4)
     else if len = 10 then (a + w0, b + w2, c + w 4)
     else if len = 9 then (a + w0, b + w2, c + b8 8)
     else if len = 8 then (a + w0, b + w2, c)
     else if len = 7 then (a + w0, b + push_bit 16 (b8 6) + w 2, c)
     else if len = 6 then (a + w0, b + w 2, c)
     else if len = 5 then (a + w0, b + b8 4, c)
     else if len = 4 then (a + w0, b, c)
     else if len = 3 then (a + push_bit 16 (b8 2) + w 0, b, c)
     else if len = 2 then (a + w 0, b, c)
     else if len = 1 then (a + b8 0, b, c)
     else (a, b, c))"

text \<open>\<open>case n: x += k[n - 1] << s\<close>, reached for all lengths from \<open>n\<close> on: the cases fall through.\<close>

definition bob_case8 :: "memory \<Rightarrow> nat \<Rightarrow> nat \<Rightarrow> nat \<Rightarrow> nat \<Rightarrow> u32 \<Rightarrow> u32" where
  "bob_case8 m k len n s x = (if n \<le> len then x + push_bit s (byte_at m (k + n - 1)) else x)"

definition bob_tail8 :: "memory \<Rightarrow> nat \<Rightarrow> nat \<Rightarrow> abc \<Rightarrow> abc" where
  "bob_tail8 m k len = (\<lambda>(a, b, c).
     let add = bob_case8 m k len;
         c = add 12 24 c; c = add 11 16 c; c = add 10 8 c; c = add 9 0 c;
         b = add 8 24 b; b = add 7 16 b; b = add 6 8 b; b = add 5 0 b;
         a = add 4 24 a; a = add 3 16 a; a = add 2 8 a; a = add 1 0 a
     in (a, b, c))"

text \<open>A key of length 0 returns \<open>c\<close> without the final mixing.\<close>

definition bob_hash :: "memory \<Rightarrow> nat \<Rightarrow> nat \<Rightarrow> u32 \<Rightarrow> u32" where
  "bob_hash m key len initval =
     (let i = 0xdeadbeef + of_nat len + initval;
          (k, n, s) = (if key mod 4 = 0 then bob_loop32 m key len (i, i, i)
                       else if key mod 2 = 0 then bob_loop16 m key len (i, i, i)
                       else bob_loop8 m key len (i, i, i))
      in if n = 0 then snd (snd s)
         else snd (snd (final (if key mod 4 = 0 then bob_tail32 m k n s
                               else if key mod 2 = 0 then bob_tail16 m k n s
                               else bob_tail8 m k n s))))"

lemma read_words:
  "read32 m k = byte_at m k + push_bit 8 (byte_at m (k + 1)) + push_bit 16 (byte_at m (k + 2))
     + push_bit 24 (byte_at m (k + 3))"
  "read16 m k + push_bit 16 (read16 m (k + 2)) = read32 m k"
  by (simp_all add: read32_def read16_def push_bit_add ac_simps numeral_eq_Suc)

text \<open>The bytes of a word as digits; masking a word drops its upper digits.\<close>

lemma byte_shift_of_nat: "push_bit s (byte_at m k) = of_nat (unat (m k) * 2 ^ s)"
  by (simp add: push_bit_eq_mult)

lemma read32_of_nat:
  "read32 m k = of_nat (unat (m k) + 2^8 * (unat (m (k+1)) + 2^8 * (unat (m (k+2)) + 2^8 * unat (m (k+3)))))"
  unfolding read_words(1) byte_shift_of_nat by (simp add: algebra_simps)

lemma and_mask_of_nat: "(of_nat n :: u32) AND mask k = of_nat (n mod 2 ^ k)"
  by (simp only: take_bit_eq_mask [symmetric] take_bit_of_nat) (simp only: take_bit_eq_mod)

lemma byte_digit: "(unat (b::u8) + 2 ^ 8 * r) mod 2 ^ (8 + j) = unat b + 2 ^ 8 * (r mod 2 ^ j)"
  using unat_u8_lt [of b] by (simp add: mod_mult2_eq power_add)

lemma read32_masks:
  "read32 m k AND 0xff = byte_at m k"
  "read32 m k AND 0xffff = byte_at m k + push_bit 8 (byte_at m (k + 1))"
  "read32 m k AND 0xffffff = byte_at m k + push_bit 8 (byte_at m (k + 1)) + push_bit 16 (byte_at m (k + 2))"
proof -
  have M: "(0xff :: u32) = mask (8 + 0)" "(0xffff :: u32) = mask (8 + (8 + 0))"
    "(0xffffff :: u32) = mask (8 + (8 + (8 + 0)))" by (simp_all add: mask_eq_exp_minus_1)
  show "read32 m k AND 0xff = byte_at m k"
    unfolding M read32_of_nat and_mask_of_nat byte_digit by simp
  show "read32 m k AND 0xffff = byte_at m k + push_bit 8 (byte_at m (k + 1))"
    unfolding M read32_of_nat and_mask_of_nat byte_digit byte_shift_of_nat by simp
  show "read32 m k AND 0xffffff = byte_at m k + push_bit 8 (byte_at m (k + 1)) + push_bit 16 (byte_at m (k + 2))"
    unfolding M read32_of_nat and_mask_of_nat byte_digit byte_shift_of_nat by (simp add: algebra_simps)
qed

text \<open>All three loops add the same words.\<close>

lemma bob_loop8_words:
  "bob_loop8 m k n (a, b, c) =
     (if n > 12 then bob_loop8 m (k + 12) (n - 12) (mix (a + read32 m k, b + read32 m (k + 4), c + read32 m (k + 8)))
      else (k, n, (a, b, c)))"
  by (subst bob_loop8.simps) (simp add: read_words(1) ac_simps)

lemma bob_loop16_words:
  "bob_loop16 m k n (a, b, c) =
     (if n > 12 then bob_loop16 m (k + 12) (n - 12) (mix (a + read32 m k, b + read32 m (k + 4), c + read32 m (k + 8)))
      else (k, n, (a, b, c)))"
  using read_words(2) [of m k] read_words(2) [of m "k + 4"] read_words(2) [of m "k + 8"]
  by (subst bob_loop16.simps) (simp add: add.commute)

lemma bob_loops: "bob_loop32 m k n s = bob_loop8 m k n s \<and> bob_loop16 m k n s = bob_loop8 m k n s"
proof (induction m k n s rule: bob_loop32.induct)
  case (1 m k n a b c)
  show ?case
  proof (cases "12 < n")
    case True
    then show ?thesis
      using 1 by (simp only: bob_loop32.simps [of m k] bob_loop16_words [of m k] bob_loop8_words [of m k] if_True simp_thms)
  next
    case False
    then show ?thesis by (simp add: bob_loop32.simps [of m k] bob_loop16_words [of m k] bob_loop8_words [of m k])
  qed
qed

lemma bob_loop_bytes:
  assumes "\<And>i. i < n \<Longrightarrow> m (k + i) = m' (k' + i)"
  shows "\<exists>j n1 s1. bob_loop8 m k n s = (k + j, n1, s1) \<and> bob_loop8 m' k' n s = (k' + j, n1, s1) \<and>
           j + n1 = n \<and> n1 \<le> 12"
  using assms
proof (induction n arbitrary: k k' s rule: less_induct)
  case (less n)
  obtain a b c where s: "s = (a, b, c)" by (cases s)
  show ?case
  proof (cases "12 < n")
    case True
    have eq: "m (k + 12 + i) = m' (k' + 12 + i)" if "i < n - 12" for i
      using less.prems [of "12 + i"] that by (simp add: add.assoc)
    have "read32 m (k + i) = read32 m' (k' + i)" if "i + 3 < n" for i
      using less.prems [of i] less.prems [of "i + 1"] less.prems [of "i + 2"] less.prems [of "i + 3"] that
      by (simp add: read32_def add.assoc)
    note r = this [of 0] this [of 4] this [of 8]
    have lt: "n - 12 < n" using True by simp
    obtain j n1 s1 where
      "bob_loop8 m (k + 12) (n - 12) (mix (a + read32 m k, b + read32 m (k + 4), c + read32 m (k + 8))) = (k + 12 + j, n1, s1)"
      "bob_loop8 m' (k' + 12) (n - 12) (mix (a + read32 m k, b + read32 m (k + 4), c + read32 m (k + 8))) = (k' + 12 + j, n1, s1)"
      "j + n1 = n - 12" "n1 \<le> 12"
      using less.IH [OF lt eq] by metis
    then have "bob_loop8 m k n s = (k + (12 + j), n1, s1) \<and> bob_loop8 m' k' n s = (k' + (12 + j), n1, s1) \<and>
        12 + j + n1 = n \<and> n1 \<le> 12"
      using True r unfolding s by (simp add: bob_loop8_words [of m k] bob_loop8_words [of m' k'] add.assoc)
    then show ?thesis by blast
  next
    case False
    then have "bob_loop8 m k n s = (k + 0, n, s) \<and> bob_loop8 m' k' n s = (k' + 0, n, s) \<and> 0 + n = n \<and> n \<le> 12"
      by (simp add: s bob_loop8_words)
    then show ?thesis by blast
  qed
qed

lemma bob_tail_bytes:
  assumes "\<And>i. i < n \<Longrightarrow> m (k + i) = m' (k' + i)"
  shows "bob_tail8 m k n s = bob_tail8 m' k' n s"
proof -
  have "bob_case8 m k n i = bob_case8 m' k' n i" if "0 < i" for i
    using assms [of "i - 1"] that by (cases i) (simp_all add: bob_case8_def fun_eq_iff)
  then show ?thesis by (simp add: bob_tail8_def Let_def)
qed

lemma length_cases:
  assumes "0 < n" "n \<le> (12::nat)"
  shows "n \<in> {1, 2, 3, 4, 5, 6, 7, 8, 9, 10, 11, 12}"
  using assms unfolding insert_iff empty_iff by presburger

lemma bob_tails:
  assumes "0 < n" "n \<le> 12"
  shows "bob_tail32 m k n s = bob_tail8 m k n s" "bob_tail16 m k n s = bob_tail8 m k n s"
proof -
  obtain a b c where s: "s = (a, b, c)" by (cases s)
  show "bob_tail32 m k n s = bob_tail8 m k n s"
    using length_cases [OF assms] unfolding s bob_tail32_def Let_def prod.case read32_masks
    by (elim insertE emptyE) (simp_all add: bob_tail8_def bob_case8_def Let_def read_words(1) ac_simps)
  show "bob_tail16 m k n s = bob_tail8 m k n s"
    using length_cases [OF assms] unfolding s
    by (elim insertE emptyE) (simp_all add: bob_tail16_def bob_tail8_def bob_case8_def Let_def read16_def push_bit_add ac_simps numeral_eq_Suc)
qed

text \<open>The byte-wise computation that all three branches agree with.\<close>

definition bob_hash_bytes :: "memory \<Rightarrow> nat \<Rightarrow> nat \<Rightarrow> u32 \<Rightarrow> u32" where
  "bob_hash_bytes m key len initval =
     (let i = 0xdeadbeef + of_nat len + initval; (k, n, s) = bob_loop8 m key len (i, i, i)
      in if n = 0 then snd (snd s) else snd (snd (final (bob_tail8 m k n s))))"

lemma bob_hash_as_bytes: "bob_hash m key len initval = bob_hash_bytes m key len initval"
proof -
  define i where "i = 0xdeadbeef + of_nat len + initval"
  obtain j n s where l: "bob_loop8 m key len (i, i, i) = (key + j, n, s)" "n \<le> 12"
    using bob_loop_bytes [of len m key m key "(i, i, i)"] by blast
  show ?thesis
    unfolding bob_hash_def bob_hash_bytes_def i_def [symmetric] Let_def bob_loops [THEN conjunct1]
      bob_loops [THEN conjunct2] if_cancel l(1) prod.case
    using bob_tails [of n m "key + j" s] l(2) by simp
qed

lemma bob_hash_bytes_only:
  assumes "\<And>i. i < len \<Longrightarrow> m (key + i) = m' (key' + i)"
  shows "bob_hash_bytes m key len initval = bob_hash_bytes m' key' len initval"
proof -
  define i where "i = 0xdeadbeef + of_nat len + initval"
  obtain j n s where l: "bob_loop8 m key len (i, i, i) = (key + j, n, s)"
      "bob_loop8 m' key' len (i, i, i) = (key' + j, n, s)" "j + n = len"
    using bob_loop_bytes [of len m key m' key' "(i, i, i)"] assms by blast
  have "bob_tail8 m (key + j) n s = bob_tail8 m' (key' + j) n s"
    using assms l(3) by (intro bob_tail_bytes) (simp add: add.assoc)
  then show ?thesis
    unfolding bob_hash_bytes_def i_def [symmetric] Let_def l(1,2) prod.case by simp
qed

subsection \<open>The MurmurHash family\<close>

definition rotl32 :: "u32 \<Rightarrow> nat \<Rightarrow> u32" where
  "rotl32 x r = push_bit r x OR drop_bit (32 - r) x"

definition rotl64 :: "u64 \<Rightarrow> nat \<Rightarrow> u64" where
  "rotl64 x r = push_bit r x OR drop_bit (64 - r) x"

definition getblock32 :: "memory \<Rightarrow> nat \<Rightarrow> nat \<Rightarrow> u32" where
  "getblock32 m p i = read32 m (p + 4 * i)"

definition getblock64 :: "memory \<Rightarrow> nat \<Rightarrow> nat \<Rightarrow> u64" where
  "getblock64 m p i = read64 m (p + 8 * i)"

definition fmix32 :: "u32 \<Rightarrow> u32" where
  "fmix32 h =
     (let h = h XOR drop_bit 16 h; h = h * 0x85ebca6b; h = h XOR drop_bit 13 h;
          h = h * 0xc2b2ae35; h = h XOR drop_bit 16 h in h)"

definition fmix64 :: "u64 \<Rightarrow> u64" where
  "fmix64 k =
     (let k = k XOR drop_bit 33 k; k = k * 0xff51afd7ed558ccd; k = k XOR drop_bit 33 k;
          k = k * 0xc4ceb9fe1a85ec53; k = k XOR drop_bit 33 k in k)"

text \<open>
  One case of the fall-through switches over the tail: \<open>case n: k ^= tail[n - 1] << s\<close>,
  executed when the tail has at least \<open>n\<close> bytes. The block loops take the address of the first
  block and the number of blocks left; a length is below \<open>2 ^ 31\<close>.
\<close>

definition tail_case :: "memory \<Rightarrow> nat \<Rightarrow> nat \<Rightarrow> nat \<Rightarrow> nat \<Rightarrow> 'a::len word \<Rightarrow> 'a word" where
  "tail_case m t r n s x = (if n \<le> r then x XOR push_bit s (ucast (m (t + n - 1))) else x)"

fun x86_32_body :: "memory \<Rightarrow> nat \<Rightarrow> nat \<Rightarrow> u32 \<Rightarrow> u32" where
  "x86_32_body m p 0 h1 = h1"
| "x86_32_body m p (Suc n) h1 =
     (let k1 = getblock32 m p 0; k1 = k1 * 0xcc9e2d51; k1 = rotl32 k1 15; k1 = k1 * 0x1b873593;
          h1 = h1 XOR k1; h1 = rotl32 h1 13; h1 = h1 * 5 + 0xe6546b64
      in x86_32_body m (p + 4) n h1)"

definition MurmurHash3_x86_32 :: "memory \<Rightarrow> nat \<Rightarrow> nat \<Rightarrow> u32 \<Rightarrow> u32" where
  "MurmurHash3_x86_32 m key len seed =
     (let nblocks = len div 4; h1 = x86_32_body m key nblocks seed;
          tail = key + nblocks * 4; r = len mod 4; get = tail_case m tail r;
          k1 = get 3 16 0; k1 = get 2 8 k1; k1 = get 1 0 k1;
          h1 = (if 1 \<le> r then h1 XOR rotl32 (k1 * 0xcc9e2d51) 15 * 0x1b873593 else h1);
          h1 = h1 XOR of_nat len
      in fmix32 h1)"

fun x86_128_body :: "memory \<Rightarrow> nat \<Rightarrow> nat \<Rightarrow> u32 \<times> u32 \<times> u32 \<times> u32 \<Rightarrow> u32 \<times> u32 \<times> u32 \<times> u32" where
  "x86_128_body m p 0 hs = hs"
| "x86_128_body m p (Suc n) (h1, h2, h3, h4) =
     (let c1 = 0x239b961b; c2 = 0xab0e9789; c3 = 0x38b34ae5; c4 = 0xa1e38b93;
          k1 = getblock32 m p 0; k2 = getblock32 m p 1; k3 = getblock32 m p 2; k4 = getblock32 m p 3;
          h1 = h1 XOR rotl32 (k1 * c1) 15 * c2; h1 = rotl32 h1 19; h1 = h1 + h2; h1 = h1 * 5 + 0x561ccd1b;
          h2 = h2 XOR rotl32 (k2 * c2) 16 * c3; h2 = rotl32 h2 17; h2 = h2 + h3; h2 = h2 * 5 + 0x0bcaa747;
          h3 = h3 XOR rotl32 (k3 * c3) 17 * c4; h3 = rotl32 h3 15; h3 = h3 + h4; h3 = h3 * 5 + 0x96cd1c35;
          h4 = h4 XOR rotl32 (k4 * c4) 18 * c1; h4 = rotl32 h4 13; h4 = h4 + h1; h4 = h4 * 5 + 0x32ac3b17
      in x86_128_body m (p + 16) n (h1, h2, h3, h4))"

definition MurmurHash3_x86_128 :: "memory \<Rightarrow> nat \<Rightarrow> nat \<Rightarrow> u32 \<Rightarrow> u32 list" where
  "MurmurHash3_x86_128 m key len seed =
     (let c1 = 0x239b961b; c2 = 0xab0e9789; c3 = 0x38b34ae5; c4 = 0xa1e38b93;
          nblocks = len div 16; (h1, h2, h3, h4) = x86_128_body m key nblocks (seed, seed, seed, seed);
          tail = key + nblocks * 16; r = len mod 16; get = tail_case m tail r;
          k4 = get 15 16 0; k4 = get 14 8 k4; k4 = get 13 0 k4;
          h4 = (if 13 \<le> r then h4 XOR rotl32 (k4 * c4) 18 * c1 else h4);
          k3 = get 12 24 0; k3 = get 11 16 k3; k3 = get 10 8 k3; k3 = get 9 0 k3;
          h3 = (if 9 \<le> r then h3 XOR rotl32 (k3 * c3) 17 * c4 else h3);
          k2 = get 8 24 0; k2 = get 7 16 k2; k2 = get 6 8 k2; k2 = get 5 0 k2;
          h2 = (if 5 \<le> r then h2 XOR rotl32 (k2 * c2) 16 * c3 else h2);
          k1 = get 4 24 0; k1 = get 3 16 k1; k1 = get 2 8 k1; k1 = get 1 0 k1;
          h1 = (if 1 \<le> r then h1 XOR rotl32 (k1 * c1) 15 * c2 else h1);
          h1 = h1 XOR of_nat len; h2 = h2 XOR of_nat len; h3 = h3 XOR of_nat len; h4 = h4 XOR of_nat len;
          h1 = h1 + h2; h1 = h1 + h3; h1 = h1 + h4; h2 = h2 + h1; h3 = h3 + h1; h4 = h4 + h1;
          h1 = fmix32 h1; h2 = fmix32 h2; h3 = fmix32 h3; h4 = fmix32 h4;
          h1 = h1 + h2; h1 = h1 + h3; h1 = h1 + h4; h2 = h2 + h1; h3 = h3 + h1; h4 = h4 + h1
      in [h1, h2, h3, h4])"

fun x64_128_body :: "memory \<Rightarrow> nat \<Rightarrow> nat \<Rightarrow> u64 \<times> u64 \<Rightarrow> u64 \<times> u64" where
  "x64_128_body m p 0 hs = hs"
| "x64_128_body m p (Suc n) (h1, h2) =
     (let c1 = 0x87c37b91114253d5; c2 = 0x4cf5ad432745937f;
          k1 = getblock64 m p 0; k2 = getblock64 m p 1;
          h1 = h1 XOR rotl64 (k1 * c1) 31 * c2; h1 = rotl64 h1 27; h1 = h1 + h2; h1 = h1 * 5 + 0x52dce729;
          h2 = h2 XOR rotl64 (k2 * c2) 33 * c1; h2 = rotl64 h2 31; h2 = h2 + h1; h2 = h2 * 5 + 0x38495ab5
      in x64_128_body m (p + 16) n (h1, h2))"

definition MurmurHash3_x64_128 :: "memory \<Rightarrow> nat \<Rightarrow> nat \<Rightarrow> u32 \<Rightarrow> u64 list" where
  "MurmurHash3_x64_128 m key len seed =
     (let c1 = 0x87c37b91114253d5; c2 = 0x4cf5ad432745937f;
          nblocks = len div 16; (h1, h2) = x64_128_body m key nblocks (ucast seed, ucast seed);
          tail = key + nblocks * 16; r = len mod 16; get = tail_case m tail r;
          k2 = get 15 48 0; k2 = get 14 40 k2; k2 = get 13 32 k2; k2 = get 12 24 k2;
          k2 = get 11 16 k2; k2 = get 10 8 k2; k2 = get 9 0 k2;
          h2 = (if 9 \<le> r then h2 XOR rotl64 (k2 * c2) 33 * c1 else h2);
          k1 = get 8 56 0; k1 = get 7 48 k1; k1 = get 6 40 k1; k1 = get 5 32 k1;
          k1 = get 4 24 k1; k1 = get 3 16 k1; k1 = get 2 8 k1; k1 = get 1 0 k1;
          h1 = (if 1 \<le> r then h1 XOR rotl64 (k1 * c1) 31 * c2 else h1);
          h1 = h1 XOR of_nat len; h2 = h2 XOR of_nat len;
          h1 = h1 + h2; h2 = h2 + h1; h1 = fmix64 h1; h2 = fmix64 h2; h1 = h1 + h2; h2 = h2 + h1
      in [h1, h2])"

definition hash64A_mix :: "u64 \<Rightarrow> u64" where
  "hash64A_mix k =
     (let k = k * 0xc6a4a7935bd1e995; k = k XOR drop_bit 47 k; k = k * 0xc6a4a7935bd1e995 in k)"

fun hash64A_body :: "memory \<Rightarrow> nat \<Rightarrow> nat \<Rightarrow> u64 \<Rightarrow> u64" where
  "hash64A_body m p 0 h = h"
| "hash64A_body m p (Suc n) h =
     (let h = h XOR hash64A_mix (read64 m p); h = h * 0xc6a4a7935bd1e995
      in hash64A_body m (p + 8) n h)"

definition hash64A_final :: "u64 \<Rightarrow> u64" where
  "hash64A_final h =
     (let h = h XOR drop_bit 47 h; h = h * 0xc6a4a7935bd1e995; h = h XOR drop_bit 47 h in h)"

definition MurmurHash64A :: "memory \<Rightarrow> nat \<Rightarrow> nat \<Rightarrow> u32 \<Rightarrow> u64" where
  "MurmurHash64A m key len seed =
     (let h = ucast seed XOR (of_nat len * 0xc6a4a7935bd1e995);
          h = hash64A_body m key (len div 8) h;
          data2 = key + len div 8 * 8; r = len mod 8; get = tail_case m data2 r;
          h = get 7 48 h; h = get 6 40 h; h = get 5 32 h; h = get 4 24 h; h = get 3 16 h;
          h = get 2 8 h; h = get 1 0 h;
          h = (if 1 \<le> r then h * 0xc6a4a7935bd1e995 else h)
      in hash64A_final h)"

subsection \<open>The hash of an integer key\<close>

definition hash_code :: "u64 \<Rightarrow> u64" where
  "hash_code key =
     (let key = NOT key + push_bit 21 key; key = key XOR drop_bit 24 key;
          key = (key + push_bit 3 key) + push_bit 8 key; key = key XOR drop_bit 14 key;
          key = (key + push_bit 2 key) + push_bit 4 key; key = key XOR drop_bit 28 key;
          key = key + push_bit 31 key in key)"

subsection \<open>Only the bytes of the key matter\<close>

definition same_key :: "nat \<Rightarrow> memory \<Rightarrow> nat \<Rightarrow> memory \<Rightarrow> nat \<Rightarrow> bool" where
  "same_key len m k m' k' \<longleftrightarrow> (\<forall>i<len. m (k + i) = m' (k' + i))"

lemma same_key_shift: "same_key n m k m' k' \<Longrightarrow> j + l \<le> n \<Longrightarrow> same_key l m (k + j) m' (k' + j)"
  by (auto simp: same_key_def add.assoc)

lemma same_key_read32: "same_key n m k m' k' \<Longrightarrow> j + 4 \<le> n \<Longrightarrow> read32 m (k + j) = read32 m' (k' + j)"
  unfolding same_key_def read32_def
  by (simp only: add.assoc)

lemma same_key_getblock32:
  "same_key n m k m' k' \<Longrightarrow> 4 * j + 4 \<le> n \<Longrightarrow> getblock32 m k j = getblock32 m' k' j"
  unfolding getblock32_def by (rule same_key_read32)

lemma same_key_read64: "same_key n m k m' k' \<Longrightarrow> j + 8 \<le> n \<Longrightarrow> read64 m (k + j) = read64 m' (k' + j)"
  using same_key_read32 [of n m k m' k' j] same_key_read32 [of n m k m' k' "j + 4"]
  by (simp add: read64_def add.assoc)

lemma same_key_getblock64:
  "same_key n m k m' k' \<Longrightarrow> 8 * j + 8 \<le> n \<Longrightarrow> getblock64 m k j = getblock64 m' k' j"
  unfolding getblock64_def by (rule same_key_read64)

lemma same_key_tail: 
  assumes "same_key r m t m' t'" "0 < n"
  shows "tail_case m t r n = tail_case m' t' r n"
proof -
  have "m (t + i) = m' (t' + i)" if "i < r" for i using that assms by (simp add: same_key_def)
  then show ?thesis using assms(2) by (cases n) (simp_all add: tail_case_def fun_eq_iff)
qed

lemma same_key_x86_32: "same_key (4 * n) m p m' p' \<Longrightarrow> x86_32_body m p n h = x86_32_body m' p' n h"
proof (induction n arbitrary: p p' h)
  case (Suc n)
  show ?case using Suc.IH [OF same_key_shift [OF Suc.prems, of 4]] same_key_getblock32 [OF Suc.prems, of 0]
    by (simp add: Let_def)
qed simp

lemma same_key_x86_128: "same_key (16 * n) m p m' p' \<Longrightarrow> x86_128_body m p n hs = x86_128_body m' p' n hs"
proof (induction n arbitrary: p p' hs)
  case (Suc n)
  note r = same_key_getblock32 [OF Suc.prems]
  show ?case using Suc.IH [OF same_key_shift [OF Suc.prems, of 16]] r [of 0] r [of 1] r [of 2] r [of 3]
    by (cases hs) (simp add: Let_def)
qed simp

lemma same_key_x64_128: "same_key (16 * n) m p m' p' \<Longrightarrow> x64_128_body m p n hs = x64_128_body m' p' n hs"
proof (induction n arbitrary: p p' hs)
  case (Suc n)
  note r = same_key_getblock64 [OF Suc.prems]
  show ?case using Suc.IH [OF same_key_shift [OF Suc.prems, of 16]] r [of 0] r [of 1]
    by (cases hs) (simp add: Let_def)
qed simp

lemma same_key_hash64A: "same_key (8 * n) m p m' p' \<Longrightarrow> hash64A_body m p n h = hash64A_body m' p' n h"
proof (induction n arbitrary: p p' h)
  case (Suc n)
  show ?case using Suc.IH [OF same_key_shift [OF Suc.prems, of 8]] same_key_read64 [OF Suc.prems, of 0]
    by (simp add: Let_def)
qed simp

lemma same_key_parts:
  assumes "same_key len m k m' k'"
  shows "same_key (b * (len div b)) m k m' k'" and
    "same_key (len mod b) m (k + len div b * b) m' (k' + len div b * b)"
  using assms same_key_shift [of len m k m' k' 0 "b * (len div b)"]
    same_key_shift [of len m k m' k' "len div b * b" "len mod b"] by simp_all

lemma murmur_same_key:
  assumes "same_key len m key m' key'"
  shows "MurmurHash3_x86_32 m key len seed = MurmurHash3_x86_32 m' key' len seed"
    and "MurmurHash3_x86_128 m key len seed = MurmurHash3_x86_128 m' key' len seed"
    and "MurmurHash3_x64_128 m key len seed = MurmurHash3_x64_128 m' key' len seed"
    and "MurmurHash64A m key len seed = MurmurHash64A m' key' len seed"
proof -
  note p = same_key_parts [OF assms] and t = same_key_tail [OF same_key_parts(2) [OF assms]]
  show "MurmurHash3_x86_32 m key len seed = MurmurHash3_x86_32 m' key' len seed"
    unfolding MurmurHash3_x86_32_def Let_def by (simp add: same_key_x86_32 [OF p(1)] t)
  show "MurmurHash3_x86_128 m key len seed = MurmurHash3_x86_128 m' key' len seed"
    unfolding MurmurHash3_x86_128_def Let_def by (cases "x86_128_body m' key' (len div 16) (seed, seed, seed, seed)") (simp add: same_key_x86_128 [OF p(1)] t)
  show "MurmurHash3_x64_128 m key len seed = MurmurHash3_x64_128 m' key' len seed"
    unfolding MurmurHash3_x64_128_def Let_def by (cases "x64_128_body m' key' (len div 16) (ucast seed, ucast seed)") (simp add: same_key_x64_128 [OF p(1)] t)
  show "MurmurHash64A m key len seed = MurmurHash64A m' key' len seed"
    unfolding MurmurHash64A_def Let_def by (simp add: same_key_hash64A [OF p(1)] t)
qed

subsection \<open>The mixing steps are injective\<close>

lemma xorshiftD:
  fixes x y :: "'a::len word"
  assumes eq: "x XOR drop_bit k x = y XOR drop_bit k y" and k: "0 < k"
  shows "x = y"
proof -
  define z where "z = x XOR y"
  have "drop_bit k z = z"
    using eq unfolding z_def drop_bit_xor by (metis xor.assoc xor.commute xor_self_eq xor.left_neutral)
  then have d: "unat z div 2 ^ k = unat z" by (metis unsigned_drop_bit_eq unat_drop_bit_eq drop_bit_eq_div)
  have "unat z = 0"
  proof (rule ccontr)
    assume "unat z \<noteq> 0"
    moreover have "(1::nat) < 2 ^ k" using k by (rule one_less_power [rotated]) simp
    ultimately have "unat z div 2 ^ k < unat z" by (intro div_less_dividend) simp_all
    with d show False by simp
  qed
  then show "x = y" unfolding z_def by (metis unat_eq_zero xor.right_neutral xor.assoc xor_self_eq)
qed

lemma multD:
  fixes x y c d :: "'a::len word"
  assumes "x * c = y * c" "c * d = 1"
  shows "x = y"
  by (metis assms mult.assoc mult.right_neutral)

lemma fmix32_inj: "fmix32 x = fmix32 y \<Longrightarrow> x = y"
  unfolding fmix32_def Let_def
  apply (drule xorshiftD, simp)
  apply (drule multD [where d = "0x7ed1b41d"], simp)
  apply (drule xorshiftD, simp)
  apply (drule multD [where d = "0xa5cb9243"], simp)
  by (drule xorshiftD, simp)

lemma fmix64_inj: "fmix64 x = fmix64 y \<Longrightarrow> x = y"
  unfolding fmix64_def Let_def
  apply (drule xorshiftD, simp)
  apply (drule multD [where d = "0x9cb4b2f8129337db"], simp)
  apply (drule xorshiftD, simp)
  apply (drule multD [where d = "0x4f74430c22a54005"], simp)
  by (drule xorshiftD, simp)

lemma hash_code_steps:
  fixes x :: u64
  shows "NOT x + push_bit 21 x = x * 0x1fffff - 1" "x + push_bit 3 x + push_bit 8 x = x * 265"
    "x + push_bit 2 x + push_bit 4 x = x * 21" "x + push_bit 31 x = x * 0x80000001"
  by (simp_all add: push_bit_eq_mult not_eq_complement)

lemma hash_code_inj: "hash_code x = hash_code y \<Longrightarrow> x = y"
  unfolding hash_code_def Let_def hash_code_steps
  apply (drule multD [where d = "0x3fffffff80000001"], simp)
  apply (drule xorshiftD, simp)
  apply (drule multD [where d = "0xcf3cf3cf3cf3cf3d"], simp)
  apply (drule xorshiftD, simp)
  apply (drule multD [where d = "0xd38ff08b1c03dd39"], simp)
  apply (drule xorshiftD, simp)
  apply (drule arg_cong [where f = "\<lambda>z. z + 1"], simp only: diff_add_cancel)
  by (drule multD [where d = "0x7ffffbffffdfffff"], simp)

lemma hash64A_mix_inj: "hash64A_mix x = hash64A_mix y \<Longrightarrow> x = y"
  unfolding hash64A_mix_def Let_def
  apply (drule multD [where d = "0x5f7a0ea7e59b19bd"], simp)
  apply (drule xorshiftD, simp)
  by (drule multD [where d = "0x5f7a0ea7e59b19bd"], simp)

lemma hash64A_final_inj: "hash64A_final x = hash64A_final y \<Longrightarrow> x = y"
  unfolding hash64A_final_def Let_def
  apply (drule xorshiftD, simp)
  apply (drule multD [where d = "0x5f7a0ea7e59b19bd"], simp)
  by (drule xorshiftD, simp)

lemma xor_left_cancel: "(h::'a::len word) XOR x = h XOR y \<Longrightarrow> x = y"
  by (metis xor.assoc xor_self_eq xor.left_neutral)

lemma MurmurHash64A_word:
  assumes "MurmurHash64A m key 8 seed = MurmurHash64A m' key' 8 seed"
  shows "read64 m key = read64 m' key'"
proof -
  define h0 :: u64 where "h0 = ucast seed XOR (of_nat 8 * 0xc6a4a7935bd1e995)"
  have "hash64A_body m key 1 h0 = hash64A_body m' key' 1 h0"
    using assms unfolding MurmurHash64A_def Let_def h0_def [symmetric]
    by - (rule hash64A_final_inj, simp add: tail_case_def)
  then have "(h0 XOR hash64A_mix (read64 m key)) * 0xc6a4a7935bd1e995 =
      (h0 XOR hash64A_mix (read64 m' key')) * 0xc6a4a7935bd1e995"
    by simp
  then have "h0 XOR hash64A_mix (read64 m key) = h0 XOR hash64A_mix (read64 m' key')"
    by (rule multD [where d = "0x5f7a0ea7e59b19bd"]) simp
  then show ?thesis by (rule hash64A_mix_inj [OF xor_left_cancel])
qed

subsection \<open>Properties\<close>

text \<open>
  \<open>bob_hash\<close> depends only on the bytes of the key, its length and the initial
  value: a key that is aligned to 4 bytes, to 2 bytes or not at all, followed by any other bytes,
  hashes to the same value, although the three branches read words, half words and bytes and the
  first masks bytes it reads past the end.
\<close>

lemma bob_hash_key_only:
  assumes "\<forall>i<len. m (key + i) = m' (key' + i)"
  shows "bob_hash m key len initval = bob_hash m' key' len initval"
  unfolding bob_hash_as_bytes using assms by (intro bob_hash_bytes_only) simp

lemma bob_hash_key_only_witness:
  "bob_hash (\<lambda>a. of_nat a) 4 13 7 = bob_hash (\<lambda>a. if a < 19 then of_nat (a - 2) else 0xff) 6 13 7"
  by (rule bob_hash_key_only) simp

text \<open>
  The MurmurHash functions read exactly within their key: two memories that hold the
  same key hash it to the same value, for every length, block count and tail.
\<close>

lemma murmur_key_only:
  assumes "\<forall>i<len. m (key + i) = m' (key' + i)"
  shows "MurmurHash3_x86_32 m key len seed = MurmurHash3_x86_32 m' key' len seed \<and>
    MurmurHash3_x86_128 m key len seed = MurmurHash3_x86_128 m' key' len seed \<and>
    MurmurHash3_x64_128 m key len seed = MurmurHash3_x64_128 m' key' len seed \<and>
    MurmurHash64A m key len seed = MurmurHash64A m' key' len seed"
  using murmur_same_key [of len m key m' key' seed] assms unfolding same_key_def by blast

lemma murmur_key_only_witness:
  "MurmurHash64A (\<lambda>a. of_nat a) 4 13 7 = MurmurHash64A (\<lambda>a. if a < 19 then of_nat (a - 2) else 0xff) 6 13 7"
  using murmur_key_only [of 13 "\<lambda>a. of_nat a" 4 "\<lambda>a. if a < 19 then of_nat (a - 2) else 0xff" 6 7] by simp

text \<open>
  The hash of an integer key and the finalization mixes lose no information:
  \<open>IntMap::hash_code\<close>, \<open>fmix32\<close> and \<open>fmix64\<close> are bijections of the machine words, and the \<open>MurmurHash64A\<close> values of two 8-byte keys
  agree only when the keys do, so two different integer keys collide only by the reduction to the
  bucket count.
\<close>

lemma integer_hashes_bij:
  "bij hash_code \<and> bij fmix32 \<and> bij fmix64 \<and>
   (MurmurHash64A m key 8 seed = MurmurHash64A m' key' 8 seed \<longleftrightarrow> read64 m key = read64 m' key')"
proof (intro conjI)
  have "inj hash_code" by (rule injI) (rule hash_code_inj)
  then show "bij hash_code" by (simp add: bij_def finite_UNIV_inj_surj)
  have "inj fmix32" by (rule injI) (rule fmix32_inj)
  then show "bij fmix32" by (simp add: bij_def finite_UNIV_inj_surj)
  have "inj fmix64" by (rule injI) (rule fmix64_inj)
  then show "bij fmix64" by (simp add: bij_def finite_UNIV_inj_surj)
  show "MurmurHash64A m key 8 seed = MurmurHash64A m' key' 8 seed \<longleftrightarrow> read64 m key = read64 m' key'"
    using MurmurHash64A_word [of m key seed m' key']
    by (auto simp: MurmurHash64A_def Let_def tail_case_def numeral_eq_Suc [of Num.One])
qed

end
