(* ===== verification/Text.thy ===== *)
theory Text
  imports Hash
begin

text \<open>
  String utilities of \<open>base\<close>: URL escaping (url_encode.cpp), \<open>StringBuilder\<close> (string_builder.h)
  and the reference strings of ref_str.h. Strings are lists of bytes.
\<close>

subsection \<open>URL escaping\<close>

text \<open>The value of a hexadecimal digit, -1 for another character.\<close>

definition hex_char :: "u8 \<Rightarrow> int" where
  "hex_char ch =
     (if 48 \<le> ch \<and> ch \<le> 57 then uint ch - 48
      else if 97 \<le> ch \<and> ch \<le> 102 then uint ch - 87
      else if 65 \<le> ch \<and> ch \<le> 70 then uint ch - 55 else -1)"

text \<open>The loop over the input that is left; \<open>i + 2 < len\<close> holds when two more characters follow.\<close>

fun url_decode :: "u8 list \<Rightarrow> u8 list" where
  "url_decode [] = []"
| "url_decode (ch # buf) =
     (if ch = 37 \<and> length buf \<ge> 2 then
        let v = hex_char (buf ! 0) in
        if v < 0 then ch # url_decode buf
        else let v2 = hex_char (buf ! 1) in
          if v2 < 0 then ch # url_decode buf
          else of_int (v * 16 + v2) # url_decode (drop 2 buf)
      else ch # url_decode buf)"

definition hex_digits :: "u8 list" where
  "hex_digits = [48, 49, 50, 51, 52, 53, 54, 55, 56, 57, 65, 66, 67, 68, 69, 70]"

definition url_encode_char :: "u8 \<Rightarrow> u8 list" where
  "url_encode_char cc =
     (if cc < 128 then if cc = 32 then [37, 50, 48] else [cc]
      else [37, hex_digits ! unat (cc div 16), hex_digits ! unat (cc mod 16)])"

text \<open>The encoder appends to its output.\<close>

definition url_encode :: "u8 list \<Rightarrow> u8 list \<Rightarrow> u8 list" where
  "url_encode src dst = dst @ concat (map url_encode_char src)"

lemma hex_digits_value: "v < 16 \<Longrightarrow> hex_char (hex_digits ! v) = int v"
proof -
  have "list_all (\<lambda>v. hex_char (hex_digits ! v) = int v) [0..<16]" by code_simp
  then show "v < 16 \<Longrightarrow> hex_char (hex_digits ! v) = int v" by (simp add: list_all_iff)
qed

lemma url_decode_plain: "ch \<noteq> 37 \<Longrightarrow> url_decode (ch # buf) = ch # url_decode buf"
  by simp

lemma url_decode_escape:
  assumes "hex_char h = int a" "hex_char l = int b" "a < 16" "b < 16"
  shows "url_decode (37 # h # l # buf) = of_nat (a * 16 + b) # url_decode buf"
  using assms by (simp add: numeral_2_eq_2)

lemma url_decode_char:
  assumes "cc \<noteq> 37"
  shows "url_decode (url_encode_char cc @ rest) = cc # url_decode rest"
proof (cases "cc < 128")
  case True
  show ?thesis
  proof (cases "cc = 32")
    case c: True
    have "hex_char 50 = int 2" "hex_char 48 = int 0" by (simp_all add: hex_char_def)
    from url_decode_escape [OF this, of rest] show ?thesis using c True by (simp add: url_encode_char_def)
  qed (use True assms in \<open>simp add: url_encode_char_def\<close>)
next
  case False
  have u: "unat (cc div 16) = unat cc div 16" "unat (cc mod 16) = unat cc mod 16"
    by (simp_all add: unat_div unat_mod)
  have b: "unat cc div 16 < 16" "unat cc mod 16 < 16" using unat_u8_lt [of cc] by (auto simp del: unat_u8_lt)
  have "of_nat (unat cc div 16 * 16 + unat cc mod 16) = cc" by simp
  then show ?thesis
    using url_decode_escape [OF hex_digits_value hex_digits_value, OF b b, of rest] False
    by (simp add: url_encode_char_def u)
qed

lemma length_url_decode: "length (url_decode buf) \<le> length buf"
proof (induction buf rule: url_decode.induct)
  case (2 ch buf)
  have "length (url_decode (drop 2 buf)) \<le> length buf"
    if "ch = 37 \<and> length buf \<ge> 2" "\<not> hex_char (buf ! 0) < 0" "\<not> hex_char (buf ! 1) < 0"
    using "2.IH"(3) [OF that(1) refl that(2) refl that(3)] by simp
  then show ?case using "2.IH" by (auto simp: Let_def)
qed simp

text \<open>
  A string without a percent sign survives escaping and unescaping, the encoder
  appends to what its output already holds, and the decoder never produces more bytes than it reads,
  so that it stays inside the buffer it resized to the length of its input.
\<close>

lemma url_roundtrip:
  assumes "37 \<notin> set src"
  shows "url_decode (url_encode src []) = src \<and> url_encode src dst = dst @ url_encode src [] \<and>
    length (url_decode buf) \<le> length buf"
proof -
  have "url_decode (concat (map url_encode_char src)) = src"
    using assms
  proof (induction src)
    case (Cons cc src)
    then show ?case using url_decode_char [of cc "concat (map url_encode_char src)"] by simp
  qed simp
  then show ?thesis by (simp add: url_encode_def length_url_decode)
qed

lemma url_roundtrip_witness: "url_decode (url_encode [104, 32, 200] []) = [104, 32, 200]"
  using url_roundtrip [of "[104, 32, 200]" "[]" "[]"] by (simp del: url_decode.simps)

text \<open>
  A percent sign is not escaped, so a string that contains an escape sequence is
  changed by the round trip.
\<close>

lemma url_percent_lost: "url_encode [37, 52, 49] [] = [37, 52, 49] \<and> url_decode (url_encode [37, 52, 49] []) = [65]"
  by code_simp

subsection \<open>String builder\<close>

text \<open>
  The template parameter \<open>init_size\<close> is the length of the inline buffer. A negative length says
  that the contents have moved to the string.
\<close>

record StringBuilder =
  m_buff :: "u8 list"
  m_str :: "u8 list"
  m_len :: int

abbreviation init_size :: "StringBuilder \<Rightarrow> nat" where
  "init_size b \<equiv> length (m_buff b)"

definition StringBuilder_init :: "u8 list \<Rightarrow> StringBuilder" where
  "StringBuilder_init buff = \<lparr>m_buff = buff, m_str = [], m_len = 0\<rparr>"

definition sb_append :: "StringBuilder \<Rightarrow> u8 list \<Rightarrow> StringBuilder" where
  "sb_append b data =
     (let new_len = m_len b + int (length data) in
      if m_len b \<ge> 0 then
        if new_len \<le> int (init_size b) then
          b\<lparr>m_buff := take (nat (m_len b)) (m_buff b) @ data @ drop (nat new_len) (m_buff b), m_len := new_len\<rparr>
        else b\<lparr>m_len := -1, m_str := m_str b @ m_buff b @ data\<rparr>
      else b\<lparr>m_str := m_str b @ data\<rparr>)"

definition sb_append_ch :: "StringBuilder \<Rightarrow> u8 \<Rightarrow> StringBuilder" where
  "sb_append_ch b ch =
     (if m_len b \<ge> 0 then
        if nat (m_len b) < init_size b then b\<lparr>m_buff := (m_buff b)[nat (m_len b) := ch], m_len := m_len b + 1\<rparr>
        else b\<lparr>m_len := -1, m_str := m_str b @ m_buff b @ [ch]\<rparr>
      else b\<lparr>m_str := m_str b @ [ch]\<rparr>)"

text \<open>The digits of an unsigned int, stored from the end of a 20-byte array.\<close>

function sb_digits :: "nat \<Rightarrow> u8 list \<Rightarrow> u8 list" where
  "sb_digits n p =
     (let p = of_nat (48 + n mod 10) # p; n = n div 10 in if n > 0 then sb_digits n p else p)"
  by pat_completeness auto
termination by (relation "measure fst") auto

declare sb_digits.simps [simp del]

definition sb_append_uint :: "StringBuilder \<Rightarrow> u32 \<Rightarrow> StringBuilder" where
  "sb_append_uint b n = sb_append b (sb_digits (unat n) [])"

definition sb_data :: "StringBuilder \<Rightarrow> u8 list" where
  "sb_data b = (if m_len b \<ge> 0 then m_buff b else m_str b)"

definition sb_size :: "StringBuilder \<Rightarrow> nat" where
  "sb_size b = (if m_len b \<ge> 0 then nat (m_len b) else length (m_str b))"

text \<open>The text the builder holds, and the invariant.\<close>

definition sb_text :: "StringBuilder \<Rightarrow> u8 list" where
  "sb_text b = take (sb_size b) (sb_data b)"

definition sb_ok :: "StringBuilder \<Rightarrow> bool" where
  "sb_ok b \<longleftrightarrow> m_len b \<le> int (init_size b) \<and> (m_len b \<ge> 0 \<longrightarrow> m_str b = [])"

lemma take_update: "i < length xs \<Longrightarrow> take (Suc i) (xs[i := v]) = take i xs @ [v]"
  by (simp add: take_Suc_conv_app_nth)

text \<open>The number written by the digits.\<close>

fun dec_value :: "nat \<Rightarrow> u8 list \<Rightarrow> nat" where
  "dec_value acc [] = acc"
| "dec_value acc (d # ds) = dec_value (10 * acc + (unat d - 48)) ds"

lemma dec_value_digits: "dec_value 0 (sb_digits n p) = dec_value n p"
proof (induction n p rule: sb_digits.induct)
  case (1 n p)
  have d: "dec_value (n div 10) (of_nat (48 + n mod 10) # p) = dec_value n p"
  proof -
    have "unat (of_nat (48 + n mod 10) :: u8) = 48 + n mod 10"
      by (simp only: unat_of_nat) (simp add: mod_less less_trans [of _ "58"])
    then show ?thesis by simp
  qed
  show ?case
  proof (cases "n div 10 = 0")
    case True
    then show ?thesis using d by (subst sb_digits.simps) (simp only: Let_def, simp)
  next
    case False
    then show ?thesis using 1 [OF refl refl] d by (subst sb_digits.simps) (simp only: Let_def, simp)
  qed
qed

text \<open>
  The builder keeps its invariant, \<open>append_ch\<close> always adds its character to the
  text, and \<open>append\<close> adds its data whenever it stays inline, has already moved to the string, or the
  inline buffer is exactly full; the digits it appends for an unsigned number denote that number.
\<close>

lemma string_builder_appends:
  assumes "sb_ok b"
  shows "sb_ok (sb_append b data) \<and> sb_ok (sb_append_ch b ch) \<and>
    sb_text (sb_append_ch b ch) = sb_text b @ [ch] \<and>
    (m_len b < 0 \<or> m_len b = int (init_size b) \<or> m_len b + int (length data) \<le> int (init_size b) \<longrightarrow>
       sb_text (sb_append b data) = sb_text b @ data) \<and>
    dec_value 0 (sb_digits n []) = n"
proof (intro conjI impI)
  show "sb_ok (sb_append b data)" "sb_ok (sb_append_ch b ch)"
    using assms by (auto simp: sb_ok_def sb_append_def sb_append_ch_def Let_def nat_le_iff)
  show "sb_text (sb_append_ch b ch) = sb_text b @ [ch]"
    using assms by (auto simp: sb_ok_def sb_append_ch_def sb_text_def sb_data_def sb_size_def nat_add_distrib take_update)
  show "sb_text (sb_append b data) = sb_text b @ data"
    if "m_len b < 0 \<or> m_len b = int (init_size b) \<or> m_len b + int (length data) \<le> int (init_size b)"
    using assms that by (auto simp: sb_ok_def sb_append_def sb_text_def sb_data_def sb_size_def Let_def nat_add_distrib)
  show "dec_value 0 (sb_digits n []) = n" by (simp add: dec_value_digits)
qed

lemma string_builder_appends_witness:
  "sb_text (sb_append_ch (StringBuilder_init [0, 0]) 65) = [65]"
proof -
  have "sb_ok (StringBuilder_init [0, 0])" by (simp add: sb_ok_def StringBuilder_init_def)
  from string_builder_appends [OF this] show ?thesis by (simp add: sb_text_def sb_size_def StringBuilder_init_def)
qed

text \<open>
  When \<open>append\<close> overflows an inline buffer that is not full, it copies the whole buffer
  and not only the text in it: the result has the unused bytes of the buffer between the old text and
  the new data.
\<close>

lemma string_builder_spill_garbage:
  assumes "0 \<le> m_len b" "m_len b < int (init_size b)" "m_len b + int (length data) > int (init_size b)" "m_str b = []"
  shows "sb_text (sb_append b data) = sb_text b @ drop (nat (m_len b)) (m_buff b) @ data \<and>
    drop (nat (m_len b)) (m_buff b) \<noteq> []"
  using assms by (auto simp: sb_append_def sb_text_def sb_data_def sb_size_def Let_def)

lemma string_builder_spill_garbage_witness:
  "sb_text (sb_append (sb_append_ch (StringBuilder_init [7, 7]) 65) [66, 67]) = [65, 7, 66, 67]"
proof -
  let ?b = "sb_append_ch (StringBuilder_init [7, 7]) 65"
  have "0 \<le> m_len ?b" "m_len ?b < int (init_size ?b)" "m_len ?b + int (length [66, 67 :: u8]) > int (init_size ?b)"
    "m_str ?b = []" by (simp_all add: sb_append_ch_def StringBuilder_init_def)
  from string_builder_spill_garbage [OF this] show ?thesis
    by (simp add: sb_append_ch_def StringBuilder_init_def sb_text_def sb_size_def sb_data_def)
qed

subsection \<open>Reference strings\<close>

text \<open>A reference string points into a memory it does not own.\<close>

record ref_str_t =
  rs_len :: u32
  rs_data :: nat

definition ref_str :: "nat \<Rightarrow> u64 \<Rightarrow> ref_str_t" where
  "ref_str src n = \<lparr>rs_len = ucast n, rs_data = src\<rparr>"

definition init_ref_str_range :: "nat \<Rightarrow> nat \<Rightarrow> ref_str_t" where
  "init_ref_str_range start end' = \<lparr>rs_len = of_int (int end' - int start), rs_data = start\<rparr>"

definition ref_str_to_cstr :: "memory \<Rightarrow> ref_str_t \<Rightarrow> memory \<times> u8" where
  "ref_str_to_cstr m s = (m(rs_data s + unat (rs_len s) := 0), m (rs_data s + unat (rs_len s)))"

definition ref_str_restore :: "memory \<Rightarrow> ref_str_t \<Rightarrow> u8 \<Rightarrow> memory" where
  "ref_str_restore m s hold = m(rs_data s + unat (rs_len s) := hold)"

definition ref_str_as_string :: "memory \<Rightarrow> ref_str_t \<Rightarrow> u8 list" where
  "ref_str_as_string m s = map (\<lambda>i. m (rs_data s + i)) [0..<unat (rs_len s)]"

text \<open>\<open>memcmp\<close> of two ranges is zero when all their bytes agree.\<close>

definition memcmp_zero :: "memory \<Rightarrow> nat \<Rightarrow> nat \<Rightarrow> nat \<Rightarrow> bool" where
  "memcmp_zero m a b n \<longleftrightarrow> list_all (\<lambda>i. m (a + i) = m (b + i)) [0..<n]"

definition ref_str_equal :: "memory \<Rightarrow> ref_str_t \<Rightarrow> ref_str_t \<Rightarrow> bool" where
  "ref_str_equal m l r \<longleftrightarrow> rs_len l = rs_len r \<and> memcmp_zero m (rs_data l) (rs_data r) (unat (rs_len l))"

lemma ref_str_equal_iff: "ref_str_equal m l r \<longleftrightarrow> ref_str_as_string m l = ref_str_as_string m r"
proof -
  have "length (ref_str_as_string m l) = unat (rs_len l)" "length (ref_str_as_string m r) = unat (rs_len r)"
    by (simp_all add: ref_str_as_string_def)
  then have "ref_str_as_string m l = ref_str_as_string m r \<Longrightarrow> rs_len l = rs_len r"
    by (metis word_unat_eq_iff)
  then show ?thesis
    unfolding ref_str_equal_def memcmp_zero_def
    by (auto simp: ref_str_as_string_def list_all_iff)
qed

text \<open>
  Two reference strings are equal for \<open>conet::equal\<close>, which \<open>StrMap\<close> uses, exactly
  when they denote the same string, wherever they point; terminating one in place and restoring the
  byte leaves the memory as it was.
\<close>

lemma ref_str_equal_string:
  "(ref_str_equal m l r \<longleftrightarrow> ref_str_as_string m l = ref_str_as_string m r) \<and>
   ref_str_restore (fst (ref_str_to_cstr m s)) s (snd (ref_str_to_cstr m s)) = m"
  by (simp add: ref_str_equal_iff ref_str_to_cstr_def ref_str_restore_def)

end
