(* ===== verification/HashTable.thy ===== *)
theory HashTable
  imports HList CList Text
begin

text \<open>
  The intrusive hash table \<open>HashTableBase\<close> of \<open>base/hash_table_base.h\<close> with its two instances,
  \<open>IntMap\<close> (int_map.h) and \<open>StrMap\<close> (str_map.h). A node is an address with a key, a hash chain link and
  a link in the list of all nodes. The statics \<open>hash_code\<close> and \<open>equal\<close> of the instance are arguments;
  what the table needs of them is the locale \<open>key_hash\<close>.
\<close>

subsection \<open>The table\<close>

record 'v htab =
  ht_h :: hheap
  ht_l :: lheap
  ht_value :: "addr \<Rightarrow> 'v"
  m_bucket :: addr
  m_bsize :: u64
  m_num :: u64
  m_list :: addr

text \<open>The constructor, on the heaps it finds; \<open>init\<close> allocates the buckets at the address \<open>base\<close>.\<close>

definition HashTableBase :: "hheap \<Rightarrow> lheap \<Rightarrow> (addr \<Rightarrow> 'v) \<Rightarrow> addr \<Rightarrow> 'v htab" where
  "HashTableBase h l vals lst =
     \<lparr>ht_h = h, ht_l = INIT_LIST_HEAD lst l, ht_value = vals, m_bucket = NULL, m_bsize = 0, m_num = 0,
      m_list = lst\<rparr>"

fun init_buckets :: "addr \<Rightarrow> nat \<Rightarrow> hheap \<Rightarrow> hheap" where
  "init_buckets p 0 h = h"
| "init_buckets p (Suc n) h = init_buckets (p + 1) n (INIT_HLIST_HEAD p h)"

definition ht_init :: "addr \<Rightarrow> int \<Rightarrow> 'v htab \<Rightarrow> 'v htab" where
  "ht_init base sz t =
     (let bsize = of_int sz in
      t\<lparr>m_bucket := base, m_bsize := bsize, ht_h := init_buckets base (unat bsize) (ht_h t)\<rparr>)"

definition node_init :: "addr \<Rightarrow> 'v \<Rightarrow> 'v htab \<Rightarrow> 'v htab" where
  "node_init n v t =
     t\<lparr>ht_value := (ht_value t)(n := v), ht_h := INIT_HLIST_NODE n (ht_h t), ht_l := INIT_LIST_HEAD n (ht_l t)\<rparr>"

definition ht_size :: "'v htab \<Rightarrow> u64" where
  "ht_size t = m_num t"

text \<open>The bucket of a key; a table without buckets divides by zero, \<open>None\<close>.\<close>

definition bucket_of :: "('v \<Rightarrow> u64) \<Rightarrow> 'v htab \<Rightarrow> 'v \<Rightarrow> addr option" where
  "bucket_of hash t v = (if m_bsize t = 0 then None else Some (m_bucket t + unat (hash v mod m_bsize t)))"

definition ht_add :: "('v \<Rightarrow> u64) \<Rightarrow> addr \<Rightarrow> 'v htab \<Rightarrow> (int \<times> 'v htab) option" where
  "ht_add hash node t =
     (case bucket_of hash t (ht_value t node) of
        None \<Rightarrow> None
      | Some head \<Rightarrow>
          Some (0, t\<lparr>ht_h := hlist_add_head node head (ht_h t), ht_l := list_add node (m_list t) (ht_l t),
                     m_num := m_num t + 1\<rparr>))"

definition ht_remove :: "addr \<Rightarrow> 'v htab \<Rightarrow> (int \<times> 'v htab) option" where
  "ht_remove node t =
     (case hlist_del_init node (ht_h t) of
        None \<Rightarrow> None
      | Some h \<Rightarrow> Some (0, t\<lparr>ht_h := h, ht_l := list_del_init node (ht_l t), m_num := m_num t - 1\<rparr>))"

definition ht_find ::
  "nat \<Rightarrow> ('v \<Rightarrow> u64) \<Rightarrow> ('v \<Rightarrow> 'v \<Rightarrow> bool) \<Rightarrow> 'v \<Rightarrow> 'v htab \<Rightarrow> addr option" where
  "ht_find k hash eq value t =
     (case bucket_of hash t value of
        None \<Rightarrow> None
      | Some head \<Rightarrow> hlist_search k (\<lambda>node. eq (ht_value t node) value) (hfirst (ht_h t) head) (ht_h t))"

text \<open>
  \<open>foreach\<close> calls \<open>proc\<close> on every node with a removal-safe loop; the callback may change the table. The
  result is the count and the table. The destructor runs the same loop when a function is set.
\<close>

definition ht_foreach :: "nat \<Rightarrow> (addr \<Rightarrow> 'v htab \<Rightarrow> 'v htab) \<Rightarrow> 'v htab \<Rightarrow> (int \<times> 'v htab) option" where
  "ht_foreach k proc t =
     list_for_each_entry_safe k (ht_l \<circ> snd) (\<lambda>item (cnt, t). (cnt + 1, proc item t)) (m_list t) (0, t)"

definition ht_fini :: "nat \<Rightarrow> (addr \<Rightarrow> 'v htab \<Rightarrow> 'v htab) option \<Rightarrow> 'v htab \<Rightarrow> 'v htab option" where
  "ht_fini k destructor t =
     (case destructor of None \<Rightarrow> Some t | Some f \<Rightarrow> map_option snd (ht_foreach k f t))"

subsection \<open>Invariant\<close>

text \<open>
  The nodes of the table, the most recent first, are the list of all nodes; every chain holds the nodes of
  its bucket in the same order.
\<close>

definition in_bucket :: "('v \<Rightarrow> u64) \<Rightarrow> 'v htab \<Rightarrow> nat \<Rightarrow> addr \<Rightarrow> bool" where
  "in_bucket hash t i n \<longleftrightarrow> unat (hash (ht_value t n) mod m_bsize t) = i"

definition ht_ok :: "('v \<Rightarrow> u64) \<Rightarrow> 'v htab \<Rightarrow> addr list \<Rightarrow> bool" where
  "ht_ok hash t ns \<longleftrightarrow>
     0 < m_bsize t \<and> is_list (ht_l t) (m_list t) ns \<and> NULL \<notin> set ns \<and>
     (\<forall>i<unat (m_bsize t). is_hlist (ht_h t) (m_bucket t + i) (filter (in_bucket hash t i) ns)) \<and>
     m_num t = of_nat (length ns)"

lemma ht_okD:
  assumes "ht_ok hash t ns"
  shows "0 < m_bsize t" "is_list (ht_l t) (m_list t) ns" "NULL \<notin> set ns" "distinct ns" "m_list t \<notin> set ns"
    "i < unat (m_bsize t) \<Longrightarrow> is_hlist (ht_h t) (m_bucket t + i) (filter (in_bucket hash t i) ns)"
    "m_num t = of_nat (length ns)"
  using assms by (auto simp: ht_ok_def is_list_def)

lemma bucket_bound: "0 < b \<Longrightarrow> unat (h mod b) < unat (b :: u64)"
  by (simp add: unat_mod word_less_nat_alt)

lemma bucket_of_ok:
  assumes "ht_ok hash t ns"
  shows "bucket_of hash t v = Some (m_bucket t + unat (hash v mod m_bsize t))"
    and "unat (hash v mod m_bsize t) < unat (m_bsize t)"
  using ht_okD(1) [OF assms] by (auto simp: bucket_of_def bucket_bound)

lemma init_buckets_first:
  "hfirst (init_buckets p n h) q = (if p \<le> q \<and> q < p + n then NULL else hfirst h q)"
  by (induction n arbitrary: p h) (auto simp: INIT_HLIST_HEAD_def)

lemma ht_init_ok:
  assumes "0 < sz" "sz < 2 ^ 31"
  shows "ht_ok hash (ht_init base sz (HashTableBase h l vals lst)) []"
proof -
  have u: "unat (of_int sz :: u64) = nat sz"
  proof -
    have "uint (of_int sz :: u64) = sz mod 2 ^ 64" by (simp only: unsigned_of_int take_bit_eq_mod) simp
    also have "\<dots> = sz" using assms by (intro mod_pos_pos_trivial) simp_all
    finally show ?thesis by (simp only: unat_eq_nat_uint)
  qed
  have "(of_int sz :: u64) \<noteq> 0" using u assms(1) by auto
  then have "0 < (of_int sz :: u64)" by (simp add: word_gt_0)
  then show ?thesis
    using assms u by (simp add: ht_ok_def ht_init_def HashTableBase_def Let_def is_hlist_def init_buckets_first
        INIT_LIST_HEAD_is_list)
qed

lemma ht_add_ok:
  assumes "ht_ok hash t ns" "n \<noteq> NULL" "n \<notin> set ns" "n \<noteq> m_list t"
  obtains t' where "ht_add hash n t = Some (0, t')" "ht_ok hash t' (n # ns)" "ht_value t' = ht_value t"
proof -
  let ?j = "unat (hash (ht_value t n) mod m_bsize t)"
  let ?t = "t\<lparr>ht_h := hlist_add_head n (m_bucket t + ?j) (ht_h t), ht_l := list_add n (m_list t) (ht_l t),
              m_num := m_num t + 1\<rparr>"
  note b = bucket_of_ok [OF assms(1)] and D = ht_okD [OF assms(1)]
  have e: "ht_add hash n t = Some (0, ?t)" by (simp add: ht_add_def b)
  have inb: "in_bucket hash ?t i = in_bucket hash t i" for i by (simp add: in_bucket_def fun_eq_iff)
  have "is_hlist (ht_h ?t) (m_bucket t + i) (filter (in_bucket hash t i) (n # ns))" if "i < unat (m_bsize t)" for i
  proof (cases "i = ?j")
    case True
    then show ?thesis
      using hlist_add_head_is_hlist [OF D(6) [OF that] assms(2), of] assms(3) by (simp add: in_bucket_def)
  next
    case False
    have "set (filter (in_bucket hash t ?j) ns) \<inter> set (filter (in_bucket hash t i) ns) = {}"
      using False by (auto simp: in_bucket_def)
    then show ?thesis
      using hlist_add_head_frame [OF D(6) [OF b(2)] D(6) [OF that]] False assms(3)
      by (simp add: in_bucket_def)
  qed
  moreover have "is_list (ht_l ?t) (m_list t) (n # ns)"
    using list_add_is_list [OF D(2)] assms(3,4) by simp
  ultimately have "ht_ok hash ?t (n # ns)"
    using D assms(2) unfolding ht_ok_def inb by simp
  then show ?thesis using that [OF e] by simp
qed

lemma ht_remove_ok:
  assumes "ht_ok hash t ns" "n \<in> set ns"
  obtains t' where "ht_remove n t = Some (0, t')" "ht_ok hash t' (remove1 n ns)" "ht_value t' = ht_value t"
proof -
  let ?j = "unat (hash (ht_value t n) mod m_bsize t)"
  note b = bucket_of_ok [OF assms(1)] and D = ht_okD [OF assms(1)]
  obtain xs ys where ns: "ns = xs @ n # ys" using assms(2) by (meson split_list)
  have d: "n \<notin> set xs" "n \<notin> set ys" using D(4) ns by auto
  have fj: "filter (in_bucket hash t ?j) ns = filter (in_bucket hash t ?j) xs @ n # filter (in_bucket hash t ?j) ys"
    by (simp add: ns in_bucket_def)
  obtain h' where h': "hlist_del_init n (ht_h t) = Some h'"
      "is_hlist h' (m_bucket t + ?j) (filter (in_bucket hash t ?j) xs @ filter (in_bucket hash t ?j) ys)"
      "\<And>q zs. is_hlist (ht_h t) q zs \<Longrightarrow> m_bucket t + ?j \<noteq> q \<Longrightarrow>
         set (filter (in_bucket hash t ?j) ns) \<inter> set zs = {} \<Longrightarrow> is_hlist h' q zs"
    using hlist_del_init_linked [OF D(6) [OF b(2), of "ht_value t n", unfolded fj]] fj by metis
  let ?t = "t\<lparr>ht_h := h', ht_l := list_del_init n (ht_l t), m_num := m_num t - 1\<rparr>"
  have e: "ht_remove n t = Some (0, ?t)" by (simp add: ht_remove_def h'(1))
  have inb: "in_bucket hash ?t i = in_bucket hash t i" for i by (simp add: in_bucket_def fun_eq_iff)
  have "is_hlist h' (m_bucket t + i) (filter (in_bucket hash t i) (xs @ ys))" if "i < unat (m_bsize t)" for i
  proof (cases "i = ?j")
    case False
    then have f: "filter (in_bucket hash t i) (xs @ ys) = filter (in_bucket hash t i) ns"
      by (simp add: ns in_bucket_def)
    show ?thesis unfolding f by (rule h'(3) [OF D(6) [OF that]]) (use False in \<open>auto simp: in_bucket_def\<close>)
  qed (use h'(2) in simp)
  moreover have "is_list (ht_l ?t) (m_list t) (xs @ ys)"
    using list_del_init_is_list [of "ht_l t" "m_list t" xs n ys] D(2) ns by simp
  moreover have "m_num ?t = of_nat (length (xs @ ys))" using D(7) by (simp add: ns)
  ultimately have "ht_ok hash ?t (xs @ ys)"
    using D(1,3) ns unfolding ht_ok_def inb by simp
  then show ?thesis using that [OF e] d by (simp add: ns)
qed

lemma find_filter: "(\<And>x. P x \<Longrightarrow> Q x) \<Longrightarrow> List.find P (filter Q xs) = List.find P xs"
  by (induction xs) auto

text \<open>\<open>foreach\<close> with a callback that leaves the links alone visits every node once, in list order.\<close>

lemma ht_foreach_ok:
  assumes "ht_ok hash t ns" "length ns < k" "\<And>n u. ht_l (f n u) = ht_l u"
  shows "ht_foreach k f t = Some (int (length ns), fold f ns t)"
proof -
  let ?I = "\<lambda>xs (c, u). \<exists>ys. ns = ys @ xs \<and> c = int (length ys) \<and> u = fold f ys t \<and> ht_l u = ht_l t"
  have "\<exists>s'. list_for_each_entry_safe k (ht_l \<circ> snd) (\<lambda>item (cnt, t). (cnt + 1, f item t)) (m_list t) (0, t) = Some s' \<and> ?I [] s'"
  proof (rule list_for_each_entry_safe_rule)
    show "?I xs ((\<lambda>(cnt, t). (cnt + 1, f x t)) s)" if "?I (x # xs) s" for x xs s
      using that assms(3) by (auto intro: exI [of _ "_ @ [x]"])
    show "chain (nxt ((ht_l \<circ> snd) s)) xs (m_list t)" if "?I xs s" for xs s
      using that is_list_chain ht_okD(2) [OF assms(1)] by (cases s) fastforce
    show "is_list ((ht_l \<circ> snd) (0 :: int, t)) (m_list t) ns" using ht_okD(2) [OF assms(1)] by simp
  qed (use assms(2) in auto)
  then show ?thesis by (auto simp: ht_foreach_def)
qed

subsection \<open>What an instance provides\<close>

locale key_hash =
  fixes hash :: "'v \<Rightarrow> u64" and eq :: "'v \<Rightarrow> 'v \<Rightarrow> bool"
  assumes eq_hash: "eq x y \<Longrightarrow> hash x = hash y"
begin

definition abs_find :: "('v htab) \<Rightarrow> addr list \<Rightarrow> 'v \<Rightarrow> addr" where
  "abs_find t ns v = (case List.find (\<lambda>n. eq (ht_value t n) v) ns of None \<Rightarrow> NULL | Some n \<Rightarrow> n)"

lemma find_ok:
  assumes "ht_ok hash t ns" "length ns < k"
  shows "ht_find k hash eq v t = Some (abs_find t ns v)"
proof -
  let ?j = "unat (hash v mod m_bsize t)"
  let ?P = "\<lambda>n. eq (ht_value t n) v"
  note b = bucket_of_ok [OF assms(1)]
  have "length (filter (in_bucket hash t ?j) ns) < k" using assms(2) length_filter_le le_less_trans by blast
  from hlist_search_is_hlist [OF ht_okD(6) [OF assms(1) b(2)] this, of ?P]
  have "ht_find k hash eq v t =
      Some (case List.find ?P (filter (in_bucket hash t ?j) ns) of None \<Rightarrow> NULL | Some x \<Rightarrow> x)"
    by (simp add: ht_find_def b(1))
  also have "List.find ?P (filter (in_bucket hash t ?j) ns) = List.find ?P ns"
    by (rule find_filter) (simp add: in_bucket_def eq_hash)
  finally show ?thesis by (simp add: abs_find_def)
qed

lemma find_add:
  assumes "ht_ok hash t ns" "n \<noteq> NULL" "n \<notin> set ns" "n \<noteq> m_list t" "Suc (length ns) < k"
    and "ht_add hash n t = Some (r, t')"
  shows "r = 0 \<and> ht_ok hash t' (n # ns) \<and>
    ht_find k hash eq v t' = (if eq (ht_value t n) v then Some n else ht_find k hash eq v t)"
proof -
  obtain t1 where t1: "ht_add hash n t = Some (0, t1)" "ht_ok hash t1 (n # ns)" "ht_value t1 = ht_value t"
    using ht_add_ok [OF assms(1-4)] by blast
  then show ?thesis
    using assms(6) find_ok [OF t1(2), of k v] find_ok [OF assms(1), of k v] assms(5) by (simp add: abs_find_def)
qed

lemma find_remove:
  assumes "ht_ok hash t ns" "n \<in> set ns" "length ns < k" "ht_remove n t = Some (r, t')"
  shows "r = 0 \<and> ht_ok hash t' (remove1 n ns) \<and> ht_find k hash eq v t' = Some (abs_find t (remove1 n ns) v)"
proof -
  obtain t1 where t1: "ht_remove n t = Some (0, t1)" "ht_ok hash t1 (remove1 n ns)" "ht_value t1 = ht_value t"
    using ht_remove_ok [OF assms(1,2)] by blast
  then show ?thesis
    using assms(2,3,4) find_ok [OF t1(2), of k v] by (simp add: abs_find_def length_remove1 less_imp_diff_less)
qed

end

text \<open>The two instances of the source.\<close>

definition StrMap_hash_code :: "memory \<Rightarrow> ref_str_t \<Rightarrow> u64" where
  "StrMap_hash_code m key = MurmurHash64A m (rs_data key) (unat (rs_len key)) 0"


interpretation str_map: key_hash "StrMap_hash_code m" "ref_str_equal m" for m
proof unfold_locales
  fix x y assume eq: "ref_str_equal m x y"
  then have "same_key (unat (rs_len x)) m (rs_data x) m (rs_data y)" "rs_len x = rs_len y"
    by (auto simp: ref_str_equal_def memcmp_zero_def same_key_def list_all_iff)
  then show "StrMap_hash_code m x = StrMap_hash_code m y"
    unfolding StrMap_hash_code_def using murmur_same_key(4) by metis
qed

subsection \<open>Properties\<close>




text \<open>
  A \<open>StrMap\<close> finds its nodes by the contents of the strings: the most recent node whose
  key denotes the same string, wherever the two strings are stored.
\<close>

lemma str_map_find:
  assumes "ht_ok (StrMap_hash_code m) t ns" and "length ns < k"
  shows "ht_find k (StrMap_hash_code m) (ref_str_equal m) key t =
    Some (case List.find (\<lambda>n. ref_str_as_string m (ht_value t n) = ref_str_as_string m key) ns of
            None \<Rightarrow> NULL | Some n \<Rightarrow> n)"
  using str_map.find_ok [OF assms] by (simp add: str_map.abs_find_def ref_str_equal_iff)

definition ex_mem :: memory where
  "ex_mem a = of_nat (a mod 4)"

definition ex_strs :: "ref_str_t htab" where
  "ex_strs = ht_init 100 8
     (HashTableBase \<lparr>hfirst = (\<lambda>_. 7), hnext = (\<lambda>_. 7), hpprev = (\<lambda>_. None)\<rparr> \<lparr>nxt = (\<lambda>_. 0), prv = (\<lambda>_. 0)\<rparr>
        (\<lambda>n. \<lparr>rs_len = 2, rs_data = 0\<rparr>) 50)"

lemma str_map_find_witness:
  "\<exists>t'. ht_add (StrMap_hash_code ex_mem) 1 ex_strs = Some (0, t') \<and>
     ht_find 2 (StrMap_hash_code ex_mem) (ref_str_equal ex_mem) \<lparr>rs_len = 2, rs_data = 4\<rparr> t' = Some 1"
proof -
  have ok: "ht_ok (StrMap_hash_code ex_mem) ex_strs []" unfolding ex_strs_def by (rule ht_init_ok) simp_all
  have e: "m_list ex_strs = 50" "ht_value ex_strs 1 = \<lparr>rs_len = 2, rs_data = 0\<rparr>"
    by (simp_all add: ex_strs_def ht_init_def HashTableBase_def Let_def)
  obtain t' where t': "ht_add (StrMap_hash_code ex_mem) 1 ex_strs = Some (0, t')"
      "ht_ok (StrMap_hash_code ex_mem) t' [1]" "ht_value t' = ht_value ex_strs"
    using ht_add_ok [OF ok, of 1] e(1) by auto
  have "ref_str_as_string ex_mem \<lparr>rs_len = 2, rs_data = 0\<rparr> = ref_str_as_string ex_mem \<lparr>rs_len = 2, rs_data = 4\<rparr>"
    by code_simp
  then show ?thesis using str_map_find [OF t'(2), of 2 "\<lparr>rs_len = 2, rs_data = 4\<rparr>"] t'(1,3) e(2) by simp
qed

end
