(* ===== verification/FdQueue.thy ===== *)
theory FdQueue
  imports Prelude
begin

text \<open>
  The shared ring of file descriptors of \<open>base/fd_queue.h\<close> and \<open>base/src/fd_queue.cpp\<close>: 64-bit positions in an
  array with 100 entries more than the queue may hold. The loops of \<open>push_fd\<close> and \<open>pop_fd\<close> are split at their
  compare-and-swap, so that the operations of other threads can come between the two parts. The array is the list of the
  entries inside the memory that \<open>create\<close> maps; \<open>None\<close> is an access outside of it, or fuel that runs out.
\<close>

subsection \<open>State and operations\<close>

type_synonym fd = "32 word"

record FdQueue =
  alloc_size :: u64
  max_num :: u64
  fd_num :: u64
  read_pos :: u64
  write_pos :: u64
  fds :: "u64 list"

text \<open>
  \<open>create\<close>; the header has five 64-bit fields, and the size passes through an \<open>int\<close>. \<open>mapped\<close> tells whether \<open>mmap\<close> succeeds
  when the size, converted back to \<open>size_t\<close>, is not 0 and not huge. Its result is not tested: without a mapping the first store
  faults, and with one that is too small \<open>memset\<close> writes past its end.
\<close>

definition fdq_create :: "bool \<Rightarrow> u64 \<Rightarrow> FdQueue option" where
  "fdq_create mapped max_n =
     (let max_n = max_n + 100;
          size = (ucast (40 + max_n * 8) :: 32 word);
          entries = nat (sint size - 40) div 8
      in if \<not> mapped \<or> sint size < 40 then None
         else if unat (max_n * 8) > 8 * entries then None
         else Some \<lparr>alloc_size = scast size, max_num = max_n, fd_num = 0, read_pos = 0, write_pos = 0, fds = replicate entries 0\<rparr>)"

definition fdq_empty :: "FdQueue \<Rightarrow> bool" where
  "fdq_empty q \<longleftrightarrow> read_pos q = write_pos q"

definition fdq_full :: "FdQueue \<Rightarrow> bool" where
  "fdq_full q \<longleftrightarrow> (max_num q + write_pos q - read_pos q) mod max_num q \<ge> max_num q - 100"

text \<open>The body of the loop of \<open>push_fd\<close> up to its compare-and-swap, and the compare-and-swap.\<close>

definition push_store :: "fd \<Rightarrow> FdQueue \<Rightarrow> ((u64 \<times> u64) \<times> FdQueue) option" where
  "push_store fd q =
     (let wpos = write_pos q;
          wpos_new = (wpos + 1) mod max_num q
      in map_option (\<lambda>a. ((wpos, wpos_new), q\<lparr>fds := a\<rparr>)) (wr (fds q) (unat wpos) (scast fd)))"

definition push_cas :: "u64 \<times> u64 \<Rightarrow> FdQueue \<Rightarrow> bool \<times> FdQueue" where
  "push_cas w q = (if write_pos q = fst w then (True, q\<lparr>write_pos := snd w\<rparr>) else (False, q))"

fun push_loop :: "nat \<Rightarrow> fd \<Rightarrow> FdQueue \<Rightarrow> (bool \<times> FdQueue) option" where
  "push_loop 0 fd q = None"
| "push_loop (Suc k) fd q =
     (case push_store fd q of
        None \<Rightarrow> None
      | Some (w, q) \<Rightarrow> let (ok, q) = push_cas w q in if ok then Some (True, q) else push_loop k fd q)"

definition push_fd :: "nat \<Rightarrow> fd \<Rightarrow> FdQueue \<Rightarrow> (bool \<times> FdQueue) option" where
  "push_fd k fd q =
     (if sint fd < 0 then Some (False, q) else if fdq_full q then Some (False, q) else push_loop k fd q)"

text \<open>The body of the loop of \<open>pop_fd\<close> up to its compare-and-swap, \<open>Some None\<close> when the queue is empty.\<close>

definition pop_load :: "FdQueue \<Rightarrow> (u64 \<times> u64 \<times> u64) option option" where
  "pop_load q =
     (let rpos = read_pos q; wpos = write_pos q
      in if rpos = wpos then Some None
         else map_option (\<lambda>fd. Some (rpos, fd, (rpos + 1) mod max_num q)) (rd (fds q) (unat rpos)))"

definition pop_cas :: "u64 \<times> u64 \<times> u64 \<Rightarrow> FdQueue \<Rightarrow> fd option \<times> FdQueue" where
  "pop_cas l q =
     (let (rpos, fd, rpos_new) = l
      in if read_pos q = rpos then (Some (ucast fd), q\<lparr>read_pos := rpos_new\<rparr>) else (None, q))"

fun pop_fd :: "nat \<Rightarrow> FdQueue \<Rightarrow> (fd \<times> FdQueue) option" where
  "pop_fd 0 q = None"
| "pop_fd (Suc k) q =
     (case pop_load q of
        None \<Rightarrow> None
      | Some None \<Rightarrow> Some (-1, q)
      | Some (Some l) \<Rightarrow> (case pop_cas l q of (Some fd, q) \<Rightarrow> Some (fd, q) | (None, q) \<Rightarrow> pop_fd k q))"

subsection \<open>The ring as a queue\<close>

definition fdq_ok :: "FdQueue \<Rightarrow> fd list \<Rightarrow> bool" where
  "fdq_ok q xs \<longleftrightarrow>
     100 < unat (max_num q) \<and> 2 * unat (max_num q) < 2 ^ 64 \<and> unat (read_pos q) < unat (max_num q) \<and>
     length xs \<le> unat (max_num q) - 100 \<and>
     unat (write_pos q) = (unat (read_pos q) + length xs) mod unat (max_num q) \<and> length (fds q) = unat (max_num q) \<and>
     (\<forall>i<length xs. fds q ! ((unat (read_pos q) + i) mod unat (max_num q)) = scast (xs ! i))"

lemma fdq_okD:
  assumes "fdq_ok q xs"
  shows "100 < unat (max_num q)" "2 * unat (max_num q) < 2 ^ 64" "unat (read_pos q) < unat (max_num q)"
    "length xs \<le> unat (max_num q) - 100" "length xs < unat (max_num q)"
    "unat (write_pos q) = (unat (read_pos q) + length xs) mod unat (max_num q)" "unat (write_pos q) < unat (max_num q)"
    "i < length xs \<Longrightarrow> fds q ! ((unat (read_pos q) + i) mod unat (max_num q)) = scast (xs ! i)"
    "length (fds q) = unat (max_num q)"
  using assms by (auto simp: fdq_ok_def)

lemma fd_stored: "(ucast (scast (x :: fd) :: u64) :: fd) = x"
  by (rule bit_word_eqI) (auto simp: bit_ucast_iff bit_signed_iff)

lemma next_pos:
  fixes p n :: u64
  assumes "unat p < unat n" "2 * unat n < 2 ^ 64"
  shows "unat ((p + 1) mod n) = Suc (unat p) mod unat n"
proof -
  have "unat (p + 1) = Suc (unat p)"
    using assms by (simp add: unat_word_ariths)
  then show ?thesis by (simp add: unat_mod)
qed

lemma ring_distance: "r < n \<Longrightarrow> l < n \<Longrightarrow> (n + (r + l) mod n - r) mod n = (l::nat)"
  by (cases "r + l < n") (auto simp: mod_if)

lemma used_entries:
  assumes "fdq_ok q xs"
  shows "unat ((max_num q + write_pos q - read_pos q) mod max_num q) = length xs"
proof -
  note D = fdq_okD [OF assms]
  have "unat (max_num q + write_pos q - read_pos q) = unat (max_num q) + unat (write_pos q) - unat (read_pos q)"
  proof -
    have a: "unat (max_num q + write_pos q) = unat (max_num q) + unat (write_pos q)"
      using D(2,7) by (simp add: unat_word_ariths)
    then have "read_pos q \<le> max_num q + write_pos q" using D(3) by (simp add: word_le_nat_alt)
    then show ?thesis using a by (simp add: unat_sub)
  qed
  then show ?thesis using D(6) ring_distance [OF D(3,5)] by (simp add: unat_mod)
qed

lemma fdq_full_iff: "fdq_ok q xs \<Longrightarrow> fdq_full q \<longleftrightarrow> length xs = unat (max_num q) - 100"
proof -
  assume I: "fdq_ok q xs"
  note D = fdq_okD [OF I]
  have "unat (max_num q - 100) = unat (max_num q) - 100" using D(1) by (subst unat_sub) (simp_all add: word_le_nat_alt)
  then show ?thesis using D(4) used_entries [OF I] by (auto simp: fdq_full_def word_le_nat_alt)
qed

lemma fdq_empty_iff: "fdq_ok q xs \<Longrightarrow> fdq_empty q \<longleftrightarrow> xs = []"
proof -
  assume I: "fdq_ok q xs"
  note D = fdq_okD [OF I]
  have "unat (write_pos q) = unat (read_pos q) \<longleftrightarrow> length xs = 0"
    using D(3,5,6) by (cases "unat (read_pos q) + length xs < unat (max_num q)") (auto simp: mod_if)
  then show ?thesis unfolding fdq_empty_def by (metis length_0_conv word_unat_eq_iff)
qed

lemma fdq_create_ok:
  assumes "0 < n" "40 + 8 * (unat n + 100) < 2 ^ 31"
  obtains q where "fdq_create True n = Some q" "fdq_ok q []" "unat (max_num q) = unat n + 100"
proof -
  have m: "unat (n + 100) = unat n + 100" "unat ((n + 100) * 8) = 8 * (unat n + 100)"
    "unat (40 + (n + 100) * 8) = 40 + 8 * (unat n + 100)"
    using assms(2) by (simp_all add: unat_word_ariths)
  then have "unat (ucast (40 + (n + 100) * 8) :: 32 word) = 40 + 8 * (unat n + 100)"
    using assms(2) by (simp add: unsigned_ucast_eq take_bit_nat_eq_self_iff)
  then have z: "sint (ucast (40 + (n + 100) * 8) :: 32 word) = int (40 + 8 * (unat n + 100))"
    using assms(2) by (intro trans [OF sint_u32]) simp_all
  have e: "nat (sint (ucast (40 + (n + 100) * 8) :: 32 word) - 40) div 8 = unat n + 100"
    unfolding z by (simp add: nat_add_distrib nat_mult_distrib del: of_nat_unat)
  have p: "\<not> sint (ucast (40 + (n + 100) * 8) :: 32 word) < 40" unfolding z by linarith
  have "fdq_create True n = Some \<lparr>alloc_size = scast (ucast (40 + (n + 100) * 8) :: 32 word), max_num = n + 100, fd_num = 0,
      read_pos = 0, write_pos = 0, fds = replicate (unat n + 100) 0\<rparr>"
    unfolding fdq_create_def Let_def e m(2) using p by (simp only: if_False not_True_eq_False simp_thms less_irrefl)
  moreover have "0 < unat n" using assms(1) by (simp add: word_less_nat_alt)
  ultimately show ?thesis using that assms(2) m(1) by (simp add: fdq_ok_def)
qed

text \<open>From there on the size does not fit the \<open>int\<close>, and \<open>create\<close> does not return.\<close>

lemma fdq_create_faults:
  assumes "2 ^ 31 \<le> 40 + 8 * (unat n + 100)" "unat n + 100 < 2 ^ 61"
  shows "fdq_create mapped n = None"
proof -
  let ?s = "sint (ucast (40 + (n + 100) * 8) :: 32 word)"
  have m: "unat ((n + 100) * 8) = 8 * (unat n + 100)" using assms(2) by (simp add: unat_word_ariths)
  have less: "nat (z - 40) < N" if "z < 2147483648" "2147483648 \<le> 40 + N" for z :: int and N :: nat using that by linarith
  have "nat (?s - 40) < 8 * (unat n + 100)"
    using assms(1) sint_lt [of "ucast (40 + (n + 100) * 8) :: 32 word"] by (intro less) simp_all
  then have "8 * (nat (?s - 40) div 8) < 8 * (unat n + 100)" by (meson le_less_trans times_div_less_eq_dividend)
  then show ?thesis unfolding fdq_create_def Let_def m by simp
qed

lemma push_ok:
  assumes I: "fdq_ok q xs" and fd: "0 \<le> sint fd" "length xs < unat (max_num q) - 100"
  obtains q' where "push_fd (Suc k) fd q = Some (True, q')" "fdq_ok q' (xs @ [fd])" "max_num q' = max_num q"
    "read_pos q' = read_pos q"
proof -
  note D = fdq_okD [OF I]
  let ?n = "unat (max_num q)" and ?r = "unat (read_pos q)" and ?w = "unat (write_pos q)"
  let ?q = "q\<lparr>fds := (fds q)[?w := scast fd], write_pos := (write_pos q + 1) mod max_num q\<rparr>"
  have nf: "\<not> fdq_full q" using fdq_full_iff [OF I] fd(2) by simp
  have e: "push_fd (Suc k) fd q = Some (True, ?q)"
    using fd(1) nf D(7,9) by (simp add: push_fd_def push_store_def push_cas_def wr_def Let_def)
  have w: "unat ((write_pos q + 1) mod max_num q) = (?r + Suc (length xs)) mod ?n"
    using next_pos [OF D(7,2)] D(6) by (simp add: mod_Suc_eq)
  have other: "(?r + i) mod ?n \<noteq> ?w" if "i < length xs" for i
  proof
    assume "(?r + i) mod ?n = ?w"
    then have "(?r + i) mod ?n = (?r + length xs) mod ?n" using D(6) by simp
    then have "(?n + (?r + i) mod ?n - ?r) mod ?n = (?n + (?r + length xs) mod ?n - ?r) mod ?n" by simp
    then show False using ring_distance [OF D(3), of i] ring_distance [OF D(3,5)] that D(5) by simp
  qed
  have old: "(fds q)[?w := scast fd] ! ((?r + i) mod ?n) = scast (xs ! i)" if "i < length xs" for i
    unfolding nth_list_update_neq [OF other [OF that, symmetric]] by (rule D(8) [OF that])
  have new: "(fds q)[?w := scast fd] ! ((?r + length xs) mod ?n) = scast fd"
    using D(6,7,9) by (metis nth_list_update_eq)
  have "fdq_ok ?q (xs @ [fd])"
    unfolding fdq_ok_def using D(1-3,9) w fd(2) old new by (auto simp: nth_append less_Suc_eq)
  then show ?thesis using that e by simp
qed

lemma pop_ok:
  assumes I: "fdq_ok q (x # xs)"
  obtains q' where "pop_fd (Suc k) q = Some (x, q')" "fdq_ok q' xs" "max_num q' = max_num q"
    "unat (read_pos q') = Suc (unat (read_pos q)) mod unat (max_num q)" "write_pos q' = write_pos q" "fds q' = fds q"
    "pop_load q = Some (Some (read_pos q, scast x, read_pos q'))"
proof -
  note D = fdq_okD [OF I]
  let ?q = "q\<lparr>read_pos := (read_pos q + 1) mod max_num q\<rparr>"
  have x: "rd (fds q) (unat (read_pos q)) = Some (scast x)" using D(8) [of 0] D(3,9) by (simp add: rd_eq)
  have ne: "read_pos q \<noteq> write_pos q" using fdq_empty_iff [OF I] by (simp add: fdq_empty_def)
  have l: "pop_load q = Some (Some (read_pos q, scast x, read_pos ?q))" using ne x by (simp add: pop_load_def Let_def)
  have r: "unat (read_pos ?q) = Suc (unat (read_pos q)) mod unat (max_num q)" using next_pos [OF D(3,2)] by simp
  have "fds q ! ((Suc (unat (read_pos q)) mod unat (max_num q) + i) mod unat (max_num q)) = scast (xs ! i)"
    if "i < length xs" for i
    using D(8) [of "Suc i"] that by (simp add: mod_add_left_eq)
  moreover have "unat (write_pos q) = (Suc (unat (read_pos q)) mod unat (max_num q) + length xs) mod unat (max_num q)"
    using D(6) by (simp add: mod_add_left_eq)
  ultimately have "fdq_ok ?q xs"
    unfolding fdq_ok_def using D(1,2,4,9) r by auto
  moreover have "pop_fd (Suc k) q = Some (x, ?q)"
    using l by (simp add: pop_cas_def fd_stored)
  ultimately show ?thesis using that l r by simp
qed

text \<open>
  C33 (refinement): used by one thread, the ring is a bounded first-in first-out queue. \<open>create\<close> for \<open>n\<close> descriptors, when its
  \<open>40 + 8 (n + 100)\<close> bytes fit an \<open>int\<close> (\<open>n\<close> below about \<open>2^28\<close>) and \<open>mmap\<close> succeeds, gives a queue that holds up to \<open>n\<close> of them; for
  larger \<open>n\<close>, up to \<open>2^61\<close>, the size is truncated and \<open>create\<close> writes outside the mapping. On a working queue a push fails
  exactly for a negative descriptor or a full queue and otherwise appends, a pop returns the oldest descriptor, or -1 when there
  is none, and no access is outside the mapped array.
\<close>

theorem fd_queue_fifo:
  "(0 < n \<and> 40 + 8 * (unat n + 100) < 2 ^ 31 \<longrightarrow>
      (\<exists>q. fdq_create True n = Some q \<and> fdq_ok q [] \<and> unat (max_num q) - 100 = unat n)) \<and>
   (2 ^ 31 \<le> 40 + 8 * (unat n + 100) \<and> unat n + 100 < 2 ^ 61 \<longrightarrow> fdq_create mapped n = None) \<and>
   (fdq_ok q xs \<longrightarrow>
      (if sint fd < 0 \<or> length xs = unat (max_num q) - 100 then push_fd (Suc k) fd q = Some (False, q)
       else \<exists>q'. push_fd (Suc k) fd q = Some (True, q') \<and> fdq_ok q' (xs @ [fd]) \<and> max_num q' = max_num q) \<and>
      (case xs of [] \<Rightarrow> pop_fd (Suc k) q = Some (-1, q)
       | x # ys \<Rightarrow> \<exists>q'. pop_fd (Suc k) q = Some (x, q') \<and> fdq_ok q' ys \<and> max_num q' = max_num q))"
proof (intro conjI impI)
  assume I: "fdq_ok q xs"
  show "if sint fd < 0 \<or> length xs = unat (max_num q) - 100 then push_fd (Suc k) fd q = Some (False, q)
       else \<exists>q'. push_fd (Suc k) fd q = Some (True, q') \<and> fdq_ok q' (xs @ [fd]) \<and> max_num q' = max_num q"
  proof (cases "sint fd < 0 \<or> length xs = unat (max_num q) - 100")
    case True
    then show ?thesis using fdq_full_iff [OF I] by (auto simp: push_fd_def)
  next
    case False
    then have "0 \<le> sint fd" "length xs < unat (max_num q) - 100" using fdq_okD(4) [OF I] by auto
    then obtain q' where "push_fd (Suc k) fd q = Some (True, q')" "fdq_ok q' (xs @ [fd])" "max_num q' = max_num q"
      by (rule push_ok [OF I])
    then show ?thesis using False by auto
  qed
  show "case xs of [] \<Rightarrow> pop_fd (Suc k) q = Some (-1, q)
       | x # ys \<Rightarrow> \<exists>q'. pop_fd (Suc k) q = Some (x, q') \<and> fdq_ok q' ys \<and> max_num q' = max_num q"
  proof (cases xs)
    case Nil
    then show ?thesis using fdq_empty_iff [OF I] by (simp add: pop_load_def fdq_empty_def)
  next
    case (Cons x ys)
    obtain q' where "pop_fd (Suc k) q = Some (x, q')" "fdq_ok q' ys" "max_num q' = max_num q"
      using I unfolding Cons by (rule pop_ok)
    then show ?thesis using Cons by auto
  qed
next
  assume "0 < n \<and> 40 + 8 * (unat n + 100) < 2 ^ 31"
  then show "\<exists>q. fdq_create True n = Some q \<and> fdq_ok q [] \<and> unat (max_num q) - 100 = unat n"
    using fdq_create_ok [of n] by (metis diff_add_inverse2)
qed (use fdq_create_faults in blast)

theorem fd_queue_fifo_witness:
  "\<exists>q0 q q'. fdq_create True 4 = Some q0 \<and> push_fd 1 7 q0 = Some (True, q) \<and> pop_fd 1 q = Some (7, q') \<and>
     fdq_create True (2 ^ 28) = None"
proof -
  have "0 < (4 :: u64) \<and> 40 + 8 * (unat (4 :: u64) + 100) < 2 ^ 31" by simp
  then obtain q0 where c: "fdq_create True 4 = Some q0" "fdq_ok q0 []" "unat (max_num q0) - 100 = unat (4 :: u64)"
    using fd_queue_fifo [THEN conjunct1, of 4] by blast
  obtain q where q: "push_fd 1 7 q0 = Some (True, q)" "fdq_ok q [7]"
    using fd_queue_fifo [THEN conjunct2, THEN conjunct2, of q0 "[]" 7 0] c by auto
  then obtain q' where "pop_fd 1 q = Some (7, q')"
    using fd_queue_fifo [THEN conjunct2, THEN conjunct2, of q "[7]" 7 0] by auto
  moreover have "fdq_create True (2 ^ 28) = None"
    using fd_queue_fifo [THEN conjunct2, THEN conjunct1, of "2 ^ 28" True] by simp
  ultimately show ?thesis using c(1) q(1) by blast
qed

subsection \<open>One writer and two readers\<close>

text \<open>Rounds of a complete push by the writer and a complete pop by a reader.\<close>

definition round :: "fd \<Rightarrow> FdQueue \<Rightarrow> FdQueue" where
  "round fd q = snd (the (pop_fd 1 (snd (the (push_fd 1 fd q)))))"

lemma round_ok:
  assumes I: "fdq_ok q []" and fd: "0 \<le> sint fd"
  shows "fdq_ok (round fd q) []" "max_num (round fd q) = max_num q"
    "unat (read_pos (round fd q)) = Suc (unat (read_pos q)) mod unat (max_num q)"
proof -
  have c: "length ([] :: fd list) < unat (max_num q) - 100" using fdq_okD(1) [OF I] by simp
  obtain q1 where q1: "push_fd (Suc 0) fd q = Some (True, q1)" "fdq_ok q1 ([] @ [fd])" "max_num q1 = max_num q"
    "read_pos q1 = read_pos q" by (rule push_ok [OF I fd c])
  have "fdq_ok q1 (fd # [])" using q1(2) by simp
  then obtain q2 where q2: "pop_fd (Suc 0) q1 = Some (fd, q2)" "fdq_ok q2 []" "max_num q2 = max_num q1"
    "unat (read_pos q2) = Suc (unat (read_pos q1)) mod unat (max_num q1)" by (rule pop_ok)
  have "round fd q = q2" using q1(1) q2(1) by (simp add: round_def)
  then show "fdq_ok (round fd q) []" "max_num (round fd q) = max_num q"
    "unat (read_pos (round fd q)) = Suc (unat (read_pos q)) mod unat (max_num q)"
    using q1 q2 by simp_all
qed

lemma rounds_ok:
  assumes "fdq_ok q []" "\<forall>f\<in>set fs. 0 \<le> sint f"
  shows "fdq_ok (fold round fs q) [] \<and> max_num (fold round fs q) = max_num q \<and>
    unat (read_pos (fold round fs q)) = (unat (read_pos q) + length fs) mod unat (max_num q)"
  using assms
proof (induction fs arbitrary: q)
  case (Cons f fs)
  note r = round_ok [OF Cons.prems(1), of f]
  show ?case using Cons.IH [OF r(1)] Cons.prems(2) r(2,3) by (simp add: mod_add_left_eq)
qed (use fdq_okD(3) [OF assms(1)] in \<open>simp add: fdq_okD(3)\<close>)

text \<open>
  C34 (error): one writer and several readers are not safe, against the comment of the header. A reader loads the
  head of the queue and stops before its compare-and-swap; another reader takes that descriptor, and while the
  writer and that reader go once around the ring the read position comes back to its old value. The
  compare-and-swap of the first reader then succeeds: it returns a descriptor that was already handed out, and
  the one the writer pushed last is lost.
\<close>

theorem fd_queue_reader_aba:
  assumes "fdq_ok q [x]" and "length fs = unat (max_num q) - 1" and "\<forall>f\<in>set (y # fs). 0 \<le> sint f"
  shows "\<exists>l q1 q2 q3. pop_load q = Some (Some l) \<and> pop_fd 1 q = Some (x, q1) \<and>
    push_fd 1 y (fold round fs q1) = Some (True, q2) \<and> pop_cas l q2 = (Some x, q3) \<and> pop_fd 1 q3 = Some (-1, q3)"
proof -
  note D = fdq_okD [OF assms(1)]
  obtain q1 where q1: "pop_fd (Suc 0) q = Some (x, q1)" "fdq_ok q1 []" "max_num q1 = max_num q"
    "unat (read_pos q1) = Suc (unat (read_pos q)) mod unat (max_num q)"
    "pop_load q = Some (Some (read_pos q, scast x, read_pos q1))" using assms(1) by (rule pop_ok)
  let ?r = "fold round fs q1"
  have r: "fdq_ok ?r []" "max_num ?r = max_num q"
    "unat (read_pos ?r) = (unat (read_pos q1) + length fs) mod unat (max_num q)"
    using rounds_ok [OF q1(2), of fs] assms(3) q1(3) by auto
  have "unat (read_pos ?r) = (Suc (unat (read_pos q)) + (unat (max_num q) - 1)) mod unat (max_num q)"
    using r(3) q1(4) assms(2) by (simp add: mod_add_left_eq)
  then have ret: "read_pos ?r = read_pos q" using D(1,3) by (simp add: word_unat_eq_iff)
  have c: "length ([] :: fd list) < unat (max_num ?r) - 100" using D(1) r(2) by simp
  have y: "0 \<le> sint y" using assms(3) by simp
  obtain q2 where q2: "push_fd (Suc 0) y ?r = Some (True, q2)" "fdq_ok q2 ([] @ [y])" "max_num q2 = max_num ?r"
    "read_pos q2 = read_pos ?r" by (rule push_ok [OF r(1) y c])
  define q3 where "q3 = q2\<lparr>read_pos := read_pos q1\<rparr>"
  have cas: "pop_cas (read_pos q, scast x, read_pos q1) q2 = (Some x, q3)"
    using q2(4) ret by (simp add: pop_cas_def fd_stored q3_def)
  have "unat (write_pos q2) = Suc (unat (read_pos q)) mod unat (max_num q)"
    using fdq_okD(6) [OF q2(2)] q2(3,4) r(2) ret by simp
  then have "write_pos q3 = read_pos q3" using q1(4) by (simp add: q3_def word_unat_eq_iff)
  then have "pop_fd 1 q3 = Some (-1, q3)" by (simp add: pop_load_def)
  then show ?thesis using q1(1,5) q2(1) cas by auto
qed

theorem fd_queue_reader_aba_witness:
  "\<exists>q0 q l q1 q2 q3. fdq_create True 1 = Some q0 \<and> push_fd 1 5 q0 = Some (True, q) \<and> pop_load q = Some (Some l) \<and>
     pop_fd 1 q = Some (5, q1) \<and> push_fd 1 9 (fold round (replicate 100 7) q1) = Some (True, q2) \<and> pop_cas l q2 = (Some 5, q3)"
proof -
  have one: "(0 :: u64) < 1" "40 + 8 * (unat (1 :: u64) + 100) < 2 ^ 31" by simp_all
  obtain q0 where c: "fdq_create True 1 = Some q0" "fdq_ok q0 []" "unat (max_num q0) = unat (1 :: u64) + 100"
    by (rule fdq_create_ok [OF one])
  have n: "0 \<le> sint (5 :: fd)" "length ([] :: fd list) < unat (max_num q0) - 100" using c(3) by simp_all
  obtain q where q: "push_fd (Suc 0) 5 q0 = Some (True, q)" "fdq_ok q ([] @ [5])" "max_num q = max_num q0"
    by (rule push_ok [OF c(2) n])
  have "length (replicate 100 (7 :: fd)) = unat (max_num q) - 1" using q(3) c(3) by (simp del: replicate.simps)
  then show ?thesis using fd_queue_reader_aba [of q 5 "replicate 100 7" 9] q c(1) by auto
qed

end
