(* ===== verification/Rand.thy ===== *)
theory Rand
  imports Hash
begin

text \<open>
  The pseudo random generator \<open>Rand\<close> of \<open>base/random.h\<close>: a 128-bit xorshift generator. The load
  balancer draws from its global instance.
\<close>

record Rand =
  rx :: u32
  ry :: u32
  rz :: u32
  rw :: u32

definition mix_state :: "Rand \<Rightarrow> Rand" where
  "mix_state r =
     (let t = rx r XOR push_bit 11 (rx r)
      in \<lparr>rx = ry r, ry = rz r, rz = rw r, rw = rw r XOR drop_bit 19 (rw r) XOR t XOR drop_bit 8 t\<rparr>)"

definition reseed32 :: "u32 \<Rightarrow> Rand" where
  "reseed32 seed = (mix_state ^^ 10) \<lparr>rx = 0x498b3bc5 XOR seed, ry = 0, rz = 0, rw = 0\<rparr>"

definition reseed64 :: "u64 \<Rightarrow> Rand" where
  "reseed64 seed = (mix_state ^^ 10)
     \<lparr>rx = 0x498b3bc5 XOR ucast (drop_bit 0 seed), ry = 0x5a05089a XOR ucast (drop_bit 32 seed), rz = 0, rw = 0\<rparr>"

definition rand_u32 :: "Rand \<Rightarrow> u32 \<times> Rand" where
  "rand_u32 r = (let r = mix_state r in (rx r, r))"

definition rand_u64 :: "Rand \<Rightarrow> u64 \<times> Rand" where
  "rand_u64 r = (let r = mix_state r; a = ucast (rx r); b = ucast (ry r) in (push_bit 32 a OR b, r))"

text \<open>
  \<open>rand_p\<close> fills \<open>bytes\<close> bytes: words while at least four are left, then single bytes. The
  result lists the bytes written, each word in little-endian order.
\<close>

definition word_bytes :: "u32 \<Rightarrow> u8 list" where
  "word_bytes w = [ucast w, ucast (drop_bit 8 w), ucast (drop_bit 16 w), ucast (drop_bit 24 w)]"

fun rand_tail :: "nat \<Rightarrow> Rand \<Rightarrow> u8 list \<times> Rand" where
  "rand_tail 0 r = ([], r)"
| "rand_tail (Suc n) r = (let (v, r) = rand_u32 r; (bs, r) = rand_tail n r in (ucast v # bs, r))"

fun rand_p :: "nat \<Rightarrow> Rand \<Rightarrow> u8 list \<times> Rand" where
  "rand_p bytes r =
     (if bytes \<ge> 4
      then let (v, r) = rand_u32 r; (bs, r) = rand_p (bytes - 4) r in (word_bytes v @ bs, r)
      else rand_tail bytes r)"

declare rand_p.simps [simp del]

subsection \<open>The state never collapses\<close>

abbreviation zero_state :: Rand where
  "zero_state \<equiv> \<lparr>rx = 0, ry = 0, rz = 0, rw = 0\<rparr>"

lemma xorshiftlD:
  fixes x :: "'a::len word"
  assumes eq: "x XOR push_bit k x = 0" and k: "0 < k"
  shows "x = 0"
proof -
  have e: "x = push_bit k x" using eq by (metis xor.assoc xor_self_eq xor.left_neutral xor.right_neutral)
  have "push_bit (n * k) x = x" for n
    by (induction n) (simp_all, metis e push_bit_push_bit add.commute)
  from this [of "LENGTH('a)"] have "push_bit (LENGTH('a) * k) x = x" .
  moreover have "LENGTH('a) \<le> LENGTH('a) * k" using k by simp
  ultimately show ?thesis
    by (metis push_bit_eq_mult exp_eq_zero_iff mult_zero_right)
qed

lemma mix_state_zero: "mix_state r = zero_state \<longleftrightarrow> r = zero_state"
proof
  assume z: "mix_state r = zero_state"
  then have yzw: "ry r = 0" "rz r = 0" "rw r = 0" by (auto simp: mix_state_def Let_def)
  define t where "t = rx r XOR push_bit 11 (rx r)"
  have "t XOR drop_bit 8 t = 0 XOR drop_bit 8 0" using z yzw by (simp add: mix_state_def Let_def t_def)
  then have "t = 0" by (rule xorshiftD) simp
  then have "rx r = 0" unfolding t_def by (rule xorshiftlD) simp
  with yzw show "r = zero_state" by (cases r) simp
qed (simp add: mix_state_def)

lemma mix_states_zero: "(mix_state ^^ n) r = zero_state \<longleftrightarrow> r = zero_state"
  by (induction n) (simp_all add: mix_state_zero)

lemma length_rand_tail [simp]: "length (fst (rand_tail n r)) = n"
  by (induction n arbitrary: r) (simp_all add: split_beta Let_def)

lemma length_rand_p: "length (fst (rand_p n r)) = n"
proof (induction n r rule: rand_p.induct)
  case (1 n r)
  show ?case
  proof (cases "4 \<le> n")
    case True
    show ?thesis using 1 [OF True refl, of "fst (rand_u32 r)" "snd (rand_u32 r)"] True
      by (subst rand_p.simps) (simp add: split_beta Let_def word_bytes_def del: rand_p.simps)
  qed (simp add: rand_p.simps)
qed

text \<open>
  The generator is stuck at zero exactly when it is seeded with the constant that
  its seeding cancels: any number of draws from another seed leaves a state that is not zero, while
  the seed \<open>0x498b3bc5\<close> gives a generator that returns 0 for ever. \<open>rand_p\<close> writes exactly the
  requested number of bytes.
\<close>

lemma rand_stuck_iff:
  "((mix_state ^^ n) (reseed32 seed) = zero_state \<longleftrightarrow> seed = 0x498b3bc5) \<and>
   ((mix_state ^^ n) (reseed64 seed') = zero_state \<longleftrightarrow> seed' = 0x5a05089a498b3bc5) \<and>
   fst (rand_u32 ((mix_state ^^ n) (reseed32 0x498b3bc5))) = 0 \<and>
   length (fst (rand_p bytes r)) = bytes"
proof (intro conjI)
  have x: "(a::u32) XOR b = 0 \<longleftrightarrow> b = a" for a b by (metis xor.assoc xor_self_eq xor.left_neutral xor.right_neutral)
  show s: "(mix_state ^^ n) (reseed32 seed) = zero_state \<longleftrightarrow> seed = 0x498b3bc5" for n seed
    by (simp add: reseed32_def mix_states_zero x)
  show "fst (rand_u32 ((mix_state ^^ n) (reseed32 0x498b3bc5))) = 0"
    using s [of n "0x498b3bc5"] by (simp add: rand_u32_def Let_def mix_state_def)
  have "(ucast seed' = (0x498b3bc5::u32) \<and> ucast (drop_bit 32 seed') = (0x5a05089a::u32)) \<longleftrightarrow>
      seed' = 0x5a05089a498b3bc5"
  proof
    assume a: "ucast seed' = (0x498b3bc5::u32) \<and> ucast (drop_bit 32 seed') = (0x5a05089a::u32)"
    have "seed' = push_bit 32 (ucast (ucast (drop_bit 32 seed') :: u32)) OR ucast (ucast seed' :: u32)"
      by (rule bit_word_eqI) (auto simp: bit_simps)
    then show "seed' = 0x5a05089a498b3bc5" using a by simp
  qed simp
  then show "(mix_state ^^ n) (reseed64 seed') = zero_state \<longleftrightarrow> seed' = 0x5a05089a498b3bc5"
    by (simp add: reseed64_def mix_states_zero x)
  show "length (fst (rand_p bytes r)) = bytes" by (rule length_rand_p)
qed

end
