(* ===== verification/Numbers.thy ===== *)
theory Numbers
  imports Prelude
begin

text \<open>
  The conversions of \<open>base/string2number.h\<close> for integers and booleans. A string is its list of bytes, without the
  terminating zero. \<open>strtoll\<close> and \<open>strtoull\<close> are the C functions in base 10, with their clamping; \<open>snprintf\<close> with
  a decimal format writes at most one byte less than the size it is given and returns the full length.
\<close>

subsection \<open>The C library functions the conversions use\<close>

definition is_digit :: "u8 \<Rightarrow> bool" where
  "is_digit c \<longleftrightarrow> 48 \<le> c \<and> c \<le> 57"

definition isspace :: "u8 \<Rightarrow> bool" where
  "isspace c \<longleftrightarrow> c = 32 \<or> (9 \<le> c \<and> c \<le> 13)"

definition digits_value :: "u8 list \<Rightarrow> nat" where
  "digits_value cs = fold (\<lambda>c v. 10 * v + unat (c - 48)) (takeWhile is_digit cs) 0"

text \<open>Sign and magnitude after the white space; the text ends at a zero byte.\<close>

definition sign_value :: "u8 list \<Rightarrow> bool \<times> nat" where
  "sign_value src =
     (let cs = dropWhile isspace (takeWhile (\<lambda>c. c \<noteq> 0) src)
      in case cs of [] \<Rightarrow> (False, 0)
         | c # cs' \<Rightarrow> if c = 45 then (True, digits_value cs') else if c = 43 then (False, digits_value cs')
                     else (False, digits_value cs))"

definition strtoll :: "u8 list \<Rightarrow> int" where
  "strtoll src =
     (let (neg, v) = sign_value src; i = (if neg then - int v else int v)
      in max (- (2 ^ 63)) (min (2 ^ 63 - 1) i))"

definition strtoull :: "u8 list \<Rightarrow> u64" where
  "strtoull src =
     (let (neg, v) = sign_value src
      in if v \<ge> 2 ^ 64 then -1 else if neg then - of_nat v else of_nat v)"

fun dec :: "nat \<Rightarrow> u8 list" where
  "dec n = (if n < 10 then [48 + of_nat n] else dec (n div 10) @ [48 + of_nat (n mod 10)])"

declare dec.simps [simp del]

definition decimal :: "int \<Rightarrow> u8 list" where
  "decimal i = (if i < 0 then 45 # dec (nat (- i)) else dec (nat i))"

text \<open>\<open>snprintf(buf, size, ...)\<close> of a text: the new contents of the buffer and the length of the text.\<close>

definition snprintf :: "u8 list \<Rightarrow> u8 list \<Rightarrow> u8 list \<times> nat" where
  "snprintf buf txt' =
     (let w = take (length buf - 1) txt' @ [0]
      in (w @ drop (length w) buf, length txt'))"

definition resize :: "u8 list \<Rightarrow> nat \<Rightarrow> u8 list" where
  "resize s n = take n s @ replicate (n - length s) 0"

subsection \<open>The conversions\<close>

definition string2number :: "u8 list \<Rightarrow> 'a::len word" where
  "string2number src = word_of_int (strtoll src)"

definition string2number_uint64 :: "u8 list \<Rightarrow> u64" where
  "string2number_uint64 src = strtoull src"

text \<open>The sizes passed to \<open>strncmp\<close> include the zero byte, so the whole text is compared; \<open>None\<close> is -1.\<close>

definition string2number_bool :: "u8 list \<Rightarrow> bool option" where
  "string2number_bool src =
     (let s = takeWhile (\<lambda>c. c \<noteq> 0) src
      in if s = [116, 114, 117, 101] then Some True
         else if s = [102, 97, 108, 115, 101] then Some False else None)"

definition number2string :: "u64 \<Rightarrow> u8 list" where
  "number2string i =
     (let out = resize [] 20; (out, len) = snprintf out (decimal (sint i)) in resize out len)"

definition number2string_uint64 :: "u64 \<Rightarrow> u8 list" where
  "number2string_uint64 i =
     (let out = resize [] 20; (out, len) = snprintf out (decimal (uint i)) in resize out len)"

definition number2string_bool :: "bool \<Rightarrow> u8 list" where
  "number2string_bool i = (if i then [116, 114, 117, 101] else [116, 114, 117, 101])"

subsection \<open>Decimal texts\<close>

lemma digit_simps:
  assumes "n < 10"
  shows "is_digit (48 + of_nat n)" "unat (48 + of_nat n - 48 :: u8) = n" "48 + of_nat n \<noteq> (0 :: u8)"
    "48 + of_nat n \<noteq> (45 :: u8)" "48 + of_nat n \<noteq> (43 :: u8)" "\<not> isspace (48 + of_nat n)"
proof -
  have u: "unat (48 + of_nat n :: u8) = 48 + n" using assms by (simp add: unat_word_ariths unat_of_nat)
  then show "is_digit (48 + of_nat n)" using assms by (simp add: is_digit_def word_le_nat_alt)
  show "unat (48 + of_nat n - 48 :: u8) = n" using assms by (simp add: unat_of_nat)
  show "48 + of_nat n \<noteq> (0 :: u8)" "48 + of_nat n \<noteq> (45 :: u8)" "48 + of_nat n \<noteq> (43 :: u8)" "\<not> isspace (48 + of_nat n)"
    using u assms by (auto simp: isspace_def word_unat_eq_iff word_le_nat_alt)
qed

lemma dec_digits: "c \<in> set (dec n) \<Longrightarrow> is_digit c \<and> c \<noteq> 0 \<and> c \<noteq> 45 \<and> c \<noteq> 43 \<and> \<not> isspace c"
proof (induction n rule: dec.induct)
  case (1 n)
  show ?case
  proof (cases "n < 10")
    case True
    then show ?thesis using 1 digit_simps [OF True] by (auto simp: dec.simps [of n])
  next
    case False
    then show ?thesis using 1 digit_simps [of "n mod 10"] by (auto simp: dec.simps [of n])
  qed
qed

lemma dec_nonempty [simp]: "dec n \<noteq> []"
  by (subst dec.simps) simp

lemma digits_value_append:
  assumes "\<forall>c\<in>set cs. is_digit c" "n < 10"
  shows "digits_value (cs @ [48 + of_nat n]) = 10 * digits_value cs + n"
  using assms digit_simps(1,2) [OF assms(2)] by (simp add: digits_value_def takeWhile_eq_all_conv [THEN iffD2])

lemma digits_value_dec: "digits_value (dec n) = n"
proof (induction n rule: dec.induct)
  case (1 n)
  show ?case
  proof (cases "n < 10")
    case True
    then show ?thesis using digits_value_append [of "[]" n] by (simp add: dec.simps [of n] digits_value_def)
  next
    case False
    have "digits_value (dec (n div 10) @ [48 + of_nat (n mod 10)]) = 10 * digits_value (dec (n div 10)) + n mod 10"
      using dec_digits by (intro digits_value_append) auto
    then show ?thesis using 1 False by (simp add: dec.simps [of n])
  qed
qed

lemma dec_butlast: "10 \<le> n \<Longrightarrow> butlast (dec n) = dec (n div 10)"
  by (subst dec.simps) simp


lemma dec_short: "n < 10 ^ k \<Longrightarrow> 0 < k \<Longrightarrow> length (dec n) \<le> k"
proof (induction k arbitrary: n)
  case (Suc k)
  show ?case
  proof (cases "n < 10")
    case False
    then have "n div 10 < 10 ^ k" "0 < k" using Suc.prems by (auto intro: gr0I)
    then have "length (dec (n div 10)) \<le> k" using Suc.IH by simp
    then show ?thesis using False by (simp add: dec.simps [of n])
  qed (simp add: dec.simps [of n])
qed simp

lemma dec_long: "10 ^ k \<le> n \<Longrightarrow> k < length (dec n)"
proof (induction k arbitrary: n)
  case (Suc k)
  then have "\<not> n < 10" "10 ^ k \<le> n div 10" by (auto simp: not_less intro: order_trans [OF _ Suc.prems])
  then show ?case using Suc.IH [of "n div 10"] by (simp add: dec.simps [of n])
qed simp

subsection \<open>Round trips\<close>

definition printed :: "u8 list \<Rightarrow> u8 list" where
  "printed t = (let (out, len) = snprintf (resize [] 20) t in resize out len)"

lemma printed_short: "length t \<le> 19 \<Longrightarrow> printed t = t"
  by (simp add: printed_def snprintf_def resize_def Let_def)

lemma printed_cut: "length t = 20 \<Longrightarrow> printed t = butlast t @ [0]"
  by (simp add: printed_def snprintf_def resize_def Let_def butlast_conv_take)

lemma number2string_printed:
  "number2string i = printed (decimal (sint i))" "number2string_uint64 i = printed (decimal (uint i))"
  by (simp_all add: number2string_def number2string_uint64_def printed_def Let_def)

lemma sign_value_decimal:
  assumes "zs = [] \<or> hd zs = 0"
  shows "sign_value (decimal i @ zs) = (i < 0, nat \<bar>i\<bar>)"
proof -
  have nz: "takeWhile (\<lambda>c. c \<noteq> 0) (decimal i @ zs) = decimal i"
  proof -
    have "\<forall>c\<in>set (decimal i). c \<noteq> 0" using dec_digits by (auto simp: decimal_def)
    then show ?thesis using assms by (cases zs) (auto simp: takeWhile_append2 takeWhile_eq_all_conv [THEN iffD2])
  qed
  show ?thesis
  proof (cases "i < 0")
    case True
    then show ?thesis unfolding sign_value_def nz by (simp add: decimal_def isspace_def digits_value_dec)
  next
    case False
    then obtain c cs where d: "dec (nat i) = c # cs" by (cases "dec (nat i)") auto
    then have "\<not> isspace c" "c \<noteq> 45" "c \<noteq> 43" using dec_digits [of c "nat i"] by auto
    then show ?thesis unfolding sign_value_def nz using False d digits_value_dec [of "nat i"] by (simp add: decimal_def)
  qed
qed

lemma strtoll_decimal:
  assumes "zs = [] \<or> hd zs = 0" "- (2 ^ 63) \<le> i" "i < 2 ^ 63"
  shows "strtoll (decimal i @ zs) = i"
  using assms(2,3) by (simp add: strtoll_def sign_value_decimal [OF assms(1)])

lemma strtoull_decimal:
  assumes "zs = [] \<or> hd zs = 0" "0 \<le> i" "i < 2 ^ 64"
  shows "strtoull (decimal i @ zs) = of_int i"
  using assms(2,3) by (auto simp: strtoull_def sign_value_decimal [OF assms(1)] le_nat_iff)

text \<open>Below \<open>-10^18\<close>, and for unsigned numbers from \<open>10^19\<close> on, the text has 20 bytes and its last digit is lost.\<close>

lemma printed_decimal:
  assumes "- (2 ^ 63) \<le> i" "i < 2 ^ 64"
  shows "printed (decimal i) =
    (if i \<le> - (10 ^ 18) then decimal (- (- i div 10)) @ [0] else if 10 ^ 19 \<le> i then decimal (i div 10) @ [0] else decimal i)"
proof -
  consider (neg) "i \<le> - (10 ^ 18)" | (big) "10 ^ 19 \<le> i" | (short) "- (10 ^ 18) < i" "i < 10 ^ 19" by linarith
  then show ?thesis
  proof cases
    case neg
    let ?n = "nat (- i)"
    have n: "10 ^ 18 \<le> ?n" "?n < 10 ^ 19" using neg assms(1) by (simp_all add: le_nat_iff nat_less_iff)
    have l: "length (decimal i) = 20" using dec_long [OF n(1)] dec_short [OF n(2)] neg by (simp add: decimal_def)
    have "butlast (decimal i) = 45 # dec (?n div 10)" using dec_butlast [of ?n] n(1) neg by (simp add: decimal_def)
    moreover have "nat (- i div 10) = ?n div 10" using neg by (simp add: nat_div_distrib)
    moreover have "0 < - i div 10" using neg by simp
    ultimately show ?thesis using printed_cut [OF l] neg by (simp add: decimal_def)
  next
    case big
    let ?n = "nat i"
    have n: "10 ^ 19 \<le> ?n" "?n < 10 ^ 20" using big assms(2) by (simp_all add: le_nat_iff nat_less_iff)
    have l: "length (decimal i) = 20" using dec_long [OF n(1)] dec_short [OF n(2)] big by (simp add: decimal_def)
    have "butlast (decimal i) = dec (?n div 10)" using dec_butlast [of ?n] n(1) big by (simp add: decimal_def)
    moreover have "nat (i div 10) = ?n div 10" using big by (simp add: nat_div_distrib)
    moreover have "0 \<le> i div 10" using big by simp
    ultimately show ?thesis using printed_cut [OF l] big by (simp add: decimal_def)
  next
    case short
    have "length (decimal i) \<le> 19"
      using dec_short [of "nat (- i)" 18] dec_short [of "nat i" 19] short by (auto simp: decimal_def nat_less_iff)
    then show ?thesis using printed_short short by auto
  qed
qed

text \<open>
  Printing a 64-bit number and reading it back gives the number exactly as long as its text has at
  most 19 bytes. Below \<open>-10^18\<close>, and for unsigned numbers from \<open>10^19\<close> on, the buffer of 20 bytes is one byte too
  short for the terminating zero, the last digit is lost, and the number read back is a tenth of the original.
\<close>

lemma number_roundtrip:
  "string2number (number2string i) = (if sint i \<le> - (10 ^ 18) then word_of_int (- (- sint i div 10)) else i) \<and>
   string2number_uint64 (number2string_uint64 j) = (if 10 ^ 19 \<le> j then j div 10 else j)"
proof
  have b: "- (2 ^ 63) \<le> sint i" "sint i < 2 ^ 63" using sint_ge [of i] sint_lt [of i] by simp_all
  have "strtoll (printed (decimal (sint i))) = (if sint i \<le> - (10 ^ 18) then - (- sint i div 10) else sint i)"
    using b printed_decimal [of "sint i"] strtoll_decimal [of "[0]" "- (- sint i div 10)"] strtoll_decimal [of "[]" "sint i"]
    by auto
  then show "string2number (number2string i) = (if sint i \<le> - (10 ^ 18) then word_of_int (- (- sint i div 10)) else i)"
    by (simp add: number2string_printed string2number_def)
  have c: "0 \<le> uint j" "uint j < 2 ^ 64" using uint_bounded [of j] by simp_all
  have d: "10 ^ 19 \<le> j \<longleftrightarrow> 10 ^ 19 \<le> uint j" by (simp add: word_le_def)
  have "strtoull (printed (decimal (uint j))) = (if 10 ^ 19 \<le> uint j then of_int (uint j div 10) else j)"
  proof -
    have n: "- (2 ^ 63) \<le> uint j" "\<not> uint j \<le> - (10 ^ 18)" 
      by (rule order_trans [OF _ c(1)], simp) (use c(1) in \<open>simp add: not_le less_le_trans [of _ 0]\<close>)
    have "strtoull (decimal (uint j div 10) @ [0]) = of_int (uint j div 10)"
      by (rule strtoull_decimal) (use c in \<open>auto intro: div_int_pos_iff [THEN iffD2]\<close>)
    moreover have "strtoull (decimal (uint j)) = j" using c strtoull_decimal [of "[]" "uint j"] by simp
    ultimately show ?thesis unfolding printed_decimal [OF n(1) c(2)] using n(2) by simp
  qed
  moreover have "of_int (uint j div 10) = j div 10" by (simp add: word_div_def)
  ultimately show "string2number_uint64 (number2string_uint64 j) = (if 10 ^ 19 \<le> j then j div 10 else j)"
    unfolding d by (simp add: number2string_printed string2number_uint64_def)
qed

end
