(* ===== verification/LoadBalance.thy ===== *)
theory LoadBalance
  imports Rand Numbers
begin

text \<open>
  The host lists of \<open>base/ip_list.h\<close> and the client-side load balancer of \<open>svrkit/load_balance.h\<close>: parsing of a
  configuration text, the pool of idle connections, the random choice of a host, and the attempts to connect.
  \<open>connect_to\<close> is the network; its result for the \<open>i\<close>-th attempt is an argument.
\<close>

subsection \<open>Hosts\<close>

record ip_port_t =
  ip :: "u8 list"
  port :: "32 word"

text \<open>\<open>std::string::compare\<close> on bytes.\<close>

fun str_compare :: "u8 list \<Rightarrow> u8 list \<Rightarrow> int" where
  "str_compare [] [] = 0"
| "str_compare [] (b # bs) = -1"
| "str_compare (a # as) [] = 1"
| "str_compare (a # as) (b # bs) = (if a < b then -1 else if b < a then 1 else str_compare as bs)"

definition ip_port_less :: "ip_port_t \<Rightarrow> ip_port_t \<Rightarrow> bool" where
  "ip_port_less l r \<longleftrightarrow>
     (let i = str_compare (ip l) (ip r)
      in if i > 0 then False else if i < 0 then True else sint (port l) < sint (port r))"

definition ip_port_equal :: "ip_port_t \<Rightarrow> ip_port_t \<Rightarrow> bool" where
  "ip_port_equal l r \<longleftrightarrow>
     (let i = str_compare (ip l) (ip r) in if i \<noteq> 0 then False else port l = port r)"

text \<open>\<open>ip_port_hash_t\<close>, with the addresses of the bytes of the string and of the port.\<close>

definition ip_port_hash :: "memory \<Rightarrow> nat \<Rightarrow> nat \<Rightarrow> nat \<Rightarrow> u64" where
  "ip_port_hash m str n prt =
     (let seed = ucast (bob_hash m str n 251); seed2 = ucast (bob_hash m prt 4 251)
      in 3 * seed + 23 * seed2)"

text \<open>The tokens that \<open>strtok\<close> returns with the delimiter \<open>;\<close>, up to the end of the C string.\<close>

fun split_at :: "u8 list \<Rightarrow> u8 list \<Rightarrow> u8 list list" where
  "split_at cur [] = [cur]"
| "split_at cur (c # cs) = (if c = 59 then cur # split_at [] cs else split_at (cur @ [c]) cs)"

definition strtok_all :: "u8 list \<Rightarrow> u8 list list" where
  "strtok_all s = filter (\<lambda>t. t \<noteq> []) (split_at [] (takeWhile (\<lambda>c. c \<noteq> 0) s))"

text \<open>One token: the host up to the first colon, the port after it; a token without a colon is skipped.\<close>

definition parse_host :: "u8 list \<Rightarrow> ip_port_t list" where
  "parse_host p =
     (case dropWhile (\<lambda>c. c \<noteq> 58) p of
        [] \<Rightarrow> []
      | _ # r \<Rightarrow> [\<lparr>ip = takeWhile (\<lambda>c. c \<noteq> 58) p, port = string2number r\<rparr>])"

definition parse_ip_list :: "u8 list \<Rightarrow> ip_port_t list \<Rightarrow> ip_port_t list" where
  "parse_ip_list s hosts = hosts @ concat (map parse_host (strtok_all s))"

subsection \<open>Idle connections\<close>

record FdPool =
  m_fds :: "int list"
  m_calls :: "int list"
  fd_rand :: Rand

definition FdPool_get :: "FdPool \<Rightarrow> int \<times> FdPool" where
  "FdPool_get p = (case m_fds p of [] \<Rightarrow> (-1, p) | fd # fds \<Rightarrow> (fd, p\<lparr>m_fds := fds\<rparr>))"

text \<open>\<open>put\<close>; \<open>None\<close> for a negative descriptor, which indexes in front of the array.\<close>

definition FdPool_put :: "int \<Rightarrow> FdPool \<Rightarrow> FdPool option" where
  "FdPool_put fd p =
     (if fd < 0 then None
      else
        let p = (if int (length (m_calls p)) \<le> fd
                 then p\<lparr>m_calls := take (nat (fd + 1000)) (m_calls p) @ replicate (nat (fd + 1000) - length (m_calls p)) 0\<rparr>
                 else p);
            i = nat fd;
            p = (if m_calls p ! i \<le> 0
                 then let (r, g) = rand_u32 (fd_rand p)
                      in p\<lparr>m_calls := (m_calls p)[i := 10000 + uint (r mod 10000)], fd_rand := g\<rparr>
                 else p);
            p = p\<lparr>m_calls := (m_calls p)[i := m_calls p ! i - 1]\<rparr>
        in Some (p\<lparr>m_fds := m_fds p @ [fd]\<rparr>))"

subsection \<open>The host list and the balancer\<close>

record IpListConf =
  m_hosts :: "ip_port_t list"
  m_pos :: int
  ip_rand :: Rand

definition pick_pos :: "IpListConf \<Rightarrow> IpListConf" where
  "pick_pos c =
     (let (r, g) = rand_u32 (ip_rand c)
      in c\<lparr>m_pos := uint ((ucast r :: u64) mod of_nat (length (m_hosts c))), ip_rand := g\<rparr>)"

definition reload :: "u8 list \<Rightarrow> IpListConf \<Rightarrow> IpListConf" where
  "reload src c =
     (let c = c\<lparr>m_hosts := parse_ip_list src []\<rparr>
      in if length (m_hosts c) > 0 then pick_pos c else c)"

definition IpListConf_add :: "u8 list \<Rightarrow> 32 word \<Rightarrow> IpListConf \<Rightarrow> IpListConf" where
  "IpListConf_add i prt c = c\<lparr>m_hosts := m_hosts c @ [\<lparr>ip = i, port = prt\<rparr>]\<rparr>"

definition IpListConf_remove :: "u8 list \<Rightarrow> 32 word \<Rightarrow> IpListConf \<Rightarrow> IpListConf" where
  "IpListConf_remove i prt c = c\<lparr>m_hosts := filter (\<lambda>h. \<not> ip_port_equal h \<lparr>ip = i, port = prt\<rparr>) (m_hosts c)\<rparr>"

definition get_node :: "IpListConf \<Rightarrow> ip_port_t option \<times> IpListConf" where
  "get_node c =
     (if m_hosts c = [] then (None, c)
      else let c = pick_pos c in (Some (m_hosts c ! nat (m_pos c)), c))"

record IpListLB =
  m_fd_pool :: FdPool
  m_ip_lists :: IpListConf

text \<open>The attempts of \<open>get\<close>; \<open>None\<close> when it uses the host of an empty list, a null pointer.\<close>

fun connect_loop :: "(nat \<Rightarrow> ip_port_t \<Rightarrow> int) \<Rightarrow> nat \<Rightarrow> nat \<Rightarrow> int \<Rightarrow> IpListLB \<Rightarrow>
    (int \<times> ip_port_t list \<times> IpListLB) option" where
  "connect_loop connect_to i 0 fd b = Some (fd, [], b)"
| "connect_loop connect_to i (Suc n) fd b =
     (case get_node (m_ip_lists b) of
        (None, c) \<Rightarrow> None
      | (Some h, c) \<Rightarrow>
          let b = b\<lparr>m_ip_lists := c\<rparr>; fd = connect_to i h
          in if fd \<ge> 0 then Some (fd, [h], b)
             else map_option (\<lambda>(r, hs, b). (r, h # hs, b)) (connect_loop connect_to (Suc i) n fd b))"

text \<open>\<open>get\<close>, with the hosts it tried in order, and \<open>release\<close>, with the descriptor it closes.\<close>

definition lb_get :: "(nat \<Rightarrow> ip_port_t \<Rightarrow> int) \<Rightarrow> IpListLB \<Rightarrow> (int \<times> ip_port_t list \<times> IpListLB) option" where
  "lb_get connect_to b =
     (let (fd, p) = FdPool_get (m_fd_pool b); b = b\<lparr>m_fd_pool := p\<rparr>
      in if fd < 0 then connect_loop connect_to 0 3 fd b else Some (fd, [], b))"

definition lb_release :: "int \<Rightarrow> int \<Rightarrow> IpListLB \<Rightarrow> (int option \<times> IpListLB) option" where
  "lb_release fd status b =
     (if status \<noteq> 0 then Some (Some fd, b)
      else map_option (\<lambda>p. (None, b\<lparr>m_fd_pool := p\<rparr>)) (FdPool_put fd (m_fd_pool b)))"

subsection \<open>Order and equality of hosts\<close>

lemma str_compare_zero: "str_compare a b = 0 \<longleftrightarrow> a = b"
  by (induction a b rule: str_compare.induct) auto

lemma str_compare_sym: "str_compare b a = - str_compare a b"
  by (induction a b rule: str_compare.induct) auto

lemma str_compare_trans: "str_compare a b < 0 \<Longrightarrow> str_compare b c < 0 \<Longrightarrow> str_compare a c < 0"
proof (induction a b arbitrary: c rule: str_compare.induct)
  case (2 b bs)
  then show ?case by (cases c) auto
next
  case (4 a as b bs)
  then show ?case by (cases c) (auto split: if_splits)
qed (auto split: if_splits)

lemma ip_port_equal_iff: "ip_port_equal l r \<longleftrightarrow> l = r"
  by (cases l, cases r) (auto simp: ip_port_equal_def str_compare_zero)

lemma ip_port_less_order:
  "\<not> ip_port_less l l" "ip_port_less l r \<Longrightarrow> ip_port_less r q \<Longrightarrow> ip_port_less l q" "ip_port_less l r \<or> l = r \<or> ip_port_less r l"
proof -
  show "\<not> ip_port_less l l" using str_compare_zero [of "ip l" "ip l"] by (simp add: ip_port_less_def)
  have e: "ip_port_less x y \<longleftrightarrow> str_compare (ip x) (ip y) < 0 \<or> (ip x = ip y \<and> sint (port x) < sint (port y))" for x y
    using str_compare_zero [of "ip x" "ip y"] by (auto simp: ip_port_less_def Let_def)
  show "ip_port_less l r \<Longrightarrow> ip_port_less r q \<Longrightarrow> ip_port_less l q"
    unfolding e using str_compare_trans by auto
  have "sint (port l) = sint (port r) \<Longrightarrow> port l = port r" by (simp add: signed_word_eqI)
  then show "ip_port_less l r \<or> l = r \<or> ip_port_less r l"
    unfolding e using str_compare_zero [of "ip l" "ip r"] str_compare_sym [of "ip l" "ip r"]
    by (cases l, cases r) (auto simp: not_less_iff_gr_or_eq)
qed

subsection \<open>Parsing a host list\<close>

definition format_host :: "ip_port_t \<Rightarrow> u8 list" where
  "format_host h = ip h @ 58 # decimal (sint (port h))"

fun format_ip_list :: "ip_port_t list \<Rightarrow> u8 list" where
  "format_ip_list [] = []"
| "format_ip_list (h # hs) = format_host h @ 59 # format_ip_list hs"

definition host_ok :: "ip_port_t \<Rightarrow> bool" where
  "host_ok h \<longleftrightarrow> (\<forall>c\<in>set (ip h). c \<noteq> 0 \<and> c \<noteq> 58 \<and> c \<noteq> 59)"

lemma decimal_chars: "c \<in> set (decimal i) \<Longrightarrow> c \<noteq> 0 \<and> c \<noteq> 59"
proof -
  assume c: "c \<in> set (decimal i)"
  have "is_digit d \<Longrightarrow> d \<noteq> 59" for d by (auto simp: is_digit_def)
  then show ?thesis using c dec_digits by (auto simp: decimal_def split: if_splits)
qed

lemma parse_format_host: "host_ok h \<Longrightarrow> parse_host (format_host h) = [h]"
proof -
  assume h: "host_ok h"
  have t: "takeWhile (\<lambda>c. c \<noteq> 58) (format_host h) = ip h" "dropWhile (\<lambda>c. c \<noteq> 58) (format_host h) = 58 # decimal (sint (port h))"
    using h by (auto simp: format_host_def host_ok_def takeWhile_append2 dropWhile_append2 takeWhile_eq_all_conv [THEN iffD2])
  have "- (2 ^ 63) \<le> sint (port h)" "sint (port h) < 2 ^ 63" using sint_ge [of "port h"] sint_lt [of "port h"] by simp_all
  then have "(string2number (decimal (sint (port h))) :: 32 word) = port h"
    using strtoll_decimal [of "[]" "sint (port h)"] by (simp add: string2number_def)
  then show ?thesis using t by (cases h) (simp add: parse_host_def)
qed

lemma split_at_token:
  assumes "\<forall>c\<in>set t. c \<noteq> 59"
  shows "split_at cur (t @ 59 # r) = (cur @ t) # split_at [] r"
  using assms by (induction t arbitrary: cur) auto

lemma format_nonzero: "list_all host_ok hs \<Longrightarrow> c \<in> set (format_ip_list hs) \<Longrightarrow> c \<noteq> 0"
  by (induction hs) (auto simp: format_host_def host_ok_def dest: decimal_chars)

lemma split_format: "list_all host_ok hs \<Longrightarrow> split_at [] (format_ip_list hs) = map format_host hs @ [[]]"
proof (induction hs)
  case (Cons h hs)
  have "\<forall>c\<in>set (format_host h). c \<noteq> 59" using Cons.prems decimal_chars by (auto simp: format_host_def host_ok_def)
  then show ?case using Cons split_at_token [of "format_host h" "[]"] by simp
qed simp

text \<open>
  Parsing a configuration text of hosts, written as address, colon, port and semicolon, returns
  exactly these hosts, in order and with every port of the 32-bit range, for all addresses without the bytes
  zero, colon and semicolon.
\<close>

lemma parse_ip_list_roundtrip:
  assumes "list_all host_ok hs"
  shows "parse_ip_list (format_ip_list hs) [] = hs"
proof -
  have z: "takeWhile (\<lambda>c. c \<noteq> 0) (format_ip_list hs) = format_ip_list hs"
    using format_nonzero [OF assms] by (auto intro: takeWhile_eq_all_conv [THEN iffD2])
  have "strtok_all (format_ip_list hs) = map format_host hs"
    unfolding strtok_all_def z split_format [OF assms] by (auto simp: filter_id_iff_all format_host_def)
  moreover have "concat (map parse_host (map format_host hs)) = hs"
    using assms by (induction hs) (auto simp: parse_format_host)
  ultimately show ?thesis by (simp add: parse_ip_list_def)
qed

lemma parse_ip_list_roundtrip_witness:
  "parse_ip_list (format_ip_list [\<lparr>ip = [49, 46, 50], port = 80\<rparr>, \<lparr>ip = [97], port = -1\<rparr>]) [] =
     [\<lparr>ip = [49, 46, 50], port = 80\<rparr>, \<lparr>ip = [97], port = -1\<rparr>]"
  by (rule parse_ip_list_roundtrip) (simp add: host_ok_def)

subsection \<open>Choosing a connection\<close>

lemma get_node_ok:
  assumes "m_hosts c \<noteq> []" "length (m_hosts c) < 2 ^ 31"
  obtains h c' where "get_node c = (Some h, c')" "h \<in> set (m_hosts c)" "m_hosts c' = m_hosts c"
proof -
  obtain r g where r: "rand_u32 (ip_rand c) = (r, g)" by (cases "rand_u32 (ip_rand c)")
  let ?p = "(ucast r :: u64) mod of_nat (length (m_hosts c))"
  have l: "unat (of_nat (length (m_hosts c)) :: u64) = length (m_hosts c)" using assms(2) by (simp add: unat_of_nat)
  have "unat ?p < length (m_hosts c)" using l assms(1) by (simp add: unat_mod)
  then have "nat (uint ?p) < length (m_hosts c)" by simp
  then show ?thesis using that [of "m_hosts c ! nat (uint ?p)"] assms(1) r by (simp add: get_node_def pick_pos_def Let_def)
qed

lemma connect_loop_ok:
  assumes "m_hosts (m_ip_lists b) \<noteq> []" "length (m_hosts (m_ip_lists b)) < 2 ^ 31" "0 < n"
  shows "\<exists>r hs b'. connect_loop conn i n fd b = Some (r, hs, b') \<and> hs \<noteq> [] \<and> length hs \<le> n \<and>
    set hs \<subseteq> set (m_hosts (m_ip_lists b)) \<and> r = conn (i + length hs - 1) (last hs) \<and>
    (\<forall>j<length hs - 1. conn (i + j) (hs ! j) < 0) \<and> (r < 0 \<longrightarrow> length hs = n) \<and>
    m_hosts (m_ip_lists b') = m_hosts (m_ip_lists b) \<and> m_fd_pool b' = m_fd_pool b"
  using assms
proof (induction n arbitrary: i fd b)
  case (Suc n)
  obtain h c where g: "get_node (m_ip_lists b) = (Some h, c)" "h \<in> set (m_hosts (m_ip_lists b))"
    "m_hosts c = m_hosts (m_ip_lists b)" by (rule get_node_ok [OF Suc.prems(1,2)])
  let ?b = "b\<lparr>m_ip_lists := c\<rparr>"
  show ?case
  proof (cases "conn i h \<ge> 0 \<or> n = 0")
    case True
    then have "connect_loop conn i (Suc n) fd b = Some (conn i h, [h], ?b)"
      using g(1) by (cases n) (auto simp: Let_def)
    then show ?thesis using g True by auto
  next
    case False
    then obtain r hs b' where IH: "connect_loop conn (Suc i) n (conn i h) ?b = Some (r, hs, b')" "hs \<noteq> []" "length hs \<le> n"
      "set hs \<subseteq> set (m_hosts (m_ip_lists b))" "r = conn (Suc i + length hs - 1) (last hs)"
      "\<forall>j<length hs - 1. conn (Suc i + j) (hs ! j) < 0" "r < 0 \<longrightarrow> length hs = n"
      "m_hosts (m_ip_lists b') = m_hosts (m_ip_lists b)" "m_fd_pool b' = m_fd_pool b"
      using Suc.IH [of ?b "Suc i" "conn i h"] Suc.prems g(3) by auto
    have "conn (i + j) ((h # hs) ! j) < 0" if "j < length (h # hs) - 1" for j
      using that False IH(6) by (cases j) auto
    then show ?thesis using IH g False
      by (intro exI [of _ r] exI [of _ "h # hs"] exI [of _ b']) auto
  qed
qed simp

text \<open>
  \<open>get\<close> of the balancer returns the idle connection that was released first, without connecting;
  when there is none it tries at most three hosts of its list, in the order drawn, and returns the first
  connection that succeeds, or the error of the third attempt. With no idle connection and no host it uses a
  null pointer.
\<close>

lemma lb_get_outcome:
  assumes "length (m_hosts (m_ip_lists b)) < 2 ^ 31"
  shows "case m_fds (m_fd_pool b) of
      fd # fds \<Rightarrow> fd \<ge> 0 \<longrightarrow> lb_get conn b = Some (fd, [], b\<lparr>m_fd_pool := (m_fd_pool b)\<lparr>m_fds := fds\<rparr>\<rparr>)
    | [] \<Rightarrow>
        if m_hosts (m_ip_lists b) = [] then lb_get conn b = None
        else \<exists>r hs b'. lb_get conn b = Some (r, hs, b') \<and> hs \<noteq> [] \<and> length hs \<le> 3 \<and>
          set hs \<subseteq> set (m_hosts (m_ip_lists b)) \<and> r = conn (length hs - 1) (last hs) \<and>
          (\<forall>j<length hs - 1. conn j (hs ! j) < 0) \<and> (r < 0 \<longrightarrow> length hs = 3)"
proof (cases "m_fds (m_fd_pool b)")
  case Nil
  show ?thesis
  proof (cases "m_hosts (m_ip_lists b) = []")
    case True
    then show ?thesis using Nil by (simp add: lb_get_def FdPool_get_def get_node_def numeral_3_eq_3)
  next
    case False
    have e: "lb_get conn b = connect_loop conn 0 3 (-1) b" using Nil by (simp add: lb_get_def FdPool_get_def)
    show ?thesis unfolding e using connect_loop_ok [OF False assms, of 3 conn 0 "-1"] Nil False by auto
  qed
next
  case (Cons fd fds)
  then show ?thesis by (simp add: lb_get_def FdPool_get_def)
qed

definition ex_lb :: IpListLB where
  "ex_lb = \<lparr>m_fd_pool = \<lparr>m_fds = [], m_calls = [], fd_rand = reseed64 1\<rparr>,
     m_ip_lists = \<lparr>m_hosts = [\<lparr>ip = [97], port = 80\<rparr>], m_pos = 0, ip_rand = reseed64 1\<rparr>\<rparr>"

lemma lb_get_outcome_witness:
  "\<exists>hs b'. lb_get (\<lambda>i h. if i < 2 then -1 else 7) ex_lb = Some (7, hs, b') \<and> length hs = 3"
proof -
  have s: "m_fds (m_fd_pool ex_lb) = []" "m_hosts (m_ip_lists ex_lb) = [\<lparr>ip = [97], port = 80\<rparr>]" by (simp_all add: ex_lb_def)
  let ?c = "\<lambda>i h. if i < 2 then -1 else (7::int)"
  have l: "length (m_hosts (m_ip_lists ex_lb)) < 2 ^ 31" using s(2) by simp
  have "\<exists>r hs b'. lb_get ?c ex_lb = Some (r, hs, b') \<and> hs \<noteq> [] \<and> length hs \<le> 3 \<and>
      set hs \<subseteq> set (m_hosts (m_ip_lists ex_lb)) \<and> r = ?c (length hs - 1) (last hs) \<and>
      (\<forall>j<length hs - 1. ?c j (hs ! j) < 0) \<and> (r < 0 \<longrightarrow> length hs = 3)"
    using lb_get_outcome [OF l, of ?c] unfolding s by (simp only: list.case list.distinct if_False refl)
  then obtain r hs b' where g: "lb_get ?c ex_lb = Some (r, hs, b')" "hs \<noteq> []" "length hs \<le> 3"
    "r = ?c (length hs - 1) (last hs)" "r < 0 \<longrightarrow> length hs = 3" by blast
  have "\<not> length hs - 1 < 2"
  proof
    assume a: "length hs - 1 < 2"
    then have "r = -1" using g(4) by (simp only: if_True)
    then have "length hs = 3" using g(5) by simp
    then show False using a by simp
  qed
  then have "length hs = 3 \<and> r = 7" using g(3,4) by (simp only: if_False) arith
  then show ?thesis using g(1) by auto
qed

end
