(* ===== verification/Base64.thy ===== *)
theory Base64
  imports Hash
begin

text \<open>
  \<open>base64_encode\<close> and \<open>base64_decode\<close> of \<open>base/src/base64.cpp\<close>, with the tables of the source.
  The decoder reads its input in 32-bit words, so that it may read up to three bytes past the
  end, and stores a word for every three bytes of output; both buffers are memories.
\<close>

subsection \<open>Tables\<close>

definition e0 :: "u8 list" where
  "e0 = [
    65, 65, 65, 65, 66, 66, 66, 66, 67, 67, 67, 67, 68, 68, 68, 68, 69, 69, 69, 69, 70, 70, 70, 70, 71, 71,
    71, 71, 72, 72, 72, 72, 73, 73, 73, 73, 74, 74, 74, 74, 75, 75, 75, 75, 76, 76, 76, 76, 77, 77, 77, 77,
    78, 78, 78, 78, 79, 79, 79, 79, 80, 80, 80, 80, 81, 81, 81, 81, 82, 82, 82, 82, 83, 83, 83, 83, 84, 84,
    84, 84, 85, 85, 85, 85, 86, 86, 86, 86, 87, 87, 87, 87, 88, 88, 88, 88, 89, 89, 89, 89, 90, 90, 90, 90,
    97, 97, 97, 97, 98, 98, 98, 98, 99, 99, 99, 99, 100, 100, 100, 100, 101, 101, 101, 101, 102, 102, 102,
    102, 103, 103, 103, 103, 104, 104, 104, 104, 105, 105, 105, 105, 106, 106, 106, 106, 107, 107, 107, 107,
    108, 108, 108, 108, 109, 109, 109, 109, 110, 110, 110, 110, 111, 111, 111, 111, 112, 112, 112, 112, 113,
    113, 113, 113, 114, 114, 114, 114, 115, 115, 115, 115, 116, 116, 116, 116, 117, 117, 117, 117, 118, 118,
    118, 118, 119, 119, 119, 119, 120, 120, 120, 120, 121, 121, 121, 121, 122, 122, 122, 122, 48, 48, 48, 48,
    49, 49, 49, 49, 50, 50, 50, 50, 51, 51, 51, 51, 52, 52, 52, 52, 53, 53, 53, 53, 54, 54, 54, 54, 55, 55,
    55, 55, 56, 56, 56, 56, 57, 57, 57, 57, 43, 43, 43, 43, 47, 47, 47, 47]"

definition e1 :: "u8 list" where
  "e1 = [
    65, 66, 67, 68, 69, 70, 71, 72, 73, 74, 75, 76, 77, 78, 79, 80, 81, 82, 83, 84, 85, 86, 87, 88, 89, 90,
    97, 98, 99, 100, 101, 102, 103, 104, 105, 106, 107, 108, 109, 110, 111, 112, 113, 114, 115, 116, 117,
    118, 119, 120, 121, 122, 48, 49, 50, 51, 52, 53, 54, 55, 56, 57, 43, 47, 65, 66, 67, 68, 69, 70, 71, 72,
    73, 74, 75, 76, 77, 78, 79, 80, 81, 82, 83, 84, 85, 86, 87, 88, 89, 90, 97, 98, 99, 100, 101, 102, 103,
    104, 105, 106, 107, 108, 109, 110, 111, 112, 113, 114, 115, 116, 117, 118, 119, 120, 121, 122, 48, 49,
    50, 51, 52, 53, 54, 55, 56, 57, 43, 47, 65, 66, 67, 68, 69, 70, 71, 72, 73, 74, 75, 76, 77, 78, 79, 80,
    81, 82, 83, 84, 85, 86, 87, 88, 89, 90, 97, 98, 99, 100, 101, 102, 103, 104, 105, 106, 107, 108, 109,
    110, 111, 112, 113, 114, 115, 116, 117, 118, 119, 120, 121, 122, 48, 49, 50, 51, 52, 53, 54, 55, 56, 57,
    43, 47, 65, 66, 67, 68, 69, 70, 71, 72, 73, 74, 75, 76, 77, 78, 79, 80, 81, 82, 83, 84, 85, 86, 87, 88,
    89, 90, 97, 98, 99, 100, 101, 102, 103, 104, 105, 106, 107, 108, 109, 110, 111, 112, 113, 114, 115, 116,
    117, 118, 119, 120, 121, 122, 48, 49, 50, 51, 52, 53, 54, 55, 56, 57, 43, 47]"

definition e2 :: "u8 list" where
  "e2 = [
    65, 66, 67, 68, 69, 70, 71, 72, 73, 74, 75, 76, 77, 78, 79, 80, 81, 82, 83, 84, 85, 86, 87, 88, 89, 90,
    97, 98, 99, 100, 101, 102, 103, 104, 105, 106, 107, 108, 109, 110, 111, 112, 113, 114, 115, 116, 117,
    118, 119, 120, 121, 122, 48, 49, 50, 51, 52, 53, 54, 55, 56, 57, 43, 47, 65, 66, 67, 68, 69, 70, 71, 72,
    73, 74, 75, 76, 77, 78, 79, 80, 81, 82, 83, 84, 85, 86, 87, 88, 89, 90, 97, 98, 99, 100, 101, 102, 103,
    104, 105, 106, 107, 108, 109, 110, 111, 112, 113, 114, 115, 116, 117, 118, 119, 120, 121, 122, 48, 49,
    50, 51, 52, 53, 54, 55, 56, 57, 43, 47, 65, 66, 67, 68, 69, 70, 71, 72, 73, 74, 75, 76, 77, 78, 79, 80,
    81, 82, 83, 84, 85, 86, 87, 88, 89, 90, 97, 98, 99, 100, 101, 102, 103, 104, 105, 106, 107, 108, 109,
    110, 111, 112, 113, 114, 115, 116, 117, 118, 119, 120, 121, 122, 48, 49, 50, 51, 52, 53, 54, 55, 56, 57,
    43, 47, 65, 66, 67, 68, 69, 70, 71, 72, 73, 74, 75, 76, 77, 78, 79, 80, 81, 82, 83, 84, 85, 86, 87, 88,
    89, 90, 97, 98, 99, 100, 101, 102, 103, 104, 105, 106, 107, 108, 109, 110, 111, 112, 113, 114, 115, 116,
    117, 118, 119, 120, 121, 122, 48, 49, 50, 51, 52, 53, 54, 55, 56, 57, 43, 47]"

definition d0 :: "u32 list" where
  "d0 = [
    0x1ffffff, 0x1ffffff, 0x1ffffff, 0x1ffffff, 0x1ffffff, 0x1ffffff, 0x1ffffff, 0x1ffffff, 0x1ffffff,
    0x1ffffff, 0x1ffffff, 0x1ffffff, 0x1ffffff, 0x1ffffff, 0x1ffffff, 0x1ffffff, 0x1ffffff, 0x1ffffff,
    0x1ffffff, 0x1ffffff, 0x1ffffff, 0x1ffffff, 0x1ffffff, 0x1ffffff, 0x1ffffff, 0x1ffffff, 0x1ffffff,
    0x1ffffff, 0x1ffffff, 0x1ffffff, 0x1ffffff, 0x1ffffff, 0x1ffffff, 0x1ffffff, 0x1ffffff, 0x1ffffff,
    0x1ffffff, 0x1ffffff, 0x1ffffff, 0x1ffffff, 0x1ffffff, 0x1ffffff, 0x1ffffff, 0xf8, 0x1ffffff, 0x1ffffff,
    0x1ffffff, 0xfc, 0xd0, 0xd4, 0xd8, 0xdc, 0xe0, 0xe4, 0xe8, 0xec, 0xf0, 0xf4, 0x1ffffff, 0x1ffffff,
    0x1ffffff, 0x1ffffff, 0x1ffffff, 0x1ffffff, 0x1ffffff, 0x0, 0x4, 0x8, 0xc, 0x10, 0x14, 0x18, 0x1c, 0x20,
    0x24, 0x28, 0x2c, 0x30, 0x34, 0x38, 0x3c, 0x40, 0x44, 0x48, 0x4c, 0x50, 0x54, 0x58, 0x5c, 0x60, 0x64,
    0x1ffffff, 0x1ffffff, 0x1ffffff, 0x1ffffff, 0x1ffffff, 0x1ffffff, 0x68, 0x6c, 0x70, 0x74, 0x78, 0x7c,
    0x80, 0x84, 0x88, 0x8c, 0x90, 0x94, 0x98, 0x9c, 0xa0, 0xa4, 0xa8, 0xac, 0xb0, 0xb4, 0xb8, 0xbc, 0xc0,
    0xc4, 0xc8, 0xcc, 0x1ffffff, 0x1ffffff, 0x1ffffff, 0x1ffffff, 0x1ffffff, 0x1ffffff, 0x1ffffff, 0x1ffffff,
    0x1ffffff, 0x1ffffff, 0x1ffffff, 0x1ffffff, 0x1ffffff, 0x1ffffff, 0x1ffffff, 0x1ffffff, 0x1ffffff,
    0x1ffffff, 0x1ffffff, 0x1ffffff, 0x1ffffff, 0x1ffffff, 0x1ffffff, 0x1ffffff, 0x1ffffff, 0x1ffffff,
    0x1ffffff, 0x1ffffff, 0x1ffffff, 0x1ffffff, 0x1ffffff, 0x1ffffff, 0x1ffffff, 0x1ffffff, 0x1ffffff,
    0x1ffffff, 0x1ffffff, 0x1ffffff, 0x1ffffff, 0x1ffffff, 0x1ffffff, 0x1ffffff, 0x1ffffff, 0x1ffffff,
    0x1ffffff, 0x1ffffff, 0x1ffffff, 0x1ffffff, 0x1ffffff, 0x1ffffff, 0x1ffffff, 0x1ffffff, 0x1ffffff,
    0x1ffffff, 0x1ffffff, 0x1ffffff, 0x1ffffff, 0x1ffffff, 0x1ffffff, 0x1ffffff, 0x1ffffff, 0x1ffffff,
    0x1ffffff, 0x1ffffff, 0x1ffffff, 0x1ffffff, 0x1ffffff, 0x1ffffff, 0x1ffffff, 0x1ffffff, 0x1ffffff,
    0x1ffffff, 0x1ffffff, 0x1ffffff, 0x1ffffff, 0x1ffffff, 0x1ffffff, 0x1ffffff, 0x1ffffff, 0x1ffffff,
    0x1ffffff, 0x1ffffff, 0x1ffffff, 0x1ffffff, 0x1ffffff, 0x1ffffff, 0x1ffffff, 0x1ffffff, 0x1ffffff,
    0x1ffffff, 0x1ffffff, 0x1ffffff, 0x1ffffff, 0x1ffffff, 0x1ffffff, 0x1ffffff, 0x1ffffff, 0x1ffffff,
    0x1ffffff, 0x1ffffff, 0x1ffffff, 0x1ffffff, 0x1ffffff, 0x1ffffff, 0x1ffffff, 0x1ffffff, 0x1ffffff,
    0x1ffffff, 0x1ffffff, 0x1ffffff, 0x1ffffff, 0x1ffffff, 0x1ffffff, 0x1ffffff, 0x1ffffff, 0x1ffffff,
    0x1ffffff, 0x1ffffff, 0x1ffffff, 0x1ffffff, 0x1ffffff, 0x1ffffff, 0x1ffffff, 0x1ffffff, 0x1ffffff,
    0x1ffffff, 0x1ffffff, 0x1ffffff, 0x1ffffff, 0x1ffffff, 0x1ffffff, 0x1ffffff, 0x1ffffff]"

definition d1 :: "u32 list" where
  "d1 = [
    0x1ffffff, 0x1ffffff, 0x1ffffff, 0x1ffffff, 0x1ffffff, 0x1ffffff, 0x1ffffff, 0x1ffffff, 0x1ffffff,
    0x1ffffff, 0x1ffffff, 0x1ffffff, 0x1ffffff, 0x1ffffff, 0x1ffffff, 0x1ffffff, 0x1ffffff, 0x1ffffff,
    0x1ffffff, 0x1ffffff, 0x1ffffff, 0x1ffffff, 0x1ffffff, 0x1ffffff, 0x1ffffff, 0x1ffffff, 0x1ffffff,
    0x1ffffff, 0x1ffffff, 0x1ffffff, 0x1ffffff, 0x1ffffff, 0x1ffffff, 0x1ffffff, 0x1ffffff, 0x1ffffff,
    0x1ffffff, 0x1ffffff, 0x1ffffff, 0x1ffffff, 0x1ffffff, 0x1ffffff, 0x1ffffff, 0xe003, 0x1ffffff,
    0x1ffffff, 0x1ffffff, 0xf003, 0x4003, 0x5003, 0x6003, 0x7003, 0x8003, 0x9003, 0xa003, 0xb003, 0xc003,
    0xd003, 0x1ffffff, 0x1ffffff, 0x1ffffff, 0x1ffffff, 0x1ffffff, 0x1ffffff, 0x1ffffff, 0x0, 0x1000, 0x2000,
    0x3000, 0x4000, 0x5000, 0x6000, 0x7000, 0x8000, 0x9000, 0xa000, 0xb000, 0xc000, 0xd000, 0xe000, 0xf000,
    0x1, 0x1001, 0x2001, 0x3001, 0x4001, 0x5001, 0x6001, 0x7001, 0x8001, 0x9001, 0x1ffffff, 0x1ffffff,
    0x1ffffff, 0x1ffffff, 0x1ffffff, 0x1ffffff, 0xa001, 0xb001, 0xc001, 0xd001, 0xe001, 0xf001, 0x2, 0x1002,
    0x2002, 0x3002, 0x4002, 0x5002, 0x6002, 0x7002, 0x8002, 0x9002, 0xa002, 0xb002, 0xc002, 0xd002, 0xe002,
    0xf002, 0x3, 0x1003, 0x2003, 0x3003, 0x1ffffff, 0x1ffffff, 0x1ffffff, 0x1ffffff, 0x1ffffff, 0x1ffffff,
    0x1ffffff, 0x1ffffff, 0x1ffffff, 0x1ffffff, 0x1ffffff, 0x1ffffff, 0x1ffffff, 0x1ffffff, 0x1ffffff,
    0x1ffffff, 0x1ffffff, 0x1ffffff, 0x1ffffff, 0x1ffffff, 0x1ffffff, 0x1ffffff, 0x1ffffff, 0x1ffffff,
    0x1ffffff, 0x1ffffff, 0x1ffffff, 0x1ffffff, 0x1ffffff, 0x1ffffff, 0x1ffffff, 0x1ffffff, 0x1ffffff,
    0x1ffffff, 0x1ffffff, 0x1ffffff, 0x1ffffff, 0x1ffffff, 0x1ffffff, 0x1ffffff, 0x1ffffff, 0x1ffffff,
    0x1ffffff, 0x1ffffff, 0x1ffffff, 0x1ffffff, 0x1ffffff, 0x1ffffff, 0x1ffffff, 0x1ffffff, 0x1ffffff,
    0x1ffffff, 0x1ffffff, 0x1ffffff, 0x1ffffff, 0x1ffffff, 0x1ffffff, 0x1ffffff, 0x1ffffff, 0x1ffffff,
    0x1ffffff, 0x1ffffff, 0x1ffffff, 0x1ffffff, 0x1ffffff, 0x1ffffff, 0x1ffffff, 0x1ffffff, 0x1ffffff,
    0x1ffffff, 0x1ffffff, 0x1ffffff, 0x1ffffff, 0x1ffffff, 0x1ffffff, 0x1ffffff, 0x1ffffff, 0x1ffffff,
    0x1ffffff, 0x1ffffff, 0x1ffffff, 0x1ffffff, 0x1ffffff, 0x1ffffff, 0x1ffffff, 0x1ffffff, 0x1ffffff,
    0x1ffffff, 0x1ffffff, 0x1ffffff, 0x1ffffff, 0x1ffffff, 0x1ffffff, 0x1ffffff, 0x1ffffff, 0x1ffffff,
    0x1ffffff, 0x1ffffff, 0x1ffffff, 0x1ffffff, 0x1ffffff, 0x1ffffff, 0x1ffffff, 0x1ffffff, 0x1ffffff,
    0x1ffffff, 0x1ffffff, 0x1ffffff, 0x1ffffff, 0x1ffffff, 0x1ffffff, 0x1ffffff, 0x1ffffff, 0x1ffffff,
    0x1ffffff, 0x1ffffff, 0x1ffffff, 0x1ffffff, 0x1ffffff, 0x1ffffff, 0x1ffffff, 0x1ffffff, 0x1ffffff,
    0x1ffffff, 0x1ffffff, 0x1ffffff, 0x1ffffff, 0x1ffffff, 0x1ffffff, 0x1ffffff, 0x1ffffff, 0x1ffffff,
    0x1ffffff]"

definition d2 :: "u32 list" where
  "d2 = [
    0x1ffffff, 0x1ffffff, 0x1ffffff, 0x1ffffff, 0x1ffffff, 0x1ffffff, 0x1ffffff, 0x1ffffff, 0x1ffffff,
    0x1ffffff, 0x1ffffff, 0x1ffffff, 0x1ffffff, 0x1ffffff, 0x1ffffff, 0x1ffffff, 0x1ffffff, 0x1ffffff,
    0x1ffffff, 0x1ffffff, 0x1ffffff, 0x1ffffff, 0x1ffffff, 0x1ffffff, 0x1ffffff, 0x1ffffff, 0x1ffffff,
    0x1ffffff, 0x1ffffff, 0x1ffffff, 0x1ffffff, 0x1ffffff, 0x1ffffff, 0x1ffffff, 0x1ffffff, 0x1ffffff,
    0x1ffffff, 0x1ffffff, 0x1ffffff, 0x1ffffff, 0x1ffffff, 0x1ffffff, 0x1ffffff, 0x800f00, 0x1ffffff,
    0x1ffffff, 0x1ffffff, 0xc00f00, 0xd00, 0x400d00, 0x800d00, 0xc00d00, 0xe00, 0x400e00, 0x800e00, 0xc00e00,
    0xf00, 0x400f00, 0x1ffffff, 0x1ffffff, 0x1ffffff, 0x1ffffff, 0x1ffffff, 0x1ffffff, 0x1ffffff, 0x0,
    0x400000, 0x800000, 0xc00000, 0x100, 0x400100, 0x800100, 0xc00100, 0x200, 0x400200, 0x800200, 0xc00200,
    0x300, 0x400300, 0x800300, 0xc00300, 0x400, 0x400400, 0x800400, 0xc00400, 0x500, 0x400500, 0x800500,
    0xc00500, 0x600, 0x400600, 0x1ffffff, 0x1ffffff, 0x1ffffff, 0x1ffffff, 0x1ffffff, 0x1ffffff, 0x800600,
    0xc00600, 0x700, 0x400700, 0x800700, 0xc00700, 0x800, 0x400800, 0x800800, 0xc00800, 0x900, 0x400900,
    0x800900, 0xc00900, 0xa00, 0x400a00, 0x800a00, 0xc00a00, 0xb00, 0x400b00, 0x800b00, 0xc00b00, 0xc00,
    0x400c00, 0x800c00, 0xc00c00, 0x1ffffff, 0x1ffffff, 0x1ffffff, 0x1ffffff, 0x1ffffff, 0x1ffffff,
    0x1ffffff, 0x1ffffff, 0x1ffffff, 0x1ffffff, 0x1ffffff, 0x1ffffff, 0x1ffffff, 0x1ffffff, 0x1ffffff,
    0x1ffffff, 0x1ffffff, 0x1ffffff, 0x1ffffff, 0x1ffffff, 0x1ffffff, 0x1ffffff, 0x1ffffff, 0x1ffffff,
    0x1ffffff, 0x1ffffff, 0x1ffffff, 0x1ffffff, 0x1ffffff, 0x1ffffff, 0x1ffffff, 0x1ffffff, 0x1ffffff,
    0x1ffffff, 0x1ffffff, 0x1ffffff, 0x1ffffff, 0x1ffffff, 0x1ffffff, 0x1ffffff, 0x1ffffff, 0x1ffffff,
    0x1ffffff, 0x1ffffff, 0x1ffffff, 0x1ffffff, 0x1ffffff, 0x1ffffff, 0x1ffffff, 0x1ffffff, 0x1ffffff,
    0x1ffffff, 0x1ffffff, 0x1ffffff, 0x1ffffff, 0x1ffffff, 0x1ffffff, 0x1ffffff, 0x1ffffff, 0x1ffffff,
    0x1ffffff, 0x1ffffff, 0x1ffffff, 0x1ffffff, 0x1ffffff, 0x1ffffff, 0x1ffffff, 0x1ffffff, 0x1ffffff,
    0x1ffffff, 0x1ffffff, 0x1ffffff, 0x1ffffff, 0x1ffffff, 0x1ffffff, 0x1ffffff, 0x1ffffff, 0x1ffffff,
    0x1ffffff, 0x1ffffff, 0x1ffffff, 0x1ffffff, 0x1ffffff, 0x1ffffff, 0x1ffffff, 0x1ffffff, 0x1ffffff,
    0x1ffffff, 0x1ffffff, 0x1ffffff, 0x1ffffff, 0x1ffffff, 0x1ffffff, 0x1ffffff, 0x1ffffff, 0x1ffffff,
    0x1ffffff, 0x1ffffff, 0x1ffffff, 0x1ffffff, 0x1ffffff, 0x1ffffff, 0x1ffffff, 0x1ffffff, 0x1ffffff,
    0x1ffffff, 0x1ffffff, 0x1ffffff, 0x1ffffff, 0x1ffffff, 0x1ffffff, 0x1ffffff, 0x1ffffff, 0x1ffffff,
    0x1ffffff, 0x1ffffff, 0x1ffffff, 0x1ffffff, 0x1ffffff, 0x1ffffff, 0x1ffffff, 0x1ffffff, 0x1ffffff,
    0x1ffffff, 0x1ffffff, 0x1ffffff, 0x1ffffff, 0x1ffffff, 0x1ffffff, 0x1ffffff, 0x1ffffff, 0x1ffffff,
    0x1ffffff]"

definition d3 :: "u32 list" where
  "d3 = [
    0x1ffffff, 0x1ffffff, 0x1ffffff, 0x1ffffff, 0x1ffffff, 0x1ffffff, 0x1ffffff, 0x1ffffff, 0x1ffffff,
    0x1ffffff, 0x1ffffff, 0x1ffffff, 0x1ffffff, 0x1ffffff, 0x1ffffff, 0x1ffffff, 0x1ffffff, 0x1ffffff,
    0x1ffffff, 0x1ffffff, 0x1ffffff, 0x1ffffff, 0x1ffffff, 0x1ffffff, 0x1ffffff, 0x1ffffff, 0x1ffffff,
    0x1ffffff, 0x1ffffff, 0x1ffffff, 0x1ffffff, 0x1ffffff, 0x1ffffff, 0x1ffffff, 0x1ffffff, 0x1ffffff,
    0x1ffffff, 0x1ffffff, 0x1ffffff, 0x1ffffff, 0x1ffffff, 0x1ffffff, 0x1ffffff, 0x3e0000, 0x1ffffff,
    0x1ffffff, 0x1ffffff, 0x3f0000, 0x340000, 0x350000, 0x360000, 0x370000, 0x380000, 0x390000, 0x3a0000,
    0x3b0000, 0x3c0000, 0x3d0000, 0x1ffffff, 0x1ffffff, 0x1ffffff, 0x1ffffff, 0x1ffffff, 0x1ffffff,
    0x1ffffff, 0x0, 0x10000, 0x20000, 0x30000, 0x40000, 0x50000, 0x60000, 0x70000, 0x80000, 0x90000, 0xa0000,
    0xb0000, 0xc0000, 0xd0000, 0xe0000, 0xf0000, 0x100000, 0x110000, 0x120000, 0x130000, 0x140000, 0x150000,
    0x160000, 0x170000, 0x180000, 0x190000, 0x1ffffff, 0x1ffffff, 0x1ffffff, 0x1ffffff, 0x1ffffff, 0x1ffffff,
    0x1a0000, 0x1b0000, 0x1c0000, 0x1d0000, 0x1e0000, 0x1f0000, 0x200000, 0x210000, 0x220000, 0x230000,
    0x240000, 0x250000, 0x260000, 0x270000, 0x280000, 0x290000, 0x2a0000, 0x2b0000, 0x2c0000, 0x2d0000,
    0x2e0000, 0x2f0000, 0x300000, 0x310000, 0x320000, 0x330000, 0x1ffffff, 0x1ffffff, 0x1ffffff, 0x1ffffff,
    0x1ffffff, 0x1ffffff, 0x1ffffff, 0x1ffffff, 0x1ffffff, 0x1ffffff, 0x1ffffff, 0x1ffffff, 0x1ffffff,
    0x1ffffff, 0x1ffffff, 0x1ffffff, 0x1ffffff, 0x1ffffff, 0x1ffffff, 0x1ffffff, 0x1ffffff, 0x1ffffff,
    0x1ffffff, 0x1ffffff, 0x1ffffff, 0x1ffffff, 0x1ffffff, 0x1ffffff, 0x1ffffff, 0x1ffffff, 0x1ffffff,
    0x1ffffff, 0x1ffffff, 0x1ffffff, 0x1ffffff, 0x1ffffff, 0x1ffffff, 0x1ffffff, 0x1ffffff, 0x1ffffff,
    0x1ffffff, 0x1ffffff, 0x1ffffff, 0x1ffffff, 0x1ffffff, 0x1ffffff, 0x1ffffff, 0x1ffffff, 0x1ffffff,
    0x1ffffff, 0x1ffffff, 0x1ffffff, 0x1ffffff, 0x1ffffff, 0x1ffffff, 0x1ffffff, 0x1ffffff, 0x1ffffff,
    0x1ffffff, 0x1ffffff, 0x1ffffff, 0x1ffffff, 0x1ffffff, 0x1ffffff, 0x1ffffff, 0x1ffffff, 0x1ffffff,
    0x1ffffff, 0x1ffffff, 0x1ffffff, 0x1ffffff, 0x1ffffff, 0x1ffffff, 0x1ffffff, 0x1ffffff, 0x1ffffff,
    0x1ffffff, 0x1ffffff, 0x1ffffff, 0x1ffffff, 0x1ffffff, 0x1ffffff, 0x1ffffff, 0x1ffffff, 0x1ffffff,
    0x1ffffff, 0x1ffffff, 0x1ffffff, 0x1ffffff, 0x1ffffff, 0x1ffffff, 0x1ffffff, 0x1ffffff, 0x1ffffff,
    0x1ffffff, 0x1ffffff, 0x1ffffff, 0x1ffffff, 0x1ffffff, 0x1ffffff, 0x1ffffff, 0x1ffffff, 0x1ffffff,
    0x1ffffff, 0x1ffffff, 0x1ffffff, 0x1ffffff, 0x1ffffff, 0x1ffffff, 0x1ffffff, 0x1ffffff, 0x1ffffff,
    0x1ffffff, 0x1ffffff, 0x1ffffff, 0x1ffffff, 0x1ffffff, 0x1ffffff, 0x1ffffff, 0x1ffffff, 0x1ffffff,
    0x1ffffff, 0x1ffffff, 0x1ffffff, 0x1ffffff, 0x1ffffff, 0x1ffffff, 0x1ffffff, 0x1ffffff, 0x1ffffff,
    0x1ffffff, 0x1ffffff, 0x1ffffff]"

abbreviation CHARPAD :: u8 where
  "CHARPAD \<equiv> 61"

abbreviation BADCHAR :: u32 where
  "BADCHAR \<equiv> 0x01FFFFFF"

abbreviation look :: "'a list \<Rightarrow> u8 \<Rightarrow> 'a" where
  "look t b \<equiv> t ! unat b"

subsection \<open>Encoder\<close>

text \<open>The characters of a group of three bytes, and of the last one or two bytes.\<close>

definition enc3 :: "u8 \<Rightarrow> u8 \<Rightarrow> u8 \<Rightarrow> u8 list" where
  "enc3 t1 t2 t3 =
     [look e0 t1, look e1 (push_bit 4 (t1 AND 0x03) OR (drop_bit 4 t2 AND 0x0F)),
      look e1 (push_bit 2 (t2 AND 0x0F) OR (drop_bit 6 t3 AND 0x03)), look e2 t3]"

fun base64_chars :: "u8 list \<Rightarrow> u8 list" where
  "base64_chars (t1 # t2 # t3 # str) = enc3 t1 t2 t3 @ base64_chars str"
| "base64_chars [] = []"
| "base64_chars [t1] = [look e0 t1, look e1 (push_bit 4 (t1 AND 0x03)), CHARPAD, CHARPAD]"
| "base64_chars [t1, t2] =
     [look e0 t1, look e1 (push_bit 4 (t1 AND 0x03) OR (drop_bit 4 t2 AND 0x0F)),
      look e2 (push_bit 2 (t2 AND 0x0F)), CHARPAD]"

text \<open>The bytes stored, with the terminating zero, and the return value.\<close>

definition base64_encode :: "u8 list \<Rightarrow> u8 list \<times> int" where
  "base64_encode str = (base64_chars str @ [0], int (length (base64_chars str)))"

subsection \<open>Decoder\<close>

definition write32 :: "memory \<Rightarrow> nat \<Rightarrow> u32 \<Rightarrow> memory" where
  "write32 m a x = m(a := ucast x, a + 1 := ucast (drop_bit 8 x), a + 2 := ucast (drop_bit 16 x),
     a + 3 := ucast (drop_bit 24 x))"

definition dec4 :: "u32 \<Rightarrow> u32" where
  "dec4 y = look d0 (ucast (y AND 0xff)) OR look d1 (ucast (drop_bit 8 y AND 0xff)) OR
     look d2 (ucast (drop_bit 16 y AND 0xff)) OR look d3 (ucast (drop_bit 24 y AND 0xff))"

text \<open>The loop over all groups but the last: \<open>None\<close> is the error return.\<close>

fun dec_loop :: "nat \<Rightarrow> memory \<Rightarrow> nat \<Rightarrow> memory \<Rightarrow> nat \<Rightarrow> memory option" where
  "dec_loop 0 src s dest p = Some dest"
| "dec_loop (Suc n) src s dest p =
     (let x = dec4 (read32 src s)
      in if x \<ge> BADCHAR then None else dec_loop n src (s + 4) (write32 dest p x) (p + 3))"

text \<open>
  The return value and the output buffer; on an error the contents of the buffer are not used.
\<close>

definition base64_decode :: "memory \<Rightarrow> nat \<Rightarrow> nat \<Rightarrow> memory \<Rightarrow> nat \<Rightarrow> int \<times> memory" where
  "base64_decode src s len dest p =
     (if len = 0 then (0, dest)
      else
        let leftover = len mod 4; chunks = (if leftover = 0 then len div 4 - 1 else len div 4)
        in case dec_loop chunks src s dest p of
             None \<Rightarrow> (-1, dest)
           | Some dest \<Rightarrow>
               let y = read32 src (s + 4 * chunks); p = p + 3 * chunks;
                   c0 = look d0 (ucast (y AND 0xff));
                   c1 = look d1 (ucast (drop_bit 8 y AND 0xff));
                   c2 = look d2 (ucast (drop_bit 16 y AND 0xff))
               in if leftover = 0 then
                    let x = dec4 y
                    in if x \<ge> BADCHAR then (-1, dest)
                       else (int (chunks + 1) * 3,
                             dest(p := ucast x, p + 1 := ucast (drop_bit 8 x), p + 2 := ucast (drop_bit 16 x)))
                  else
                    let x = (if leftover = 1 then c0 else if leftover = 2 then c0 OR c1 else c0 OR c1 OR c2);
                        dest = (if leftover = 3 then dest(p := ucast x, p + 1 := ucast (drop_bit 8 x))
                                else dest(p := ucast x))
                    in if x \<ge> BADCHAR then (-1, dest)
                       else (3 * int chunks + int ((6 * leftover) div 8), dest))"

subsection \<open>The tables\<close>

text \<open>The regular description of the tables: the value of a character of the alphabet.\<close>

definition alphabet :: "nat list" where
  "alphabet = [65..<91] @ [97..<123] @ [48..<58] @ [43, 47]"

definition dtab :: "(u32 \<Rightarrow> u32) \<Rightarrow> u32 list" where
  "dtab f = replicate 43 BADCHAR @ [f 62] @ replicate 3 BADCHAR @ [f 63] @
     map (\<lambda>v. f (of_nat v)) [52..<62] @ replicate 7 BADCHAR @ map (\<lambda>v. f (of_nat v)) [0..<26] @
     replicate 6 BADCHAR @ map (\<lambda>v. f (of_nat v)) [26..<52] @ replicate 133 BADCHAR"

lemma e0_table: "e0 = concat (map (\<lambda>c. replicate 4 (of_nat c)) alphabet)"
  by code_simp

lemma e1_table: "e1 = map of_nat (alphabet @ alphabet @ alphabet @ alphabet)"
  by code_simp

lemma e2_table: "e2 = e1"
  by code_simp

lemma d0_table: "d0 = dtab (push_bit 2)"
  by code_simp

lemma d1_table: "d1 = dtab (\<lambda>v. drop_bit 4 v OR push_bit 12 (v AND 15))"
  by code_simp

lemma d2_table: "d2 = dtab (\<lambda>v. push_bit 8 (drop_bit 2 v) OR push_bit 22 (v AND 3))"
  by code_simp

lemma d3_table: "d3 = dtab (push_bit 16)"
  by code_simp

lemma alphabet_simps [simp]:
  "length alphabet = 64" "v < 26 \<Longrightarrow> alphabet ! v = 65 + v"
  "26 \<le> v \<Longrightarrow> v < 52 \<Longrightarrow> alphabet ! v = v + 71" "52 \<le> v \<Longrightarrow> v < 62 \<Longrightarrow> alphabet ! v = v - 4"
  "alphabet ! 62 = 43" "alphabet ! 63 = 47"
  by (auto simp: alphabet_def nth_append simp del: upt_rec_numeral)

lemma v64_cases:
  assumes "v < (64::nat)"
  obtains "v < 26" | "26 \<le> v" "v < 52" | "52 \<le> v" "v < 62" | "v = 62" | "v = 63"
  using assms by linarith

lemma alphabet_less: "v < 64 \<Longrightarrow> alphabet ! v < 123"
  by (cases v rule: v64_cases) simp_all

lemma dtab_alphabet: "v < 64 \<Longrightarrow> dtab f ! (alphabet ! v) = f (of_nat v)"
  by (cases v rule: v64_cases) (auto simp: dtab_def nth_append simp del: upt_rec_numeral)

lemma dtab_bad: "c < 256 \<Longrightarrow> c \<notin> set alphabet \<Longrightarrow> dtab f ! c = BADCHAR"
  by (auto simp: dtab_def nth_append alphabet_def simp del: upt_rec_numeral)

text \<open>The character for a six-bit value.\<close>

definition chr64 :: "u8 \<Rightarrow> u8" where
  "chr64 v = of_nat (alphabet ! unat v)"

lemma nth_concat_replicate:
  "i < k * length xs \<Longrightarrow> 0 < k \<Longrightarrow> concat (map (\<lambda>c. replicate k (g c)) xs) ! i = g (xs ! (i div k))"
proof (induction xs arbitrary: i)
  case (Cons x xs)
  show ?case
  proof (cases "i < k")
    case False
    then have "i div k = Suc ((i - k) div k)" using Cons.prems(2) by (simp add: le_div_geq)
    then show ?thesis using False Cons by (simp add: nth_append)
  qed (simp add: nth_append)
qed simp

lemma look_e0: "look e0 t = chr64 (drop_bit 2 t)"
proof -
  have "unat (drop_bit 2 t) = unat t div 4" by (simp only: unat_drop_bit_eq) (simp add: drop_bit_eq_div)
  then show ?thesis using unat_u8_lt [of t] by (simp add: e0_table nth_concat_replicate chr64_def)
qed

lemma look_e1: "look e1 t = chr64 (t AND 63)"
proof -
  have q: "(xs @ xs @ xs @ xs) ! i = xs ! (i mod 64)" if "i < 256" "length xs = 64" for i and xs :: "nat list"
  proof -
    consider "i < 64" | "64 \<le> i" "i < 128" | "128 \<le> i" "i < 192" | "192 \<le> i" using that(1) by linarith
    then show ?thesis
      using that by cases (simp_all add: nth_append mod_if)
  qed
  have "unat (t AND 63) = unat t mod 64" using unat_and_mask [of t 6] by (simp add: mask_eq_exp_minus_1)
  then show ?thesis using q [of "unat t" alphabet] unat_u8_lt [of t] by (simp add: e1_table chr64_def del: map_append)
qed

lemma look_e2: "look e2 t = chr64 (t AND 63)"
  by (simp add: e2_table look_e1)

lemma unat_chr64: "unat v < 64 \<Longrightarrow> unat (chr64 v) = alphabet ! unat v"
  using alphabet_less [of "unat v"] by (simp add: chr64_def unat_of_nat)

lemma look_d:
  assumes "unat v < 64"
  shows "look d0 (chr64 v) = push_bit 2 (ucast v)"
    "look d1 (chr64 v) = drop_bit 4 (ucast v) OR push_bit 12 (ucast v AND 15)"
    "look d2 (chr64 v) = push_bit 8 (drop_bit 2 (ucast v)) OR push_bit 22 (ucast v AND 3)"
    "look d3 (chr64 v) = push_bit 16 (ucast v)"
  using assms by (simp_all add: d0_table d1_table d2_table d3_table unat_chr64 dtab_alphabet)

lemma look_pad:
  "look d0 CHARPAD = BADCHAR" "look d1 CHARPAD = BADCHAR" "look d2 CHARPAD = BADCHAR" "look d3 CHARPAD = BADCHAR"
  by (simp_all add: d0_table d1_table d2_table d3_table dtab_def nth_append)

subsection \<open>A group of characters\<close>

lemma masks: "(63 :: u8) = mask 6" "(15 :: 'a::len word) = mask 4" "(3 :: 'a::len word) = mask 2"
  by (simp_all add: mask_eq_exp_minus_1)

lemma six_bits:
  "unat (drop_bit 2 t :: u8) < 64" "unat (t AND 63 :: u8) < 64"
  "unat (push_bit 4 (t AND 3) OR (drop_bit 4 u AND 15) :: u8) < 64"
  "unat (push_bit 2 (t AND 15) OR (drop_bit 6 u AND 3) :: u8) < 64"
proof -
  have m: "unat (x AND 63 :: u8) < 64" for x using unat_and_mask [of x 6] by (simp add: mask_eq_exp_minus_1)
  have "drop_bit 2 t AND 63 = drop_bit 2 t"
    "(push_bit 4 (t AND 3) OR (drop_bit 4 u AND 15)) AND 63 = push_bit 4 (t AND 3) OR (drop_bit 4 u AND 15)"
    "(push_bit 2 (t AND 15) OR (drop_bit 6 u AND 3)) AND 63 = push_bit 2 (t AND 15) OR (drop_bit 6 u AND 3)"
    for t u :: u8
    unfolding masks by (rule bit_word_eqI; auto simp: bit_simps dest: bit_imp_le_length)+
  then show "unat (drop_bit 2 t :: u8) < 64" "unat (t AND 63 :: u8) < 64"
    "unat (push_bit 4 (t AND 3) OR (drop_bit 4 u AND 15) :: u8) < 64"
    "unat (push_bit 2 (t AND 15) OR (drop_bit 6 u AND 3) :: u8) < 64"
    using m by metis+
qed

lemma byte_high_bits: "8 \<le> n \<Longrightarrow> \<not> bit (t :: u8) n"
  by (auto dest: bit_imp_le_length)

lemma word32_eqI:
  assumes "list_all (\<lambda>n. bit x n = bit y n)
    [0, 1, 2, 3, 4, 5, 6, 7, 8, 9, 10, 11, 12, 13, 14, 15,
     16, 17, 18, 19, 20, 21, 22, 23, 24, 25, 26, 27, 28, 29, 30, 31]"
  shows "x = (y :: u32)"
proof (rule bit_word_eqI)
  fix n assume "n < LENGTH(32)"
  then have "n \<in> set [0, 1, 2, 3, 4, 5, 6, 7, 8, 9, 10, 11, 12, 13, 14, 15,
     16, 17, 18, 19, 20, 21, 22, 23, 24, 25, 26, 27, 28, 29, 30, 31]"
    by (simp add: numeral_eq_Suc less_Suc_eq)
  with assms show "bit x n = bit y n" by (simp only: list_all_iff)
qed

lemma group_bytes:
  fixes t1 t2 t3 :: u8
  shows "push_bit 2 (ucast (drop_bit 2 t1)) OR drop_bit 4 (ucast (push_bit 4 (t1 AND 3) OR (drop_bit 4 t2 AND 15))) =
      (ucast t1 :: u32)"
    and "push_bit 12 (ucast (push_bit 4 (t1 AND 3) OR (drop_bit 4 t2 AND 15)) AND 15) OR
      push_bit 8 (drop_bit 2 (ucast (push_bit 2 (t2 AND 15) OR (drop_bit 6 t3 AND 3)))) =
      (push_bit 8 (ucast t2) :: u32)"
    and "push_bit 22 (ucast (push_bit 2 (t2 AND 15) OR (drop_bit 6 t3 AND 3)) AND 3) OR push_bit 16 (ucast (t3 AND 63)) =
      (push_bit 16 (ucast t3) :: u32)"
  unfolding masks
  by (rule word32_eqI, simp add: bit_simps byte_high_bits del: add_2_eq_Suc add_2_eq_Suc')+

text \<open>The word of three bytes, and what the decoder makes of a group, of three and of two characters.\<close>

definition bytes3 :: "u8 \<Rightarrow> u8 \<Rightarrow> u8 \<Rightarrow> u32" where
  "bytes3 t1 t2 t3 = ucast t1 OR push_bit 8 (ucast t2) OR push_bit 16 (ucast t3)"

lemma bytes3_parts:
  "ucast (bytes3 t1 t2 t3) = t1" "ucast (drop_bit 8 (bytes3 t1 t2 t3)) = t2"
  "ucast (drop_bit 16 (bytes3 t1 t2 t3)) = t3"
  unfolding bytes3_def by (rule bit_word_eqI; auto simp: bit_simps dest: bit_imp_le_length)+

lemma bytes3_ok: "\<not> BADCHAR \<le> bytes3 t1 t2 t3"
proof -
  have "bytes3 t1 t2 t3 AND mask 24 = bytes3 t1 t2 t3"
    unfolding bytes3_def by (rule word32_eqI) (simp add: bit_simps byte_high_bits)
  then have "unat (bytes3 t1 t2 t3) = unat (bytes3 t1 t2 t3) mod 2 ^ 24"
    by (metis unat_and_mask)
  then have "unat (bytes3 t1 t2 t3) < 2 ^ 24" by (metis mod_less_divisor zero_less_numeral zero_less_power)
  then show ?thesis by (simp add: word_le_nat_alt)
qed

lemma enc3_chars:
  "enc3 t1 t2 t3 =
     [chr64 (drop_bit 2 t1), chr64 (push_bit 4 (t1 AND 3) OR (drop_bit 4 t2 AND 15)),
      chr64 (push_bit 2 (t2 AND 15) OR (drop_bit 6 t3 AND 3)), chr64 (t3 AND 63)]"
proof -
  have "(push_bit 4 (t AND 3) OR (drop_bit 4 u AND 15)) AND 63 = push_bit 4 (t AND 3) OR (drop_bit 4 u AND 15)"
    "(push_bit 2 (t AND 15) OR (drop_bit 6 u AND 3)) AND 63 = push_bit 2 (t AND 15) OR (drop_bit 6 u AND 3)"
    for t u :: u8
    unfolding masks by (rule bit_word_eqI; auto simp: bit_simps dest: bit_imp_le_length)+
  then show ?thesis unfolding enc3_def look_e0 look_e1 look_e2 by simp
qed

lemma dec_group:
  assumes "[c0, c1, c2, c3] = enc3 t1 t2 t3"
  shows "look d0 c0 OR look d1 c1 OR look d2 c2 OR look d3 c3 = bytes3 t1 t2 t3"
proof -
  have c: "c0 = chr64 (drop_bit 2 t1)" "c1 = chr64 (push_bit 4 (t1 AND 3) OR (drop_bit 4 t2 AND 15))"
    "c2 = chr64 (push_bit 2 (t2 AND 15) OR (drop_bit 6 t3 AND 3))" "c3 = chr64 (t3 AND 63)"
    using assms by (simp_all add: enc3_chars)
  show ?thesis
    unfolding c look_d(1) [OF six_bits(1)] look_d(2) [OF six_bits(3)] look_d(3) [OF six_bits(4)]
      look_d(4) [OF six_bits(2)] bytes3_def
      group_bytes(1) [of t1 t2, symmetric] group_bytes(2) [of t1 t2 t3, symmetric] group_bytes(3) [of t2 t3, symmetric]
    by (simp only: ac_simps)
qed

text \<open>A memory that holds a string at an address, and the bytes of a word read there.\<close>

definition holds :: "memory \<Rightarrow> nat \<Rightarrow> u8 list \<Rightarrow> bool" where
  "holds m a cs \<longleftrightarrow> (\<forall>i<length cs. m (a + i) = cs ! i)"

lemma holds_append: "holds m a (xs @ ys) \<longleftrightarrow> holds m a xs \<and> holds m (a + length xs) ys"
proof -
  have "(\<forall>i<length xs + length ys. P i) \<longleftrightarrow> (\<forall>i<length xs. P i) \<and> (\<forall>i<length ys. P (length xs + i))"
    (is "?L = ?R") for P
  proof
    assume r: ?R
    show ?L
    proof (intro allI impI)
      fix i assume i: "i < length xs + length ys"
      show "P i"
      proof (cases "i < length xs")
        case False
        then have "P (length xs + (i - length xs))" using r i by (metis add_less_cancel_left le_add_diff_inverse not_less)
        then show ?thesis using False by simp
      qed (use r in blast)
    qed
  qed simp
  from this [of "\<lambda>i. m (a + i) = (xs @ ys) ! i"] show ?thesis
    by (simp add: holds_def nth_append add.assoc)
qed

lemma holds_Nil [simp]: "holds m a []"
  by (simp add: holds_def)

lemma holds_Cons: "holds m a (x # xs) \<longleftrightarrow> m a = x \<and> holds m (a + 1) xs"
  using holds_append [of m a "[x]" xs] by (simp add: holds_def)

lemma byte_mask: "(0xff :: u32) = mask 8"
  by (simp add: mask_eq_exp_minus_1)

lemma disjoint_add: "x AND y = 0 \<Longrightarrow> x + y = x OR (y :: u32)"
  using word_plus_and_or [of x y] by simp

lemma read32_or:
  "read32 m a = byte_at m a OR push_bit 8 (byte_at m (a + 1)) OR push_bit 16 (byte_at m (a + 2)) OR
     push_bit 24 (byte_at m (a + 3))"
proof -
  have d: "x AND push_bit 8 y = 0" "(x OR push_bit 8 y) AND push_bit 16 z = 0"
    "(x OR push_bit 8 y OR push_bit 16 z) AND push_bit 24 w = 0"
    if "x = ucast (b0 :: u8)" "y = ucast (b1 :: u8)" "z = ucast (b2 :: u8)" "w = ucast (b3 :: u8)"
    for x y z w :: u32 and b0 b1 b2 b3
    unfolding that by (rule word32_eqI, simp add: bit_simps byte_high_bits)+
  show ?thesis unfolding read32_def
    by (simp add: disjoint_add d [OF refl refl refl refl] d [OF refl refl refl refl, unfolded or.assoc] or.assoc)
qed

lemma read32_bytes:
  "ucast (read32 m a AND 0xff) = m a" "ucast (drop_bit 8 (read32 m a) AND 0xff) = m (a + 1)"
  "ucast (drop_bit 16 (read32 m a) AND 0xff) = m (a + 2)" "ucast (drop_bit 24 (read32 m a) AND 0xff) = m (a + 3)"
  unfolding read32_or masks byte_mask by (rule bit_word_eqI; auto simp: bit_simps dest: bit_imp_le_length)+

lemma dec4_bytes:
  "dec4 (read32 m a) = look d0 (m a) OR look d1 (m (a + 1)) OR look d2 (m (a + 2)) OR look d3 (m (a + 3))"
  unfolding dec4_def read32_bytes ..

lemma dec4_enc3: "holds m a (enc3 t1 t2 t3) \<Longrightarrow> dec4 (read32 m a) = bytes3 t1 t2 t3"
  unfolding dec4_bytes by (rule dec_group) (simp add: enc3_def holds_Cons numeral_eq_Suc)

lemma length_enc3 [simp]: "length (enc3 t1 t2 t3) = 4"
  by (simp add: enc3_def)

subsection \<open>All but the last group\<close>

lemma dec_loop_ok:
  assumes "length str = 3 * n" "holds src s (base64_chars str)"
  shows "\<exists>dest'. dec_loop n src s dest p = Some dest' \<and> holds dest' p str \<and> (\<forall>a<p. dest' a = dest a)"
  using assms
proof (induction n arbitrary: str s dest p)
  case 0
  then show ?case by (simp add: holds_def)
next
  case (Suc n)
  obtain t1 t2 t3 str' where str: "str = t1 # t2 # t3 # str'" "length str' = 3 * n"
    using Suc.prems(1) by (cases str rule: base64_chars.cases) auto
  have h: "holds src s (enc3 t1 t2 t3)" "holds src (s + 4) (base64_chars str')"
    using Suc.prems(2) by (simp_all add: str holds_append)
  obtain dest' where d: "dec_loop n src (s + 4) (write32 dest p (bytes3 t1 t2 t3)) (p + 3) = Some dest'"
      "holds dest' (p + 3) str'" "\<forall>a<p + 3. dest' a = write32 dest p (bytes3 t1 t2 t3) a"
    using Suc.IH [OF str(2) h(2)] by blast
  then have "dec_loop (Suc n) src s dest p = Some dest'"
    using dec4_enc3 [OF h(1)] bytes3_ok by simp
  moreover have "holds dest' p str"
  proof -
    have "holds dest' p [t1, t2, t3]" using d(3) by (simp add: holds_Cons write32_def bytes3_parts)
    then show ?thesis using d(2) holds_append [of dest' p "[t1, t2, t3]" str'] by (simp add: str(1) numeral_3_eq_3)
  qed
  moreover have "\<forall>a<p. dest' a = dest a" using d(3) by (simp add: write32_def)
  ultimately show ?case by blast
qed

lemma base64_chars_append:
  "length xs mod 3 = 0 \<Longrightarrow> base64_chars (xs @ ys) = base64_chars xs @ base64_chars ys"
  by (induction xs rule: base64_chars.induct) auto

lemma length_chars3: "length xs = 3 * n \<Longrightarrow> length (base64_chars xs) = 4 * n"
proof (induction xs arbitrary: n rule: base64_chars.induct)
  case (1 t1 t2 t3 str)
  then show ?case by (cases n) auto
qed (auto simp: Suc_double_not_eq_double, presburger+)

subsection \<open>The decoder on what the encoder wrote\<close>

text \<open>The characters without the padding, and how a string splits into its last group and the groups before.\<close>

definition unpadded :: "u8 list \<Rightarrow> u8 list" where
  "unpadded str = takeWhile (\<lambda>c. c \<noteq> CHARPAD) (base64_chars str)"

lemma chr64_not_pad: "unat v < 64 \<Longrightarrow> chr64 v \<noteq> CHARPAD"
proof
  assume "unat v < 64" "chr64 v = CHARPAD"
  then have "alphabet ! unat v = 61" using unat_chr64 [of v] by simp
  with \<open>unat v < 64\<close> show False by (cases "unat v" rule: v64_cases) auto
qed

lemma unpadded_simps [simp]:
  "unpadded [] = []" "unpadded (t1 # t2 # t3 # str) = enc3 t1 t2 t3 @ unpadded str"
  "unpadded [t1] = [look e0 t1, look e1 (push_bit 4 (t1 AND 3))]"
  "unpadded [t1, t2] = [look e0 t1, look e1 (push_bit 4 (t1 AND 3) OR (drop_bit 4 t2 AND 15)), look e2 (push_bit 2 (t2 AND 15))]"
  unfolding unpadded_def enc3_def look_e0 look_e1 look_e2 base64_chars.simps
  using chr64_not_pad six_bits(1,2) by simp_all

lemma unpadded_append: "length xs mod 3 = 0 \<Longrightarrow> unpadded (xs @ ys) = base64_chars xs @ unpadded ys"
  by (induction xs rule: base64_chars.induct) auto

lemma last_group:
  assumes "str \<noteq> []"
  obtains n xs ys where "str = xs @ ys" "length xs = 3 * n" "ys \<noteq> []" "length ys \<le> 3"
    "length str = 3 * n + length ys"
proof -
  define n where "n = (length str - 1) div 3"
  have "3 * n \<le> length str - 1" "length str - 1 < 3 * n + 3" unfolding n_def by presburger+
  moreover have "0 < length str" using assms by simp
  ultimately have "3 * n < length str" "length str \<le> 3 * n + 3" by linarith+
  then show ?thesis by (intro that [of "take (3 * n) str" "drop (3 * n) str" n]) simp_all
qed

text \<open>The last one or two bytes: the group is the one of the bytes followed by zeros.\<close>

lemma dec_last2:
  "look d0 (look e0 t1) OR look d1 (look e1 (push_bit 4 (t1 AND 3))) = bytes3 t1 0 0"
proof -
  have v: "push_bit 4 (t1 AND 3) AND 63 = push_bit 4 (t1 AND 3)"
    unfolding masks by (rule bit_word_eqI; auto simp: bit_simps)
  have "unat (push_bit 4 (t1 AND 3)) < 64" using six_bits(3) [of t1 0] by simp
  then show ?thesis
    using group_bytes(1) [of t1 0] group_bytes(2) [of t1 0 0]
    unfolding look_e0 look_e1 v by (simp add: look_d six_bits bytes3_def or.assoc [symmetric])
qed

lemma dec_last3:
  "look d0 (look e0 t1) OR look d1 (look e1 (push_bit 4 (t1 AND 3) OR (drop_bit 4 t2 AND 15))) OR
     look d2 (look e2 (push_bit 2 (t2 AND 15))) = bytes3 t1 t2 0"
proof -
  have z: "look e2 (push_bit 2 (t2 AND 15)) = look e1 (push_bit 2 (t2 AND 15) OR (drop_bit 6 0 AND 3))"
    by (simp add: e2_table)
  have "look d3 (look e2 0) = 0" by (simp only: look_e2) (simp add: look_d)
  then show ?thesis
    using dec_group [of _ _ _ _ t1 t2 0, OF enc3_def [symmetric]] unfolding z by (simp add: or.assoc)
qed

lemma mod_less4: "k < 4 \<Longrightarrow> (4 * n + k) mod 4 = k" "k < 4 \<Longrightarrow> (4 * n + k) div 4 = (n :: nat)"
  by auto

lemma decode_leftover0:
  assumes "dec_loop n src s dest p = Some out" "dec4 (read32 src (s + 4 * n)) = x" "\<not> BADCHAR \<le> x"
  shows "base64_decode src s (4 * n + 4) dest p =
    (3 * int n + 3, out(p + 3 * n := ucast x, p + 3 * n + 1 := ucast (drop_bit 8 x), p + 3 * n + 2 := ucast (drop_bit 16 x)))"
  using assms by (simp add: base64_decode_def Let_def)

lemma decode_leftover3:
  assumes "dec_loop n src s dest p = Some out" "\<not> BADCHAR \<le> x"
    "look d0 (src (s + 4 * n)) OR look d1 (src (s + 4 * n + 1)) OR look d2 (src (s + 4 * n + 2)) = x"
  shows "base64_decode src s (4 * n + 3) dest p =
    (3 * int n + 2, out(p + 3 * n := ucast x, p + 3 * n + 1 := ucast (drop_bit 8 x)))"
  unfolding base64_decode_def Let_def mod_less4 [of 3 n, simplified] read32_bytes assms(1,3) mod_less4 [of 3 n, simplified]
  using assms by (simp add: mod_less4 read32_bytes del: drop_bit_or add_2_eq_Suc' One_nat_def)

lemma decode_leftover2:
  assumes "dec_loop n src s dest p = Some out" "\<not> BADCHAR \<le> x"
    "look d0 (src (s + 4 * n)) OR look d1 (src (s + 4 * n + 1)) = x"
  shows "base64_decode src s (4 * n + 2) dest p = (3 * int n + 1, out(p + 3 * n := ucast x))"
  unfolding base64_decode_def Let_def mod_less4 [of 2 n, simplified] read32_bytes assms(1,3)
  using assms by (simp add: mod_less4 read32_bytes del: drop_bit_or add_2_eq_Suc' One_nat_def)

lemma decode_encoded:
  assumes "holds src s (unpadded str)"
  obtains dest' where "base64_decode src s (length (unpadded str)) dest p = (int (length str), dest')" "holds dest' p str"
proof (cases "str = []")
  case True
  then show ?thesis using that by (simp add: base64_decode_def holds_def)
next
  case False
  then obtain n xs ys where str: "str = xs @ ys" "length xs = 3 * n" "ys \<noteq> []" "length ys \<le> 3"
    "length str = 3 * n + length ys" by (rule last_group)
  have u: "unpadded str = base64_chars xs @ unpadded ys" using str by (simp add: unpadded_append)
  have h: "holds src s (base64_chars xs)" "holds src (s + 4 * n) (unpadded ys)"
    using assms length_chars3 [OF str(2)] by (simp_all add: u holds_append)
  obtain dest1 where d: "dec_loop n src s dest p = Some dest1" "holds dest1 p xs"
    using dec_loop_ok [OF str(2) h(1)] by blast
  have low: "holds dest1' p (xs @ ys)" if "holds dest1' (p + 3 * n) ys" "\<forall>a<p + 3 * n. dest1' a = dest1 a" for dest1'
    using d(2) str(2) that by (simp add: holds_append) (simp add: holds_def)
  consider t1 t2 t3 where "ys = [t1, t2, t3]" | t1 t2 where "ys = [t1, t2]" | t1 where "ys = [t1]"
    using str(3,4) by (cases ys rule: base64_chars.cases) auto
  then show ?thesis
  proof cases
    case (1 t1 t2 t3)
    have x: "dec4 (read32 src (s + 4 * n)) = bytes3 t1 t2 t3" using h(2) 1 by (intro dec4_enc3) simp
    have l: "length (unpadded str) = 4 * n + 4" "int (length str) = 3 * int n + 3"
      using 1 u length_chars3 [OF str(2)] str(5) by simp_all
    show ?thesis
      by (rule that, unfold l, rule decode_leftover0 [OF d(1) x bytes3_ok], unfold str(1), rule low)
        (simp_all add: 1 holds_Cons bytes3_parts)
  next
    case (2 t1 t2)
    have x: "look d0 (src (s + 4 * n)) OR look d1 (src (s + 4 * n + 1)) OR look d2 (src (s + 4 * n + 2)) = bytes3 t1 t2 0"
      unfolding dec_last3 [symmetric] using h(2) 2 by (simp add: holds_Cons)
    have l: "length (unpadded str) = 4 * n + 3" "int (length str) = 3 * int n + 2"
      using 2 u length_chars3 [OF str(2)] str(5) by simp_all
    show ?thesis
      by (rule that, unfold l, rule decode_leftover3 [OF d(1) bytes3_ok x], unfold str(1), rule low)
        (simp_all add: 2 holds_Cons bytes3_parts)
  next
    case (3 t1)
    have x: "look d0 (src (s + 4 * n)) OR look d1 (src (s + 4 * n + 1)) = bytes3 t1 0 0"
      unfolding dec_last2 [symmetric] using h(2) 3 by (simp add: holds_Cons)
    have l: "length (unpadded str) = 4 * n + 2" "int (length str) = 3 * int n + 1"
      using 3 u length_chars3 [OF str(2)] str(5) by simp_all
    show ?thesis
      by (rule that, unfold l, rule decode_leftover2 [OF d(1) bytes3_ok x], unfold str(1), rule low)
        (simp_all add: 3 holds_Cons bytes3_parts)
  qed
qed

text \<open>The last group of a padded string has the padding as its fourth character.\<close>

lemma le_or: "y \<le> x OR (y :: u32)"
proof -
  have "uint y \<le> uint y OR uint x" by (rule or_greater_eq) simp
  then show ?thesis by (simp add: word_le_def unsigned_or_eq or.commute)
qed

lemma padded_fails:
  assumes "length str mod 3 \<noteq> 0" "holds src s (base64_chars str)"
  shows "fst (base64_decode src s (length (base64_chars str)) dest p) = -1"
proof -
  have "str \<noteq> []" using assms(1) by auto
  then obtain n xs ys where str: "str = xs @ ys" "length xs = 3 * n" "ys \<noteq> []" "length ys \<le> 3"
    "length str = 3 * n + length ys" by (rule last_group)
  have c: "base64_chars str = base64_chars xs @ base64_chars ys" using str by (simp add: base64_chars_append)
  have "length ys \<noteq> 3" using assms(1) str(5) by auto
  then consider t1 t2 where "ys = [t1, t2]" | t1 where "ys = [t1]"
    using str(3,4) by (cases ys rule: base64_chars.cases) auto
  then have ys: "length (base64_chars ys) = 4 \<and> base64_chars ys ! 3 = CHARPAD" by cases simp_all
  have h: "holds src s (base64_chars xs)" "holds src (s + 4 * n) (base64_chars ys)"
    using assms(2) length_chars3 [OF str(2)] by (simp_all add: c holds_append)
  obtain dest1 where d: "dec_loop n src s dest p = Some dest1" using dec_loop_ok [OF str(2) h(1)] by blast
  have "src (s + 4 * n + 3) = CHARPAD" using h(2) ys by (simp add: holds_def)
  then have "BADCHAR \<le> dec4 (read32 src (s + 4 * n))"
    unfolding dec4_bytes by (simp only: look_pad or.assoc [symmetric] le_or)
  moreover have "length (base64_chars str) = 4 * n + 4" using ys length_chars3 [OF str(2)] by (simp add: c)
  ultimately show ?thesis using d by (simp add: base64_decode_def Let_def)
qed

subsection \<open>Properties\<close>

text \<open>
  C38 (roundtrip): decoding the characters that \<open>base64_encode\<close> wrote, without the padding,
  returns the length of the original bytes and stores them in the output buffer, for every length
  and whatever follows the characters in memory.
\<close>

theorem base64_roundtrip:
  assumes "\<forall>i<length cs. src (s + i) = cs ! i" and "cs = takeWhile (\<lambda>c. c \<noteq> CHARPAD) (butlast (fst (base64_encode str)))"
  shows "fst (base64_decode src s (length cs) dest p) = int (length str) \<and>
    (\<forall>i<length str. snd (base64_decode src s (length cs) dest p) (p + i) = str ! i)"
proof -
  have cs: "cs = unpadded str" using assms(2) by (simp add: base64_encode_def unpadded_def)
  have "holds src s (unpadded str)" using assms(1) unfolding cs holds_def .
  then show ?thesis by (rule decode_encoded [of src s str dest p]) (simp add: cs holds_def)
qed

definition ex_chars :: memory where
  "ex_chars = (\<lambda>a. if a < 10 then 0 else [81, 85, 74, 68, 82, 65, 61] ! (a - 10))"

theorem base64_roundtrip_witness:
  "fst (base64_decode ex_chars 10 6 (\<lambda>_. 0) 0) = 4 \<and>
   snd (base64_decode ex_chars 10 6 (\<lambda>_. 0) 0) 3 = 68"
proof -
  have cs: "[81, 85, 74, 68, 82, 65] = takeWhile (\<lambda>c. c \<noteq> CHARPAD) (butlast (fst (base64_encode [65, 66, 67, 68])))"
    by code_simp
  have "\<forall>i<length [81, 85, 74, 68, 82, 65 :: u8]. ex_chars (10 + i) = [81, 85, 74, 68, 82, 65] ! i"
    by (simp add: ex_chars_def less_Suc_eq)
  note r = base64_roundtrip [OF this cs, of "\<lambda>_. 0" 0]
  have l: "length [81, 85, 74, 68, 82, 65 :: u8] = 6" "length [65, 66, 67, 68 :: u8] = 4" by simp_all
  show ?thesis using r [unfolded l, THEN conjunct1] r [unfolded l, THEN conjunct2, rule_format, of 3] by simp
qed

text \<open>
  The decoder is built without \<open>DOPAD\<close>, so it rejects the padding that the encoder
  always writes: passing the encoder's output unchanged to the decoder returns -1 unless the
  length of the data is a multiple of three.
\<close>

lemma base64_padding_rejected:
  assumes "length str mod 3 \<noteq> 0" and "\<forall>i<nat n. src (s + i) = fst (base64_encode str) ! i"
    and "n = snd (base64_encode str)"
  shows "fst (base64_decode src s (nat n) dest p) = -1"
proof -
  have n: "nat n = length (base64_chars str)" using assms(3) by (simp add: base64_encode_def)
  have "holds src s (base64_chars str)" using assms(2) unfolding n holds_def by (simp add: base64_encode_def nth_append)
  from padded_fails [OF assms(1) this] show ?thesis by (simp add: n)
qed

lemma base64_padding_rejected_witness:
  "fst (base64_decode (\<lambda>a. [81, 81, 61, 61] ! a) 0 4 (\<lambda>_. 0) 0) = -1"
proof -
  have e: "base64_encode [65] = ([81, 81, 61, 61, 0], 4)" by code_simp
  have "(\<forall>i<nat 4. P i) \<longleftrightarrow> P 0 \<and> P 1 \<and> P 2 \<and> P 3" for P
    by (auto simp: numeral_eq_Suc less_Suc_eq)
  then have "\<forall>i<nat 4. [81, 81, 61, 61] ! (0 + i) = fst (base64_encode [65]) ! i" by (simp add: e)
  from base64_padding_rejected [OF _ this] show ?thesis by (simp add: e)
qed

end
