(* ===== verification/Rqsort.thy ===== *)
theory Rqsort
  imports Prelude "HOL-Library.Multiset"
begin

text \<open>
  The sorting function \<open>rqsort\<close> of \<open>qjs/cutils.c\<close>: a quicksort with a three-way partition, a
  local stack of at most 50 segments, a heapsort for recursions deeper than 50 and an insertion
  sort for at most 6 elements. The array is a list of elements: the pointer \<open>base + k * size\<close>
  is the index \<open>k\<close>, and a pointer with a count of elements is a slice of the list. The
  comparison function is an argument, \<open>cmp a b :: int\<close>, whose result depends on nothing but the two elements; its opaque argument is
  fixed. Elements are read with \<open>!\<close>, so that a read out of range would not be an error of the model; exchanges out of range would change the
  multiset of the elements. The
  exchange of two elements is modelled on bytes in the theory \<open>Exchange\<close>, where it is shown to
  be the exchange used here.
\<close>

subsection \<open>Exchanging elements\<close>

definition swap :: "nat \<Rightarrow> nat \<Rightarrow> 'a list \<Rightarrow> 'a list" where
  "swap i j xs = xs[i := xs ! j, j := xs ! i]"

fun swap_block :: "nat \<Rightarrow> nat \<Rightarrow> nat \<Rightarrow> 'a list \<Rightarrow> 'a list" where
  "swap_block a b 0 xs = xs"
| "swap_block a b (Suc n) xs = swap_block (Suc a) (Suc b) n (swap a b xs)"

lemma length_swap [simp]: "length (swap i j xs) = length xs"
  by (simp add: swap_def)

lemma mset_swap_nth [simp]: "i < length xs \<Longrightarrow> j < length xs \<Longrightarrow> mset (swap i j xs) = mset xs"
  by (simp add: swap_def mset_swap)

lemma nth_swap:
  "i < length xs \<Longrightarrow> j < length xs \<Longrightarrow> k < length xs \<Longrightarrow>
   swap i j xs ! k = (if k = i then xs ! j else if k = j then xs ! i else xs ! k)"
  by (auto simp: swap_def nth_list_update)

lemma length_swap_block [simp]: "length (swap_block a b n xs) = length xs"
  by (induction a b n xs rule: swap_block.induct) auto

lemma mset_swap_block:
  "a + n \<le> length xs \<Longrightarrow> b + n \<le> length xs \<Longrightarrow> mset (swap_block a b n xs) = mset xs"
  by (induction a b n xs rule: swap_block.induct) auto

lemma nth_swap_block:
  "a + n \<le> b \<Longrightarrow> b + n \<le> length xs \<Longrightarrow> k < length xs \<Longrightarrow>
   swap_block a b n xs ! k =
     (if a \<le> k \<and> k < a + n then xs ! (k - a + b)
      else if b \<le> k \<and> k < b + n then xs ! (k - b + a) else xs ! k)"
proof (induction a b n xs rule: swap_block.induct)
  case (2 a b n xs)
  note bd = 2(2-4)
  define ys where "ys = swap a b xs"
  have y: "ys ! l = (if l = a then xs ! b else if l = b then xs ! a else xs ! l)" if "l < length xs" for l
    using that 2(2,3) by (simp add: ys_def nth_swap)
  have ih: "swap_block a b (Suc n) xs ! k = (if Suc a \<le> k \<and> k < Suc a + n then ys ! (k - Suc a + Suc b)
      else if Suc b \<le> k \<and> k < Suc b + n then ys ! (k - Suc b + Suc a) else ys ! k)"
    using 2 by (simp add: ys_def)
  consider "k = a" | "k = b" | "Suc a \<le> k" "k < Suc a + n" | "Suc b \<le> k" "k < Suc b + n"
    | "k < a \<or> a + Suc n \<le> k" "k < b \<or> b + Suc n \<le> k" by linarith
  then show ?case
  proof cases
    case 1
    then show ?thesis unfolding ih using 2(2-4) by (auto simp: y)
  next
    case 2
    show ?thesis unfolding ih using 2 bd by (auto simp: y)
  next
    case 3
    then have e: "k - Suc a + Suc b = k - a + b" by simp
    have "k - a + b \<noteq> a" "k - a + b \<noteq> b" "k - a + b < length xs" using 3 2(2,3) by linarith+
    then have "ys ! (k - a + b) = xs ! (k - a + b)" by (metis y)
    then show ?thesis unfolding ih e using 3 by simp
  next
    case 4
    then have e: "k - Suc b + Suc a = k - b + a" by simp
    have "k - b + a \<noteq> a" "k - b + a \<noteq> b" "k - b + a < length xs" using 4 2(2,3) by linarith+
    then have "ys ! (k - b + a) = xs ! (k - b + a)" by (metis y)
    then show ?thesis unfolding ih e using 4 2(2) by simp
  qed (use 2(2-4) in \<open>auto simp: ih [unfolded swap_block.simps] y\<close>)
qed auto

subsection \<open>Heapsort\<close>

text \<open>The inner loop, the same in both phases: \<open>r\<close> sinks in the heap of the first \<open>n\<close> elements.\<close>

definition heap_child :: "('a \<Rightarrow> 'a \<Rightarrow> int) \<Rightarrow> nat \<Rightarrow> nat \<Rightarrow> 'a list \<Rightarrow> nat" where
  "heap_child cmp n r xs =
     (let c = r * 2 + 1
      in if c < n - 1 \<and> cmp (xs ! c) (xs ! (c + 1)) \<le> 0 then c + 1 else c)"

function heap_sink :: "('a \<Rightarrow> 'a \<Rightarrow> int) \<Rightarrow> nat \<Rightarrow> nat \<Rightarrow> 'a list \<Rightarrow> 'a list" where
  "heap_sink cmp n r xs =
     (if r * 2 + 1 < n then
        let c = heap_child cmp n r xs
        in if cmp (xs ! r) (xs ! c) > 0 then xs else heap_sink cmp n c (swap r c xs)
      else xs)"
  by pat_completeness auto
termination
  by (relation "measure (\<lambda>(cmp, n, r, xs). n - r)") (auto simp: heap_child_def Let_def)

fun heap_build :: "('a \<Rightarrow> 'a \<Rightarrow> int) \<Rightarrow> nat \<Rightarrow> nat \<Rightarrow> 'a list \<Rightarrow> 'a list" where
  "heap_build cmp n 0 xs = xs"
| "heap_build cmp n (Suc i) xs = heap_build cmp n i (heap_sink cmp n i xs)"

fun heap_extract :: "('a \<Rightarrow> 'a \<Rightarrow> int) \<Rightarrow> nat \<Rightarrow> 'a list \<Rightarrow> 'a list" where
  "heap_extract cmp 0 xs = xs"
| "heap_extract cmp (Suc i) xs = heap_extract cmp i (heap_sink cmp (Suc i) 0 (swap 0 (Suc i) xs))"

definition heapsortx :: "('a \<Rightarrow> 'a \<Rightarrow> int) \<Rightarrow> 'a list \<Rightarrow> 'a list" where
  "heapsortx cmp xs =
     (let nmemb = length xs
      in if nmemb > 1 then heap_extract cmp (nmemb - 1) (heap_build cmp nmemb (nmemb div 2) xs)
         else xs)"

subsection \<open>Insertion sort\<close>

fun insert_down :: "('a \<Rightarrow> 'a \<Rightarrow> int) \<Rightarrow> nat \<Rightarrow> 'a list \<Rightarrow> 'a list" where
  "insert_down cmp 0 xs = xs"
| "insert_down cmp (Suc j) xs =
     (if cmp (xs ! j) (xs ! Suc j) > 0 then insert_down cmp j (swap (Suc j) j xs) else xs)"

fun insert_from :: "('a \<Rightarrow> 'a \<Rightarrow> int) \<Rightarrow> nat \<Rightarrow> nat \<Rightarrow> 'a list \<Rightarrow> 'a list" where
  "insert_from cmp i 0 xs = xs"
| "insert_from cmp i (Suc n) xs = insert_from cmp (Suc i) n (insert_down cmp i xs)"

definition insertion_sort :: "('a \<Rightarrow> 'a \<Rightarrow> int) \<Rightarrow> 'a list \<Rightarrow> 'a list" where
  "insertion_sort cmp xs = insert_from cmp 1 (length xs - 1) xs"

subsection \<open>Partition\<close>

definition med3 :: "('a \<Rightarrow> 'a \<Rightarrow> int) \<Rightarrow> 'a list \<Rightarrow> nat \<Rightarrow> nat \<Rightarrow> nat \<Rightarrow> nat" where
  "med3 cmp xs a b c =
     (if cmp (xs ! a) (xs ! b) < 0
      then (if cmp (xs ! b) (xs ! c) < 0 then b else if cmp (xs ! a) (xs ! c) < 0 then c else a)
      else (if cmp (xs ! b) (xs ! c) > 0 then b else if cmp (xs ! a) (xs ! c) < 0 then a else c))"

text \<open>The two scans: \<open>pi\<close> moves up, \<open>pj\<close> moves down (it is decremented before the test).\<close>

function part_up :: "('a \<Rightarrow> 'a \<Rightarrow> int) \<Rightarrow> nat \<Rightarrow> nat \<Rightarrow> nat \<Rightarrow> 'a list \<Rightarrow> nat \<times> nat \<times> 'a list" where
  "part_up cmp j i lt xs =
     (if i < j \<and> cmp (xs ! 0) (xs ! i) \<ge> 0 then
        if cmp (xs ! 0) (xs ! i) = 0 then part_up cmp j (i + 1) (lt + 1) (swap lt i xs)
        else part_up cmp j (i + 1) lt xs
      else (i, lt, xs))"
  by pat_completeness auto
termination by (relation "measure (\<lambda>(cmp, j, i, lt, xs). j - i)") auto

declare heap_sink.simps [simp del] part_up.simps [simp del]

function part_down :: "('a \<Rightarrow> 'a \<Rightarrow> int) \<Rightarrow> nat \<Rightarrow> nat \<Rightarrow> nat \<Rightarrow> 'a list \<Rightarrow> nat \<times> nat \<times> 'a list" where
  "part_down cmp i j gt xs =
     (let j = j - 1
      in if i < j \<and> cmp (xs ! 0) (xs ! j) \<le> 0 then
           if cmp (xs ! 0) (xs ! j) = 0 then part_down cmp i j (gt - 1) (swap (gt - 1) j xs)
           else part_down cmp i j gt xs
         else (j, gt, xs))"
  by pat_completeness auto
termination by (relation "measure (\<lambda>(cmp, i, j, gt, xs). j)") auto

declare part_down.simps [simp del]

lemma part_up_mono: "part_up cmp j i lt xs = (i', lt', xs') \<Longrightarrow> i \<le> i'"
proof (induction cmp j i lt xs rule: part_up.induct)
  case (1 cmp j i lt xs)
  have "i + 1 \<le> i'" if "i < j \<and> cmp (xs ! 0) (xs ! i) \<ge> 0"
    using 1 that part_up.simps [of cmp j i lt xs] by (auto split: if_splits)
  then show ?case using 1(3) part_up.simps [of cmp j i lt xs] by (cases "i < j \<and> cmp (xs ! 0) (xs ! i) \<ge> 0") auto
qed

lemma part_down_mono: "part_down cmp i j gt xs = (j', gt', xs') \<Longrightarrow> j' \<le> j - 1"
proof (induction cmp i j gt xs rule: part_down.induct)
  case (1 cmp i j gt xs)
  let ?c = "i < j - 1 \<and> cmp (xs ! 0) (xs ! (j - 1)) \<le> 0"
  have "j' \<le> j - 1 - 1" if ?c
    using 1(1,2) [OF refl that] 1(3) that part_down.simps [of cmp i j gt xs]
    by (cases "cmp (xs ! 0) (xs ! (j - 1)) = 0") (auto simp: Let_def)
  then show ?case using 1(3) part_down.simps [of cmp i j gt xs]
    by (cases ?c) (auto simp: Let_def)
qed

function part_loop ::
  "('a \<Rightarrow> 'a \<Rightarrow> int) \<Rightarrow> nat \<Rightarrow> nat \<Rightarrow> nat \<Rightarrow> nat \<Rightarrow> 'a list \<Rightarrow> nat \<times> nat \<times> nat \<times> 'a list" where
  "part_loop cmp i lt j gt xs =
     (case part_up cmp j i lt xs of (i, lt, xs) \<Rightarrow>
        case part_down cmp i j gt xs of (j, gt, xs) \<Rightarrow>
          if i \<ge> j then (i, lt, gt, xs)
          else part_loop cmp (i + 1) lt j gt (swap i j xs))"
  by pat_completeness auto
termination
  by (relation "measure (\<lambda>(cmp, i, lt, j, gt, xs). j - i)")
    (auto dest!: part_up_mono [OF sym] part_down_mono [OF sym])

declare part_loop.simps [simp del]

text \<open>One round of the quicksort on a slice: the slice with its three parts, and their bounds.\<close>

definition partition_slice :: "('a \<Rightarrow> 'a \<Rightarrow> int) \<Rightarrow> 'a list \<Rightarrow> nat \<times> nat \<times> 'a list" where
  "partition_slice cmp xs =
     (let nmemb = length xs;
          m4 = nmemb div 4;
          m = med3 cmp xs m4 (2 * m4) (3 * m4);
          xs = swap 0 m xs
      in case part_loop cmp 1 1 nmemb nmemb xs of (i, lt, gt, xs) \<Rightarrow>
           let span = lt; span2 = i - lt;
               lt' = i - lt;
               span = (if span > span2 then span2 else span);
               xs = swap_block 0 (i - span) span xs;
               span = nmemb - gt; span2 = gt - i;
               gt' = nmemb - (gt - i);
               span = (if span > span2 then span2 else span);
               xs = swap_block i (nmemb - span) span xs
           in (lt', gt', xs))"


subsection \<open>Partition: correctness\<close>

text \<open>
  The state of the partition loop, \<open>p\<close> the pivot at index 0: the scanned elements are equal to
  it, smaller, greater, equal, in this order; the elements of \<open>[i, j[\<close> are still to be scanned.
\<close>

definition part_inv ::
  "('a \<Rightarrow> 'a \<Rightarrow> int) \<Rightarrow> 'a \<Rightarrow> nat \<Rightarrow> nat \<Rightarrow> nat \<Rightarrow> nat \<Rightarrow> nat \<Rightarrow> 'a list \<Rightarrow> bool" where
  "part_inv cmp p n i lt j gt xs \<longleftrightarrow>
     length xs = n \<and> xs ! 0 = p \<and> 1 \<le> lt \<and> lt \<le> i \<and> i \<le> j \<and> j \<le> gt \<and> gt \<le> n \<and>
     (\<forall>k. 1 \<le> k \<and> k < lt \<longrightarrow> cmp p (xs ! k) = 0) \<and>
     (\<forall>k. lt \<le> k \<and> k < i \<longrightarrow> cmp p (xs ! k) > 0) \<and>
     (\<forall>k. j \<le> k \<and> k < gt \<longrightarrow> cmp p (xs ! k) < 0) \<and>
     (\<forall>k. gt \<le> k \<and> k < n \<longrightarrow> cmp p (xs ! k) = 0)"

lemma part_invD:
  assumes "part_inv cmp p n i lt j gt xs"
  shows "length xs = n" "xs ! 0 = p" "1 \<le> lt" "lt \<le> i" "i \<le> j" "j \<le> gt" "gt \<le> n"
    and "\<And>k. 1 \<le> k \<Longrightarrow> k < lt \<Longrightarrow> cmp p (xs ! k) = 0"
    and "\<And>k. lt \<le> k \<Longrightarrow> k < i \<Longrightarrow> cmp p (xs ! k) > 0"
    and "\<And>k. j \<le> k \<Longrightarrow> k < gt \<Longrightarrow> cmp p (xs ! k) < 0"
    and "\<And>k. gt \<le> k \<Longrightarrow> k < n \<Longrightarrow> cmp p (xs ! k) = 0"
  using assms by (auto simp: part_inv_def)

lemma part_invI:
  assumes "length xs = n" "xs ! 0 = p" "1 \<le> lt" "lt \<le> i" "i \<le> j" "j \<le> gt" "gt \<le> n"
    and "\<And>k. 1 \<le> k \<Longrightarrow> k < lt \<Longrightarrow> cmp p (xs ! k) = 0"
    and "\<And>k. lt \<le> k \<Longrightarrow> k < i \<Longrightarrow> cmp p (xs ! k) > 0"
    and "\<And>k. j \<le> k \<Longrightarrow> k < gt \<Longrightarrow> cmp p (xs ! k) < 0"
    and "\<And>k. gt \<le> k \<Longrightarrow> k < n \<Longrightarrow> cmp p (xs ! k) = 0"
  shows "part_inv cmp p n i lt j gt xs"
  using assms by (auto simp: part_inv_def)

lemma part_inv_up:
  assumes "part_inv cmp p n i lt j gt xs" and "i < j" and "cmp p (xs ! i) \<ge> 0"
  shows "cmp p (xs ! i) = 0 \<Longrightarrow> part_inv cmp p n (i + 1) (lt + 1) j gt (swap lt i xs)"
    and "cmp p (xs ! i) \<noteq> 0 \<Longrightarrow> part_inv cmp p n (i + 1) lt j gt xs"
proof -
  have l: "lt < length xs" "i < length xs" "1 \<le> lt" "lt \<le> i" using assms by (auto simp: part_inv_def)
  have sw: "swap lt i xs ! k = (if k = lt then xs ! i else if k = i then xs ! lt else xs ! k)"
    if "k < n" for k using that l assms(1) by (simp add: nth_swap part_inv_def)
  show "cmp p (xs ! i) = 0 \<Longrightarrow> part_inv cmp p n (i + 1) (lt + 1) j gt (swap lt i xs)"
    using assms l by (auto simp: part_inv_def sw less_Suc_eq)
  show "cmp p (xs ! i) \<noteq> 0 \<Longrightarrow> part_inv cmp p n (i + 1) lt j gt xs"
    using assms l by (auto simp: part_inv_def less_Suc_eq)
qed

lemma part_up_inv:
  "part_up cmp j i lt xs = (i', lt', xs') \<Longrightarrow> part_inv cmp p n i lt j gt xs \<Longrightarrow>
   part_inv cmp p n i' lt' j gt xs' \<and> mset xs' = mset xs \<and> (i' < j \<longrightarrow> cmp p (xs' ! i') < 0)"
proof (induction cmp j i lt xs rule: part_up.induct)
  case (1 cmp j i lt xs)
  have p: "xs ! 0 = p" using 1(4) by (simp add: part_inv_def)
  note s = part_up.simps [of cmp j i lt xs] and u = part_inv_up [OF 1(4)]
  show ?case
  proof (cases "i < j \<and> cmp p (xs ! i) \<ge> 0")
    case False
    then show ?thesis using 1(3,4) s p by auto
  next
    case True
    have "lt < length xs" "i < length xs" using 1(4) True by (auto simp: part_inv_def)
    then show ?thesis
      using 1(1,2) 1(3) s u True p by (cases "cmp p (xs ! i) = 0") auto
  qed
qed


lemma part_inv_down:
  assumes "part_inv cmp p n i lt j gt xs" and "i < j - 1" and "cmp p (xs ! (j - 1)) \<le> 0"
  shows "cmp p (xs ! (j - 1)) = 0 \<Longrightarrow> part_inv cmp p n i lt (j - 1) (gt - 1) (swap (gt - 1) (j - 1) xs)"
    and "cmp p (xs ! (j - 1)) \<noteq> 0 \<Longrightarrow> part_inv cmp p n i lt (j - 1) gt xs"
proof -
  obtain j1 where j: "j = Suc j1" using assms(2) by (cases j) auto
  obtain g1 where g: "gt = Suc g1" using assms(1) j by (cases gt) (auto simp: part_inv_def)
  have l: "g1 < length xs" "j1 \<le> g1" "i < j1" "1 \<le> lt" "lt \<le> i" "length xs = n"
    using assms j g by (auto simp: part_inv_def)
  have sw: "swap g1 j1 xs ! k = (if k = g1 then xs ! j1 else if k = j1 then xs ! g1 else xs ! k)"
    if "k < n" for k using that l by (simp add: nth_swap)
  note I = part_invD [OF assms(1), unfolded j g]
  have jg: "cmp p (xs ! k) < 0" if "j1 < k" "k \<le> g1" for k using I(10) that by simp
  show "part_inv cmp p n i lt (j - 1) (gt - 1) (swap (gt - 1) (j - 1) xs)"
    if "cmp p (xs ! (j - 1)) = 0"
    unfolding j g diff_Suc_1
  proof (rule part_invI)
    show "cmp p (swap g1 j1 xs ! k) < 0" if "j1 \<le> k" "k < g1" for k
      using that l jg [of g1] jg [of k] by (auto simp: sw)
    show "cmp p (swap g1 j1 xs ! k) = 0" if "g1 \<le> k" "k < n" for k
      using that l I(11) [of k] \<open>cmp p (xs ! (j - 1)) = 0\<close> by (auto simp: sw j)
  qed (use l I in \<open>auto simp: sw\<close>)
  show "part_inv cmp p n i lt (j - 1) gt xs" if "cmp p (xs ! (j - 1)) \<noteq> 0"
    unfolding j g diff_Suc_1
  proof (rule part_invI)
    show "cmp p (xs ! k) < 0" if "j1 \<le> k" "k < Suc g1" for k
      using that jg [of k] assms(3) \<open>cmp p (xs ! (j - 1)) \<noteq> 0\<close> by (cases "k = j1") (auto simp: j)
  qed (use l I in auto)
qed

lemma part_down_inv:
  "part_down cmp i j gt xs = (j', gt', xs') \<Longrightarrow> part_inv cmp p n i lt j gt xs \<Longrightarrow>
   part_inv cmp p n i lt (j' + 1) gt' xs' \<and> mset xs' = mset xs \<and>
   (i < j' \<longrightarrow> cmp p (xs' ! j') > 0) \<and> (i < j \<longrightarrow> i \<le> j' \<and> xs' ! i = xs ! i)"
proof (induction cmp i j gt xs rule: part_down.induct)
  case (1 cmp i j gt xs)
  have p: "xs ! 0 = p" and j: "1 \<le> i" "i \<le> j" "j \<le> gt" "gt \<le> length xs" using 1(4) by (auto simp: part_inv_def)
  note s = part_down.simps [of cmp i j gt xs, unfolded Let_def p] and u = part_inv_down [OF 1(4)]
  show ?case
  proof (cases "i < j - 1 \<and> cmp p (xs ! (j - 1)) \<le> 0")
    case False
    then have "j' = j - 1" "gt' = gt" "xs' = xs" using 1(3) s by (auto split: if_splits)
    then show ?thesis using False 1(4) j by auto
  next
    case True
    then have T: "i < j - 1 \<and> cmp (xs ! 0) (xs ! (j - 1)) \<le> 0" using p by simp
    show ?thesis
    proof (cases "cmp p (xs ! (j - 1)) = 0")
      case E: True
      have "swap (gt - 1) (j - 1) xs ! i = xs ! i" "mset (swap (gt - 1) (j - 1) xs) = mset xs"
        using True j by (auto simp: nth_swap)
      with 1(1) [OF refl T] E u(1) True 1(3) s p show ?thesis by auto
    next
      case E: False
      with 1(2) [OF refl T] u(2) True 1(3) s p show ?thesis by auto
    qed
  qed
qed

lemma part_loop_inv:
  "part_loop cmp i lt j gt xs = (i', lt', gt', xs') \<Longrightarrow> part_inv cmp p n i lt j gt xs \<Longrightarrow>
   part_inv cmp p n i' lt' i' gt' xs' \<and> mset xs' = mset xs"
proof (induction cmp i lt j gt xs rule: part_loop.induct)
  case (1 cmp i lt j gt xs)
  obtain i1 lt1 xs1 where up: "part_up cmp j i lt xs = (i1, lt1, xs1)" by (metis prod_cases3)
  obtain j2 gt2 xs2 where dn: "part_down cmp i1 j gt xs1 = (j2, gt2, xs2)" by (metis prod_cases3)
  have u: "part_inv cmp p n i1 lt1 j gt xs1" "mset xs1 = mset xs" "i1 < j \<longrightarrow> cmp p (xs1 ! i1) < 0"
    using part_up_inv [OF up 1(3)] by auto
  have d: "part_inv cmp p n i1 lt1 (j2 + 1) gt2 xs2" "mset xs2 = mset xs1" "i1 < j2 \<longrightarrow> cmp p (xs2 ! j2) > 0"
     "i1 < j \<longrightarrow> i1 \<le> j2 \<and> xs2 ! i1 = xs1 ! i1"
    using part_down_inv [OF dn u(1)] by auto
  show ?case
  proof (cases "i1 \<ge> j2")
    case True
    then have r: "i' = i1" "lt' = lt1" "gt' = gt2" "xs' = xs2"
      using 1(2) part_loop.simps [of cmp i lt j gt xs] up dn by auto
    note I = part_invD [OF d(1)]
    have "part_inv cmp p n i1 lt1 i1 gt2 xs2"
    proof (rule part_invI)
      show "cmp p (xs2 ! k) < 0" if "i1 \<le> k" "k < gt2" for k
      proof (cases "j2 + 1 \<le> k")
        case False
        then have "k = i1" "i1 = j2" using that True by auto
        moreover have "i1 < j" using \<open>i1 = j2\<close> part_invD(5) [OF u(1)] part_invD(3,4) [OF u(1)]
            part_down_mono [OF dn] by linarith
        ultimately show ?thesis using u(3) d(4) by simp
      qed (use that I(10) in simp)
    qed (use I in auto)
    then show ?thesis using r u(2) d(2) by simp
  next
    case False
    have e: "part_loop cmp (i1 + 1) lt1 j2 gt2 (swap i1 j2 xs2) = (i', lt', gt', xs')"
      using 1(2) part_loop.simps [of cmp i lt j gt xs] up dn False by auto
    have ij: "i1 < j" using part_down_mono [OF dn] False by linarith
    have l: "i1 < n" "j2 < n" "length xs2 = n" using d(1) False by (auto simp: part_inv_def)
    have sw: "swap i1 j2 xs2 ! k = (if k = i1 then xs2 ! j2 else if k = j2 then xs2 ! i1 else xs2 ! k)"
      if "k < n" for k using that l by (simp add: nth_swap)
    note I = part_invD [OF d(1)]
    have "part_inv cmp p n (i1 + 1) lt1 j2 gt2 (swap i1 j2 xs2)"
    proof (rule part_invI)
      show "cmp p (swap i1 j2 xs2 ! k) > 0" if "lt1 \<le> k" "k < i1 + 1" for k
        using that l False d(3) I(9) [of k] by (cases "k = i1") (auto simp: sw)
      show "cmp p (swap i1 j2 xs2 ! k) < 0" if "j2 \<le> k" "k < gt2" for k
        using that l False d(4) ij u(3) I(7) I(10) [of k] by (cases "k = j2") (auto simp: sw)
    qed (use l False I in \<open>auto simp: sw\<close>)
    then have "part_inv cmp p n i' lt' i' gt' xs' \<and> mset xs' = mset (swap i1 j2 xs2)"
      using 1(1) [OF up [symmetric] refl dn [symmetric] refl False e] by simp
    then show ?thesis using l u(2) d(2) by simp
  qed
qed


text \<open>
  What a round of the quicksort establishes: the slice is permuted, and the elements left of
  \<open>lt\<close> are smaller than some pivot \<open>p\<close>, those from \<open>gt\<close> on greater, those between equal to it.
\<close>

definition part_done :: "('a \<Rightarrow> 'a \<Rightarrow> int) \<Rightarrow> 'a \<Rightarrow> nat \<Rightarrow> nat \<Rightarrow> 'a list \<Rightarrow> bool" where
  "part_done cmp p lt gt xs \<longleftrightarrow>
     lt < gt \<and> gt \<le> length xs \<and>
     (\<forall>k<lt. cmp p (xs ! k) > 0) \<and>
     (\<forall>k. lt \<le> k \<and> k < gt \<longrightarrow> xs ! k = p \<or> cmp p (xs ! k) = 0) \<and>
     (\<forall>k. gt \<le> k \<and> k < length xs \<longrightarrow> cmp p (xs ! k) < 0)"

text \<open>
  Moving the equal elements into the middle: a block of \<open>u\<close> followed by one of \<open>v\<close> elements
  trade places when the shorter of the two is exchanged with the far end of the other.
\<close>

lemma swap_ends:
  assumes "a + u + v \<le> length xs" and "\<forall>k. a \<le> k \<and> k < a + u \<longrightarrow> P (xs ! k)"
    and "\<forall>k. a + u \<le> k \<and> k < a + u + v \<longrightarrow> Q (xs ! k)"
    and "ys = swap_block a (a + u + v - min u v) (min u v) xs"
  shows "\<forall>k. a \<le> k \<and> k < a + v \<longrightarrow> Q (ys ! k)" "\<forall>k. a + v \<le> k \<and> k < a + u + v \<longrightarrow> P (ys ! k)"
    "\<forall>k. k < length xs \<and> (k < a \<or> a + u + v \<le> k) \<longrightarrow> ys ! k = xs ! k" "mset ys = mset xs"
proof -
  define m where "m = min u v"
  define b where "b = a + u + v - m"
  have mb: "a + m \<le> b" "b + m = a + u + v" "m \<le> u" "m \<le> v" "m = u \<or> m = v"
    by (auto simp: b_def m_def)
  have y: "ys ! k = (if a \<le> k \<and> k < a + m then xs ! (k - a + b)
      else if b \<le> k \<and> k < b + m then xs ! (k - b + a) else xs ! k)" if "k < length xs" for k
    unfolding assms(4) m_def [symmetric] b_def [symmetric]
    using that mb assms(1) by (intro nth_swap_block) auto
  show "\<forall>k. a \<le> k \<and> k < a + v \<longrightarrow> Q (ys ! k)"
  proof (intro allI impI)
    fix k assume k: "a \<le> k \<and> k < a + v"
    show "Q (ys ! k)"
    proof (cases "k < a + m")
      case True
      have "Q (xs ! (k - a + b))" using assms(3) True k mb by auto
      then show ?thesis using y [of k] True k assms(1) by auto
    next
      case False
      then have "m = u" "\<not> (b \<le> k \<and> k < b + m)" using k mb by auto
      then show ?thesis using y [of k] False k assms(1,3) by auto
    qed
  qed
  show "\<forall>k. a + v \<le> k \<and> k < a + u + v \<longrightarrow> P (ys ! k)"
  proof (intro allI impI)
    fix k assume k: "a + v \<le> k \<and> k < a + u + v"
    show "P (ys ! k)"
    proof (cases "b \<le> k")
      case True
      have "k - b < u" using True k mb by linarith
      then have "P (xs ! (k - b + a))" using assms(2) by simp
      moreover have "\<not> k < a + m" using k mb by linarith
      ultimately show ?thesis using y [of k] True k assms(1) mb by auto
    next
      case False
      then have "m = v" "\<not> k < a + m" "k < a + u" using k mb by auto
      then show ?thesis using y [of k] False k assms(1,2) by auto
    qed
  qed
  show "\<forall>k. k < length xs \<and> (k < a \<or> a + u + v \<le> k) \<longrightarrow> ys ! k = xs ! k"
    using y mb by auto
  show "mset ys = mset xs"
    unfolding assms(4) m_def [symmetric] b_def [symmetric] using mb assms(1) by (intro mset_swap_block) auto
qed

lemma partition_slice_ok:
  assumes "length xs > 6" and "partition_slice cmp xs = (lt', gt', ys)"
  obtains p where "part_done cmp p lt' gt' ys" "mset ys = mset xs"
proof -
  define n m where "n = length xs" and "m = med3 cmp xs (n div 4) (2 * (n div 4)) (3 * (n div 4))"
  define p where "p = swap 0 m xs ! 0"
  obtain i lt gt xs1 where pl: "part_loop cmp 1 1 n n (swap 0 m xs) = (i, lt, gt, xs1)"
    by (metis prod_cases4)
  have m: "m < n" using assms(1) by (auto simp: m_def n_def med3_def)
  have "part_inv cmp p n 1 1 n n (swap 0 m xs)"
    using assms(1) by (intro part_invI) (auto simp: n_def p_def)
  from part_loop_inv [OF pl this]
  have pi: "part_inv cmp p n i lt i gt xs1" "mset xs1 = mset xs"
    using m assms(1) n_def by (auto intro!: mset_swap_nth)
  note I = part_invD [OF pi(1)]
  define xs2 where "xs2 = swap_block 0 (i - min lt (i - lt)) (min lt (i - lt)) xs1"
  have r: "lt' = i - lt" "gt' = n - (gt - i)"
    "ys = swap_block i (n - min (n - gt) (gt - i)) (min (n - gt) (gt - i)) xs2"
    using assms(2) pl
    by (auto simp: partition_slice_def n_def [symmetric] m_def [symmetric] Let_def xs2_def min_def)
  let ?E = "\<lambda>x. x = p \<or> cmp p x = 0"
  have e1: "\<forall>k. 0 \<le> k \<and> k < 0 + lt \<longrightarrow> ?E (xs1 ! k)"
    using I(2,8) by (metis One_nat_def Suc_leI add_0 neq0_conv)
  have l1: "\<forall>k. 0 + lt \<le> k \<and> k < 0 + lt + (i - lt) \<longrightarrow> cmp p (xs1 ! k) > 0" using I(4,9) by simp
  have b1: "0 + lt + (i - lt) \<le> length xs1" using I by simp
  have "xs2 = swap_block 0 (0 + lt + (i - lt) - min lt (i - lt)) (min lt (i - lt)) xs1"
    using I(4) by (simp add: xs2_def)
  note s1 = swap_ends [OF b1 e1 l1 this]
  have len2: "length xs2 = n" by (simp add: xs2_def I(1))
  have tl: "xs2 ! k = xs1 ! k" if "i \<le> k" "k < n" for k using s1(3) that I(1,4) by auto
  have g2: "\<forall>k. i \<le> k \<and> k < i + (gt - i) \<longrightarrow> cmp p (xs2 ! k) < 0"
    using I(5,6,7,10) tl by auto
  have e2: "\<forall>k. i + (gt - i) \<le> k \<and> k < i + (gt - i) + (n - gt) \<longrightarrow> ?E (xs2 ! k)"
    using I(5,6,7,11) tl by auto
  have b2: "i + (gt - i) + (n - gt) \<le> length xs2" using I len2 by simp
  have "ys = swap_block i (i + (gt - i) + (n - gt) - min (gt - i) (n - gt)) (min (gt - i) (n - gt)) xs2"
    using r(3) I(5,6,7) by (simp add: min.commute)
  note s2 = swap_ends [OF b2 g2 e2 this]
  have hd': "ys ! k = xs2 ! k" if "k < i" for k using s2(3) that I(5,6,7) len2 by auto
  have "part_done cmp p lt' gt' ys"
    unfolding part_done_def r(1,2)
  proof (intro conjI allI impI)
    fix k
    have ly: "length ys = n" using r(3) len2 by simp
    show "cmp p (ys ! k) > 0" if "k < i - lt" using s1(1) hd' that by auto
    show "ys ! k = p \<or> cmp p (ys ! k) = 0" if k: "i - lt \<le> k \<and> k < n - (gt - i)"
    proof (cases "k < i")
      case False
      then have "i \<le> k \<and> k < i + (n - gt)" using k I(5,6,7) by linarith
      then show ?thesis using s2(1) by blast
    qed (use s1(2) hd' k I(4) in auto)
    show "cmp p (ys ! k) < 0" if "n - (gt - i) \<le> k \<and> k < length ys"
      using s2(2) that ly I(5,6,7) by auto
    show "n - (gt - i) \<le> length ys" by (simp add: ly)
  qed (use I in auto)
  moreover have "mset ys = mset xs" using s1(4) s2(4) pi(2) by simp
  ultimately show ?thesis by (rule that)
qed


subsection \<open>The quicksort\<close>

text \<open>
  A segment of the array, \<open>{base, count, depth}\<close> in the source. The state of the loops is the
  stack, the segment being processed (\<open>None\<close> at the test of the outer loop) and the array. A
  segment outside the array and a push on the full stack of 50 entries are undefined behaviour,
  \<open>None\<close>.
\<close>

type_synonym segment = "nat \<times> nat \<times> nat"

definition slice :: "nat \<Rightarrow> nat \<Rightarrow> 'a list \<Rightarrow> 'a list" where
  "slice b n xs = take n (drop b xs)"

definition put_slice :: "nat \<Rightarrow> 'a list \<Rightarrow> 'a list \<Rightarrow> 'a list" where
  "put_slice b ys xs = take b xs @ ys @ drop (b + length ys) xs"

lemma length_slice [simp]: "ptr + n \<le> length xs \<Longrightarrow> length (slice ptr n xs) = n"
  by (simp add: slice_def)

definition segs_size :: "segment list \<Rightarrow> nat" where
  "segs_size ss = sum_list (map (\<lambda>(b, n, d). 2 * n + 1) ss)"

lemma segs_size_simps [simp]:
  "segs_size [] = 0" "segs_size ((b, n, d) # ss) = 2 * n + 1 + segs_size ss"
  by (simp_all add: segs_size_def)

lemma partition_bounds:
  assumes "(lt, gt, ys) = partition_slice cmp (slice ptr n xs)" and "6 < n" and "ptr + n \<le> length xs"
  shows "lt < gt \<and> gt \<le> n"
proof -
  obtain p where "part_done cmp p lt gt ys" "mset ys = mset (slice ptr n xs)"
    using partition_slice_ok [of "slice ptr n xs" cmp lt gt ys] assms by auto
  then show ?thesis using assms(3) by (auto simp: part_done_def dest: mset_eq_length)
qed

function rqsort_loop ::
  "('a \<Rightarrow> 'a \<Rightarrow> int) \<Rightarrow> segment list \<Rightarrow> segment option \<Rightarrow> 'a list \<Rightarrow> 'a list option" where
  "rqsort_loop cmp [] None xs = Some xs"
| "rqsort_loop cmp (e # st) None xs = rqsort_loop cmp st (Some e) xs"
| "rqsort_loop cmp st (Some (ptr, nmemb, depth)) xs =
     (if ptr + nmemb > length xs then None
      else if nmemb > 6 then
        (if depth + 1 > 50
         then rqsort_loop cmp st None (put_slice ptr (heapsortx cmp (slice ptr nmemb xs)) xs)
         else if length st \<ge> 50 then None
         else
           case partition_slice cmp (slice ptr nmemb xs) of
             (lt, gt, ys) \<Rightarrow>
               if lt > nmemb - gt
               then rqsort_loop cmp ((ptr, lt, depth + 1) # st)
                      (Some (ptr + gt, nmemb - gt, depth + 1)) (put_slice ptr ys xs)
               else rqsort_loop cmp ((ptr + gt, nmemb - gt, depth + 1) # st)
                      (Some (ptr, lt, depth + 1)) (put_slice ptr ys xs))
      else rqsort_loop cmp st None (put_slice ptr (insertion_sort cmp (slice ptr nmemb xs)) xs))"
  by pat_completeness auto

termination
  by (relation "measures [\<lambda>(cmp, st, cur, xs).
        segs_size st + segs_size (case cur of None \<Rightarrow> [] | Some e \<Rightarrow> [e]),
      \<lambda>(cmp, st, cur, xs). length st]")
    (auto dest!: partition_bounds simp: not_less)

declare rqsort_loop.simps(3) [simp del]

definition rqsort :: "('a \<Rightarrow> 'a \<Rightarrow> int) \<Rightarrow> 'a list \<Rightarrow> 'a list option" where
  "rqsort cmp xs = (if length xs < 2 then Some xs else rqsort_loop cmp [(0, length xs, 0)] None xs)"

end
