(* ===== verification/RqsortSorted.thy ===== *)
theory RqsortSorted
  imports Rqsort
begin

text \<open>
  Correctness of \<open>rqsort\<close>. For every comparison function the sort ends, stays inside the array
  and the 50 entries of its stack, and returns a permutation of the array. When the comparison
  is a total preorder, the result is sorted.
\<close>

subsection \<open>Comparison functions\<close>

locale comparator =
  fixes cmp :: "'a \<Rightarrow> 'a \<Rightarrow> int"
  assumes cmp_anti: "cmp a b > 0 \<longleftrightarrow> cmp b a < 0"
    and cmp_trans: "cmp a b \<le> 0 \<Longrightarrow> cmp b c \<le> 0 \<Longrightarrow> cmp a c \<le> 0"
begin

lemma cmp_total: "cmp a b > 0 \<Longrightarrow> cmp b a \<le> 0"
  using cmp_anti [of a b] by simp

lemma cmp_ge: "cmp a b \<ge> 0 \<Longrightarrow> cmp b a \<le> 0"
  using cmp_anti [of b a] by linarith

lemma cmp_refl: "cmp a a = 0"
  using cmp_anti [of a a] by linarith

end

definition sorted_cmp :: "('a \<Rightarrow> 'a \<Rightarrow> int) \<Rightarrow> 'a list \<Rightarrow> bool" where
  "sorted_cmp cmp xs \<longleftrightarrow> (\<forall>k l. k < l \<and> l < length xs \<longrightarrow> cmp (xs ! k) (xs ! l) \<le> 0)"

subsection \<open>Insertion sort\<close>

lemma mset_insert_down [simp]: "j < length xs \<Longrightarrow> mset (insert_down cmp j xs) = mset xs"
  by (induction cmp j xs rule: insert_down.induct) auto

lemma length_insert_down [simp]: "length (insert_down cmp j xs) = length xs"
  by (induction cmp j xs rule: insert_down.induct) auto

lemma insert_down_above: "j < k \<Longrightarrow> k < length xs \<Longrightarrow> insert_down cmp j xs ! k = xs ! k"
  by (induction cmp j xs rule: insert_down.induct) (auto simp: nth_swap)

lemma mset_insert_from: "i + n \<le> length xs \<Longrightarrow> mset (insert_from cmp i n xs) = mset xs"
  by (induction cmp i n xs rule: insert_from.induct) auto

lemma mset_insertion_sort [simp]: "mset (insertion_sort cmp xs) = mset xs"
  by (cases xs) (simp_all add: insertion_sort_def mset_insert_from)

context comparator
begin

lemma insert_down_sorted:
  assumes "j \<le> m" and "m < length xs"
    and "\<And>k l. k < l \<Longrightarrow> l \<le> m \<Longrightarrow> k \<noteq> j \<Longrightarrow> l \<noteq> j \<Longrightarrow> cmp (xs ! k) (xs ! l) \<le> 0"
    and "\<And>l. j < l \<Longrightarrow> l \<le> m \<Longrightarrow> cmp (xs ! j) (xs ! l) \<le> 0"
    and "k < l" "l \<le> m"
  shows "cmp (insert_down cmp j xs ! k) (insert_down cmp j xs ! l) \<le> 0"
  using assms
proof (induction j arbitrary: xs k l)
  case 0
  then show ?case by (cases "k = 0") auto
next
  case (Suc j)
  have sw: "swap (Suc j) j xs ! k = (if k = Suc j then xs ! j else if k = j then xs ! Suc j else xs ! k)"
    if "k < length xs" for k using that Suc.prems(1,2) by (auto simp: nth_swap)
  show ?case
  proof (cases "cmp (xs ! j) (xs ! Suc j) > 0")
    case True
    have "cmp (insert_down cmp j (swap (Suc j) j xs) ! k) (insert_down cmp j (swap (Suc j) j xs) ! l) \<le> 0"
    proof (rule Suc.IH)
      show "cmp (swap (Suc j) j xs ! k) (swap (Suc j) j xs ! l) \<le> 0"
        if "k < l" "l \<le> m" "k \<noteq> j" "l \<noteq> j" for k l
        using that Suc.prems(1,2) Suc.prems(3) [of k l] Suc.prems(3) [of j l] Suc.prems(3) [of k j]
        by (auto simp: sw)
      show "cmp (swap (Suc j) j xs ! j) (swap (Suc j) j xs ! l) \<le> 0" if "j < l" "l \<le> m" for l
        using that Suc.prems(1,2) Suc.prems(4) [of l] cmp_total [OF True]
        by (cases "l = Suc j") (auto simp: sw)
    qed (use Suc.prems in auto)
    then show ?thesis using True by simp
  next
    case False
    have "cmp (xs ! k) (xs ! l) \<le> 0"
    proof (cases "l = Suc j")
      case True
      then show ?thesis
        using False Suc.prems(3) [of k j] Suc.prems(1,5) cmp_trans [of "xs ! k" "xs ! j" "xs ! Suc j"]
        by (cases "k = j") auto
    next
      case l: False
      then show ?thesis using Suc.prems(3) [of k l] Suc.prems(4) [of l] Suc.prems(5,6) by (cases "k = Suc j") auto
    qed
    with False show ?thesis by simp
  qed
qed

lemma insert_from_sorted:
  assumes "i + n = length xs" and "1 \<le> i"
    and "\<And>k l. k < l \<Longrightarrow> l < i \<Longrightarrow> cmp (xs ! k) (xs ! l) \<le> 0"
  shows "sorted_cmp cmp (insert_from cmp i n xs)"
  using assms
proof (induction n arbitrary: i xs)
  case 0
  then show ?case by (simp add: sorted_cmp_def)
next
  case (Suc n)
  have "cmp (insert_down cmp i xs ! k) (insert_down cmp i xs ! l) \<le> 0" if "k < l" "l \<le> i" for k l
    by (rule insert_down_sorted [where m = i]) (use Suc.prems that in auto)
  then show ?case using Suc.prems(1) by (simp add: Suc.IH)
qed

lemma insertion_sort_sorted: "sorted_cmp cmp (insertion_sort cmp xs)"
  by (cases xs) (auto simp: insertion_sort_def sorted_cmp_def [of cmp "[]"] intro!: insert_from_sorted)

end

subsection \<open>Heapsort\<close>

definition child :: "nat \<Rightarrow> nat \<Rightarrow> bool" where
  "child k c \<longleftrightarrow> c = 2 * k + 1 \<or> c = 2 * k + 2"

lemma childD: "child k c \<Longrightarrow> k < c"
  by (auto simp: child_def)

lemma child_unique: "child k c \<Longrightarrow> child l c \<Longrightarrow> k = l"
  unfolding child_def by presburger

lemma heap_child_child:
  "r * 2 + 1 < n \<Longrightarrow> child r (heap_child cmp n r xs) \<and> heap_child cmp n r xs < n"
  by (auto simp: heap_child_def child_def Let_def)

lemma heap_sink_frame:
  "r < n \<Longrightarrow> n \<le> length xs \<Longrightarrow>
   mset (heap_sink cmp n r xs) = mset xs \<and> (\<forall>k. n \<le> k \<and> k < length xs \<longrightarrow> heap_sink cmp n r xs ! k = xs ! k)"
proof (induction cmp n r xs rule: heap_sink.induct)
  case (1 cmp n r xs)
  define c where "c = heap_child cmp n r xs"
  show ?case
  proof (cases "r * 2 + 1 < n \<and> \<not> cmp (xs ! r) (xs ! c) > 0")
    case True
    then have c: "c < n" using heap_child_child [of r n] by (auto simp: c_def)
    have "heap_sink cmp n r xs = heap_sink cmp n c (swap r c xs)"
      using True heap_sink.simps [of cmp n r xs] by (simp add: c_def Let_def)
    then show ?thesis using True 1(1) [OF _ c_def] 1(2,3) c by (auto simp: nth_swap)
  next
    case False
    then have "heap_sink cmp n r xs = xs"
      using heap_sink.simps [of cmp n r xs] by (auto simp: c_def [symmetric] Let_def)
    then show ?thesis by simp
  qed
qed

lemma length_heap_sink [simp]: "r < n \<Longrightarrow> n \<le> length xs \<Longrightarrow> length (heap_sink cmp n r xs) = length xs"
  using heap_sink_frame by (metis mset_eq_length)

lemma mset_heap_build: "i \<le> n \<Longrightarrow> n \<le> length xs \<Longrightarrow> mset (heap_build cmp n i xs) = mset xs"
proof (induction cmp n i xs rule: heap_build.induct)
  case (2 cmp n i xs)
  then show ?case using heap_sink_frame [of i n xs cmp] by simp
qed simp

lemma mset_heap_extract: "i < length xs \<Longrightarrow> mset (heap_extract cmp i xs) = mset xs"
proof (induction cmp i xs rule: heap_extract.induct)
  case (2 cmp i xs)
  then have "mset (swap 0 (Suc i) xs) = mset xs" by (intro mset_swap_nth) auto
  then show ?case using 2 heap_sink_frame [of 0 "Suc i" "swap 0 (Suc i) xs" cmp] by simp
qed simp

lemma mset_heapsortx [simp]: "mset (heapsortx cmp xs) = mset xs"
proof (cases "length xs > 1")
  case True
  then have b: "mset (heap_build cmp (length xs) (length xs div 2) xs) = mset xs"
    by (intro mset_heap_build) auto
  then have "length (heap_build cmp (length xs) (length xs div 2) xs) = length xs" by (rule mset_eq_length)
  then show ?thesis using True b by (simp add: heapsortx_def Let_def mset_heap_extract)
qed (simp add: heapsortx_def)

context comparator
begin

definition heap_from :: "nat \<Rightarrow> nat \<Rightarrow> 'a list \<Rightarrow> bool" where
  "heap_from i n xs \<longleftrightarrow> (\<forall>k c. i \<le> k \<and> child k c \<and> c < n \<longrightarrow> cmp (xs ! c) (xs ! k) \<le> 0)"

text \<open>A heap but for the element at \<open>r\<close>, which may be smaller than its children.\<close>

definition heap_but :: "nat \<Rightarrow> nat \<Rightarrow> nat \<Rightarrow> 'a list \<Rightarrow> bool" where
  "heap_but r i n xs \<longleftrightarrow>
     (\<forall>k c. i \<le> k \<and> k \<noteq> r \<and> child k c \<and> c < n \<longrightarrow> cmp (xs ! c) (xs ! k) \<le> 0) \<and>
     (\<forall>k c. i \<le> k \<and> child k r \<and> child r c \<and> c < n \<longrightarrow> cmp (xs ! c) (xs ! k) \<le> 0)"

lemma heap_child_max:
  assumes "r * 2 + 1 < n" and "child r c" and "c < n"
  shows "cmp (xs ! c) (xs ! heap_child cmp n r xs) \<le> 0"
proof (cases "r * 2 + 1 < n - 1 \<and> cmp (xs ! (r * 2 + 1)) (xs ! (r * 2 + 1 + 1)) \<le> 0")
  case True
  then show ?thesis using assms(2) cmp_refl [of "xs ! c"] by (auto simp: heap_child_def child_def Let_def mult.commute)
next
  case False
  then have "heap_child cmp n r xs = r * 2 + 1" by (auto simp: heap_child_def Let_def)
  moreover have "cmp (xs ! c) (xs ! (r * 2 + 1)) \<le> 0"
  proof (cases "c = 2 * r + 1")
    case F: False
    then have "c = 2 * r + 2" "r * 2 + 1 < n - 1" using assms(2,3) by (auto simp: child_def)
    then show ?thesis using False cmp_total by (auto simp: mult.commute)
  qed (simp add: cmp_refl mult.commute)
  ultimately show ?thesis by simp
qed

lemma heap_but_swap:
  assumes "heap_but r i n xs" and "i \<le> r" and "child r c" and "c < n" and "n \<le> length xs"
    and "cmp (xs ! r) (xs ! c) \<le> 0" and "\<And>d. child r d \<Longrightarrow> d < n \<Longrightarrow> cmp (xs ! d) (xs ! c) \<le> 0"
  shows "heap_but c i n (swap r c xs)"
proof -
  have rc: "r < c" using assms(3) by (rule childD)
  have sw: "swap r c xs ! k = (if k = r then xs ! c else if k = c then xs ! r else xs ! k)"
    if "k < n" for k using that assms(4,5) rc by (auto simp: nth_swap)
  show ?thesis
    unfolding heap_but_def
  proof (intro conjI allI impI)
    fix k d assume a: "i \<le> k \<and> k \<noteq> c \<and> child k d \<and> d < n"
    then have "k < d" "k < n" using childD by (blast, meson childD less_trans)
    show "cmp (swap r c xs ! d) (swap r c xs ! k) \<le> 0"
    proof (cases "k = r")
      case True
      then show ?thesis using a assms(6,7) \<open>k < d\<close> assms(4) rc by (auto simp: sw)
    next
      case False
      then have "d \<noteq> c" using a assms(3) child_unique by blast
      then show ?thesis using a False assms(1,3,4) \<open>k < n\<close> unfolding heap_but_def
        by (cases "d = r") (auto simp: sw)
    qed
  next
    fix k d assume a: "i \<le> k \<and> child k c \<and> child c d \<and> d < n"
    then have k: "k = r" using assms(3) child_unique by blast
    have "c < d" using a childD by blast
    then show "cmp (swap r c xs ! d) (swap r c xs ! k) \<le> 0"
      using a k assms(1,2,4) rc unfolding heap_but_def by (auto simp: sw)
  qed
qed

lemma heap_sink_heap:
  "heap_but r i n xs \<Longrightarrow> i \<le> r \<Longrightarrow> r < n \<Longrightarrow> n \<le> length xs \<Longrightarrow> heap_from i n (heap_sink cmp n r xs)"
proof (induction "n - r" arbitrary: r xs rule: less_induct)
  case less
  define c where "c = heap_child cmp n r xs"
  note e = heap_sink.simps [of cmp n r xs, unfolded Let_def, folded c_def]
  show ?case
  proof (cases "r * 2 + 1 < n")
    case False
    then have "\<not> (child r d \<and> d < n)" for d by (auto simp: child_def)
    then show ?thesis using False less.prems(1) e by (auto simp: heap_from_def heap_but_def)
  next
    case True
    have c: "child r c" "c < n" using heap_child_child [OF True] by (auto simp: c_def)
    have mx: "cmp (xs ! d) (xs ! c) \<le> 0" if "child r d" "d < n" for d
      using heap_child_max [OF True that] by (simp add: c_def)
    show ?thesis
    proof (cases "cmp (xs ! r) (xs ! c) > 0")
      case gt: True
      have "cmp (xs ! d) (xs ! r) \<le> 0" if "child r d" "d < n" for d
        using mx [OF that] cmp_total [OF gt] cmp_trans by blast
      then show ?thesis using True gt less.prems(1) e by (auto simp: heap_from_def heap_but_def)
    next
      case False
      have "heap_but c i n (swap r c xs)"
        by (rule heap_but_swap [OF less.prems(1,2) c less.prems(4) _ mx]) (use False in auto)
      moreover have "n - c < n - r" "i \<le> c" using childD [OF c(1)] c(2) less.prems(2) by auto
      ultimately have "heap_from i n (heap_sink cmp n c (swap r c xs))"
        using less.hyps [of c "swap r c xs"] c(2) less.prems(4) by simp
      then show ?thesis using True False e by simp
    qed
  qed
qed

lemma heap_build_heap:
  "heap_from i n xs \<Longrightarrow> i \<le> n \<Longrightarrow> n \<le> length xs \<Longrightarrow> heap_from 0 n (heap_build cmp n i xs)"
proof (induction i arbitrary: xs)
  case (Suc i)
  have "heap_but i i n xs"
    using Suc.prems(1) childD unfolding heap_from_def heap_but_def by (metis Suc_leI le_neq_implies_less not_le)
  then have "heap_from i n (heap_sink cmp n i xs)" using Suc.prems by (intro heap_sink_heap) auto
  then show ?case using Suc by simp
qed simp

lemma heap_root_max: "heap_from 0 n xs \<Longrightarrow> k < n \<Longrightarrow> cmp (xs ! k) (xs ! 0) \<le> 0"
proof (induction k rule: less_induct)
  case (less k)
  show ?case
  proof (cases "k = 0")
    case False
    define q where "q = (k - 1) div 2"
    have "child q k" "q < k" using False unfolding q_def child_def by presburger+
    then have "cmp (xs ! k) (xs ! q) \<le> 0" "cmp (xs ! q) (xs ! 0) \<le> 0"
      using less by (auto simp: heap_from_def)
    then show ?thesis by (rule cmp_trans)
  qed (simp add: cmp_refl)
qed

text \<open>
  Between two extractions the first \<open>m\<close> elements are a heap and every later element is at least
  as large as all the elements before it.
\<close>

definition extract_inv :: "nat \<Rightarrow> 'a list \<Rightarrow> bool" where
  "extract_inv m xs \<longleftrightarrow> heap_from 0 m xs \<and>
     (\<forall>l. m \<le> l \<and> l < length xs \<longrightarrow> (\<forall>x\<in>set (take l xs). cmp x (xs ! l) \<le> 0))"

end

lemma set_take_perm:
  assumes "mset xs = mset ys" and "\<forall>k. l \<le> k \<and> k < length ys \<longrightarrow> xs ! k = ys ! k"
  shows "set (take l xs) = set (take l ys)"
proof -
  have len: "length xs = length ys" using assms(1) by (rule mset_eq_length)
  have "drop l xs = drop l ys" by (rule nth_equalityI) (use assms(2) len in auto)
  then have "mset (take l xs) = mset (take l ys)"
    using assms(1) by (metis add_right_cancel append_take_drop_id mset_append)
  then show ?thesis by (rule mset_eq_setD)
qed

context comparator
begin

lemma extract_inv_step:
  assumes "extract_inv (Suc (Suc i)) xs" and "Suc i < length xs"
  shows "extract_inv (Suc i) (heap_sink cmp (Suc i) 0 (swap 0 (Suc i) xs))"
proof -
  define ys where "ys = swap 0 (Suc i) xs"
  define zs where "zs = heap_sink cmp (Suc i) 0 ys"
  have len: "length ys = length xs" "0 < length xs" using assms(2) by (auto simp: ys_def)
  have h: "heap_from 0 (Suc (Suc i)) xs" using assms(1) by (simp add: extract_inv_def)
  have y: "ys ! k = (if k = 0 then xs ! Suc i else if k = Suc i then xs ! 0 else xs ! k)"
    if "k < length xs" for k using that assms(2) len unfolding ys_def by (intro nth_swap) auto
  have "heap_but 0 0 (Suc i) ys"
    unfolding heap_but_def
  proof (intro conjI allI impI)
    fix k c assume a: "0 \<le> k \<and> k \<noteq> 0 \<and> child k c \<and> c < Suc i"
    then have "0 < k" "k < c" "c < Suc i" using childD by auto
    then show "cmp (ys ! c) (ys ! k) \<le> 0" using a h assms(2) by (auto simp: y heap_from_def)
  qed (use childD in fastforce)
  then have hp: "heap_from 0 (Suc i) zs"
    unfolding zs_def using assms(2) len by (intro heap_sink_heap) auto
  have fr: "mset zs = mset ys" "\<forall>k. Suc i \<le> k \<and> k < length ys \<longrightarrow> zs ! k = ys ! k"
    unfolding zs_def using heap_sink_frame [of 0 "Suc i" ys cmp] assms(2) len by auto
  have "cmp x (zs ! l) \<le> 0" if l: "Suc i \<le> l" "l < length xs" and x: "x \<in> set (take l zs)" for l x
  proof -
    have "set (take l zs) = set (take l ys)" by (rule set_take_perm) (use fr l len in auto)
    with x have xy: "x \<in> set (take l ys)" by simp
    show ?thesis
    proof (cases "l = Suc i")
      case True
      then obtain k where "k < Suc i" "x = ys ! k" using xy len l by (auto simp: in_set_conv_nth)
      then show ?thesis using True heap_root_max [OF h, of k] heap_root_max [OF h, of "Suc i"] fr(2) y l len
        by auto
    next
      case False
      then have "set (take l ys) = set (take l xs)"
        using l len by (intro set_take_perm) (auto simp: ys_def y [unfolded ys_def])
      then show ?thesis using assms(1) xy l False fr(2) len y [of l] by (auto simp: extract_inv_def)
    qed
  qed
  then show ?thesis using hp fr(1) len mset_eq_length [OF fr(1)]
    by (auto simp: extract_inv_def ys_def [symmetric] zs_def [symmetric])
qed

lemma heap_extract_sorted:
  "extract_inv (Suc i) xs \<Longrightarrow> i < length xs \<Longrightarrow> sorted_cmp cmp (heap_extract cmp i xs)"
proof (induction i arbitrary: xs)
  case 0
  then show ?case unfolding sorted_cmp_def extract_inv_def heap_extract.simps
    by (metis One_nat_def Suc_leI gr_implies_not0 length_take min.absorb4 neq0_conv nth_mem nth_take)
next
  case (Suc i)
  then show ?case using extract_inv_step [of i xs] by simp
qed

lemma heapsortx_sorted: "sorted_cmp cmp (heapsortx cmp xs)"
proof (cases "length xs > 1")
  case True
  define ys where "ys = heap_build cmp (length xs) (length xs div 2) xs"
  have "heap_from (length xs div 2) (length xs) xs" by (auto simp: heap_from_def child_def)
  then have h: "heap_from 0 (length xs) ys" unfolding ys_def by (intro heap_build_heap) auto
  have "mset ys = mset xs" unfolding ys_def by (intro mset_heap_build) auto
  then have len: "length ys = length xs" by (rule mset_eq_length)
  have sl: "Suc (length xs - 1) = length xs" using True by simp
  have "sorted_cmp cmp (heap_extract cmp (length xs - 1) ys)"
    by (rule heap_extract_sorted, unfold sl) (use True h len in \<open>auto simp: extract_inv_def\<close>)
  then show ?thesis using True by (simp add: heapsortx_def ys_def Let_def)
qed (simp add: heapsortx_def sorted_cmp_def)

end

subsection \<open>The segments still to be sorted\<close>

text \<open>
  \<open>pending P xs\<close>: two elements are in order unless a segment of \<open>P\<close> holds both. A segment is
  given by its first index and its length.
\<close>

definition both_in :: "(nat \<times> nat) list \<Rightarrow> nat \<Rightarrow> nat \<Rightarrow> bool" where
  "both_in P k l \<longleftrightarrow> (\<exists>(b, n)\<in>set P. b \<le> k \<and> k < b + n \<and> b \<le> l \<and> l < b + n)"

definition pending :: "('a \<Rightarrow> 'a \<Rightarrow> int) \<Rightarrow> (nat \<times> nat) list \<Rightarrow> 'a list \<Rightarrow> bool" where
  "pending cmp P xs \<longleftrightarrow>
     (\<forall>k l. k < l \<and> l < length xs \<longrightarrow> both_in P k l \<or> cmp (xs ! k) (xs ! l) \<le> 0)"

definition apart :: "nat \<times> nat \<Rightarrow> nat \<times> nat \<Rightarrow> bool" where
  "apart s t \<longleftrightarrow> fst s + snd s \<le> fst t \<or> fst t + snd t \<le> fst s"

text \<open>The segments lie in the array and do not overlap.\<close>

fun segs_ok :: "nat \<Rightarrow> (nat \<times> nat) list \<Rightarrow> bool" where
  "segs_ok N [] = True"
| "segs_ok N (s # P) = (fst s + snd s \<le> N \<and> (\<forall>t\<in>set P. apart s t) \<and> segs_ok N P)"

lemma both_in_append [simp]: "both_in (P @ Q) k l \<longleftrightarrow> both_in P k l \<or> both_in Q k l"
  by (auto simp: both_in_def)

lemma pending_sorted: "pending cmp [] xs = sorted_cmp cmp xs"
  by (simp add: pending_def both_in_def sorted_cmp_def)

lemma length_put_slice [simp]:
  "b + length ys \<le> length xs \<Longrightarrow> length (put_slice b ys xs) = length xs"
  by (simp add: put_slice_def)

lemma nth_put_slice:
  assumes "b + length ys \<le> length xs" and "k < length xs"
  shows "put_slice b ys xs ! k = (if b \<le> k \<and> k < b + length ys then ys ! (k - b) else xs ! k)"
  using assms by (auto simp: put_slice_def nth_append)

lemma nth_slice: "b + n \<le> length xs \<Longrightarrow> k < n \<Longrightarrow> slice b n xs ! k = xs ! (b + k)"
  by (simp add: slice_def)

lemma mset_put_slice:
  assumes "b + n \<le> length xs" and "mset ys = mset (slice b n xs)"
  shows "mset (put_slice b ys xs) = mset xs"
proof -
  have len: "length ys = n" using mset_eq_length [OF assms(2)] assms(1) by simp
  have "xs = take b xs @ slice b n xs @ drop (b + n) xs"
    by (metis append_take_drop_id drop_drop slice_def add.commute)
  then have "mset xs = mset (take b xs) + mset (slice b n xs) + mset (drop (b + n) xs)"
    by (metis mset_append add.assoc)
  then show ?thesis using assms(2) len by (simp add: put_slice_def)
qed

text \<open>
  Rearranging a segment: what the segment's own elements become is the business of \<open>Q\<close>; the
  rest of the order carries over, because every element of the segment was in order with every
  element outside it.
\<close>

lemma pending_step:
  assumes "pending cmp ((b, n) # P) xs" and "b + n \<le> length xs" and "\<forall>t\<in>set P. apart (b, n) t"
    and "mset ys = mset (slice b n xs)" and "pending cmp Q ys"
  shows "pending cmp (map (\<lambda>(c, m). (b + c, m)) Q @ P) (put_slice b ys xs)"
  unfolding pending_def
proof (intro allI impI)
  fix k l assume kl: "k < l \<and> l < length (put_slice b ys xs)"
  have len: "length ys = n" using mset_eq_length [OF assms(4)] assms(2) by simp
  have put: "put_slice b ys xs ! i = (if b \<le> i \<and> i < b + n then ys ! (i - b) else xs ! i)"
    if "i < length xs" for i using that nth_put_slice [of b ys xs i] assms(2) len by simp
  have l: "l < length xs" "k < length xs" using kl assms(2) len by auto
  have mem: "\<exists>j. b \<le> j \<and> j < b + n \<and> ys ! (i - b) = xs ! j" if "b \<le> i" "i < b + n" for i
  proof -
    have "ys ! (i - b) \<in> set (slice b n xs)" using that len mset_eq_setD [OF assms(4)] nth_mem [of "i - b" ys] by auto
    then obtain j where "j < n" "ys ! (i - b) = slice b n xs ! j"
      using assms(2) by (auto simp: in_set_conv_nth)
    then show ?thesis using nth_slice [OF assms(2)] by (intro exI [of _ "b + j"]) auto
  qed
  have out: "\<not> both_in ((b, n) # P) i j" if "b \<le> i" "i < b + n" "\<not> (b \<le> j \<and> j < b + n)" for i j
    using that assms(3) by (fastforce simp: both_in_def apart_def)
  have out': "\<not> both_in ((b, n) # P) j i" if "b \<le> i" "i < b + n" "\<not> (b \<le> j \<and> j < b + n)" for i j
    using out [OF that] by (auto simp: both_in_def)
  have ord: "both_in ((b, n) # P) i j \<or> cmp (xs ! i) (xs ! j) \<le> 0" if "i < j" "j < length xs" for i j
    using assms(1) that by (simp add: pending_def)
  let ?in = "\<lambda>i. b \<le> i \<and> i < b + n"
  show "both_in (map (\<lambda>(c, m). (b + c, m)) Q @ P) k l \<or> cmp (put_slice b ys xs ! k) (put_slice b ys xs ! l) \<le> 0"
  proof (cases "?in k"; cases "?in l")
    assume kk: "?in k" and ll: "?in l"
    have "k - b < l - b" "l - b < length ys" using kl kk ll len by auto
    then have "both_in Q (k - b) (l - b) \<or> cmp (ys ! (k - b)) (ys ! (l - b)) \<le> 0"
      using assms(5) by (simp add: pending_def)
    moreover have "both_in (map (\<lambda>(c, m). (b + c, m)) Q) k l" if qq: "both_in Q (k - b) (l - b)"
    proof -
      obtain c m where "(c, m) \<in> set Q" "c \<le> k - b" "k - b < c + m" "c \<le> l - b" "l - b < c + m"
        using qq unfolding both_in_def by blast
      then show ?thesis using kk ll unfolding both_in_def by (intro bexI [of _ "(b + c, m)"]) force+
    qed
    ultimately show ?thesis using kk ll put l by auto
  next
    assume kk: "?in k" and ll: "\<not> ?in l"
    then obtain j where j: "b \<le> j" "j < b + n" "ys ! (k - b) = xs ! j" using mem by blast
    have "cmp (xs ! j) (xs ! l) \<le> 0" using ord [of j l] out [OF j(1,2) ll] kl kk ll j l by auto
    then show ?thesis using kk ll put l j by auto
  next
    assume kk: "\<not> ?in k" and ll: "?in l"
    then obtain j where j: "b \<le> j" "j < b + n" "ys ! (l - b) = xs ! j" using mem by blast
    have "cmp (xs ! k) (xs ! j) \<le> 0" using ord [of k j] out' [OF j(1,2) kk] kl kk ll j l assms(2) by auto
    then show ?thesis using kk ll put l j by auto
  next
    assume kk: "\<not> ?in k" and ll: "\<not> ?in l"
    then show ?thesis using ord [of k l] kl l put by (auto simp: both_in_def)
  qed
qed

context comparator
begin

lemma part_done_pending:
  assumes "part_done cmp p lt gt ys"
  shows "pending cmp [(0, lt), (gt, length ys - gt)] ys"
proof -
  have lo: "cmp (ys ! k) p \<le> 0" if "k < gt" for k
  proof -
    have "ys ! k = p \<or> cmp p (ys ! k) \<ge> 0"
      using that assms unfolding part_done_def by (metis less_imp_le not_le order_refl)
    then show ?thesis using cmp_ge cmp_refl by (metis order_refl)
  qed
  have hi: "cmp p (ys ! k) \<le> 0" if "lt \<le> k" "k < length ys" for k
  proof -
    have "ys ! k = p \<or> cmp p (ys ! k) \<le> 0"
      using that assms unfolding part_done_def by (metis less_imp_le not_le order_refl)
    then show ?thesis using cmp_refl by (metis order_refl)
  qed
  have "both_in [(0, lt), (gt, length ys - gt)] k l \<or> cmp (ys ! k) (ys ! l) \<le> 0"
    if "k < l" "l < length ys" for k l
    using that lo [of k] hi [of l] cmp_trans [of "ys ! k" p "ys ! l"]
    by (cases "k < gt"; cases "lt \<le> l") (auto simp: both_in_def)
  then show ?thesis by (simp add: pending_def)
qed

end

subsection \<open>The stack\<close>

definition seg_of :: "segment \<Rightarrow> nat \<times> nat" where
  "seg_of e = (fst e, fst (snd e))"

definition segs :: "segment list \<Rightarrow> segment option \<Rightarrow> (nat \<times> nat) list" where
  "segs st cur = map seg_of (case cur of None \<Rightarrow> st | Some e \<Rightarrow> e # st)"

lemma segs_simps [simp]:
  "segs [] None = []" "segs (e # st) None = segs st (Some e)"
  "segs st (Some (b, n, d)) = (b, n) # segs st None"
  "segs ((b, n, d) # st) (Some e) = seg_of e # (b, n) # segs st None"
  "seg_of (b, n, d) = (b, n)"
  by (simp_all add: segs_def seg_of_def)

text \<open>The depth of an entry is larger than the number of entries below it.\<close>

fun stack_ok :: "segment list \<Rightarrow> bool" where
  "stack_ok [] = True"
| "stack_ok ((b, n, d) # st) = (length st < d \<and> stack_ok st)"

definition cur_ok :: "segment list \<Rightarrow> segment option \<Rightarrow> bool" where
  "cur_ok st cur \<longleftrightarrow> stack_ok st \<and> (case cur of None \<Rightarrow> True | Some (b, n, d) \<Rightarrow> length st \<le> d)"

definition sort_ok :: "('a \<Rightarrow> 'a \<Rightarrow> int) \<Rightarrow> (nat \<times> nat) list \<Rightarrow> 'a list \<Rightarrow> 'a list option \<Rightarrow> bool" where
  "sort_ok cmp P xs r \<longleftrightarrow>
     (\<exists>ys. r = Some ys \<and> mset ys = mset xs \<and> (comparator cmp \<and> pending cmp P xs \<longrightarrow> sorted_cmp cmp ys))"

text \<open>One segment is replaced by what is left to do of it, \<open>Q\<close>.\<close>

lemma sort_ok_step:
  assumes "b + n \<le> length xs" and "\<forall>t\<in>set P. apart (b, n) t" and "mset ys = mset (slice b n xs)"
    and "comparator cmp \<Longrightarrow> pending cmp Q ys"
    and "sort_ok cmp (map (\<lambda>(c, m). (b + c, m)) Q @ P) (put_slice b ys xs) r"
  shows "sort_ok cmp ((b, n) # P) xs r"
  using assms(5) mset_put_slice [OF assms(1,3)] pending_step [OF _ assms(1,2,3) assms(4)]
  unfolding sort_ok_def by metis

lemma sort_ok_swap: "sort_ok cmp (s # t # P) xs r \<Longrightarrow> sort_ok cmp (t # s # P) xs r"
  by (auto simp: sort_ok_def pending_def both_in_def)

lemma apart_inside:
  "apart (b, n) t \<Longrightarrow> b \<le> c \<Longrightarrow> c + m \<le> b + n \<Longrightarrow> apart (c, m) t"
  by (auto simp: apart_def)

text \<open>A segment that is sorted in place.\<close>

lemma sort_ok_leaf:
  assumes "ptr + n \<le> length xs" and "\<forall>t\<in>set P. apart (ptr, n) t"
    and "mset ys = mset (slice ptr n xs)" and "comparator cmp \<Longrightarrow> sorted_cmp cmp ys"
    and "segs_ok (length xs) P"
    and "segs_ok (length (put_slice ptr ys xs)) P \<Longrightarrow> sort_ok cmp P (put_slice ptr ys xs) r"
  shows "sort_ok cmp ((ptr, n) # P) xs r"
proof (rule sort_ok_step [OF assms(1-3), where Q = "[]"])
  have "length ys = n" using mset_eq_length [OF assms(3)] assms(1) by simp
  then show "sort_ok cmp (map (\<lambda>(c, m). (ptr + c, m)) [] @ P) (put_slice ptr ys xs) r"
    using assms(1,5,6) by simp
qed (simp add: assms(4) pending_sorted)

lemma rqsort_loop_ok:
  "segs_ok (length xs) (segs st cur) \<Longrightarrow> cur_ok st cur \<Longrightarrow>
   sort_ok cmp (segs st cur) xs (rqsort_loop cmp st cur xs)"
proof (induction cmp st cur xs rule: rqsort_loop.induct)
  case (1 cmp xs)
  then show ?case by (simp add: sort_ok_def pending_sorted)
next
  case (2 cmp e st xs)
  then show ?case by (cases e) (simp add: cur_ok_def less_imp_le)
next
  case (3 cmp st ptr n d xs)
  have b: "ptr + n \<le> length xs" "\<forall>t\<in>set (segs st None). apart (ptr, n) t"
    and ok: "segs_ok (length xs) (segs st None)" using 3(5) by auto
  have st: "length st \<le> d" "stack_ok st" using 3(6) by (auto simp: cur_ok_def)
  then have c0: "cur_ok st None" by (simp add: cur_ok_def)
  show ?case
  proof (cases "n > 6 \<and> d + 1 \<le> 50")
    case True
    obtain lt gt ys where p: "partition_slice cmp (slice ptr n xs) = (lt, gt, ys)" by (metis prod_cases3)
    obtain q where q: "part_done cmp q lt gt ys" "mset ys = mset (slice ptr n xs)"
      using partition_slice_ok [OF _ p] True b(1) by auto
    have bd: "lt < gt" "gt \<le> n" "length ys = n"
      using partition_bounds [OF p [symmetric]] True b(1) mset_eq_length [OF q(2)] by auto
    define Q where "Q = [(0, lt), (gt, n - gt)]"
    have pQ: "pending cmp Q ys" if "comparator cmp"
      using comparator.part_done_pending [OF that q(1)] bd by (simp add: Q_def)
    have len: "length (put_slice ptr ys xs) = length xs" using bd b(1) by simp
    have ap: "\<forall>t\<in>set (segs st None). apart (ptr, lt) t \<and> apart (ptr + gt, n - gt) t"
      using b(2) bd apart_inside [of ptr n] by auto
    have c1: "cur_ok ((u, v, d + 1) # st) (Some (w, x, d + 1))" for u v w x
      using st by (simp add: cur_ok_def)
    show ?thesis
    proof (cases "lt > n - gt")
      case lg: True
      have "sort_ok cmp ((ptr + gt, n - gt) # (ptr, lt) # segs st None) (put_slice ptr ys xs)
          (rqsort_loop cmp st (Some (ptr, n, d)) xs)"
        using 3(2) [OF _ _ _ _ p [symmetric] refl lg] True st b ok ap bd len c1
        by (simp add: rqsort_loop.simps(3) p lg apart_def)
      then show ?thesis using sort_ok_step [OF b q(2) pQ] by (simp add: Q_def sort_ok_swap)
    next
      case lg: False
      have "sort_ok cmp ((ptr, lt) # (ptr + gt, n - gt) # segs st None) (put_slice ptr ys xs)
          (rqsort_loop cmp st (Some (ptr, n, d)) xs)"
        using 3(3) [OF _ _ _ _ p [symmetric] refl lg] True st b ok ap bd len c1
        by (simp add: rqsort_loop.simps(3) p lg apart_def)
      then show ?thesis using sort_ok_step [OF b q(2) pQ] by (simp add: Q_def)
    qed
  next
    case False
    show ?thesis
    proof (cases "n > 6")
      case True
      then show ?thesis
        using sort_ok_leaf [OF b _ _ ok, of "heapsortx cmp (slice ptr n xs)" cmp] 3(1) False b(1) c0
          comparator.heapsortx_sorted [of cmp]
        by (simp add: rqsort_loop.simps(3))
    next
      case F: False
      then show ?thesis
        using sort_ok_leaf [OF b _ _ ok, of "insertion_sort cmp (slice ptr n xs)" cmp] 3(4) b(1) c0
          comparator.insertion_sort_sorted [of cmp]
        by (simp add: rqsort_loop.simps(3))
    qed
  qed
qed

lemma rqsort_ok: "sort_ok cmp [(0, length xs)] xs (rqsort cmp xs)"
proof (cases "length xs < 2")
  case True
  then show ?thesis by (auto simp: rqsort_def sort_ok_def sorted_cmp_def)
next
  case False
  then show ?thesis
    using rqsort_loop_ok [of xs "[]" "Some (0, length xs, 0)" cmp] by (simp add: rqsort_def cur_ok_def)
qed

text \<open>
  C31. Whatever the comparison function answers, \<open>rqsort\<close> ends, touches no element outside the
  array, never needs more than the 50 entries of its local stack, and returns the elements of the
  array in some order.
\<close>

theorem rqsort_permutes: "\<exists>ys. rqsort cmp xs = Some ys \<and> mset ys = mset xs"
  using rqsort_ok [of cmp xs] by (auto simp: sort_ok_def)

text \<open>
  C30. With a comparison function that is a total preorder, \<open>rqsort\<close> returns a permutation of the
  array in which every element is at most every later one.
\<close>

theorem rqsort_sorts:
  assumes "comparator cmp"
  shows "\<exists>ys. rqsort cmp xs = Some ys \<and> mset ys = mset xs \<and> sorted_cmp cmp ys"
proof -
  have "both_in [(0, length xs)] k l" if "k < l" "l < length xs" for k l
    using that by (simp add: both_in_def)
  then have "pending cmp [(0, length xs)] xs" by (simp add: pending_def)
  with assms rqsort_ok [of cmp xs] show ?thesis by (auto simp: sort_ok_def)
qed

subsection \<open>The comparison functions of the typed arrays\<close>

text \<open>\<open>quickjs.c\<close> sorts its integer arrays with these. The small types subtract, the others compare.\<close>

definition js_TA_cmp_int8 :: "8 word \<Rightarrow> 8 word \<Rightarrow> int" where
  "js_TA_cmp_int8 a b = sint a - sint b"

definition js_TA_cmp_uint8 :: "u8 \<Rightarrow> u8 \<Rightarrow> int" where
  "js_TA_cmp_uint8 a b = uint a - uint b"

definition js_TA_cmp_int16 :: "16 word \<Rightarrow> 16 word \<Rightarrow> int" where
  "js_TA_cmp_int16 a b = sint a - sint b"

definition js_TA_cmp_uint16 :: "u16 \<Rightarrow> u16 \<Rightarrow> int" where
  "js_TA_cmp_uint16 a b = uint a - uint b"

definition js_TA_cmp_int32 :: "32 word \<Rightarrow> 32 word \<Rightarrow> int" where
  "js_TA_cmp_int32 x y = of_bool (y <s x) - of_bool (x <s y)"

definition js_TA_cmp_uint32 :: "u32 \<Rightarrow> u32 \<Rightarrow> int" where
  "js_TA_cmp_uint32 x y = of_bool (y < x) - of_bool (y > x)"

definition js_TA_cmp_int64 :: "64 word \<Rightarrow> 64 word \<Rightarrow> int" where
  "js_TA_cmp_int64 x y = of_bool (y <s x) - of_bool (x <s y)"

definition js_TA_cmp_uint64 :: "u64 \<Rightarrow> u64 \<Rightarrow> int" where
  "js_TA_cmp_uint64 x y = of_bool (y < x) - of_bool (y > x)"

interpretation int8: comparator js_TA_cmp_int8
  by unfold_locales (auto simp: js_TA_cmp_int8_def)

interpretation uint8: comparator js_TA_cmp_uint8
  by unfold_locales (auto simp: js_TA_cmp_uint8_def)

interpretation int16: comparator js_TA_cmp_int16
  by unfold_locales (auto simp: js_TA_cmp_int16_def)

interpretation uint16: comparator js_TA_cmp_uint16
  by unfold_locales (auto simp: js_TA_cmp_uint16_def)

interpretation int32: comparator js_TA_cmp_int32
  by unfold_locales (auto simp: js_TA_cmp_int32_def word_sless_alt split: if_splits)

interpretation uint32: comparator js_TA_cmp_uint32
  by unfold_locales (auto simp: js_TA_cmp_uint32_def split: if_splits)

interpretation int64: comparator js_TA_cmp_int64
  by unfold_locales (auto simp: js_TA_cmp_int64_def word_sless_alt split: if_splits)

interpretation uint64: comparator js_TA_cmp_uint64
  by unfold_locales (auto simp: js_TA_cmp_uint64_def split: if_splits)

theorem rqsort_sorts_witness:
  "\<exists>ys. rqsort js_TA_cmp_int32 [5, -1, 3, 0, 8, -7, 2, 2] = Some ys \<and>
     mset ys = mset [5, -1, 3, 0, 8, -7, 2, 2] \<and> sorted_cmp js_TA_cmp_int32 ys"
  by (rule rqsort_sorts) (rule int32.comparator_axioms)

end
