(* ===== verification/Exchange.thy ===== *)
theory Exchange
  imports Rqsort
begin

text \<open>
  The exchange routines of \<open>qjs/cutils.c\<close>, on the bytes of memory: \<open>a\<close> and \<open>b\<close> are the
  addresses of two objects. \<open>exchange_func\<close> chooses a routine by the alignment of the array
  and the size of its elements. Whatever it chooses exchanges the two objects, and on the list
  of the elements this is \<open>swap\<close>, the exchange that \<open>Rqsort\<close> uses.
\<close>

subsection \<open>The routines\<close>

text \<open>A load and a store of \<open>k\<close> bytes at an address.\<close>

definition load :: "nat \<Rightarrow> nat \<Rightarrow> u8 list \<Rightarrow> u8 list" where
  "load k a mem = take k (drop a mem)"

definition store :: "nat \<Rightarrow> u8 list \<Rightarrow> u8 list \<Rightarrow> u8 list" where
  "store a v mem = take a mem @ v @ drop (a + length v) mem"

text \<open>\<open>t = *ap; *ap = *bp; *bp = t\<close> for a type of \<open>k\<close> bytes.\<close>

definition exchange_unit :: "nat \<Rightarrow> nat \<Rightarrow> nat \<Rightarrow> u8 list \<Rightarrow> u8 list" where
  "exchange_unit k a b mem =
     (let t = load k a mem;
          mem = store a (load k b mem) mem
      in store b t mem)"

fun exchange_loop :: "nat \<Rightarrow> nat \<Rightarrow> nat \<Rightarrow> nat \<Rightarrow> u8 list \<Rightarrow> u8 list" where
  "exchange_loop k 0 a b mem = mem"
| "exchange_loop k (Suc n) a b mem = exchange_loop k n (a + k) (b + k) (exchange_unit k a b mem)"

definition exchange_unit128 :: "nat \<Rightarrow> nat \<Rightarrow> u8 list \<Rightarrow> u8 list" where
  "exchange_unit128 a b mem =
     (let t = load 8 a mem;
          u = load 8 (a + 8) mem;
          mem = store a (load 8 b mem) mem;
          mem = store (a + 8) (load 8 (b + 8) mem) mem;
          mem = store b t mem
      in store (b + 8) u mem)"

fun exchange_loop128 :: "nat \<Rightarrow> nat \<Rightarrow> nat \<Rightarrow> u8 list \<Rightarrow> u8 list" where
  "exchange_loop128 0 a b mem = mem"
| "exchange_loop128 (Suc n) a b mem = exchange_loop128 n (a + 16) (b + 16) (exchange_unit128 a b mem)"

type_synonym exchange_f = "nat \<Rightarrow> nat \<Rightarrow> nat \<Rightarrow> u8 list \<Rightarrow> u8 list"

definition exchange_bytes :: exchange_f where
  "exchange_bytes a b sz mem = exchange_loop 1 sz a b mem"

definition exchange_one_byte :: exchange_f where
  "exchange_one_byte a b sz mem = exchange_unit 1 a b mem"

definition exchange_int16s :: exchange_f where
  "exchange_int16s a b sz mem = exchange_loop 2 (sz div 2) a b mem"

definition exchange_one_int16 :: exchange_f where
  "exchange_one_int16 a b sz mem = exchange_unit 2 a b mem"

definition exchange_int32s :: exchange_f where
  "exchange_int32s a b sz mem = exchange_loop 4 (sz div 4) a b mem"

definition exchange_one_int32 :: exchange_f where
  "exchange_one_int32 a b sz mem = exchange_unit 4 a b mem"

definition exchange_int64s :: exchange_f where
  "exchange_int64s a b sz mem = exchange_loop 8 (sz div 8) a b mem"

definition exchange_one_int64 :: exchange_f where
  "exchange_one_int64 a b sz mem = exchange_unit 8 a b mem"

definition exchange_int128s :: exchange_f where
  "exchange_int128s a b sz mem = exchange_loop128 (sz div (8 * 2)) a b mem"

definition exchange_one_int128 :: exchange_f where
  "exchange_one_int128 a b sz mem = exchange_unit128 a b mem"

definition exchange_func :: "u64 \<Rightarrow> u64 \<Rightarrow> exchange_f" where
  "exchange_func base sz =
     (let c = unat ((base OR sz) AND 15)
      in if c = 0 then (if sz = 8 * 2 then exchange_one_int128 else exchange_int128s)
         else if c = 8 then (if sz = 8 then exchange_one_int64 else exchange_int64s)
         else if c = 4 \<or> c = 12 then (if sz = 4 then exchange_one_int32 else exchange_int32s)
         else if c = 2 \<or> c = 6 \<or> c = 10 \<or> c = 14
         then (if sz = 2 then exchange_one_int16 else exchange_int16s)
         else (if sz = 1 then exchange_one_byte else exchange_bytes))"

subsection \<open>Correctness\<close>

text \<open>The specification: the blocks of \<open>n\<close> bytes at \<open>a\<close> and \<open>b\<close> trade places.\<close>

definition exchanged :: "nat \<Rightarrow> nat \<Rightarrow> nat \<Rightarrow> u8 list \<Rightarrow> u8 list \<Rightarrow> bool" where
  "exchanged n a b mem mem' \<longleftrightarrow>
     length mem' = length mem \<and>
     (\<forall>k<length mem. mem' ! k =
        (if a \<le> k \<and> k < a + n then mem ! (b + (k - a))
         else if b \<le> k \<and> k < b + n then mem ! (a + (k - b)) else mem ! k))"

text \<open>Two objects are the same or do not overlap, and lie in memory.\<close>

definition blocks_ok :: "nat \<Rightarrow> nat \<Rightarrow> nat \<Rightarrow> u8 list \<Rightarrow> bool" where
  "blocks_ok n a b mem \<longleftrightarrow>
     a + n \<le> length mem \<and> b + n \<le> length mem \<and> (a = b \<or> a + n \<le> b \<or> b + n \<le> a)"

lemma length_store [simp]: "a + length v \<le> length mem \<Longrightarrow> length (store a v mem) = length mem"
  by (simp add: store_def)

lemma length_load [simp]: "a + k \<le> length mem \<Longrightarrow> length (load k a mem) = k"
  by (simp add: load_def)

lemma nth_load: "i < k \<Longrightarrow> a + k \<le> length mem \<Longrightarrow> load k a mem ! i = mem ! (a + i)"
  by (simp add: load_def)

lemma nth_store:
  "a + length v \<le> length mem \<Longrightarrow> i < length mem \<Longrightarrow>
   store a v mem ! i = (if a \<le> i \<and> i < a + length v then v ! (i - a) else mem ! i)"
  by (auto simp: store_def nth_append)

lemma exchange_unit_ok:
  assumes "blocks_ok k a b mem"
  shows "exchanged k a b mem (exchange_unit k a b mem)"
  using assms by (auto simp: exchanged_def exchange_unit_def blocks_ok_def Let_def nth_store nth_load)


lemma exchanged_append:
  assumes "blocks_ok (n + m) a b m1" and "exchanged n a b m1 m2" and "exchanged m (a + n) (b + n) m2 m3"
  shows "exchanged (n + m) a b m1 m3"
  unfolding exchanged_def
proof (intro conjI allI impI)
  have len: "length m2 = length m1" "length m3 = length m1" using assms(2,3) by (auto simp: exchanged_def)
  then show "length m3 = length m1" by simp
  fix k assume k: "k < length m1"
  have ab: "a + (n + m) \<le> length m1" "b + (n + m) \<le> length m1" "a = b \<or> a + (n + m) \<le> b \<or> b + (n + m) \<le> a"
    using assms(1) by (auto simp: blocks_ok_def)
  have e2: "m2 ! i = (if a \<le> i \<and> i < a + n then m1 ! (b + (i - a))
      else if b \<le> i \<and> i < b + n then m1 ! (a + (i - b)) else m1 ! i)" if "i < length m1" for i
    using assms(2) that by (simp add: exchanged_def)
  have e3: "m3 ! k = (if a + n \<le> k \<and> k < a + n + m then m2 ! (b + n + (k - (a + n)))
      else if b + n \<le> k \<and> k < b + n + m then m2 ! (a + n + (k - (b + n))) else m2 ! k)"
    using assms(3) k len by (simp add: exchanged_def)
  consider "a \<le> k" "k < a + n" | "a + n \<le> k" "k < a + n + m" | "\<not> (a \<le> k \<and> k < a + (n + m))" "b \<le> k" "k < b + n"
    | "\<not> (a \<le> k \<and> k < a + (n + m))" "b + n \<le> k" "k < b + n + m"
    | "\<not> (a \<le> k \<and> k < a + (n + m))" "\<not> (b \<le> k \<and> k < b + (n + m))" by linarith
  then show "m3 ! k = (if a \<le> k \<and> k < a + (n + m) then m1 ! (b + (k - a))
      else if b \<le> k \<and> k < b + (n + m) then m1 ! (a + (k - b)) else m1 ! k)"
  proof cases
    case 1
    then have "m3 ! k = m2 ! k" unfolding e3 using ab(3) by auto
    then show ?thesis using 1 k by (simp add: e2)
  next
    case 2
    define i where "i = b + n + (k - (a + n))"
    have i: "i = b + (k - a)" "\<not> (a \<le> i \<and> i < a + n)" "\<not> (b \<le> i \<and> i < b + n)" "i < length m1"
      using 2 ab unfolding i_def by linarith+
    have "m3 ! k = m2 ! i" unfolding e3 i_def using 2 by simp
    also have "\<dots> = m1 ! i" using e2 [OF i(4)] i(2,3) by presburger
    finally show ?thesis unfolding i(1) using 2 by auto
  next
    case 3
    then have "m3 ! k = m2 ! k" unfolding e3 using ab(3) by auto
    then show ?thesis using 3 k by (auto simp: e2)
  next
    case 4
    define i where "i = a + n + (k - (b + n))"
    have i: "i = a + (k - b)" "\<not> (a \<le> i \<and> i < a + n)" "\<not> (b \<le> i \<and> i < b + n)" "i < length m1"
      using 4 ab unfolding i_def by linarith+
    have "m3 ! k = m2 ! i" unfolding e3 i_def using 4 by auto
    also have "\<dots> = m1 ! i" using e2 [OF i(4)] i(2,3) by presburger
    finally show ?thesis unfolding i(1) using 4 by auto
  next
    case 5
    then have "m3 ! k = m2 ! k" unfolding e3 by auto
    then show ?thesis using 5 k by (auto simp: e2)
  qed
qed

lemma exchanged_length: "exchanged n a b mem mem' \<Longrightarrow> length mem' = length mem"
  by (simp add: exchanged_def)

lemma exchange_loop_ok:
  "blocks_ok (n * k) a b mem \<Longrightarrow> exchanged (n * k) a b mem (exchange_loop k n a b mem)"
proof (induction k n a b mem rule: exchange_loop.induct)
  case (1 k a b mem)
  then show ?case by (auto simp: exchanged_def)
next
  case (2 k n a b mem)
  define m where "m = exchange_unit k a b mem"
  have u: "exchanged k a b mem m"
    unfolding m_def by (rule exchange_unit_ok) (use 2(2) in \<open>auto simp: blocks_ok_def\<close>)
  have "exchanged (n * k) (a + k) (b + k) m (exchange_loop k n (a + k) (b + k) m)"
    unfolding m_def
    by (rule 2(1)) (use 2(2) exchanged_length [OF u] in \<open>auto simp: blocks_ok_def m_def\<close>)
  then show ?case using exchanged_append [OF _ u] 2(2) by (simp add: m_def)
qed

lemma exchange_unit128_eq:
  assumes "blocks_ok 16 a b mem"
  shows "exchanged 16 a b mem (exchange_unit128 a b mem)"
  using assms by (auto simp: exchanged_def exchange_unit128_def blocks_ok_def Let_def nth_store nth_load)

lemma exchange_loop128_ok:
  "blocks_ok (n * 16) a b mem \<Longrightarrow> exchanged (n * 16) a b mem (exchange_loop128 n a b mem)"
proof (induction n a b mem rule: exchange_loop128.induct)
  case (1 a b mem)
  then show ?case by (auto simp: exchanged_def)
next
  case (2 n a b mem)
  define m where "m = exchange_unit128 a b mem"
  have u: "exchanged 16 a b mem m"
    unfolding m_def by (rule exchange_unit128_eq) (use 2(2) in \<open>auto simp: blocks_ok_def\<close>)
  have "exchanged (n * 16) (a + 16) (b + 16) m (exchange_loop128 n (a + 16) (b + 16) m)"
    unfolding m_def
    by (rule 2(1)) (use 2(2) exchanged_length [OF u] in \<open>auto simp: blocks_ok_def m_def\<close>)
  then show ?case using exchanged_append [OF _ u] 2(2) by (simp add: m_def)
qed

lemma mod_or_and15:
  fixes base sz :: u64
  assumes "(base OR sz) AND 15 = c"
  shows "c AND 1 = 0 \<Longrightarrow> 2 dvd unat sz" "c AND 3 = 0 \<Longrightarrow> 4 dvd unat sz"
    "c AND 7 = 0 \<Longrightarrow> 8 dvd unat sz" "c = 0 \<Longrightarrow> 16 dvd unat sz"
proof -
  have m: "(1::u64) = mask 1" "(3::u64) = mask 2" "(7::u64) = mask 3" "(15::u64) = mask 4"
    by (simp_all add: mask_eq_exp_minus_1)
  have g: "2 ^ k dvd unat sz" if "c AND mask k = 0" "k \<le> 4" for k
  proof -
    have "sz AND mask k = 0"
      using that assms unfolding m(4)
      by (auto simp: bit_eq_iff bit_simps) 
    then have "unat (sz AND mask k) = 0" by simp
    then show ?thesis by (simp add: unat_and_mask mod_eq_0_iff_dvd)
  qed
  show "c AND 1 = 0 \<Longrightarrow> 2 dvd unat sz" using g [of 1] m by simp
  show "c AND 3 = 0 \<Longrightarrow> 4 dvd unat sz" using g [of 2] m by simp
  show "c AND 7 = 0 \<Longrightarrow> 8 dvd unat sz" using g [of 3] m by simp
  show "c = 0 \<Longrightarrow> 16 dvd unat sz" using g [of 4] m by simp
qed

text \<open>
  The routine chosen for elements of \<open>sz\<close> bytes exchanges blocks of \<open>n\<close> bytes: \<open>n\<close> is a
  multiple of every power of two up to 16 that divides \<open>sz\<close>, and equal to \<open>sz\<close> where a routine
  for a single unit may be chosen.
\<close>

lemma exchange_func_any:
  assumes "blocks_ok n a b mem" and "\<And>k. k \<in> {2, 4, 8, 16} \<Longrightarrow> k dvd unat sz \<Longrightarrow> k dvd n"
    and "sz \<in> {1, 2, 4, 8, 16} \<Longrightarrow> n = unat sz"
  shows "exchanged n a b mem (exchange_func base sz a b n mem)"
proof -
  define w where "w = (base OR sz) AND 15"
  note d = mod_or_and15 [of base sz w, OF w_def [symmetric]]
  have lp: "exchanged n a b mem (exchange_loop k (n div k) a b mem)" if "k dvd n" for k
    using exchange_loop_ok [of "n div k" k a b mem] assms(1) that by simp
  have lp16: "exchanged n a b mem (exchange_loop128 (n div 16) a b mem)" if "16 dvd n"
    using exchange_loop128_ok [of "n div 16" a b mem] assms(1) that by simp
  consider "unat w = 0" | "unat w = 8" | "unat w = 4 \<or> unat w = 12"
    | "unat w = 2 \<or> unat w = 6 \<or> unat w = 10 \<or> unat w = 14"
    | "unat w \<noteq> 0 \<and> unat w \<noteq> 8 \<and> unat w \<noteq> 4 \<and> unat w \<noteq> 12 \<and>
       unat w \<noteq> 2 \<and> unat w \<noteq> 6 \<and> unat w \<noteq> 10 \<and> unat w \<noteq> 14" by blast
  then show ?thesis
  proof cases
    case 1
    then have w: "w = 0" by (auto simp: word_unat_eq_iff)
    have f: "exchange_func base sz = (if sz = 16 then exchange_one_int128 else exchange_int128s)"
      using 1 by (auto simp: exchange_func_def Let_def w_def [symmetric])
    have "16 dvd n" using w d(4) assms(2) [of 16] by auto
    then show ?thesis unfolding f using assms(1,3) exchange_unit128_eq [of a b mem] lp16
      by (cases "sz = 16") (simp_all add: exchange_int128s_def exchange_one_int128_def)
  next
    case 2
    then have w: "w = 8" by (auto simp: word_unat_eq_iff)
    have f: "exchange_func base sz = (if sz = 8 then exchange_one_int64 else exchange_int64s)"
      using 2 by (auto simp: exchange_func_def Let_def w_def [symmetric])
    have "8 dvd n" using w d(3) assms(2) [of 8] by auto
    then show ?thesis unfolding f using assms(1,3) exchange_unit_ok [of 8 a b mem] lp [of 8]
      by (cases "sz = 8") (simp_all add: exchange_int64s_def exchange_one_int64_def)
  next
    case 3
    then have w: "w = 4 \<or> w = 12" by (auto simp: word_unat_eq_iff)
    have f: "exchange_func base sz = (if sz = 4 then exchange_one_int32 else exchange_int32s)"
      using 3 by (auto simp: exchange_func_def Let_def w_def [symmetric])
    have "4 dvd n" using w d(2) assms(2) [of 4] by auto
    then show ?thesis unfolding f using assms(1,3) exchange_unit_ok [of 4 a b mem] lp [of 4]
      by (cases "sz = 4") (simp_all add: exchange_int32s_def exchange_one_int32_def)
  next
    case 4
    then have w: "w = 2 \<or> w = 6 \<or> w = 10 \<or> w = 14" by (auto simp: word_unat_eq_iff)
    have f: "exchange_func base sz = (if sz = 2 then exchange_one_int16 else exchange_int16s)"
      using 4 by (auto simp: exchange_func_def Let_def w_def [symmetric])
    have "2 dvd n" using w d(1) assms(2) [of 2] by auto
    then show ?thesis unfolding f using assms(1,3) exchange_unit_ok [of 2 a b mem] lp [of 2]
      by (cases "sz = 2") (simp_all add: exchange_int16s_def exchange_one_int16_def)
  next
    case 5
    then have f: "exchange_func base sz = (if sz = 1 then exchange_one_byte else exchange_bytes)"
      by (auto simp: exchange_func_def Let_def w_def [symmetric])
    show ?thesis unfolding f using assms(1,3) exchange_unit_ok [of 1 a b mem] lp [of 1]
      by (cases "sz = 1") (simp_all add: exchange_bytes_def exchange_one_byte_def)
  qed
qed

text \<open>The two uses in \<open>rqsort\<close>: single elements, and blocks of whole elements.\<close>

lemma dvd_or_128:
  fixes sz :: u64
  assumes "k \<in> {2, 4, 8, 16}" and "k dvd unat (sz OR 128)"
  shows "k dvd unat sz"
proof -
  have "\<exists>j\<le>4. k = 2 ^ j"
    using assms(1) by (auto intro: exI [of _ 1] exI [of _ 2] exI [of _ 3] exI [of _ 4])
  then obtain j where j: "k = 2 ^ j" "j \<le> 4" by blast
  have "j = 0 \<or> j = 1 \<or> j = 2 \<or> j = 3 \<or> j = 4" using j(2) by linarith
  then have "(128 :: u64) AND mask j = 0" by (elim disjE) (simp_all add: mask_eq_exp_minus_1)
  then have "(sz OR 128) AND mask j = sz AND mask j" by (simp add: bit.conj_disj_distrib2)
  then have "unat (sz OR 128) mod 2 ^ j = unat sz mod 2 ^ j" by (metis unat_and_mask)
  then show ?thesis using assms(2) j(1) by (simp add: mod_eq_0_iff_dvd [symmetric])
qed

text \<open>An array of \<open>N\<close> elements of \<open>sz\<close> bytes each, at address \<open>base\<close>.\<close>

definition elems :: "nat \<Rightarrow> nat \<Rightarrow> nat \<Rightarrow> u8 list \<Rightarrow> u8 list list" where
  "elems sz base N mem = map (\<lambda>i. load sz (base + i * sz) mem) [0..<N]"

definition moved :: "nat \<Rightarrow> nat \<Rightarrow> nat \<Rightarrow> nat \<Rightarrow> nat" where
  "moved i j m k =
     (if i \<le> k \<and> k < i + m then j + (k - i) else if j \<le> k \<and> k < j + m then i + (k - j) else k)"

text \<open>Byte \<open>d\<close> of element \<open>k\<close> comes from byte \<open>d\<close> of element \<open>moved i j m k\<close>.\<close>

lemma exchanged_byte:
  assumes "exchanged (m * sz) (base + i * sz) (base + j * sz) mem mem'" and "d < sz"
    and "base + k * sz + d < length mem"
  shows "mem' ! (base + k * sz + d) = mem ! (base + moved i j m k * sz + d)"
proof -
  have dv: "(k * sz + d) div sz = k" "0 < sz" using assms(2) by auto
  have in_iff: "base + q * sz \<le> base + k * sz + d \<and> base + k * sz + d < base + q * sz + m * sz
      \<longleftrightarrow> q \<le> k \<and> k < q + m" for q
    using less_eq_div_iff_mult_less_eq [OF dv(2), of q "k * sz + d", unfolded dv(1)]
      div_less_iff_less_mult [OF dv(2), of "k * sz + d" "q + m", unfolded dv(1)]
    by (simp add: algebra_simps)
  have sh: "base + p * sz + (base + k * sz + d - (base + q * sz)) = base + (p + (k - q)) * sz + d"
    if "q \<le> k" for p q
    using le_Suc_ex [OF that] by (auto simp: algebra_simps)
  have "mem' ! (base + k * sz + d) =
     (if i \<le> k \<and> k < i + m then mem ! (base + j * sz + (base + k * sz + d - (base + i * sz)))
      else if j \<le> k \<and> k < j + m then mem ! (base + i * sz + (base + k * sz + d - (base + j * sz)))
      else mem ! (base + k * sz + d))"
    using assms(1,3) unfolding exchanged_def by (simp only: in_iff)
  then show ?thesis using sh unfolding moved_def by presburger
qed

lemma elems_exchanged:
  assumes "exchanged (m * sz) (base + i * sz) (base + j * sz) mem mem'"
    and "base + N * sz \<le> length mem" and "i + m \<le> N" "j + m \<le> N" and "k < N"
  shows "elems sz base N mem' ! k = elems sz base N mem ! moved i j m k"
proof -
  define l where "l = moved i j m k"
  have l: "l < N" using assms(3-5) by (auto simp: l_def moved_def)
  have fits: "base + q * sz + sz \<le> length mem" if "q < N" for q
  proof -
    have "q * sz + sz \<le> N * sz" using that by (metis Suc_leI add.commute mult_Suc mult_le_mono1)
    then show ?thesis using assms(2) by simp
  qed
  have len: "length mem' = length mem" using assms(1) by (rule exchanged_length)
  have "load sz (base + k * sz) mem' = load sz (base + l * sz) mem"
    by (rule nth_equalityI)
      (use fits [OF assms(5)] fits [OF l] len exchanged_byte [OF assms(1)]
        in \<open>auto simp: nth_load l_def\<close>)
  then show ?thesis using assms(5) l by (simp add: elems_def l_def [symmetric])
qed

lemma elems_swap_block:
  assumes "exchanged (m * sz) (base + i * sz) (base + j * sz) mem mem'"
    and "base + N * sz \<le> length mem" and "i + m \<le> j" "j + m \<le> N"
  shows "elems sz base N mem' = swap_block i j m (elems sz base N mem)"
proof (rule nth_equalityI)
  fix k assume "k < length (elems sz base N mem')"
  then have k: "k < N" by (simp add: elems_def)
  then show "elems sz base N mem' ! k = swap_block i j m (elems sz base N mem) ! k"
    using elems_exchanged [OF assms(1,2) _ assms(4) k] assms(3,4)
    by (subst nth_swap_block) (auto simp: elems_def moved_def add.commute)
qed (simp add: elems_def)

lemma elems_swap:
  assumes "exchanged sz (base + i * sz) (base + j * sz) mem mem'"
    and "base + N * sz \<le> length mem" and "i < N" "j < N"
  shows "elems sz base N mem' = swap i j (elems sz base N mem)"
proof (rule nth_equalityI)
  fix k assume "k < length (elems sz base N mem')"
  then have k: "k < N" by (simp add: elems_def)
  have "elems sz base N mem' ! k = elems sz base N mem ! moved i j 1 k"
    using elems_exchanged [of 1 sz base i j mem mem' N k] assms k by simp
  also have "\<dots> = swap i j (elems sz base N mem) ! k"
    using assms(3,4) k by (subst nth_swap) (auto simp: elems_def moved_def)
  finally show "elems sz base N mem' ! k = swap i j (elems sz base N mem) ! k" .
qed (simp add: elems_def)

lemma blocks_ok_elems:
  assumes "base + N * sz \<le> length mem" and "i + m \<le> N" "j + m \<le> N" and "i = j \<or> i + m \<le> j \<or> j + m \<le> i"
  shows "blocks_ok (m * sz) (base + i * sz) (base + j * sz) mem"
proof -
  have "(q + m) * sz \<le> N * sz" if "q + m \<le> N" for q using that by (rule mult_le_mono1)
  from this [OF assms(2)] this [OF assms(3)]
  have "base + i * sz + m * sz \<le> length mem" "base + j * sz + m * sz \<le> length mem"
    using assms(1) by (simp_all add: algebra_simps)
  moreover have "p * sz + m * sz \<le> q * sz" if "p + m \<le> q" for p q
    using mult_le_mono1 [OF that, of sz] by (simp add: algebra_simps)
  ultimately show ?thesis using assms(4) by (auto simp: blocks_ok_def)
qed

text \<open>
  For an array of \<open>N\<close> elements of \<open>sz\<close> bytes at address \<open>base\<close>, the routine \<open>rqsort\<close> gets
  from \<open>exchange_func(base, size)\<close> exchanges elements \<open>i\<close> and \<open>j\<close>, equal or not, and the one
  from \<open>exchange_func(base, size | 128)\<close> exchanges two disjoint blocks of \<open>m\<close> elements: the
  exchanges of the model of the sort, whatever the alignment and the size of the elements.
\<close>

lemma exchange_func_elements:
  assumes "0 < sz" and "unat base + N * unat sz \<le> length mem" and "i < N" "j < N"
    and "p + m \<le> q" "q + m \<le> N"
  shows "elems (unat sz) (unat base) N
      (exchange_func base sz (unat base + i * unat sz) (unat base + j * unat sz) (unat sz) mem) =
     swap i j (elems (unat sz) (unat base) N mem) \<and>
    elems (unat sz) (unat base) N
      (exchange_func base (sz OR 128) (unat base + p * unat sz) (unat base + q * unat sz) (m * unat sz) mem) =
     swap_block p q m (elems (unat sz) (unat base) N mem)"
proof
  have "blocks_ok (1 * unat sz) (unat base + i * unat sz) (unat base + j * unat sz) mem"
    by (rule blocks_ok_elems [OF assms(2)]) (use assms in auto)
  then show "elems (unat sz) (unat base) N
      (exchange_func base sz (unat base + i * unat sz) (unat base + j * unat sz) (unat sz) mem) =
     swap i j (elems (unat sz) (unat base) N mem)"
    by (intro elems_swap exchange_func_any) (use assms in auto)
  have "bit (sz OR 128) 7" by (simp add: bit_or_iff)
  then have "sz OR 128 \<notin> {1, 2, 4, 8, 16}" by auto
  then show "elems (unat sz) (unat base) N
      (exchange_func base (sz OR 128) (unat base + p * unat sz) (unat base + q * unat sz) (m * unat sz) mem) =
     swap_block p q m (elems (unat sz) (unat base) N mem)"
    using assms blocks_ok_elems [OF assms(2), of p m q] dvd_or_128 [of _ sz]
    by (intro elems_swap_block exchange_func_any) (auto intro: dvd_mult)
qed

lemma exchange_func_elements_witness:
  "elems 3 2 2 (exchange_func 2 3 (2 + 0 * 3) (2 + 1 * 3) 3 [9, 9, 1, 2, 3, 4, 5, 6]) =
     swap 0 1 (elems 3 2 2 [9, 9, 1, 2, 3, 4, 5, 6])"
  using exchange_func_elements [of 3 2 2 "[9, 9, 1, 2, 3, 4, 5, 6]" 0 1 0 1 1] by simp

end
