(* ===== verification/Utf8.thy ===== *)
theory Utf8
  imports Prelude
begin

text \<open>
  The UTF-8 encoder and decoder of \<open>qjs/cutils.c\<close>. The encoder returns the bytes it writes
  (the C function returns their number); the decoder gets the bytes readable at \<open>p\<close> and
  returns the C result together with the number of bytes it moved \<open>*pp\<close> by. Both work on
  up to 31 bits. Encoder and decoder are shown to be inverse to each other: the decoder
  accepts a byte sequence exactly when it is the shortest encoding of its value.
\<close>

subsection \<open>The functions\<close>

definition utf8_min_code :: "u32 list" where
  "utf8_min_code = [0x80, 0x800, 0x10000, 0x00200000, 0x04000000]"

definition utf8_first_code_mask :: "u32 list" where
  "utf8_first_code_mask = [0x1f, 0xf, 0x7, 0x3, 0x1]"

text \<open>A continuation byte, \<open>((c >> n) & 0x3f) | 0x80\<close>.\<close>

definition utf8_cont :: "u32 \<Rightarrow> u8" where
  "utf8_cont x = ucast ((x AND 0x3f) OR 0x80)"

text \<open>
  The branch for values of more than 31 bits, \<open>return 0\<close>, is innermost in the source; no byte
  has been written when it is reached.
\<close>

definition unicode_to_utf8 :: "u32 \<Rightarrow> u8 list" where
  "unicode_to_utf8 c =
     (if c < 0x80 then [ucast c]
      else if \<not> c < 0x80000000 then []
      else (if c < 0x800 then [ucast (drop_bit 6 c OR 0xc0)]
            else (if c < 0x10000 then [ucast (drop_bit 12 c OR 0xe0)]
                  else (if c < 0x00200000 then [ucast (drop_bit 18 c OR 0xf0)]
                        else (if c < 0x04000000 then [ucast (drop_bit 24 c OR 0xf8)]
                              else [ucast (drop_bit 30 c OR 0xfc), utf8_cont (drop_bit 24 c)])
                             @ [utf8_cont (drop_bit 18 c)])
                       @ [utf8_cont (drop_bit 12 c)])
                 @ [utf8_cont (drop_bit 6 c)])
           @ [utf8_cont c])"

text \<open>The switch on the first byte: the number of bytes that follow, if it can start a sequence.\<close>

definition utf8_trail :: "u8 \<Rightarrow> nat option" where
  "utf8_trail c =
     (if 0xc0 \<le> c \<and> c \<le> 0xdf then Some 1
      else if 0xe0 \<le> c \<and> c \<le> 0xef then Some 2
      else if 0xf0 \<le> c \<and> c \<le> 0xf7 then Some 3
      else if 0xf8 \<le> c \<and> c \<le> 0xfb then Some 4
      else if c = 0xfc \<or> c = 0xfd then Some 5
      else None)"

text \<open>The loop over the continuation bytes, from \<open>p[q]\<close> on; \<open>Some None\<close> is its \<open>return -1\<close>.\<close>

fun utf8_loop :: "u8 list \<Rightarrow> nat \<Rightarrow> u32 \<Rightarrow> nat \<Rightarrow> u32 option option" where
  "utf8_loop p q c 0 = Some (Some c)"
| "utf8_loop p q c (Suc l) =
     (case rd p q of
        None \<Rightarrow> None
      | Some b \<Rightarrow>
          if b < 0x80 \<or> b \<ge> 0xc0 then Some None
          else utf8_loop p (Suc q) (push_bit 6 c OR (ucast b AND 0x3f)) l)"

definition unicode_from_utf8 :: "u8 list \<Rightarrow> int \<Rightarrow> (int \<times> nat) option" where
  "unicode_from_utf8 p max_len =
     (case rd p 0 of
        None \<Rightarrow> None
      | Some b \<Rightarrow>
          if b < 0x80 then Some (uint b, 1)
          else case utf8_trail b of
            None \<Rightarrow> Some (-1, 0)
          | Some l \<Rightarrow>
              if int l > max_len - 1 then Some (-1, 0)
              else case utf8_loop p 1 (ucast b AND utf8_first_code_mask ! (l - 1)) l of
                None \<Rightarrow> None
              | Some None \<Rightarrow> Some (-1, 0)
              | Some (Some c) \<Rightarrow>
                  if c < utf8_min_code ! (l - 1) then Some (-1, 0)
                  else Some (sint c, Suc l))"

subsection \<open>Bytes as numbers\<close>

lemma unat_head:
  fixes y p :: u32
  assumes "unat y < 2 ^ k" "take_bit k p = 0" "unat y + unat p < 256"
  shows "unat (ucast (y OR p) :: u8) = unat y + unat p"
  using unat_or_disjoint [OF assms(1,2)] assms(3) by (simp add: unsigned_ucast_eq take_bit_nat_eq_self)

lemma m6: "(0x3f::u32) = mask 6" "(0x3f::u8) = mask 6" by (simp_all add: mask_eq_exp_minus_1)

lemma unat_cont: "unat (utf8_cont x) = 128 + unat x mod 64"
proof -
  have "unat (x AND 0x3f) = unat x mod 64" unfolding m6 by (simp add: unat_and_mask)
  moreover have "unat x mod 64 < 64" by simp
  ultimately show ?thesis unfolding utf8_cont_def
    by (subst unat_head [where k = 6]) (simp_all)
qed

lemma unat_join:
  assumes "unat c < 2 ^ 26"
  shows "unat (push_bit 6 (c::u32) OR (ucast (b::u8) AND 0x3f)) = 64 * unat c + unat b mod 64"
proof -
  have a: "unat ((ucast b::u32) AND 0x3f) = unat b mod 64"
    unfolding m6 by (simp add: unat_and_mask)
  have b: "unat (push_bit 6 c) = 64 * unat c" using assms
    by (simp add: push_bit_eq_mult unat_mult_lem [THEN iffD1])
  have "unat ((ucast b AND 0x3f) OR push_bit 6 c) = unat b mod 64 + 64 * unat c"
    by (subst unat_or_disjoint [where k = 6]) (use assms in \<open>simp_all add: a b take_bit_push_bit\<close>)
  then show ?thesis by (simp add: or.commute)
qed

subsection \<open>Digits of base 64\<close>

fun dval :: "nat \<Rightarrow> nat list \<Rightarrow> nat" where
  "dval a [] = a"
| "dval a (d # ds) = dval (64 * a + d) ds"

fun digits64 :: "nat \<Rightarrow> nat \<Rightarrow> nat list" where
  "digits64 0 v = []"
| "digits64 (Suc l) v = digits64 l (v div 64) @ [v mod 64]"

lemma length_digits64 [simp]: "length (digits64 l v) = l"
  by (induction l v rule: digits64.induct) auto

lemma dval_append: "dval a (xs @ ys) = dval (dval a xs) ys"
  by (induction a xs rule: dval.induct) auto

lemma dval_iff:
  "\<forall>d\<in>set ds. d < 64 \<Longrightarrow> dval a ds = v \<longleftrightarrow> a = v div 64 ^ length ds \<and> ds = digits64 (length ds) v"
proof (induction ds arbitrary: v rule: rev_induct)
  case (snoc d ds)
  have "dval a (ds @ [d]) = v \<longleftrightarrow> dval a ds = v div 64 \<and> d = v mod 64"
    using snoc.prems by (auto simp: dval_append)
  also have "\<dots> \<longleftrightarrow> a = v div 64 div 64 ^ length ds \<and> ds = digits64 (length ds) (v div 64) \<and> d = v mod 64"
    using snoc by auto
  finally show ?case by (auto simp: div_mult2_eq mult.commute)
qed simp

abbreviation is_cont :: "u8 \<Rightarrow> bool" where
  "is_cont b \<equiv> 128 \<le> unat b \<and> unat b < 192"

lemma utf8_loop_iff:
  assumes "(unat c + 1) * 64 ^ l \<le> 2 ^ 32" and "q \<le> length p"
  shows "utf8_loop p q c l = Some (Some w) \<longleftrightarrow>
     q + l \<le> length p \<and> (\<forall>b\<in>set (take l (drop q p)). is_cont b) \<and>
     unat w = dval (unat c) (map (\<lambda>b. unat b mod 64) (take l (drop q p)))"
  using assms
proof (induction p q c l rule: utf8_loop.induct)
  case (1 p q c)
  then show ?case by (auto simp: word_unat_eq_iff)
next
  case (2 p q c l)
  show ?case
  proof (cases "q < length p")
    case False
    then show ?thesis by (simp add: rd_eq)
  next
    case True
    have tk: "take (Suc l) (drop q p) = p ! q # take l (drop (Suc q) p)"
      using True by (simp add: Cons_nth_drop_Suc [symmetric])
    have "1 * (64 * (unat c + 1)) \<le> 64 ^ l * (64 * (unat c + 1))" by (rule mult_right_mono) auto
    also have "\<dots> = (unat c + 1) * 64 ^ Suc l" by (simp add: algebra_simps)
    also note 2(2)
    finally have "unat c < 2 ^ 26" by simp
    note j = unat_join [OF this, of "p ! q"]
    have "unat (p ! q) mod 64 < 64" by simp
    then have "(64 * unat c + unat (p ! q) mod 64 + 1) * 64 ^ l \<le> 64 * (unat c + 1) * 64 ^ l"
      by (intro mult_right_mono) auto
    also have "\<dots> = (unat c + 1) * 64 ^ Suc l" by (simp add: algebra_simps)
    also note 2(2)
    finally have "(64 * unat c + unat (p ! q) mod 64 + 1) * 64 ^ l \<le> 2 ^ 32" by simp
    then show ?thesis using 2(1) [of "p ! q"] True
      by (auto simp: rd_eq tk j word_less_nat_alt word_le_nat_alt)
  qed
qed

lemma utf8_loop_defined:
  "q + l \<le> length p \<Longrightarrow> utf8_loop p q c l \<noteq> None"
  by (induction p q c l rule: utf8_loop.induct) (auto simp: rd_eq)

text \<open>The encoder on naturals.\<close>

definition utf8_class :: "nat \<Rightarrow> nat" where
  "utf8_class v = (if v < 128 then 0 else if v < 2048 then 1 else if v < 65536 then 2
     else if v < 2097152 then 3 else if v < 67108864 then 4 else 5)"

definition utf8_base :: "nat \<Rightarrow> nat" where
  "utf8_base l = [0, 192, 224, 240, 248, 252] ! l"

lemma digits64_numeral [simp]:
  "digits64 (numeral k) v = digits64 (pred_numeral k) (v div 64) @ [v mod 64]"
  by (simp only: numeral_eq_Suc [of k] digits64.simps)

lemmas utf8_enc_simps = unicode_to_utf8_def word_less_nat_alt utf8_class_def utf8_base_def
  unat_cont div_mult2_eq [symmetric]

lemma map_unat_to_utf8:
  assumes "c < 0x80000000"
  shows "map unat (unicode_to_utf8 c) =
    (let l = utf8_class (unat c)
     in (utf8_base l + unat c div 64 ^ l) # map (\<lambda>d. 128 + d) (digits64 l (unat c)))"
proof -
  have c: "unat c < 2147483648" using assms by (simp add: word_less_nat_alt)
  have d: "unat (drop_bit n c) = unat c div 2 ^ n" for n unfolding unat_drop_bit_eq by (rule drop_bit_eq_div)
  consider "unat c < 128" | "128 \<le> unat c" "unat c < 2048" | "2048 \<le> unat c" "unat c < 65536"
    | "65536 \<le> unat c" "unat c < 2097152" | "2097152 \<le> unat c" "unat c < 67108864"
    | "67108864 \<le> unat c" by linarith
  then show ?thesis
  proof cases
    case 1
    then show ?thesis by (simp add: utf8_enc_simps unsigned_ucast_eq take_bit_nat_eq_self)
  next
    case 2
    then have "unat (ucast (drop_bit 6 c OR 0xc0) :: u8) = unat c div 2 ^ 6 + 192"
      using c by (subst unat_head [where k = 5]) (simp_all add: d)
    with 2 show ?thesis by (simp add: utf8_enc_simps d)
  next
    case 3
    then have "unat (ucast (drop_bit 12 c OR 0xe0) :: u8) = unat c div 2 ^ 12 + 224"
      using c by (subst unat_head [where k = 4]) (simp_all add: d)
    with 3 show ?thesis by (simp add: utf8_enc_simps d)
  next
    case 4
    then have "unat (ucast (drop_bit 18 c OR 0xf0) :: u8) = unat c div 2 ^ 18 + 240"
      using c by (subst unat_head [where k = 3]) (simp_all add: d)
    with 4 show ?thesis by (simp add: utf8_enc_simps d)
  next
    case 5
    then have "unat (ucast (drop_bit 24 c OR 0xf8) :: u8) = unat c div 2 ^ 24 + 248"
      using c by (subst unat_head [where k = 2]) (simp_all add: d)
    with 5 show ?thesis by (simp add: utf8_enc_simps d)
  next
    case 6
    then have "unat (ucast (drop_bit 30 c OR 0xfc) :: u8) = unat c div 2 ^ 30 + 252"
      using c by (subst unat_head [where k = 1]) (simp_all add: d)
    with 6 c show ?thesis by (simp add: utf8_enc_simps d)
  qed
qed


lemma utf8_trail_facts:
  assumes "utf8_trail b = Some l"
  shows "1 \<le> l" "l \<le> 5" "utf8_base l \<le> unat b" "unat b - utf8_base l < 2 ^ (6 - l)"
    and "unat (ucast b AND utf8_first_code_mask ! (l - 1)) = unat b - utf8_base l"
proof -
  have ms: "(0x1f::u32) = mask 5" "(0xf::u32) = mask 4" "(0x7::u32) = mask 3" "(0x3::u32) = mask 2"
    "(1::u32) = mask 1"
    by (simp_all add: mask_eq_exp_minus_1)
  have md: "unat (ucast b AND (mask k :: u32)) = unat b mod 2 ^ k" for k
    by (simp add: unat_and_mask)
  consider "l = 1" "192 \<le> unat b" "unat b \<le> 223" | "l = 2" "224 \<le> unat b" "unat b \<le> 239"
    | "l = 3" "240 \<le> unat b" "unat b \<le> 247" | "l = 4" "248 \<le> unat b" "unat b \<le> 251"
    | "l = 5" "252 \<le> unat b" "unat b \<le> 253"
    using assms by (auto simp: utf8_trail_def word_le_nat_alt word_unat_eq_iff split: if_splits)
  then have "1 \<le> l \<and> l \<le> 5 \<and> utf8_base l \<le> unat b \<and> unat b - utf8_base l < 2 ^ (6 - l) \<and>
      unat (ucast b AND utf8_first_code_mask ! (l - 1)) = unat b - utf8_base l"
    by cases (simp_all add: utf8_base_def utf8_first_code_mask_def ms md mod_above_base [of 192] mod_above_base [of 224]
        mod_above_base [of 240] mod_above_base [of 248] mod_above_base [of 252] del: One_nat_def)
  then show "1 \<le> l" "l \<le> 5" "utf8_base l \<le> unat b" "unat b - utf8_base l < 2 ^ (6 - l)"
    and "unat (ucast b AND utf8_first_code_mask ! (l - 1)) = unat b - utf8_base l"
    by auto
qed

lemma utf8_trailI:
  assumes "1 \<le> l" "l \<le> 5" "unat b = utf8_base l + a" "a < 2 ^ (6 - l)"
  shows "utf8_trail b = Some l"
proof -
  have "l = 1 \<or> l = 2 \<or> l = 3 \<or> l = 4 \<or> l = 5" using assms(1,2) by linarith
  then show ?thesis using assms(3,4)
    by (elim disjE) (simp_all add: utf8_trail_def utf8_base_def word_le_nat_alt word_unat_eq_iff less_2_cases_iff)
qed

lemma utf8_class_iff:
  assumes "1 \<le> l" "l \<le> 5"
  shows "utf8_class v = l \<and> v < 2 ^ 31 \<longleftrightarrow>
     unat (utf8_min_code ! (l - 1)) \<le> v \<and> v div 64 ^ l < 2 ^ (6 - l)"
proof -
  have "l = 1 \<or> l = 2 \<or> l = 3 \<or> l = 4 \<or> l = 5" using assms(1,2) by linarith
  then show ?thesis
    by (elim disjE) (auto simp: utf8_class_def utf8_min_code_def div_less_iff_less_mult)
qed


lemma digits64_less: "d \<in> set (digits64 l v) \<Longrightarrow> d < 64"
  by (induction l v rule: digits64.induct) auto

lemma cont_digits:
  assumes "\<forall>d\<in>set ds. d < 64"
  shows "(\<forall>b\<in>set ts. is_cont b) \<and> map (\<lambda>b. unat b mod 64) ts = ds \<longleftrightarrow> map unat ts = map ((+) 128) ds"
  using assms
proof (induction ts arbitrary: ds)
  case (Cons t ts)
  show ?case
  proof (cases ds)
    case (Cons d ds')
    have "is_cont t \<and> unat t mod 64 = d \<longleftrightarrow> unat t = 128 + d"
      using Cons.prems Cons mod_above_base [of 128 "unat t" 64] by auto
    then show ?thesis using Cons.IH [of ds'] Cons.prems Cons by auto
  qed simp
qed auto

lemma map_unat_inj: "map unat (xs :: u8 list) = map unat ys \<longleftrightarrow> xs = ys"
  by (rule inj_map_eq_map) (simp add: inj_def word_unat_eq_iff)

lemma utf8_head_bound:
  assumes "utf8_trail b = Some l"
  shows "(unat (ucast b AND utf8_first_code_mask ! (l - 1)) + 1) * 64 ^ l \<le> 2 ^ 31"
proof -
  note f = utf8_trail_facts [OF assms]
  have "(unat (ucast b AND utf8_first_code_mask ! (l - 1)) + 1) * 64 ^ l \<le> 2 ^ (6 - l) * 64 ^ l"
    unfolding f(5) using f(4) by (intro mult_right_mono) auto
  also have "l = 1 \<or> l = 2 \<or> l = 3 \<or> l = 4 \<or> l = 5" using f(1,2) by linarith
  then have "2 ^ (6 - l) * 64 ^ l \<le> (2 ^ 31 :: nat)" by (elim disjE) simp_all
  finally show ?thesis .
qed

lemma utf8_loop_digits:
  assumes "utf8_trail b = Some l" "l \<le> length ps"
  shows "utf8_loop (b # ps) 1 (ucast b AND utf8_first_code_mask ! (l - 1)) l = Some (Some w) \<longleftrightarrow>
     unat b = utf8_base l + unat w div 64 ^ l \<and>
     map unat (take l ps) = map ((+) 128) (digits64 l (unat w))"
proof -
  note f = utf8_trail_facts [OF assms(1)]
  define c where "c = ucast b AND utf8_first_code_mask ! (l - 1)"
  define ds where "ds = map (\<lambda>b. unat b mod 64) (take l ps)"
  have ds: "length ds = l" "\<forall>d\<in>set ds. d < 64" using assms(2) by (auto simp: ds_def)
  have "utf8_loop (b # ps) 1 c l = Some (Some w) \<longleftrightarrow>
      (\<forall>b\<in>set (take l ps). is_cont b) \<and> unat w = dval (unat c) ds"
    using assms(2) utf8_head_bound [OF assms(1), folded c_def]
    by (subst utf8_loop_iff) (auto simp: ds_def)
  also have "\<dots> \<longleftrightarrow> unat c = unat w div 64 ^ l \<and> (\<forall>b\<in>set (take l ps). is_cont b) \<and>
      ds = digits64 l (unat w)"
    using dval_iff [OF ds(2)] ds(1) by metis
  also have "\<dots> \<longleftrightarrow> unat c = unat w div 64 ^ l \<and>
      map unat (take l ps) = map ((+) 128) (digits64 l (unat w))"
    using cont_digits [of "digits64 l (unat w)" "take l ps"] digits64_less by (auto simp: ds_def)
  also have "unat c = unat w div 64 ^ l \<longleftrightarrow> unat b = utf8_base l + unat w div 64 ^ l"
    using f(3,5) unfolding c_def by linarith
  finally show ?thesis unfolding c_def .
qed

text \<open>A multibyte sequence is accepted exactly when it is the encoding of its value.\<close>

lemma utf8_multibyte_iff:
  assumes "utf8_trail b = Some l" "l \<le> length ps"
  shows "utf8_loop (b # ps) 1 (ucast b AND utf8_first_code_mask ! (l - 1)) l = Some (Some w) \<and>
         utf8_min_code ! (l - 1) \<le> w \<longleftrightarrow>
         unat w < 2 ^ 31 \<and> b # take l ps = unicode_to_utf8 w" (is "?L \<and> ?M \<longleftrightarrow> _")
proof
  note f = utf8_trail_facts [OF assms(1)] and lp = utf8_loop_digits [OF assms, of w]
  assume A: "?L \<and> ?M"
  then have "unat w div 64 ^ l < 2 ^ (6 - l)" "unat (utf8_min_code ! (l - 1)) \<le> unat w"
    using f(4) lp by (auto simp: word_le_nat_alt)
  then have cl: "utf8_class (unat w) = l" "unat w < 2 ^ 31"
    using utf8_class_iff [OF f(1,2), of "unat w"] by auto
  then have "map unat (b # take l ps) = map unat (unicode_to_utf8 w)"
    using A lp by (subst map_unat_to_utf8) (simp_all add: word_less_nat_alt)
  then show "unat w < 2 ^ 31 \<and> b # take l ps = unicode_to_utf8 w"
    using cl map_unat_inj by blast
next
  note f = utf8_trail_facts [OF assms(1)] and lp = utf8_loop_digits [OF assms, of w]
  assume A: "unat w < 2 ^ 31 \<and> b # take l ps = unicode_to_utf8 w"
  define l' where "l' = utf8_class (unat w)"
  have m: "map unat (b # take l ps) =
      (utf8_base l' + unat w div 64 ^ l') # map ((+) 128) (digits64 l' (unat w))"
    unfolding conjunct2 [OF A] using A
    by (subst map_unat_to_utf8) (simp_all add: word_less_nat_alt l'_def Let_def)
  then have "l' = l" using assms(2) by (auto dest!: arg_cong [where f = length])
  then have "unat (utf8_min_code ! (l - 1)) \<le> unat w"
    using A utf8_class_iff [OF f(1,2), of "unat w"] by (auto simp: l'_def)
  with m \<open>l' = l\<close> lp show "?L \<and> ?M" by (simp add: word_le_nat_alt)
qed

lemma utf8_class_trail:
  assumes "unat c < 2 ^ 31" "128 \<le> unat c" "b # bs = unicode_to_utf8 c"
  shows "utf8_trail b = Some (utf8_class (unat c))"
proof (rule utf8_trailI)
  have ge: "1 \<le> utf8_class (unat c)" "utf8_class (unat c) \<le> 5"
    using assms(2) by (auto simp: utf8_class_def)
  then show "1 \<le> utf8_class (unat c)" "utf8_class (unat c) \<le> 5" .
  show "unat c div 64 ^ utf8_class (unat c) < 2 ^ (6 - utf8_class (unat c))"
    using utf8_class_iff [OF ge] assms(1) by blast
  have "map unat (b # bs) = map unat (unicode_to_utf8 c)" using assms(3) by simp
  then show "unat b = utf8_base (utf8_class (unat c)) + unat c div 64 ^ utf8_class (unat c)"
    using assms(1) by (subst (asm) map_unat_to_utf8) (simp_all add: word_less_nat_alt Let_def)
qed

lemma length_to_utf8:
  "unat c < 2 ^ 31 \<Longrightarrow> length (unicode_to_utf8 c) = Suc (utf8_class (unat c))"
  using arg_cong [OF map_unat_to_utf8, of c length] by (simp add: word_less_nat_alt Let_def)

text \<open>
  What the decoder accepts: the value \<open>c\<close> with \<open>k\<close> bytes consumed exactly when the input
  starts with the shortest encoding of \<open>c\<close> and \<open>max_len\<close> covers it.
\<close>

lemma from_utf8_some:
  assumes "unicode_from_utf8 p n = Some (r, k)" "k \<noteq> 0"
  obtains c where "r = int (unat c)" "unat c < 2 ^ 31" "take k p = unicode_to_utf8 c"
    "k = length (unicode_to_utf8 c)" "k = 1 \<or> int k \<le> n"
proof (cases p)
  case Nil
  then show ?thesis using assms by (simp add: unicode_from_utf8_def)
next
  case (Cons b ps)
  show ?thesis
  proof (cases "b < 0x80")
    case True
    then have "unicode_to_utf8 (ucast b) = [b]"
      by (simp add: unicode_to_utf8_def word_less_nat_alt)
        (simp add: word_unat_eq_iff unsigned_ucast_eq take_bit_word_eq_self)
    moreover have b: "unat b < 2 ^ 31" by (rule less_trans [OF unat_u8_lt]) simp
    ultimately show ?thesis using True assms Cons b
      by (intro that [of "ucast b"]) (auto simp: unicode_from_utf8_def)
  next
    case False
    with assms Cons obtain l w where
      l: "utf8_trail b = Some l" "int l \<le> n - 1" "k = Suc l" "r = sint w"
      and w: "utf8_loop p 1 (ucast b AND utf8_first_code_mask ! (l - 1)) l = Some (Some w)"
        "utf8_min_code ! (l - 1) \<le> w"
      by (auto simp: unicode_from_utf8_def not_le not_less split: option.splits if_splits)
    have len: "l \<le> length ps"
      using utf8_loop_iff [of _ l 1 p w] utf8_head_bound [OF l(1)] w(1) Cons by auto
    then have e: "unat w < 2 ^ 31" "b # take l ps = unicode_to_utf8 w"
      using utf8_multibyte_iff [OF l(1) len, of w] w Cons by auto
    from e(1) have "sint w = int (unat w)" by (rule sint_u32)
    moreover have "length (unicode_to_utf8 w) = Suc l" using len by (simp flip: e(2))
    ultimately show ?thesis using e l Cons by (intro that [of w]) simp_all
  qed
qed

lemma from_utf8_error: "unicode_from_utf8 p n = Some (r, 0) \<Longrightarrow> r = -1"
  by (auto simp: unicode_from_utf8_def split: option.splits if_splits)

lemma from_utf8_enc:
  assumes "c < 0x80000000" "length (unicode_to_utf8 c) = 1 \<or> int (length (unicode_to_utf8 c)) \<le> n"
  shows "unicode_from_utf8 (unicode_to_utf8 c @ rest) n =
     Some (int (unat c), length (unicode_to_utf8 c))"
proof (cases "c < 0x80")
  case True
  then have e: "unicode_to_utf8 c = [ucast c]" by (simp add: unicode_to_utf8_def)
  have u: "unat (ucast c :: u8) = unat c" using True
    by (simp add: unsigned_ucast_eq take_bit_nat_eq_self word_less_nat_alt)
  have "uint (ucast c :: u8) = int (unat (ucast c :: u8))" by simp
  also note u
  finally show ?thesis using True u
    by (simp add: unicode_from_utf8_def e word_less_nat_alt)
next
  case False
  then have c: "128 \<le> unat c" "unat c < 2 ^ 31" using assms(1) by (simp_all add: word_less_nat_alt)
  define l where "l = utf8_class (unat c)"
  have len: "length (unicode_to_utf8 c) = Suc l" using c by (simp add: length_to_utf8 l_def)
  then obtain b bs where bs: "unicode_to_utf8 c = b # bs" "length bs = l" by (cases "unicode_to_utf8 c") auto
  have tr: "utf8_trail b = Some l" using utf8_class_trail [OF c(2,1)] bs by (simp add: l_def)
  have "\<not> b < 0x80" using utf8_trail_facts(1,3) [OF tr] tr by (auto simp: utf8_trail_def word_less_nat_alt word_le_nat_alt word_unat_eq_iff split: if_splits)
  moreover have "utf8_loop (b # bs @ rest) 1 (ucast b AND utf8_first_code_mask ! (l - 1)) l = Some (Some c) \<and>
      utf8_min_code ! (l - 1) \<le> c"
    using utf8_multibyte_iff [OF tr, of "bs @ rest" c] bs c by simp
  moreover have "1 \<le> l" using utf8_trail_facts(1) [OF tr] .
  moreover have "sint c = int (unat c)" using c by (intro sint_u32)
  ultimately show ?thesis using assms(2) bs tr
    by (simp add: unicode_from_utf8_def leD)
qed

lemma from_utf8_in_bounds:
  assumes "p \<noteq> []" "n \<le> int (length p)"
  shows "unicode_from_utf8 p n \<noteq> None"
proof (cases p)
  case (Cons b ps)
  have "utf8_loop (b # ps) 1 c l \<noteq> None" if "int l \<le> n - 1" for c l
    using that assms Cons by (intro utf8_loop_defined) auto
  then show ?thesis using Cons
    by (auto simp: unicode_from_utf8_def not_less split: option.splits) (metis option.distinct(1))
qed (use assms in simp)

text \<open>
  C35. Encoding and decoding are inverse: for every value \<open>c\<close> of at most 31 bits the decoder
  returns \<open>c\<close> and moves the pointer by \<open>k\<close> exactly when the input starts with the bytes
  \<open>unicode_to_utf8\<close> writes for \<open>c\<close>, \<open>k\<close> is their number and \<open>max_len\<close> allows for them (a
  single byte is read whatever \<open>max_len\<close> is). No other sequence, no overlong one in
  particular, decodes to \<open>c\<close>.
\<close>

theorem utf8_decode_iff:
  assumes "c < 0x80000000"
  shows "unicode_from_utf8 p max_len = Some (int (unat c), k) \<longleftrightarrow>
     k = length (unicode_to_utf8 c) \<and> take k p = unicode_to_utf8 c \<and> (k = 1 \<or> int k \<le> max_len)"
proof
  assume d: "unicode_from_utf8 p max_len = Some (int (unat c), k)"
  then have "k \<noteq> 0" using from_utf8_error [of p max_len "int (unat c)"] unsigned_greater_eq [of c, where 'a = int] by (cases k) auto
  from d this obtain c' where c': "int (unat c) = int (unat c')" "take k p = unicode_to_utf8 c'"
    "k = length (unicode_to_utf8 c')" "k = 1 \<or> int k \<le> max_len" by (rule from_utf8_some)
  then have "c' = c" by (simp add: word_uint_eq_iff)
  with c' show "k = length (unicode_to_utf8 c) \<and> take k p = unicode_to_utf8 c \<and> (k = 1 \<or> int k \<le> max_len)"
    by simp
next
  assume A: "k = length (unicode_to_utf8 c) \<and> take k p = unicode_to_utf8 c \<and> (k = 1 \<or> int k \<le> max_len)"
  then have "p = unicode_to_utf8 c @ drop k p" by (metis append_take_drop_id)
  with A from_utf8_enc [OF assms] show "unicode_from_utf8 p max_len = Some (int (unat c), k)" by metis
qed

theorem utf8_decode_iff_witness:
  "unicode_from_utf8 [0xe2, 0x82, 0xac, 0x41] 4 = Some (int (unat (0x20ac :: u32)), 3)"
  using utf8_decode_iff [of "0x20ac" "[0xe2, 0x82, 0xac, 0x41]" 4 3]
  by (simp add: unicode_to_utf8_def utf8_cont_def)

text \<open>
  C36. With at least one byte available and \<open>max_len\<close> no larger than the buffer, the decoder
  never reads outside the buffer and always returns: either -1 with the pointer not moved, or
  a value of at most 31 bits with the pointer moved by at most \<open>max_len\<close>, past exactly the
  encoding of the value.
\<close>

theorem utf8_decode_safe:
  assumes "1 \<le> max_len" "max_len \<le> int (length p)"
  shows "\<exists>r k. unicode_from_utf8 p max_len = Some (r, k) \<and> int k \<le> max_len \<and>
     (r = -1 \<and> k = 0 \<or> 0 \<le> r \<and> r < 2 ^ 31 \<and> take k p = unicode_to_utf8 (word_of_int r))"
proof -
  obtain r k where r: "unicode_from_utf8 p max_len = Some (r, k)"
    using from_utf8_in_bounds [of p max_len] assms by force
  show ?thesis
  proof (cases "k = 0")
    case True
    then show ?thesis using r from_utf8_error [of p max_len r] assms by auto
  next
    case False
    with r obtain c where c: "r = int (unat c)" "unat c < 2 ^ 31" "take k p = unicode_to_utf8 c"
      "k = 1 \<or> int k \<le> max_len" by (rule from_utf8_some)
    have "int (unat c) < int (2 ^ 31)" using c(2) by (simp only: of_nat_less_iff)
    then show ?thesis using r c assms by auto
  qed
qed

theorem utf8_decode_safe_witness:
  "\<exists>r k. unicode_from_utf8 [0xc3, 0xa9] 2 = Some (r, k) \<and> int k \<le> 2 \<and>
     (r = -1 \<and> k = 0 \<or> 0 \<le> r \<and> r < 2 ^ 31 \<and> take k [0xc3, 0xa9] = unicode_to_utf8 (word_of_int r))"
  by (rule utf8_decode_safe) simp_all

end
