(* ===== verification/Cutils.thy ===== *)
theory Cutils
  imports Prelude
begin

text \<open>
  The string helpers and the small inline functions of \<open>qjs/cutils.c\<close> and \<open>qjs/cutils.h\<close>.
  A C string is the list of the bytes readable from its pointer on, terminator included: a
  function that runs past the end of the list returns \<open>None\<close>. The functions that move a
  pointer return the number of bytes they moved it by.
\<close>

subsection \<open>C strings\<close>

fun strlen :: "u8 list \<Rightarrow> nat option" where
  "strlen [] = None"
| "strlen (c # s) = (if c = 0 then Some 0 else map_option Suc (strlen s))"

text \<open>The loop of \<open>pstrcpy\<close>: \<open>q\<close> is the write position, the string is consumed.\<close>

fun pstrcpy_loop :: "u8 list \<Rightarrow> nat \<Rightarrow> int \<Rightarrow> u8 list \<Rightarrow> u8 list option" where
  "pstrcpy_loop buf q buf_size [] = None"
| "pstrcpy_loop buf q buf_size (c # str) =
     (if c = 0 \<or> int q \<ge> buf_size - 1 then wr buf q 0
      else case wr buf q c of
        None \<Rightarrow> None
      | Some buf' \<Rightarrow> pstrcpy_loop buf' (Suc q) buf_size str)"

definition pstrcpy :: "u8 list \<Rightarrow> int \<Rightarrow> u8 list \<Rightarrow> u8 list option" where
  "pstrcpy buf buf_size str =
     (if buf_size \<le> 0 then Some buf else pstrcpy_loop buf 0 buf_size str)"

definition pstrcat :: "u8 list \<Rightarrow> int \<Rightarrow> u8 list \<Rightarrow> u8 list option" where
  "pstrcat buf buf_size s =
     (case strlen buf of
        None \<Rightarrow> None
      | Some len \<Rightarrow>
          if int len < buf_size
          then map_option ((@) (take len buf)) (pstrcpy (drop len buf) (buf_size - int len) s)
          else Some buf)"

text \<open>\<open>strstart\<close> returns 0, or 1 and the offset of \<open>*ptr\<close> in \<open>str\<close>.\<close>

fun strstart_from :: "nat \<Rightarrow> u8 list \<Rightarrow> u8 list \<Rightarrow> nat option option" where
  "strstart_from n p [] = None"
| "strstart_from n p (c # q) =
     (if c = 0 then Some (Some n)
      else case p of
        [] \<Rightarrow> None
      | d # p' \<Rightarrow> if d \<noteq> c then Some None else strstart_from (Suc n) p' q)"

definition strstart :: "u8 list \<Rightarrow> u8 list \<Rightarrow> nat option option" where
  "strstart str val = strstart_from 0 str val"

definition has_suffix :: "u8 list \<Rightarrow> u8 list \<Rightarrow> bool option" where
  "has_suffix str suffix =
     (case (strlen str, strlen suffix) of
        (Some len, Some slen) \<Rightarrow>
          Some (len \<ge> slen \<and> take slen (drop (len - slen) str) = take slen suffix)
      | _ \<Rightarrow> None)"

subsection \<open>Integers and bytes\<close>

definition max_int :: "32 word \<Rightarrow> 32 word \<Rightarrow> 32 word" where
  "max_int a b = (if b <s a then a else b)"

definition min_int :: "32 word \<Rightarrow> 32 word \<Rightarrow> 32 word" where
  "min_int a b = (if a <s b then a else b)"

definition max_uint32 :: "u32 \<Rightarrow> u32 \<Rightarrow> u32" where
  "max_uint32 a b = (if a > b then a else b)"

definition min_uint32 :: "u32 \<Rightarrow> u32 \<Rightarrow> u32" where
  "min_uint32 a b = (if a < b then a else b)"

definition max_int64 :: "64 word \<Rightarrow> 64 word \<Rightarrow> 64 word" where
  "max_int64 a b = (if b <s a then a else b)"

definition min_int64 :: "64 word \<Rightarrow> 64 word \<Rightarrow> 64 word" where
  "min_int64 a b = (if a <s b then a else b)"

text \<open>
  \<open>clz\<close> and \<open>ctz\<close> of the compiler: the number of zero bits above the highest and below the
  lowest set bit, undefined at 0.
\<close>

fun ctz_from :: "nat \<Rightarrow> nat \<Rightarrow> nat \<Rightarrow> nat option" where
  "ctz_from 0 i a = None"
| "ctz_from (Suc n) i a = (if odd a then Some i else ctz_from n (Suc i) (a div 2))"

fun clz_from :: "nat \<Rightarrow> 'a::len word \<Rightarrow> nat option" where
  "clz_from 0 a = None"
| "clz_from (Suc n) a = (if bit a n then Some (LENGTH('a) - Suc n) else clz_from n a)"

definition clz32 :: "u32 \<Rightarrow> nat option" where
  "clz32 a = clz_from 32 a"

definition clz64 :: "u64 \<Rightarrow> nat option" where
  "clz64 a = clz_from 64 a"

definition ctz32 :: "u32 \<Rightarrow> nat option" where
  "ctz32 a = ctz_from 32 0 (unat a)"

definition ctz64 :: "u64 \<Rightarrow> nat option" where
  "ctz64 a = ctz_from 64 0 (unat a)"

text \<open>
  The unaligned accesses: the machine is little endian (\<open>WORDS_BIGENDIAN\<close> is undefined).
\<close>

fun le_bytes :: "nat \<Rightarrow> 'a::len word \<Rightarrow> u8 list" where
  "le_bytes 0 v = []"
| "le_bytes (Suc n) v = ucast v # le_bytes n (drop_bit 8 v)"

fun le_value :: "u8 list \<Rightarrow> 'a::len word" where
  "le_value [] = 0"
| "le_value (b # bs) = ucast b OR push_bit 8 (le_value bs)"

definition get_le :: "nat \<Rightarrow> u8 list \<Rightarrow> 'a::len word option" where
  "get_le n tab = (if n \<le> length tab then Some (le_value (take n tab)) else None)"

definition get_u64 :: "u8 list \<Rightarrow> u64 option" where
  "get_u64 tab = get_le 8 tab"

definition get_i64 :: "u8 list \<Rightarrow> int option" where
  "get_i64 tab = map_option sint (get_le 8 tab :: u64 option)"

definition put_u64 :: "u8 list \<Rightarrow> u64 \<Rightarrow> u8 list option" where
  "put_u64 tab val = memcpy tab 0 (le_bytes 8 val)"

definition get_u32 :: "u8 list \<Rightarrow> u32 option" where
  "get_u32 tab = get_le 4 tab"

definition get_i32 :: "u8 list \<Rightarrow> int option" where
  "get_i32 tab = map_option sint (get_le 4 tab :: u32 option)"

definition put_u32 :: "u8 list \<Rightarrow> u32 \<Rightarrow> u8 list option" where
  "put_u32 tab val = memcpy tab 0 (le_bytes 4 val)"

definition get_u16 :: "u8 list \<Rightarrow> u32 option" where
  "get_u16 tab = map_option ucast (get_le 2 tab :: u16 option)"

definition get_i16 :: "u8 list \<Rightarrow> int option" where
  "get_i16 tab = map_option sint (get_le 2 tab :: u16 option)"

definition put_u16 :: "u8 list \<Rightarrow> u16 \<Rightarrow> u8 list option" where
  "put_u16 tab val = memcpy tab 0 (le_bytes 2 val)"

definition get_u8 :: "u8 list \<Rightarrow> u32 option" where
  "get_u8 tab = map_option ucast (rd tab 0)"

definition get_i8 :: "u8 list \<Rightarrow> int option" where
  "get_i8 tab = map_option sint (rd tab 0)"

definition put_u8 :: "u8 list \<Rightarrow> u8 \<Rightarrow> u8 list option" where
  "put_u8 tab val = wr tab 0 val"

definition bswap16 :: "u16 \<Rightarrow> u16" where
  "bswap16 x = drop_bit 8 x OR push_bit 8 x"

definition bswap32 :: "u32 \<Rightarrow> u32" where
  "bswap32 v =
     drop_bit 24 (v AND 0xff000000) OR drop_bit 8 (v AND 0x00ff0000) OR
     push_bit 8 (v AND 0x0000ff00) OR push_bit 24 (v AND 0x000000ff)"

definition bswap64 :: "u64 \<Rightarrow> u64" where
  "bswap64 v =
     drop_bit (7 * 8) (v AND push_bit (7 * 8) 0xff) OR
     drop_bit (5 * 8) (v AND push_bit (6 * 8) 0xff) OR
     drop_bit (3 * 8) (v AND push_bit (5 * 8) 0xff) OR
     drop_bit (1 * 8) (v AND push_bit (4 * 8) 0xff) OR
     push_bit (1 * 8) (v AND push_bit (3 * 8) 0xff) OR
     push_bit (3 * 8) (v AND push_bit (2 * 8) 0xff) OR
     push_bit (5 * 8) (v AND push_bit (1 * 8) 0xff) OR
     push_bit (7 * 8) (v AND push_bit (0 * 8) 0xff)"

text \<open>A character as its code; \<open>-1\<close> is no hexadecimal digit.\<close>

definition from_hex :: "int \<Rightarrow> int" where
  "from_hex c =
     (if c \<ge> 48 \<and> c \<le> 57 then c - 48
      else if c \<ge> 65 \<and> c \<le> 70 then c - 65 + 10
      else if c \<ge> 97 \<and> c \<le> 102 then c - 97 + 10
      else -1)"

subsection \<open>Strings: correctness\<close>

lemma strlen_str [simp]: "0 \<notin> set xs \<Longrightarrow> strlen (xs @ 0 # ys) = Some (length xs)"
  by (induction xs) auto

lemma pstrcpy_loop_str:
  assumes "0 \<notin> set xs" and "int q < n" and "n \<le> int (length buf)"
  shows "pstrcpy_loop buf q n (xs @ 0 # ys) =
    (let ts = take (nat n - Suc q) xs
     in Some (take q buf @ ts @ 0 # drop (q + Suc (length ts)) buf))"
  using assms
proof (induction xs arbitrary: buf q)
  case Nil
  then show ?case by (simp add: wr_def upd_conv_take_nth_drop)
next
  case (Cons x xs)
  have q: "q < length buf" using Cons.prems by linarith
  show ?case
  proof (cases "int q \<ge> n - 1")
    case True
    then have "nat n - Suc q = 0" by linarith
    with True q Cons.prems show ?thesis by (simp add: wr_def upd_conv_take_nth_drop)
  next
    case False
    define k where "k = nat n - Suc (Suc q)"
    have k: "nat n - Suc q = Suc k" using False by (simp add: k_def)
    show ?thesis
      using Cons.IH [of "Suc q" "buf[q := x]"] Cons.prems False q
      by (simp add: wr_def k k_def [symmetric] Let_def take_Suc_conv_app_nth)
  qed
qed


lemma pstrcpy_str:
  assumes "0 \<notin> set xs" and "0 < n" and "n \<le> int (length buf)"
  shows "pstrcpy buf n (xs @ 0 # ys) =
    (let ts = take (nat n - 1) xs in Some (ts @ 0 # drop (Suc (length ts)) buf))"
  using assms pstrcpy_loop_str [of xs 0 n buf ys] by (simp add: pstrcpy_def)

lemma pstrcat_str:
  assumes "0 \<notin> set bs" and "0 \<notin> set xs" and "n \<le> int (length (bs @ 0 # r))"
  shows "pstrcat (bs @ 0 # r) n (xs @ 0 # ys) =
    (if int (length bs) < n
     then let ts = take (nat n - Suc (length bs)) xs in Some (bs @ ts @ 0 # drop (length ts) r)
     else Some (bs @ 0 # r))"
proof (cases "int (length bs) < n")
  case True
  have "nat (n - int (length bs)) - 1 = nat n - Suc (length bs)" using True by linarith
  then show ?thesis
    using True assms pstrcpy_str [OF assms(2), of "n - int (length bs)" "0 # r" ys]
    by (simp add: pstrcat_def Let_def)
qed (use assms in \<open>simp add: pstrcat_def\<close>)

lemma strstart_from_iff:
  assumes "0 \<notin> set xs" and "0 \<notin> set vs"
  shows "strstart_from n (xs @ 0 # us) (vs @ 0 # ws) =
    Some (if \<exists>zs. xs = vs @ zs then Some (n + length vs) else None)"
  using assms
proof (induction vs arbitrary: xs n)
  case (Cons v vs)
  show ?case
  proof (cases xs)
    case (Cons x xs')
    then show ?thesis using Cons.IH [of xs' "Suc n"] Cons.prems by simp
  qed (use Cons.prems in auto)
qed simp

lemma strstart_iff:
  assumes "0 \<notin> set xs" and "0 \<notin> set vs"
  shows "strstart (xs @ 0 # us) (vs @ 0 # ws) =
    Some (if \<exists>zs. xs = vs @ zs then Some (length vs) else None)"
  using strstart_from_iff [OF assms, of 0 us ws] by (simp add: strstart_def)

lemma has_suffix_iff:
  assumes "0 \<notin> set xs" and "0 \<notin> set vs"
  shows "has_suffix (xs @ 0 # us) (vs @ 0 # ws) = Some (\<exists>zs. xs = zs @ vs)"
proof -
  have "length vs \<le> length xs \<and> drop (length xs - length vs) xs = vs \<longleftrightarrow> (\<exists>zs. xs = zs @ vs)"
    by (auto intro: exI [of _ "take (length xs - length vs) xs"]) (metis append_take_drop_id)
  then show ?thesis using assms by (auto simp: has_suffix_def)
qed

subsection \<open>Bytes: correctness\<close>

lemma le_value_bytes:
  fixes v :: "'a::len word"
  shows "le_value (le_bytes n v) = take_bit (8 * n) v"
proof (induction n arbitrary: v)
  case (Suc n)
  show ?case
    by (rule bit_word_eqI) (auto simp: Suc bit_simps)
qed simp

lemma length_le_bytes [simp]: "length (le_bytes n v) = n"
  by (induction n v rule: le_bytes.induct) auto

lemma byte_masks:
  "(0xff :: u32) = mask 8" "(0xff00 :: u32) = push_bit 8 (mask 8)"
  "(0xff0000 :: u32) = push_bit 16 (mask 8)" "(0xff000000 :: u32) = push_bit 24 (mask 8)"
  "(0xff :: u64) = mask 8"
  by (simp_all add: mask_eq_exp_minus_1)

lemma le_bytes_numeral [simp]:
  "le_bytes (numeral k) v = ucast v # le_bytes (pred_numeral k) (drop_bit 8 v)"
  by (simp only: numeral_eq_Suc [of k] le_bytes.simps)

lemma bswap32_bytes: "le_bytes 4 (bswap32 v) = rev (le_bytes 4 v)"
  unfolding bswap32_def byte_masks
  by (simp del: push_bit_mask_eq, intro conjI) (rule bit_word_eqI, auto simp: bit_simps)+

lemma bswap16_bytes: "le_bytes 2 (bswap16 v) = rev (le_bytes 2 v)"
  unfolding bswap16_def
  by (simp, intro conjI) (rule bit_word_eqI, auto simp: bit_simps)+

lemma bswap64_bytes: "le_bytes 8 (bswap64 v) = rev (le_bytes 8 v)"
  unfolding bswap64_def byte_masks
  by (simp del: push_bit_mask_eq, intro conjI) (rule bit_word_eqI, auto simp: bit_simps)+

lemma get_le_memcpy:
  fixes v :: "'a::len word"
  assumes "n * 8 = LENGTH('a)" and "memcpy tab 0 (le_bytes n v) = Some tab'"
  shows "get_le n tab' = Some v"
proof -
  have "8 * n = LENGTH('a)" using assms(1) by simp
  moreover have "take n tab' = le_bytes n v" "n \<le> length tab'"
    using assms(2) by (auto simp: memcpy_def split: if_splits)
  ultimately show ?thesis by (simp add: get_le_def le_value_bytes take_bit_word_eq_self)
qed

lemma put_get:
  "put_u16 tab a = Some t1 \<Longrightarrow> get_u16 t1 = Some (ucast a)"
  "put_u32 tab b = Some t2 \<Longrightarrow> get_u32 t2 = Some b"
  "put_u64 tab c = Some t3 \<Longrightarrow> get_u64 t3 = Some c"
  by (simp_all add: put_u16_def get_u16_def put_u32_def get_u32_def put_u64_def get_u64_def
      get_le_memcpy)

lemma from_hex_digit:
  "from_hex c = d \<and> d \<noteq> -1 \<longleftrightarrow>
     0 \<le> d \<and> d \<le> 15 \<and> (c = 48 + d \<and> d \<le> 9 \<or> c = 55 + d \<and> 10 \<le> d \<or> c = 87 + d \<and> 10 \<le> d)"
  by (auto simp: from_hex_def)

lemma clz_from_iff:
  fixes a :: "'a::len word"
  assumes "n \<le> LENGTH('a)"
  shows "clz_from n a = Some k \<longleftrightarrow>
    (\<exists>i<n. k = LENGTH('a) - Suc i \<and> bit a i \<and> (\<forall>j. i < j \<and> j < n \<longrightarrow> \<not> bit a j))"
  using assms
proof (induction n)
  case (Suc n)
  then show ?case
    by (auto simp: less_Suc_eq)
qed simp

lemma ctz_from_iff:
  "ctz_from n i a = Some k \<longleftrightarrow> (\<exists>j<n. k = i + j \<and> bit a j \<and> (\<forall>l<j. \<not> bit a l))"
proof (induction n i a rule: ctz_from.induct)
  case (2 n i a)
  show ?case
  proof (cases "odd a")
    case True
    then show ?thesis by (auto simp: bit_0 intro: exI [of _ 0]) (metis bit_0 gr0I)+
  next
    case False
    have sh: "bit (a div 2) j = bit a (Suc j)" for j by (simp add: bit_Suc)
    have "(\<exists>j<Suc n. k = i + j \<and> bit a j \<and> (\<forall>l<j. \<not> bit a l)) \<longleftrightarrow>
        (\<exists>j<n. k = Suc i + j \<and> bit a (Suc j) \<and> (\<forall>l<Suc j. \<not> bit a l))"
      using False by (auto simp: bit_0 Ex_less_Suc2)
    also have "\<dots> \<longleftrightarrow> (\<exists>j<n. k = Suc i + j \<and> bit (a div 2) j \<and> (\<forall>l<j. \<not> bit (a div 2) l))"
      using False by (simp add: sh All_less_Suc2 bit_0)
    finally show ?thesis using 2 False by simp
  qed
qed simp
end
