(* ===== verification/Dynbuf.thy ===== *)
theory Dynbuf
  imports Cutils
begin

text \<open>
  The dynamic buffers of \<open>qjs/cutils.c\<close>. A buffer holds a pointer to a block of
  \<open>allocated_size\<close> bytes, of which the first \<open>size\<close> are in use; all sizes are 64-bit words
  and wrap. The block is the list of its bytes, \<open>None\<close> is the null pointer. The allocator
  that a buffer carries is a function that gets its \<open>opaque\<close> state, the old block and the
  wanted size, and returns the new block or \<open>None\<close>, and its new state. The operations return
  \<open>None\<close> where the C code would touch memory outside the block or call a null function
  pointer, and the C result with the new buffer otherwise.
\<close>

subsection \<open>The buffer\<close>

type_synonym block = "u8 list option"

type_synonym 'o DynBufReallocFunc = "'o \<Rightarrow> block \<Rightarrow> u64 \<Rightarrow> block \<times> 'o"

record 'o DynBuf =
  buf :: block
  bsize :: u64
  allocated_size :: u64
  error :: bool
  realloc_func :: "'o DynBufReallocFunc option"
  opaque :: 'o

text \<open>
  \<open>realloc\<close> of the C library, over a state that tells which requests fail: a request keeps
  the bytes that fit into the new block; the rest of a new block is unspecified, here 0.
\<close>

definition libc_realloc :: "(u64 \<Rightarrow> bool) DynBufReallocFunc" where
  "libc_realloc oom ptr n =
     (let old = (case ptr of None \<Rightarrow> [] | Some b \<Rightarrow> b)
      in (if n = 0 \<or> oom n then None
          else Some (take (unat n) old @ replicate (unat n - length old) 0), oom))"

definition dbuf_default_realloc :: "(u64 \<Rightarrow> bool) DynBufReallocFunc" where
  "dbuf_default_realloc opq ptr n = libc_realloc opq ptr n"

text \<open>
  \<open>dbuf_init2\<close>; the default allocator is the argument \<open>dflt\<close>, so that the state \<open>opaque\<close> may be
  of any type.
\<close>

definition dbuf_init2 :: "'o DynBufReallocFunc \<Rightarrow> 'o \<Rightarrow> 'o DynBufReallocFunc option \<Rightarrow> 'o DynBuf" where
  "dbuf_init2 dflt opq f =
     \<lparr>buf = None, bsize = 0, allocated_size = 0, error = False,
      realloc_func = Some (case f of None \<Rightarrow> dflt | Some g \<Rightarrow> g), opaque = opq\<rparr>"

definition dbuf_init :: "(u64 \<Rightarrow> bool) \<Rightarrow> (u64 \<Rightarrow> bool) DynBuf" where
  "dbuf_init heap = dbuf_init2 dbuf_default_realloc heap None"

subsection \<open>The operations\<close>

definition dbuf_realloc :: "'o DynBuf \<Rightarrow> u64 \<Rightarrow> (int \<times> 'o DynBuf) option" where
  "dbuf_realloc s new_size =
     (if new_size > allocated_size s then
        if error s then Some (-1, s)
        else
          let sz = allocated_size s * 3 div 2;
              n = (if sz > new_size then sz else new_size)
          in case realloc_func s of
               None \<Rightarrow> None
             | Some f \<Rightarrow>
                 (case f (opaque s) (buf s) n of
                    (None, opq) \<Rightarrow> Some (-1, s\<lparr>error := True, opaque := opq\<rparr>)
                  | (Some new_buf, opq) \<Rightarrow>
                      Some (0, s\<lparr>buf := Some new_buf, allocated_size := n, opaque := opq\<rparr>))
      else Some (0, s))"

text \<open>\<open>memcpy(s->buf + offset, data, len)\<close>; nothing is copied to a null block.\<close>

definition buf_copy :: "block \<Rightarrow> u64 \<Rightarrow> u8 list \<Rightarrow> block option" where
  "buf_copy b off data =
     (case b of
        None \<Rightarrow> if data = [] \<and> off = 0 then Some None else None
      | Some xs \<Rightarrow> map_option Some (memcpy xs (unat off) data))"

definition dbuf_write :: "'o DynBuf \<Rightarrow> u64 \<Rightarrow> u8 list \<Rightarrow> (int \<times> 'o DynBuf) option" where
  "dbuf_write s offset data =
     (let en = offset + of_nat (length data)
      in case dbuf_realloc s en of
           None \<Rightarrow> None
         | Some (r, s1) \<Rightarrow>
             if r \<noteq> 0 then Some (-1, s1)
             else case buf_copy (buf s1) offset data of
                 None \<Rightarrow> None
               | Some b \<Rightarrow>
                   Some (0, s1\<lparr>buf := b, bsize := (if en > bsize s1 then en else bsize s1)\<rparr>))"

definition dbuf_put :: "'o DynBuf \<Rightarrow> u8 list \<Rightarrow> (int \<times> 'o DynBuf) option" where
  "dbuf_put s data =
     (let len = of_nat (length data)
      in case (if bsize s + len > allocated_size s then dbuf_realloc s (bsize s + len)
               else Some (0, s)) of
           None \<Rightarrow> None
         | Some (r, s1) \<Rightarrow>
             if r \<noteq> 0 then Some (-1, s1)
             else case buf_copy (buf s1) (bsize s1) data of
                 None \<Rightarrow> None
               | Some b \<Rightarrow> Some (0, s1\<lparr>buf := b, bsize := bsize s1 + len\<rparr>))"

text \<open>
  \<open>dbuf_put_self\<close>: the source of the copy is the block itself. \<open>memcpy\<close> leaves overlapping
  ranges undefined.
\<close>

definition dbuf_put_self :: "'o DynBuf \<Rightarrow> u64 \<Rightarrow> u64 \<Rightarrow> (int \<times> 'o DynBuf) option" where
  "dbuf_put_self s offset len =
     (case (if bsize s + len > allocated_size s then dbuf_realloc s (bsize s + len)
            else Some (0, s)) of
        None \<Rightarrow> None
      | Some (r, s1) \<Rightarrow>
          if r \<noteq> 0 then Some (-1, s1)
          else case buf s1 of
              None \<Rightarrow> if len = 0 then Some (0, s1) else None
            | Some xs \<Rightarrow>
                if unat offset + unat len \<le> length xs \<and>
                   (unat offset + unat len \<le> unat (bsize s1) \<or> unat (bsize s1) + unat len \<le> unat offset
                    \<or> len = 0)
                then case buf_copy (buf s1) (bsize s1) (take (unat len) (drop (unat offset) xs)) of
                    None \<Rightarrow> None
                  | Some b \<Rightarrow> Some (0, s1\<lparr>buf := b, bsize := bsize s1 + len\<rparr>)
                else None)"

definition dbuf_putc :: "'o DynBuf \<Rightarrow> u8 \<Rightarrow> (int \<times> 'o DynBuf) option" where
  "dbuf_putc s c = dbuf_put s [c]"

definition dbuf_putstr :: "'o DynBuf \<Rightarrow> u8 list \<Rightarrow> (int \<times> 'o DynBuf) option" where
  "dbuf_putstr s str = (case strlen str of None \<Rightarrow> None | Some n \<Rightarrow> dbuf_put s (take n str))"

definition dbuf_put_u16 :: "'o DynBuf \<Rightarrow> u16 \<Rightarrow> (int \<times> 'o DynBuf) option" where
  "dbuf_put_u16 s val = dbuf_put s (le_bytes 2 val)"

definition dbuf_put_u32 :: "'o DynBuf \<Rightarrow> u32 \<Rightarrow> (int \<times> 'o DynBuf) option" where
  "dbuf_put_u32 s val = dbuf_put s (le_bytes 4 val)"

definition dbuf_put_u64 :: "'o DynBuf \<Rightarrow> u64 \<Rightarrow> (int \<times> 'o DynBuf) option" where
  "dbuf_put_u64 s val = dbuf_put s (le_bytes 8 val)"

text \<open>
  \<open>dbuf_printf\<close>: \<open>text\<close> is what \<open>vsnprintf\<close> formats, without the terminator. It writes at most
  the bytes its size argument allows, the terminator included.
\<close>

definition vsnprintf_bytes :: "nat \<Rightarrow> u8 list \<Rightarrow> u8 list" where
  "vsnprintf_bytes n tx = (if n = 0 then [] else take (n - 1) tx @ [0])"

definition dbuf_printf :: "'o DynBuf \<Rightarrow> u8 list \<Rightarrow> (int \<times> 'o DynBuf) option" where
  "dbuf_printf s tx =
     (if length tx < 128
      then dbuf_put s (take (length tx) (vsnprintf_bytes 128 tx))
      else
        let len = of_nat (length tx)
        in case dbuf_realloc s (bsize s + len + 1) of
             None \<Rightarrow> None
           | Some (r, s1) \<Rightarrow>
               if r \<noteq> 0 then Some (-1, s1)
               else case buf_copy (buf s1) (bsize s1)
                           (vsnprintf_bytes (unat (allocated_size s1 - bsize s1)) tx) of
                   None \<Rightarrow> None
                 | Some b \<Rightarrow> Some (0, s1\<lparr>buf := b, bsize := bsize s1 + len\<rparr>))"

text \<open>\<open>dbuf_free\<close>: the final \<open>memset\<close> clears the allocator too; \<open>nul\<close> is the null \<open>opaque\<close>.\<close>

definition dbuf_free :: "'o \<Rightarrow> 'o DynBuf \<Rightarrow> 'o DynBuf option" where
  "dbuf_free nul s =
     (let cleared = \<lparr>buf = None, bsize = 0, allocated_size = 0, error = False,
                     realloc_func = None, opaque = nul\<rparr>
      in case buf s of
           None \<Rightarrow> Some cleared
         | Some b \<Rightarrow>
             (case realloc_func s of None \<Rightarrow> None | Some f \<Rightarrow> Some cleared))"

definition dbuf_error :: "'o DynBuf \<Rightarrow> bool" where
  "dbuf_error s = error s"

definition dbuf_set_error :: "'o DynBuf \<Rightarrow> 'o DynBuf" where
  "dbuf_set_error s = s\<lparr>error := True\<rparr>"

subsection \<open>The invariant\<close>

text \<open>What a buffer holds, and the contract of an allocator.\<close>

definition blk :: "block \<Rightarrow> u8 list" where
  "blk b = (case b of None \<Rightarrow> [] | Some xs \<Rightarrow> xs)"

lemma blk_simps [simp]: "blk None = []" "blk (Some xs) = xs"
  by (simp_all add: blk_def)

definition contents :: "'o DynBuf \<Rightarrow> u8 list" where
  "contents s = take (unat (bsize s)) (blk (buf s))"

definition dbuf_ok :: "'o DynBuf \<Rightarrow> bool" where
  "dbuf_ok s \<longleftrightarrow>
     length (blk (buf s)) = unat (allocated_size s) \<and>
     bsize s \<le> allocated_size s \<and> realloc_func s \<noteq> None"

locale dbuf_allocator =
  fixes f :: "'o DynBufReallocFunc"
  assumes realloc_some: "\<And>opq opq' p n b. f opq p n = (Some b, opq') \<Longrightarrow>
     length b = unat n \<and>
     take (min (unat n) (length (blk p))) b =
     take (unat n) (blk p)"
begin

lemma realloc_keeps:
  assumes "f opq p n = (Some b, opq')" and "k \<le> unat n"
    and "k \<le> length (blk p)"
  shows "take k b = take k (blk p)"
proof -
  let ?o = "blk p"
  have "take k (take (min (unat n) (length ?o)) b) = take k (take (unat n) ?o)"
    using realloc_some [OF assms(1)] by simp
  with assms show ?thesis by (simp add: min_def split: if_splits)
qed

lemma dbuf_realloc_ok:
  assumes "dbuf_ok s" and "realloc_func s = Some f"
  obtains s' where "dbuf_realloc s n = Some (0, s')" "dbuf_ok s'" "contents s' = contents s"
      "n \<le> allocated_size s'" "bsize s' = bsize s" "realloc_func s' = Some f" "error s' = error s"
  | s' where "dbuf_realloc s n = Some (-1, s')" "dbuf_ok s'" "contents s' = contents s"
      "error s'" "bsize s' = bsize s" "realloc_func s' = Some f" "allocated_size s < n"
proof (cases "n > allocated_size s")
  case False
  then show ?thesis using assms by (intro that(1) [of s]) (simp_all add: dbuf_realloc_def)
next
  case big: True
  show ?thesis
  proof (cases "error s")
    case True
    then show ?thesis using assms big by (intro that(2) [of s]) (simp_all add: dbuf_realloc_def)
  next
    case False
    define m where "m = (if allocated_size s * 3 div 2 > n then allocated_size s * 3 div 2 else n)"
    have m: "n \<le> m" by (simp add: m_def less_imp_le)
    have dr: "dbuf_realloc s n =
       (case f (opaque s) (buf s) m of
          (None, opq) \<Rightarrow> Some (-1, s\<lparr>error := True, opaque := opq\<rparr>)
        | (Some new_buf, opq) \<Rightarrow> Some (0, s\<lparr>buf := Some new_buf, allocated_size := m, opaque := opq\<rparr>))"
      using big False assms(2) unfolding dbuf_realloc_def m_def Let_def by (simp split del: if_split)
    obtain r opq where r: "f (opaque s) (buf s) m = (r, opq)" by force
    show ?thesis
    proof (cases r)
      case None
      then show ?thesis using assms big False r
        by (intro that(2) [of "s\<lparr>error := True, opaque := opq\<rparr>"])
          (simp_all add: dr contents_def dbuf_ok_def)
    next
      case (Some b)
      have le: "unat (bsize s) \<le> unat m" "unat (bsize s) \<le> length (blk (buf s))"
        using assms(1) big m by (auto simp: dbuf_ok_def word_le_nat_alt word_less_nat_alt)
      have r': "f (opaque s) (buf s) m = (Some b, opq)" using r Some by simp
      have "take (unat (bsize s)) b = contents s"
        using realloc_keeps [OF r' le] by (simp add: contents_def)
      moreover have "length b = unat m" using realloc_some [OF r'] by simp
      ultimately show ?thesis using assms big False r' m le
        by (intro that(1) [of "s\<lparr>buf := Some b, allocated_size := m, opaque := opq\<rparr>"])
          (simp_all add: dr contents_def dbuf_ok_def word_le_nat_alt)
    qed
  qed
qed

text \<open>
  The common tail of the writing operations: room is made, then \<open>data\<close> is copied to \<open>off\<close>.
\<close>

lemma buf_copy_ok:
  assumes "dbuf_ok s" and "unat off + length data \<le> unat (allocated_size s)"
  obtains b where "buf_copy (buf s) off data = Some b"
    "blk b = take (unat off) (blk (buf s)) @ data @ drop (unat off + length data) (blk (buf s))"
proof (cases "buf s")
  case None
  then have "data = []" "off = 0" using assms by (auto simp: dbuf_ok_def word_unat_eq_iff)
  then show ?thesis using None by (intro that [of None]) (simp_all add: buf_copy_def)
next
  case (Some xs)
  then show ?thesis using assms
    by (intro that [of "Some (take (unat off) xs @ data @ drop (unat off + length data) xs)"])
      (simp_all add: buf_copy_def memcpy_def dbuf_ok_def)
qed

lemma put_copy_ok:
  assumes "dbuf_ok s" and "bsize s + of_nat (length data) \<le> allocated_size s"
    and "unat (bsize s) + length data < 2 ^ 64"
  obtains b where "buf_copy (buf s) (bsize s) data = Some b"
    "dbuf_ok (s\<lparr>buf := b, bsize := bsize s + of_nat (length data)\<rparr>)"
    "contents (s\<lparr>buf := b, bsize := bsize s + of_nat (length data)\<rparr>) = contents s @ data"
proof -
  have l: "unat (of_nat (length data) :: u64) = length data"
    using assms(3) by (simp add: unsigned_of_nat take_bit_nat_eq_self)
  have sz: "unat (bsize s + of_nat (length data)) = unat (bsize s) + length data"
    using assms(3) l by (subst unat_add_lem [THEN iffD1]) auto
  then have le: "unat (bsize s) + length data \<le> unat (allocated_size s)"
    using assms(2) by (simp add: word_le_nat_alt)
  obtain b where "buf_copy (buf s) (bsize s) data = Some b"
    "blk b = take (unat (bsize s)) (blk (buf s)) @ data @ drop (unat (bsize s) + length data) (blk (buf s))"
    using buf_copy_ok [OF assms(1) le] .
  then show ?thesis using assms(1,2) le
    by (intro that [of b]) (auto simp: dbuf_ok_def contents_def sz)
qed

lemma dbuf_put_ok:
  assumes "dbuf_ok s" and "realloc_func s = Some f" and "unat (bsize s) + length data < 2 ^ 64"
  obtains s' where "dbuf_put s data = Some (0, s')" "dbuf_ok s'" "contents s' = contents s @ data"
      "realloc_func s' = Some f" "error s' = error s"
  | s' where "dbuf_put s data = Some (-1, s')" "dbuf_ok s'" "contents s' = contents s" "error s'"
      "realloc_func s' = Some f"
proof -
  define g where "g = (if bsize s + of_nat (length data) > allocated_size s
     then dbuf_realloc s (bsize s + of_nat (length data)) else Some (0, s))"
  have p: "dbuf_put s data = (case g of None \<Rightarrow> None | Some (r, s1) \<Rightarrow>
      if r \<noteq> 0 then Some (-1, s1)
      else case buf_copy (buf s1) (bsize s1) data of None \<Rightarrow> None
        | Some b \<Rightarrow> Some (0, s1\<lparr>buf := b, bsize := bsize s1 + of_nat (length data)\<rparr>))"
    by (simp add: dbuf_put_def g_def Let_def)
  consider (ok) s1 where "g = Some (0, s1)" "dbuf_ok s1" "contents s1 = contents s"
      "bsize s + of_nat (length data) \<le> allocated_size s1" "bsize s1 = bsize s" "realloc_func s1 = Some f"
      "error s1 = error s"
    | (err) s1 where "g = Some (-1, s1)" "dbuf_ok s1" "contents s1 = contents s" "error s1"
      "realloc_func s1 = Some f"
  proof (cases "bsize s + of_nat (length data) > allocated_size s")
    case True
    then have "g = dbuf_realloc s (bsize s + of_nat (length data))" by (simp add: g_def)
    then show ?thesis
      by (cases rule: dbuf_realloc_ok [OF assms(1,2), of "bsize s + of_nat (length data)"])
        (auto intro: ok err)
  next
    case False
    then show ?thesis using assms by (intro ok [of s]) (auto simp: g_def)
  qed
  then show ?thesis
  proof cases
    case ok
    obtain b where "buf_copy (buf s1) (bsize s1) data = Some b"
      "dbuf_ok (s1\<lparr>buf := b, bsize := bsize s1 + of_nat (length data)\<rparr>)"
      "contents (s1\<lparr>buf := b, bsize := bsize s1 + of_nat (length data)\<rparr>) = contents s1 @ data"
      using put_copy_ok [OF ok(2)] ok assms(3) by metis
    then show ?thesis using ok
      by (intro that(1) [of "s1\<lparr>buf := b, bsize := bsize s1 + of_nat (length data)\<rparr>"]) (simp_all add: p)
  next
    case err
    then show ?thesis by (intro that(2) [of s1]) (simp_all add: p)
  qed
qed

lemma dbuf_write_ok:
  assumes "dbuf_ok s" and "realloc_func s = Some f" and "unat off + length data < 2 ^ 64"
    and "off \<le> bsize s"
  obtains s' where "dbuf_write s off data = Some (0, s')" "dbuf_ok s'"
      "contents s' = take (unat off) (contents s) @ data @ drop (unat off + length data) (contents s)"
      "realloc_func s' = Some f" "error s' = error s"
  | s' where "dbuf_write s off data = Some (-1, s')" "dbuf_ok s'" "contents s' = contents s" "error s'"
      "realloc_func s' = Some f"
proof -
  define en where "en = off + of_nat (length data)"
  have l: "unat (of_nat (length data) :: u64) = length data"
    using assms(3) by (simp add: unsigned_of_nat take_bit_nat_eq_self)
  have en: "unat en = unat off + length data"
    unfolding en_def using assms(3) l by (subst unat_add_lem [THEN iffD1]) auto
  show ?thesis
  proof (cases rule: dbuf_realloc_ok [OF assms(1,2), of en])
    case (1 s1)
    have le: "unat off + length data \<le> unat (allocated_size s1)"
      using 1(4) en by (simp add: word_le_nat_alt)
    obtain b where b: "buf_copy (buf s1) off data = Some b"
      "blk b = take (unat off) (blk (buf s1)) @ data @ drop (unat off + length data) (blk (buf s1))"
      using buf_copy_ok [OF 1(2) le] .
    define s' where "s' = s1\<lparr>buf := b, bsize := (if en > bsize s1 then en else bsize s1)\<rparr>"
    have w: "dbuf_write s off data = Some (0, s')"
      using 1(1) b(1) by (simp add: dbuf_write_def en_def [symmetric] s'_def)
    have ob: "unat off \<le> unat (bsize s1)" using assms(4) 1(5) by (simp add: word_le_nat_alt)
    have c1: "contents s = take (unat (bsize s1)) (blk (buf s1))" using 1(3) by (simp add: contents_def)
    have len: "length (blk (buf s1)) = unat (allocated_size s1)" "unat (bsize s1) \<le> unat (allocated_size s1)"
      using 1(2) by (simp_all add: dbuf_ok_def word_le_nat_alt)
    have "contents s' = take (unat off) (contents s) @ data @ drop (unat off + length data) (contents s)"
      using ob len le unfolding c1
      by (auto simp: s'_def contents_def b(2) word_less_nat_alt en min_def drop_take)
    moreover have "dbuf_ok s'" using 1(2,4) le by (auto simp: dbuf_ok_def s'_def b(2))
    ultimately show ?thesis using w 1 by (intro that(1) [of s']) (simp_all add: s'_def)
  next
    case (2 s1)
    then show ?thesis by (intro that(2) [of s1]) (simp_all add: dbuf_write_def en_def [symmetric])
  qed
qed

lemma dbuf_printf_ok:
  assumes "dbuf_ok s" and "realloc_func s = Some f" and "unat (bsize s) + length tx + 1 < 2 ^ 64"
  obtains s' where "dbuf_printf s tx = Some (0, s')" "dbuf_ok s'" "contents s' = contents s @ tx"
      "realloc_func s' = Some f" "error s' = error s"
  | s' where "dbuf_printf s tx = Some (-1, s')" "dbuf_ok s'" "contents s' = contents s" "error s'"
      "realloc_func s' = Some f"
proof (cases "length tx < 128")
  case True
  then have "dbuf_printf s tx = dbuf_put s tx"
    by (simp add: dbuf_printf_def vsnprintf_bytes_def)
  then show ?thesis
    using assms(3) by (cases rule: dbuf_put_ok [OF assms(1,2), of tx]) (simp_all add: that)
next
  case False
  define n where "n = bsize s + of_nat (length tx) + 1"
  have l: "unat (of_nat (length tx) :: u64) = length tx"
    using assms(3) by (simp add: unsigned_of_nat take_bit_nat_eq_self)
  have a: "unat (bsize s + of_nat (length tx)) = unat (bsize s) + length tx"
    using assms(3) l by (subst unat_add_lem [THEN iffD1]) auto
  have n: "unat n = unat (bsize s) + length tx + 1"
    unfolding n_def using assms(3) a by (subst unat_add_lem [THEN iffD1]) auto
  show ?thesis
  proof (cases rule: dbuf_realloc_ok [OF assms(1,2), of n])
    case (1 s1)
    have le: "unat (bsize s1) + length tx + 1 \<le> unat (allocated_size s1)"
      using 1(4,5) n by (simp add: word_le_nat_alt)
    then have room: "unat (allocated_size s1 - bsize s1) = unat (allocated_size s1) - unat (bsize s1)"
      by (simp add: unat_sub word_le_nat_alt)
    define w where "w = vsnprintf_bytes (unat (allocated_size s1 - bsize s1)) tx"
    have w: "w = tx @ [0]" using le by (auto simp: w_def vsnprintf_bytes_def room)
    obtain b where b: "buf_copy (buf s1) (bsize s1) w = Some b"
      "blk b = take (unat (bsize s1)) (blk (buf s1)) @ w @ drop (unat (bsize s1) + length w) (blk (buf s1))"
      using buf_copy_ok [OF 1(2), of "bsize s1" w] le w by auto
    define s' where "s' = s1\<lparr>buf := b, bsize := bsize s1 + of_nat (length tx)\<rparr>"
    have p: "dbuf_printf s tx = Some (0, s')"
      using False 1(1) b(1) by (simp add: dbuf_printf_def n_def [symmetric] s'_def w_def [symmetric])
    have "contents s' = contents s1 @ tx" "dbuf_ok s'"
      using 1(2,5) le by (auto simp: contents_def dbuf_ok_def s'_def b(2) w a word_le_nat_alt)
    then show ?thesis using p 1 by (intro that(1) [of s']) (simp_all add: s'_def)
  next
    case (2 s1)
    then show ?thesis using False by (intro that(2) [of s1]) (simp_all add: dbuf_printf_def n_def [symmetric])
  qed
qed

end

text \<open>The C library's \<open>realloc\<close> meets the contract, whatever requests fail.\<close>

interpretation libc: dbuf_allocator libc_realloc
proof
  show "length b = unat n \<and> take (min (unat n) (length (blk p))) b = take (unat n) (blk p)"
    if "libc_realloc opq p n = (Some b, opq')" for opq opq' p n b
    using that
    by (auto simp: libc_realloc_def blk_def Let_def min_def split: if_splits option.splits)
qed

interpretation default_realloc: dbuf_allocator dbuf_default_realloc
proof
  show "length b = unat n \<and> take (min (unat n) (length (blk p))) b = take (unat n) (blk p)"
    if "dbuf_default_realloc opq p n = (Some b, opq')" for opq opq' p n b
    using that libc.realloc_some by (simp add: dbuf_default_realloc_def)
qed

subsection \<open>Properties\<close>

lemma dbuf_init_ok: "dbuf_ok (dbuf_init heap)" "contents (dbuf_init heap) = []"
  by (simp_all add: dbuf_init_def dbuf_init2_def dbuf_ok_def contents_def)

lemma dbuf_init_fields:
  "realloc_func (dbuf_init heap) = Some dbuf_default_realloc" "bsize (dbuf_init heap) = 0"
  by (simp_all add: dbuf_init_def dbuf_init2_def)

text \<open>
  \<open>dbuf_put\<close> on a well-formed buffer with any allocator that keeps the bytes of the block it
  moves never touches memory outside the block: it appends all of \<open>data\<close> and returns 0, or it
  returns -1, sets the error flag and leaves the contents alone. The sum of the sizes has to fit
  into 64 bits.
\<close>

lemma dbuf_put_appends:
  assumes "dbuf_allocator f" and "dbuf_ok s" and "realloc_func s = Some f"
    and "unat (bsize s) + length data < 2 ^ 64"
  shows "\<exists>r s'. dbuf_put s data = Some (r, s') \<and> dbuf_ok s' \<and> realloc_func s' = Some f \<and>
    (r = 0 \<and> contents s' = contents s @ data \<or> r = -1 \<and> contents s' = contents s \<and> dbuf_error s')"
  by (cases rule: dbuf_allocator.dbuf_put_ok [OF assms]) (simp_all add: dbuf_error_def)

lemma dbuf_put_appends_witness:
  "\<exists>r s'. dbuf_put (dbuf_init (\<lambda>n. n > 4)) [1, 2, 3] = Some (r, s') \<and> dbuf_ok s' \<and>
    realloc_func s' = Some dbuf_default_realloc \<and>
    (r = 0 \<and> contents s' = [1, 2, 3] \<or> r = -1 \<and> contents s' = [] \<and> dbuf_error s')"
proof -
  have "unat (bsize (dbuf_init (\<lambda>n. n > 4))) + length ([1, 2, 3] :: u8 list) < 2 ^ 64"
    by (simp add: dbuf_init_fields)
  from dbuf_put_appends [OF default_realloc.dbuf_allocator_axioms dbuf_init_ok(1)
      dbuf_init_fields(1) this]
  show ?thesis by (simp only: dbuf_init_ok append_Nil)
qed

text \<open>
  \<open>dbuf_printf\<close> appends the formatted text without its terminator in both of its cases, the
  128-byte stack buffer and the formatting straight into the block, or fails with the error flag
  set and the contents unchanged.
\<close>

lemma dbuf_printf_appends:
  assumes "dbuf_allocator f" and "dbuf_ok s" and "realloc_func s = Some f"
    and "unat (bsize s) + length tx + 1 < 2 ^ 64"
  shows "\<exists>r s'. dbuf_printf s tx = Some (r, s') \<and> dbuf_ok s' \<and>
    (r = 0 \<and> contents s' = contents s @ tx \<or> r = -1 \<and> contents s' = contents s \<and> dbuf_error s')"
  by (cases rule: dbuf_allocator.dbuf_printf_ok [OF assms]) (simp_all add: dbuf_error_def)

lemma dbuf_printf_appends_witness:
  "\<exists>r s'. dbuf_printf (dbuf_init (\<lambda>n. n > 200)) (replicate 150 65) = Some (r, s') \<and> dbuf_ok s' \<and>
    (r = 0 \<and> contents s' = replicate 150 65 \<or> r = -1 \<and> contents s' = [] \<and> dbuf_error s')"
proof -
  have "unat (bsize (dbuf_init (\<lambda>n. n > 200))) + length (replicate 150 (65 :: u8)) + 1 < 2 ^ 64"
    by (simp add: dbuf_init_fields)
  from dbuf_printf_appends [OF default_realloc.dbuf_allocator_axioms dbuf_init_ok(1)
      dbuf_init_fields(1) this]
  show ?thesis by (simp only: dbuf_init_ok append_Nil)
qed

end
