(* ===== verification/CharRange.thy ===== *)
theory CharRange
  imports Prelude "HOL-Library.Monad_Syntax"
begin

text \<open>
  The character ranges of \<open>qjs/libunicode.c\<close> and \<open>libunicode.h\<close>: a sorted array of points
  \<open>p0, p1, p2, ...\<close> that stands for the code points of \<open>[p0, p1[\<close>, \<open>[p2, p3[\<close> and so on. The
  array is the list of its \<open>size\<close> allocated points, of which \<open>len\<close> are in use, both natural numbers (an
  \<open>int\<close> in the source, which a range of code points with its at most \<open>0x110001\<close> intervals does not exhaust); \<open>alloc_fails\<close>
  tells for which sizes in bytes the allocator the range carries returns \<open>NULL\<close>. Every
  operation returns the C result and the new range, or \<open>None\<close> where the C code would write
  outside the array. The operations are shown to compute union, intersection, symmetric
  difference and complement of the sets of code points.
\<close>

subsection \<open>Ranges and their operations\<close>

record CharRange =
  cr_len :: nat
  cr_size :: nat
  points :: "u32 list"
  alloc_fails :: "nat \<Rightarrow> bool"

datatype CharRangeOp = CR_OP_UNION | CR_OP_INTER | CR_OP_XOR

definition cr_init :: "(nat \<Rightarrow> bool) \<Rightarrow> CharRange" where
  "cr_init fails = \<lparr>cr_len = 0, cr_size = 0, points = [], alloc_fails = fails\<rparr>"

definition cr_realloc :: "CharRange \<Rightarrow> nat \<Rightarrow> int \<times> CharRange" where
  "cr_realloc cr sz =
     (if sz > cr_size cr then
        let new_size = max sz (cr_size cr * 3 div 2)
        in if alloc_fails cr (new_size * 4) then (-1, cr)
           else (0, cr\<lparr>points := take new_size (points cr) @ replicate (new_size - length (points cr)) 0,
                       cr_size := new_size\<rparr>)
      else (0, cr))"

definition cr_put :: "CharRange \<Rightarrow> u32 \<Rightarrow> CharRange option" where
  "cr_put cr v =
     do { ps \<leftarrow> wr (points cr) (cr_len cr) v;
          Some (cr\<lparr>points := ps, cr_len := cr_len cr + 1\<rparr>) }"

definition cr_add_point :: "CharRange \<Rightarrow> u32 \<Rightarrow> (int \<times> CharRange) option" where
  "cr_add_point cr v =
     (case (if cr_len cr \<ge> cr_size cr then cr_realloc cr (cr_len cr + 1) else (0, cr)) of
        (r, cr) \<Rightarrow> if r \<noteq> 0 then Some (-1, cr) else map_option (Pair 0) (cr_put cr v))"

definition cr_add_interval :: "CharRange \<Rightarrow> u32 \<Rightarrow> u32 \<Rightarrow> (int \<times> CharRange) option" where
  "cr_add_interval cr c1 c2 =
     (case (if cr_len cr + 2 > cr_size cr then cr_realloc cr (cr_len cr + 2) else (0, cr)) of
        (r, cr) \<Rightarrow> if r \<noteq> 0 then Some (-1, cr)
                   else do { cr \<leftarrow> cr_put cr c1; cr \<leftarrow> cr_put cr c2; Some (0, cr) })"

definition cr_copy :: "CharRange \<Rightarrow> CharRange \<Rightarrow> (int \<times> CharRange) option" where
  "cr_copy cr cr1 =
     (case cr_realloc cr (cr_len cr1) of
        (r, cr) \<Rightarrow> if r \<noteq> 0 then Some (-1, cr)
                   else do { ps \<leftarrow> memcpy (points cr) 0 (take (cr_len cr1) (points cr1));
                             Some (0, cr\<lparr>points := ps, cr_len := cr_len cr1\<rparr>) })"

text \<open>\<open>cr_compress\<close>: the inner loop over adjacent intervals, then the outer loop.\<close>

function cr_join :: "u32 list \<Rightarrow> nat \<Rightarrow> nat \<Rightarrow> nat" where
  "cr_join pt len j =
     (if j + 3 < len \<and> pt ! (j + 1) = pt ! (j + 2) then cr_join pt len (j + 2) else j)"
  by pat_completeness auto
termination by (relation "measure (\<lambda>(pt, len, j). len - j)") auto

declare cr_join.simps [simp del]

lemma cr_join_ge: "j \<le> cr_join pt len j"
proof (induction pt len j rule: cr_join.induct)
  case (1 pt len j)
  then show ?case using cr_join.simps [of pt len j]
    by (cases "j + 3 < len \<and> pt ! (j + 1) = pt ! (j + 2)") auto
qed

function cr_compress_loop :: "u32 list \<Rightarrow> nat \<Rightarrow> nat \<Rightarrow> nat \<Rightarrow> u32 list \<times> nat" where
  "cr_compress_loop pt len i k =
     (if i + 1 < len then
        if pt ! i = pt ! (i + 1) then cr_compress_loop pt len (i + 2) k
        else let j = cr_join pt len i;
                 pt = pt[k := pt ! i];
                 pt = pt[k + 1 := pt ! (j + 1)]
             in cr_compress_loop pt len (j + 2) (k + 2)
      else (pt, k))"
  by pat_completeness auto
termination
proof (relation "measure (\<lambda>(pt, len, i, k). len - i)", goal_cases)
  case (3 pt len i k x xa xb)
  then show ?case using cr_join_ge [of i pt len] by auto
qed auto

declare cr_compress_loop.simps [simp del]

definition cr_compress :: "CharRange \<Rightarrow> CharRange" where
  "cr_compress cr =
     (case cr_compress_loop (points cr) (cr_len cr) 0 0 of
        (pt, k) \<Rightarrow> cr\<lparr>points := pt, cr_len := k\<rparr>)"

text \<open>\<open>cr_op\<close>: the parity of an index tells whether the scan is inside an interval.\<close>

fun cr_is_in :: "CharRangeOp \<Rightarrow> bool \<Rightarrow> bool \<Rightarrow> bool" where
  "cr_is_in CR_OP_UNION a b = (a \<or> b)"
| "cr_is_in CR_OP_INTER a b = (a \<and> b)"
| "cr_is_in CR_OP_XOR a b = (a \<noteq> b)"

definition cr_op_point ::
  "CharRangeOp \<Rightarrow> nat \<Rightarrow> nat \<Rightarrow> u32 \<Rightarrow> CharRange \<Rightarrow> (int \<times> CharRange) option" where
  "cr_op_point op a_idx b_idx v cr =
     (if cr_is_in op (odd a_idx) (odd b_idx) \<noteq> odd (cr_len cr) then cr_add_point cr v else Some (0, cr))"

text \<open>The next point in increasing order, with the new indices.\<close>

definition cr_op_next ::
  "u32 list \<Rightarrow> nat \<Rightarrow> u32 list \<Rightarrow> nat \<Rightarrow> (u32 \<times> nat \<times> nat) option" where
  "cr_op_next a a_idx b b_idx =
     (if a_idx < length a \<and> b_idx < length b then
        if a ! a_idx < b ! b_idx then Some (a ! a_idx, a_idx + 1, b_idx)
        else if a ! a_idx = b ! b_idx then Some (a ! a_idx, a_idx + 1, b_idx + 1)
        else Some (b ! b_idx, a_idx, b_idx + 1)
      else if a_idx < length a then Some (a ! a_idx, a_idx + 1, b_idx)
      else if b_idx < length b then Some (b ! b_idx, a_idx, b_idx + 1)
      else None)"

function cr_op_loop ::
  "CharRangeOp \<Rightarrow> u32 list \<Rightarrow> nat \<Rightarrow> u32 list \<Rightarrow> nat \<Rightarrow> CharRange \<Rightarrow> (int \<times> CharRange) option" where
  "cr_op_loop op a a_idx b b_idx cr =
     (case cr_op_next a a_idx b b_idx of
        None \<Rightarrow> Some (0, cr_compress cr)
      | Some (v, a_idx, b_idx) \<Rightarrow>
          (case cr_op_point op a_idx b_idx v cr of
             None \<Rightarrow> None
           | Some (r, cr) \<Rightarrow>
               if r \<noteq> 0 then Some (-1, cr) else cr_op_loop op a a_idx b b_idx cr))"
  by pat_completeness auto
termination
  by (relation "measure (\<lambda>(op, a, a_idx, b, b_idx, cr). (length a - a_idx) + (length b - b_idx))")
    (auto simp: cr_op_next_def split: if_splits)

declare cr_op_loop.simps [simp del]

definition cr_op :: "CharRange \<Rightarrow> u32 list \<Rightarrow> u32 list \<Rightarrow> CharRangeOp \<Rightarrow> (int \<times> CharRange) option" where
  "cr_op cr a b op = cr_op_loop op a 0 b 0 cr"

definition cr_union1 :: "CharRange \<Rightarrow> u32 list \<Rightarrow> (int \<times> CharRange) option" where
  "cr_union1 cr b =
     cr_op (cr\<lparr>cr_len := 0, cr_size := 0, points := []\<rparr>) (take (cr_len cr) (points cr)) b CR_OP_UNION"

definition cr_union_interval :: "CharRange \<Rightarrow> u32 \<Rightarrow> u32 \<Rightarrow> (int \<times> CharRange) option" where
  "cr_union_interval cr c1 c2 = cr_union1 cr [c1, c2 + 1]"

text \<open>\<open>memmove\<close> reads the moved points before it writes them.\<close>

definition cr_invert :: "CharRange \<Rightarrow> (int \<times> CharRange) option" where
  "cr_invert cr =
     (let len = cr_len cr
      in case cr_realloc cr (len + 2) of
           (r, cr) \<Rightarrow>
             if r \<noteq> 0 then Some (-1, cr)
             else do { ps \<leftarrow> memcpy (points cr) 1 (take len (points cr));
                       ps \<leftarrow> wr ps 0 0;
                       ps \<leftarrow> wr ps (len + 1) (-1);
                       Some (0, cr_compress (cr\<lparr>points := ps, cr_len := len + 2\<rparr>)) })"

subsection \<open>The set of a range\<close>

definition cr_pts :: "CharRange \<Rightarrow> u32 list" where
  "cr_pts cr = take (cr_len cr) (points cr)"

definition cr_ok :: "CharRange \<Rightarrow> bool" where
  "cr_ok cr \<longleftrightarrow> length (points cr) = cr_size cr \<and> cr_len cr \<le> cr_size cr"

text \<open>A code point is in the set when an odd number of points is at most it.\<close>

definition in_range :: "u32 list \<Rightarrow> u32 \<Rightarrow> bool" where
  "in_range ps c = odd (length (filter (\<lambda>p. p \<le> c) ps))"

lemma in_range_simps [simp]:
  "in_range [] c = False"
  "in_range (p # ps) c = ((p \<le> c) \<noteq> in_range ps c)"
  by (auto simp: in_range_def)

lemma in_range_append: "in_range (xs @ ys) c = (in_range xs c \<noteq> in_range ys c)"
  by (auto simp: in_range_def)

lemma length_cr_pts: "cr_ok cr \<Longrightarrow> length (cr_pts cr) = cr_len cr"
  by (simp add: cr_pts_def cr_ok_def)


subsection \<open>Compression\<close>

text \<open>The same on the list of the points: the end of the first joined interval and what follows it.\<close>

fun join_pts :: "u32 \<Rightarrow> u32 list \<Rightarrow> u32 \<times> u32 list" where
  "join_pts b (c # d # xs) = (if b = c then join_pts d xs else (b, c # d # xs))"
| "join_pts b xs = (b, xs)"

lemma join_pts_length: "length (snd (join_pts b xs)) \<le> length xs"
  by (induction b xs rule: join_pts.induct) auto

function compress_pts :: "u32 list \<Rightarrow> u32 list" where
  "compress_pts (a # b # xs) =
     (if a = b then compress_pts xs
      else a # fst (join_pts b xs) # compress_pts (snd (join_pts b xs)))"
| "compress_pts [] = []"
| "compress_pts [a] = []"
  by pat_completeness auto
termination by (relation "measure length") (auto simp: less_Suc_eq_le join_pts_length le_SucI)

lemma length_le_1: "length xs \<le> 1 \<Longrightarrow> xs = [] \<or> (\<exists>x. xs = [x])"
  by (cases xs) auto

lemma cr_join_list:
  "j + 1 < len \<Longrightarrow> len \<le> length pt \<Longrightarrow>
   join_pts (pt ! (j + 1)) (drop (j + 2) (take len pt)) =
   (pt ! (cr_join pt len j + 1), drop (cr_join pt len j + 2) (take len pt)) \<and> cr_join pt len j + 1 < len"
proof (induction pt len j rule: cr_join.induct)
  case (1 pt len j)
  show ?case
  proof (cases "j + 3 < len")
    case True
    then have d: "drop (j + 2) (take len pt) = pt ! (j + 2) # pt ! (j + 3) # drop (j + 4) (take len pt)"
      using 1(3) by (simp add: Cons_nth_drop_Suc [symmetric] numeral_eq_Suc)
    show ?thesis
    proof (cases "pt ! (j + 1) = pt ! (j + 2)")
      case T: True
      have e: "cr_join pt len j = cr_join pt len (j + 2)" using T True cr_join.simps [of pt len j] by simp
      show ?thesis unfolding d e using 1(1,3) T True by (simp add: numeral_eq_Suc)
    next
      case F: False
      have e: "cr_join pt len j = j" using F cr_join.simps [of pt len j] by simp
      show ?thesis unfolding e unfolding d using F 1(2) by simp
    qed
  next
    case False
    then have "length (drop (j + 2) (take len pt)) \<le> 1" using 1(3) by simp
    then have "drop (j + 2) (take len pt) = [] \<or> (\<exists>x. drop (j + 2) (take len pt) = [x])"
      by (rule length_le_1)
    then show ?thesis using False 1(2) cr_join.simps [of pt len j] by auto
  qed
qed

lemma cr_compress_loop_list:
  "len \<le> length pt \<Longrightarrow> k \<le> i \<Longrightarrow>
   (case cr_compress_loop pt len i k of (pt', k') \<Rightarrow>
      length pt' = length pt \<and> k' \<le> max k len \<and>
      take k' pt' = take k pt @ compress_pts (drop i (take len pt)))"
proof (induction pt len i k rule: cr_compress_loop.induct)
  case (1 pt len i k)
  show ?case
  proof (cases "i + 1 < len")
    case False
    then have "length (drop i (take len pt)) \<le> 1" by simp
    then have "compress_pts (drop i (take len pt)) = []" using length_le_1 by fastforce
    then show ?thesis using False cr_compress_loop.simps [of pt len i k] by simp
  next
    case len: True
    then have d: "drop i (take len pt) = pt ! i # pt ! (i + 1) # drop (i + 2) (take len pt)"
      using 1(3) by (simp add: Cons_nth_drop_Suc [symmetric] numeral_eq_Suc)
    show ?thesis
    proof (cases "pt ! i = pt ! (i + 1)")
      case True
      then show ?thesis using 1(1) 1(3,4) len cr_compress_loop.simps [of pt len i k] by (simp add: d)
    next
      case False
      define j where "j = cr_join pt len i"
      define pt2 where "pt2 = pt[k := pt ! i, k + 1 := pt[k := pt ! i] ! (j + 1)]"
      have ij: "i \<le> j" by (simp add: j_def cr_join_ge)
      have jl: "join_pts (pt ! (i + 1)) (drop (i + 2) (take len pt)) = (pt ! (j + 1), drop (j + 2) (take len pt))"
        "j + 1 < len" using cr_join_list [OF len 1(3)] by (auto simp: j_def)
      have e: "cr_compress_loop pt len i k = cr_compress_loop pt2 len (j + 2) (k + 2)"
        using False len cr_compress_loop.simps [of pt len i k] by (simp add: j_def pt2_def Let_def)
      have tk: "take (k + 2) pt2 = take k pt @ [pt ! i, pt ! (j + 1)]"
        using 1(3,4) ij jl(2) by (simp add: pt2_def take_Suc_conv_app_nth numeral_2_eq_2)
      have dr: "drop (j + 2) (take len pt2) = drop (j + 2) (take len pt)"
        using 1(4) ij by (simp add: pt2_def take_update_swap)
      have "case cr_compress_loop pt2 len (j + 2) (k + 2) of (pt', k') \<Rightarrow>
          length pt' = length pt2 \<and> k' \<le> max (k + 2) len \<and>
          take k' pt' = take (k + 2) pt2 @ compress_pts (drop (j + 2) (take len pt2))"
        unfolding pt2_def
        by (rule 1(2) [OF len False j_def refl refl, unfolded Let_def])
          (use 1(3,4) ij in auto)
      then show ?thesis using e tk dr jl 1(4) ij False by (auto simp: d pt2_def split: prod.splits)
    qed
  qed
qed


lemma join_pts_in_range:
  "join_pts b xs = (e, ys) \<Longrightarrow> (b \<le> c) \<noteq> in_range xs c \<longleftrightarrow> (e \<le> c) \<noteq> in_range ys c"
  by (induction b xs rule: join_pts.induct) (auto split: if_splits)

lemma join_pts_even: "even (length (snd (join_pts b xs))) = even (length xs)"
  by (induction b xs rule: join_pts.induct) auto

lemma compress_in_range:
  "even (length xs) \<Longrightarrow> in_range (compress_pts xs) c = in_range xs c"
proof (induction xs rule: compress_pts.induct)
  case (1 a b xs)
  then show ?case
    using join_pts_in_range [of b xs "fst (join_pts b xs)" "snd (join_pts b xs)" c] join_pts_even [of b xs]
    by auto
qed simp_all

lemma compress_even: "even (length (compress_pts xs))"
  by (induction xs rule: compress_pts.induct) auto

lemma join_pts_sorted:
  "join_pts b xs = (e, ys) \<Longrightarrow> sorted (b # xs) \<Longrightarrow> even (length xs) \<Longrightarrow>
   b \<le> e \<and> sorted ys \<and> (\<forall>y\<in>set ys. e < y)"
proof (induction b xs rule: join_pts.induct)
  case (1 b c d xs)
  show ?case
  proof (cases "b = c")
    case True
    then have "d \<le> e \<and> sorted ys \<and> (\<forall>y\<in>set ys. e < y)" using 1 by simp
    then show ?thesis using 1(3) by auto
  next
    case False
    then have "e = b" "ys = c # d # xs" using 1(2) by auto
    then show ?thesis using False 1(3) by (auto intro: order.strict_trans2)
  qed
qed (auto simp: even_Suc)

lemma compress_sorted:
  "sorted xs \<Longrightarrow> even (length xs) \<Longrightarrow>
   sorted_wrt (<) (compress_pts xs) \<and> (\<forall>y\<in>set (compress_pts xs). y \<in> set xs)"
proof (induction xs rule: compress_pts.induct)
  case (1 a b xs)
  show ?case
  proof (cases "a = b")
    case False
    obtain e ys where j: "join_pts b xs = (e, ys)" by force
    have s: "b \<le> e" "sorted ys" "\<forall>y\<in>set ys. e < y" using join_pts_sorted [OF j] 1(3,4) by auto
    have "set ys \<subseteq> set xs" "e = b \<or> e \<in> set xs"
      using j by (induction b xs rule: join_pts.induct) (auto split: if_splits)
    moreover have "even (length ys)" using join_pts_even [of b xs] 1(4) j by simp
    moreover have "a < e" using False 1(3) s(1) by auto
    ultimately show ?thesis
      using False 1(2) [OF False] 1(3) s j by (auto intro: order.strict_trans)
  qed (use 1 in auto)
qed simp_all


lemma cr_compress_ok:
  assumes "cr_ok cr" and "even (cr_len cr)"
  shows "cr_ok (cr_compress cr)" and "cr_pts (cr_compress cr) = compress_pts (cr_pts cr)"
    and "alloc_fails (cr_compress cr) = alloc_fails cr"
  using assms cr_compress_loop_list [of "cr_len cr" "points cr" 0 0]
  by (auto simp: cr_compress_def cr_ok_def cr_pts_def split: prod.splits)

subsection \<open>Adding points\<close>

lemma cr_realloc_ok:
  assumes "cr_ok cr" and "cr_realloc cr n = (r, cr')"
  shows "cr_ok cr'" "cr_pts cr' = cr_pts cr" "cr_len cr' = cr_len cr" "r = 0 \<or> r = -1 \<and> (\<exists>n. alloc_fails cr n)"
    "r = 0 \<Longrightarrow> n \<le> cr_size cr'" "alloc_fails cr' = alloc_fails cr"
proof -
  show "r = 0 \<or> r = -1 \<and> (\<exists>n. alloc_fails cr n)"
    using assms(2) by (fastforce simp: cr_realloc_def Let_def split: if_splits)
qed (use assms in \<open>auto simp: cr_realloc_def cr_ok_def cr_pts_def Let_def split: if_splits\<close>)

lemma cr_put_ok:
  assumes "cr_ok cr" and "cr_len cr < cr_size cr"
  obtains cr' where "cr_put cr v = Some cr'" "cr_ok cr'" "cr_pts cr' = cr_pts cr @ [v]"
    "cr_size cr' = cr_size cr" "cr_len cr' = cr_len cr + 1" "alloc_fails cr' = alloc_fails cr"
proof -
  have "cr_put cr v = Some (cr\<lparr>points := (points cr)[cr_len cr := v], cr_len := cr_len cr + 1\<rparr>)"
    using assms by (simp add: cr_put_def wr_def cr_ok_def)
  then show ?thesis
    by (rule that) (use assms in \<open>auto simp: cr_ok_def cr_pts_def take_Suc_conv_app_nth\<close>)
qed

text \<open>What an operation that appends \<open>vs\<close> guarantees: success, or -1 with the points unchanged when the allocator fails.\<close>

definition cr_adds :: "CharRange \<Rightarrow> u32 list \<Rightarrow> (int \<times> CharRange) option \<Rightarrow> bool" where
  "cr_adds cr vs res \<longleftrightarrow>
     (\<exists>r cr'. res = Some (r, cr') \<and> cr_ok cr' \<and> alloc_fails cr' = alloc_fails cr \<and>
        (r = 0 \<and> cr_pts cr' = cr_pts cr @ vs \<or> r = -1 \<and> cr_pts cr' = cr_pts cr \<and> (\<exists>n. alloc_fails cr n)))"

lemma cr_room:
  assumes "cr_ok cr" and "(if P then cr_realloc cr n else (0, cr)) = (r, cr1)"
    and "\<not> P \<Longrightarrow> n \<le> cr_size cr"
  shows "cr_ok cr1" "cr_pts cr1 = cr_pts cr" "cr_len cr1 = cr_len cr" "r = 0 \<or> r = -1 \<and> (\<exists>n. alloc_fails cr n)"
    "r = 0 \<Longrightarrow> n \<le> cr_size cr1" "alloc_fails cr1 = alloc_fails cr"
proof -
  have "cr_ok cr1 \<and> cr_pts cr1 = cr_pts cr \<and> cr_len cr1 = cr_len cr \<and>
      (r = 0 \<or> r = -1 \<and> (\<exists>n. alloc_fails cr n)) \<and> (r = 0 \<longrightarrow> n \<le> cr_size cr1) \<and> alloc_fails cr1 = alloc_fails cr"
  proof (cases P)
    case True
    then have "cr_realloc cr n = (r, cr1)" using assms(2) by simp
    from cr_realloc_ok [OF assms(1) this] show ?thesis by simp
  next
    case False
    then have "r = 0" "cr1 = cr" using assms(2) by auto
    then show ?thesis using assms(1,3) False by simp
  qed
  then show "cr_ok cr1" "cr_pts cr1 = cr_pts cr" "cr_len cr1 = cr_len cr" "r = 0 \<or> r = -1 \<and> (\<exists>n. alloc_fails cr n)"
    "r = 0 \<Longrightarrow> n \<le> cr_size cr1" "alloc_fails cr1 = alloc_fails cr" by blast+
qed

lemma cr_add_point_ok:
  assumes "cr_ok cr"
  shows "cr_adds cr [v] (cr_add_point cr v)"
proof -
  obtain r cr1 where g: "(if cr_len cr \<ge> cr_size cr then cr_realloc cr (cr_len cr + 1) else (0, cr)) = (r, cr1)"
    by force
  note c = cr_room [OF assms g]
  have e: "cr_add_point cr v = (if r \<noteq> 0 then Some (-1, cr1) else map_option (Pair 0) (cr_put cr1 v))"
    unfolding cr_add_point_def g by simp
  show ?thesis
  proof (cases "r = 0")
    case True
    obtain cr2 where "cr_put cr1 v = Some cr2" "cr_ok cr2" "cr_pts cr2 = cr_pts cr1 @ [v]" "alloc_fails cr2 = alloc_fails cr1"
      using cr_put_ok [OF c(1), of v] c(3,5) True by auto
    then show ?thesis using True c by (simp add: e cr_adds_def)
  next
    case False
    then show ?thesis using c by (simp add: e cr_adds_def)
  qed
qed

lemma cr_add_interval_ok:
  assumes "cr_ok cr"
  shows "cr_adds cr [c1, c2] (cr_add_interval cr c1 c2)"
proof -
  obtain r cr1 where g: "(if cr_len cr + 2 > cr_size cr then cr_realloc cr (cr_len cr + 2) else (0, cr)) = (r, cr1)"
    by force
  note c = cr_room [OF assms g]
  have e: "cr_add_interval cr c1 c2 = (if r \<noteq> 0 then Some (-1, cr1)
      else do { cr \<leftarrow> cr_put cr1 c1; cr \<leftarrow> cr_put cr c2; Some (0, cr) })"
    unfolding cr_add_interval_def g by simp
  show ?thesis
  proof (cases "r = 0")
    case True
    obtain cr2 where 2: "cr_put cr1 c1 = Some cr2" "cr_ok cr2" "cr_pts cr2 = cr_pts cr1 @ [c1]"
      "cr_size cr2 = cr_size cr1" "cr_len cr2 = cr_len cr1 + 1" "alloc_fails cr2 = alloc_fails cr1"
      using cr_put_ok [OF c(1), of c1] c(3,5) True by auto
    obtain cr3 where "cr_put cr2 c2 = Some cr3" "cr_ok cr3" "cr_pts cr3 = cr_pts cr2 @ [c2]" "alloc_fails cr3 = alloc_fails cr2"
      using cr_put_ok [OF 2(2), of c2] 2 c(3,5) True by auto
    then show ?thesis using c 2 True by (simp add: e cr_adds_def)
  next
    case False
    then show ?thesis using c by (simp add: e cr_adds_def)
  qed
qed

subsection \<open>Set operations\<close>

text \<open>The points \<open>cr_op\<close> emits, before the compression.\<close>

function op_pts :: "CharRangeOp \<Rightarrow> bool \<Rightarrow> bool \<Rightarrow> u32 list \<Rightarrow> u32 list \<Rightarrow> u32 list" where
  "op_pts op pa pb (x # a) (y # b) =
     (if x < y then (if cr_is_in op (\<not> pa) pb \<noteq> cr_is_in op pa pb then [x] else []) @ op_pts op (\<not> pa) pb a (y # b)
      else if x = y then
        (if cr_is_in op (\<not> pa) (\<not> pb) \<noteq> cr_is_in op pa pb then [x] else []) @ op_pts op (\<not> pa) (\<not> pb) a b
      else (if cr_is_in op pa (\<not> pb) \<noteq> cr_is_in op pa pb then [y] else []) @ op_pts op pa (\<not> pb) (x # a) b)"
| "op_pts op pa pb (x # a) [] =
     (if cr_is_in op (\<not> pa) pb \<noteq> cr_is_in op pa pb then [x] else []) @ op_pts op (\<not> pa) pb a []"
| "op_pts op pa pb [] (y # b) =
     (if cr_is_in op pa (\<not> pb) \<noteq> cr_is_in op pa pb then [y] else []) @ op_pts op pa (\<not> pb) [] b"
| "op_pts op pa pb [] [] = []"
  by pat_completeness auto
termination by (relation "measure (\<lambda>(op, pa, pb, a, b). length a + length b)") auto

lemma set_op_pts: "set (op_pts op pa pb a b) \<subseteq> set a \<union> set b"
  by (induction op pa pb a b rule: op_pts.induct) (auto split: if_splits)

lemma in_range_above: "\<forall>p\<in>set ps. c < p \<Longrightarrow> \<not> in_range ps c"
  by (induction ps) auto

lemma op_pts_in_range:
  "sorted a \<Longrightarrow> sorted b \<Longrightarrow>
   in_range (op_pts op pa pb a b) c \<longleftrightarrow>
   cr_is_in op (pa \<noteq> in_range a c) (pb \<noteq> in_range b c) \<noteq> cr_is_in op pa pb"
proof (induction op pa pb a b rule: op_pts.induct)
  case (1 op pa pb x a y b)
  show ?case
  proof (cases "c < min x y")
    case True
    then have "\<forall>p\<in>set (x # a) \<union> set (y # b). c < p" using 1(4,5) by (auto intro: less_le_trans)
    then have "\<not> in_range (op_pts op pa pb (x # a) (y # b)) c" "\<not> in_range (x # a) c" "\<not> in_range (y # b) c"
      using set_op_pts [of op pa pb "x # a" "y # b"] in_range_above by blast+
    then show ?thesis by simp
  next
    case False
    then show ?thesis using 1 by (auto simp: in_range_append min_def not_less split: if_splits)
  qed
next
  case (2 op pa pb x a)
  show ?case
  proof (cases "c < x")
    case True
    then have "\<forall>p\<in>set (x # a) \<union> set []. c < p" using 2(2) by (auto intro: less_le_trans)
    then have "\<not> in_range (op_pts op pa pb (x # a) []) c" "\<not> in_range (x # a) c"
      using set_op_pts [of op pa pb "x # a" "[]"] in_range_above by blast+
    then show ?thesis by simp
  qed (use 2 in \<open>auto simp: in_range_append not_less\<close>)
next
  case (3 op pa pb y b)
  show ?case
  proof (cases "c < y")
    case True
    then have "\<forall>p\<in>set [] \<union> set (y # b). c < p" using 3(3) by (auto intro: less_le_trans)
    then have "\<not> in_range (op_pts op pa pb [] (y # b)) c" "\<not> in_range (y # b) c"
      using set_op_pts [of op pa pb "[]" "y # b"] in_range_above by blast+
    then show ?thesis by simp
  qed (use 3 in \<open>auto simp: in_range_append not_less\<close>)
qed simp

lemma sorted_op_pts: "sorted a \<Longrightarrow> sorted b \<Longrightarrow> sorted (op_pts op pa pb a b)"
proof (induction op pa pb a b rule: op_pts.induct)
  case (1 op pa pb x a y b)
  have le: "\<forall>p\<in>set (x # a) \<union> set (y # b). min x y \<le> p"
    using 1(4,5) by (auto simp: min_def intro: order.trans dest: less_imp_le)
  show ?case
  proof (cases x y rule: linorder_cases)
    case less
    then have "min x y = x" by simp
    then have "\<forall>p\<in>set (op_pts op (\<not> pa) pb a (y # b)). x \<le> p"
      using set_op_pts [of op "\<not> pa" pb a "y # b"] le by auto
    then show ?thesis using 1(1) [OF less] 1(4,5) less by (auto simp: sorted_append)
  next
    case equal
    then have "\<forall>p\<in>set (op_pts op (\<not> pa) (\<not> pb) a b). x \<le> p"
      using set_op_pts [of op "\<not> pa" "\<not> pb" a b] le by auto
    then show ?thesis using 1(2) 1(4,5) equal by (auto simp: sorted_append)
  next
    case greater
    then have "min x y = y" by simp
    then have "\<forall>p\<in>set (op_pts op pa (\<not> pb) (x # a) b). y \<le> p"
      using set_op_pts [of op pa "\<not> pb" "x # a" b] le by auto
    then show ?thesis using 1(3) 1(4,5) greater by (auto simp: sorted_append)
  qed
next
  case (2 op pa pb x a)
  then show ?case using set_op_pts [of op "\<not> pa" pb a "[]"] by (fastforce simp: sorted_append)
next
  case (3 op pa pb y b)
  then show ?case using set_op_pts [of op pa "\<not> pb" "[]" b] by (fastforce simp: sorted_append)
qed simp

lemma even_op_pts:
  "even (length (op_pts op pa pb a b)) \<longleftrightarrow>
   cr_is_in op (pa \<noteq> odd (length a)) (pb \<noteq> odd (length b)) = cr_is_in op pa pb"
  by (induction op pa pb a b rule: op_pts.induct) auto


lemma op_next_pts:
  assumes "cr_op_next a ai b bi = Some (v, ai', bi')"
  shows "op_pts op (odd ai) (odd bi) (drop ai a) (drop bi b) =
     (if cr_is_in op (odd ai') (odd bi') \<noteq> cr_is_in op (odd ai) (odd bi) then [v] else []) @
     op_pts op (odd ai') (odd bi') (drop ai' a) (drop bi' b)"
proof -
  have d: "\<exists>x xs. drop ai a = x # xs \<and> x = a ! ai \<and> xs = drop (ai + 1) a" if "ai < length a"
    using that by (simp add: Cons_nth_drop_Suc [symmetric])
  have e: "\<exists>x xs. drop bi b = x # xs \<and> x = b ! bi \<and> xs = drop (bi + 1) b" if "bi < length b"
    using that by (simp add: Cons_nth_drop_Suc [symmetric])
  consider "ai < length a" "bi < length b" | "ai < length a" "length b \<le> bi"
    | "length a \<le> ai" "bi < length b" | "length a \<le> ai" "length b \<le> bi" by linarith
  then show ?thesis
  proof cases
    case 1
    from d [OF 1(1)] e [OF 1(2)] obtain x xs y ys where
      xy: "drop ai a = x # xs" "x = a ! ai" "xs = drop (ai + 1) a"
        "drop bi b = y # ys" "y = b ! bi" "ys = drop (bi + 1) b" by blast
    consider "x < y" | "x = y" | "y < x" by fastforce
    then show ?thesis
      by cases (use assms 1 xy in \<open>auto simp: cr_op_next_def\<close>)
  next
    case 2
    from d [OF 2(1)] obtain x xs where "drop ai a = x # xs" "x = a ! ai" "xs = drop (ai + 1) a" by blast
    then show ?thesis using assms 2 by (auto simp: cr_op_next_def)
  next
    case 3
    from e [OF 3(2)] obtain y ys where "drop bi b = y # ys" "y = b ! bi" "ys = drop (bi + 1) b" by blast
    then show ?thesis using assms 3 by (auto simp: cr_op_next_def)
  next
    case 4
    then show ?thesis using assms by (auto simp: cr_op_next_def)
  qed
qed

lemma cr_op_loop_ok:
  "cr_ok cr \<Longrightarrow> odd (cr_len cr) = cr_is_in op (odd ai) (odd bi) \<Longrightarrow>
   \<exists>r cr'. cr_op_loop op a ai b bi cr = Some (r, cr') \<and>
    (r = 0 \<and> (\<exists>cr1. cr' = cr_compress cr1 \<and> cr_ok cr1 \<and>
        cr_pts cr1 = cr_pts cr @ op_pts op (odd ai) (odd bi) (drop ai a) (drop bi b)) \<or>
     r = -1 \<and> cr_ok cr' \<and> (\<exists>n. alloc_fails cr n))"
proof (induction op a ai b bi cr rule: cr_op_loop.induct)
  case (1 op a ai b bi cr)
  note e = cr_op_loop.simps [of op a ai b bi cr]
  show ?case
  proof (cases "cr_op_next a ai b bi")
    case None
    then have "drop ai a = []" "drop bi b = []" by (auto simp: cr_op_next_def split: if_splits)
    then show ?thesis using None 1(2) e by auto
  next
    case (Some t)
    obtain v ai' bi' where t: "cr_op_next a ai b bi = Some (v, ai', bi')" using Some by (cases t) auto
    define vs where "vs = (if cr_is_in op (odd ai') (odd bi') \<noteq> odd (cr_len cr) then [v] else [])"
    have "cr_adds cr vs (cr_op_point op ai' bi' v cr)"
      using 1(2) cr_add_point_ok [OF 1(2)] by (auto simp: cr_op_point_def vs_def cr_adds_def)
    then obtain r cr1 where p: "cr_op_point op ai' bi' v cr = Some (r, cr1)" "cr_ok cr1" "alloc_fails cr1 = alloc_fails cr"
      "r = 0 \<and> cr_pts cr1 = cr_pts cr @ vs \<or> r = -1 \<and> (\<exists>n. alloc_fails cr n)"
      by (auto simp: cr_adds_def)
    show ?thesis
    proof (cases "r = 0")
      case False
      then show ?thesis using t p e by auto
    next
      case True
      have pts: "cr_pts cr1 = cr_pts cr @ vs" using p(4) True by auto
      then have "cr_len cr1 = cr_len cr + length vs"
        using length_cr_pts [OF 1(2)] length_cr_pts [OF p(2)] by (metis length_append)
      then have par: "odd (cr_len cr1) = cr_is_in op (odd ai') (odd bi')" by (auto simp: vs_def)
      have "op_pts op (odd ai) (odd bi) (drop ai a) (drop bi b) = vs @ op_pts op (odd ai') (odd bi') (drop ai' a) (drop bi' b)"
        using op_next_pts [OF t, of op] 1(3) by (simp add: vs_def)
      then show ?thesis
        using 1(1) [OF t refl refl p(1) refl _ p(2) par] True t p(1,3) e pts by simp
    qed
  qed
qed

lemma cr_op_ok:
  assumes "cr_ok cr" and "cr_len cr = 0" and "sorted a" "sorted b" and "even (length a)" "even (length b)"
  shows "\<exists>r cr'. cr_op cr a b op = Some (r, cr') \<and> cr_ok cr' \<and>
    (r = 0 \<and> sorted_wrt (<) (cr_pts cr') \<and> even (cr_len cr') \<and>
       (\<forall>c. in_range (cr_pts cr') c = cr_is_in op (in_range a c) (in_range b c)) \<or>
     r = -1 \<and> (\<exists>n. alloc_fails cr n))"
proof -
  have f: "\<not> cr_is_in op False False" by (cases op) auto
  obtain r cr' where l: "cr_op cr a b op = Some (r, cr')" "r = 0 \<and> (\<exists>cr1. cr' = cr_compress cr1 \<and> cr_ok cr1 \<and>
        cr_pts cr1 = cr_pts cr @ op_pts op False False a b) \<or> r = -1 \<and> cr_ok cr' \<and> (\<exists>n. alloc_fails cr n)"
    using cr_op_loop_ok [of cr op 0 0 a b] assms(1,2) f by (auto simp: cr_op_def)
  show ?thesis
  proof (cases "r = 0")
    case False
    then show ?thesis using l by auto
  next
    case True
    then obtain cr1 where c: "cr' = cr_compress cr1" "cr_ok cr1" "cr_pts cr1 = op_pts op False False a b"
      using l(2) assms(2) by (auto simp: cr_pts_def)
    have ev: "even (length (op_pts op False False a b))" using assms(5,6) by (simp add: even_op_pts)
    then have "even (cr_len cr1)" using length_cr_pts [OF c(2)] c(3) by simp
    note k = cr_compress_ok [OF c(2) this]
    have "even (cr_len cr')" using length_cr_pts [OF k(1)] compress_even k(2) c(1) by metis
    then show ?thesis
      using l(1) True k c compress_sorted [OF sorted_op_pts [OF assms(3,4)] ev] f
        compress_in_range [OF ev] op_pts_in_range [OF assms(3,4), of op False False]
      by auto
  qed
qed


lemma cr_invert_ok:
  assumes "cr_ok cr" and "sorted (cr_pts cr)" and "even (cr_len cr)"
  shows "\<exists>r cr'. cr_invert cr = Some (r, cr') \<and> cr_ok cr' \<and>
    (r = 0 \<and> sorted_wrt (<) (cr_pts cr') \<and> even (cr_len cr') \<and>
       (\<forall>c. c \<noteq> -1 \<longrightarrow> in_range (cr_pts cr') c = (\<not> in_range (cr_pts cr) c)) \<or>
     r = -1 \<and> cr_pts cr' = cr_pts cr \<and> (\<exists>n. alloc_fails cr n))"
proof -
  define len where "len = cr_len cr"
  obtain r cr1 where g: "cr_realloc cr (len + 2) = (r, cr1)" by force
  note c = cr_realloc_ok [OF assms(1) g]
  show ?thesis
  proof (cases "r = 0")
    case False
    then show ?thesis using g c by (auto simp: cr_invert_def len_def Let_def)
  next
    case True
    define ps where "ps = [0] @ cr_pts cr @ [-1] @ drop (len + 2) (points cr1)"
    have sz: "len + 2 \<le> cr_size cr1" "length (points cr1) = cr_size cr1"
      using c True by (auto simp: cr_ok_def)
    have pts: "take len (points cr1) = cr_pts cr" using c(2,3) by (simp add: cr_pts_def len_def)
    have lp: "length (cr_pts cr) = len" using length_cr_pts [OF assms(1)] by (simp add: len_def)
    obtain p0 where p0: "take 1 (points cr1) = [p0]" using sz by (cases "points cr1") auto
    obtain pl where pl: "drop (1 + len) (points cr1) = pl # drop (len + 2) (points cr1)"
      using sz by (metis Cons_nth_drop_Suc Suc_le_lessD add_2_eq_Suc' plus_1_eq_Suc)
    have "memcpy (points cr1) 1 (take len (points cr1)) = Some ([p0] @ cr_pts cr @ pl # drop (len + 2) (points cr1))"
      using sz lp p0 pl by (simp add: memcpy_def pts)
    then have "cr_invert cr = Some (0, cr_compress (cr1\<lparr>points := ps, cr_len := len + 2\<rparr>))"
      using True g lp
      by (simp add: cr_invert_def len_def [symmetric] Let_def wr_def ps_def nth_append list_update_append)
    moreover define cr2 where "cr2 = cr1\<lparr>points := ps, cr_len := len + 2\<rparr>"
    ultimately have i: "cr_invert cr = Some (0, cr_compress cr2)" by simp
    have c2: "cr_ok cr2" "even (cr_len cr2)" "cr_pts cr2 = [0] @ cr_pts cr @ [-1]"
      using c sz lp assms(3) by (auto simp: cr2_def cr_ok_def cr_pts_def ps_def len_def)
    note k = cr_compress_ok [OF c2(1,2)]
    have ev: "even (length (cr_pts cr2))" using c2(2) length_cr_pts [OF c2(1)] by simp
    have so: "sorted (cr_pts cr2)" using assms(2) by (auto simp: c2(3) sorted_append)
    have "even (cr_len (cr_compress cr2))" using length_cr_pts [OF k(1)] compress_even k(2) by metis
    moreover have "in_range (cr_pts (cr_compress cr2)) x = (\<not> in_range (cr_pts cr) x)" if "x \<noteq> -1" for x
      using that compress_in_range [OF ev, of x] k(2) by (auto simp: c2(3) in_range_append antisym)
    ultimately show ?thesis
      using i k compress_sorted [OF so ev] by auto
  qed
qed

lemma cr_init_ok: "cr_ok (cr_init f)" "cr_len (cr_init f) = 0"
  by (simp_all add: cr_init_def cr_ok_def)

text \<open>
  C37. \<open>cr_op\<close> into an empty range, on two sorted arrays of points of even length, never writes
  outside the array. It returns 0 or -1, and -1 only if the allocator refuses some size: with an allocator that
  never fails the result is 0. The points are then strictly increasing and of even number, and the set of the
  result is the union, the intersection or the symmetric difference of the two sets.
\<close>

theorem cr_op_set:
  assumes "cr_ok cr" and "cr_len cr = 0" and "sorted a" "sorted b" and "even (length a)" "even (length b)"
  shows "\<exists>r cr'. cr_op cr a b op = Some (r, cr') \<and> cr_ok cr' \<and>
    (r = 0 \<and> sorted_wrt (<) (cr_pts cr') \<and> even (cr_len cr') \<and>
       {c. in_range (cr_pts cr') c} =
         (case op of CR_OP_UNION \<Rightarrow> {c. in_range a c} \<union> {c. in_range b c}
          | CR_OP_INTER \<Rightarrow> {c. in_range a c} \<inter> {c. in_range b c}
          | CR_OP_XOR \<Rightarrow> ({c. in_range a c} - {c. in_range b c}) \<union> ({c. in_range b c} - {c. in_range a c})) \<or>
     r = -1 \<and> (\<exists>n. alloc_fails cr n))"
proof -
  obtain r cr' where R: "cr_op cr a b op = Some (r, cr')" "cr_ok cr'"
    "r = 0 \<and> sorted_wrt (<) (cr_pts cr') \<and> even (cr_len cr') \<and>
       (\<forall>c. in_range (cr_pts cr') c = cr_is_in op (in_range a c) (in_range b c)) \<or> r = -1 \<and> (\<exists>n. alloc_fails cr n)"
    using cr_op_ok [OF assms, of op] by blast
  define S where "S = (case op of CR_OP_UNION \<Rightarrow> {c. in_range a c} \<union> {c. in_range b c}
       | CR_OP_INTER \<Rightarrow> {c. in_range a c} \<inter> {c. in_range b c}
       | CR_OP_XOR \<Rightarrow> ({c. in_range a c} - {c. in_range b c}) \<union> ({c. in_range b c} - {c. in_range a c}))"
  have "S = {c. cr_is_in op (in_range a c) (in_range b c)}" unfolding S_def by (cases op) auto
  then have "r = 0 \<and> sorted_wrt (<) (cr_pts cr') \<and> even (cr_len cr') \<and> {c. in_range (cr_pts cr') c} = S \<or>
      r = -1 \<and> (\<exists>n. alloc_fails cr n)" using R(3) by (elim disjE) simp_all
  then show ?thesis unfolding S_def [symmetric] using R(1,2) by blast
qed

theorem cr_op_set_witness:
  "\<exists>cr'. cr_op (cr_init (\<lambda>n. False)) [1, 5, 8, 9] [4, 8] CR_OP_UNION = Some (0, cr') \<and>
     sorted_wrt (<) (cr_pts cr') \<and> in_range (cr_pts cr') 8 \<and> \<not> in_range (cr_pts cr') 9"
proof -
  have i: "cr_ok (cr_init (\<lambda>n. False))" "cr_len (cr_init (\<lambda>n. False)) = 0" by (simp_all add: cr_init_ok)
  have "\<not> alloc_fails (cr_init (\<lambda>n. False)) n" for n by (simp add: cr_init_def)
  moreover have "sorted [1, 5, 8, 9 :: u32]" "sorted [4, 8 :: u32]" "even (length [1, 5, 8, 9 :: u32])" "even (length [4, 8 :: u32])" by simp_all
  note cr_op_set [OF i this, where op = CR_OP_UNION, unfolded CharRangeOp.case(1)]
  ultimately obtain cr' where "cr_op (cr_init (\<lambda>n. False)) [1, 5, 8, 9] [4, 8] CR_OP_UNION = Some (0, cr')" "sorted_wrt (<) (cr_pts cr')"
    and c: "{c. in_range (cr_pts cr') c} = {c. in_range [1, 5, 8, 9] c} \<union> {c. in_range [4, 8] c}" by blast
  moreover have "in_range (cr_pts cr') x \<longleftrightarrow> in_range [1, 5, 8, 9] x \<or> in_range [4, 8] x" for x using c by blast
  ultimately show ?thesis by auto
qed

text \<open>
  \<open>cr_invert\<close> of a sorted range of even length stays inside the (grown) array and, unless an
  allocation fails, complements the set: a code point other than \<open>UINT32_MAX\<close> is in the result
  exactly when it was not in the range.
\<close>

lemma cr_invert_complement:
  assumes "cr_ok cr" and "sorted (cr_pts cr)" and "even (cr_len cr)"
  shows "\<exists>r cr'. cr_invert cr = Some (r, cr') \<and> cr_ok cr' \<and>
    (r = 0 \<and> sorted_wrt (<) (cr_pts cr') \<and> even (cr_len cr') \<and>
       (\<forall>c. c \<noteq> -1 \<longrightarrow> in_range (cr_pts cr') c = (\<not> in_range (cr_pts cr) c)) \<or>
     r = -1 \<and> cr_pts cr' = cr_pts cr \<and> (\<exists>n. alloc_fails cr n))"
  using assms by (rule cr_invert_ok)

lemma cr_invert_complement_witness:
  "\<exists>cr'. cr_invert (cr_init (\<lambda>n. False)) = Some (0, cr') \<and> in_range (cr_pts cr') 7"
proof -
  have i: "cr_ok (cr_init (\<lambda>n. False))" "sorted (cr_pts (cr_init (\<lambda>n. False)))" "even (cr_len (cr_init (\<lambda>n. False)))"
    by (simp_all add: cr_init_ok cr_pts_def)
  have "\<not> alloc_fails (cr_init (\<lambda>n. False)) n" for n by (simp add: cr_init_def)
  then show ?thesis using cr_invert_complement [OF i] by (auto simp: cr_pts_def cr_init_def)
qed

end
