(* ===== verification/UnicodeCase.thy ===== *)
theory UnicodeCase
  imports CharRange
begin

text \<open>
  Case conversion and the compressed membership tables of \<open>qjs/libunicode.c\<close>. The tables of the
  generated header \<open>libunicode-table.h\<close> are arguments of the functions, gathered in a record; a
  read outside a table is \<open>None\<close>. The binary searches are shown to find the run of a code point
  in every table whose runs are in order, and the scan of a membership table to agree with the
  ranges that \<open>unicode_prop1\<close> builds from the same table.
\<close>

subsection \<open>Tables\<close>

record unicode_tables =
  case_conv_table1 :: "u32 list"
  case_conv_table2 :: "u8 list"
  case_conv_ext :: "u16 list"
  unicode_prop_Cased1_table :: "u8 list"
  unicode_prop_Cased1_index :: "u8 list"
  unicode_prop_Case_Ignorable_table :: "u8 list"
  unicode_prop_Case_Ignorable_index :: "u8 list"
  unicode_prop_ID_Start_table :: "u8 list"
  unicode_prop_ID_Start_index :: "u8 list"
  unicode_prop_ID_Continue1_table :: "u8 list"
  unicode_prop_ID_Continue1_index :: "u8 list"

text \<open>
  An entry of \<open>case_conv_table1\<close> (\<open>w = 17\<close>) and of \<open>unicode_decomp_table1\<close> (\<open>w = 18\<close>): the first
  code point of a run in the top \<open>w\<close> bits, its length in the next 7.
\<close>

definition run_code :: "nat \<Rightarrow> u32 \<Rightarrow> u32" where
  "run_code w v = drop_bit (32 - w) v"

definition run_len :: "nat \<Rightarrow> u32 \<Rightarrow> u32" where
  "run_len w v = drop_bit (32 - w - 7) v AND 0x7f"

text \<open>
  The binary search for the run of \<open>c\<close>, the same loop in three functions: \<open>Some None\<close> when no run
  holds \<open>c\<close>.
\<close>

function run_search :: "nat \<Rightarrow> u32 list \<Rightarrow> u32 \<Rightarrow> int \<Rightarrow> int \<Rightarrow> nat option option" where
  "run_search w tab c idx_min idx_max =
     (if idx_min \<le> idx_max then
        let idx = (idx_max + idx_min) div 2
        in case rd tab (nat idx) of
             None \<Rightarrow> None
           | Some v \<Rightarrow>
               if c < run_code w v then run_search w tab c idx_min (idx - 1)
               else if c \<ge> run_code w v + run_len w v then run_search w tab c (idx + 1) idx_max
               else Some (Some (nat idx))
      else Some None)"
  by pat_completeness auto
termination
  by (relation "measure (\<lambda>(w, tab, c, idx_min, idx_max). nat (idx_max - idx_min + 1))") auto

declare run_search.simps [simp del]

subsection \<open>Case conversion\<close>

abbreviation "RUN_TYPE_UF \<equiv> 2 :: nat"
abbreviation "RUN_TYPE_UL \<equiv> 4 :: nat"
abbreviation "RUN_TYPE_LSU \<equiv> 5 :: nat"
abbreviation "RUN_TYPE_U2L_399_EXT2 \<equiv> 6 :: nat"
abbreviation "RUN_TYPE_UF_D20 \<equiv> 7 :: nat"
abbreviation "RUN_TYPE_UF_D1_EXT \<equiv> 8 :: nat"
abbreviation "RUN_TYPE_U_EXT \<equiv> 9 :: nat"
abbreviation "RUN_TYPE_LF_EXT \<equiv> 10 :: nat"
abbreviation "RUN_TYPE_U_EXT2 \<equiv> 11 :: nat"
abbreviation "RUN_TYPE_L_EXT2 \<equiv> 12 :: nat"

definition run_type :: "u32 \<Rightarrow> nat" where
  "run_type v = unat (drop_bit (32 - 17 - 7 - 4) v AND 0xf)"

definition ext_at :: "unicode_tables \<Rightarrow> u32 \<Rightarrow> u32 option" where
  "ext_at T i = map_option ucast (rd (case_conv_ext T) (unat i))"

text \<open>
  The switch on the type of the run of \<open>c\<close>; \<open>conv_type\<close> is 0 for upper case, 1 for lower case, 2
  for case folding. The result is the list of the code points written to \<open>res\<close>.
\<close>

definition case_conv_run ::
  "unicode_tables \<Rightarrow> u32 \<Rightarrow> nat \<Rightarrow> u32 \<Rightarrow> u32 \<Rightarrow> u32 list option" where
  "case_conv_run T c conv_type v data =
     (let code = run_code 17 v; t = run_type v; is_lower = (conv_type \<noteq> 0);
          lw = (of_bool is_lower :: u32)
      in if t < RUN_TYPE_UL then
           (if conv_type = t mod 2 \<or> (t \<ge> RUN_TYPE_UF \<and> conv_type = 2)
            then do { w \<leftarrow> rd (case_conv_table1 T) (unat data); Some [c - code + run_code 17 w] }
            else Some [c])
         else if t = RUN_TYPE_UL then
           (let a = c - code
            in if a AND 1 \<noteq> 1 - lw then Some [c] else Some [(a XOR 1) + code])
         else if t = RUN_TYPE_LSU then
           (let a = c - code
            in if a = 1 then Some [c + (2 * lw - 1)]
               else if a = (1 - lw) * 2 then Some [c + (2 * lw - 1) * 2]
               else Some [c])
         else if t = RUN_TYPE_U2L_399_EXT2 then
           (if \<not> is_lower then do { e \<leftarrow> ext_at T (drop_bit 6 data); Some [c - code + e, 0x399] }
            else do { e \<leftarrow> ext_at T (data AND 0x3f); Some [c - code + e] })
         else if t = RUN_TYPE_UF_D20 then
           (if conv_type = 1 then Some [c] else Some [data + of_bool (conv_type = 2) * 0x20])
         else if t = RUN_TYPE_UF_D1_EXT then
           (if conv_type = 1 then Some [c]
            else do { e \<leftarrow> ext_at T data; Some [e + of_bool (conv_type = 2)] })
         else if t = RUN_TYPE_U_EXT \<or> t = RUN_TYPE_LF_EXT then
           (if of_bool is_lower \<noteq> t - RUN_TYPE_U_EXT then Some [c]
            else do { e \<leftarrow> ext_at T data; Some [e] })
         else if t = RUN_TYPE_U_EXT2 \<or> t = RUN_TYPE_L_EXT2 then
           (if conv_type \<noteq> t - RUN_TYPE_U_EXT2 then Some [c]
            else do { e1 \<leftarrow> ext_at T (drop_bit 6 data); e2 \<leftarrow> ext_at T (data AND 0x3f);
                      Some [c - code + e1, e2] })
         else
           (if conv_type \<noteq> 0 then Some [c]
            else do { e1 \<leftarrow> ext_at T (drop_bit 8 data);
                      e2 \<leftarrow> ext_at T (drop_bit 4 data AND 0xf);
                      e3 \<leftarrow> ext_at T (data AND 0xf);
                      Some [e1, e2, e3] }))"

definition lre_case_conv :: "unicode_tables \<Rightarrow> u32 \<Rightarrow> nat \<Rightarrow> u32 list option" where
  "lre_case_conv T c conv_type =
     (if c < 128 then
        (if conv_type \<noteq> 0 then Some [if c \<ge> 65 \<and> c \<le> 90 then c - 65 + 97 else c]
         else Some [if c \<ge> 97 \<and> c \<le> 122 then c - 97 + 65 else c])
      else
        do { r \<leftarrow> run_search 17 (case_conv_table1 T) c 0 (int (length (case_conv_table1 T)) - 1);
             case r of
               None \<Rightarrow> Some [c]
             | Some idx \<Rightarrow>
                 do { v \<leftarrow> rd (case_conv_table1 T) idx;
                      d \<leftarrow> rd (case_conv_table2 T) idx;
                      case_conv_run T c conv_type v (push_bit 8 (v AND 0xf) OR ucast d) } })"

subsection \<open>Membership tables\<close>

definition get_le24 :: "u8 list \<Rightarrow> nat \<Rightarrow> u32 option" where
  "get_le24 ptr i =
     do { b0 \<leftarrow> rd ptr i; b1 \<leftarrow> rd ptr (i + 1); b2 \<leftarrow> rd ptr (i + 2);
          Some (ucast b0 OR push_bit 8 (ucast b1) OR push_bit 16 (ucast b2)) }"

definition index_code :: "u32 \<Rightarrow> u32" where
  "index_code v = v AND (push_bit 21 1 - 1)"

function index_search :: "u8 list \<Rightarrow> u32 \<Rightarrow> nat \<Rightarrow> nat \<Rightarrow> nat option" where
  "index_search tab c idx_min idx_max =
     (if idx_max - idx_min > 1 then
        let idx = (idx_max + idx_min) div 2
        in case get_le24 tab (idx * 3) of
             None \<Rightarrow> None
           | Some v \<Rightarrow>
               if c < index_code v then index_search tab c idx_min idx
               else index_search tab c idx idx_max
      else Some idx_min)"
  by pat_completeness auto
termination
  by (relation "measure (\<lambda>(tab, c, idx_min, idx_max). idx_max - idx_min)") auto

declare index_search.simps [simp del]

text \<open>\<open>get_index_pos\<close>: \<open>Some None\<close> is the result -1; otherwise the offset and \<open>*pcode\<close>.\<close>

definition get_index_pos :: "u32 \<Rightarrow> u8 list \<Rightarrow> nat \<Rightarrow> (nat \<times> u32) option option" where
  "get_index_pos c index_table index_table_len =
     do { v \<leftarrow> get_le24 index_table 0;
          if c < index_code v then Some (Some (0, 0))
          else do { code \<leftarrow> get_le24 index_table ((index_table_len - 1) * 3);
                    if c \<ge> code then Some None
                    else do { idx \<leftarrow> index_search index_table c 0 (index_table_len - 1);
                              v \<leftarrow> get_le24 index_table (idx * 3);
                              Some (Some ((idx + 1) * 32 + unat (drop_bit 21 v), index_code v)) } } }"

text \<open>
  The bytes of a membership table, read by two functions: one or two run lengths and the bytes
  that follow.
\<close>

definition tab_runs :: "u8 \<Rightarrow> u8 list \<Rightarrow> (u32 list \<times> u8 list) option" where
  "tab_runs b p =
     (if b < 64 then Some ([ucast (drop_bit 3 b) + 1, ucast (b AND 7) + 1], p)
      else if b \<ge> 0x80 then Some ([ucast (b - 0x80) + 1], p)
      else if b < 0x60 then
        (case p of
           p0 # p \<Rightarrow> Some ([(push_bit 8 (ucast (b - 0x40)) OR ucast p0) + 1], p)
         | [] \<Rightarrow> None)
      else
        (case p of
           p0 # p1 # p \<Rightarrow>
             Some ([(push_bit 16 (ucast (b - 0x60)) OR push_bit 8 (ucast p0) OR ucast p1) + 1], p)
         | _ \<Rightarrow> None))"

lemma tab_runs_shorter: "tab_runs b p = Some (rs, p') \<Longrightarrow> length p' \<le> length p"
  by (auto simp: tab_runs_def split: if_splits list.splits)

text \<open>The runs of one group: the membership bit at \<open>c\<close>, or the code and bit after them.\<close>

fun scan_runs :: "u32 \<Rightarrow> u32 \<Rightarrow> bool \<Rightarrow> u32 list \<Rightarrow> bool + (u32 \<times> bool)" where
  "scan_runs c code b [] = Inr (code, b)"
| "scan_runs c code b (n # ns) =
     (if c < code + n then Inl b else scan_runs c (code + n) (\<not> b) ns)"

function in_table_loop :: "u32 \<Rightarrow> u32 \<Rightarrow> bool \<Rightarrow> u8 list \<Rightarrow> bool option" where
  "in_table_loop c code b [] = None"
| "in_table_loop c code b (x # p) =
     (case tab_runs x p of
        None \<Rightarrow> None
      | Some (rs, p') \<Rightarrow>
          (case scan_runs c code b rs of
             Inl r \<Rightarrow> Some r
           | Inr (code', b') \<Rightarrow> in_table_loop c code' b' p'))"
  by pat_completeness auto
termination
  by (relation "measure (\<lambda>(c, code, b, p). length p)") (auto dest: tab_runs_shorter)

definition lre_is_in_table :: "u32 \<Rightarrow> u8 list \<Rightarrow> u8 list \<Rightarrow> nat \<Rightarrow> bool option" where
  "lre_is_in_table c table index_table index_table_len =
     do { r \<leftarrow> get_index_pos c index_table index_table_len;
          case r of
            None \<Rightarrow> Some False
          | Some (pos, code) \<Rightarrow> in_table_loop c code False (drop pos table) }"

definition lre_is_cased :: "unicode_tables \<Rightarrow> u32 \<Rightarrow> bool option" where
  "lre_is_cased T c =
     do { r \<leftarrow> run_search 17 (case_conv_table1 T) c 0 (int (length (case_conv_table1 T)) - 1);
          if r \<noteq> None then Some True
          else lre_is_in_table c (unicode_prop_Cased1_table T) (unicode_prop_Cased1_index T)
                 (length (unicode_prop_Cased1_index T) div 3) }"

definition lre_is_case_ignorable :: "unicode_tables \<Rightarrow> u32 \<Rightarrow> bool option" where
  "lre_is_case_ignorable T c =
     lre_is_in_table c (unicode_prop_Case_Ignorable_table T) (unicode_prop_Case_Ignorable_index T)
       (length (unicode_prop_Case_Ignorable_index T) div 3)"

definition lre_is_id_start :: "unicode_tables \<Rightarrow> u32 \<Rightarrow> bool option" where
  "lre_is_id_start T c =
     lre_is_in_table c (unicode_prop_ID_Start_table T) (unicode_prop_ID_Start_index T)
       (length (unicode_prop_ID_Start_index T) div 3)"

definition lre_is_id_continue :: "unicode_tables \<Rightarrow> u32 \<Rightarrow> bool option" where
  "lre_is_id_continue T c =
     do { s \<leftarrow> lre_is_id_start T c;
          if s then Some True
          else lre_is_in_table c (unicode_prop_ID_Continue1_table T)
                 (unicode_prop_ID_Continue1_index T)
                 (length (unicode_prop_ID_Continue1_index T) div 3) }"

text \<open>\<open>unicode_prop1\<close> reads a membership table into a range.\<close>

fun add_runs :: "CharRange \<Rightarrow> u32 \<Rightarrow> bool \<Rightarrow> u32 list \<Rightarrow> (int \<times> CharRange \<times> u32 \<times> bool) option" where
  "add_runs cr c b [] = Some (0, cr, c, b)"
| "add_runs cr c b (n # ns) =
     (if b then
        (case cr_add_interval cr c (c + n) of
           None \<Rightarrow> None
         | Some (r, cr) \<Rightarrow> if r \<noteq> 0 then Some (-1, cr, c, b) else add_runs cr (c + n) (\<not> b) ns)
      else add_runs cr (c + n) (\<not> b) ns)"

function prop1_loop :: "CharRange \<Rightarrow> u32 \<Rightarrow> bool \<Rightarrow> u8 list \<Rightarrow> (int \<times> CharRange) option" where
  "prop1_loop cr c b [] = Some (0, cr)"
| "prop1_loop cr c b (x # p) =
     (case tab_runs x p of
        None \<Rightarrow> None
      | Some (rs, p') \<Rightarrow>
          (case add_runs cr c b rs of
             None \<Rightarrow> None
           | Some (r, cr, c, b) \<Rightarrow> if r \<noteq> 0 then Some (-1, cr) else prop1_loop cr c b p'))"
  by pat_completeness auto
termination
  by (relation "measure (\<lambda>(cr, c, b, p). length p)") (auto dest: tab_runs_shorter)

definition unicode_prop1 :: "CharRange \<Rightarrow> u8 list \<Rightarrow> (int \<times> CharRange) option" where
  "unicode_prop1 cr table = prop1_loop cr 0 False table"

subsection \<open>The binary search\<close>

definition in_run :: "nat \<Rightarrow> u32 \<Rightarrow> u32 \<Rightarrow> bool" where
  "in_run w c v \<longleftrightarrow> run_code w v \<le> c \<and> c < run_code w v + run_len w v"

definition runs_ok :: "nat \<Rightarrow> u32 list \<Rightarrow> bool" where
  "runs_ok w tab \<longleftrightarrow> sorted_wrt (\<lambda>v v'. run_code w v + run_len w v \<le> run_code w v') tab \<and>
     (\<forall>v\<in>set tab. run_code w v \<le> run_code w v + run_len w v)"

text \<open>A correct outcome of the search between two indices.\<close>

definition found :: "nat \<Rightarrow> u32 list \<Rightarrow> u32 \<Rightarrow> int \<Rightarrow> int \<Rightarrow> nat option \<Rightarrow> bool" where
  "found w tab c lo hi r \<longleftrightarrow>
     (case r of None \<Rightarrow> \<forall>i. lo \<le> int i \<and> int i \<le> hi \<longrightarrow> \<not> in_run w c (tab ! i)
      | Some i \<Rightarrow> lo \<le> int i \<and> int i \<le> hi \<and> in_run w c (tab ! i))"

lemma found_extend:
  assumes "found w tab c lo hi r" and "lo' \<le> lo" and "hi \<le> hi'"
    and "\<And>i. lo' \<le> int i \<Longrightarrow> int i \<le> hi' \<Longrightarrow> \<not> (lo \<le> int i \<and> int i \<le> hi) \<Longrightarrow> \<not> in_run w c (tab ! i)"
  shows "found w tab c lo' hi' r"
  using assms by (cases r) (auto simp: found_def)

lemma run_search_range:
  assumes "runs_ok w tab" and "0 \<le> lo" and "hi < int (length tab)"
  shows "\<exists>r. run_search w tab c lo hi = Some r \<and> found w tab c lo hi r"
  using assms
proof (induction w tab c lo hi rule: run_search.induct)
  case (1 w tab c lo hi)
  show ?case
  proof (cases "lo \<le> hi")
    case False
    then show ?thesis by (auto simp: run_search.simps [of w tab c lo hi] found_def)
  next
    case True
    define idx where "idx = (hi + lo) div 2"
    define v where "v = tab ! nat idx"
    have b: "lo \<le> idx" "idx \<le> hi" "nat idx < length tab" using True 1(4,5) by (auto simp: idx_def)
    have rv: "rd tab (nat idx) = Some v" using b by (simp add: rd_eq v_def)
    have ord: "run_code w (tab ! i) + run_len w (tab ! i) \<le> run_code w (tab ! j)" if "i < j" "j < length tab" for i j
      using 1(3) that by (auto simp: runs_ok_def sorted_wrt_iff_nth_less)
    note e = run_search.simps [of w tab c lo hi, unfolded Let_def, folded idx_def]
    have nw: "run_code w v \<le> run_code w v + run_len w v"
      using 1(3) b(3) by (auto simp: runs_ok_def v_def)
    consider "c < run_code w v" | "c \<ge> run_code w v" "c \<ge> run_code w v + run_len w v"
      | "c \<ge> run_code w v" "c < run_code w v + run_len w v" by fastforce
    then show ?thesis
    proof cases
      case lt: 1
      have "\<not> in_run w c (tab ! i)" if "idx \<le> int i" "int i \<le> hi" for i
      proof (cases "i = nat idx")
        case False
        then have "nat idx < i" using that b 1(4) by linarith
        then have "run_code w v + run_len w v \<le> run_code w (tab ! i)" using ord that(2) 1(5) by (auto simp: v_def)
        then show ?thesis using lt nw by (auto simp: in_run_def)
      qed (use lt in \<open>auto simp: in_run_def v_def\<close>)
      moreover have "run_search w tab c lo hi = run_search w tab c lo (idx - 1)" using e True rv lt by simp
      moreover obtain r where "run_search w tab c lo (idx - 1) = Some r" and f: "found w tab c lo (idx - 1) r"
        using 1(1) [OF True idx_def rv lt 1(3,4)] 1(5) b by auto
      moreover have "found w tab c lo hi r" by (rule found_extend [OF f]) (use calculation b in auto)
      ultimately show ?thesis by simp
    next
      case gt: 2
      have "\<not> in_run w c (tab ! i)" if "lo \<le> int i" "int i \<le> idx" for i
      proof (cases "i = nat idx")
        case False
        then have "i < nat idx" using that b 1(4) by linarith
        then have "run_code w (tab ! i) + run_len w (tab ! i) \<le> run_code w v" using ord b(3) by (auto simp: v_def)
        then show ?thesis using gt by (auto simp: in_run_def)
      qed (use gt in \<open>auto simp: in_run_def v_def\<close>)
      moreover have "run_search w tab c lo hi = run_search w tab c (idx + 1) hi"
        using e True rv gt by (simp add: leD)
      moreover obtain r where "run_search w tab c (idx + 1) hi = Some r" and f: "found w tab c (idx + 1) hi r"
        using 1(2) [OF True idx_def rv leD [OF gt(1)] gt(2) 1(3)] 1(4,5) b by auto
      moreover have "found w tab c lo hi r" by (rule found_extend [OF f]) (use calculation b in auto)
      ultimately show ?thesis by simp
    next
      case 3
      then have "run_search w tab c lo hi = Some (Some (nat idx))" using e True rv
        by (simp add: leD not_le [THEN iffD2])
      then show ?thesis using 3 b 1(4) by (auto simp: in_run_def v_def found_def)
    qed
  qed
qed

lemma run_search_ok:
  assumes "runs_ok w tab"
  shows "\<exists>r. run_search w tab c 0 (int (length tab) - 1) = Some r \<and>
    (case r of None \<Rightarrow> \<forall>i<length tab. \<not> in_run w c (tab ! i) | Some i \<Rightarrow> i < length tab \<and> in_run w c (tab ! i))"
  using run_search_range [OF assms, of 0 "int (length tab) - 1" c]
  by (auto simp: found_def split: option.splits)


subsection \<open>Membership tables and ranges\<close>

text \<open>All the run lengths of a table.\<close>

function all_runs :: "u8 list \<Rightarrow> u32 list option" where
  "all_runs [] = Some []"
| "all_runs (x # p) =
     (case tab_runs x p of None \<Rightarrow> None | Some (rs, p') \<Rightarrow> map_option ((@) rs) (all_runs p'))"
  by pat_completeness auto
termination by (relation "measure length") (auto dest: tab_runs_shorter)

lemma scan_runs_append:
  "scan_runs c code b (xs @ ys) =
     (case scan_runs c code b xs of Inl r \<Rightarrow> Inl r | Inr (code', b') \<Rightarrow> scan_runs c code' b' ys)"
  by (induction c code b xs rule: scan_runs.induct) auto

lemma in_table_loop_runs:
  "all_runs p = Some rs \<Longrightarrow>
   in_table_loop c code b p = (case scan_runs c code b rs of Inl r \<Rightarrow> Some r | Inr _ \<Rightarrow> None)"
proof (induction p arbitrary: code b rs rule: all_runs.induct)
  case (2 x p)
  obtain r1 p' r2 where r: "tab_runs x p = Some (r1, p')" "all_runs p' = Some r2" "rs = r1 @ r2"
    using 2(2) by (auto split: option.splits)
  then show ?case using 2(1) [OF r(1) refl r(2)]
    by (auto simp: scan_runs_append split: sum.splits)
qed simp

fun run_points :: "u32 \<Rightarrow> bool \<Rightarrow> u32 list \<Rightarrow> u32 list" where
  "run_points c b [] = []"
| "run_points c b (n # ns) = (if b then [c, c + n] else []) @ run_points (c + n) (\<not> b) ns"

text \<open>The runs do not wrap around: every step adds to the code point.\<close>

fun runs_fit :: "u32 \<Rightarrow> u32 list \<Rightarrow> bool" where
  "runs_fit c [] = True"
| "runs_fit c (n # ns) = (c < c + n \<and> runs_fit (c + n) ns)"

lemma run_points_ge:
  "runs_fit c rs \<Longrightarrow> \<forall>p\<in>set (run_points c b rs). c \<le> p"
proof (induction c b rs rule: run_points.induct)
  case (2 c b n ns)
  then show ?case using order.trans [of c "c + n"] by auto
qed simp

lemma run_points_sorted: "runs_fit c rs \<Longrightarrow> sorted (run_points c b rs)"
proof (induction c b rs rule: run_points.induct)
  case (2 c b n ns)
  then show ?case using run_points_ge [of "c + n" ns "\<not> b"] order.trans [of c "c + n"]
    by (auto simp: sorted_append)
qed simp

lemma run_points_even: "even (length (run_points c b rs))"
  by (induction c b rs rule: run_points.induct) auto

lemma scan_runs_in_range:
  "runs_fit code rs \<Longrightarrow> code \<le> c \<Longrightarrow> scan_runs c code b rs = Inl r \<Longrightarrow>
   r = in_range (run_points code b rs) c"
proof (induction c code b rs rule: scan_runs.induct)
  case (2 c code b n ns)
  show ?case
  proof (cases "c < code + n")
    case True
    have "\<forall>p\<in>set (run_points (code + n) (\<not> b) ns). c < p"
      using True run_points_ge [of "code + n" ns "\<not> b"] 2(2) by (auto intro: less_le_trans)
    then show ?thesis using True 2 in_range_above by (auto simp: in_range_append)
  next
    case False
    then have "scan_runs c (code + n) (\<not> b) ns = Inl r" using 2(4) by simp
    moreover have "code + n \<le> c" using False by simp
    ultimately have "r = in_range (run_points (code + n) (\<not> b) ns) c" using 2(1,2) False by simp
    then show ?thesis using \<open>code + n \<le> c\<close> 2(3) by (simp add: in_range_append)
  qed
qed simp

lemma add_runs_ok:
  "cr_ok cr \<Longrightarrow>
   \<exists>r cr' c' b'. add_runs cr c b rs = Some (r, cr', c', b') \<and> cr_ok cr' \<and>
     (r = 0 \<and> cr_pts cr' = cr_pts cr @ run_points c b rs \<and>
        (\<forall>ns. run_points c b (rs @ ns) = run_points c b rs @ run_points c' b' ns) \<or> r = -1)"
proof (induction cr c b rs rule: add_runs.induct)
  case (2 cr c b n ns)
  show ?case
  proof (cases b)
    case False
    then show ?thesis using 2(2) 2(3) by auto
  next
    case True
    obtain r cr1 where a: "cr_add_interval cr c (c + n) = Some (r, cr1)" "cr_ok cr1"
      "r = 0 \<and> cr_pts cr1 = cr_pts cr @ [c, c + n] \<or> r = -1"
      using cr_add_interval_ok [OF 2(3), of c "c + n"] by (auto simp: cr_adds_def)
    show ?thesis
    proof (cases "r = 0")
      case r: True
      then show ?thesis using True a 2(1) [OF True a(1) refl _ a(2)] by auto
    next
      case False
      then show ?thesis using True a by auto
    qed
  qed
qed auto

lemma prop1_loop_ok:
  "cr_ok cr \<Longrightarrow> all_runs p = Some rs \<Longrightarrow>
   \<exists>r cr'. prop1_loop cr c b p = Some (r, cr') \<and> cr_ok cr' \<and>
     (r = 0 \<and> cr_pts cr' = cr_pts cr @ run_points c b rs \<or> r = -1)"
proof (induction p arbitrary: cr c b rs rule: all_runs.induct)
  case (2 x p)
  obtain r1 p' r2 where r: "tab_runs x p = Some (r1, p')" "all_runs p' = Some r2" "rs = r1 @ r2"
    using 2(3) by (auto split: option.splits)
  obtain q cr1 c1 b1 where a: "add_runs cr c b r1 = Some (q, cr1, c1, b1)" "cr_ok cr1"
     "q = 0 \<and> cr_pts cr1 = cr_pts cr @ run_points c b r1 \<and>
        (\<forall>ns. run_points c b (r1 @ ns) = run_points c b r1 @ run_points c1 b1 ns) \<or> q = -1"
    using add_runs_ok [OF 2(2), of c b r1] by blast
  show ?case
  proof (cases "q = 0")
    case True
    then show ?thesis using a r 2(1) [OF r(1) refl a(2) r(2), of c1 b1] by auto
  next
    case False
    then show ?thesis using a r by auto
  qed
qed simp

text \<open>
  A membership table and the range that \<open>unicode_prop1\<close> builds from it agree: if the range is
  built, its points are sorted, and wherever the scan of the table from its start reaches a
  verdict on \<open>c\<close>, the verdict is membership of \<open>c\<close> in the range.
\<close>

lemma in_table_iff_prop1:
  assumes "all_runs p = Some rs" and "runs_fit 0 rs" and "cr_ok cr" and "cr_len cr = 0"
    and "unicode_prop1 cr p = Some (0, cr')"
  shows "sorted (cr_pts cr') \<and> even (length (cr_pts cr')) \<and>
    (\<forall>c r. in_table_loop c 0 False p = Some r \<longrightarrow> r = in_range (cr_pts cr') c)"
proof -
  have "cr_pts cr' = run_points 0 False rs"
    using prop1_loop_ok [OF assms(3,1), of 0 False] assms(4,5) by (auto simp: unicode_prop1_def cr_pts_def)
  then show ?thesis
    using run_points_sorted [OF assms(2)] run_points_even in_table_loop_runs [OF assms(1)]
      scan_runs_in_range [OF assms(2)]
    by (auto split: sum.splits)
qed

lemma in_table_iff_prop1_witness:
  "\<exists>cr'. unicode_prop1 (cr_init (\<lambda>n. False)) [0x8a, 0x0b] = Some (0, cr') \<and> sorted (cr_pts cr') \<and>
     in_range (cr_pts cr') 12"
proof -
  have "map_option fst (unicode_prop1 (cr_init (\<lambda>n. False)) [0x8a, 0x0b]) = Some 0" by code_simp
  then obtain cr' where p: "unicode_prop1 (cr_init (\<lambda>n. False)) [0x8a, 0x0b] = Some (0, cr')" by auto
  have r: "all_runs [0x8a, 0x0b] = Some [11, 2, 4]" "runs_fit 0 [11, 2, 4]" by code_simp+
  have "in_table_loop 12 0 False [0x8a, 0x0b] = Some True" by code_simp
  then show ?thesis using p in_table_iff_prop1 [OF r cr_init_ok p] by auto
qed

end
