(* ===== verification/UnicodeNorm.thy ===== *)
theory UnicodeNorm
  imports UnicodeCase Dynbuf "HOL-Library.Multiset"
begin

text \<open>
  Unicode normalization of \<open>qjs/libunicode.c\<close>: decomposition of a code point, canonical
  ordering, composition, and \<open>unicode_normalize\<close>. The tables are arguments, as in
  \<open>UnicodeCase\<close>; \<open>None\<close> is a read or a write outside a table or an array.
\<close>

subsection \<open>Decomposition\<close>

record norm_tables =
  unicode_decomp_table1 :: "u32 list"
  unicode_decomp_table2 :: "u16 list"
  unicode_decomp_data :: "u8 list"
  unicode_comp_table :: "u16 list"
  unicode_cc_table :: "u8 list"
  unicode_cc_index :: "u8 list"

text \<open>The values of \<open>DecompTypeEnum\<close> that the code names.\<close>

abbreviation "DECOMP_TYPE_C1 \<equiv> 0 :: nat"
abbreviation "DECOMP_TYPE_L1 \<equiv> 1 :: nat"
abbreviation "DECOMP_TYPE_L7 \<equiv> 7 :: nat"
abbreviation "DECOMP_TYPE_LL1 \<equiv> 8 :: nat"
abbreviation "DECOMP_TYPE_LL2 \<equiv> 9 :: nat"
abbreviation "DECOMP_TYPE_S1 \<equiv> 10 :: nat"
abbreviation "DECOMP_TYPE_S5 \<equiv> 14 :: nat"
abbreviation "DECOMP_TYPE_I1 \<equiv> 15 :: nat"
abbreviation "DECOMP_TYPE_I2_0 \<equiv> 16 :: nat"
abbreviation "DECOMP_TYPE_I4_2 \<equiv> 21 :: nat"
abbreviation "DECOMP_TYPE_B1 \<equiv> 22 :: nat"
abbreviation "DECOMP_TYPE_B8 \<equiv> 29 :: nat"
abbreviation "DECOMP_TYPE_B18 \<equiv> 30 :: nat"
abbreviation "DECOMP_TYPE_LS2 \<equiv> 31 :: nat"
abbreviation "DECOMP_TYPE_PAT3 \<equiv> 32 :: nat"
abbreviation "DECOMP_TYPE_S2_UL \<equiv> 33 :: nat"
abbreviation "DECOMP_TYPE_LS2_UL \<equiv> 34 :: nat"

definition unicode_get_short_code :: "u32 \<Rightarrow> u32 option" where
  "unicode_get_short_code c =
     (if c < 0x80 then Some c
      else if c < 0x80 + 0x50 then Some (c - 0x80 + 0x300)
      else rd [0x2044, 0x2215] (unat (c - 0x80 - 0x50)))"

definition unicode_get_lower_simple :: "u32 \<Rightarrow> u32" where
  "unicode_get_lower_simple c = (if c < 0x100 \<or> (c \<ge> 0x410 \<and> c \<le> 0x42f) then c + 0x20 else c + 1)"

definition unicode_get16 :: "u8 list \<Rightarrow> nat \<Rightarrow> u32 option" where
  "unicode_get16 p i =
     do { b0 \<leftarrow> rd p i; b1 \<leftarrow> rd p (i + 1); Some (ucast b0 OR push_bit 8 (ucast b1)) }"

text \<open>
  The loops that fill \<open>res\<close>. The first stops at a zero, \<open>stored\<close> telling whether the zero is
  written before the function returns 0; the second reads all of its elements. The result is the
  C return value and the elements written.
\<close>

fun fill_nonzero :: "bool \<Rightarrow> (nat \<Rightarrow> u32 option) \<Rightarrow> nat \<Rightarrow> nat \<Rightarrow> u32 list \<Rightarrow> (nat \<times> u32 list) option" where
  "fill_nonzero stored f i 0 res = Some (length res, res)"
| "fill_nonzero stored f i (Suc n) res =
     do { v \<leftarrow> f i;
          if v = 0 then Some (0, if stored then res @ [v] else res)
          else fill_nonzero stored f (Suc i) n (res @ [v]) }"

fun fill_all :: "(nat \<Rightarrow> u32 option) \<Rightarrow> nat \<Rightarrow> nat \<Rightarrow> u32 list \<Rightarrow> (nat \<times> u32 list) option" where
  "fill_all f i 0 res = Some (length res, res)"
| "fill_all f i (Suc n) res = do { v \<leftarrow> f i; fill_all f (Suc i) n (res @ [v]) }"

definition decomp_LL :: "u8 list \<Rightarrow> nat \<Rightarrow> u32 \<Rightarrow> u32 \<Rightarrow> nat \<Rightarrow> nat \<Rightarrow> u32 option" where
  "decomp_LL D d off len l i =
     (let k = off * of_nat l + of_nat i; p = len * of_nat l * 2
      in do { lo \<leftarrow> unicode_get16 D (d + unat (2 * k));
              hi \<leftarrow> rd D (d + unat (p + k div 4));
              Some (lo OR push_bit 16 (ucast (drop_bit (unat ((k mod 4) * 2)) hi AND 3))) })"

definition decomp_B :: "u8 list \<Rightarrow> nat \<Rightarrow> u32 \<Rightarrow> nat \<Rightarrow> nat \<Rightarrow> u32 option" where
  "decomp_B D d c_min base i =
     do { b \<leftarrow> rd D (base + i); Some (if b = 0xff then 0x20 else ucast b + c_min) }"

definition unicode_decomp_entry ::
  "norm_tables \<Rightarrow> u32 \<Rightarrow> nat \<Rightarrow> u32 \<Rightarrow> u32 \<Rightarrow> nat \<Rightarrow> (nat \<times> u32 list) option" where
  "unicode_decomp_entry T c idx code len t =
     (if t = DECOMP_TYPE_C1 then do { w \<leftarrow> rd (unicode_decomp_table2 T) idx; Some (1, [ucast w]) }
      else do {
        w \<leftarrow> rd (unicode_decomp_table2 T) idx;
        let D = unicode_decomp_data T; d = unat w; off = c - code in
        if DECOMP_TYPE_L1 \<le> t \<and> t \<le> DECOMP_TYPE_L7 then
          (let l = t - DECOMP_TYPE_L1 + 1; d = d + unat (off * of_nat l * 2)
           in fill_nonzero True (\<lambda>i. unicode_get16 D (d + 2 * i)) 0 l [])
        else if t = DECOMP_TYPE_LL1 \<or> t = DECOMP_TYPE_LL2 then
          (let l = t - DECOMP_TYPE_LL1 + 1
           in fill_nonzero False (decomp_LL D d off len l) 0 l [])
        else if DECOMP_TYPE_S1 \<le> t \<and> t \<le> DECOMP_TYPE_S5 then
          (let l = t - DECOMP_TYPE_S1 + 1; d = d + unat (off * of_nat l)
           in fill_nonzero True
                (\<lambda>i. do { b \<leftarrow> rd D (d + i); unicode_get_short_code (ucast b) }) 0 l [])
        else if DECOMP_TYPE_I1 \<le> t \<and> t \<le> DECOMP_TYPE_I4_2 then
          (let l = (if t = DECOMP_TYPE_I1 then 1 else 2 + (t - DECOMP_TYPE_I2_0) div 2);
               p = (if t = DECOMP_TYPE_I1 then 0
                    else (t - DECOMP_TYPE_I2_0) mod 2 + (if l > 2 then 1 else 0))
           in fill_all
                (\<lambda>i. do { c1 \<leftarrow> unicode_get16 D (d + 2 * i);
                          Some (if i = p then c1 + off else c1) }) 0 l [])
        else if DECOMP_TYPE_B1 \<le> t \<and> t \<le> DECOMP_TYPE_B18 then
          (let l = (if t = DECOMP_TYPE_B18 then 18 else t - DECOMP_TYPE_B1 + 1)
           in do { c_min \<leftarrow> unicode_get16 D d;
                   fill_all (decomp_B D d c_min (d + 2 + unat (off * of_nat l))) 0 l [] })
        else if t = DECOMP_TYPE_LS2 then
          (let d = d + unat (off * 3)
           in do { v \<leftarrow> unicode_get16 D d;
                   if v = 0 then Some (0, [0])
                   else do { b \<leftarrow> rd D (d + 2); s \<leftarrow> unicode_get_short_code (ucast b);
                             Some (2, [v, s]) } })
        else if t = DECOMP_TYPE_PAT3 then
          do { v0 \<leftarrow> unicode_get16 D d; v2 \<leftarrow> unicode_get16 D (d + 2);
               v1 \<leftarrow> unicode_get16 D (d + 4 + unat (off * 2)); Some (3, [v0, v1, v2]) }
        else if t = DECOMP_TYPE_S2_UL \<or> t = DECOMP_TYPE_LS2_UL then
          do { (v, d) \<leftarrow>
                 (if t = DECOMP_TYPE_S2_UL then
                    (let d = d + unat (off AND NOT 1)
                     in do { b \<leftarrow> rd D d; s \<leftarrow> unicode_get_short_code (ucast b); Some (s, d + 1) })
                  else
                    (let d = d + unat (drop_bit 1 off * 3)
                     in do { s \<leftarrow> unicode_get16 D d; Some (s, d + 2) }));
               b \<leftarrow> rd D d;
               s \<leftarrow> unicode_get_short_code (ucast b);
               Some (2, [if off AND 1 \<noteq> 0 then unicode_get_lower_simple v else v, s]) }
        else Some (0, []) })"

definition decomp_type :: "u32 \<Rightarrow> nat" where
  "decomp_type v = unat (drop_bit (32 - 18 - 7 - 6) v AND 0x3f)"

text \<open>The decomposition, empty when there is none.\<close>

definition unicode_decomp_char :: "norm_tables \<Rightarrow> u32 \<Rightarrow> bool \<Rightarrow> u32 list option" where
  "unicode_decomp_char T c is_compat1 =
     do { r \<leftarrow> run_search 18 (unicode_decomp_table1 T) c 0 (int (length (unicode_decomp_table1 T)) - 1);
          case r of
            None \<Rightarrow> Some []
          | Some idx \<Rightarrow>
              do { v \<leftarrow> rd (unicode_decomp_table1 T) idx;
                   if \<not> is_compat1 \<and> v AND 1 \<noteq> 0 then Some []
                   else do { (l, res) \<leftarrow> unicode_decomp_entry T c idx (run_code 18 v) (run_len 18 v) (decomp_type v);
                             Some (take l res) } } }"

subsection \<open>Composition\<close>

text \<open>
  One probe of the search: the composed code point and the difference \<open>d\<close>. \<open>pair\<close> has room for two elements; an element
  that was not written has no value.
\<close>

definition compose_entry :: "norm_tables \<Rightarrow> u32 \<Rightarrow> u32 \<Rightarrow> nat \<Rightarrow> (u32 \<times> int) option" where
  "compose_entry T c0 c1 idx =
     do { idx1 \<leftarrow> rd (unicode_comp_table T) idx;
          let d_idx = unat (drop_bit 6 idx1);
          let d_offset = idx1 AND 0x3f;
          v \<leftarrow> rd (unicode_decomp_table1 T) d_idx;
          let code = run_code 18 v;
          let ch = code + ucast d_offset;
          (l, res) \<leftarrow> unicode_decomp_entry T ch d_idx code (run_len 18 v) (decomp_type v);
          if length res > 2 then None
          else do { p0 \<leftarrow> rd res 0;
                    if sint (c0 - p0) = 0 then do { p1 \<leftarrow> rd res 1; Some (ch, sint (c1 - p1)) }
                    else Some (ch, sint (c0 - p0)) } }"

function compose_search :: "norm_tables \<Rightarrow> u32 \<Rightarrow> u32 \<Rightarrow> int \<Rightarrow> int \<Rightarrow> u32 option" where
  "compose_search T c0 c1 idx_min idx_max =
     (if idx_min \<le> idx_max then
        let idx = (idx_max + idx_min) div 2
        in case compose_entry T c0 c1 (nat idx) of
             None \<Rightarrow> None
           | Some (ch, d) \<Rightarrow>
               if d < 0 then compose_search T c0 c1 idx_min (idx - 1)
               else if d > 0 then compose_search T c0 c1 (idx + 1) idx_max
               else Some ch
      else Some 0)"
  by pat_completeness auto
termination
  by (relation "measure (\<lambda>(T, c0, c1, idx_min, idx_max). nat (idx_max - idx_min + 1))") auto

declare compose_search.simps [simp del]

definition unicode_compose_pair :: "norm_tables \<Rightarrow> u32 \<Rightarrow> u32 \<Rightarrow> u32 option" where
  "unicode_compose_pair T c0 c1 = compose_search T c0 c1 0 (int (length (unicode_comp_table T)) - 1)"

definition compose_pair :: "norm_tables \<Rightarrow> u32 \<Rightarrow> u32 \<Rightarrow> u32 option" where
  "compose_pair T c0 c1 =
     (if c0 \<ge> 0x1100 \<and> c0 < 0x1100 + 19 \<and> c1 \<ge> 0x1161 \<and> c1 < 0x1161 + 21
      then Some (0xac00 + (c0 - 0x1100) * 588 + (c1 - 0x1161) * 28)
      else if c0 \<ge> 0xac00 \<and> c0 < 0xac00 + 11172 \<and> (c0 - 0xac00) mod 28 = 0 \<and>
              c1 \<ge> 0x11a7 \<and> c1 < 0x11a7 + 28
      then Some (c0 + c1 - 0x11a7)
      else unicode_compose_pair T c0 c1)"

subsection \<open>Combining classes\<close>

text \<open>One entry of \<open>unicode_cc_table\<close>: its type, its number of code points less one, and its class byte.\<close>

definition cc_entry :: "u8 \<Rightarrow> u8 list \<Rightarrow> (nat \<times> u32 \<times> u8 \<times> u8 list) option" where
  "cc_entry b p =
     (let t = unat (drop_bit 6 b); n = (ucast (b AND 0x3f) :: u32)
      in do { (n, p) \<leftarrow>
                (if n < 48 then Some (n, p)
                 else if n < 56 then
                   (case p of p0 # p \<Rightarrow> Some ((push_bit 8 (n - 48) OR ucast p0) + 48, p) | _ \<Rightarrow> None)
                 else
                   (case p of
                      p0 # p1 # p \<Rightarrow>
                        Some ((push_bit 8 (n - 56) OR push_bit 8 (ucast p0) OR ucast p1) + (48 + push_bit 11 1), p)
                    | _ \<Rightarrow> None));
              if t \<le> 1 then (case p of x # p \<Rightarrow> Some (t, n, x, p) | _ \<Rightarrow> None)
              else Some (t, n, 0, p) })"

lemma cc_entry_shorter: "cc_entry b p = Some (t, n, x, p') \<Longrightarrow> length p' \<le> length p"
  by (auto simp: cc_entry_def Let_def bind_eq_Some_conv split: if_splits list.splits)

function cc_loop :: "u32 \<Rightarrow> u32 \<Rightarrow> u8 list \<Rightarrow> u32 option" where
  "cc_loop c code [] = None"
| "cc_loop c code (b # p) =
     (case cc_entry b p of
        None \<Rightarrow> None
      | Some (t, n, x, p') \<Rightarrow>
          (let c1 = code + n + 1
           in if c < c1 then
                Some (if t = 0 then ucast x
                      else if t = 1 then ucast x + c - code
                      else if t = 2 then 0 else 230)
              else cc_loop c c1 p'))"
  by pat_completeness auto
termination by (relation "measure (\<lambda>(c, code, p). length p)") (auto dest: cc_entry_shorter)

definition unicode_get_cc :: "norm_tables \<Rightarrow> u32 \<Rightarrow> u32 option" where
  "unicode_get_cc T c =
     do { r \<leftarrow> get_index_pos c (unicode_cc_index T) (length (unicode_cc_index T) div 3);
          case r of
            None \<Rightarrow> Some 0
          | Some (pos, code) \<Rightarrow> cc_loop c code (drop pos (unicode_cc_table T)) }"

subsection \<open>Canonical ordering\<close>

text \<open>
  \<open>sort_cc\<close> over the class function \<open>cc\<close>: the shift of one element down to its place, \<open>m\<close> being \<open>k + 1\<close>, the loop
  over \<open>j\<close> and the loop over \<open>i\<close>, which continues behind the character that ended a run.
\<close>

fun sort_shift :: "(u32 \<Rightarrow> u32 option) \<Rightarrow> nat \<Rightarrow> u32 \<Rightarrow> u32 \<Rightarrow> nat \<Rightarrow> u32 list \<Rightarrow> u32 list option" where
  "sort_shift cc start cc1 ch1 0 bs = Some (bs[0 := ch1])"
| "sort_shift cc start cc1 ch1 (Suc k) bs =
     (if k < start then Some (bs[Suc k := ch1])
      else do { c \<leftarrow> cc (bs ! k);
                if sint c \<le> sint cc1 then Some (bs[Suc k := ch1])
                else sort_shift cc start cc1 ch1 k (bs[Suc k := bs ! k]) })"

function sort_run :: "(u32 \<Rightarrow> u32 option) \<Rightarrow> nat \<Rightarrow> nat \<Rightarrow> nat \<Rightarrow> u32 list \<Rightarrow> (nat \<times> u32 list) option" where
  "sort_run cc len start j bs =
     (if j < len then
        do { cc1 \<leftarrow> cc (bs ! j);
             if cc1 = 0 then Some (j, bs)
             else do { bs2 \<leftarrow> sort_shift cc start cc1 (bs ! j) j bs; sort_run cc len start (j + 1) bs2 } }
      else Some (j, bs))"
  by pat_completeness auto
termination by (relation "measure (\<lambda>(cc, len, start, j, bs). len - j)") auto

declare sort_run.simps [simp del]

lemma sort_run_ge: "sort_run cc len start j bs = Some (j', bs2) \<Longrightarrow> j \<le> j'"
proof (induction cc len start j bs rule: sort_run.induct)
  case (1 cc len start j bs)
  show ?case
    using "1.prems" "1.IH" unfolding sort_run.simps [of cc len start j bs]
    by (auto simp: bind_eq_Some_conv split: if_splits dest!: Suc_leD)
qed

function sort_cc_loop :: "(u32 \<Rightarrow> u32 option) \<Rightarrow> nat \<Rightarrow> nat \<Rightarrow> u32 list \<Rightarrow> u32 list option" where
  "sort_cc_loop cc len i bs =
     (if i < len then
        case cc (bs ! i) of
          None \<Rightarrow> None
        | Some c \<Rightarrow>
            if c \<noteq> 0 then
              case sort_run cc len i (i + 1) bs of
                None \<Rightarrow> None
              | Some (j, bs) \<Rightarrow> sort_cc_loop cc len (j + 1) bs
            else sort_cc_loop cc len (i + 1) bs
      else Some bs)"
  by pat_completeness auto
termination
  by (relation "measure (\<lambda>(cc, len, i, bs). len - i)") (auto dest: sort_run_ge)

declare sort_cc_loop.simps [simp del]

definition sort_cc :: "norm_tables \<Rightarrow> u32 list \<Rightarrow> u32 list option" where
  "sort_cc T bs = sort_cc_loop (unicode_get_cc T) (length bs) 0 bs"

text \<open>The reference: the maximal runs of characters with a class other than 0, each sorted stably by class.\<close>

function canonical_order :: "(u32 \<Rightarrow> u32) \<Rightarrow> u32 list \<Rightarrow> u32 list" where
  "canonical_order f [] = []"
| "canonical_order f (x # xs) =
     (if f x = 0 then x # canonical_order f xs
      else sort_key (\<lambda>c. sint (f c)) (takeWhile (\<lambda>c. f c \<noteq> 0) (x # xs)) @
           canonical_order f (dropWhile (\<lambda>c. f c \<noteq> 0) (x # xs)))"
  by pat_completeness auto
termination by (relation "measure (\<lambda>(f, xs). length xs)") (auto simp: less_Suc_eq_le length_dropWhile_le)

declare canonical_order.simps(2) [simp del]

lemma sort_key_snoc:
  "sort_key key (xs @ [x]) =
     filter (\<lambda>y. key y \<le> key x) (sort_key key xs) @ x # filter (\<lambda>y. key x < key y) (sort_key key xs)"
proof (rule properties_for_sort_key)
  show "mset (filter (\<lambda>y. key y \<le> key x) (sort_key key xs) @ x # filter (\<lambda>y. key x < key y) (sort_key key xs)) = mset (xs @ [x])"
  proof -
    have "filter_mset (\<lambda>y. key x < key y) (mset xs) = filter_mset (\<lambda>y. \<not> key y \<le> key x) (mset xs)"
      by (rule filter_mset_cong) auto
    then show ?thesis using multiset_partition [of "mset xs" "\<lambda>y. key y \<le> key x"] by simp
  qed
  show "filter (\<lambda>z. key k = key z) (filter (\<lambda>y. key y \<le> key x) (sort_key key xs) @ x # filter (\<lambda>y. key x < key y) (sort_key key xs)) =
      filter (\<lambda>z. key k = key z) (xs @ [x])" if "k \<in> set (filter (\<lambda>y. key y \<le> key x) (sort_key key xs) @ x # filter (\<lambda>y. key x < key y) (sort_key key xs))" for k
  proof -
    have s: "filter (\<lambda>z. key k = key z) (sort_key key xs) = filter (\<lambda>z. key k = key z) xs"
      unfolding eq_commute [of "key k"] by (rule sort_key_stable)
    show ?thesis
    proof (cases "key k \<le> key x")
      case True
      then have "filter (\<lambda>z. key k = key z) (filter (\<lambda>y. key x < key y) (sort_key key xs)) = []"
        by (auto simp: filter_empty_conv)
      moreover have "filter (\<lambda>z. key k = key z) (filter (\<lambda>y. key y \<le> key x) (sort_key key xs)) = filter (\<lambda>z. key k = key z) (sort_key key xs)"
        using True by (auto intro!: filter_cong simp: filter_filter)
      ultimately show ?thesis using s by (auto simp: filter_empty_conv)
    next
      case False
      then have "filter (\<lambda>z. key k = key z) (filter (\<lambda>y. key y \<le> key x) (sort_key key xs)) = []"
        by (auto simp: filter_empty_conv)
      moreover have "filter (\<lambda>z. key k = key z) (filter (\<lambda>y. key x < key y) (sort_key key xs)) = filter (\<lambda>z. key k = key z) (sort_key key xs)"
        using False by (auto intro!: filter_cong simp: filter_filter)
      ultimately show ?thesis using s False by auto
    qed
  qed
  show "sorted (map key (filter (\<lambda>y. key y \<le> key x) (sort_key key xs) @ x # filter (\<lambda>y. key x < key y) (sort_key key xs)))"
    using sorted_sort_key [of key xs] by (auto simp: sorted_append sorted_filter)
qed

text \<open>The shift inserts an element behind the elements of the sorted run with a class that is not larger.\<close>

lemma sort_shift_inserts:
  assumes "\<forall>c\<in>set S. cc c = Some (f c)" "sorted (map (\<lambda>c. sint (f c)) S)"
  shows "sort_shift cc (length P) (f x) x (length P + length S) (P @ S @ z # R) =
    Some (P @ (filter (\<lambda>y. sint (f y) \<le> sint (f x)) S @ x # filter (\<lambda>y. sint (f x) < sint (f y)) S) @ R)"
  using assms
proof (induction S arbitrary: z R rule: rev_induct)
  case Nil
  then show ?case by (cases P rule: rev_cases) (auto simp: list_update_append)
next
  case (snoc y S)
  have n: "(P @ S @ [y] @ z # R) ! (length P + length S) = y" by (simp add: nth_append)
  have u: "(P @ S @ [y] @ z # R)[Suc (length P + length S) := v] = P @ S @ [y] @ v # R" for v
    by (simp add: list_update_append)
  have s: "sorted (map (\<lambda>c. sint (f c)) S)" "\<forall>c\<in>set S. sint (f c) \<le> sint (f y)"
    using snoc.prems(2) by (auto simp: sorted_append)
  show ?case
  proof (cases "sint (f y) \<le> sint (f x)")
    case True
    then have all: "filter (\<lambda>y. sint (f y) \<le> sint (f x)) S = S" "filter (\<lambda>y. sint (f x) < sint (f y)) S = []"
      using s(2) by (auto simp: filter_id_conv filter_empty_conv)
    show ?thesis using snoc.prems(1) True n u all by simp
  next
    case False
    have "sort_shift cc (length P) (f x) x (length P + length S) (P @ S @ y # y # R) =
      Some (P @ (filter (\<lambda>y. sint (f y) \<le> sint (f x)) S @ x # filter (\<lambda>y. sint (f x) < sint (f y)) S) @ y # R)"
      using snoc.IH [of y "y # R"] snoc.prems(1) s(1) by simp
    then show ?thesis using snoc.prems(1) False n u by simp
  qed
qed

lemma sort_run_sorts:
  assumes "\<forall>c\<in>set (S @ R). cc c = Some (f c)" "len = length P + length S + length R"
  shows "sort_run cc len (length P) (length P + length S) (P @ sort_key (\<lambda>c. sint (f c)) S @ R) =
    (let run = takeWhile (\<lambda>c. f c \<noteq> 0) R
     in Some (length P + length S + length run,
          P @ sort_key (\<lambda>c. sint (f c)) (S @ run) @ dropWhile (\<lambda>c. f c \<noteq> 0) R))"
  using assms
proof (induction R arbitrary: S)
  case Nil
  then show ?case by (simp add: sort_run.simps)
next
  case (Cons x R)
  let ?k = "\<lambda>c. sint (f c)"
  have n: "(P @ sort_key ?k S @ x # R) ! (length P + length S) = x" by (simp add: nth_append)
  show ?case
  proof (cases "f x = 0")
    case True
    then show ?thesis using Cons.prems n by (simp add: sort_run.simps)
  next
    case False
    have "sort_shift cc (length P) (f x) x (length P + length (sort_key ?k S)) (P @ sort_key ?k S @ x # R) =
        Some (P @ sort_key ?k (S @ [x]) @ R)"
      unfolding sort_key_snoc by (rule sort_shift_inserts) (use Cons.prems(1) in auto)
    then have sh: "sort_shift cc (length P) (f x) x (length P + length S) (P @ sort_key ?k S @ x # R) =
        Some (P @ sort_key ?k (S @ [x]) @ R)" by simp
    have "sort_run cc len (length P) (length P + length (S @ [x])) (P @ sort_key ?k (S @ [x]) @ R) =
      (let run = takeWhile (\<lambda>c. f c \<noteq> 0) R
       in Some (length P + length (S @ [x]) + length run,
            P @ sort_key ?k ((S @ [x]) @ run) @ dropWhile (\<lambda>c. f c \<noteq> 0) R))"
      by (rule Cons.IH) (use Cons.prems in auto)
    then show ?thesis using Cons.prems False n sh by (simp add: sort_run.simps [of _ _ _ "length P + length S"] Let_def)
  qed
qed

lemma sort_cc_loop_order:
  assumes "\<forall>c\<in>set R. cc c = Some (f c)" "len = length P + length R"
  shows "sort_cc_loop cc len (length P) (P @ R) = Some (P @ canonical_order f R)"
  using assms
proof (induction "length R" arbitrary: P R rule: less_induct)
  case less
  show ?case
  proof (cases R)
    case Nil
    then show ?thesis using less.prems by (simp add: sort_cc_loop.simps)
  next
    case (Cons x R')
    show ?thesis
    proof (cases "f x = 0")
      case True
      have "sort_cc_loop cc len (length (P @ [x])) ((P @ [x]) @ R') = Some ((P @ [x]) @ canonical_order f R')"
        by (rule less.hyps) (use less.prems Cons in auto)
      then show ?thesis using less.prems Cons True by (simp add: sort_cc_loop.simps [of _ _ "length P"] canonical_order.simps)
    next
      case False
      let ?run = "takeWhile (\<lambda>c. f c \<noteq> 0) R'" and ?rest = "dropWhile (\<lambda>c. f c \<noteq> 0) R'"
      let ?Q = "P @ sort_key (\<lambda>c. sint (f c)) (x # ?run)"
      have r: "sort_run cc len (length P) (length P + 1) (P @ x # R') = Some (length P + 1 + length ?run, ?Q @ ?rest)"
        using sort_run_sorts [of "[x]" R' cc f len P] less.prems Cons by (simp add: Let_def)
      have l: "length ?Q = length P + 1 + length ?run" by simp
      show ?thesis
      proof (cases ?rest)
        case Nil
        have "\<not> length P + 1 + length ?run + 1 < len" using less.prems(2) Cons Nil
          by (simp add: dropWhile_eq_Nil_conv takeWhile_eq_all_conv [THEN iffD2])
        moreover have "canonical_order f ?rest = []" unfolding Nil by simp
        ultimately show ?thesis using less.prems Cons False r Nil
          by (simp add: sort_cc_loop.simps [of _ _ "length P"] sort_cc_loop.simps [of _ _ "Suc (Suc (length P + length ?run))"]
              canonical_order.simps del: dropWhile_eq_Nil_conv)
      next
        case (Cons y ys)
        have y: "f y = 0" using Cons dropWhile_eq_Cons_conv [of "\<lambda>c. f c \<noteq> 0" R' y ys] by simp
        have sp: "R' = ?run @ y # ys" using takeWhile_dropWhile_id [of "\<lambda>c. f c \<noteq> 0" R'] Cons by simp
        have "length R' = length (?run @ y # ys)" "set R' = set (?run @ y # ys)"
          using arg_cong [OF sp, of length] arg_cong [OF sp, of set] .
        then have "length ys < length R" "len = length (?Q @ [y]) + length ys" "set ys \<subseteq> set R"
          using less.prems(2) \<open>R = x # R'\<close> unfolding length_append set_append length_sort by auto
        note len = this
        have "sort_cc_loop cc len (length (?Q @ [y])) ((?Q @ [y]) @ ys) = Some ((?Q @ [y]) @ canonical_order f ys)"
          using less.hyps [OF len(1) _ len(2)] less.prems(1) len(3) by blast
        then show ?thesis using less.prems \<open>R = x # R'\<close> False r Cons y
          by (simp add: sort_cc_loop.simps [of _ _ "length P"] canonical_order.simps)
      qed
    qed
  qed
qed

text \<open>
  C39 (equivalence): \<open>sort_cc\<close>, which shifts elements inside the array, computes the canonical ordering of the
  Unicode standard: every maximal run of characters with a combining class other than 0 is sorted by class,
  stably, and the other characters keep their places. It reads and writes inside the array only.
\<close>

theorem sort_cc_canonical:
  assumes "\<forall>c\<in>set bs. unicode_get_cc T c = Some (f c)"
  shows "sort_cc T bs = Some (canonical_order f bs)"
  using sort_cc_loop_order [of bs "unicode_get_cc T" f "length bs" "[]"] assms by (simp add: sort_cc_def)

text \<open>A small table: class 0 up to 9, class 220 for 10, class 230 for 11.\<close>

definition ex_norm :: norm_tables where
  "ex_norm = \<lparr>unicode_decomp_table1 = [], unicode_decomp_table2 = [], unicode_decomp_data = [], unicode_comp_table = [],
     unicode_cc_table = [0x89, 0, 220, 0xc0], unicode_cc_index = [0, 4, 0]\<rparr>"

theorem sort_cc_canonical_witness: "sort_cc ex_norm [5, 11, 10, 6] = Some [5, 10, 11, 6]"
proof -
  let ?f = "\<lambda>c :: u32. if c = 10 then 220 else if c = 11 then 230 else 0 :: u32"
  have "\<forall>c\<in>set [5, 11, 10, 6]. unicode_get_cc ex_norm c = Some (?f c)"
    by (simp add: unicode_get_cc_def get_index_pos_def get_le24_def ex_norm_def index_code_def cc_entry_def Let_def)
  from sort_cc_canonical [OF this] show ?thesis by (simp add: canonical_order.simps)
qed

end
