(* ===== verification/Normalize.thy ===== *)
theory Normalize
  imports UnicodeNorm
begin

text \<open>
  \<open>to_nfd_rec\<close> and \<open>unicode_normalize\<close> of \<open>qjs/libunicode.c\<close>: recursive decomposition into a dynamic buffer,
  canonical ordering, and composition in place. The depth of the recursion depends on the tables and is bounded
  by fuel; \<open>None\<close> is a read outside a table, a write outside the buffer, or fuel that ran out.
\<close>

definition put32 :: "'o DynBuf \<Rightarrow> u32 \<Rightarrow> 'o DynBuf option" where
  "put32 d v = map_option snd (dbuf_put_u32 d v)"

fun to_nfd_rec :: "nat \<Rightarrow> norm_tables \<Rightarrow> bool \<Rightarrow> u32 list \<Rightarrow> 'o DynBuf \<Rightarrow> 'o DynBuf option" where
  "to_nfd_rec k T is_compat [] d = Some d"
| "to_nfd_rec 0 T is_compat (c # cs) d = None"
| "to_nfd_rec (Suc k) T is_compat (c # cs) d =
     do { d \<leftarrow>
            (if c \<ge> 0xac00 \<and> c < 0xd7a4 then
               let c = c - 0xac00; v = c mod 28
               in do { d \<leftarrow> put32 d (0x1100 + c div 588);
                       d \<leftarrow> put32 d (0x1161 + (c mod 588) div 28);
                       if v \<noteq> 0 then put32 d (0x11a7 + v) else Some d }
             else
               do { res \<leftarrow> unicode_decomp_char T c is_compat;
                    if res \<noteq> [] then to_nfd_rec k T is_compat res d else put32 d c });
          to_nfd_rec (Suc k) T is_compat cs d }"

text \<open>The 32-bit integers in the buffer.\<close>

fun ints_of :: "u8 list \<Rightarrow> u32 list" where
  "ints_of (a # b # c # d # bs) = le_value [a, b, c, d] # ints_of bs"
| "ints_of _ = []"

text \<open>The search for the starter of the character at \<open>i\<close>, from \<open>out_len - 1\<close> downwards.\<close>

datatype starter = Blocked | NoStarter | Starter nat

fun find_starter :: "(u32 \<Rightarrow> u32 option) \<Rightarrow> u32 list \<Rightarrow> u32 \<Rightarrow> nat \<Rightarrow> starter option" where
  "find_starter cc bs last_cc 0 = Some NoStarter"
| "find_starter cc bs last_cc (Suc pos) =
     do { b \<leftarrow> rd bs pos;
          c \<leftarrow> cc b;
          if c = 0 then Some (Starter pos)
          else if sint c \<ge> sint last_cc then Some Blocked
          else find_starter cc bs 256 pos }"

fun compose_loop :: "norm_tables \<Rightarrow> nat \<Rightarrow> nat \<Rightarrow> nat \<Rightarrow> u32 list \<Rightarrow> (nat \<times> u32 list) option" where
  "compose_loop T 0 i out_len bs = Some (out_len, bs)"
| "compose_loop T (Suc n) i out_len bs =
     do { x \<leftarrow> rd bs i;
          last_cc \<leftarrow> unicode_get_cc T x;
          s \<leftarrow> find_starter (unicode_get_cc T) bs last_cc out_len;
          p \<leftarrow> (case s of Starter pos \<Rightarrow> do { b \<leftarrow> rd bs pos; compose_pair T b x } | _ \<Rightarrow> Some 0);
          case s of
            Starter pos \<Rightarrow>
              if p \<noteq> 0 then compose_loop T n (i + 1) out_len (bs[pos := p])
              else compose_loop T n (i + 1) (out_len + 1) (bs[out_len := x])
          | _ \<Rightarrow> compose_loop T n (i + 1) (out_len + 1) (bs[out_len := x]) }"

text \<open>
  \<open>unicode_normalize\<close>; the forms are NFC 0, NFD 1, NFKC 2, NFKD 3. The result is the return value and the
  destination array, empty for the null pointer.
\<close>

definition unicode_normalize ::
  "nat \<Rightarrow> norm_tables \<Rightarrow> 'o DynBufReallocFunc \<Rightarrow> 'o \<Rightarrow> 'o DynBufReallocFunc option \<Rightarrow> u32 list \<Rightarrow> nat \<Rightarrow> (int \<times> u32 list) option" where
  "unicode_normalize k T dflt opq f src n_type =
     (let is_compat = (n_type div 2 \<noteq> 0)
      in do { (r, d) \<leftarrow> dbuf_realloc (dbuf_init2 dflt opq f) (of_nat (4 * length src));
              if r \<noteq> 0 then Some (-1, [])
              else if n_type = 0 \<and> list_all (\<lambda>c. c < 0x100) src then Some (int (length src), src)
              else do { d \<leftarrow> to_nfd_rec k T is_compat src d;
                        if dbuf_error d then Some (-1, [])
                        else let bs = ints_of (take (unat (bsize d)) (case buf d of Some b \<Rightarrow> b | None \<Rightarrow> []))
                             in do { bs \<leftarrow> sort_cc T bs;
                                     if length bs \<le> 1 \<or> odd n_type then Some (int (length bs), bs)
                                     else do { (n, bs) \<leftarrow> compose_loop T (length bs - 1) 1 1 bs;
                                               Some (int n, take n bs) } } } })"

subsection \<open>Hangul syllables\<close>

lemma syllable_parts:
  fixes c :: u32
  assumes "c < 11172"
  shows "c div 588 < 19" "(c mod 588) div 28 < 21" "c mod 28 < 28"
    "(c div 588) * 588 + ((c mod 588) div 28) * 28 + c mod 28 = c"
proof -
  have u: "unat c < 11172" using assms by (simp add: word_less_nat_alt)
  then show "c div 588 < 19" "(c mod 588) div 28 < 21" "c mod 28 < 28"
    by (simp_all add: word_less_nat_alt unat_div unat_mod)
  have "(unat c div 588) * 588 + ((unat c mod 588) div 28) * 28 + unat c mod 28 = unat c"
  proof -
    have "unat c mod 588 mod 28 = unat c mod 28" by (rule mod_mod_cancel) simp
    then show ?thesis using div_mult_mod_eq [of "unat c" 588] div_mult_mod_eq [of "unat c mod 588" 28] by linarith
  qed
  then have "unat c = unat ((c div 588) * 588 + ((c mod 588) div 28) * 28 + c mod 28)"
    using u by (simp add: unat_word_ariths unat_div unat_mod)
  then show "(c div 588) * 588 + ((c mod 588) div 28) * 28 + c mod 28 = c" by (simp only: word_unat_eq_iff)
qed

lemma offset_range:
  fixes a x n :: u32
  assumes "x < n" "unat a + unat n < 2 ^ 32"
  shows "a \<le> a + x" "a + x < a + n"
  using assms by (simp_all add: word_le_nat_alt word_less_nat_alt unat_word_ariths)

text \<open>
  The arithmetic decomposition of the Hangul syllables is undone by composition. For every code
  point of a syllable, composing the leading consonant and the vowel that \<open>to_nfd_rec\<close> emits, and then the
  trailing consonant if there is one, gives the code point back, whatever the tables contain.
\<close>

lemma hangul_roundtrip:
  assumes "0xac00 \<le> c" and "c < 0xd7a4"
  shows "let d = c - 0xac00; lv = c - d mod 28
    in compose_pair T (0x1100 + d div 588) (0x1161 + (d mod 588) div 28) = Some lv \<and>
       (if d mod 28 = 0 then lv = c else compose_pair T lv (0x11a7 + d mod 28) = Some c)"
proof -
  define d where "d = c - 0xac00"
  have c: "c = 0xac00 + d" by (simp add: d_def)
  have d: "d < 11172" using assms by (simp add: d_def word_less_nat_alt word_le_nat_alt unat_sub)
  note p = syllable_parts [OF d]
  let ?l = "d div 588" and ?v = "(d mod 588) div 28" and ?t = "d mod 28"
  have lv: "c - ?t = 0xac00 + ?l * 588 + ?v * 28" using p(4) c by (simp add: algebra_simps)
  have r1: "compose_pair T (0x1100 + ?l) (0x1161 + ?v) = Some (c - ?t)"
    using offset_range [where a = "0x1100", OF p(1)] offset_range [where a = "0x1161", OF p(2)] by (simp add: compose_pair_def lv)
  have dv: "d - ?t < 11172" "(d - ?t) mod 28 = 0"
  proof -
    have "?t \<le> d" by (simp add: word_le_nat_alt unat_mod)
    then have u: "unat (d - ?t) = unat d - unat d mod 28" by (simp add: unat_sub unat_mod)
    then show "d - ?t < 11172" using d by (simp add: word_less_nat_alt)
    show "(d - ?t) mod 28 = 0" by (simp add: word_unat_eq_iff unat_mod u)
  qed
  have "0xac00 + (d - ?t) < 0x1100 + 19 \<Longrightarrow> False"
    using dv(1) by (simp add: word_less_nat_alt unat_word_ariths)
  then have n: "\<not> 0xac00 + (d - ?t) < 0x1113" by auto
  have "compose_pair T (c - ?t) (0x11a7 + ?t) = Some c"
    using offset_range [where a = "0xac00", OF dv(1)] offset_range [where a = "0x11a7", OF p(3)] dv(2) n
    by (simp add: compose_pair_def c add_diff_eq [symmetric])
  then show ?thesis using r1 by (simp add: Let_def d_def)
qed

lemma hangul_roundtrip_witness:
  "compose_pair ex_norm 0x1112 0x1161 = Some 0xd558 \<and> compose_pair ex_norm 0xd558 0x11ab = Some 0xd55c"
  using hangul_roundtrip [of "0xd55c" ex_norm] by (simp add: Let_def)

end
