(* ===== verification/Mpn.thy ===== *)
theory Mpn
  imports Prelude
begin

text \<open>
  The arithmetic on arrays of limbs of \<open>qjs/libbf.c\<close>: addition, subtraction, negation, shift and multiplication. A
  limb has 64 bits, a double limb 128. An array of \<open>n\<close> limbs is a list, least significant limb first; the loops run
  along the arrays, so the result may be stored in place of an operand, and the model returns the array
  that is written. Carries and borrows are computed by comparing wrapped sums, as in the source.
\<close>

type_synonym limb = u64
type_synonym dlimb = "128 word"

abbreviation (input) LIMB_BITS :: nat where
  "LIMB_BITS \<equiv> 64"

definition BASE :: nat where
  "BASE = 2 ^ 64"

text \<open>The number an array stands for.\<close>

fun val :: "limb list \<Rightarrow> nat" where
  "val [] = 0"
| "val (x # xs) = unat x + BASE * val xs"

subsection \<open>Operations\<close>

fun mp_add :: "limb list \<Rightarrow> limb list \<Rightarrow> limb \<Rightarrow> limb list \<times> limb" where
  "mp_add (v # op1) (w # op2) k =
     (let a = v + w;
          k1 = a < v;
          a = a + k;
          k = (if a < k \<or> k1 then 1 else 0);
          (res, k) = mp_add op1 op2 k
      in (a # res, k))"
| "mp_add op1 op2 k = ([], k)"

fun mp_add_ui :: "limb list \<Rightarrow> limb \<Rightarrow> limb list \<times> limb" where
  "mp_add_ui [] k = ([], k)"
| "mp_add_ui (t # tab) k =
     (if k = 0 then (t # tab, k)
      else let a = t + k; k = (if a < k then 1 else 0); (tab, k) = mp_add_ui tab k in (a # tab, k))"

fun mp_sub :: "limb list \<Rightarrow> limb list \<Rightarrow> limb \<Rightarrow> limb list \<times> limb" where
  "mp_sub (v # op1) (w # op2) k =
     (let a = v - w;
          k1 = a > v;
          v = a - k;
          k = (if v > a \<or> k1 then 1 else 0);
          (res, k) = mp_sub op1 op2 k
      in (v # res, k))"
| "mp_sub op1 op2 k = ([], k)"

fun mp_neg :: "limb list \<Rightarrow> limb \<Rightarrow> limb list \<times> limb" where
  "mp_neg [] k = ([], k)"
| "mp_neg (w # op2) k =
     (let v = 0;
          a = v - w;
          k1 = a > v;
          v = a - k;
          k = (if v > a \<or> k1 then 1 else 0);
          (res, k) = mp_neg op2 k
      in (v # res, k))"

fun mp_sub_ui :: "limb list \<Rightarrow> limb \<Rightarrow> limb list \<times> limb" where
  "mp_sub_ui [] k = ([], k)"
| "mp_sub_ui (v # tab) k =
     (let a = v - k; k = (if a > v then 1 else 0)
      in if k = 0 then (a # tab, k) else let (tab, k) = mp_sub_ui tab k in (a # tab, k))"

text \<open>The loop of \<open>mp_shr\<close> runs from the most significant limb down, along the reversed array.\<close>

fun shr_loop :: "limb list \<Rightarrow> nat \<Rightarrow> limb \<Rightarrow> limb list \<times> limb" where
  "shr_loop [] shift l = ([], l)"
| "shr_loop (a # tab) shift l =
     (let (res, l') = shr_loop tab shift a
      in ((drop_bit shift a OR push_bit (LIMB_BITS - shift) l) # res, l'))"

definition mp_shr :: "limb list \<Rightarrow> nat \<Rightarrow> limb \<Rightarrow> (limb list \<times> limb) option" where
  "mp_shr tab shift high =
     (if 1 \<le> shift \<and> shift < LIMB_BITS then
        let (res, l) = shr_loop (rev tab) shift high in Some (rev res, l AND (push_bit shift 1 - 1))
      else None)"

fun mp_mul1 :: "limb list \<Rightarrow> limb \<Rightarrow> limb \<Rightarrow> limb list \<times> limb" where
  "mp_mul1 [] b l = ([], l)"
| "mp_mul1 (a # taba) b l =
     (let t = (ucast a * ucast b + ucast l :: dlimb);
          (tabr, l) = mp_mul1 taba b (ucast (drop_bit LIMB_BITS t))
      in (ucast t # tabr, l))"

fun add_mul1_loop :: "limb list \<Rightarrow> limb list \<Rightarrow> limb \<Rightarrow> limb \<Rightarrow> limb list \<times> limb" where
  "add_mul1_loop (r # tabr) (a # taba) b l =
     (let t = (ucast a * ucast b + ucast l + ucast r :: dlimb);
          (tabr, l) = add_mul1_loop tabr taba b (ucast (drop_bit LIMB_BITS t))
      in (ucast t # tabr, l))"
| "add_mul1_loop tabr taba b l = ([], l)"

definition mp_add_mul1 :: "limb list \<Rightarrow> limb list \<Rightarrow> limb \<Rightarrow> limb list \<times> limb" where
  "mp_add_mul1 tabr taba b = add_mul1_loop tabr taba b 0"

fun sub_mul1_loop :: "limb list \<Rightarrow> limb list \<Rightarrow> limb \<Rightarrow> limb \<Rightarrow> limb list \<times> limb" where
  "sub_mul1_loop (r # tabr) (a # taba) b l =
     (let t = (ucast r - ucast a * ucast b - ucast l :: dlimb);
          (tabr, l) = sub_mul1_loop tabr taba b (ucast (- drop_bit LIMB_BITS t))
      in (ucast t # tabr, l))"
| "sub_mul1_loop tabr taba b l = ([], l)"

definition mp_sub_mul1 :: "limb list \<Rightarrow> limb list \<Rightarrow> limb \<Rightarrow> limb list \<times> limb" where
  "mp_sub_mul1 tabr taba b = sub_mul1_loop tabr taba b 0"

text \<open>Replacing the part of an array from an offset on.\<close>

definition patch :: "limb list \<Rightarrow> nat \<Rightarrow> limb list \<Rightarrow> limb list" where
  "patch xs i ys = take i xs @ ys @ drop (i + length ys) xs"

text \<open>The result array has \<open>op1_size + op2_size\<close> limbs, with any contents before.\<close>

fun mul_loop :: "nat \<Rightarrow> limb list \<Rightarrow> limb list \<Rightarrow> limb list \<Rightarrow> limb list" where
  "mul_loop i op1 [] result = result"
| "mul_loop i op1 (b # op2) result =
     (let (s, r) = mp_add_mul1 (take (length op1) (drop i result)) op1 b
      in mul_loop (Suc i) op1 op2 (patch result i (s @ [r])))"

definition mp_mul_basecase :: "limb list \<Rightarrow> limb list \<Rightarrow> limb list \<Rightarrow> limb list option" where
  "mp_mul_basecase result op1 op2 =
     (case op2 of
        [] \<Rightarrow> None
      | b # op2 \<Rightarrow> let (s, r) = mp_mul1 op1 b 0 in Some (mul_loop 1 op1 op2 (patch result 0 (s @ [r]))))"

subsection \<open>Limbs\<close>

lemma limb_lt: "unat (x::limb) < BASE"
  using unsigned_less [of x, where 'a = nat] by (simp add: BASE_def)

lemma BASE_pos [simp]: "0 < BASE" by (simp add: BASE_def)

lemma val_append: "val (xs @ ys) = val xs + BASE ^ length xs * val ys"
  by (induction xs) (auto simp: algebra_simps)

lemma val_bound: "val xs < BASE ^ length xs"
proof (induction xs)
  case (Cons x xs)
  have "unat x + BASE * val xs < BASE + BASE * val xs" using limb_lt [of x] by simp
  also have "\<dots> \<le> BASE * BASE ^ length xs" using Cons by (metis mult_Suc_right mult_le_mono2 Suc_leI)
  finally show ?case by simp
qed simp

lemma unat_limb_add: "unat (x + y :: limb) = (if unat x + unat y < BASE then unat x + unat y else unat x + unat y - BASE)"
proof -
  have "unat (x + y) = (unat x + unat y) mod BASE" by (simp add: unat_word_ariths(1) BASE_def)
  then show ?thesis using limb_lt [of x] limb_lt [of y] by (simp add: mod_if [of "unat x + unat y"])
qed

lemma unat_limb_sub: "unat (x - y :: limb) = (if unat y \<le> unat x then unat x - unat y else unat x + BASE - unat y)"
proof (cases "unat y \<le> unat x")
  case True
  then show ?thesis by (simp add: unat_sub word_le_nat_alt)
next
  case False
  have "unat (x - y) + unat y < BASE \<Longrightarrow> unat x = unat (x - y) + unat y"
    "\<not> unat (x - y) + unat y < BASE \<Longrightarrow> unat x = unat (x - y) + unat y - BASE"
    using unat_limb_add [of "x - y" y] by simp_all
  then have "unat (x - y) + unat y \<ge> BASE" "unat x + BASE = unat (x - y) + unat y" using False by (cases "unat (x - y) + unat y < BASE"; simp)+
  then show ?thesis using False by simp
qed

text \<open>One step of each loop, as an equation between natural numbers.\<close>

lemma add_limb:
  assumes "unat k \<le> 1"
  shows "unat (v + w + k) + BASE * (if v + w + k < k \<or> v + w < v then 1 else 0) = unat v + unat w + unat (k :: limb)"
  unfolding word_less_nat_alt unat_limb_add [of "v + w"] unat_limb_add [of v w]
  using limb_lt [of v] limb_lt [of w] assms by auto

lemma sub_limb:
  assumes "unat k \<le> 1"
  shows "unat (v - w - k) + unat w + unat (k :: limb) = unat v + BASE * (if v - w < v - w - k \<or> v < v - w then 1 else 0)"
  unfolding word_less_nat_alt unat_limb_sub [of "v - w"] unat_limb_sub [of v w]
  using limb_lt [of v] limb_lt [of w] limb_lt [of k] assms by auto

lemma add_ui_limb: "unat (t + k) + BASE * (if t + k < k then 1 else 0) = unat t + unat (k :: limb)"
  unfolding word_less_nat_alt unat_limb_add using limb_lt [of t] limb_lt [of k] by auto

lemma sub_ui_limb: "unat (v - k) + unat (k :: limb) = unat v + BASE * (if v < v - k then 1 else 0)"
  unfolding word_less_nat_alt unat_limb_sub using limb_lt [of v] limb_lt [of k] by auto

text \<open>A double limb splits into its halves.\<close>

lemma dlimb_lt: "unat (t :: dlimb) < BASE * BASE"
  using unsigned_less [of t, where 'a = nat] by (simp add: BASE_def power2_eq_square)

lemma unat_ucast_dlimb [simp]: "unat (ucast (x :: limb) :: dlimb) = unat x"
  by (simp add: unsigned_ucast_eq take_bit_nat_eq_self_iff less_trans [OF limb_lt] BASE_def)

lemma unat_dlimb_of_nat: "n < BASE * BASE \<Longrightarrow> unat (of_nat n :: dlimb) = n"
  by (simp add: unsigned_of_nat take_bit_nat_eq_self_iff BASE_def)

lemma dlimb_halves:
  "unat (ucast t :: limb) = unat (t :: dlimb) mod BASE" "unat (ucast (drop_bit 64 t) :: limb) = unat t div BASE"
proof -
  show "unat (ucast t :: limb) = unat (t :: dlimb) mod BASE" by (simp add: unsigned_ucast_eq take_bit_eq_mod BASE_def)
  have "unat (drop_bit 64 t) = unat t div BASE" unfolding unsigned_drop_bit_eq
    using dlimb_lt [of t] by (subst take_bit_nat_eq_self) (simp_all add: drop_bit_eq_div BASE_def)
  moreover have "unat t div BASE < BASE" using dlimb_lt [of t] by (simp add: less_mult_imp_div_less)
  ultimately show "unat (ucast (drop_bit 64 t) :: limb) = unat t div BASE"
    by (simp add: unsigned_ucast_eq take_bit_nat_eq_self_iff BASE_def)
qed

text \<open>A carry between two limbs.\<close>

lemma carry_up:
  fixes a B r P c x y k v w k0 :: nat
  assumes "r + P * c = x + y + k" "a + B * k = v + w + k0"
  shows "(a + B * r) + B * P * c = (v + B * x) + (w + B * y) + k0"
proof -
  have "B * (r + P * c) = B * (x + y + k)" by (simp add: assms(1))
  then show ?thesis using assms(2) by (simp add: distrib_left mult.assoc)
qed

subsection \<open>Addition and subtraction\<close>

lemma mp_add_val:
  assumes "length op1 = length op2" "unat k \<le> 1" "mp_add op1 op2 k = (res, c)"
  shows "val res + BASE ^ length op1 * unat c = val op1 + val op2 + unat k \<and> length res = length op1 \<and> unat c \<le> 1"
  using assms
proof (induction op1 op2 k arbitrary: res c rule: mp_add.induct)
  case (1 v op1 w op2 k)
  let ?k = "if v + w + k < k \<or> v + w < v then 1 else 0 :: limb"
  obtain r where r: "mp_add op1 op2 ?k = (r, c)" "res = (v + w + k) # r"
    using "1.prems"(3) by (auto simp: Let_def split: prod.splits)
  have "val r + BASE ^ length op1 * unat c = val op1 + val op2 + unat ?k \<and> length r = length op1 \<and> unat c \<le> 1"
    using "1.IH" [OF refl refl refl refl _ _ r(1)] "1.prems"(1) by simp
  moreover have "unat (v + w + k) + BASE * unat ?k = unat v + unat w + unat k"
    using add_limb [OF "1.prems"(2), of v w] by (auto split: if_splits)
  ultimately show ?case
    using r(2) carry_up [of "val r" "BASE ^ length op1" "unat c" "val op1" "val op2" "unat ?k" "unat (v + w + k)" BASE] by simp
qed auto

lemma mp_sub_val:
  assumes "length op1 = length op2" "unat k \<le> 1" "mp_sub op1 op2 k = (res, c)"
  shows "val res + val op2 + unat k = val op1 + BASE ^ length op1 * unat c \<and> length res = length op1 \<and> unat c \<le> 1"
  using assms
proof (induction op1 op2 k arbitrary: res c rule: mp_sub.induct)
  case (1 v op1 w op2 k)
  let ?k = "if v - w < v - w - k \<or> v < v - w then 1 else 0 :: limb"
  obtain r where r: "mp_sub op1 op2 ?k = (r, c)" "res = (v - w - k) # r"
    using "1.prems"(3) by (auto simp: Let_def split: prod.splits)
  have "val r + val op2 + unat ?k = val op1 + BASE ^ length op1 * unat c \<and> length r = length op1 \<and> unat c \<le> 1"
    using "1.IH" [OF refl refl refl refl _ _ r(1)] "1.prems"(1) by simp
  moreover have "unat (v - w - k) + unat w + unat k = unat v + BASE * unat ?k"
    using sub_limb [OF "1.prems"(2), of v w] by (auto split: if_splits)
  ultimately show ?case
    using r(2) carry_up [of "val op1" "BASE ^ length op1" "unat c" "val r" "val op2" "unat ?k" "unat v" BASE
        "unat (v - w - k)" "unat w" "unat k"] by simp
qed auto

lemma mp_neg_sub: "mp_neg op2 k = mp_sub (replicate (length op2) 0) op2 k"
  by (induction op2 arbitrary: k) (simp_all add: Let_def)

lemma val_zeros [simp]: "val (replicate n 0) = 0"
  by (induction n) simp_all

lemma mp_neg_val:
  assumes "unat k \<le> 1" "mp_neg op2 k = (res, c)"
  shows "val res + val op2 + unat k = BASE ^ length op2 * unat c \<and> length res = length op2 \<and> unat c \<le> 1"
  using mp_sub_val [of "replicate (length op2) 0" op2 k res c] assms by (simp add: mp_neg_sub)

lemma mp_add_ui_val:
  "mp_add_ui tab k = (res, c) \<Longrightarrow> val res + BASE ^ length tab * unat c = val tab + unat k \<and> length res = length tab"
proof (induction tab k arbitrary: res c rule: mp_add_ui.induct)
  case (2 t tab k)
  show ?case
  proof (cases "k = 0")
    case False
    let ?k = "if t + k < k then 1 else 0 :: limb"
    obtain r where r: "mp_add_ui tab ?k = (r, c)" "res = (t + k) # r"
      using "2.prems" False by (auto simp: Let_def split: prod.splits)
    have "val r + BASE ^ length tab * unat c = val tab + unat ?k \<and> length r = length tab"
      using "2.IH" [OF False refl refl r(1)] .
    moreover have "unat (t + k) + BASE * unat ?k = unat t + unat k" using add_ui_limb [of t k] by (auto split: if_splits)
    ultimately show ?thesis
      using r(2) carry_up [of "val r" "BASE ^ length tab" "unat c" "val tab" 0 "unat ?k" "unat (t + k)" BASE "unat t" 0 "unat k"]
      by simp
  qed (use "2.prems" in auto)
qed auto

lemma mp_sub_ui_val:
  "mp_sub_ui tab k = (res, c) \<Longrightarrow> val res + unat k = val tab + BASE ^ length tab * unat c \<and> length res = length tab"
proof (induction tab k arbitrary: res c rule: mp_sub_ui.induct)
  case (2 v tab k)
  show ?case
  proof (cases "v < v - k")
    case True
    obtain r where r: "mp_sub_ui tab 1 = (r, c)" "res = (v - k) # r"
      using "2.prems" True by (auto simp: Let_def split: prod.splits)
    have "val r + unat (1 :: limb) = val tab + BASE ^ length tab * unat c \<and> length r = length tab"
      using "2.IH" [of "v - k" 1 r c] r(1) True by simp
    moreover have "unat (v - k) + unat k = unat v + BASE" using sub_ui_limb [of v k] True by simp
    ultimately show ?thesis
      using r(2) carry_up [of "val tab" "BASE ^ length tab" "unat c" "val r" 0 1 "unat v" BASE "unat (v - k)" 0 "unat k"] by simp
  next
    case False
    then show ?thesis using "2.prems" sub_ui_limb [of v k] by (auto simp: Let_def)
  qed
qed auto

subsection \<open>Multiplication by a limb\<close>

lemma mul_limb_bound: "unat (a :: limb) * unat (b :: limb) + unat (l :: limb) + unat (r :: limb) < BASE * BASE"
proof -
  have "unat a * unat b \<le> (BASE - 1) * (BASE - 1)" using limb_lt [of a] limb_lt [of b] by (intro mult_le_mono) auto
  moreover have "unat l + unat r \<le> 2 * (BASE - 1)" using limb_lt [of l] limb_lt [of r] by linarith
  moreover have "(BASE - 1) * (BASE - 1) + 2 * (BASE - 1) < BASE * BASE" by (simp add: BASE_def)
  ultimately show ?thesis by linarith
qed

lemma mul_limb:
  "unat (ucast a * ucast b + ucast l + ucast r :: dlimb) = unat (a :: limb) * unat (b :: limb) + unat (l :: limb) + unat (r :: limb)"
proof -
  have "(ucast a * ucast b + ucast l + ucast r :: dlimb) = of_nat (unat a * unat b + unat l + unat r)"
    by simp
  then show ?thesis by (simp only: unat_dlimb_of_nat [OF mul_limb_bound])
qed

lemma mp_mul1_val:
  "mp_mul1 taba b l = (res, h) \<Longrightarrow> val res + BASE ^ length taba * unat h = val taba * unat b + unat l \<and> length res = length taba"
proof (induction taba b l arbitrary: res h rule: mp_mul1.induct)
  case (2 a taba b l)
  define t where "t = (ucast a * ucast b + ucast l :: dlimb)"
  obtain r where r: "mp_mul1 taba b (ucast (drop_bit 64 t)) = (r, h)" "res = ucast t # r"
    using "2.prems" by (auto simp: Let_def t_def split: prod.splits)
  have "val r + BASE ^ length taba * unat h = val taba * unat b + unat t div BASE \<and> length r = length taba"
    using "2.IH" [OF refl] r(1) dlimb_halves(2) [of t] unfolding t_def by simp
  moreover have "unat t mod BASE + BASE * (unat t div BASE) = unat a * unat b + unat l"
    using mul_limb [of a b l 0] by (simp add: t_def)
  ultimately show ?case
    using r(2) carry_up [of "val r" "BASE ^ length taba" "unat h" "val taba * unat b" 0 "unat t div BASE" "unat t mod BASE" BASE
        "unat a * unat b" 0 "unat l"] by (simp add: dlimb_halves(1) algebra_simps)
qed auto

lemma add_mul1_val:
  assumes "length tabr = length taba" "add_mul1_loop tabr taba b l = (res, h)"
  shows "val res + BASE ^ length taba * unat h = val tabr + val taba * unat b + unat l \<and> length res = length taba"
  using assms
proof (induction tabr taba b l arbitrary: res h rule: add_mul1_loop.induct)
  case (1 x tabr a taba b l)
  define t where "t = (ucast a * ucast b + ucast l + ucast x :: dlimb)"
  obtain r where r: "add_mul1_loop tabr taba b (ucast (drop_bit 64 t)) = (r, h)" "res = ucast t # r"
    using "1.prems" by (auto simp: Let_def t_def split: prod.splits)
  have "val r + BASE ^ length taba * unat h = val tabr + val taba * unat b + unat t div BASE \<and> length r = length taba"
    using "1.IH" [OF refl, of r h] r(1) dlimb_halves(2) [of t] "1.prems"(1) unfolding t_def by simp
  moreover have "unat t mod BASE + BASE * (unat t div BASE) = unat x + unat a * unat b + unat l"
    using mul_limb [of a b l x] by (simp add: t_def)
  ultimately show ?case
    using r(2) carry_up [of "val r" "BASE ^ length taba" "unat h" "val tabr" "val taba * unat b" "unat t div BASE"
        "unat t mod BASE" BASE "unat x" "unat a * unat b" "unat l"] by (simp add: dlimb_halves(1) algebra_simps)
qed auto

text \<open>The subtraction works in 128 bits; the borrow is the negated high half.\<close>

lemma dlimb_neg_low:
  assumes "unat (x :: dlimb) < BASE"
  shows "unat (ucast (- x) :: limb) = (if unat x = 0 then 0 else BASE - unat x)"
proof (cases "unat x = 0")
  case False
  have "- x = of_nat (BASE * BASE - unat x)"
    using assms by (simp add: BASE_def of_nat_diff)
  then have "unat (- x) = BASE * BASE - unat x"
    using False by (simp only:) (rule unat_dlimb_of_nat, use assms BASE_pos in \<open>simp add: BASE_def\<close>)
  also have "\<dots> = (BASE - unat x) + BASE * (BASE - 1)" using assms by (simp add: BASE_def)
  finally have "unat (- x) mod BASE = BASE - unat x"
    using False by (simp only: mod_mult_self2) (simp add: mod_less)
  then show ?thesis using False by (simp add: dlimb_halves(1))
qed (simp add: unat_eq_0)

lemma sub_mul_limb:
  fixes r a b l :: limb
  defines "t \<equiv> (ucast r - ucast a * ucast b - ucast l :: dlimb)"
  shows "unat r + BASE * unat (ucast (- drop_bit 64 t) :: limb) = unat (ucast t :: limb) + unat a * unat b + unat l"
proof -
  let ?X = "unat a * unat b + unat l"
  have h: "unat (drop_bit 64 t) = unat t div BASE" "unat (drop_bit 64 t) < BASE"
  proof -
    show "unat (drop_bit 64 t) = unat t div BASE"
      unfolding unsigned_drop_bit_eq using dlimb_lt [of t]
      by (subst take_bit_nat_eq_self) (simp_all add: drop_bit_eq_div BASE_def)
    then show "unat (drop_bit 64 t) < BASE" using dlimb_lt [of t] by (simp add: less_mult_imp_div_less)
  qed
  have X: "?X + BASE \<le> BASE * BASE"
  proof -
    have "unat a * unat b \<le> (BASE - 1) * (BASE - 1)" using limb_lt [of a] limb_lt [of b] by (intro mult_le_mono) auto
    then show ?thesis using limb_lt [of l] by (simp add: BASE_def)
  qed
  have "t + (ucast a * ucast b + ucast l) = ucast r" by (simp add: t_def)
  then have "unat (t + of_nat ?X) = unat r" by simp
  moreover have "?X < BASE * BASE" using X BASE_pos by (simp add: BASE_def)
  ultimately have eq: "(unat t + ?X) mod (BASE * BASE) = unat r"
    by (simp add: unat_word_ariths(1) unat_dlimb_of_nat BASE_def del: of_nat_add of_nat_mult)
  show ?thesis
  proof (cases "unat t + ?X < BASE * BASE")
    case True
    then have e: "unat t + ?X = unat r" using eq by simp
    then have "unat t < BASE" using limb_lt [of r] by linarith
    then show ?thesis using e dlimb_neg_low [OF h(2)] h(1) by (simp add: dlimb_halves(1))
  next
    case False
    have "unat t + ?X < 2 * (BASE * BASE)" using dlimb_lt [of t] \<open>?X < BASE * BASE\<close> by linarith
    then have e: "unat t + ?X = unat r + BASE * BASE" using eq False by (simp add: mod_if [of "unat t + ?X"])
    then have "BASE \<le> unat t" using X by linarith
    then have d: "0 < unat t div BASE" by (simp add: div_greater_zero_iff)
    have "BASE * (BASE - unat t div BASE) + BASE * (unat t div BASE) = BASE * BASE"
      using h by (simp only: distrib_left [symmetric]) simp
    moreover have "unat (ucast (- drop_bit 64 t) :: limb) = BASE - unat t div BASE"
      using d dlimb_neg_low [OF h(2)] h(1) by simp
    moreover have "unat (ucast t :: limb) + BASE * (unat t div BASE) = unat t" by (simp add: dlimb_halves(1))
    ultimately show ?thesis using e by simp
  qed
qed

lemma sub_mul1_val:
  assumes "length tabr = length taba" "sub_mul1_loop tabr taba b l = (res, h)"
  shows "val res + val taba * unat b + unat l = val tabr + BASE ^ length taba * unat h \<and> length res = length taba"
  using assms
proof (induction tabr taba b l arbitrary: res h rule: sub_mul1_loop.induct)
  case (1 x tabr a taba b l)
  define t where "t = (ucast x - ucast a * ucast b - ucast l :: dlimb)"
  define k where "k = (ucast (- drop_bit 64 t) :: limb)"
  obtain r where r: "sub_mul1_loop tabr taba b k = (r, h)" "res = ucast t # r"
    using "1.prems" by (auto simp: Let_def t_def k_def split: prod.splits)
  have "val r + val taba * unat b + unat k = val tabr + BASE ^ length taba * unat h \<and> length r = length taba"
    using "1.IH" [OF refl, of r h] r(1) "1.prems"(1) unfolding t_def k_def by simp
  moreover have "unat x + BASE * unat k = unat (ucast t :: limb) + unat a * unat b + unat l"
    unfolding k_def t_def by (rule sub_mul_limb)
  ultimately show ?case
    using r(2) carry_up [of "val tabr" "BASE ^ length taba" "unat h" "val r" "val taba * unat b" "unat k"
        "unat x" BASE "unat (ucast t :: limb)" "unat a * unat b" "unat l"] by (simp add: algebra_simps)
qed auto

subsection \<open>Multiplication\<close>

lemma length_patch: "i + length ys \<le> length xs \<Longrightarrow> length (patch xs i ys) = length xs"
  by (simp add: patch_def)

lemma mul_loop_val:
  assumes "i + length op2 + length op1 = length result"
  shows "length (mul_loop i op1 op2 result) = length result \<and>
    val (mul_loop i op1 op2 result) = val (take (i + length op1) result) + BASE ^ i * (val op1 * val op2)"
  using assms
proof (induction i op1 op2 result rule: mul_loop.induct)
  case (2 i op1 b op2 result)
  let ?n = "length op1"
  obtain s r where sr: "mp_add_mul1 (take ?n (drop i result)) op1 b = (s, r)" by fastforce
  have v: "val s + BASE ^ ?n * unat r = val (take ?n (drop i result)) + val op1 * unat b" "length s = ?n"
    using add_mul1_val [of "take ?n (drop i result)" op1 b 0 s r] sr "2.prems" by (auto simp: mp_add_mul1_def)
  let ?p = "patch result i (s @ [r])"
  have l: "length ?p = length result" using "2.prems" v(2) by (simp add: length_patch)
  have "take (Suc i + ?n) ?p = take i result @ s @ [r]" using "2.prems" v(2) by (simp add: patch_def)
  then have "val (take (Suc i + ?n) ?p) = val (take i result) + BASE ^ i * (val s + BASE ^ ?n * unat r)"
    using "2.prems" v(2) by (simp add: val_append)
  also have "\<dots> = val (take i result @ take ?n (drop i result)) + BASE ^ i * (val op1 * unat b)"
    unfolding v(1) val_append using "2.prems" by (simp add: distrib_left)
  also have "take i result @ take ?n (drop i result) = take (i + ?n) result" by (simp add: take_add)
  finally have p: "val (take (Suc i + ?n) ?p) = val (take (i + ?n) result) + BASE ^ i * (val op1 * unat b)" .
  have "length (mul_loop (Suc i) op1 op2 ?p) = length ?p \<and>
      val (mul_loop (Suc i) op1 op2 ?p) = val (take (Suc i + ?n) ?p) + BASE ^ Suc i * (val op1 * val op2)"
    using "2.IH" [OF sr [symmetric] refl] l "2.prems" by simp
  then show ?case using sr l p by (simp add: algebra_simps)
qed auto

lemma mp_mul_basecase_val:
  assumes "op2 \<noteq> []" "length result = length op1 + length op2"
  shows "\<exists>res. mp_mul_basecase result op1 op2 = Some res \<and> length res = length op1 + length op2 \<and> val res = val op1 * val op2"
proof -
  obtain b bs where op2: "op2 = b # bs" using assms(1) by (cases op2) auto
  obtain s r where sr: "mp_mul1 op1 b 0 = (s, r)" by fastforce
  have v: "val s + BASE ^ length op1 * unat r = val op1 * unat b" "length s = length op1"
    using mp_mul1_val [OF sr] by auto
  let ?p = "patch result 0 (s @ [r])"
  have l: "length ?p = length result" using assms(2) v(2) op2 by (simp add: length_patch)
  have "take (1 + length op1) ?p = s @ [r]" using assms(2) v(2) op2 by (simp add: patch_def)
  then have "val (take (1 + length op1) ?p) = val op1 * unat b" using v by (simp add: val_append)
  then show ?thesis
    using mul_loop_val [of 1 bs op1 ?p] l assms(2) op2 sr by (simp add: mp_mul_basecase_def algebra_simps)
qed

subsection \<open>Shift\<close>

lemma shr_limb:
  fixes a l :: limb
  assumes "1 \<le> k" "k < 64"
  shows "2 ^ k * unat (drop_bit k a OR push_bit (64 - k) l) + unat a mod 2 ^ k = unat a + BASE * (unat l mod 2 ^ k)"
proof -
  have y: "unat (drop_bit k a) = unat a div 2 ^ k"
    unfolding unsigned_drop_bit_eq using limb_lt [of a] by (subst take_bit_nat_eq_self) (simp_all add: drop_bit_eq_div BASE_def)
  have "unat (push_bit (64 - k) l) = (2 ^ (64 - k) * unat l) mod 2 ^ 64"
    unfolding unsigned_push_bit_eq by (simp add: take_bit_eq_mod push_bit_eq_mult mult.commute)
  also have "\<dots> = 2 ^ (64 - k) * (unat l mod 2 ^ k)"
    using assms by (simp add: mult_mod_right flip: power_add)
  finally have p: "unat (push_bit (64 - k) l) = 2 ^ (64 - k) * (unat l mod 2 ^ k)" .
  have B: "(2::nat) ^ k * 2 ^ (64 - k) = BASE" using assms by (simp add: BASE_def flip: power_add)
  have y2: "unat (drop_bit k a) < 2 ^ (64 - k)"
    unfolding y using limb_lt [of a] B by (intro less_mult_imp_div_less) (simp add: mult.commute)
  have "unat l mod 2 ^ k + 1 \<le> 2 ^ k" by (simp add: Suc_leI)
  then have "2 ^ (64 - k) * (unat l mod 2 ^ k) + 2 ^ (64 - k) \<le> BASE"
    using B by (metis mult.commute mult_le_mono2 mult_Suc_right add.commute Suc_eq_plus1)
  then have lt: "unat (drop_bit k a) + unat (push_bit (64 - k) l) < 2 ^ LENGTH(64)" using y2 p by (simp add: BASE_def)
  have "unat (drop_bit k a OR push_bit (64 - k) l) = unat (drop_bit k a) + unat (push_bit (64 - k) l)"
    by (rule unat_or_disjoint [OF y2 _ lt]) (simp add: take_bit_push_bit)
  then have "2 ^ k * unat (drop_bit k a OR push_bit (64 - k) l) =
      2 ^ k * (unat a div 2 ^ k) + (2 ^ k * 2 ^ (64 - k)) * (unat l mod 2 ^ k)"
    by (simp only: y p distrib_left mult.assoc)
  then show ?thesis unfolding B using mult_div_mod_eq [of "2 ^ k" "unat a"] by linarith
qed

lemma shr_loop_val:
  assumes "1 \<le> k" "k < 64" "shr_loop tab k l = (res, l')"
  shows "2 ^ k * val (rev res) + unat l' mod 2 ^ k = val (rev tab) + BASE ^ length tab * (unat l mod 2 ^ k) \<and>
    length res = length tab"
  using assms(3)
proof (induction tab arbitrary: l res l')
  case (Cons a tab)
  obtain r where r: "shr_loop tab k a = (r, l')" "res = (drop_bit k a OR push_bit (64 - k) l) # r"
    using Cons.prems by (auto split: prod.splits)
  note IH = Cons.IH [OF r(1)]
  have "BASE ^ length tab * (2 ^ k * unat (drop_bit k a OR push_bit (64 - k) l) + unat a mod 2 ^ k) =
      BASE ^ length tab * (unat a + BASE * (unat l mod 2 ^ k))"
    by (simp only: shr_limb [OF assms(1,2)])
  then show ?case using IH r(2) by (simp add: val_append algebra_simps)
qed auto

lemma mp_shr_val:
  assumes "mp_shr tab k high = Some (res, r)"
  shows "2 ^ k * val res + unat r = val tab + BASE ^ length tab * (unat high mod 2 ^ k) \<and> unat r < 2 ^ k \<and> length res = length tab"
proof -
  obtain q l where k: "1 \<le> k" "k < 64" and q: "shr_loop (rev tab) k high = (q, l)" "res = rev q" "r = l AND (push_bit k 1 - 1)"
    using assms by (auto simp: mp_shr_def split: if_splits prod.splits)
  have "push_bit k 1 - 1 = (mask k :: limb)" by (simp add: mask_eq_exp_minus_1 push_bit_eq_mult)
  then have "unat r = unat l mod 2 ^ k" using q(3) by (simp add: unat_and_mask)
  then show ?thesis using shr_loop_val [OF k q(1)] q(2) by simp
qed

subsection \<open>Properties\<close>

text \<open>
  C27: The schoolbook multiplication writes the product of its operands into the \<open>op1_size + op2_size\<close> limbs of the
  result, whatever they held before.
\<close>

theorem mp_mul_exact:
  assumes "op2 \<noteq> []" "length result = length op1 + length op2"
  shows "\<exists>res. mp_mul_basecase result op1 op2 = Some res \<and> length res = length op1 + length op2 \<and> val res = val op1 * val op2"
  by (rule mp_mul_basecase_val [OF assms])

theorem mp_mul_exact_witness:
  "\<exists>res. mp_mul_basecase [9, 9, 9] [0, 2] [3] = Some res \<and> length res = 3 \<and> val res = 6 * BASE"
  using mp_mul_exact [of "[3]" "[9, 9, 9]" "[0, 2]"] by auto

lemma val_inj: "length xs = length ys \<Longrightarrow> val xs = val ys \<Longrightarrow> xs = ys"
proof (induction xs ys rule: list_induct2)
  case (Cons x xs y ys)
  have "unat x mod BASE = unat y mod BASE" using arg_cong [OF Cons.prems, of "\<lambda>v. v mod BASE"] by simp
  then have "unat x = unat y" using limb_lt [of x] limb_lt [of y] by simp
  then show ?case using Cons BASE_pos by (simp add: word_unat_eq_iff BASE_def)
qed simp

text \<open>
  Subtraction undoes addition, limb by limb and in the carry: adding \<open>op2\<close> to \<open>op1\<close> and subtracting it from the
  result gives \<open>op1\<close> back, and the borrow equals the carry.
\<close>

lemma mp_sub_add:
  assumes "length op1 = length op2" "mp_add op1 op2 0 = (res, c)"
  shows "mp_sub res op2 0 = (op1, c)"
proof -
  let ?P = "BASE ^ length op2"
  have a: "val res + ?P * unat c = val op1 + val op2" "length res = length op2" "unat c \<le> 1"
    using mp_add_val [OF assms(1) _ assms(2)] assms(1) by auto
  obtain t b where s: "mp_sub res op2 0 = (t, b)" by fastforce
  have v: "val t + val op2 = val res + ?P * unat b" "length t = length op2" "unat b \<le> 1"
    using mp_sub_val [OF a(2) _ s] a(2) by auto
  have lt: "val t < ?P" "val op1 < ?P" using val_bound [of t] val_bound [of op1] v(2) assms(1) by simp_all
  have "unat b = unat c"
  proof (rule ccontr)
    assume "unat b \<noteq> unat c"
    then have "unat b = 0 \<and> unat c = 1 \<or> unat b = 1 \<and> unat c = 0" using a(3) v(3) by linarith
    then show False using a(1) v(1) lt by auto
  qed
  then have "b = c" "val t = val op1" using a(1) v(1) by (simp_all add: word_unat_eq_iff)
  then show ?thesis using s val_inj [of t op1] v(2) assms(1) by simp
qed

lemma mp_sub_add_witness: "mp_add [0xFFFFFFFFFFFFFFFF, 1] [2, 3] 0 = ([1, 5], 0) \<and> mp_sub [1, 5] [2, 3] 0 = ([0xFFFFFFFFFFFFFFFF, 1], 0)"
proof -
  have e: "mp_add [0xFFFFFFFFFFFFFFFF, 1] [2, 3] 0 = ([1, 5], 0)" by simp
  show ?thesis using e mp_sub_add [OF _ e] by simp
qed

end
