(* ===== verification/MpDiv.thy ===== *)
theory MpDiv
  imports Mpn
begin

text \<open>
  The division of \<open>qjs/libbf.c\<close>: the division of two limbs by a normalized limb with a precomputed inverse
  (\<open>udiv1norm\<close>), the division of an array by a limb (\<open>mp_div1norm\<close>), and the schoolbook division of arrays
  (\<open>mp_divnorm\<close> below the size at which it switches to the inverse by Newton iteration). A divisor is normalized
  when the top bit of its last limb is set.
\<close>

subsection \<open>Two limbs by one\<close>

definition dlimb_of :: "limb \<Rightarrow> limb \<Rightarrow> dlimb" where
  "dlimb_of a1 a0 = push_bit LIMB_BITS (ucast a1) OR ucast a0"

definition udiv1norm_init :: "limb \<Rightarrow> limb" where
  "udiv1norm_init d = (let a1 = - d - 1; a0 = -1 in ucast (dlimb_of a1 a0 div ucast d))"

definition udiv1norm :: "limb \<Rightarrow> limb \<Rightarrow> limb \<Rightarrow> limb \<Rightarrow> limb \<times> limb" where
  "udiv1norm a1 a0 d d_inv =
     (let n1m = signed_drop_bit (LIMB_BITS - 1) a0;
          n_adj = a0 + (n1m AND d);
          a = (ucast d_inv * ucast (a1 - n1m) + ucast n_adj :: dlimb);
          q = ucast (drop_bit LIMB_BITS a) + a1;
          a = dlimb_of a1 a0;
          a = a - ucast q * ucast d - ucast d;
          ah = ucast (drop_bit LIMB_BITS a);
          q = q + (1 + ah);
          r = ucast a + (ah AND d)
      in (q, r))"

subsection \<open>Arrays\<close>

text \<open>The loops of \<open>mp_div1norm\<close> run from the most significant limb down, along the reversed array.\<close>

fun div1_loop :: "(limb \<Rightarrow> limb \<Rightarrow> limb \<times> limb) \<Rightarrow> limb list \<Rightarrow> limb \<Rightarrow> limb list \<times> limb" where
  "div1_loop step [] r = ([], r)"
| "div1_loop step (a # taba) r =
     (let (q, r) = step r a; (tabr, r) = div1_loop step taba r in (q # tabr, r))"

definition UDIV1NORM_THRESHOLD :: nat where
  "UDIV1NORM_THRESHOLD = 3"

definition mp_div1norm :: "limb list \<Rightarrow> limb \<Rightarrow> limb \<Rightarrow> limb list \<times> limb" where
  "mp_div1norm taba b r =
     (let step = (if length taba \<ge> UDIV1NORM_THRESHOLD
                  then let b_inv = udiv1norm_init b in (\<lambda>r a. udiv1norm r a b b_inv)
                  else (\<lambda>r a. let a1 = dlimb_of r a in (ucast (a1 div ucast b), ucast (a1 mod ucast b))));
          (tabr, r) = div1_loop step (rev taba) r
      in (rev tabr, r))"

text \<open>The first quotient limb: whether the top of the dividend is at least the divisor, compared from the top.\<close>

fun first_quot :: "limb list \<Rightarrow> limb list \<Rightarrow> limb" where
  "first_quot (a # as) (b # bs) = (if a \<noteq> b then if a < b then 0 else 1 else first_quot as bs)"
| "first_quot as bs = 1"

text \<open>The estimate of a quotient limb from the two top limbs.\<close>

definition quot_estimate :: "limb \<Rightarrow> limb \<Rightarrow> limb \<Rightarrow> limb \<Rightarrow> limb" where
  "quot_estimate b1 b1_inv ah al =
     (if ah \<ge> b1 then -1
      else if b1_inv \<noteq> 0 then fst (udiv1norm ah al b1 b1_inv)
      else ucast (dlimb_of ah al div ucast b1))"

text \<open>
  The correction of a negative remainder: the divisor is added back until the sum wraps around; \<open>lo\<close> are the
  \<open>nb\<close> limbs of the window, \<open>hi\<close> the limb above. \<open>None\<close> when the fuel runs out.
\<close>

fun add_back :: "nat \<Rightarrow> limb list \<Rightarrow> limb \<Rightarrow> limb list \<Rightarrow> limb \<Rightarrow> (limb \<times> limb list \<times> limb) option" where
  "add_back 0 tabb q lo hi = None"
| "add_back (Suc k) tabb q lo hi =
     (let q = q - 1;
          (lo, c) = mp_add lo tabb 0
      in if c \<noteq> 0 then
           let hi = hi + 1 in if hi = 0 then Some (q, lo, hi) else add_back k tabb q lo hi
         else add_back k tabb q lo hi)"

definition div_step :: "nat \<Rightarrow> limb list \<Rightarrow> limb \<Rightarrow> limb \<Rightarrow> nat \<Rightarrow> limb list \<Rightarrow> (limb \<times> limb list) option" where
  "div_step k tabb b1 b1_inv i taba =
     (let nb = length tabb;
          q = quot_estimate b1 b1_inv (taba ! (i + nb)) (taba ! (i + nb - 1));
          (lo, r) = mp_sub_mul1 (take nb (drop i taba)) tabb q;
          v = taba ! (i + nb);
          a = v - r;
          c = a > v
      in case (if c then add_back k tabb q lo a else Some (q, lo, a)) of
           None \<Rightarrow> None
         | Some (q, lo, hi) \<Rightarrow> Some (q, patch taba i (lo @ [hi])))"

fun div_loop :: "nat \<Rightarrow> limb list \<Rightarrow> limb \<Rightarrow> limb \<Rightarrow> nat \<Rightarrow> limb list \<Rightarrow> limb list \<Rightarrow> (limb list \<times> limb list) option" where
  "div_loop k tabb b1 b1_inv 0 tabq taba = Some (tabq, taba)"
| "div_loop k tabb b1 b1_inv (Suc i) tabq taba =
     (case div_step k tabb b1 b1_inv i taba of
        None \<Rightarrow> None
      | Some (q, taba) \<Rightarrow> div_loop k tabb b1 b1_inv i (q # tabq) taba)"

text \<open>\<open>mp_divnorm\<close> without its switch to \<open>mp_divnorm_large\<close>: the quotient, and the array with the remainder.\<close>

definition mp_divnorm_base :: "nat \<Rightarrow> limb list \<Rightarrow> limb list \<Rightarrow> (limb list \<times> limb list) option" where
  "mp_divnorm_base k taba tabb =
     (let nb = length tabb;
          b1 = tabb ! (nb - 1)
      in if nb = 1 then let (tabq, r) = mp_div1norm taba b1 0 in Some (tabq, taba[0 := r])
         else
           let n = length taba - nb;
               b1_inv = (if n \<ge> UDIV1NORM_THRESHOLD then udiv1norm_init b1 else 0);
               q = first_quot (rev (drop n taba)) (rev tabb);
               taba = (if q \<noteq> 0 then patch taba n (fst (mp_sub (drop n taba) tabb 0)) else taba)
           in div_loop k tabb b1 b1_inv n [q] taba)"

subsection \<open>Two limbs by one\<close>

definition normalized :: "limb \<Rightarrow> bool" where
  "normalized d \<longleftrightarrow> BASE \<le> 2 * unat d"

lemma dlimb_of_val: "unat (dlimb_of a1 a0) = BASE * unat a1 + unat a0"
proof -
  have p: "unat (push_bit 64 (ucast a1 :: dlimb)) = BASE * unat a1"
  proof -
    have "BASE * unat a1 < BASE * BASE" using limb_lt [of a1] by simp
    then show ?thesis
      unfolding unsigned_push_bit_eq by (simp add: push_bit_eq_mult take_bit_nat_eq_self_iff BASE_def mult.commute)
  qed
  have lt: "unat (ucast a0 :: dlimb) < 2 ^ 64" using limb_lt [of a0] by (simp add: BASE_def)
  have "BASE * unat a1 + unat a0 < BASE * BASE"
  proof -
    have "BASE * unat a1 + BASE \<le> BASE * BASE" using limb_lt [of a1] by (metis mult_Suc_right mult_le_mono2 Suc_leI add.commute)
    then show ?thesis using limb_lt [of a0] by linarith
  qed
  then have s: "unat (ucast a0 :: dlimb) + unat (push_bit 64 (ucast a1 :: dlimb)) < 2 ^ LENGTH(128)"
    unfolding p by (simp add: BASE_def)
  have "unat (ucast a0 OR push_bit 64 (ucast a1 :: dlimb)) = unat (ucast a0 :: dlimb) + unat (push_bit 64 (ucast a1 :: dlimb))"
    by (rule unat_or_disjoint [OF lt _ s]) (simp add: take_bit_push_bit)
  then show ?thesis by (simp add: dlimb_of_def p or.commute)
qed

lemma sign_mask: "signed_drop_bit 63 (a :: limb) = (if BASE \<le> 2 * unat a then -1 else 0)"
proof -
  have "bit a 63 \<longleftrightarrow> BASE \<le> 2 * unat a"
  proof -
    have "bit a 63 \<longleftrightarrow> bit (unat a) 63" by (simp add: bit_unsigned_iff)
    then have "bit a 63 \<longleftrightarrow> odd (unat a div 2 ^ 63)" by (simp only: bit_iff_odd)
    moreover have "unat a div 2 ^ 63 < 2" using limb_lt [of a] by (intro less_mult_imp_div_less) (simp add: BASE_def)
    then have "unat a div 2 ^ 63 = 0 \<or> unat a div 2 ^ 63 = 1" by linarith
    ultimately show ?thesis by (auto simp: BASE_def div_eq_0_iff)
  qed
  moreover have "signed_drop_bit 63 a = (if bit a 63 then -1 else 0)"
    by (rule bit_word_eqI) (auto simp: bit_signed_drop_bit_iff not_less_eq_eq)
  ultimately show ?thesis by simp
qed

text \<open>The estimate of the quotient is at most one too small (Granlund and Montgomery).\<close>

lemma estimate_bounds:
  fixes B d m k n1 n0 b h x0 :: int
  assumes "B \<le> 2 * d" "d < B" "m * d = B * B - k" "1 \<le> k" "k \<le> d" "0 \<le> n1" "n1 < d" "0 \<le> n0" "n0 < B"
    and "b = (if B \<le> 2 * n0 then 1 else 0)" "(m - B) * (n1 + b) + n0 + b * (d - B) = B * h + x0" "0 \<le> x0" "x0 < B"
  shows "0 \<le> n1 * B + n0 - (n1 + h) * d" "n1 * B + n0 - (n1 + h) * d < 2 * d"
proof -
  have id: "B * (n1 * B + n0 - (n1 + h) * d) = (B - d) * (n0 - b * (B - d)) + k * (n1 + b) + d * x0"
    using assms(3,11) by algebra
  have kn: "k * (n1 + b) \<le> d * (n1 + b)" "0 \<le> k * (n1 + b)" using assms(4-6,10) by (auto intro: mult_right_mono)
  have dx: "0 \<le> d * x0" "d * x0 \<le> d * (B - 1)" using assms by (auto intro: mult_left_mono)
  have lo: "0 \<le> (B - d) * (n0 - b * (B - d))" using assms(1,2,8,10) by (intro mult_nonneg_nonneg) auto
  have B: "0 < B" using assms(8,9) by linarith
  have "0 \<le> B * (n1 * B + n0 - (n1 + h) * d)" unfolding id using lo kn dx by linarith
  then show "0 \<le> n1 * B + n0 - (n1 + h) * d" using B by (simp add: zero_le_mult_iff)
  have "(B - d) * (n0 - b * (B - d)) + k * (n1 + b) + d * x0 < 2 * d * B"
  proof (cases "B \<le> 2 * n0")
    case True
    have "(B - d) * (n0 - b * (B - d)) \<le> (B - d) * (d - 1)" using True assms by (intro mult_left_mono) auto
    moreover have "k * (n1 + b) \<le> d * d" using kn(1) assms True by (smt (verit) mult_left_mono)
    moreover have "(B - d) * (d - 1) + d * d + d * (B - 1) < 2 * d * B" using assms by (simp add: algebra_simps)
    ultimately show ?thesis using dx by linarith
  next
    case False
    have "2 * ((B - d) * (n0 - b * (B - d))) \<le> (B - d) * (B - 1)"
      using False assms mult_left_mono [of "2 * n0" "B - 1" "B - d"] by simp
    moreover have "k * (n1 + b) \<le> d * (d - 1)" using kn(1) assms False by (smt (verit) mult_left_mono)
    moreover have "(B - d) * (B - 1) + 2 * (d * (d - 1)) + 2 * (d * (B - 1)) < 4 * d * B"
    proof -
      have "0 \<le> (B - d) * (2 * d - B)" using assms by (intro mult_nonneg_nonneg) auto
      then show ?thesis using assms by (simp add: algebra_simps)
    qed
    ultimately show ?thesis using dx by linarith
  qed
  then have "B * (n1 * B + n0 - (n1 + h) * d) < B * (2 * d)" unfolding id by (simp add: mult.commute)
  then show "n1 * B + n0 - (n1 + h) * d < 2 * d" using B by simp
qed

text \<open>The inverse: \<open>BASE + d_inv\<close> is \<open>(BASE * BASE - 1) div d\<close>.\<close>

definition is_inverse :: "limb \<Rightarrow> limb \<Rightarrow> bool" where
  "is_inverse d d_inv \<longleftrightarrow> (\<exists>k. 1 \<le> k \<and> k \<le> unat d \<and> (unat d_inv + BASE) * unat d + k = BASE * BASE)"

lemma unat_limb_minus_1: "unat (-1 :: limb) = BASE - 1"
  by (simp add: BASE_def unsigned_minus_1_eq_mask mask_eq_exp_minus_1)

lemma udiv1norm_init_ok:
  assumes "normalized d"
  shows "is_inverse d (udiv1norm_init d)"
proof -
  let ?D = "unat d" and ?B = BASE
  have D: "0 < ?D" "?D < ?B" using assms limb_lt [of d] BASE_pos by (auto simp: normalized_def)
  note m1 = unat_limb_minus_1
  have "- d - 1 = (-1 :: limb) - d" by simp
  then have a1: "unat (- d - 1) = ?B - 1 - ?D" using unat_limb_sub [of "-1" d] D(2) by (simp only: m1) simp
  define n where "n = ?B * (?B - 1 - ?D) + (?B - 1)"
  have n: "unat (dlimb_of (- d - 1) (-1)) = n" using dlimb_of_val [of "- d - 1" "-1"] a1 m1 by (simp only: n_def)
  have e: "n + 1 + ?B * ?D = ?B * ?B"
  proof -
    have "?B * (?B - 1 - ?D) + ?B * ?D + ?B = ?B * ((?B - 1 - ?D) + ?D + 1)" by (simp only: distrib_left mult_1_right)
    also have "(?B - 1 - ?D) + ?D + 1 = ?B" using D by simp
    finally show ?thesis using BASE_pos unfolding n_def by linarith
  qed
  have "?B * ?B \<le> ?B * (2 * ?D)" using assms unfolding normalized_def by (intro mult_le_mono2)
  then have "n < ?B * ?D" using e by linarith
  then have q: "n div ?D < ?B" by (intro less_mult_imp_div_less) (simp add: mult.commute)
  have "unat (dlimb_of (- d - 1) (-1) div ucast d :: dlimb) = n div ?D" by (simp add: unat_div n)
  then have u: "unat (udiv1norm_init d) = n div ?D" using q by (simp add: udiv1norm_init_def dlimb_halves(1))
  have "(n div ?D + ?B) * ?D + (n mod ?D + 1) = n + 1 + ?B * ?D"
    using div_mult_mod_eq [of n ?D] by (simp add: distrib_right)
  then have "(unat (udiv1norm_init d) + ?B) * ?D + (n mod ?D + 1) = ?B * ?B" using u e by simp
  moreover have "n mod ?D + 1 \<le> ?D" using D(1) by (simp add: Suc_leI)
  ultimately show ?thesis unfolding is_inverse_def by (intro exI [of _ "n mod ?D + 1"]) simp
qed

lemma estimate_nat:
  fixes B d dv k n1 n0 b adj :: nat
  assumes "B \<le> 2 * d" "d < B" "(dv + B) * d + k = B * B" "1 \<le> k" "k \<le> d" "n1 < d" "n0 < B"
    and "b = (if B \<le> 2 * n0 then 1 else 0)" "adj + b * B = n0 + b * d"
  shows "(n1 + (dv * (n1 + b) + adj) div B) * d \<le> B * n1 + n0 \<and>
    B * n1 + n0 < (n1 + (dv * (n1 + b) + adj) div B) * d + 2 * d"
proof -
  let ?a = "dv * (n1 + b) + adj"
  have md: "(int dv + int B) * int d = int B * int B - int k"
    using arg_cong [OF assms(3), of int] by simp
  have ad: "int adj = int n0 + int b * (int d - int B)"
    using arg_cong [OF assms(9), of int] by (simp add: algebra_simps)
  have x: "(int dv + int B - int B) * (int n1 + int b) + int n0 + int b * (int d - int B) = int B * int (?a div B) + int (?a mod B)"
  proof -
    have "int B * int (?a div B) + int (?a mod B) = int ?a"
      by (simp only: of_nat_mult [symmetric] of_nat_add [symmetric] mult_div_mod_eq)
    then show ?thesis using ad by simp
  qed
  have "0 \<le> int n1 * int B + int n0 - (int n1 + int (?a div B)) * int d"
    "int n1 * int B + int n0 - (int n1 + int (?a div B)) * int d < 2 * int d"
    using estimate_bounds [OF _ _ md _ _ _ _ _ _ _ x] assms by auto
  then have "int ((n1 + ?a div B) * d) \<le> int (B * n1 + n0)" "int (B * n1 + n0) < int ((n1 + ?a div B) * d + 2 * d)"
    by (simp_all add: mult.commute)
  then show ?thesis by (simp only: of_nat_le_iff of_nat_less_iff)
qed

lemma two_limbs_lt: "unat (a1 :: limb) < m \<Longrightarrow> BASE * unat a1 + unat (a0 :: limb) < BASE * m"
proof -
  assume "unat a1 < m"
  then have "BASE * unat a1 + BASE \<le> BASE * m" by (metis mult_Suc_right mult_le_mono2 Suc_leI add.commute)
  then show ?thesis using limb_lt [of a0] by linarith
qed

lemma wrapped_difference:
  fixes a x n M :: nat
  assumes "(a + x) mod M = n" "a < M" "x < M"
  shows "if x \<le> n then a + x = n else a + x = n + M"
proof (cases "a + x < M")
  case False
  then have "a + x = n + M" using assms by (simp add: mod_if [of "a + x"])
  then show ?thesis using assms(2) by simp
qed (use assms in auto)

text \<open>The correction: the remainder of an estimate that is exact or one too small, computed in 128 bits.\<close>

lemma udiv_correct:
  fixes q d a1 a0 :: limb
  defines "a \<equiv> dlimb_of a1 a0 - ucast q * ucast d - ucast d"
  defines "ah \<equiv> ucast (drop_bit 64 a)"
  assumes "unat q * unat d \<le> BASE * unat a1 + unat a0" "BASE * unat a1 + unat a0 < unat q * unat d + 2 * unat d"
    and "unat a1 < unat d"
  shows "unat (q + (1 + ah)) * unat d + unat (ucast a + (ah AND d)) = BASE * unat a1 + unat a0 \<and>
    unat (ucast a + (ah AND d)) < unat d"
proof -
  let ?n = "BASE * unat a1 + unat a0" and ?D = "unat d"
  have D: "?D < BASE" by (rule limb_lt)
  have x: "unat q * ?D + ?D < BASE * BASE" using mul_limb_bound [of q d d 0] by simp
  have "a + of_nat (unat q * ?D + ?D) = dlimb_of a1 a0" by (simp add: a_def)
  then have "(unat a + (unat q * ?D + ?D)) mod (BASE * BASE) = ?n"
    using dlimb_of_val [of a1 a0] unat_word_ariths(1) [of a "of_nat (unat q * ?D + ?D)"] unat_dlimb_of_nat [OF x]
    by (simp add: BASE_def)
  note u = wrapped_difference [OF this dlimb_lt x]
  have m: "unat (ucast a :: limb) = unat a mod BASE" "unat ah = unat a div BASE"
    unfolding ah_def using dlimb_halves [of a] by auto
  show ?thesis
  proof (cases "unat q * ?D + ?D \<le> ?n")
    case True
    then have ua: "unat a + (unat q * ?D + ?D) = ?n" using u by simp
    then have lt: "unat a < ?D" using assms(4) by linarith
    then have "unat a < BASE" using D by linarith
    then have z: "ah = 0" "unat (ucast a :: limb) = unat a" using m by (simp_all add: unat_eq_0 [symmetric])
    have "(unat q + 1) * ?D < BASE * ?D" using ua two_limbs_lt [OF assms(5), of a0] by simp
    then have "unat q + 1 < BASE" by (simp only: mult_less_cancel2)
    then have "unat (q + 1) = unat q + 1" using unat_limb_add [of q 1] by simp
    then show ?thesis using z ua lt by simp
  next
    case False
    then have ua: "unat a + (unat q * ?D + ?D) = ?n + BASE * BASE" using u by simp
    define w where "w = unat q * ?D + ?D - ?n"
    have w: "0 < w" "w \<le> ?D" "unat q * ?D + ?D = ?n + w" using False assms(3) by (auto simp: w_def)
    have "BASE * BASE = BASE * (BASE - 1) + BASE" by (simp add: BASE_def)
    then have e: "unat a = (BASE - w) + BASE * (BASE - 1)" using ua w D by simp
    have "unat a mod BASE = BASE - w" unfolding e mod_mult_self2 using w D by simp
    moreover have "unat a div BASE = BASE - 1" unfolding e by (subst div_mult_self2) (use w D in simp_all)
    ultimately have r: "unat (ucast a :: limb) = BASE - w" and "unat ah = BASE - 1" using m by simp_all
    then have "ah = -1" by (simp add: word_unat_eq_iff unat_limb_minus_1)
    then show ?thesis using unat_limb_add [of "ucast a" d] r w D by simp
  qed
qed

lemma udiv1norm_ok:
  assumes "normalized d" "is_inverse d d_inv" "unat a1 < unat d" "udiv1norm a1 a0 d d_inv = (q, r)"
  shows "unat q * unat d + unat r = BASE * unat a1 + unat a0 \<and> unat r < unat d"
proof -
  obtain k where k: "1 \<le> k" "k \<le> unat d" "(unat d_inv + BASE) * unat d + k = BASE * BASE"
    using assms(2) by (auto simp: is_inverse_def)
  define b :: nat where "b = (if BASE \<le> 2 * unat a0 then 1 else 0)"
  define n1m :: limb where "n1m = signed_drop_bit 63 a0"
  have n1m: "n1m = (if BASE \<le> 2 * unat a0 then -1 else 0)" unfolding n1m_def by (rule sign_mask)
  define n_adj where "n_adj = a0 + (n1m AND d)"
  have dlt: "unat d < BASE" by (rule limb_lt)
  have adj: "unat n_adj + b * BASE = unat a0 + b * unat d"
    using assms(1) unat_limb_add [of a0 d] by (auto simp: n_adj_def n1m b_def normalized_def)
  have a1m: "unat (a1 - n1m) = unat a1 + b"
    using unat_limb_add [of a1 1] assms(3) dlt by (auto simp: n1m b_def)
  define a where "a = (ucast d_inv * ucast (a1 - n1m) + ucast n_adj :: dlimb)"
  have a: "unat a = unat d_inv * (unat a1 + b) + unat n_adj"
    using mul_limb [of d_inv "a1 - n1m" n_adj 0] a1m by (simp add: a_def)
  have est: "(unat a1 + unat a div BASE) * unat d \<le> BASE * unat a1 + unat a0"
    "BASE * unat a1 + unat a0 < (unat a1 + unat a div BASE) * unat d + 2 * unat d"
    using estimate_nat [of BASE "unat d" "unat d_inv" k "unat a1" "unat a0" b "unat n_adj"] assms(1,3) dlt k adj limb_lt [of a0]
    unfolding a by (auto simp: normalized_def b_def)
  define q1 where "q1 = ucast (drop_bit 64 a) + a1"
  have "(unat a1 + unat a div BASE) * unat d < BASE * unat d" using est(1) two_limbs_lt [OF assms(3), of a0] by linarith
  then have "unat a1 + unat a div BASE < BASE" by (simp only: mult_less_cancel2)
  then have q1: "unat q1 = unat a1 + unat a div BASE"
    using unat_limb_add [of "ucast (drop_bit 64 a)" a1] dlimb_halves(2) [of a] by (simp add: q1_def)
  have "(q, r) = (let a = dlimb_of a1 a0 - ucast q1 * ucast d - ucast d; ah = ucast (drop_bit 64 a) in (q1 + (1 + ah), ucast a + (ah AND d)))"
    using assms(4) unfolding udiv1norm_def Let_def q1_def a_def n_adj_def n1m_def by simp
  then show ?thesis using udiv_correct [of q1 d a1 a0] est assms(3) q1 by (simp add: Let_def)
qed

subsection \<open>An array by a limb\<close>

text \<open>What a step of the loop must deliver.\<close>

definition div_limb_ok :: "limb \<Rightarrow> (limb \<Rightarrow> limb \<Rightarrow> limb \<times> limb) \<Rightarrow> bool" where
  "div_limb_ok b step \<longleftrightarrow> (\<forall>r a. unat r < unat b \<longrightarrow>
     unat (fst (step r a)) * unat b + unat (snd (step r a)) = BASE * unat r + unat a \<and> unat (snd (step r a)) < unat b)"

lemma div_limb_udiv: "normalized b \<Longrightarrow> is_inverse b b_inv \<Longrightarrow> div_limb_ok b (\<lambda>r a. udiv1norm r a b b_inv)"
  unfolding div_limb_ok_def using udiv1norm_ok [of b b_inv] by (metis prod.collapse)

lemma div_limb_plain: "div_limb_ok b (\<lambda>r a. let a1 = dlimb_of r a in (ucast (a1 div ucast b), ucast (a1 mod ucast b)))"
proof -
  have "unat (ucast (dlimb_of r a div ucast b) :: limb) * unat b + unat (ucast (dlimb_of r a mod ucast b) :: limb) = BASE * unat r + unat a \<and>
      unat (ucast (dlimb_of r a mod ucast b) :: limb) < unat b" if r: "unat r < unat b" for r a
  proof -
    let ?n = "BASE * unat r + unat a"
    have "?n div unat b < BASE" using two_limbs_lt [OF r, of a] by (intro less_mult_imp_div_less) (simp add: mult.commute)
    moreover have "?n mod unat b < unat b" using r by simp
    moreover have "?n mod unat b < BASE" using \<open>?n mod unat b < unat b\<close> limb_lt [of b] by linarith
    ultimately show ?thesis by (simp add: dlimb_halves(1) unat_div unat_mod dlimb_of_val)
  qed
  then show ?thesis by (simp add: div_limb_ok_def Let_def)
qed

lemma div1_loop_val:
  assumes "div_limb_ok b step" "unat r < unat b" "div1_loop step taba r = (q, r')"
  shows "val (rev q) * unat b + unat r' = val (rev taba) + BASE ^ length taba * unat r \<and> unat r' < unat b \<and> length q = length taba"
  using assms(2,3)
proof (induction taba arbitrary: r q r')
  case (Cons a taba)
  obtain q1 r1 where s: "step r a = (q1, r1)" by fastforce
  have v: "unat q1 * unat b + unat r1 = BASE * unat r + unat a" "unat r1 < unat b"
    using assms(1) Cons.prems(1) s unfolding div_limb_ok_def by (metis fst_conv snd_conv)+
  obtain q2 where q2: "div1_loop step taba r1 = (q2, r')" "q = q1 # q2" using Cons.prems(2) s by (auto split: prod.splits)
  note IH = Cons.IH [OF v(2) q2(1)]
  have "BASE ^ length taba * (unat q1 * unat b + unat r1) = BASE ^ length taba * (BASE * unat r + unat a)" by (simp only: v(1))
  then show ?case using IH q2(2) by (simp add: val_append algebra_simps)
qed auto

lemma mp_div1norm_val:
  assumes "normalized b" "unat r < unat b" "mp_div1norm taba b r = (q, r')"
  shows "val q * unat b + unat r' = val taba + BASE ^ length taba * unat r \<and> unat r' < unat b \<and> length q = length taba"
proof -
  define step where "step = (if length taba \<ge> UDIV1NORM_THRESHOLD
                  then let b_inv = udiv1norm_init b in (\<lambda>r a. udiv1norm r a b b_inv)
                  else (\<lambda>r a. let a1 = dlimb_of r a in (ucast (a1 div ucast b), ucast (a1 mod ucast b))))"
  have ok: "div_limb_ok b step"
    unfolding step_def Let_def using div_limb_udiv [OF assms(1) udiv1norm_init_ok [OF assms(1)]] div_limb_plain [of b]
    by (auto simp: Let_def)
  obtain t where t: "div1_loop step (rev taba) r = (t, r')" "q = rev t"
    using assms(3) unfolding mp_div1norm_def step_def [symmetric] by (auto simp: Let_def split: prod.splits)
  show ?thesis using div1_loop_val [OF ok assms(2) t(1)] t(2) by simp
qed

subsection \<open>Schoolbook division\<close>

text \<open>An estimate from the two top limbs is not too small and at most two too large.\<close>

lemma quot_estimate_bounds:
  fixes P la lb ah al b1 q A b :: nat
  assumes "A = la + P * (BASE * ah + al)" "la < P" "al < BASE" "b = lb + P * b1" "lb < P" "BASE \<le> 2 * b1" "A < BASE * b"
    and "q = (if b1 \<le> ah then BASE - 1 else (BASE * ah + al) div b1)" "q < BASE"
  shows "A < (q + 1) * b \<and> q * b \<le> A + 2 * b"
proof -
  have b1: "0 < b1" using assms(6) BASE_pos by linarith
  have q: "q * b1 \<le> BASE * ah + al"
  proof (cases "b1 \<le> ah")
    case True
    then have "(BASE - 1) * b1 \<le> BASE * ah" by (intro mult_le_mono) auto
    then show ?thesis using True assms(8) by simp
  qed (simp add: assms(8))
  have "q * b \<le> q * (P * b1) + BASE * P"
    using assms(4,5,9) by (simp add: distrib_left) (metis less_imp_le mult_le_mono)
  moreover have "q * (P * b1) \<le> P * (BASE * ah + al)" using mult_le_mono2 [OF q, of P] by (simp add: mult.left_commute)
  moreover have "BASE * P \<le> 2 * b"
  proof -
    have "BASE * P \<le> 2 * b1 * P" by (rule mult_le_mono1 [OF assms(6)])
    moreover have "2 * b1 * P = 2 * (P * b1)" by simp
    ultimately show ?thesis using assms(4) by linarith
  qed
  ultimately have up: "q * b \<le> A + 2 * b" using assms(1) by linarith
  show ?thesis
  proof (cases "b1 \<le> ah")
    case True
    then show ?thesis using up assms(7,8) by (simp add: BASE_def)
  next
    case False
    have "BASE * ah + al < (q + 1) * b1"
      using False assms(8) b1 by (metis add.commute dividend_less_div_times mult.commute mult_Suc plus_1_eq_Suc)
    then have "P * (BASE * ah + al + 1) \<le> P * ((q + 1) * b1)" by (intro mult_le_mono2) simp
    moreover have "(q + 1) * (P * b1) \<le> (q + 1) * b" using assms(4) by (intro mult_le_mono2) simp
    ultimately have "A < (q + 1) * b" using assms(1,2) by (simp add: algebra_simps)
    then show ?thesis using up by simp
  qed
qed

text \<open>Adding back: \<open>e\<close> is what is missing to the next power of the base.\<close>

lemma add_back_ok:
  assumes "length lo = length tabb" "val lo + BASE ^ length tabb * unat hi + e = BASE ^ Suc (length tabb)"
    and "0 < e" "e \<le> k * val tabb"
  shows "\<exists>j lo'. add_back k tabb q lo hi = Some (q - of_nat j, lo', 0) \<and> length lo' = length tabb \<and>
    val lo' + e = j * val tabb \<and> val lo' < val tabb"
  using assms
proof (induction k arbitrary: q lo hi e)
  case (Suc k)
  let ?n = "length tabb" and ?b = "val tabb" and ?P = "BASE ^ length tabb"
  obtain l c where l: "mp_add lo tabb 0 = (l, c)" by fastforce
  have v: "val l + ?P * unat c = val lo + ?b" "length l = ?n" "unat c \<le> 1"
    using mp_add_val [OF Suc.prems(1) _ l] Suc.prems(1) by auto
  have W: "val l + ?P * (unat hi + unat c) + e = BASE * ?P + ?b"
    using v(1) Suc.prems(2) by (simp add: distrib_left)
  have lt: "val l < ?P" using val_bound [of l] v(2) by simp
  show ?case
  proof (cases "e \<le> ?b")
    case True
    have "?P * BASE \<le> val l + ?P * (unat hi + unat c)" using W True by (simp add: mult.commute)
    then have "?P * BASE < ?P * (unat hi + unat c + 1)" using lt by (simp add: distrib_left)
    then have "BASE < unat hi + unat c + 1" by (simp only: mult_less_cancel1)
    then have hc: "unat hi + 1 = BASE" "unat c = 1" using v(3) limb_lt [of hi] by linarith+
    then have "hi + 1 = 0" "c \<noteq> 0" using unat_limb_add [of hi 1] by (auto simp: unat_eq_0 [symmetric])
    moreover have "unat hi + unat c = BASE" using hc by simp
    then have "val l + e = ?b" using W by (simp add: mult.commute)
    ultimately show ?thesis
      using l v(2) Suc.prems(3) by (intro exI [of _ 1] exI [of _ l]) simp
  next
    case False
    have "BASE * ?P = ?P * BASE" by simp
    then have "?P * (unat hi + unat c) < ?P * BASE" using W False by linarith
    then have hc: "unat hi + unat c < BASE" by (simp only: mult_less_cancel1)
    define hi' where "hi' = (if c \<noteq> 0 then hi + 1 else hi)"
    have c01: "unat c = (if c \<noteq> 0 then 1 else 0)" using v(3) unat_eq_0 [of c] by (auto simp: le_Suc_eq)
    have hi': "unat hi' = unat hi + unat c" 
    proof (cases "c = 0")
      case False
      then have "unat c = 1" using c01 by simp
      then show ?thesis using False hc unat_limb_add [of hi 1] by (simp add: hi'_def)
    qed (simp add: hi'_def)
    have nz: "hi + 1 \<noteq> 0" if "c \<noteq> 0"
    proof -
      have "unat (hi + 1) = Suc (unat hi)" using hi' c01 that by (simp add: hi'_def)
      then show ?thesis by (metis nat.distinct(1) unsigned_0)
    qed
    have "val l + ?P * unat hi' + (e - ?b) = BASE ^ Suc ?n" using W False hi' by simp
    moreover have "e - ?b \<le> k * ?b" "0 < e - ?b" using Suc.prems(4) False by auto
    ultimately obtain j lo' where j: "add_back k tabb (q - 1) l hi' = Some (q - 1 - of_nat j, lo', 0)" "length lo' = ?n"
      "val lo' + (e - ?b) = j * ?b" "val lo' < ?b"
      using Suc.IH [OF v(2), of hi' "e - ?b" "q - 1"] by blast
    have "add_back (Suc k) tabb q lo hi = add_back k tabb (q - 1) l hi'"
      using l nz by (simp add: hi'_def Let_def)
    then show ?thesis
      using j False by (intro exI [of _ "Suc j"] exI [of _ lo']) (simp add: algebra_simps)
  qed
qed simp

lemma quot_estimate_val:
  assumes "normalized b1" "b1_inv = 0 \<or> is_inverse b1 b1_inv"
  shows "unat (quot_estimate b1 b1_inv ah al) =
    (if unat b1 \<le> unat ah then BASE - 1 else (BASE * unat ah + unat al) div unat b1)"
proof (cases "unat b1 \<le> unat ah")
  case True
  then show ?thesis by (simp add: quot_estimate_def word_le_nat_alt unat_limb_minus_1)
next
  case False
  have q: "unat q = (BASE * unat ah + unat al) div unat b1"
    if "unat q * unat b1 + unat r = BASE * unat ah + unat al" "unat r < unat b1" for q r :: limb
    using that by (metis div_mult_self3 div_less add.right_neutral add.commute gr_implies_not0)
  show ?thesis
  proof (cases "b1_inv = 0")
    case True
    have "div_limb_ok b1 (\<lambda>r a. let a1 = dlimb_of r a in (ucast (a1 div ucast b1), ucast (a1 mod ucast b1)))"
      by (rule div_limb_plain)
    then have "unat (ucast (dlimb_of ah al div ucast b1) :: limb) = (BASE * unat ah + unat al) div unat b1"
      using False by (intro q [of _ "ucast (dlimb_of ah al mod ucast b1)"]) (auto simp: div_limb_ok_def Let_def)
    then show ?thesis using False True by (simp add: quot_estimate_def word_le_nat_alt)
  next
    case nz: False
    obtain q1 r1 where u: "udiv1norm ah al b1 b1_inv = (q1, r1)" by fastforce
    then show ?thesis
      using udiv1norm_ok [OF assms(1) _ _ u] assms(2) nz False q [of q1 r1]
      by (simp add: quot_estimate_def word_le_nat_alt)
  qed
qed

text \<open>One quotient limb; the window is \<open>lo0 @ [hi0]\<close>.\<close>

lemma quot_limb_ok:
  assumes "tabb = lb @ [b1]" "lb \<noteq> []" "normalized b1" "b1_inv = 0 \<or> is_inverse b1 b1_inv"
    and "length lo0 = length tabb" "val lo0 + BASE ^ length tabb * unat hi0 < BASE * val tabb" "2 \<le> k"
    and "q = quot_estimate b1 b1_inv hi0 (last lo0)" "mp_sub_mul1 lo0 tabb q = (lo, r)"
  shows "\<exists>q' lo'. (if hi0 < hi0 - r then add_back k tabb q lo (hi0 - r) else Some (q, lo, hi0 - r)) = Some (q', lo', 0) \<and>
    length lo' = length tabb \<and> val lo' < val tabb \<and>
    val lo0 + BASE ^ length tabb * unat hi0 = unat q' * val tabb + val lo'"
proof -
  let ?b = "val tabb" and ?n = "length tabb" and ?P = "BASE ^ length tabb"
  let ?A = "val lo0 + ?P * unat hi0"
  have lo0: "lo0 = butlast lo0 @ [last lo0]" using assms(1,5) by (metis append_butlast_last_id length_0_conv snoc_eq_iff_butlast)
  have len: "length (butlast lo0) = length lb" using assms(1,5) by simp
  have A: "?A = val (butlast lo0) + BASE ^ length lb * (BASE * unat hi0 + unat (last lo0))"
    using arg_cong [OF lo0, of val] len assms(1) by (simp add: val_append algebra_simps)
  have b: "?b = val lb + BASE ^ length lb * unat b1" using assms(1) by (simp add: val_append)
  have est: "?A < (unat q + 1) * ?b \<and> unat q * ?b \<le> ?A + 2 * ?b"
    by (rule quot_estimate_bounds [OF A _ limb_lt b val_bound _ assms(6) _ limb_lt])
      (use val_bound [of "butlast lo0"] len assms(3) quot_estimate_val [OF assms(3,4)] assms(8) in \<open>simp_all add: normalized_def\<close>)
  have v: "val lo + ?b * unat q = val lo0 + ?P * unat r" "length lo = ?n"
    using sub_mul1_val [OF assms(5), of q 0 lo r] assms(9) by (auto simp: mp_sub_mul1_def)
  have h: "unat (hi0 - r) + unat r = unat hi0 + BASE * (if hi0 < hi0 - r then 1 else 0)" by (rule sub_ui_limb)
  have "?P * (unat (hi0 - r) + unat r) = ?P * (unat hi0 + BASE * (if hi0 < hi0 - r then 1 else 0))" by (simp only: h)
  then have W: "val lo + ?P * unat (hi0 - r) + unat q * ?b = ?A + BASE * ?P * (if hi0 < hi0 - r then 1 else 0)"
    using v(1) by (simp add: algebra_simps)
  show ?thesis
  proof (cases "hi0 < hi0 - r")
    case False
    then have W': "val lo + ?P * unat (hi0 - r) + unat q * ?b = ?A" using W by simp
    then have "val lo + ?P * unat (hi0 - r) < ?b" using est by simp
    moreover have "?b < ?P" by (rule val_bound)
    ultimately have "?P * unat (hi0 - r) < ?P * 1" by linarith
    then have "unat (hi0 - r) = 0" by (simp only: mult_less_cancel1) simp
    then show ?thesis using False W' est v(2) by (auto simp: unat_eq_0)
  next
    case True
    define e where "e = unat q * ?b - ?A"
    have "val lo + ?P * unat (hi0 - r) < BASE * ?P"
      using val_bound [of "lo @ [hi0 - r]"] v(2) by (simp add: val_append)
    then have e: "0 < e" "unat q * ?b = ?A + e" "val lo + ?P * unat (hi0 - r) + e = BASE ^ Suc ?n" "e \<le> 2 * ?b"
      using W True est by (auto simp: e_def)
    have "e \<le> k * ?b" using e(4) mult_le_mono1 [OF assms(7), of ?b] by linarith
    then obtain j lo' where j: "add_back k tabb q lo (hi0 - r) = Some (q - of_nat j, lo', 0)" "length lo' = ?n"
      "val lo' + e = j * ?b" "val lo' < ?b"
      using add_back_ok [OF v(2) e(3,1), of k q] by blast
    have "j \<le> unat q"
    proof (rule ccontr)
      assume "\<not> j \<le> unat q"
      then have "(unat q + 1) * ?b \<le> j * ?b" by (intro mult_le_mono1) simp
      then show False using e(2) j(3,4) by simp
    qed
    moreover have "unat (of_nat j :: limb) = j"
      using \<open>j \<le> unat q\<close> limb_lt [of q] by (simp add: unsigned_of_nat take_bit_nat_eq_self_iff BASE_def)
    ultimately have q': "unat (q - of_nat j) = unat q - j" using unat_limb_sub [of q "of_nat j"] by simp
    have "(unat q - j) * ?b + j * ?b = unat q * ?b" using \<open>j \<le> unat q\<close> by (simp flip: distrib_right)
    then have "?A = (unat q - j) * ?b + val lo'" using e(2) j(3) by linarith
    then show ?thesis using True j q' by auto
  qed
qed

text \<open>The loop: the number above position \<open>i\<close> is divided, with the quotient limbs found so far in \<open>tabq\<close>.\<close>

lemma div_step_ok:
  assumes "tabb = lb @ [b1]" "lb \<noteq> []" "normalized b1" "b1_inv = 0 \<or> is_inverse b1 b1_inv" "2 \<le> k"
    and "Suc (i + length tabb) \<le> length taba" "val (take (Suc (i + length tabb)) taba) < BASE ^ Suc i * val tabb"
  shows "\<exists>q taba'. div_step k tabb b1 b1_inv i taba = Some (q, taba') \<and> length taba' = length taba \<and>
    val (take (Suc (i + length tabb)) taba) = val (take (i + length tabb) taba') + BASE ^ i * (unat q * val tabb) \<and>
    val (take (i + length tabb) taba') < BASE ^ i * val tabb"
proof -
  let ?n = "length tabb" and ?b = "val tabb"
  define lo0 where "lo0 = take ?n (drop i taba)"
  define hi0 where "hi0 = taba ! (i + ?n)"
  have n: "0 < ?n" using assms(1) by simp
  have l0: "length lo0 = ?n" using assms(6) by (simp add: lo0_def)
  have last: "taba ! (i + ?n - 1) = last lo0"
  proof -
    have "last lo0 = lo0 ! (?n - 1)" using l0 n by (metis last_conv_nth length_greater_0_conv)
    also have "\<dots> = taba ! (i + (?n - 1))" using assms(6) n by (simp add: lo0_def)
    finally show ?thesis using n by simp
  qed
  have "take (Suc (i + ?n)) taba = take (i + ?n) taba @ [hi0]" using assms(6) by (simp add: take_Suc_conv_app_nth hi0_def)
  also have "take (i + ?n) taba = take i taba @ lo0" by (simp add: take_add lo0_def)
  finally have T: "take (Suc (i + ?n)) taba = take i taba @ lo0 @ [hi0]" by simp
  define A where "A = val lo0 + BASE ^ ?n * unat hi0"
  have V: "val (take (Suc (i + ?n)) taba) = val (take i taba) + BASE ^ i * A"
    unfolding T using assms(6) l0 by (simp add: val_append A_def)
  have "BASE ^ Suc i * ?b = BASE ^ i * (BASE * ?b)" by simp
  then have "BASE ^ i * A < BASE ^ i * (BASE * ?b)" using V assms(7) by linarith
  then have A: "A < BASE * ?b" by (simp only: mult_less_cancel1)
  define q where "q = quot_estimate b1 b1_inv hi0 (last lo0)"
  obtain lo r where lr: "mp_sub_mul1 lo0 tabb q = (lo, r)" by fastforce
  obtain q' lo' where q': "(if hi0 < hi0 - r then add_back k tabb q lo (hi0 - r) else Some (q, lo, hi0 - r)) = Some (q', lo', 0)"
    "length lo' = ?n" "val lo' < ?b" "A = unat q' * ?b + val lo'"
    using quot_limb_ok [OF assms(1-4) l0 _ assms(5) q_def lr] A unfolding A_def by blast
  have s: "div_step k tabb b1 b1_inv i taba = Some (q', patch taba i (lo' @ [0]))"
    using lr q'(1) unfolding div_step_def Let_def last lo0_def [symmetric] hi0_def [symmetric] q_def [symmetric] by simp
  have "take (i + ?n) (patch taba i (lo' @ [0])) = take i taba @ lo'"
    using q'(2) assms(6) by (simp add: patch_def)
  then have V': "val (take (i + ?n) (patch taba i (lo' @ [0]))) = val (take i taba) + BASE ^ i * val lo'"
    using assms(6) by (simp add: val_append)
  have "val (take i taba) < BASE ^ i" using val_bound [of "take i taba"] assms(6) by simp
  moreover have "BASE ^ i * (val lo' + 1) \<le> BASE ^ i * ?b" using q'(3) by (intro mult_le_mono2) simp
  ultimately have "val (take i taba) + BASE ^ i * val lo' < BASE ^ i * ?b" by (simp add: distrib_left)
  moreover have "val (take (Suc (i + ?n)) taba) = val (take i taba) + BASE ^ i * val lo' + BASE ^ i * (unat q' * ?b)"
    unfolding V q'(4) by (simp add: distrib_left)
  ultimately show ?thesis
    using s V' length_patch [of i "lo' @ [0]" taba] q'(2) assms(6) by auto
qed

lemma div_loop_ok:
  assumes "tabb = lb @ [b1]" "lb \<noteq> []" "normalized b1" "b1_inv = 0 \<or> is_inverse b1 b1_inv" "2 \<le> k"
    and "i + length tabb \<le> length taba" "val (take (i + length tabb) taba) < BASE ^ i * val tabb"
  shows "\<exists>qs taba'. div_loop k tabb b1 b1_inv i tabq taba = Some (qs @ tabq, taba') \<and> length qs = i \<and>
    val (take (i + length tabb) taba) = val qs * val tabb + val (take (length tabb) taba') \<and>
    val (take (length tabb) taba') < val tabb"
  using assms(6,7)
proof (induction i arbitrary: tabq taba)
  case 0
  then show ?case by auto
next
  case (Suc i)
  obtain q t where t: "div_step k tabb b1 b1_inv i taba = Some (q, t)" "length t = length taba"
    "val (take (Suc (i + length tabb)) taba) = val (take (i + length tabb) t) + BASE ^ i * (unat q * val tabb)"
    "val (take (i + length tabb) t) < BASE ^ i * val tabb"
    using div_step_ok [OF assms(1-5), of i taba] Suc.prems by auto
  obtain qs taba' where r: "div_loop k tabb b1 b1_inv i (q # tabq) t = Some (qs @ q # tabq, taba')" "length qs = i"
    "val (take (i + length tabb) t) = val qs * val tabb + val (take (length tabb) taba')"
    "val (take (length tabb) taba') < val tabb"
    using Suc.IH [of t "q # tabq"] t(2,4) Suc.prems by auto
  have "val (qs @ [q]) * val tabb = val qs * val tabb + BASE ^ i * (unat q * val tabb)"
    using r(2) by (simp add: val_append algebra_simps)
  then show ?case
    using t(1,3) r by (intro exI [of _ "qs @ [q]"] exI [of _ taba']) simp
qed

lemma first_quot_val:
  assumes "length as = length bs"
  shows "first_quot (rev as) (rev bs) = (if val bs \<le> val as then 1 else 0)"
  using assms
proof (induction as bs rule: rev_induct2)
  case (4 a as b bs)
  have l: "length as = length bs" using "4.prems" by simp
  have "val as < BASE ^ length bs" "val bs < BASE ^ length bs" using val_bound [of as] val_bound [of bs] l by auto
  moreover have "BASE ^ length bs * unat a + BASE ^ length bs \<le> BASE ^ length bs * unat b" if "a < b"
    using that by (metis Suc_leI add.commute mult_Suc_right mult_le_mono2 word_less_nat_alt)
  moreover have "BASE ^ length bs * unat b + BASE ^ length bs \<le> BASE ^ length bs * unat a" if "b < a"
    using that by (metis Suc_leI add.commute mult_Suc_right mult_le_mono2 word_less_nat_alt)
  ultimately show ?case using "4.IH" [OF l] l by (cases a b rule: linorder_cases) (auto simp: val_append)
qed auto

text \<open>The first subtraction leaves the top of the dividend below the divisor.\<close>

lemma first_step_ok:
  assumes "tabb = lb @ [b1]" "normalized b1" "length t = length tabb" "q = first_quot (rev t) (rev tabb)"
    and "t' = (if q \<noteq> 0 then fst (mp_sub t tabb 0) else t)"
  shows "length t' = length tabb \<and> val t = unat q * val tabb + val t' \<and> val t' < val tabb"
proof (cases "val tabb \<le> val t")
  case True
  let ?P = "BASE ^ length tabb"
  have q: "q = 1" using True first_quot_val [OF assms(3)] assms(4) by simp
  obtain c where c: "mp_sub t tabb 0 = (t', c)" using q assms(5) by (metis prod.collapse one_neq_zero)
  have v: "val t' + val tabb = val t + ?P * unat c" "length t' = length tabb" "unat c \<le> 1"
    using mp_sub_val [OF assms(3) _ c] assms(3) by auto
  have lt: "val t < ?P" "val t' < ?P" using val_bound [of t] val_bound [of t'] v(2) assms(3) by simp_all
  have "unat c = 0" using v(1,3) lt(2) True by (cases "unat c") auto
  moreover have "?P \<le> 2 * val tabb"
  proof -
    have "BASE ^ length lb * BASE \<le> BASE ^ length lb * (2 * unat b1)" using assms(2) unfolding normalized_def by (rule mult_le_mono2)
    moreover have "val tabb = val lb + BASE ^ length lb * unat b1" using assms(1) by (simp add: val_append)
    moreover have "?P = BASE ^ length lb * BASE" using assms(1) by simp
    moreover have "BASE ^ length lb * (2 * unat b1) = 2 * (BASE ^ length lb * unat b1)" by simp
    ultimately show ?thesis by linarith
  qed
  ultimately show ?thesis using q v lt by auto
next
  case False
  then have "q = 0" using first_quot_val [OF assms(3)] assms(4) by simp
  then show ?thesis using False assms(3,5) by simp
qed

lemma mp_divnorm_base_ok:
  assumes "tabb \<noteq> []" "normalized (last tabb)" "length tabb \<le> length taba" "2 \<le> k"
  shows "\<exists>tabq taba'. mp_divnorm_base k taba tabb = Some (tabq, taba') \<and> length tabq = length taba - length tabb + 1 \<and>
    val taba = val tabq * val tabb + val (take (length tabb) taba') \<and> val (take (length tabb) taba') < val tabb"
proof (cases "length tabb = 1")
  case True
  then obtain b1 where b: "tabb = [b1]" by (auto simp: length_Suc_conv)
  obtain tabq r where d: "mp_div1norm taba b1 0 = (tabq, r)" by fastforce
  have "unat (0 :: limb) < unat b1" using assms(2) b by (auto simp: normalized_def BASE_def)
  then have v: "val tabq * unat b1 + unat r = val taba" "unat r < unat b1" "length tabq = length taba"
    using mp_div1norm_val [OF _ _ d] assms(2) b by auto
  have "taba \<noteq> []" using assms(3) b by auto
  then have "take 1 (taba[0 := r]) = [r]" by (cases taba) auto
  then show ?thesis using b d v assms(3) by (auto simp: mp_divnorm_base_def)
next
  case False
  define b1 lb where "b1 = last tabb" and "lb = butlast tabb"
  have "2 \<le> length tabb" using assms(1) False by (cases tabb; cases "tl tabb") auto
  then have "0 < length lb" by (simp add: lb_def)
  then have b: "tabb = lb @ [b1]" "lb \<noteq> []" "tabb ! (length tabb - 1) = b1"
  proof -
    show "tabb = lb @ [b1]" using assms(1) by (simp add: lb_def b1_def)
    show "tabb ! (length tabb - 1) = b1" using assms(1) by (simp add: b1_def last_conv_nth)
  qed auto
  define n where "n = length taba - length tabb"
  define b1_inv where "b1_inv = (if n \<ge> UDIV1NORM_THRESHOLD then udiv1norm_init b1 else 0)"
  have inv: "b1_inv = 0 \<or> is_inverse b1 b1_inv"
    using udiv1norm_init_ok [of b1] assms(2) by (simp add: b1_inv_def b1_def)
  define q where "q = first_quot (rev (drop n taba)) (rev tabb)"
  define t' where "t' = (if q \<noteq> 0 then fst (mp_sub (drop n taba) tabb 0) else drop n taba)"
  define a where "a = (if q \<noteq> 0 then patch taba n (fst (mp_sub (drop n taba) tabb 0)) else taba)"
  have l: "length (drop n taba) = length tabb" "n + length tabb = length taba" using assms(3) by (auto simp: n_def)
  have f: "length t' = length tabb \<and> val (drop n taba) = unat q * val tabb + val t' \<and> val t' < val tabb"
    using first_step_ok [OF b(1) _ l(1) q_def t'_def] assms(2) by (simp add: b1_def)
  have a: "a = take n taba @ t'" using f l by (auto simp: a_def t'_def patch_def)
  have vt: "val taba = val (take n taba) + BASE ^ n * val (drop n taba)"
    using val_append [of "take n taba" "drop n taba"] l by simp
  have va: "val a = val (take n taba) + BASE ^ n * val t'" using a l by (simp add: val_append)
  have "val (take n taba) < BASE ^ n" using val_bound [of "take n taba"] l by simp
  moreover have "BASE ^ n * (val t' + 1) \<le> BASE ^ n * val tabb" using f by (intro mult_le_mono2) simp
  ultimately have "val a < BASE ^ n * val tabb" using va by (simp add: distrib_left)
  moreover have "length a = length taba" "take (n + length tabb) a = a" using a f l by auto
  ultimately obtain qs taba' where d: "div_loop k tabb b1 b1_inv n [q] a = Some (qs @ [q], taba')" "length qs = n"
    "val a = val qs * val tabb + val (take (length tabb) taba')" "val (take (length tabb) taba') < val tabb"
    using div_loop_ok [OF b(1,2) _ inv assms(4), of n a "[q]"] assms(2) l by (auto simp: b1_def)
  have "mp_divnorm_base k taba tabb = div_loop k tabb b1 b1_inv n [q] a"
    using False b(3) unfolding mp_divnorm_base_def Let_def n_def [symmetric] q_def [symmetric] a_def [symmetric]
    by (simp add: b1_inv_def)
  moreover have "val taba = val (qs @ [q]) * val tabb + val (take (length tabb) taba')"
    using vt va d(2,3) f by (simp add: val_append algebra_simps)
  ultimately show ?thesis using d by (auto simp: n_def)
qed

subsection \<open>Properties\<close>

text \<open>
  C26: The division of two limbs by a normalized limb through the precomputed inverse, which multiplies, compares and
  corrects with wrapping arithmetic only, is exact: it returns the quotient and the remainder.
\<close>

theorem udiv1norm_exact:
  assumes "normalized d" "unat a1 < unat d"
  shows "udiv1norm a1 a0 d (udiv1norm_init d) =
    (of_nat ((BASE * unat a1 + unat a0) div unat d), of_nat ((BASE * unat a1 + unat a0) mod unat d))"
proof -
  obtain q r where u: "udiv1norm a1 a0 d (udiv1norm_init d) = (q, r)" by fastforce
  have v: "BASE * unat a1 + unat a0 = unat q * unat d + unat r" "unat r < unat d"
    using udiv1norm_ok [OF assms(1) udiv1norm_init_ok [OF assms(1)] assms(2) u] by auto
  have "(BASE * unat a1 + unat a0) div unat d = unat q" "(BASE * unat a1 + unat a0) mod unat d = unat r"
    unfolding v(1) using v(2) by simp_all
  then show ?thesis using u by simp
qed

theorem udiv1norm_exact_witness: "udiv1norm 5 7 0x8000000000000000 (udiv1norm_init 0x8000000000000000) = (10, 7)"
  using udiv1norm_exact [of "0x8000000000000000" 5 7] by (simp add: normalized_def BASE_def)

text \<open>
  C25: The schoolbook division always ends, with at most two corrections per quotient limb (fuel 2 for the inner loop),
  and leaves the quotient in \<open>tabq\<close> and the remainder in the first \<open>nb\<close> limbs of the dividend.
\<close>

theorem mp_divnorm_divides:
  assumes "tabb \<noteq> []" "normalized (last tabb)" "length tabb \<le> length taba" "2 \<le> k"
  shows "\<exists>tabq taba'. mp_divnorm_base k taba tabb = Some (tabq, taba') \<and> length tabq = length taba - length tabb + 1 \<and>
    val tabq = val taba div val tabb \<and> val (take (length tabb) taba') = val taba mod val tabb"
proof -
  obtain tabq taba' where d: "mp_divnorm_base k taba tabb = Some (tabq, taba')" "length tabq = length taba - length tabb + 1"
    "val taba = val tabq * val tabb + val (take (length tabb) taba')" "val (take (length tabb) taba') < val tabb"
    using mp_divnorm_base_ok [OF assms] by blast
  have "val taba div val tabb = val tabq" "val taba mod val tabb = val (take (length tabb) taba')"
    unfolding d(3) using d(4) by simp_all
  then show ?thesis using d by auto
qed

theorem mp_divnorm_divides_witness:
  "\<exists>tabq taba'. mp_divnorm_base 2 [0, 0, 1] [1, 0x8000000000000000] = Some (tabq, taba') \<and> length tabq = 2 \<and> val tabq = 1"
  using mp_divnorm_divides [of "[1, 0x8000000000000000]" "[0, 0, 1]" 2] by (auto simp: normalized_def BASE_def)

end
