(* ===== verification/Regexp.thy ===== *)
theory Regexp
  imports Cutils UnicodeCase
begin

text \<open>
  The executor of regular expressions, \<open>lre_exec\<close> and \<open>lre_exec_backtrack\<close> of \<open>qjs/libregexp.c\<close>:
  a machine for byte code with a stack of states to return to. The subject is a list of 16-bit units
  (8-bit characters are zero-extended) and \<open>cptr\<close> an index into it, so that a step of two bytes of the source
  is a step of one unit; \<open>pc\<close> is an index into the code. A capture is an index or \<open>None\<close> for \<open>NULL\<close>. The
  counter stack is a list with its top first, whose length is \<open>stack_len\<close>. \<open>None\<close> stands for a read
  outside the code or the subject and for \<open>abort\<close>, and for an instruction in the body of a simple quantifier that is not one of those the
  compiler puts there (tests of one character and assertions).
\<close>

subsection \<open>Code and context\<close>

record re_ctx =
  bc_buf :: "u8 list"
  cbuf :: "u16 list"
  cbuf_type :: nat
  capture_count :: nat
  stack_size_max :: nat
  multi_line :: bool
  ignore_case :: bool
  is_utf16 :: bool
  re_tables :: unicode_tables
  realloc_ok :: "nat \<Rightarrow> bool"

datatype REOPCode =
    REOP_invalid | REOP_char | REOP_char32 | REOP_dot | REOP_any | REOP_line_start | REOP_line_end | REOP_goto
  | REOP_split_goto_first | REOP_split_next_first | REOP_match | REOP_save_start | REOP_save_end | REOP_save_reset
  | REOP_loop | REOP_push_i32 | REOP_drop | REOP_word_boundary | REOP_not_word_boundary | REOP_back_reference
  | REOP_backward_back_reference | REOP_range | REOP_range32 | REOP_lookahead | REOP_negative_lookahead
  | REOP_push_char_pos | REOP_bne_char_pos | REOP_prev | REOP_simple_greedy_quant

definition reop_table :: "(REOPCode \<times> nat) list" where
  "reop_table = [(REOP_invalid, 1), (REOP_char, 3), (REOP_char32, 5), (REOP_dot, 1), (REOP_any, 1), (REOP_line_start, 1),
     (REOP_line_end, 1), (REOP_goto, 5), (REOP_split_goto_first, 5), (REOP_split_next_first, 5), (REOP_match, 1),
     (REOP_save_start, 2), (REOP_save_end, 2), (REOP_save_reset, 3), (REOP_loop, 5), (REOP_push_i32, 5), (REOP_drop, 1),
     (REOP_word_boundary, 1), (REOP_not_word_boundary, 1), (REOP_back_reference, 2), (REOP_backward_back_reference, 2),
     (REOP_range, 3), (REOP_range32, 3), (REOP_lookahead, 5), (REOP_negative_lookahead, 5), (REOP_push_char_pos, 1),
     (REOP_bne_char_pos, 5), (REOP_prev, 1), (REOP_simple_greedy_quant, 17)]"

definition opcode :: "u8 \<Rightarrow> REOPCode option" where
  "opcode b = map_option fst (rd reop_table (unat b))"

definition op_at :: "re_ctx \<Rightarrow> nat \<Rightarrow> REOPCode option" where
  "op_at ctx pc = Option.bind (rd (bc_buf ctx) pc) opcode"

definition u8_at :: "re_ctx \<Rightarrow> nat \<Rightarrow> nat option" where
  "u8_at ctx pc = map_option unat (rd (bc_buf ctx) pc)"

definition u16_at :: "re_ctx \<Rightarrow> nat \<Rightarrow> u32 option" where
  "u16_at ctx pc = get_u16 (drop pc (bc_buf ctx))"

definition u32_at :: "re_ctx \<Rightarrow> nat \<Rightarrow> u32 option" where
  "u32_at ctx pc = get_u32 (drop pc (bc_buf ctx))"

text \<open>\<open>pc + (int)val\<close>.\<close>

definition jump :: "nat \<Rightarrow> u32 \<Rightarrow> nat option" where
  "jump pc val = (if int pc + sint val < 0 then None else Some (nat (int pc + sint val)))"

subsection \<open>Characters\<close>

definition is_line_terminator :: "u32 \<Rightarrow> bool" where
  "is_line_terminator c \<longleftrightarrow> c = 10 \<or> c = 13 \<or> c = 0x2028 \<or> c = 0x2029"

definition is_word_char :: "u32 \<Rightarrow> bool" where
  "is_word_char c \<longleftrightarrow> (c \<ge> 48 \<and> c \<le> 57) \<or> (c \<ge> 97 \<and> c \<le> 122) \<or> (c \<ge> 65 \<and> c \<le> 90) \<or> c = 95"

definition is_hi_surrogate :: "u32 \<Rightarrow> bool" where
  "is_hi_surrogate c \<longleftrightarrow> c \<ge> 0xd800 \<and> c < 0xdc00"

definition is_lo_surrogate :: "u32 \<Rightarrow> bool" where
  "is_lo_surrogate c \<longleftrightarrow> c \<ge> 0xdc00 \<and> c < 0xe000"

definition from_surrogates :: "u32 \<Rightarrow> u32 \<Rightarrow> u32" where
  "from_surrogates hi lo = (push_bit 10 (hi AND 0x3ff) OR (lo AND 0x3ff)) + 0x10000"

definition unit_at :: "re_ctx \<Rightarrow> nat \<Rightarrow> u32 option" where
  "unit_at ctx i = map_option ucast (rd (cbuf ctx) i)"

definition GET_CHAR :: "re_ctx \<Rightarrow> nat \<Rightarrow> nat \<Rightarrow> (u32 \<times> nat) option" where
  "GET_CHAR ctx cptr cbuf_end =
     do { c \<leftarrow> unit_at ctx cptr;
          if is_hi_surrogate c \<and> cbuf_type ctx = 2 \<and> cptr + 1 < cbuf_end
          then do { c1 \<leftarrow> unit_at ctx (cptr + 1);
                    Some (if is_lo_surrogate c1 then (from_surrogates c c1, cptr + 2) else (c, cptr + 1)) }
          else Some (c, cptr + 1) }"

definition PEEK_CHAR :: "re_ctx \<Rightarrow> nat \<Rightarrow> nat \<Rightarrow> u32 option" where
  "PEEK_CHAR ctx cptr cbuf_end = map_option fst (GET_CHAR ctx cptr cbuf_end)"

definition GET_PREV_CHAR :: "re_ctx \<Rightarrow> nat \<Rightarrow> nat \<Rightarrow> (u32 \<times> nat) option" where
  "GET_PREV_CHAR ctx cptr cbuf_start =
     (if cptr = 0 then None else
      do { c \<leftarrow> unit_at ctx (cptr - 1);
           if is_lo_surrogate c \<and> cbuf_type ctx = 2 \<and> cptr - 1 > cbuf_start
           then do { c1 \<leftarrow> unit_at ctx (cptr - 2);
                     Some (if is_hi_surrogate c1 then (from_surrogates c1 c, cptr - 2) else (c, cptr - 1)) }
           else Some (c, cptr - 1) })"

definition PEEK_PREV_CHAR :: "re_ctx \<Rightarrow> nat \<Rightarrow> nat \<Rightarrow> u32 option" where
  "PEEK_PREV_CHAR ctx cptr cbuf_start = map_option fst (GET_PREV_CHAR ctx cptr cbuf_start)"

definition PREV_CHAR :: "re_ctx \<Rightarrow> nat \<Rightarrow> nat \<Rightarrow> nat option" where
  "PREV_CHAR ctx cptr cbuf_start =
     (if cptr = 0 then None
      else if cbuf_type ctx = 2 then map_option snd (GET_PREV_CHAR ctx cptr cbuf_start)
      else Some (cptr - 1))"

fun PREV_CHARS :: "nat \<Rightarrow> re_ctx \<Rightarrow> nat \<Rightarrow> nat option" where
  "PREV_CHARS 0 ctx cptr = Some cptr"
| "PREV_CHARS (Suc n) ctx cptr = Option.bind (PREV_CHAR ctx cptr 0) (PREV_CHARS n ctx)"

definition lre_canonicalize :: "unicode_tables \<Rightarrow> u32 \<Rightarrow> bool \<Rightarrow> u32 option" where
  "lre_canonicalize T c utf16 =
     (if utf16 then
        (if c < 128 then Some (if c \<ge> 65 \<and> c \<le> 90 then c - 65 + 97 else c)
         else do { res \<leftarrow> lre_case_conv T c 2; rd res 0 })
      else
        (if c < 128 then Some (if c \<ge> 97 \<and> c \<le> 122 then c - 97 + 65 else c)
         else do { res \<leftarrow> lre_case_conv T c 0; r \<leftarrow> rd res 0; Some (if length res = 1 \<and> r \<ge> 128 then r else c) }))"

definition fold_char :: "re_ctx \<Rightarrow> u32 \<Rightarrow> u32 option" where
  "fold_char ctx c = (if ignore_case ctx then lre_canonicalize (re_tables ctx) c (is_utf16 ctx) else Some c)"

subsection \<open>Ranges\<close>

text \<open>
  The binary search of \<open>REOP_range\<close> and \<open>REOP_range32\<close> over the pairs of the instruction. The index is unsigned:
  below 0 it would wrap and the next read miss the code.
\<close>

function range_search :: "(nat \<Rightarrow> (u32 \<times> u32) option) \<Rightarrow> u32 \<Rightarrow> nat \<Rightarrow> nat \<Rightarrow> bool option" where
  "range_search pair c idx_min idx_max =
     (if idx_min \<le> idx_max then
        let idx = (idx_min + idx_max) div 2
        in case pair idx of
             None \<Rightarrow> None
           | Some (low, high) \<Rightarrow>
               if c < low then (if idx = 0 then None else range_search pair c idx_min (idx - 1))
               else if c > high then range_search pair c (idx + 1) idx_max
               else Some True
      else Some False)"
  by pat_completeness auto
termination
  by (relation "measure (\<lambda>(pair, c, idx_min, idx_max). Suc idx_max - idx_min)") auto

declare range_search.simps [simp del]

definition pair16 :: "re_ctx \<Rightarrow> nat \<Rightarrow> nat \<Rightarrow> (u32 \<times> u32) option" where
  "pair16 ctx pc i = do { low \<leftarrow> u16_at ctx (pc + i * 4); high \<leftarrow> u16_at ctx (pc + i * 4 + 2); Some (low, high) }"

definition pair32 :: "re_ctx \<Rightarrow> nat \<Rightarrow> nat \<Rightarrow> (u32 \<times> u32) option" where
  "pair32 ctx pc i = do { low \<leftarrow> u32_at ctx (pc + i * 8); high \<leftarrow> u32_at ctx (pc + i * 8 + 4); Some (low, high) }"

definition range_test :: "(nat \<Rightarrow> (u32 \<times> u32) option) \<Rightarrow> bool \<Rightarrow> nat \<Rightarrow> u32 \<Rightarrow> bool option" where
  "range_test pair open_end n c =
     do { (low, _) \<leftarrow> pair 0;
          if c < low then Some False
          else if n = 0 then None
          else do { (_, high) \<leftarrow> pair (n - 1);
                    if open_end \<and> c \<ge> 0xffff \<and> high = 0xffff then Some True
                    else if c > high then Some False
                    else range_search pair c 0 (n - 1) } }"

subsection \<open>Instructions that test the subject\<close>

text \<open>
  The instructions that \<open>re_is_simple_quantifier\<close> admits: they test the subject at \<open>cptr\<close>, may advance it, and
  touch nothing else. The position after the instruction is part of the result; \<open>Reject\<close> is the jump to \<open>no_match\<close>.
\<close>

datatype test_result = Reject | Accept nat nat

definition is_simple_op :: "REOPCode \<Rightarrow> bool" where
  "is_simple_op oc \<longleftrightarrow> oc \<in> {REOP_char, REOP_char32, REOP_dot, REOP_any, REOP_range, REOP_range32, REOP_line_start,
     REOP_line_end, REOP_word_boundary, REOP_not_word_boundary}"

definition accept_if :: "bool \<Rightarrow> nat \<Rightarrow> nat \<Rightarrow> test_result" where
  "accept_if b pc cptr = (if b then Accept pc cptr else Reject)"

definition test_char :: "re_ctx \<Rightarrow> (u32 \<Rightarrow> bool option) \<Rightarrow> nat \<Rightarrow> nat \<Rightarrow> test_result option" where
  "test_char ctx ok pc cptr =
     (if cptr \<ge> length (cbuf ctx) then Some Reject
      else do { (c, cptr') \<leftarrow> GET_CHAR ctx cptr (length (cbuf ctx)); b \<leftarrow> ok c; Some (accept_if b pc cptr') })"

definition folded :: "re_ctx \<Rightarrow> (u32 \<Rightarrow> bool option) \<Rightarrow> u32 \<Rightarrow> bool option" where
  "folded ctx ok c = Option.bind (fold_char ctx c) ok"

definition word_before :: "re_ctx \<Rightarrow> nat \<Rightarrow> bool option" where
  "word_before ctx cptr = (if cptr = 0 then Some False else map_option is_word_char (PEEK_PREV_CHAR ctx cptr 0))"

definition word_after :: "re_ctx \<Rightarrow> nat \<Rightarrow> bool option" where
  "word_after ctx cptr =
     (if cptr \<ge> length (cbuf ctx) then Some False
      else map_option is_word_char (PEEK_CHAR ctx cptr (length (cbuf ctx))))"

definition simple_op :: "re_ctx \<Rightarrow> REOPCode \<Rightarrow> nat \<Rightarrow> nat \<Rightarrow> test_result option" where
  "simple_op ctx oc pc cptr =
     (let cbuf_end = length (cbuf ctx) in
      case oc of
        REOP_char32 \<Rightarrow> do { val \<leftarrow> u32_at ctx pc; test_char ctx (folded ctx (\<lambda>c. Some (val = c))) (pc + 4) cptr }
      | REOP_char \<Rightarrow> do { val \<leftarrow> u16_at ctx pc; test_char ctx (folded ctx (\<lambda>c. Some (val = c))) (pc + 2) cptr }
      | REOP_line_start \<Rightarrow>
          if cptr = 0 then Some (Accept pc cptr)
          else if \<not> multi_line ctx then Some Reject
          else do { c \<leftarrow> PEEK_PREV_CHAR ctx cptr 0; Some (accept_if (is_line_terminator c) pc cptr) }
      | REOP_line_end \<Rightarrow>
          if cptr = cbuf_end then Some (Accept pc cptr)
          else if \<not> multi_line ctx then Some Reject
          else do { c \<leftarrow> PEEK_CHAR ctx cptr cbuf_end; Some (accept_if (is_line_terminator c) pc cptr) }
      | REOP_dot \<Rightarrow>
          if cptr = cbuf_end then Some Reject
          else do { (c, cptr') \<leftarrow> GET_CHAR ctx cptr cbuf_end; Some (accept_if (\<not> is_line_terminator c) pc cptr') }
      | REOP_any \<Rightarrow>
          if cptr = cbuf_end then Some Reject
          else do { (c, cptr') \<leftarrow> GET_CHAR ctx cptr cbuf_end; Some (Accept pc cptr') }
      | REOP_word_boundary \<Rightarrow>
          do { v1 \<leftarrow> word_before ctx cptr; v2 \<leftarrow> word_after ctx cptr; Some (accept_if (v1 \<noteq> v2) pc cptr) }
      | REOP_not_word_boundary \<Rightarrow>
          do { v1 \<leftarrow> word_before ctx cptr; v2 \<leftarrow> word_after ctx cptr; Some (accept_if (v1 = v2) pc cptr) }
      | REOP_range \<Rightarrow>
          do { n \<leftarrow> u16_at ctx pc;
               test_char ctx (folded ctx (range_test (pair16 ctx (pc + 2)) True (unat n))) (pc + 2 + 4 * unat n) cptr }
      | REOP_range32 \<Rightarrow>
          do { n \<leftarrow> u16_at ctx pc;
               test_char ctx (folded ctx (range_test (pair32 ctx (pc + 2)) False (unat n))) (pc + 2 + 8 * unat n) cptr }
      | _ \<Rightarrow> None)"

lemma test_char_pc: "test_char ctx ok pc cptr = Some (Accept pc' cptr') \<Longrightarrow> pc' = pc"
  by (auto simp: test_char_def accept_if_def Let_def bind_eq_Some_conv split: if_splits prod.splits)

lemma simple_op_pc: "simple_op ctx oc pc cptr = Some (Accept pc' cptr') \<Longrightarrow> pc \<le> pc'"
  by (auto simp: simple_op_def accept_if_def Let_def bind_eq_Some_conv dest!: test_char_pc
      split: REOPCode.splits if_splits prod.splits)

text \<open>
  \<open>lre_exec_backtrack\<close> with \<open>no_recurse\<close>: the body of a simple quantifier, up to its \<open>REOP_match\<close>. The result is the
  position reached, or \<open>Some None\<close> for no match.
\<close>

function exec_no_recurse :: "re_ctx \<Rightarrow> nat \<Rightarrow> nat \<Rightarrow> nat option option" where
  "exec_no_recurse ctx pc cptr =
     (case op_at ctx pc of
        None \<Rightarrow> None
      | Some oc \<Rightarrow>
          if oc = REOP_match then Some (Some cptr)
          else case simple_op ctx oc (pc + 1) cptr of
                 None \<Rightarrow> None
               | Some Reject \<Rightarrow> Some None
               | Some (Accept pc' cptr') \<Rightarrow> exec_no_recurse ctx pc' cptr')"
  by pat_completeness auto
termination
proof (relation "measure (\<lambda>(ctx, pc, cptr). length (bc_buf ctx) - pc)", goal_cases)
  case (2 ctx pc cptr oc r pc' cptr')
  have "pc < length (bc_buf ctx)" using 2(1) by (auto simp: op_at_def rd_eq split: if_splits)
  with 2 show ?case by (auto dest: simple_op_pc)
qed simp

declare exec_no_recurse.simps [simp del]

lemma GET_CHAR_bounds:
  "GET_CHAR ctx cptr e = Some (c, cptr') \<Longrightarrow> cptr < cptr' \<and> cptr' \<le> length (cbuf ctx)"
  by (auto simp: GET_CHAR_def unit_at_def rd_eq bind_eq_Some_conv split: if_splits)

lemma test_char_bounds:
  "test_char ctx ok pc cptr = Some (Accept pc' cptr') \<Longrightarrow> cptr < cptr' \<and> cptr' \<le> length (cbuf ctx)"
  by (auto simp: test_char_def accept_if_def bind_eq_Some_conv dest!: GET_CHAR_bounds split: if_splits prod.splits)

lemma simple_op_bounds:
  "simple_op ctx oc pc cptr = Some (Accept pc' cptr') \<Longrightarrow> cptr' = cptr \<or> cptr < cptr' \<and> cptr' \<le> length (cbuf ctx)"
  by (auto simp: simple_op_def accept_if_def Let_def bind_eq_Some_conv dest!: test_char_bounds GET_CHAR_bounds
      split: REOPCode.splits if_splits prod.splits)

lemma exec_no_recurse_bounds:
  "exec_no_recurse ctx pc cptr = Some (Some cptr') \<Longrightarrow> cptr' = cptr \<or> cptr < cptr' \<and> cptr' \<le> length (cbuf ctx)"
proof (induction ctx pc cptr rule: exec_no_recurse.induct)
  case (1 ctx pc cptr)
  consider "cptr' = cptr"
    | oc pc1 c1 where "op_at ctx pc = Some oc" "oc \<noteq> REOP_match" "simple_op ctx oc (pc + 1) cptr = Some (Accept pc1 c1)"
        "exec_no_recurse ctx pc1 c1 = Some (Some cptr')"
    using 1(2) by (auto simp: exec_no_recurse.simps [of ctx pc cptr] split: option.splits test_result.splits if_splits)
  then show ?case
  proof cases
    case 2
    with 1(1) [OF 2(1,2,3) refl 2(4)] simple_op_bounds [OF 2(3)] show ?thesis by auto
  qed simp
qed

subsection \<open>Loops inside one instruction\<close>

text \<open>
  The loop of \<open>REOP_simple_greedy_quant\<close>. A body that matches without advancing, repeated without bound, is
  repeated for ever: \<open>Quant_loops\<close>.
\<close>

datatype quant_result = Quant_done nat nat | Quant_loops

abbreviation INT32_MAX :: nat where "INT32_MAX \<equiv> 0x7fffffff"

function quant_loop :: "re_ctx \<Rightarrow> nat \<Rightarrow> nat \<Rightarrow> nat \<Rightarrow> nat \<Rightarrow> quant_result option" where
  "quant_loop ctx pc1 quant_max q cptr =
     (case exec_no_recurse ctx pc1 cptr of
        None \<Rightarrow> None
      | Some None \<Rightarrow> Some (Quant_done q cptr)
      | Some (Some cptr') \<Rightarrow>
          if q + 1 \<ge> quant_max \<and> quant_max \<noteq> INT32_MAX then Some (Quant_done (q + 1) cptr')
          else if cptr' = cptr \<and> quant_max = INT32_MAX then Some Quant_loops
          else quant_loop ctx pc1 quant_max (q + 1) cptr')"
  by pat_completeness auto
termination
  by (relation "measure (\<lambda>(ctx, pc1, quant_max, q, cptr).
        if quant_max = INT32_MAX then length (cbuf ctx) - cptr else quant_max - q)")
     (auto dest!: exec_no_recurse_bounds)

declare quant_loop.simps [simp del]

text \<open>The comparison with a capture, forward and backward; \<open>Some None\<close> is the jump to \<open>no_match\<close>.\<close>

definition same_char :: "re_ctx \<Rightarrow> u32 \<Rightarrow> u32 \<Rightarrow> bool option" where
  "same_char ctx c1 c2 = do { d1 \<leftarrow> fold_char ctx c1; d2 \<leftarrow> fold_char ctx c2; Some (d1 = d2) }"

function back_ref :: "re_ctx \<Rightarrow> nat \<Rightarrow> nat \<Rightarrow> nat \<Rightarrow> nat option option" where
  "back_ref ctx cptr1_end cptr1 cptr =
     (if cptr1 < cptr1_end then
        if cptr \<ge> length (cbuf ctx) then Some None
        else case GET_CHAR ctx cptr1 cptr1_end of
               None \<Rightarrow> None
             | Some (c1, cptr1') \<Rightarrow>
                 case GET_CHAR ctx cptr (length (cbuf ctx)) of
                   None \<Rightarrow> None
                 | Some (c2, cptr') \<Rightarrow>
                     case same_char ctx c1 c2 of
                       None \<Rightarrow> None
                     | Some b \<Rightarrow> if b then back_ref ctx cptr1_end cptr1' cptr' else Some None
      else Some (Some cptr))"
  by pat_completeness auto
termination
  by (relation "measure (\<lambda>(ctx, cptr1_end, cptr1, cptr). cptr1_end - cptr1)") (auto dest!: GET_CHAR_bounds)

declare back_ref.simps [simp del]

lemma GET_PREV_CHAR_bounds: "GET_PREV_CHAR ctx cptr e = Some (c, cptr') \<Longrightarrow> cptr' < cptr"
  by (auto simp: GET_PREV_CHAR_def bind_eq_Some_conv split: if_splits)

function backward_ref :: "re_ctx \<Rightarrow> nat \<Rightarrow> nat \<Rightarrow> nat \<Rightarrow> nat option option" where
  "backward_ref ctx cptr1_start cptr1 cptr =
     (if cptr1 > cptr1_start then
        if cptr = 0 then Some None
        else case GET_PREV_CHAR ctx cptr1 cptr1_start of
               None \<Rightarrow> None
             | Some (c1, cptr1') \<Rightarrow>
                 case GET_PREV_CHAR ctx cptr 0 of
                   None \<Rightarrow> None
                 | Some (c2, cptr') \<Rightarrow>
                     case same_char ctx c1 c2 of
                       None \<Rightarrow> None
                     | Some b \<Rightarrow> if b then backward_ref ctx cptr1_start cptr1' cptr' else Some None
      else Some (Some cptr))"
  by pat_completeness auto
termination
  by (relation "measure (\<lambda>(ctx, cptr1_start, cptr1, cptr). cptr1)") (auto dest!: GET_PREV_CHAR_bounds)

declare backward_ref.simps [simp del]

subsection \<open>One instruction\<close>

text \<open>
  A thread is where the machine stands. What an instruction does: go on, end with a match or without one, go on with one
  thread and push the state to return to, or start the body of a lookahead. \<open>Greedy\<close> is the end of a simple
  quantifier with more than the least number of matches: the position of its operands and the number of matches to give back.
\<close>

record re_thread =
  t_pc :: nat
  t_cptr :: nat
  t_cap :: "nat option list"
  t_stk :: "u64 list"

datatype re_action =
    Next re_thread | Matched | No_match | Split re_thread re_thread | Look bool re_thread re_thread
  | Greedy re_thread nat nat nat | Never

definition set_captures :: "nat \<Rightarrow> nat \<Rightarrow> nat option list \<Rightarrow> nat option list" where
  "set_captures val val2 cap = fold (\<lambda>v cap. cap[2 * v := None, 2 * v + 1 := None]) [val..<Suc val2] cap"

definition jump_if :: "bool \<Rightarrow> nat \<Rightarrow> u32 \<Rightarrow> nat option" where
  "jump_if b pc val = (if b then jump pc val else Some pc)"

definition after_test :: "re_thread \<Rightarrow> test_result \<Rightarrow> re_action" where
  "after_test t r = (case r of Reject \<Rightarrow> No_match | Accept pc cptr \<Rightarrow> Next (t\<lparr>t_pc := pc, t_cptr := cptr\<rparr>))"

definition after_ref :: "re_thread \<Rightarrow> nat \<Rightarrow> nat option \<Rightarrow> re_action" where
  "after_ref t pc r = (case r of None \<Rightarrow> No_match | Some cptr \<Rightarrow> Next (t\<lparr>t_pc := pc, t_cptr := cptr\<rparr>))"

definition op_back_reference :: "re_ctx \<Rightarrow> bool \<Rightarrow> re_thread \<Rightarrow> nat \<Rightarrow> re_action option" where
  "op_back_reference ctx backward t pc =
     do { val \<leftarrow> u8_at ctx pc;
          if val \<ge> capture_count ctx then Some No_match
          else do { cs \<leftarrow> rd (t_cap t) (2 * val); ce \<leftarrow> rd (t_cap t) (2 * val + 1);
                    case (cs, ce) of
                      (Some s, Some e) \<Rightarrow>
                        map_option (after_ref t (pc + 1))
                          (if backward then backward_ref ctx s e (t_cptr t) else back_ref ctx e s (t_cptr t))
                    | _ \<Rightarrow> Some (Next (t\<lparr>t_pc := pc + 1\<rparr>)) } }"

definition op_simple_greedy_quant :: "re_ctx \<Rightarrow> re_thread \<Rightarrow> nat \<Rightarrow> re_action option" where
  "op_simple_greedy_quant ctx t pc =
     do { next_pos \<leftarrow> u32_at ctx pc; quant_min \<leftarrow> u32_at ctx (pc + 4); quant_max \<leftarrow> u32_at ctx (pc + 8);
          pc' \<leftarrow> jump (pc + 16) next_pos;
          r \<leftarrow> quant_loop ctx (pc + 16) (unat quant_max) 0 (t_cptr t);
          Some (case r of
                  Quant_loops \<Rightarrow> Never
                | Quant_done q cptr \<Rightarrow>
                    let t' = t\<lparr>t_pc := pc', t_cptr := cptr\<rparr>
                    in if q < unat quant_min then No_match
                       else if q > unat quant_min then Greedy t' pc cptr (q - unat quant_min)
                       else Next t') }"

definition re_step :: "re_ctx \<Rightarrow> re_thread \<Rightarrow> re_action option" where
  "re_step ctx t =
     do { oc \<leftarrow> op_at ctx (t_pc t);
          let pc = t_pc t + 1; cptr = t_cptr t in
          if is_simple_op oc then map_option (after_test t) (simple_op ctx oc pc cptr)
          else case oc of
            REOP_match \<Rightarrow> Some Matched
          | REOP_split_goto_first \<Rightarrow>
              do { val \<leftarrow> u32_at ctx pc; pc' \<leftarrow> jump (pc + 4) val;
                   Some (Split (t\<lparr>t_pc := pc'\<rparr>) (t\<lparr>t_pc := pc + 4\<rparr>)) }
          | REOP_split_next_first \<Rightarrow>
              do { val \<leftarrow> u32_at ctx pc; pc1 \<leftarrow> jump (pc + 4) val;
                   Some (Split (t\<lparr>t_pc := pc + 4\<rparr>) (t\<lparr>t_pc := pc1\<rparr>)) }
          | REOP_lookahead \<Rightarrow>
              do { val \<leftarrow> u32_at ctx pc; pc1 \<leftarrow> jump (pc + 4) val;
                   Some (Look False (t\<lparr>t_pc := pc + 4\<rparr>) (t\<lparr>t_pc := pc1\<rparr>)) }
          | REOP_negative_lookahead \<Rightarrow>
              do { val \<leftarrow> u32_at ctx pc; pc1 \<leftarrow> jump (pc + 4) val;
                   Some (Look True (t\<lparr>t_pc := pc + 4\<rparr>) (t\<lparr>t_pc := pc1\<rparr>)) }
          | REOP_goto \<Rightarrow> do { val \<leftarrow> u32_at ctx pc; pc' \<leftarrow> jump (pc + 4) val; Some (Next (t\<lparr>t_pc := pc'\<rparr>)) }
          | REOP_save_start \<Rightarrow>
              do { val \<leftarrow> u8_at ctx pc;
                   if val < capture_count ctx
                   then Some (Next (t\<lparr>t_pc := pc + 1, t_cap := (t_cap t)[2 * val := Some cptr]\<rparr>)) else None }
          | REOP_save_end \<Rightarrow>
              do { val \<leftarrow> u8_at ctx pc;
                   if val < capture_count ctx
                   then Some (Next (t\<lparr>t_pc := pc + 1, t_cap := (t_cap t)[2 * val + 1 := Some cptr]\<rparr>)) else None }
          | REOP_save_reset \<Rightarrow>
              do { val \<leftarrow> u8_at ctx pc; val2 \<leftarrow> u8_at ctx (pc + 1);
                   if val2 < capture_count ctx
                   then Some (Next (t\<lparr>t_pc := pc + 2, t_cap := set_captures val val2 (t_cap t)\<rparr>)) else None }
          | REOP_push_i32 \<Rightarrow>
              do { val \<leftarrow> u32_at ctx pc;
                   if length (t_stk t) < stack_size_max ctx
                   then Some (Next (t\<lparr>t_pc := pc + 4, t_stk := ucast val # t_stk t\<rparr>)) else None }
          | REOP_drop \<Rightarrow>
              (case t_stk t of [] \<Rightarrow> None | _ # stk \<Rightarrow> Some (Next (t\<lparr>t_pc := pc, t_stk := stk\<rparr>)))
          | REOP_loop \<Rightarrow>
              do { val \<leftarrow> u32_at ctx pc;
                   case t_stk t of
                     [] \<Rightarrow> None
                   | v # stk \<Rightarrow> do { pc' \<leftarrow> jump_if (v - 1 \<noteq> 0) (pc + 4) val;
                                     Some (Next (t\<lparr>t_pc := pc', t_stk := (v - 1) # stk\<rparr>)) } }
          | REOP_push_char_pos \<Rightarrow>
              if length (t_stk t) < stack_size_max ctx
              then Some (Next (t\<lparr>t_pc := pc, t_stk := of_nat cptr # t_stk t\<rparr>)) else None
          | REOP_bne_char_pos \<Rightarrow>
              do { val \<leftarrow> u32_at ctx pc;
                   case t_stk t of
                     [] \<Rightarrow> None
                   | v # stk \<Rightarrow> do { pc' \<leftarrow> jump_if (v \<noteq> of_nat cptr) (pc + 4) val;
                                     Some (Next (t\<lparr>t_pc := pc', t_stk := stk\<rparr>)) } }
          | REOP_back_reference \<Rightarrow> op_back_reference ctx False t pc
          | REOP_backward_back_reference \<Rightarrow> op_back_reference ctx True t pc
          | REOP_prev \<Rightarrow>
              if cptr = 0 then Some No_match
              else do { cptr' \<leftarrow> PREV_CHAR ctx cptr 0; Some (Next (t\<lparr>t_pc := pc, t_cptr := cptr'\<rparr>)) }
          | REOP_simple_greedy_quant \<Rightarrow> op_simple_greedy_quant ctx t pc
          | _ \<Rightarrow> None }"

subsection \<open>The machine\<close>

datatype REExecStateEnum =
  RE_EXEC_STATE_SPLIT | RE_EXEC_STATE_LOOKAHEAD | RE_EXEC_STATE_NEGATIVE_LOOKAHEAD | RE_EXEC_STATE_GREEDY_QUANT

record REExecState =
  rs_type :: REExecStateEnum
  rs_count :: nat
  rs_thread :: re_thread

text \<open>
  The stack of states, its top first, with the size allocated for it; \<open>push_state\<close> fails when the allocator does.
\<close>

type_synonym re_states = "REExecState list \<times> nat"

definition push_state :: "re_ctx \<Rightarrow> re_thread \<Rightarrow> REExecStateEnum \<Rightarrow> nat \<Rightarrow> re_states \<Rightarrow> re_states option" where
  "push_state ctx t type count st =
     (let (fs, sz) = st; f = \<lparr>rs_type = type, rs_count = count, rs_thread = t\<rparr>
      in if length fs + 1 > sz
         then let new_size = max 8 (sz * 3 div 2)
              in if realloc_ok ctx new_size then Some (f # fs, new_size) else None
         else Some (f # fs, sz))"

text \<open>
  The loop at \<open>recurse\<close>: what to do after a match or a failure. \<open>Back\<close> goes on with a thread; \<open>Finished\<close> is the result.
\<close>

datatype re_back = Finished bool "nat option list" | Back re_thread "REExecState list"

definition greedy_next :: "re_ctx \<Rightarrow> REExecState \<Rightarrow> (re_thread \<times> REExecState) option" where
  "greedy_next ctx rs =
     (let t = rs_thread rs; pc = t_pc t in
      do { char_count \<leftarrow> u32_at ctx (pc + 12);
           cptr \<leftarrow> PREV_CHARS (unat char_count) ctx (t_cptr t);
           next_pos \<leftarrow> u32_at ctx pc;
           pc' \<leftarrow> jump (pc + 16) next_pos;
           Some (t\<lparr>t_pc := pc', t_cptr := cptr\<rparr>, rs\<lparr>rs_thread := t\<lparr>t_cptr := cptr\<rparr>, rs_count := rs_count rs - 1\<rparr>) })"

definition greedy_back :: "re_ctx \<Rightarrow> REExecState \<Rightarrow> REExecState list \<Rightarrow> re_back option" where
  "greedy_back ctx rs fs =
     map_option (\<lambda>(t, rs'). Back t (if rs_count rs' = 0 then fs else rs' # fs)) (greedy_next ctx rs)"

fun re_recurse :: "re_ctx \<Rightarrow> bool \<Rightarrow> nat option list \<Rightarrow> REExecState list \<Rightarrow> re_back option" where
  "re_recurse ctx ret cap [] = Some (Finished ret cap)"
| "re_recurse ctx ret cap (rs # fs) =
     (case rs_type rs of
        RE_EXEC_STATE_SPLIT \<Rightarrow>
          if \<not> ret then Some (Back (rs_thread rs) fs) else re_recurse ctx ret cap fs
      | RE_EXEC_STATE_GREEDY_QUANT \<Rightarrow>
          if \<not> ret then greedy_back ctx rs fs else re_recurse ctx ret cap fs
      | RE_EXEC_STATE_LOOKAHEAD \<Rightarrow>
          if ret then Some (Back ((rs_thread rs)\<lparr>t_cap := cap\<rparr>) fs) else re_recurse ctx False cap fs
      | RE_EXEC_STATE_NEGATIVE_LOOKAHEAD \<Rightarrow>
          if \<not> ret then Some (Back (rs_thread rs) fs) else re_recurse ctx False cap fs)"

text \<open>The result of the executor: 1, 0 or -1 with the captures; undefined behaviour.\<close>

datatype re_outcome = Ret int "nat option list" | Undefined

fun lre_exec_backtrack :: "nat \<Rightarrow> re_ctx \<Rightarrow> re_thread \<Rightarrow> re_states \<Rightarrow> re_outcome option" where
  "lre_exec_backtrack 0 ctx t st = None"
| "lre_exec_backtrack (Suc n) ctx t st =
     (let end_with = (\<lambda>ret. case re_recurse ctx ret (t_cap t) (fst st) of
                        None \<Rightarrow> Some Undefined
                      | Some (Finished ret cap) \<Rightarrow> Some (Ret (if ret then 1 else 0) cap)
                      | Some (Back t' fs) \<Rightarrow> lre_exec_backtrack n ctx t' (fs, snd st));
          go_on = (\<lambda>t' pushed type count. case push_state ctx pushed type count st of
                     None \<Rightarrow> Some (Ret (-1) (t_cap t))
                   | Some st' \<Rightarrow> lre_exec_backtrack n ctx t' st')
      in case re_step ctx t of
           None \<Rightarrow> Some Undefined
         | Some (Next t') \<Rightarrow> lre_exec_backtrack n ctx t' st
         | Some Matched \<Rightarrow> end_with True
         | Some No_match \<Rightarrow> end_with False
         | Some (Split t' t1) \<Rightarrow> go_on t' t1 RE_EXEC_STATE_SPLIT 0
         | Some (Look neg t' t1) \<Rightarrow>
             go_on t' t1 (if neg then RE_EXEC_STATE_NEGATIVE_LOOKAHEAD else RE_EXEC_STATE_LOOKAHEAD) 0
         | Some (Greedy t' pc cptr count) \<Rightarrow>
             go_on t' (t\<lparr>t_pc := pc, t_cptr := cptr\<rparr>) RE_EXEC_STATE_GREEDY_QUANT count
         | Some Never \<Rightarrow> None)"

definition re_init :: "unicode_tables \<Rightarrow> (nat \<Rightarrow> bool) \<Rightarrow> u8 list \<Rightarrow> u16 list \<Rightarrow> nat \<Rightarrow> re_ctx option" where
  "re_init T alloc bc subject cbtype =
     do { re_flags \<leftarrow> rd bc 0; cc \<leftarrow> rd bc 1; ss \<leftarrow> rd bc 2;
          let utf16 = (re_flags AND 16 \<noteq> 0) in
          Some \<lparr>bc_buf = bc, cbuf = subject, cbuf_type = (if cbtype = 1 \<and> utf16 then 2 else cbtype),
                capture_count = unat cc, stack_size_max = unat ss, multi_line = (re_flags AND 4 \<noteq> 0),
                ignore_case = (re_flags AND 2 \<noteq> 0), is_utf16 = utf16, re_tables = T, realloc_ok = alloc\<rparr> }"

definition re_start :: "re_ctx \<Rightarrow> nat \<Rightarrow> re_thread" where
  "re_start ctx cindex = \<lparr>t_pc = 7, t_cptr = cindex, t_cap = replicate (2 * capture_count ctx) None, t_stk = []\<rparr>"

definition lre_exec ::
  "nat \<Rightarrow> unicode_tables \<Rightarrow> (nat \<Rightarrow> bool) \<Rightarrow> u8 list \<Rightarrow> u16 list \<Rightarrow> nat \<Rightarrow> nat \<Rightarrow> re_outcome option" where
  "lre_exec n T alloc bc subject cindex cbtype =
     (case re_init T alloc bc subject cbtype of
        None \<Rightarrow> Some Undefined
      | Some ctx \<Rightarrow> lre_exec_backtrack n ctx (re_start ctx cindex) ([], 0))"

definition lre_get_capture_count :: "u8 list \<Rightarrow> nat option" where
  "lre_get_capture_count bc = map_option unat (rd bc 1)"

definition lre_get_flags :: "u8 list \<Rightarrow> nat option" where
  "lre_get_flags bc = map_option unat (rd bc 0)"

end
