(* ===== verification/RegexpEmit.thy ===== *)
theory RegexpEmit
  imports Regexp
begin

text \<open>
  The code that the compiler of regular expressions emits (\<open>qjs/libregexp.c\<close>): the emission of single instructions, the code
  around a quantified atom, alternatives, groups and lookaheads, the analyses of code it relies on
  (\<open>re_is_simple_quantifier\<close>, \<open>re_check_advance\<close>, \<open>compute_stack_size\<close>) and the frame of \<open>lre_compile\<close>. The buffer of
  the code is a list of bytes that never runs out of memory. The pattern is given as a tree (\<open>regex\<close>) in the place of its text: each
  constructor stands for the syntax of the branch of \<open>re_parse_term\<close>, \<open>re_parse_alternative\<close> or \<open>re_parse_disjunction\<close>
  that emits its code, in the forward direction.
\<close>

subsection \<open>Instructions\<close>

text \<open>The bytes \<open>bs\<close> are in the buffer at position \<open>p\<close>.\<close>

fun bytes_at :: "u8 list \<Rightarrow> nat \<Rightarrow> u8 list \<Rightarrow> bool" where
  "bytes_at buf p [] \<longleftrightarrow> True"
| "bytes_at buf p (b # bs) \<longleftrightarrow> rd buf p = Some b \<and> bytes_at buf (p + 1) bs"

lemma bytes_at_self: "bytes_at (xs @ bs @ ys) (length xs) bs"
proof (induction bs arbitrary: xs)
  case (Cons b bs)
  then show ?case using Cons.IH [of "xs @ [b]"] by (simp add: rd_eq nth_append)
qed simp

lemma bytes_at_append: "bytes_at buf p (xs @ ys) \<longleftrightarrow> bytes_at buf p xs \<and> bytes_at buf (p + length xs) ys"
  by (induction xs arbitrary: p) auto

primrec op_byte :: "REOPCode \<Rightarrow> u8" where
  "op_byte REOP_invalid = 0" | "op_byte REOP_char = 1" | "op_byte REOP_char32 = 2" | "op_byte REOP_dot = 3"
| "op_byte REOP_any = 4" | "op_byte REOP_line_start = 5" | "op_byte REOP_line_end = 6" | "op_byte REOP_goto = 7"
| "op_byte REOP_split_goto_first = 8" | "op_byte REOP_split_next_first = 9" | "op_byte REOP_match = 10"
| "op_byte REOP_save_start = 11" | "op_byte REOP_save_end = 12" | "op_byte REOP_save_reset = 13" | "op_byte REOP_loop = 14"
| "op_byte REOP_push_i32 = 15" | "op_byte REOP_drop = 16" | "op_byte REOP_word_boundary = 17"
| "op_byte REOP_not_word_boundary = 18" | "op_byte REOP_back_reference = 19" | "op_byte REOP_backward_back_reference = 20"
| "op_byte REOP_range = 21" | "op_byte REOP_range32 = 22" | "op_byte REOP_lookahead = 23"
| "op_byte REOP_negative_lookahead = 24" | "op_byte REOP_push_char_pos = 25" | "op_byte REOP_bne_char_pos = 26"
| "op_byte REOP_prev = 27" | "op_byte REOP_simple_greedy_quant = 28"

lemma opcode_byte [simp]: "opcode (op_byte oc) = Some oc"
  by (cases oc) (simp_all add: opcode_def reop_table_def rd_eq)

definition re_emit_op :: "REOPCode \<Rightarrow> u8 list" where
  "re_emit_op oc = [op_byte oc]"

definition re_emit_op_u8 :: "REOPCode \<Rightarrow> nat \<Rightarrow> u8 list" where
  "re_emit_op_u8 oc val = [op_byte oc, of_nat val]"

definition re_emit_op_u16 :: "REOPCode \<Rightarrow> u32 \<Rightarrow> u8 list" where
  "re_emit_op_u16 oc val = op_byte oc # le_bytes 2 (ucast val :: u16)"

definition re_emit_op_u32 :: "REOPCode \<Rightarrow> u32 \<Rightarrow> u8 list" where
  "re_emit_op_u32 oc val = op_byte oc # le_bytes 4 val"

text \<open>\<open>re_emit_goto\<close> at the position \<open>pos\<close> of the buffer, to the position \<open>val\<close>.\<close>

definition re_emit_goto :: "REOPCode \<Rightarrow> nat \<Rightarrow> nat \<Rightarrow> u8 list" where
  "re_emit_goto oc pos val = op_byte oc # le_bytes 4 (of_nat val - of_nat (pos + 1 + 4) :: u32)"

lemma length_emit [simp]:
  "length (re_emit_op oc) = 1" "length (re_emit_op_u8 oc v) = 2" "length (re_emit_op_u16 oc w) = 3"
  "length (re_emit_op_u32 oc w) = 5" "length (re_emit_goto oc a b) = 5"
  by (simp_all add: re_emit_op_def re_emit_op_u8_def re_emit_op_u16_def re_emit_op_u32_def re_emit_goto_def)

text \<open>
  \<open>re_emit_range\<close>: 16-bit pairs when the last bound fits, with 0xffff for infinity, else 32-bit pairs. \<open>None\<close> is the error.
\<close>

fun range_pairs16 :: "u32 list \<Rightarrow> u8 list" where
  "range_pairs16 (p0 # p1 # ps) =
     le_bytes 2 (ucast p0 :: u16) @ le_bytes 2 (ucast (if p1 - 1 = 0xfffffffe then 0xffff else p1 - 1) :: u16) @ range_pairs16 ps"
| "range_pairs16 ps = []"

fun range_pairs32 :: "u32 list \<Rightarrow> u8 list" where
  "range_pairs32 (p0 # p1 # ps) = le_bytes 4 p0 @ le_bytes 4 (p1 - 1) @ range_pairs32 ps"
| "range_pairs32 ps = []"

definition re_emit_range :: "u32 list \<Rightarrow> u8 list option" where
  "re_emit_range ps =
     (let len = length ps div 2 in
      if len \<ge> 65535 then None
      else if len = 0 then Some (re_emit_op_u32 REOP_char32 (-1))
      else let high = ps ! (length ps - 1); high = (if high = -1 then ps ! (length ps - 2) else high)
           in Some (if high \<le> 0xffff then re_emit_op_u16 REOP_range (of_nat len) @ range_pairs16 ps
                    else re_emit_op_u16 REOP_range32 (of_nat len) @ range_pairs32 ps))"

text \<open>The points of a character range: pairs in strictly ascending order.\<close>

definition ascending :: "u32 list \<Rightarrow> bool" where
  "ascending ps \<longleftrightarrow> sorted_wrt (<) ps \<and> even (length ps)"

subsection \<open>Analyses of code\<close>

text \<open>The first instruction of some code, and its length.\<close>

definition instr_len :: "u8 list \<Rightarrow> (REOPCode \<times> nat) option" where
  "instr_len bs =
     do { b \<leftarrow> rd bs 0; (oc, n) \<leftarrow> rd reop_table (unat b);
          if oc = REOP_range then do { val \<leftarrow> get_u16 (drop 1 bs); Some (oc, n + unat val * 4) }
          else if oc = REOP_range32 then do { val \<leftarrow> get_u16 (drop 1 bs); Some (oc, n + unat val * 8) }
          else Some (oc, n) }"

lemma reop_table_pos: "rd reop_table i = Some (oc, n) \<Longrightarrow> 0 < n"
  by (auto simp: rd_eq reop_table_def nth_Cons' split: if_splits)

lemma instr_len_pos: "instr_len bs = Some (oc, n) \<Longrightarrow> 0 < n"
  by (auto simp: instr_len_def bind_eq_Some_conv dest: reop_table_pos split: if_splits)

definition is_char_op :: "REOPCode \<Rightarrow> bool" where
  "is_char_op oc \<longleftrightarrow> oc \<in> {REOP_char, REOP_char32, REOP_dot, REOP_any, REOP_range, REOP_range32}"

definition is_assertion :: "REOPCode \<Rightarrow> bool" where
  "is_assertion oc \<longleftrightarrow> oc \<in> {REOP_line_start, REOP_line_end, REOP_word_boundary, REOP_not_word_boundary}"

function simple_quant_from :: "nat \<Rightarrow> u8 list \<Rightarrow> int option" where
  "simple_quant_from count bs =
     (if bs = [] then Some (int count)
      else case instr_len bs of
             None \<Rightarrow> None
           | Some (oc, len) \<Rightarrow>
               if is_char_op oc then simple_quant_from (count + 1) (drop len bs)
               else if is_assertion oc then simple_quant_from count (drop len bs)
               else Some (-1))"
  by pat_completeness auto
termination
  by (relation "measure (\<lambda>(count, bs). length bs)") (auto dest: instr_len_pos)

declare simple_quant_from.simps [simp del]

definition re_is_simple_quantifier :: "u8 list \<Rightarrow> int option" where
  "re_is_simple_quantifier bs = simple_quant_from 0 bs"

text \<open>
  \<open>re_check_advance\<close>: the result so far (-2 for not known), the captures set and the captures referenced.
\<close>

definition no_effect :: "REOPCode \<Rightarrow> bool" where
  "no_effect oc \<longleftrightarrow> oc \<in> {REOP_line_start, REOP_line_end, REOP_push_i32, REOP_push_char_pos, REOP_drop, REOP_word_boundary,
     REOP_not_word_boundary, REOP_prev}"

function check_advance_from :: "int \<Rightarrow> nat set \<Rightarrow> nat set \<Rightarrow> u8 list \<Rightarrow> int option" where
  "check_advance_from ret saved refs bs =
     (if bs = [] then Some (if saved \<inter> refs \<noteq> {} then -1 else if ret = -2 then 0 else ret)
      else case instr_len bs of
             None \<Rightarrow> None
           | Some (oc, len) \<Rightarrow>
               if is_char_op oc then check_advance_from (if ret = -2 then 1 else ret) saved refs (drop len bs)
               else if no_effect oc then check_advance_from ret saved refs (drop len bs)
               else if oc = REOP_save_start \<or> oc = REOP_save_end then
                 (case rd bs 1 of
                    None \<Rightarrow> None
                  | Some val \<Rightarrow> check_advance_from ret (insert (unat val) saved) refs (drop len bs))
               else if oc = REOP_save_reset then
                 (case (rd bs 1, rd bs 2) of
                    (Some val, Some val2) \<Rightarrow> check_advance_from ret (saved \<union> {unat val..<unat val2}) refs (drop len bs)
                  | _ \<Rightarrow> None)
               else if oc = REOP_back_reference \<or> oc = REOP_backward_back_reference then
                 (case rd bs 1 of
                    None \<Rightarrow> None
                  | Some val \<Rightarrow> check_advance_from ret saved (insert (unat val) refs) (drop len bs))
               else check_advance_from (if ret = -2 then 0 else ret) saved refs (drop len bs))"
  by pat_completeness auto
termination
  by (relation "measure (\<lambda>(ret, saved, refs, bs). length bs)") (auto dest: instr_len_pos)

declare check_advance_from.simps [simp del]

definition re_check_advance :: "u8 list \<Rightarrow> int option" where
  "re_check_advance bs = check_advance_from (-2) {} {} bs"

text \<open>The instruction without its variable part does not fit.\<close>

definition cut_short :: "u8 list \<Rightarrow> bool" where
  "cut_short bs = (case Option.bind (rd bs 0) (\<lambda>b. rd reop_table (unat b)) of Some (_, n) \<Rightarrow> length bs < n | None \<Rightarrow> True)"

text \<open>
  \<open>compute_stack_size\<close>, on the code after the header; \<open>Some None\<close> is the result -1. The assertions are \<open>None\<close>.
\<close>

function stack_size_from :: "nat \<Rightarrow> nat \<Rightarrow> u8 list \<Rightarrow> nat option option" where
  "stack_size_from stack_size stack_size_max' bs =
     (if bs = [] then Some (Some stack_size_max')
      else case instr_len bs of
             None \<Rightarrow> None
           | Some (oc, len) \<Rightarrow>
               if cut_short bs then None
               else if oc = REOP_push_i32 \<or> oc = REOP_push_char_pos then
                 (if stack_size + 1 > stack_size_max'
                  then if stack_size + 1 > 255 then Some None
                       else stack_size_from (stack_size + 1) (stack_size + 1) (drop len bs)
                  else stack_size_from (stack_size + 1) stack_size_max' (drop len bs))
               else if oc = REOP_drop \<or> oc = REOP_bne_char_pos then
                 (if stack_size = 0 then None else stack_size_from (stack_size - 1) stack_size_max' (drop len bs))
               else stack_size_from stack_size stack_size_max' (drop len bs))"
  by pat_completeness auto
termination
  by (relation "measure (\<lambda>(k, m, bs). length bs)") (auto dest: instr_len_pos)

declare stack_size_from.simps [simp del]

definition compute_stack_size :: "u8 list \<Rightarrow> nat option option" where
  "compute_stack_size bs = stack_size_from 0 0 bs"

subsection \<open>Quantifiers\<close>

abbreviation split_op :: "bool \<Rightarrow> REOPCode" where
  "split_op greedy \<equiv> (if greedy then REOP_split_next_first else REOP_split_goto_first)"

abbreviation u32_bytes :: "nat \<Rightarrow> u8 list" where
  "u32_bytes n \<equiv> le_bytes 4 (of_nat n :: u32)"

text \<open>
  The quantifier of \<open>re_parse_term\<close> behind the code \<open>atom\<close> at position \<open>start\<close> of the buffer: the code that replaces the atom.
  \<open>cc0\<close> is \<open>last_capture_count\<close>. The instructions inserted before the atom shift it, and the jumps back are to the split.
\<close>

definition emit_simple_quant :: "nat \<Rightarrow> nat \<Rightarrow> nat \<Rightarrow> u8 list \<Rightarrow> u8 list" where
  "emit_simple_quant quant_min quant_max len atom =
     [op_byte REOP_simple_greedy_quant] @ u32_bytes (length atom + 1) @ u32_bytes quant_min @ u32_bytes quant_max @ u32_bytes len @
     atom @ re_emit_op REOP_match"

definition save_reset_code :: "nat \<Rightarrow> nat \<Rightarrow> u8 list" where
  "save_reset_code cc0 cc = (if cc0 \<noteq> cc then [op_byte REOP_save_reset, of_nat cc0, of_nat (cc - 1)] else [])"

text \<open>The loop of a quantifier without upper bound, from its split at position \<open>pos\<close>.\<close>

definition emit_star :: "nat \<Rightarrow> bool \<Rightarrow> bool \<Rightarrow> u8 list \<Rightarrow> u8 list" where
  "emit_star pos greedy zero_check atom =
     (let front = re_emit_op_u32 (split_op greedy) (of_nat (length atom + 5 + (if zero_check then 1 else 0))) @
                  (if zero_check then re_emit_op REOP_push_char_pos else []) @ atom
      in front @ re_emit_goto (if zero_check then REOP_bne_char_pos else REOP_goto) (pos + length front) pos)"

text \<open>At most \<open>n\<close> repetitions, with the counter pushed before the split at \<open>pos + 5\<close>.\<close>

definition emit_upto :: "nat \<Rightarrow> bool \<Rightarrow> nat \<Rightarrow> u8 list \<Rightarrow> u8 list" where
  "emit_upto pos greedy n atom =
     (let front = re_emit_op_u32 REOP_push_i32 (of_nat n) @ re_emit_op_u32 (split_op greedy) (of_nat (length atom + 5)) @ atom
      in front @ re_emit_goto REOP_loop (pos + length front) (pos + 5) @ re_emit_op REOP_drop)"

text \<open>Exactly \<open>n\<close> repetitions.\<close>

definition emit_exactly :: "nat \<Rightarrow> nat \<Rightarrow> u8 list \<Rightarrow> u8 list" where
  "emit_exactly pos n atom =
     (if n = 1 then atom
      else let front = re_emit_op_u32 REOP_push_i32 (of_nat n) @ atom
           in front @ re_emit_goto REOP_loop (pos + length front) (pos + 5) @ re_emit_op REOP_drop)"

definition emit_loop :: "nat \<Rightarrow> nat \<Rightarrow> nat \<Rightarrow> bool \<Rightarrow> bool \<Rightarrow> nat \<Rightarrow> nat \<Rightarrow> u8 list \<Rightarrow> u8 list" where
  "emit_loop start quant_min quant_max greedy zero_check cc0 cc atom =
     (if quant_min = 0 then
        let reset = save_reset_code cc0 cc; pos = start + length reset
        in reset @
           (if quant_max = 0 then []
            else if quant_max = 1 then re_emit_op_u32 (split_op greedy) (of_nat (length atom)) @ atom
            else if quant_max = INT32_MAX then emit_star pos greedy zero_check atom
            else emit_upto pos greedy quant_max atom)
      else if quant_min = 1 \<and> quant_max = INT32_MAX \<and> \<not> zero_check then
        atom @ re_emit_goto (split_op (\<not> greedy)) (start + length atom) start
      else
        let first = emit_exactly start quant_min atom; pos = start + length first
        in first @
           (if quant_max = INT32_MAX then emit_star pos greedy zero_check atom
            else if quant_max > quant_min then emit_upto pos greedy (quant_max - quant_min) atom
            else []))"

definition emit_quantifier :: "nat \<Rightarrow> nat \<Rightarrow> nat \<Rightarrow> bool \<Rightarrow> nat \<Rightarrow> nat \<Rightarrow> u8 list \<Rightarrow> u8 list option" where
  "emit_quantifier start quant_min quant_max greedy cc0 cc atom =
     (if greedy then
        do { len \<leftarrow> (if quant_max > 0 then re_is_simple_quantifier atom else Some (-1));
             if len > 0 then Some (emit_simple_quant quant_min quant_max (nat len) atom)
             else do { adv \<leftarrow> re_check_advance atom;
                       Some (emit_loop start quant_min quant_max greedy (adv = 0) cc0 cc atom) } }
      else Some (emit_loop start quant_min quant_max greedy False cc0 cc atom))"

subsection \<open>Patterns\<close>

datatype regex =
    RChar u32 | RClass "u32 list" | RDot | RLineStart | RLineEnd | RWordBoundary bool | RBackRef nat
  | REmpty | RSeq regex regex | RAlt regex regex | RGroup regex | RLook bool regex | RQuant regex nat nat bool

text \<open>The flags of the compiler that emission depends on.\<close>

record re_opts =
  o_ignore_case :: bool
  o_is_utf16 :: bool
  o_dotall :: bool
  o_tables :: unicode_tables

definition emit_char :: "re_opts \<Rightarrow> u32 \<Rightarrow> u8 list option" where
  "emit_char opts c =
     do { c \<leftarrow> (if o_ignore_case opts then lre_canonicalize (o_tables opts) c (o_is_utf16 opts) else Some c);
          Some (if c \<le> 0xffff then re_emit_op_u16 REOP_char c else re_emit_op_u32 REOP_char32 c) }"

text \<open>
  The points of a class after \<open>cr_canonicalize\<close>: the capital letters of its small letters are added.
\<close>

definition canonical_pts :: "u32 list \<Rightarrow> u32 list" where
  "canonical_pts ps = compress_pts (op_pts CR_OP_UNION False False ps
     (map (\<lambda>x. x + (65 - 97)) (compress_pts (op_pts CR_OP_INTER False False ps [97, 123]))))"

definition emit_class :: "re_opts \<Rightarrow> u32 list \<Rightarrow> u8 list option" where
  "emit_class opts ps = re_emit_range (if o_ignore_case opts then canonical_pts ps else ps)"

definition emit_alternatives :: "u8 list \<Rightarrow> u8 list \<Rightarrow> u8 list" where
  "emit_alternatives first second =
     re_emit_op_u32 REOP_split_next_first (of_nat (length first + 5)) @ first @
     re_emit_op_u32 REOP_goto (of_nat (length second)) @ second"

definition emit_lookahead :: "bool \<Rightarrow> u8 list \<Rightarrow> u8 list" where
  "emit_lookahead neg body =
     re_emit_op_u32 (if neg then REOP_negative_lookahead else REOP_lookahead) (of_nat (length body + 1)) @
     body @ re_emit_op REOP_match"

definition emit_capture :: "nat \<Rightarrow> u8 list \<Rightarrow> u8 list" where
  "emit_capture capture_index body =
     re_emit_op_u8 REOP_save_start capture_index @ body @ re_emit_op_u8 REOP_save_end capture_index"

text \<open>
  The code of a pattern at position \<open>start\<close> when \<open>cc\<close> captures have been seen, and the number of captures after it; \<open>None\<close>
  for too many captures. A back reference to a group that does not exist is not emitted by the parser.
\<close>

fun emit :: "re_opts \<Rightarrow> regex \<Rightarrow> nat \<Rightarrow> nat \<Rightarrow> (u8 list \<times> nat) option" where
  "emit opts (RChar c) start cc = do { code \<leftarrow> emit_char opts c; Some (code, cc) }"
| "emit opts (RClass ps) start cc = do { code \<leftarrow> emit_class opts ps; Some (code, cc) }"
| "emit opts RDot start cc = Some (re_emit_op (if o_dotall opts then REOP_any else REOP_dot), cc)"
| "emit opts RLineStart start cc = Some (re_emit_op REOP_line_start, cc)"
| "emit opts RLineEnd start cc = Some (re_emit_op REOP_line_end, cc)"
| "emit opts (RWordBoundary neg) start cc = Some (re_emit_op (if neg then REOP_not_word_boundary else REOP_word_boundary), cc)"
| "emit opts (RBackRef n) start cc = Some (re_emit_op_u8 REOP_back_reference n, cc)"
| "emit opts REmpty start cc = Some ([], cc)"
| "emit opts (RSeq a b) start cc =
     do { (ca, cc) \<leftarrow> emit opts a start cc; (cb, cc) \<leftarrow> emit opts b (start + length ca) cc; Some (ca @ cb, cc) }"
| "emit opts (RAlt a b) start cc =
     do { (ca, cc) \<leftarrow> emit opts a start cc; (cb, cc) \<leftarrow> emit opts b (start + length ca + 10) cc;
          Some (emit_alternatives ca cb, cc) }"
| "emit opts (RGroup a) start cc =
     (if cc \<ge> 255 then None
      else do { (ca, cc') \<leftarrow> emit opts a (start + 2) (cc + 1); Some (emit_capture cc ca, cc') })"
| "emit opts (RLook neg a) start cc =
     do { (ca, cc) \<leftarrow> emit opts a (start + 5) cc; Some (emit_lookahead neg ca, cc) }"
| "emit opts (RQuant a quant_min quant_max greedy) start cc =
     do { (ca, cc') \<leftarrow> emit opts a start cc;
          code \<leftarrow> emit_quantifier start quant_min quant_max greedy cc cc' ca; Some (code, cc') }"

text \<open>\<open>lre_compile\<close>: the header, the search for a start unless the pattern is sticky, the pattern as capture 0.\<close>

definition search_prefix :: "u8 list" where
  "search_prefix = re_emit_op_u32 REOP_split_goto_first (1 + 5) @ re_emit_op REOP_any @ re_emit_op_u32 REOP_goto (- (5 + 1 + 5))"

definition compile_regex :: "unicode_tables \<Rightarrow> u8 \<Rightarrow> regex \<Rightarrow> u8 list option" where
  "compile_regex T re_flags e =
     (let opts = \<lparr>o_ignore_case = (re_flags AND 2 \<noteq> 0), o_is_utf16 = (re_flags AND 16 \<noteq> 0), o_dotall = (re_flags AND 8 \<noteq> 0),
            o_tables = T\<rparr>;
          prefix = (if re_flags AND 32 \<noteq> 0 then [] else search_prefix)
      in do { (body, cc) \<leftarrow> emit opts e (7 + length prefix + 2) 1;
              let code = prefix @ emit_capture 0 body @ re_emit_op REOP_match in
              do { ss \<leftarrow> compute_stack_size code;
                   stack_size \<leftarrow> ss;
                   Some ([re_flags, of_nat cc, of_nat stack_size] @ u32_bytes (length code) @ code) } })"

end
