(* ===== verification/RegexpSem.thy ===== *)
theory RegexpSem
  imports Regexp
begin

text \<open>
  What the executor of regular expressions computes, without its stack of states: a thread matches or fails, a split tries
  its second thread when the first fails, a lookahead goes on when its body matches (or, negated, fails), and a greedy
  quantifier gives back one match at a time. The machine of \<open>Regexp\<close>, which never recurs, is shown to implement
  this definition.
\<close>

subsection \<open>Ordered choice\<close>

text \<open>The result is the captures of a match, or \<open>None\<close> for a failure.\<close>

inductive bt :: "re_ctx \<Rightarrow> re_thread \<Rightarrow> nat option list option \<Rightarrow> bool"
  and bt_back :: "re_ctx \<Rightarrow> re_thread \<Rightarrow> REExecState option \<Rightarrow> nat option list option \<Rightarrow> bool"
  for ctx :: re_ctx
where
  bt_next: "re_step ctx t = Some (Next t') \<Longrightarrow> bt ctx t' r \<Longrightarrow> bt ctx t r"
| bt_match: "re_step ctx t = Some Matched \<Longrightarrow> bt ctx t (Some (t_cap t))"
| bt_fail: "re_step ctx t = Some No_match \<Longrightarrow> bt ctx t None"
| bt_first: "re_step ctx t = Some (Split t1 t2) \<Longrightarrow> bt ctx t1 (Some cap) \<Longrightarrow> bt ctx t (Some cap)"
| bt_second: "re_step ctx t = Some (Split t1 t2) \<Longrightarrow> bt ctx t1 None \<Longrightarrow> bt ctx t2 r \<Longrightarrow> bt ctx t r"
| bt_look: "re_step ctx t = Some (Look False t1 t2) \<Longrightarrow> bt ctx t1 (Some cap) \<Longrightarrow> bt ctx (t2\<lparr>t_cap := cap\<rparr>) r \<Longrightarrow> bt ctx t r"
| bt_look_fail: "re_step ctx t = Some (Look False t1 t2) \<Longrightarrow> bt ctx t1 None \<Longrightarrow> bt ctx t None"
| bt_neg: "re_step ctx t = Some (Look True t1 t2) \<Longrightarrow> bt ctx t1 None \<Longrightarrow> bt ctx t2 r \<Longrightarrow> bt ctx t r"
| bt_neg_fail: "re_step ctx t = Some (Look True t1 t2) \<Longrightarrow> bt ctx t1 (Some cap) \<Longrightarrow> bt ctx t None"
| bt_greedy: "re_step ctx t = Some (Greedy t1 pc cptr count) \<Longrightarrow>
    bt_back ctx t1 (Some \<lparr>rs_type = RE_EXEC_STATE_GREEDY_QUANT, rs_count = count, rs_thread = t\<lparr>t_pc := pc, t_cptr := cptr\<rparr>\<rparr>) r \<Longrightarrow>
    bt ctx t r"
| back_match: "bt ctx t (Some cap) \<Longrightarrow> bt_back ctx t rs (Some cap)"
| back_fail: "bt ctx t None \<Longrightarrow> bt_back ctx t None None"
| back_next: "bt ctx t None \<Longrightarrow> greedy_next ctx rs = Some (t', rs') \<Longrightarrow>
    bt_back ctx t' (if rs_count rs' = 0 then None else Some rs') r \<Longrightarrow> bt_back ctx t (Some rs) r"

subsection \<open>The machine\<close>

text \<open>What the machine does after a match or a failure, with the states \<open>st\<close> below.\<close>

definition end_with :: "nat \<Rightarrow> re_ctx \<Rightarrow> bool \<Rightarrow> nat option list \<Rightarrow> re_states \<Rightarrow> re_outcome option" where
  "end_with n ctx ret cap st =
     (case re_recurse ctx ret cap (fst st) of
        None \<Rightarrow> Some Undefined
      | Some (Finished ret cap) \<Rightarrow> Some (Ret (if ret then 1 else 0) cap)
      | Some (Back t' fs) \<Rightarrow> lre_exec_backtrack n ctx t' (fs, snd st))"

definition go_on :: "nat \<Rightarrow> re_ctx \<Rightarrow> nat option list \<Rightarrow> re_thread \<Rightarrow> re_thread \<Rightarrow> REExecStateEnum \<Rightarrow> nat \<Rightarrow> re_states \<Rightarrow> re_outcome option" where
  "go_on n ctx cap t' pushed type count st =
     (case push_state ctx pushed type count st of
        None \<Rightarrow> Some (Ret (-1) cap)
      | Some st' \<Rightarrow> lre_exec_backtrack n ctx t' st')"

lemma exec_Suc:
  "lre_exec_backtrack (Suc n) ctx t st =
     (case re_step ctx t of
        None \<Rightarrow> Some Undefined
      | Some (Next t') \<Rightarrow> lre_exec_backtrack n ctx t' st
      | Some Matched \<Rightarrow> end_with n ctx True (t_cap t) st
      | Some No_match \<Rightarrow> end_with n ctx False (t_cap t) st
      | Some (Split t' t1) \<Rightarrow> go_on n ctx (t_cap t) t' t1 RE_EXEC_STATE_SPLIT 0 st
      | Some (Look neg t' t1) \<Rightarrow>
          go_on n ctx (t_cap t) t' t1 (if neg then RE_EXEC_STATE_NEGATIVE_LOOKAHEAD else RE_EXEC_STATE_LOOKAHEAD) 0 st
      | Some (Greedy t' pc cptr count) \<Rightarrow>
          go_on n ctx (t_cap t) t' (t\<lparr>t_pc := pc, t_cptr := cptr\<rparr>) RE_EXEC_STATE_GREEDY_QUANT count st
      | Some Never \<Rightarrow> None)"
  by (simp add: Let_def end_with_def go_on_def split: re_action.split option.split)

declare lre_exec_backtrack.simps(2) [simp del]

lemma exec_mono: "lre_exec_backtrack n ctx t st = Some r \<Longrightarrow> n \<le> m \<Longrightarrow> lre_exec_backtrack m ctx t st = Some r"
proof (induction n arbitrary: m t st)
  case (Suc n)
  then obtain m' where m: "m = Suc m'" "n \<le> m'" by (cases m) auto
  have e: "end_with n ctx ret cap st = Some r \<Longrightarrow> end_with m' ctx ret cap st = Some r" for ret cap
    using Suc.IH [OF _ m(2)] by (auto simp: end_with_def split: option.splits re_back.splits)
  have g: "go_on n ctx cap t' p ty c st = Some r \<Longrightarrow> go_on m' ctx cap t' p ty c st = Some r" for cap t' p ty c
    using Suc.IH [OF _ m(2)] by (auto simp: go_on_def split: option.splits)
  show ?case using Suc.prems(1) Suc.IH [OF _ m(2)] unfolding m(1) exec_Suc
    by (auto split: option.splits re_action.splits dest: e g)
qed simp

text \<open>With an allocator that does not fail, the size of the stack does not matter.\<close>

definition roomy :: "re_ctx \<Rightarrow> bool" where
  "roomy ctx \<longleftrightarrow> (\<forall>n. realloc_ok ctx n)"

lemma push_roomy:
  assumes "roomy ctx"
  obtains sz' where "push_state ctx t ty c (fs, sz) = Some (\<lparr>rs_type = ty, rs_count = c, rs_thread = t\<rparr> # fs, sz')"
proof -
  have "\<exists>sz'. push_state ctx t ty c (fs, sz) = Some (\<lparr>rs_type = ty, rs_count = c, rs_thread = t\<rparr> # fs, sz')"
    using assms by (auto simp: push_state_def roomy_def Let_def)
  then show ?thesis using that by blast
qed

lemma exec_sz:
  assumes "roomy ctx"
  shows "lre_exec_backtrack n ctx t (fs, sz) = lre_exec_backtrack n ctx t (fs, sz')"
proof (induction n arbitrary: t fs sz sz')
  case (Suc n)
  have e: "end_with n ctx ret cap (fs, sz) = end_with n ctx ret cap (fs, sz')" for ret cap
    using Suc.IH [of _ _ sz sz'] by (auto simp: end_with_def split: option.splits re_back.splits)
  have g: "go_on n ctx cap t' q ty c (fs, sz) = go_on n ctx cap t' q ty c (fs, sz')" for cap t' q ty c
    using push_roomy [OF assms, of q ty c fs sz] push_roomy [OF assms, of q ty c fs sz'] Suc.IH
    unfolding go_on_def by (metis (no_types, lifting) option.simps(5))
  have "lre_exec_backtrack n ctx t' (fs, sz) = lre_exec_backtrack n ctx t' (fs, sz')" for t' by (rule Suc.IH)
  then show ?case unfolding exec_Suc by (auto simp: e g split: option.split re_action.split)
qed simp

definition run :: "nat \<Rightarrow> re_ctx \<Rightarrow> re_thread \<Rightarrow> REExecState list \<Rightarrow> re_outcome option" where
  "run n ctx t fs = lre_exec_backtrack n ctx t (fs, 0)"

definition ending :: "nat \<Rightarrow> re_ctx \<Rightarrow> bool \<Rightarrow> nat option list \<Rightarrow> REExecState list \<Rightarrow> re_outcome option" where
  "ending n ctx ret cap fs =
     (case re_recurse ctx ret cap fs of
        None \<Rightarrow> Some Undefined
      | Some (Finished ret cap) \<Rightarrow> Some (Ret (if ret then 1 else 0) cap)
      | Some (Back t' fs') \<Rightarrow> run n ctx t' fs')"

abbreviation state_of :: "REExecStateEnum \<Rightarrow> nat \<Rightarrow> re_thread \<Rightarrow> REExecState" where
  "state_of ty c t \<equiv> \<lparr>rs_type = ty, rs_count = c, rs_thread = t\<rparr>"

lemma run_0 [simp]: "run 0 ctx t fs = None"
  by (simp add: run_def)

lemma run_Suc:
  assumes "roomy ctx"
  shows "run (Suc n) ctx t fs =
     (case re_step ctx t of
        None \<Rightarrow> Some Undefined
      | Some (Next t') \<Rightarrow> run n ctx t' fs
      | Some Matched \<Rightarrow> ending n ctx True (t_cap t) fs
      | Some No_match \<Rightarrow> ending n ctx False (t_cap t) fs
      | Some (Split t' t1) \<Rightarrow> run n ctx t' (state_of RE_EXEC_STATE_SPLIT 0 t1 # fs)
      | Some (Look neg t' t1) \<Rightarrow>
          run n ctx t' (state_of (if neg then RE_EXEC_STATE_NEGATIVE_LOOKAHEAD else RE_EXEC_STATE_LOOKAHEAD) 0 t1 # fs)
      | Some (Greedy t' pc cptr count) \<Rightarrow>
          run n ctx t' (state_of RE_EXEC_STATE_GREEDY_QUANT count (t\<lparr>t_pc := pc, t_cptr := cptr\<rparr>) # fs)
      | Some Never \<Rightarrow> None)"
proof -
  have "go_on n ctx cap t' q ty c (fs, 0) = run n ctx t' (state_of ty c q # fs)" for cap t' q ty c
    using push_roomy [OF assms, of q ty c fs 0] exec_sz [OF assms] unfolding go_on_def run_def
    by (metis (no_types, lifting) option.simps(5))
  moreover have "end_with n ctx ret cap (fs, 0) = ending n ctx ret cap fs" for ret cap
    by (auto simp: end_with_def ending_def run_def split: option.split re_back.split)
  ultimately show ?thesis
    unfolding run_def [of "Suc n"] exec_Suc by (auto simp: run_def split: option.split re_action.split)
qed

lemma run_mono: "run n ctx t fs = Some r \<Longrightarrow> n \<le> m \<Longrightarrow> run m ctx t fs = Some r"
  unfolding run_def by (rule exec_mono)

lemma ending_simps [simp]:
  "ending n ctx False cap (state_of RE_EXEC_STATE_SPLIT c t # fs) = run n ctx t fs"
  "ending n ctx True cap (state_of RE_EXEC_STATE_SPLIT c t # fs) = ending n ctx True cap fs"
  "ending n ctx True cap (state_of RE_EXEC_STATE_LOOKAHEAD c t # fs) = run n ctx (t\<lparr>t_cap := cap\<rparr>) fs"
  "ending n ctx False cap (state_of RE_EXEC_STATE_LOOKAHEAD c t # fs) = ending n ctx False cap fs"
  "ending n ctx False cap (state_of RE_EXEC_STATE_NEGATIVE_LOOKAHEAD c t # fs) = run n ctx t fs"
  "ending n ctx True cap (state_of RE_EXEC_STATE_NEGATIVE_LOOKAHEAD c t # fs) = ending n ctx False cap fs"
  by (simp_all add: ending_def)

abbreviation states :: "REExecState option \<Rightarrow> REExecState list" where
  "states rs \<equiv> case_option [] (\<lambda>f. [f]) rs"

lemma ending_greedy:
  assumes "rs_type f = RE_EXEC_STATE_GREEDY_QUANT"
  shows "ending n ctx True cap (f # fs) = ending n ctx True cap fs"
    and "greedy_next ctx f = Some (t', f') \<Longrightarrow>
      ending n ctx False cap (f # fs) = run n ctx t' (states (if rs_count f' = 0 then None else Some f') @ fs)"
  using assms by (auto simp: ending_def greedy_back_def)

lemma greedy_next_type: "greedy_next ctx f = Some (t', f') \<Longrightarrow> rs_type f' = rs_type f"
  by (auto simp: greedy_next_def Let_def bind_eq_Some_conv)

text \<open>The states below do not matter until the thread has matched or failed.\<close>

definition runs_to :: "re_ctx \<Rightarrow> re_thread \<Rightarrow> REExecState list \<Rightarrow> nat option list option \<Rightarrow> bool" where
  "runs_to ctx t rs r \<longleftrightarrow> (\<exists>m. \<forall>k fs. \<exists>cap. (\<forall>c. r = Some c \<longrightarrow> cap = c) \<and>
     run (m + k) ctx t (rs @ fs) = ending k ctx (r \<noteq> None) cap fs)"

lemma runs_toI:
  assumes "\<And>k fs. \<exists>cap. (\<forall>c. r = Some c \<longrightarrow> cap = c) \<and> run (m + k) ctx t (rs @ fs) = ending k ctx (r \<noteq> None) cap fs"
  shows "runs_to ctx t rs r"
  using assms by (auto simp: runs_to_def)

lemma runs_to_step:
  assumes "\<And>k fs. run (Suc k) ctx t fs = run k ctx t' (rs @ fs)" and "runs_to ctx t' rs r"
  shows "runs_to ctx t [] r"
proof -
  obtain m where "\<And>k fs. \<exists>cap. (\<forall>c. r = Some c \<longrightarrow> cap = c) \<and> run (m + k) ctx t' (rs @ fs) = ending k ctx (r \<noteq> None) cap fs"
    using assms(2) by (auto simp: runs_to_def)
  then show ?thesis using assms(1) by (intro runs_toI [of _ "Suc m"]) simp
qed

text \<open>A run that ends with a state on top of the others, which ends as it is or goes on with a thread.\<close>

lemma runs_to_state:
  assumes "runs_to ctx t [] r1"
    and "\<And>k cap fs. (\<forall>c. r1 = Some c \<longrightarrow> cap = c) \<Longrightarrow> ending k ctx (r1 \<noteq> None) cap (f # fs) = run k ctx t2 (rs @ fs)"
    and "runs_to ctx t2 rs r"
  shows "runs_to ctx t [f] r"
proof -
  obtain m1 where m1: "\<And>k fs. \<exists>cap. (\<forall>c. r1 = Some c \<longrightarrow> cap = c) \<and> run (m1 + k) ctx t fs = ending k ctx (r1 \<noteq> None) cap fs"
    using assms(1) by (auto simp: runs_to_def)
  obtain m2 where m2: "\<And>k fs. \<exists>cap. (\<forall>c. r = Some c \<longrightarrow> cap = c) \<and> run (m2 + k) ctx t2 (rs @ fs) = ending k ctx (r \<noteq> None) cap fs"
    using assms(3) by (auto simp: runs_to_def)
  have "run (m1 + m2 + k) ctx t ([f] @ fs) = run (m2 + k) ctx t2 (rs @ fs)" for k fs
    using m1 [of "m2 + k" "f # fs"] assms(2) by (auto simp: add.assoc)
  with m2 show ?thesis by (intro runs_toI [of _ "m1 + m2"]) metis
qed

lemma runs_to_drop:
  assumes "runs_to ctx t [] r1"
    and "\<And>k cap fs. (\<forall>c. r1 = Some c \<longrightarrow> cap = c) \<Longrightarrow> \<exists>cap'. (\<forall>c. r = Some c \<longrightarrow> cap' = c) \<and>
      ending k ctx (r1 \<noteq> None) cap (f # fs) = ending k ctx (r \<noteq> None) cap' fs"
  shows "runs_to ctx t [f] r"
proof -
  obtain m1 where m1: "\<And>k fs. \<exists>cap. (\<forall>c. r1 = Some c \<longrightarrow> cap = c) \<and> run (m1 + k) ctx t fs = ending k ctx (r1 \<noteq> None) cap fs"
    using assms(1) by (auto simp: runs_to_def)
  show ?thesis
  proof (rule runs_toI [of _ m1])
    fix k fs
    obtain cap where c: "\<forall>c. r1 = Some c \<longrightarrow> cap = c" "run (m1 + k) ctx t (f # fs) = ending k ctx (r1 \<noteq> None) cap (f # fs)"
      using m1 [of k "f # fs"] by auto
    from assms(2) [OF c(1)] c(2) show "\<exists>cap. (\<forall>c. r = Some c \<longrightarrow> cap = c) \<and> run (m1 + k) ctx t ([f] @ fs) = ending k ctx (r \<noteq> None) cap fs"
      by (metis append_Cons append_Nil)
  qed
qed


lemma bt_runs:
  assumes "roomy ctx"
  shows "bt ctx t r \<Longrightarrow> runs_to ctx t [] r"
    and "bt_back ctx t rs r \<Longrightarrow> (\<forall>f. rs = Some f \<longrightarrow> rs_type f = RE_EXEC_STATE_GREEDY_QUANT) \<Longrightarrow> runs_to ctx t (states rs) r"
proof (induction rule: bt_bt_back.inducts)
  case (bt_next t t' r)
  show ?case using bt_next by (intro runs_to_step [of ctx t t' "[]"]) (simp_all add: run_Suc [OF assms])
next
  case (bt_match t)
  show ?case by (rule runs_toI [of _ 1]) (simp add: run_Suc [OF assms] bt_match)
next
  case (bt_fail t)
  show ?case by (rule runs_toI [of _ 1]) (auto simp: run_Suc [OF assms] bt_fail)
next
  case (bt_first t t1 t2 cap)
  have "runs_to ctx t1 [state_of RE_EXEC_STATE_SPLIT 0 t2] (Some cap)" by (rule runs_to_drop [OF bt_first(3)]) auto
  then show ?case by (rule runs_to_step [rotated]) (simp add: run_Suc [OF assms] bt_first)
next
  case (bt_second t t1 t2 r)
  have "runs_to ctx t1 [state_of RE_EXEC_STATE_SPLIT 0 t2] r" by (rule runs_to_state [OF bt_second(3) _ bt_second(5)]) simp
  then show ?case by (rule runs_to_step [rotated]) (simp add: run_Suc [OF assms] bt_second)
next
  case (bt_look t t1 t2 cap r)
  have "runs_to ctx t1 [state_of RE_EXEC_STATE_LOOKAHEAD 0 t2] r" by (rule runs_to_state [OF bt_look(3) _ bt_look(5)]) simp
  then show ?case by (rule runs_to_step [rotated]) (simp add: run_Suc [OF assms] bt_look)
next
  case (bt_look_fail t t1 t2)
  have "runs_to ctx t1 [state_of RE_EXEC_STATE_LOOKAHEAD 0 t2] None" by (rule runs_to_drop [OF bt_look_fail(3)]) auto
  then show ?case by (rule runs_to_step [rotated]) (simp add: run_Suc [OF assms] bt_look_fail)
next
  case (bt_neg t t1 t2 r)
  have "runs_to ctx t1 [state_of RE_EXEC_STATE_NEGATIVE_LOOKAHEAD 0 t2] r" by (rule runs_to_state [OF bt_neg(3) _ bt_neg(5)]) simp
  then show ?case by (rule runs_to_step [rotated]) (simp add: run_Suc [OF assms] bt_neg)
next
  case (bt_neg_fail t t1 t2 cap)
  have "runs_to ctx t1 [state_of RE_EXEC_STATE_NEGATIVE_LOOKAHEAD 0 t2] None" by (rule runs_to_drop [OF bt_neg_fail(3)]) auto
  then show ?case by (rule runs_to_step [rotated]) (simp add: run_Suc [OF assms] bt_neg_fail)
next
  case (bt_greedy t t1 pc cptr count r)
  then show ?case by (intro runs_to_step [of ctx t t1 "[_]"]) (simp_all add: run_Suc [OF assms])
next
  case (back_match t cap rs)
  show ?case
  proof (cases rs)
    case (Some f)
    with back_match show ?thesis by (auto intro!: runs_to_drop [OF back_match(2)] simp: ending_greedy)
  qed (use back_match in simp)
next
  case (back_fail t)
  then show ?case by simp
next
  case (back_next t rs t' rs' r)
  have "rs_type rs' = RE_EXEC_STATE_GREEDY_QUANT" using back_next greedy_next_type by fastforce
  then have "runs_to ctx t' (states (if rs_count rs' = 0 then None else Some rs')) r" using back_next(5) by auto
  then have "runs_to ctx t [rs] r"
    using back_next by (intro runs_to_state [OF back_next(2)]) (simp_all add: ending_greedy(2))
  then show ?case by simp
qed

text \<open>Conversely, a machine that returns has found a result of its first thread.\<close>

lemma runs_to_fuel:
  assumes "runs_to ctx t rs r" and "run (Suc n) ctx t (rs @ fs) = Some v"
  shows "\<exists>cap. (\<forall>c. r = Some c \<longrightarrow> cap = c) \<and> ending n ctx (r \<noteq> None) cap fs = Some v"
proof -
  obtain m where m: "\<And>k fs. \<exists>cap. (\<forall>c. r = Some c \<longrightarrow> cap = c) \<and> run (m + k) ctx t (rs @ fs) = ending k ctx (r \<noteq> None) cap fs"
    using assms(1) by (auto simp: runs_to_def)
  have "m \<noteq> 0" using m [of 0 "[]"] by (intro notI) (simp add: ending_def)
  then have "run (m + n) ctx t (rs @ fs) = Some v" using run_mono [OF assms(2), of "m + n"] by simp
  with m [of n fs] show ?thesis by metis
qed

lemma run_bt:
  assumes room: "roomy ctx" and v: "v \<noteq> Undefined"
  shows "(run n ctx t fs = Some v \<longrightarrow> (\<exists>r. bt ctx t r)) \<and>
    (run n ctx t (states rs @ fs) = Some v \<longrightarrow> (\<forall>f. rs = Some f \<longrightarrow> rs_type f = RE_EXEC_STATE_GREEDY_QUANT) \<longrightarrow>
      (\<exists>r. bt_back ctx t rs r))"
proof (induction n arbitrary: t fs rs)
  case (Suc n)
  have I1: "\<exists>r. bt ctx t r" if "run n ctx t fs = Some v" for t fs using Suc that by blast
  have I2: "\<exists>r. bt_back ctx t rs r" if "run n ctx t (states rs @ fs) = Some v"
    "\<forall>f. rs = Some f \<longrightarrow> rs_type f = RE_EXEC_STATE_GREEDY_QUANT" for t fs rs
    using Suc that by blast
  have after: "\<exists>cap. (\<forall>c. r = Some c \<longrightarrow> cap = c) \<and> ending n ctx (r \<noteq> None) cap fs = Some v"
    if "bt ctx t r" "run k ctx t fs = Some v" "k \<le> Suc n" for t fs r k
    using runs_to_fuel [OF bt_runs(1) [OF room that(1)], of n fs v] run_mono [OF that(2,3)] by simp
  have one: "\<exists>r. bt ctx t r" if R: "run (Suc n) ctx t fs = Some v" for t fs
  proof -
    obtain a where a: "re_step ctx t = Some a" using R v run_Suc [OF room, of n t fs] by (cases "re_step ctx t") auto
    note R' = R [unfolded run_Suc [OF room] a]
    show ?thesis
    proof (cases a)
      case (Next t')
      then show ?thesis using R' a I1 bt_next by fastforce
    next
      case (Split t1 t2)
      then have r1: "run n ctx t1 (state_of RE_EXEC_STATE_SPLIT 0 t2 # fs) = Some v" using R' by simp
      then obtain r where r: "bt ctx t1 r" using I1 by blast
      with after [OF r r1] I1 [of t2 fs] a Split show ?thesis
        by (cases r) (auto intro: bt_first bt_second)
    next
      case (Look neg t1 t2)
      then have r1: "run n ctx t1 (state_of (if neg then RE_EXEC_STATE_NEGATIVE_LOOKAHEAD else RE_EXEC_STATE_LOOKAHEAD) 0 t2 # fs) = Some v"
        using R' by simp
      then obtain r where r: "bt ctx t1 r" using I1 by blast
      with after [OF r r1] I1 [of t2 fs] I1 [of "t2\<lparr>t_cap := _\<rparr>" fs] a Look show ?thesis
        by (cases neg; cases r) (auto intro: bt_look_fail bt_neg bt_neg_fail, (blast intro: bt_look)+)
    next
      case (Greedy t1 pc cptr c)
      then show ?thesis
        using R' a I2 [of t1 "Some (state_of RE_EXEC_STATE_GREEDY_QUANT c (t\<lparr>t_pc := pc, t_cptr := cptr\<rparr>))" fs]
        by (auto intro: bt_greedy)
    qed (use R' a in \<open>auto intro: bt_match bt_fail\<close>)
  qed
  have "\<exists>r. bt_back ctx t rs r" if R: "run (Suc n) ctx t (states rs @ fs) = Some v"
    "\<forall>f. rs = Some f \<longrightarrow> rs_type f = RE_EXEC_STATE_GREEDY_QUANT" for t rs fs
  proof -
    obtain r where r: "bt ctx t r" using one [OF R(1)] by blast
    show ?thesis
    proof (cases r)
      case (Some cap)
      then show ?thesis using r back_match by blast
    next
      case None
      show ?thesis
      proof (cases rs)
        case (Some f)
        then have f: "rs_type f = RE_EXEC_STATE_GREEDY_QUANT" using R(2) by simp
        obtain cap where e: "ending n ctx False cap (f # fs) = Some v" using after [OF r R(1)] None Some by auto
        then obtain t' f' where g: "greedy_next ctx f = Some (t', f')"
          using v f by (cases "greedy_next ctx f") (auto simp: ending_def greedy_back_def)
        have "run n ctx t' (states (if rs_count f' = 0 then None else Some f') @ fs) = Some v"
          using e ending_greedy(2) [OF f g] by simp
        then obtain r' where "bt_back ctx t' (if rs_count f' = 0 then None else Some f') r'"
          using I2 greedy_next_type [OF g] f by fastforce
        then show ?thesis using back_next [OF _ g] r None Some by blast
      qed (use r None back_fail in auto)
    qed
  qed
  with one show ?case by blast
qed simp

lemma run_empty:
  assumes "roomy ctx"
  shows "(\<exists>n. run n ctx t [] = Some (Ret 1 cap)) \<longleftrightarrow> bt ctx t (Some cap)"
    and "(\<exists>n cap. run n ctx t [] = Some (Ret 0 cap)) \<longleftrightarrow> bt ctx t None"
proof -
  have bwd: "\<exists>n cap. (\<forall>c. r = Some c \<longrightarrow> cap = c) \<and> run n ctx t [] = Some (Ret (if r \<noteq> None then 1 else 0) cap)" if b: "bt ctx t r" for r
  proof -
    obtain m where "\<And>k fs. \<exists>cap. (\<forall>c. r = Some c \<longrightarrow> cap = c) \<and> run (m + k) ctx t ([] @ fs) = ending k ctx (r \<noteq> None) cap fs"
      using bt_runs(1) [OF assms b] by (auto simp: runs_to_def)
    from this [of 0 "[]"] show ?thesis by (auto simp: ending_def intro!: exI [of _ m])
  qed
  have fwd: "\<exists>r. bt ctx t r \<and> (r \<noteq> None \<longleftrightarrow> i = 1) \<and> (\<forall>c. r = Some c \<longrightarrow> c = cap)"
    if R: "run n ctx t [] = Some (Ret i cap)" "i = 0 \<or> i = 1" for n i cap
  proof -
    obtain r where r: "bt ctx t r" using run_bt [OF assms, of "Ret i cap" n t "[]"] R by auto
    have "run (Suc n) ctx t ([] @ []) = Some (Ret i cap)" using run_mono [OF R(1), of "Suc n"] by simp
    from runs_to_fuel [OF bt_runs(1) [OF assms r] this] r R(2) show ?thesis
      by (intro exI [of _ r]) (auto simp: ending_def split: if_splits)
  qed
  show "(\<exists>n. run n ctx t [] = Some (Ret 1 cap)) \<longleftrightarrow> bt ctx t (Some cap)"
    using fwd [of _ 1 cap] bwd [of "Some cap"] by auto
  show "(\<exists>n cap. run n ctx t [] = Some (Ret 0 cap)) \<longleftrightarrow> bt ctx t None"
    using fwd [of _ 0] bwd [of None] by auto
qed

subsection \<open>Properties\<close>

text \<open>
  C22. The executor implements ordered backtracking. With an allocator that does not fail, \<open>lre_exec\<close> returns 1 with the
  captures \<open>cap\<close> exactly when the code, read as a recursive search that tries alternatives in order, matches with these captures,
  and returns 0 exactly when that search fails: the stack of states, the restored captures and the states
  of lookaheads and greedy quantifiers are an implementation detail.
\<close>

theorem lre_exec_refines:
  assumes "re_init T alloc bc subject cbtype = Some ctx" and "\<forall>n. alloc n"
  shows "((\<exists>n. lre_exec n T alloc bc subject cindex cbtype = Some (Ret 1 cap)) \<longleftrightarrow> bt ctx (re_start ctx cindex) (Some cap)) \<and>
    ((\<exists>n cap. lre_exec n T alloc bc subject cindex cbtype = Some (Ret 0 cap)) \<longleftrightarrow> bt ctx (re_start ctx cindex) None)"
proof -
  have "roomy ctx" using assms by (auto simp: roomy_def re_init_def bind_eq_Some_conv Let_def)
  from run_empty [OF this] show ?thesis using assms(1) by (simp add: lre_exec_def run_def)
qed

end
