(* ===== verification/RegexpCode.thy ===== *)
theory RegexpCode
  imports RegexpEmit RegexpSem
begin

text \<open>
  Correctness of the code emitted for regular expressions: run by the executor, it returns the first of the results that the pattern has in
  the order of backtracking, and no match when it has none. The results of a pattern are a list (\<open>den\<close>), defined on the pattern and not on the
  code; a piece of code is correct for a function from states to lists of states when it tries them in order (\<open>frag\<close>).
\<close>

subsection \<open>Code in place\<close>

abbreviation code_at :: "re_ctx \<Rightarrow> nat \<Rightarrow> u8 list \<Rightarrow> bool" where
  "code_at ctx \<equiv> bytes_at (bc_buf ctx)"

lemmas code_at_append = bytes_at_append

lemma code_at_take: "code_at ctx p bs \<Longrightarrow> take (length bs) (drop p (bc_buf ctx)) = bs"
proof (induction bs arbitrary: p)
  case (Cons b bs)
  then have "p < length (bc_buf ctx)" "bc_buf ctx ! p = b" by (auto simp: rd_eq split: if_splits)
  with Cons show ?case by (simp add: Cons_nth_drop_Suc [symmetric])
qed simp

lemma op_at_code: "rd (bc_buf ctx) p = Some (op_byte oc) \<Longrightarrow> op_at ctx p = Some oc"
  by (simp add: op_at_def)

lemma get_le_take:
  fixes v :: "'a::len word"
  assumes "n * 8 = LENGTH('a)" and "take n bs = le_bytes n v"
  shows "get_le n bs = Some v"
proof -
  have "8 * n = LENGTH('a)" using assms(1) by simp
  moreover have "n \<le> length bs" using arg_cong [OF assms(2), of length] by simp
  ultimately show ?thesis using assms(2) by (simp add: get_le_def le_value_bytes take_bit_word_eq_self)
qed

lemma code_at_le: "code_at ctx p (le_bytes n v) \<Longrightarrow> take n (drop p (bc_buf ctx)) = le_bytes n v"
  using code_at_take [of ctx p "le_bytes n v"] by simp

lemma u32_at_code: "code_at ctx p (le_bytes 4 v) \<Longrightarrow> u32_at ctx p = Some v"
  unfolding u32_at_def get_u32_def by (rule get_le_take [OF _ code_at_le]) simp_all

lemma u16_at_code:
  assumes "code_at ctx p (le_bytes 2 (v :: u16))"
  shows "u16_at ctx p = Some (ucast v)"
proof -
  have "get_le 2 (drop p (bc_buf ctx)) = Some v" by (rule get_le_take [OF _ code_at_le [OF assms]]) simp
  then show ?thesis by (simp add: u16_at_def get_u16_def)
qed

lemma sint_of_nat_32: "n < 2 ^ 31 \<Longrightarrow> sint (of_nat n :: u32) = int n"
  by (subst sint_u32) (simp_all add: unat_of_nat)

lemma jump_forward: "n < 2 ^ 31 \<Longrightarrow> jump p (of_nat n) = Some (p + n)"
  by (simp add: jump_def sint_of_nat_32)

lemma sint_minus_32:
  assumes "v \<le> w" "w < 2 ^ 31"
  shows "sint (of_nat v - of_nat w :: u32) = int v - int w"
proof -
  have "sint (of_nat v - of_nat w :: u32) = signed_take_bit 31 (int v - int w)"
    using assms by (simp add: sint_word_diff sint_of_nat_32)
  also have "\<dots> = int v - int w" using assms by (intro signed_take_bit_int_eq_self) auto
  finally show ?thesis .
qed

lemma jump_backward:
  assumes "v \<le> w" "w < 2 ^ 31" "w - v \<le> p"
  shows "jump p (of_nat v - of_nat w) = Some (p - (w - v))"
  using assms by (simp add: jump_def sint_minus_32) linarith

subsection \<open>Trying threads in order\<close>

type_synonym re_result = "nat \<times> nat option list"

definition th :: "nat \<Rightarrow> re_result \<Rightarrow> u64 list \<Rightarrow> re_thread" where
  "th p s stk = \<lparr>t_pc = p, t_cptr = fst s, t_cap = snd s, t_stk = stk\<rparr>"

lemma th_simps [simp]:
  "t_pc (th p s stk) = p" "t_cptr (th p s stk) = fst s" "t_cap (th p s stk) = snd s" "t_stk (th p s stk) = stk"
  "(th p s stk)\<lparr>t_pc := q\<rparr> = th q s stk" "(th p s stk)\<lparr>t_stk := stk'\<rparr> = th p s stk'"
  "(th p s stk)\<lparr>t_cap := cap\<rparr> = th p (fst s, cap) stk" "(th p s stk)\<lparr>t_cptr := c\<rparr> = th p (c, snd s) stk"
  by (simp_all add: th_def)

inductive tries :: "re_ctx \<Rightarrow> re_thread list \<Rightarrow> nat option list option \<Rightarrow> bool" for ctx where
  tries_none: "tries ctx [] None"
| tries_here: "bt ctx t (Some cap) \<Longrightarrow> tries ctx (t # ts) (Some cap)"
| tries_next: "bt ctx t None \<Longrightarrow> tries ctx ts r \<Longrightarrow> tries ctx (t # ts) r"

inductive_simps tries_Nil [simp]: "tries ctx [] r"
inductive_simps tries_Cons: "tries ctx (t # ts) r"

lemma tries_append:
  "tries ctx (xs @ ys) r \<longleftrightarrow> tries ctx xs None \<and> tries ctx ys r \<or> (\<exists>cap. r = Some cap \<and> tries ctx xs (Some cap))"
  by (induction xs arbitrary: r) (auto simp: tries_Cons)

lemma tries_single [simp]: "tries ctx [t] r \<longleftrightarrow> bt ctx t r"
  by (cases r) (auto simp: tries_Cons)

text \<open>Replacing every thread by threads that give its result.\<close>

lemma tries_concat:
  assumes "\<And>x r. x \<in> set xs \<Longrightarrow> tries ctx (g x) r \<Longrightarrow> bt ctx (t x) r" and "tries ctx (concat (map g xs)) r"
  shows "tries ctx (map t xs) r"
  using assms
proof (induction xs arbitrary: r)
  case (Cons x xs)
  from Cons.prems(2) consider "tries ctx (g x) None" "tries ctx (concat (map g xs)) r"
    | cap where "r = Some cap" "tries ctx (g x) (Some cap)" by (auto simp: tries_append)
  then show ?case
  proof cases
    case 1
    then show ?thesis using Cons by (auto intro: tries_next)
  next
    case 2
    then show ?thesis using Cons.prems(1) [of x "Some cap"] by (auto intro: tries_here)
  qed
qed simp

subsection \<open>Correct pieces of code\<close>

definition valid :: "re_ctx \<Rightarrow> re_result \<Rightarrow> bool" where
  "valid ctx s \<longleftrightarrow> fst s \<le> length (cbuf ctx) \<and> length (snd s) = 2 * capture_count ctx"

text \<open>From position \<open>p\<close>, with room for \<open>d\<close> values on the counter stack, the code goes on at \<open>q\<close> with the states \<open>f s\<close> in turn.\<close>

definition frag :: "re_ctx \<Rightarrow> nat \<Rightarrow> nat \<Rightarrow> nat \<Rightarrow> (re_result \<Rightarrow> re_result list) \<Rightarrow> bool" where
  "frag ctx d p q f \<longleftrightarrow> (\<forall>s stk r. valid ctx s \<longrightarrow> length stk + d \<le> stack_size_max ctx \<longrightarrow>
     tries ctx (map (\<lambda>s. th q s stk) (f s)) r \<longrightarrow> bt ctx (th p s stk) r)"

definition fwd :: "re_ctx \<Rightarrow> (re_result \<Rightarrow> re_result list) \<Rightarrow> bool" where
  "fwd ctx f \<longleftrightarrow> (\<forall>s s'. valid ctx s \<longrightarrow> s' \<in> set (f s) \<longrightarrow> valid ctx s' \<and> fst s \<le> fst s')"

lemma fragD:
  "frag ctx d p q f \<Longrightarrow> valid ctx s \<Longrightarrow> length stk + d \<le> stack_size_max ctx \<Longrightarrow>
   tries ctx (map (\<lambda>s. th q s stk) (f s)) r \<Longrightarrow> bt ctx (th p s stk) r"
  unfolding frag_def by blast

lemma fwdD: "fwd ctx f \<Longrightarrow> valid ctx s \<Longrightarrow> s' \<in> set (f s) \<Longrightarrow> valid ctx s' \<and> fst s \<le> fst s'"
  unfolding fwd_def by blast

lemma frag_more: "frag ctx d p q f \<Longrightarrow> d \<le> d' \<Longrightarrow> frag ctx d' p q f"
  unfolding frag_def by (meson add_left_mono le_trans)

definition then_do :: "(re_result \<Rightarrow> re_result list) \<Rightarrow> (re_result \<Rightarrow> re_result list) \<Rightarrow> re_result \<Rightarrow> re_result list" where
  "then_do f g s = concat (map g (f s))"

lemma frag_seq:
  assumes "frag ctx d p q f" "frag ctx d q z g" "fwd ctx f"
  shows "frag ctx d p z (then_do f g)"
  unfolding frag_def
proof (intro allI impI)
  fix s stk r
  assume s: "valid ctx s" "length stk + d \<le> stack_size_max ctx" and t: "tries ctx (map (\<lambda>s. th z s stk) (then_do f g s)) r"
  have "tries ctx (concat (map (\<lambda>x. map (\<lambda>s. th z s stk) (g x)) (f s))) r"
    using t by (simp add: then_do_def map_concat comp_def)
  then have "tries ctx (map (\<lambda>x. th q x stk) (f s)) r"
    by (rule tries_concat [rotated]) (rule fragD [OF assms(2) conjunct1 [OF fwdD [OF assms(3) s(1)]] s(2)])
  then show "bt ctx (th p s stk) r" by (rule fragD [OF assms(1) s])
qed

lemma frag_empty: "frag ctx d p p (\<lambda>s. [s])"
  by (simp add: frag_def)

lemma fwd_then:
  assumes "fwd ctx f" "fwd ctx g"
  shows "fwd ctx (then_do f g)"
  unfolding fwd_def
proof (intro allI impI)
  fix s s' assume s: "valid ctx s" "s' \<in> set (then_do f g s)"
  then obtain s1 where s1: "s1 \<in> set (f s)" "s' \<in> set (g s1)" by (force simp: then_do_def)
  with fwdD [OF assms(1) s(1) s1(1)] fwdD [OF assms(2) _ s1(2)] show "valid ctx s' \<and> fst s \<le> fst s'" by auto
qed

text \<open>A single step to one thread.\<close>

lemma frag_step:
  assumes "\<And>s stk. valid ctx s \<Longrightarrow> length stk + d \<le> stack_size_max ctx \<Longrightarrow> re_step ctx (th p s stk) = Some (Next (th q (g s) stk))"
  shows "frag ctx d p q (\<lambda>s. [g s])"
  using assms by (auto simp: frag_def intro: bt_next)

lemma step_simple:
  assumes "op_at ctx p = Some oc" "is_simple_op oc"
  shows "re_step ctx (th p s stk) = map_option (after_test (th p s stk)) (simple_op ctx oc (p + 1) (fst s))"
  using assms by (simp add: re_step_def)

lemma frag_simple:
  assumes oc: "op_at ctx p = Some oc" "is_simple_op oc"
    and ok: "\<And>s. valid ctx s \<Longrightarrow> simple_op ctx oc (p + 1) (fst s) =
      Some (case g s of None \<Rightarrow> Reject | Some c \<Rightarrow> Accept q c)"
  shows "frag ctx d p q (\<lambda>s. case g s of None \<Rightarrow> [] | Some c \<Rightarrow> [(c, snd s)])"
  unfolding frag_def
proof (intro allI impI)
  fix s stk r
  assume s: "valid ctx s" and t: "tries ctx (map (\<lambda>s. th q s stk) (case g s of None \<Rightarrow> [] | Some c \<Rightarrow> [(c, snd s)])) r"
  note st = step_simple [OF oc, of s stk, unfolded ok [OF s]]
  show "bt ctx (th p s stk) r"
  proof (cases "g s")
    case None
    then show ?thesis using t st by (auto simp: after_test_def intro: bt_fail)
  next
    case (Some c)
    then show ?thesis using t st by (auto simp: after_test_def intro: bt_next)
  qed
qed

subsection \<open>Results of atoms\<close>

definition one_char :: "re_ctx \<Rightarrow> (u32 \<Rightarrow> bool) \<Rightarrow> nat \<Rightarrow> nat option" where
  "one_char ctx P c =
     (if c < length (cbuf ctx)
      then (case GET_CHAR ctx c (length (cbuf ctx)) of Some (x, c') \<Rightarrow> if P x then Some c' else None | None \<Rightarrow> None)
      else None)"

definition line_start_at :: "re_ctx \<Rightarrow> nat \<Rightarrow> bool" where
  "line_start_at ctx c \<longleftrightarrow> c = 0 \<or> multi_line ctx \<and> (\<exists>x. PEEK_PREV_CHAR ctx c 0 = Some x \<and> is_line_terminator x)"

definition line_end_at :: "re_ctx \<Rightarrow> nat \<Rightarrow> bool" where
  "line_end_at ctx c \<longleftrightarrow> c = length (cbuf ctx) \<or>
     multi_line ctx \<and> (\<exists>x. PEEK_CHAR ctx c (length (cbuf ctx)) = Some x \<and> is_line_terminator x)"

definition word_boundary_at :: "re_ctx \<Rightarrow> nat \<Rightarrow> bool" where
  "word_boundary_at ctx c \<longleftrightarrow> word_before ctx c \<noteq> word_after ctx c"

definition atom :: "(nat \<Rightarrow> nat option) \<Rightarrow> re_result \<Rightarrow> re_result list" where
  "atom g s = (case g (fst s) of None \<Rightarrow> [] | Some c \<Rightarrow> [(c, snd s)])"

definition test_at :: "(nat \<Rightarrow> bool) \<Rightarrow> nat \<Rightarrow> nat option" where
  "test_at P c = (if P c then Some c else None)"

lemma GET_CHAR_total: "c < length (cbuf ctx) \<Longrightarrow> \<exists>x c'. GET_CHAR ctx c (length (cbuf ctx)) = Some (x, c')"
  by (auto simp: GET_CHAR_def unit_at_def rd_eq)

lemma GET_PREV_CHAR_total: "0 < c \<Longrightarrow> c \<le> length (cbuf ctx) \<Longrightarrow> \<exists>x c'. GET_PREV_CHAR ctx c 0 = Some (x, c')"
  by (auto simp: GET_PREV_CHAR_def unit_at_def rd_eq)

lemma PEEK_total:
  "c < length (cbuf ctx) \<Longrightarrow> \<exists>x. PEEK_CHAR ctx c (length (cbuf ctx)) = Some x"
  "0 < c \<Longrightarrow> c \<le> length (cbuf ctx) \<Longrightarrow> \<exists>x. PEEK_PREV_CHAR ctx c 0 = Some x"
  using GET_CHAR_total [of c ctx] GET_PREV_CHAR_total [of c ctx] by (auto simp: PEEK_CHAR_def PEEK_PREV_CHAR_def)

lemma words_total:
  assumes "c \<le> length (cbuf ctx)"
  shows "\<exists>b. word_before ctx c = Some b" "\<exists>b. word_after ctx c = Some b"
  using assms PEEK_total [of c ctx] by (auto simp: word_before_def word_after_def)

text \<open>The subject of the theorems: no case folding.\<close>

lemma test_char_eq:
  assumes "\<not> ignore_case ctx"
  shows "test_char ctx (folded ctx (\<lambda>x. Some (P x))) q c = Some (case one_char ctx P c of None \<Rightarrow> Reject | Some c' \<Rightarrow> Accept q c')"
  using assms GET_CHAR_total [of c ctx]
  by (auto simp: test_char_def folded_def fold_char_def one_char_def accept_if_def)

lemma simple_op_atoms:
  assumes "\<not> ignore_case ctx" and "c \<le> length (cbuf ctx)"
  shows "u16_at ctx q = Some v \<Longrightarrow> simple_op ctx REOP_char q c =
      Some (case one_char ctx (\<lambda>x. x = v) c of None \<Rightarrow> Reject | Some c' \<Rightarrow> Accept (q + 2) c')"
    and "u32_at ctx q = Some v \<Longrightarrow> simple_op ctx REOP_char32 q c =
      Some (case one_char ctx (\<lambda>x. x = v) c of None \<Rightarrow> Reject | Some c' \<Rightarrow> Accept (q + 4) c')"
    and "simple_op ctx REOP_dot q c =
      Some (case one_char ctx (\<lambda>x. \<not> is_line_terminator x) c of None \<Rightarrow> Reject | Some c' \<Rightarrow> Accept q c')"
    and "simple_op ctx REOP_any q c =
      Some (case one_char ctx (\<lambda>x. True) c of None \<Rightarrow> Reject | Some c' \<Rightarrow> Accept q c')"
    and "simple_op ctx REOP_line_start q c =
      Some (case test_at (line_start_at ctx) c of None \<Rightarrow> Reject | Some c' \<Rightarrow> Accept q c')"
    and "simple_op ctx REOP_line_end q c =
      Some (case test_at (line_end_at ctx) c of None \<Rightarrow> Reject | Some c' \<Rightarrow> Accept q c')"
    and "simple_op ctx REOP_word_boundary q c =
      Some (case test_at (word_boundary_at ctx) c of None \<Rightarrow> Reject | Some c' \<Rightarrow> Accept q c')"
    and "simple_op ctx REOP_not_word_boundary q c =
      Some (case test_at (\<lambda>c. \<not> word_boundary_at ctx c) c of None \<Rightarrow> Reject | Some c' \<Rightarrow> Accept q c')"
proof -
  have eqs: "(\<lambda>x. Some (v = x)) = (\<lambda>x. Some (x = v))" for v :: u32 by auto
  show "u16_at ctx q = Some v \<Longrightarrow> simple_op ctx REOP_char q c =
      Some (case one_char ctx (\<lambda>x. x = v) c of None \<Rightarrow> Reject | Some c' \<Rightarrow> Accept (q + 2) c')"
    using test_char_eq [OF assms(1)] by (simp add: simple_op_def eqs del: add_2_eq_Suc')
  show "u32_at ctx q = Some v \<Longrightarrow> simple_op ctx REOP_char32 q c =
      Some (case one_char ctx (\<lambda>x. x = v) c of None \<Rightarrow> Reject | Some c' \<Rightarrow> Accept (q + 4) c')"
    using test_char_eq [OF assms(1)] by (simp add: simple_op_def eqs)
  show "simple_op ctx REOP_dot q c =
      Some (case one_char ctx (\<lambda>x. \<not> is_line_terminator x) c of None \<Rightarrow> Reject | Some c' \<Rightarrow> Accept q c')"
    using assms(2) GET_CHAR_total [of c ctx] by (auto simp: simple_op_def one_char_def accept_if_def)
  show "simple_op ctx REOP_any q c = Some (case one_char ctx (\<lambda>x. True) c of None \<Rightarrow> Reject | Some c' \<Rightarrow> Accept q c')"
    using assms(2) GET_CHAR_total [of c ctx] by (auto simp: simple_op_def one_char_def)
  show "simple_op ctx REOP_line_start q c =
      Some (case test_at (line_start_at ctx) c of None \<Rightarrow> Reject | Some c' \<Rightarrow> Accept q c')"
    using assms(2) PEEK_total(2) [of c ctx] by (auto simp: simple_op_def test_at_def line_start_at_def accept_if_def)
  show "simple_op ctx REOP_line_end q c =
      Some (case test_at (line_end_at ctx) c of None \<Rightarrow> Reject | Some c' \<Rightarrow> Accept q c')"
    using assms(2) PEEK_total(1) [of c ctx] by (auto simp: simple_op_def test_at_def line_end_at_def accept_if_def Let_def)
  show "simple_op ctx REOP_word_boundary q c =
      Some (case test_at (word_boundary_at ctx) c of None \<Rightarrow> Reject | Some c' \<Rightarrow> Accept q c')"
    using words_total [OF assms(2)] by (auto simp: simple_op_def test_at_def word_boundary_at_def accept_if_def)
  show "simple_op ctx REOP_not_word_boundary q c =
      Some (case test_at (\<lambda>c. \<not> word_boundary_at ctx c) c of None \<Rightarrow> Reject | Some c' \<Rightarrow> Accept q c')"
    using words_total [OF assms(2)] by (auto simp: simple_op_def test_at_def word_boundary_at_def accept_if_def)
qed

lemma one_char_bounds: "one_char ctx P c = Some c' \<Longrightarrow> c < c' \<and> c' \<le> length (cbuf ctx)"
  by (auto simp: one_char_def dest: GET_CHAR_bounds split: if_splits option.splits)

lemma one_char_step: "cbuf_type ctx \<noteq> 2 \<Longrightarrow> one_char ctx P c = Some c' \<Longrightarrow> c' = c + 1"
  by (auto simp: one_char_def GET_CHAR_def bind_eq_Some_conv split: if_splits option.splits)

lemma fwd_atom:
  assumes "\<And>c c'. c \<le> length (cbuf ctx) \<Longrightarrow> g c = Some c' \<Longrightarrow> c \<le> c' \<and> c' \<le> length (cbuf ctx)"
  shows "fwd ctx (atom g)"
  unfolding fwd_def
proof (intro allI impI)
  fix s s' assume "valid ctx s" "s' \<in> set (atom g s)"
  with assms [of "fst s" "fst s'"] show "valid ctx s' \<and> fst s \<le> fst s'"
    by (cases "g (fst s)") (auto simp: atom_def valid_def)
qed

lemma frag_atom:
  assumes "op_at ctx p = Some oc" "is_simple_op oc"
    and "\<And>c. c \<le> length (cbuf ctx) \<Longrightarrow> simple_op ctx oc (p + 1) c = Some (case g c of None \<Rightarrow> Reject | Some c' \<Rightarrow> Accept q c')"
  shows "frag ctx d p q (atom g)"
  unfolding atom_def using assms by (intro frag_simple [OF assms(1,2)]) (auto simp: valid_def)

subsection \<open>Control\<close>

lemma re_emit_goto_eq: "re_emit_goto oc pos val = re_emit_op_u32 oc (of_nat val - of_nat (pos + 5))"
  unfolding re_emit_goto_def re_emit_op_u32_def by (simp add: add.commute del: le_bytes_numeral)

lemma code_at_op: "code_at ctx p (re_emit_op oc) \<Longrightarrow> op_at ctx p = Some oc"
  by (simp add: re_emit_op_def op_at_code)

lemma code_at_op_u8: "code_at ctx p (re_emit_op_u8 oc v) \<Longrightarrow> v < 256 \<Longrightarrow> op_at ctx p = Some oc \<and> u8_at ctx (Suc p) = Some v"
  by (simp add: re_emit_op_u8_def op_at_code u8_at_def unat_of_nat)

lemma code_at_op_u32: "code_at ctx p (re_emit_op_u32 oc v) \<Longrightarrow> op_at ctx p = Some oc \<and> u32_at ctx (Suc p) = Some v"
  by (simp add: re_emit_op_u32_def op_at_code u32_at_code del: le_bytes_numeral)

lemma code_at_op_u16: "code_at ctx p (re_emit_op_u16 oc v) \<Longrightarrow> op_at ctx p = Some oc \<and> u16_at ctx (Suc p) = Some (ucast (ucast v :: u16))"
  using u16_at_code [of ctx "Suc p" "ucast v"] by (simp add: re_emit_op_u16_def op_at_code del: le_bytes_numeral)

lemma pos_arith: "Suc p + 4 = p + 5" "Suc (p + 4) = p + 5"
  by simp_all

lemma step_split:
  assumes "code_at ctx p (re_emit_op_u32 (split_op greedy) v)" "jump (p + 5) v = Some q"
  shows "re_step ctx (th p s stk) = Some (if greedy then Split (th (p + 5) s stk) (th q s stk) else Split (th q s stk) (th (p + 5) s stk))"
  using code_at_op_u32 [OF assms(1)] assms(2) by (cases greedy) (simp_all add: re_step_def is_simple_op_def Let_def pos_arith)

lemma step_goto:
  assumes "code_at ctx p (re_emit_op_u32 REOP_goto v)" "jump (p + 5) v = Some q"
  shows "re_step ctx (th p s stk) = Some (Next (th q s stk))"
  using code_at_op_u32 [OF assms(1)] assms(2) by (simp add: re_step_def is_simple_op_def Let_def pos_arith)

definition ordered :: "bool \<Rightarrow> 'a list \<Rightarrow> 'a list \<Rightarrow> 'a list" where
  "ordered greedy xs ys = (if greedy then xs @ ys else ys @ xs)"

lemma order_map: "map f (ordered g xs ys) = ordered g (map f xs) (map f ys)"
  by (simp add: ordered_def)

lemma set_order [simp]: "set (ordered g xs ys) = set xs \<union> set ys"
  by (auto simp: ordered_def)

text \<open>What a split does with the results of its two threads.\<close>

lemma bt_split:
  assumes "re_step ctx t = Some (if greedy then Split t1 t2 else Split t2 t1)"
    and "\<And>r. tries ctx xs r \<Longrightarrow> bt ctx t1 r" "\<And>r. tries ctx ys r \<Longrightarrow> bt ctx t2 r" "tries ctx (ordered greedy xs ys) r"
  shows "bt ctx t r"
  using assms by (cases greedy) (auto simp: ordered_def tries_append intro: bt_first bt_second)

definition either :: "bool \<Rightarrow> (re_result \<Rightarrow> re_result list) \<Rightarrow> (re_result \<Rightarrow> re_result list) \<Rightarrow> re_result \<Rightarrow> re_result list" where
  "either greedy f g s = ordered greedy (f s) (g s)"

lemma frag_split:
  assumes "code_at ctx p (re_emit_op_u32 (split_op greedy) v)" "jump (p + 5) v = Some q"
    and "frag ctx d (p + 5) z f" "frag ctx d q z g"
  shows "frag ctx d p z (either greedy f g)"
  unfolding frag_def
proof (intro allI impI)
  fix s stk r
  assume s: "valid ctx s" "length stk + d \<le> stack_size_max ctx" and t: "tries ctx (map (\<lambda>s. th z s stk) (either greedy f g s)) r"
  show "bt ctx (th p s stk) r"
  proof (rule bt_split [OF step_split [OF assms(1,2)]])
    show "tries ctx (ordered greedy (map (\<lambda>s. th z s stk) (f s)) (map (\<lambda>s. th z s stk) (g s))) r"
      using t by (simp add: either_def order_map)
  qed (use fragD [OF assms(3) s] fragD [OF assms(4) s] in blast)+
qed

lemma frag_alternatives:
  assumes c: "code_at ctx p (emit_alternatives ca cb)" and n: "length (emit_alternatives ca cb) < 2 ^ 31"
    and f: "frag ctx d (p + 5) (p + 5 + length ca) f" "fwd ctx f"
    and g: "frag ctx d (p + 10 + length ca) (p + 10 + length ca + length cb) g"
  shows "frag ctx d p (p + length (emit_alternatives ca cb)) (either True f g)"
proof -
  let ?z = "p + 10 + length ca + length cb"
  have len: "length (emit_alternatives ca cb) = 10 + length ca + length cb" by (simp add: emit_alternatives_def)
  have c1: "code_at ctx p (re_emit_op_u32 REOP_split_next_first (of_nat (length ca + 5)))"
    and c2: "code_at ctx (p + 5 + length ca) (re_emit_op_u32 REOP_goto (of_nat (length cb)))"
    using c unfolding emit_alternatives_def code_at_append length_emit by blast+
  have j: "jump (p + 5) (of_nat (length ca + 5)) = Some (p + 10 + length ca)"
    "jump (p + 5 + length ca + 5) (of_nat (length cb)) = Some ?z"
    using n len by (simp_all add: jump_forward del: of_nat_add)
  have "frag ctx d (p + 5 + length ca) ?z (\<lambda>s. [s])"
    using step_goto [OF c2 j(2)] by (intro frag_step) simp
  from frag_seq [OF f(1) this f(2)] have "frag ctx d (p + 5) ?z f" by (simp add: then_do_def [abs_def])
  then have "frag ctx d p ?z (either True f g)" using c1 by (intro frag_split [OF _ j(1) _ g]) simp_all
  then show ?thesis by (simp add: len add.assoc)
qed

lemma fwd_either:
  assumes "fwd ctx f" "fwd ctx g"
  shows "fwd ctx (either b f g)"
  unfolding fwd_def
proof (intro allI impI)
  fix s s' assume "valid ctx s" "s' \<in> set (either b f g s)"
  with fwdD [OF assms(1), of s s'] fwdD [OF assms(2), of s s'] show "valid ctx s' \<and> fst s \<le> fst s'"
    by (auto simp: either_def)
qed

text \<open>Captures.\<close>

definition set_cap :: "nat \<Rightarrow> re_result \<Rightarrow> re_result list" where
  "set_cap k s = [(fst s, (snd s)[k := Some (fst s)])]"

lemma frag_save:
  assumes "v < capture_count ctx" "v < 256"
  shows "code_at ctx p (re_emit_op_u8 REOP_save_start v) \<Longrightarrow> frag ctx d p (p + 2) (set_cap (2 * v))"
    and "code_at ctx p (re_emit_op_u8 REOP_save_end v) \<Longrightarrow> frag ctx d p (p + 2) (set_cap (2 * v + 1))"
  unfolding set_cap_def using assms
  by (auto intro!: frag_step dest!: code_at_op_u8 simp: re_step_def is_simple_op_def)

lemma fwd_set_cap: "fwd ctx (set_cap k)"
  by (simp add: fwd_def set_cap_def valid_def)

definition captured :: "nat \<Rightarrow> (re_result \<Rightarrow> re_result list) \<Rightarrow> re_result \<Rightarrow> re_result list" where
  "captured v f = then_do (set_cap (2 * v)) (then_do f (set_cap (2 * v + 1)))"

lemma frag_capture:
  assumes c: "code_at ctx p (emit_capture v ca)" "v < capture_count ctx" "v < 256"
    and f: "frag ctx d (p + 2) (p + 2 + length ca) f" "fwd ctx f"
  shows "frag ctx d p (p + length (emit_capture v ca)) (captured v f)"
proof -
  have c1: "code_at ctx p (re_emit_op_u8 REOP_save_start v)" and c2: "code_at ctx (p + 2 + length ca) (re_emit_op_u8 REOP_save_end v)"
    using c(1) unfolding emit_capture_def code_at_append length_emit by blast+
  have e: "p + 2 + length ca + 2 = p + length (emit_capture v ca)" by (simp add: emit_capture_def)
  from frag_seq [OF frag_save(1) [OF c(2,3) c1] frag_seq [OF f(1) frag_save(2) [OF c(2,3) c2] f(2)] fwd_set_cap]
  show ?thesis unfolding captured_def e .
qed

lemma fwd_captured: "fwd ctx f \<Longrightarrow> fwd ctx (captured v f)"
  unfolding captured_def by (intro fwd_then fwd_set_cap)

definition reset_caps :: "nat \<Rightarrow> nat \<Rightarrow> re_result \<Rightarrow> re_result list" where
  "reset_caps cc0 cc s = [(fst s, if cc0 \<noteq> cc then set_captures cc0 (cc - 1) (snd s) else snd s)]"

lemma length_set_captures [simp]: "length (set_captures a b cap) = length cap"
proof -
  have "length (fold (\<lambda>v cap. cap[2 * v := None, 2 * v + 1 := None]) xs cap) = length cap" for xs :: "nat list"
    by (induction xs arbitrary: cap) auto
  then show ?thesis by (simp only: set_captures_def)
qed

lemma fwd_reset: "fwd ctx (reset_caps a b)"
  by (simp add: fwd_def reset_caps_def valid_def)

lemma frag_reset:
  assumes "code_at ctx p (save_reset_code cc0 cc)" "cc0 \<le> cc" "cc \<le> capture_count ctx" "cc \<le> 255"
  shows "frag ctx d p (p + length (save_reset_code cc0 cc)) (reset_caps cc0 cc)"
proof (cases "cc0 = cc")
  case True
  then show ?thesis using frag_empty [of ctx d p] by (simp add: save_reset_code_def reset_caps_def [abs_def])
next
  case False
  then have "op_at ctx p = Some REOP_save_reset" "u8_at ctx (Suc p) = Some cc0" "u8_at ctx (Suc (Suc p)) = Some (cc - 1)"
    using assms by (simp_all add: save_reset_code_def op_at_code u8_at_def unat_of_nat del: of_nat_diff)
  then have "frag ctx d p (p + 3) (reset_caps cc0 cc)"
    unfolding reset_caps_def using False assms(2-4)
    by (intro frag_step) (simp add: re_step_def is_simple_op_def numeral_3_eq_3)
  with False show ?thesis by (simp add: save_reset_code_def numeral_3_eq_3)
qed

text \<open>Lookaheads.\<close>

definition look_at :: "bool \<Rightarrow> (re_result \<Rightarrow> re_result list) \<Rightarrow> re_result \<Rightarrow> re_result list" where
  "look_at neg f s = (case f s of [] \<Rightarrow> if neg then [s] else [] | s' # _ \<Rightarrow> if neg then [] else [(fst s, snd s')])"

lemma fwd_look:
  assumes "fwd ctx f"
  shows "fwd ctx (look_at neg f)"
  unfolding fwd_def
proof (intro allI impI)
  fix s s' assume s: "valid ctx s" "s' \<in> set (look_at neg f s)"
  show "valid ctx s' \<and> fst s \<le> fst s'"
  proof (cases "f s")
    case (Cons s1 ss)
    then have "valid ctx s1" using fwdD [OF assms s(1), of s1] by simp
    with s Cons show ?thesis by (cases neg) (auto simp: look_at_def valid_def)
  qed (use s in \<open>auto simp: look_at_def split: if_splits\<close>)
qed

lemma frag_lookahead:
  assumes c: "code_at ctx p (emit_lookahead neg ca)" and n: "length (emit_lookahead neg ca) < 2 ^ 31"
    and f: "frag ctx d (p + 5) (p + 5 + length ca) f"
  shows "frag ctx d p (p + length (emit_lookahead neg ca)) (look_at neg f)"
  unfolding frag_def
proof (intro allI impI)
  let ?q = "p + 5 + length ca" and ?oc = "if neg then REOP_negative_lookahead else REOP_lookahead"
  let ?z = "p + length (emit_lookahead neg ca)"
  fix s stk r
  assume s: "valid ctx s" "length stk + d \<le> stack_size_max ctx" and t: "tries ctx (map (\<lambda>s. th ?z s stk) (look_at neg f s)) r"
  have z: "?z = p + 5 + (length ca + 1)" by (simp add: emit_lookahead_def)
  have c1: "code_at ctx p (re_emit_op_u32 ?oc (of_nat (length ca + 1)))" and c2: "code_at ctx ?q (re_emit_op REOP_match)"
    using c unfolding emit_lookahead_def code_at_append length_emit by blast+
  have m: "bt ctx (th ?q s' stk) (Some (snd s'))" for s'
    using bt_match [of ctx "th ?q s' stk"] code_at_op [OF c2] by (simp add: re_step_def is_simple_op_def)
  have body: "bt ctx (th (p + 5) s stk) (case f s of [] \<Rightarrow> None | s' # _ \<Rightarrow> Some (snd s'))"
    by (rule fragD [OF f s], cases "f s") (use tries_here [OF m] in force)+
  have "jump (p + 5) (of_nat (length ca + 1)) = Some ?z"
    unfolding z using n by (intro jump_forward) (simp add: emit_lookahead_def)
  then have st: "re_step ctx (th p s stk) = Some (Look neg (th (p + 5) s stk) (th ?z s stk))"
    using code_at_op_u32 [OF c1] by (cases neg) (simp_all add: re_step_def is_simple_op_def Let_def pos_arith del: of_nat_add)
  show "bt ctx (th p s stk) r"
  proof (cases "f s")
    case Nil
    with st body t show ?thesis by (cases neg) (auto simp: look_at_def intro: bt_neg bt_look_fail)
  next
    case (Cons s' ss)
    with st body t show ?thesis by (cases neg) (auto simp: look_at_def intro: bt_neg_fail bt_look)
  qed
qed

subsection \<open>Repetition\<close>

text \<open>
  Without bound: a repetition that does not advance is the last one. The number of steps is bounded by what is left of the subject.
\<close>

function star :: "re_ctx \<Rightarrow> bool \<Rightarrow> (re_result \<Rightarrow> re_result list) \<Rightarrow> re_result \<Rightarrow> re_result list" where
  "star ctx greedy f s =
     ordered greedy (concat (map (\<lambda>s'. if fst s < fst s' \<and> fst s' \<le> length (cbuf ctx) then star ctx greedy f s' else [s']) (f s))) [s]"
  by pat_completeness auto
termination
  by (relation "measure (\<lambda>(ctx, greedy, f, s). length (cbuf ctx) - fst s)") auto

declare star.simps [simp del]

fun exactly :: "nat \<Rightarrow> (re_result \<Rightarrow> re_result list) \<Rightarrow> re_result \<Rightarrow> re_result list" where
  "exactly 0 f = (\<lambda>s. [s])"
| "exactly (Suc n) f = then_do f (exactly n f)"

fun upto_times :: "nat \<Rightarrow> bool \<Rightarrow> (re_result \<Rightarrow> re_result list) \<Rightarrow> re_result \<Rightarrow> re_result list" where
  "upto_times 0 greedy f = (\<lambda>s. [s])"
| "upto_times (Suc n) greedy f = either greedy (then_do f (upto_times n greedy f)) (\<lambda>s. [s])"

lemma fwd_id: "fwd ctx (\<lambda>s. [s])"
  by (simp add: fwd_def)

lemma fwd_exactly: "fwd ctx f \<Longrightarrow> fwd ctx (exactly n f)"
  by (induction n) (simp_all add: fwd_id fwd_then)

lemma fwd_upto: "fwd ctx f \<Longrightarrow> fwd ctx (upto_times n g f)"
  by (induction n) (simp_all add: fwd_id fwd_then fwd_either)

lemma fwd_star:
  assumes "fwd ctx f"
  shows "fwd ctx (star ctx g f)"
proof -
  have "valid ctx s \<Longrightarrow> s' \<in> set (star ctx g f s) \<Longrightarrow> valid ctx s' \<and> fst s \<le> fst s'" for s s'
  proof (induction "length (cbuf ctx) - fst s" arbitrary: s rule: less_induct)
    case less
    from less.prems(2) consider "s' = s" | s1 where "s1 \<in> set (f s)"
        "s' \<in> set (if fst s < fst s1 \<and> fst s1 \<le> length (cbuf ctx) then star ctx g f s1 else [s1])"
      unfolding star.simps [of ctx g f s] set_order set_concat set_map list.set by blast
    then show ?case
    proof cases
      case 2
      note F = fwdD [OF assms less.prems(1) 2(1)]
      show ?thesis
      proof (cases "fst s < fst s1")
        case True
        then have "fst s1 \<le> length (cbuf ctx)" using F by (simp add: valid_def)
        with True less.hyps [of s1] F 2(2) show ?thesis by fastforce
      qed (use F 2(2) in auto)
    qed (use less.prems in simp)
  qed
  then show ?thesis unfolding fwd_def by blast
qed

definition advances :: "re_ctx \<Rightarrow> (re_result \<Rightarrow> re_result list) \<Rightarrow> bool" where
  "advances ctx f \<longleftrightarrow> (\<forall>s s'. valid ctx s \<longrightarrow> s' \<in> set (f s) \<longrightarrow> fst s < fst s')"

lemma advancesD: "advances ctx f \<Longrightarrow> valid ctx s \<Longrightarrow> s' \<in> set (f s) \<Longrightarrow> fst s < fst s'"
  unfolding advances_def by blast

text \<open>The loop without upper bound.\<close>

lemma star_len: "length (emit_star pos g z ca) = length ca + 10 + (if z then 1 else 0)"
  by (simp add: emit_star_def Let_def)

lemma emit_star_code:
  assumes "code_at ctx p (emit_star pos g z ca)" "pos + length (emit_star pos g z ca) < 2 ^ 31"
  shows "code_at ctx p (re_emit_op_u32 (split_op g) (of_nat (length ca + 5 + (if z then 1 else 0))))"
    and "jump (p + 5) (of_nat (length ca + 5 + (if z then 1 else 0))) = Some (p + length (emit_star pos g z ca))"
    and "z \<Longrightarrow> code_at ctx (p + 5) (re_emit_op REOP_push_char_pos)"
    and "code_at ctx (p + 5 + (if z then 1 else 0)) ca"
    and "\<exists>v. code_at ctx (p + 5 + (if z then 1 else 0) + length ca) (re_emit_op_u32 (if z then REOP_bne_char_pos else REOP_goto) v) \<and>
      jump (p + 5 + (if z then 1 else 0) + length ca + 5) v = Some p"
proof -
  let ?k = "5 + (if z then 1 else 0 :: nat) + length ca"
  have "emit_star pos g z ca = re_emit_op_u32 (split_op g) (of_nat (length ca + 5 + (if z then 1 else 0))) @
      (if z then re_emit_op REOP_push_char_pos else []) @ ca @ re_emit_goto (if z then REOP_bne_char_pos else REOP_goto) (pos + ?k) pos"
    by (simp add: emit_star_def Let_def)
  note C = assms(1) [unfolded this re_emit_goto_eq]
  show "code_at ctx p (re_emit_op_u32 (split_op g) (of_nat (length ca + 5 + (if z then 1 else 0))))"
    "z \<Longrightarrow> code_at ctx (p + 5) (re_emit_op REOP_push_char_pos)" "code_at ctx (p + 5 + (if z then 1 else 0)) ca"
    using C by (auto simp: code_at_append split: if_splits)
  have n: "pos + ?k + 5 < 2 ^ 31" using assms(2) by (simp add: star_len)
  show "jump (p + 5) (of_nat (length ca + 5 + (if z then 1 else 0))) = Some (p + length (emit_star pos g z ca))"
    using n by (subst jump_forward) (simp_all add: star_len)
  have "jump (p + ?k + 5) (of_nat pos - of_nat (pos + ?k + 5)) = Some p"
    using n by (subst jump_backward) simp_all
  moreover have "code_at ctx (p + ?k) (re_emit_op_u32 (if z then REOP_bne_char_pos else REOP_goto) (of_nat pos - of_nat (pos + ?k + 5)))"
    using C by (simp add: code_at_append ac_simps split: if_splits)
  ultimately show "\<exists>v. code_at ctx (p + 5 + (if z then 1 else 0) + length ca) (re_emit_op_u32 (if z then REOP_bne_char_pos else REOP_goto) v) \<and>
      jump (p + 5 + (if z then 1 else 0) + length ca + 5) v = Some p"
    by (intro exI conjI) (simp_all only: add.assoc)
qed

lemma star_step:
  assumes "fwd ctx f" "valid ctx s"
  shows "star ctx g f s = ordered g (concat (map (\<lambda>s'. if fst s < fst s' then star ctx g f s' else [s']) (f s))) [s]"
proof -
  have "map (\<lambda>s'. if fst s < fst s' \<and> fst s' \<le> length (cbuf ctx) then star ctx g f s' else [s']) (f s) =
      map (\<lambda>s'. if fst s < fst s' then star ctx g f s' else [s']) (f s)"
    using fwdD [OF assms] by (intro map_cong refl) (auto simp: valid_def)
  then show ?thesis by (simp only: star.simps [of ctx g f s])
qed

lemma step_push_pos:
  assumes "code_at ctx p (re_emit_op REOP_push_char_pos)" "length stk < stack_size_max ctx"
  shows "re_step ctx (th p s stk) = Some (Next (th (p + 1) s (of_nat (fst s) # stk)))"
  using assms code_at_op [OF assms(1)] by (simp add: re_step_def is_simple_op_def)

lemma step_bne:
  assumes "code_at ctx p (re_emit_op_u32 REOP_bne_char_pos v)" "jump (p + 5) v = Some q"
  shows "re_step ctx (th p s (w # stk)) = Some (Next (th (if w \<noteq> of_nat (fst s) then q else p + 5) s stk))"
  using code_at_op_u32 [OF assms(1)] assms(2) by (simp add: re_step_def is_simple_op_def Let_def pos_arith jump_if_def)

lemma of_nat_64_eq: "a \<le> n \<Longrightarrow> b \<le> n \<Longrightarrow> n < 2 ^ 64 \<Longrightarrow> (of_nat a :: u64) = of_nat b \<longleftrightarrow> a = b"
  by (simp add: word_unat_eq_iff unat_of_nat)

lemma frag_star:
  assumes c: "code_at ctx p (emit_star pos g z ca)" "pos + length (emit_star pos g z ca) < 2 ^ 31"
    and f: "frag ctx d (p + 5 + (if z then 1 else 0)) (p + 5 + (if z then 1 else 0) + length ca) f" "fwd ctx f"
    and adv: "z \<or> advances ctx f" and n: "length (cbuf ctx) < 2 ^ 64"
  shows "frag ctx (d + (if z then 1 else 0)) p (p + length (emit_star pos g z ca)) (star ctx g f)"
  unfolding frag_def
proof (intro allI impI)
  note C = emit_star_code [OF c]
  let ?e = "p + length (emit_star pos g z ca)" and ?q = "p + 5 + (if z then 1 else 0) + length ca"
  obtain v where v: "code_at ctx ?q (re_emit_op_u32 (if z then REOP_bne_char_pos else REOP_goto) v)" "jump (?q + 5) v = Some p"
    using C(5) by blast
  have e: "?q + 5 = ?e" by (simp add: star_len)
  fix s stk r
  assume "valid ctx s" "length stk + (d + (if z then 1 else 0)) \<le> stack_size_max ctx" "tries ctx (map (\<lambda>s. th ?e s stk) (star ctx g f s)) r"
  then show "bt ctx (th p s stk) r"
  proof (induction "length (cbuf ctx) - fst s" arbitrary: s r rule: less_induct)
    case less
    note s = less.prems(1) and k = less.prems(2)
    let ?rec = "\<lambda>s'. if fst s < fst s' then star ctx g f s' else [s']"
    have again: "bt ctx (th p s' stk) r'" if "s' \<in> set (f s)" "fst s < fst s'" "tries ctx (map (\<lambda>s. th ?e s stk) (?rec s')) r'" for s' r'
    proof -
      have v': "valid ctx s'" using fwdD [OF f(2) s that(1)] by simp
      then have "length (cbuf ctx) - fst s' < length (cbuf ctx) - fst s" using that(2) by (auto simp: valid_def)
      from less.hyps [OF this v' k] that show ?thesis by simp
    qed
    have body: "bt ctx (th (p + 5) s stk) r'" if t: "tries ctx (concat (map (\<lambda>s'. map (\<lambda>s. th ?e s stk) (?rec s')) (f s))) r'" for r'
    proof (cases z)
      case False
      have "bt ctx (th ?q s' stk) r''" if "s' \<in> set (f s)" "tries ctx (map (\<lambda>s. th ?e s stk) (?rec s')) r''" for s' r''
        using again [OF that(1)] that adv False advancesD [of ctx f s s'] s step_goto [of ctx ?q v p s' stk] v by (auto intro: bt_next)
      then have "tries ctx (map (\<lambda>s. th ?q s stk) (f s)) r'" by (rule tries_concat [OF _ t])
      then show ?thesis using fragD [OF f(1) s, of stk r'] k False by simp
    next
      case True
      let ?stk = "of_nat (fst s) # stk"
      have "bt ctx (th ?q s' ?stk) r''" if s': "s' \<in> set (f s)" and t'': "tries ctx (map (\<lambda>s. th ?e s stk) (?rec s')) r''" for s' r''
      proof -
        have "fst s \<le> fst s'" "(of_nat (fst s) :: u64) = of_nat (fst s') \<longleftrightarrow> fst s = fst s'"
          using fwdD [OF f(2) s s'] s of_nat_64_eq [of "fst s" "length (cbuf ctx)" "fst s'"] n by (simp_all add: valid_def)
        then show ?thesis
          using step_bne [of ctx ?q v p s' "of_nat (fst s)" stk] v True again [OF s' _ t''] t'' unfolding e
          by (cases "fst s < fst s'") (auto intro: bt_next)
      qed
      then have "tries ctx (map (\<lambda>s. th ?q s ?stk) (f s)) r'" by (rule tries_concat [OF _ t])
      then have "bt ctx (th (p + 5 + 1) s ?stk) r'" using fragD [OF f(1) s, of ?stk r'] k True by simp
      then show ?thesis using step_push_pos [OF C(3) [OF True], of stk s] k True by (auto intro: bt_next)
    qed
    show ?case
    proof (rule bt_split [OF step_split [OF C(1,2)]])
      show "tries ctx (ordered g (concat (map (\<lambda>s'. map (\<lambda>s. th ?e s stk) (?rec s')) (f s))) [th ?e s stk]) r"
        using less.prems(3) unfolding star_step [OF f(2) s] by (simp add: order_map map_concat comp_def)
    qed (use body in auto)
  qed
qed

text \<open>The loops with a counter.\<close>

lemma step_push_i32:
  assumes "code_at ctx p (re_emit_op_u32 REOP_push_i32 (of_nat n))" "length stk < stack_size_max ctx" "n < 2 ^ 32"
  shows "re_step ctx (th p s stk) = Some (Next (th (p + 5) s (of_nat n # stk)))"
proof -
  have "ucast (of_nat n :: u32) = (of_nat n :: u64)" using assms(3) by (simp add: word_unat_eq_iff unat_of_nat unsigned_ucast_eq take_bit_nat_eq_self)
  then show ?thesis using code_at_op_u32 [OF assms(1)] assms(2) by (simp add: re_step_def is_simple_op_def Let_def pos_arith)
qed

lemma step_loop:
  assumes "code_at ctx p (re_emit_op_u32 REOP_loop v)" "jump (p + 5) v = Some q" "Suc k < 2 ^ 32"
  shows "re_step ctx (th p s (of_nat (Suc k) # stk)) = Some (Next (th (if k \<noteq> 0 then q else p + 5) s (of_nat k # stk)))"
proof -
  have "(of_nat k :: u64) = 0 \<longleftrightarrow> k = 0" using of_nat_64_eq [of k "2 ^ 32" 0] assms(3) by simp
  then show ?thesis
    using code_at_op_u32 [OF assms(1)] assms(2) by (simp add: re_step_def is_simple_op_def Let_def pos_arith jump_if_def)
qed

lemma step_drop:
  assumes "code_at ctx p (re_emit_op REOP_drop)"
  shows "re_step ctx (th p s (w # stk)) = Some (Next (th (p + 1) s stk))"
  using code_at_op [OF assms] by (simp add: re_step_def is_simple_op_def)

lemma emit_loop_back:
  assumes "L + k + 5 < (2 :: nat) ^ 31"
  shows "jump (L' + k + 5) (of_nat L - of_nat (L + k + 5)) = Some L'"
  using assms by (subst jump_backward) simp_all

lemma frag_exactly:
  assumes c: "code_at ctx p (emit_exactly pos n ca)" "pos + length (emit_exactly pos n ca) < 2 ^ 31" "0 < n" "n < 2 ^ 31"
    and f: "\<And>q. code_at ctx q ca \<Longrightarrow> frag ctx d q (q + length ca) f" "fwd ctx f"
  shows "frag ctx (d + 1) p (p + length (emit_exactly pos n ca)) (exactly n f)"
proof (cases "n = 1")
  case True
  then have "frag ctx d p (p + length ca) f" using c(1) f(1) by (simp add: emit_exactly_def)
  then have "frag ctx (d + 1) p (p + length ca) f" by (rule frag_more) simp
  moreover have "exactly 1 f = f" by (simp add: then_do_def [abs_def])
  ultimately show ?thesis using True by (simp add: emit_exactly_def)
next
  case False
  let ?L = "p + 5" let ?q = "?L + length ca" let ?v = "of_nat (pos + 5) - of_nat (pos + 5 + length ca + 5) :: u32"
  let ?e = "p + length (emit_exactly pos n ca)"
  have E: "emit_exactly pos n ca = re_emit_op_u32 REOP_push_i32 (of_nat n) @ ca @ re_emit_goto REOP_loop (pos + 5 + length ca) (pos + 5) @
      re_emit_op REOP_drop" using False by (simp add: emit_exactly_def Let_def add.assoc)
  note C = c(1) [unfolded E re_emit_goto_eq code_at_append length_emit, simplified add.assoc [symmetric]]
  have e: "?q + 5 + 1 = ?e" and len: "pos + 5 + length ca + 5 < 2 ^ 31" using c(2) by (simp_all add: E)
  have C1: "code_at ctx p (re_emit_op_u32 REOP_push_i32 (of_nat n))" and C2: "code_at ctx ?L ca"
    and C3: "code_at ctx ?q (re_emit_op_u32 REOP_loop ?v)" and C4: "code_at ctx (?q + 5) (re_emit_op REOP_drop)"
    using C by (simp_all add: add.assoc)
  have j: "jump (?q + 5) ?v = Some ?L" by (rule emit_loop_back [OF len])
  note F = f(1) [OF C2]
  have loop: "bt ctx (th ?L s (of_nat (Suc k) # stk)) r"
    if "Suc k \<le> n" "valid ctx s" "length stk + (d + 1) \<le> stack_size_max ctx" "tries ctx (map (\<lambda>s. th ?e s stk) (exactly (Suc k) f s)) r" for k s stk r
    using that
  proof (induction k arbitrary: s r)
    case 0
    have "bt ctx (th ?q s' (1 # stk)) r'" if "tries ctx [th ?e s' stk] r'" for s' r'
      using step_loop [OF C3 j, of 0 s' stk] step_drop [OF C4, of s' 0 stk] that unfolding e by (auto intro: bt_next)
    then have "tries ctx (map (\<lambda>s. th ?q s (1 # stk)) (f s)) r"
      using 0 by (intro tries_concat [where g = "\<lambda>s. [th ?e s stk]"]) (simp_all add: then_do_def)
    then show ?case using fragD [OF F 0(2), of "1 # stk" r] 0(3) by simp
  next
    case (Suc k)
    let ?stk = "of_nat (Suc (Suc k)) # stk"
    have "bt ctx (th ?q s' ?stk) r'" if s': "s' \<in> set (f s)" "tries ctx (map (\<lambda>s. th ?e s stk) (exactly (Suc k) f s')) r'" for s' r'
    proof -
      have "bt ctx (th ?L s' (of_nat (Suc k) # stk)) r'" using Suc.IH [of s' r'] Suc.prems s' fwdD [OF f(2) Suc.prems(2) s'(1)] by simp
      then show ?thesis using step_loop [OF C3 j, of "Suc k" s' stk] Suc.prems(1) c(4) by (auto intro: bt_next)
    qed
    moreover have "tries ctx (concat (map (\<lambda>s'. map (\<lambda>s. th ?e s stk) (exactly (Suc k) f s')) (f s))) r"
      using Suc.prems(4) by (simp only: exactly.simps(2) [of "Suc k"] then_do_def map_concat map_map comp_def)
    ultimately have "tries ctx (map (\<lambda>s. th ?q s ?stk) (f s)) r" by (rule tries_concat)
    then show ?case using fragD [OF F Suc.prems(2), of ?stk r] Suc.prems(3) by simp
  qed
  obtain k where k: "n = Suc k" using c(3) by (cases n) auto
  show ?thesis
    unfolding frag_def
  proof (intro allI impI)
    fix s stk r
    assume a: "valid ctx s" "length stk + (d + 1) \<le> stack_size_max ctx" "tries ctx (map (\<lambda>s. th ?e s stk) (exactly n f s)) r"
    then have "bt ctx (th ?L s (of_nat n # stk)) r" using loop [of k s stk r] k by simp
    then show "bt ctx (th p s stk) r" using step_push_i32 [OF C1, of stk s] a(2) c(4) by (auto intro: bt_next)
  qed
qed

lemma frag_upto:
  assumes c: "code_at ctx p (emit_upto pos g n ca)" "pos + length (emit_upto pos g n ca) < 2 ^ 31" "0 < n" "n < 2 ^ 31"
    and f: "\<And>q. code_at ctx q ca \<Longrightarrow> frag ctx d q (q + length ca) f" "fwd ctx f"
  shows "frag ctx (d + 1) p (p + length (emit_upto pos g n ca)) (upto_times n g f)"
proof -
  let ?L = "p + 5" let ?q = "?L + 5 + length ca" let ?v = "of_nat (pos + 5) - of_nat (pos + 5 + (5 + length ca) + 5) :: u32"
  let ?e = "p + length (emit_upto pos g n ca)"
  have E: "emit_upto pos g n ca = re_emit_op_u32 REOP_push_i32 (of_nat n) @ re_emit_op_u32 (split_op g) (of_nat (length ca + 5)) @ ca @
      re_emit_goto REOP_loop (pos + 5 + (5 + length ca)) (pos + 5) @ re_emit_op REOP_drop" by (simp add: emit_upto_def Let_def add.assoc)
  note C = c(1) [unfolded E re_emit_goto_eq code_at_append length_emit, simplified add.assoc [symmetric]]
  have e: "?q + 5 + 1 = ?e" and len: "pos + 5 + (5 + length ca) + 5 < 2 ^ 31" using c(2) by (simp_all add: E)
  have C1: "code_at ctx p (re_emit_op_u32 REOP_push_i32 (of_nat n))" and C2: "code_at ctx ?L (re_emit_op_u32 (split_op g) (of_nat (length ca + 5)))"
    and C3: "code_at ctx (?L + 5) ca" and C4: "code_at ctx ?q (re_emit_op_u32 REOP_loop ?v)" and C5: "code_at ctx (?q + 5) (re_emit_op REOP_drop)"
    using C by (simp_all add: add.assoc)
  have "jump (p + 5 + (5 + length ca) + 5) ?v = Some ?L" by (rule emit_loop_back [OF len])
  then have j: "jump (?q + 5) ?v = Some ?L" by (simp only: add.assoc)
  have j2: "jump (?L + 5) (of_nat (length ca + 5)) = Some (?q + 5)" using len by (subst jump_forward) simp_all
  note F = f(1) [OF C3]
  have drop: "bt ctx (th (?q + 5) s (w # stk)) r" if "tries ctx [th ?e s stk] r" for s w stk r
    using step_drop [OF C5, of s w stk] that unfolding e by (auto intro: bt_next)
  have loop: "bt ctx (th ?L s (of_nat (Suc k) # stk)) r"
    if "Suc k \<le> n" "valid ctx s" "length stk + (d + 1) \<le> stack_size_max ctx" "tries ctx (map (\<lambda>s. th ?e s stk) (upto_times (Suc k) g f s)) r" for k s stk r
    using that
  proof (induction k arbitrary: s r)
    case (0 s r)
    have "bt ctx (th ?q s' (1 # stk)) r'" if "tries ctx [th ?e s' stk] r'" for s' r'
      using step_loop [OF C4 j, of 0 s' stk] drop [OF that, of 0] by (auto intro: bt_next)
    then have "tries ctx (map (\<lambda>s. th ?q s (1 # stk)) (f s)) r'" if "tries ctx (map (\<lambda>s. th ?e s stk) (f s)) r'" for r'
      using that by (intro tries_concat [where g = "\<lambda>s. [th ?e s stk]"]) simp_all
    then have body: "bt ctx (th (?L + 5) s (1 # stk)) r'" if "tries ctx (map (\<lambda>s. th ?e s stk) (f s)) r'" for r'
      using fragD [OF F 0(2), of "1 # stk" r'] 0(3) that by simp
    have "tries ctx (ordered g (map (\<lambda>s. th ?e s stk) (f s)) [th ?e s stk]) r"
      using 0(4) by (simp add: either_def then_do_def order_map)
    from bt_split [OF step_split [OF C2 j2] body drop this] show ?case by simp
  next
    case (Suc k s r)
    let ?stk = "of_nat (Suc (Suc k)) # stk"
    have "bt ctx (th ?q s' ?stk) r'" if s': "s' \<in> set (f s)" "tries ctx (map (\<lambda>s. th ?e s stk) (upto_times (Suc k) g f s')) r'" for s' r'
    proof -
      have "bt ctx (th ?L s' (of_nat (Suc k) # stk)) r'" using Suc.IH [of s' r'] Suc.prems s' fwdD [OF f(2) Suc.prems(2) s'(1)] by simp
      then show ?thesis using step_loop [OF C4 j, of "Suc k" s' stk] Suc.prems(1) c(4) by (auto intro: bt_next)
    qed
    then have "tries ctx (map (\<lambda>s. th ?q s ?stk) (f s)) r'"
      if "tries ctx (concat (map (\<lambda>s'. map (\<lambda>s. th ?e s stk) (upto_times (Suc k) g f s')) (f s))) r'" for r'
      using that by (rule tries_concat)
    then have body: "bt ctx (th (?L + 5) s ?stk) r'"
      if "tries ctx (concat (map (\<lambda>s'. map (\<lambda>s. th ?e s stk) (upto_times (Suc k) g f s')) (f s))) r'" for r'
      using fragD [OF F Suc.prems(2), of ?stk r'] Suc.prems(3) that by simp
    have "tries ctx (ordered g (concat (map (\<lambda>s'. map (\<lambda>s. th ?e s stk) (upto_times (Suc k) g f s')) (f s))) [th ?e s stk]) r"
      using Suc.prems(4) by (simp only: upto_times.simps(2) [of "Suc k"] either_def then_do_def order_map map_concat map_map comp_def list.map)
    from bt_split [OF step_split [OF C2 j2] body drop this] show ?case .
  qed
  obtain k where k: "n = Suc k" using c(3) by (cases n) auto
  show ?thesis
    unfolding frag_def
  proof (intro allI impI)
    fix s stk r
    assume a: "valid ctx s" "length stk + (d + 1) \<le> stack_size_max ctx" "tries ctx (map (\<lambda>s. th ?e s stk) (upto_times n g f s)) r"
    then have "bt ctx (th ?L s (of_nat n # stk)) r" using loop [of k s stk r] k by simp
    then show "bt ctx (th p s stk) r" using step_push_i32 [OF C1, of stk s] a(2) c(4) by (auto intro: bt_next)
  qed
qed

end
