(* ===== verification/RegexpSimple.thy ===== *)
theory RegexpSimple
  imports RegexpCode
begin

text \<open>
  The simple greedy quantifier: a body that matches at most one way and always advances by the same number of characters is run as
  often as it matches, and then given back one match at a time. It tries the results that the general loops would try, in the same order.
\<close>

subsection \<open>The simple quantifier\<close>

definition repeated :: "re_ctx \<Rightarrow> nat \<Rightarrow> nat \<Rightarrow> bool \<Rightarrow> (re_result \<Rightarrow> re_result list) \<Rightarrow> re_result \<Rightarrow> re_result list" where
  "repeated ctx quant_min quant_max greedy f =
     then_do (exactly quant_min f) (if quant_max = INT32_MAX then star ctx greedy f else upto_times (quant_max - quant_min) greedy f)"

text \<open>
  An atom that matches at most one way and advances by \<open>m\<close>: from \<open>c\<close> it matches \<open>K\<close> times in a row and then no more.
\<close>

lemma atom_apply: "atom g (c, cap) = (case g c of None \<Rightarrow> [] | Some c' \<Rightarrow> [(c', cap)])"
  unfolding atom_def fst_conv snd_conv ..

definition chain_from :: "(nat \<Rightarrow> nat option) \<Rightarrow> nat \<Rightarrow> nat \<Rightarrow> nat \<Rightarrow> bool" where
  "chain_from g m c K \<longleftrightarrow> (\<forall>i<K. g (c + m * i) = Some (c + m * i + m)) \<and> g (c + m * K) = None"

lemma chain_from_0: "chain_from g m c 0 \<longleftrightarrow> g c = None"
  by (simp add: chain_from_def)

lemma chain_from_Suc: "chain_from g m c (Suc K) \<longleftrightarrow> g c = Some (c + m) \<and> chain_from g m (c + m) K"
proof -
  have "(\<forall>i<Suc K. g (c + m * i) = Some (c + m * i + m)) \<longleftrightarrow>
      g c = Some (c + m) \<and> (\<forall>i<K. g (c + m + m * i) = Some (c + m + m * i + m))"
    by (subst All_less_Suc2) (simp add: add.assoc)
  then show ?thesis unfolding chain_from_def by (simp add: add.assoc)
qed

definition from_to :: "nat \<Rightarrow> nat option list \<Rightarrow> nat \<Rightarrow> nat \<Rightarrow> nat \<Rightarrow> re_result list" where
  "from_to m cap c a b = map (\<lambda>i. (c + m * i, cap)) (rev [a..<b])"

lemma from_to_step: "from_to m cap c 0 (Suc (Suc K)) = from_to m cap (c + m) 0 (Suc K) @ [(c, cap)]"
proof -
  have "[0..<Suc (Suc K)] = 0 # map Suc [0..<Suc K]" unfolding map_Suc_upt by (subst upt_conv_Cons) simp_all
  then show ?thesis by (simp add: from_to_def rev_map comp_def add.assoc del: upt_Suc)
qed

lemma from_to_shift: "from_to m cap (c + m) a b = from_to m cap c (Suc a) (Suc b)"
proof -
  have "[Suc a..<Suc b] = map Suc [a..<b]" by (simp add: map_Suc_upt)
  then show ?thesis by (simp add: from_to_def rev_map comp_def add.assoc del: upt_Suc)
qed

lemma exactly_chain:
  "chain_from g m c K \<Longrightarrow> exactly n (atom g) (c, cap) = (if n \<le> K then [(c + m * n, cap)] else [])"
proof (induction n arbitrary: c K)
  case (Suc n)
  then show ?case by (cases K) (auto simp: chain_from_0 chain_from_Suc atom_apply then_do_def add.assoc)
qed simp

lemma upto_chain:
  "chain_from g m c K \<Longrightarrow> upto_times n True (atom g) (c, cap) = from_to m cap c 0 (Suc (min K n))"
proof (induction n arbitrary: c K)
  case (Suc n)
  show ?case
  proof (cases K)
    case (Suc K')
    with Suc.prems Suc.IH [of "c + m" K'] show ?thesis
      by (simp add: chain_from_Suc atom_apply then_do_def either_def ordered_def from_to_step del: upt_Suc)
  qed (use Suc.prems in \<open>simp add: chain_from_0 atom_apply then_do_def either_def ordered_def from_to_def\<close>)
qed (simp add: from_to_def)

lemma star_chain:
  assumes "fwd ctx (atom g)" "0 < m"
  shows "chain_from g m c K \<Longrightarrow> valid ctx (c, cap) \<Longrightarrow> star ctx True (atom g) (c, cap) = from_to m cap c 0 (Suc K)"
proof (induction K arbitrary: c)
  case 0
  then show ?case using star_step [OF assms(1), of "(c, cap)" True] by (simp add: chain_from_0 atom_apply ordered_def from_to_def)
next
  case (Suc K)
  then have g: "g c = Some (c + m)" "chain_from g m (c + m) K" by (auto simp: chain_from_Suc)
  have "valid ctx (c + m, cap)" using fwdD [OF assms(1) Suc.prems(2), of "(c + m, cap)"] g(1) by (simp add: atom_def)
  from Suc.IH [OF g(2) this] show ?case
    using assms(2) star_step [OF assms(1) Suc.prems(2), of True] g(1)
    by (simp add: atom_apply ordered_def from_to_step del: upt_Suc)
qed

lemma repeated_chain:
  assumes "fwd ctx (atom g)" "0 < m" "chain_from g m c K" "valid ctx (c, cap)" "quant_min \<le> quant_max"
  shows "repeated ctx quant_min quant_max True (atom g) (c, cap) =
    from_to m cap c quant_min (Suc (if quant_max = INT32_MAX then K else min K quant_max))"
proof (cases "quant_min \<le> K")
  case True
  have ex: "exactly quant_min (atom g) (c, cap) = [(c + m * quant_min, cap)]" using exactly_chain [OF assms(3)] True by simp
  then have v: "valid ctx (c + m * quant_min, cap)" using fwdD [OF fwd_exactly [OF assms(1)] assms(4), of _ quant_min] by simp
  have ch: "chain_from g m (c + m * quant_min) (K - quant_min)"
    unfolding chain_from_def
  proof (intro conjI allI impI)
    fix i assume "i < K - quant_min"
    then have "g (c + m * (quant_min + i)) = Some (c + m * (quant_min + i) + m)" using assms(3) by (simp add: chain_from_def)
    then show "g (c + m * quant_min + m * i) = Some (c + m * quant_min + m * i + m)" by (simp add: distrib_left add.assoc)
  next
    have "c + m * quant_min + m * (K - quant_min) = c + m * K" using True by (simp add: add.assoc distrib_left [symmetric])
    then show "g (c + m * quant_min + m * (K - quant_min)) = None" using assms(3) by (simp only: chain_from_def)
  qed
  have sh: "from_to m cap (c + m * q) 0 b = from_to m cap c q (b + q)" for q b
  proof (induction q arbitrary: c)
    case (Suc q)
    then show ?case using Suc [of "c + m"] from_to_shift [of m cap c q "b + q"] by (simp add: ac_simps)
  qed simp
  show ?thesis
    using star_chain [OF assms(1,2) ch v] upto_chain [OF ch, of "quant_max - quant_min" cap] True assms(5) sh [of quant_min]
    by (auto simp: repeated_def then_do_def ex min_def)
next
  case False
  then have "exactly quant_min (atom g) (c, cap) = []" using exactly_chain [OF assms(3)] by simp
  then show ?thesis using False by (simp add: repeated_def then_do_def from_to_def)
qed

lemma chain_exists:
  assumes "0 < m" "\<And>c c'. c \<le> n \<Longrightarrow> g c = Some c' \<Longrightarrow> c' = c + m \<and> c' \<le> n"
  shows "c \<le> n \<Longrightarrow> \<exists>K. chain_from g m c K"
proof (induction "n - c" arbitrary: c rule: less_induct)
  case less
  show ?case
  proof (cases "g c")
    case (Some c')
    with assms(2) less.prems have c: "c' = c + m" "c + m \<le> n" by auto
    then have "\<exists>K. chain_from g m (c + m) K" using assms(1) by (intro less.hyps) auto
    then show ?thesis using Some c(1) chain_from_Suc by blast
  qed (use chain_from_0 in blast)
qed

lemma chain_fits:
  assumes "\<And>c c'. c \<le> n \<Longrightarrow> g c = Some c' \<Longrightarrow> c' = c + m \<and> c' \<le> n" "c \<le> n" "chain_from g m c K"
  shows "i \<le> K \<Longrightarrow> c + m * i \<le> n"
proof (induction i)
  case (Suc i)
  then have "g (c + m * i) = Some (c + m * i + m)" "c + m * i \<le> n" using assms(3) by (simp_all add: chain_from_def)
  then show ?case using assms(1) [of "c + m * i"] by simp
qed (use assms(2) in simp)

lemma quant_loop_chain:
  assumes ex: "\<And>c. c \<le> length (cbuf ctx) \<Longrightarrow> exec_no_recurse ctx pc1 c = Some (g c)"
    and g: "\<And>c c'. c \<le> length (cbuf ctx) \<Longrightarrow> g c = Some c' \<Longrightarrow> c' = c + m \<and> c' \<le> length (cbuf ctx)" and m: "0 < m"
  shows "chain_from g m c K \<Longrightarrow> c \<le> length (cbuf ctx) \<Longrightarrow> quant_max = INT32_MAX \<or> q < quant_max \<Longrightarrow>
    quant_loop ctx pc1 quant_max q c =
      (let k = if quant_max = INT32_MAX then K else min K (quant_max - q) in Some (Quant_done (q + k) (c + m * k)))"
proof (induction K arbitrary: c q)
  case 0
  then show ?case by (subst quant_loop.simps) (simp add: ex chain_from_0)
next
  case (Suc K)
  then have gc: "g c = Some (c + m)" "chain_from g m (c + m) K" "c + m \<le> length (cbuf ctx)"
    using g [of c "c + m"] by (auto simp: chain_from_Suc)
  show ?case
  proof (cases "q + 1 \<ge> quant_max \<and> quant_max \<noteq> INT32_MAX")
    case True
    then have "quant_max - q = 1" using Suc.prems(3) by auto
    with True show ?thesis using Suc.prems(2) gc(1) by (subst quant_loop.simps) (simp add: ex)
  next
    case False
    then have "quant_loop ctx pc1 quant_max q c = quant_loop ctx pc1 quant_max (q + 1) (c + m)"
      using Suc.prems(2) gc(1) m by (subst quant_loop.simps) (auto simp: ex)
    also have "\<dots> = (let k = if quant_max = INT32_MAX then K else min K (quant_max - (q + 1)) in Some (Quant_done (q + 1 + k) (c + m + m * k)))"
      using False by (intro Suc.IH gc) auto
    finally have step: "quant_loop ctx pc1 quant_max q c = \<dots>" .
    show ?thesis
    proof (cases "quant_max = INT32_MAX")
      case False
      then have "quant_max - q = Suc (quant_max - (q + 1))" using Suc.prems(3) by auto
      then show ?thesis using step False by (simp add: Let_def add.assoc)
    qed (use step in \<open>simp add: Let_def\<close>)
  qed
qed

lemma PREV_CHARS_narrow: "cbuf_type ctx \<noteq> 2 \<Longrightarrow> n \<le> c \<Longrightarrow> PREV_CHARS n ctx c = Some (c - n)"
  by (induction n arbitrary: c) (auto simp: PREV_CHAR_def)

lemma from_to_last: "a \<le> b \<Longrightarrow> from_to m cap c a (Suc b) = (c + m * b, cap) # from_to m cap c a b"
  by (simp add: from_to_def)

text \<open>Giving back one match at a time.\<close>

lemma greedy_chain:
  assumes C: "u32_at ctx pc = Some (of_nat l)" "u32_at ctx (pc + 12) = Some (of_nat m)" "l < 2 ^ 31" "m < 2 ^ 31"
    and t: "cbuf_type ctx \<noteq> 2" and z: "z = pc + 16 + l"
  shows "tries ctx (map (\<lambda>s. th z s stk) (from_to m cap c a (Suc (a + n)))) r \<Longrightarrow>
    bt_back ctx (th z (c + m * (a + n), cap) stk)
      (if n = 0 then None else Some \<lparr>rs_type = RE_EXEC_STATE_GREEDY_QUANT, rs_count = n, rs_thread = th pc (c + m * (a + n), cap) stk\<rparr>) r"
proof (induction n arbitrary: r)
  case 0
  then show ?case by (cases r) (auto simp: from_to_def intro: back_match back_fail)
next
  case (Suc n)
  let ?rs = "\<lambda>n. \<lparr>rs_type = RE_EXEC_STATE_GREEDY_QUANT, rs_count = n, rs_thread = th pc (c + m * (a + n), cap) stk\<rparr>"
  have "unat (of_nat m :: u32) = m" using C(4) by (simp add: unat_of_nat)
  then have nxt: "greedy_next ctx (?rs (Suc n)) = Some (th z (c + m * (a + n), cap) stk, ?rs n)"
    using C t z by (simp add: greedy_next_def Let_def PREV_CHARS_narrow jump_forward)
  have "tries ctx (th z (c + m * (a + Suc n), cap) stk # map (\<lambda>s. th z s stk) (from_to m cap c a (Suc (a + n)))) r"
    using Suc.prems from_to_last [of a "a + Suc n" m cap c] by simp
  then show ?case
  proof (cases rule: tries.cases)
    case (tries_here cap)
    then show ?thesis by (auto intro: back_match)
  next
    case tries_next
    then show ?thesis using back_next [OF _ nxt] Suc.IH by simp
  qed
qed

lemma back_noneD: "bt_back ctx t None r \<Longrightarrow> bt ctx t r"
  by (auto elim: bt_back.cases)

lemma code_at_nat: "code_at ctx p (u32_bytes n) \<Longrightarrow> u32_at ctx p = Some (of_nat n)"
  by (rule u32_at_code)

lemma frag_simple_quant:
  assumes c: "code_at ctx p (emit_simple_quant quant_min quant_max m ca)" "length ca < 2 ^ 30" "m < 2 ^ 31"
    and q: "quant_min \<le> quant_max" "0 < quant_max" "quant_max < 2 ^ 31"
    and ex: "\<And>c. c \<le> length (cbuf ctx) \<Longrightarrow> exec_no_recurse ctx (p + 17) c = Some (g c)"
    and g: "\<And>c c'. c \<le> length (cbuf ctx) \<Longrightarrow> g c = Some c' \<Longrightarrow> c' = c + m \<and> c' \<le> length (cbuf ctx)" and m: "0 < m"
    and tt: "cbuf_type ctx \<noteq> 2"
  shows "frag ctx d p (p + length (emit_simple_quant quant_min quant_max m ca)) (repeated ctx quant_min quant_max True (atom g))"
  unfolding frag_def
proof (intro allI impI)
  let ?z = "p + 17 + (length ca + 1)"
  have e: "p + length (emit_simple_quant quant_min quant_max m ca) = ?z" by (simp add: emit_simple_quant_def)
  have "op_at ctx p = Some REOP_simple_greedy_quant" "code_at ctx (p + 1) (u32_bytes (length ca + 1))"
    "code_at ctx (p + 5) (u32_bytes quant_min)" "code_at ctx (p + 9) (u32_bytes quant_max)" "code_at ctx (p + 13) (u32_bytes m)"
    using c(1) by (simp_all add: emit_simple_quant_def code_at_append op_at_code ac_simps del: le_bytes_numeral of_nat_add)
  note C = this(1) this(2-5) [THEN code_at_nat]
  have u: "unat (of_nat quant_min :: u32) = quant_min" "unat (of_nat quant_max :: u32) = quant_max" using q by (simp_all add: unat_of_nat)
  have j: "jump (p + 17) (of_nat (length ca + 1)) = Some ?z" using c(2) by (intro jump_forward) simp
  fix s stk r
  assume a: "valid ctx s" "tries ctx (map (\<lambda>s. th (p + length (emit_simple_quant quant_min quant_max m ca)) s stk)
      (repeated ctx quant_min quant_max True (atom g) s)) r"
  obtain x cap where s: "s = (x, cap)" by (cases s)
  have x: "x \<le> length (cbuf ctx)" using a(1) s by (simp add: valid_def)
  obtain K where K: "chain_from g m x K"
    using chain_exists [OF m g x] by blast
  define k where "k = (if quant_max = INT32_MAX then K else min K quant_max)"
  have ql: "quant_loop ctx (p + 17) quant_max 0 x = Some (Quant_done k (x + m * k))"
  proof -
    have "quant_loop ctx (p + 17) quant_max 0 x =
        (let k = if quant_max = INT32_MAX then K else min K (quant_max - 0) in Some (Quant_done (0 + k) (x + m * k)))"
      using q(2) by (intro quant_loop_chain [where g = g] ex g m K x) auto
    then show ?thesis by (simp only: Let_def k_def diff_zero add_0)
  qed
  have P: "p + 1 + 4 = p + 5" "p + 1 + 8 = p + 9" "p + 1 + 12 = p + 13" "p + 1 + 16 = p + 17" by simp_all
  have qs: "op_simple_greedy_quant ctx (th p s stk) (p + 1) = Some (if k < quant_min then No_match
      else if k > quant_min then Greedy (th ?z (x + m * k, cap) stk) (p + 1) (x + m * k) (k - quant_min) else Next (th ?z (x + m * k, cap) stk))"
    unfolding op_simple_greedy_quant_def P C(2-5) bind.bind_lunit j u s th_simps fst_conv ql by (simp add: Let_def)
  have st: "re_step ctx (th p s stk) = op_simple_greedy_quant ctx (th p s stk) (p + 1)"
    using C(1) by (simp add: re_step_def is_simple_op_def)
  have fwd: "fwd ctx (atom g)" by (intro fwd_atom) (use g in fastforce)
  have t: "tries ctx (map (\<lambda>s. th ?z s stk) (from_to m cap x quant_min (Suc k))) r"
    using a repeated_chain [OF fwd m K, of cap quant_min quant_max] q(1) unfolding e s by (simp add: k_def)
  show "bt ctx (th p s stk) r"
  proof (cases "k < quant_min")
    case True
    then show ?thesis using t st unfolding qs by (auto simp: from_to_def intro: bt_fail)
  next
    case False
    have kk: "quant_min + (k - quant_min) = k" and l: "length ca + 1 < 2 ^ 31" using False c(2) by simp_all
    have "bt_back ctx (th ?z (x + m * k, cap) stk) (if k - quant_min = 0 then None else
        Some \<lparr>rs_type = RE_EXEC_STATE_GREEDY_QUANT, rs_count = k - quant_min, rs_thread = th (p + 1) (x + m * k, cap) stk\<rparr>) r"
      using greedy_chain [OF C(2), unfolded P, OF C(5) l c(3) tt refl, of stk cap x quant_min "k - quant_min" r, unfolded kk] t by blast
    then show ?thesis using st False unfolding qs by (auto intro: bt_greedy bt_next dest: back_noneD simp: s split: if_splits)
  qed
qed

end
