(* ===== verification/RegexpScan.thy ===== *)
theory RegexpScan
  imports RegexpSimple
begin

text \<open>
  The analyses of the compiler on code made of instructions: how many characters a piece of code reads
  (\<open>counts\<close>), whether it must advance (\<open>scans\<close>) and how much of the counter stack it takes (\<open>needs\<close>), each
  stated so that it composes along the concatenation of code.
\<close>

subsection \<open>Whole instructions\<close>

text \<open>The code \<open>bs\<close> is one instruction with the opcode \<open>oc\<close>.\<close>

definition instr :: "REOPCode \<Rightarrow> u8 list \<Rightarrow> bool" where
  "instr oc bs \<longleftrightarrow> (\<exists>args. bs = op_byte oc # args) \<and>
     (\<forall>rest. instr_len (bs @ rest) = Some (oc, length bs) \<and> \<not> cut_short (bs @ rest))"

lemma instr_len_append: "instr oc bs \<Longrightarrow> instr_len (bs @ rest) = Some (oc, length bs) \<and> \<not> cut_short (bs @ rest) \<and> bs \<noteq> []"
  by (auto simp: instr_def)

lemma instr_op_at: "instr oc bs \<Longrightarrow> code_at ctx p bs \<Longrightarrow> op_at ctx p = Some oc"
  by (auto simp: instr_def op_at_code)

lemma instr_fixed:
  "oc \<noteq> REOP_range \<Longrightarrow> oc \<noteq> REOP_range32 \<Longrightarrow> bs = op_byte oc # args \<Longrightarrow>
   rd reop_table (unat (op_byte oc)) = Some (oc, length bs) \<Longrightarrow> instr oc bs"
  by (auto simp: instr_def instr_len_def cut_short_def rd_eq)

lemma instr_emit:
  "oc \<in> {REOP_dot, REOP_any, REOP_line_start, REOP_line_end, REOP_match, REOP_drop, REOP_word_boundary, REOP_not_word_boundary,
     REOP_push_char_pos} \<Longrightarrow> instr oc (re_emit_op oc)"
  "oc \<in> {REOP_save_start, REOP_save_end} \<Longrightarrow> instr oc (re_emit_op_u8 oc v)"
  "instr REOP_char (re_emit_op_u16 REOP_char w)"
  "oc \<in> {REOP_char32, REOP_goto, REOP_split_goto_first, REOP_split_next_first, REOP_loop, REOP_push_i32, REOP_lookahead,
     REOP_negative_lookahead, REOP_bne_char_pos} \<Longrightarrow> instr oc (re_emit_op_u32 oc w)"
  "instr REOP_save_reset [op_byte REOP_save_reset, a, b]"
  by (rule instr_fixed; auto simp: re_emit_op_def re_emit_op_u8_def re_emit_op_u16_def re_emit_op_u32_def reop_table_def rd_eq
      simp del: le_bytes_numeral)+

subsection \<open>Characters read\<close>

definition counts :: "u8 list \<Rightarrow> nat option \<Rightarrow> bool" where
  "counts code k \<longleftrightarrow> (\<forall>n rest. simple_quant_from n (code @ rest) =
     (case k of Some k \<Rightarrow> simple_quant_from (n + k) rest | None \<Rightarrow> Some (-1)))"

lemma counts_instr:
  "instr oc bs \<Longrightarrow> counts bs (if is_char_op oc then Some 1 else if is_assertion oc then Some 0 else None)"
  using instr_len_append [of oc bs] by (auto simp: counts_def simple_quant_from.simps [of _ "bs @ _"])

lemma counts_Nil: "counts [] (Some 0)"
  by (simp add: counts_def)

lemma counts_append:
  "counts c1 k1 \<Longrightarrow> counts c2 k2 \<Longrightarrow> counts (c1 @ c2) (case k1 of None \<Rightarrow> None | Some a \<Rightarrow> map_option ((+) a) k2)"
  by (auto simp: counts_def add.assoc split: option.splits)

lemma counts_none: "counts c1 None \<Longrightarrow> counts (c1 @ c2) None"
  by (simp add: counts_def)

lemma counts_whole: "counts code k \<Longrightarrow> re_is_simple_quantifier code = Some (case k of Some k \<Rightarrow> int k | None \<Rightarrow> -1)"
  unfolding counts_def re_is_simple_quantifier_def
  by (drule spec [of _ 0], drule spec [of _ "[]"]) (auto simp: simple_quant_from.simps [of _ "[]"] split: option.splits)

subsection \<open>Advance\<close>

definition scans :: "u8 list \<Rightarrow> int \<Rightarrow> bool" where
  "scans code r \<longleftrightarrow> (\<forall>ret saved. \<exists>saved'. \<forall>rest. check_advance_from ret saved {} (code @ rest) =
     check_advance_from (if ret = -2 then r else ret) saved' {} rest)"

lemma scansD:
  "scans code r \<Longrightarrow> \<exists>saved'. \<forall>rest. check_advance_from ret saved {} (code @ rest) = check_advance_from (if ret = -2 then r else ret) saved' {} rest"
  unfolding scans_def by blast

lemma scans_Nil: "scans [] (-2)"
  unfolding scans_def by (auto intro: exI)

lemma scans_append:
  assumes "scans c1 r1" "scans c2 r2"
  shows "scans (c1 @ c2) (if r1 = -2 then r2 else r1)"
  unfolding scans_def
proof (intro allI)
  fix ret saved
  let ?ret = "if ret = -2 then r1 else ret"
  from scansD [OF assms(1), of ret saved] obtain s1 where
    1: "\<And>rest. check_advance_from ret saved {} (c1 @ rest) = check_advance_from ?ret s1 {} rest" by blast
  from scansD [OF assms(2), of ?ret s1] obtain s2 where
    2: "\<And>rest. check_advance_from ?ret s1 {} (c2 @ rest) = check_advance_from (if ?ret = -2 then r2 else ?ret) s2 {} rest" by blast
  have "(if ?ret = -2 then r2 else ?ret) = (if ret = -2 then if r1 = -2 then r2 else r1 else ret)" by simp
  then show "\<exists>saved'. \<forall>rest. check_advance_from ret saved {} ((c1 @ c2) @ rest) =
      check_advance_from (if ret = -2 then if r1 = -2 then r2 else r1 else ret) saved' {} rest"
    using 1 2 by (intro exI [of _ s2]) simp
qed

definition saves :: "REOPCode \<Rightarrow> bool" where
  "saves oc \<longleftrightarrow> oc = REOP_save_start \<or> oc = REOP_save_end \<or> oc = REOP_save_reset"

lemma scans_instr:
  assumes "instr oc bs" "oc \<noteq> REOP_back_reference" "oc \<noteq> REOP_backward_back_reference" "\<not> saves oc"
  shows "scans bs (if is_char_op oc then 1 else if no_effect oc then -2 else 0)"
  unfolding scans_def
proof (intro allI exI)
  fix ret saved rest
  show "check_advance_from ret saved {} (bs @ rest) =
      check_advance_from (if ret = -2 then if is_char_op oc then 1 else if no_effect oc then -2 else 0 else ret) saved {} rest"
    using instr_len_append [OF assms(1)] assms(2-4) by (subst check_advance_from.simps) (auto simp: saves_def)
qed

lemma scans_save:
  assumes "oc = REOP_save_start \<or> oc = REOP_save_end"
  shows "scans (re_emit_op_u8 oc v) (-2)"
  unfolding scans_def
proof (intro allI exI)
  fix ret saved rest
  show "check_advance_from ret saved {} (re_emit_op_u8 oc v @ rest) =
      check_advance_from (if ret = -2 then -2 else ret) (insert (unat (of_nat v :: u8)) saved) {} rest"
    using instr_len_append [OF instr_emit(2) [of oc v]] assms
    by (subst check_advance_from.simps) (auto simp: is_char_op_def no_effect_def re_emit_op_u8_def rd_eq)
qed

lemma scans_reset: "scans (save_reset_code cc0 cc) (-2)"
proof (cases "cc0 = cc")
  case False
  let ?a = "of_nat cc0 :: u8" and ?b = "of_nat (cc - 1) :: u8"
  have "check_advance_from ret saved {} ([op_byte REOP_save_reset, ?a, ?b] @ rest) =
      check_advance_from (if ret = -2 then -2 else ret) (saved \<union> {unat ?a..<unat ?b}) {} rest" for ret saved rest
    using instr_len_append [OF instr_emit(5) [of ?a ?b]]
    by (subst check_advance_from.simps) (auto simp: is_char_op_def no_effect_def rd_eq)
  then show ?thesis using False unfolding scans_def save_reset_code_def by auto
qed (simp add: save_reset_code_def scans_Nil)

lemma scans_whole: "scans code r \<Longrightarrow> re_check_advance code = Some (if r = -2 then 0 else r)"
  unfolding re_check_advance_def
  by (drule scansD [of _ _ "-2" "{}"]) (auto dest: spec [of _ "[]"] simp: check_advance_from.simps [of _ _ _ "[]"])

subsection \<open>Counter stack\<close>

definition needs :: "u8 list \<Rightarrow> nat \<Rightarrow> bool" where
  "needs code d \<longleftrightarrow> (\<forall>k m rest ss. stack_size_from k m (code @ rest) = Some (Some ss) \<longrightarrow>
     (\<exists>m'. m \<le> m' \<and> (d = 0 \<or> k + d \<le> m') \<and> stack_size_from k m' rest = Some (Some ss)))"

lemma needsD:
  "needs code d \<Longrightarrow> stack_size_from k m (code @ rest) = Some (Some ss) \<Longrightarrow>
   \<exists>m'. m \<le> m' \<and> (d = 0 \<or> k + d \<le> m') \<and> stack_size_from k m' rest = Some (Some ss)"
  unfolding needs_def by blast

lemma needs_Nil: "needs [] 0"
  unfolding needs_def by auto

lemma needs_append:
  assumes "needs c1 d1" "needs c2 d2"
  shows "needs (c1 @ c2) (max d1 d2)"
  unfolding needs_def
proof (intro allI impI)
  fix k m rest ss
  assume "stack_size_from k m ((c1 @ c2) @ rest) = Some (Some ss)"
  then obtain m1 where 1: "m \<le> m1" "d1 = 0 \<or> k + d1 \<le> m1" "stack_size_from k m1 (c2 @ rest) = Some (Some ss)"
    using needsD [OF assms(1), of k m "c2 @ rest" ss] by auto
  obtain m2 where 2: "m1 \<le> m2" "d2 = 0 \<or> k + d2 \<le> m2" "stack_size_from k m2 rest = Some (Some ss)"
    using needsD [OF assms(2) 1(3)] by blast
  show "\<exists>m'. m \<le> m' \<and> (max d1 d2 = 0 \<or> k + max d1 d2 \<le> m') \<and> stack_size_from k m' rest = Some (Some ss)"
    using 1 2 by (intro exI [of _ m2]) (auto simp: max_def)
qed

definition pushes :: "REOPCode \<Rightarrow> bool" where
  "pushes oc \<longleftrightarrow> oc = REOP_push_i32 \<or> oc = REOP_push_char_pos"

definition pops_op :: "REOPCode \<Rightarrow> bool" where
  "pops_op oc \<longleftrightarrow> oc = REOP_drop \<or> oc = REOP_bne_char_pos"

lemma stack_size_instr:
  assumes "instr oc bs"
  shows "stack_size_from k m (bs @ rest) =
    (if pushes oc then if k + 1 > m then if k + 1 > 255 then Some None else stack_size_from (k + 1) (k + 1) rest
        else stack_size_from (k + 1) m rest
     else if pops_op oc then if k = 0 then None else stack_size_from (k - 1) m rest
     else stack_size_from k m rest)"
  using instr_len_append [OF assms, of rest] by (subst stack_size_from.simps) (auto simp: pushes_def pops_op_def)

lemma needs_instr: "instr oc bs \<Longrightarrow> \<not> pushes oc \<Longrightarrow> \<not> pops_op oc \<Longrightarrow> needs bs 0"
  unfolding needs_def by (auto simp: stack_size_instr)

lemma needs_push:
  assumes "needs c d" "instr oc1 bs1" "pushes oc1" "instr oc2 bs2" "pops_op oc2"
  shows "needs (bs1 @ c @ bs2) (d + 1)"
  unfolding needs_def
proof (intro allI impI)
  fix k m rest ss
  assume a: "stack_size_from k m ((bs1 @ c @ bs2) @ rest) = Some (Some ss)"
  have np: "\<not> pushes oc2" using assms(5) by (auto simp: pushes_def pops_op_def)
  from a have "stack_size_from (k + 1) (max m (k + 1)) (c @ bs2 @ rest) = Some (Some ss)"
    using stack_size_instr [OF assms(2), of k m "c @ bs2 @ rest"] assms(3) by (auto simp: max_def split: if_splits)
  from needsD [OF assms(1) this] obtain m' where
    m: "max m (k + 1) \<le> m'" "d = 0 \<or> k + 1 + d \<le> m'" "stack_size_from (k + 1) m' (bs2 @ rest) = Some (Some ss)" by blast
  then show "\<exists>m'. m \<le> m' \<and> (d + 1 = 0 \<or> k + (d + 1) \<le> m') \<and> stack_size_from k m' rest = Some (Some ss)"
    using stack_size_instr [OF assms(4), of "k + 1" m' rest] assms(5) np by (intro exI [of _ m']) auto
qed

lemma needs_whole:
  assumes "needs code d" "compute_stack_size code = Some (Some ss)"
  shows "d \<le> ss"
  using needsD [OF assms(1), of 0 0 "[]" ss] assms(2) by (auto simp: compute_stack_size_def stack_size_from.simps [of _ _ "[]"])

lemma stack_size_bound: "stack_size_from k m bs = Some (Some ss) \<Longrightarrow> m \<le> 255 \<Longrightarrow> ss \<le> 255"
proof (induction k m bs rule: stack_size_from.induct)
  case (1 k m bs)
  note IH = "1.IH" and prems = "1.prems"
  show ?case
  proof (cases "bs = []")
    case False
    then obtain oc len where i: "instr_len bs = Some (oc, len)" "\<not> cut_short bs"
      using prems(1) by (subst (asm) stack_size_from.simps) (auto split: option.splits if_splits)
    note I = IH [OF False i(1) refl i(2)]
    show ?thesis
      using prems False i I by (subst (asm) stack_size_from.simps) (auto split: if_splits)
  qed (use prems in \<open>simp add: stack_size_from.simps\<close>)
qed

end
