(* ===== verification/RegexpGood.thy ===== *)
theory RegexpGood
  imports RegexpScan
begin

text \<open>
  Pieces of code with everything the compiler relies on: the code tries the results in order with the room on the counter stack
  that the scan of the code finds, the scan says that it advances only when it does, and when it counts the characters of the code,
  the code is a test that reads exactly so many. Each construct of patterns keeps these properties.
\<close>

subsection \<open>Code that tests\<close>

definition tests :: "re_ctx \<Rightarrow> u8 list \<Rightarrow> (re_result \<Rightarrow> re_result list) \<Rightarrow> nat \<Rightarrow> bool" where
  "tests ctx code f n \<longleftrightarrow> (\<exists>g. f = atom g \<and>
     (\<forall>c c'. c \<le> length (cbuf ctx) \<longrightarrow> g c = Some c' \<longrightarrow> c' = c + n \<and> c' \<le> length (cbuf ctx)) \<and>
     (\<forall>p c. code_at ctx p code \<longrightarrow> c \<le> length (cbuf ctx) \<longrightarrow> exec_no_recurse ctx p c =
        (case g c of None \<Rightarrow> Some None | Some c' \<Rightarrow> exec_no_recurse ctx (p + length code) c')))"

lemma testsI:
  assumes "f = atom g" "\<And>c c'. c \<le> length (cbuf ctx) \<Longrightarrow> g c = Some c' \<Longrightarrow> c' = c + n \<and> c' \<le> length (cbuf ctx)"
    and "\<And>p c. code_at ctx p code \<Longrightarrow> c \<le> length (cbuf ctx) \<Longrightarrow> exec_no_recurse ctx p c =
        (case g c of None \<Rightarrow> Some None | Some c' \<Rightarrow> exec_no_recurse ctx (p + length code) c')"
  shows "tests ctx code f n"
  unfolding tests_def using assms by blast

lemma tests_Nil: "tests ctx [] (\<lambda>s. [s]) 0"
  by (rule testsI [of _ Some]) (auto simp: atom_def)

lemma atom_then: "then_do (atom g1) (atom g2) = atom (\<lambda>c. Option.bind (g1 c) g2)"
  by (rule ext) (simp add: then_do_def atom_def split: option.split)

lemma tests_append:
  assumes "tests ctx c1 f1 n1" "tests ctx c2 f2 n2"
  shows "tests ctx (c1 @ c2) (then_do f1 f2) (n1 + n2)"
proof -
  from assms(1) obtain g1 where 1: "f1 = atom g1" "\<And>c c'. c \<le> length (cbuf ctx) \<Longrightarrow> g1 c = Some c' \<Longrightarrow> c' = c + n1 \<and> c' \<le> length (cbuf ctx)"
    "\<And>p c. code_at ctx p c1 \<Longrightarrow> c \<le> length (cbuf ctx) \<Longrightarrow> exec_no_recurse ctx p c =
      (case g1 c of None \<Rightarrow> Some None | Some c' \<Rightarrow> exec_no_recurse ctx (p + length c1) c')" unfolding tests_def by blast
  from assms(2) obtain g2 where 2: "f2 = atom g2" "\<And>c c'. c \<le> length (cbuf ctx) \<Longrightarrow> g2 c = Some c' \<Longrightarrow> c' = c + n2 \<and> c' \<le> length (cbuf ctx)"
    "\<And>p c. code_at ctx p c2 \<Longrightarrow> c \<le> length (cbuf ctx) \<Longrightarrow> exec_no_recurse ctx p c =
      (case g2 c of None \<Rightarrow> Some None | Some c' \<Rightarrow> exec_no_recurse ctx (p + length c2) c')" unfolding tests_def by blast
  show ?thesis
  proof (rule testsI [of _ "\<lambda>c. Option.bind (g1 c) g2"])
    show "then_do f1 f2 = atom (\<lambda>c. Option.bind (g1 c) g2)" by (simp add: 1(1) 2(1) atom_then)
    show "c' = c + (n1 + n2) \<and> c' \<le> length (cbuf ctx)" if c: "c \<le> length (cbuf ctx)" "Option.bind (g1 c) g2 = Some c'" for c c'
    proof -
      from c(2) obtain c1 where c1: "g1 c = Some c1" "g2 c1 = Some c'" by (auto simp: bind_eq_Some_conv)
      with 1(2) [OF c(1) c1(1)] 2(2) [of c1 c'] show ?thesis by simp
    qed
    show "exec_no_recurse ctx p c = (case Option.bind (g1 c) g2 of None \<Rightarrow> Some None
        | Some c' \<Rightarrow> exec_no_recurse ctx (p + length (c1 @ c2)) c')" if "code_at ctx p (c1 @ c2)" "c \<le> length (cbuf ctx)" for p c
      using that 1(2) [OF that(2)] 1(3) [of p c] 2(3) [of "p + length c1"]
      unfolding length_append add.assoc [symmetric] by (cases "g1 c") (auto simp: code_at_append)
  qed
qed

lemma tests_op:
  assumes oc: "instr oc code" "is_simple_op oc"
    and op: "\<And>p c. code_at ctx p code \<Longrightarrow> c \<le> length (cbuf ctx) \<Longrightarrow>
      simple_op ctx oc (p + 1) c = Some (case g c of None \<Rightarrow> Reject | Some c' \<Rightarrow> Accept (p + length code) c')"
    and g: "\<And>c c'. c \<le> length (cbuf ctx) \<Longrightarrow> g c = Some c' \<Longrightarrow> c' = c + n \<and> c' \<le> length (cbuf ctx)"
  shows "tests ctx code (atom g) n"
proof (rule testsI [OF refl g])
  fix p c assume c: "code_at ctx p code" "c \<le> length (cbuf ctx)"
  have "oc \<noteq> REOP_match" using oc(2) by (auto simp: is_simple_op_def)
  then show "exec_no_recurse ctx p c = (case g c of None \<Rightarrow> Some None | Some c' \<Rightarrow> exec_no_recurse ctx (p + length code) c')"
    using op [OF c] instr_op_at [OF oc(1) c(1)] by (subst exec_no_recurse.simps) (simp split: option.split)
qed auto

subsection \<open>Good code\<close>

definition runs :: "re_ctx \<Rightarrow> u8 list \<Rightarrow> (re_result \<Rightarrow> re_result list) \<Rightarrow> bool" where
  "runs ctx code f \<longleftrightarrow> (\<exists>d. needs code d \<and> (\<forall>p. code_at ctx p code \<longrightarrow> frag ctx d p (p + length code) f))"

definition must_advance :: "re_ctx \<Rightarrow> u8 list \<Rightarrow> (re_result \<Rightarrow> re_result list) \<Rightarrow> bool" where
  "must_advance ctx code f \<longleftrightarrow> (\<exists>r. scans code r \<and> r \<in> {-2, 0, 1} \<and> (r = 1 \<longrightarrow> advances ctx f))"

definition counted :: "re_ctx \<Rightarrow> u8 list \<Rightarrow> (re_result \<Rightarrow> re_result list) \<Rightarrow> bool" where
  "counted ctx code f \<longleftrightarrow> (\<exists>k. counts code k \<and> (\<forall>n. k = Some n \<longrightarrow> tests ctx code f n))"

definition good :: "re_ctx \<Rightarrow> u8 list \<Rightarrow> (re_result \<Rightarrow> re_result list) \<Rightarrow> bool" where
  "good ctx code f \<longleftrightarrow> fwd ctx f \<and> runs ctx code f \<and> must_advance ctx code f \<and> counted ctx code f"

lemma goodD: "good ctx code f \<Longrightarrow> fwd ctx f" "good ctx code f \<Longrightarrow> runs ctx code f" "good ctx code f \<Longrightarrow> must_advance ctx code f"
  "good ctx code f \<Longrightarrow> counted ctx code f"
  by (simp_all add: good_def)

lemma runsI: "needs code d \<Longrightarrow> (\<And>p. code_at ctx p code \<Longrightarrow> frag ctx d p (p + length code) f) \<Longrightarrow> runs ctx code f"
  unfolding runs_def by blast

lemma good_Nil: "good ctx [] (\<lambda>s. [s])"
  unfolding good_def
proof (intro conjI)
  show "fwd ctx (\<lambda>s. [s])" by (rule fwd_id)
  show "runs ctx [] (\<lambda>s. [s])" by (rule runsI [OF needs_Nil]) (simp add: frag_empty)
  show "must_advance ctx [] (\<lambda>s. [s])" unfolding must_advance_def using scans_Nil by (intro exI [of _ "-2"]) simp
  show "counted ctx [] (\<lambda>s. [s])" unfolding counted_def using counts_Nil tests_Nil by (intro exI [of _ "Some 0"]) simp
qed

lemma advances_then:
  assumes "advances ctx f1 \<and> fwd ctx f2 \<or> fwd ctx f1 \<and> advances ctx f2" "fwd ctx f1"
  shows "advances ctx (then_do f1 f2)"
  unfolding advances_def
proof (intro allI impI)
  fix s s' assume s: "valid ctx s" "s' \<in> set (then_do f1 f2 s)"
  then obtain s1 where s1: "s1 \<in> set (f1 s)" "s' \<in> set (f2 s1)" by (force simp: then_do_def)
  note v = fwdD [OF assms(2) s(1) s1(1)]
  from assms(1) show "fst s < fst s'"
  proof
    assume "advances ctx f1 \<and> fwd ctx f2"
    then show ?thesis using advancesD [of ctx f1, OF _ s(1) s1(1)] fwdD [of ctx f2, OF _ _ s1(2)] v by auto
  next
    assume "fwd ctx f1 \<and> advances ctx f2"
    then show ?thesis using advancesD [of ctx f2, OF _ _ s1(2)] v by auto
  qed
qed

lemma must_advance_append:
  assumes "must_advance ctx c1 f1" "must_advance ctx c2 f2" "fwd ctx f1" "fwd ctx f2"
  shows "must_advance ctx (c1 @ c2) (then_do f1 f2)"
proof -
  from assms(1) obtain r1 where 1: "scans c1 r1" "r1 \<in> {-2, 0, 1}" "r1 = 1 \<longrightarrow> advances ctx f1" unfolding must_advance_def by blast
  from assms(2) obtain r2 where 2: "scans c2 r2" "r2 \<in> {-2, 0, 1}" "r2 = 1 \<longrightarrow> advances ctx f2" unfolding must_advance_def by blast
  show ?thesis unfolding must_advance_def
  proof (intro exI conjI impI)
    show "scans (c1 @ c2) (if r1 = -2 then r2 else r1)" by (rule scans_append [OF 1(1) 2(1)])
    show "(if r1 = -2 then r2 else r1) \<in> {-2, 0, 1}" using 1(2) 2(2) by auto
    show "advances ctx (then_do f1 f2)" if "(if r1 = -2 then r2 else r1) = 1"
      using that 1(3) 2(3) assms(3,4) by (intro advances_then) (auto split: if_splits)
  qed
qed

lemma runs_append:
  assumes "runs ctx c1 f1" "runs ctx c2 f2" "fwd ctx f1"
  shows "runs ctx (c1 @ c2) (then_do f1 f2)"
proof -
  from assms(1) obtain d1 where 1: "needs c1 d1" "\<And>p. code_at ctx p c1 \<Longrightarrow> frag ctx d1 p (p + length c1) f1" unfolding runs_def by blast
  from assms(2) obtain d2 where 2: "needs c2 d2" "\<And>p. code_at ctx p c2 \<Longrightarrow> frag ctx d2 p (p + length c2) f2" unfolding runs_def by blast
  show ?thesis
  proof (rule runsI [OF needs_append [OF 1(1) 2(1)]])
    fix p assume "code_at ctx p (c1 @ c2)"
    then have c: "code_at ctx p c1" "code_at ctx (p + length c1) c2" by (simp_all add: code_at_append)
    have "frag ctx (max d1 d2) p (p + length c1) f1" by (rule frag_more [OF 1(2) [OF c(1)]]) simp
    moreover have "frag ctx (max d1 d2) (p + length c1) (p + length c1 + length c2) f2" by (rule frag_more [OF 2(2) [OF c(2)]]) simp
    ultimately show "frag ctx (max d1 d2) p (p + length (c1 @ c2)) (then_do f1 f2)"
      using frag_seq [OF _ _ assms(3)] by (simp add: add.assoc)
  qed
qed

lemma counted_append:
  assumes "counted ctx c1 f1" "counted ctx c2 f2"
  shows "counted ctx (c1 @ c2) (then_do f1 f2)"
proof -
  from assms(1) obtain k1 where 1: "counts c1 k1" "\<And>n. k1 = Some n \<Longrightarrow> tests ctx c1 f1 n" unfolding counted_def by blast
  from assms(2) obtain k2 where 2: "counts c2 k2" "\<And>n. k2 = Some n \<Longrightarrow> tests ctx c2 f2 n" unfolding counted_def by blast
  show ?thesis unfolding counted_def
  proof (intro exI conjI allI impI)
    show "counts (c1 @ c2) (case k1 of None \<Rightarrow> None | Some a \<Rightarrow> map_option ((+) a) k2)" by (rule counts_append [OF 1(1) 2(1)])
    show "tests ctx (c1 @ c2) (then_do f1 f2) n" if "(case k1 of None \<Rightarrow> None | Some a \<Rightarrow> map_option ((+) a) k2) = Some n" for n
      using that 1(2) 2(2) tests_append by (auto split: option.splits)
  qed
qed

lemma good_append: "good ctx c1 f1 \<Longrightarrow> good ctx c2 f2 \<Longrightarrow> good ctx (c1 @ c2) (then_do f1 f2)"
  unfolding good_def by (simp add: fwd_then must_advance_append runs_append counted_append)

lemma counted_none: "counts code None \<Longrightarrow> counted ctx code f"
  unfolding counted_def by blast

lemma counted_instr: "instr oc bs \<Longrightarrow> \<not> is_char_op oc \<Longrightarrow> \<not> is_assertion oc \<Longrightarrow> counted ctx (bs @ rest) f"
  by (rule counted_none, rule counts_none) (use counts_instr [of oc bs] in simp)

lemma must_advance_zero: "scans code r \<Longrightarrow> r = 0 \<Longrightarrow> must_advance ctx code f"
  unfolding must_advance_def by (intro exI [of _ 0]) simp

lemma simple_op_kinds: "is_simple_op oc \<Longrightarrow> is_char_op oc \<or> is_assertion oc \<and> no_effect oc"
  "is_simple_op oc \<Longrightarrow> \<not> saves oc \<and> \<not> pushes oc \<and> \<not> pops_op oc \<and> oc \<noteq> REOP_back_reference \<and> oc \<noteq> REOP_backward_back_reference"
  by (auto simp: is_simple_op_def is_char_op_def is_assertion_def no_effect_def saves_def pushes_def pops_op_def)

lemma good_op:
  assumes oc: "instr oc code" "is_simple_op oc"
    and op: "\<And>p c. code_at ctx p code \<Longrightarrow> c \<le> length (cbuf ctx) \<Longrightarrow>
      simple_op ctx oc (p + 1) c = Some (case g c of None \<Rightarrow> Reject | Some c' \<Rightarrow> Accept (p + length code) c')"
    and g: "\<And>c c'. c \<le> length (cbuf ctx) \<Longrightarrow> g c = Some c' \<Longrightarrow> c' = c + (if is_char_op oc then 1 else 0) \<and> c' \<le> length (cbuf ctx)"
  shows "good ctx code (atom g)"
  unfolding good_def
proof (intro conjI)
  note K = simple_op_kinds [OF oc(2)]
  show "fwd ctx (atom g)" by (rule fwd_atom) (use g in fastforce)
  show "runs ctx code (atom g)"
  proof (rule runsI [OF needs_instr [OF oc(1)]])
    fix p assume c: "code_at ctx p code"
    show "frag ctx 0 p (p + length code) (atom g)" by (rule frag_atom [OF instr_op_at [OF oc(1) c] oc(2) op [OF c]])
  qed (use K in simp_all)
  have "advances ctx (atom g)" if "is_char_op oc"
    unfolding advances_def
  proof (intro allI impI)
    fix s s' assume "valid ctx s" "s' \<in> set (atom g s)"
    then show "fst s < fst s'" using g [of "fst s" "fst s'"] that by (cases "g (fst s)") (auto simp: atom_def valid_def)
  qed
  then show "must_advance ctx code (atom g)"
    unfolding must_advance_def using K scans_instr [OF oc(1)]
    by (intro exI [of _ "if is_char_op oc then 1 else if no_effect oc then -2 else 0"]) auto
  show "counted ctx code (atom g)"
    unfolding counted_def
  proof (intro exI conjI allI impI)
    show "counts code (Some (if is_char_op oc then 1 else 0))" using counts_instr [OF oc(1)] K(1) by (auto split: if_splits)
    show "tests ctx code (atom g) n" if "Some (if is_char_op oc then 1 else 0) = Some n" for n
    proof -
      have "n = (if is_char_op oc then 1 else 0)" using that by simp
      then show ?thesis using op g by (intro tests_op [OF oc]) auto
    qed
  qed
qed

subsection \<open>Alternatives, groups and lookaheads\<close>

text \<open>Instructions that neither push nor pop, and that the scans stop at.\<close>

lemma scans_stop: "instr oc bs \<Longrightarrow> \<not> saves oc \<Longrightarrow> \<not> is_char_op oc \<Longrightarrow> \<not> no_effect oc \<Longrightarrow> oc \<noteq> REOP_back_reference \<Longrightarrow>
    oc \<noteq> REOP_backward_back_reference \<Longrightarrow> scans bs 0"
  using scans_instr [of oc bs] by simp

lemma scans_stop_first: "scans bs 0 \<Longrightarrow> scans rest r \<Longrightarrow> scans (bs @ rest) 0"
  using scans_append [of bs 0 rest r] by simp

lemma must_advance_scans: "must_advance ctx code f \<Longrightarrow> \<exists>r. scans code r"
  unfolding must_advance_def by blast

lemma runs_needs: "runs ctx code f \<Longrightarrow> \<exists>d. needs code d \<and> (\<forall>p. code_at ctx p code \<longrightarrow> frag ctx d p (p + length code) f)"
  unfolding runs_def .

lemmas op_kinds = is_char_op_def is_assertion_def no_effect_def saves_def pushes_def pops_op_def

lemma needs_0: "needs c1 0 \<Longrightarrow> needs c2 d \<Longrightarrow> needs (c1 @ c2) d" "needs c1 d \<Longrightarrow> needs c2 0 \<Longrightarrow> needs (c1 @ c2) d"
  using needs_append [of c1 0 c2 d] needs_append [of c1 d c2 0] by simp_all

lemma good_alternatives:
  assumes f: "good ctx ca f" and g: "good ctx cb g" and n: "length (emit_alternatives ca cb) < 2 ^ 31"
  shows "good ctx (emit_alternatives ca cb) (either True f g)"
  unfolding good_def
proof (intro conjI)
  let ?split = "re_emit_op_u32 REOP_split_next_first (of_nat (length ca + 5))"
    and ?goto = "re_emit_op_u32 REOP_goto (of_nat (length cb))"
  have i: "instr REOP_split_next_first ?split" "instr REOP_goto ?goto" by (simp_all add: instr_emit)
  show "fwd ctx (either True f g)" using f g by (simp add: fwd_either goodD)
  obtain d1 where 1: "needs ca d1" "\<And>p. code_at ctx p ca \<Longrightarrow> frag ctx d1 p (p + length ca) f" using runs_needs [OF goodD(2) [OF f]] by blast
  obtain d2 where 2: "needs cb d2" "\<And>p. code_at ctx p cb \<Longrightarrow> frag ctx d2 p (p + length cb) g" using runs_needs [OF goodD(2) [OF g]] by blast
  have z: "needs ?split 0" "needs ?goto 0" by (rule needs_instr [OF i(1)] needs_instr [OF i(2)]; simp add: op_kinds)+
  show "runs ctx (emit_alternatives ca cb) (either True f g)"
  proof (rule runsI [of _ "max d1 d2"])
    show "needs (emit_alternatives ca cb) (max d1 d2)"
      unfolding emit_alternatives_def using needs_append [OF 1(1) needs_0(1) [OF z(2) 2(1)]] by (rule needs_0(1) [OF z(1)])
    fix p assume c: "code_at ctx p (emit_alternatives ca cb)"
    then have "code_at ctx (p + 5) ca" "code_at ctx (p + 5 + length ca + 5) cb"
      unfolding emit_alternatives_def code_at_append length_emit by blast+
    then have "frag ctx (max d1 d2) (p + 5) (p + 5 + length ca) f" "frag ctx (max d1 d2) (p + 10 + length ca) (p + 10 + length ca + length cb) g"
      using frag_more [OF 1(2), of "p + 5" "max d1 d2"] frag_more [OF 2(2), of "p + 10 + length ca" "max d1 d2"] by (simp_all add: ac_simps)
    then show "frag ctx (max d1 d2) p (p + length (emit_alternatives ca cb)) (either True f g)"
      using frag_alternatives [OF c n _ goodD(1) [OF f]] by blast
  qed
  obtain r1 r2 where r: "scans ca r1" "scans cb r2" using must_advance_scans [OF goodD(3) [OF f]] must_advance_scans [OF goodD(3) [OF g]] by blast
  have "scans ?split 0" "scans ?goto 0" by (rule scans_stop [OF i(1)] scans_stop [OF i(2)]; simp add: op_kinds)+
  then have "scans (emit_alternatives ca cb) 0"
    unfolding emit_alternatives_def using scans_append [OF r(1) scans_append [OF _ r(2)]] scans_stop_first by blast
  then show "must_advance ctx (emit_alternatives ca cb) (either True f g)" by (rule must_advance_zero) simp
  show "counted ctx (emit_alternatives ca cb) (either True f g)"
    unfolding emit_alternatives_def by (rule counted_instr [OF i(1)]) (simp_all add: op_kinds)
qed

lemma advances_captured:
  assumes "fwd ctx f" "advances ctx f"
  shows "advances ctx (captured v f)"
  unfolding captured_def by (intro advances_then) (simp_all add: assms advances_then fwd_set_cap fwd_then)

lemma good_capture:
  assumes f: "good ctx ca f" and v: "v < capture_count ctx" "v < 256"
  shows "good ctx (emit_capture v ca) (captured v f)"
  unfolding good_def
proof (intro conjI)
  let ?a = "re_emit_op_u8 REOP_save_start v" and ?b = "re_emit_op_u8 REOP_save_end v"
  have i: "instr REOP_save_start ?a" "instr REOP_save_end ?b" by (simp_all add: instr_emit)
  show "fwd ctx (captured v f)" using f by (simp add: fwd_captured goodD)
  obtain d where d: "needs ca d" "\<And>p. code_at ctx p ca \<Longrightarrow> frag ctx d p (p + length ca) f" using runs_needs [OF goodD(2) [OF f]] by blast
  have z: "needs ?a 0" "needs ?b 0" by (rule needs_instr [OF i(1)] needs_instr [OF i(2)]; simp add: op_kinds)+
  show "runs ctx (emit_capture v ca) (captured v f)"
  proof (rule runsI)
    show "needs (emit_capture v ca) d" unfolding emit_capture_def by (intro needs_0(1) [OF z(1)] needs_0(2) [OF d(1) z(2)])
    fix p assume c: "code_at ctx p (emit_capture v ca)"
    then have "code_at ctx (p + 2) ca" unfolding emit_capture_def code_at_append length_emit by blast
    from frag_capture [OF c v d(2) [OF this] goodD(1) [OF f]] show "frag ctx d p (p + length (emit_capture v ca)) (captured v f)" .
  qed
  obtain r where r: "scans ca r" "r \<in> {-2, 0, 1}" "r = 1 \<longrightarrow> advances ctx f" using goodD(3) [OF f] unfolding must_advance_def by blast
  have "scans (emit_capture v ca) r"
    unfolding emit_capture_def
    using scans_append [OF scans_save [of REOP_save_start v] scans_append [OF r(1) scans_save [of REOP_save_end v]]] r(2) by (auto split: if_splits)
  then show "must_advance ctx (emit_capture v ca) (captured v f)"
    unfolding must_advance_def using r(2,3) advances_captured [OF goodD(1) [OF f]] by blast
  show "counted ctx (emit_capture v ca) (captured v f)"
    unfolding emit_capture_def by (rule counted_instr [OF i(1)]) (simp_all add: op_kinds)
qed

lemma good_lookahead:
  assumes f: "good ctx ca f" and n: "length (emit_lookahead neg ca) < 2 ^ 31"
  shows "good ctx (emit_lookahead neg ca) (look_at neg f)"
  unfolding good_def
proof (intro conjI)
  let ?oc = "if neg then REOP_negative_lookahead else REOP_lookahead"
  let ?a = "re_emit_op_u32 ?oc (of_nat (length ca + 1))" and ?b = "re_emit_op REOP_match"
  have i: "instr ?oc ?a" "instr REOP_match ?b" by (auto intro!: instr_emit)
  show "fwd ctx (look_at neg f)" using f by (simp add: fwd_look goodD)
  obtain d where d: "needs ca d" "\<And>p. code_at ctx p ca \<Longrightarrow> frag ctx d p (p + length ca) f" using runs_needs [OF goodD(2) [OF f]] by blast
  have z: "needs ?a 0" "needs ?b 0" by (rule needs_instr [OF i(1)] needs_instr [OF i(2)]; simp add: op_kinds)+
  show "runs ctx (emit_lookahead neg ca) (look_at neg f)"
  proof (rule runsI)
    show "needs (emit_lookahead neg ca) d" unfolding emit_lookahead_def by (intro needs_0(1) [OF z(1)] needs_0(2) [OF d(1) z(2)])
    fix p assume c: "code_at ctx p (emit_lookahead neg ca)"
    then have "code_at ctx (p + 5) ca" unfolding emit_lookahead_def code_at_append length_emit by blast
    from frag_lookahead [OF c n d(2) [OF this]] show "frag ctx d p (p + length (emit_lookahead neg ca)) (look_at neg f)" .
  qed
  obtain r where r: "scans ca r" using must_advance_scans [OF goodD(3) [OF f]] by blast
  have "scans ?a 0" "scans ?b 0" by (rule scans_stop [OF i(1)] scans_stop [OF i(2)]; simp add: op_kinds)+
  then have "scans (emit_lookahead neg ca) 0" unfolding emit_lookahead_def using scans_append [OF r] scans_stop_first by blast
  then show "must_advance ctx (emit_lookahead neg ca) (look_at neg f)" by (rule must_advance_zero) simp
  show "counted ctx (emit_lookahead neg ca) (look_at neg f)"
    unfolding emit_lookahead_def by (rule counted_instr [OF i(1)]) (simp_all add: op_kinds)
qed

end
