(* ===== verification/RegexpQuant.thy ===== *)
theory RegexpQuant
  imports RegexpGood
begin

text \<open>The code around a quantified atom is good code when the code of the atom is.\<close>

subsection \<open>Loops\<close>

lemma instr_goto: "oc \<in> {REOP_goto, REOP_split_goto_first, REOP_split_next_first, REOP_loop, REOP_bne_char_pos} \<Longrightarrow> instr oc (re_emit_goto oc a b)"
  unfolding re_emit_goto_eq by (rule instr_emit(4)) auto

lemma split_op_cases: "split_op g \<in> {REOP_split_goto_first, REOP_split_next_first}"
  by simp

lemma instr_split: "instr (split_op g) (re_emit_op_u32 (split_op g) w)" "instr (split_op g) (re_emit_goto (split_op g) a b)"
  by (cases g; simp add: instr_emit instr_goto)+

lemma needs_split: "needs (re_emit_op_u32 (split_op g) w) 0" "needs (re_emit_goto (split_op g) a b) 0"
  by (rule needs_instr [OF instr_split(1)] needs_instr [OF instr_split(2)]; simp add: op_kinds)+

lemma scans_split: "scans (re_emit_op_u32 (split_op g) w) 0" "scans (re_emit_goto (split_op g) a b) 0"
  by (rule scans_stop [OF instr_split(1)] scans_stop [OF instr_split(2)]; simp add: op_kinds)+

lemma counted_split: "counted ctx (re_emit_op_u32 (split_op g) w @ rest) f"
  by (rule counted_instr [OF instr_split(1)]) (simp_all add: op_kinds)

lemma scans_no_effect:
  "scans (re_emit_op REOP_push_char_pos) (-2)" "scans (re_emit_op_u32 REOP_push_i32 w) (-2)" "scans (re_emit_op REOP_drop) (-2)"
  using scans_instr [OF instr_emit(1) [of REOP_push_char_pos]] scans_instr [OF instr_emit(4) [of REOP_push_i32 w]]
    scans_instr [OF instr_emit(1) [of REOP_drop]] by (simp_all add: op_kinds)

lemma scans_goto: "oc \<in> {REOP_goto, REOP_loop, REOP_bne_char_pos} \<Longrightarrow> scans (re_emit_goto oc a b) 0"
  by (rule scans_stop [OF instr_goto]) (auto simp: op_kinds)

lemma good_star:
  assumes f: "good ctx ca f" and adv: "z \<or> advances ctx f" and n: "pos + length (emit_star pos g z ca) < 2 ^ 31" "length (cbuf ctx) < 2 ^ 64"
  shows "good ctx (emit_star pos g z ca) (star ctx g f)"
  unfolding good_def
proof (intro conjI)
  let ?k = "5 + (if z then 1 else 0 :: nat) + length ca"
  let ?split = "re_emit_op_u32 (split_op g) (of_nat (length ca + 5 + (if z then 1 else 0)))"
    and ?push = "if z then re_emit_op REOP_push_char_pos else []"
    and ?goto = "re_emit_goto (if z then REOP_bne_char_pos else REOP_goto) (pos + ?k) pos"
  have E: "emit_star pos g z ca = ?split @ ?push @ ca @ ?goto" by (simp add: emit_star_def Let_def)
  show "fwd ctx (star ctx g f)" using f by (simp add: fwd_star goodD)
  obtain d where d: "needs ca d" "\<And>p. code_at ctx p ca \<Longrightarrow> frag ctx d p (p + length ca) f" using runs_needs [OF goodD(2) [OF f]] by blast
  show "runs ctx (emit_star pos g z ca) (star ctx g f)"
  proof (rule runsI)
    have "needs (?push @ ca @ ?goto) (d + (if z then 1 else 0))"
    proof (cases z)
      case True
      have "needs (re_emit_op REOP_push_char_pos @ ca @ re_emit_goto REOP_bne_char_pos (pos + ?k) pos) (d + 1)"
        by (rule needs_push [OF d(1) instr_emit(1) _ instr_goto]) (simp_all add: op_kinds)
      with True show ?thesis by simp
    next
      case False
      have "needs (re_emit_goto REOP_goto (pos + ?k) pos) 0" by (rule needs_instr [OF instr_goto]) (simp_all add: op_kinds)
      with False show ?thesis using needs_0(2) [OF d(1)] by simp
    qed
    then show "needs (emit_star pos g z ca) (d + (if z then 1 else 0))" unfolding E by (rule needs_0(1) [OF needs_split(1)])
    fix p assume c: "code_at ctx p (emit_star pos g z ca)"
    show "frag ctx (d + (if z then 1 else 0)) p (p + length (emit_star pos g z ca)) (star ctx g f)"
      by (rule frag_star [OF c n(1) d(2) [OF emit_star_code(4) [OF c n(1)]] goodD(1) [OF f] adv n(2)])
  qed
  obtain r where r: "scans ca r" using must_advance_scans [OF goodD(3) [OF f]] by blast
  have "scans ?push (-2)" by (simp add: scans_no_effect scans_Nil)
  moreover have "scans ?goto 0" by (rule scans_goto) simp
  ultimately have "scans (emit_star pos g z ca) 0" unfolding E using scans_append [OF _ scans_append [OF r]] scans_stop_first [OF scans_split(1)] by blast
  then show "must_advance ctx (emit_star pos g z ca) (star ctx g f)" by (rule must_advance_zero) simp
  show "counted ctx (emit_star pos g z ca) (star ctx g f)" unfolding E by (rule counted_split)
qed

lemma good_upto:
  assumes f: "good ctx ca f" and n: "pos + length (emit_upto pos g n ca) < 2 ^ 31" "0 < n" "n < 2 ^ 31"
  shows "good ctx (emit_upto pos g n ca) (upto_times n g f)"
  unfolding good_def
proof (intro conjI)
  let ?push = "re_emit_op_u32 REOP_push_i32 (of_nat n)" and ?split = "re_emit_op_u32 (split_op g) (of_nat (length ca + 5))"
    and ?loop = "re_emit_goto REOP_loop (pos + 5 + (5 + length ca)) (pos + 5)" and ?drop = "re_emit_op REOP_drop"
  have E: "emit_upto pos g n ca = ?push @ (?split @ ca @ ?loop) @ ?drop" by (simp add: emit_upto_def Let_def add.assoc)
  show "fwd ctx (upto_times n g f)" using f by (simp add: fwd_upto goodD)
  obtain d where d: "needs ca d" "\<And>p. code_at ctx p ca \<Longrightarrow> frag ctx d p (p + length ca) f" using runs_needs [OF goodD(2) [OF f]] by blast
  show "runs ctx (emit_upto pos g n ca) (upto_times n g f)"
  proof (rule runsI)
    have "needs ?loop 0" by (rule needs_instr [OF instr_goto]) (simp_all add: op_kinds)
    then have "needs (?split @ ca @ ?loop) d" using needs_0(1) [OF needs_split(1) needs_0(2) [OF d(1)]] by blast
    then show "needs (emit_upto pos g n ca) (d + 1)"
      unfolding E by (rule needs_push [OF _ instr_emit(4) _ instr_emit(1)]) (simp_all add: op_kinds)
    fix p assume "code_at ctx p (emit_upto pos g n ca)"
    then show "frag ctx (d + 1) p (p + length (emit_upto pos g n ca)) (upto_times n g f)"
      using frag_upto [OF _ n d(2) goodD(1) [OF f]] by blast
  qed
  obtain r where r: "scans ca r" using must_advance_scans [OF goodD(3) [OF f]] by blast
  have "scans ?loop 0" by (rule scans_goto) simp
  then obtain r' where "scans (ca @ ?loop) r'" using scans_append [OF r] by blast
  then have "scans (?split @ ca @ ?loop) 0" by (rule scans_stop_first [OF scans_split(1)])
  from scans_stop_first [OF this scans_no_effect(3)] have "scans ((?split @ ca @ ?loop) @ ?drop) 0" .
  from scans_append [OF scans_no_effect(2) this] have "scans (emit_upto pos g n ca) 0" unfolding E by simp
  then show "must_advance ctx (emit_upto pos g n ca) (upto_times n g f)" by (rule must_advance_zero) simp
  show "counted ctx (emit_upto pos g n ca) (upto_times n g f)"
    unfolding E by (rule counted_instr [OF instr_emit(4)]) (simp_all add: op_kinds)
qed

lemma advances_exactly: "advances ctx f \<Longrightarrow> fwd ctx f \<Longrightarrow> 0 < n \<Longrightarrow> advances ctx (exactly n f)"
  by (cases n) (auto intro: advances_then fwd_exactly)

lemma good_exactly:
  assumes f: "good ctx ca f" and n: "pos + length (emit_exactly pos n ca) < 2 ^ 31" "0 < n" "n < 2 ^ 31"
  shows "good ctx (emit_exactly pos n ca) (exactly n f)"
proof (cases "n = 1")
  case True
  moreover have "exactly 1 f = f" by (simp add: then_do_def [abs_def])
  ultimately show ?thesis using f by (simp add: emit_exactly_def)
next
  case False
  let ?push = "re_emit_op_u32 REOP_push_i32 (of_nat n)" and ?loop = "re_emit_goto REOP_loop (pos + 5 + length ca) (pos + 5)"
    and ?drop = "re_emit_op REOP_drop"
  have E: "emit_exactly pos n ca = ?push @ (ca @ ?loop) @ ?drop" using False by (simp add: emit_exactly_def Let_def add.assoc)
  obtain d where d: "needs ca d" "\<And>p. code_at ctx p ca \<Longrightarrow> frag ctx d p (p + length ca) f" using runs_needs [OF goodD(2) [OF f]] by blast
  obtain r where r: "scans ca r" "r \<in> {-2, 0, 1}" "r = 1 \<longrightarrow> advances ctx f" using goodD(3) [OF f] unfolding must_advance_def by blast
  show ?thesis
    unfolding good_def
  proof (intro conjI)
    show "fwd ctx (exactly n f)" using f by (simp add: fwd_exactly goodD)
    show "runs ctx (emit_exactly pos n ca) (exactly n f)"
    proof (rule runsI)
      have "needs ?loop 0" by (rule needs_instr [OF instr_goto]) (simp_all add: op_kinds)
      then have "needs (ca @ ?loop) d" using needs_0(2) [OF d(1)] by blast
      then show "needs (emit_exactly pos n ca) (d + 1)"
        unfolding E by (rule needs_push [OF _ instr_emit(4) _ instr_emit(1)]) (simp_all add: op_kinds)
      fix p assume "code_at ctx p (emit_exactly pos n ca)"
      then show "frag ctx (d + 1) p (p + length (emit_exactly pos n ca)) (exactly n f)"
        using frag_exactly [OF _ n d(2) goodD(1) [OF f]] by blast
    qed
    have "scans ?loop 0" by (rule scans_goto) simp
    from scans_append [OF scans_no_effect(2) scans_append [OF scans_append [OF r(1) this] scans_no_effect(3)]]
    have "scans (emit_exactly pos n ca) (if r = -2 then 0 else r)" unfolding E using r(2) by (auto split: if_splits)
    then show "must_advance ctx (emit_exactly pos n ca) (exactly n f)"
      unfolding must_advance_def using r(2,3) advances_exactly [OF _ goodD(1) [OF f] n(2)]
      by (intro exI [of _ "if r = -2 then 0 else r"]) auto
    show "counted ctx (emit_exactly pos n ca) (exactly n f)"
      unfolding E by (rule counted_instr [OF instr_emit(4)]) (simp_all add: op_kinds)
  qed
qed

lemma good_option:
  assumes f: "good ctx ca f" and n: "length ca < 2 ^ 31"
  shows "good ctx (re_emit_op_u32 (split_op g) (of_nat (length ca)) @ ca) (either g f (\<lambda>s. [s]))"
  unfolding good_def
proof (intro conjI)
  let ?split = "re_emit_op_u32 (split_op g) (of_nat (length ca))"
  show "fwd ctx (either g f (\<lambda>s. [s]))" using f by (simp add: fwd_either fwd_id goodD)
  obtain d where d: "needs ca d" "\<And>p. code_at ctx p ca \<Longrightarrow> frag ctx d p (p + length ca) f" using runs_needs [OF goodD(2) [OF f]] by blast
  show "runs ctx (?split @ ca) (either g f (\<lambda>s. [s]))"
  proof (rule runsI [OF needs_0(1) [OF needs_split(1) d(1)]])
    fix p assume "code_at ctx p (?split @ ca)"
    then have c: "code_at ctx p ?split" "code_at ctx (p + 5) ca" unfolding code_at_append length_emit by blast+
    have j: "jump (p + 5) (of_nat (length ca)) = Some (p + 5 + length ca)" by (rule jump_forward [OF n])
    show "frag ctx d p (p + length (?split @ ca)) (either g f (\<lambda>s. [s]))"
      using frag_split [OF c(1) j d(2) [OF c(2)] frag_empty] by (simp add: add.assoc)
  qed
  obtain r where r: "scans ca r" using must_advance_scans [OF goodD(3) [OF f]] by blast
  show "must_advance ctx (?split @ ca) (either g f (\<lambda>s. [s]))" by (rule must_advance_zero [OF scans_stop_first [OF scans_split(1) r] refl])
  show "counted ctx (?split @ ca) (either g f (\<lambda>s. [s]))" by (rule counted_split)
qed

lemma good_reset:
  assumes "cc0 \<le> cc" "cc \<le> capture_count ctx" "cc \<le> 255"
  shows "good ctx (save_reset_code cc0 cc) (reset_caps cc0 cc)"
proof (cases "cc0 = cc")
  case True
  then show ?thesis using good_Nil by (simp add: save_reset_code_def reset_caps_def [abs_def])
next
  case False
  then have E: "save_reset_code cc0 cc = [op_byte REOP_save_reset, of_nat cc0, of_nat (cc - 1)]" by (simp add: save_reset_code_def)
  have i: "instr REOP_save_reset (save_reset_code cc0 cc)" unfolding E by (rule instr_emit(5))
  show ?thesis
    unfolding good_def
  proof (intro conjI)
    show "fwd ctx (reset_caps cc0 cc)" by (rule fwd_reset)
    show "runs ctx (save_reset_code cc0 cc) (reset_caps cc0 cc)"
      by (rule runsI [OF needs_instr [OF i] frag_reset]) (use assms in \<open>simp_all add: op_kinds\<close>)
    show "must_advance ctx (save_reset_code cc0 cc) (reset_caps cc0 cc)"
      unfolding must_advance_def using scans_reset by (intro exI [of _ "-2"]) simp
    show "counted ctx (save_reset_code cc0 cc) (reset_caps cc0 cc)"
      using counted_instr [OF i, of ctx "[]"] by (simp add: op_kinds)
  qed
qed

text \<open>The loop of \<open>+\<close>: the atom and a split back to it.\<close>

lemma frag_plus:
  assumes f: "frag ctx d p q f" "fwd ctx f" "advances ctx f"
    and c: "code_at ctx q (re_emit_op_u32 (split_op (\<not> g)) v)" "jump (q + 5) v = Some p"
  shows "frag ctx d p (q + 5) (then_do f (star ctx g f))"
proof -
  have "frag ctx d q (q + 5) (star ctx g f)"
    unfolding frag_def
  proof (intro allI impI)
    fix s stk r
    assume "valid ctx s" "length stk + d \<le> stack_size_max ctx" "tries ctx (map (\<lambda>s. th (q + 5) s stk) (star ctx g f s)) r"
    then show "bt ctx (th q s stk) r"
    proof (induction "length (cbuf ctx) - fst s" arbitrary: s r rule: less_induct)
      case less
      note s = less.prems(1) and k = less.prems(2)
      have again: "bt ctx (th q s' stk) r'" if "s' \<in> set (f s)" "tries ctx (map (\<lambda>s. th (q + 5) s stk) (star ctx g f s')) r'" for s' r'
      proof -
        have v': "valid ctx s'" "fst s < fst s'" using fwdD [OF f(2) s that(1)] advancesD [OF f(3) s that(1)] by simp_all
        then have "length (cbuf ctx) - fst s' < length (cbuf ctx) - fst s" by (auto simp: valid_def)
        from less.hyps [OF this v'(1) k that(2)] show ?thesis .
      qed
      have body: "bt ctx (th p s stk) r'" if t: "tries ctx (concat (map (\<lambda>s'. map (\<lambda>s. th (q + 5) s stk) (star ctx g f s')) (f s))) r'" for r'
        by (rule fragD [OF f(1) s k], rule tries_concat [OF again t])
      have e: "star ctx g f s = ordered g (concat (map (star ctx g f) (f s))) [s]"
      proof -
        have "map (\<lambda>s'. if fst s < fst s' then star ctx g f s' else [s']) (f s) = map (star ctx g f) (f s)"
          using advancesD [OF f(3) s] by (intro map_cong refl) simp
        then show ?thesis by (simp only: star_step [OF f(2) s, of g])
      qed
      have "tries ctx (ordered (\<not> g) [th (q + 5) s stk] (concat (map (\<lambda>s'. map (\<lambda>s. th (q + 5) s stk) (star ctx g f s')) (f s)))) r"
        using less.prems(3) unfolding e by (cases g) (simp_all add: ordered_def map_concat comp_def)
      from bt_split [OF step_split [OF c] _ body this] show ?case by simp
    qed
  qed
  from frag_seq [OF f(1) this f(2)] show ?thesis .
qed

lemma good_plus:
  assumes f: "good ctx ca f" and adv: "advances ctx f" and n: "pos + length ca + 5 < 2 ^ 31"
  shows "good ctx (ca @ re_emit_goto (split_op (\<not> g)) (pos + length ca) pos) (then_do f (star ctx g f))"
  unfolding good_def
proof (intro conjI)
  let ?split = "re_emit_goto (split_op (\<not> g)) (pos + length ca) pos"
  show "fwd ctx (then_do f (star ctx g f))" using f by (simp add: fwd_then fwd_star goodD)
  obtain d where d: "needs ca d" "\<And>p. code_at ctx p ca \<Longrightarrow> frag ctx d p (p + length ca) f" using runs_needs [OF goodD(2) [OF f]] by blast
  show "runs ctx (ca @ ?split) (then_do f (star ctx g f))"
  proof (rule runsI [OF needs_0(2) [OF d(1) needs_split(2)]])
    fix p assume "code_at ctx p (ca @ ?split)"
    then have c: "code_at ctx p ca" "code_at ctx (p + length ca) (re_emit_op_u32 (split_op (\<not> g)) (of_nat pos - of_nat (pos + length ca + 5)))"
      unfolding code_at_append re_emit_goto_eq by blast+
    from frag_plus [OF d(2) [OF c(1)] goodD(1) [OF f] adv c(2) emit_loop_back [OF n]]
    show "frag ctx d p (p + length (ca @ ?split)) (then_do f (star ctx g f))" by (simp add: add.assoc)
  qed
  obtain r where r: "scans ca r" "r \<in> {-2, 0, 1}" using goodD(3) [OF f] unfolding must_advance_def by blast
  have "advances ctx (then_do f (star ctx g f))" using adv f by (intro advances_then) (simp_all add: goodD fwd_star)
  then show "must_advance ctx (ca @ ?split) (then_do f (star ctx g f))"
    unfolding must_advance_def using scans_append [OF r(1) scans_split(2)] r(2) by (intro exI [of _ "if r = -2 then 0 else r"]) auto
  obtain k where "counts ca k" using goodD(4) [OF f] unfolding counted_def by blast
  moreover have "counts ?split None" using counts_instr [OF instr_split(2) [of "\<not> g" "pos + length ca" pos]] by (cases g) (simp_all add: op_kinds)
  ultimately have "counts (ca @ ?split) None" using counts_append [of ca k ?split None] by (auto split: option.splits)
  then show "counted ctx (ca @ ?split) (then_do f (star ctx g f))" by (rule counted_none)
qed


subsection \<open>Quantifiers\<close>

lemma instr_simple_quant:
  "instr REOP_simple_greedy_quant ([op_byte REOP_simple_greedy_quant] @ u32_bytes a @ u32_bytes b @ u32_bytes c @ u32_bytes d)"
  by (rule instr_fixed) (auto simp: reop_table_def rd_eq simp del: le_bytes_numeral)

lemma emit_simple_quant_parts:
  "emit_simple_quant quant_min quant_max m ca =
     ([op_byte REOP_simple_greedy_quant] @ u32_bytes (length ca + 1) @ u32_bytes quant_min @ u32_bytes quant_max @ u32_bytes m) @
     ca @ re_emit_op REOP_match"
  by (simp add: emit_simple_quant_def del: le_bytes_numeral)

lemma good_simple_quant:
  assumes f: "good ctx ca f" "tests ctx ca f m" and m: "0 < m" "m < 2 ^ 31"
    and n: "length ca < 2 ^ 30" "quant_min \<le> quant_max" "0 < quant_max" "quant_max < 2 ^ 31" and t: "cbuf_type ctx \<noteq> 2"
  shows "good ctx (emit_simple_quant quant_min quant_max m ca) (repeated ctx quant_min quant_max True f)"
  unfolding good_def
proof (intro conjI)
  let ?hd = "[op_byte REOP_simple_greedy_quant] @ u32_bytes (length ca + 1) @ u32_bytes quant_min @ u32_bytes quant_max @ u32_bytes m"
  let ?code = "emit_simple_quant quant_min quant_max m ca" and ?f = "repeated ctx quant_min quant_max True f"
  note i = instr_simple_quant [of "length ca + 1" quant_min quant_max m]
  have im: "instr REOP_match (re_emit_op REOP_match)" by (simp add: instr_emit)
  from f(2) obtain g where g: "f = atom g" "\<And>c c'. c \<le> length (cbuf ctx) \<Longrightarrow> g c = Some c' \<Longrightarrow> c' = c + m \<and> c' \<le> length (cbuf ctx)"
    "\<And>p c. code_at ctx p ca \<Longrightarrow> c \<le> length (cbuf ctx) \<Longrightarrow> exec_no_recurse ctx p c =
      (case g c of None \<Rightarrow> Some None | Some c' \<Rightarrow> exec_no_recurse ctx (p + length ca) c')" unfolding tests_def by blast
  show "fwd ctx ?f" using goodD(1) [OF f(1)] by (simp add: repeated_def fwd_then fwd_exactly fwd_star fwd_upto)
  obtain d where d: "needs ca d" using runs_needs [OF goodD(2) [OF f(1)]] by blast
  show "runs ctx ?code ?f"
  proof (rule runsI)
    have "needs ?hd 0" "needs (re_emit_op REOP_match) 0" by (rule needs_instr [OF i] needs_instr [OF im]; simp add: op_kinds)+
    then show "needs ?code d" unfolding emit_simple_quant_parts using needs_0(1) [OF _ needs_0(2) [OF d]] by blast
    fix p assume c: "code_at ctx p ?code"
    have "length ?hd = 17" by simp
    then have "code_at ctx (p + 17) ca" "code_at ctx (p + 17 + length ca) (re_emit_op REOP_match)"
      using c unfolding emit_simple_quant_parts code_at_append by argo+
    then have "exec_no_recurse ctx (p + 17) c = Some (g c)" if "c \<le> length (cbuf ctx)" for c
      using g(3) [OF _ that] code_at_op exec_no_recurse.simps [of ctx "p + 17 + length ca"] by (cases "g c") auto
    then show "frag ctx d p (p + length ?code) ?f"
      unfolding g(1) by (intro frag_simple_quant [OF c n(1) m(2) n(2-4) _ g(2) m(1) t]) auto
  qed
  obtain r where r: "scans ca r" using must_advance_scans [OF goodD(3) [OF f(1)]] by blast
  have "scans ?hd 0" "scans (re_emit_op REOP_match) 0" by (rule scans_stop [OF i] scans_stop [OF im]; simp add: op_kinds)+
  then have "scans ?code 0" unfolding emit_simple_quant_parts using scans_append [OF r] scans_stop_first by blast
  then show "must_advance ctx ?code ?f" by (rule must_advance_zero) simp
  show "counted ctx ?code ?f" unfolding emit_simple_quant_parts by (rule counted_instr [OF i]) (simp_all add: op_kinds)
qed

definition quantified :: "re_ctx \<Rightarrow> nat \<Rightarrow> nat \<Rightarrow> bool \<Rightarrow> nat \<Rightarrow> nat \<Rightarrow> (re_result \<Rightarrow> re_result list) \<Rightarrow> re_result \<Rightarrow> re_result list" where
  "quantified ctx quant_min quant_max greedy cc0 cc f =
     then_do (if quant_min = 0 then reset_caps cc0 cc else (\<lambda>s. [s])) (repeated ctx quant_min quant_max greedy f)"

lemma then_do_id [simp]: "then_do (\<lambda>s. [s]) f = f" "then_do f (\<lambda>s. [s]) = f"
  by (simp_all add: then_do_def [abs_def])

lemma repeated_simps:
  "repeated ctx 0 0 g f = (\<lambda>s. [s])" "repeated ctx 0 (Suc 0) g f = either g f (\<lambda>s. [s])"
  "repeated ctx 0 INT32_MAX g f = star ctx g f" "n \<noteq> INT32_MAX \<Longrightarrow> repeated ctx 0 n g f = upto_times n g f"
  "repeated ctx (Suc 0) INT32_MAX g f = then_do f (star ctx g f)"
  by (simp_all add: repeated_def)

lemma good_loop:
  assumes f: "good ctx ca f" and adv: "z \<or> advances ctx f \<or> quant_max \<noteq> INT32_MAX"
    and n: "start + length (emit_loop start quant_min quant_max g z cc0 cc ca) < 2 ^ 31" "quant_min \<le> quant_max" "quant_max \<le> INT32_MAX"
    and cc: "cc0 \<le> cc" "cc \<le> capture_count ctx" "cc \<le> 255" and len: "length (cbuf ctx) < 2 ^ 64"
  shows "good ctx (emit_loop start quant_min quant_max g z cc0 cc ca) (quantified ctx quant_min quant_max g cc0 cc f)"
proof (cases "quant_min = 0")
  case True
  let ?pos = "start + length (save_reset_code cc0 cc)"
  let ?rest = "if quant_max = 0 then [] else if quant_max = 1 then re_emit_op_u32 (split_op g) (of_nat (length ca)) @ ca
      else if quant_max = INT32_MAX then emit_star ?pos g z ca else emit_upto ?pos g quant_max ca"
  have E: "emit_loop start quant_min quant_max g z cc0 cc ca = save_reset_code cc0 cc @ ?rest" using True by (simp add: emit_loop_def Let_def)
  have n1: "?pos + length ?rest < 2 ^ 31" using n(1) unfolding E by simp
  have "good ctx ?rest (repeated ctx quant_min quant_max g f)"
  proof -
    consider "quant_max = 0" | "quant_max = 1" | "quant_max = INT32_MAX" | "0 < quant_max" "quant_max \<noteq> 1" "quant_max \<noteq> INT32_MAX" by linarith
    then show ?thesis
    proof cases
      case 1 then show ?thesis using True good_Nil by (simp add: repeated_simps)
    next
      case 2 then show ?thesis using True good_option [OF f] n1 by (simp add: repeated_simps)
    next
      case 3 then show ?thesis using True good_star [OF f, of z ?pos g] adv n1 len by (simp add: repeated_simps)
    next
      case 4 then show ?thesis using True good_upto [OF f, of ?pos g quant_max] n1 n(3) by (simp add: repeated_simps)
    qed
  qed
  then show ?thesis unfolding E quantified_def using True good_append [OF good_reset [OF cc]] by simp
next
  case False
  show ?thesis
  proof (cases "quant_min = 1 \<and> quant_max = INT32_MAX \<and> \<not> z")
    case True
    then have E: "emit_loop start quant_min quant_max g z cc0 cc ca = ca @ re_emit_goto (split_op (\<not> g)) (start + length ca) start"
      by (simp add: emit_loop_def)
    have "good ctx (ca @ re_emit_goto (split_op (\<not> g)) (start + length ca) start) (then_do f (star ctx g f))"
      using True adv n(1) unfolding E by (intro good_plus [OF f]) simp_all
    then show ?thesis unfolding E using True by (simp add: quantified_def repeated_simps)
  next
    case nz: False
    let ?first = "emit_exactly start quant_min ca" let ?pos = "start + length ?first"
    let ?rest = "if quant_max = INT32_MAX then emit_star ?pos g z ca
        else if quant_max > quant_min then emit_upto ?pos g (quant_max - quant_min) ca else []"
    have E: "emit_loop start quant_min quant_max g z cc0 cc ca = ?first @ ?rest"
      using False nz by (auto simp: emit_loop_def Let_def)
    have n1: "?pos + length ?rest < 2 ^ 31" using n(1) unfolding E by simp
    have "good ctx ?first (exactly quant_min f)" using False n n1 by (intro good_exactly [OF f]) simp_all
    moreover have "good ctx ?rest (if quant_max = INT32_MAX then star ctx g f else upto_times (quant_max - quant_min) g f)"
    proof -
      consider "quant_max = INT32_MAX" | "quant_max \<noteq> INT32_MAX" "quant_max > quant_min" | "quant_max \<noteq> INT32_MAX" "quant_max = quant_min"
        using n(2) by linarith
      then show ?thesis
      proof cases
        case 1 then show ?thesis using good_star [OF f, of z ?pos g] adv n1 len by simp
      next
        case 2 then show ?thesis using good_upto [OF f, of ?pos g "quant_max - quant_min"] n1 n(3) by simp
      next
        case 3 then show ?thesis using good_Nil by simp
      qed
    qed
    ultimately show ?thesis unfolding E quantified_def repeated_def using False good_append by simp
  qed
qed

lemma counts_unique: "counts code k \<Longrightarrow> counts code k' \<Longrightarrow> k = k'"
  using counts_whole [of code k] counts_whole [of code k'] by (auto split: option.splits)

lemma simple_quant_bound: "simple_quant_from n bs = Some v \<Longrightarrow> v \<le> int (n + length bs)"
proof (induction n bs rule: simple_quant_from.induct)
  case (1 n bs)
  show ?case
  proof (cases "bs = []")
    case False
    then obtain oc len where i: "instr_len bs = Some (oc, len)"
      using "1.prems" by (subst (asm) simple_quant_from.simps) (auto split: option.splits)
    have "0 < len" by (rule instr_len_pos [OF i])
    moreover have "0 < length bs" using False by simp
    ultimately have "length (drop len bs) < length bs" by simp
    then show ?thesis
      using "1.prems" "1.IH" [OF False i refl] False i by (subst (asm) simple_quant_from.simps) (fastforce split: if_splits)
  qed (use "1.prems" in \<open>simp add: simple_quant_from.simps\<close>)
qed

lemma counts_bound: "counts code (Some m) \<Longrightarrow> m \<le> length code"
  using counts_whole [of code "Some m"] simple_quant_bound [of 0 code "int m"] by (simp add: re_is_simple_quantifier_def)

text \<open>Code with captures is never counted, so that a simple quantifier has none to reset.\<close>

lemma good_quantifier:
  assumes f: "good ctx ca f" and e: "emit_quantifier start quant_min quant_max g cc0 cc ca = Some code"
    and adv: "\<not> g \<longrightarrow> quant_max = INT32_MAX \<longrightarrow> advances ctx f" and caps: "cc0 \<noteq> cc \<longrightarrow> counts ca None"
    and n: "start + length code < 2 ^ 30" "quant_min \<le> quant_max" "quant_max \<le> INT32_MAX"
    and cc: "cc0 \<le> cc" "cc \<le> capture_count ctx" "cc \<le> 255" and len: "length (cbuf ctx) < 2 ^ 64" "cbuf_type ctx \<noteq> 2"
  shows "good ctx code (quantified ctx quant_min quant_max g cc0 cc f)"
proof -
  obtain k where k: "counts ca k" "\<And>n. k = Some n \<Longrightarrow> tests ctx ca f n" using goodD(4) [OF f] unfolding counted_def by blast
  obtain r where r: "scans ca r" "r \<in> {-2, 0, 1}" "r = 1 \<longrightarrow> advances ctx f" using goodD(3) [OF f] unfolding must_advance_def by blast
  consider m where "g" "0 < quant_max" "k = Some m" "0 < m" "code = emit_simple_quant quant_min quant_max m ca"
    | "g" "code = emit_loop start quant_min quant_max g (r \<noteq> 1) cc0 cc ca"
    | "\<not> g" "code = emit_loop start quant_min quant_max g False cc0 cc ca"
    using e counts_whole [OF k(1)] scans_whole [OF r(1)] r(2) unfolding emit_quantifier_def
    by (cases k; cases "quant_max = 0") (auto split: if_splits)
  then show ?thesis
  proof cases
    case (1 m)
    have nl: "length ca < 2 ^ 30" using n(1) unfolding 1(5) emit_simple_quant_def by simp
    have mb: "m < 2 ^ 31" using counts_bound [of ca m] k(1) 1(3) nl by simp
    have "good ctx code (repeated ctx quant_min quant_max True f)"
      unfolding 1(5) using nl mb 1 n len k(2) by (intro good_simple_quant [OF f]) auto
    moreover have "cc0 = cc" using caps counts_unique [OF k(1)] 1(3) by auto
    ultimately show ?thesis using 1(1) by (cases "quant_min = 0") (simp_all add: quantified_def reset_caps_def [abs_def])
  next
    case 2
    show ?thesis unfolding 2(2) using 2 r n by (intro good_loop [OF f _ _ n(2,3) cc len(1)]) auto
  next
    case 3
    show ?thesis unfolding 3(2) using 3 adv n by (intro good_loop [OF f _ _ n(2,3) cc len(1)]) auto
  qed
qed

lemma counts_none_quantifier:
  assumes "emit_quantifier start quant_min quant_max g cc0 cc ca = Some code" "cc0 \<noteq> cc" "counts ca None"
  shows "counts code None"
proof -
  have loop: "counts (emit_loop start quant_min quant_max g z cc0 cc ca) None" for z
  proof (cases "quant_min = 0")
    case True
    have "counts (save_reset_code cc0 cc) None"
      using counts_instr [OF instr_emit(5)] assms(2) by (simp add: save_reset_code_def op_kinds)
    then show ?thesis using True counts_none by (simp add: emit_loop_def Let_def)
  next
    case False
    have "counts (emit_exactly start quant_min ca) None"
    proof (cases "quant_min = 1")
      case False
      have "counts (re_emit_op_u32 REOP_push_i32 (of_nat quant_min)) None" using counts_instr [OF instr_emit(4) [of REOP_push_i32]] by (simp add: op_kinds)
      then show ?thesis using False counts_none by (simp add: emit_exactly_def Let_def)
    qed (use assms(3) in \<open>simp add: emit_exactly_def\<close>)
    then show ?thesis using False counts_none assms(3) by (simp add: emit_loop_def Let_def)
  qed
  have "re_is_simple_quantifier ca = Some (-1)" using counts_whole [OF assms(3)] by simp
  then show ?thesis using assms(1) loop unfolding emit_quantifier_def by (auto split: if_splits simp: bind_eq_Some_conv)
qed

lemma length_quantifier:
  assumes "emit_quantifier start quant_min quant_max g cc0 cc ca = Some code" "0 < quant_max" "quant_min \<le> quant_max"
  shows "length ca \<le> length code"
proof -
  have "length ca \<le> length (emit_loop start quant_min quant_max g z cc0 cc ca)" for z
    using assms(2,3) by (auto simp: emit_loop_def emit_star_def emit_upto_def emit_exactly_def Let_def)
  then show ?thesis using assms(1) unfolding emit_quantifier_def
    by (auto simp: bind_eq_Some_conv emit_simple_quant_def split: if_splits)
qed

lemma quantifier_zero:
  assumes "emit_quantifier start 0 0 g cc0 cc ca = Some code"
  shows "code = save_reset_code cc0 cc"
  using assms by (auto simp: emit_quantifier_def emit_loop_def bind_eq_Some_conv Let_def split: if_splits)

end
