(* ===== verification/RegexpRange.thy ===== *)
theory RegexpRange
  imports RegexpGood
begin

text \<open>
  The ranges of the byte code: the pairs that \<open>re_emit_range\<close> writes for the points of a character range, and the binary search
  of \<open>REOP_range\<close> and \<open>REOP_range32\<close>, decide whether a character is in the set.
\<close>

subsection \<open>The search\<close>

text \<open>Disjoint pairs in ascending order.\<close>

definition disjoint_pairs :: "(u32 \<times> u32) list \<Rightarrow> bool" where
  "disjoint_pairs ls \<longleftrightarrow> sorted_wrt (\<lambda>a b. snd a < fst b) ls \<and> (\<forall>x \<in> set ls. fst x \<le> snd x)"

definition between :: "(u32 \<times> u32) list \<Rightarrow> nat \<Rightarrow> u32 \<Rightarrow> bool" where
  "between ls i c \<longleftrightarrow> fst (ls ! i) \<le> c \<and> c \<le> snd (ls ! i)"

lemma pair_above:
  assumes "disjoint_pairs ls" "i \<le> j" "j < length ls" "c < fst (ls ! i)"
  shows "\<not> between ls j c"
proof (cases "i = j")
  case False
  then have "snd (ls ! i) < fst (ls ! j)" using assms by (simp add: disjoint_pairs_def sorted_wrt_iff_nth_less)
  moreover have "fst (ls ! i) \<le> snd (ls ! i)" using assms nth_mem [of i ls] by (auto simp: disjoint_pairs_def)
  ultimately show ?thesis using assms(4) by (auto simp: between_def)
qed (use assms in \<open>auto simp: between_def\<close>)

lemma pair_below:
  assumes "disjoint_pairs ls" "j \<le> i" "i < length ls" "snd (ls ! i) < c"
  shows "\<not> between ls j c"
proof (cases "i = j")
  case False
  then have "snd (ls ! j) < fst (ls ! i)" using assms by (simp add: disjoint_pairs_def sorted_wrt_iff_nth_less)
  moreover have "fst (ls ! i) \<le> snd (ls ! i)" using assms nth_mem [of i ls] by (auto simp: disjoint_pairs_def)
  ultimately show ?thesis using assms(4) by (auto simp: between_def)
qed (use assms in \<open>auto simp: between_def\<close>)

lemma range_search_finds:
  assumes ls: "disjoint_pairs ls" "\<And>i. i < length ls \<Longrightarrow> pair i = Some (ls ! i)" "fst (ls ! 0) \<le> c"
  shows "idx_max < length ls \<Longrightarrow> range_search pair c idx_min idx_max = Some (\<exists>i. idx_min \<le> i \<and> i \<le> idx_max \<and> between ls i c)"
proof (induction "Suc idx_max - idx_min" arbitrary: idx_min idx_max rule: less_induct)
  case less
  show ?case
  proof (cases "idx_min \<le> idx_max")
    case False
    then show ?thesis by (subst range_search.simps) simp
  next
    case True
    define idx where "idx = (idx_min + idx_max) div 2"
    have i: "idx_min \<le> idx" "idx \<le> idx_max" "idx < length ls" using True less.prems by (auto simp: idx_def)
    obtain lo hi where p: "ls ! idx = (lo, hi)" by fastforce
    have step: "range_search pair c idx_min idx_max =
        (if c < lo then if idx = 0 then None else range_search pair c idx_min (idx - 1)
         else if c > hi then range_search pair c (idx + 1) idx_max else Some True)"
      using True ls(2) [OF i(3)] p by (subst range_search.simps) (simp add: idx_def Let_def)
    consider "c < lo" | "\<not> c < lo" "c > hi" | "\<not> c < lo" "\<not> c > hi" by blast
    then show ?thesis
    proof cases
      case 1
      then have "idx \<noteq> 0" using ls(3) p by (cases idx) auto
      then have "range_search pair c idx_min (idx - 1) = Some (\<exists>i. idx_min \<le> i \<and> i \<le> idx - 1 \<and> between ls i c)"
        using i True by (intro less.hyps) auto
      moreover have "\<not> between ls j c" if "idx \<le> j" "j \<le> idx_max" for j using pair_above [OF ls(1) that(1)] that 1 p less.prems by simp
      then have "j \<le> idx - 1 \<and> between ls j c \<longleftrightarrow> j \<le> idx_max \<and> between ls j c" for j using i \<open>idx \<noteq> 0\<close> by (cases "idx \<le> j") auto
      ultimately show ?thesis using step 1 \<open>idx \<noteq> 0\<close> by simp
    next
      case 2
      then have "range_search pair c (idx + 1) idx_max = Some (\<exists>i. idx + 1 \<le> i \<and> i \<le> idx_max \<and> between ls i c)"
        using i True less.prems by (intro less.hyps) auto
      moreover have "\<not> between ls j c" if "j \<le> idx" for j using pair_below [OF ls(1) that] i 2 p by simp
      then have "idx + 1 \<le> j \<and> j \<le> idx_max \<and> between ls j c \<longleftrightarrow> idx_min \<le> j \<and> j \<le> idx_max \<and> between ls j c" for j
        using i by (cases "j \<le> idx") auto
      ultimately show ?thesis using step 2 by simp
    next
      case 3
      then have "between ls idx c" using p by (simp add: between_def not_less)
      then show ?thesis using step 3 i by auto
    qed
  qed
qed

subsection \<open>The points of a range\<close>

fun pairs_of :: "u32 list \<Rightarrow> (u32 \<times> u32) list" where
  "pairs_of (p0 # p1 # ps) = (p0, p1 - 1) # pairs_of ps"
| "pairs_of ps = []"

lemma length_pairs_of: "length (pairs_of ps) = length ps div 2"
  by (induction ps rule: pairs_of.induct) auto

lemma ascending_Cons2: "ascending (p0 # p1 # ps) \<longleftrightarrow> p0 < p1 \<and> (\<forall>p\<in>set ps. p1 < p) \<and> ascending ps"
  by (auto simp: ascending_def)

lemma pred_u32: "(a :: u32) < b \<Longrightarrow> c \<le> b - 1 \<longleftrightarrow> c < b" "a < b \<Longrightarrow> a \<le> b - 1" "a < b \<Longrightarrow> b - 1 < b"
  by (unat_arith)+

lemma pairs_of_in_range: "ascending ps \<Longrightarrow> in_range ps c \<longleftrightarrow> (\<exists>i<length (pairs_of ps). between (pairs_of ps) i c)"
proof (induction ps rule: pairs_of.induct)
  case (1 p0 p1 ps)
  then have a: "p0 < p1" "\<forall>p\<in>set ps. p1 < p" "ascending ps" by (auto simp: ascending_Cons2)
  have above: "\<not> in_range ps c" if "c < p1" using in_range_above [of ps c] a(2) that by fastforce
  have "(\<exists>i<length (pairs_of (p0 # p1 # ps)). between (pairs_of (p0 # p1 # ps)) i c) \<longleftrightarrow>
      p0 \<le> c \<and> c < p1 \<or> (\<exists>i<length (pairs_of ps). between (pairs_of ps) i c)"
    by (simp add: Ex_less_Suc2 between_def pred_u32(1) [OF a(1)])
  also have "\<dots> \<longleftrightarrow> p0 \<le> c \<and> c < p1 \<or> in_range ps c" using 1 a(3) by simp
  finally show ?case using above a(1) by (cases "c < p1"; cases "p0 \<le> c") auto
qed (auto simp: ascending_def)


lemma disjoint_pairs_of: "ascending ps \<Longrightarrow> disjoint_pairs (pairs_of ps)"
proof (induction ps rule: pairs_of.induct)
  case (1 p0 p1 ps)
  then have a: "p0 < p1" "\<forall>p\<in>set ps. p1 < p" "ascending ps" by (auto simp: ascending_Cons2)
  have "fst ` set (pairs_of qs) \<subseteq> set qs" for qs by (induction qs rule: pairs_of.induct) auto
  then have "p1 - 1 < fst x" if "x \<in> set (pairs_of ps)" for x using a(2) pred_u32(3) [OF a(1)] that by fastforce
  with 1 a show ?case using pred_u32(2) [OF a(1)] by (auto simp: disjoint_pairs_def)
qed (simp_all add: disjoint_pairs_def)

lemma range_test_finds:
  assumes ls: "disjoint_pairs ls" "\<And>i. i < length ls \<Longrightarrow> pair i = Some (ls ! i)" "ls \<noteq> []" and c: "open_end \<longrightarrow> c \<le> 0xffff"
  shows "range_test pair open_end (length ls) c = Some (\<exists>i<length ls. between ls i c)"
proof -
  let ?n = "length ls - 1"
  have n: "0 < length ls" "?n < length ls" using ls(3) by auto
  obtain lo hi where p: "ls ! 0 = (lo, hi)" by fastforce
  obtain lo' hi' where q: "ls ! ?n = (lo', hi')" by fastforce
  have step: "range_test pair open_end (length ls) c =
      (if c < lo then Some False else if open_end \<and> c \<ge> 0xffff \<and> hi' = 0xffff then Some True
       else if c > hi' then Some False else range_search pair c 0 ?n)"
    using ls(2) [OF n(1)] ls(2) [OF n(2)] ls(3) p q by (simp add: range_test_def)
  consider "c < lo" | "\<not> c < lo" "open_end \<and> c \<ge> 0xffff \<and> hi' = 0xffff" | "\<not> c < lo" "\<not> (open_end \<and> c \<ge> 0xffff \<and> hi' = 0xffff)" "c > hi'"
    | "\<not> c < lo" "\<not> (open_end \<and> c \<ge> 0xffff \<and> hi' = 0xffff)" "\<not> c > hi'" by blast
  then show ?thesis
  proof cases
    case 1
    then show ?thesis using step pair_above [OF ls(1), of 0] p by auto
  next
    case 2
    have "lo' \<le> hi'" using ls(1) nth_mem [OF n(2)] q by (fastforce simp: disjoint_pairs_def)
    moreover have "c = 0xffff" using 2 c by auto
    ultimately have "between ls ?n c" using q 2 by (simp add: between_def)
    then have "\<exists>i<length ls. between ls i c" using n(2) by blast
    then show ?thesis using step 2 by simp
  next
    case 3
    then have "\<not> between ls i c" if "i < length ls" for i using pair_below [OF ls(1), of i ?n] that n(2) q by auto
    then show ?thesis using step 3 by auto
  next
    case 4
    then have "range_search pair c 0 ?n = Some (\<exists>i. 0 \<le> i \<and> i \<le> ?n \<and> between ls i c)"
      using p n by (intro range_search_finds [OF ls(1,2)]) auto
    moreover have "i \<le> ?n \<longleftrightarrow> i < length ls" for i using n by linarith
    ultimately show ?thesis using step 4 by auto
  qed
qed

subsection \<open>The pairs in the code\<close>

definition pairs16_of :: "u32 list \<Rightarrow> (u32 \<times> u32) list" where
  "pairs16_of ps = map (\<lambda>(lo, hi). (lo, if hi = 0xfffffffe then 0xffff else hi)) (pairs_of ps)"

lemma low16: "(x :: u32) \<le> 0xffff \<Longrightarrow> ucast (ucast x :: u16) = x"
proof -
  assume "x \<le> 0xffff"
  then have "uint x \<le> 0xffff" by (simp add: word_le_def)
  then have "take_bit 16 (uint x) = uint x" by (simp add: take_bit_int_eq_self)
  then show ?thesis by (simp add: word_uint_eq_iff unsigned_ucast_eq unsigned_take_bit_eq)
qed

lemma pair32_code: "code_at ctx q (range_pairs32 ps) \<Longrightarrow> i < length (pairs_of ps) \<Longrightarrow> pair32 ctx q i = Some (pairs_of ps ! i)"
proof (induction ps arbitrary: q i rule: pairs_of.induct)
  case (1 p0 p1 ps)
  then have c: "u32_at ctx q = Some p0" "u32_at ctx (q + 4) = Some (p1 - 1)" "code_at ctx (q + 8) (range_pairs32 ps)"
    by (simp_all add: code_at_append u32_at_code add.assoc del: le_bytes_numeral)
  show ?case
  proof (cases i)
    case (Suc j)
    then have "pair32 ctx (q + 8) j = Some (pairs_of ps ! j)" using 1 c(3) by simp
    then show ?thesis using Suc by (simp add: pair32_def ac_simps)
  qed (use c in \<open>simp add: pair32_def\<close>)
qed simp_all

lemma pair16_code:
  "code_at ctx q (range_pairs16 ps) \<Longrightarrow> \<forall>(lo, hi) \<in> set (pairs_of ps). lo \<le> 0xffff \<and> (hi = 0xfffffffe \<or> hi \<le> 0xffff) \<Longrightarrow>
   i < length (pairs_of ps) \<Longrightarrow> pair16 ctx q i = Some (pairs16_of ps ! i)"
proof (induction ps arbitrary: q i rule: pairs_of.induct)
  case (1 p0 p1 ps)
  let ?hi = "if p1 - 1 = 0xfffffffe then 0xffff else p1 - 1"
  have c: "u16_at ctx q = Some (ucast (ucast p0 :: u16))" "u16_at ctx (q + 2) = Some (ucast (ucast ?hi :: u16))" "code_at ctx (q + 4) (range_pairs16 ps)"
    using 1(2) by (simp_all add: code_at_append u16_at_code add.assoc numeral_eq_Suc del: le_bytes_numeral)
  have "p0 \<le> 0xffff" "?hi \<le> 0xffff" using 1(3) by auto
  note c = c [unfolded this [THEN low16]]
  show ?case
  proof (cases i)
    case (Suc j)
    then have "pair16 ctx (q + 4) j = Some (pairs16_of ps ! j)" using 1 c(3) by simp
    then show ?thesis using Suc by (simp add: pair16_def pairs16_of_def ac_simps)
  qed (use c in \<open>simp add: pair16_def pairs16_of_def\<close>)
qed simp_all


lemma range_pairs_length: "length (range_pairs16 ps) = 4 * (length ps div 2)" "length (range_pairs32 ps) = 8 * (length ps div 2)"
  by (induction ps rule: pairs_of.induct) auto

lemma get_u16_bytes:
  assumes "n < 65536"
  shows "get_u16 (le_bytes 2 (ucast (of_nat n :: u32) :: u16) @ rest) = Some (of_nat n)"
proof -
  let ?v = "ucast (of_nat n :: u32) :: u16"
  have "get_le 2 (le_bytes 2 ?v @ rest) = Some ?v" by (rule get_le_take) (simp_all del: le_bytes_numeral)
  moreover have "(of_nat n :: u32) \<le> 0xffff" using assms by (simp add: word_le_nat_alt unat_of_nat take_bit_nat_eq_self)
  ultimately show ?thesis by (simp add: get_u16_def low16 del: le_bytes_numeral)
qed

lemma instr_range:
  assumes "length ps div 2 < 65536"
  shows "instr REOP_range (re_emit_op_u16 REOP_range (of_nat (length ps div 2)) @ range_pairs16 ps)"
    and "instr REOP_range32 (re_emit_op_u16 REOP_range32 (of_nat (length ps div 2)) @ range_pairs32 ps)"
proof -
  have "unat (of_nat (length ps div 2) :: u32) = length ps div 2" using assms by (simp add: unat_of_nat take_bit_nat_eq_self)
  then show "instr REOP_range (re_emit_op_u16 REOP_range (of_nat (length ps div 2)) @ range_pairs16 ps)"
    "instr REOP_range32 (re_emit_op_u16 REOP_range32 (of_nat (length ps div 2)) @ range_pairs32 ps)"
    unfolding instr_def
    by (auto simp: re_emit_op_u16_def instr_len_def cut_short_def rd_eq reop_table_def range_pairs_length get_u16_bytes [OF assms]
        simp del: le_bytes_numeral)
qed

subsection \<open>Classes are good code\<close>

lemma GET_CHAR_narrow: "cbuf_type ctx \<noteq> 2 \<Longrightarrow> GET_CHAR ctx c e = Some (x, c') \<Longrightarrow> x \<le> 0xffff"
proof -
  assume "cbuf_type ctx \<noteq> 2" "GET_CHAR ctx c e = Some (x, c')"
  then obtain u :: u16 where "x = ucast u" by (auto simp: GET_CHAR_def unit_at_def bind_eq_Some_conv split: if_splits)
  moreover have "uint u < 2 ^ 16" using uint_lt2p [of u] by simp
  moreover from this have "take_bit 32 (uint u) = uint u" by (intro take_bit_int_eq_self) simp_all
  ultimately show ?thesis by (simp add: word_le_def unsigned_ucast_eq)
qed

lemma test_char_class:
  assumes "\<not> ignore_case ctx" "cbuf_type ctx \<noteq> 2" "\<And>x. x \<le> 0xffff \<Longrightarrow> ok x = Some (P x)"
  shows "test_char ctx (folded ctx ok) q c = Some (case one_char ctx P c of None \<Rightarrow> Reject | Some c' \<Rightarrow> Accept q c')"
proof (cases "c < length (cbuf ctx)")
  case True
  then obtain x c' where "GET_CHAR ctx c (length (cbuf ctx)) = Some (x, c')" using GET_CHAR_total by blast
  moreover from this have "ok x = Some (P x)" by (intro assms(3) GET_CHAR_narrow [OF assms(2)])
  ultimately show ?thesis using True assms(1) by (simp add: test_char_def folded_def fold_char_def one_char_def accept_if_def)
qed (simp add: test_char_def one_char_def)

lemma one_char_cong: "cbuf_type ctx \<noteq> 2 \<Longrightarrow> (\<And>x. x \<le> 0xffff \<Longrightarrow> P x = Q x) \<Longrightarrow> one_char ctx P c = one_char ctx Q c"
  by (auto simp: one_char_def dest!: GET_CHAR_narrow split: option.splits)

lemma pairs16:
  assumes "ascending ps" "\<forall>x\<in>set (pairs_of ps). fst x \<le> 0xffff"
  shows "disjoint_pairs (pairs16_of ps)" "c \<le> 0xffff \<Longrightarrow> i < length (pairs_of ps) \<Longrightarrow> between (pairs16_of ps) i c = between (pairs_of ps) i c"
proof -
  let ?f = "\<lambda>(lo, hi). (lo, if hi = 0xfffffffe then 0xffff else hi) :: u32 \<times> u32"
  have d: "disjoint_pairs (pairs_of ps)" by (rule disjoint_pairs_of [OF assms(1)])
  have "sorted_wrt (\<lambda>a b. snd (?f a) < fst (?f b)) (pairs_of ps)"
  proof (rule sorted_wrt_mono_rel)
    show "sorted_wrt (\<lambda>a b. snd a < fst b) (pairs_of ps)" using d by (simp add: disjoint_pairs_def)
    fix a b assume "a \<in> set (pairs_of ps)" "b \<in> set (pairs_of ps)" "snd a < fst b"
    moreover from this have "snd a < 0xffff" using assms(2) by (auto intro: less_le_trans)
    then have "snd a \<noteq> 0xfffffffe" by auto
    ultimately show "snd (?f a) < fst (?f b)" by (simp add: case_prod_beta)
  qed
  moreover have "fst (?f x) \<le> snd (?f x)" if "x \<in> set (pairs_of ps)" for x
    using d assms(2) that by (simp add: disjoint_pairs_def case_prod_beta)
  ultimately show "disjoint_pairs (pairs16_of ps)" by (auto simp: disjoint_pairs_def pairs16_of_def sorted_wrt_map)
  show "between (pairs16_of ps) i c = between (pairs_of ps) i c" if "c \<le> 0xffff" "i < length (pairs_of ps)"
  proof -
    have "c \<le> 0xfffffffe" by (rule order_trans [OF that(1)]) simp
    with that show ?thesis by (cases "pairs_of ps ! i") (auto simp: between_def pairs16_of_def)
  qed
qed

lemma pairs_of_nth: "i < length ps div 2 \<Longrightarrow> pairs_of ps ! i = (ps ! (2 * i), ps ! (2 * i + 1) - 1)"
proof (induction ps arbitrary: i rule: pairs_of.induct)
  case (1 p0 p1 ps)
  then show ?case by (cases i) auto
qed simp_all

lemma ascending_nth: "ascending ps \<Longrightarrow> i < j \<Longrightarrow> j < length ps \<Longrightarrow> ps ! i < ps ! j"
  by (simp add: ascending_def sorted_wrt_iff_nth_less)

lemma low_pairs:
  assumes "ascending ps" "0 < length ps div 2"
    and "(if ps ! (length ps - 1) = -1 then ps ! (length ps - 2) else ps ! (length ps - 1)) \<le> 0xffff"
  shows "\<forall>(lo, hi) \<in> set (pairs_of ps). lo \<le> 0xffff \<and> (hi = 0xfffffffe \<or> hi \<le> 0xffff)"
proof -
  let ?n = "length ps" let ?h = "if ps ! (?n - 1) = -1 then ps ! (?n - 2) else ps ! (?n - 1)"
  have n: "even ?n" "2 \<le> ?n" using assms(1,2) by (auto simp: ascending_def)
  have last: "ps ! j = -1 \<or> ps ! j \<le> ?h" if jn: "j < ?n" for j
  proof -
    have m: "ps ! i \<le> ps ! k" if "i \<le> k" "k < ?n" for i k using ascending_nth [OF assms(1), of i k] that by (cases "i = k") auto
    consider "j \<le> ?n - 2" | "j = ?n - 1" using jn by linarith
    then show ?thesis
    proof cases
      case 1
      then have "ps ! j \<le> ps ! (?n - 2)" "ps ! j \<le> ps ! (?n - 1)" using m [of j "?n - 2"] m [of j "?n - 1"] n(2) by linarith+
      then show ?thesis by simp
    qed simp
  qed
  have "ps ! (2 * i) \<le> 0xffff \<and> (ps ! (2 * i + 1) - 1 = 0xfffffffe \<or> ps ! (2 * i + 1) - 1 \<le> 0xffff)" if i: "i < ?n div 2" for i
  proof -
    have a: "ps ! (2 * i) < ps ! (2 * i + 1)" using i by (intro ascending_nth [OF assms(1)]) auto
    have "2 * i < ?n" "2 * i + 1 < ?n" using i by auto
    then have l: "ps ! (2 * i) \<le> ?h" "ps ! (2 * i + 1) = -1 \<or> ps ! (2 * i + 1) \<le> ?h"
      using last [of "2 * i"] last [of "2 * i + 1"] a by (auto simp: not_less [symmetric])
    from l(1) assms(3) have "ps ! (2 * i) \<le> 0xffff" by (rule order_trans)
    moreover have "ps ! (2 * i + 1) - 1 = 0xfffffffe \<or> ps ! (2 * i + 1) - 1 \<le> 0xffff"
      using l(2)
    proof
      assume "ps ! (2 * i + 1) \<le> ?h"
      then have "ps ! (2 * i + 1) \<le> 0xffff" using assms(3) by (rule order_trans)
      then show ?thesis using pred_u32(3) [OF a] by (meson less_imp_le order_trans)
    qed simp
    ultimately show ?thesis by blast
  qed
  then show ?thesis by (fastforce simp: in_set_conv_nth length_pairs_of pairs_of_nth)
qed

lemma good_class:
  assumes i: "\<not> ignore_case ctx" "cbuf_type ctx \<noteq> 2" and e: "re_emit_range ps = Some code" and a: "ascending ps"
  shows "good ctx code (atom (one_char ctx (in_range ps)))"
proof -
  let ?n = "length ps div 2"
  have n: "?n < 65535" using e by (auto simp: re_emit_range_def Let_def split: if_splits)
  have in_range: "in_range ps c \<longleftrightarrow> (\<exists>i<length (pairs_of ps). between (pairs_of ps) i c)" for c by (rule pairs_of_in_range [OF a])
  have un: "unat (of_nat ?n :: u32) = ?n" using n by (simp add: unat_of_nat take_bit_nat_eq_self)
  have le: "(of_nat ?n :: u32) \<le> 0xffff" using n un by (simp add: word_le_nat_alt)
  have one: "c' = c + 1 \<and> c' \<le> length (cbuf ctx)" if "one_char ctx P c = Some c'" for P c c'
    using one_char_step [OF i(2) that] one_char_bounds [OF that] by simp
  consider "?n = 0" "code = re_emit_op_u32 REOP_char32 (-1)"
    | "0 < ?n" "(if ps ! (length ps - 1) = -1 then ps ! (length ps - 2) else ps ! (length ps - 1)) \<le> 0xffff"
        "code = re_emit_op_u16 REOP_range (of_nat ?n) @ range_pairs16 ps"
    | "0 < ?n" "code = re_emit_op_u16 REOP_range32 (of_nat ?n) @ range_pairs32 ps"
    using e by (auto simp: re_emit_range_def Let_def split: if_splits)
  then show ?thesis
  proof cases
    case 1
    then have "ps = []" using a by (cases ps rule: pairs_of.cases) (auto simp: ascending_def)
    moreover have "\<not> (-1 :: u32) \<le> 0xffff" by (simp add: word_le_def unsigned_minus_1_eq_mask mask_eq_exp_minus_1)
    ultimately have "one_char ctx (in_range ps) = one_char ctx (\<lambda>x. x = -1)" by (intro ext one_char_cong [OF i(2)]) auto
    moreover have "good ctx code (atom (one_char ctx (\<lambda>x. x = -1)))"
      unfolding 1(2)
    proof (rule good_op [of REOP_char32])
      fix p c assume "code_at ctx p (re_emit_op_u32 REOP_char32 (-1))" "c \<le> length (cbuf ctx)"
      then show "simple_op ctx REOP_char32 (p + 1) c = Some (case one_char ctx (\<lambda>x. x = -1) c of None \<Rightarrow> Reject
          | Some c' \<Rightarrow> Accept (p + length (re_emit_op_u32 REOP_char32 (-1))) c')"
        using simple_op_atoms(2) [OF i(1), of c "p + 1" "-1"] code_at_op_u32 by (simp split: option.split)
    qed (use one in \<open>auto simp: instr_emit is_simple_op_def is_char_op_def\<close>)
    ultimately show ?thesis by simp
  next
    case 2
    note low = low_pairs [OF a 2(1,2)]
    then have low': "\<forall>x\<in>set (pairs_of ps). fst x \<le> 0xffff" by auto
    note P = pairs16 [OF a low']
    have len: "length (pairs16_of ps) = ?n" by (simp add: pairs16_of_def length_pairs_of)
    show ?thesis
    proof (rule good_op [of REOP_range])
      show "instr REOP_range code" unfolding 2(3) using n by (intro instr_range) simp
      fix p c assume c: "code_at ctx p code" "c \<le> length (cbuf ctx)"
      then have cc: "u16_at ctx (p + 1) = Some (of_nat ?n)" "code_at ctx (p + 3) (range_pairs16 ps)"
        using code_at_op_u16 [of ctx p REOP_range "of_nat ?n"] low16 [OF le] unfolding 2(3) code_at_append by simp_all
      have "range_test (pair16 ctx (p + 1 + 2)) True ?n x = Some (in_range ps x)" if "x \<le> 0xffff" for x
      proof -
        have "range_test (pair16 ctx (p + 3)) True (length (pairs16_of ps)) x = Some (\<exists>i<length (pairs16_of ps). between (pairs16_of ps) i x)"
          by (rule range_test_finds [OF P(1)]) (use pair16_code [OF cc(2) low] len 2(1) that in \<open>auto simp: length_pairs_of\<close>)
        moreover have e3: "p + 1 + 2 = p + 3" by simp
        ultimately show ?thesis using P(2) [OF that] unfolding in_range len length_pairs_of e3 by auto
      qed
      then show "simple_op ctx REOP_range (p + 1) c = Some (case one_char ctx (in_range ps) c of None \<Rightarrow> Reject | Some c' \<Rightarrow> Accept (p + length code) c')"
        using cc(1) test_char_class [OF i, of "range_test (pair16 ctx (p + 1 + 2)) True ?n" "in_range ps"] un
        by (simp add: simple_op_def 2(3) range_pairs_length add.assoc split: option.split)
    qed (use one in \<open>auto simp: is_simple_op_def is_char_op_def\<close>)
  next
    case 3
    have len: "length (pairs_of ps) = ?n" by (simp add: length_pairs_of)
    show ?thesis
    proof (rule good_op [of REOP_range32])
      show "instr REOP_range32 code" unfolding 3(2) using n by (intro instr_range) simp
      fix p c assume c: "code_at ctx p code" "c \<le> length (cbuf ctx)"
      then have cc: "u16_at ctx (p + 1) = Some (of_nat ?n)" "code_at ctx (p + 3) (range_pairs32 ps)"
        using code_at_op_u16 [of ctx p REOP_range32 "of_nat ?n"] low16 [OF le] unfolding 3(2) code_at_append by simp_all
      have "range_test (pair32 ctx (p + 1 + 2)) False ?n x = Some (in_range ps x)" for x
      proof -
        have "range_test (pair32 ctx (p + 3)) False (length (pairs_of ps)) x = Some (\<exists>i<length (pairs_of ps). between (pairs_of ps) i x)"
          by (rule range_test_finds [OF disjoint_pairs_of [OF a]]) (use pair32_code [OF cc(2)] len 3(1) in auto)
        moreover have e3: "p + 1 + 2 = p + 3" by simp
        ultimately show ?thesis unfolding in_range len e3 by auto
      qed
      then show "simple_op ctx REOP_range32 (p + 1) c = Some (case one_char ctx (in_range ps) c of None \<Rightarrow> Reject | Some c' \<Rightarrow> Accept (p + length code) c')"
        using cc(1) test_char_class [OF i, of "range_test (pair32 ctx (p + 1 + 2)) False ?n" "in_range ps"] un
        by (simp add: simple_op_def 3(2) range_pairs_length add.assoc split: option.split)
    qed (use one in \<open>auto simp: is_simple_op_def is_char_op_def\<close>)
  qed
qed

end
