(* ===== verification/RegexpCompile.thy ===== *)
theory RegexpCompile
  imports RegexpQuant RegexpRange
begin

text \<open>
  The results of a pattern, in the order in which backtracking finds them, and the theorem that the code of \<open>lre_compile\<close>, run by
  \<open>lre_exec\<close>, returns the first of them.
\<close>

subsection \<open>Results of patterns\<close>

fun caps :: "regex \<Rightarrow> nat" where
  "caps (RSeq a b) = caps a + caps b"
| "caps (RAlt a b) = caps a + caps b"
| "caps (RGroup a) = Suc (caps a)"
| "caps (RLook neg a) = caps a"
| "caps (RQuant a quant_min quant_max greedy) = caps a"
| "caps _ = 0"

fun den :: "re_ctx \<Rightarrow> bool \<Rightarrow> regex \<Rightarrow> nat \<Rightarrow> re_result \<Rightarrow> re_result list" where
  "den ctx dotall (RChar c) cc = atom (one_char ctx (\<lambda>x. x = c))"
| "den ctx dotall (RClass ps) cc = atom (one_char ctx (in_range ps))"
| "den ctx dotall RDot cc = atom (one_char ctx (\<lambda>x. dotall \<or> \<not> is_line_terminator x))"
| "den ctx dotall RLineStart cc = atom (test_at (line_start_at ctx))"
| "den ctx dotall RLineEnd cc = atom (test_at (line_end_at ctx))"
| "den ctx dotall (RWordBoundary neg) cc = atom (test_at (\<lambda>c. word_boundary_at ctx c \<noteq> neg))"
| "den ctx dotall (RBackRef n) cc = (\<lambda>s. [])"
| "den ctx dotall REmpty cc = (\<lambda>s. [s])"
| "den ctx dotall (RSeq a b) cc = then_do (den ctx dotall a cc) (den ctx dotall b (cc + caps a))"
| "den ctx dotall (RAlt a b) cc = either True (den ctx dotall a cc) (den ctx dotall b (cc + caps a))"
| "den ctx dotall (RGroup a) cc = captured cc (den ctx dotall a (Suc cc))"
| "den ctx dotall (RLook neg a) cc = look_at neg (den ctx dotall a cc)"
| "den ctx dotall (RQuant a quant_min quant_max greedy) cc =
     quantified ctx quant_min quant_max greedy cc (cc + caps a) (den ctx dotall a cc)"

text \<open>Every match of the pattern takes a character.\<close>

fun consumes :: "regex \<Rightarrow> bool" where
  "consumes (RChar c) = True"
| "consumes (RClass ps) = True"
| "consumes RDot = True"
| "consumes (RSeq a b) = (consumes a \<or> consumes b)"
| "consumes (RAlt a b) = (consumes a \<and> consumes b)"
| "consumes (RGroup a) = consumes a"
| "consumes (RQuant a quant_min quant_max greedy) = (0 < quant_min \<and> consumes a)"
| "consumes _ = False"

text \<open>
  The patterns of the theorem: no back references, counts as the parser bounds them, classes in order, and no lazy repetition without bound
  of something that can be empty.
\<close>

fun plain :: "regex \<Rightarrow> bool" where
  "plain (RBackRef n) = False"
| "plain (RClass ps) = ascending ps"
| "plain (RSeq a b) = (plain a \<and> plain b)"
| "plain (RAlt a b) = (plain a \<and> plain b)"
| "plain (RGroup a) = plain a"
| "plain (RLook neg a) = plain a"
| "plain (RQuant a quant_min quant_max greedy) =
     (plain a \<and> quant_min \<le> quant_max \<and> quant_max \<le> INT32_MAX \<and> (\<not> greedy \<longrightarrow> quant_max = INT32_MAX \<longrightarrow> consumes a))"
| "plain _ = True"

lemma emit_caps: "emit opts e start cc = Some (code, cc') \<Longrightarrow> cc' = cc + caps e"
  by (induction e arbitrary: start cc code cc') (auto simp: bind_eq_Some_conv split: if_splits; fastforce)+

lemma emit_le: "emit opts e start cc = Some (code, cc') \<Longrightarrow> cc \<le> 255 \<Longrightarrow> cc' \<le> 255"
  by (induction e arbitrary: start cc code cc') (fastforce simp: bind_eq_Some_conv split: if_splits)+

lemma fwd_one_char: "fwd ctx (atom (one_char ctx P))"
  by (rule fwd_atom) (auto dest: one_char_bounds)

lemma advances_one_char: "advances ctx (atom (one_char ctx P))"
  unfolding advances_def by (auto simp: atom_def dest: one_char_bounds [OF sym] split: option.splits)

lemma fwd_test_at: "fwd ctx (atom (test_at P))"
  by (rule fwd_atom) (auto simp: test_at_def split: if_splits)

lemma fwd_repeated: "fwd ctx f \<Longrightarrow> fwd ctx (repeated ctx quant_min quant_max greedy f)"
  by (simp add: repeated_def fwd_then fwd_exactly fwd_star fwd_upto)

lemma fwd_quantified: "fwd ctx f \<Longrightarrow> fwd ctx (quantified ctx quant_min quant_max greedy cc0 cc f)"
  by (simp add: quantified_def fwd_then fwd_repeated fwd_reset fwd_id)

lemma fwd_den: "fwd ctx (den ctx dotall e cc)"
proof (induction e arbitrary: cc)
  case (RBackRef n)
  show ?case by (simp add: fwd_def)
qed (simp_all add: fwd_one_char fwd_test_at fwd_id fwd_then fwd_either fwd_captured fwd_look fwd_quantified)

lemma advances_either:
  assumes "advances ctx f" "advances ctx g"
  shows "advances ctx (either b f g)"
  using advancesD [OF assms(1)] advancesD [OF assms(2)] unfolding advances_def either_def set_order by blast

lemma consumes_advances: "consumes e \<Longrightarrow> advances ctx (den ctx dotall e cc)"
proof (induction e arbitrary: cc)
  case (RQuant a quant_min quant_max greedy)
  then have "advances ctx (exactly quant_min (den ctx dotall a cc))" by (auto intro: advances_exactly fwd_den)
  then show ?case using RQuant.prems
    by (auto simp: quantified_def repeated_def intro!: advances_then fwd_exactly fwd_star fwd_upto fwd_den)
qed (auto simp: advances_one_char intro!: advances_then advances_either advances_captured fwd_den)

subsection \<open>Code of patterns\<close>

lemma good_tests:
  assumes "\<not> ignore_case ctx" "cbuf_type ctx \<noteq> 2"
  shows "good ctx (re_emit_op REOP_dot) (atom (one_char ctx (\<lambda>x. \<not> is_line_terminator x)))"
    and "good ctx (re_emit_op REOP_any) (atom (one_char ctx (\<lambda>x. True)))"
    and "good ctx (re_emit_op REOP_line_start) (atom (test_at (line_start_at ctx)))"
    and "good ctx (re_emit_op REOP_line_end) (atom (test_at (line_end_at ctx)))"
    and "good ctx (re_emit_op REOP_word_boundary) (atom (test_at (word_boundary_at ctx)))"
    and "good ctx (re_emit_op REOP_not_word_boundary) (atom (test_at (\<lambda>c. \<not> word_boundary_at ctx c)))"
proof -
  have one: "c' = c + 1 \<and> c' \<le> length (cbuf ctx)" if "one_char ctx P c = Some c'" for P c c'
    using one_char_step [OF assms(2) that] one_char_bounds [OF that] by simp
  have h: "c' = c" if "test_at P c = Some c'" for P and c c' using that by (simp add: test_at_def split: if_splits)
  note S = simple_op_atoms [OF assms(1)]
  show "good ctx (re_emit_op REOP_dot) (atom (one_char ctx (\<lambda>x. \<not> is_line_terminator x)))"
    by (rule good_op [OF instr_emit(1)]) (use one S(3) in \<open>auto simp: is_simple_op_def is_char_op_def split: option.split\<close>)
  show "good ctx (re_emit_op REOP_any) (atom (one_char ctx (\<lambda>x. True)))"
    by (rule good_op [OF instr_emit(1)]) (use one S(4) in \<open>auto simp: is_simple_op_def is_char_op_def split: option.split\<close>)
  show "good ctx (re_emit_op REOP_line_start) (atom (test_at (line_start_at ctx)))"
    by (rule good_op [OF instr_emit(1)]) (use S(5) in \<open>auto dest: h simp: is_simple_op_def is_char_op_def split: option.split\<close>)
  show "good ctx (re_emit_op REOP_line_end) (atom (test_at (line_end_at ctx)))"
    by (rule good_op [OF instr_emit(1)]) (use S(6) in \<open>auto dest: h simp: is_simple_op_def is_char_op_def split: option.split\<close>)
  show "good ctx (re_emit_op REOP_word_boundary) (atom (test_at (word_boundary_at ctx)))"
    by (rule good_op [OF instr_emit(1)]) (use S(7) in \<open>auto dest: h simp: is_simple_op_def is_char_op_def split: option.split\<close>)
  show "good ctx (re_emit_op REOP_not_word_boundary) (atom (test_at (\<lambda>c. \<not> word_boundary_at ctx c)))"
    by (rule good_op [OF instr_emit(1)]) (use S(8) in \<open>auto dest: h simp: is_simple_op_def is_char_op_def split: option.split\<close>)
qed

lemma good_char:
  assumes "\<not> ignore_case ctx" "cbuf_type ctx \<noteq> 2"
  shows "c \<le> 0xffff \<Longrightarrow> good ctx (re_emit_op_u16 REOP_char c) (atom (one_char ctx (\<lambda>x. x = c)))"
    and "good ctx (re_emit_op_u32 REOP_char32 c) (atom (one_char ctx (\<lambda>x. x = c)))"
proof -
  have one: "c' = c + 1 \<and> c' \<le> length (cbuf ctx)" if "one_char ctx P c = Some c'" for P c c'
    using one_char_step [OF assms(2) that] one_char_bounds [OF that] by simp
  note S = simple_op_atoms [OF assms(1)]
  show "good ctx (re_emit_op_u32 REOP_char32 c) (atom (one_char ctx (\<lambda>x. x = c)))"
    by (rule good_op [OF instr_emit(4)])
       (use one S(2) in \<open>auto dest!: code_at_op_u32 simp: is_simple_op_def is_char_op_def split: option.split\<close>)
  show "good ctx (re_emit_op_u16 REOP_char c) (atom (one_char ctx (\<lambda>x. x = c)))" if "c \<le> 0xffff"
    by (rule good_op [OF instr_emit(3)])
       (use one S(1) low16 [OF that] in \<open>auto dest!: code_at_op_u16 simp: is_simple_op_def is_char_op_def split: option.split\<close>)
qed

text \<open>The context of the theorem: no case folding, a subject of units that are characters.\<close>

definition narrow :: "re_ctx \<Rightarrow> bool" where
  "narrow ctx \<longleftrightarrow> \<not> ignore_case ctx \<and> cbuf_type ctx \<noteq> 2 \<and> length (cbuf ctx) < 2 ^ 64 \<and> capture_count ctx \<le> 255"

lemma emit_good:
  assumes ctx: "narrow ctx" and opts: "\<not> o_ignore_case opts"
  shows "emit opts e start cc = Some (code, cc') \<Longrightarrow> plain e \<Longrightarrow> start + length code < 2 ^ 30 \<Longrightarrow> cc' \<le> capture_count ctx \<Longrightarrow>
    good ctx code (den ctx (o_dotall opts) e cc) \<and> (caps e \<noteq> 0 \<longrightarrow> counts code None)"
proof (induction e arbitrary: start cc code cc')
  note C = ctx [unfolded narrow_def, THEN conjunct1] ctx [unfolded narrow_def, THEN conjunct2, THEN conjunct1]
  case (RChar c)
  then show ?case using good_char [OF C] opts by (auto simp: emit_char_def split: if_splits)
next
  case (RClass ps)
  then show ?case using good_class ctx opts by (auto simp: narrow_def emit_class_def bind_eq_Some_conv)
next
  case RDot
  then show ?case using good_tests(1,2) [of ctx] ctx by (auto simp: narrow_def)
next
  case RLineStart
  then show ?case using good_tests(3) [of ctx] ctx by (auto simp: narrow_def)
next
  case RLineEnd
  then show ?case using good_tests(4) [of ctx] ctx by (auto simp: narrow_def)
next
  case (RWordBoundary neg)
  then show ?case using good_tests(5,6) [of ctx] ctx by (cases neg) (auto simp: narrow_def)
next
  case (RBackRef n)
  then show ?case by simp
next
  case REmpty
  then show ?case using good_Nil by simp
next
  case (RSeq a b)
  from RSeq.prems(1) obtain ca cc1 cb where e: "emit opts a start cc = Some (ca, cc1)" "emit opts b (start + length ca) cc1 = Some (cb, cc')"
    "code = ca @ cb" by (auto simp: bind_eq_Some_conv)
  note k = emit_caps [OF e(1)] emit_caps [OF e(2)]
  have A: "good ctx ca (den ctx (o_dotall opts) a cc) \<and> (caps a \<noteq> 0 \<longrightarrow> counts ca None)"
    using RSeq.prems e k by (intro RSeq.IH(1) [OF e(1)]) auto
  have B: "good ctx cb (den ctx (o_dotall opts) b cc1) \<and> (caps b \<noteq> 0 \<longrightarrow> counts cb None)"
    using RSeq.prems e k by (intro RSeq.IH(2) [OF e(2)]) auto
  obtain ka where "counts ca ka" using goodD(4) [of ctx ca] A unfolding counted_def by blast
  then have "counts cb None \<Longrightarrow> counts (ca @ cb) None" using counts_append [of ca ka cb None] by (cases ka) auto
  then show ?case using A B good_append [of ctx ca _ cb] counts_none [of ca cb] k(1) e(3) by auto
next
  case (RAlt a b)
  from RAlt.prems(1) obtain ca cc1 cb where e: "emit opts a start cc = Some (ca, cc1)" "emit opts b (start + length ca + 10) cc1 = Some (cb, cc')"
    "code = emit_alternatives ca cb" by (auto simp: bind_eq_Some_conv)
  note k = emit_caps [OF e(1)] emit_caps [OF e(2)]
  have len: "length code = 10 + length ca + length cb" by (simp add: e(3) emit_alternatives_def)
  have A: "good ctx ca (den ctx (o_dotall opts) a cc)" using RAlt.prems e(1) k len by (intro conjunct1 [OF RAlt.IH(1) [OF e(1)]]) auto
  have B: "good ctx cb (den ctx (o_dotall opts) b cc1)" using RAlt.prems e(2) k len by (intro conjunct1 [OF RAlt.IH(2) [OF e(2)]]) auto
  have "counts code None"
    unfolding e(3) emit_alternatives_def by (rule counts_none) (use counts_instr [OF instr_emit(4) [of REOP_split_next_first]] in \<open>simp add: op_kinds\<close>)
  then show ?case using good_alternatives [OF A B] RAlt.prems(3) k(1) e(3) by simp
next
  case (RGroup a)
  from RGroup.prems(1) obtain ca where e: "cc < 255" "emit opts a (start + 2) (cc + 1) = Some (ca, cc')" "code = emit_capture cc ca"
    by (auto simp: bind_eq_Some_conv split: if_splits)
  note k = emit_caps [OF e(2)]
  have A: "good ctx ca (den ctx (o_dotall opts) a (cc + 1))"
    using RGroup.prems e k by (intro conjunct1 [OF RGroup.IH [OF e(2)]]) (auto simp: emit_capture_def)
  have "counts code None"
    unfolding e(3) emit_capture_def by (rule counts_none) (use counts_instr [OF instr_emit(2) [of REOP_save_start]] in \<open>simp add: op_kinds\<close>)
  then show ?case using good_capture [OF A, of cc] RGroup.prems(4) e k by simp
next
  case (RLook neg a)
  from RLook.prems(1) obtain ca where e: "emit opts a (start + 5) cc = Some (ca, cc')" "code = emit_lookahead neg ca"
    by (auto simp: bind_eq_Some_conv)
  have A: "good ctx ca (den ctx (o_dotall opts) a cc)"
    using RLook.prems e by (intro conjunct1 [OF RLook.IH [OF e(1)]]) (auto simp: emit_lookahead_def)
  have "counts code None"
    unfolding e(2) emit_lookahead_def
    by (rule counts_none) (use counts_instr [OF instr_emit(4) [of "if neg then REOP_negative_lookahead else REOP_lookahead"]] in \<open>auto simp: op_kinds split: if_splits\<close>)
  then show ?case using good_lookahead [OF A] RLook.prems(3) e by simp
next
  case (RQuant a quant_min quant_max g)
  from RQuant.prems(1) obtain ca where e: "emit opts a start cc = Some (ca, cc')" "emit_quantifier start quant_min quant_max g cc cc' ca = Some code"
    by (auto simp: bind_eq_Some_conv)
  note k = emit_caps [OF e(1)]
  have cc: "cc \<le> cc'" "cc' \<le> capture_count ctx" "cc' \<le> 255" using k RQuant.prems(4) ctx by (auto simp: narrow_def)
  have p: "plain a" "quant_min \<le> quant_max" "quant_max \<le> INT32_MAX" "\<not> g \<longrightarrow> quant_max = INT32_MAX \<longrightarrow> consumes a" using RQuant.prems(2) by simp_all
  show ?case
  proof (cases "quant_max = 0")
    case True
    then have code: "code = save_reset_code cc cc'" using e(2) p(2) quantifier_zero by simp
    have "counts code None" if "cc \<noteq> cc'"
      unfolding code save_reset_code_def using counts_instr [OF instr_emit(5)] that by (simp add: op_kinds)
    then show ?thesis using good_reset [OF cc] code k True p(2) by (simp add: quantified_def repeated_simps)
  next
    case False
    have "length ca \<le> length code" using length_quantifier [OF e(2)] False p(2) by simp
    then have A: "good ctx ca (den ctx (o_dotall opts) a cc) \<and> (caps a \<noteq> 0 \<longrightarrow> counts ca None)"
      using RQuant.prems p(1) by (intro RQuant.IH [OF e(1)]) auto
    have "good ctx code (quantified ctx quant_min quant_max g cc cc' (den ctx (o_dotall opts) a cc))"
      using A consumes_advances [of a ctx] p k RQuant.prems(3) ctx by (intro good_quantifier [OF _ e(2) _ _ _ p(2,3) cc]) (auto simp: narrow_def)
    moreover have "caps a \<noteq> 0 \<longrightarrow> counts code None" using counts_none_quantifier [OF e(2)] A k by auto
    ultimately show ?thesis using k by simp
  qed
qed

subsection \<open>The compiler and the executor\<close>

definition regex_matches :: "re_ctx \<Rightarrow> bool \<Rightarrow> bool \<Rightarrow> regex \<Rightarrow> nat \<Rightarrow> re_result list" where
  "regex_matches ctx sticky dotall e cindex =
     then_do (if sticky then (\<lambda>s. [s]) else star ctx False (atom (one_char ctx (\<lambda>x. True)))) (captured 0 (den ctx dotall e 1))
       (cindex, replicate (2 * capture_count ctx) None)"

lemma search_prefix_star: "search_prefix = emit_star 0 False False (re_emit_op REOP_any)"
  by (simp add: search_prefix_def emit_star_def re_emit_goto_eq Let_def del: le_bytes_numeral)

lemma compile_regex_code:
  assumes "compile_regex T re_flags e = Some bc"
  obtains body cc ss prefix code where
    "prefix = (if re_flags AND 32 \<noteq> 0 then [] else search_prefix)"
    "emit \<lparr>o_ignore_case = (re_flags AND 2 \<noteq> 0), o_is_utf16 = (re_flags AND 16 \<noteq> 0), o_dotall = (re_flags AND 8 \<noteq> 0), o_tables = T\<rparr> e
       (7 + length prefix + 2) 1 = Some (body, cc)"
    "code = (prefix @ emit_capture 0 body) @ re_emit_op REOP_match" "compute_stack_size code = Some (Some ss)"
    "bc = ([re_flags, of_nat cc, of_nat ss] @ u32_bytes (length code)) @ code"
  using assms by (auto simp: compile_regex_def Let_def bind_eq_Some_conv simp del: le_bytes_numeral)

lemma bt_of_good:
  assumes g: "good ctx code f" and c: "code_at ctx p (code @ re_emit_op REOP_match)" and v: "valid ctx s"
    and ss: "compute_stack_size (code @ re_emit_op REOP_match) = Some (Some ss)" "ss \<le> stack_size_max ctx"
  shows "bt ctx (th p s []) (case f s of [] \<Rightarrow> None | s' # _ \<Rightarrow> Some (snd s'))"
proof -
  let ?z = "p + length code"
  obtain d where d: "needs code d" "\<And>p. code_at ctx p code \<Longrightarrow> frag ctx d p (p + length code) f" using runs_needs [OF goodD(2) [OF g]] by blast
  have "needs (re_emit_op REOP_match) 0" by (rule needs_instr [OF instr_emit(1)]) (simp_all add: op_kinds)
  from needs_whole [OF needs_0(2) [OF d(1) this] ss(1)] have "length [] + d \<le> stack_size_max ctx" using ss(2) by simp
  moreover have "op_at ctx ?z = Some REOP_match" using c unfolding code_at_append by (blast intro: code_at_op)
  then have "bt ctx (th ?z s' []) (Some (snd s'))" for s'
    using bt_match [of ctx "th ?z s' []"] by (simp add: re_step_def is_simple_op_def)
  then have "tries ctx (map (\<lambda>s. th ?z s []) (f s)) (case f s of [] \<Rightarrow> None | s' # _ \<Rightarrow> Some (snd s'))"
    by (cases "f s") (auto intro: tries_here)
  ultimately show ?thesis using fragD [OF d(2) v] c unfolding code_at_append by blast
qed

text \<open>
  The executor on the code of a pattern ends with the captures of the first of the results of the pattern in the order of backtracking, or
  without a match when the pattern has none.
\<close>

lemma compile_regex_exec:
  assumes "compile_regex T re_flags e = Some bc" "plain e" "re_flags AND 2 = 0" "cbtype \<noteq> 2" "cbtype = 1 \<longrightarrow> re_flags AND 16 = 0"
    and "length bc < 2 ^ 30" "length subject < 2 ^ 64" "cindex \<le> length subject" "\<forall>n. alloc n"
    and "re_init T alloc bc subject cbtype = Some ctx"
  shows "case regex_matches ctx (re_flags AND 32 \<noteq> 0) (re_flags AND 8 \<noteq> 0) e cindex of
      [] \<Rightarrow> \<exists>n cap. lre_exec n T alloc bc subject cindex cbtype = Some (Ret 0 cap)
    | s # _ \<Rightarrow> \<exists>n. lre_exec n T alloc bc subject cindex cbtype = Some (Ret 1 (snd s))"
proof -
  let ?dotall = "re_flags AND 8 \<noteq> 0" and ?sticky = "re_flags AND 32 \<noteq> 0"
  obtain body cc ss prefix code where P: "prefix = (if ?sticky then [] else search_prefix)"
    and E: "emit \<lparr>o_ignore_case = (re_flags AND 2 \<noteq> 0), o_is_utf16 = (re_flags AND 16 \<noteq> 0), o_dotall = ?dotall, o_tables = T\<rparr> e
       (7 + length prefix + 2) 1 = Some (body, cc)"
    and K: "code = (prefix @ emit_capture 0 body) @ re_emit_op REOP_match" and S: "compute_stack_size code = Some (Some ss)"
    and bc: "bc = ([re_flags, of_nat cc, of_nat ss] @ u32_bytes (length code)) @ code" by (rule compile_regex_code [OF assms(1)])
  have cc: "0 < cc" "cc \<le> 255" using emit_caps [OF E] emit_le [OF E] by simp_all
  have ss: "ss \<le> 255" using stack_size_bound [of 0 0 code ss] S by (simp add: compute_stack_size_def)
  have ctx: "bc_buf ctx = bc" "cbuf ctx = subject" "cbuf_type ctx \<noteq> 2" "capture_count ctx = cc" "stack_size_max ctx = ss" "\<not> ignore_case ctx"
    "\<forall>n. realloc_ok ctx n"
    using assms(3,4,5,9,10) cc ss by (auto simp: re_init_def bc rd_eq Let_def unat_of_nat)
  have nar: "narrow ctx" using ctx cc assms(7) by (simp add: narrow_def)
  have len: "length bc = 7 + length prefix + 4 + length body + 1" by (simp add: bc K emit_capture_def)
  let ?any = "atom (one_char ctx (\<lambda>x. True))" let ?f = "if ?sticky then (\<lambda>s. [s]) else star ctx False ?any"
  have "good ctx body (den ctx ?dotall e 1)"
    using conjunct1 [OF emit_good [OF nar _ E assms(2)]] len assms(6) ctx(4) by (simp add: assms(3))
  then have "good ctx (emit_capture 0 body) (captured 0 (den ctx ?dotall e 1))" using cc ctx(4) by (intro good_capture) auto
  moreover have "good ctx search_prefix (star ctx False ?any)"
    unfolding search_prefix_star using good_tests(2) [of ctx] nar advances_one_char
    by (intro good_star) (simp_all add: narrow_def star_len)
  then have "good ctx prefix ?f" using P good_Nil by simp
  ultimately have G: "good ctx (prefix @ emit_capture 0 body) (then_do ?f (captured 0 (den ctx ?dotall e 1)))" by (intro good_append)
  have "code_at ctx (length ([re_flags, of_nat cc, of_nat ss] @ u32_bytes (length code))) code"
    using bytes_at_self [of _ code "[]"] by (simp only: ctx(1) bc append_Nil2)
  then have c: "code_at ctx 7 code" by (simp add: numeral_eq_Suc)
  have v: "valid ctx (cindex, replicate (2 * capture_count ctx) None)" using assms(8) ctx(2) by (simp add: valid_def)
  have "re_start ctx cindex = th 7 (cindex, replicate (2 * capture_count ctx) None) []" by (simp add: re_start_def th_def)
  then have "bt ctx (re_start ctx cindex) (case regex_matches ctx ?sticky ?dotall e cindex of [] \<Rightarrow> None | s # _ \<Rightarrow> Some (snd s))"
    unfolding regex_matches_def using bt_of_good [OF G _ v] c S ctx(5) unfolding K by simp
  moreover have "roomy ctx" using ctx(7) by (simp add: roomy_def)
  note R = run_empty [OF this]
  ultimately show ?thesis
    using assms(10) by (auto simp: lre_exec_def run_def [symmetric] R split: list.splits)
qed

end
