(* ===== verification/RegexpText.thy ===== *)
theory RegexpText
  imports RegexpEmit Utf8 Numbers
begin

text \<open>
  The lexical part of the compiler of regular expressions (\<open>qjs/libregexp.c\<close>): digits, escapes, character classes, group names
  and the scan for captures. The pattern is the list of its bytes with the terminating zero; a pointer into it is an
  index. The result of a function that can fail is \<open>Parsed\<close>, a \<open>Syntax_error\<close> with its message, or \<open>Stuck\<close> for a read past the
  terminating zero. Characters are given by their codes, messages without the quotes in them.
\<close>

subsection \<open>Results\<close>

datatype 'a pr = Parsed 'a | Syntax_error string | Stuck

fun pbind :: "'a pr \<Rightarrow> ('a \<Rightarrow> 'b pr) \<Rightarrow> 'b pr" where
  "pbind (Parsed x) f = f x"
| "pbind (Syntax_error e) f = Syntax_error e"
| "pbind Stuck f = Stuck"

fun of_opt :: "'a option \<Rightarrow> 'a pr" where
  "of_opt None = Stuck"
| "of_opt (Some x) = Parsed x"

text \<open>An operation on character ranges: a failure of the allocator is an error of the parser, with a message in some places.\<close>

fun of_cr :: "string \<Rightarrow> (int \<times> CharRange) option \<Rightarrow> CharRange pr" where
  "of_cr msg None = Stuck"
| "of_cr msg (Some (r, cr)) = (if r = 0 then Parsed cr else Syntax_error msg)"

abbreviation memory_error :: string where "memory_error \<equiv> ''out of memory''"

definition peek :: "u8 list \<Rightarrow> nat \<Rightarrow> u8 pr" where
  "peek buf p = of_opt (rd buf p)"

text \<open>\<open>parse_digits\<close> from the digits in \<open>bs\<close> at position \<open>p\<close>; on overflow the pointer \<open>p0\<close> is left where it was.\<close>

fun digits_loop :: "bool \<Rightarrow> nat \<Rightarrow> u8 list \<Rightarrow> nat \<Rightarrow> nat \<Rightarrow> (int \<times> nat) pr" where
  "digits_loop allow_overflow p0 [] p v = Stuck"
| "digits_loop allow_overflow p0 (c # bs) p v =
     (if is_digit c then
        let v = v * 10 + unat (c - 48)
        in if v \<ge> INT32_MAX
           then if allow_overflow then digits_loop allow_overflow p0 bs (p + 1) INT32_MAX else Parsed (-1, p0)
           else digits_loop allow_overflow p0 bs (p + 1) v
      else Parsed (int v, p))"

definition parse_digits :: "u8 list \<Rightarrow> nat \<Rightarrow> bool \<Rightarrow> (int \<times> nat) pr" where
  "parse_digits buf p allow_overflow = digits_loop allow_overflow p (drop p buf) p 0"

definition re_parse_expect :: "u8 list \<Rightarrow> nat \<Rightarrow> u8 \<Rightarrow> nat pr" where
  "re_parse_expect buf p c = pbind (peek buf p) (\<lambda>x. if x \<noteq> c then Syntax_error (''expecting '' @ [char_of (unat c)]) else Parsed (p + 1))"

subsection \<open>Escapes\<close>

definition hex_push :: "u32 \<Rightarrow> int \<Rightarrow> u32" where
  "hex_push c h = push_bit 4 c OR word_of_int h"

text \<open>\<open>n\<close> hexadecimal digits; \<open>Parsed None\<close> when one is missing.\<close>

fun escape_digits :: "nat \<Rightarrow> u8 list \<Rightarrow> nat \<Rightarrow> u32 \<Rightarrow> u32 option pr" where
  "escape_digits 0 buf p c = Parsed (Some c)"
| "escape_digits (Suc n) buf p c =
     pbind (peek buf p) (\<lambda>b. let h = from_hex (uint b) in
       if h < 0 then Parsed None else escape_digits n buf (p + 1) (hex_push c h))"

text \<open>The digits of \<open>\u{...}\<close>, in \<open>bs\<close> at position \<open>p\<close>.\<close>

fun hex_braces :: "u8 list \<Rightarrow> nat \<Rightarrow> u32 \<Rightarrow> (u32 \<times> nat) option pr" where
  "hex_braces [] p c = Stuck"
| "hex_braces (b # bs) p c =
     (let h = from_hex (uint b) in
      if h < 0 then Parsed None
      else let c = hex_push c h in
        if c > 0x10ffff then Parsed None
        else case bs of [] \<Rightarrow> Stuck | b2 # _ \<Rightarrow> if b2 = 125 then Parsed (Some (c, p + 2)) else hex_braces bs (p + 1) c)"

text \<open>The second half of a surrogate pair written as two escapes, at \<open>p\<close>.\<close>

definition escaped_pair :: "u8 list \<Rightarrow> nat \<Rightarrow> u32 \<Rightarrow> (int \<times> nat) pr" where
  "escaped_pair buf p c =
     pbind (peek buf p) (\<lambda>b0. if b0 \<noteq> 92 then Parsed (uint c, p) else
     pbind (peek buf (p + 1)) (\<lambda>b1. if b1 \<noteq> 117 then Parsed (uint c, p) else
     pbind (escape_digits 4 buf (p + 2) 0) (\<lambda>r.
       case r of
         Some c1 \<Rightarrow> Parsed (if c1 \<ge> 0xdc00 \<and> c1 < 0xe000 then (uint (from_surrogates c c1), p + 6) else (uint c, p))
       | None \<Rightarrow> Parsed (uint c, p))))"

definition hex_escape :: "u8 list \<Rightarrow> nat \<Rightarrow> nat \<Rightarrow> nat \<Rightarrow> nat \<Rightarrow> (int \<times> nat) pr" where
  "hex_escape buf p0 p n allow_utf16 =
     pbind (peek buf p) (\<lambda>b.
       if b = 123 \<and> allow_utf16 \<noteq> 0 then
         pbind (hex_braces (drop (p + 1) buf) (p + 1) 0) (\<lambda>r.
           case r of None \<Rightarrow> Parsed (-1, p0) | Some (c, p') \<Rightarrow> Parsed (uint c, p'))
       else
         pbind (escape_digits n buf p 0) (\<lambda>r.
           case r of
             None \<Rightarrow> Parsed (-1, p0)
           | Some c \<Rightarrow> if c \<ge> 0xd800 \<and> c < 0xdc00 \<and> allow_utf16 = 2 then escaped_pair buf (p + n) c
                       else Parsed (uint c, p + n)))"

definition octal_escape :: "u8 list \<Rightarrow> nat \<Rightarrow> nat \<Rightarrow> u8 \<Rightarrow> nat \<Rightarrow> (int \<times> nat) pr" where
  "octal_escape buf p0 p d allow_utf16 =
     (let c = uint d - 48 in
      if allow_utf16 = 2 then
        if c \<noteq> 0 then Parsed (-1, p0)
        else pbind (peek buf p) (\<lambda>b. if is_digit b then Parsed (-1, p0) else Parsed (c, p))
      else
        pbind (peek buf p) (\<lambda>b. if \<not> (48 \<le> b \<and> b \<le> 55) then Parsed (c, p) else
          let c = c * 8 + (uint b - 48) in
          if c \<ge> 32 then Parsed (c, p + 1)
          else pbind (peek buf (p + 1)) (\<lambda>b. if \<not> (48 \<le> b \<and> b \<le> 55) then Parsed (c, p + 1)
            else Parsed (c * 8 + (uint b - 48), p + 2))))"

text \<open>\<open>lre_parse_escape\<close>, with the pointer after the backslash: the character, -1 or -2, and the new pointer.\<close>

definition lre_parse_escape :: "u8 list \<Rightarrow> nat \<Rightarrow> nat \<Rightarrow> (int \<times> nat) pr" where
  "lre_parse_escape buf p allow_utf16 =
     pbind (peek buf p) (\<lambda>c.
       if c = 98 then Parsed (8, p + 1)
       else if c = 102 then Parsed (12, p + 1)
       else if c = 110 then Parsed (10, p + 1)
       else if c = 114 then Parsed (13, p + 1)
       else if c = 116 then Parsed (9, p + 1)
       else if c = 118 then Parsed (11, p + 1)
       else if c = 120 then hex_escape buf p (p + 1) 2 allow_utf16
       else if c = 117 then hex_escape buf p (p + 1) 4 allow_utf16
       else if 48 \<le> c \<and> c \<le> 55 then octal_escape buf p (p + 1) c allow_utf16
       else Parsed (-2, p))"

subsection \<open>State\<close>

text \<open>
  What the properties of characters \<open>\p{...}\<close> look up: \<open>unicode_script\<close>, \<open>unicode_general_category\<close> and \<open>unicode_prop\<close> of
  \<open>qjs/libunicode.c\<close>, with the result code and the range.
\<close>

record unicode_lookup =
  up_script :: "CharRange \<Rightarrow> u8 list \<Rightarrow> bool \<Rightarrow> int \<times> CharRange"
  up_category :: "CharRange \<Rightarrow> u8 list \<Rightarrow> int \<times> CharRange"
  up_prop :: "CharRange \<Rightarrow> u8 list \<Rightarrow> int \<times> CharRange"

record REParseState =
  s_byte_code :: "u8 list"
  s_buf_ptr :: nat
  s_buf :: "u8 list"
  s_is_utf16 :: bool
  s_ignore_case :: bool
  s_dotall :: bool
  s_capture_count :: nat
  s_total_capture_count :: int
  s_has_named_captures :: int
  s_group_names :: "u8 list"
  s_tables :: unicode_tables
  s_lookup :: unicode_lookup
  s_alloc_fails :: "nat \<Rightarrow> bool"

definition s_buf_end :: "REParseState \<Rightarrow> nat" where
  "s_buf_end s = length (s_buf s) - 1"

definition new_range :: "REParseState \<Rightarrow> CharRange" where
  "new_range s = cr_init (s_alloc_fails s)"

subsection \<open>Character classes\<close>

definition char_range_d :: "u32 list" where
  "char_range_d = [0x30, 0x3a]"

definition char_range_s :: "u32 list" where
  "char_range_s = [0x9, 0xe, 0x20, 0x21, 0xa0, 0xa1, 0x1680, 0x1681, 0x2000, 0x200b, 0x2028, 0x202a, 0x202f, 0x2030, 0x205f, 0x2060,
     0x3000, 0x3001, 0xfeff, 0xff00]"

definition char_range_w :: "u32 list" where
  "char_range_w = [0x30, 0x3a, 0x41, 0x5b, 0x5f, 0x60, 0x61, 0x7b]"

text \<open>The loop of \<open>lre_is_space\<close> over the intervals.\<close>

fun is_space_loop :: "int \<Rightarrow> u32 list \<Rightarrow> bool" where
  "is_space_loop c (low # high # ps) = (if c < uint low then False else if c < uint high then True else is_space_loop c ps)"
| "is_space_loop c ps = False"

definition lre_is_space :: "int \<Rightarrow> bool" where
  "lre_is_space c = is_space_loop c char_range_s"

fun add_points :: "CharRange \<Rightarrow> u32 list \<Rightarrow> CharRange pr" where
  "add_points cr [] = Parsed cr"
| "add_points cr (v # vs) = pbind (of_cr '''' (cr_add_point cr v)) (\<lambda>cr. add_points cr vs)"

definition cr_init_char_range :: "REParseState \<Rightarrow> u32 list \<Rightarrow> bool \<Rightarrow> CharRange pr" where
  "cr_init_char_range s c_pt invert =
     pbind (add_points (new_range s) c_pt) (\<lambda>cr. if invert then of_cr '''' (cr_invert cr) else Parsed cr)"

definition cr_canonicalize :: "CharRange \<Rightarrow> CharRange pr" where
  "cr_canonicalize cr =
     pbind (of_cr memory_error (cr_op (cr_init (alloc_fails cr)) (cr_pts cr) [97, 123] CR_OP_INTER)) (\<lambda>a.
       of_cr memory_error (cr_union1 cr (map (\<lambda>x. x + (65 - 97)) (cr_pts a))))"

definition is_unicode_char :: "u8 \<Rightarrow> bool" where
  "is_unicode_char c \<longleftrightarrow> (c \<ge> 48 \<and> c \<le> 57) \<or> (c \<ge> 65 \<and> c \<le> 90) \<or> (c \<ge> 97 \<and> c \<le> 122) \<or> c = 95"

text \<open>A name of at most 63 characters in \<open>bs\<close> at position \<open>p\<close>; \<open>Parsed None\<close> when it is longer.\<close>

fun property_name :: "u8 list \<Rightarrow> nat \<Rightarrow> u8 list \<Rightarrow> (u8 list \<times> nat) option pr" where
  "property_name [] p name = Stuck"
| "property_name (c # bs) p name =
     (if is_unicode_char c then if length name \<ge> 63 then Parsed None else property_name bs (p + 1) (name @ [c])
      else Parsed (Some (name, p)))"

definition looked_up :: "string \<Rightarrow> int \<times> CharRange \<Rightarrow> CharRange pr" where
  "looked_up msg r =
     (if fst r = 0 then Parsed (snd r) else if fst r = -2 then Syntax_error msg else Syntax_error memory_error)"

text \<open>\<open>Script\<close>, \<open>sc\<close>, \<open>Script_Extensions\<close>, \<open>scx\<close>, \<open>General_Category\<close> and \<open>gc\<close>.\<close>

definition n_Script :: "u8 list" where "n_Script = [83, 99, 114, 105, 112, 116]"
definition n_sc :: "u8 list" where "n_sc = [115, 99]"
definition n_Script_Extensions :: "u8 list" where
  "n_Script_Extensions = n_Script @ [95, 69, 120, 116, 101, 110, 115, 105, 111, 110, 115]"
definition n_scx :: "u8 list" where "n_scx = [115, 99, 120]"
definition n_General_Category :: "u8 list" where
  "n_General_Category = [71, 101, 110, 101, 114, 97, 108, 95, 67, 97, 116, 101, 103, 111, 114, 121]"
definition n_gc :: "u8 list" where "n_gc = [103, 99]"

definition lookup_property :: "REParseState \<Rightarrow> u8 list \<Rightarrow> u8 list \<Rightarrow> CharRange pr" where
  "lookup_property s name value =
     (let L = s_lookup s; cr = new_range s in
      if name = n_Script \<or> name = n_sc then looked_up ''unknown unicode script'' (up_script L cr value False)
      else if name = n_Script_Extensions \<or> name = n_scx then looked_up ''unknown unicode script'' (up_script L cr value True)
      else if name = n_General_Category \<or> name = n_gc then looked_up ''unknown unicode general category'' (up_category L cr value)
      else if value = [] then
        let r = up_category L cr name in
        if fst r = -1 then Syntax_error memory_error
        else if fst r < 0 then looked_up ''unknown unicode property name'' (up_prop L (snd r) name)
        else Parsed (snd r)
      else Syntax_error ''unknown unicode property name'')"

definition parse_unicode_property :: "REParseState \<Rightarrow> nat \<Rightarrow> bool \<Rightarrow> (CharRange \<times> nat) pr" where
  "parse_unicode_property s p is_inv =
     (let buf = s_buf s in
      pbind (peek buf p) (\<lambda>c. if c \<noteq> 123 then Syntax_error ''expecting { after p'' else
      pbind (property_name (drop (p + 1) buf) (p + 1) []) (\<lambda>r. case r of None \<Rightarrow> Syntax_error ''unknown unicode property name'' | Some (name, p) \<Rightarrow>
      pbind (peek buf p) (\<lambda>c.
      pbind (if c = 61 then property_name (drop (p + 1) buf) (p + 1) [] else Parsed (Some ([], p))) (\<lambda>r.
        case r of None \<Rightarrow> Syntax_error ''unknown unicode property value'' | Some (value, p) \<Rightarrow>
      pbind (peek buf p) (\<lambda>c. if c \<noteq> 125 then Syntax_error ''expecting }'' else
      pbind (lookup_property s name value) (\<lambda>cr.
      pbind (if is_inv then of_cr '''' (cr_invert cr) else Parsed cr) (\<lambda>cr. Parsed (cr, p + 1)))))))))"

datatype class_atom = Atom_char u32 | Atom_range CharRange

text \<open>The label \<open>normal_char\<close>: a character of the pattern. A malformed character is an error without message when \<open>is_utf16\<close>.\<close>

definition normal_char :: "REParseState \<Rightarrow> nat \<Rightarrow> (class_atom \<times> nat) pr" where
  "normal_char s p =
     pbind (peek (s_buf s) p) (\<lambda>c.
       if c \<ge> 128 then
         pbind (of_opt (unicode_from_utf8 (drop p (s_buf s)) 6)) (\<lambda>(c, n).
           let c' = word_of_int c :: u32 in
           if c' > 0xffff \<and> \<not> s_is_utf16 s then Syntax_error ''malformed unicode char''
           else if c < 0 then Syntax_error ''''
           else Parsed (Atom_char c', p + n))
       else Parsed (Atom_char (ucast c), p + 1))"

definition class_range :: "REParseState \<Rightarrow> u32 list \<Rightarrow> bool \<Rightarrow> nat \<Rightarrow> (class_atom \<times> nat) pr" where
  "class_range s c_pt invert p = pbind (cr_init_char_range s c_pt invert) (\<lambda>cr. Parsed (Atom_range cr, p))"

text \<open>The characters that may always be escaped: \<open>^$\.*+?()[]{}|/\<close>.\<close>

definition syntax_chars :: "u8 list" where
  "syntax_chars = [94, 36, 92, 46, 42, 43, 63, 40, 41, 91, 93, 123, 125, 124, 47]"

definition escape_atom :: "REParseState \<Rightarrow> nat \<Rightarrow> (class_atom \<times> nat) pr" where
  "escape_atom s p =
     pbind (lre_parse_escape (s_buf s) p (if s_is_utf16 s then 2 else 0)) (\<lambda>(ret, p').
       if ret \<ge> 0 then Parsed (Atom_char (word_of_int ret), p')
       else pbind (peek (s_buf s) p) (\<lambda>c.
         if ret = -2 \<and> c \<noteq> 0 \<and> c \<in> set syntax_chars then normal_char s p
         else if s_is_utf16 s then Syntax_error ''invalid escape sequence in regular expression''
         else normal_char s p))"

definition control_atom :: "REParseState \<Rightarrow> nat \<Rightarrow> bool \<Rightarrow> (class_atom \<times> nat) pr" where
  "control_atom s p inclass =
     pbind (peek (s_buf s) p) (\<lambda>c.
       if (c \<ge> 97 \<and> c \<le> 122) \<or> (c \<ge> 65 \<and> c \<le> 90) \<or> (((c \<ge> 48 \<and> c \<le> 57) \<or> c = 95) \<and> inclass \<and> \<not> s_is_utf16 s)
       then Parsed (Atom_char (ucast (c AND 0x1f)), p + 1)
       else if s_is_utf16 s then Syntax_error ''invalid escape sequence in regular expression''
       else Parsed (Atom_char 92, p - 1))"

definition get_class_atom :: "REParseState \<Rightarrow> nat \<Rightarrow> bool \<Rightarrow> (class_atom \<times> nat) pr" where
  "get_class_atom s p inclass =
     pbind (peek (s_buf s) p) (\<lambda>c.
       if c = 92 then
         if p + 1 \<ge> s_buf_end s then Syntax_error ''unexpected end''
         else pbind (peek (s_buf s) (p + 1)) (\<lambda>c.
           if c = 100 then class_range s char_range_d False (p + 2)
           else if c = 68 then class_range s char_range_d True (p + 2)
           else if c = 115 then class_range s char_range_s False (p + 2)
           else if c = 83 then class_range s char_range_s True (p + 2)
           else if c = 119 then class_range s char_range_w False (p + 2)
           else if c = 87 then class_range s char_range_w True (p + 2)
           else if c = 99 then control_atom s (p + 2) inclass
           else if (c = 112 \<or> c = 80) \<and> s_is_utf16 s then
             pbind (parse_unicode_property s (p + 2) (c = 80)) (\<lambda>(cr, p'). Parsed (Atom_range cr, p'))
           else escape_atom s (p + 1))
       else if c = 0 \<and> p \<ge> s_buf_end s then Syntax_error ''unexpected end''
       else normal_char s p)"

text \<open>The members of a class, up to its bracket; \<open>n\<close> bounds their number by the length of the pattern.\<close>

definition union_atom :: "CharRange \<Rightarrow> class_atom \<Rightarrow> CharRange pr" where
  "union_atom cr a =
     (case a of Atom_char c1 \<Rightarrow> of_cr memory_error (cr_union_interval cr c1 c1) | Atom_range cr1 \<Rightarrow> of_cr memory_error (cr_union1 cr (cr_pts cr1)))"

text \<open>One member: an atom or a range of two characters.\<close>

definition class_member :: "REParseState \<Rightarrow> nat \<Rightarrow> CharRange \<Rightarrow> (CharRange \<times> nat) pr" where
  "class_member s p cr =
     pbind (get_class_atom s p True) (\<lambda>(a1, p).
     pbind (peek (s_buf s) p) (\<lambda>c.
     pbind (if c = 45 then peek (s_buf s) (p + 1) else Parsed 93) (\<lambda>c2.
       let class_atom = pbind (union_atom cr a1) (\<lambda>cr. Parsed (cr, p)) in
       if c = 45 \<and> c2 \<noteq> 93 then
         case a1 of
           Atom_range cr1 \<Rightarrow> if s_is_utf16 s then Syntax_error ''invalid class range'' else class_atom
         | Atom_char c1 \<Rightarrow>
             pbind (get_class_atom s (p + 1) True) (\<lambda>(a2, p0).
               case a2 of
                 Atom_range cr1 \<Rightarrow> if s_is_utf16 s then Syntax_error ''invalid class range'' else class_atom
               | Atom_char c2 \<Rightarrow>
                   if c2 < c1 then Syntax_error ''invalid class range''
                   else pbind (of_cr memory_error (cr_union_interval cr c1 c2)) (\<lambda>cr. Parsed (cr, p0)))
       else class_atom)))"

fun class_loop :: "nat \<Rightarrow> REParseState \<Rightarrow> nat \<Rightarrow> CharRange \<Rightarrow> (CharRange \<times> nat) pr" where
  "class_loop 0 s p cr = Stuck"
| "class_loop (Suc n) s p cr =
     pbind (peek (s_buf s) p) (\<lambda>c.
       if c = 93 then Parsed (cr, p)
       else pbind (class_member s p cr) (\<lambda>(cr, p). class_loop n s p cr))"

text \<open>The code of a class and the pointer after it.\<close>

definition emit_range :: "CharRange \<Rightarrow> u8 list pr" where
  "emit_range cr = (case re_emit_range (cr_pts cr) of None \<Rightarrow> Syntax_error ''too many ranges'' | Some code \<Rightarrow> Parsed code)"

definition re_parse_char_class :: "REParseState \<Rightarrow> nat \<Rightarrow> (u8 list \<times> nat) pr" where
  "re_parse_char_class s p =
     pbind (peek (s_buf s) (p + 1)) (\<lambda>c.
       let invert = (c = 94) in
       pbind (class_loop (length (s_buf s)) s (if invert then p + 2 else p + 1) (new_range s)) (\<lambda>(cr, p).
       pbind (if s_ignore_case s then cr_canonicalize cr else Parsed cr) (\<lambda>cr.
       pbind (if invert then of_cr memory_error (cr_invert cr) else Parsed cr) (\<lambda>cr.
       pbind (emit_range cr) (\<lambda>code. Parsed (code, p + 1))))))"


subsection \<open>Group names and captures\<close>

definition lre_id_start_table_ascii :: "u32 list" where
  "lre_id_start_table_ascii = [0x00000000, 0x00000010, 0x87fffffe, 0x07fffffe]"

definition lre_id_continue_table_ascii :: "u32 list" where
  "lre_id_continue_table_ascii = [0x00000000, 0x03ff0010, 0x87fffffe, 0x07fffffe]"

definition lre_js_is_ident_first :: "unicode_tables \<Rightarrow> u32 \<Rightarrow> bool option" where
  "lre_js_is_ident_first T c =
     (if c < 128 then Some (bit (lre_id_start_table_ascii ! (unat c div 32)) (unat c mod 32)) else lre_is_id_start T c)"

definition lre_js_is_ident_next :: "unicode_tables \<Rightarrow> u32 \<Rightarrow> bool option" where
  "lre_js_is_ident_next T c =
     (if c < 128 then Some (bit (lre_id_continue_table_ascii ! (unat c div 32)) (unat c mod 32))
      else do { b \<leftarrow> lre_is_id_continue T c; Some (b \<or> c = 0x200c \<or> c = 0x200d) })"

text \<open>One character of a name, at \<open>p\<close>: \<open>None\<close> is the end of the name, and a code above 0x10ffff an error.\<close>

definition group_char :: "u8 list \<Rightarrow> nat \<Rightarrow> bool \<Rightarrow> (u32 \<times> nat) option pr" where
  "group_char buf p utf16 =
     pbind (peek buf p) (\<lambda>c.
       if c = 92 then
         pbind (peek buf (p + 1)) (\<lambda>c. if c \<noteq> 117 then Parsed (Some (-1, p)) else
         pbind (lre_parse_escape buf (p + 1) (if utf16 then 2 else 0)) (\<lambda>(c, p'). Parsed (Some (word_of_int c, p'))))
       else if c = 62 then Parsed None
       else if c \<ge> 128 then pbind (of_opt (unicode_from_utf8 (drop p buf) 6)) (\<lambda>(c, n). Parsed (Some (word_of_int c, p + n)))
       else Parsed (Some (ucast c, p + 1)))"

text \<open>
  \<open>re_parse_group_name\<close> with the name \<open>q\<close> so far, in a buffer of \<open>TMP_BUF_SIZE\<close> bytes: \<open>None\<close> for the result -1, else the name and the new
  pointer. \<open>n\<close> bounds the number of characters by the length of the pattern.
\<close>

fun group_name_loop :: "nat \<Rightarrow> unicode_tables \<Rightarrow> u8 list \<Rightarrow> nat \<Rightarrow> bool \<Rightarrow> u8 list \<Rightarrow> (u8 list \<times> nat) option pr" where
  "group_name_loop 0 T buf p utf16 q = Stuck"
| "group_name_loop (Suc n) T buf p utf16 q =
     pbind (group_char buf p utf16) (\<lambda>r.
       case r of
         None \<Rightarrow> Parsed (if q = [] then None else Some (q, p + 1))
       | Some (c, p') \<Rightarrow>
           if c > 0x10ffff then Parsed None
           else pbind (of_opt (if q = [] then lre_js_is_ident_first T c else lre_js_is_ident_next T c)) (\<lambda>ok.
             if \<not> ok then Parsed None
             else if length q + 6 + 1 > 128 then Parsed None
             else group_name_loop n T buf p' utf16 (q @ unicode_to_utf8 c)))"

definition re_parse_group_name :: "unicode_tables \<Rightarrow> u8 list \<Rightarrow> nat \<Rightarrow> bool \<Rightarrow> (u8 list \<times> nat) option pr" where
  "re_parse_group_name T buf p utf16 = group_name_loop (length buf) T buf p utf16 []"

text \<open>
  The loop of \<open>re_parse_captures\<close> over the pattern from \<open>p\<close>: the result and \<open>has_named_captures\<close>. A class is skipped by
  \<open>skip_class\<close>. The loop adds 1 to the pointer after every case, also when a name has been read.
\<close>

function skip_class :: "REParseState \<Rightarrow> nat \<Rightarrow> nat pr" where
  "skip_class s p =
     (if p < s_buf_end s then
        case rd (s_buf s) p of
          None \<Rightarrow> Stuck
        | Some c \<Rightarrow> if c = 93 then Parsed p else if c = 92 then skip_class s (p + 2) else skip_class s (p + 1)
      else Parsed p)"
  by pat_completeness auto
termination by (relation "measure (\<lambda>(s, p). s_buf_end s - p)") auto

declare skip_class.simps [simp del]

fun captures_loop :: "nat \<Rightarrow> REParseState \<Rightarrow> u8 list option \<Rightarrow> nat \<Rightarrow> nat \<Rightarrow> bool \<Rightarrow> (int \<times> bool) pr" where
  "captures_loop 0 s capture_name p capture_index named = Stuck"
| "captures_loop (Suc n) s capture_name p capture_index named =
     (let buf = s_buf s;
          finished = (\<lambda>i named. Parsed (if capture_name = None then int i else -1, named));
          count = (\<lambda>p named. if capture_index + 1 \<ge> 255 then finished (capture_index + 1) named
                             else captures_loop n s capture_name (p + 1) (capture_index + 1) named)
      in if p \<ge> s_buf_end s then finished capture_index named
         else pbind (peek buf p) (\<lambda>c.
           if c = 40 then
             pbind (peek buf (p + 1)) (\<lambda>c1. if c1 \<noteq> 63 then count p named else
             pbind (peek buf (p + 2)) (\<lambda>c2. if c2 \<noteq> 60 then captures_loop n s capture_name (p + 1) capture_index named else
             pbind (peek buf (p + 3)) (\<lambda>c3.
               if c3 = 61 \<or> c3 = 33 then captures_loop n s capture_name (p + 1) capture_index named
               else case capture_name of
                 None \<Rightarrow> count p True
               | Some nm \<Rightarrow>
                   pbind (re_parse_group_name (s_tables s) buf (p + 3) (s_is_utf16 s)) (\<lambda>r.
                     case r of
                       Some (name, p') \<Rightarrow> if name = nm then Parsed (int capture_index, True) else count p' True
                     | None \<Rightarrow> count (p + 3) True))))
           else if c = 92 then captures_loop n s capture_name (p + 2) capture_index named
           else if c = 91 then
             pbind (skip_class s (p + 1)) (\<lambda>p. captures_loop n s capture_name (p + 1) capture_index named)
           else captures_loop n s capture_name (p + 1) capture_index named))"

definition re_parse_captures :: "REParseState \<Rightarrow> u8 list option \<Rightarrow> (int \<times> bool) pr" where
  "re_parse_captures s capture_name = captures_loop (length (s_buf s)) s capture_name 0 1 False"

definition re_count_captures :: "REParseState \<Rightarrow> (int \<times> REParseState) pr" where
  "re_count_captures s =
     (if s_total_capture_count s < 0 then
        pbind (re_parse_captures s None) (\<lambda>(n, named).
          Parsed (n, s\<lparr>s_total_capture_count := n, s_has_named_captures := (if named then 1 else 0)\<rparr>))
      else Parsed (s_total_capture_count s, s))"

definition re_has_named_captures :: "REParseState \<Rightarrow> (bool \<times> REParseState) pr" where
  "re_has_named_captures s =
     (if s_has_named_captures s < 0
      then pbind (re_count_captures s) (\<lambda>(_, s). Parsed (s_has_named_captures s \<noteq> 0, s))
      else Parsed (s_has_named_captures s \<noteq> 0, s))"

text \<open>The names are zero-terminated strings, one for each capture, empty for a capture without name.\<close>

function find_name_loop :: "u8 list \<Rightarrow> u8 list \<Rightarrow> nat \<Rightarrow> nat option" where
  "find_name_loop name names i =
     (if names = [] then None
      else if takeWhile (\<lambda>c. c \<noteq> 0) names = name then Some i
      else find_name_loop name (drop (length (takeWhile (\<lambda>c. c \<noteq> 0) names) + 1) names) (i + 1))"
  by pat_completeness auto
termination by (relation "measure (\<lambda>(name, names, i). length names)") auto

declare find_name_loop.simps [simp del]

definition find_group_name :: "REParseState \<Rightarrow> u8 list \<Rightarrow> nat option" where
  "find_group_name s name = find_name_loop name (s_group_names s) 1"

end
