(* ===== verification/RegexpParse.thy ===== *)
theory RegexpParse
  imports RegexpText
begin

text \<open>
  The parser of regular expressions (\<open>re_parse_term\<close>, \<open>re_parse_alternative\<close>, \<open>re_parse_disjunction\<close> and \<open>lre_compile\<close> of
  \<open>qjs/libregexp.c\<close>), which emits code while it reads the pattern. The parser of terms takes the parser of disjunctions as an
  argument, and that of disjunctions is recursive in the depth that \<open>lre_check_stack_overflow\<close> still allows. The buffers of code and names do
  not run out of memory.
\<close>

subsection \<open>Atoms\<close>

text \<open>
  An atom leaves the state, the pointer, and where it starts: \<open>last_atom_start\<close> with \<open>last_capture_count\<close>, \<open>None\<close> when no quantifier
  may follow.
\<close>

type_synonym term_atom = "REParseState \<times> nat \<times> (nat \<times> nat) option"

definition put_code :: "u8 list \<Rightarrow> REParseState \<Rightarrow> REParseState" where
  "put_code code s = s\<lparr>s_byte_code := s_byte_code s @ code\<rparr>"

definition mark :: "REParseState \<Rightarrow> (nat \<times> nat) option" where
  "mark s = Some (length (s_byte_code s), s_capture_count s)"

text \<open>A character tested backwards: back over it, the test, and back again.\<close>

definition both_ways :: "bool \<Rightarrow> u8 list \<Rightarrow> u8 list" where
  "both_ways is_backward_dir code =
     (if is_backward_dir then re_emit_op REOP_prev @ code @ re_emit_op REOP_prev else code)"

text \<open>The label \<open>normal_char\<close> of \<open>re_parse_term\<close>.\<close>

definition char_code :: "REParseState \<Rightarrow> u32 \<Rightarrow> u8 list pr" where
  "char_code s c =
     pbind (if s_ignore_case s then of_opt (lre_canonicalize (s_tables s) c (s_is_utf16 s)) else Parsed c) (\<lambda>c.
       Parsed (if c \<le> 0xffff then re_emit_op_u16 REOP_char c else re_emit_op_u32 REOP_char32 c))"

definition normal_char_term :: "REParseState \<Rightarrow> nat \<Rightarrow> bool \<Rightarrow> u32 \<Rightarrow> term_atom pr" where
  "normal_char_term s p is_backward_dir c =
     pbind (char_code s c) (\<lambda>code. Parsed (put_code (both_ways is_backward_dir code) s, p, mark s))"

text \<open>The label \<open>parse_class_atom\<close>.\<close>

definition class_atom_term :: "REParseState \<Rightarrow> nat \<Rightarrow> bool \<Rightarrow> term_atom pr" where
  "class_atom_term s p is_backward_dir =
     pbind (get_class_atom s p False) (\<lambda>(a, p).
       case a of
         Atom_range cr \<Rightarrow> pbind (emit_range cr) (\<lambda>code. Parsed (put_code (both_ways is_backward_dir code) s, p, mark s))
       | Atom_char c \<Rightarrow> normal_char_term s p is_backward_dir c)"

text \<open>The case of an opening brace: only one that does not look like a repetition count is a character.\<close>

definition brace_term :: "REParseState \<Rightarrow> nat \<Rightarrow> bool \<Rightarrow> term_atom pr" where
  "brace_term s p is_backward_dir =
     (let buf = s_buf s in
      if s_is_utf16 s then Syntax_error ''syntax error''
      else pbind (peek buf (p + 1)) (\<lambda>c.
        if \<not> is_digit c then class_atom_term s p is_backward_dir
        else
          pbind (parse_digits buf (p + 1) True) (\<lambda>(_, p1).
          pbind (peek buf p1) (\<lambda>c.
          pbind (if c \<noteq> 44 then Parsed p1
                 else pbind (peek buf (p1 + 1)) (\<lambda>c.
                   if is_digit c then pbind (parse_digits buf (p1 + 1) True) (\<lambda>(_, p2). Parsed p2) else Parsed (p1 + 1))) (\<lambda>p1.
          pbind (peek buf p1) (\<lambda>c.
            if c \<noteq> 125 then class_atom_term s p is_backward_dir else Syntax_error ''nothing to repeat''))))))"

text \<open>The parser of disjunctions, started at \<open>p\<close>, and the closing parenthesis.\<close>

definition in_group :: "(REParseState \<Rightarrow> bool \<Rightarrow> REParseState pr) \<Rightarrow> REParseState \<Rightarrow> nat \<Rightarrow> bool \<Rightarrow> (REParseState \<times> nat) pr" where
  "in_group disjunction s p is_backward_dir =
     pbind (disjunction (s\<lparr>s_buf_ptr := p\<rparr>) is_backward_dir) (\<lambda>s.
     pbind (re_parse_expect (s_buf s) (s_buf_ptr s) 41) (\<lambda>p. Parsed (s, p)))"

definition lookahead_term ::
  "(REParseState \<Rightarrow> bool \<Rightarrow> REParseState pr) \<Rightarrow> REParseState \<Rightarrow> nat \<Rightarrow> bool \<Rightarrow> bool \<Rightarrow> term_atom pr" where
  "lookahead_term disjunction s p is_neg is_backward_lookahead =
     (let op = (if is_neg then REOP_negative_lookahead else REOP_lookahead);
          pos = length (s_byte_code s)
      in pbind (in_group disjunction (put_code (re_emit_op_u32 op 0) s) p is_backward_lookahead) (\<lambda>(s1, p).
           let body = drop (pos + 5) (s_byte_code s1) @ re_emit_op REOP_match
           in Parsed (s1\<lparr>s_byte_code := take pos (s_byte_code s1) @ re_emit_op_u32 op (of_nat (length body)) @ body\<rparr>, p,
                      if \<not> s_is_utf16 s \<and> \<not> is_backward_lookahead then mark s else None)))"

text \<open>The label \<open>parse_capture\<close>. Backwards, the end of the capture comes first.\<close>

definition capture_term :: "(REParseState \<Rightarrow> bool \<Rightarrow> REParseState pr) \<Rightarrow> REParseState \<Rightarrow> nat \<Rightarrow> bool \<Rightarrow> term_atom pr" where
  "capture_term disjunction s p is_backward_dir =
     (let capture_index = s_capture_count s;
          op1 = (if is_backward_dir then REOP_save_end else REOP_save_start);
          op2 = (if is_backward_dir then REOP_save_start else REOP_save_end)
      in if capture_index \<ge> 255 then Syntax_error ''too many captures''
         else pbind (disjunction (put_code (re_emit_op_u8 op1 capture_index) (s\<lparr>s_capture_count := capture_index + 1, s_buf_ptr := p\<rparr>))
                      is_backward_dir) (\<lambda>s1.
           let s2 = put_code (re_emit_op_u8 op2 capture_index) s1 in
           pbind (re_parse_expect (s_buf s2) (s_buf_ptr s2) 41) (\<lambda>p. Parsed (s2, p, mark s))))"

definition group_term :: "(REParseState \<Rightarrow> bool \<Rightarrow> REParseState pr) \<Rightarrow> REParseState \<Rightarrow> nat \<Rightarrow> bool \<Rightarrow> term_atom pr" where
  "group_term disjunction s p is_backward_dir =
     (let buf = s_buf s in
      pbind (peek buf (p + 1)) (\<lambda>c1.
      if c1 \<noteq> 63 then
        capture_term disjunction (s\<lparr>s_group_names := s_group_names s @ [0]\<rparr>) (p + 1) is_backward_dir
      else pbind (peek buf (p + 2)) (\<lambda>c2.
        if c2 = 58 then
          pbind (in_group disjunction s (p + 3) is_backward_dir) (\<lambda>(s1, p). Parsed (s1, p, mark s))
        else if c2 = 61 \<or> c2 = 33 then lookahead_term disjunction s (p + 3) (c2 = 33) False
        else if c2 \<noteq> 60 then Syntax_error ''invalid group''
        else pbind (peek buf (p + 3)) (\<lambda>c3.
          if c3 = 61 \<or> c3 = 33 then lookahead_term disjunction s (p + 4) (c3 = 33) True
          else pbind (re_parse_group_name (s_tables s) buf (p + 3) (s_is_utf16 s)) (\<lambda>r.
            case r of
              None \<Rightarrow> Syntax_error ''invalid group name''
            | Some (name, p) \<Rightarrow>
                if find_group_name s name \<noteq> None then Syntax_error ''duplicate group name''
                else capture_term disjunction
                       (s\<lparr>s_group_names := s_group_names s @ name @ [0], s_has_named_captures := 1\<rparr>) p is_backward_dir)))))"

text \<open>The label \<open>emit_back_reference\<close>.\<close>

definition back_reference_term :: "REParseState \<Rightarrow> nat \<Rightarrow> bool \<Rightarrow> nat \<Rightarrow> term_atom pr" where
  "back_reference_term s p is_backward_dir c =
     Parsed (put_code (re_emit_op_u8 (if is_backward_dir then REOP_backward_back_reference else REOP_back_reference) c) s, p, mark s)"

text \<open>\<open>\k\<close>: without a usable name it is a character, unless the pattern is in unicode mode or has named captures.\<close>

definition annex_b_term :: "REParseState \<Rightarrow> nat \<Rightarrow> bool \<Rightarrow> string \<Rightarrow> term_atom pr" where
  "annex_b_term s p is_backward_dir msg =
     (if s_is_utf16 s then Syntax_error msg
      else pbind (re_has_named_captures s) (\<lambda>(b, s). if b then Syntax_error msg else class_atom_term s p is_backward_dir))"

definition named_reference_term :: "REParseState \<Rightarrow> nat \<Rightarrow> bool \<Rightarrow> term_atom pr" where
  "named_reference_term s p is_backward_dir =
     pbind (peek (s_buf s) (p + 2)) (\<lambda>c.
       if c \<noteq> 60 then annex_b_term s p is_backward_dir ''expecting group name''
       else pbind (re_parse_group_name (s_tables s) (s_buf s) (p + 3) (s_is_utf16 s)) (\<lambda>r.
         case r of
           None \<Rightarrow> annex_b_term s p is_backward_dir ''invalid group name''
         | Some (name, p1) \<Rightarrow>
             (case find_group_name s name of
                Some c \<Rightarrow> back_reference_term s p1 is_backward_dir c
              | None \<Rightarrow> pbind (re_parse_captures s (Some name)) (\<lambda>(c, _).
                  if c < 0 then annex_b_term s p is_backward_dir ''group name not defined''
                  else back_reference_term s p1 is_backward_dir (nat c)))))"

text \<open>Up to \<open>n\<close> octal digits at \<open>p\<close>.\<close>

fun octal :: "nat \<Rightarrow> u8 list \<Rightarrow> nat \<Rightarrow> nat \<Rightarrow> (nat \<times> nat) pr" where
  "octal 0 buf p c = Parsed (c, p)"
| "octal (Suc n) buf p c =
     pbind (peek buf p) (\<lambda>b. if b \<ge> 48 \<and> b \<le> 55 then octal n buf (p + 1) (c * 8 + unat (b - 48)) else Parsed (c, p))"

text \<open>
  \<open>\0\<close>, with the pointer after it: as the source has it, the first digit of the octal sequence replaces \<open>c\<close>.
\<close>

definition zero_term :: "REParseState \<Rightarrow> nat \<Rightarrow> bool \<Rightarrow> term_atom pr" where
  "zero_term s p is_backward_dir =
     (if s_is_utf16 s then
        pbind (peek (s_buf s) p) (\<lambda>c.
          if is_digit c then Syntax_error ''invalid decimal escape in regular expression''
          else normal_char_term s p is_backward_dir 0)
      else pbind (octal 2 (s_buf s) p 0) (\<lambda>(c, p). normal_char_term s p is_backward_dir (of_nat c)))"

text \<open>\<open>\1\<close> to \<open>\9\<close>, with the pointer at the digit \<open>q\<close>.\<close>

definition legacy_octal :: "REParseState \<Rightarrow> nat \<Rightarrow> bool \<Rightarrow> term_atom pr" where
  "legacy_octal s q is_backward_dir =
     pbind (peek (s_buf s) q) (\<lambda>b.
       if b \<le> 55 then
         pbind (if b \<le> 51 then octal 2 (s_buf s) (q + 1) (unat (b - 48)) else octal 2 (s_buf s) q 0) (\<lambda>(c, p).
           normal_char_term s p is_backward_dir (of_nat c))
       else normal_char_term s (q + 1) is_backward_dir (ucast b))"

definition number_term :: "REParseState \<Rightarrow> nat \<Rightarrow> bool \<Rightarrow> term_atom pr" where
  "number_term s q is_backward_dir =
     pbind (parse_digits (s_buf s) q False) (\<lambda>(c, p).
     pbind (if c < 0 then Parsed (True, s)
            else if c \<ge> int (s_capture_count s)
            then pbind (re_count_captures s) (\<lambda>(n, s). Parsed (c \<ge> n, s))
            else Parsed (False, s)) (\<lambda>(bad, s).
       if \<not> bad then back_reference_term s p is_backward_dir (nat c)
       else if s_is_utf16 s then Syntax_error ''back reference out of range in regular expression''
       else legacy_octal s q is_backward_dir))"

definition backslash_term :: "REParseState \<Rightarrow> nat \<Rightarrow> bool \<Rightarrow> term_atom pr" where
  "backslash_term s p is_backward_dir =
     pbind (peek (s_buf s) (p + 1)) (\<lambda>c.
       if c = 98 then Parsed (put_code (re_emit_op REOP_word_boundary) s, p + 2, None)
       else if c = 66 then Parsed (put_code (re_emit_op REOP_not_word_boundary) s, p + 2, None)
       else if c = 107 then named_reference_term s p is_backward_dir
       else if c = 48 then zero_term s (p + 2) is_backward_dir
       else if c \<ge> 49 \<and> c \<le> 57 then number_term s (p + 1) is_backward_dir
       else class_atom_term s p is_backward_dir)"

definition atom_term :: "(REParseState \<Rightarrow> bool \<Rightarrow> REParseState pr) \<Rightarrow> REParseState \<Rightarrow> bool \<Rightarrow> term_atom pr" where
  "atom_term disjunction s is_backward_dir =
     (let p = s_buf_ptr s in
      pbind (peek (s_buf s) p) (\<lambda>c.
        if c = 94 then Parsed (put_code (re_emit_op REOP_line_start) s, p + 1, None)
        else if c = 36 then Parsed (put_code (re_emit_op REOP_line_end) s, p + 1, None)
        else if c = 46 then
          Parsed (put_code (both_ways is_backward_dir (re_emit_op (if s_dotall s then REOP_any else REOP_dot))) s, p + 1, mark s)
        else if c = 123 then brace_term s p is_backward_dir
        else if c = 42 \<or> c = 43 \<or> c = 63 then Syntax_error ''nothing to repeat''
        else if c = 40 then group_term disjunction s p is_backward_dir
        else if c = 92 then backslash_term s p is_backward_dir
        else if c = 91 then
          pbind (re_parse_char_class s p) (\<lambda>(code, p). Parsed (put_code (both_ways is_backward_dir code) s, p, mark s))
        else if (c = 93 \<or> c = 125) \<and> s_is_utf16 s then Syntax_error ''syntax error''
        else class_atom_term s p is_backward_dir))"

subsection \<open>Quantifiers\<close>

text \<open>The repetition count at \<open>p\<close>, with the pointer after it; \<open>None\<close> when there is none.\<close>

definition brace_count :: "REParseState \<Rightarrow> nat \<Rightarrow> ((nat \<times> nat) option \<times> nat) pr" where
  "brace_count s p1 =
     (let buf = s_buf s in
      pbind (peek buf (p1 + 1)) (\<lambda>c.
      if \<not> is_digit c then (if s_is_utf16 s then Syntax_error ''invalid repetition count'' else Parsed (None, p1))
      else
        pbind (parse_digits buf (p1 + 1) True) (\<lambda>(quant_min, p).
        pbind (peek buf p) (\<lambda>c.
        pbind (if c \<noteq> 44 then Parsed (quant_min, p)
               else pbind (peek buf (p + 1)) (\<lambda>c.
                 if is_digit c then
                   pbind (parse_digits buf (p + 1) True) (\<lambda>(quant_max, p).
                     if quant_max < quant_min then Syntax_error ''invalid repetition count'' else Parsed (quant_max, p))
                 else Parsed (int INT32_MAX, p + 1))) (\<lambda>(quant_max, p).
        pbind (peek buf p) (\<lambda>c.
          if c \<noteq> 125 \<and> \<not> s_is_utf16 s then Parsed (None, p1)
          else pbind (re_parse_expect buf p 125) (\<lambda>p. Parsed (Some (nat quant_min, nat quant_max), p))))))))"

definition quantifier_count :: "REParseState \<Rightarrow> nat \<Rightarrow> ((nat \<times> nat) option \<times> nat) pr" where
  "quantifier_count s p =
     pbind (peek (s_buf s) p) (\<lambda>c.
       if c = 42 then Parsed (Some (0, INT32_MAX), p + 1)
       else if c = 43 then Parsed (Some (1, INT32_MAX), p + 1)
       else if c = 63 then Parsed (Some (0, 1), p + 1)
       else if c = 123 then brace_count s p
       else Parsed (None, p))"

definition quantifier_term :: "REParseState \<Rightarrow> nat \<Rightarrow> nat \<Rightarrow> nat \<Rightarrow> REParseState pr" where
  "quantifier_term s p last_atom_start last_capture_count =
     pbind (quantifier_count s p) (\<lambda>(q, p).
       case q of
         None \<Rightarrow> Parsed (s\<lparr>s_buf_ptr := p\<rparr>)
       | Some (quant_min, quant_max) \<Rightarrow>
           pbind (peek (s_buf s) p) (\<lambda>c.
             let greedy = (c \<noteq> 63); code = s_byte_code s in
             pbind (of_opt (emit_quantifier last_atom_start quant_min quant_max greedy last_capture_count (s_capture_count s)
                      (drop last_atom_start code))) (\<lambda>loop.
               Parsed (s\<lparr>s_byte_code := take last_atom_start code @ loop, s_buf_ptr := (if greedy then p else p + 1)\<rparr>))))"

definition re_parse_term :: "(REParseState \<Rightarrow> bool \<Rightarrow> REParseState pr) \<Rightarrow> REParseState \<Rightarrow> bool \<Rightarrow> REParseState pr" where
  "re_parse_term disjunction s is_backward_dir =
     pbind (atom_term disjunction s is_backward_dir) (\<lambda>(s, p, m).
       case m of
         None \<Rightarrow> Parsed (s\<lparr>s_buf_ptr := p\<rparr>)
       | Some (last_atom_start, last_capture_count) \<Rightarrow> quantifier_term s p last_atom_start last_capture_count)"

subsection \<open>Alternatives and disjunctions\<close>

text \<open>
  The terms of an alternative whose code begins at \<open>start\<close>; backwards, each term goes before the ones read. \<open>n\<close> bounds their number by
  the length of the pattern.
\<close>

definition last_first :: "nat \<Rightarrow> nat \<Rightarrow> u8 list \<Rightarrow> u8 list" where
  "last_first start term_start code = take start code @ drop term_start code @ drop start (take term_start code)"

fun alternative_loop ::
  "(REParseState \<Rightarrow> bool \<Rightarrow> REParseState pr) \<Rightarrow> nat \<Rightarrow> nat \<Rightarrow> REParseState \<Rightarrow> bool \<Rightarrow> REParseState pr" where
  "alternative_loop disjunction 0 start s is_backward_dir = Stuck"
| "alternative_loop disjunction (Suc n) start s is_backward_dir =
     (if s_buf_ptr s \<ge> s_buf_end s then Parsed s
      else pbind (peek (s_buf s) (s_buf_ptr s)) (\<lambda>c.
        if c = 124 \<or> c = 41 then Parsed s
        else
          let term_start = length (s_byte_code s) in
          pbind (re_parse_term disjunction s is_backward_dir) (\<lambda>s1.
            alternative_loop disjunction n start
              (if is_backward_dir then s1\<lparr>s_byte_code := last_first start term_start (s_byte_code s1)\<rparr> else s1) is_backward_dir)))"

definition re_parse_alternative ::
  "(REParseState \<Rightarrow> bool \<Rightarrow> REParseState pr) \<Rightarrow> REParseState \<Rightarrow> bool \<Rightarrow> REParseState pr" where
  "re_parse_alternative disjunction s is_backward_dir =
     alternative_loop disjunction (length (s_buf s)) (length (s_byte_code s)) s is_backward_dir"

text \<open>The further alternatives: the code from \<open>start\<close> becomes the first of two.\<close>

fun disjunction_loop ::
  "(REParseState \<Rightarrow> bool \<Rightarrow> REParseState pr) \<Rightarrow> nat \<Rightarrow> nat \<Rightarrow> REParseState \<Rightarrow> bool \<Rightarrow> REParseState pr" where
  "disjunction_loop disjunction 0 start s is_backward_dir = Stuck"
| "disjunction_loop disjunction (Suc n) start s is_backward_dir =
     pbind (peek (s_buf s) (s_buf_ptr s)) (\<lambda>c.
       if c \<noteq> 124 then Parsed s
       else
         let first = drop start (s_byte_code s); len = length first;
             front = take start (s_byte_code s) @ re_emit_op_u32 REOP_split_next_first (of_nat (len + 5)) @ first;
             s1 = s\<lparr>s_buf_ptr := s_buf_ptr s + 1, s_byte_code := front @ re_emit_op_u32 REOP_goto 0\<rparr>
         in pbind (re_parse_alternative disjunction s1 is_backward_dir) (\<lambda>s2.
              let second = drop (length front + 5) (s_byte_code s2)
              in disjunction_loop disjunction n start
                   (s2\<lparr>s_byte_code := front @ re_emit_op_u32 REOP_goto (of_nat (length second)) @ second\<rparr>) is_backward_dir))"

fun re_parse_disjunction :: "nat \<Rightarrow> REParseState \<Rightarrow> bool \<Rightarrow> REParseState pr" where
  "re_parse_disjunction 0 s is_backward_dir = Syntax_error ''stack overflow''"
| "re_parse_disjunction (Suc d) s is_backward_dir =
     pbind (re_parse_alternative (re_parse_disjunction d) s is_backward_dir) (\<lambda>s1.
       disjunction_loop (re_parse_disjunction d) (length (s_buf s)) (length (s_byte_code s)) s1 is_backward_dir)"

subsection \<open>The compiler\<close>

definition parse_start :: "unicode_tables \<Rightarrow> unicode_lookup \<Rightarrow> (nat \<Rightarrow> bool) \<Rightarrow> u8 list \<Rightarrow> u8 \<Rightarrow> u8 list \<Rightarrow> REParseState" where
  "parse_start T L fails buf re_flags code =
     \<lparr>s_byte_code = code, s_buf_ptr = 0, s_buf = buf @ [0], s_is_utf16 = (re_flags AND 16 \<noteq> 0), s_ignore_case = (re_flags AND 2 \<noteq> 0),
      s_dotall = (re_flags AND 8 \<noteq> 0), s_capture_count = 1, s_total_capture_count = -1, s_has_named_captures = -1, s_group_names = [],
      s_tables = T, s_lookup = L, s_alloc_fails = fails\<rparr>"

text \<open>The header is 7 bytes long; it is filled in after the code.\<close>

definition lre_compile :: "nat \<Rightarrow> unicode_tables \<Rightarrow> unicode_lookup \<Rightarrow> (nat \<Rightarrow> bool) \<Rightarrow> u8 list \<Rightarrow> u8 \<Rightarrow> u8 list pr" where
  "lre_compile depth T L fails buf re_flags =
     (let header = [re_flags, 0, 0, 0, 0, 0, 0];
          prefix = (if re_flags AND 32 \<noteq> 0 then [] else search_prefix)
      in pbind (re_parse_disjunction depth
                  (parse_start T L fails buf re_flags (header @ prefix @ re_emit_op_u8 REOP_save_start 0)) False) (\<lambda>s.
           let code = drop 7 (s_byte_code s) @ re_emit_op_u8 REOP_save_end 0 @ re_emit_op REOP_match in
           pbind (peek (s_buf s) (s_buf_ptr s)) (\<lambda>c.
             if c \<noteq> 0 then Syntax_error ''extraneous characters at the end''
             else pbind (of_opt (compute_stack_size code)) (\<lambda>ss.
               case ss of
                 None \<Rightarrow> Syntax_error ''too many imbricated quantifiers''
               | Some stack_size \<Rightarrow>
                   let named = length (s_group_names s) > s_capture_count s - 1
                   in Parsed ([if named then re_flags OR 128 else re_flags, of_nat (s_capture_count s), of_nat stack_size] @
                        u32_bytes (length code) @ code @ (if named then s_group_names s else []))))))"

text \<open>Where the names of the groups are, if there are any.\<close>

definition lre_get_groupnames :: "u8 list \<Rightarrow> nat option option" where
  "lre_get_groupnames bc =
     do { re_flags \<leftarrow> rd bc 0;
          if re_flags AND 128 = 0 then Some None
          else do { re_bytecode_len \<leftarrow> get_u32 (drop 3 bc); Some (Some (7 + unat re_bytecode_len)) } }"

end
