(* ===== verification/RegexpLex.thy ===== *)
theory RegexpLex
  imports RegexpParse
begin

text \<open>
  Reading characters and classes that are written with escapes: an escape gives back its character, and a class written as the
  intervals of its points gives back the points.
\<close>

subsection \<open>Escapes\<close>

definition hex_digit :: "nat \<Rightarrow> u8" where
  "hex_digit d = (if d < 10 then 48 + of_nat d else 87 + of_nat d)"

lemma hex_digit_value: "d < 16 \<Longrightarrow> from_hex (uint (hex_digit d)) = int d"
proof -
  assume d: "d < 16"
  then have "uint (of_nat d :: u8) = int d" by (simp add: uint_nat unat_of_nat)
  then have "uint (48 + of_nat d :: u8) = 48 + int d" "uint (87 + of_nat d :: u8) = 87 + int d" using d by (simp_all add: uint_word_ariths)
  then show ?thesis using d by (simp add: hex_digit_def from_hex_def)
qed

lemma unat_eqD: "unat (x :: u32) = n \<Longrightarrow> x = of_nat n"
  by auto

lemma hex_push_nat:
  assumes "v < 2 ^ 24" "d < 16"
  shows "hex_push (of_nat v) (int d) = of_nat (16 * v + d)"
proof -
  have v: "unat (of_nat v :: u32) = v" using assms(1) by (simp add: unat_of_nat take_bit_nat_eq_self)
  have d: "unat (of_nat d :: u32) = d" using assms(2) by (simp add: unat_of_nat take_bit_nat_eq_self)
  have w: "unat (of_nat (16 * v) :: u32) = 16 * v" using assms(1) by (simp add: unat_of_nat take_bit_nat_eq_self del: of_nat_mult)
  have p: "push_bit 4 (of_nat v :: u32) = of_nat (16 * v)" by (simp add: push_bit_eq_mult)
  have "unat (of_nat d OR of_nat (16 * v) :: u32) = unat (of_nat d :: u32) + unat (of_nat (16 * v) :: u32)"
  proof (rule unat_or_disjoint [of _ 4])
    show "unat (of_nat d :: u32) < 2 ^ 4" using assms(2) d by simp
    show "take_bit 4 (of_nat (16 * v) :: u32) = 0" unfolding p [symmetric] by (simp add: take_bit_push_bit)
    show "unat (of_nat d :: u32) + unat (of_nat (16 * v) :: u32) < 2 ^ LENGTH(32)" using assms d w by simp
  qed
  also have "\<dots> = 16 * v + d" using d w by simp
  finally have "unat (of_nat (16 * v) OR of_nat d :: u32) = 16 * v + d" by (simp add: or.commute)
  then have "of_nat (16 * v) OR of_nat d = (of_nat (16 * v + d) :: u32)" by (rule unat_eqD)
  then show ?thesis by (simp add: hex_push_def p del: of_nat_add of_nat_mult)
qed

lemma peek_bytes: "rd buf p = Some b \<Longrightarrow> peek buf p = Parsed b"
  by (simp add: peek_def)

lemma escape_digits_step:
  "rd buf p = Some (hex_digit d) \<Longrightarrow> d < 16 \<Longrightarrow> v < 2 ^ 24 \<Longrightarrow>
   escape_digits (Suc n) buf p (of_nat v) = escape_digits n buf (p + 1) (of_nat (16 * v + d))"
  by (simp add: peek_bytes hex_digit_value hex_push_nat del: of_nat_add of_nat_mult)

lemma escape_digits_4:
  assumes "bytes_at buf p [hex_digit (n div 4096), hex_digit (n div 256 mod 16), hex_digit (n div 16 mod 16), hex_digit (n mod 16)]" "n < 65536"
  shows "escape_digits 4 buf p 0 = Parsed (Some (of_nat n))"
proof -
  let ?a = "n div 4096" and ?b = "n div 256 mod 16" and ?c = "n div 16 mod 16" and ?d = "n mod 16"
  have r: "rd buf p = Some (hex_digit ?a)" "rd buf (p + 1) = Some (hex_digit ?b)" "rd buf (p + 1 + 1) = Some (hex_digit ?c)"
    "rd buf (p + 1 + 1 + 1) = Some (hex_digit ?d)" using assms(1) by simp_all
  have a: "?a < 16" using assms(2) by simp
  have "n div 4096 = n div 256 div 16" "n div 256 = n div 16 div 16" by (simp_all add: div_mult2_eq [symmetric])
  then have e: "16 * ?a + ?b = n div 256" "16 * (n div 256) + ?c = n div 16" "16 * (n div 16) + ?d = n" by simp_all
  then have v: "16 * (16 * (16 * ?a + ?b) + ?c) + ?d = n" by simp
  have "n div 256 < 256" "n div 16 < 4096" using assms(2) by simp_all
  then have b: "16 * ?a + ?b < 256" "16 * (16 * ?a + ?b) + ?c < 4096" by (simp_all only: e)
  have "escape_digits 4 buf p 0 = escape_digits (Suc (Suc (Suc (Suc 0)))) buf p (of_nat 0)" by (simp add: eval_nat_numeral)
  also have "\<dots> = escape_digits (Suc (Suc (Suc 0))) buf (p + 1) (of_nat (16 * 0 + ?a))" by (rule escape_digits_step [OF r(1) a]) simp
  also have "\<dots> = escape_digits (Suc (Suc 0)) buf (p + 1 + 1) (of_nat (16 * (16 * 0 + ?a) + ?b))" using a by (intro escape_digits_step [OF r(2)]) simp_all
  also have "\<dots> = escape_digits (Suc 0) buf (p + 1 + 1 + 1) (of_nat (16 * (16 * (16 * 0 + ?a) + ?b) + ?c))"
    using b(1) by (intro escape_digits_step [OF r(3)]) simp_all
  also have "\<dots> = escape_digits 0 buf (p + 1 + 1 + 1 + 1) (of_nat (16 * (16 * (16 * (16 * 0 + ?a) + ?b) + ?c) + ?d))"
    using b(2) by (intro escape_digits_step [OF r(4)]) simp_all
  also have "\<dots> = Parsed (Some (of_nat n))" by (simp only: escape_digits.simps mult_0_right add_0 v)
  finally show ?thesis .
qed

definition u_text :: "u32 \<Rightarrow> u8 list" where
  "u_text c = [92, 117, hex_digit (unat c div 4096), hex_digit (unat c div 256 mod 16), hex_digit (unat c div 16 mod 16), hex_digit (unat c mod 16)]"

lemma length_u_text: "length (u_text c) = 6"
  by (simp add: u_text_def)

lemma class_atom_u_text:
  assumes t: "bytes_at (s_buf s) p (u_text c)" and c: "c \<le> 0xffff" "\<not> is_hi_surrogate c" and n: "p + 6 \<le> s_buf_end s"
  shows "get_class_atom s p inclass = Parsed (Atom_char c, p + 6)"
proof -
  let ?buf = "s_buf s"
  have u: "unat c < 65536" using c(1) by (simp add: word_le_nat_alt)
  have p: "peek ?buf p = Parsed 92" "peek ?buf (p + 1) = Parsed 117" using t by (simp_all add: u_text_def peek_bytes)
  have b: "bytes_at ?buf (p + 2) [hex_digit (unat c div 4096), hex_digit (unat c div 256 mod 16), hex_digit (unat c div 16 mod 16), hex_digit (unat c mod 16)]"
    using t by (simp add: u_text_def)
  have h: "escape_digits 4 ?buf (p + 2) 0 = Parsed (Some c)" using escape_digits_4 [OF b u] by simp
  obtain x where x: "peek ?buf (p + 2) = Parsed x" "x \<noteq> 123"
  proof -
    have "unat c div 4096 < 16" using u by simp
    from hex_digit_value [OF this] have "hex_digit (unat c div 4096) \<noteq> 123" by (auto simp: from_hex_def)
    with b that show ?thesis by (simp add: peek_bytes)
  qed
  have "hex_escape ?buf (p + 1) (p + 2) 4 a = Parsed (uint c, p + 6)" for a
    using x h c(2) by (auto simp: hex_escape_def is_hi_surrogate_def)
  then have "lre_parse_escape ?buf (p + 1) a = Parsed (uint c, p + 6)" for a using p(2) by (simp add: lre_parse_escape_def)
  then have "escape_atom s (p + 1) = Parsed (Atom_char c, p + 6)" by (simp add: escape_atom_def)
  then show ?thesis using p n by (simp add: get_class_atom_def)
qed

subsection \<open>Adding an interval above all others\<close>

lemma compress_ascending: "sorted_wrt (<) ps \<Longrightarrow> even (length ps) \<Longrightarrow> compress_pts ps = ps"
proof (induction ps rule: compress_pts.induct)
  case (1 a b xs)
  then have "join_pts b xs = (b, xs)" by (cases "(b, xs)" rule: join_pts.cases) auto
  then show ?case using 1 by auto
qed simp_all

lemma op_pts_above:
  "\<forall>x\<in>set xs. x < lo \<Longrightarrow> lo < hi \<Longrightarrow> op_pts CR_OP_UNION pa False xs [lo, hi] = xs @ (if pa = odd (length xs) then [lo, hi] else [])"
  by (induction xs arbitrary: pa) auto

lemma cr_add_point_quiet:
  "\<forall>n. \<not> alloc_fails cr n \<Longrightarrow> cr_add_point cr v = Some (r, cr') \<Longrightarrow> r = 0 \<and> alloc_fails cr' = alloc_fails cr"
  by (auto simp: cr_add_point_def cr_realloc_def cr_put_def bind_eq_Some_conv Let_def split: if_splits)

lemma cr_op_loop_quiet:
  "\<forall>n. \<not> alloc_fails cr n \<Longrightarrow> cr_op_loop op a ai b bi cr = Some (r, cr') \<Longrightarrow> r = 0 \<and> alloc_fails cr' = alloc_fails cr"
proof (induction op a ai b bi cr rule: cr_op_loop.induct)
  case (1 op a ai b bi cr)
  note e = 1(3) [unfolded cr_op_loop.simps [of op a ai b bi cr]]
  show ?case
  proof (cases "cr_op_next a ai b bi")
    case None
    then show ?thesis using e by (auto simp: cr_compress_def split: prod.splits)
  next
    case (Some t)
    then obtain v ai' bi' where t: "cr_op_next a ai b bi = Some (v, ai', bi')" by (cases t) auto
    then obtain r1 cr1 where p: "cr_op_point op ai' bi' v cr = Some (r1, cr1)" using e by (auto split: option.splits)
    then have q: "r1 = 0" "alloc_fails cr1 = alloc_fails cr"
      using cr_add_point_quiet [OF 1(2)] by (auto simp: cr_op_point_def split: if_splits)
    then show ?thesis using 1(1) [OF t refl refl p refl] 1(2) e t p by simp
  qed
qed

lemma cr_op_pts:
  assumes "cr_ok cr" "cr_len cr = 0" "\<forall>n. \<not> alloc_fails cr n" "even (length a)" "even (length b)"
  obtains cr' where "cr_op cr a b op = Some (0, cr')" "cr_ok cr'" "alloc_fails cr' = alloc_fails cr" "cr_pts cr' = compress_pts (op_pts op False False a b)"
proof -
  have f: "\<not> cr_is_in op False False" by (cases op) auto
  obtain r cr' where l: "cr_op_loop op a 0 b 0 cr = Some (r, cr')"
    "r = 0 \<and> (\<exists>cr1. cr' = cr_compress cr1 \<and> cr_ok cr1 \<and> cr_pts cr1 = op_pts op False False a b) \<or> r = -1"
    using cr_op_loop_ok [OF assms(1), of op 0 0 a b] assms(2) f by (auto simp: cr_pts_def)
  have q: "r = 0" "alloc_fails cr' = alloc_fails cr" using cr_op_loop_quiet [OF assms(3) l(1)] by simp_all
  then obtain cr1 where c: "cr' = cr_compress cr1" "cr_ok cr1" "cr_pts cr1 = op_pts op False False a b" using l(2) by auto
  have "even (cr_len cr1)" unfolding length_cr_pts [OF c(2), symmetric] c(3) using assms(4,5) by (simp add: even_op_pts)
  from cr_compress_ok [OF c(2) this] show thesis using that [of cr'] l(1) q c by (simp add: cr_op_def)
qed

abbreviation cleared :: "CharRange \<Rightarrow> CharRange" where
  "cleared cr \<equiv> cr\<lparr>cr_len := 0, cr_size := 0, points := []\<rparr>"

lemma cr_union1_pts:
  assumes "\<forall>n. \<not> alloc_fails cr n" "even (length (cr_pts cr))" "even (length b)"
  obtains cr' where "cr_union1 cr b = Some (0, cr')" "cr_ok cr'" "alloc_fails cr' = alloc_fails cr"
    "cr_pts cr' = compress_pts (op_pts CR_OP_UNION False False (cr_pts cr) b)"
  using cr_op_pts [of "cleared cr" "cr_pts cr" b CR_OP_UNION] assms
  by (auto simp: cr_union1_def cr_pts_def [symmetric]) (auto simp: cr_ok_def)

lemma union_above:
  assumes "\<forall>n. \<not> alloc_fails cr n" "sorted_wrt (<) (cr_pts cr @ [lo, hi])" "even (length (cr_pts cr))"
  obtains cr' where "cr_union_interval cr lo (hi - 1) = Some (0, cr')" "cr_ok cr'" "\<forall>n. \<not> alloc_fails cr' n" "cr_pts cr' = cr_pts cr @ [lo, hi]"
proof -
  obtain cr' where c: "cr_union1 cr [lo, hi] = Some (0, cr')" "cr_ok cr'" "alloc_fails cr' = alloc_fails cr"
    "cr_pts cr' = compress_pts (op_pts CR_OP_UNION False False (cr_pts cr) [lo, hi])" by (rule cr_union1_pts [OF assms(1,3), of "[lo, hi]"]) simp
  have s: "\<forall>x\<in>set (cr_pts cr). x < lo" "lo < hi" using assms(2) by (auto simp: sorted_wrt_append)
  have "compress_pts (cr_pts cr @ [lo, hi]) = cr_pts cr @ [lo, hi]" using compress_ascending [OF assms(2)] assms(3) by simp
  then have "cr_pts cr' = cr_pts cr @ [lo, hi]" using op_pts_above [OF s, of False] assms(3) c(4) by simp
  then show thesis using that [of cr'] c assms(1) by (simp add: cr_union_interval_def)
qed

subsection \<open>Classes\<close>

fun pairs_text :: "u32 list \<Rightarrow> u8 list" where
  "pairs_text (lo # hi # ps) = u_text lo @ [45] @ u_text (hi - 1) @ pairs_text ps"
| "pairs_text ps = []"

definition class_text :: "u32 list \<Rightarrow> u8 list" where
  "class_text ps = [91] @ pairs_text ps @ [93]"

text \<open>Points that are written without surrogate pairs.\<close>

definition writable :: "u32 list \<Rightarrow> bool" where
  "writable ps \<longleftrightarrow> ascending ps \<and> (\<forall>p\<in>set ps. p \<le> 0x10000 \<and> \<not> is_hi_surrogate p \<and> \<not> is_hi_surrogate (p - 1))"

lemma class_member_text:
  assumes t: "bytes_at (s_buf s) p (u_text lo @ [45] @ u_text (hi - 1))" "p + 13 \<le> s_buf_end s"
    and c: "lo < hi" "hi \<le> 0x10000" "\<not> is_hi_surrogate lo" "\<not> is_hi_surrogate (hi - 1)"
    and u: "cr_union_interval cr lo (hi - 1) = Some (0, cr')"
  shows "class_member s p cr = Parsed (cr', p + 13)"
proof -
  have b: "bytes_at (s_buf s) p (u_text lo)" "peek (s_buf s) (p + 6) = Parsed 45" "bytes_at (s_buf s) (p + 7) (u_text (hi - 1))"
    using t(1) by (simp_all add: bytes_at_append length_u_text peek_bytes add.commute [of p])
  have w: "lo \<le> 0xffff" "hi - 1 \<le> 0xffff" "\<not> hi - 1 < lo" using c(1,2) by unat_arith+
  have "get_class_atom s p True = Parsed (Atom_char lo, p + 6)" by (rule class_atom_u_text [OF b(1) w(1) c(3)]) (use t(2) in simp)
  moreover have "get_class_atom s (p + 7) True = Parsed (Atom_char (hi - 1), p + 13)" using class_atom_u_text [OF b(3) w(2) c(4), of True] t(2) by simp
  moreover have "peek (s_buf s) (p + 7) = Parsed 92" using b(3) by (simp add: u_text_def peek_bytes)
  ultimately show ?thesis using b(2) w(3) u by (simp add: class_member_def add.commute [of 7 p])
qed

lemma class_loop_text:
  assumes "bytes_at (s_buf s) p (pairs_text ps @ [93])" "p + length (pairs_text ps) \<le> s_buf_end s" "writable ps" "length ps < n"
    and "cr_ok cr" "\<forall>n. \<not> alloc_fails cr n" "ascending (cr_pts cr @ ps)"
  shows "\<exists>cr'. class_loop n s p cr = Parsed (cr', p + length (pairs_text ps)) \<and> cr_ok cr' \<and> (\<forall>n. \<not> alloc_fails cr' n) \<and> cr_pts cr' = cr_pts cr @ ps"
  using assms
proof (induction ps arbitrary: n p cr rule: pairs_text.induct)
  case (1 lo hi ps)
  obtain m where n: "n = Suc m" using 1(5) by (cases n) auto
  have w: "lo < hi" "hi \<le> 0x10000" "\<not> is_hi_surrogate lo" "\<not> is_hi_surrogate (hi - 1)" "writable ps"
    using 1(4) by (auto simp: writable_def ascending_def)
  have s: "sorted_wrt (<) (cr_pts cr @ [lo, hi])" "even (length (cr_pts cr))" using 1(4,8) by (auto simp: ascending_def sorted_wrt_append writable_def)
  obtain cr1 where c: "cr_union_interval cr lo (hi - 1) = Some (0, cr1)" "cr_ok cr1" "\<forall>n. \<not> alloc_fails cr1 n" "cr_pts cr1 = cr_pts cr @ [lo, hi]"
    by (rule union_above [OF 1(7) s])
  have b: "bytes_at (s_buf s) p (u_text lo @ [45] @ u_text (hi - 1))" "bytes_at (s_buf s) (p + 13) (pairs_text ps @ [93])"
    using 1(2) by (simp_all add: bytes_at_append length_u_text add.commute [of p])
  have l: "p + 13 + length (pairs_text ps) \<le> s_buf_end s" using 1(3) by (simp add: length_u_text)
  have "class_member s p cr = Parsed (cr1, p + 13)" by (rule class_member_text [OF b(1) _ w(1-4) c(1)]) (use l in simp)
  moreover have "peek (s_buf s) p = Parsed 92" using b(1) by (simp add: u_text_def peek_bytes)
  moreover obtain cr' where "class_loop m s (p + 13) cr1 = Parsed (cr', p + 13 + length (pairs_text ps))" "cr_ok cr'" "\<forall>n. \<not> alloc_fails cr' n"
    "cr_pts cr' = cr_pts cr1 @ ps"
    using 1(1) [OF b(2) l w(5) _ c(2,3), of m] 1(5,8) n c(4) by auto
  ultimately show ?case using n c(4) by (simp add: length_u_text)
next
  case "2_1"
  then show ?case by (cases n) (auto simp: peek_bytes)
qed (auto simp: writable_def ascending_def)

definition opts_of :: "REParseState \<Rightarrow> re_opts" where
  "opts_of s = \<lparr>o_ignore_case = s_ignore_case s, o_is_utf16 = s_is_utf16 s, o_dotall = s_dotall s, o_tables = s_tables s\<rparr>"

lemma cr_canonicalize_pts:
  assumes "\<forall>n. \<not> alloc_fails cr n" "even (length (cr_pts cr))"
  obtains cr' where "cr_canonicalize cr = Parsed cr'" "cr_pts cr' = canonical_pts (cr_pts cr)"
proof -
  define a where "a = compress_pts (op_pts CR_OP_INTER False False (cr_pts cr) [97, 123])"
  have i: "\<forall>n. \<not> alloc_fails (cr_init (alloc_fails cr)) n" using assms(1) by (simp add: cr_init_def)
  obtain cr1 where 1: "cr_op (cr_init (alloc_fails cr)) (cr_pts cr) [97, 123] CR_OP_INTER = Some (0, cr1)" "cr_pts cr1 = a"
    using cr_op_pts [OF cr_init_ok(1) cr_init_ok(2) i assms(2), of "[97, 123]" CR_OP_INTER] a_def by auto
  have "even (length (map (\<lambda>x. x + (65 - 97)) a))" by (simp add: a_def compress_even)
  then obtain cr2 where "cr_union1 cr (map (\<lambda>x. x + (65 - 97)) a) = Some (0, cr2)"
    "cr_pts cr2 = compress_pts (op_pts CR_OP_UNION False False (cr_pts cr) (map (\<lambda>x. x + (65 - 97)) a))" by (rule cr_union1_pts [OF assms(1,2)])
  then show thesis using that [of cr2] 1 by (simp add: cr_canonicalize_def canonical_pts_def a_def [symmetric])
qed

lemma parse_class_text:
  assumes t: "bytes_at (s_buf s) p (class_text ps)" "p + length (class_text ps) \<le> s_buf_end s" and w: "writable ps"
    and q: "\<forall>n. \<not> s_alloc_fails s n" and e: "emit_class (opts_of s) ps = Some code"
  shows "re_parse_char_class s p = Parsed (code, p + length (class_text ps))"
proof -
  have b: "bytes_at (s_buf s) (p + 1) (pairs_text ps @ [93])" using t(1) by (simp add: class_text_def)
  obtain x where x: "peek (s_buf s) (p + 1) = Parsed x" "x \<noteq> 94"
    using b by (cases ps rule: pairs_text.cases) (auto simp: u_text_def peek_bytes)
  have "length ps \<le> length (pairs_text ps)" using w unfolding writable_def ascending_def
    by (induction ps rule: pairs_text.induct) (auto simp: length_u_text)
  then have n: "length ps < length (s_buf s)" using t(2) by (simp add: class_text_def s_buf_end_def)
  have i: "cr_ok (new_range s)" "\<forall>n. \<not> alloc_fails (new_range s) n" "cr_pts (new_range s) = []"
    using q cr_init_ok by (simp_all add: new_range_def) (simp_all add: cr_init_def cr_pts_def)
  have "p + 1 + length (pairs_text ps) \<le> s_buf_end s" "ascending ([] @ ps)" using t(2) w by (auto simp: class_text_def writable_def)
  from class_loop_text [OF b this(1) w n i(1,2), unfolded i(3), OF this(2)]
  obtain cr where l: "class_loop (length (s_buf s)) s (p + 1) (new_range s) = Parsed (cr, p + 1 + length (pairs_text ps))"
    and cr: "cr_pts cr = ps" "\<forall>n. \<not> alloc_fails cr n" by auto
  have "even (length (cr_pts cr))" using w cr(1) by (simp add: writable_def ascending_def)
  then obtain cr' where "cr_canonicalize cr = Parsed cr'" "cr_pts cr' = canonical_pts ps"
    using cr_canonicalize_pts [OF cr(2)] cr(1) by metis
  then show ?thesis using x e l cr(1) by (auto simp: re_parse_char_class_def emit_range_def class_text_def emit_class_def opts_of_def)
qed

end
