(* ===== verification/RegexpPrint.thy ===== *)
theory RegexpPrint
  imports RegexpLex
begin

text \<open>
  Patterns as text: a printer for the trees of \<open>RegexpEmit\<close>, and the proof that the parser, given the printed pattern, emits exactly
  the code of the tree. With the theorems on trees this makes them theorems on texts.
\<close>

subsection \<open>The printer\<close>

definition special :: "u8 list" where
  "special = [94, 36, 46, 123, 42, 43, 63, 40, 92, 91, 93, 125, 124, 41]"

definition char_text :: "u32 \<Rightarrow> u8 list" where
  "char_text c =
     (if 0 < c \<and> c < 128 \<and> ucast c \<notin> set special then [ucast c]
      else u_text c)"

definition count_text :: "nat \<Rightarrow> nat \<Rightarrow> u8 list" where
  "count_text quant_min quant_max =
     (if quant_max = INT32_MAX then if quant_min = 0 then [42] else if quant_min = 1 then [43] else [123] @ dec quant_min @ [44, 125]
      else if quant_min = 0 \<and> quant_max = 1 then [63]
      else [123] @ dec quant_min @ [44] @ dec quant_max @ [125])"

text \<open>Disjunctions are at level 0, sequences and assertions at level 1, atoms at level 2.\<close>

fun level_of :: "regex \<Rightarrow> nat" where
  "level_of (RAlt a b) = 0"
| "level_of (RChar c) = 2"
| "level_of (RClass ps) = 2"
| "level_of RDot = 2"
| "level_of (RGroup a) = 2"
| "level_of e = 1"

definition wrap :: "nat \<Rightarrow> regex \<Rightarrow> u8 list \<Rightarrow> u8 list" where
  "wrap k e t = (if k \<le> level_of e then t else [40, 63, 58] @ t @ [41])"

fun pattern_text :: "regex \<Rightarrow> u8 list" where
  "pattern_text (RChar c) = char_text c"
| "pattern_text (RClass ps) = class_text ps"
| "pattern_text RDot = [46]"
| "pattern_text RLineStart = [94]"
| "pattern_text RLineEnd = [36]"
| "pattern_text (RWordBoundary neg) = [92, if neg then 66 else 98]"
| "pattern_text (RBackRef n) = []"
| "pattern_text REmpty = []"
| "pattern_text (RSeq a b) = wrap 1 a (pattern_text a) @ wrap 1 b (pattern_text b)"
| "pattern_text (RAlt a b) = pattern_text a @ [124] @ wrap 1 b (pattern_text b)"
| "pattern_text (RGroup a) = [40] @ pattern_text a @ [41]"
| "pattern_text (RLook neg a) = [40, 63, if neg then 33 else 61] @ pattern_text a @ [41]"
| "pattern_text (RQuant a quant_min quant_max greedy) =
     wrap 2 a (pattern_text a) @ count_text quant_min quant_max @ (if greedy then [] else [63])"

text \<open>What the printer covers: no back references, and characters that are written without surrogate pairs.\<close>

fun printable :: "regex \<Rightarrow> bool" where
  "printable (RChar c) \<longleftrightarrow> c \<le> 0xffff \<and> \<not> is_hi_surrogate c"
| "printable (RClass ps) \<longleftrightarrow> writable ps"
| "printable (RBackRef n) \<longleftrightarrow> False"
| "printable (RSeq a b) \<longleftrightarrow> printable a \<and> printable b"
| "printable (RAlt a b) \<longleftrightarrow> printable a \<and> printable b"
| "printable (RGroup a) \<longleftrightarrow> printable a"
| "printable (RLook neg a) \<longleftrightarrow> printable a"
| "printable (RQuant a quant_min quant_max greedy) \<longleftrightarrow> printable a \<and> quant_min \<le> quant_max \<and> quant_max \<le> INT32_MAX"
| "printable e \<longleftrightarrow> True"


subsection \<open>Reading printed characters and counts\<close>

fun digits_from :: "nat \<Rightarrow> u8 list \<Rightarrow> nat" where
  "digits_from v [] = v"
| "digits_from v (c # cs) = digits_from (v * 10 + unat (c - 48)) cs"

lemma digits_from_ge: "v \<le> digits_from v cs"
proof (induction cs arbitrary: v)
  case (Cons c cs)
  have "v \<le> v * 10 + unat (c - 48)" by simp
  also have "\<dots> \<le> digits_from (v * 10 + unat (c - 48)) cs" by (rule Cons.IH)
  finally show ?case by simp
qed simp

lemma digits_from_mono: "v \<le> w \<Longrightarrow> digits_from v cs \<le> digits_from w cs"
  by (induction cs arbitrary: v w) auto

lemma digits_loop_digits:
  assumes "\<forall>c\<in>set ds. is_digit c" "\<not> is_digit c"
  shows "v \<le> INT32_MAX \<Longrightarrow> digits_loop True p0 (ds @ c # rest) p v = Parsed (int (min INT32_MAX (digits_from v ds)), p + length ds)"
  using assms(1)
proof (induction ds arbitrary: p v)
  case (Cons d ds)
  let ?v = "v * 10 + unat (d - 48)"
  show ?case
  proof (cases "?v \<ge> INT32_MAX")
    case True
    then have "min INT32_MAX (digits_from ?v ds) = INT32_MAX" "min INT32_MAX (digits_from INT32_MAX ds) = INT32_MAX"
      using digits_from_ge [of ?v ds] digits_from_ge [of INT32_MAX ds] by simp_all
    then show ?thesis using Cons True by (simp add: Let_def)
  qed (use Cons in \<open>simp add: Let_def\<close>)
qed (use assms(2) in simp)

lemma digits_from_value: "digits_from v ds = fold (\<lambda>c v. 10 * v + unat (c - 48)) ds v"
  by (induction ds arbitrary: v) (simp_all add: mult.commute)

lemma digits_from_dec: "digits_from 0 (dec n) = n"
proof -
  have "takeWhile is_digit (dec n) = dec n" using dec_digits [of _ n] by (simp add: takeWhile_eq_all_conv)
  from digits_value_dec [of n, unfolded digits_value_def this] show ?thesis by (simp add: digits_from_value)
qed

lemma bytes_at_drop: "bytes_at buf p bs \<Longrightarrow> p + length bs \<le> length buf \<Longrightarrow> drop p buf = bs @ drop (p + length bs) buf"
proof (induction bs arbitrary: p)
  case (Cons b bs)
  then have "p < length buf" "buf ! p = b" by (auto simp: rd_eq split: if_splits)
  then have "drop p buf = b # drop (p + 1) buf" by (simp add: Cons_nth_drop_Suc [symmetric])
  with Cons show ?case by simp
qed simp

lemma parse_digits_dec:
  assumes "bytes_at buf p (dec n)" "rd buf (p + length (dec n)) = Some c" "\<not> is_digit c" "n \<le> INT32_MAX"
  shows "parse_digits buf p True = Parsed (int n, p + length (dec n))"
proof -
  let ?q = "p + length (dec n)"
  have "?q < length buf" "buf ! ?q = c" using assms(2) by (auto simp: rd_eq split: if_splits)
  then have "drop p buf = dec n @ c # drop (?q + 1) buf" using bytes_at_drop [OF assms(1)] by (simp add: Cons_nth_drop_Suc [symmetric])
  then show ?thesis using digits_loop_digits [of "dec n" c 0 p "drop (?q + 1) buf" p] dec_digits [of _ n] assms(3,4)
    by (simp add: parse_digits_def digits_from_dec)
qed


subsection \<open>Reading printed patterns\<close>

text \<open>The state after the code of a pattern has been emitted and its text read up to \<open>p\<close>.\<close>

definition after :: "u8 list \<Rightarrow> nat \<Rightarrow> nat \<Rightarrow> REParseState \<Rightarrow> REParseState" where
  "after code p cc s = s\<lparr>s_byte_code := s_byte_code s @ code, s_buf_ptr := p, s_capture_count := cc,
     s_group_names := s_group_names s @ replicate (cc - s_capture_count s) 0\<rparr>"

lemma after_simps [simp]:
  "s_byte_code (after code p cc s) = s_byte_code s @ code" "s_buf_ptr (after code p cc s) = p" "s_capture_count (after code p cc s) = cc"
  "s_buf (after code p cc s) = s_buf s" "s_is_utf16 (after code p cc s) = s_is_utf16 s" "s_ignore_case (after code p cc s) = s_ignore_case s"
  "s_dotall (after code p cc s) = s_dotall s" "s_tables (after code p cc s) = s_tables s" "s_buf_end (after code p cc s) = s_buf_end s"
  "s_alloc_fails (after code p cc s) = s_alloc_fails s"
  by (simp_all add: after_def s_buf_end_def)

lemma after_after:
  "s_capture_count s \<le> c1 \<Longrightarrow> c1 \<le> c2 \<Longrightarrow> after code2 p2 c2 (after code1 p1 c1 s) = after (code1 @ code2) p2 c2 s"
  by (simp add: after_def replicate_add [symmetric])

lemma opts_after [simp]: "opts_of (after code p cc s) = opts_of s"
  by (simp add: opts_of_def)

definition quant_start :: "u8 \<Rightarrow> bool" where
  "quant_start c \<longleftrightarrow> c \<in> {42, 43, 63, 123}"

lemma char_code_emit: "emit_char (opts_of s) c = Some code \<Longrightarrow> char_code s c = Parsed code"
  by (auto simp: emit_char_def char_code_def opts_of_def bind_eq_Some_conv split: if_splits)

lemma put_code_after: "put_code code s\<lparr>s_buf_ptr := p\<rparr> = after code p (s_capture_count s) s"
  by (simp add: put_code_def after_def)

text \<open>Atoms: what \<open>re_parse_term\<close> makes of an atom that a quantifier may follow.\<close>

definition reads_atom :: "(REParseState \<Rightarrow> bool \<Rightarrow> REParseState pr) \<Rightarrow> REParseState \<Rightarrow> u8 list \<Rightarrow> u8 list \<Rightarrow> nat \<Rightarrow> bool" where
  "reads_atom D s t code cc \<longleftrightarrow> (\<exists>s1. atom_term D s False = Parsed (s1, s_buf_ptr s + length t, mark s) \<and>
     (\<forall>p. s1\<lparr>s_buf_ptr := p\<rparr> = after code p cc s))"

lemma low8: "(c :: u32) < 128 \<Longrightarrow> ucast (ucast c :: u8) = c" "(c :: u32) < 128 \<Longrightarrow> (ucast c :: u8) < 128" "0 < c \<Longrightarrow> c < 128 \<Longrightarrow> (ucast c :: u8) \<noteq> 0"
proof -
  show a: "ucast (ucast c :: u8) = c" if "c < 128" for c :: u32
  proof -
    have "uint c < 128" using that by (simp add: word_less_def)
    then have "take_bit 8 (uint c) = uint c" by (simp add: take_bit_int_eq_self)
    then show ?thesis by (simp add: word_uint_eq_iff unsigned_ucast_eq unsigned_take_bit_eq)
  qed
  show "(ucast c :: u8) < 128" if "c < 128" for c :: u32
  proof -
    have u: "uint c < 128" using that by (simp add: word_less_def)
    then have "take_bit 8 (uint c) = uint c" by (simp add: take_bit_int_eq_self)
    then show ?thesis using u by (simp add: word_less_def unsigned_ucast_eq)
  qed
  show "(ucast c :: u8) \<noteq> 0" if "0 < c" "c < 128" using a [OF that(2)] that(1) by auto
qed

lemma reads_plain_char:
  assumes "bytes_at (s_buf s) (s_buf_ptr s) [ucast c]" "0 < c" "c < 128" "ucast c \<notin> set special" "emit_char (opts_of s) c = Some code"
  shows "reads_atom D s [ucast c] code (s_capture_count s)"
proof -
  let ?b = "ucast c :: u8"
  note l = low8(1) [OF assms(3)] low8(2) [OF assms(3)] low8(3) [OF assms(2,3)]
  have p: "peek (s_buf s) (s_buf_ptr s) = Parsed ?b" using assms(1) by (simp add: peek_bytes)
  have nl: "\<not> ?b \<ge> 128" using l(2) by (simp add: not_le)
  have "get_class_atom s (s_buf_ptr s) False = Parsed (Atom_char c, s_buf_ptr s + 1)"
    using assms(4) p l nl by (simp add: get_class_atom_def normal_char_def special_def)
  then have "class_atom_term s (s_buf_ptr s) False = Parsed (put_code code s, s_buf_ptr s + 1, mark s)"
    using char_code_emit [OF assms(5)] by (simp add: class_atom_term_def normal_char_term_def both_ways_def)
  then have "atom_term D s False = Parsed (put_code code s, s_buf_ptr s + 1, mark s)"
    using assms(4) p by (simp add: atom_term_def special_def Let_def)
  then show ?thesis unfolding reads_atom_def using put_code_after by auto
qed

lemma reads_escaped_char:
  assumes "bytes_at (s_buf s) (s_buf_ptr s) (u_text c)" "c \<le> 0xffff" "\<not> is_hi_surrogate c" "emit_char (opts_of s) c = Some code"
    and "s_buf_ptr s + 6 \<le> s_buf_end s"
  shows "reads_atom D s (u_text c) code (s_capture_count s)"
proof -
  let ?p = "s_buf_ptr s"
  have "get_class_atom s ?p False = Parsed (Atom_char c, ?p + 6)" by (rule class_atom_u_text [OF assms(1-3,5)])
  then have "class_atom_term s ?p False = Parsed (put_code code s, ?p + 6, mark s)"
    using char_code_emit [OF assms(4)] by (simp add: class_atom_term_def normal_char_term_def both_ways_def)
  then have "atom_term D s False = Parsed (put_code code s, ?p + 6, mark s)"
    using assms(1) by (simp add: u_text_def peek_bytes atom_term_def backslash_term_def Let_def)
  then show ?thesis unfolding reads_atom_def using put_code_after by (auto simp: length_u_text)
qed

text \<open>
  What the parser makes of the text \<open>t\<close> of a pattern \<open>e\<close>: of an atom, of some terms of an alternative, of some alternatives, and of a whole
  disjunction.
\<close>

definition there :: "REParseState \<Rightarrow> u8 list \<Rightarrow> bool" where
  "there s t \<longleftrightarrow> bytes_at (s_buf s) (s_buf_ptr s) t \<and> s_buf_ptr s + length t \<le> s_buf_end s \<and> s_buf s \<noteq> []"

definition then_char :: "REParseState \<Rightarrow> u8 list \<Rightarrow> u8 \<Rightarrow> bool" where
  "then_char s t c \<longleftrightarrow> rd (s_buf s) (s_buf_ptr s + length t) = Some c"

text \<open>Without memory the parser reads no class.\<close>

fun has_class :: "regex \<Rightarrow> bool" where
  "has_class (RClass ps) \<longleftrightarrow> True"
| "has_class (RSeq a b) \<longleftrightarrow> has_class a \<or> has_class b"
| "has_class (RAlt a b) \<longleftrightarrow> has_class a \<or> has_class b"
| "has_class (RGroup a) \<longleftrightarrow> has_class a"
| "has_class (RLook neg a) \<longleftrightarrow> has_class a"
| "has_class (RQuant a quant_min quant_max greedy) \<longleftrightarrow> has_class a"
| "has_class e \<longleftrightarrow> False"

definition emits :: "regex \<Rightarrow> REParseState \<Rightarrow> u8 list \<Rightarrow> nat \<Rightarrow> bool" where
  "emits e s code cc \<longleftrightarrow> emit (opts_of s) e (length (s_byte_code s)) (s_capture_count s) = Some (code, cc) \<and>
     (has_class e \<longrightarrow> (\<forall>n. \<not> s_alloc_fails s n))"

definition reads_atoms :: "(REParseState \<Rightarrow> bool \<Rightarrow> REParseState pr) \<Rightarrow> regex \<Rightarrow> u8 list \<Rightarrow> bool" where
  "reads_atoms D e t \<longleftrightarrow> (\<forall>s code cc. there s t \<longrightarrow> emits e s code cc \<longrightarrow> reads_atom D s t code cc)"

definition reads_seq :: "(REParseState \<Rightarrow> bool \<Rightarrow> REParseState pr) \<Rightarrow> regex \<Rightarrow> u8 list \<Rightarrow> bool" where
  "reads_seq D e t \<longleftrightarrow> (\<exists>k\<le>length t. \<forall>s code cc c n start. there s t \<longrightarrow> then_char s t c \<longrightarrow> \<not> quant_start c \<longrightarrow> emits e s code cc \<longrightarrow>
     alternative_loop D (n + k) start s False = alternative_loop D n start (after code (s_buf_ptr s + length t) cc s) False)"

definition stops :: "REParseState \<Rightarrow> u8 list \<Rightarrow> u8 \<Rightarrow> bool" where
  "stops s t c \<longleftrightarrow> c = 124 \<or> c = 41 \<or> c = 0 \<and> s_buf_ptr s + length t = s_buf_end s"

definition reads_alts :: "(REParseState \<Rightarrow> bool \<Rightarrow> REParseState pr) \<Rightarrow> regex \<Rightarrow> u8 list \<Rightarrow> bool" where
  "reads_alts D e t \<longleftrightarrow> (\<exists>k\<le>length t. \<forall>s code cc c n. there s t \<longrightarrow> then_char s t c \<longrightarrow> stops s t c \<longrightarrow> emits e s code cc \<longrightarrow>
     pbind (re_parse_alternative D s False) (\<lambda>s1. disjunction_loop D (n + k) (length (s_byte_code s)) s1 False) =
     disjunction_loop D n (length (s_byte_code s)) (after code (s_buf_ptr s + length t) cc s) False)"

definition reads_dis :: "(REParseState \<Rightarrow> bool \<Rightarrow> REParseState pr) \<Rightarrow> regex \<Rightarrow> u8 list \<Rightarrow> bool" where
  "reads_dis D e t \<longleftrightarrow> (\<forall>s code cc c. there s t \<longrightarrow> then_char s t c \<longrightarrow> c \<noteq> 124 \<longrightarrow> stops s t c \<longrightarrow> emits e s code cc \<longrightarrow>
     D s False = Parsed (after code (s_buf_ptr s + length t) cc s))"

lemma seq_alts:
  assumes "reads_seq D e t"
  shows "reads_alts D e t"
proof -
  obtain k where k: "k \<le> length t" "\<And>s code cc c n start. there s t \<Longrightarrow> then_char s t c \<Longrightarrow> \<not> quant_start c \<Longrightarrow> emits e s code cc \<Longrightarrow>
     alternative_loop D (n + k) start s False = alternative_loop D n start (after code (s_buf_ptr s + length t) cc s) False"
    using assms unfolding reads_seq_def by blast
  show ?thesis unfolding reads_alts_def
  proof (intro exI [of _ 0] conjI allI impI)
    fix s code cc c n
    assume a: "there s t" "then_char s t c" "stops s t c" "emits e s code cc"
    have nq: "\<not> quant_start c" using a(3) by (auto simp: stops_def quant_start_def)
    have "length (s_buf s) = Suc (s_buf_end s)" using a(1) by (simp add: there_def s_buf_end_def)
    then have f: "length (s_buf s) = Suc (s_buf_end s - k) + k" using a(1) k(1) by (simp add: there_def)
    have "re_parse_alternative D s False = Parsed (after code (s_buf_ptr s + length t) cc s)"
      unfolding re_parse_alternative_def f k(2) [OF a(1,2) nq a(4)] using a(2,3) by (auto simp: stops_def then_char_def peek_bytes)
    then show "pbind (re_parse_alternative D s False) (\<lambda>s1. disjunction_loop D (n + 0) (length (s_byte_code s)) s1 False) =
      disjunction_loop D n (length (s_byte_code s)) (after code (s_buf_ptr s + length t) cc s) False" by simp
  qed simp
qed

lemma alts_dis:
  assumes "reads_alts (re_parse_disjunction d) e t"
  shows "reads_dis (re_parse_disjunction (Suc d)) e t"
proof -
  obtain k where k: "k \<le> length t" "\<And>s code cc c n. there s t \<Longrightarrow> then_char s t c \<Longrightarrow> stops s t c \<Longrightarrow> emits e s code cc \<Longrightarrow>
     pbind (re_parse_alternative (re_parse_disjunction d) s False) (\<lambda>s1. disjunction_loop (re_parse_disjunction d) (n + k) (length (s_byte_code s)) s1 False) =
     disjunction_loop (re_parse_disjunction d) n (length (s_byte_code s)) (after code (s_buf_ptr s + length t) cc s) False"
    using assms unfolding reads_alts_def by blast
  show ?thesis unfolding reads_dis_def
  proof (intro allI impI)
    fix s code cc c
    assume a: "there s t" "then_char s t c" "c \<noteq> 124" "stops s t c" "emits e s code cc"
    have "length (s_buf s) = Suc (s_buf_end s)" using a(1) by (simp add: there_def s_buf_end_def)
    then have f: "length (s_buf s) = Suc (s_buf_end s - k) + k" using a(1) k(1) by (simp add: there_def)
    show "re_parse_disjunction (Suc d) s False = Parsed (after code (s_buf_ptr s + length t) cc s)"
      unfolding re_parse_disjunction.simps f k(2) [OF a(1,2,4,5)] using a(2,3) by (simp add: then_char_def peek_bytes)
  qed
qed

lemma emits_caps: "emits e s code cc \<Longrightarrow> s_capture_count s \<le> cc"
proof -
  have "emit opts e start cc0 = Some (code, cc) \<Longrightarrow> cc0 \<le> cc" for opts start cc0
    by (induction e arbitrary: start cc0 code cc) (fastforce simp: bind_eq_Some_conv split: if_splits)+
  then show "emits e s code cc \<Longrightarrow> s_capture_count s \<le> cc" by (auto simp: emits_def)
qed

lemma seq_append:
  assumes a: "reads_seq D a ta" and b: "reads_seq D b tb" and h: "\<And>c cs. tb = c # cs \<Longrightarrow> \<not> quant_start c"
  shows "reads_seq D (RSeq a b) (ta @ tb)"
proof -
  obtain ka where ka: "ka \<le> length ta" "\<And>s code cc c n start. there s ta \<Longrightarrow> then_char s ta c \<Longrightarrow> \<not> quant_start c \<Longrightarrow> emits a s code cc \<Longrightarrow>
     alternative_loop D (n + ka) start s False = alternative_loop D n start (after code (s_buf_ptr s + length ta) cc s) False"
    using a unfolding reads_seq_def by blast
  obtain kb where kb: "kb \<le> length tb" "\<And>s code cc c n start. there s tb \<Longrightarrow> then_char s tb c \<Longrightarrow> \<not> quant_start c \<Longrightarrow> emits b s code cc \<Longrightarrow>
     alternative_loop D (n + kb) start s False = alternative_loop D n start (after code (s_buf_ptr s + length tb) cc s) False"
    using b unfolding reads_seq_def by blast
  show ?thesis unfolding reads_seq_def
  proof (intro exI [of _ "kb + ka"] conjI allI impI)
    fix s code cc c n start
    assume s: "there s (ta @ tb)" "then_char s (ta @ tb) c" "\<not> quant_start c" "emits (RSeq a b) s code cc"
    then obtain ca c1 cb where e: "emits a s ca c1" "emit (opts_of s) b (length (s_byte_code s) + length ca) c1 = Some (cb, cc)" "code = ca @ cb"
      "has_class b \<longrightarrow> (\<forall>n. \<not> s_alloc_fails s n)" by (auto simp: emits_def bind_eq_Some_conv)
    let ?s = "after ca (s_buf_ptr s + length ta) c1 s"
    have eb: "emits b ?s cb cc" using e(2,4) by (simp add: emits_def)
    have ta: "there s ta" and tb: "there ?s tb" "then_char ?s tb c" using s(1,2) by (auto simp: there_def then_char_def bytes_at_append add.assoc)
    obtain c' where c': "then_char s ta c'" "\<not> quant_start c'"
      using s h by (cases tb) (auto simp: there_def then_char_def bytes_at_append)
    have "alternative_loop D (n + (kb + ka)) start s False = alternative_loop D (n + kb) start ?s False"
      using ka(2) [OF ta c' e(1), of "n + kb"] by (simp add: add.assoc)
    also have "\<dots> = alternative_loop D n start (after cb (s_buf_ptr ?s + length tb) cc ?s) False" by (rule kb(2) [OF tb s(3) eb])
    also have "after cb (s_buf_ptr ?s + length tb) cc ?s = after code (s_buf_ptr s + length (ta @ tb)) cc s"
      using after_after [OF emits_caps [OF e(1)] emits_caps [OF eb, simplified]] e(3) by (simp add: add.assoc)
    finally show "alternative_loop D (n + (kb + ka)) start s False =
        alternative_loop D n start (after code (s_buf_ptr s + length (ta @ tb)) cc s) False" .
  qed (use ka(1) kb(1) in simp)
qed


lemma drop_length_append: "drop (length xs) (xs @ ys) = ys"
  by simp

lemma alts_append:
  assumes a: "reads_alts D a ta" and b: "reads_seq D b tb"
  shows "reads_alts D (RAlt a b) (ta @ [124] @ tb)"
proof -
  obtain ka where ka: "ka \<le> length ta" "\<And>s code cc c n. there s ta \<Longrightarrow> then_char s ta c \<Longrightarrow> stops s ta c \<Longrightarrow> emits a s code cc \<Longrightarrow>
     pbind (re_parse_alternative D s False) (\<lambda>s1. disjunction_loop D (n + ka) (length (s_byte_code s)) s1 False) =
     disjunction_loop D n (length (s_byte_code s)) (after code (s_buf_ptr s + length ta) cc s) False"
    using a unfolding reads_alts_def by blast
  obtain kb where kb: "kb \<le> length tb" "\<And>s code cc c n start. there s tb \<Longrightarrow> then_char s tb c \<Longrightarrow> \<not> quant_start c \<Longrightarrow> emits b s code cc \<Longrightarrow>
     alternative_loop D (n + kb) start s False = alternative_loop D n start (after code (s_buf_ptr s + length tb) cc s) False"
    using b unfolding reads_seq_def by blast
  show ?thesis unfolding reads_alts_def
  proof (intro exI [of _ "Suc ka"] conjI allI impI)
    fix s :: REParseState and code cc c n
    let ?t = "ta @ [124] @ tb" and ?start = "length (s_byte_code s)"
    assume s: "there s ?t" "then_char s ?t c" "stops s ?t c" "emits (RAlt a b) s code cc"
    then obtain ca c1 cb where e: "emits a s ca c1" "emit (opts_of s) b (?start + length ca + 10) c1 = Some (cb, cc)"
      "code = emit_alternatives ca cb" "has_class b \<longrightarrow> (\<forall>n. \<not> s_alloc_fails s n)" by (auto simp: emits_def bind_eq_Some_conv)
    have ta: "there s ta" "then_char s ta 124" "stops s ta 124" using s(1) by (auto simp: there_def then_char_def stops_def bytes_at_append)
    let ?s = "after ca (s_buf_ptr s + length ta) c1 s"
    let ?front = "s_byte_code s @ re_emit_op_u32 REOP_split_next_first (of_nat (length ca + 5)) @ ca"
    let ?s1 = "?s\<lparr>s_buf_ptr := s_buf_ptr ?s + 1, s_byte_code := ?front @ re_emit_op_u32 REOP_goto 0\<rparr>"
    let ?s2 = "after cb (s_buf_ptr s + length ?t) cc ?s1"
    have eb: "emits b ?s1 cb cc" using e(2,4) by (simp add: emits_def opts_of_def ac_simps)
    have tb: "there ?s1 tb" "then_char ?s1 tb c" using s(1,2) by (auto simp: there_def then_char_def bytes_at_append s_buf_end_def add.assoc)
    have nq: "\<not> quant_start c" using s(3) by (auto simp: stops_def quant_start_def)
    have "length (s_buf s) = Suc (s_buf_end s)" using s(1) by (simp add: there_def s_buf_end_def)
    then have f: "length (s_buf ?s1) = Suc (s_buf_end s - kb) + kb" using s(1) kb(1) by (simp add: there_def)
    have q: "s_buf_ptr ?s1 + length tb = s_buf_ptr s + length ?t" by simp
    have alt: "re_parse_alternative D ?s1 False = Parsed ?s2"
      unfolding re_parse_alternative_def f kb(2) [OF tb nq eb] q using s(2,3) by (auto simp: stops_def then_char_def peek_bytes s_buf_end_def)
    have p: "peek (s_buf ?s) (s_buf_ptr ?s) = Parsed 124" using ta(2) by (simp add: then_char_def peek_bytes)
    have "pbind (re_parse_alternative D s False) (\<lambda>s1. disjunction_loop D (n + Suc ka) ?start s1 False) = disjunction_loop D (Suc n) ?start ?s False"
      using ka(2) [OF ta e(1), of "Suc n"] by simp
    also have "\<dots> = disjunction_loop D n ?start (?s2\<lparr>s_byte_code := ?front @ re_emit_op_u32 REOP_goto (of_nat (length cb)) @ cb\<rparr>) False"
    proof -
      have "drop ?start (s_byte_code ?s) = ca" "take ?start (s_byte_code ?s) = s_byte_code s" by simp_all
      moreover have "drop (length ?front + 5) (s_byte_code ?s2) = cb"
      proof -
        have "s_byte_code ?s2 = (?front @ re_emit_op_u32 REOP_goto 0) @ cb" "length ?front + 5 = length (?front @ re_emit_op_u32 REOP_goto 0)" by simp_all
        then show ?thesis by (simp only: drop_length_append)
      qed
      ultimately show ?thesis using p alt by (simp add: Let_def)
    qed
    also have "?s2\<lparr>s_byte_code := ?front @ re_emit_op_u32 REOP_goto (of_nat (length cb)) @ cb\<rparr> = after code (s_buf_ptr s + length ?t) cc s"
      using emits_caps [OF e(1)] emits_caps [OF eb] e(3) by (simp add: after_def emit_alternatives_def replicate_add [symmetric])
    finally show "pbind (re_parse_alternative D s False) (\<lambda>s1. disjunction_loop D (n + Suc ka) ?start s1 False) =
        disjunction_loop D n ?start (after code (s_buf_ptr s + length ?t) cc s) False" .
  qed (use ka(1) in simp)
qed

text \<open>Terms.\<close>

lemma seq_term:
  assumes "t = c0 # cs" "c0 \<noteq> 124" "c0 \<noteq> 41"
    and "\<And>s code cc c. there s t \<Longrightarrow> then_char s t c \<Longrightarrow> \<not> quant_start c \<Longrightarrow> emits e s code cc \<Longrightarrow>
      re_parse_term D s False = Parsed (after code (s_buf_ptr s + length t) cc s)"
  shows "reads_seq D e t"
  unfolding reads_seq_def
proof (intro exI [of _ 1] conjI allI impI)
  fix s code cc c n start
  assume s: "there s t" "then_char s t c" "\<not> quant_start c" "emits e s code cc"
  have "\<not> s_buf_ptr s \<ge> s_buf_end s" "peek (s_buf s) (s_buf_ptr s) = Parsed c0" using s(1) assms(1) by (auto simp: there_def peek_bytes)
  then show "alternative_loop D (n + 1) start s False = alternative_loop D n start (after code (s_buf_ptr s + length t) cc s) False"
    using assms(2,3) assms(4) [OF s] by (simp add: Let_def)
qed (use assms(1) in simp)

lemma quantifier_none: "then_char s t c \<Longrightarrow> \<not> quant_start c \<Longrightarrow> quantifier_count s (s_buf_ptr s + length t) = Parsed (None, s_buf_ptr s + length t)"
  by (simp add: then_char_def quantifier_count_def peek_bytes quant_start_def)

lemma s_buf_of: "\<forall>p. s1\<lparr>s_buf_ptr := p\<rparr> = after code p cc s \<Longrightarrow> s_buf s1 = s_buf s \<and> s_byte_code s1 = s_byte_code s @ code \<and>
    s_capture_count s1 = cc \<and> s_is_utf16 s1 = s_is_utf16 s"
proof -
  assume "\<forall>p. s1\<lparr>s_buf_ptr := p\<rparr> = after code p cc s"
  then have a: "s1\<lparr>s_buf_ptr := 0\<rparr> = after code 0 cc s" by blast
  show ?thesis
    using arg_cong [OF a, of s_buf] arg_cong [OF a, of s_byte_code] arg_cong [OF a, of s_capture_count] arg_cong [OF a, of s_is_utf16] by simp
qed

lemma atoms_seq:
  assumes "reads_atoms D e t" "t = c0 # cs" "c0 \<noteq> 124" "c0 \<noteq> 41"
  shows "reads_seq D e t"
proof (rule seq_term [OF assms(2-4)])
  fix s code cc c
  assume s: "there s t" "then_char s t c" "\<not> quant_start c" "emits e s code cc"
  then obtain s1 where s1: "atom_term D s False = Parsed (s1, s_buf_ptr s + length t, mark s)" "\<forall>p. s1\<lparr>s_buf_ptr := p\<rparr> = after code p cc s"
    using assms(1) unfolding reads_atoms_def reads_atom_def by blast
  have "quantifier_count s1 (s_buf_ptr s + length t) = Parsed (None, s_buf_ptr s + length t)"
    using quantifier_none [OF s(2,3)] s(2,3) s_buf_of [OF s1(2)] by (simp add: then_char_def quantifier_count_def peek_bytes quant_start_def)
  then show "re_parse_term D s False = Parsed (after code (s_buf_ptr s + length t) cc s)"
    using s1 by (simp add: re_parse_term_def mark_def quantifier_term_def)
qed

lemma not_digit: "\<not> is_digit 44" "\<not> is_digit 125" "\<not> is_digit 123"
  by (simp_all add: is_digit_def)

lemma dec_first: "bytes_at buf p (dec n) \<Longrightarrow> \<exists>c. peek buf p = Parsed c \<and> is_digit c"
  using dec_digits [of "hd (dec n)" n] by (cases "dec n") (auto simp: peek_bytes)

lemma quantifier_count_text:
  assumes t: "bytes_at (s_buf s) p (count_text quant_min quant_max)" and n: "quant_min \<le> quant_max" "quant_max \<le> INT32_MAX"
  shows "quantifier_count s p = Parsed (Some (quant_min, quant_max), p + length (count_text quant_min quant_max))"
proof -
  consider "quant_max = INT32_MAX" "quant_min = 0" | "quant_max = INT32_MAX" "quant_min = 1" | "quant_min = 0" "quant_max = 1"
    | "quant_max = INT32_MAX" "quant_min \<noteq> 0" "quant_min \<noteq> 1"
    | "quant_max \<noteq> INT32_MAX" "\<not> (quant_min = 0 \<and> quant_max = 1)"
    by (cases "quant_max = INT32_MAX"; cases "quant_min = 0"; cases "quant_min = 1"; cases "quant_max = 1") simp_all
  then show ?thesis
  proof cases
    case 4
    let ?q = "p + 1 + length (dec quant_min)"
    have c: "rd (s_buf s) p = Some 123" "bytes_at (s_buf s) (p + 1) (dec quant_min)" "rd (s_buf s) ?q = Some 44" "rd (s_buf s) (?q + 1) = Some 125"
      using t 4 by (auto simp: count_text_def bytes_at_append)
    obtain d where d: "peek (s_buf s) (p + 1) = Parsed d" "is_digit d" using dec_first [OF c(2)] by blast
    have "parse_digits (s_buf s) (p + 1) True = Parsed (int quant_min, ?q)" using parse_digits_dec [OF c(2,3) not_digit(1)] n by simp
    then show ?thesis
      using c d 4 by (simp add: quantifier_count_def brace_count_def peek_bytes not_digit re_parse_expect_def count_text_def)
  next
    case 5
    let ?q = "p + 1 + length (dec quant_min)" let ?r = "?q + 1 + length (dec quant_max)"
    have c: "rd (s_buf s) p = Some 123" "bytes_at (s_buf s) (p + 1) (dec quant_min)" "rd (s_buf s) ?q = Some 44"
      "bytes_at (s_buf s) (?q + 1) (dec quant_max)" "rd (s_buf s) ?r = Some 125"
      using t 5 by (auto simp: count_text_def bytes_at_append add.assoc)
    obtain d where d: "peek (s_buf s) (p + 1) = Parsed d" "is_digit d" using dec_first [OF c(2)] by blast
    obtain d' where d': "peek (s_buf s) (?q + 1) = Parsed d'" "is_digit d'" using dec_first [OF c(4)] by blast
    have "parse_digits (s_buf s) (p + 1) True = Parsed (int quant_min, ?q)" "parse_digits (s_buf s) (?q + 1) True = Parsed (int quant_max, ?r)"
      using parse_digits_dec [OF c(2,3) not_digit(1)] parse_digits_dec [OF c(4,5) not_digit(2)] n by simp_all
    then show ?thesis
      using c d d' 5 n by (simp add: quantifier_count_def brace_count_def peek_bytes re_parse_expect_def count_text_def)
  qed (use t in \<open>simp_all add: count_text_def quantifier_count_def peek_bytes\<close>)
qed


lemma quant_seq:
  assumes a: "reads_atoms D a t" "t = c0 # cs" "c0 \<noteq> 124" "c0 \<noteq> 41" and n: "quant_min \<le> quant_max" "quant_max \<le> INT32_MAX"
  shows "reads_seq D (RQuant a quant_min quant_max greedy) (t @ count_text quant_min quant_max @ (if greedy then [] else [63]))"
    (is "reads_seq D _ ?t")
proof (rule seq_term [of _ c0 "cs @ count_text quant_min quant_max @ (if greedy then [] else [63])"])
  fix s code cc c
  assume s: "there s ?t" "then_char s ?t c" "\<not> quant_start c" "emits (RQuant a quant_min quant_max greedy) s code cc"
  let ?p = "s_buf_ptr s + length t" and ?las = "length (s_byte_code s)" let ?q = "?p + length (count_text quant_min quant_max)"
  obtain ca where e: "emits a s ca cc" "emit_quantifier ?las quant_min quant_max greedy (s_capture_count s) cc ca = Some code"
    using s(4) by (auto simp: emits_def bind_eq_Some_conv)
  have "there s t" using s(1) by (auto simp: there_def bytes_at_append)
  with e(1) a(1) obtain s1 where s1: "atom_term D s False = Parsed (s1, ?p, mark s)" "\<forall>p. s1\<lparr>s_buf_ptr := p\<rparr> = after ca p cc s"
    unfolding reads_atoms_def reads_atom_def by blast
  note S = s_buf_of [OF s1(2)]
  have b: "bytes_at (s_buf s1) ?p (count_text quant_min quant_max)" using s(1) S by (auto simp: there_def bytes_at_append)
  have "peek (s_buf s1) ?q = Parsed (if greedy then c else 63)"
    using s(1,2) S by (auto simp: there_def then_char_def bytes_at_append peek_bytes add.assoc)
  moreover have "c \<noteq> 63" using s(3) by (simp add: quant_start_def)
  moreover have "quantifier_count s1 ?p = Parsed (Some (quant_min, quant_max), ?q)" by (rule quantifier_count_text [OF b n])
  moreover have "s1\<lparr>s_byte_code := s_byte_code s @ code, s_buf_ptr := r\<rparr> = after code r cc s" for r
  proof -
    have "s1\<lparr>s_byte_code := s_byte_code s @ code, s_buf_ptr := r\<rparr> = (s1\<lparr>s_buf_ptr := r\<rparr>)\<lparr>s_byte_code := s_byte_code s @ code\<rparr>" by simp
    also have "\<dots> = after code r cc s" using s1(2) by (simp add: after_def)
    finally show ?thesis .
  qed
  ultimately show "re_parse_term D s False = Parsed (after code (s_buf_ptr s + length ?t) cc s)"
    using s1(1) e(2) S by (cases greedy) (simp_all add: re_parse_term_def mark_def quantifier_term_def Let_def add.assoc)
qed (use a(2-4) in simp_all)

lemma dis_group:
  assumes "reads_dis D e t"
  shows "reads_atoms D e ([40, 63, 58] @ t @ [41])"
  unfolding reads_atoms_def
proof (intro allI impI)
  fix s code cc
  assume s: "there s ([40, 63, 58] @ t @ [41])" "emits e s code cc"
  let ?s = "s\<lparr>s_buf_ptr := s_buf_ptr s + 3\<rparr>"
  have b: "peek (s_buf s) (s_buf_ptr s) = Parsed 40" "peek (s_buf s) (s_buf_ptr s + 1) = Parsed 63" "peek (s_buf s) (s_buf_ptr s + 2) = Parsed 58"
    "bytes_at (s_buf s) (s_buf_ptr s + 3) t" "rd (s_buf s) (s_buf_ptr s + 3 + length t) = Some 41"
    using s(1) by (simp_all add: there_def bytes_at_append peek_bytes numeral_3_eq_3)
  have "there ?s t" "then_char ?s t 41" "stops ?s t 41" "emits e ?s code cc"
    using s b(4,5) by (auto simp: there_def then_char_def stops_def emits_def opts_of_def s_buf_end_def)
  then have "D ?s False = Parsed (after code (s_buf_ptr s + 3 + length t) cc ?s)" using assms unfolding reads_dis_def by fastforce
  then have "in_group D s (s_buf_ptr s + 3) False = Parsed (after code (s_buf_ptr s + 3 + length t) cc ?s, s_buf_ptr s + 3 + length t + 1)"
    using b(5) by (simp add: in_group_def re_parse_expect_def peek_bytes)
  then have "atom_term D s False = Parsed (after code (s_buf_ptr s + 3 + length t) cc ?s, s_buf_ptr s + length ([40, 63, 58] @ t @ [41]), mark s)"
    using b(1-3) by (simp add: atom_term_def group_term_def Let_def)
  moreover have "(after code q cc ?s)\<lparr>s_buf_ptr := p\<rparr> = after code p cc s" for p q by (simp add: after_def)
  ultimately show "reads_atom D s ([40, 63, 58] @ t @ [41]) code cc" unfolding reads_atom_def by blast
qed

lemma dis_capture:
  assumes "reads_dis D a t" "\<And>c cs. t = c # cs \<Longrightarrow> c \<noteq> 63"
  shows "reads_atoms D (RGroup a) ([40] @ t @ [41])"
  unfolding reads_atoms_def
proof (intro allI impI)
  fix s code cc
  assume s: "there s ([40] @ t @ [41])" "emits (RGroup a) s code cc"
  let ?cc = "s_capture_count s"
  obtain ca where e: "?cc < 255" "emit (opts_of s) a (length (s_byte_code s) + 2) (?cc + 1) = Some (ca, cc)" "code = emit_capture ?cc ca"
    using s(2) by (auto simp: emits_def bind_eq_Some_conv split: if_splits)
  let ?s = "put_code (re_emit_op_u8 REOP_save_start ?cc) (s\<lparr>s_group_names := s_group_names s @ [0], s_capture_count := ?cc + 1, s_buf_ptr := s_buf_ptr s + 1\<rparr>)"
  have b: "peek (s_buf s) (s_buf_ptr s) = Parsed 40" "bytes_at (s_buf s) (s_buf_ptr s + 1) t" "rd (s_buf s) (s_buf_ptr s + 1 + length t) = Some 41"
    using s(1) by (simp_all add: there_def bytes_at_append peek_bytes)
  obtain x where x: "peek (s_buf s) (s_buf_ptr s + 1) = Parsed x" "x \<noteq> 63" using b(2,3) assms(2) by (cases t) (auto simp: peek_bytes)
  have "there ?s t" "then_char ?s t 41" "stops ?s t 41" "emits a ?s ca cc"
    using s e(2) b(2,3) by (auto simp: there_def then_char_def stops_def emits_def opts_of_def put_code_def s_buf_end_def)
  then have D: "D ?s False = Parsed (after ca (s_buf_ptr s + 1 + length t) cc ?s)" using assms(1) unfolding reads_dis_def by (fastforce simp: put_code_def)
  let ?s2 = "put_code (re_emit_op_u8 REOP_save_end ?cc) (after ca (s_buf_ptr s + 1 + length t) cc ?s)"
  have "re_parse_expect (s_buf ?s2) (s_buf_ptr ?s2) 41 = Parsed (s_buf_ptr s + 1 + length t + 1)"
    using b(3) by (simp add: re_parse_expect_def peek_bytes put_code_def)
  then have "atom_term D s False = Parsed (?s2, s_buf_ptr s + length ([40] @ t @ [41]), mark s)"
    using b(1) x e(1) D by (simp add: atom_term_def group_term_def capture_term_def Let_def mark_def)
  moreover have "?cc + 1 \<le> cc" using emits_caps [of a ?s ca cc] \<open>emits a ?s ca cc\<close> by (simp add: put_code_def)
  then have "?s2\<lparr>s_buf_ptr := p\<rparr> = after code p cc s" for p
    by (simp add: put_code_def after_def e(3) emit_capture_def replicate_Suc [symmetric] Suc_diff_le [symmetric] del: replicate_Suc)
  ultimately show "reads_atom D s ([40] @ t @ [41]) code cc" unfolding reads_atom_def by blast
qed


lemma dis_look:
  assumes "reads_dis D a t"
  shows "reads_seq D (RLook neg a) ([40, 63, if neg then 33 else 61] @ t @ [41])" (is "reads_seq D _ ?t")
proof (rule seq_term [of _ 40 "[63, if neg then 33 else 61] @ t @ [41]"])
  fix s code cc c
  assume s: "there s ?t" "then_char s ?t c" "\<not> quant_start c" "emits (RLook neg a) s code cc"
  let ?op = "if neg then REOP_negative_lookahead else REOP_lookahead" and ?pos = "length (s_byte_code s)"
  obtain ca where e: "emit (opts_of s) a (?pos + 5) (s_capture_count s) = Some (ca, cc)" "code = emit_lookahead neg ca"
    using s(4) by (auto simp: emits_def bind_eq_Some_conv)
  let ?st = "put_code (re_emit_op_u32 ?op 0) s" let ?s = "?st\<lparr>s_buf_ptr := s_buf_ptr s + 3\<rparr>"
  have b: "peek (s_buf s) (s_buf_ptr s) = Parsed 40" "peek (s_buf s) (s_buf_ptr s + 1) = Parsed 63"
    "peek (s_buf s) (s_buf_ptr s + 2) = Parsed (if neg then 33 else 61)"
    "bytes_at (s_buf s) (s_buf_ptr s + 3) t" "rd (s_buf s) (s_buf_ptr s + 3 + length t) = Some 41"
    using s(1) by (simp_all add: there_def bytes_at_append peek_bytes numeral_3_eq_3)
  have "there ?s t" "then_char ?s t 41" "stops ?s t 41" "emits a ?s ca cc"
    using s e(1) b(4,5) by (auto simp: there_def then_char_def stops_def emits_def opts_of_def put_code_def s_buf_end_def)
  then have "D ?s False = Parsed (after ca (s_buf_ptr s + 3 + length t) cc ?s)" using assms unfolding reads_dis_def by fastforce
  then have g: "in_group D ?st (s_buf_ptr s + 3) False = Parsed (after ca (s_buf_ptr s + 3 + length t) cc ?s, s_buf_ptr s + length ?t)"
    using b(5) by (simp add: in_group_def re_parse_expect_def peek_bytes put_code_def)
  let ?s1 = "after ca (s_buf_ptr s + 3 + length t) cc ?s"
  have bc: "s_byte_code ?s1 = s_byte_code s @ re_emit_op_u32 ?op 0 @ ca" by (simp add: put_code_def)
  have dr: "drop (?pos + 5) (s_byte_code ?s1) = ca" "take ?pos (s_byte_code ?s1) = s_byte_code s"
    unfolding bc using drop_length_append [of "s_byte_code s @ re_emit_op_u32 ?op 0" ca] by simp_all
  let ?s2 = "?s1\<lparr>s_byte_code := s_byte_code s @ code\<rparr>"
  have lt: "lookahead_term D s (s_buf_ptr s + 3) neg False = Parsed (?s2, s_buf_ptr s + length ?t, if \<not> s_is_utf16 s then mark s else None)"
    unfolding lookahead_term_def Let_def g pbind.simps prod.case dr e(2) emit_lookahead_def by simp
  have "group_term D s (s_buf_ptr s) False = lookahead_term D s (s_buf_ptr s + 3) neg False"
    using b(2,3) by (cases neg) (simp_all add: group_term_def Let_def)
  moreover have "atom_term D s False = group_term D s (s_buf_ptr s) False" using b(1) by (simp add: atom_term_def Let_def)
  ultimately have at: "atom_term D s False = Parsed (?s2, s_buf_ptr s + length ?t, if \<not> s_is_utf16 s then mark s else None)"
    by (simp only: lt)
  have a2: "?s2\<lparr>s_buf_ptr := p\<rparr> = after code p cc s" for p by (simp add: after_def put_code_def)
  have q: "quantifier_count ?s2 (s_buf_ptr s + length ?t) = Parsed (None, s_buf_ptr s + length ?t)"
    using s(2,3) by (simp add: then_char_def quantifier_count_def peek_bytes quant_start_def put_code_def)
  show "re_parse_term D s False = Parsed (after code (s_buf_ptr s + length ?t) cc s)"
    unfolding re_parse_term_def at pbind.simps prod.case using q a2 by (simp add: mark_def quantifier_term_def)
qed simp_all

lemma after_same: "after [] (s_buf_ptr s) (s_capture_count s) s = s"
  by (simp add: after_def)

lemma empty_seq: "reads_seq D REmpty []"
  unfolding reads_seq_def emits_def by (auto simp: after_same)

lemma assertion_seq:
  "reads_seq D RLineStart [94]" "reads_seq D RLineEnd [36]" "reads_seq D (RWordBoundary neg) [92, if neg then 66 else 98]"
proof -
  show "reads_seq D RLineStart [94]"
    by (rule seq_term [of _ 94 "[]"]) (auto simp: there_def emits_def peek_bytes re_parse_term_def atom_term_def put_code_after Let_def)
  show "reads_seq D RLineEnd [36]"
    by (rule seq_term [of _ 36 "[]"]) (auto simp: there_def emits_def peek_bytes re_parse_term_def atom_term_def put_code_after Let_def)
  show "reads_seq D (RWordBoundary neg) [92, if neg then 66 else 98]"
    by (rule seq_term [of _ 92 "[if neg then 66 else 98]"])
       (auto simp: there_def emits_def peek_bytes re_parse_term_def atom_term_def backslash_term_def put_code_after Let_def)
qed

lemma dot_atoms: "reads_atoms D RDot [46]"
  unfolding reads_atoms_def reads_atom_def
  by (auto simp: there_def emits_def peek_bytes atom_term_def both_ways_def opts_of_def put_code_after Let_def)

lemma char_atoms:
  assumes "c \<le> 0xffff" "\<not> is_hi_surrogate c"
  shows "reads_atoms D (RChar c) (char_text c)"
  unfolding reads_atoms_def
proof (intro allI impI)
  fix s code cc
  assume s: "there s (char_text c)" "emits (RChar c) s code cc"
  then have e: "emit_char (opts_of s) c = Some code" "cc = s_capture_count s" by (auto simp: emits_def bind_eq_Some_conv)
  show "reads_atom D s (char_text c) code cc"
  proof (cases "0 < c \<and> c < 128 \<and> ucast c \<notin> set special")
    case True
    then have t: "char_text c = [ucast c]" by (simp add: char_text_def)
    show ?thesis unfolding t e(2) using s(1) True e(1) unfolding t by (intro reads_plain_char) (auto simp: there_def)
  next
    case False
    then have t: "char_text c = u_text c" unfolding char_text_def by (rule if_not_P)
    show ?thesis unfolding t e(2) using s(1) e(1) unfolding t by (intro reads_escaped_char assms) (auto simp: there_def length_u_text)
  qed
qed

lemma class_atoms:
  assumes "writable ps"
  shows "reads_atoms D (RClass ps) (class_text ps)"
  unfolding reads_atoms_def
proof (intro allI impI)
  fix s code cc
  assume s: "there s (class_text ps)" "emits (RClass ps) s code cc"
  then have e: "emit_class (opts_of s) ps = Some code" "cc = s_capture_count s" "\<forall>n. \<not> s_alloc_fails s n"
    by (auto simp: emits_def bind_eq_Some_conv)
  have "re_parse_char_class s (s_buf_ptr s) = Parsed (code, s_buf_ptr s + length (class_text ps))"
    by (rule parse_class_text [OF _ _ assms e(3,1)]) (use s(1) in \<open>simp_all add: there_def\<close>)
  moreover have "peek (s_buf s) (s_buf_ptr s) = Parsed 91" using s(1) by (simp add: there_def class_text_def peek_bytes)
  ultimately have "atom_term D s False = Parsed (put_code code s, s_buf_ptr s + length (class_text ps), mark s)"
    by (simp add: atom_term_def both_ways_def Let_def)
  then show "reads_atom D s (class_text ps) code cc" unfolding reads_atom_def e(2) using put_code_after by auto
qed

lemma text_first:
  "printable e \<Longrightarrow> pattern_text e = c # cs \<Longrightarrow> \<not> quant_start c \<and> c \<noteq> 41 \<and> (1 \<le> level_of e \<longrightarrow> c \<noteq> 124)"
proof (induction e arbitrary: cs rule: pattern_text.induct)
  case (1 x)
  then show ?case by (auto simp: char_text_def u_text_def special_def quant_start_def split: if_splits)
next
  case (9 a b)
  then show ?case by (cases "pattern_text a"; cases "level_of a"; cases "level_of b") (auto simp: wrap_def quant_start_def split: if_splits)
next
  case (10 a b)
  then show ?case by (cases "pattern_text a") (auto simp: quant_start_def)
next
  case (13 a mn mx g)
  moreover have "2 \<le> level_of a \<Longrightarrow> pattern_text a \<noteq> []" by (cases a) (auto simp: char_text_def u_text_def class_text_def)
  ultimately show ?case by (cases "pattern_text a"; cases "2 \<le> level_of a") (auto simp: wrap_def quant_start_def count_text_def split: if_splits)
qed (auto simp: quant_start_def class_text_def)


text \<open>How deep the parentheses of the text are nested, at most.\<close>

fun nesting :: "regex \<Rightarrow> nat" where
  "nesting (RSeq a b) = Suc (max (nesting a) (nesting b))"
| "nesting (RAlt a b) = Suc (max (nesting a) (nesting b))"
| "nesting (RGroup a) = Suc (nesting a)"
| "nesting (RLook neg a) = Suc (nesting a)"
| "nesting (RQuant a quant_min quant_max greedy) = Suc (nesting a)"
| "nesting _ = 0"

definition reads_text :: "nat \<Rightarrow> regex \<Rightarrow> bool" where
  "reads_text d e \<longleftrightarrow> (\<forall>d'\<ge>d. let D = re_parse_disjunction d' in
     (1 \<le> level_of e \<longrightarrow> reads_seq D e (pattern_text e)) \<and> (2 \<le> level_of e \<longrightarrow> reads_atoms D e (pattern_text e)) \<and>
     reads_alts D e (pattern_text e))"

lemma reads_textI:
  "(\<And>d'. d \<le> d' \<Longrightarrow> reads_seq (re_parse_disjunction d') e (pattern_text e)) \<Longrightarrow>
   (\<And>d'. d \<le> d' \<Longrightarrow> 2 \<le> level_of e \<Longrightarrow> reads_atoms (re_parse_disjunction d') e (pattern_text e)) \<Longrightarrow> reads_text d e"
  unfolding reads_text_def Let_def by (blast intro: seq_alts)

lemma reads_text_dis: "reads_text d e \<Longrightarrow> Suc d \<le> d' \<Longrightarrow> reads_dis (re_parse_disjunction d') e (pattern_text e)"
  using alts_dis [of "d' - 1" e] unfolding reads_text_def Let_def by (cases d') auto

lemma reads_wrap:
  assumes "reads_text d e" "printable e" "Suc d \<le> d'" "k = 1 \<or> k = 2"
  shows "reads_seq (re_parse_disjunction d') e (wrap k e (pattern_text e))"
    and "k = 2 \<Longrightarrow> reads_atoms (re_parse_disjunction d') e (wrap k e (pattern_text e))"
proof -
  let ?D = "re_parse_disjunction d'" and ?t = "pattern_text e"
  have g: "reads_atoms ?D e ([40, 63, 58] @ ?t @ [41])" by (rule dis_group [OF reads_text_dis [OF assms(1,3)]])
  have s: "reads_seq ?D e ([40, 63, 58] @ ?t @ [41])" using atoms_seq [OF g, of 40] by simp
  have l: "1 \<le> level_of e \<Longrightarrow> reads_seq ?D e ?t" "2 \<le> level_of e \<Longrightarrow> reads_atoms ?D e ?t"
    using assms(1,3) unfolding reads_text_def Let_def by auto
  show "reads_seq ?D e (wrap k e ?t)" using s l(1) assms(4) by (auto simp: wrap_def)
  show "reads_atoms ?D e (wrap k e ?t)" if "k = 2" using g l(2) that by (auto simp: wrap_def)
qed

lemma wrap_first:
  assumes "printable e" "wrap k e (pattern_text e) = c # cs" "1 \<le> k"
  shows "\<not> quant_start c \<and> c \<noteq> 41 \<and> c \<noteq> 124"
proof (cases "k \<le> level_of e")
  case True
  then show ?thesis using text_first [OF assms(1)] assms by (auto simp: wrap_def)
next
  case False
  then show ?thesis using assms(2) by (auto simp: wrap_def quant_start_def)
qed

lemma wrap_atom_nonempty: "wrap 2 e (pattern_text e) \<noteq> []"
  by (cases e) (auto simp: wrap_def char_text_def u_text_def class_text_def)

lemma parse_text: "printable e \<Longrightarrow> reads_text (nesting e) e"
proof (induction e)
  case (RChar c)
  obtain x xs where "char_text c = x # xs" "x \<noteq> 124" "x \<noteq> 41"
    by (cases "0 < c \<and> c < 128 \<and> ucast c \<notin> set special") (auto simp: char_text_def u_text_def special_def)
  then show ?case using RChar char_atoms [of c] atoms_seq [of _ "RChar c" "char_text c" x xs] by (intro reads_textI) auto
next
  case (RClass ps)
  then show ?case using class_atoms [of ps] atoms_seq [of _ "RClass ps" "class_text ps" 91 "pairs_text ps @ [93]"]
    by (intro reads_textI) (auto simp: class_text_def)
next
  case RDot
  then show ?case using dot_atoms atoms_seq [of _ RDot "[46]" 46 "[]"] by (intro reads_textI) auto
next
  case RLineStart
  then show ?case using assertion_seq(1) by (intro reads_textI) auto
next
  case RLineEnd
  then show ?case using assertion_seq(2) by (intro reads_textI) auto
next
  case (RWordBoundary neg)
  then show ?case using assertion_seq(3) [of _ neg] by (intro reads_textI) auto
next
  case REmpty
  then show ?case using empty_seq by (intro reads_textI) auto
next
  case (RSeq a b)
  then have IH: "reads_text (nesting a) a" "reads_text (nesting b) b" "printable a" "printable b" by auto
  show ?case
  proof (rule reads_textI)
    fix d assume "nesting (RSeq a b) \<le> d"
    then have d: "Suc (nesting a) \<le> d" "Suc (nesting b) \<le> d" by auto
    show "reads_seq (re_parse_disjunction d) (RSeq a b) (pattern_text (RSeq a b))"
      using seq_append [OF reads_wrap(1) [OF IH(1,3) d(1), of 1] reads_wrap(1) [OF IH(2,4) d(2), of 1]] wrap_first [OF IH(4), of 1] by simp
  qed simp
next
  case (RAlt a b)
  then have IH: "reads_text (nesting a) a" "reads_text (nesting b) b" "printable a" "printable b" by auto
  show ?case unfolding reads_text_def Let_def
  proof (intro allI impI conjI)
    fix d assume "nesting (RAlt a b) \<le> d"
    then have d: "nesting a \<le> d" "Suc (nesting b) \<le> d" by auto
    have "reads_alts (re_parse_disjunction d) a (pattern_text a)" using IH(1) d(1) unfolding reads_text_def Let_def by blast
    from alts_append [OF this reads_wrap(1) [OF IH(2,4) d(2), of 1]]
    show "reads_alts (re_parse_disjunction d) (RAlt a b) (pattern_text (RAlt a b))" by simp
  qed simp_all
next
  case (RGroup a)
  then have IH: "reads_text (nesting a) a" "printable a" by auto
  have at: "reads_atoms (re_parse_disjunction d) (RGroup a) (pattern_text (RGroup a))" if "nesting (RGroup a) \<le> d" for d
    using dis_capture [OF reads_text_dis [OF IH(1)], of d] text_first [OF IH(2)] that by (auto simp: quant_start_def)
  then show ?case using atoms_seq [OF at, of _ 40] by (intro reads_textI) auto
next
  case (RLook neg a)
  then have IH: "reads_text (nesting a) a" by auto
  show ?case
  proof (rule reads_textI)
    fix d assume "nesting (RLook neg a) \<le> d"
    then show "reads_seq (re_parse_disjunction d) (RLook neg a) (pattern_text (RLook neg a))"
      using dis_look [OF reads_text_dis [OF IH], of d neg] by simp
  qed simp
next
  case (RQuant a quant_min quant_max greedy)
  then have IH: "reads_text (nesting a) a" "printable a" and n: "quant_min \<le> quant_max" "quant_max \<le> INT32_MAX" by auto
  obtain x xs where t: "wrap 2 a (pattern_text a) = x # xs" using wrap_atom_nonempty [of a] by (cases "wrap 2 a (pattern_text a)") auto
  note x = wrap_first [OF IH(2) t]
  show ?case
  proof (rule reads_textI)
    fix d assume "nesting (RQuant a quant_min quant_max greedy) \<le> d"
    then have "reads_atoms (re_parse_disjunction d) a (wrap 2 a (pattern_text a))" using reads_wrap(2) [OF IH, of d 2] by simp
    from quant_seq [OF this t _ _ n, of greedy] x
    show "reads_seq (re_parse_disjunction d) (RQuant a quant_min quant_max greedy) (pattern_text (RQuant a quant_min quant_max greedy))" by simp
  qed simp
qed simp_all

end
