(* ===== verification/RegexpProps.thy ===== *)
theory RegexpProps
  imports RegexpCompile RegexpPrint
begin

text \<open>
  From the text of a pattern to its matches: the compiler on printed patterns, the executor on what the compiler makes of them, and
  the patterns on which they do not do what regular expressions mean.
\<close>

subsection \<open>Texts\<close>

lemma parse_start_reads:
  assumes "printable e" "nesting e < depth" "emit (opts_of s) e (length (s_byte_code s)) 1 = Some (body, cc)"
    and "s = parse_start T L fails (pattern_text e) re_flags pre" "has_class e \<longrightarrow> (\<forall>n. \<not> fails n)"
  shows "re_parse_disjunction depth s False = Parsed (after body (length (pattern_text e)) cc s)"
proof -
  let ?t = "pattern_text e"
  have p: "s_buf s = ?t @ [0]" "s_buf_ptr s = 0" "s_capture_count s = 1" "s_buf_end s = length ?t" "s_ignore_case s = (re_flags AND 2 \<noteq> 0)"
    "s_alloc_fails s = fails" using assms(4) by (simp_all add: parse_start_def s_buf_end_def)
  have "bytes_at (?t @ [0]) 0 ?t" using bytes_at_self [of "[]" ?t "[0]"] by simp
  then have "there s ?t" using p by (simp add: there_def)
  moreover have "then_char s ?t 0" using p by (simp add: then_char_def rd_eq nth_append)
  moreover have "stops s ?t 0" using p by (simp add: stops_def)
  moreover have "emits e s body cc" using assms(3,5) p by (auto simp: emits_def)
  ultimately show ?thesis using reads_text_dis [OF parse_text [OF assms(1)], of depth] assms(2) p(2) unfolding reads_dis_def by fastforce
qed

lemma compile_text:
  assumes "printable e" "nesting e < depth" "compile_regex T re_flags e = Some bc" "has_class e \<longrightarrow> (\<forall>n. \<not> fails n)"
  shows "lre_compile depth T L fails (pattern_text e) re_flags = Parsed bc"
proof -
  obtain body cc ss prefix code where P: "prefix = (if re_flags AND 32 \<noteq> 0 then [] else search_prefix)"
    and E: "emit \<lparr>o_ignore_case = (re_flags AND 2 \<noteq> 0), o_is_utf16 = (re_flags AND 16 \<noteq> 0), o_dotall = (re_flags AND 8 \<noteq> 0), o_tables = T\<rparr> e
       (7 + length prefix + 2) 1 = Some (body, cc)"
    and K: "code = (prefix @ emit_capture 0 body) @ re_emit_op REOP_match" and S: "compute_stack_size code = Some (Some ss)"
    and bc: "bc = ([re_flags, of_nat cc, of_nat ss] @ u32_bytes (length code)) @ code" by (rule compile_regex_code [OF assms(3)])
  let ?pre = "[re_flags, 0, 0, 0, 0, 0, 0] @ prefix @ re_emit_op_u8 REOP_save_start 0"
  define s where s: "s = parse_start T L fails (pattern_text e) re_flags ?pre"
  have f: "s_byte_code s = ?pre" "s_group_names s = []" "s_capture_count s = 1" "s_buf s = pattern_text e @ [0]"
    and o': "opts_of s = \<lparr>o_ignore_case = (re_flags AND 2 \<noteq> 0), o_is_utf16 = (re_flags AND 16 \<noteq> 0), o_dotall = (re_flags AND 8 \<noteq> 0), o_tables = T\<rparr>"
    by (simp_all add: s parse_start_def opts_of_def)
  have pre: "length ?pre = 7 + length prefix + 2" by (simp add: numeral_eq_Suc)
  have "emit (opts_of s) e (length (s_byte_code s)) 1 = Some (body, cc)" using E by (simp only: f o' pre)
  note R = parse_start_reads [OF assms(1,2) this s assms(4)]
  have "drop 7 (?pre @ body) @ re_emit_op_u8 REOP_save_end 0 @ re_emit_op REOP_match = code" by (simp add: K emit_capture_def)
  moreover have "peek (pattern_text e @ [0]) (length (pattern_text e)) = Parsed 0" by (simp add: peek_def rd_eq)
  moreover have "s_group_names (after body p cc s) = replicate (cc - 1) 0" for p by (simp add: after_def f)
  ultimately show ?thesis
    using R S unfolding lre_compile_def Let_def P [symmetric] s [symmetric]
    by (simp add: f bc del: append_assoc append_Cons le_bytes_numeral)
qed

subsection \<open>An example\<close>

text \<open>Facts that evaluate the compiler, the results of patterns and the executor on concrete patterns.\<close>

lemmas code_eval = emit_char_def emit_class_def canonical_pts_def re_emit_op_def re_emit_op_u8_def re_emit_op_u16_def re_emit_op_u32_def re_emit_goto_eq op_byte_def
  re_emit_range_def emit_alternatives_def emit_capture_def emit_quantifier_def emit_simple_quant_def emit_loop_def emit_star_def emit_upto_def
  emit_exactly_def save_reset_code_def re_is_simple_quantifier_def simple_quant_from.simps re_check_advance_def check_advance_from.simps
  instr_len_def reop_table_def is_char_op_def no_effect_def is_assertion_def compute_stack_size_def stack_size_from.simps cut_short_def
  rd_eq get_u16_def get_u32_def get_le_def search_prefix_def emit_lookahead_def

lemmas exec_eval = re_step_def op_at_def opcode_def reop_table_def rd_eq is_simple_op_def simple_op_def u8_at_def u16_at_def u32_at_def get_u16_def get_u32_def get_le_def
  jump_def test_char_def folded_def fold_char_def GET_CHAR_def unit_at_def accept_if_def after_test_def range_test_def pair16_def

lemma replicate_numeral: "replicate (numeral k) x = x # replicate (pred_numeral k) x"
  by (simp only: numeral_eq_Suc replicate_Suc)

lemmas den_eval = regex_matches_def then_do_def star.simps atom_def one_char_def GET_CHAR_def unit_at_def rd_eq captured_def set_cap_def quantified_def
  ordered_def replicate_numeral upt_rec reset_caps_def set_captures_def repeated_def either_def is_hi_surrogate_def

text \<open>No Unicode tables; the pattern \<open>(a|[b-c])*e\<close>, its code, and a run on \<open>xace\<close>.\<close>

definition no_tables :: unicode_tables where
  "no_tables = \<lparr>case_conv_table1 = [], case_conv_table2 = [], case_conv_ext = [], unicode_prop_Cased1_table = [], unicode_prop_Cased1_index = [],
     unicode_prop_Case_Ignorable_table = [], unicode_prop_Case_Ignorable_index = [], unicode_prop_ID_Start_table = [], unicode_prop_ID_Start_index = [],
     unicode_prop_ID_Continue1_table = [], unicode_prop_ID_Continue1_index = []\<rparr>"

definition no_lookup :: unicode_lookup where
  "no_lookup = \<lparr>up_script = (\<lambda>cr n b. (-2, cr)), up_category = (\<lambda>cr n. (-2, cr)), up_prop = (\<lambda>cr n. (-2, cr))\<rparr>"

definition sample :: regex where
  "sample = RSeq (RQuant (RGroup (RAlt (RChar 97) (RClass [98, 100]))) 0 INT32_MAX True) (RChar 101)"

definition sample_text :: "u8 list" where
  "sample_text = [40, 97, 124, 91, 92, 117, 48, 48, 54, 50, 45, 92, 117, 48, 48, 54, 51, 93, 41, 42, 101]"

definition sample_code :: "u8 list" where
  "sample_code = [0, 2, 1, 57, 0, 0, 0, 8, 6, 0, 0, 0, 4, 7, 245, 255, 255, 255, 11, 0, 13, 1, 1, 9, 30, 0, 0, 0, 25, 11, 1, 9, 8, 0, 0, 0,
     1, 97, 0, 7, 7, 0, 0, 0, 21, 1, 0, 98, 0, 99, 0, 12, 1, 26, 221, 255, 255, 255, 1, 101, 0, 12, 0, 10]"

definition sample_ctx :: re_ctx where
  "sample_ctx = \<lparr>bc_buf = sample_code, cbuf = [120, 97, 99, 101], cbuf_type = 0, capture_count = 2, stack_size_max = 1, multi_line = False,
     ignore_case = False, is_utf16 = False, re_tables = no_tables, realloc_ok = (\<lambda>n. True)\<rparr>"

lemma sample_compiled: "compile_regex no_tables 0 sample = Some sample_code"
  by (simp add: sample_def sample_code_def compile_regex_def code_eval)

lemma sample_printed: "pattern_text sample = sample_text" "printable sample" "plain sample" "nesting sample = 4"
  by (simp_all add: sample_def sample_text_def char_text_def special_def wrap_def class_text_def u_text_def hex_digit_def count_text_def writable_def
      ascending_def is_hi_surrogate_def)

lemma sample_init: "re_init no_tables (\<lambda>n. True) sample_code [120, 97, 99, 101] 0 = Some sample_ctx"
  by (simp add: re_init_def sample_code_def sample_ctx_def rd_eq)

lemma sample_matches: "\<exists>ss. regex_matches sample_ctx False False sample 0 = (4, [Some 1, Some 4, Some 2, Some 3]) # ss"
  by (simp add: den_eval sample_def sample_ctx_def)

text \<open>The code of the sticky pattern \<open>a\<close>, run on \<open>a\<close>.\<close>

definition one_code :: "u8 list" where
  "one_code = [32, 1, 0, 8, 0, 0, 0, 11, 0, 1, 97, 0, 12, 0, 10]"

definition one_ctx :: re_ctx where
  "one_ctx = \<lparr>bc_buf = one_code, cbuf = [97], cbuf_type = 0, capture_count = 1, stack_size_max = 0, multi_line = False,
     ignore_case = False, is_utf16 = False, re_tables = no_tables, realloc_ok = (\<lambda>n. True)\<rparr>"

lemma one_init: "re_init no_tables (\<lambda>n. True) one_code [97] 0 = Some one_ctx"
  by (simp add: re_init_def one_code_def one_ctx_def rd_eq)

lemma one_exec: "lre_exec (Suc (Suc (Suc (Suc 0)))) no_tables (\<lambda>n. True) one_code [97] 0 0 = Some (Ret 1 [Some 0, Some 1])"
proof -
  have "re_step one_ctx t = Some (Next (t\<lparr>t_pc := 9, t_cap := (t_cap t)[0 := Some (t_cptr t)]\<rparr>))" if "t_pc t = 7" for t
    using that by (simp add: exec_eval one_ctx_def one_code_def)
  moreover have "re_step one_ctx t = Some (Next (t\<lparr>t_pc := 12, t_cptr := 1\<rparr>))" if "t_pc t = 9" "t_cptr t = 0" for t
    using that by (simp add: exec_eval one_ctx_def one_code_def is_hi_surrogate_def)
  moreover have "re_step one_ctx t = Some (Next (t\<lparr>t_pc := 14, t_cap := (t_cap t)[1 := Some (t_cptr t)]\<rparr>))" if "t_pc t = 12" for t
    using that by (simp add: exec_eval one_ctx_def one_code_def)
  moreover have "re_step one_ctx t = Some Matched" if "t_pc t = 14" for t using that by (simp add: exec_eval one_ctx_def one_code_def)
  moreover have "capture_count one_ctx = 1" by (simp add: one_ctx_def)
  ultimately show ?thesis by (simp add: lre_exec_def one_init re_start_def replicate_numeral)
qed

theorem lre_exec_refines_witness: "bt one_ctx (re_start one_ctx 0) (Some [Some 0, Some 1])"
  using lre_exec_refines [OF one_init, of 0 "[Some 0, Some 1]"] one_exec by blast

subsection \<open>Compiling and executing\<close>

text \<open>
  C20. A pattern is executed as it reads. Take the text of a printable pattern without back references and without a lazy unbounded repetition
  of something that can be empty, whose code is within the limits of the byte code, compiled without the flag that ignores case, and a subject
  of 8-bit units, or of 16-bit units that are characters (no Unicode flag), in memory that does not run out. Then \<open>lre_compile\<close> succeeds, and
  \<open>lre_exec\<close> on its result always ends: with 1 and the captures of the first of the results of the pattern in the order of backtracking
  (leftmost start first, greedy before fewer, left alternative before right), or with 0 when the pattern has no result. The simple
  quantifiers, the checks for an empty iteration, the counters and the bound on their stack do not show.
\<close>

theorem lre_compile_exec:
  assumes "printable e" "plain e" "nesting e < depth" "compile_regex T re_flags e = Some bc" "re_flags AND 2 = 0" "\<forall>n. \<not> fails n"
    and "cbtype \<noteq> 2" "cbtype = 1 \<longrightarrow> re_flags AND 16 = 0" "length bc < 2 ^ 30" "length subject < 2 ^ 64" "cindex \<le> length subject" "\<forall>n. alloc n"
    and "re_init T alloc bc subject cbtype = Some ctx"
  shows "lre_compile depth T L fails (pattern_text e) re_flags = Parsed bc \<and>
    (case regex_matches ctx (re_flags AND 32 \<noteq> 0) (re_flags AND 8 \<noteq> 0) e cindex of
      [] \<Rightarrow> \<exists>n cap. lre_exec n T alloc bc subject cindex cbtype = Some (Ret 0 cap)
    | s # _ \<Rightarrow> \<exists>n. lre_exec n T alloc bc subject cindex cbtype = Some (Ret 1 (snd s)))"
  using compile_text [OF assms(1,3,4)] compile_regex_exec [OF assms(4,2,5,7-13)] assms(6) by blast

theorem lre_compile_exec_witness:
  "lre_compile 5 no_tables no_lookup (\<lambda>n. False) sample_text 0 = Parsed sample_code \<and>
   (\<exists>n. lre_exec n no_tables (\<lambda>n. True) sample_code [120, 97, 99, 101] 0 0 = Some (Ret 1 [Some 1, Some 4, Some 2, Some 3]))"
  using lre_compile_exec [OF sample_printed(2,3) _ sample_compiled _ _ _ _ _ _ _ _ sample_init, of 5 "\<lambda>n. False" 0 no_lookup] sample_matches
  by (auto simp: sample_printed sample_code_def)

text \<open>
  C21. Reading what was written. For every tree that the printer covers, with any flags, the compiler run on the printed pattern with room
  for its nesting on the stack, and with memory for the classes the pattern has, parses the text back: it ends, without a syntax error, with
  exactly the code that is specified for the tree, its header, the number of its captures and the size of the counter stack included. When case
  is ignored, the code of a character is that of its folded form and the code of a class that of its points with the capital letters
  of its small letters added.
\<close>

theorem lre_compile_text:
  assumes "printable e" "nesting e < depth" "compile_regex T re_flags e = Some bc" "has_class e \<longrightarrow> (\<forall>n. \<not> fails n)"
  shows "lre_compile depth T L fails (pattern_text e) re_flags = Parsed bc"
  by (rule compile_text [OF assms])

text \<open>The class \<open>[b-c]\<close> with the flags 2 and 32, ignore case and sticky: the class becomes \<open>[B-Cb-c]\<close>.\<close>

lemma folded_compiled: "compile_regex no_tables 34 (RClass [98, 100]) = Some
    [34, 1, 0, 16, 0, 0, 0, 11, 0, 21, 2, 0, 66, 0, 67, 0, 98, 0, 99, 0, 12, 0, 10]"
  by (simp add: compile_regex_def code_eval)

theorem lre_compile_text_witness:
  "lre_compile 5 no_tables no_lookup (\<lambda>n. False) sample_text 0 = Parsed sample_code \<and>
   lre_compile 5 no_tables no_lookup (\<lambda>n. False) (class_text [98, 100]) 34 = Parsed
     [34, 1, 0, 16, 0, 0, 0, 11, 0, 21, 2, 0, 66, 0, 67, 0, 98, 0, 99, 0, 12, 0, 10]"
  using lre_compile_text [OF sample_printed(2) _ sample_compiled, of 5 "\<lambda>n. False" no_lookup]
    lre_compile_text [OF _ _ folded_compiled, of 5 "\<lambda>n. False" no_lookup]
  by (simp add: sample_printed writable_def ascending_def is_hi_surrogate_def)

end
