(* ===== verification/RegexpFlaws.thy ===== *)
theory RegexpFlaws
  imports RegexpProps
begin

text \<open>
  Patterns that are not executed as they read: a lazy repetition of something empty, classes of capital letters when case is ignored in
  Unicode mode, and references to a named group that follows them.
\<close>

subsection \<open>Lazy repetition\<close>

text \<open>The pattern \<open>(?:)*?b\<close> and its code.\<close>

definition lazy_empty :: regex where
  "lazy_empty = RSeq (RQuant REmpty 0 INT32_MAX False) (RChar 98)"

definition lazy_code :: "u8 list" where
  "lazy_code = [0, 1, 0, 29, 0, 0, 0, 8, 6, 0, 0, 0, 4, 7, 245, 255, 255, 255, 11, 0, 8, 5, 0, 0, 0, 7, 246, 255, 255, 255, 1, 98, 0, 12, 0, 10]"

lemma lazy_text: "pattern_text lazy_empty = [40, 63, 58, 41, 42, 63, 98]"
  by (simp add: lazy_empty_def wrap_def count_text_def char_text_def special_def)

lemma lazy_compiled: "compile_regex T 0 lazy_empty = Some lazy_code"
  by (simp add: lazy_empty_def lazy_code_def compile_regex_def code_eval)

definition lazy_ctx :: "unicode_tables \<Rightarrow> (nat \<Rightarrow> bool) \<Rightarrow> u16 list \<Rightarrow> re_ctx" where
  "lazy_ctx T alloc subject = \<lparr>bc_buf = lazy_code, cbuf = subject, cbuf_type = 0, capture_count = 1, stack_size_max = 0, multi_line = False,
     ignore_case = False, is_utf16 = False, re_tables = T, realloc_ok = alloc\<rparr>"

lemma ucast_16_32_inject: "(ucast (x :: u16) :: u32) = ucast y \<longleftrightarrow> x = y"
proof -
  have "uint (ucast z :: u32) = uint z" for z :: u16
  proof -
    have "uint z < 2 ^ 16" using uint_lt2p [of z] by simp
    then have "take_bit 32 (uint z) = uint z" by (intro take_bit_int_eq_self) simp_all
    then show ?thesis by (simp add: unsigned_ucast_eq)
  qed
  then show ?thesis by (metis word_uint_eqI)
qed

lemma lazy_steps:
  assumes "cindex < length subject \<longrightarrow> subject ! cindex \<noteq> 98" "ctx = lazy_ctx T alloc subject"
  shows "t_pc t = 20 \<Longrightarrow> re_step ctx t = Some (Split (t\<lparr>t_pc := 30\<rparr>) (t\<lparr>t_pc := 25\<rparr>))"
    and "t_pc t = 25 \<Longrightarrow> re_step ctx t = Some (Next (t\<lparr>t_pc := 20\<rparr>))"
    and "t_pc t = 30 \<Longrightarrow> t_cptr t = cindex \<Longrightarrow> re_step ctx t = Some No_match"
proof -
  show "t_pc t = 20 \<Longrightarrow> re_step ctx t = Some (Split (t\<lparr>t_pc := 30\<rparr>) (t\<lparr>t_pc := 25\<rparr>))"
    by (simp add: exec_eval assms(2) lazy_ctx_def lazy_code_def)
  show "t_pc t = 25 \<Longrightarrow> re_step ctx t = Some (Next (t\<lparr>t_pc := 20\<rparr>))"
    by (simp add: exec_eval assms(2) lazy_ctx_def lazy_code_def)
  show "t_pc t = 30 \<Longrightarrow> t_cptr t = cindex \<Longrightarrow> re_step ctx t = Some No_match"
    using assms(1) ucast_16_32_inject [of "subject ! cindex" 98] by (simp add: exec_eval assms(2) lazy_ctx_def lazy_code_def)
qed

lemma lazy_loop:
  assumes "cindex < length subject \<longrightarrow> subject ! cindex \<noteq> 98" "ctx = lazy_ctx T alloc subject" "\<forall>n. alloc n"
  shows "t_pc t = 20 \<Longrightarrow> t_cptr t = cindex \<Longrightarrow> lre_exec_backtrack n ctx t (fs, sz) = None"
proof (induction n arbitrary: t sz rule: less_induct)
  case (less n)
  have r: "realloc_ok ctx k" for k using assms(2,3) by (simp add: lazy_ctx_def)
  note st = lazy_steps [OF assms(1,2)]
  obtain sz' where p: "push_state ctx (t\<lparr>t_pc := 25\<rparr>) RE_EXEC_STATE_SPLIT 0 (fs, sz) =
      Some (\<lparr>rs_type = RE_EXEC_STATE_SPLIT, rs_count = 0, rs_thread = t\<lparr>t_pc := 25\<rparr>\<rparr> # fs, sz')"
    using r by (cases "length fs + 1 > sz") (auto simp: push_state_def)
  consider "n = 0" | "n = Suc 0" | "n = Suc (Suc 0)" | m where "n = Suc (Suc (Suc m))" by (metis not0_implies_Suc)
  then show ?case
  proof cases
    case (4 m)
    then have "lre_exec_backtrack n ctx t (fs, sz) = lre_exec_backtrack m ctx (t\<lparr>t_pc := 20\<rparr>) (fs, sz')"
      using less.prems p st by simp
    also have "\<dots> = None" using 4 less.prems by (intro less.IH) simp_all
    finally show ?thesis .
  qed (use less.prems p st in simp_all)
qed

text \<open>
  C23. A lazy repetition of something empty never ends. The pattern \<open>(?:)*?b\<close> compiles, and when the subject has no \<open>b\<close> at the start index the
  executor runs forever, also when a \<open>b\<close> follows: the check that an iteration has advanced is emitted for greedy quantifiers only.
\<close>

theorem lazy_empty_diverges:
  assumes "cindex < length subject \<longrightarrow> subject ! cindex \<noteq> 98" "\<forall>n. alloc n" "2 < depth"
  shows "lre_compile depth T L fails [40, 63, 58, 41, 42, 63, 98] 0 = Parsed lazy_code \<and> (\<forall>n. lre_exec n T alloc lazy_code subject cindex 0 = None)"
proof -
  let ?ctx = "lazy_ctx T alloc subject"
  have "lre_compile depth T L fails (pattern_text lazy_empty) 0 = Parsed lazy_code"
    by (rule compile_text [OF _ _ lazy_compiled]) (use assms(3) in \<open>simp_all add: lazy_empty_def is_hi_surrogate_def\<close>)
  moreover have "lre_exec n T alloc lazy_code subject cindex 0 = None" for n
  proof -
    have i: "re_init T alloc lazy_code subject 0 = Some ?ctx" by (simp add: re_init_def lazy_code_def lazy_ctx_def rd_eq)
    have l: "t_pc t = 20 \<Longrightarrow> t_cptr t = cindex \<Longrightarrow> lre_exec_backtrack m ?ctx t (fs, sz) = None" for t m fs sz
      by (rule lazy_loop [OF assms(1) refl assms(2)])
    have r: "realloc_ok ?ctx k" "capture_count ?ctx = 1" for k using assms(2) by (simp_all add: lazy_ctx_def)
    have s: "re_step ?ctx t = Some (Split (t\<lparr>t_pc := 18\<rparr>) (t\<lparr>t_pc := 12\<rparr>))" if "t_pc t = 7" for t
      using that by (simp add: exec_eval lazy_ctx_def lazy_code_def)
    have v: "re_step ?ctx t = Some (Next (t\<lparr>t_pc := 20, t_cap := (t_cap t)[0 := Some (t_cptr t)]\<rparr>))" if "t_pc t = 18" for t
      using that by (simp add: exec_eval lazy_ctx_def lazy_code_def)
    consider "n = 0" | "n = Suc 0" | m where "n = Suc (Suc m)" by (metis not0_implies_Suc)
    then show ?thesis
      by cases (use i in \<open>simp_all add: lre_exec_def re_start_def push_state_def l s v r\<close>)
  qed
  ultimately show ?thesis by (simp add: lazy_text)
qed

theorem lazy_empty_diverges_witness: "lre_compile 3 no_tables no_lookup (\<lambda>n. False) [40, 63, 58, 41, 42, 63, 98] 0 = Parsed lazy_code \<and>
    (\<forall>n. lre_exec n no_tables (\<lambda>n. True) lazy_code [97, 98] 0 0 = None)"
  by (rule lazy_empty_diverges) simp_all

subsection \<open>Ignoring case in Unicode mode\<close>

text \<open>The class \<open>[A-Z]\<close>, with flags 2, 16 and 32: ignore case, Unicode, sticky.\<close>

definition upper_code :: "u8 list" where
  "upper_code = [50, 1, 0, 12, 0, 0, 0, 11, 0, 21, 1, 0, 65, 0, 90, 0, 12, 0, 10]"

lemma upper_compiled:
  assumes "\<forall>n. \<not> fails n"
  shows "lre_compile (Suc depth) T L fails (class_text [65, 91]) 50 = Parsed upper_code"
proof -
  have "compile_regex T 50 (RClass [65, 91]) = Some upper_code" by (simp add: compile_regex_def code_eval upper_code_def)
  moreover have "printable (RClass [65, 91])" by (simp add: writable_def ascending_def is_hi_surrogate_def)
  ultimately show ?thesis using compile_text [of "RClass [65, 91]" "Suc depth" T 50 upper_code fails L] assms by simp
qed

text \<open>
  C24. Ignoring case, a class of capital letters matches nothing in Unicode mode. \<open>[A-Z]\<close> with the flags \<open>iu\<close> compiles to a range of capital letters, since
  the compiler adds capital letters to the ranges for small ones and not the converse; the executor folds the characters of the subject to
  small letters in Unicode mode, so that no ASCII character matches, neither \<open>A\<close> nor \<open>a\<close>.
\<close>

theorem upper_class_never_matches:
  assumes "c < 128" "\<forall>n. \<not> fails n"
  shows "lre_compile (Suc depth) T L fails (class_text [65, 91]) 50 = Parsed upper_code \<and>
    lre_exec 3 T alloc upper_code [c] 0 0 = Some (Ret 0 [Some 0, None])"
proof -
  have "uint c < 128" using assms(1) by (simp add: word_less_def)
  then have u: "uint (ucast c :: u32) = uint c" by (simp add: unsigned_ucast_eq take_bit_int_eq_self)
  then have l: "(ucast c :: u32) < 128" using assms(1) by (simp add: word_less_def)
  have "\<exists>d. lre_canonicalize T x True = Some d \<and> (d < 65 \<or> 90 < d)" if "x < 128" for x
  proof (cases "65 \<le> x \<and> x \<le> 90")
    case True
    then have "90 < x - 65 + 97" by (unat_arith, auto)
    then show ?thesis using True that by (simp add: lre_canonicalize_def)
  qed (use that in \<open>auto simp: lre_canonicalize_def not_le\<close>)
  then obtain d where d: "lre_canonicalize T (ucast c) True = Some d" "d < 65 \<or> 90 < d" using l by blast
  let ?ctx = "\<lparr>bc_buf = upper_code, cbuf = [c], cbuf_type = 0, capture_count = 1, stack_size_max = 0, multi_line = False, ignore_case = True,
    is_utf16 = True, re_tables = T, realloc_ok = alloc\<rparr>"
  have i: "re_init T alloc upper_code [c] 0 = Some ?ctx" by (simp add: re_init_def upper_code_def rd_eq)
  have "re_step ?ctx t = Some No_match" if "t_pc t = 9" "t_cptr t = 0" for t
    using that d by (auto simp: exec_eval upper_code_def)
  moreover have "re_step ?ctx t = Some (Next (t\<lparr>t_pc := 9, t_cap := (t_cap t)[0 := Some (t_cptr t)]\<rparr>))" if "t_pc t = 7" for t
    using that by (simp add: exec_eval upper_code_def)
  ultimately show ?thesis
    using upper_compiled [OF assms(2)] i by (simp add: lre_exec_def re_start_def numeral_3_eq_3 replicate_numeral)
qed

theorem upper_class_never_matches_witness:
  "lre_compile 3 no_tables no_lookup (\<lambda>n. False) (class_text [65, 91]) 50 = Parsed upper_code \<and>
   lre_exec 3 no_tables (\<lambda>n. True) upper_code [65] 0 0 = Some (Ret 0 [Some 0, None])"
  using upper_class_never_matches [of 65 "\<lambda>n. False" 2] by simp

subsection \<open>References to names\<close>

text \<open>The pattern \<open>(?<a>(b))(?<c>d)\<close>.\<close>

definition named_groups :: "u8 list" where
  "named_groups = [40,63,60,97,62,40,98,41,41,40,63,60,99,62,100,41]"

lemma ident_first_ascii: "lre_js_is_ident_first T 97 = Some True" "lre_js_is_ident_first T 99 = Some True"
  by (simp_all add: lre_js_is_ident_first_def lre_id_start_table_ascii_def bit_iff_odd_drop_bit)
lemma utf8_ascii: "unicode_to_utf8 97 = [97]" "unicode_to_utf8 99 = [99]" by (simp_all add: unicode_to_utf8_def)
lemma captures_steps:
  assumes "p < s_buf_end s" "rd (s_buf s) p = Some c"
  shows "c \<noteq> 40 \<Longrightarrow> c \<noteq> 92 \<Longrightarrow> c \<noteq> 91 \<Longrightarrow> captures_loop (Suc n) s nm p i named = captures_loop n s nm (p + 1) i named"
    and "c = 40 \<Longrightarrow> rd (s_buf s) (p + 1) = Some c1 \<Longrightarrow> c1 \<noteq> 63 \<Longrightarrow> i < 254 \<Longrightarrow>
      captures_loop (Suc n) s nm p i named = captures_loop n s nm (p + 1) (i + 1) named"
    and "c = 40 \<Longrightarrow> bytes_at (s_buf s) (p + 1) [63, 60, c3] \<Longrightarrow> c3 \<noteq> 61 \<Longrightarrow> c3 \<noteq> 33 \<Longrightarrow> i < 254 \<Longrightarrow>
      captures_loop (Suc n) s None p i named = captures_loop n s None (p + 1) (i + 1) True"
    and "c = 40 \<Longrightarrow> bytes_at (s_buf s) (p + 1) [63, 60, c3] \<Longrightarrow> c3 \<noteq> 61 \<Longrightarrow> c3 \<noteq> 33 \<Longrightarrow> i < 254 \<Longrightarrow>
      re_parse_group_name (s_tables s) (s_buf s) (p + 3) (s_is_utf16 s) = Parsed (Some (name, p')) \<Longrightarrow>
      captures_loop (Suc n) s (Some x) p i named = (if name = x then Parsed (int i, True) else captures_loop n s (Some x) (p' + 1) (i + 1) True)"
  using assms by (simp_all add: Let_def peek_bytes not_le numeral_3_eq_3)

lemma captures_end: "s_buf_end s \<le> p \<Longrightarrow> captures_loop (Suc n) s nm p i named = Parsed (if nm = None then int i else -1, named)"
  by (simp add: Let_def)

lemma group_name_one:
  assumes "rd buf p = Some c" "rd buf (p + 1) = Some 62" "c < 128" "c \<noteq> 92" "c \<noteq> 62" "length buf = Suc (Suc m)"
    and "lre_js_is_ident_first T (ucast c) = Some True" "unicode_to_utf8 (ucast c) = [c]" "(ucast c :: u32) \<le> 0x10ffff"
  shows "re_parse_group_name T buf p utf16 = Parsed (Some ([c], p + 2))"
proof -
  have nl: "\<not> 128 \<le> c" "\<not> 0x10ffff < (ucast c :: u32)" using assms(3,9) by (simp_all add: not_le not_less)
  have "group_char buf p utf16 = Parsed (Some (ucast c, p + 1))" using assms(1,4,5) nl by (simp add: group_char_def peek_bytes)
  moreover have "group_char buf (p + 1) utf16 = Parsed None" using assms(2) by (simp add: group_char_def peek_bytes)
  ultimately show ?thesis using assms(7,8) nl(2) by (simp add: re_parse_group_name_def assms(6))
qed

declare captures_loop.simps(2) [simp del]

lemma forward_lookup: "re_parse_captures (parse_start T L fails named_groups 0 []) (Some [99]) = Parsed (2, True)"
proof -
  define s where "s = parse_start T L fails named_groups 0 []"
  have f: "s_buf s = [40,63,60,97,62,40,98,41,41,40,63,60,99,62,100,41,0]" "s_buf_end s = 16" "s_tables s = T" "\<not> s_is_utf16 s"
    by (simp_all add: s_def parse_start_def named_groups_def s_buf_end_def)
  have l: "length (s_buf s) = Suc (Suc 15)" by (simp add: f)
  have g: "re_parse_group_name T (s_buf s) 3 False = Parsed (Some ([97], 5))" "re_parse_group_name T (s_buf s) 12 False = Parsed (Some ([99], 14))"
    using group_name_one [OF _ _ _ _ _ l, of 3 97 T False] group_name_one [OF _ _ _ _ _ l, of 12 99 T False] by (simp_all add: f rd_eq ident_first_ascii utf8_ascii)
  have a: "captures_loop (Suc n) s (Some [99]) 0 1 False = captures_loop n s (Some [99]) 6 2 True" for n
    using captures_steps(4) [of 0 s 40 97 1 "[97]" 5 n "[99]" False] g(1) f by (simp add: rd_eq numeral_2_eq_2 [symmetric] del: One_nat_def)
  have b: "captures_loop (Suc n) s (Some [99]) 6 i b = captures_loop n s (Some [99]) 7 i b"
    "captures_loop (Suc n) s (Some [99]) 7 i b = captures_loop n s (Some [99]) 8 i b"
    "captures_loop (Suc n) s (Some [99]) 8 i b = captures_loop n s (Some [99]) 9 i b" for n i b
    using captures_steps(1) [of 6 s 98 n "Some [99]" i b] captures_steps(1) [of 7 s 41 n "Some [99]" i b]
      captures_steps(1) [of 8 s 41 n "Some [99]" i b] by (simp_all add: f rd_eq)
  have c: "captures_loop (Suc n) s (Some [99]) 9 2 True = Parsed (2, True)" for n
    using captures_steps(4) [of 9 s 40 99 2 "[99]" 14 n "[99]" True] g(2) f by (simp add: rd_eq)
  have "length (s_buf s) = Suc (Suc (Suc (Suc (Suc 12))))" by (simp add: f)
  then show ?thesis unfolding s_def [symmetric] re_parse_captures_def by (simp only: a b c)
qed

lemma groups_before: "re_parse_captures (parse_start T L fails (take 9 named_groups) 0 []) None = Parsed (3, True)"
proof -
  define s where "s = parse_start T L fails (take 9 named_groups) 0 []"
  have f: "s_buf s = [40,63,60,97,62,40,98,41,41,0]" "s_buf_end s = 9" by (simp_all add: s_def parse_start_def named_groups_def s_buf_end_def)
  have a: "captures_loop (Suc n) s None 0 1 False = captures_loop n s None 1 2 True" for n
    using captures_steps(3) [of 0 s 40 97 1 n False] f by (simp add: rd_eq numeral_2_eq_2 [symmetric] del: One_nat_def)
  have b: "captures_loop (Suc n) s None p i b = captures_loop n s None (Suc p) i b" if "p \<in> {1, 2, 3, 4, 6, 7, 8}" for n p i b
    using captures_steps(1) [of p s "s_buf s ! p" n None i b] that by (auto simp: f rd_eq)
  have c: "captures_loop (Suc n) s None 5 2 b = captures_loop n s None 6 3 b" for n b
    using captures_steps(2) [of 5 s 40 98 2 n None b] f by (simp add: rd_eq)
  have e: "captures_loop (Suc n) s None 9 3 b = Parsed (3, b)" for n b using captures_end [of s 9 n None 3 b] f by simp
  have "length (s_buf s) = Suc (Suc (Suc (Suc (Suc (Suc (Suc (Suc (Suc (Suc 0)))))))))" by (simp add: f)
  then show ?thesis unfolding s_def [symmetric] re_parse_captures_def by (simp add: a b c e del: One_nat_def)
qed

text \<open>
  A reference to a named group further on may be to another group. In \<open>(?<a>(b))(?<c>d)\<close> the scan for the captures finds that two groups
  are opened before \<open>(?<c>\<close>, whose group is the third capture; asked for the name \<open>c\<close>, as it is for the reference \<open>\k<c>\<close> before the group, it returns 2: the character
  after a name that it has read is skipped, here the parenthesis of a group.
\<close>

lemma forward_reference_miscounts:
  "re_parse_captures (parse_start T L fails (take 9 named_groups) 0 []) None = Parsed (3, True) \<and>
   re_parse_captures (parse_start T L fails named_groups 0 []) (Some [99]) = Parsed (2, True)"
  by (simp add: forward_lookup groups_before)

end
