(* ===== verification/Spec2Isabelle.thy ===== *)
theory Spec2Isabelle
  imports WaitQueue CoTimer CoStack PCond FdCtx HashTable FdQueue LoadBalance Base64 RqsortSorted Exchange Utf8
    Dynbuf CharRange CaseTables Normalize MpDiv RegexpFlaws
begin

text \<open>
  Verification of conet, a coroutine library for network servers, and of the support code of the QuickJS engine it
  carries.

  \<^bold>\<open>The program.\<close> \<open>core/\<close> runs coroutines on one thread: an environment (\<open>coroutine_env.cpp\<close>) owns a run queue, a
  dispatcher of tasks (\<open>dispatch.cpp\<close>), a time wheel (\<open>timewheel.cpp\<close>) and the pools of stacks. A coroutine gives
  up the processor by \<open>yield\<close>, is continued by \<open>resume\<close>, and waits in wait queues (\<open>wait_queue.cpp\<close>) whose timers
  the wheel fires; objects that live as long as their coroutine are kept by \<open>gc.cpp\<close>. \<open>base/\<close> holds the
  containers and helpers all of this is built on: intrusive lists and hash lists (\<open>list.h\<close>), hash tables
  (\<open>hash_table_base.h\<close>, \<open>int_map.h\<close>, \<open>str_map.h\<close>), pools (\<open>fixed_mempool.cpp\<close>, \<open>lifo.h\<close>, \<open>fifo.h\<close>), a lock-free list
  (\<open>llist.h\<close>) between threads, a ring of descriptors between processes (\<open>fd_queue.cpp\<close>), hash functions, random
  numbers and text codecs. \<open>svrkit/\<close> builds servers; its load balancer (\<open>load_balance.h\<close>) picks the hosts. \<open>qjs/\<close> is
  QuickJS, of which \<open>cutils.c\<close>, \<open>libunicode.c\<close>, the regular expressions (\<open>libregexp.c\<close>) and the integer arithmetic of \<open>libbf.c\<close> are
  modelled.

  \<^bold>\<open>Theories.\<close>

    \<^item> \<open>Prelude\<close>: machine types, bounded memory reads and writes, generic lemmas.
    \<^item> \<open>CList\<close>, \<open>ListStore\<close>: the circular lists of \<open>base/list.h\<close> over a heap of \<open>next\<close> and \<open>prev\<close> fields, each operation
      related to the sequence of nodes it represents (\<open>is_list\<close>). The locale \<open>link_store\<close> states what the clients of
      the lists rely on (many disjoint lists over a set of nodes, \<open>list_rel\<close>), and is interpreted as \<open>list_h\<close>.
    \<^item> \<open>Dispatch\<close>: the registered and delayed tasks of \<open>core/src/dispatch.cpp\<close>.
    \<^item> \<open>Coroutine\<close>: \<open>resume\<close>, \<open>yield\<close>, \<open>wait\<close>, the end of a coroutine and its exit notification, as state changes up
      to the jump; \<open>co_reach\<close> is the step relation of the scheduler. The invariant says that the run queue is the
      stack of the calls of \<open>resume\<close> that have not returned.
    \<^item> \<open>WaitQueue\<close>: the wait queues on top of the scheduler.
    \<^item> \<open>PCond\<close>: the condition variables of \<open>core/src/pthread_hook.cpp\<close>, from the signal over the lock-free schedule
      queue of an environment to the callback that should resume the waiters; what the callback does with memory that is no context is
      a result of its own, \<open>Undefined\<close>.
    \<^item> \<open>FdCtx\<close>: the table of descriptor contexts of \<open>core/src/fd_ctx.cpp\<close>, refined to a map up to the entry past its end.
    \<^item> \<open>Timewheel\<close>: the wheel of \<open>core/src/timewheel.cpp\<close> with its 64-bit clock arithmetic and its \<open>int\<close> counter of
      tasks; callbacks are arguments, of which most properties ask that they leave the wheel alone.
    \<^item> \<open>CoTimer\<close>: the timers of \<open>core/src/coroutine.cpp\<close> that run a function in a coroutine, on top of the wheel; the functions run to completion; what
      they do in a check is the sequence of their callbacks in the order of the firings (\<open>logged\<close>).
    \<^item> \<open>HList\<close>, \<open>HashTable\<close>: hash lists and the tables over them, refined to finite maps.
    \<^item> \<open>Mempool\<close>, \<open>Gc\<close>, \<open>CoStack\<close>: the pools, the blocks of a coroutine, and its structure, stack and tables of
      variables on top of both.
    \<^item> \<open>LList\<close>, \<open>FdQueue\<close>: shared memory, split at each access and interleaved; the ring is the list of the entries that are mapped.
    \<^item> \<open>Hash\<close>, \<open>Rand\<close>, \<open>Base64\<close>, \<open>Text\<close>, \<open>Numbers\<close>: \<open>bobhash.cpp\<close>, \<open>murmurhash3.cpp\<close>, \<open>random.h\<close>, \<open>base64.cpp\<close>,
      \<open>url_encode.cpp\<close>, \<open>string_builder.h\<close>, \<open>ref_str.h\<close>, \<open>string2number.h\<close>.
    \<^item> \<open>LoadBalance\<close>: \<open>ip_list.h\<close> and \<open>load_balance.h\<close>; the network is an argument.
    \<^item> \<open>Cutils\<close>, \<open>Dynbuf\<close>, \<open>Utf8\<close>, \<open>Exchange\<close>, \<open>Rqsort\<close>, \<open>RqsortSorted\<close>: \<open>qjs/cutils.c\<close>, and the sort it carries with
      its element exchanges.
    \<^item> \<open>Mpn\<close>, \<open>MpDiv\<close>: the arrays of limbs of \<open>qjs/libbf.c\<close>, each operation related to the number an array stands
      for (\<open>val\<close>), with the wrapped 64-bit and 128-bit arithmetic of the source.
    \<^item> \<open>CharRange\<close>, \<open>UnicodeCase\<close>, \<open>CaseTables\<close>, \<open>UnicodeNorm\<close>, \<open>Normalize\<close>: \<open>qjs/libunicode.c\<close>; the generated tables
      are arguments, except those of the case conversion, which are the ones of \<open>libunicode-table.h\<close>.
    \<^item> \<open>Regexp\<close>: the executor of \<open>qjs/libregexp.c\<close>, a machine for byte code with a stack of states; \<open>RegexpSem\<close>: ordered backtracking
      as a big-step relation (\<open>bt\<close>), which the machine implements.
    \<^item> \<open>RegexpText\<close>, \<open>RegexpParse\<close>: the compiler, from the bytes of a pattern to byte code, with its syntax errors; \<open>RegexpEmit\<close>: the
      code it emits and its analyses of code, and the specification of the code of a tree (\<open>emit\<close>, \<open>compile_regex\<close>).
    \<^item> \<open>RegexpCode\<close>, \<open>RegexpSimple\<close>, \<open>RegexpScan\<close>, \<open>RegexpGood\<close>, \<open>RegexpQuant\<close>, \<open>RegexpRange\<close>, \<open>RegexpCompile\<close>: the code of each construct
      tries the results of the pattern (\<open>den\<close>) in order, and the analyses are right about it; together, that compiled patterns are
      executed as they read. \<open>RegexpLex\<close>, \<open>RegexpPrint\<close>: the parser reads back what a printer writes for a tree. \<open>RegexpProps\<close> puts both
      together for texts; \<open>RegexpFlaws\<close> has the patterns that are not executed as they read.

  \<^bold>\<open>State and errors.\<close> A struct is a record and a heap of structs a record of field functions over addresses; \<open>NULL\<close>
  is 0. Operations pass the state. \<open>None\<close> stands for what the source leaves undefined or where it aborts: a read
  outside a buffer, the dereference of a null pointer, an empty run queue. Return codes are integers as in the source.

  \<^bold>\<open>Loops.\<close> A loop over a structure whose shape is only an invariant takes fuel and returns \<open>None\<close> when it runs out:
  one unit per node and one for the head is enough for the list walks, and the functional properties say so for
  every larger fuel. The executor of regular expressions takes fuel per instruction, and its properties say that some fuel is enough, or that
  none is; the parser's loops take the length of the pattern, and its recursion a depth that stands for the room on the processor stack. The properties of divergence say that no fuel is enough. Other loops are total functions with
  a termination proof. The correction loop of the division is shown to need at most two rounds.

  \<^bold>\<open>Concurrency.\<close> The models of \<open>LList\<close> and \<open>FdQueue\<close> assume sequential consistency, with the compiler's builtins as single
  atomic steps. Coroutines interleave only at \<open>resume\<close>, \<open>yield\<close> and their end.

  \<^bold>\<open>Not modelled.\<close> The context switch in assembler, system calls and the hooks that replace them (sockets, epoll,
  disk, name resolution), the logger's output, code generated by Ragel or protobuf, the Lua, JSON, XML and sqlite
  bindings, the servers of \<open>svrkit/\<close>, which are loops around system calls, and of QuickJS the engine itself, its
  standard library, the floating point numbers, the generator of the Unicode tables and the command line tools.
\<close>

end
